(* ===== verification/Prelude.thy ===== *)
theory Prelude
  imports Main "HOL-Library.Word" "HOL-Library.While_Combinator"
begin

unbundle bit_operations_syntax

section \<open>Machine words, counted loops and lists\<close>

text \<open>
  What the components share: the widths of C's integer types on an LP64 platform, facts that
  read a word through \<open>unat\<close>, the alignment helpers of \<open>src/src/gc-align.h\<close>, and the loop
  rule for a C loop that counts a \<open>size_t\<close> upwards until its guard fails
  (\<open>while_option\<close>; \<open>None\<close> means that the loop never stops).
\<close>

type_synonym u8 = "8 word"
type_synonym u16 = "16 word"
type_synonym u32 = "32 word"
type_synonym u64 = "64 word"

text \<open>\<open>struct gc_ref\<close> and the null reference of \<open>src/api/gc-ref.h\<close>; a \<open>struct gc_edge\<close> is an address.\<close>

type_synonym gc_ref = u64

definition gc_ref_null :: gc_ref where
  "gc_ref_null = 0"

definition gc_ref_is_null :: "gc_ref \<Rightarrow> bool" where
  "gc_ref_is_null ref = (ref = 0)"

text \<open>\<open>src/src/gc-align.h\<close>.\<close>

definition align_down :: "u64 \<Rightarrow> u64 \<Rightarrow> u64" where
  "align_down addr align = addr AND NOT (align - 1)"

definition align_up :: "u64 \<Rightarrow> u64 \<Rightarrow> u64" where
  "align_up addr align = align_down (addr + align - 1) align"

named_theorems unat_simps \<open>rules that push unat through the arithmetic of the model\<close>

subsection \<open>Offsets around a ring\<close>

lemma add_diff_mod:
  assumes "0 < (n::nat)"
  shows "(a + (i + n - a mod n) mod n) mod n = i mod n"
proof -
  have "a mod n < n" using assms by simp
  have "(a + (i + n - a mod n) mod n) mod n = (a mod n + (i + n - a mod n)) mod n"
    by (simp add: mod_simps)
  also have "a mod n + (i + n - a mod n) = i + n"
    using \<open>a mod n < n\<close> by simp
  finally show ?thesis by simp
qed

lemma mod_add_cancel_left:
  fixes n :: nat
  assumes "(a + c) mod n = (a + d) mod n"
  shows "c mod n = d mod n"
proof -
  have "(int (a + c) - int a) mod int n = (int (a + d) - int a) mod int n"
    by (rule mod_diff_cong) (simp_all only: zmod_int[symmetric] assms)
  then have "int (c mod n) = int (d mod n)" by (simp add: zmod_int)
  then show ?thesis by simp
qed

lemma mod_diff_unique:
  assumes "0 < (n::nat)" "(a + c) mod n = i mod n" "c < n"
  shows "(i + n - a mod n) mod n = c"
proof -
  have "(a + (i + n - a mod n) mod n) mod n = (a + c) mod n"
    using add_diff_mod[of n a i] assms by simp
  then have "(i + n - a mod n) mod n mod n = c mod n" by (rule mod_add_cancel_left)
  then show ?thesis using assms(1,3) by simp
qed

lemma mod_ring_eq:
  assumes "(i::nat) mod n = j mod n" "i \<le> j" "j < i + n"
  shows "i = j"
proof -
  have "(i + 0) mod n = (i + (j - i)) mod n" using assms by simp
  then have "0 mod n = (j - i) mod n" by (rule mod_add_cancel_left)
  then show ?thesis using assms by simp
qed

subsection \<open>Words as natural numbers\<close>

lemma u64_bound: "unat (w :: u64) < 2 ^ 64"
  using unsigned_less[of w] by simp

lemma unat_of_nat_u64: "n < 2 ^ 64 \<Longrightarrow> unat (of_nat n :: u64) = n"
  by (simp add: unat_of_nat)

lemma and_exp_minus_1 [unat_simps]:
  fixes w :: "'a::len word"
  shows "unat (w AND (2 ^ p - 1)) = unat w mod 2 ^ p"
proof -
  have "w AND (2 ^ p - 1) = take_bit p w"
    by (simp add: take_bit_eq_mask mask_eq_exp_minus_1)
  then have "unat (w AND (2 ^ p - 1)) = take_bit p (unat w)"
    by (simp only: unsigned_take_bit_eq)
  then show ?thesis by (simp add: take_bit_eq_mod)
qed

lemma unat_exp [unat_simps]:
  "p < LENGTH('a) \<Longrightarrow> unat (2 ^ p :: 'a::len word) = 2 ^ p"
  using unat_of_nat[of "2 ^ p", where 'a = 'a] by simp

lemma unat_mod_exp:
  fixes w :: "'a::len word"
  assumes "p \<le> LENGTH('a)"
  shows "unat (word_of_nat m + w) mod 2 ^ p = (m + unat w) mod 2 ^ p"
proof -
  have d: "(2::nat) ^ p dvd 2 ^ LENGTH('a)" using assms by (simp add: le_imp_power_dvd)
  have "unat (word_of_nat m + w) mod 2 ^ p = ((m mod 2 ^ LENGTH('a) + unat w) mod 2 ^ LENGTH('a)) mod 2 ^ p"
    by (simp add: unat_word_ariths unat_of_nat)
  also have "\<dots> = (m + unat w) mod 2 ^ p"
    using d by (simp add: mod_mod_cancel mod_add_left_eq)
  finally show ?thesis .
qed

lemma unat_mod_exp':
  fixes w :: "'a::len word"
  assumes "p \<le> LENGTH('a)"
  shows "unat (w + word_of_nat m) mod 2 ^ p = (unat w + m) mod 2 ^ p"
  using unat_mod_exp[OF assms, of m w] by (simp add: add.commute)

lemma unat_diff_mod_exp:
  fixes w v :: "'a::len word"
  assumes "p \<le> LENGTH('a)"
  shows "unat (w - v) mod 2 ^ p = (unat w + 2 ^ p - unat v mod 2 ^ p) mod 2 ^ p"
proof -
  have d: "(2::nat) ^ p dvd 2 ^ LENGTH('a)" using assms by (simp add: le_imp_power_dvd)
  have "(unat (w - v) + unat v) mod 2 ^ LENGTH('a) = unat w"
    using unat_word_ariths(1)[of "w - v" v] by simp
  then have *: "(unat (w - v) + unat v) mod 2 ^ p = unat w mod 2 ^ p"
    using mod_mod_cancel[OF d, of "unat (w - v) + unat v"] by simp
  have "(unat v + unat (w - v)) mod 2 ^ p = (unat v + (unat w + 2 ^ p - unat v mod 2 ^ p) mod 2 ^ p) mod 2 ^ p"
    using * add_diff_mod[of "2 ^ p" "unat v" "unat w"] by (simp add: add.commute)
  from mod_add_cancel_left[OF this] show ?thesis by simp
qed

lemma unat_align_down:
  fixes x :: u64
  assumes "p < 64"
  shows "unat (align_down x (2 ^ p)) = unat x - unat x mod 2 ^ p"
proof -
  let ?r = "x AND (2 ^ p - 1)"
  have "x - ?r = x AND NOT ?r" by (rule disjunctive_diff) (simp add: bit_simps)
  also have "\<dots> = x AND NOT (2 ^ p - 1)" by (rule bit_word_eqI) (auto simp: bit_simps)
  finally have "align_down x (2 ^ p) = x - ?r" by (simp add: align_down_def)
  moreover have r: "unat ?r = unat x mod 2 ^ p" by (simp add: unat_simps)
  moreover have "?r \<le> x" unfolding word_le_nat_alt r by (rule mod_less_eq_dividend)
  ultimately show ?thesis by (simp add: unat_sub)
qed

subsection \<open>Loops that count upwards\<close>

lemma while_option_count:
  fixes s :: "'a::len word"
  assumes "\<And>i. i < n \<Longrightarrow> P (s + of_nat i)" and "\<not> P (s + of_nat n)"
  shows "while_option P (\<lambda>d. d + 1) s = Some (s + of_nat n)"
  using assms
proof (induction n arbitrary: s)
  case 0
  then show ?case by (subst while_option_unfold) simp
next
  case (Suc n)
  have "while_option P (\<lambda>d. d + 1) (s + 1) = Some (s + 1 + of_nat n)"
  proof (rule Suc.IH)
    show "P (s + 1 + of_nat i)" if "i < n" for i
      using Suc.prems(1)[of "Suc i"] that by (simp add: ac_simps)
    show "\<not> P (s + 1 + of_nat n)"
      using Suc.prems(2) by (simp add: ac_simps)
  qed
  moreover have "P s" using Suc.prems(1)[of 0] by simp
  ultimately show ?case
    by (subst while_option_unfold) (simp add: ac_simps)
qed

lemma least_stop:
  assumes "\<not> P (n::nat)"
  obtains m where "m \<le> n" "\<not> P m" "\<And>i. i < m \<Longrightarrow> P i"
  using ex_least_nat_le[of "\<lambda>i. \<not> P i" n] assms by auto

subsection \<open>Results: faults and loops that may not end\<close>

text \<open>
  \<open>Crash\<close> is \<open>GC_CRASH\<close>, \<open>__builtin_trap\<close> or a failed run-time check; \<open>Diverge\<close> is a loop that
  never stops. A loop whose bound is not in its text is a \<open>while_loop\<close>.
\<close>

datatype fault = Crash | Diverge

type_synonym 'a result = "fault + 'a"

fun result_bind :: "'a result \<Rightarrow> ('a \<Rightarrow> 'b result) \<Rightarrow> 'b result" where
  "result_bind (Inl e) f = Inl e"
| "result_bind (Inr x) f = f x"

definition while_loop :: "('a \<Rightarrow> bool) \<Rightarrow> ('a \<Rightarrow> 'a) \<Rightarrow> 'a \<Rightarrow> 'a result" where
  "while_loop P f s = (case while_option P f s of None \<Rightarrow> Inl Diverge | Some x \<Rightarrow> Inr x)"

primrec result_fold :: "('i \<Rightarrow> 's \<Rightarrow> 's result) \<Rightarrow> 'i list \<Rightarrow> 's \<Rightarrow> 's result" where
  "result_fold f [] s = Inr s"
| "result_fold f (i # is) s = result_bind (f i s) (result_fold f is)"

lemma result_bind_Inr [simp]: "result_bind r Inr = r"
  by (cases r) auto

lemma result_bind_assoc:
  "result_bind (result_bind r f) g = result_bind r (\<lambda>x. result_bind (f x) g)"
  by (cases r) auto

lemma result_bind_eq_Inr:
  "result_bind r f = Inr y \<longleftrightarrow> (\<exists>x. r = Inr x \<and> f x = Inr y)"
  by (cases r) auto

lemma while_loop_count:
  fixes s :: "'a::len word"
  assumes "\<And>i. i < n \<Longrightarrow> P (s + of_nat i)" and "\<not> P (s + of_nat n)"
  shows "while_loop P (\<lambda>d. d + 1) s = Inr (s + of_nat n)"
  using while_option_count[of n P s, OF assms] by (simp add: while_loop_def)

lemma while_loop_unfold: "while_loop P f s = (if P s then while_loop P f (f s) else Inr s)"
  unfolding while_loop_def by (subst while_option_unfold) simp

lemma result_fold_append:
  "result_fold f (is @ js) s = result_bind (result_fold f is s) (result_fold f js)"
proof (induction "is" arbitrary: s)
  case (Cons i "is")
  then show ?case by (cases "f i s") auto
qed simp

text \<open>A fold whose every step succeeds and keeps an invariant indexed by what was consumed.\<close>

lemma result_fold_invariant:
  assumes "I [] s"
    and "\<And>is i js s. xs = is @ i # js \<Longrightarrow> I is s \<Longrightarrow> \<exists>s'. f i s = Inr s' \<and> I (is @ [i]) s'"
  shows "\<exists>s'. result_fold f xs s = Inr s' \<and> I xs s'"
  using assms
proof (induction xs arbitrary: I s)
  case (Cons x xs)
  obtain s' where s': "f x s = Inr s'" "I [x] s'"
    using Cons.prems(2)[of "[]" x xs s] Cons.prems(1) by auto
  have "\<exists>t. result_fold f xs s' = Inr t \<and> (\<lambda>is. I (x # is)) xs t"
  proof (rule Cons.IH)
    show "\<exists>s'. f i s = Inr s' \<and> I (x # is @ [i]) s'" if "xs = is @ i # js" "I (x # is) s" for "is" i js s
      using Cons.prems(2)[of "x # is" i js s] that by simp
  qed (rule s'(2))
  then show ?case using s'(1) by simp
qed simp

text \<open>A fold over indices that skips some of them is a fold over the list of what they select.\<close>

lemma result_fold_filter:
  "result_fold (\<lambda>i s. if P i then f (h i) s else Inr s) xs s = result_fold f [h i. i \<leftarrow> xs, P i] s"
proof (induction xs arbitrary: s)
  case (Cons x xs)
  then show ?case by (cases "f (h x) s") auto
qed simp

lemma fold_filter:
  "fold (\<lambda>i s. if P i then f (h i) s else s) xs s = fold f [h i. i \<leftarrow> xs, P i] s"
  by (induction xs arbitrary: s) auto

text \<open>A loop whose body may fault.\<close>

definition while_result :: "('a \<Rightarrow> bool) \<Rightarrow> ('a \<Rightarrow> 'a result) \<Rightarrow> 'a \<Rightarrow> 'a result" where
  "while_result P f s =
    (case while_option (\<lambda>r. case r of Inl _ \<Rightarrow> False | Inr s \<Rightarrow> P s) (\<lambda>r. result_bind r f) (Inr s)
     of None \<Rightarrow> Inl Diverge | Some r \<Rightarrow> r)"

lemma while_result_unfold:
  "while_result P f s = (if P s then result_bind (f s) (while_result P f) else Inr s)"
proof (cases "P s")
  case True
  then show ?thesis
    by (cases "f s") (simp_all add: while_result_def while_option_unfold[of _ _ "Inr s"]
        while_option_unfold[of _ _ "Inl _"])
next
  case False
  then show ?thesis by (simp add: while_result_def while_option_unfold[of _ _ "Inr s"])
qed

subsection \<open>Simulations\<close>

fun map_result :: "('a \<Rightarrow> 'b) \<Rightarrow> 'a result \<Rightarrow> 'b result" where
  "map_result h (Inl e) = Inl e"
| "map_result h (Inr x) = Inr (h x)"

lemma map_result_eq_Inr: "map_result h r = Inr y \<longleftrightarrow> (\<exists>x. r = Inr x \<and> h x = y)"
  by (cases r) auto

text \<open>When \<open>h\<close> maps the states of one program to those of another, its loops and folds correspond.\<close>

lemma while_loop_commute:
  assumes "\<And>s. I s \<Longrightarrow> P s = Q (h s)" "\<And>s. I s \<Longrightarrow> P s \<Longrightarrow> h (f s) = g (h s)"
    and "\<And>s. I s \<Longrightarrow> P s \<Longrightarrow> I (f s)" "I s"
  shows "while_loop Q g (h s) = map_result h (while_loop P f s)"
proof -
  have "while_option Q g (h s) = map_option h (while_option P f s)"
    by (rule while_option_commute_invariant[where P = I, symmetric]) (use assms in auto)
  then show ?thesis unfolding while_loop_def by (cases "while_option P f s") auto
qed

lemma while_loop_rule:
  assumes "while_loop P f s = Inr t" "I s" "\<And>s. I s \<Longrightarrow> P s \<Longrightarrow> I (f s)"
  shows "I t \<and> \<not> P t"
proof -
  have "while_option P f s = Some t"
    using assms(1) by (simp add: while_loop_def split: option.splits)
  then show ?thesis using while_option_rule[of I P f s t] while_option_stop[of P f s t] assms(2,3) by blast
qed

lemma result_bind_map_result:
  "result_bind (map_result h r) f = result_bind r (\<lambda>x. f (h x))"
  by (cases r) auto

lemma map_result_bind:
  "map_result h (result_bind r f) = result_bind r (\<lambda>x. map_result h (f x))"
  by (cases r) auto

lemma result_fold_commute:
  assumes "\<And>i s. i \<in> set xs \<Longrightarrow> I s \<Longrightarrow> F i (h s) = map_result h (f i s)"
    and "\<And>i s s'. i \<in> set xs \<Longrightarrow> I s \<Longrightarrow> f i s = Inr s' \<Longrightarrow> I s'" and "I s"
  shows "result_fold F xs (h s) = map_result h (result_fold f xs s)"
  using assms
proof (induction xs arbitrary: s)
  case (Cons x xs)
  have eq: "F x (h s) = map_result h (f x s)" using Cons.prems by simp
  show ?case
  proof (cases "f x s")
    case (Inr s')
    have "result_fold F xs (h s') = map_result h (result_fold f xs s')"
    proof (rule Cons.IH)
      show "F i (h s) = map_result h (f i s)" if "i \<in> set xs" "I s" for i s
        using Cons.prems(1) that by simp
      show "I s'" if "i \<in> set xs" "I s" "f i s = Inr s'" for i s s'
        using Cons.prems(2)[of i s s'] that by simp
      show "I s'" using Cons.prems(2)[of x s s'] Cons.prems(3) Inr by simp
    qed
    then show ?thesis using Inr eq by simp
  qed (use eq in simp)
qed simp

lemma while_loop_True: "while_loop (\<lambda>_. True) f s = Inl Diverge"
proof (cases "while_loop (\<lambda>_. True) f s")
  case (Inl e)
  then show ?thesis by (cases e) (auto simp: while_loop_def split: option.splits)
next
  case (Inr t)
  then show ?thesis using while_loop_rule[OF Inr, of "\<lambda>_. True"] by simp
qed

lemma while_loop_result: "while_loop P f s \<noteq> Inl Crash"
  by (auto simp: while_loop_def split: option.splits)

lemma while_loop_total:
  assumes "I s" and "\<And>s. I s \<Longrightarrow> P s \<Longrightarrow> I (f s) \<and> m (f s) < (m s :: nat)"
  obtains t where "while_loop P f s = Inr t" "I t" "\<not> P t"
proof -
  have "\<exists>t. while_option P f s = Some t"
    by (rule measure_while_option_Some[where P = I and f = m]) (use assms in auto)
  then obtain t where "while_loop P f s = Inr t" by (auto simp: while_loop_def)
  then show thesis using while_loop_rule[of P f s t I] assms that by blast
qed

subsection \<open>Counting loops that break\<close>

text \<open>\<open>for (; i < n; i++) if (P (i)) break;\<close> and the index where it stops.\<close>

function break_index :: "(nat \<Rightarrow> bool) \<Rightarrow> nat \<Rightarrow> nat \<Rightarrow> nat" where
  "break_index P i n = (if i < n then if P i then i else break_index P (i + 1) n else i)"
  by auto
termination by (relation "measure (\<lambda>(P, i, n). n - i)") auto

declare break_index.simps [simp del]

lemma break_index_stops: "break_index P i n < n \<Longrightarrow> P (break_index P i n)"
proof (induction P i n rule: break_index.induct)
  case (1 P i n)
  then show ?case by (subst break_index.simps, subst (asm) (3) break_index.simps) (auto split: if_splits)
qed

lemma break_index_list:
  assumes "i \<le> length xs" "\<And>k. i \<le> k \<Longrightarrow> k < length xs \<Longrightarrow> P k = Q (xs ! k)"
  shows "break_index P i (length xs) = i + length (takeWhile (\<lambda>x. \<not> Q x) (drop i xs))"
  using assms
proof (induction P i "length xs" rule: break_index.induct)
  case (1 P i)
  show ?case
  proof (cases "i < length xs")
    case True
    then have "drop i xs = xs ! i # drop (Suc i) xs" by (simp add: Cons_nth_drop_Suc)
    then show ?thesis using True 1 by (simp add: break_index.simps[of P i])
  next
    case False
    then show ?thesis using 1(2) by (subst break_index.simps) simp
  qed
qed

lemma fold_nth:
  assumes "n \<le> length xs"
  shows "fold (\<lambda>i. f (xs ! i)) [0..<n] s = fold f (take n xs) s"
proof -
  have "fold (\<lambda>i. f (xs ! i)) [0..<n] s = fold f (map ((!) xs) [0..<n]) s" by (simp add: fold_map comp_def)
  moreover have "map ((!) xs) [0..<n] = take n xs" using assms by (intro nth_equalityI) auto
  ultimately show ?thesis by simp
qed

subsection \<open>Assertions, and copying between arrays\<close>

definition gc_assert :: "bool \<Rightarrow> unit result" where
  "gc_assert b = (if b then Inr () else Inl Crash)"

lemma gc_assert_simps [simp]: "gc_assert True = Inr ()" "gc_assert False = Inl Crash"
  by (simp_all add: gc_assert_def)

text \<open>\<open>memcpy\<close> and \<open>memmove\<close> of \<open>n\<close> elements from \<open>src\<close> at \<open>s\<close> to \<open>dst\<close> at \<open>d\<close>.\<close>

definition list_copy :: "'a list \<Rightarrow> nat \<Rightarrow> 'a list \<Rightarrow> nat \<Rightarrow> nat \<Rightarrow> 'a list" where
  "list_copy dst d src s n = take d dst @ take n (drop s src) @ drop (d + n) dst"

lemma length_list_copy [simp]:
  "d + n \<le> length dst \<Longrightarrow> s + n \<le> length src \<Longrightarrow> length (list_copy dst d src s n) = length dst"
  by (simp add: list_copy_def)

end
