(* ===== verification/Chains.thy ===== *)
theory Chains
  imports Prelude "HOL-Library.Multiset"
begin

text \<open>
  Null-terminated lists that are threaded through a link field of the objects they hold, as the
  finalizer tables, the ephemeron sets and the block lists of the spaces are. The link field is
  read through a function \<open>nxt\<close> from an object's address to the address of its successor.
\<close>

fun chain :: "(u64 \<Rightarrow> u64) \<Rightarrow> u64 \<Rightarrow> u64 list \<Rightarrow> bool" where
  "chain nxt p [] \<longleftrightarrow> p = 0"
| "chain nxt p (x # xs) \<longleftrightarrow> p = x \<and> x \<noteq> 0 \<and> chain nxt (nxt x) xs"

lemma chain_null [simp]: "chain nxt 0 xs \<longleftrightarrow> xs = []"
  by (cases xs) auto

lemma chain_cong:
  assumes "\<And>x. x \<in> set xs \<Longrightarrow> nxt x = nxt' x"
  shows "chain nxt p xs = chain nxt' p xs"
  using assms by (induction xs arbitrary: p) auto

lemma chain_functional: "chain nxt p xs \<Longrightarrow> chain nxt p ys \<Longrightarrow> xs = ys"
  by (induction xs arbitrary: p ys) (auto elim: chain.elims)

lemma chain_nonzero: "chain nxt p xs \<Longrightarrow> 0 \<notin> set xs"
  by (induction xs arbitrary: p) auto

lemma chain_suffix: "chain nxt p (xs @ x # ys) \<Longrightarrow> chain nxt x (x # ys)"
  by (induction xs arbitrary: p) auto

lemma chain_distinct: "chain nxt p xs \<Longrightarrow> distinct xs"
proof (induction xs arbitrary: p)
  case (Cons x xs)
  have "x \<notin> set xs"
  proof
    assume "x \<in> set xs"
    then obtain ys zs where s: "xs = ys @ x # zs" by (meson split_list)
    have "chain nxt x (x # zs)" using Cons.prems chain_suffix[of nxt p "x # ys" x zs] s by simp
    then have "x # zs = x # xs" using Cons.prems chain_functional[of nxt x "x # zs" "x # xs"] by auto
    then show False using s by simp
  qed
  then show ?case using Cons by auto
qed simp

lemma chain_update: "x \<notin> set xs \<Longrightarrow> chain (nxt(x := v)) p xs = chain nxt p xs"
  by (rule chain_cong) auto

lemma chain_push:
  assumes "chain nxt p xs" "x \<noteq> 0" "x \<notin> set xs"
  shows "chain (nxt(x := p)) x (x # xs)"
  using assms by (simp add: chain_update)

text \<open>Lists of lists: several chains through the same objects, one of which changes.\<close>

lemma concat_update_mset:
  assumes "b < length bl"
  shows "mset (concat (bl[b := x # bl ! b])) = add_mset x (mset (concat bl))"
proof -
  define xs ys where "xs = take b bl" and "ys = drop (Suc b) bl"
  have "concat bl = concat xs @ bl ! b @ concat ys"
    unfolding xs_def ys_def using arg_cong[OF id_take_nth_drop[OF assms], of concat] by simp
  moreover have "concat (bl[b := x # bl ! b]) = concat xs @ (x # bl ! b) @ concat ys"
    unfolding xs_def ys_def upd_conv_take_nth_drop[OF assms] by simp
  ultimately show ?thesis by simp
qed

lemma mset_add_facts:
  assumes "mset ys = add_mset x (mset xs)"
  shows "set ys = insert x (set xs)" "length ys = Suc (length xs)"
    "distinct ys \<longleftrightarrow> x \<notin> set xs \<and> distinct xs"
proof -
  have m: "mset ys = mset (x # xs)" using assms by simp
  show "set ys = insert x (set xs)" using mset_eq_setD[OF m] by simp
  show "length ys = Suc (length xs)" using mset_eq_length[OF m] by simp
  show "distinct ys \<longleftrightarrow> x \<notin> set xs \<and> distinct xs" using mset_eq_imp_distinct_iff[OF m] by simp
qed

end
