(* ===== verification/Doubles.thy ===== *)
theory Doubles
  imports Prelude "HOL-Library.Log_Nat"
begin

text \<open>
  The part of IEEE double arithmetic that the collector's index computations use: the conversion of
  an integer, which rounds to the nearest number with a 53-bit significand and to the even one of
  two that are equally near. A product with a power of two is exact.
\<close>

definition double_of_nat :: "nat \<Rightarrow> nat" where
  "double_of_nat n =
    (if n < 2 ^ 53 then n
     else
       (let e = floorlog 2 n - 53; q = n div 2 ^ e; r = n mod 2 ^ e
        in (if 2 * r < 2 ^ e \<or> 2 * r = 2 ^ e \<and> even q then q else q + 1) * 2 ^ e))"

lemma double_of_nat_small: "n < 2 ^ 53 \<Longrightarrow> double_of_nat n = n"
  by (simp add: double_of_nat_def)

lemma double_exponent:
  assumes "2 ^ 53 \<le> n"
  shows "2 ^ (52 + (floorlog 2 n - 53)) \<le> n" "n < 2 ^ (53 + (floorlog 2 n - 53))" "floorlog 2 n > 53"
proof -
  have n: "n > 0" using assms by (meson less_le_trans zero_less_numeral zero_less_power)
  have b: "2 ^ (floorlog 2 n - 1) \<le> n" "n < 2 ^ floorlog 2 n"
    using floorlog_bounds[OF n, of 2] by auto
  show "floorlog 2 n > 53"
  proof (rule ccontr)
    assume "\<not> floorlog 2 n > 53"
    then have "(2::nat) ^ floorlog 2 n \<le> 2 ^ 53" by (intro power_increasing) auto
    then show False using b(2) assms by simp
  qed
  then have "52 + (floorlog 2 n - 53) = floorlog 2 n - 1" "53 + (floorlog 2 n - 53) = floorlog 2 n"
    by simp_all
  then show "2 ^ (52 + (floorlog 2 n - 53)) \<le> n" "n < 2 ^ (53 + (floorlog 2 n - 53))"
    using b by simp_all
qed

text \<open>The value is off by at most half of a unit in the last place, which is \<open>2 ^ e\<close>.\<close>

lemma double_of_nat_error:
  assumes "2 ^ 53 \<le> n"
  defines "e \<equiv> floorlog 2 n - 53"
  shows "2 * double_of_nat n \<le> 2 * n + 2 ^ e"
proof -
  define q r where "q = n div 2 ^ e" and "r = n mod 2 ^ e"
  have n: "n = q * 2 ^ e + r" by (simp only: q_def r_def div_mult_mod_eq)
  have r: "r < 2 ^ e" by (simp add: r_def)
  have d: "double_of_nat n = (if 2 * r < 2 ^ e \<or> 2 * r = 2 ^ e \<and> even q then q else q + 1) * 2 ^ e"
    using assms by (simp add: double_of_nat_def Let_def q_def r_def)
  show ?thesis using n r unfolding d by (auto simp: algebra_simps)
qed

lemma double_of_nat_exact:
  assumes "n < 2 ^ 53"
  shows "double_of_nat (2 ^ k * n) = 2 ^ k * n"
proof (cases "2 ^ k * n < 2 ^ 53")
  case False
  define m e where "m = 2 ^ k * n" and "e = floorlog 2 m - 53"
  have m: "2 ^ 53 \<le> m" using False by (simp add: m_def)
  have "2 ^ (52 + e) \<le> m" unfolding e_def by (rule double_exponent[OF m])
  also have "m < 2 ^ k * 2 ^ 53" unfolding m_def by (rule mult_strict_left_mono) (use assms in auto)
  finally have "(2::nat) ^ (52 + e) < 2 ^ (k + 53)" by (simp add: power_add)
  then have "e \<le> k" using power_less_imp_less_exp[of "2::nat" "52 + e" "k + 53"] by simp
  then have "2 ^ e dvd m" unfolding m_def by (simp add: le_imp_power_dvd)
  then have "double_of_nat m = m" using m by (simp add: double_of_nat_def Let_def e_def[symmetric])
  then show ?thesis by (simp add: m_def)
qed (simp add: double_of_nat_def)

text \<open>The largest 64-bit integers round up to \<open>2 ^ 64\<close>, all others stay below it.\<close>

lemma double_of_nat_64:
  assumes "n < 2 ^ 64"
  shows "double_of_nat n \<le> 2 ^ 64"
    and "n < 2 ^ 64 - 2 ^ 10 \<Longrightarrow> double_of_nat n \<le> 2 ^ 64 - 2 ^ 11"
    and "2 ^ 64 - 2 ^ 10 \<le> n \<Longrightarrow> double_of_nat n = 2 ^ 64"
proof -
  have "double_of_nat n \<le> 2 ^ 64 \<and> (n < 2 ^ 64 - 2 ^ 10 \<longrightarrow> double_of_nat n \<le> 2 ^ 64 - 2 ^ 11)
    \<and> (2 ^ 64 - 2 ^ 10 \<le> n \<longrightarrow> double_of_nat n = 2 ^ 64)"
  proof (cases "n < 2 ^ 63")
    case True
    have "double_of_nat n \<le> 2 ^ 64 - 2 ^ 11"
    proof (cases "2 ^ 53 \<le> n")
      case big: True
      have "2 ^ 52 * 2 ^ (floorlog 2 n - 53) \<le> n"
        using double_exponent(1)[OF big] by (simp only: power_add)
      then show ?thesis using double_of_nat_error[OF big] True by simp
    qed (use True in \<open>simp add: double_of_nat_def\<close>)
    then show ?thesis using True by simp
  next
    case False
    then have big: "2 ^ 53 \<le> n" by simp
    let ?e = "floorlog 2 n - 53"
    have "(2::nat) ^ (52 + ?e) < 2 ^ 64" "(2::nat) ^ 63 < 2 ^ (53 + ?e)"
      using double_exponent[OF big] assms False by linarith+
    then have "52 + ?e < 64" "63 < 53 + ?e"
      using power_less_imp_less_exp[of "2::nat"] by (metis one_less_numeral_iff semiring_norm(76))+
    then have e: "?e = 11" by simp
    define q r where "q = n div 2 ^ 11" and "r = n mod 2 ^ 11"
    have n: "n = q * 2 ^ 11 + r" "r < 2 ^ 11" by (simp_all add: q_def r_def)
    have d: "double_of_nat n = (if 2 * r < 2 ^ 11 \<or> 2 * r = 2 ^ 11 \<and> even q then q else q + 1) * 2 ^ 11"
      using big by (simp add: double_of_nat_def Let_def e q_def r_def)
    have q: "q \<le> 2 ^ 53 - 1" using n assms by simp
    show ?thesis
    proof (cases "q = 2 ^ 53 - 1")
      case True
      then have "odd q" by simp
      then show ?thesis using n True unfolding d by auto
    next
      case False
      then have "q \<le> 2 ^ 53 - 2" using q by simp
      then show ?thesis using n unfolding d by auto
    qed
  qed
  then show "double_of_nat n \<le> 2 ^ 64"
    "n < 2 ^ 64 - 2 ^ 10 \<Longrightarrow> double_of_nat n \<le> 2 ^ 64 - 2 ^ 11"
    "2 ^ 64 - 2 ^ 10 \<le> n \<Longrightarrow> double_of_nat n = 2 ^ 64"
    by blast+
qed

text \<open>Scaling a 64-bit hash to \<open>m\<close> buckets.\<close>

lemma double_scale:
  assumes "n < 2 ^ 64" "0 < m" "m < 2 ^ 53"
  shows "double_of_nat (double_of_nat n * m) div 2 ^ 64 < m \<longleftrightarrow> n < 2 ^ 64 - 2 ^ 10"
    and "2 ^ 64 - 2 ^ 10 \<le> n \<Longrightarrow> double_of_nat (double_of_nat n * m) div 2 ^ 64 = m"
proof -
  show top: "double_of_nat (double_of_nat n * m) div 2 ^ 64 = m" if "2 ^ 64 - 2 ^ 10 \<le> n"
    using double_of_nat_64(3)[OF assms(1) that] double_of_nat_exact[OF assms(3), of 64] by simp
  show "double_of_nat (double_of_nat n * m) div 2 ^ 64 < m \<longleftrightarrow> n < 2 ^ 64 - 2 ^ 10"
  proof
    assume "n < 2 ^ 64 - 2 ^ 10"
    then have d: "double_of_nat n \<le> 2 ^ 64 - 2 ^ 11" by (rule double_of_nat_64(2)[OF assms(1)])
    let ?n = "double_of_nat n * m"
    have le: "?n + 2 ^ 11 * m \<le> 2 ^ 64 * m"
      using mult_right_mono[OF d, of m] by (simp add: diff_mult_distrib)
    have "double_of_nat ?n < 2 ^ 64 * m"
    proof (cases "2 ^ 53 \<le> ?n")
      case True
      let ?e = "floorlog 2 ?n - 53"
      have "2 ^ 52 * 2 ^ ?e \<le> ?n" using double_exponent(1)[OF True] by (simp only: power_add)
      moreover have "D < 2 ^ 64 * m" if "2 ^ 52 * E \<le> N" "2 * D \<le> 2 * N + E" "N + 2 ^ 11 * m \<le> 2 ^ 64 * m" for D E N :: nat
        using that assms(2) by simp
      ultimately show ?thesis using double_of_nat_error[OF True] le by blast
    next
      case False
      then show ?thesis using le assms(2) by (simp add: double_of_nat_small)
    qed
    then show "double_of_nat ?n div 2 ^ 64 < m" by (simp add: less_mult_imp_div_less mult.commute)
  qed (use top in fastforce)
qed

end
