(* ===== verification/Extents.thy ===== *)
theory Extents
  imports Prelude
begin

section \<open>Sorted arrays of address ranges\<close>

text \<open>
  \<open>src/src/extents.h\<close>: the address ranges of a space, sorted and disjoint, in a growing array.
  The array is a list of \<open>capacity\<close> ranges of which the first \<open>size\<close> are in use. Sizes are
  natural numbers, since the array fits into memory; addresses are words. Shown: the binary search
  returns the start of the range that holds the address, and every operation keeps the
  ranges sorted and covers the addresses it should.
\<close>

record extent_range =
  lo_addr :: u64
  hi_addr :: u64

record extents =
  ext_size :: nat
  ext_capacity :: nat
  ext_ranges :: "extent_range list"

text \<open>The loop of the search: the bounds, and the value of the \<open>return\<close> inside it.\<close>

definition extents_contain_addr :: "extents \<Rightarrow> u64 \<Rightarrow> u64 result" where
  "extents_contain_addr e addr =
    result_bind
      (while_loop (\<lambda>(lo, hi, ret). ret = None \<and> lo \<noteq> hi)
        (\<lambda>(lo, hi, ret).
          let mid = (lo + hi) div 2; rng = ext_ranges e ! mid in
          if addr < lo_addr rng then (lo, mid, None)
          else if addr < hi_addr rng then (lo, hi, Some (lo_addr rng))
          else (mid + 1, hi, None))
        (0, ext_size e, None))
      (\<lambda>(lo, hi, ret). Inr (case ret of Some a \<Rightarrow> a | None \<Rightarrow> 0))"

definition extents_allocate :: "nat \<Rightarrow> extents" where
  "extents_allocate capacity =
    \<lparr> ext_size = 0, ext_capacity = capacity, ext_ranges = replicate capacity \<lparr> lo_addr = 0, hi_addr = 0 \<rparr> \<rparr>"

definition extents_insert :: "extents \<Rightarrow> nat \<Rightarrow> extent_range \<Rightarrow> extents" where
  "extents_insert old idx rng =
    (if ext_size old < ext_capacity old then
      let moved = list_copy (ext_ranges old) (idx + 1) (ext_ranges old) idx (ext_size old - idx)
      in old\<lparr> ext_ranges := moved[idx := rng], ext_size := ext_size old + 1 \<rparr>
    else
      let new = extents_allocate (ext_capacity old * 2 + 1);
          ranges = list_copy (ext_ranges new) 0 (ext_ranges old) 0 idx;
          ranges = list_copy ranges (idx + 1) (ext_ranges old) idx (ext_size old - idx)
      in new\<lparr> ext_ranges := ranges[idx := rng], ext_size := ext_size old + 1 \<rparr>)"

function extents_adjoin_from :: "extents \<Rightarrow> extent_range \<Rightarrow> nat \<Rightarrow> extents" where
  "extents_adjoin_from e rng i =
    (if i < ext_size e then
      if hi_addr rng < lo_addr (ext_ranges e ! i) then extents_insert e i rng
      else if hi_addr rng = lo_addr (ext_ranges e ! i) then
        e\<lparr> ext_ranges := (ext_ranges e)[i := (ext_ranges e ! i)\<lparr> lo_addr := lo_addr rng \<rparr>] \<rparr>
      else if lo_addr rng = hi_addr (ext_ranges e ! i) then
        e\<lparr> ext_ranges := (ext_ranges e)[i := (ext_ranges e ! i)\<lparr> hi_addr := hi_addr rng \<rparr>] \<rparr>
      else extents_adjoin_from e rng (i + 1)
    else extents_insert e i rng)"
  by pat_completeness auto
termination by (relation "measure (\<lambda>(e, _, i). ext_size e - i)") auto

declare extents_adjoin_from.simps [simp del]

definition extents_adjoin :: "extents \<Rightarrow> u64 \<Rightarrow> u64 \<Rightarrow> extents result" where
  "extents_adjoin e lo sz =
    result_bind (gc_assert (lo \<noteq> 0))
      (\<lambda>_. Inr (extents_adjoin_from e \<lparr> lo_addr = lo, hi_addr = lo + sz \<rparr> 0))"

definition extents_clear :: "extents \<Rightarrow> extents" where
  "extents_clear e = e\<lparr> ext_size := 0 \<rparr>"

definition extents_prepare :: "extents \<Rightarrow> nat \<Rightarrow> extents" where
  "extents_prepare e sz =
    (if sz \<le> ext_size e then extents_clear e
     else let capacity = ext_size e * 2; capacity = (if capacity < sz then sz else capacity)
          in extents_allocate capacity)"

definition extents_append :: "extents \<Rightarrow> u64 \<Rightarrow> u64 \<Rightarrow> extents result" where
  "extents_append e lo sz =
    (let idx = ext_size e; e = e\<lparr> ext_size := ext_size e + 1 \<rparr> in
     result_bind (gc_assert (ext_size e \<le> ext_capacity e)) (\<lambda>_.
     let rng = \<lparr> lo_addr = lo, hi_addr = lo + sz \<rparr> in
     result_bind (gc_assert (idx = 0 \<or> hi_addr (ext_ranges e ! (idx - 1)) \<le> lo_addr rng)) (\<lambda>_.
     Inr (e\<lparr> ext_ranges := (ext_ranges e)[idx := rng] \<rparr>))))"

subsection \<open>The ranges in use\<close>

definition in_use :: "extents \<Rightarrow> extent_range list" where
  "in_use e = take (ext_size e) (ext_ranges e)"

definition holds :: "extent_range \<Rightarrow> u64 \<Rightarrow> bool" where
  "holds r a \<longleftrightarrow> lo_addr r \<le> a \<and> a < hi_addr r"

definition ranges_sorted :: "extent_range list \<Rightarrow> bool" where
  "ranges_sorted rs \<longleftrightarrow> sorted_wrt (\<lambda>r s. hi_addr r \<le> lo_addr s) rs \<and> (\<forall>r\<in>set rs. lo_addr r < hi_addr r)"

definition extents_ok :: "extents \<Rightarrow> bool" where
  "extents_ok e \<longleftrightarrow> length (ext_ranges e) = ext_capacity e \<and> ext_size e \<le> ext_capacity e"

definition extents_wf :: "extents \<Rightarrow> bool" where
  "extents_wf e \<longleftrightarrow> extents_ok e \<and> ranges_sorted (in_use e)"

definition covered :: "extents \<Rightarrow> u64 set" where
  "covered e = {a. \<exists>r\<in>set (in_use e). holds r a}"

lemma length_in_use: "extents_ok e \<Longrightarrow> length (in_use e) = ext_size e"
  by (simp add: in_use_def extents_ok_def)

lemma nth_in_use: "i < ext_size e \<Longrightarrow> in_use e ! i = ext_ranges e ! i"
  by (simp add: in_use_def)

lemma ranges_sortedD:
  assumes "ranges_sorted rs" "i < length rs" "j < length rs"
  shows "i < j \<Longrightarrow> hi_addr (rs ! i) \<le> lo_addr (rs ! j)" "lo_addr (rs ! i) < hi_addr (rs ! i)"
  using assms by (auto simp: ranges_sorted_def sorted_wrt_iff_nth_less)

lemma contain_addr_search:
  assumes wf: "extents_wf e"
  shows "\<exists>a. extents_contain_addr e addr = Inr a \<and>
    ((\<exists>r\<in>set (in_use e). holds r addr \<and> a = lo_addr r) \<or> a = 0 \<and> addr \<notin> covered e)"
proof -
  let ?rs = "in_use e"
  have ok: "extents_ok e" and srt: "ranges_sorted ?rs" using wf by (auto simp: extents_wf_def)
  note len = length_in_use[OF ok]
  let ?I = "\<lambda>(lo, hi, ret). lo \<le> hi \<and> hi \<le> ext_size e
    \<and> (\<forall>i<lo. hi_addr (?rs ! i) \<le> addr) \<and> (\<forall>i. hi \<le> i \<and> i < ext_size e \<longrightarrow> addr < lo_addr (?rs ! i))
    \<and> (\<forall>a. ret = Some a \<longrightarrow> (\<exists>r\<in>set ?rs. holds r addr \<and> a = lo_addr r))"
  let ?m = "\<lambda>(lo, hi, ret). (hi - lo) + (if ret = None then 1 else 0)"
  obtain t where t: "while_loop (\<lambda>(lo, hi, ret). ret = None \<and> lo \<noteq> hi)
        (\<lambda>(lo, hi, ret).
          let mid = (lo + hi) div 2; rng = ext_ranges e ! mid in
          if addr < lo_addr rng then (lo, mid, None)
          else if addr < hi_addr rng then (lo, hi, Some (lo_addr rng))
          else (mid + 1, hi, None)) (0, ext_size e, None) = Inr t" "?I t"
      "\<not> (case t of (lo, hi, ret) \<Rightarrow> ret = None \<and> lo \<noteq> hi)"
  proof (rule while_loop_total[where I = ?I and m = ?m])
    show "?I (0, ext_size e, None)" by auto
  next
    fix s :: "nat \<times> nat \<times> u64 option"
    assume I: "?I s" and P: "case s of (lo, hi, ret) \<Rightarrow> ret = None \<and> lo \<noteq> hi"
    obtain lo hi where s: "s = (lo, hi, None)" and less: "lo < hi" using I P by (cases s) auto
    let ?mid = "(lo + hi) div 2" and ?r = "?rs ! ((lo + hi) div 2)"
    have mid: "lo \<le> ?mid" "?mid < hi" "?mid < ext_size e" using less I s by auto
    have r: "ext_ranges e ! ?mid = ?r" using nth_in_use[OF mid(3)] by simp
    have up: "addr < lo_addr (?rs ! i)" if "addr < lo_addr ?r" "?mid \<le> i" "i < ext_size e" for i
    proof (cases "i = ?mid")
      case False
      then have "hi_addr ?r \<le> lo_addr (?rs ! i)" using ranges_sortedD(1)[OF srt, of ?mid i] that len mid by simp
      moreover have "lo_addr ?r < hi_addr ?r" using ranges_sortedD(2)[OF srt, of ?mid ?mid] len mid by simp
      ultimately show ?thesis using that(1) by simp
    qed (use that in simp)
    have down: "hi_addr (?rs ! i) \<le> addr" if "hi_addr ?r \<le> addr" "i \<le> ?mid" for i
    proof (cases "i = ?mid")
      case False
      then have "hi_addr (?rs ! i) \<le> lo_addr ?r" using ranges_sortedD(1)[OF srt, of i ?mid] that len mid by simp
      moreover have "lo_addr ?r < hi_addr ?r" using ranges_sortedD(2)[OF srt, of ?mid ?mid] len mid by simp
      ultimately show ?thesis using that(1) by simp
    qed (use that in simp)
    have "?r \<in> set ?rs" using mid len by simp
    then have here: "\<exists>r\<in>set ?rs. holds r addr \<and> lo_addr ?r = lo_addr r"
      if "\<not> addr < lo_addr ?r" "addr < hi_addr ?r" using that by (auto simp: holds_def not_less)
    let ?s' = "if addr < lo_addr ?r then (lo, ?mid, None) else if addr < hi_addr ?r then (lo, hi, Some (lo_addr ?r))
      else (?mid + 1, hi, None)"
    have "?I ?s' \<and> ?m ?s' < ?m s"
    proof (cases "addr < lo_addr ?r")
      case True
      then show ?thesis using I mid up unfolding s by simp
    next
      case False
      show ?thesis
      proof (cases "addr < hi_addr ?r")
        case True
        then show ?thesis using I mid here[OF False] False unfolding s by simp
      next
        case False
        then have "\<forall>i<?mid + 1. hi_addr (?rs ! i) \<le> addr" using down by (simp add: less_Suc_eq_le)
        then show ?thesis using I mid \<open>\<not> addr < lo_addr ?r\<close> False unfolding s by simp
      qed
    qed
    then show "?I (case s of (lo, hi, ret) \<Rightarrow>
          let mid = (lo + hi) div 2; rng = ext_ranges e ! mid in
          if addr < lo_addr rng then (lo, mid, None)
          else if addr < hi_addr rng then (lo, hi, Some (lo_addr rng))
          else (mid + 1, hi, None)) \<and> ?m (case s of (lo, hi, ret) \<Rightarrow>
          let mid = (lo + hi) div 2; rng = ext_ranges e ! mid in
          if addr < lo_addr rng then (lo, mid, None)
          else if addr < hi_addr rng then (lo, hi, Some (lo_addr rng))
          else (mid + 1, hi, None)) < ?m s"
      by (simp only: s prod.case Let_def r)
  qed
  obtain lo hi ret where "t = (lo, hi, ret)" by (cases t)
  note t = t[unfolded this]
  show ?thesis
  proof (cases ret)
    case None
    then have "lo = hi" using t(3) by simp
    then have "\<not> holds (?rs ! i) addr" if "i < ext_size e" for i
      using t(2) that by (cases "i < lo") (auto simp: holds_def not_less)
    then have "addr \<notin> covered e" unfolding covered_def by (auto simp: in_set_conv_nth len)
    then show ?thesis using t(1) None by (simp add: extents_contain_addr_def)
  next
    case (Some a)
    then show ?thesis using t(1,2) by (auto simp: extents_contain_addr_def)
  qed
qed

subsection \<open>Insertion\<close>

lemma insert_in_use:
  assumes ok: "extents_ok e" and idx: "idx \<le> ext_size e"
  shows "extents_ok (extents_insert e idx r)"
    and "in_use (extents_insert e idx r) = take idx (in_use e) @ r # drop idx (in_use e)"
    and "ext_size (extents_insert e idx r) = ext_size e + 1"
proof -
  let ?xs = "ext_ranges e" and ?n = "ext_size e"
  have len: "length ?xs = ext_capacity e" "?n \<le> ext_capacity e" using ok by (auto simp: extents_ok_def)
  have *: "take (Suc ?n) ((list_copy ys (idx + 1) ?xs idx (?n - idx))[idx := r])
      = take idx ys @ r # drop idx (take ?n ?xs)"
    if "Suc ?n \<le> length ys" for ys
  proof -
    have "list_copy ys (idx + 1) ?xs idx (?n - idx)
        = take idx ys @ [ys ! idx] @ drop idx (take ?n ?xs) @ drop (Suc ?n) ys"
      using that idx by (simp add: list_copy_def take_Suc_conv_app_nth drop_take)
    then show ?thesis using that idx len by (simp add: list_update_append Suc_diff_le)
  qed
  have "extents_ok (extents_insert e idx r) \<and>
      in_use (extents_insert e idx r) = take idx (in_use e) @ r # drop idx (in_use e) \<and>
      ext_size (extents_insert e idx r) = ext_size e + 1"
  proof (cases "?n < ext_capacity e")
    case True
    then show ?thesis
      using *[of ?xs] len idx by (simp add: extents_insert_def in_use_def extents_ok_def Let_def min_def)
  next
    case False
    let ?new = "list_copy (ext_ranges (extents_allocate (ext_capacity e * 2 + 1))) 0 ?xs 0 idx"
    have "length ?new = ext_capacity e * 2 + 1" "take idx ?new = take idx ?xs"
      using len idx by (simp_all add: extents_allocate_def) (simp add: list_copy_def)
    then show ?thesis
      using *[of ?new] len idx False
      by (simp add: extents_insert_def in_use_def extents_ok_def Let_def min_def)
        (simp add: extents_allocate_def)
  qed
  then show "extents_ok (extents_insert e idx r)"
    "in_use (extents_insert e idx r) = take idx (in_use e) @ r # drop idx (in_use e)"
    "ext_size (extents_insert e idx r) = ext_size e + 1" by simp_all
qed

lemma sorted_insert:
  assumes "ranges_sorted rs" "lo_addr r < hi_addr r" "i \<le> length rs"
    and "\<And>j. j < i \<Longrightarrow> hi_addr (rs ! j) \<le> lo_addr r"
    and "\<And>j. i \<le> j \<Longrightarrow> j < length rs \<Longrightarrow> hi_addr r \<le> lo_addr (rs ! j)"
  shows "ranges_sorted (take i rs @ r # drop i rs)"
proof -
  have "sorted_wrt (\<lambda>r s. hi_addr r \<le> lo_addr s) (take i rs @ drop i rs)"
    using assms(1) by (simp add: ranges_sorted_def)
  moreover have "hi_addr x \<le> lo_addr r" if "x \<in> set (take i rs)" for x
    using that assms(3,4) by (auto simp: in_set_conv_nth)
  moreover have "hi_addr r \<le> lo_addr x" if x: "x \<in> set (drop i rs)" for x
  proof -
    obtain j where "j < length (drop i rs)" "drop i rs ! j = x"
      using x unfolding in_set_conv_nth by blast
    then show ?thesis using assms(3) assms(5)[of "i + j"] by auto
  qed
  ultimately show ?thesis
    using assms(1,2) set_take_subset[of i rs] set_drop_subset[of i rs]
    by (auto simp: ranges_sorted_def sorted_wrt_append simp del: append_take_drop_id)
qed

lemma sorted_update:
  assumes "ranges_sorted rs" "i < length rs" "lo_addr r < hi_addr r"
    and "\<And>j. j < i \<Longrightarrow> hi_addr (rs ! j) \<le> lo_addr r"
    and "\<And>j. i < j \<Longrightarrow> j < length rs \<Longrightarrow> hi_addr r \<le> lo_addr (rs ! j)"
  shows "ranges_sorted (rs[i := r])"
proof -
  have "lo_addr x < hi_addr x" if "x \<in> set (rs[i := r])" for x
    using that assms(1,3) set_update_subset_insert[of rs i r] by (auto simp: ranges_sorted_def)
  moreover have "hi_addr (rs[i := r] ! j) \<le> lo_addr (rs[i := r] ! k)" if "j < k" "k < length rs" for j k
    using that assms(4)[of j] assms(5)[of k] assms(2) ranges_sortedD(1)[OF assms(1), of j k]
    by (cases "j = i"; cases "k = i") simp_all
  ultimately show ?thesis by (auto simp: ranges_sorted_def sorted_wrt_iff_nth_less)
qed

definition apart :: "extent_range \<Rightarrow> extent_range \<Rightarrow> bool" where
  "apart r s \<longleftrightarrow> hi_addr r \<le> lo_addr s \<or> hi_addr s \<le> lo_addr r"

lemma in_use_update:
  "i < ext_size e \<Longrightarrow> in_use (e\<lparr> ext_ranges := (ext_ranges e)[i := r] \<rparr>) = (in_use e)[i := r]"
  by (simp add: in_use_def take_update_swap)

lemma covered_update:
  assumes "i < length rs" and "\<And>a. holds r a \<longleftrightarrow> holds (rs ! i) a \<or> holds s a"
  shows "(\<exists>x\<in>set (rs[i := r]). holds x a) \<longleftrightarrow> (\<exists>x\<in>set rs. holds x a) \<or> holds s a"
proof -
  have rs: "rs = take i rs @ rs ! i # drop (Suc i) rs" by (rule id_take_nth_drop[OF assms(1)])
  have "set rs = set (take i rs) \<union> {rs ! i} \<union> set (drop (Suc i) rs)" by (subst rs) auto
  moreover have "set (rs[i := r]) = set (take i rs) \<union> {r} \<union> set (drop (Suc i) rs)"
    by (simp add: upd_conv_take_nth_drop[OF assms(1)])
  ultimately show ?thesis using assms(2) by auto
qed

lemma adjoin_from:
  assumes "extents_wf e" "lo_addr r < hi_addr r" "\<forall>x\<in>set (in_use e). apart r x"
    and "i \<le> ext_size e" "\<forall>j<i. hi_addr (in_use e ! j) < lo_addr r"
  shows "extents_wf (extents_adjoin_from e r i)
    \<and> covered (extents_adjoin_from e r i) = covered e \<union> {a. holds r a}"
  using assms
proof (induction e r i rule: extents_adjoin_from.induct)
  case (1 e r i)
  let ?rs = "in_use e"
  have ok: "extents_ok e" and srt: "ranges_sorted ?rs" using 1(2) by (auto simp: extents_wf_def)
  note len = length_in_use[OF ok]
  have before: "hi_addr (?rs ! j) \<le> lo_addr r" if "j < i" for j using 1(6) that by (simp add: less_imp_le)
  have apart: "apart r (?rs ! j)" if "j < ext_size e" for j using 1(4) that len by simp
  have ins: "extents_wf (extents_insert e i r) \<and> covered (extents_insert e i r) = covered e \<union> {a. holds r a}"
    if "\<And>j. i \<le> j \<Longrightarrow> j < ext_size e \<Longrightarrow> hi_addr r \<le> lo_addr (?rs ! j)"
  proof -
    have "ranges_sorted (take i ?rs @ r # drop i ?rs)"
      using sorted_insert[OF srt 1(3)] 1(5) len before that by simp
    moreover have "set ?rs = set (take i ?rs) \<union> set (drop i ?rs)" by (simp flip: set_append)
    ultimately show ?thesis
      using insert_in_use[OF ok 1(5), of r] by (auto simp: extents_wf_def covered_def)
  qed
  show ?case
  proof (cases "i < ext_size e")
    case False
    then show ?thesis unfolding extents_adjoin_from.simps[of e r i] using ins by simp
  next
    case True
    note i = True nth_in_use[OF True, symmetric]
    have valid: "lo_addr (?rs ! i) < hi_addr (?rs ! i)" using ranges_sortedD(2)[OF srt, of i i] True len by simp
    have after: "hi_addr (?rs ! i) \<le> lo_addr (?rs ! j)" if "i < j" "j < ext_size e" for j
      using ranges_sortedD(1)[OF srt, of i j] that len by simp
    have upd: "extents_wf (e\<lparr> ext_ranges := (ext_ranges e)[i := x] \<rparr>)
        \<and> covered (e\<lparr> ext_ranges := (ext_ranges e)[i := x] \<rparr>) = covered e \<union> {a. holds r a}"
      if sorted: "ranges_sorted (?rs[i := x])" and hold: "\<And>a. holds x a \<longleftrightarrow> holds (?rs ! i) a \<or> holds r a" for x
    proof -
      have "extents_ok (e\<lparr> ext_ranges := (ext_ranges e)[i := x] \<rparr>)" using ok by (simp add: extents_ok_def)
      moreover have "(\<exists>y\<in>set (?rs[i := x]). holds y a) \<longleftrightarrow> (\<exists>y\<in>set ?rs. holds y a) \<or> holds r a" for a
        by (rule covered_update[OF _ hold]) (use True len in simp)
      ultimately show ?thesis
        using sorted unfolding extents_wf_def covered_def in_use_update[OF True] by auto
    qed
    consider "hi_addr r < lo_addr (?rs ! i)" | "hi_addr r = lo_addr (?rs ! i)"
      | "lo_addr (?rs ! i) < hi_addr r" "lo_addr r = hi_addr (?rs ! i)"
      | "lo_addr (?rs ! i) < hi_addr r" "lo_addr r \<noteq> hi_addr (?rs ! i)" by fastforce
    then show ?thesis
    proof cases
      case 1
      have "hi_addr r \<le> lo_addr (?rs ! j)" if "i \<le> j" "j < ext_size e" for j
        using after[of j] that 1 valid by (cases "j = i") auto
      then show ?thesis unfolding extents_adjoin_from.simps[of e r i] using ins 1 i by simp
    next
      case 2
      let ?x = "(?rs ! i)\<lparr> lo_addr := lo_addr r \<rparr>"
      have "ranges_sorted (?rs[i := ?x])"
      proof (rule sorted_update[OF srt])
        show "lo_addr ?x < hi_addr ?x" using valid 2 \<open>lo_addr r < hi_addr r\<close> by simp
      qed (use True len before after in simp_all)
      moreover have "holds ?x a \<longleftrightarrow> holds (?rs ! i) a \<or> holds r a" for a
        using 2 valid \<open>lo_addr r < hi_addr r\<close> unfolding holds_def by (cases "a < lo_addr (?rs ! i)") (auto simp: not_less)
      ultimately show ?thesis unfolding extents_adjoin_from.simps[of e r i] using upd[of ?x] 2 i by simp
    next
      case 3
      have not_le_less: "hi_addr r \<noteq> lo_addr (?rs ! i)" "\<not> hi_addr r < lo_addr (?rs ! i)" using 3(1) by auto
      let ?x = "(?rs ! i)\<lparr> hi_addr := hi_addr r \<rparr>"
      have next': "hi_addr r \<le> lo_addr (?rs ! j)" if "i < j" "j < ext_size e" for j
      proof -
        have "lo_addr (?rs ! j) < hi_addr (?rs ! j)" using ranges_sortedD(2)[OF srt, of j j] that len by simp
        moreover have "hi_addr (?rs ! i) \<le> lo_addr (?rs ! j)" by (rule after[OF that])
        ultimately have "\<not> hi_addr (?rs ! j) \<le> lo_addr r" using 3(2) by simp
        then show ?thesis using apart[OF that(2)] by (simp add: apart_def)
      qed
      have prev: "hi_addr (?rs ! j) \<le> lo_addr (?rs ! i)" if "j < i" for j
        using ranges_sortedD(1)[OF srt, of j i] that True len by simp
      have "ranges_sorted (?rs[i := ?x])"
        by (rule sorted_update[OF srt]) (use True len next' prev 3(1) in simp_all)
      moreover have "holds ?x a \<longleftrightarrow> holds (?rs ! i) a \<or> holds r a" for a
        using 3 valid \<open>lo_addr r < hi_addr r\<close> by (auto simp: holds_def)
      ultimately show ?thesis unfolding extents_adjoin_from.simps[of e r i] using upd[of ?x] 3 not_le_less i
        by simp
    next
      case 4
      have not_le_less: "hi_addr r \<noteq> lo_addr (?rs ! i)" "\<not> hi_addr r < lo_addr (?rs ! i)" using 4(1) by auto
      have "hi_addr (?rs ! i) \<le> lo_addr r" using apart[OF True] 4 by (auto simp: apart_def)
      then have "\<forall>j<Suc i. hi_addr (?rs ! j) < lo_addr r" using 1(6) 4(2) by (auto simp: less_Suc_eq)
      then have "extents_wf (extents_adjoin_from e r (i + 1))
          \<and> covered (extents_adjoin_from e r (i + 1)) = covered e \<union> {a. holds r a}"
        using 4 not_le_less i by (intro 1(1)[OF True _ _ _ 1(2,3,4)]) (simp_all add: not_less)
      then show ?thesis unfolding extents_adjoin_from.simps[of e r i] using 4 not_le_less i by simp
    qed
  qed
qed

subsection \<open>Searching and growing\<close>

text \<open>The search for an address through sorted extents terminates with the start of the
  range that holds the address, or with zero when no range does.\<close>

theorem extents_contain_addr_correct:
  assumes "extents_wf e"
  shows "extents_contain_addr e addr =
    Inr (case List.find (\<lambda>r. holds r addr) (in_use e) of Some r \<Rightarrow> lo_addr r | None \<Rightarrow> 0)"
proof -
  let ?rs = "in_use e"
  obtain a where a: "extents_contain_addr e addr = Inr a"
    "(\<exists>r\<in>set ?rs. holds r addr \<and> a = lo_addr r) \<or> a = 0 \<and> addr \<notin> covered e"
    using contain_addr_search[OF assms] by blast
  have srt: "ranges_sorted ?rs" using assms by (simp add: extents_wf_def)
  have unique: "r = s" if mem: "r \<in> set ?rs" "s \<in> set ?rs" and hold: "holds r addr" "holds s addr" for r s
  proof -
    obtain i where i: "i < length ?rs" "r = ?rs ! i" using mem(1) by (metis in_set_conv_nth)
    obtain j where j: "j < length ?rs" "s = ?rs ! j" using mem(2) by (metis in_set_conv_nth)
    note ij = i(1) j(1) i(2) j(2)
    have "i = j"
      using ranges_sortedD(1)[OF srt ij(1,2)] ranges_sortedD(1)[OF srt ij(2,1)] hold ij
      by (cases i j rule: linorder_cases) (auto simp: holds_def)
    then show ?thesis using ij by simp
  qed
  show ?thesis
  proof (cases "List.find (\<lambda>r. holds r addr) ?rs")
    case None
    then have "a = 0" using a(2) by (auto simp: find_None_iff)
    then show ?thesis using a(1) None by simp
  next
    case (Some r)
    then have r: "r \<in> set ?rs" "holds r addr" by (auto simp: find_Some_iff)
    then have "addr \<in> covered e" by (auto simp: covered_def)
    then have "a = lo_addr r" using a(2) unique r by blast
    then show ?thesis using a(1) Some by simp
  qed
qed

theorem extents_contain_addr_correct_witness:
  "extents_contain_addr (extents_insert (extents_allocate 4) 0 \<lparr> lo_addr = 0x1000, hi_addr = 0x2000 \<rparr>) 0x1234
    = Inr 0x1000"
proof -
  let ?r = "\<lparr> lo_addr = 0x1000, hi_addr = 0x2000 \<rparr>" and ?e = "extents_allocate 4"
  have ok: "extents_ok ?e" "ext_size ?e = 0" "in_use ?e = []"
    by (simp_all add: extents_ok_def extents_allocate_def in_use_def)
  have use: "in_use (extents_insert ?e 0 ?r) = [?r]" using insert_in_use(2)[OF ok(1), of 0 ?r] ok(3) by simp
  have "extents_wf (extents_insert ?e 0 ?r)"
    using insert_in_use(1)[OF ok(1), of 0 ?r] by (simp add: extents_wf_def use ranges_sorted_def)
  from extents_contain_addr_correct[OF this, of "0x1234"] show ?thesis by (simp add: use holds_def)
qed

text \<open>C33: Adjoining a range that touches no address of the extents keeps them sorted and
  disjoint and makes exactly the addresses of the range covered.\<close>

theorem extents_adjoin_correct:
  assumes "extents_wf e" "lo \<noteq> 0" "lo < lo + sz"
    and "\<forall>x\<in>set (in_use e). lo + sz \<le> lo_addr x \<or> hi_addr x \<le> lo"
  shows "\<exists>e'. extents_adjoin e lo sz = Inr e' \<and> extents_wf e'
    \<and> covered e' = covered e \<union> {a. lo \<le> a \<and> a < lo + sz}"
  using adjoin_from[OF assms(1), of "\<lparr> lo_addr = lo, hi_addr = lo + sz \<rparr>" 0] assms(2-4)
  by (auto simp: extents_adjoin_def apart_def holds_def simp del: extents_adjoin_from.simps)

theorem extents_adjoin_correct_witness:
  "\<exists>e'. extents_adjoin (extents_allocate 0) 0x1000 0x1000 = Inr e' \<and> extents_wf e'
    \<and> covered e' = covered (extents_allocate 0) \<union> {a. 0x1000 \<le> a \<and> a < 0x1000 + 0x1000}"
  by (rule extents_adjoin_correct)
    (simp_all add: extents_wf_def extents_ok_def extents_allocate_def in_use_def ranges_sorted_def)

text \<open>Appending at the end, as the large object space does in the order of its tree.\<close>

lemma append_wf:
  assumes "extents_wf e" "ext_size e < ext_capacity e" "lo < lo + sz"
    and "\<forall>r\<in>set (in_use e). hi_addr r \<le> lo"
  obtains e' where "extents_append e lo sz = Inr e'" "extents_wf e'" "ext_capacity e' = ext_capacity e"
    and "in_use e' = in_use e @ [\<lparr> lo_addr = lo, hi_addr = lo + sz \<rparr>]" "ext_size e' = ext_size e + 1"
proof -
  let ?n = "ext_size e" and ?r = "\<lparr> lo_addr = lo, hi_addr = lo + sz \<rparr>"
  let ?e = "e\<lparr> ext_size := ?n + 1, ext_ranges := (ext_ranges e)[?n := ?r] \<rparr>"
  have ok: "extents_ok e" and srt: "ranges_sorted (in_use e)" using assms(1) by (auto simp: extents_wf_def)
  have len: "?n < length (ext_ranges e)" using ok assms(2) by (simp add: extents_ok_def)
  have "hi_addr (ext_ranges e ! (?n - 1)) \<le> lo" if "?n \<noteq> 0"
    using assms(4) nth_in_use[of "?n - 1" e] length_in_use[OF ok] that nth_mem[of "?n - 1" "in_use e"] by simp
  then have "extents_append e lo sz = Inr ?e"
    using assms(2) by (auto simp: extents_append_def Let_def gc_assert_def)
  moreover have use: "in_use ?e = in_use e @ [?r]"
    using len by (simp add: in_use_def take_Suc_conv_app_nth)
  moreover have "extents_wf ?e"
    using ok srt assms(2-4) unfolding extents_wf_def use by (auto simp: extents_ok_def ranges_sorted_def sorted_wrt_append)
  ultimately show thesis using that by simp
qed

lemma prepare_wf:
  shows "extents_wf e \<Longrightarrow> extents_wf (extents_prepare e sz)" "in_use (extents_prepare e sz) = []"
    "extents_wf e \<Longrightarrow> sz \<le> ext_capacity (extents_prepare e sz)"
  by (auto simp: extents_prepare_def extents_wf_def extents_ok_def extents_clear_def extents_allocate_def
      in_use_def ranges_sorted_def Let_def)

end
