(* ===== verification/Memory.thy ===== *)
theory Memory
  imports Prelude
begin

text \<open>
  Memory as a function from addresses to bytes, with what the collectors do to it: \<open>memset\<close>,
  \<open>memcpy\<close>, and the loads and stores of a word through a \<open>struct gc_edge\<close>, little-endian. A range of
  \<open>n\<close> bytes at \<open>a\<close> holds the addresses \<open>x\<close> with \<open>x - a < n\<close>, so that a range may wrap around.
\<close>

type_synonym byte_mem = "u64 \<Rightarrow> u8"

definition mem_set :: "byte_mem \<Rightarrow> u64 \<Rightarrow> u8 \<Rightarrow> u64 \<Rightarrow> byte_mem" where
  "mem_set m a v n = (\<lambda>x. if x - a < n then v else m x)"

definition mem_copy :: "byte_mem \<Rightarrow> u64 \<Rightarrow> u64 \<Rightarrow> u64 \<Rightarrow> byte_mem" where
  "mem_copy m dst src n = (\<lambda>x. if x - dst < n then m (src + (x - dst)) else m x)"

definition load_word :: "byte_mem \<Rightarrow> u64 \<Rightarrow> u64" where
  "load_word m a = fold (\<lambda>i w. w OR push_bit (8 * i) (ucast (m (a + of_nat i)))) [0..<8] 0"

definition store_word :: "byte_mem \<Rightarrow> u64 \<Rightarrow> u64 \<Rightarrow> byte_mem" where
  "store_word m a v = (\<lambda>x. if x - a < 8 then ucast (drop_bit (8 * unat (x - a)) v) else m x)"

lemma store_word_at: "i < 8 \<Longrightarrow> store_word m a v (a + of_nat i) = ucast (drop_bit (8 * i) v)"
  by (simp add: store_word_def word_less_nat_alt unat_of_nat)

lemma store_word_other: "\<not> x - a < 8 \<Longrightarrow> store_word m a v x = m x"
  by (simp add: store_word_def)

lemma bit_fold_or:
  "bit (fold (\<lambda>i w. w OR g i) xs w) n \<longleftrightarrow> bit w n \<or> (\<exists>i \<in> set xs. bit (g i :: 'a::len word) n)"
  by (induction xs arbitrary: w) (auto simp: bit_or_iff)

lemma byte_bits:
  fixes v :: u64
  shows "bit (push_bit (8 * i) (ucast (ucast (drop_bit (8 * i) v) :: u8)) :: u64) n
    \<longleftrightarrow> 8 * i \<le> n \<and> n < 8 * i + 8 \<and> bit v n"
  using bit_imp_le_length[of v n] by (auto simp: bit_simps)

lemma load_store_word: "load_word (store_word m a v) a = v"
proof (rule bit_word_eqI)
  fix n assume n: "n < LENGTH(64)"
  have "bit (load_word (store_word m a v) a) n
    \<longleftrightarrow> (\<exists>i \<in> {0..<8}. bit (push_bit (8 * i) (ucast (store_word m a v (a + of_nat i))) :: u64) n)"
    unfolding load_word_def bit_fold_or by simp
  also have "\<dots> \<longleftrightarrow> (\<exists>i \<in> {0..<8}. 8 * i \<le> n \<and> n < 8 * i + 8 \<and> bit v n)"
    by (rule bex_cong[OF refl]) (simp add: store_word_at byte_bits)
  also have "\<dots> \<longleftrightarrow> bit v n" using n by (auto intro!: bexI[of _ "n div 8"])
  finally show "bit (load_word (store_word m a v) a) n = bit v n" .
qed

lemma load_store_word_other:
  assumes "\<And>i. i < 8 \<Longrightarrow> \<not> b + of_nat i - a < 8"
  shows "load_word (store_word m a v) b = load_word m b"
proof -
  have "[0..<8] = [0, 1, 2, 3, 4, 5, 6, 7 :: nat]" by (simp add: upt_rec)
  then show ?thesis
    using assms[of 0] assms[of 1] assms[of 2] assms[of 3] assms[of 4] assms[of 5] assms[of 6] assms[of 7]
    by (simp add: load_word_def store_word_other)
qed

lemma load_word_shift:
  assumes "\<And>i. i < 8 \<Longrightarrow> m' (a' + of_nat i) = m (a + of_nat i)"
  shows "load_word m' a' = load_word m a"
proof -
  have "[0..<8] = [0, 1, 2, 3, 4, 5, 6, 7 :: nat]" by (simp add: upt_rec)
  then show ?thesis
    using assms[of 0] assms[of 1] assms[of 2] assms[of 3] assms[of 4] assms[of 5] assms[of 6] assms[of 7]
    by (simp add: load_word_def)
qed

end
