(* ===== verification/Histogram.thy ===== *)
theory Histogram
  imports Prelude "HOL-Library.Log_Nat"
begin

section \<open>Linear-log buckets: histograms and size-segregated freelists\<close>

text \<open>
  \<open>src/api/gc-histogram.h\<close> and \<open>src/src/freelist.h\<close>. A value below \<open>2 ^ precision\<close> has its own
  bucket; above it each power of two is divided into \<open>2 ^ precision\<close> buckets. The bit widths are
  compile-time constants of the macros, given as natural numbers; values and bucket indices
  are words. Shown: the bucket function is monotone, the lower bound of a bucket is at most
  the values in it and the next bucket's bound is above them, and histograms count.
\<close>

text \<open>\<open>__builtin_clzll\<close>: the number of zero bits above the highest set bit.\<close>

definition clzll :: "u64 \<Rightarrow> nat" where
  "clzll w = length (takeWhile (\<lambda>i. \<not> bit w i) (rev [0..<64]))"

definition gc_histogram_bucket :: "nat \<Rightarrow> nat \<Rightarrow> u64 \<Rightarrow> u64" where
  "gc_histogram_bucket max_value_bits precision val =
    (let major = (if val < push_bit precision 1 then 0 else 64 - clzll val - precision);
         minor = (if val < push_bit precision 1 then val
                  else drop_bit (major - 1) val AND (push_bit precision 1 - 1));
         idx = push_bit precision (of_nat major) OR minor
     in if push_bit precision (of_nat max_value_bits) \<le> idx
        then push_bit precision (of_nat max_value_bits) else idx)"

definition gc_histogram_bucket_min_val :: "nat \<Rightarrow> u64 \<Rightarrow> u64" where
  "gc_histogram_bucket_min_val precision idx =
    (let major = drop_bit precision idx;
         minor = idx AND (push_bit precision 1 - 1)
     in if major \<noteq> 0 then push_bit (unat (major - 1)) (push_bit precision 1 OR minor) else minor)"

text \<open>A histogram made by \<open>GC_DEFINE_HISTOGRAM (name, max_value_bits, precision)\<close>.\<close>

type_synonym histogram = "u32 list"

definition histogram_size :: "nat \<Rightarrow> nat \<Rightarrow> nat" where
  "histogram_size max_value_bits precision = max_value_bits * 2 ^ precision + 1"

definition make_histogram :: "nat \<Rightarrow> nat \<Rightarrow> histogram" where
  "make_histogram max_value_bits precision = replicate (histogram_size max_value_bits precision) 0"

definition histogram_record :: "nat \<Rightarrow> nat \<Rightarrow> histogram \<Rightarrow> u64 \<Rightarrow> histogram" where
  "histogram_record max_value_bits precision h val =
    (let b = unat (gc_histogram_bucket max_value_bits precision val) in h[b := h ! b + 1])"

definition histogram_ref :: "nat \<Rightarrow> nat \<Rightarrow> histogram \<Rightarrow> nat \<Rightarrow> u64 result" where
  "histogram_ref max_value_bits precision h idx =
    result_bind (gc_assert (idx < histogram_size max_value_bits precision)) (\<lambda>_. Inr (ucast (h ! idx)))"

definition histogram_min :: "nat \<Rightarrow> nat \<Rightarrow> histogram \<Rightarrow> u64" where
  "histogram_min max_value_bits precision h =
    (case List.find (\<lambda>b. h ! b \<noteq> 0) [0..<histogram_size max_value_bits precision] of
      Some b \<Rightarrow> gc_histogram_bucket_min_val precision (of_nat b)
    | None \<Rightarrow> - 1)"

definition histogram_max :: "nat \<Rightarrow> nat \<Rightarrow> histogram \<Rightarrow> u64" where
  "histogram_max max_value_bits precision h =
    (let sz = histogram_size max_value_bits precision in
     if h ! (sz - 1) \<noteq> 0 then - 1
     else case List.find (\<lambda>b. h ! b \<noteq> 0) (rev [0..<sz]) of
       Some b \<Rightarrow> gc_histogram_bucket_min_val precision (of_nat (b + 1))
     | None \<Rightarrow> 0)"

definition histogram_count :: "nat \<Rightarrow> nat \<Rightarrow> histogram \<Rightarrow> u64" where
  "histogram_count max_value_bits precision h =
    fold (\<lambda>b s. s + ucast (h ! b)) [0..<histogram_size max_value_bits precision] 0"

text \<open>A freelist made by \<open>DEFINE_FREELIST (name, max_value_bits, precision, node)\<close>, with nodes \<open>'n\<close>.\<close>

definition freelist_num_size_classes :: "nat \<Rightarrow> nat \<Rightarrow> nat" where
  "freelist_num_size_classes max_value_bits precision = max_value_bits * 2 ^ precision + 1"

definition freelist_init :: "nat \<Rightarrow> nat \<Rightarrow> 'n option list" where
  "freelist_init max_value_bits precision = replicate (freelist_num_size_classes max_value_bits precision) None"

definition freelist_size_class :: "nat \<Rightarrow> nat \<Rightarrow> u64 \<Rightarrow> nat" where
  "freelist_size_class max_value_bits precision val = unat (gc_histogram_bucket max_value_bits precision val)"

definition freelist_bucket_min_val :: "nat \<Rightarrow> nat \<Rightarrow> nat \<Rightarrow> u64 result" where
  "freelist_bucket_min_val max_value_bits precision idx =
    result_bind (gc_assert (idx < freelist_num_size_classes max_value_bits precision))
      (\<lambda>_. Inr (gc_histogram_bucket_min_val precision (of_nat idx)))"

subsection \<open>The index of a bucket, arithmetically\<close>

definition top_bit :: "nat \<Rightarrow> nat" where
  "top_bit v = floorlog 2 v - 1"

definition bucket_index :: "nat \<Rightarrow> nat \<Rightarrow> nat" where
  "bucket_index p v = (top_bit v - p) * 2 ^ p + v div 2 ^ (top_bit v - p)"

lemma top_bit_bounds:
  assumes "0 < v"
  shows "2 ^ top_bit v \<le> v" "v < 2 ^ Suc (top_bit v)"
  using floorlog_bounds[of v 2] assms by (auto simp: top_bit_def compute_floorlog split: if_splits)

lemma top_bit_unique:
  assumes "2 ^ e \<le> v" "v < 2 ^ Suc e"
  shows "top_bit v = e"
proof -
  have "0 < v" using assms(1) by (metis gr0I le_zero_eq power_not_zero zero_neq_numeral)
  note b = top_bit_bounds[OF this]
  have "(2::nat) ^ e < 2 ^ Suc (top_bit v)" "(2::nat) ^ top_bit v < 2 ^ Suc e"
    using assms b by linarith+
  then show ?thesis by (simp del: power_Suc)
qed

lemma top_bit_0 [simp]: "top_bit 0 = 0"
  by (simp add: top_bit_def floorlog_def)

lemma top_bit_less_iff: "0 < v \<Longrightarrow> top_bit v < p \<longleftrightarrow> v < 2 ^ p"
proof -
  assume "0 < v"
  note b = top_bit_bounds[OF this]
  show ?thesis
  proof
    assume "top_bit v < p"
    then have "(2::nat) ^ Suc (top_bit v) \<le> 2 ^ p" by (intro power_increasing) simp_all
    then show "v < 2 ^ p" using b by linarith
  next
    assume "v < 2 ^ p"
    then have "(2::nat) ^ top_bit v < 2 ^ p" using b by linarith
    then show "top_bit v < p" by (simp only: power_strict_increasing_iff)
  qed
qed

lemma top_bit_mono: "0 < v \<Longrightarrow> v \<le> w \<Longrightarrow> top_bit v \<le> top_bit w"
  using top_bit_less_iff[of v "Suc (top_bit w)"] top_bit_bounds(2)[of w] by (auto simp: less_Suc_eq_le)

text \<open>The quotient that gives the minor part lies between \<open>2 ^ p\<close> and \<open>2 ^ (p + 1)\<close>.\<close>

lemma quotient_bounds:
  assumes "2 ^ p \<le> (v::nat)"
  shows "2 ^ p \<le> v div 2 ^ (top_bit v - p)" "v div 2 ^ (top_bit v - p) < 2 ^ Suc p"
proof -
  have v: "0 < v" using assms by (metis gr0I le_zero_eq power_not_zero zero_neq_numeral)
  have e: "p \<le> top_bit v" using top_bit_less_iff[OF v, of p] assms by linarith
  have "(2::nat) ^ p * 2 ^ (top_bit v - p) = 2 ^ top_bit v" using e by (simp flip: power_add)
  then have "2 ^ p * 2 ^ (top_bit v - p) \<le> v" "v < 2 ^ Suc p * 2 ^ (top_bit v - p)"
    using top_bit_bounds[OF v] by simp_all
  then show "2 ^ p \<le> v div 2 ^ (top_bit v - p)" "v div 2 ^ (top_bit v - p) < 2 ^ Suc p"
    by (simp_all add: less_eq_div_iff_mult_less_eq less_mult_imp_div_less del: power_Suc)
qed

lemma bucket_index_small: "v < 2 ^ p \<Longrightarrow> bucket_index p v = v"
proof (cases "0 < v")
  case True
  assume "v < 2 ^ p"
  then have "top_bit v - p = 0" using top_bit_less_iff[OF True, of p] by simp
  then show ?thesis by (simp add: bucket_index_def)
qed (simp add: bucket_index_def)

lemma bucket_index_mono:
  assumes "v \<le> w"
  shows "bucket_index p v \<le> bucket_index p w"
proof (cases "w < 2 ^ p")
  case True
  then show ?thesis using assms by (simp add: bucket_index_small)
next
  case False
  then have w: "2 ^ p \<le> w" by simp
  note qw = quotient_bounds[OF w]
  show ?thesis
  proof (cases "v < 2 ^ p")
    case True
    then show ?thesis using qw(1) bucket_index_small[OF True] unfolding bucket_index_def[of p w] by linarith
  next
    case False
    then have v: "2 ^ p \<le> v" by simp
    note qv = quotient_bounds[OF v]
    have v0: "0 < v" using v by (metis gr0I le_zero_eq power_not_zero zero_neq_numeral)
    show ?thesis
    proof (cases "top_bit v = top_bit w")
      case True
      then show ?thesis using assms by (simp add: bucket_index_def div_le_mono)
    next
      case False
      then have less: "top_bit v < top_bit w" using top_bit_mono[OF v0 assms] by simp
      have "p \<le> top_bit v" using top_bit_less_iff[OF v0, of p] v by linarith
      then have "Suc (top_bit v - p) \<le> top_bit w - p" using less by linarith
      then have "Suc (top_bit v - p) * 2 ^ p \<le> (top_bit w - p) * 2 ^ p" by (rule mult_le_mono1)
      then show ?thesis using qv(2) qw(1) unfolding bucket_index_def by simp
    qed
  qed
qed

subsection \<open>The words compute it\<close>

lemma bit_top:
  assumes "w \<noteq> (0::u64)"
  shows "clzll w = 63 - top_bit (unat w)" "top_bit (unat w) \<le> 63"
proof -
  let ?e = "top_bit (unat w)"
  have v: "0 < unat w" using assms by (simp add: unat_gt_0)
  note b = top_bit_bounds[OF v]
  have "unat w < 2 ^ 64" using unsigned_less[of w] by simp
  then show e: "?e \<le> 63" using top_bit_less_iff[OF v, of 64] by simp
  have quot: "unat w div 2 ^ ?e = 1"
  proof -
    have "unat w div 2 ^ ?e < 2" using b(2) by (intro less_mult_imp_div_less) simp
    moreover have "1 \<le> unat w div 2 ^ ?e" using b(1) by (simp add: less_eq_div_iff_mult_less_eq)
    ultimately show ?thesis by linarith
  qed
  have bit: "bit w i \<longleftrightarrow> odd (unat w div 2 ^ i)" for i
    using bit_iff_odd[of "unat w" i] by (simp add: bit_unsigned_iff)
  have top: "bit w ?e" using quot by (simp add: bit)
  have above: "\<not> bit w i" if "?e < i" for i
  proof -
    have "(2::nat) ^ Suc ?e \<le> 2 ^ i" using that by (intro power_increasing) simp_all
    then have "unat w div 2 ^ i = 0" using b(2) by simp
    then show ?thesis by (simp add: bit)
  qed
  have split: "rev [0..<64] = rev [Suc ?e..<64] @ ?e # rev [0..<?e]"
  proof -
    have "[0..<64] = [0..<?e] @ [?e..<64]" using upt_add_eq_append[of 0 ?e "64 - ?e"] e by simp
    also have "[?e..<64] = ?e # [Suc ?e..<64]" using upt_conv_Cons[of ?e 64] e by simp
    finally have "[0..<64] = [0..<?e] @ ?e # [Suc ?e..<64]" .
    then show ?thesis by simp
  qed
  have "takeWhile (\<lambda>i. \<not> bit w i) (rev [0..<64]) = rev [Suc ?e..<64]"
    unfolding split by (subst takeWhile_append2) (use top above in auto)
  then show "clzll w = 63 - ?e" using e by (simp add: clzll_def)
qed

lemma or_plus:
  fixes a :: "'a::len word"
  assumes "unat b < 2 ^ p"
  shows "push_bit p a OR b = push_bit p a + b"
proof (rule disjunctive_add_eq_or[symmetric])
  have "take_bit p b = b" using assms by (simp add: word_unat_eq_iff unsigned_take_bit_eq take_bit_nat_eq_self)
  then have "\<not> bit b i" if "p \<le> i" for i using that by (metis bit_take_bit_iff not_le)
  then show "push_bit p a AND b = 0" by (intro bit_word_eqI) (auto simp: bit_simps)
qed

lemma bucket_unat:
  assumes p: "p \<le> 16" and m: "m \<le> 64"
  shows "unat (gc_histogram_bucket m p val) = min (m * 2 ^ p) (bucket_index p (unat val))"
proof -
  let ?v = "unat val"
  have pw: "(2::nat) ^ p \<le> 2 ^ 16" using p by (intro power_increasing) simp_all
  have one: "unat (push_bit p 1 :: u64) = 2 ^ p" using p by (simp add: push_bit_eq_mult unat_exp)
  have shift: "unat (push_bit p (of_nat k) :: u64) = k * 2 ^ p" if "k \<le> 64" for k
  proof -
    have "k * 2 ^ p \<le> 64 * 2 ^ 16" using that pw by (intro mult_le_mono)
    then show ?thesis using that p by (simp add: push_bit_eq_mult unat_word_ariths unat_of_nat unat_exp)
  qed
  define major where "major = (if ?v < 2 ^ p then 0 else 64 - clzll val - p)"
  define minor where "minor = (if ?v < 2 ^ p then val else drop_bit (major - 1) val AND (push_bit p 1 - 1))"
  have facts: "major \<le> 64 \<and> unat minor < 2 ^ p \<and> major * 2 ^ p + unat minor = bucket_index p ?v"
  proof (cases "?v < 2 ^ p")
    case True
    then show ?thesis by (simp add: major_def minor_def bucket_index_small)
  next
    case False
    then have v: "2 ^ p \<le> ?v" by simp
    then have "?v \<noteq> 0" by (metis power_not_zero le_zero_eq zero_neq_numeral)
    then have nz: "val \<noteq> 0" "0 < ?v" by auto
    have e: "p \<le> top_bit ?v" using top_bit_less_iff[OF nz(2), of p] v by linarith
    have major: "major = top_bit ?v - p + 1"
      using False bit_top[OF nz(1)] e by (simp add: major_def)
    have "top_bit ?v - p < LENGTH(64)" using bit_top(2)[OF nz(1)] by simp
    from unat_exp[OF this] have "unat minor = (?v div 2 ^ (top_bit ?v - p)) mod 2 ^ p"
      using False major p by (simp add: minor_def push_bit_eq_mult and_exp_minus_1 drop_bit_eq_div unat_div_distrib)
    also have "\<dots> = ?v div 2 ^ (top_bit ?v - p) - 2 ^ p"
      using quotient_bounds[OF v] by (simp add: le_mod_geq)
    finally have minor: "unat minor = ?v div 2 ^ (top_bit ?v - p) - 2 ^ p" .
    have q: "2 ^ p \<le> ?v div 2 ^ (top_bit ?v - p)" "?v div 2 ^ (top_bit ?v - p) < 2 * 2 ^ p"
      using quotient_bounds[OF v] by simp_all
    have "unat minor < 2 ^ p" unfolding minor using q by linarith
    moreover have "major \<le> 64" using major bit_top(2)[OF nz(1)] by linarith
    moreover have "major * 2 ^ p + unat minor = bucket_index p ?v"
      unfolding minor major bucket_index_def using q by simp
    ultimately show ?thesis by simp
  qed
  have idx: "unat (push_bit p (of_nat major) OR minor) = bucket_index p ?v"
  proof -
    have "major * 2 ^ p + unat minor < 2 ^ 64"
    proof -
      have "major * 2 ^ p \<le> 64 * 2 ^ 16" using facts pw by (intro mult_le_mono) simp_all
      moreover have "unat minor < 2 ^ 16" using facts pw by linarith
      ultimately show ?thesis by simp
    qed
    then show ?thesis using facts shift[of major] by (simp add: or_plus unat_word_ariths)
  qed
  show ?thesis
    using idx shift[OF m] one
    by (simp add: gc_histogram_bucket_def Let_def word_less_nat_alt word_le_nat_alt flip: major_def minor_def)
qed

lemma min_val_unat:
  assumes p: "p \<le> 16" and idx: "unat idx < 64 * 2 ^ p" and fits: "unat idx div 2 ^ p + p \<le> 64"
  shows "unat (gc_histogram_bucket_min_val p idx) =
    (if unat idx < 2 ^ p then unat idx else (2 ^ p + unat idx mod 2 ^ p) * 2 ^ (unat idx div 2 ^ p - 1))"
proof -
  let ?i = "unat idx"
  have minor: "unat (idx AND (push_bit p 1 - 1)) = ?i mod 2 ^ p"
    by (simp add: push_bit_eq_mult and_exp_minus_1)
  have major: "unat (drop_bit p idx) = ?i div 2 ^ p"
    using p by (simp add: drop_bit_eq_div unat_div_distrib unat_exp)
  show ?thesis
  proof (cases "?i < 2 ^ p")
    case True
    then have "drop_bit p idx = 0" using major by (simp add: word_unat_eq_iff)
    then show ?thesis using True minor by (simp add: gc_histogram_bucket_min_val_def Let_def)
  next
    case False
    define k where "k = ?i div 2 ^ p - 1"
    have "1 \<le> ?i div 2 ^ p" using False by (simp add: less_eq_div_iff_mult_less_eq)
    then have nz: "drop_bit p idx \<noteq> 0" using major by (auto simp: word_unat_eq_iff)
    have "unat (drop_bit p idx - 1) = k"
      unfolding k_def major[symmetric] using nz by (rule unat_minus_one)
    moreover have "k + Suc p \<le> 64" using \<open>1 \<le> ?i div 2 ^ p\<close> fits by (simp add: k_def)
    moreover have top: "unat (push_bit p 1 OR (idx AND (push_bit p 1 - 1)) :: u64) = 2 ^ p + ?i mod 2 ^ p"
    proof -
      have "(2::nat) ^ p \<le> 2 ^ 16" using p by (intro power_increasing) simp_all
      moreover have "?i mod 2 ^ p < 2 ^ p" by simp
      ultimately have "2 ^ p + ?i mod 2 ^ p < 2 ^ 64" by (simp del: mod_less_divisor)
      then show ?thesis
        using or_plus[of "idx AND (push_bit p 1 - 1)" p 1] minor p
        by (simp add: unat_word_ariths push_bit_eq_mult unat_exp)
    qed
    moreover have "(2 ^ p + ?i mod 2 ^ p) * 2 ^ k < 2 ^ 64"
    proof -
      have "2 ^ p + ?i mod 2 ^ p < 2 ^ Suc p" by simp
      then have "(2 ^ p + ?i mod 2 ^ p) * 2 ^ k < 2 ^ Suc p * 2 ^ k" by (rule mult_strict_right_mono) simp
      also have "\<dots> = 2 ^ (k + Suc p)" by (simp add: power_add)
      also have "\<dots> \<le> 2 ^ 64" using \<open>k + Suc p \<le> 64\<close> by (intro power_increasing) simp_all
      finally show ?thesis .
    qed
    moreover have "k < 64" using \<open>k + Suc p \<le> 64\<close> by simp
    ultimately show ?thesis
      using False nz unfolding k_def[symmetric]
      by (simp add: gc_histogram_bucket_min_val_def Let_def push_bit_eq_mult unat_word_ariths unat_exp mult.commute)
  qed
qed

lemma index_cases:
  assumes "2 ^ p \<le> (v::nat)"
  shows "bucket_index p v div 2 ^ p = top_bit v - p + 1" "bucket_index p v mod 2 ^ p = v div 2 ^ (top_bit v - p) - 2 ^ p"
proof -
  let ?q = "v div 2 ^ (top_bit v - p)"
  have q: "2 ^ p \<le> ?q" "?q - 2 ^ p < 2 ^ p" using quotient_bounds[OF assms] by simp_all
  have "bucket_index p v = (?q - 2 ^ p) + (top_bit v - p + 1) * 2 ^ p"
    using q(1) by (simp add: bucket_index_def)
  then show "bucket_index p v div 2 ^ p = top_bit v - p + 1" "bucket_index p v mod 2 ^ p = ?q - 2 ^ p"
    using q(2) by (simp_all only: div_mult_self1 mod_mult_self1 div_less mod_less add_0 power_not_zero zero_neq_numeral not_False_eq_True simp_thms)
qed

subsection \<open>Buckets\<close>

text \<open>Larger values go to the same or a later bucket, so that a first-fit search from the
  bucket of a size upwards meets every bucket with a large enough member; the index stays in the array.\<close>

theorem histogram_bucket_mono:
  assumes "p \<le> 16" "m \<le> 64" "v \<le> w"
  shows "gc_histogram_bucket m p v \<le> gc_histogram_bucket m p w
    \<and> unat (gc_histogram_bucket m p w) < histogram_size m p"
  using bucket_index_mono[of "unat v" "unat w" p] assms(3)
  by (auto simp: word_le_nat_alt bucket_unat[OF assms(1,2)] histogram_size_def min_def)

theorem histogram_bucket_mono_witness:
  "gc_histogram_bucket 63 2 100 \<le> gc_histogram_bucket 63 2 4096
    \<and> unat (gc_histogram_bucket 63 2 4096) < histogram_size 63 2"
  by (rule histogram_bucket_mono) simp_all

text \<open>A value that is not clamped into the last bucket lies between the lower bound of its
  bucket and that of the next one.\<close>

theorem histogram_bucket_min_val_bounds:
  assumes "p \<le> 16" "m + p \<le> 63" "b = gc_histogram_bucket m p v" "b < push_bit p (of_nat m)"
  shows "gc_histogram_bucket_min_val p b \<le> v \<and> v < gc_histogram_bucket_min_val p (b + 1)"
proof -
  let ?v = "unat v" and ?i = "bucket_index p (unat v)"
  have m: "m \<le> 64" using assms(2) by simp
  have "m * 2 ^ p < 2 ^ 64"
  proof -
    have "m * 2 ^ p \<le> 64 * 2 ^ 16" using m assms(1) by (intro mult_le_mono power_increasing) simp_all
    then show ?thesis by simp
  qed
  then have "unat (push_bit p (of_nat m) :: u64) = m * 2 ^ p"
    using m assms(1) by (simp add: push_bit_eq_mult unat_word_ariths unat_of_nat unat_exp)
  then have small: "?i < m * 2 ^ p" and b: "unat b = ?i"
    using assms(3,4) bucket_unat[OF assms(1) m, of v] by (auto simp: word_less_nat_alt)
  have b1: "unat (b + 1) = Suc ?i" using b small \<open>m * 2 ^ p < 2 ^ 64\<close> by (simp add: unat_word_ariths)
  have maj: "?i div 2 ^ p < m" "Suc ?i div 2 ^ p \<le> m"
    using small by (simp_all add: less_mult_imp_div_less div_le_mono[of "Suc ?i" "m * 2 ^ p" "2 ^ p", simplified])
  have le64: "m * 2 ^ p < 64 * 2 ^ p" using assms(2) by simp
  have val: "unat (gc_histogram_bucket_min_val p b) =
      (if ?i < 2 ^ p then ?i else (2 ^ p + ?i mod 2 ^ p) * 2 ^ (?i div 2 ^ p - 1))"
    using min_val_unat[OF assms(1), of b] b small maj assms(2) le64 by simp
  have val1: "unat (gc_histogram_bucket_min_val p (b + 1)) =
      (if Suc ?i < 2 ^ p then Suc ?i else (2 ^ p + Suc ?i mod 2 ^ p) * 2 ^ (Suc ?i div 2 ^ p - 1))"
    using min_val_unat[OF assms(1), of "b + 1"] b1 small maj assms(2) le64 by simp
  show ?thesis
  proof (cases "?v < 2 ^ p")
    case True
    then have "?i = ?v" by (rule bucket_index_small)
    then show ?thesis
      unfolding word_le_nat_alt word_less_nat_alt val val1 using True
      by (cases "Suc ?v = 2 ^ p") simp_all
  next
    case False
    then have v: "2 ^ p \<le> ?v" by simp
    let ?e = "top_bit ?v - p" and ?q = "?v div 2 ^ (top_bit ?v - p)"
    note q = quotient_bounds[OF v] and ix = index_cases[OF v]
    have big: "\<not> ?i < 2 ^ p" using ix(1) by (metis add_is_0 div_less one_neq_zero)
    have "gc_histogram_bucket_min_val p b \<le> v"
      unfolding word_le_nat_alt val using big ix q by simp
    moreover have "?v < Suc ?q * 2 ^ ?e"
    proof -
      have "?v mod 2 ^ ?e < 2 ^ ?e" by simp
      then show ?thesis using div_mult_mod_eq[of ?v "2 ^ ?e"] by (simp only: mult_Suc)
    qed
    moreover have "Suc ?q * 2 ^ ?e \<le> unat (gc_histogram_bucket_min_val p (b + 1))"
    proof (cases "?q = 2 ^ Suc p - 1")
      case True
      then have "?i mod 2 ^ p = 2 ^ p - 1" using ix(2) by simp
      then have "Suc ?i mod 2 ^ p = 0" "Suc ?i div 2 ^ p = ?e + 2"
        using ix(1) by (simp_all add: mod_Suc div_Suc)
      then show ?thesis unfolding val1 using big True by simp
    next
      case False
      then have "?i mod 2 ^ p < 2 ^ p - 1" using ix(2) q by auto
      then have "Suc ?i mod 2 ^ p = Suc (?i mod 2 ^ p)" "Suc ?i div 2 ^ p = ?e + 1"
        using ix(1) by (auto simp: mod_Suc div_Suc)
      then show ?thesis unfolding val1 using big ix q by simp
    qed
    ultimately show ?thesis by (simp add: word_less_nat_alt)
  qed
qed

theorem histogram_bucket_min_val_bounds_witness:
  "gc_histogram_bucket_min_val 2 (gc_histogram_bucket 40 2 1000) \<le> 1000
    \<and> 1000 < gc_histogram_bucket_min_val 2 (gc_histogram_bucket 40 2 1000 + 1)"
proof (rule histogram_bucket_min_val_bounds)
  have "unat (gc_histogram_bucket 40 2 1000) = min 160 (bucket_index 2 1000)"
    using bucket_unat[of 2 40 1000] by simp
  moreover have "top_bit 1000 = 9" by (rule top_bit_unique) simp_all
  ultimately show "gc_histogram_bucket 40 2 1000 < push_bit 2 (of_nat 40)"
    by (simp add: word_less_nat_alt bucket_index_def)
qed simp_all

end
