(* ===== verification/Swar.thy ===== *)
theory Swar
  imports Memory Histogram
begin

text \<open>
  \<open>src/src/swar.h\<close>: searches of a byte array that take eight bytes at a time, for a byte that has
  some of the bits of a mask, or whose bits under a mask are one of up to two tags. The reference is
  a search that takes one byte at a time.
\<close>

section \<open>Definitions\<close>

text \<open>\<open>__builtin_ctzll\<close>: the number of zero bits below the lowest set bit.\<close>

definition ctzll :: "u64 \<Rightarrow> nat" where
  "ctzll w = length (takeWhile (\<lambda>i. \<not> bit w i) [0..<64])"

definition count_zero_bytes :: "u64 \<Rightarrow> u64" where
  "count_zero_bytes bytes = (if bytes \<noteq> 0 then of_nat (ctzll bytes div 8) else 8)"

definition broadcast_byte :: "u8 \<Rightarrow> u64" where
  "broadcast_byte byte = (let result = ucast byte in result * 0x0101010101010101)"

definition load_eight_aligned_bytes :: "byte_mem \<Rightarrow> u64 \<Rightarrow> u64 result" where
  "load_eight_aligned_bytes mem ptr =
    result_bind (gc_assert (ptr AND 7 = 0)) (\<lambda>_. Inr (load_word mem ptr))"

definition store_eight_aligned_bytes :: "byte_mem \<Rightarrow> u64 \<Rightarrow> u64 \<Rightarrow> byte_mem result" where
  "store_eight_aligned_bytes mem ptr w =
    result_bind (gc_assert (ptr AND 7 = 0)) (\<lambda>_. Inr (store_word mem ptr w))"

definition match_bytes_against_bits :: "u64 \<Rightarrow> u8 \<Rightarrow> u64" where
  "match_bytes_against_bits bytes msk = bytes AND broadcast_byte msk"

definition match_bytes_against_tag :: "u64 \<Rightarrow> u8 \<Rightarrow> u8 \<Rightarrow> u64 result" where
  "match_bytes_against_tag bytes msk tag =
    result_bind (gc_assert (tag AND msk = tag)) (\<lambda>_.
    result_bind (gc_assert (msk AND 0x7f = msk)) (\<lambda>_.
    result_bind (gc_assert (msk \<noteq> 0)) (\<lambda>_.
    result_bind (gc_assert (msk AND (msk + 1) = 0)) (\<lambda>_.
      let vmask = broadcast_byte msk;
          vtest = broadcast_byte (msk + 1);
          vtag = broadcast_byte tag;
          bytes = bytes AND vmask;
          m = (bytes XOR vtag) + vmask
      in Inr ((m AND vtest) XOR vtest)))))"

definition match_bytes_against_2_tags :: "u64 \<Rightarrow> u8 \<Rightarrow> u8 \<Rightarrow> u8 \<Rightarrow> u64 result" where
  "match_bytes_against_2_tags bytes msk tag1 tag2 =
    result_bind (gc_assert (tag1 AND msk = tag1)) (\<lambda>_.
    result_bind (gc_assert (tag2 AND msk = tag2)) (\<lambda>_.
    result_bind (gc_assert (msk AND 0x7f = msk)) (\<lambda>_.
    result_bind (gc_assert (msk \<noteq> 0)) (\<lambda>_.
    result_bind (gc_assert (msk AND (msk + 1) = 0)) (\<lambda>_.
      let vmask = broadcast_byte msk;
          vtest = broadcast_byte (msk + 1);
          vtag1 = broadcast_byte tag1;
          vtag2 = broadcast_byte tag2;
          bytes = bytes AND vmask;
          m1 = (bytes XOR vtag1) + vmask;
          m2 = (bytes XOR vtag2) + vmask
      in Inr (((m1 AND m2) AND vtest) XOR vtest))))))"

text \<open>
  The search that the three scans share: the word that holds the first byte, shifted, when that byte
  is not aligned, and then whole words. A \<open>Some\<close> is the value of a \<open>return\<close> inside the loop.
\<close>

definition scan_words :: "(u64 \<Rightarrow> u64 result) \<Rightarrow> byte_mem \<Rightarrow> u64 \<Rightarrow> u64 \<Rightarrow> u64 \<Rightarrow> u64 result" where
  "scan_words matching mem ptr limit n =
    result_bind
      (while_result (\<lambda>(n, ret). ret = None \<and> n < limit)
        (\<lambda>(n, _).
          result_bind (load_eight_aligned_bytes mem (ptr + n)) (\<lambda>bytes.
          result_bind (matching bytes) (\<lambda>m.
            Inr (if m \<noteq> 0 then (n, Some (n + count_zero_bytes m)) else (n + 8, None)))))
        (n, None))
      (\<lambda>(_, ret). Inr (case ret of Some r \<Rightarrow> r | None \<Rightarrow> limit))"

definition scan_bytes :: "(u64 \<Rightarrow> u64 result) \<Rightarrow> byte_mem \<Rightarrow> u64 \<Rightarrow> u64 \<Rightarrow> u64 result" where
  "scan_bytes matching mem ptr limit =
    (let unaligned = ptr AND 7
     in if unaligned \<noteq> 0 then
          result_bind (load_eight_aligned_bytes mem (ptr - unaligned)) (\<lambda>w.
          let bytes = drop_bit (unat (unaligned * 8)) w
          in result_bind (matching bytes) (\<lambda>m.
               if m \<noteq> 0 then Inr (count_zero_bytes m)
               else scan_words matching mem ptr limit (8 - unaligned)))
        else scan_words matching mem ptr limit 0)"

definition scan_for_byte_with_bits :: "byte_mem \<Rightarrow> u64 \<Rightarrow> u64 \<Rightarrow> u8 \<Rightarrow> u64 result" where
  "scan_for_byte_with_bits mem ptr limit msk =
    scan_bytes (\<lambda>bytes. Inr (match_bytes_against_bits bytes msk)) mem ptr limit"

definition scan_for_byte_with_tag :: "byte_mem \<Rightarrow> u64 \<Rightarrow> u64 \<Rightarrow> u8 \<Rightarrow> u8 \<Rightarrow> u64 result" where
  "scan_for_byte_with_tag mem ptr limit msk tag =
    result_bind (gc_assert (tag \<noteq> 0)) (\<lambda>_.
      scan_bytes (\<lambda>bytes. match_bytes_against_tag bytes msk tag) mem ptr limit)"

definition scan_for_byte_with_tags :: "byte_mem \<Rightarrow> u64 \<Rightarrow> u64 \<Rightarrow> u8 \<Rightarrow> u8 \<Rightarrow> u8 \<Rightarrow> u64 result" where
  "scan_for_byte_with_tags mem ptr limit msk tag1 tag2 =
    result_bind (gc_assert (tag1 \<noteq> 0 \<and> tag2 \<noteq> 0)) (\<lambda>_.
      scan_bytes (\<lambda>bytes. match_bytes_against_2_tags bytes msk tag1 tag2) mem ptr limit)"

text \<open>\<open>scan_backwards_for_byte_with_bits\<close>; the result is an address, or null.\<close>

definition scan_backwards_words :: "byte_mem \<Rightarrow> u64 \<Rightarrow> u64 \<Rightarrow> u8 \<Rightarrow> u64 result" where
  "scan_backwards_words mem ptr base msk =
    result_bind
      (while_result (\<lambda>(ptr, ret). ret = None \<and> ptr > base)
        (\<lambda>(ptr, _).
          result_bind (gc_assert (ptr \<ge> base + 8)) (\<lambda>_.
          result_bind (load_eight_aligned_bytes mem (ptr - 8)) (\<lambda>bytes.
          let m = match_bytes_against_bits bytes msk
          in Inr (if m \<noteq> 0 then (ptr, Some (ptr - 1 - of_nat (clzll m div 8))) else (ptr - 8, None)))))
        (ptr, None))
      (\<lambda>(_, ret). Inr (case ret of Some r \<Rightarrow> r | None \<Rightarrow> 0))"

definition scan_backwards_for_byte_with_bits :: "byte_mem \<Rightarrow> u64 \<Rightarrow> u64 \<Rightarrow> u8 \<Rightarrow> u64 result" where
  "scan_backwards_for_byte_with_bits mem ptr base msk =
    result_bind (gc_assert (base AND 7 = 0)) (\<lambda>_.
      let unaligned = ptr AND 7
      in if unaligned \<noteq> 0 then
           result_bind (load_eight_aligned_bytes mem (ptr - unaligned)) (\<lambda>w.
           let bytes = push_bit (unat ((8 - unaligned) * 8)) w;
               m = match_bytes_against_bits bytes msk
           in if m \<noteq> 0 then Inr (ptr - 1 - of_nat (clzll m div 8))
              else scan_backwards_words mem (ptr - unaligned) base msk)
         else scan_backwards_words mem ptr base msk)"

section \<open>The bytes of a word\<close>

definition byte_of :: "u64 \<Rightarrow> nat \<Rightarrow> u8" where
  "byte_of w k = ucast (drop_bit (8 * k) w)"

lemma bit_byte_of: "bit (byte_of w k) i \<longleftrightarrow> i < 8 \<and> bit w (8 * k + i)"
  by (simp add: byte_of_def bit_simps)

lemma byte_of_and [simp]: "byte_of (v AND w) k = byte_of v k AND byte_of w k"
  by (rule bit_word_eqI) (auto simp: bit_byte_of bit_simps)

lemma byte_of_xor [simp]: "byte_of (v XOR w) k = byte_of v k XOR byte_of w k"
  by (rule bit_word_eqI) (auto simp: bit_byte_of bit_simps)

lemma byte_of_drop_bit: "byte_of (drop_bit (8 * j) w) k = byte_of w (j + k)"
  by (rule bit_word_eqI) (auto simp: bit_byte_of bit_simps algebra_simps)

lemma byte_of_push_bit:
  "k < 8 \<Longrightarrow> byte_of (push_bit (8 * j) w) k = (if j \<le> k then byte_of w (k - j) else 0)"
  by (rule bit_word_eqI) (auto simp: bit_byte_of bit_simps algebra_simps)

lemma byte_of_beyond: "8 \<le> k \<Longrightarrow> byte_of w k = 0"
  by (rule bit_word_eqI) (auto simp: bit_byte_of dest: bit_imp_le_length)

lemma byte_of_0 [simp]: "byte_of 0 k = 0"
  by (simp add: byte_of_def)

lemma word_zero_bytes: "w = 0 \<longleftrightarrow> (\<forall>k < 8. byte_of w k = 0)"
proof
  assume z: "\<forall>k < 8. byte_of w k = 0"
  show "w = 0"
  proof (rule bit_word_eqI)
    fix n assume "n < LENGTH(64)"
    then have "\<not> bit (byte_of w (n div 8)) (n mod 8)" using z by simp
    then show "bit w n = bit 0 n" by (simp add: bit_byte_of)
  qed
qed simp

lemma byte_of_load: "k < 8 \<Longrightarrow> byte_of (load_word m a) k = m (a + of_nat k)"
proof (rule bit_word_eqI)
  fix i assume k: "k < 8" and "i < LENGTH(8)"
  then have i: "i < 8" by simp
  have "bit (load_word m a) (8 * k + i)
    \<longleftrightarrow> (\<exists>j \<in> {0..<8}. bit (push_bit (8 * j) (ucast (m (a + of_nat j))) :: u64) (8 * k + i))"
    unfolding load_word_def bit_fold_or by simp
  also have "\<dots> \<longleftrightarrow> (\<exists>j \<in> {0..<8}. j = k \<and> bit (m (a + of_nat j)) i)"
  proof (rule bex_cong[OF refl])
    fix j assume "j \<in> {0..<8 :: nat}"
    have "8 * k + i - 8 * j < 8 \<and> 8 * j \<le> 8 * k + i \<longleftrightarrow> j = k" using i by linarith
    then show "bit (push_bit (8 * j) (ucast (m (a + of_nat j))) :: u64) (8 * k + i) \<longleftrightarrow> j = k \<and> bit (m (a + of_nat j)) i"
      using k i bit_imp_le_length[of "m (a + of_nat j)" "8 * k + i - 8 * j"] by (auto simp: bit_simps)
  qed
  also have "\<dots> \<longleftrightarrow> bit (m (a + of_nat k)) i" using k by auto
  finally show "bit (byte_of (load_word m a) k) i = bit (m (a + of_nat k)) i" using i by (simp add: bit_byte_of)
qed

lemma bit_ucast_or: "bit (fold (\<lambda>k w. w OR push_bit (8 * k) (ucast (b :: u8))) [0..<8] (0 :: u64)) n
  \<longleftrightarrow> n < 64 \<and> bit b (n mod 8)"
proof -
  have "bit (fold (\<lambda>k w. w OR push_bit (8 * k) (ucast b)) [0..<8] (0 :: u64)) n
    \<longleftrightarrow> (\<exists>j \<in> {0..<8}. bit (push_bit (8 * j) (ucast b) :: u64) n)"
    unfolding bit_fold_or by simp
  also have "\<dots> \<longleftrightarrow> (\<exists>j \<in> {0..<8}. j = n div 8 \<and> n < 64 \<and> bit b (n mod 8))"
  proof (rule bex_cong[OF refl])
    fix j assume "j \<in> {0..<8 :: nat}"
    have "bit b (n - 8 * j) \<Longrightarrow> n - 8 * j < 8" using bit_imp_le_length[of b "n - 8 * j"] by simp
    moreover have "8 * j \<le> n \<and> n - 8 * j < 8 \<longleftrightarrow> j = n div 8" by auto
    moreover have "j = n div 8 \<Longrightarrow> n - 8 * j = n mod 8" by (simp add: minus_mult_div_eq_mod)
    ultimately show "bit (push_bit (8 * j) (ucast b) :: u64) n \<longleftrightarrow> j = n div 8 \<and> n < 64 \<and> bit b (n mod 8)"
      by (auto simp: bit_simps)
  qed
  also have "\<dots> \<longleftrightarrow> n < 64 \<and> bit b (n mod 8)" by auto
  finally show ?thesis .
qed


text \<open>Broadcasting copies the byte to every place.\<close>

lemma byte_sum:
  "byte_of w k = of_nat (unat w div 2 ^ (8 * k) mod 2 ^ 8)"
proof -
  have "unat (byte_of w k) = unat w div 2 ^ (8 * k) mod 2 ^ 8"
    by (simp only: byte_of_def unsigned_ucast_eq unsigned_drop_bit_eq take_bit_nat_def drop_bit_nat_def)
      (use u64_bound[of w] in simp)
  then show ?thesis by (metis of_nat_unat ucast_id)
qed

lemma byte_of_broadcast: "k < 8 \<Longrightarrow> byte_of (broadcast_byte b) k = b"
proof -
  assume k: "k < 8"
  define n where "n = unat b"
  have n: "n < 256" using unsigned_less[of b] by (simp add: n_def)
  have "unat (broadcast_byte b) = n * 0x0101010101010101"
  proof -
    have "n * 0x0101010101010101 < 2 ^ 64" using n by simp
    moreover have "take_bit 64 n = n" using n by (intro take_bit_nat_eq_self) simp
    ultimately show ?thesis by (simp add: broadcast_byte_def unat_word_ariths n_def[symmetric] unsigned_ucast_eq)
  qed
  then have "byte_of (broadcast_byte b) k = of_nat (n * 0x0101010101010101 div 2 ^ (8 * k) mod 2 ^ 8)"
    unfolding byte_sum by (simp only:)
  also have "n * 0x0101010101010101 div 2 ^ (8 * k) mod 2 ^ 8 = n"
  proof -
    have part: "n * c div d mod 256 = n" if "c = d * (256 * h + 1) + l" "255 * l < d" for c d h l :: nat
    proof -
      have "n * l \<le> 255 * l" by (rule mult_le_mono1) (use n in simp)
      then have "n * l < d" using that(2) by (rule le_less_trans)
      moreover have "n * c = n * l + d * (n * (256 * h + 1))" unfolding that(1) by (simp add: algebra_simps)
      ultimately have "n * c div d = n * (256 * h + 1)" by (simp del: distrib_left add_mult_distrib2)
      moreover have "n * (256 * h + 1) = n + 256 * (n * h)" by (simp add: algebra_simps)
      ultimately have "n * c div d mod 256 = (n + 256 * (n * h)) mod 256" by (simp only:)
      also have "\<dots> = n" using n unfolding mod_mult_self2 by simp
      finally show ?thesis .
    qed
    consider "k = 0" | "k = 1" | "k = 2" | "k = 3" | "k = 4" | "k = 5" | "k = 6" | "k = 7" using k by linarith
    then show ?thesis
    proof cases
      case 1 show ?thesis using part[of _ 1 "0x01010101010101" 0] 1 by simp
    next case 2 show ?thesis using part[of _ "2 ^ 8" "0x010101010101" 1] 2 by simp
    next case 3 show ?thesis using part[of _ "2 ^ 16" "0x0101010101" "0x0101"] 3 by simp
    next case 4 show ?thesis using part[of _ "2 ^ 24" "0x01010101" "0x010101"] 4 by simp
    next case 5 show ?thesis using part[of _ "2 ^ 32" "0x010101" "0x01010101"] 5 by simp
    next case 6 show ?thesis using part[of _ "2 ^ 40" "0x0101" "0x0101010101"] 6 by simp
    next case 7 show ?thesis using part[of _ "2 ^ 48" "1" "0x010101010101"] 7 by simp
    next case 8 show ?thesis using part[of _ "2 ^ 56" 0 "0x01010101010101"] 8 by simp
    qed
  qed
  finally show ?thesis by (simp add: n_def)
qed

text \<open>A sum without carries out of its bytes.\<close>

lemma div_add_no_carry:
  fixes x y :: nat
  assumes "\<And>i. i < k \<Longrightarrow> x div 2 ^ (8 * i) mod 2 ^ 8 + y div 2 ^ (8 * i) mod 2 ^ 8 < 2 ^ 8"
  shows "(x + y) div 2 ^ (8 * k) = x div 2 ^ (8 * k) + y div 2 ^ (8 * k)"
  using assms
proof (induction k)
  case (Suc k)
  have e: "(2::nat) ^ (8 * Suc k) = 2 ^ (8 * k) * 2 ^ 8" by (simp add: power_add)
  have "(x div 2 ^ (8 * k) + y div 2 ^ (8 * k)) div 2 ^ 8 = x div 2 ^ (8 * k) div 2 ^ 8 + y div 2 ^ (8 * k) div 2 ^ 8"
    using Suc.prems[of k] by (simp add: div_add1_eq[of "x div 2 ^ (8 * k)"])
  then show ?case using Suc unfolding e div_mult2_eq by simp
qed simp

lemma byte_of_add:
  assumes "\<And>i. i < 8 \<Longrightarrow> unat (byte_of v i) + unat (byte_of w i) < 2 ^ 8" "k < 8"
  shows "byte_of (v + w) k = byte_of v k + byte_of w k"
proof -
  have u: "unat (byte_of z i) = unat z div 2 ^ (8 * i) mod 2 ^ 8" for z i
    unfolding byte_sum by (simp add: unat_of_nat)
  have nc: "unat v div 2 ^ (8 * i) mod 2 ^ 8 + unat w div 2 ^ (8 * i) mod 2 ^ 8 < 2 ^ 8" if "i < 8" for i
    using assms(1)[OF that] unfolding u .
  have "(unat v + unat w) div 2 ^ (8 * 8) = unat v div 2 ^ (8 * 8) + unat w div 2 ^ (8 * 8)"
    by (rule div_add_no_carry) (rule nc)
  also have "\<dots> = 0"
  proof -
    have "unat z < 2 ^ 64" for z :: u64 using unsigned_less[of z] by simp
    then have "unat z div 2 ^ (8 * 8) = 0" for z :: u64 by simp
    then show ?thesis by simp
  qed
  finally have "unat v + unat w < 2 ^ 64" by (simp add: div_eq_0_iff)
  then have s: "unat (v + w) = unat v + unat w" by (simp add: unat_word_ariths)
  have "unat (byte_of (v + w) k) = (unat v + unat w) div 2 ^ (8 * k) mod 2 ^ 8" unfolding u s ..
  also have "\<dots> = (unat v div 2 ^ (8 * k) + unat w div 2 ^ (8 * k)) mod 2 ^ 8"
    by (subst div_add_no_carry) (use nc assms(2) in auto)
  also have "\<dots> = unat (byte_of v k) + unat (byte_of w k)"
    using nc[OF assms(2)] unfolding u by (metis mod_add_eq mod_less)
  also have "\<dots> = unat (byte_of v k + byte_of w k)"
    using assms(1)[OF assms(2)] by (simp add: unat_word_ariths)
  finally show ?thesis by (rule unsigned_word_eqI)
qed

section \<open>Matching the bytes of a word\<close>

text \<open>A matching function whose result has a nonzero byte exactly where the argument has a byte of
  the set it looks for.\<close>

definition matches :: "(u64 \<Rightarrow> u64 result) \<Rightarrow> (u8 \<Rightarrow> bool) \<Rightarrow> bool" where
  "matches matching P \<longleftrightarrow> (\<forall>w. \<exists>m. matching w = Inr m \<and> (\<forall>k < 8. byte_of m k \<noteq> 0 \<longleftrightarrow> P (byte_of w k)))"

lemma matches_bits: "matches (\<lambda>w. Inr (match_bytes_against_bits w msk)) (\<lambda>b. b AND msk \<noteq> 0)"
  by (simp add: matches_def match_bytes_against_bits_def byte_of_broadcast)

text \<open>Masks of low bits, and the test of one byte against a tag as the sum with the mask does it.\<close>

lemma low_mask_nat: "n AND (n + 1) = 0 \<Longrightarrow> \<exists>p. n + 1 = 2 ^ p" for n :: nat
proof (induction n rule: less_induct)
  case (less n)
  show ?case
  proof (cases "n = 0")
    case True then show ?thesis by (intro exI[of _ 0]) simp
  next
    case False
    show ?thesis
    proof (cases "even n")
      case True
      then obtain k where k: "n = 2 * k" by (elim evenE)
      have "(2 * k) AND (2 * k + 1) = 2 * k" by (simp add: and_rec[of "2 * k"] and_rec[of k k])
      then show ?thesis using less.prems False k by simp
    next
      case odd: False
      then obtain k where k: "n = 2 * k + 1" by (elim oddE)
      have "n AND (n + 1) = 2 * (k AND (k + 1))" unfolding k by (subst and_rec) simp
      then have "k AND (k + 1) = 0" using less.prems by simp
      then obtain p where "k + 1 = 2 ^ p" using less.IH[of k] k by auto
      then have "n + 1 = 2 ^ Suc p" using k by simp
      then show ?thesis by blast
    qed
  qed
qed

lemma low_mask:
  fixes msk :: u8
  assumes m: "msk AND 0x7f = msk" "msk \<noteq> 0" "msk AND (msk + 1) = 0"
  obtains p where "1 \<le> p" "p \<le> 7" "unat msk = 2 ^ p - 1" "msk + 1 = push_bit p 1"
proof -
  have le: "unat msk \<le> 127"
  proof -
    have "msk AND 0x7f \<le> 0x7f" by (rule word_and_le1)
    then show ?thesis using m(1) by (simp add: word_le_nat_alt)
  qed
  then have u: "unat (msk + 1) = unat msk + 1" by (simp add: unat_word_ariths)
  have "unat (msk AND (msk + 1)) = 0" unfolding m(3) by simp
  then have "unat msk AND (unat msk + 1) = 0" unfolding unsigned_and_eq u .
  then obtain p where p: "unat msk + 1 = 2 ^ p" using low_mask_nat by blast
  have "unat msk \<noteq> 0" using m(2) by (simp add: unat_eq_0)
  then have "p \<noteq> 0" using p by (intro notI) simp
  moreover have "p \<le> 7"
  proof (rule ccontr)
    assume "\<not> p \<le> 7"
    then have "(2::nat) ^ 8 \<le> 2 ^ p" by (intro power_increasing) auto
    then show False using p le by simp
  qed
  moreover have "msk + 1 = push_bit p 1"
  proof (rule unsigned_word_eqI)
    show "unat (msk + 1) = unat (push_bit p 1 :: u8)"
      using p \<open>p \<le> 7\<close> by (simp add: u push_bit_eq_mult unat_exp)
  qed
  moreover have "unat msk = 2 ^ p - 1" using p by simp
  ultimately show thesis by (intro that[of p]) simp_all
qed

lemma xor_zero: "u XOR v = 0 \<longleftrightarrow> u = (v :: u8)"
proof
  assume h: "u XOR v = 0"
  have "u = (u XOR v) XOR v" by (simp add: xor.assoc)
  then show "u = v" unfolding h by simp
qed simp

lemma push_bit_test:
  assumes "p < 8"
  shows "(t AND push_bit p 1) XOR push_bit p 1 \<noteq> (0 :: u8) \<longleftrightarrow> \<not> bit t p"
proof -
  have "t AND push_bit p 1 = (if bit t p then push_bit p 1 else 0)"
    by (rule bit_word_eqI) (auto simp: bit_simps)
  moreover have "bit (push_bit p 1 :: u8) p" using assms by (simp add: bit_simps)
  then have "push_bit p 1 \<noteq> (0 :: u8)" by (metis bit_0_eq bot_apply bot_bool_def)
  ultimately show ?thesis by simp
qed

lemma tag_bit:
  fixes b msk tag :: u8
  assumes p: "1 \<le> p" "p \<le> 7" "unat msk = 2 ^ p - 1" "msk + 1 = push_bit p 1" and m: "tag AND msk = tag"
  shows "unat ((b AND msk) XOR tag) + unat msk < 2 ^ 8"
    "bit (((b AND msk) XOR tag) + msk) p \<longleftrightarrow> b AND msk \<noteq> tag"
proof -
  define x where "x = (b AND msk) XOR tag"
  have "x AND msk = x"
  proof (rule bit_word_eqI)
    have "bit tag i \<Longrightarrow> bit msk i" for i using m by (metis bit_and_iff)
    then show "bit (x AND msk) i = bit x i" for i by (auto simp: x_def bit_simps)
  qed
  then have "x \<le> msk" using word_and_le1[of x msk] by simp
  then have X: "unat x \<le> 2 ^ p - 1" unfolding word_le_nat_alt p(3) .
  have pw: "(2::nat) ^ p \<le> 2 ^ 7" using p(2) by (intro power_increasing) auto
  show s: "unat ((b AND msk) XOR tag) + unat msk < 2 ^ 8"
    using X pw unfolding x_def[symmetric] p(3) by simp
  then have t: "unat (x + msk) = unat x + (2 ^ p - 1)"
    unfolding x_def[symmetric] by (simp add: unat_word_ariths p(3))
  have "bit (x + msk) p \<longleftrightarrow> odd (unat (x + msk) div 2 ^ p)"
  proof -
    have "bit (x + msk) p \<longleftrightarrow> bit (unat (x + msk)) p" using p(2) by (simp add: bit_unsigned_iff)
    then show ?thesis by (simp add: bit_iff_odd)
  qed
  also have "\<dots> \<longleftrightarrow> x \<noteq> 0"
  proof (cases "x = 0")
    case False
    then have "0 < unat x" by (simp add: unat_gt_0)
    then have "unat x + (2 ^ p - 1) = 2 ^ p + (unat x - 1)" "unat x - 1 < 2 ^ p" using X by auto
    then have "unat (x + msk) div 2 ^ p = 1" unfolding t by (intro div_nat_eqI) auto
    then show ?thesis using False by simp
  qed (simp add: p(3))
  finally have "bit (x + msk) p \<longleftrightarrow> x \<noteq> 0" .
  moreover have "x = 0 \<longleftrightarrow> b AND msk = tag" unfolding x_def by (rule xor_zero)
  ultimately show "bit (((b AND msk) XOR tag) + msk) p \<longleftrightarrow> b AND msk \<noteq> tag" unfolding x_def by simp
qed

lemma tag_word:
  assumes "1 \<le> p" "p \<le> 7" "unat msk = 2 ^ p - 1" "msk + 1 = push_bit p 1" "tag AND msk = tag" "k < 8"
  shows "byte_of (((w AND broadcast_byte msk) XOR broadcast_byte tag) + broadcast_byte msk) k
    = ((byte_of w k AND msk) XOR tag) + msk"
  using tag_bit(1)[OF assms(1-5)] assms(6) by (simp add: byte_of_add byte_of_broadcast)

lemma matches_tag:
  assumes "tag AND msk = tag" "msk AND 0x7f = msk" "msk \<noteq> 0" "msk AND (msk + 1) = 0"
  shows "matches (\<lambda>w. match_bytes_against_tag w msk tag) (\<lambda>b. b AND msk = tag)"
proof -
  obtain p where p: "1 \<le> p" "p \<le> 7" "unat msk = 2 ^ p - 1" "msk + 1 = push_bit p 1" by (rule low_mask[OF assms(2-4)])
  then show ?thesis
    using tag_bit(2)[OF p assms(1)] push_bit_test[of p] assms(4)[unfolded p(4)]
    by (simp add: matches_def match_bytes_against_tag_def assms tag_word[OF p assms(1)] byte_of_broadcast Let_def
        del: push_bit_of_1)
qed

lemma matches_tags:
  assumes "tag1 AND msk = tag1" "tag2 AND msk = tag2" "msk AND 0x7f = msk" "msk \<noteq> 0" "msk AND (msk + 1) = 0"
  shows "matches (\<lambda>w. match_bytes_against_2_tags w msk tag1 tag2) (\<lambda>b. b AND msk = tag1 \<or> b AND msk = tag2)"
proof -
  obtain p where p: "1 \<le> p" "p \<le> 7" "unat msk = 2 ^ p - 1" "msk + 1 = push_bit p 1" by (rule low_mask[OF assms(3-5)])
  then show ?thesis
    using tag_bit(2)[OF p assms(1)] tag_bit(2)[OF p assms(2)] push_bit_test[of p] assms(5)[unfolded p(4)]
    by (simp add: matches_def match_bytes_against_2_tags_def assms tag_word[OF p assms(1)] tag_word[OF p assms(2)]
        byte_of_broadcast Let_def bit_and_iff del: push_bit_of_1)
qed


section \<open>Scans\<close>

text \<open>The reference: the first of \<open>n\<close> bytes that satisfies a test, or \<open>n\<close>.\<close>

definition first_byte :: "(u8 \<Rightarrow> bool) \<Rightarrow> byte_mem \<Rightarrow> u64 \<Rightarrow> nat \<Rightarrow> nat" where
  "first_byte P mem ptr n = length (takeWhile (\<lambda>i. \<not> P (mem (ptr + of_nat i))) [0..<n])"

lemma upt_split_at: "i < n \<Longrightarrow> [0..<n] = [0..<i] @ i # [Suc i..<n]"
  using upt_add_eq_append[of 0 i "n - i"] upt_conv_Cons[of i n] by simp

lemma first_byte_eqI:
  assumes "i \<le> n" "\<And>j. j < i \<Longrightarrow> \<not> P (mem (ptr + of_nat j))" "i < n \<Longrightarrow> P (mem (ptr + of_nat i))"
  shows "first_byte P mem ptr n = i"
proof (cases "i = n")
  case True
  then have "takeWhile (\<lambda>i. \<not> P (mem (ptr + of_nat i))) [0..<n] = [0..<n]"
    using assms(2) by (intro takeWhile_eq_all_conv[THEN iffD2]) auto
  from arg_cong[OF this, of length] show ?thesis using True by (simp add: first_byte_def del: takeWhile_eq_all_conv)
next
  case False
  then have "[0..<n] = [0..<i] @ i # [Suc i..<n]" using assms(1) by (intro upt_split_at) simp
  moreover have "takeWhile (\<lambda>i. \<not> P (mem (ptr + of_nat i))) ([0..<i] @ i # [Suc i..<n]) = [0..<i]"
    using assms False by (subst takeWhile_append2) auto
  ultimately show ?thesis by (simp add: first_byte_def)
qed

lemma ctzll_bit:
  assumes "w \<noteq> 0"
  shows "bit w (ctzll w)" "ctzll w < 64" "n < ctzll w \<Longrightarrow> \<not> bit w n"
proof -
  obtain k where k: "bit w k" using assms by (metis bit_eqI bit_0_eq bot_apply bot_bool_def)
  then have "k < 64" using bit_imp_le_length[of w k] by simp
  have lt: "length (takeWhile (\<lambda>i. \<not> bit w i) [0..<64]) < length [0..<64]"
  proof (rule ccontr)
    assume "\<not> length (takeWhile (\<lambda>i. \<not> bit w i) [0..<64]) < length [0..<64]"
    then have "takeWhile (\<lambda>i. \<not> bit w i) [0..<64] = [0..<64]"
      by (metis length_takeWhile_le linorder_not_less order_antisym takeWhile_eq_take take_all)
    then show False using k \<open>k < 64\<close> by (auto dest: takeWhile_eq_all_conv[THEN iffD1])
  qed
  from nth_length_takeWhile[OF this] lt show "bit w (ctzll w)" "ctzll w < 64" by (simp_all add: ctzll_def)
  show "\<not> bit w n" if "n < ctzll w"
  proof -
    have "takeWhile (\<lambda>i. \<not> bit w i) [0..<64] ! n = [0..<64] ! n"
      using that by (intro takeWhile_nth) (simp add: ctzll_def)
    moreover have "n < 64" using that lt by (simp add: ctzll_def)
    ultimately have "takeWhile (\<lambda>i. \<not> bit w i) [0..<64] ! n = n" by simp
    moreover have "takeWhile (\<lambda>i. \<not> bit w i) [0..<64] ! n \<in> set (takeWhile (\<lambda>i. \<not> bit w i) [0..<64])"
      using that by (intro nth_mem) (simp add: ctzll_def)
    ultimately show ?thesis by (metis set_takeWhileD)
  qed
qed

text \<open>The lowest byte of a word that is not zero.\<close>

lemma ctzll_byte:
  assumes "i < 8" "byte_of m i \<noteq> 0" "\<And>j. j < i \<Longrightarrow> byte_of m j = 0"
  shows "count_zero_bytes m = of_nat i" "m \<noteq> 0"
proof -
  have "\<exists>b. b < 8 \<and> bit m (8 * i + b)"
  proof (rule ccontr)
    assume "\<not> (\<exists>b. b < 8 \<and> bit m (8 * i + b))"
    then have "byte_of m i = 0" by (intro bit_word_eqI) (auto simp: bit_byte_of)
    then show False using assms(2) by simp
  qed
  then obtain b0 where b0: "b0 < 8" "bit m (8 * i + b0)" by blast
  define b where "b = (LEAST b. bit m (8 * i + b))"
  have "bit m (8 * i + b)" unfolding b_def by (rule LeastI[of _ b0]) (rule b0(2))
  moreover have "b \<le> b0" unfolding b_def by (rule Least_le) (rule b0(2))
  moreover have "\<not> bit m (8 * i + c)" if "c < b" for c using that unfolding b_def by (rule not_less_Least)
  ultimately have b: "b < 8" "bit m (8 * i + b)" "\<And>c. c < b \<Longrightarrow> \<not> bit m (8 * i + c)" using b0(1) by auto
  have low: "\<not> bit m n" if "n < 8 * i + b" for n
  proof (cases "n < 8 * i")
    case True
    then have "n div 8 < i" by auto
    then have "\<not> bit (byte_of m (n div 8)) (n mod 8)" using assms(3) by simp
    then show ?thesis by (simp add: bit_byte_of)
  next
    case False
    then show ?thesis using b(3)[of "n - 8 * i"] that by simp
  qed
  show "m \<noteq> 0" using b(2) by auto
  have lt: "8 * i + b < 64" using assms(1) b(1) by simp
  then have "[0..<64] = [0..<8 * i + b] @ (8 * i + b) # [Suc (8 * i + b)..<64]"
    by (rule upt_split_at)
  moreover have "takeWhile (\<lambda>n. \<not> bit m n) ([0..<8 * i + b] @ (8 * i + b) # [Suc (8 * i + b)..<64]) = [0..<8 * i + b]"
    using low b(2) by (subst takeWhile_append2) auto
  ultimately have "ctzll m = 8 * i + b" by (simp add: ctzll_def)
  then show "count_zero_bytes m = of_nat i" using \<open>m \<noteq> 0\<close> b(1) by (simp add: count_zero_bytes_def)
qed


text \<open>
  One word of a scan: the first byte that matches among the eight at \<open>a\<close>, or none.
\<close>

lemma match_word:
  assumes "matches matching P" "\<not> P 0"
  obtains m where "matching w = Inr m" "m = 0 \<longrightarrow> (\<forall>k < 8. \<not> P (byte_of w k))"
    "m \<noteq> 0 \<longrightarrow> (\<exists>i < 8. P (byte_of w i) \<and> (\<forall>j < i. \<not> P (byte_of w j)) \<and> count_zero_bytes m = of_nat i)"
proof -
  obtain m where m: "matching w = Inr m" "\<forall>k < 8. byte_of m k \<noteq> 0 \<longleftrightarrow> P (byte_of w k)"
    using assms(1) unfolding matches_def by blast
  have "\<exists>i < 8. P (byte_of w i) \<and> (\<forall>j < i. \<not> P (byte_of w j)) \<and> count_zero_bytes m = of_nat i" if nz: "m \<noteq> 0"
  proof -
    obtain k where "k < 8" "byte_of m k \<noteq> 0" using nz word_zero_bytes[of m] by blast
    then obtain i where i: "i \<le> k" "byte_of m i \<noteq> 0" "\<And>j. j < i \<Longrightarrow> byte_of m j = 0"
      using least_stop[of "\<lambda>k. byte_of m k = 0" k] by blast
    then have "count_zero_bytes m = of_nat i" using ctzll_byte[of i m] \<open>k < 8\<close> by simp
    moreover have "P (byte_of w i)" using m(2) i \<open>k < 8\<close> by simp
    moreover have "\<not> P (byte_of w j)" if "j < i" for j using m(2)[rule_format, of j] i(1) i(3)[OF that] that \<open>k < 8\<close> by simp
    ultimately show ?thesis using i(1) \<open>k < 8\<close> by (intro exI[of _ i]) simp
  qed
  then have nz: "m \<noteq> 0 \<longrightarrow> (\<exists>i < 8. P (byte_of w i) \<and> (\<forall>j < i. \<not> P (byte_of w j)) \<and> count_zero_bytes m = of_nat i)"
    by blast
  have z: "m = 0 \<longrightarrow> (\<forall>k < 8. \<not> P (byte_of w k))" using m(2) by auto
  show thesis by (rule that[OF m(1) z nz])
qed

lemma aligned_add: "(a :: u64) AND 7 = 0 \<Longrightarrow> (b AND 7 = 0) \<Longrightarrow> (a + b) AND 7 = 0"
proof -
  assume a: "a AND 7 = 0" "b AND 7 = 0"
  have u: "unat (x AND 7) = unat x mod 8" for x :: u64 using and_exp_minus_1[of x 3] by simp
  have "unat ((a + b) AND 7) = (unat a + unat b) mod 2 ^ 64 mod 8" unfolding u by (simp add: unat_word_ariths)
  also have "\<dots> = (unat a + unat b) mod 8" by (rule mod_mod_cancel) simp
  also have "\<dots> = 0" using a u[of a] u[of b] by auto
  finally have "unat ((a + b) AND 7) = 0" .
  then show ?thesis by (simp add: unat_eq_0)
qed

lemma scan_words_unfold:
  assumes "(ptr + n) AND 7 = 0"
  shows "scan_words matching mem ptr limit n =
    (if n < limit then
       result_bind (matching (load_word mem (ptr + n))) (\<lambda>m.
         if m \<noteq> 0 then Inr (n + count_zero_bytes m) else scan_words matching mem ptr limit (n + 8))
     else Inr limit)"
proof (cases "n < limit")
  case True
  have stop: "while_result (\<lambda>(n, ret). ret = None \<and> n < limit) f (k, Some r) = Inr (k, Some r)" for f and k r :: u64
    by (subst while_result_unfold) simp
  show ?thesis
    unfolding scan_words_def
    by (subst while_result_unfold, cases "matching (load_word mem (ptr + n))")
      (simp_all add: True load_eight_aligned_bytes_def assms stop)
next
  case False
  then show ?thesis unfolding scan_words_def by (subst while_result_unfold) simp
qed

text \<open>
  The words from offset \<open>n\<close> on. Either some byte below \<open>limit\<close> matches, or the scan stops at the limit
  because a whole number of words lies between.
\<close>

lemma scan_words_correct:
  assumes m: "matches matching P" "\<not> P 0" and al: "(ptr + of_nat n) AND 7 = 0"
    and i: "n \<le> i" "i \<le> unat limit" "\<And>j. n \<le> j \<Longrightarrow> j < i \<Longrightarrow> \<not> P (mem (ptr + of_nat j))"
    and stop: "i < unat limit \<Longrightarrow> P (mem (ptr + of_nat i))" "i = unat limit \<Longrightarrow> 8 dvd i - n"
  shows "scan_words matching mem ptr limit (of_nat n) = Inr (of_nat i)"
  using al i stop
proof (induction "i - n" arbitrary: n rule: less_induct)
  case less
  have un: "unat (of_nat n :: u64) = n" using less.prems(2,3) u64_bound[of limit] by (intro unat_of_nat_u64) simp
  note unfold = scan_words_unfold[OF less.prems(1), of matching mem limit]
  show ?case
  proof (cases "n < unat limit")
    case False
    then have "n = unat limit" "i = unat limit" using less.prems(2,3) by simp_all
    then show ?thesis unfolding unfold by (simp add: word_less_nat_alt un)
  next
    case True
    then have lt: "of_nat n < limit" by (simp add: word_less_nat_alt un)
    define w where "w = load_word mem (ptr + of_nat n)"
    obtain r where r: "matching w = Inr r" "r = 0 \<longrightarrow> (\<forall>k < 8. \<not> P (byte_of w k))"
      "r \<noteq> 0 \<longrightarrow> (\<exists>i < 8. P (byte_of w i) \<and> (\<forall>j < i. \<not> P (byte_of w j)) \<and> count_zero_bytes r = of_nat i)"
      by (rule match_word[OF m, of w])
    have byte: "byte_of w k = mem (ptr + of_nat (n + k))" if "k < 8" for k
      using byte_of_load[OF that, of mem "ptr + of_nat n"] by (simp add: w_def ac_simps)
    show ?thesis
    proof (cases "r = 0")
      case True
      then have none: "\<not> P (mem (ptr + of_nat (n + k)))" if "k < 8" for k
        using r(2) True that unfolding byte[OF that, symmetric] by blast
      have far: "n + 8 \<le> i"
      proof (cases "i < unat limit")
        case True
        then have "P (mem (ptr + of_nat i))" by (rule less.prems(5))
        then have "\<not> i - n < 8" using none[of "i - n"] less.prems(2) by auto
        then show ?thesis by simp
      next
        case False
        then have "8 dvd i - n" "n < i" using less.prems(3,6) \<open>n < unat limit\<close> by simp_all
        then show ?thesis using dvd_imp_le[of 8 "i - n"] by linarith
      qed
      have "(ptr + of_nat (n + 8)) AND 7 = 0"
        using aligned_add[OF less.prems(1), of 8] by (simp add: ac_simps)
      moreover have "i = unat limit \<Longrightarrow> 8 dvd i - (n + 8)" using less.prems(6) dvd_diff_nat[of 8 "i - n" 8] by (simp only: diff_diff_left[symmetric]) simp
      ultimately have "scan_words matching mem ptr limit (of_nat (n + 8)) = Inr (of_nat i)"
        using less.prems(3,4,5) far by (intro less.hyps) auto
      then show ?thesis unfolding unfold using lt True r(1) by (simp add: w_def ac_simps)
    next
      case False
      then obtain k where k: "k < 8" "P (byte_of w k)" "\<forall>j < k. \<not> P (byte_of w j)" "count_zero_bytes r = of_nat k"
        using r(3) by blast
      have "i = n + k"
      proof (rule ccontr)
        assume ne: "i \<noteq> n + k"
        show False
        proof (cases "n + k < i")
          case True
          then show False using less.prems(4)[of "n + k"] k(1,2) byte by simp
        next
          case False
          then have lt: "i < n + k" using ne by simp
          show False
          proof (cases "i < unat limit")
            case True
            have d: "i - n < k" "i - n < 8" using lt k(1) less.prems(2) by linarith+
            have "\<not> P (mem (ptr + of_nat i))"
              using k(3)[rule_format, OF d(1)] byte[OF d(2)] less.prems(2) by simp
            then show False using less.prems(5) True by blast
          next
            case False
            then have "8 dvd i - n" "n < i" using less.prems(3,6) \<open>n < unat limit\<close> by simp_all
            then show False using dvd_imp_le[of 8 "i - n"] lt k(1) by linarith
          qed
        qed
      qed
      then show ?thesis unfolding unfold using lt False r(1) k(4) by (simp add: w_def)
    qed
  qed
qed


text \<open>A whole scan, whose first word may hold bytes from before the start, shifted out.\<close>

lemma scan_bytes_correct:
  assumes m: "matches matching P" "\<not> P 0"
    and stop: "(\<exists>i < unat limit. P (mem (ptr + of_nat i))) \<or> (unat ptr + unat limit) mod 8 = 0"
  shows "scan_bytes matching mem ptr limit = Inr (of_nat (first_byte P mem ptr (unat limit)))"
proof -
  obtain i where i: "i \<le> unat limit" "\<And>j. j < i \<Longrightarrow> \<not> P (mem (ptr + of_nat j))" "i < unat limit \<Longrightarrow> P (mem (ptr + of_nat i))"
  proof (cases "\<exists>i < unat limit. P (mem (ptr + of_nat i))")
    case True
    then obtain k where "k < unat limit" "P (mem (ptr + of_nat k))" by blast
    then show thesis using least_stop[of "\<lambda>i. \<not> P (mem (ptr + of_nat i))" k] that by (metis le_trans less_imp_le)
  next
    case False
    then show thesis using that[of "unat limit"] by blast
  qed
  have first: "first_byte P mem ptr (unat limit) = i" by (rule first_byte_eqI) (use i in auto)
  have e: "i = unat limit \<Longrightarrow> (unat ptr + i) mod 8 = 0" using stop i(2) by auto
  define u where "u = unat ptr mod 8"
  have au: "unat (ptr AND 7) = u" using and_exp_minus_1[of ptr 3] by (simp add: u_def)
  have u8: "u < 8" by (simp add: u_def)
  show ?thesis
  proof (cases "u = 0")
    case True
    then have z: "ptr AND 7 = 0" using au by (simp add: unat_eq_0)
    have "8 dvd i" if "i = unat limit"
      using e[OF that] True unfolding u_def by (metis add.commute dvd_eq_mod_eq_0 dvd_add_left_iff)
    then have "scan_words matching mem ptr limit (of_nat 0) = Inr (of_nat i)"
      using z i by (intro scan_words_correct[OF m]) auto
    then show ?thesis using z by (simp add: scan_bytes_def first)
  next
    case False
    then have nz: "ptr AND 7 \<noteq> 0" using au by (metis unat_0)
    have pu: "ptr AND 7 = of_nat u" using au by (metis of_nat_unat ucast_id)
    have al: "(ptr - of_nat u) AND 7 = 0"
    proof -
      have "of_nat u \<le> ptr" by (simp add: word_le_nat_alt unat_of_nat_u64 u_def)
      then have "unat (ptr - of_nat u) = unat ptr - u" using u8 by (simp add: unat_sub unat_of_nat_u64)
      also have "\<dots> mod 8 = 0" by (simp add: u_def minus_mod_eq_mult_div)
      finally have "unat ((ptr - of_nat u) AND 7) = 0" using and_exp_minus_1[of "ptr - of_nat u" 3] by simp
      then show ?thesis by (simp add: unat_eq_0)
    qed
    define w where "w = load_word mem (ptr - of_nat u)"
    obtain r where r: "matching (drop_bit (8 * u) w) = Inr r" "r = 0 \<longrightarrow> (\<forall>k < 8. \<not> P (byte_of (drop_bit (8 * u) w) k))"
      "r \<noteq> 0 \<longrightarrow> (\<exists>i < 8. P (byte_of (drop_bit (8 * u) w) i) \<and> (\<forall>j < i. \<not> P (byte_of (drop_bit (8 * u) w) j))
        \<and> count_zero_bytes r = of_nat i)"
      by (rule match_word[OF m, of "drop_bit (8 * u) w"])
    have byte: "byte_of (drop_bit (8 * u) w) k = (if u + k < 8 then mem (ptr + of_nat k) else 0)" for k
      using byte_of_load[of "u + k" mem "ptr - of_nat u"] byte_of_beyond[of "u + k" w]
      by (simp add: w_def byte_of_drop_bit)
    have sh: "unat (of_nat u * 8 :: u64) = 8 * u"
      using unat_of_nat_u64[of "u * 8"] u8 by (simp add: mult.commute)
    have eq: "scan_bytes matching mem ptr limit =
      (if r \<noteq> 0 then Inr (count_zero_bytes r) else scan_words matching mem ptr limit (8 - of_nat u))"
      using nz r(1) al by (simp add: scan_bytes_def pu load_eight_aligned_bytes_def sh w_def)
    have limit: "u + i \<ge> 8" if "i = unat limit"
    proof -
      have "(u + i) mod 8 = 0" using e[OF that] unfolding u_def by (simp add: mod_add_left_eq)
      then show ?thesis using False by (metis add_is_0 mod_less not_le)
    qed
    show ?thesis
    proof (cases "r = 0")
      case True
      have far: "8 - u \<le> i"
      proof (rule ccontr)
        assume n: "\<not> 8 - u \<le> i"
        then have "i < unat limit" using limit i(1) by linarith
        moreover have ui: "u + i < 8" using n u8 by linarith
        ultimately have "P (byte_of (drop_bit (8 * u) w) i)" using i(3) byte[of i, unfolded if_P[OF ui]] by simp
        then show False using r(2) True n by simp
      qed
      have "8 dvd i - (8 - u)" if "i = unat limit"
      proof -
        have "(unat ptr + i) mod 8 = 0" by (rule e[OF that])
        then have "8 dvd u + i" unfolding u_def by presburger
        moreover have "i - (8 - u) = u + i - 8" using far u8 by simp
        ultimately show ?thesis by (simp add: dvd_diff_nat)
      qed
      moreover have "(ptr + of_nat (8 - u)) AND 7 = 0"
        using aligned_add[OF al, of 8] u8 by (simp add: of_nat_diff algebra_simps)
      ultimately have "scan_words matching mem ptr limit (of_nat (8 - u)) = Inr (of_nat i)"
        using i far by (intro scan_words_correct[OF m]) auto
      then show ?thesis using u8 by (simp add: eq True first of_nat_diff)
    next
      case nzr: False
      then obtain k where k: "k < 8" "P (byte_of (drop_bit (8 * u) w) k)"
        "\<forall>j < k. \<not> P (byte_of (drop_bit (8 * u) w) j)" "count_zero_bytes r = of_nat k" using r(3) by blast
      have uk: "u + k < 8" using k(2) byte[of k] m(2) by (auto split: if_splits)
      then have pk: "P (mem (ptr + of_nat k))" using k(2) byte[of k] by simp
      have "i = k"
      proof (rule ccontr)
        assume "i \<noteq> k"
        moreover have "\<not> k < i" using i(2)[of k] pk by blast
        ultimately have "i < k" by simp
        then have "i < unat limit" using limit uk i(1) by linarith
        then show False using i(3) k(3) \<open>i < k\<close> byte[of i] uk by auto
      qed
      then show ?thesis using nzr k(4) by (simp add: eq first)
    qed
  qed
qed

section \<open>Properties\<close>

text \<open>C28: The three forward scans of \<open>swar.h\<close>, which take eight bytes at a time, give what a search of
  one byte at a time gives: the offset of the first byte below the limit that satisfies the test, or
  the limit. If no byte does, the limit must be the end of a word, since the scan looks at whole
  words. No access is unaligned. The tags must be nonzero and under the mask, which is to be
  \<open>2 ^ p - 1\<close> for some \<open>p\<close> from 1 to 7.\<close>

theorem swar_scan_equivalent:
  assumes "(\<exists>i < unat limit. P (mem (ptr + of_nat i))) \<or> (unat ptr + unat limit) mod 8 = 0"
    and "msk AND 0x7f = msk" "msk \<noteq> 0" "msk AND (msk + 1) = 0"
    and "tag1 \<noteq> 0" "tag1 AND msk = tag1" "tag2 \<noteq> 0" "tag2 AND msk = tag2"
  shows "(P = (\<lambda>b. b AND bits \<noteq> 0) \<longrightarrow>
      scan_for_byte_with_bits mem ptr limit bits = Inr (of_nat (first_byte P mem ptr (unat limit))))
    \<and> (P = (\<lambda>b. b AND msk = tag1) \<longrightarrow>
      scan_for_byte_with_tag mem ptr limit msk tag1 = Inr (of_nat (first_byte P mem ptr (unat limit))))
    \<and> (P = (\<lambda>b. b AND msk = tag1 \<or> b AND msk = tag2) \<longrightarrow>
      scan_for_byte_with_tags mem ptr limit msk tag1 tag2 = Inr (of_nat (first_byte P mem ptr (unat limit))))"
proof (intro conjI impI)
  assume P: "P = (\<lambda>b. b AND bits \<noteq> 0)"
  show "scan_for_byte_with_bits mem ptr limit bits = Inr (of_nat (first_byte P mem ptr (unat limit)))"
    unfolding scan_for_byte_with_bits_def
    by (rule scan_bytes_correct[OF _ _ assms(1)]) (simp_all add: P matches_bits[unfolded])
next
  assume P: "P = (\<lambda>b. b AND msk = tag1)"
  show "scan_for_byte_with_tag mem ptr limit msk tag1 = Inr (of_nat (first_byte P mem ptr (unat limit)))"
    unfolding scan_for_byte_with_tag_def P using assms(5) scan_bytes_correct[OF matches_tag[OF assms(6,2-4)] _ assms(1)[unfolded P]] by simp
next
  assume P: "P = (\<lambda>b. b AND msk = tag1 \<or> b AND msk = tag2)"
  show "scan_for_byte_with_tags mem ptr limit msk tag1 tag2 = Inr (of_nat (first_byte P mem ptr (unat limit)))"
    unfolding scan_for_byte_with_tags_def P
    using assms(5,7) scan_bytes_correct[OF matches_tags[OF assms(6,8,2-4)] _ assms(1)[unfolded P]] by simp
qed


theorem swar_scan_equivalent_witness:
  "scan_for_byte_with_tag (\<lambda>x. if x = 1003 then 13 else 8) 993 31 7 5
    = Inr (of_nat (first_byte (\<lambda>b. b AND 7 = 5) (\<lambda>x. if x = 1003 then 13 else 8) 993 31))"
  using swar_scan_equivalent[of 31 "\<lambda>b. b AND 7 = 5" "\<lambda>x. if x = 1003 then 13 else 8" 993 7 5 6 1] by simp

end
