(* ===== verification/NoflHoleset.thy ===== *)
theory NoflHoleset
  imports Chains Swar
begin

text \<open>
  \<open>src/src/nofl-holeset.h\<close>: the holes of swept blocks, segregated by size. A hole is free, zeroed
  memory whose first words link it to the next hole of its size class; larger holes store their size
  in a third word. Memory is bytes, so that these words overlap the granules of the hole. Sizes in
  granules are natural numbers: a hole is within a block.
\<close>

section \<open>Definitions\<close>

definition NOFL_GRANULE_SIZE :: u64 where "NOFL_GRANULE_SIZE = 16"
definition NOFL_HOLESET_PACKED_GRANULES :: nat where "NOFL_HOLESET_PACKED_GRANULES = 50"
definition NOFL_HOLESET_SPARSE_COUNT :: nat where
  "NOFL_HOLESET_SPARSE_COUNT = 64 - NOFL_HOLESET_PACKED_GRANULES - 1"
definition NOFL_HOLESET_MAX_GRANULES :: nat where "NOFL_HOLESET_MAX_GRANULES = 512"

text \<open>The fields of \<open>struct nofl_hole\<close> and \<open>struct nofl_hole_with_size\<close> in memory.\<close>

definition hole_next :: "byte_mem \<Rightarrow> u64 \<Rightarrow> u64" where "hole_next mem h = load_word mem h"
definition hole_next_chain :: "byte_mem \<Rightarrow> u64 \<Rightarrow> u64" where "hole_next_chain mem h = load_word mem (h + 8)"
definition hole_granules :: "byte_mem \<Rightarrow> u64 \<Rightarrow> u64" where "hole_granules mem h = load_word mem (h + 16)"
definition set_hole_next :: "u64 \<Rightarrow> u64 \<Rightarrow> byte_mem \<Rightarrow> byte_mem" where "set_hole_next h v mem = store_word mem h v"
definition set_hole_next_chain :: "u64 \<Rightarrow> u64 \<Rightarrow> byte_mem \<Rightarrow> byte_mem" where
  "set_hole_next_chain h v mem = store_word mem (h + 8) v"
definition set_hole_granules :: "u64 \<Rightarrow> u64 \<Rightarrow> byte_mem \<Rightarrow> byte_mem" where
  "set_hole_granules h v mem = store_word mem (h + 16) v"

record nofl_holeset =
  hs_nonempty :: u64
  hs_buckets :: "u64 list"

text \<open>\<open>loc\<close> is what the location holds.\<close>

definition nofl_hole_push :: "u64 \<Rightarrow> u64 \<Rightarrow> byte_mem \<Rightarrow> (u64 \<times> byte_mem) result" where
  "nofl_hole_push loc hole mem =
    result_bind (gc_assert (hole_next mem hole = 0)) (\<lambda>_.
    result_bind (gc_assert (hole_next_chain mem hole = 0)) (\<lambda>_.
      Inr (hole, set_hole_next hole loc mem)))"

definition nofl_hole_pop :: "u64 \<Rightarrow> byte_mem \<Rightarrow> (u64 \<times> u64 \<times> byte_mem) result" where
  "nofl_hole_pop loc mem =
    result_bind (gc_assert (loc \<noteq> 0)) (\<lambda>_.
    let hole = loc in
    result_bind (gc_assert (hole_next_chain mem hole = 0)) (\<lambda>_.
      Inr (hole, hole_next mem hole, set_hole_next hole 0 mem)))"

text \<open>
  The code divides doubles and takes the floor or the ceiling of the quotient. Both operands are below
  \<open>2 ^ 20\<close>, where these are the floor and the ceiling of the exact quotient (lemma \<open>quotient_rounding\<close>).
\<close>

definition nofl_holeset_sparse_bucket :: "nat \<Rightarrow> bool \<Rightarrow> nat result" where
  "nofl_holeset_sparse_bucket granules for_insert =
    result_bind (gc_assert (NOFL_HOLESET_PACKED_GRANULES \<le> granules)) (\<lambda>_.
    let idx = NOFL_HOLESET_PACKED_GRANULES;
        num = granules - NOFL_HOLESET_PACKED_GRANULES;
        denom = NOFL_HOLESET_MAX_GRANULES - NOFL_HOLESET_PACKED_GRANULES;
        n = num * NOFL_HOLESET_SPARSE_COUNT;
        idx = idx + min (if for_insert then n div denom else (n + denom - 1) div denom) NOFL_HOLESET_SPARSE_COUNT
    in result_bind (gc_assert (idx < 64)) (\<lambda>_. Inr idx))"

definition nofl_holeset_bucket_for_lookup :: "nat \<Rightarrow> nat result" where
  "nofl_holeset_bucket_for_lookup granules =
    (if granules \<le> NOFL_HOLESET_PACKED_GRANULES then Inr (granules - 1)
     else nofl_holeset_sparse_bucket granules False)"

definition nofl_holeset_push_local :: "nofl_holeset \<Rightarrow> u64 \<Rightarrow> nat \<Rightarrow> byte_mem \<Rightarrow> (nofl_holeset \<times> byte_mem) result" where
  "nofl_holeset_push_local holes addr granules mem =
    result_bind
      (if granules \<le> NOFL_HOLESET_PACKED_GRANULES
       then result_bind (gc_assert (granules > 0)) (\<lambda>_. Inr (granules - 1, mem))
       else result_bind (gc_assert (hole_granules mem addr = 0)) (\<lambda>_.
         let mem = set_hole_granules addr (of_nat granules) mem
         in result_bind (nofl_holeset_sparse_bucket granules True) (\<lambda>idx. Inr (idx, mem))))
      (\<lambda>(idx, mem).
        result_bind (nofl_hole_push (hs_buckets holes ! idx) addr mem) (\<lambda>(loc, mem).
          Inr (\<lparr> hs_nonempty = hs_nonempty holes OR push_bit idx 1,
                 hs_buckets = (hs_buckets holes)[idx := loc] \<rparr>, mem)))"

definition nofl_hole_tail_address :: "u64 \<Rightarrow> nat \<Rightarrow> u64" where
  "nofl_hole_tail_address hole granules = hole + of_nat granules * NOFL_GRANULE_SIZE"

definition nofl_holeset_try_pop :: "nofl_holeset \<Rightarrow> nat \<Rightarrow> byte_mem \<Rightarrow> (gc_ref \<times> nofl_holeset \<times> byte_mem) result" where
  "nofl_holeset_try_pop holes granules mem =
    result_bind (gc_assert (granules \<le> NOFL_HOLESET_MAX_GRANULES)) (\<lambda>_.
    result_bind (nofl_holeset_bucket_for_lookup granules) (\<lambda>min_idx.
    let candidates = drop_bit min_idx (hs_nonempty holes)
    in if candidates = 0 then Inr (gc_ref_null, holes, mem)
       else
         (let idx = min_idx + ctzll candidates
          in result_bind (nofl_hole_pop (hs_buckets holes ! idx) mem) (\<lambda>(ret, loc, mem).
             let holes = holes\<lparr>hs_buckets := (hs_buckets holes)[idx := loc]\<rparr>
             in result_bind (gc_assert (hs_nonempty holes AND push_bit idx 1 \<noteq> 0)) (\<lambda>_.
                let holes = (if loc = 0 then holes\<lparr>hs_nonempty := hs_nonempty holes XOR push_bit idx 1\<rparr> else holes)
                in result_bind
                  (if idx < NOFL_HOLESET_PACKED_GRANULES then Inr (idx + 1, mem)
                   else (let hole_granules = unat (hole_granules mem ret)
                         in result_bind (gc_assert (hole_granules \<noteq> 0)) (\<lambda>_.
                              Inr (hole_granules, set_hole_granules ret 0 mem))))
                  (\<lambda>(hole_granules, mem).
                    result_bind (gc_assert (hole_granules \<ge> granules)) (\<lambda>_.
                    let tail_granules = hole_granules - granules
                    in result_bind
                      (if tail_granules \<noteq> 0
                       then nofl_holeset_push_local holes (nofl_hole_tail_address ret granules) tail_granules mem
                       else Inr (holes, mem))
                      (\<lambda>(holes, mem). Inr (ret, holes, mem)))))))))"

text \<open>Handing the holes of a thread to a shared set, a whole bucket at a time, and taking a bucket.\<close>

definition nofl_holeset_release ::
    "nofl_holeset \<Rightarrow> nofl_holeset \<Rightarrow> byte_mem \<Rightarrow> (nofl_holeset \<times> nofl_holeset \<times> byte_mem) result" where
  "nofl_holeset_release holes remote mem =
    (let nonempty = hs_nonempty holes
     in if nonempty = 0 then Inr (holes, remote, mem)
        else
          (let holes = holes\<lparr>hs_nonempty := 0\<rparr>;
               remote = remote\<lparr>hs_nonempty := hs_nonempty remote OR nonempty\<rparr>;
               step = (\<lambda>(nonempty, holes, remote, mem).
                 let idx = ctzll nonempty;
                     hole = hs_buckets holes ! idx;
                     holes = holes\<lparr>hs_buckets := (hs_buckets holes)[idx := 0]\<rparr>;
                     mem = set_hole_next_chain hole (hs_buckets remote ! idx) mem;
                     remote = remote\<lparr>hs_buckets := (hs_buckets remote)[idx := hole]\<rparr>
                 in (nonempty XOR push_bit idx 1, holes, remote, mem))
           in result_bind (while_loop (\<lambda>(nonempty, _). nonempty \<noteq> 0) step (step (nonempty, holes, remote, mem)))
                (\<lambda>(_, s). Inr s)))"

text \<open>\<open>sloppy\<close> is what the first, unlocked load of the shared set's mask returns.\<close>

definition nofl_holeset_acquire ::
    "u64 \<Rightarrow> nofl_holeset \<Rightarrow> nofl_holeset \<Rightarrow> nat \<Rightarrow> byte_mem
      \<Rightarrow> (bool \<times> nofl_holeset \<times> nofl_holeset \<times> byte_mem) result" where
  "nofl_holeset_acquire sloppy holes remote granules mem =
    result_bind (nofl_holeset_bucket_for_lookup granules) (\<lambda>min_idx.
    if drop_bit min_idx sloppy = 0 then Inr (False, holes, remote, mem)
    else
      (let nonempty = drop_bit min_idx (hs_nonempty remote)
       in if nonempty = 0 then Inr (False, holes, remote, mem)
          else
            (let idx = min_idx + ctzll nonempty
             in result_bind (gc_assert (hs_buckets holes ! idx = 0)) (\<lambda>_.
                let chain = hs_buckets remote ! idx;
                    nxt = hole_next_chain mem chain;
                    remote = remote\<lparr>hs_buckets := (hs_buckets remote)[idx := nxt]\<rparr>;
                    remote = (if nxt = 0 then remote\<lparr>hs_nonempty := hs_nonempty remote XOR push_bit idx 1\<rparr> else remote);
                    holes = \<lparr> hs_nonempty = hs_nonempty holes OR push_bit idx 1,
                              hs_buckets = (hs_buckets holes)[idx := chain] \<rparr>
                in Inr (True, holes, remote, set_hole_next_chain chain 0 mem)))))"

definition nofl_holeset_clear :: "nofl_holeset \<Rightarrow> nofl_holeset" where
  "nofl_holeset_clear holes = \<lparr> hs_nonempty = 0, hs_buckets = replicate 64 0 \<rparr>"

section \<open>The quotient of doubles\<close>

lemma quotient_rounding:
  fixes a b :: nat and y :: real
  assumes b: "0 < b" "b \<le> 2 ^ 20" "a \<le> 2 ^ 20"
    and near: "\<bar>y - real a / real b\<bar> \<le> (real a / real b) / 2 ^ 53" and exact: "b dvd a \<Longrightarrow> y = real a / real b"
  shows "\<lfloor>y\<rfloor> = int (a div b)" "\<lceil>y\<rceil> = int ((a + b - 1) div b)"
proof -
  define q r where "q = a div b" and "r = a mod b"
  have a: "a = b * q + r" "r < b" using b(1) by (simp_all add: q_def r_def)
  have x: "real a / real b = real q + real r / real b"
    using b(1) unfolding a(1) by (simp add: add_divide_distrib)
  have fr: "\<lfloor>y\<rfloor> = int q \<and> \<lceil>y\<rceil> = int q + (if r = 0 then 0 else 1)"
  proof (cases "r = 0")
    case True
    then have "y = real q" using exact a(1) x by simp
    then show ?thesis using True by simp
  next
    case False
    have "real a / real b \<le> real a / 1" using b(1) by (intro divide_left_mono) auto
    also have "\<dots> \<le> 2 ^ 20" using of_nat_mono[OF b(3), where 'a = real] by simp
    finally have "(real a / real b) / 2 ^ 53 \<le> 2 ^ 20 / 2 ^ 53" by (intro divide_right_mono) auto
    then have d: "\<bar>y - real a / real b\<bar> \<le> 1 / 2 ^ 33" using near by simp
    have "real b \<le> 2 ^ 20" using of_nat_mono[OF b(2), where 'a = real] by simp
    then have e: "1 / 2 ^ 33 < 1 / real b" using b(1) by (simp add: field_simps)
    have "1 / real b \<le> real r / real b" using False b(1) by (intro divide_right_mono) auto
    moreover have "real r / real b \<le> 1 - 1 / real b"
    proof -
      have "real r + 1 \<le> real b" using a(2) by simp
      then have "(real r + 1) / real b \<le> 1" using b(1) by simp
      then show ?thesis by (simp add: add_divide_distrib)
    qed
    ultimately have "real q < y" "y < real q + 1" using d e unfolding x by linarith+
    then show ?thesis using False by (simp add: floor_eq_iff ceiling_eq_iff)
  qed
  then show "\<lfloor>y\<rfloor> = int (a div b)" by (simp add: q_def)
  have "(a + b - 1) div b = q + (if r = 0 then 0 else 1)"
  proof (cases "r = 0")
    case True
    then have "a + b - 1 = b * q + (b - 1)" "b - 1 < b" using a b(1) by simp_all
    then have "(a + b - 1) div b = q" by (intro div_nat_eqI) simp_all
    then show ?thesis using True by simp
  next
    case False
    then have "a + b - 1 = b * (q + 1) + (r - 1)" using a by simp
    moreover have "r - 1 < b" using a(2) by simp
    ultimately have "(a + b - 1) div b = q + 1" by (intro div_nat_eqI) simp_all
    then show ?thesis using False by simp
  qed
  then show "\<lceil>y\<rceil> = int ((a + b - 1) div b)" using fr by simp
qed


section \<open>The invariant\<close>

definition hole_size :: "byte_mem \<Rightarrow> nat \<Rightarrow> u64 \<Rightarrow> nat" where
  "hole_size mem i h = (if i < 50 then i + 1 else unat (hole_granules mem h))"

definition hole_bytes :: "u64 \<Rightarrow> nat \<Rightarrow> u64 set" where
  "hole_bytes h n = {x. unat (x - h) < 16 * n}"

text \<open>A hole of bucket \<open>i\<close>: all of it is zero but its link and, from bucket 50 on, its size.\<close>

definition hole_ok :: "byte_mem \<Rightarrow> nat \<Rightarrow> u64 \<Rightarrow> bool" where
  "hole_ok mem i h \<longleftrightarrow> (let n = hole_size mem i h in
    h \<noteq> 0 \<and> unat h + 16 * n \<le> 2 ^ 64 \<and> (i < 50 \<or> 50 < n \<and> nofl_holeset_sparse_bucket n True = Inr i)
    \<and> (\<forall>x \<in> hole_bytes h n. 8 \<le> unat (x - h) \<and> \<not> (50 \<le> i \<and> 16 \<le> unat (x - h) \<and> unat (x - h) < 24) \<longrightarrow> mem x = 0))"

definition hs_ok :: "byte_mem \<Rightarrow> nofl_holeset \<Rightarrow> u64 list list \<Rightarrow> bool" where
  "hs_ok mem hs L \<longleftrightarrow> length (hs_buckets hs) = 64 \<and> length L = 64 \<and> distinct (concat L)
    \<and> (\<forall>i < 64. chain (hole_next mem) (hs_buckets hs ! i) (L ! i) \<and> (bit (hs_nonempty hs) i \<longleftrightarrow> L ! i \<noteq> [])
        \<and> (\<forall>h \<in> set (L ! i). hole_ok mem i h))
    \<and> (\<forall>i < 64. \<forall>j < 64. \<forall>a \<in> set (L ! i). \<forall>b \<in> set (L ! j). a \<noteq> b \<longrightarrow>
        hole_bytes a (hole_size mem i a) \<inter> hole_bytes b (hole_size mem j b) = {})"

definition hs_bytes :: "byte_mem \<Rightarrow> u64 list list \<Rightarrow> u64 set" where
  "hs_bytes mem L = (\<Union>i < 64. \<Union>h \<in> set (L ! i). hole_bytes h (hole_size mem i h))"

section \<open>Memory and holes\<close>

lemma offset_in_hole:
  assumes "k < 16 * n" "k < 2 ^ 64"
  shows "h + of_nat k \<in> hole_bytes h n"
  using assms by (simp add: hole_bytes_def unat_of_nat_u64)

lemma hole_fields_cong:
  assumes "0 < n" "\<And>x. x \<in> hole_bytes h n \<Longrightarrow> mem' x = mem x"
  shows "hole_next mem' h = hole_next mem h" "hole_next_chain mem' h = hole_next_chain mem h"
    "2 \<le> n \<Longrightarrow> hole_granules mem' h = hole_granules mem h"
proof -
  have e: "mem' (h + of_nat k) = mem (h + of_nat k)" if "k < 16 * n" "k < 64" for k
    using assms(2) offset_in_hole[OF that(1)] that(2) by simp
  show "hole_next mem' h = hole_next mem h"
    unfolding hole_next_def by (rule load_word_shift) (use e assms(1) in simp)
  show "hole_next_chain mem' h = hole_next_chain mem h"
    unfolding hole_next_chain_def
    by (rule load_word_shift) (use e[of "8 + _"] assms(1) in \<open>simp add: add.assoc\<close>)
  show "hole_granules mem' h = hole_granules mem h" if "2 \<le> n"
    unfolding hole_granules_def
    by (rule load_word_shift) (use e[of "16 + _"] that in \<open>simp add: add.assoc\<close>)
qed

lemma hole_ok_cong:
  assumes ok: "hole_ok mem i h" and same: "\<And>x. x \<in> hole_bytes h (hole_size mem i h) \<Longrightarrow> mem' x = mem x"
  shows "hole_size mem' i h = hole_size mem i h" "hole_ok mem' i h" "hole_next mem' h = hole_next mem h"
proof -
  define n where "n = hole_size mem i h"
  have n: "0 < n" "i < 50 \<or> 50 < n" using ok by (auto simp: hole_ok_def n_def hole_size_def Let_def)
  note f = hole_fields_cong[OF n(1) same[folded n_def]]
  show sz: "hole_size mem' i h = hole_size mem i h" using f(3) n(2) by (auto simp: hole_size_def)
  show "hole_next mem' h = hole_next mem h" by (rule f(1))
  show "hole_ok mem' i h" using ok same unfolding hole_ok_def sz Let_def by auto
qed

text \<open>Stores into a hole stay within it.\<close>

lemma store_in_hole:
  assumes "k + 8 \<le> 16 * n" "16 * n \<le> 2 ^ 64" "x \<notin> hole_bytes h n"
  shows "store_word mem (h + of_nat k) v x = mem x"
proof (rule store_word_other)
  show "\<not> x - (h + of_nat k) < 8"
  proof
    assume lt: "x - (h + of_nat k) < 8"
    define d where "d = unat (x - (h + of_nat k))"
    have d: "d < 8" using lt by (simp add: d_def word_less_nat_alt)
    have "x - h = of_nat k + of_nat d" by (simp add: d_def)
    then have "x - h = of_nat (k + d)" by simp
    moreover have "k + d < 2 ^ 64" using d assms(1,2) by linarith
    ultimately have "unat (x - h) = k + d" by (simp only: unat_of_nat_u64)
    then show False using assms(1,3) d by (simp add: hole_bytes_def)
  qed
qed

lemma zero_word: "(\<And>i. i < 8 \<Longrightarrow> m (a + of_nat i) = 0) \<Longrightarrow> load_word m a = 0"
  using load_word_shift[of m a "\<lambda>_. 0"] by (simp add: load_word_def upt_rec)

lemma zero_hole_fields:
  assumes "0 < n" "\<And>x. x \<in> hole_bytes h n \<Longrightarrow> mem x = 0"
  shows "hole_next mem h = 0" "hole_next_chain mem h = 0" "2 \<le> n \<Longrightarrow> hole_granules mem h = 0"
  using hole_fields_cong[OF assms(1), of h mem "\<lambda>_. 0"] assms(2)
  by (simp_all add: hole_next_def hole_next_chain_def hole_granules_def zero_word)

section \<open>Buckets\<close>

lemma sparse_bucket_insert:
  assumes "50 < n"
  shows "nofl_holeset_sparse_bucket n True = Inr (50 + min ((n - 50) * 13 div 462) 13)"
  using assms by (simp add: nofl_holeset_sparse_bucket_def NOFL_HOLESET_PACKED_GRANULES_def NOFL_HOLESET_SPARSE_COUNT_def
      NOFL_HOLESET_MAX_GRANULES_def Let_def min_less_iff_disj)

lemma lookup_bucket:
  assumes "0 < g" "g \<le> 512"
  obtains m where "nofl_holeset_bucket_for_lookup g = Inr m" "m < 64"
    "\<And>i n. m \<le> i \<Longrightarrow> (i < 50 \<and> n = i + 1) \<or> (50 < n \<and> nofl_holeset_sparse_bucket n True = Inr i) \<Longrightarrow> g \<le> n"
proof (cases "g \<le> 50")
  case True
  then show thesis
    using assms by (intro that[of "g - 1"]) (auto simp: nofl_holeset_bucket_for_lookup_def NOFL_HOLESET_PACKED_GRANULES_def)
next
  case False
  define m where "m = 50 + ((g - 50) * 13 + 461) div 462"
  have c: "((g - 50) * 13 + 461) div 462 \<le> 13" using assms(2) by (intro div_le_mono[of _ "462 * 13 + 461" 462, simplified]) simp
  show thesis
  proof (rule that[of m])
    show "nofl_holeset_bucket_for_lookup g = Inr m"
      using False c by (simp add: nofl_holeset_bucket_for_lookup_def nofl_holeset_sparse_bucket_def m_def
          NOFL_HOLESET_PACKED_GRANULES_def NOFL_HOLESET_SPARSE_COUNT_def NOFL_HOLESET_MAX_GRANULES_def Let_def add.commute)
    show "m < 64" using c by (simp add: m_def)
    fix i n assume i: "m \<le> i" "(i < 50 \<and> n = i + 1) \<or> (50 < n \<and> nofl_holeset_sparse_bucket n True = Inr i)"
    have "50 < m" using False by (simp add: m_def)
    then have n: "50 < n" "i = 50 + min ((n - 50) * 13 div 462) 13" using i sparse_bucket_insert[of n] by auto
    then have "((g - 50) * 13 + 461) div 462 \<le> (n - 50) * 13 div 462" using i(1) by (simp add: m_def)
    moreover have "a \<le> 462 * ((a + 461) div 462)" for a :: nat
      using mult_div_mod_eq[of 462 "a + 461"] mod_less_divisor[of 462 "a + 461"] by linarith
    ultimately have "(g - 50) * 13 \<le> 462 * ((n - 50) * 13 div 462)" by (meson le_trans mult_le_mono2)
    also have "\<dots> \<le> (n - 50) * 13" by (rule div_times_less_eq_dividend[of _ 462, unfolded mult.commute[of _ 462]])
    finally have "(g - 50) * 13 \<le> (n - 50) * 13" .
    then show "g \<le> n" using False n(1) by simp
  qed
qed


section \<open>Pushing a hole\<close>

lemma hs_ok_facts:
  assumes "hs_ok mem hs L"
  shows "length (hs_buckets hs) = 64" "length L = 64" "distinct (concat L)"
    "\<And>i. i < 64 \<Longrightarrow> chain (hole_next mem) (hs_buckets hs ! i) (L ! i)"
    "\<And>i. i < 64 \<Longrightarrow> bit (hs_nonempty hs) i \<longleftrightarrow> L ! i \<noteq> []"
    "\<And>i h. i < 64 \<Longrightarrow> h \<in> set (L ! i) \<Longrightarrow> hole_ok mem i h"
    "\<And>i j a b. i < 64 \<Longrightarrow> j < 64 \<Longrightarrow> a \<in> set (L ! i) \<Longrightarrow> b \<in> set (L ! j) \<Longrightarrow> a \<noteq> b \<Longrightarrow>
      hole_bytes a (hole_size mem i a) \<inter> hole_bytes b (hole_size mem j b) = {}"
proof -
  have "\<forall>i < 64. \<forall>j < 64. \<forall>a \<in> set (L ! i). \<forall>b \<in> set (L ! j). a \<noteq> b \<longrightarrow>
        hole_bytes a (hole_size mem i a) \<inter> hole_bytes b (hole_size mem j b) = {}"
    and "\<forall>i < 64. chain (hole_next mem) (hs_buckets hs ! i) (L ! i) \<and> (bit (hs_nonempty hs) i \<longleftrightarrow> L ! i \<noteq> [])
        \<and> (\<forall>h \<in> set (L ! i). hole_ok mem i h)"
    and "length (hs_buckets hs) = 64" "length L = 64" "distinct (concat L)"
    using assms unfolding hs_ok_def by - (elim conjE, assumption)+
  then show "length (hs_buckets hs) = 64" "length L = 64" "distinct (concat L)"
    "\<And>i. i < 64 \<Longrightarrow> chain (hole_next mem) (hs_buckets hs ! i) (L ! i)"
    "\<And>i. i < 64 \<Longrightarrow> bit (hs_nonempty hs) i \<longleftrightarrow> L ! i \<noteq> []"
    "\<And>i h. i < 64 \<Longrightarrow> h \<in> set (L ! i) \<Longrightarrow> hole_ok mem i h"
    "\<And>i j a b. i < 64 \<Longrightarrow> j < 64 \<Longrightarrow> a \<in> set (L ! i) \<Longrightarrow> b \<in> set (L ! j) \<Longrightarrow> a \<noteq> b \<Longrightarrow>
      hole_bytes a (hole_size mem i a) \<inter> hole_bytes b (hole_size mem j b) = {}"
    by (assumption | blast)+
qed

text \<open>Other holes do not notice what happens outside of them.\<close>

lemma hs_ok_mem:
  assumes ok: "hs_ok mem hs L" and same: "\<forall>x \<in> hs_bytes mem L. mem' x = mem x"
  shows "hs_ok mem' hs L" "hs_bytes mem' L = hs_bytes mem L"
    "\<And>i h. i < 64 \<Longrightarrow> h \<in> set (L ! i) \<Longrightarrow> hole_size mem' i h = hole_size mem i h"
proof -
  note F = hs_ok_facts[OF ok]
  have c: "hole_size mem' i h = hole_size mem i h" "hole_ok mem' i h" "hole_next mem' h = hole_next mem h"
    if "i < 64" "h \<in> set (L ! i)" for i h
    by (rule hole_ok_cong[OF F(6)[OF that]], rule bspec[OF same], use that in \<open>auto simp: hs_bytes_def\<close>)+
  show "\<And>i h. i < 64 \<Longrightarrow> h \<in> set (L ! i) \<Longrightarrow> hole_size mem' i h = hole_size mem i h" by (rule c(1))
  then show "hs_bytes mem' L = hs_bytes mem L" by (auto simp: hs_bytes_def)
  have "chain (hole_next mem') (hs_buckets hs ! i) (L ! i)" if "i < 64" for i
    using F(4)[OF that] chain_cong[of "L ! i" "hole_next mem'" "hole_next mem"] c(3)[OF that] by simp
  then show "hs_ok mem' hs L"
    using F(1,2,3,5) c(2) F(7) unfolding hs_ok_def by (simp add: c(1))
qed

lemma hole_self: "0 < n \<Longrightarrow> h \<in> hole_bytes h n"
  by (simp add: hole_bytes_def)

lemma new_hole_fresh:
  assumes ok: "hs_ok mem hs L" and n: "0 < n" "hole_bytes h n \<inter> hs_bytes mem L = {}"
  shows "h \<notin> set (concat L)"
proof
  assume "h \<in> set (concat L)"
  then obtain l where "l \<in> set L" "h \<in> set l" by auto
  then obtain i where i: "i < 64" "h \<in> set (L ! i)"
    using hs_ok_facts(2)[OF ok] by (metis in_set_conv_nth)
  then have "0 < hole_size mem i h" using hs_ok_facts(6)[OF ok i] by (auto simp: hole_ok_def hole_size_def Let_def)
  then have "h \<in> hs_bytes mem L" using hole_self i unfolding hs_bytes_def by blast
  then show False using hole_self[OF n(1)] n(2) by blast
qed

lemma push_local_ok:
  assumes ok: "hs_ok mem hs L" and h: "h \<noteq> 0" "unat h + 16 * n \<le> 2 ^ 64" "0 < n"
    and zero: "\<And>x. x \<in> hole_bytes h n \<Longrightarrow> mem x = 0" and apart: "hole_bytes h n \<inter> hs_bytes mem L = {}"
  obtains hs' mem' L' where "nofl_holeset_push_local hs h n mem = Inr (hs', mem')" "hs_ok mem' hs' L'"
    "hs_bytes mem' L' = hs_bytes mem L \<union> hole_bytes h n" "\<And>x. x \<notin> hole_bytes h n \<Longrightarrow> mem' x = mem x"
proof -
  note F = hs_ok_facts[OF ok]
  note Z = zero_hole_fields[OF h(3) zero]
  have lim: "16 * n \<le> 2 ^ 64" using h(2) by simp
  define i where "i = (if n \<le> 50 then n - 1 else 50 + min ((n - 50) * 13 div 462) 13)"
  have i: "i < 64" "i < 50 \<longleftrightarrow> n \<le> 50" using h(3) by (auto simp: i_def min_less_iff_disj)
  define mem1 where "mem1 = (if n \<le> 50 then mem else set_hole_granules h (of_nat n) mem)"
  have m1: "mem1 x = mem x" if "\<not> (16 \<le> unat (x - h) \<and> unat (x - h) < 24) \<or> n \<le> 50" for x
  proof (cases "n \<le> 50")
    case False
    have "x - (h + 16) < 8 \<Longrightarrow> 16 \<le> unat (x - h) \<and> unat (x - h) < 24"
    proof -
      assume lt: "x - (h + 16) < 8"
      define d where "d = unat (x - (h + 16))"
      have "x - h = of_nat (16 + d)" by (simp add: d_def)
      moreover have d: "d < 8" using lt by (simp add: d_def word_less_nat_alt)
      ultimately have "unat (x - h) = 16 + d" using unat_of_nat_u64[of "16 + d"] by simp
      then show ?thesis using d by simp
    qed
    then show ?thesis using False that by (auto simp: mem1_def set_hole_granules_def intro: store_word_other)
  qed (simp add: mem1_def)
  have f1: "hole_next mem1 h = 0" "hole_next_chain mem1 h = 0"
  proof -
    have "mem1 (h + of_nat k) = 0" if "k < 16" for k
      using m1[of "h + of_nat k"] zero[OF offset_in_hole[of k n h]] that h(3) by (simp add: unat_of_nat_u64)
    from this this[of "8 + _"] show "hole_next mem1 h = 0" "hole_next_chain mem1 h = 0"
      unfolding hole_next_def hole_next_chain_def by (auto intro!: zero_word simp: add.assoc)
  qed
  define mem2 where "mem2 = set_hole_next h (hs_buckets hs ! i) mem1"
  define hs' where "hs' = \<lparr> hs_nonempty = hs_nonempty hs OR push_bit i 1, hs_buckets = (hs_buckets hs)[i := h] \<rparr>"
  have eq: "nofl_holeset_push_local hs h n mem = Inr (hs', mem2)"
    using h(3) Z(3) f1 sparse_bucket_insert[of n]
    by (simp add: nofl_holeset_push_local_def NOFL_HOLESET_PACKED_GRANULES_def nofl_hole_push_def mem1_def mem2_def
        hs'_def i_def Let_def split: if_splits)
  have out: "mem2 x = mem x" if "x \<notin> hole_bytes h n" for x
  proof -
    have "mem2 x = mem1 x" unfolding mem2_def set_hole_next_def using store_in_hole[of 0 n x h] that h(3) lim by simp
    also have "\<dots> = mem x"
      using store_in_hole[of 16 n x h] that lim by (auto simp: mem1_def set_hole_granules_def)
    finally show ?thesis .
  qed
  have keep: "\<forall>x \<in> hs_bytes mem L. mem2 x = mem x" using out apart by blast
  note K = hs_ok_mem[OF ok keep]
  note G = hs_ok_facts[OF K(1)]
  have new: "h \<notin> set (concat L)" by (rule new_hole_fresh[OF ok h(3) apart])
  have size: "hole_size mem2 i h = n"
  proof (cases "n \<le> 50")
    case True
    then show ?thesis using i(2) h(3) by (simp add: hole_size_def i_def)
  next
    case False
    have "hole_granules mem2 h = hole_granules mem1 h"
      unfolding hole_granules_def mem2_def set_hole_next_def
    proof (rule load_store_word_other)
      fix k :: nat assume "k < 8"
      then have "h + 16 + of_nat k - h = of_nat (16 + k)" "unat (of_nat (16 + k) :: u64) = 16 + k"
        using unat_of_nat_u64[of "16 + k"] by simp_all
      then show "\<not> h + 16 + of_nat k - h < 8" by (simp only: word_less_nat_alt) simp
    qed
    also have "\<dots> = of_nat n" using False by (simp add: hole_granules_def mem1_def set_hole_granules_def load_store_word)
    finally show ?thesis using False i(2) lim by (simp add: hole_size_def unat_of_nat_u64)
  qed
  have okh: "hole_ok mem2 i h"
    unfolding hole_ok_def size Let_def
  proof (intro conjI ballI impI)
    show "h \<noteq> 0" "unat h + 16 * n \<le> 2 ^ 64" by (rule h)+
    show "i < 50 \<or> 50 < n \<and> nofl_holeset_sparse_bucket n True = Inr i"
      using i(2) sparse_bucket_insert[of n] by (auto simp: i_def)
    fix x assume x: "x \<in> hole_bytes h n" "8 \<le> unat (x - h) \<and> \<not> (50 \<le> i \<and> 16 \<le> unat (x - h) \<and> unat (x - h) < 24)"
    have "mem2 x = mem1 x"
      unfolding mem2_def set_hole_next_def by (rule store_word_other) (use x(2) in \<open>simp add: word_less_nat_alt\<close>)
    also have "\<dots> = mem x" by (rule m1) (use x(2) i(2) in auto)
    finally show "mem2 x = 0" using zero[OF x(1)] by simp
  qed
  have nxt: "hole_next mem2 h = hs_buckets hs ! i"
    by (simp add: hole_next_def mem2_def set_hole_next_def load_store_word)
  define L' where "L' = L[i := h # L ! i]"
  have L'i: "L' ! i = h # L ! i" and L'j: "\<And>j. j \<noteq> i \<Longrightarrow> L' ! j = L ! j" using i(1) F(2) by (simp_all add: L'_def)
  have mset: "mset (concat L') = add_mset h (mset (concat L))"
    unfolding L'_def by (rule concat_update_mset) (use i(1) F(2) in simp)
  have old: "b \<in> set (L ! j)" if "b \<in> set (L' ! j)" "b \<noteq> h" for b j
    using that L'i L'j[of j] by (cases "j = i") auto
  have only: "j = i" if "h \<in> set (L' ! j)" "j < 64" for j
  proof (rule ccontr)
    assume "j \<noteq> i"
    then have "h \<in> set (L ! j)" using that L'j by simp
    then show False using new that(2) F(2) by auto
  qed
  have dis: "hole_bytes h n \<inter> hole_bytes b (hole_size mem2 j b) = {}" if "j < 64" "b \<in> set (L ! j)" for j b
  proof -
    have "hole_bytes b (hole_size mem2 j b) \<subseteq> hs_bytes mem2 L" using that unfolding hs_bytes_def by blast
    then show ?thesis using apart unfolding K(2) by blast
  qed
  have bytes: "hs_bytes mem2 L' = hs_bytes mem2 L \<union> hole_bytes h n"
  proof (rule set_eqI, rule iffI)
    fix x assume "x \<in> hs_bytes mem2 L'"
    then obtain j b where jb: "j < 64" "b \<in> set (L' ! j)" "x \<in> hole_bytes b (hole_size mem2 j b)" unfolding hs_bytes_def by blast
    show "x \<in> hs_bytes mem2 L \<union> hole_bytes h n"
    proof (cases "b = h")
      case True
      then show ?thesis using jb only[of j] size by auto
    next
      case False
      then show ?thesis using jb old unfolding hs_bytes_def by blast
    qed
  next
    fix x assume "x \<in> hs_bytes mem2 L \<union> hole_bytes h n"
    moreover have "set (L ! j) \<subseteq> set (L' ! j)" for j using L'i L'j[of j] by (cases "j = i") auto
    moreover have "h \<in> set (L' ! i)" using L'i by simp
    ultimately show "x \<in> hs_bytes mem2 L'" using i(1) size unfolding hs_bytes_def by blast
  qed
  have "hs_ok mem2 hs' L'"
    unfolding hs_ok_def
  proof (intro conjI allI impI ballI)
    show "length (hs_buckets hs') = 64" "length L' = 64" using F(1,2) by (simp_all add: hs'_def L'_def)
    show "distinct (concat L')" using mset_add_facts(3)[OF mset] new F(3) by blast
    fix j :: nat assume j: "j < 64"
    show "chain (hole_next mem2) (hs_buckets hs' ! j) (L' ! j)"
      using G(4)[OF j] nxt h(1) L'i L'j[of j] i(1) F(1) by (cases "j = i") (simp_all add: hs'_def)
    show "bit (hs_nonempty hs') j \<longleftrightarrow> L' ! j \<noteq> []"
      using F(5)[OF j] L'i L'j[of j] j by (cases "j = i") (auto simp: hs'_def bit_simps)
    show "hole_ok mem2 j b" if "b \<in> set (L' ! j)" for b
      using okh only[of j] old[OF that] G(6)[OF j] that j by (cases "b = h") auto
    fix k a b assume k: "k < (64::nat)" and a: "a \<in> set (L' ! j)" and b: "b \<in> set (L' ! k)" and ne: "a \<noteq> b"
    consider "a = h" "b \<noteq> h" | "a \<noteq> h" "b = h" | "a \<noteq> h" "b \<noteq> h" using ne by blast
    then show "hole_bytes a (hole_size mem2 j a) \<inter> hole_bytes b (hole_size mem2 k b) = {}"
    proof cases
      case 1
      then show ?thesis using only[of j] a j size dis[OF k old[OF b]] by auto
    next
      case 2
      then show ?thesis using only[of k] b k size dis[OF j old[OF a]] by auto
    next
      case 3
      then show ?thesis using G(7)[OF j k old[OF a] old[OF b] ne] by simp
    qed
  qed
  then show thesis using that[OF eq] bytes K(2) out by simp
qed


section \<open>Popping a hole\<close>

lemma hs_remove:
  assumes ok: "hs_ok mem hs L" and i: "i < 64" "L ! i = h # rest"
  defines "hs' \<equiv> \<lparr> hs_nonempty = (if hole_next mem h = 0 then hs_nonempty hs XOR push_bit i 1 else hs_nonempty hs),
      hs_buckets = (hs_buckets hs)[i := hole_next mem h] \<rparr>"
  shows "hs_ok mem hs' (L[i := rest])" "hs_bytes mem (L[i := rest]) = hs_bytes mem L - hole_bytes h (hole_size mem i h)"
    "hs_buckets hs ! i = h" "hole_bytes h (hole_size mem i h) \<subseteq> hs_bytes mem L"
proof -
  note F = hs_ok_facts[OF ok]
  define L' where "L' = L[i := rest]"
  have L'i: "L' ! i = rest" and L'j: "\<And>j. j \<noteq> i \<Longrightarrow> L' ! j = L ! j" using i(1) F(2) by (simp_all add: L'_def)
  have ch: "chain (hole_next mem) (hs_buckets hs ! i) (h # rest)" using F(4)[OF i(1)] unfolding i(2) .
  then show "hs_buckets hs ! i = h" by simp
  have "(L[i := rest])[i := h # (L[i := rest]) ! i] = L" using i F(2) by (metis list_update_id list_update_overwrite nth_list_update_eq)
  then have mset: "mset (concat L) = add_mset h (mset (concat L'))"
    using concat_update_mset[of i "L[i := rest]" h] i(1) F(2) by (simp add: L'_def)
  have new: "h \<notin> set (concat L')" "distinct (concat L')" using mset_add_facts(3)[OF mset] F(3) by auto
  have old: "b \<in> set (L ! j)" "b \<noteq> h" if "b \<in> set (L' ! j)" "j < 64" for b j
  proof -
    show "b \<in> set (L ! j)" using that(1) L'i L'j[of j] i(2) by (cases "j = i") auto
    have "L' ! j \<in> set L'" using that(2) F(2) by (simp add: L'_def)
    then show "b \<noteq> h" using that(1) new(1) by auto
  qed
  have hin: "h \<in> set (L ! i)" using i(2) by simp
  then show sub: "hole_bytes h (hole_size mem i h) \<subseteq> hs_bytes mem L" using i(1) unfolding hs_bytes_def by blast
  show "hs_bytes mem L' = hs_bytes mem L - hole_bytes h (hole_size mem i h)"
  proof (rule set_eqI, rule iffI)
    fix x assume "x \<in> hs_bytes mem L'"
    then obtain j b where jb: "j < 64" "b \<in> set (L' ! j)" "x \<in> hole_bytes b (hole_size mem j b)" unfolding hs_bytes_def by blast
    have "x \<notin> hole_bytes h (hole_size mem i h)"
      using F(7)[OF jb(1) i(1) old(1)[OF jb(2,1)] hin old(2)[OF jb(2,1)]] jb(3) by blast
    then show "x \<in> hs_bytes mem L - hole_bytes h (hole_size mem i h)"
      using jb old unfolding hs_bytes_def by blast
  next
    fix x assume "x \<in> hs_bytes mem L - hole_bytes h (hole_size mem i h)"
    then obtain j b where jb: "j < 64" "b \<in> set (L ! j)" "x \<in> hole_bytes b (hole_size mem j b)"
      "x \<notin> hole_bytes h (hole_size mem i h)" unfolding hs_bytes_def by blast
    have "b \<in> set (L' ! j)"
    proof (cases "j = i")
      case True
      then have "b \<noteq> h" using jb(3,4) by auto
      then show ?thesis using jb(2) True i(2) L'i by auto
    qed (use jb(2) L'j in simp)
    then show "x \<in> hs_bytes mem L'" using jb(1,3) unfolding hs_bytes_def by blast
  qed
  have z: "hole_next mem h = 0 \<longleftrightarrow> rest = []"
    using ch by (cases rest) auto
  show "hs_ok mem hs' L'"
    unfolding hs_ok_def
  proof (intro conjI allI impI ballI)
    show "length (hs_buckets hs') = 64" "length L' = 64" using F(1,2) by (simp_all add: hs'_def L'_def)
    show "distinct (concat L')" by (rule new)
    fix j :: nat assume j: "j < 64"
    show "chain (hole_next mem) (hs_buckets hs' ! j) (L' ! j)"
      using F(4)[OF j] ch L'i L'j[of j] i(1) F(1) by (cases "j = i") (simp_all add: hs'_def)
    have "bit (hs_nonempty hs) i" using F(5)[OF i(1)] i(2) by simp
    then show "bit (hs_nonempty hs') j \<longleftrightarrow> L' ! j \<noteq> []"
      using F(5)[OF j] L'i L'j[of j] j z by (cases "j = i") (auto simp: hs'_def bit_simps)
    show "hole_ok mem j b" if "b \<in> set (L' ! j)" for b
      by (rule F(6)[OF j old(1)[OF that j]])
    fix k a b assume k: "k < (64::nat)" and a: "a \<in> set (L' ! j)" and b: "b \<in> set (L' ! k)" and ne: "a \<noteq> b"
    show "hole_bytes a (hole_size mem j a) \<inter> hole_bytes b (hole_size mem k b) = {}"
      by (rule F(7)[OF j k old(1)[OF a j] old(1)[OF b k] ne])
  qed
qed

lemma pop_clears:
  assumes ok: "hole_ok mem i h"
  defines "mem' \<equiv> (if i < 50 then set_hole_next h 0 mem else set_hole_granules h 0 (set_hole_next h 0 mem))"
  shows "hole_next_chain mem h = 0" "x \<in> hole_bytes h (hole_size mem i h) \<Longrightarrow> mem' x = 0"
    "x \<notin> hole_bytes h (hole_size mem i h) \<Longrightarrow> mem' x = mem x"
    "\<not> i < 50 \<Longrightarrow> unat (hole_granules (set_hole_next h 0 mem) h) = hole_size mem i h"
proof -
  define n where "n = hole_size mem i h"
  have n: "h \<noteq> 0" "unat h + 16 * n \<le> 2 ^ 64" "0 < n" "i < 50 \<or> 50 < n"
    and z: "\<And>x. x \<in> hole_bytes h n \<Longrightarrow> 8 \<le> unat (x - h) \<Longrightarrow> \<not> (50 \<le> i \<and> 16 \<le> unat (x - h) \<and> unat (x - h) < 24) \<Longrightarrow> mem x = 0"
    using ok by (auto simp: hole_ok_def n_def hole_size_def Let_def)
  have lim: "16 * n \<le> 2 ^ 64" using n(2) by simp
  show "hole_next_chain mem h = 0"
    unfolding hole_next_chain_def
  proof (rule zero_word)
    fix k :: nat assume k: "k < 8"
    have e: "h + 8 + of_nat k = h + of_nat (8 + k)" "unat (h + of_nat (8 + k) - h) = 8 + k"
      using k unat_of_nat_u64[of "8 + k"] by (simp_all add: add.assoc)
    show "mem (h + 8 + of_nat k) = 0"
      unfolding e(1) by (rule z) (use offset_in_hole[of "8 + k" n h] k n(3) e(2) in auto)
  qed
  have st: "store_word m (h + of_nat d) 0 x = (if d \<le> unat (x - h) \<and> unat (x - h) < d + 8 then 0 else m x)" if d: "d \<le> 16" for d m x
  proof -
    have x: "x - (h + of_nat d) = (x - h) - of_nat d" by simp
    have u: "unat (of_nat d :: u64) = d" using d by (intro unat_of_nat_u64) simp
    have "unat ((x - h) - of_nat d) = (if d \<le> unat (x - h) then unat (x - h) - d else unat (x - h) + 2 ^ 64 - d)"
      by (simp add: unat_sub_if' u)
    then have "(x - h) - of_nat d < 8 \<longleftrightarrow> d \<le> unat (x - h) \<and> unat (x - h) < d + 8"
      using d by (auto simp: word_less_nat_alt)
    then show ?thesis by (simp add: store_word_def x)
  qed
  show "mem' x = 0" if "x \<in> hole_bytes h (hole_size mem i h)" for x
    using z[of x] that st[of 0 mem x] st[of 16 _ x]
    by (auto simp: mem'_def set_hole_next_def set_hole_granules_def n_def not_le)
  show "mem' x = mem x" if "x \<notin> hole_bytes h (hole_size mem i h)" for x
    using store_in_hole[of 0 n x h] store_in_hole[of 16 n x h] that n(3,4) lim
    by (auto simp: mem'_def set_hole_next_def set_hole_granules_def n_def)
  show "unat (hole_granules (set_hole_next h 0 mem) h) = hole_size mem i h" if "\<not> i < 50"
  proof -
    have "hole_granules (set_hole_next h 0 mem) h = hole_granules mem h"
      unfolding hole_granules_def set_hole_next_def
      by (rule load_word_shift) (use st[of 0 mem] unat_of_nat_u64[of "16 + _"] in \<open>simp add: add.assoc\<close>)
    then show ?thesis using that by (simp add: hole_size_def)
  qed
qed


text \<open>What a pop leaves: no memory outside of the holes changes; either the set stays as it is, as no
  bucket that serves the request has a hole, or the memory taken is zero and was part of a hole.\<close>

definition hole_taken ::
    "nat \<Rightarrow> byte_mem \<Rightarrow> nofl_holeset \<Rightarrow> u64 list list \<Rightarrow> gc_ref \<Rightarrow> byte_mem \<Rightarrow> nofl_holeset \<Rightarrow> u64 list list \<Rightarrow> bool" where
  "hole_taken g mem hs L ref mem' hs' L' \<longleftrightarrow> hs_ok mem' hs' L'
    \<and> (\<forall>x. x \<notin> hs_bytes mem L \<longrightarrow> mem' x = mem x)
    \<and> (if ref = 0 then hs' = hs \<and> mem' = mem
         \<and> (\<forall>i < 64. \<forall>m. nofl_holeset_bucket_for_lookup g = Inr m \<longrightarrow> m \<le> i \<longrightarrow> L ! i = [])
       else hole_bytes ref g \<subseteq> hs_bytes mem L \<and> hs_bytes mem' L' = hs_bytes mem L - hole_bytes ref g
         \<and> (\<forall>x \<in> hole_bytes ref g. mem' x = 0))"

lemma hole_split:
  assumes "unat h + 16 * n \<le> 2 ^ 64" "0 < g" "g < n" "h \<noteq> 0"
  defines "t \<equiv> nofl_hole_tail_address h g"
  shows "t \<noteq> 0" "unat t + 16 * (n - g) \<le> 2 ^ 64" "hole_bytes h n = hole_bytes h g \<union> hole_bytes t (n - g)"
    "hole_bytes h g \<inter> hole_bytes t (n - g) = {}"
proof -
  have g: "unat (of_nat (16 * g) :: u64) = 16 * g" using assms(1,3) by (intro unat_of_nat_u64) simp
  have t: "t = h + of_nat (16 * g)" by (simp add: t_def nofl_hole_tail_address_def NOFL_GRANULE_SIZE_def mult.commute)
  have ut: "unat t = unat h + 16 * g"
    unfolding t using g assms(1,3) by (simp add: unat_plus_if')
  have "16 * g + 16 * (n - g) = 16 * n" using assms(3) by simp
  then show "unat t + 16 * (n - g) \<le> 2 ^ 64" using assms(1) unfolding ut by simp
  show "t \<noteq> 0" using ut assms(2) by (metis add_is_0 mult_is_0 unat_0 zero_neq_numeral neq0_conv)
  have x: "unat (x - t) = (if 16 * g \<le> unat (x - h) then unat (x - h) - 16 * g else unat (x - h) + 2 ^ 64 - 16 * g)" for x
  proof -
    have "x - t = (x - h) - of_nat (16 * g)" by (simp add: t)
    then show ?thesis by (simp only: unat_sub_if' g) simp
  qed
  have "16 * n \<le> 2 ^ 64" using assms(1) by simp
  then have T: "x \<in> hole_bytes t (n - g) \<longleftrightarrow> 16 * g \<le> unat (x - h) \<and> unat (x - h) < 16 * n" for x
    using assms(3) unfolding hole_bytes_def mem_Collect_eq x by auto
  have H: "x \<in> hole_bytes h k \<longleftrightarrow> unat (x - h) < 16 * k" for x k by (simp add: hole_bytes_def)
  have le: "16 * g \<le> 16 * n" using assms(3) by simp
  show "hole_bytes h n = hole_bytes h g \<union> hole_bytes t (n - g)"
    by (rule set_eqI, unfold Un_iff T H) (use le in linarith)
  show "hole_bytes h g \<inter> hole_bytes t (n - g) = {}"
    unfolding disjoint_iff T H by simp
qed

lemma try_pop_ok:
  assumes ok: "hs_ok mem hs L" and g: "0 < g" "g \<le> 512"
  shows "\<exists>ref hs' mem' L'. nofl_holeset_try_pop hs g mem = Inr (ref, hs', mem') \<and> hole_taken g mem hs L ref mem' hs' L'"
proof -
  note F = hs_ok_facts[OF ok]
  obtain m where m: "nofl_holeset_bucket_for_lookup g = Inr m" "m < 64"
    "\<And>i n. m \<le> i \<Longrightarrow> (i < 50 \<and> n = i + 1) \<or> (50 < n \<and> nofl_holeset_sparse_bucket n True = Inr i) \<Longrightarrow> g \<le> n"
    using lookup_bucket[OF g] by metis
  define c where "c = drop_bit m (hs_nonempty hs)"
  have assert: "gc_assert (g \<le> NOFL_HOLESET_MAX_GRANULES) = Inr ()" using g(2) by (simp add: NOFL_HOLESET_MAX_GRANULES_def)
  show ?thesis
  proof (cases "c = 0")
    case True
    have "L ! i = []" if "i < 64" "m \<le> i" for i
    proof -
      have "\<not> bit c (i - m)" using True by simp
      then have "\<not> bit (hs_nonempty hs) i" using that by (simp add: c_def bit_drop_bit_eq)
      then show ?thesis using F(5)[OF that(1)] by simp
    qed
    then have "hole_taken g mem hs L 0 mem hs L" using ok m(1) by (auto simp: hole_taken_def)
    moreover have "nofl_holeset_try_pop hs g mem = Inr (0, hs, mem)"
      using True m(1) assert by (simp add: nofl_holeset_try_pop_def c_def gc_ref_null_def)
    ultimately show ?thesis by blast
  next
    case False
    define i where "i = m + ctzll c"
    have b: "bit (hs_nonempty hs) i" using ctzll_bit(1)[OF False] by (simp add: c_def i_def bit_drop_bit_eq)
    then have i: "i < 64" using bit_imp_le_length[of "hs_nonempty hs" i] by simp
    then obtain h rest where L: "L ! i = h # rest" using b F(5)[OF i] by (cases "L ! i") auto
    have okh: "hole_ok mem i h" using F(6)[OF i] L by simp
    define n where "n = hole_size mem i h"
    have n: "h \<noteq> 0" "unat h + 16 * n \<le> 2 ^ 64" "g \<le> n" "0 < n" "i < 50 \<Longrightarrow> n = i + 1"
    proof -
      have H: "h \<noteq> 0" "unat h + 16 * n \<le> 2 ^ 64" "i < 50 \<or> 50 < n \<and> nofl_holeset_sparse_bucket n True = Inr i"
        using okh by (simp_all add: hole_ok_def n_def Let_def)
      show "h \<noteq> 0" "unat h + 16 * n \<le> 2 ^ 64" by (rule H)+
      show e: "i < 50 \<Longrightarrow> n = i + 1" by (simp add: n_def hole_size_def)
      have "m \<le> i" by (simp add: i_def)
      then show "g \<le> n" by (rule m(3)) (use H(3) e in auto)
      then show "0 < n" using g(1) by simp
    qed
    define hs1 where "hs1 = \<lparr> hs_nonempty = (if hole_next mem h = 0 then hs_nonempty hs XOR push_bit i 1 else hs_nonempty hs),
      hs_buckets = (hs_buckets hs)[i := hole_next mem h] \<rparr>"
    note R = hs_remove[OF ok i L, folded hs1_def n_def]
    define mem1 where "mem1 = (if i < 50 then set_hole_next h 0 mem else set_hole_granules h 0 (set_hole_next h 0 mem))"
    note P = pop_clears[OF okh, folded mem1_def n_def]
    define L1 where "L1 = L[i := rest]"
    have keep: "\<forall>x \<in> hs_bytes mem L1. mem1 x = mem x" using P(3) R(2) by (simp add: L1_def)
    note K = hs_ok_mem[OF R(1)[folded L1_def] keep]
    have bytes1: "hs_bytes mem1 L1 = hs_bytes mem L - hole_bytes h n" using K(2) R(2) by (simp add: L1_def)
    have "hs_nonempty hs AND push_bit i 1 \<noteq> 0" using b by (simp add: bit_iff_and_push_bit_not_eq_0)
    moreover have E: "hs1 = (if hole_next mem h = 0
        then hs\<lparr>hs_buckets := (hs_buckets hs)[i := hole_next mem h], hs_nonempty := hs_nonempty hs XOR push_bit i 1\<rparr>
        else hs\<lparr>hs_buckets := (hs_buckets hs)[i := hole_next mem h]\<rparr>)"
      unfolding hs1_def by (cases hs) simp
    moreover have sz: "i < 50 \<Longrightarrow> Suc i = n" using n(5) by simp
    ultimately have eq: "nofl_holeset_try_pop hs g mem =
      result_bind (if n - g \<noteq> 0 then nofl_holeset_push_local hs1 (nofl_hole_tail_address h g) (n - g) mem1
                   else Inr (hs1, mem1)) (\<lambda>(holes, mem). Inr (h, holes, mem))"
      using False m(1) assert R(3) n(1-4) sz P(1) P(4)
      by (simp add: nofl_holeset_try_pop_def c_def[symmetric] i_def[symmetric] nofl_hole_pop_def Let_def
          NOFL_HOLESET_PACKED_GRANULES_def E mem1_def)
    show ?thesis
    proof (cases "n = g")
      case True
      have "hole_taken g mem hs L h mem1 hs1 L1"
        using K(1) P(2,3) R(4) bytes1 n(1) True by (auto simp: hole_taken_def)
      then show ?thesis using eq True by auto
    next
      case ng: False
      then have "g < n" using n(3) by simp
      note S = hole_split[OF n(2) g(1) this n(1)]
      let ?t = "nofl_hole_tail_address h g"
      have zero: "\<And>x. x \<in> hole_bytes ?t (n - g) \<Longrightarrow> mem1 x = 0" using P(2) S(3) by blast
      have apart: "hole_bytes ?t (n - g) \<inter> hs_bytes mem1 L1 = {}" using S(3) unfolding bytes1 by blast
      have "0 < n - g" using \<open>g < n\<close> by simp
      from push_local_ok[OF K(1) S(1,2) this zero apart] obtain hs' mem' L' where
        T: "nofl_holeset_push_local hs1 ?t (n - g) mem1 = Inr (hs', mem')" "hs_ok mem' hs' L'"
        "hs_bytes mem' L' = hs_bytes mem1 L1 \<union> hole_bytes ?t (n - g)" "\<And>x. x \<notin> hole_bytes ?t (n - g) \<Longrightarrow> mem' x = mem1 x"
        by metis
      have sub: "hole_bytes h g \<subseteq> hole_bytes h n" "hole_bytes ?t (n - g) \<subseteq> hole_bytes h n" using S(3) by blast+
      have "hs_bytes mem' L' = hs_bytes mem L - hole_bytes h g" unfolding T(3) bytes1 using S(3,4) R(4) by blast
      moreover have "mem' x = 0" if "x \<in> hole_bytes h g" for x
      proof -
        have "x \<notin> hole_bytes ?t (n - g)" using that S(4) by blast
        then have "mem' x = mem1 x" by (rule T(4))
        also have "\<dots> = 0" using sub(1) that by (intro P(2)) blast
        finally show ?thesis .
      qed
      moreover have "mem' x = mem x" if "x \<notin> hs_bytes mem L" for x
      proof -
        have "x \<notin> hole_bytes h n" using that R(4) by blast
        then have "x \<notin> hole_bytes ?t (n - g)" using sub(2) by blast
        then show ?thesis using T(4)[of x] P(3)[of x] \<open>x \<notin> hole_bytes h n\<close> by simp
      qed
      moreover have "hole_bytes h g \<subseteq> hs_bytes mem L" using sub(1) R(4) by blast
      ultimately have "hole_taken g mem hs L h mem' hs' L'" using T(2) n(1) by (simp add: hole_taken_def)
      then show ?thesis using eq ng n(3) T(1) by auto
    qed
  qed
qed

section \<open>Properties\<close>

text \<open>C26: A successful \<open>nofl_holeset_try_pop\<close> for up to 512 granules trips none of its assertions. It
  either gives null, when every bucket from the one for that size on is empty, and then changes
  nothing; or a hole of the granules asked for, which lies in the free memory of the set, is zero
  throughout, links and size included, and leaves the set: what remains is the memory of the set
  without the hole, still well formed, with the tail of a larger hole put back under its own size.
  Memory outside the set is not written.\<close>

theorem nofl_holeset_try_pop_correct:
  assumes "hs_ok mem hs L" "0 < g" "g \<le> NOFL_HOLESET_MAX_GRANULES"
  shows "\<exists>ref hs' mem' L'. nofl_holeset_try_pop hs g mem = Inr (ref, hs', mem') \<and> hole_taken g mem hs L ref mem' hs' L'"
  using assms(3) by (intro try_pop_ok[OF assms(1,2)]) (simp add: NOFL_HOLESET_MAX_GRANULES_def)

definition example_holes :: "u64 list list" where "example_holes = (replicate 64 [])[2 := [4096]]"

definition example_holeset :: nofl_holeset where
  "example_holeset = \<lparr> hs_nonempty = 4, hs_buckets = (replicate 64 0)[2 := 4096] \<rparr>"

lemma example_holeset_ok: "hs_ok (\<lambda>_. 0) example_holeset example_holes"
proof -
  have L: "example_holes ! i = (if i = 2 then [4096] else [])" if "i < 64" for i
    using that by (simp add: example_holes_def nth_list_update)
  have B: "hs_buckets example_holeset ! i = (if i = 2 then 4096 else 0)" if "i < 64" for i
    using that by (simp add: example_holeset_def nth_list_update)
  have N: "bit (hs_nonempty example_holeset) i \<longleftrightarrow> i = 2" if "i < 64" for i
  proof -
    have "bit (push_bit 2 (1 :: u64)) i \<longleftrightarrow> i = 2" using that unfolding bit_push_bit_iff bit_1_iff by auto
    moreover have "push_bit 2 (1 :: u64) = 4" by (simp add: push_bit_eq_mult)
    ultimately show ?thesis by (simp add: example_holeset_def)
  qed
  have Z: "hole_next (\<lambda>_. 0) h = 0" for h unfolding hole_next_def by (rule zero_word) simp
  have d: "distinct (concat example_holes)"
    unfolding example_holes_def by (simp add: numeral_eq_Suc)
  have H: "hole_ok (\<lambda>_. 0) 2 4096" by (simp add: hole_ok_def hole_size_def)
  show ?thesis
    unfolding hs_ok_def
  proof (intro conjI allI impI ballI)
    show "length (hs_buckets example_holeset) = 64" "length example_holes = 64"
      by (simp_all add: example_holeset_def example_holes_def)
  qed (use d L B N Z H in \<open>auto split: if_splits\<close>)
qed

theorem nofl_holeset_try_pop_correct_witness:
  "\<exists>ref hs' mem' L'. nofl_holeset_try_pop example_holeset 2 (\<lambda>_. 0) = Inr (ref, hs', mem')
    \<and> hole_taken 2 (\<lambda>_. 0) example_holeset example_holes ref mem' hs' L'"
  by (rule nofl_holeset_try_pop_correct[OF example_holeset_ok]) (simp_all add: NOFL_HOLESET_MAX_GRANULES_def)

text \<open>C27: \<open>nofl_holeset_push_local\<close> of a zeroed hole of any size, apart from the memory of the set,
  trips no assertion, keeps the set well formed, adds exactly the memory of the hole to it and
  writes nowhere else.\<close>

theorem nofl_holeset_push_correct:
  assumes "hs_ok mem hs L" "h \<noteq> 0" "unat h + 16 * n \<le> 2 ^ 64" "0 < n"
    and "\<forall>x \<in> hole_bytes h n. mem x = 0 \<and> x \<notin> hs_bytes mem L"
  shows "\<exists>hs' mem' L'. nofl_holeset_push_local hs h n mem = Inr (hs', mem') \<and> hs_ok mem' hs' L'
    \<and> hs_bytes mem' L' = hs_bytes mem L \<union> hole_bytes h n \<and> (\<forall>x. x \<notin> hole_bytes h n \<longrightarrow> mem' x = mem x)"
proof -
  have "\<And>x. x \<in> hole_bytes h n \<Longrightarrow> mem x = 0" "hole_bytes h n \<inter> hs_bytes mem L = {}" using assms(5) by auto
  from push_local_ok[OF assms(1-4) this] show ?thesis by metis
qed

theorem nofl_holeset_push_correct_witness:
  "\<exists>hs' mem' L'. nofl_holeset_push_local example_holeset 0x4000 100 (\<lambda>_. 0) = Inr (hs', mem') \<and> hs_ok mem' hs' L'
    \<and> hs_bytes mem' L' = hs_bytes (\<lambda>_. 0) example_holes \<union> hole_bytes 0x4000 100
    \<and> (\<forall>x. x \<notin> hole_bytes 0x4000 100 \<longrightarrow> mem' x = 0)"
proof (rule nofl_holeset_push_correct[OF example_holeset_ok])
  have *: "\<not> (unat (x - 0x4000) < 1600 \<and> unat (x - 4096) < 48)" for x :: u64
    using u64_bound[of x] by (auto simp: unat_sub_if' split: if_splits)
  have "h = 4096 \<and> i = 2" if "i < 64" "h \<in> set (example_holes ! i)" for i h
    using that by (auto simp: example_holes_def nth_list_update split: if_splits)
  then show "\<forall>x \<in> hole_bytes 0x4000 100. (0 :: u8) = 0 \<and> x \<notin> hs_bytes (\<lambda>_. 0) example_holes"
    using * by (fastforce simp: hs_bytes_def hole_bytes_def hole_size_def)
qed simp_all

end
