(* ===== verification/NoflBlocks.thy ===== *)
theory NoflBlocks
  imports Chains Doubles Extents NoflHoleset
begin

text \<open>
  The blocks of the nofl space, the first part of \<open>src/src/nofl-space.h\<close>: where the metadata of an
  address is, the flags and the link in the summary of a block, and the lists of blocks. A slab of 4 MB
  begins with a byte for each of its 64 blocks, 16 bytes of summary for each block and a byte for each
  granule of 16 bytes, which together take the place of its first four blocks.

  The summaries are a store \<open>ns_summaries\<close>, read through the address of a summary; all other memory,
  the metadata bytes and the marks of blocks among it, is the bytes \<open>ns_mem\<close>. A list is named by the
  field of the space that holds it. Its atomic operations are the step of their successful swap, and
  the lock makes an operation on a stack one step.
\<close>

section \<open>Constants\<close>

definition NOFL_GRANULE_SIZE_LOG_2 :: nat where "NOFL_GRANULE_SIZE_LOG_2 = 4"
definition NOFL_SLAB_SIZE :: u64 where "NOFL_SLAB_SIZE = 4 * 1024 * 1024"
definition NOFL_BLOCK_SIZE :: u64 where "NOFL_BLOCK_SIZE = 64 * 1024"
definition NOFL_METADATA_BYTES_PER_BLOCK :: u64 where "NOFL_METADATA_BYTES_PER_BLOCK = NOFL_BLOCK_SIZE div NOFL_GRANULE_SIZE"
definition NOFL_BLOCKS_PER_SLAB :: u64 where "NOFL_BLOCKS_PER_SLAB = NOFL_SLAB_SIZE div NOFL_BLOCK_SIZE"
definition NOFL_META_BLOCKS_PER_SLAB :: u64 where
  "NOFL_META_BLOCKS_PER_SLAB = NOFL_METADATA_BYTES_PER_BLOCK * NOFL_BLOCKS_PER_SLAB div NOFL_BLOCK_SIZE"
definition NOFL_NONMETA_BLOCKS_PER_SLAB :: u64 where
  "NOFL_NONMETA_BLOCKS_PER_SLAB = NOFL_BLOCKS_PER_SLAB - NOFL_META_BLOCKS_PER_SLAB"
definition NOFL_SLACK_METADATA_BYTES_PER_SLAB :: u64 where
  "NOFL_SLACK_METADATA_BYTES_PER_SLAB = NOFL_META_BLOCKS_PER_SLAB * NOFL_METADATA_BYTES_PER_BLOCK"
definition NOFL_VESTIGIAL_BYTES_PER_BLOCK :: u64 where
  "NOFL_VESTIGIAL_BYTES_PER_BLOCK = NOFL_SLACK_METADATA_BYTES_PER_SLAB div NOFL_BLOCKS_PER_SLAB"
definition NOFL_SLACK_VESTIGIAL_BYTES_PER_SLAB :: u64 where
  "NOFL_SLACK_VESTIGIAL_BYTES_PER_SLAB = NOFL_VESTIGIAL_BYTES_PER_BLOCK * NOFL_META_BLOCKS_PER_SLAB"
definition NOFL_SUMMARY_BYTES_PER_BLOCK :: u64 where
  "NOFL_SUMMARY_BYTES_PER_BLOCK = NOFL_SLACK_VESTIGIAL_BYTES_PER_SLAB div NOFL_BLOCKS_PER_SLAB"
definition NOFL_GRANULES_PER_BLOCK :: u64 where "NOFL_GRANULES_PER_BLOCK = NOFL_BLOCK_SIZE div NOFL_GRANULE_SIZE"
definition NOFL_PAGE_OUT_QUEUE_SIZE :: nat where "NOFL_PAGE_OUT_QUEUE_SIZE = 4"

definition NOFL_BLOCK_EVACUATE :: u64 where "NOFL_BLOCK_EVACUATE = 0x1"
definition NOFL_BLOCK_ZERO :: u64 where "NOFL_BLOCK_ZERO = 0x2"
definition NOFL_BLOCK_UNAVAILABLE :: u64 where "NOFL_BLOCK_UNAVAILABLE = 0x4"
definition NOFL_BLOCK_PAGED_OUT :: u64 where "NOFL_BLOCK_PAGED_OUT = 0x8"

lemma nofl_sizes:
  "NOFL_SLAB_SIZE = 2 ^ 22" "NOFL_BLOCK_SIZE = 2 ^ 16" "NOFL_GRANULE_SIZE = 2 ^ 4" "NOFL_BLOCKS_PER_SLAB = 64"
  "NOFL_META_BLOCKS_PER_SLAB = 4" "NOFL_NONMETA_BLOCKS_PER_SLAB = 60" "NOFL_SUMMARY_BYTES_PER_BLOCK = 16"
  "NOFL_GRANULES_PER_BLOCK = 4096"
  by code_simp+

section \<open>State\<close>

record nofl_block_summary =
  sum_hole_count :: u16
  sum_hole_granules :: u16
  sum_holes_with_fragmentation :: u16
  sum_fragmentation_granules :: u16
  sum_next_and_flags :: u64

record nofl_block_ref =
  ref_summary :: u64
  ref_addr :: u64

text \<open>The number of blocks on a list is below \<open>2 ^ 48\<close>.\<close>

record nofl_block_list =
  list_count :: nat
  list_blocks :: u64

datatype nofl_list = List_empty | List_paged_out nat | List_to_sweep | List_partly_full | List_full | List_promoted
  | List_old | List_evacuation_targets | List_local

text \<open>
  An evacuation reserve is a double, a fraction of the number of blocks. The code gives it the values 0,
  0.02 and 0.5 only: it is held as a multiple of \<open>2 ^ - 58\<close>, in which each of them is exact.
\<close>

definition RESERVE_UNIT :: nat where "RESERVE_UNIT = 2 ^ 58"
definition RESERVE_0_02 :: nat where "RESERVE_0_02 = 5764607523034235"
definition RESERVE_0_5 :: nat where "RESERVE_0_5 = 2 ^ 57"

record nofl_space =
  ns_mem :: byte_mem
  ns_summaries :: "u64 \<Rightarrow> nofl_block_summary"
  ns_lists :: "nofl_list \<Rightarrow> nofl_block_list"
  ns_current_mark :: u8
  ns_survivor_mark :: u8
  ns_evacuating :: bool
  ns_extents :: extents
  ns_last_collection_was_minor :: bool
  ns_heap_has_ambiguous_edges :: bool
  ns_holes :: nofl_holeset
  ns_evacuation_minimum_reserve :: nat
  ns_evacuation_reserve :: nat
  ns_promotion_threshold :: rat
  ns_pending_unavailable_bytes :: int
  ns_slabs :: "u64 list"
  ns_old_generation_granules :: u64
  ns_survivor_granules :: u64
  ns_allocated_granules :: u64
  ns_fragmentation_granules :: u64
  ns_second_chance_granules :: u64

section \<open>Where things are\<close>

definition nofl_object_slab :: "u64 \<Rightarrow> u64" where
  "nofl_object_slab obj = align_down obj NOFL_SLAB_SIZE"

definition nofl_metadata_byte_for_addr :: "u64 \<Rightarrow> u64" where
  "nofl_metadata_byte_for_addr addr =
    (let base = align_down addr NOFL_SLAB_SIZE;
         granule = drop_bit NOFL_GRANULE_SIZE_LOG_2 (addr AND (NOFL_SLAB_SIZE - 1))
     in base + granule)"

definition nofl_block_mark_loc :: "u64 \<Rightarrow> u64" where
  "nofl_block_mark_loc addr =
    (let base = align_down addr NOFL_SLAB_SIZE;
         block_idx = (addr div NOFL_BLOCK_SIZE) mod NOFL_BLOCKS_PER_SLAB
     in base + block_idx)"

definition nofl_block_is_marked :: "nofl_space \<Rightarrow> u64 \<Rightarrow> bool" where
  "nofl_block_is_marked space addr \<longleftrightarrow> ns_mem space (nofl_block_mark_loc addr) \<noteq> 0"

definition nofl_block_set_mark :: "u64 \<Rightarrow> nofl_space \<Rightarrow> nofl_space" where
  "nofl_block_set_mark addr space =
    (let loc = nofl_block_mark_loc addr
     in if ns_mem space loc = 0 then space\<lparr>ns_mem := (ns_mem space)(loc := 1)\<rparr> else space)"

definition nofl_block_summary_for_addr :: "u64 \<Rightarrow> u64" where
  "nofl_block_summary_for_addr addr =
    (let base = align_down addr NOFL_SLAB_SIZE;
         block = (addr AND (NOFL_SLAB_SIZE - 1)) div NOFL_BLOCK_SIZE
     in base + block * NOFL_SUMMARY_BYTES_PER_BLOCK)"

section \<open>Flags and links\<close>

definition nofl_block_summary_has_flag :: "nofl_block_summary \<Rightarrow> u64 \<Rightarrow> bool" where
  "nofl_block_summary_has_flag summary flag \<longleftrightarrow> sum_next_and_flags summary AND flag = flag"

definition nofl_block_summary_set_flag :: "u64 \<Rightarrow> nofl_block_summary \<Rightarrow> nofl_block_summary" where
  "nofl_block_summary_set_flag flag summary = summary\<lparr>sum_next_and_flags := sum_next_and_flags summary OR flag\<rparr>"

definition nofl_block_summary_clear_flag :: "u64 \<Rightarrow> nofl_block_summary \<Rightarrow> nofl_block_summary" where
  "nofl_block_summary_clear_flag flag summary = summary\<lparr>sum_next_and_flags := sum_next_and_flags summary AND NOT flag\<rparr>"

definition nofl_block_summary_next :: "nofl_block_summary \<Rightarrow> u64" where
  "nofl_block_summary_next summary = align_down (sum_next_and_flags summary) NOFL_BLOCK_SIZE"

definition nofl_block_summary_set_next :: "u64 \<Rightarrow> nofl_block_summary \<Rightarrow> nofl_block_summary result" where
  "nofl_block_summary_set_next nxt summary =
    result_bind (gc_assert (nxt AND (NOFL_BLOCK_SIZE - 1) = 0)) (\<lambda>_.
      Inr (summary\<lparr>sum_next_and_flags := (sum_next_and_flags summary AND (NOFL_BLOCK_SIZE - 1)) OR nxt\<rparr>))"

definition nofl_block_for_addr :: "u64 \<Rightarrow> nofl_block_ref" where
  "nofl_block_for_addr addr =
    \<lparr> ref_summary = nofl_block_summary_for_addr addr, ref_addr = align_down addr NOFL_BLOCK_SIZE \<rparr>"

definition nofl_block_null :: nofl_block_ref where
  "nofl_block_null = \<lparr> ref_summary = 0, ref_addr = 0 \<rparr>"

definition nofl_block_is_null :: "nofl_block_ref \<Rightarrow> bool" where
  "nofl_block_is_null block \<longleftrightarrow> ref_summary block = 0"

definition block_summary :: "nofl_space \<Rightarrow> nofl_block_ref \<Rightarrow> nofl_block_summary" where
  "block_summary space block = ns_summaries space (ref_summary block)"

definition update_summary ::
    "nofl_block_ref \<Rightarrow> (nofl_block_summary \<Rightarrow> nofl_block_summary) \<Rightarrow> nofl_space \<Rightarrow> nofl_space" where
  "update_summary block f space =
    space\<lparr>ns_summaries := (ns_summaries space)(ref_summary block := f (block_summary space block))\<rparr>"

definition nofl_block_has_flag :: "nofl_space \<Rightarrow> nofl_block_ref \<Rightarrow> u64 \<Rightarrow> bool result" where
  "nofl_block_has_flag space block flags =
    result_bind (gc_assert (\<not> nofl_block_is_null block)) (\<lambda>_.
      Inr (nofl_block_summary_has_flag (block_summary space block) flags))"

definition nofl_block_set_flag :: "nofl_block_ref \<Rightarrow> u64 \<Rightarrow> nofl_space \<Rightarrow> nofl_space result" where
  "nofl_block_set_flag block flags space =
    result_bind (gc_assert (\<not> nofl_block_is_null block)) (\<lambda>_.
      Inr (update_summary block (nofl_block_summary_set_flag flags) space))"

definition nofl_block_clear_flag :: "nofl_block_ref \<Rightarrow> u64 \<Rightarrow> nofl_space \<Rightarrow> nofl_space result" where
  "nofl_block_clear_flag block flags space =
    result_bind (gc_assert (\<not> nofl_block_is_null block)) (\<lambda>_.
      Inr (update_summary block (nofl_block_summary_clear_flag flags) space))"

definition nofl_block_next :: "nofl_space \<Rightarrow> nofl_block_ref \<Rightarrow> nofl_block_ref result" where
  "nofl_block_next space block =
    result_bind (gc_assert (\<not> nofl_block_is_null block)) (\<lambda>_.
      Inr (nofl_block_for_addr (nofl_block_summary_next (block_summary space block))))"

definition nofl_block_set_next :: "nofl_block_ref \<Rightarrow> nofl_block_ref \<Rightarrow> nofl_space \<Rightarrow> nofl_space result" where
  "nofl_block_set_next head tail space =
    result_bind (gc_assert (\<not> nofl_block_is_null head)) (\<lambda>_.
    result_bind (nofl_block_summary_set_next (ref_addr tail) (block_summary space head)) (\<lambda>s.
      Inr (update_summary head (\<lambda>_. s) space)))"

section \<open>Lists of blocks\<close>

abbreviation put_list :: "nofl_list \<Rightarrow> nofl_block_list \<Rightarrow> nofl_space \<Rightarrow> nofl_space" where
  "put_list name l space \<equiv> space\<lparr>ns_lists := (ns_lists space)(name := l)\<rparr>"

definition nofl_block_head :: "nofl_space \<Rightarrow> nofl_list \<Rightarrow> nofl_block_ref" where
  "nofl_block_head space name =
    (let head = list_blocks (ns_lists space name)
     in if head = 0 then nofl_block_null
        else \<lparr> ref_summary = nofl_block_summary_for_addr head, ref_addr = head \<rparr>)"

definition nofl_block_count :: "nofl_space \<Rightarrow> nofl_list \<Rightarrow> nat" where
  "nofl_block_count space name = list_count (ns_lists space name)"

definition nofl_block_list_push :: "nofl_list \<Rightarrow> nofl_block_ref \<Rightarrow> nofl_space \<Rightarrow> nofl_space result" where
  "nofl_block_list_push name block space =
    (let space = put_list name ((ns_lists space name)\<lparr>list_count := list_count (ns_lists space name) + 1\<rparr>) space
     in result_bind (nofl_block_next space block) (\<lambda>nxt.
        result_bind (gc_assert (nofl_block_is_null nxt)) (\<lambda>_.
        let nxt = nofl_block_head space name in
        result_bind (nofl_block_set_next block nxt space) (\<lambda>space.
          Inr (put_list name ((ns_lists space name)\<lparr>list_blocks := ref_addr block\<rparr>) space)))))"

definition nofl_block_list_pop :: "nofl_list \<Rightarrow> nofl_space \<Rightarrow> (nofl_block_ref \<times> nofl_space) result" where
  "nofl_block_list_pop name space =
    (let head = nofl_block_head space name
     in if nofl_block_is_null head then Inr (nofl_block_null, space)
        else
          result_bind (nofl_block_next space head) (\<lambda>nxt.
          let space = put_list name ((ns_lists space name)\<lparr>list_blocks := ref_addr nxt\<rparr>) space in
          result_bind (nofl_block_set_next head nofl_block_null space) (\<lambda>space.
            Inr (head, put_list name ((ns_lists space name)\<lparr>list_count := list_count (ns_lists space name) - 1\<rparr>) space))))"

definition nofl_block_stack_push :: "nofl_list \<Rightarrow> nofl_block_ref \<Rightarrow> nofl_space \<Rightarrow> nofl_space result" where
  "nofl_block_stack_push name block space =
    (let space = put_list name ((ns_lists space name)\<lparr>list_count := list_count (ns_lists space name) + 1\<rparr>) space
     in result_bind (nofl_block_next space block) (\<lambda>nxt.
        result_bind (gc_assert (nofl_block_is_null nxt)) (\<lambda>_.
        let nxt = nofl_block_head space name in
        result_bind (nofl_block_set_next block nxt space) (\<lambda>space.
          Inr (put_list name ((ns_lists space name)\<lparr>list_blocks := ref_addr block\<rparr>) space)))))"

definition nofl_block_stack_pop :: "nofl_list \<Rightarrow> nofl_space \<Rightarrow> (nofl_block_ref \<times> nofl_space) result" where
  "nofl_block_stack_pop name space =
    (let head = nofl_block_head space name
     in if nofl_block_is_null head then Inr (head, space)
        else
          (let space = put_list name ((ns_lists space name)\<lparr>list_count := list_count (ns_lists space name) - 1\<rparr>) space in
           result_bind (nofl_block_next space head) (\<lambda>nxt.
           let space = put_list name ((ns_lists space name)\<lparr>list_blocks := ref_addr nxt\<rparr>) space in
           result_bind (nofl_block_set_next head nofl_block_null space) (\<lambda>space. Inr (head, space)))))"

subsection \<open>Blocks that are not in use\<close>

definition nofl_push_unavailable_block :: "nofl_block_ref \<Rightarrow> nofl_space \<Rightarrow> nofl_space result" where
  "nofl_push_unavailable_block block space =
    result_bind (nofl_block_set_flag block NOFL_BLOCK_UNAVAILABLE space) (\<lambda>space.
    result_bind (nofl_block_has_flag space block NOFL_BLOCK_PAGED_OUT) (\<lambda>paged_out.
      nofl_block_stack_push (List_paged_out (if paged_out then NOFL_PAGE_OUT_QUEUE_SIZE - 1 else 0)) block space))"

fun pop_unavailable :: "nat list \<Rightarrow> nofl_space \<Rightarrow> (nofl_block_ref \<times> nofl_space) result" where
  "pop_unavailable [] space = Inr (nofl_block_null, space)"
| "pop_unavailable (age # ages) space =
    result_bind (nofl_block_stack_pop (List_paged_out age) space) (\<lambda>(block, space).
      if \<not> nofl_block_is_null block
      then result_bind (nofl_block_clear_flag block NOFL_BLOCK_UNAVAILABLE space) (\<lambda>space. Inr (block, space))
      else pop_unavailable ages space)"

definition nofl_pop_unavailable_block :: "nofl_space \<Rightarrow> (nofl_block_ref \<times> nofl_space) result" where
  "nofl_pop_unavailable_block space = pop_unavailable [0..<NOFL_PAGE_OUT_QUEUE_SIZE] space"

definition nofl_empty_block_count :: "nofl_space \<Rightarrow> nat" where
  "nofl_empty_block_count space = nofl_block_count space List_empty"

definition nofl_push_empty_block :: "nofl_block_ref \<Rightarrow> nofl_space \<Rightarrow> nofl_space result" where
  "nofl_push_empty_block block space = nofl_block_stack_push List_empty block space"

definition nofl_pop_empty_block_with_lock :: "nofl_space \<Rightarrow> (nofl_block_ref \<times> nofl_space) result" where
  "nofl_pop_empty_block_with_lock space = nofl_block_stack_pop List_empty space"

definition nofl_pop_empty_block :: "nofl_space \<Rightarrow> (nofl_block_ref \<times> nofl_space) result" where
  "nofl_pop_empty_block space = nofl_pop_empty_block_with_lock space"

definition nofl_active_block_count :: "nofl_space \<Rightarrow> nat result" where
  "nofl_active_block_count space =
    (let total = length (ns_slabs space) * unat NOFL_NONMETA_BLOCKS_PER_SLAB;
         unavailable = sum_list (map (\<lambda>age. nofl_block_count space (List_paged_out age)) [0..<NOFL_PAGE_OUT_QUEUE_SIZE])
     in result_bind (gc_assert (unavailable \<le> total)) (\<lambda>_. Inr (total - unavailable)))"

definition nofl_evacuation_block_count :: "nofl_space \<Rightarrow> nat" where
  "nofl_evacuation_block_count space = nofl_block_count space List_evacuation_targets"

text \<open>\<open>ceil (active * reserve)\<close>: the product of the doubles is rounded.\<close>

definition reserve_blocks :: "nat \<Rightarrow> nat \<Rightarrow> nat" where
  "reserve_blocks active reserve = (double_of_nat (active * reserve) + RESERVE_UNIT - 1) div RESERVE_UNIT"

definition nofl_maybe_push_evacuation_target :: "nofl_block_ref \<Rightarrow> nat \<Rightarrow> nofl_space \<Rightarrow> (bool \<times> nofl_space) result" where
  "nofl_maybe_push_evacuation_target block reserve space =
    (let targets = nofl_evacuation_block_count space in
     result_bind (nofl_active_block_count space) (\<lambda>active.
       if targets \<ge> reserve_blocks active reserve then Inr (False, space)
       else result_bind (nofl_block_list_push List_evacuation_targets block space) (\<lambda>space. Inr (True, space))))"

definition nofl_push_evacuation_target_if_needed :: "nofl_block_ref \<Rightarrow> nofl_space \<Rightarrow> (bool \<times> nofl_space) result" where
  "nofl_push_evacuation_target_if_needed block space =
    nofl_maybe_push_evacuation_target block (ns_evacuation_minimum_reserve space) space"

definition nofl_push_evacuation_target_if_possible :: "nofl_block_ref \<Rightarrow> nofl_space \<Rightarrow> (bool \<times> nofl_space) result" where
  "nofl_push_evacuation_target_if_possible block space =
    nofl_maybe_push_evacuation_target block (ns_evacuation_reserve space) space"

end
