(* ===== verification/Allocation.thy ===== *)
theory Allocation
  imports Memory
begin

text \<open>
  The fast path of allocation, \<open>src/api/gc-allocate.h\<close>, with the constants by which the mostly-marking
  collector describes its allocator to it, \<open>src/api/mmc-attrs.h\<close>: objects are allocated by bumping a
  pointer, and a table at the start of each slab has a byte for each granule, which tells where an
  object begins, how it is traced, and where it ends.
\<close>

datatype gc_allocation_kind = Allocation_tagged | Allocation_tagged_pointerless
  | Allocation_untagged_conservative | Allocation_untagged_pointerless

datatype gc_inline_allocator_kind = Inline_allocator_none | Inline_allocator_bump_pointer | Inline_allocator_freelist

definition gc_inline_allocator_kind :: "bool \<Rightarrow> gc_allocation_kind \<Rightarrow> gc_inline_allocator_kind" where
  "gc_inline_allocator_kind conservative_trace kind =
    (if kind = Allocation_untagged_conservative \<and> \<not> conservative_trace then Inline_allocator_none
     else Inline_allocator_bump_pointer)"

definition gc_allocator_small_granule_size :: u64 where "gc_allocator_small_granule_size = 16"
definition gc_allocator_large_threshold :: u64 where "gc_allocator_large_threshold = 8192"
definition gc_allocator_alloc_table_alignment :: u64 where "gc_allocator_alloc_table_alignment = 4 * 1024 * 1024"
definition gc_allocator_alloc_table_end_pattern :: u8 where "gc_allocator_alloc_table_end_pattern = 32"

definition gc_allocator_alloc_table_begin_pattern :: "gc_allocation_kind \<Rightarrow> u8" where
  "gc_allocator_alloc_table_begin_pattern kind =
    (let young = 1; trace_precisely = 0; trace_none = 8; trace_conservatively = 16; pinned = 16
     in case kind of
          Allocation_tagged \<Rightarrow> young OR trace_precisely
        | Allocation_untagged_conservative \<Rightarrow> young OR trace_conservatively
        | Allocation_tagged_pointerless \<Rightarrow> young OR trace_none
        | Allocation_untagged_pointerless \<Rightarrow> young OR trace_none OR pinned)"

definition alloc_table_byte :: "u64 \<Rightarrow> u64" where
  "alloc_table_byte addr =
    (let alignment = gc_allocator_alloc_table_alignment; base = addr AND NOT (alignment - 1)
     in base + (addr AND (alignment - 1)) div gc_allocator_small_granule_size)"

definition gc_update_alloc_table :: "gc_ref \<Rightarrow> u64 \<Rightarrow> gc_allocation_kind \<Rightarrow> byte_mem \<Rightarrow> byte_mem" where
  "gc_update_alloc_table obj sz kind mem =
    (let alloc = alloc_table_byte obj;
         begin_pattern = gc_allocator_alloc_table_begin_pattern kind;
         end_pattern = gc_allocator_alloc_table_end_pattern;
         granules = sz div gc_allocator_small_granule_size
     in if granules = 1 then mem(alloc := begin_pattern OR end_pattern)
        else mem(alloc := begin_pattern, alloc + (granules - 1) := end_pattern))"

text \<open>The allocation pointer and its limit are the first two words of a mutator; null is no room.\<close>

definition gc_allocate_small_fast_bump_pointer ::
    "u64 \<times> u64 \<Rightarrow> u64 \<Rightarrow> gc_allocation_kind \<Rightarrow> byte_mem \<Rightarrow> (gc_ref \<times> (u64 \<times> u64) \<times> byte_mem) result" where
  "gc_allocate_small_fast_bump_pointer mut sz kind mem =
    result_bind (gc_assert (sz \<le> gc_allocator_large_threshold)) (\<lambda>_.
    let granule_size = gc_allocator_small_granule_size;
        sz = (sz + granule_size - 1) AND NOT (granule_size - 1);
        (hp, limit) = mut;
        new_hp = hp + sz
    in if new_hp > limit then Inr (gc_ref_null, mut, mem)
       else Inr (hp, (new_hp, limit), gc_update_alloc_table hp sz kind mem))"

definition gc_allocate_small_fast ::
    "bool \<Rightarrow> u64 \<times> u64 \<Rightarrow> u64 \<Rightarrow> gc_allocation_kind \<Rightarrow> byte_mem \<Rightarrow> (gc_ref \<times> (u64 \<times> u64) \<times> byte_mem) result" where
  "gc_allocate_small_fast conservative_trace mut sz kind mem =
    result_bind (gc_assert (sz \<noteq> 0)) (\<lambda>_.
    result_bind (gc_assert (sz \<le> gc_allocator_large_threshold)) (\<lambda>_.
      case gc_inline_allocator_kind conservative_trace kind of
        Inline_allocator_bump_pointer \<Rightarrow> gc_allocate_small_fast_bump_pointer mut sz kind mem
      | Inline_allocator_none \<Rightarrow> Inr (gc_ref_null, mut, mem)
      | Inline_allocator_freelist \<Rightarrow> Inl Crash))"

definition gc_allocate_fast ::
    "bool \<Rightarrow> u64 \<times> u64 \<Rightarrow> u64 \<Rightarrow> gc_allocation_kind \<Rightarrow> byte_mem \<Rightarrow> (gc_ref \<times> (u64 \<times> u64) \<times> byte_mem) result" where
  "gc_allocate_fast conservative_trace mut sz kind mem =
    result_bind (gc_assert (sz \<noteq> 0)) (\<lambda>_.
      if sz > gc_allocator_large_threshold then Inr (gc_ref_null, mut, mem)
      else gc_allocate_small_fast conservative_trace mut sz kind mem)"

end
