(* ===== verification/Trace.thy ===== *)
theory Trace
  imports Prelude
begin

text \<open>
  What every space and tracer shares: the build configuration of \<open>api/gc-config.h\<close>, the kinds and plans
  of \<open>src/gc-trace.h\<close>, and the conservative references of \<open>api/gc-conservative-ref.h\<close>. The test
  \<open>gc_is_valid_conservative_ref_displacement\<close> belongs to the embedder and is an argument.
\<close>

record gc_config =
  gc_parallel :: bool
  gc_generational :: bool
  gc_precise_roots :: bool
  gc_conservative_roots :: bool
  gc_conservative_trace :: bool

definition gc_has_mutator_conservative_roots :: "gc_config \<Rightarrow> bool" where
  "gc_has_mutator_conservative_roots cfg = gc_conservative_roots cfg"

definition gc_has_global_conservative_roots :: "gc_config \<Rightarrow> bool" where
  "gc_has_global_conservative_roots cfg = gc_conservative_roots cfg"

definition gc_has_conservative_intraheap_edges :: "gc_config \<Rightarrow> bool" where
  "gc_has_conservative_intraheap_edges cfg = gc_conservative_trace cfg"

definition gc_has_conservative_roots :: "gc_config \<Rightarrow> bool" where
  "gc_has_conservative_roots cfg \<longleftrightarrow>
    gc_has_mutator_conservative_roots cfg \<or> gc_has_global_conservative_roots cfg"

datatype gc_trace_kind = Trace_precisely | Trace_none | Trace_conservatively

record gc_trace_plan =
  plan_kind :: gc_trace_kind
  plan_size :: u64

definition gc_conservative_ref_might_be_a_heap_object :: "(u64 \<Rightarrow> bool) \<Rightarrow> u64 \<Rightarrow> bool \<Rightarrow> bool" where
  "gc_conservative_ref_might_be_a_heap_object valid_displacement ref possibly_interior =
    (if ref < 4096 then False
     else if possibly_interior then True
     else valid_displacement (ref AND 7))"

end
