(* ===== verification/NoflSweep.thy ===== *)
theory NoflSweep
  imports NoflBlocks Allocation Trace
begin

text \<open>
  Sweeping and allocating in the nofl space, the second part of \<open>src/src/nofl-space.h\<close>. An allocator has
  a hole, from \<open>na_alloc\<close> to \<open>na_sweep\<close>, of the block that it sweeps: the survivors of the last
  collection are skipped and what is between them is cleared and allocated from. When a block has no
  hole that is large enough the allocator takes another one to sweep, or one that is partly full, or an
  empty one, and it keeps the holes it had no use for in a set of its own.
\<close>

section \<open>State\<close>

definition NOFL_METADATA_BYTE_YOUNG :: u8 where "NOFL_METADATA_BYTE_YOUNG = 1"
definition NOFL_METADATA_BYTE_MARK_0 :: u8 where "NOFL_METADATA_BYTE_MARK_0 = 2"
definition NOFL_METADATA_BYTE_MARK_1 :: u8 where "NOFL_METADATA_BYTE_MARK_1 = 3"
definition NOFL_METADATA_BYTE_MARK_2 :: u8 where "NOFL_METADATA_BYTE_MARK_2 = 4"
definition NOFL_METADATA_BYTE_BUSY :: u8 where "NOFL_METADATA_BYTE_BUSY = 5"
definition NOFL_METADATA_BYTE_FORWARDED :: u8 where "NOFL_METADATA_BYTE_FORWARDED = 6"
definition NOFL_METADATA_BYTE_MARK_MASK :: u8 where "NOFL_METADATA_BYTE_MARK_MASK = 7"
definition NOFL_METADATA_BYTE_TRACE_PRECISELY :: u8 where "NOFL_METADATA_BYTE_TRACE_PRECISELY = 0"
definition NOFL_METADATA_BYTE_TRACE_NONE :: u8 where "NOFL_METADATA_BYTE_TRACE_NONE = 8"
definition NOFL_METADATA_BYTE_TRACE_CONSERVATIVELY :: u8 where "NOFL_METADATA_BYTE_TRACE_CONSERVATIVELY = 16"
definition NOFL_METADATA_BYTE_TRACE_KIND_MASK :: u8 where "NOFL_METADATA_BYTE_TRACE_KIND_MASK = 24"
definition NOFL_METADATA_BYTE_PINNED :: u8 where "NOFL_METADATA_BYTE_PINNED = 16"
definition NOFL_METADATA_BYTE_END :: u8 where "NOFL_METADATA_BYTE_END = 32"
definition NOFL_METADATA_BYTE_LOGGED_0 :: u8 where "NOFL_METADATA_BYTE_LOGGED_0 = 64"
definition NOFL_METADATA_BYTE_LOGGED_1 :: u8 where "NOFL_METADATA_BYTE_LOGGED_1 = 128"

lemmas nofl_metadata_bytes = NOFL_METADATA_BYTE_YOUNG_def NOFL_METADATA_BYTE_MARK_0_def NOFL_METADATA_BYTE_MARK_1_def
  NOFL_METADATA_BYTE_MARK_2_def NOFL_METADATA_BYTE_BUSY_def NOFL_METADATA_BYTE_FORWARDED_def NOFL_METADATA_BYTE_MARK_MASK_def
  NOFL_METADATA_BYTE_END_def

record nofl_allocator =
  na_alloc :: u64
  na_sweep :: u64
  na_block :: nofl_block_ref
  na_holes :: nofl_holeset

definition nofl_advance_current_mark :: "u8 \<Rightarrow> u8 result" where
  "nofl_advance_current_mark mark =
    (if mark = NOFL_METADATA_BYTE_MARK_0 then Inr NOFL_METADATA_BYTE_MARK_1
     else if mark = NOFL_METADATA_BYTE_MARK_1 then Inr NOFL_METADATA_BYTE_MARK_2
     else if mark = NOFL_METADATA_BYTE_MARK_2 then Inr NOFL_METADATA_BYTE_MARK_0
     else Inl Crash)"

definition nofl_metadata_byte_for_object :: "nofl_space \<Rightarrow> gc_ref \<Rightarrow> u64 result" where
  "nofl_metadata_byte_for_object space ref =
    (let ret = nofl_metadata_byte_for_addr ref
     in result_bind (gc_assert (ns_mem space ret AND NOFL_METADATA_BYTE_MARK_MASK \<noteq> 0)) (\<lambda>_. Inr ret))"

definition nofl_clear_memory :: "u64 \<Rightarrow> u64 \<Rightarrow> nofl_space \<Rightarrow> nofl_space" where
  "nofl_clear_memory addr sz space = space\<lparr>ns_mem := mem_set (ns_mem space) addr 0 sz\<rparr>"

definition nofl_space_live_object_granules :: "byte_mem \<Rightarrow> u64 \<Rightarrow> u64 result" where
  "nofl_space_live_object_granules mem metadata =
    result_bind (scan_for_byte_with_bits mem metadata (- 1) NOFL_METADATA_BYTE_END) (\<lambda>n. Inr (n + 1))"

definition nofl_allocator_has_block :: "nofl_allocator \<Rightarrow> bool" where
  "nofl_allocator_has_block alloc \<longleftrightarrow> \<not> nofl_block_is_null (na_block alloc)"

definition nofl_allocator_reset :: "nofl_allocator \<Rightarrow> nofl_allocator" where
  "nofl_allocator_reset alloc = alloc\<lparr>na_alloc := 0, na_sweep := 0, na_block := nofl_block_null\<rparr>"

definition nofl_allocator_init :: "nofl_allocator \<Rightarrow> nofl_allocator" where
  "nofl_allocator_init alloc = (let alloc = nofl_allocator_reset alloc in alloc\<lparr>na_holes := nofl_holeset_clear (na_holes alloc)\<rparr>)"

text \<open>The product of the promotion threshold and a power of two is exact.\<close>

definition nofl_should_promote_block :: "gc_config \<Rightarrow> nofl_space \<Rightarrow> nofl_block_ref \<Rightarrow> bool" where
  "nofl_should_promote_block cfg space block \<longleftrightarrow> gc_generational cfg
    \<and> int (unat (sum_hole_granules (block_summary space block)))
      < floor (of_nat (unat NOFL_GRANULES_PER_BLOCK) * ns_promotion_threshold space)"

section \<open>Releasing and acquiring blocks\<close>

definition nofl_allocator_release_full_block ::
    "gc_config \<Rightarrow> nofl_allocator \<times> nofl_space \<Rightarrow> (nofl_allocator \<times> nofl_space) result" where
  "nofl_allocator_release_full_block cfg st =
    (let (alloc, space) = st in
     result_bind (gc_assert (nofl_allocator_has_block alloc)) (\<lambda>_.
     let block = na_block alloc; summary = block_summary space block in
     result_bind (gc_assert (na_alloc alloc = na_sweep alloc)) (\<lambda>_.
     let space = space\<lparr>ns_allocated_granules := ns_allocated_granules space + ucast (sum_hole_granules summary),
           ns_survivor_granules := ns_survivor_granules space + (NOFL_GRANULES_PER_BLOCK - ucast (sum_hole_granules summary)),
           ns_fragmentation_granules := ns_fragmentation_granules space + ucast (sum_fragmentation_granules summary)\<rparr>
     in result_bind
          (if nofl_should_promote_block cfg space block then nofl_block_list_push List_promoted block space
           else nofl_block_list_push List_full block space)
          (\<lambda>space. Inr (nofl_allocator_reset alloc, space)))))"

definition nofl_allocator_release_full_evacuation_target ::
    "nofl_allocator \<times> nofl_space \<Rightarrow> (nofl_allocator \<times> nofl_space) result" where
  "nofl_allocator_release_full_evacuation_target st =
    (let (alloc, space) = st in
     result_bind (gc_assert (nofl_allocator_has_block alloc)) (\<lambda>_.
     let block = na_block alloc in
     result_bind (gc_assert (na_alloc alloc > ref_addr block)) (\<lambda>_.
     result_bind (gc_assert (na_sweep alloc = ref_addr block + NOFL_BLOCK_SIZE)) (\<lambda>_.
     let hole_sz = na_sweep alloc - na_alloc alloc in
     result_bind (gc_assert (sum_hole_count (block_summary space block) = 1)) (\<lambda>_.
     result_bind (gc_assert (ucast (sum_hole_granules (block_summary space block)) = NOFL_GRANULES_PER_BLOCK)) (\<lambda>_.
     let space = space\<lparr>ns_old_generation_granules := ns_old_generation_granules space + NOFL_GRANULES_PER_BLOCK\<rparr> in
     result_bind
       (if hole_sz \<noteq> 0 then
          (let hole_sz = drop_bit NOFL_GRANULE_SIZE_LOG_2 hole_sz
           in Inr (update_summary block (\<lambda>s. s\<lparr>sum_holes_with_fragmentation := 1,
                sum_fragmentation_granules := ucast (hole_sz div NOFL_GRANULE_SIZE)\<rparr>) space))
        else
          result_bind (gc_assert (sum_fragmentation_granules (block_summary space block) = 0)) (\<lambda>_.
          result_bind (gc_assert (sum_holes_with_fragmentation (block_summary space block) = 0)) (\<lambda>_. Inr space)))
       (\<lambda>space. result_bind (nofl_block_list_push List_old block space) (\<lambda>space.
          Inr (nofl_allocator_reset alloc, space)))))))))"

definition nofl_allocator_release_partly_full_block ::
    "nofl_allocator \<times> nofl_space \<Rightarrow> (nofl_allocator \<times> nofl_space) result" where
  "nofl_allocator_release_partly_full_block st =
    (let (alloc, space) = st in
     result_bind (gc_assert (nofl_allocator_has_block alloc)) (\<lambda>_.
     let block = na_block alloc in
     result_bind (gc_assert (na_alloc alloc > ref_addr block)) (\<lambda>_.
     result_bind (gc_assert (na_sweep alloc = ref_addr block + NOFL_BLOCK_SIZE)) (\<lambda>_.
     let hole_sz = na_sweep alloc - na_alloc alloc in
     result_bind (gc_assert (hole_sz \<noteq> 0)) (\<lambda>_.
     let space = update_summary block (\<lambda>s. s\<lparr>sum_fragmentation_granules := ucast (hole_sz div NOFL_GRANULE_SIZE)\<rparr>) space in
     result_bind (nofl_block_stack_push List_partly_full block space) (\<lambda>space.
       Inr (nofl_allocator_reset alloc, space)))))))"

definition nofl_allocator_acquire_partly_full_block ::
    "nofl_allocator \<times> nofl_space \<Rightarrow> (u64 \<times> nofl_allocator \<times> nofl_space) result" where
  "nofl_allocator_acquire_partly_full_block st =
    (let (alloc, space) = st in
     result_bind (nofl_block_stack_pop List_partly_full space) (\<lambda>(block, space).
       if nofl_block_is_null block then Inr (0, alloc, space)
       else
         result_bind (gc_assert (sum_holes_with_fragmentation (block_summary space block) = 0)) (\<lambda>_.
         let sweep = ref_addr block + NOFL_BLOCK_SIZE;
             granules = ucast (sum_fragmentation_granules (block_summary space block));
             space = update_summary block (\<lambda>s. s\<lparr>sum_fragmentation_granules := 0\<rparr>) space
         in Inr (granules, alloc\<lparr>na_block := block, na_sweep := sweep,
                  na_alloc := sweep - push_bit NOFL_GRANULE_SIZE_LOG_2 granules\<rparr>, space))))"

definition nofl_allocator_acquire_empty_block ::
    "nofl_allocator \<times> nofl_space \<Rightarrow> (u64 \<times> nofl_allocator \<times> nofl_space) result" where
  "nofl_allocator_acquire_empty_block st =
    (let (alloc, space) = st in
     result_bind (nofl_pop_empty_block space) (\<lambda>(block, space).
       if nofl_block_is_null block then Inr (0, alloc, space)
       else
         (let space = update_summary block (\<lambda>s. s\<lparr>sum_hole_count := 1, sum_hole_granules := ucast NOFL_GRANULES_PER_BLOCK,
                sum_holes_with_fragmentation := 0, sum_fragmentation_granules := 0\<rparr>) space;
              alloc = alloc\<lparr>na_block := block, na_alloc := ref_addr block, na_sweep := ref_addr block + NOFL_BLOCK_SIZE\<rparr>
          in result_bind (nofl_block_has_flag space block NOFL_BLOCK_ZERO) (\<lambda>zero.
             result_bind
               (if zero then nofl_block_clear_flag block (NOFL_BLOCK_ZERO OR NOFL_BLOCK_PAGED_OUT) space
                else Inr (nofl_clear_memory (ref_addr block) NOFL_BLOCK_SIZE space))
               (\<lambda>space. Inr (NOFL_GRANULES_PER_BLOCK, alloc, space))))))"

definition nofl_allocator_acquire_evacuation_target ::
    "nofl_allocator \<times> nofl_space \<Rightarrow> (u64 \<times> nofl_allocator \<times> nofl_space) result" where
  "nofl_allocator_acquire_evacuation_target st =
    result_bind (nofl_allocator_acquire_partly_full_block st) (\<lambda>(granules, st).
      if granules \<noteq> 0 then Inr (granules, st) else nofl_allocator_acquire_empty_block st)"

definition nofl_allocator_finish_hole ::
    "bool \<Rightarrow> nofl_allocator \<times> nofl_space \<Rightarrow> (nofl_allocator \<times> nofl_space) result" where
  "nofl_allocator_finish_hole collect_holes st =
    (let (alloc, space) = st; granules = (na_sweep alloc - na_alloc alloc) div NOFL_GRANULE_SIZE in
     if granules \<noteq> 0 then
       result_bind
         (if collect_holes
          then result_bind (nofl_holeset_push_local (na_holes alloc) (na_alloc alloc) (unat granules) (ns_mem space))
            (\<lambda>(holes, mem). Inr (alloc\<lparr>na_holes := holes\<rparr>, space\<lparr>ns_mem := mem\<rparr>))
          else Inr (alloc, space))
         (\<lambda>(alloc, space).
           let space = update_summary (na_block alloc) (\<lambda>s. s\<lparr>
                 sum_holes_with_fragmentation := sum_holes_with_fragmentation s + 1,
                 sum_fragmentation_granules := sum_fragmentation_granules s + ucast granules\<rparr>) space
           in Inr (alloc\<lparr>na_alloc := na_sweep alloc\<rparr>, space))
     else Inr (alloc, space))"

definition nofl_metadata_byte_has_mark :: "u8 \<Rightarrow> u8 \<Rightarrow> bool" where
  "nofl_metadata_byte_has_mark byte marked \<longleftrightarrow> byte AND NOFL_METADATA_BYTE_MARK_MASK = marked"

definition nofl_metadata_byte_is_young_or_has_mark :: "u8 \<Rightarrow> u8 \<Rightarrow> bool" where
  "nofl_metadata_byte_is_young_or_has_mark byte marked \<longleftrightarrow>
    nofl_metadata_byte_has_mark byte NOFL_METADATA_BYTE_YOUNG \<or> nofl_metadata_byte_has_mark byte marked"

section \<open>Sweeping\<close>

text \<open>The survivors from \<open>sweep\<close> on, of which there are at most \<open>limit\<close> granules.\<close>

definition skip_survivors :: "byte_mem \<Rightarrow> u8 \<Rightarrow> u64 \<times> u64 \<times> u64 \<Rightarrow> (u64 \<times> u64 \<times> u64) result" where
  "skip_survivors mem survivor_mark st =
    while_result
      (\<lambda>(sweep, limit_granules, metadata). limit_granules \<noteq> 0 \<and> nofl_metadata_byte_has_mark (mem metadata) survivor_mark)
      (\<lambda>(sweep, limit_granules, metadata).
        result_bind (nofl_space_live_object_granules mem metadata) (\<lambda>n.
          Inr (sweep + n * NOFL_GRANULE_SIZE, limit_granules - n, metadata + n)))
      st"

definition nofl_allocator_next_hole_in_block ::
    "u8 \<Rightarrow> nofl_allocator \<times> nofl_space \<Rightarrow> (u64 \<times> nofl_allocator \<times> nofl_space) result" where
  "nofl_allocator_next_hole_in_block survivor_mark st =
    (let (alloc, space) = st in
     result_bind (gc_assert (nofl_allocator_has_block alloc)) (\<lambda>_.
     result_bind (gc_assert (na_alloc alloc = na_sweep alloc)) (\<lambda>_.
     let sweep = na_sweep alloc; limit = ref_addr (na_block alloc) + NOFL_BLOCK_SIZE in
     if sweep = limit then Inr (0, alloc, space)
     else
       result_bind (gc_assert (sweep AND (NOFL_GRANULE_SIZE - 1) = 0)) (\<lambda>_.
       let metadata = nofl_metadata_byte_for_addr sweep;
           limit_granules = drop_bit NOFL_GRANULE_SIZE_LOG_2 (limit - sweep) in
       result_bind (skip_survivors (ns_mem space) survivor_mark (sweep, limit_granules, metadata))
         (\<lambda>(sweep, limit_granules, metadata).
           if limit_granules = 0 then
             result_bind (gc_assert (sweep = limit)) (\<lambda>_. Inr (0, alloc\<lparr>na_alloc := limit, na_sweep := limit\<rparr>, space))
           else
             result_bind (scan_for_byte_with_tag (ns_mem space) metadata limit_granules NOFL_METADATA_BYTE_MARK_MASK survivor_mark)
               (\<lambda>hole_granules.
                 let free_bytes = hole_granules * NOFL_GRANULE_SIZE in
                 result_bind (gc_assert (hole_granules \<noteq> 0)) (\<lambda>_.
                 result_bind (gc_assert (hole_granules \<le> limit_granules)) (\<lambda>_.
                 let mem = mem_set (mem_set (ns_mem space) metadata 0 hole_granules) sweep 0 free_bytes;
                     space = update_summary (na_block alloc) (\<lambda>s. s\<lparr>sum_hole_count := sum_hole_count s + 1\<rparr>)
                       (space\<lparr>ns_mem := mem\<rparr>);
                     summary = block_summary space (na_block alloc) in
                 result_bind (gc_assert (hole_granules \<le> NOFL_GRANULES_PER_BLOCK - ucast (sum_hole_granules summary))) (\<lambda>_.
                   Inr (hole_granules, alloc\<lparr>na_alloc := sweep, na_sweep := sweep + free_bytes\<rparr>,
                     update_summary (na_block alloc) (\<lambda>s. s\<lparr>sum_hole_granules := sum_hole_granules s + ucast hole_granules\<rparr>)
                       space)))))))))) "

definition nofl_allocator_finish_sweeping_in_block ::
    "u8 \<Rightarrow> bool \<Rightarrow> nofl_allocator \<times> nofl_space \<Rightarrow> (nofl_allocator \<times> nofl_space) result" where
  "nofl_allocator_finish_sweeping_in_block survivor_mark collect_holes st =
    result_bind
      (while_result (\<lambda>(more, _). more)
        (\<lambda>(_, st).
          result_bind (nofl_allocator_finish_hole collect_holes st) (\<lambda>st.
          result_bind (nofl_allocator_next_hole_in_block survivor_mark st) (\<lambda>(granules, st).
            Inr (granules \<noteq> 0, st))))
        (True, st))
      (\<lambda>(_, st). Inr st)"

definition nofl_allocator_release_block ::
    "gc_config \<Rightarrow> nofl_allocator \<times> nofl_space \<Rightarrow> (nofl_allocator \<times> nofl_space) result" where
  "nofl_allocator_release_block cfg st =
    (let (alloc, space) = st in
     result_bind (gc_assert (nofl_allocator_has_block alloc)) (\<lambda>_.
       if na_alloc alloc < na_sweep alloc \<and> na_sweep alloc = ref_addr (na_block alloc) + NOFL_BLOCK_SIZE
         \<and> sum_holes_with_fragmentation (block_summary space (na_block alloc)) = 0
       then nofl_allocator_release_partly_full_block (alloc, space)
       else if ns_evacuating space then nofl_allocator_release_full_evacuation_target (alloc, space)
       else
         result_bind (nofl_allocator_finish_sweeping_in_block (ns_survivor_mark space) (\<not> ns_evacuating space) (alloc, space))
           (\<lambda>st. nofl_allocator_release_full_block cfg st)))"

definition nofl_allocator_finish ::
    "gc_config \<Rightarrow> nofl_allocator \<times> nofl_space \<Rightarrow> (nofl_allocator \<times> nofl_space) result" where
  "nofl_allocator_finish cfg st =
    result_bind (if nofl_allocator_has_block (fst st) then nofl_allocator_release_block cfg st else Inr st) (\<lambda>(alloc, space).
    result_bind (nofl_holeset_release (na_holes alloc) (ns_holes space) (ns_mem space)) (\<lambda>(holes, remote, mem).
      Inr (alloc\<lparr>na_holes := holes\<rparr>, space\<lparr>ns_holes := remote, ns_mem := mem\<rparr>)))"

definition nofl_allocator_acquire_block_to_sweep ::
    "nofl_allocator \<times> nofl_space \<Rightarrow> (bool \<times> nofl_allocator \<times> nofl_space) result" where
  "nofl_allocator_acquire_block_to_sweep st =
    (let (alloc, space) = st in
     result_bind (nofl_block_list_pop List_to_sweep space) (\<lambda>(block, space).
       if nofl_block_is_null block then Inr (False, alloc, space)
       else Inr (True, alloc\<lparr>na_block := block, na_alloc := ref_addr block, na_sweep := ref_addr block\<rparr>, space)))"

text \<open>A result of \<open>Some g\<close> is a \<open>return g\<close> in a loop.\<close>

definition nofl_allocator_next_hole_in_block_of_size ::
    "gc_config \<Rightarrow> u64 \<Rightarrow> nofl_allocator \<times> nofl_space \<Rightarrow> (u64 \<times> nofl_allocator \<times> nofl_space) result" where
  "nofl_allocator_next_hole_in_block_of_size cfg min_granules st =
    (if \<not> nofl_allocator_has_block (fst st) then Inr (0, st)
     else
       result_bind
         (while_result (\<lambda>(ret, _). ret = None)
           (\<lambda>(_, alloc, space).
             result_bind (nofl_allocator_finish_hole (min_granules \<noteq> 0 \<and> \<not> ns_evacuating space) (alloc, space)) (\<lambda>(alloc, space).
             result_bind (nofl_allocator_next_hole_in_block (ns_survivor_mark space) (alloc, space)) (\<lambda>(granules, st).
               if granules = 0
               then result_bind (nofl_allocator_release_full_block cfg st) (\<lambda>st. Inr (Some 0, st))
               else if min_granules \<le> granules then Inr (Some granules, st)
               else Inr (None, st))))
           (None, st))
         (\<lambda>(ret, st). Inr (case ret of None \<Rightarrow> 0 | Some g \<Rightarrow> g, st)))"

definition nofl_blocks_to_sweep_for_size :: "u64 \<Rightarrow> u64 result" where
  "nofl_blocks_to_sweep_for_size granules =
    (if granules = 0 then Inr (- 1)
     else
       (let max_granules = NOFL_GRANULES_PER_BLOCK in
        result_bind (gc_assert (granules \<le> max_granules)) (\<lambda>_.
          Inr (of_nat (clzll granules) - of_nat (clzll max_granules)))))"

text \<open>The loops of \<open>nofl_allocator_next_hole\<close>: over blocks to sweep, and over blocks that are partly full.\<close>

definition sweep_for_hole ::
    "gc_config \<Rightarrow> u64 \<Rightarrow> u64 \<Rightarrow> nofl_allocator \<times> nofl_space \<Rightarrow> (u64 option \<times> u64 \<times> nofl_allocator \<times> nofl_space) result" where
  "sweep_for_hole cfg blocks_to_sweep min_granules st =
    result_bind
      (while_result (\<lambda>(more, ret, blocks_swept, _). more)
        (\<lambda>(_, _, blocks_swept, st).
          if \<not> blocks_swept < blocks_to_sweep then Inr (False, None, blocks_swept, st)
          else
            result_bind (nofl_allocator_acquire_block_to_sweep st) (\<lambda>(acquired, alloc, space).
              if \<not> acquired then Inr (False, None, blocks_swept, alloc, space)
              else
                (let space = update_summary (na_block alloc) (\<lambda>s. s\<lparr>sum_hole_count := 0, sum_hole_granules := 0,
                       sum_holes_with_fragmentation := 0, sum_fragmentation_granules := 0\<rparr>) space in
                 result_bind (nofl_allocator_next_hole_in_block_of_size cfg min_granules (alloc, space)) (\<lambda>(granules, st).
                   if granules \<noteq> 0 then Inr (False, Some granules, blocks_swept, st)
                   else Inr (True, None, blocks_swept + 1, st)))))
        (True, None, 0, st))
      (\<lambda>(_, ret, blocks_swept, st). Inr (ret, blocks_swept, st))"

definition partly_full_for_hole ::
    "gc_config \<Rightarrow> u64 \<Rightarrow> nofl_allocator \<times> nofl_space \<Rightarrow> (u64 option \<times> nofl_allocator \<times> nofl_space) result" where
  "partly_full_for_hole cfg min_granules st =
    result_bind
      (while_result (\<lambda>(more, _). more)
        (\<lambda>(_, _, st).
          result_bind (nofl_allocator_acquire_partly_full_block st) (\<lambda>(granules, alloc, space).
            if granules = 0 then Inr (False, None, alloc, space)
            else if min_granules \<le> granules then Inr (False, Some granules, alloc, space)
            else
              result_bind (nofl_allocator_finish_hole (\<not> ns_evacuating space) (alloc, space)) (\<lambda>st.
              result_bind (nofl_allocator_release_full_block cfg st) (\<lambda>st. Inr (True, None, st)))))
        (True, None, st))
      (\<lambda>(_, ret, st). Inr (ret, st))"

definition nofl_allocator_next_hole ::
    "gc_config \<Rightarrow> u64 \<Rightarrow> nofl_allocator \<times> nofl_space \<Rightarrow> (u64 \<times> nofl_allocator \<times> nofl_space) result" where
  "nofl_allocator_next_hole cfg min_granules st =
    result_bind (nofl_allocator_next_hole_in_block_of_size cfg min_granules st) (\<lambda>(granules, st).
      if granules \<noteq> 0 then Inr (granules, st)
      else
        result_bind (nofl_blocks_to_sweep_for_size min_granules) (\<lambda>blocks_to_sweep.
        result_bind
          (while_result (\<lambda>(ret, _). ret = None)
            (\<lambda>(_, st).
              result_bind (sweep_for_hole cfg blocks_to_sweep min_granules st) (\<lambda>(ret, blocks_swept, st).
                if ret \<noteq> None then Inr (ret, st)
                else
                  result_bind (partly_full_for_hole cfg min_granules st) (\<lambda>(ret, st).
                    if ret \<noteq> None then Inr (ret, st)
                    else
                      result_bind (nofl_allocator_acquire_empty_block st) (\<lambda>(granules, st).
                        if granules \<noteq> 0 then Inr (Some NOFL_GRANULES_PER_BLOCK, st)
                        else if blocks_swept = 0 then Inr (Some 0, st)
                        else Inr (None, st)))))
            (None, st))
          (\<lambda>(ret, st). Inr (case ret of None \<Rightarrow> 0 | Some g \<Rightarrow> g, st))))"

section \<open>Allocating\<close>

definition nofl_allocate_bump_pointer ::
    "u64 \<Rightarrow> gc_allocation_kind \<Rightarrow> nofl_allocator \<times> nofl_space \<Rightarrow> (gc_ref \<times> nofl_allocator \<times> nofl_space) result" where
  "nofl_allocate_bump_pointer sz kind st =
    (let (alloc, space) = st in
     result_bind (gc_assert (sz \<le> na_sweep alloc - na_alloc alloc)) (\<lambda>_.
     let ret = na_alloc alloc
     in Inr (ret, alloc\<lparr>na_alloc := na_alloc alloc + sz\<rparr>, space\<lparr>ns_mem := gc_update_alloc_table ret sz kind (ns_mem space)\<rparr>)))"

text \<open>\<open>sloppy\<close> is what the first, unlocked load of the shared set of holes returns.\<close>

definition nofl_allocate_second_chance ::
    "u64 \<Rightarrow> u64 \<Rightarrow> nofl_allocator \<times> nofl_space \<Rightarrow> (gc_ref \<times> nofl_allocator \<times> nofl_space) result" where
  "nofl_allocate_second_chance sloppy granules st =
    (let (alloc, space) = st in
     result_bind (nofl_holeset_try_pop (na_holes alloc) (unat granules) (ns_mem space)) (\<lambda>(found, holes, mem).
     let alloc = alloc\<lparr>na_holes := holes\<rparr>; space = space\<lparr>ns_mem := mem\<rparr> in
     if \<not> gc_ref_is_null found then Inr (found, alloc, space)
     else
       result_bind (nofl_holeset_acquire sloppy (na_holes alloc) (ns_holes space) (unat granules) (ns_mem space))
         (\<lambda>(acquired, holes, remote, mem).
           let alloc = alloc\<lparr>na_holes := holes\<rparr>; space = space\<lparr>ns_holes := remote, ns_mem := mem\<rparr> in
           if acquired then
             result_bind (nofl_holeset_try_pop (na_holes alloc) (unat granules) (ns_mem space)) (\<lambda>(found, holes, mem).
               Inr (found, alloc\<lparr>na_holes := holes\<rparr>, space\<lparr>ns_mem := mem\<rparr>))
           else Inr (gc_ref_null, alloc, space))))"

definition nofl_allocate_slow ::
    "gc_config \<Rightarrow> u64 \<Rightarrow> u64 \<Rightarrow> gc_allocation_kind \<Rightarrow> nofl_allocator \<times> nofl_space
      \<Rightarrow> (gc_ref \<times> nofl_allocator \<times> nofl_space) result" where
  "nofl_allocate_slow cfg sloppy sz kind st =
    (let granules = drop_bit NOFL_GRANULE_SIZE_LOG_2 sz in
     result_bind (nofl_allocator_next_hole_in_block_of_size cfg granules st) (\<lambda>(found, st).
       if found \<noteq> 0 then nofl_allocate_bump_pointer sz kind st
       else
         result_bind (nofl_allocate_second_chance sloppy granules st) (\<lambda>(second_chance, alloc, space).
           if \<not> gc_ref_is_null second_chance then
             Inr (second_chance, alloc, space\<lparr>ns_mem := gc_update_alloc_table second_chance sz kind (ns_mem space),
               ns_second_chance_granules := ns_second_chance_granules space + granules\<rparr>)
           else
             result_bind (nofl_allocator_next_hole cfg granules (alloc, space)) (\<lambda>(found, st).
               if found \<noteq> 0 then nofl_allocate_bump_pointer sz kind st
               else Inr (gc_ref_null, st)))))"

definition nofl_allocate ::
    "gc_config \<Rightarrow> u64 \<Rightarrow> u64 \<Rightarrow> gc_allocation_kind \<Rightarrow> nofl_allocator \<times> nofl_space
      \<Rightarrow> (gc_ref \<times> nofl_allocator \<times> nofl_space) result" where
  "nofl_allocate cfg sloppy sz kind st =
    result_bind (gc_assert (sz > 0)) (\<lambda>_.
    result_bind (gc_assert (sz \<le> gc_allocator_large_threshold)) (\<lambda>_.
    let sz = align_up sz NOFL_GRANULE_SIZE in
    if na_alloc (fst st) + sz \<le> na_sweep (fst st) then nofl_allocate_bump_pointer sz kind st
    else nofl_allocate_slow cfg sloppy sz kind st))"

definition nofl_evacuation_allocate ::
    "u64 \<Rightarrow> nofl_allocator \<times> nofl_space \<Rightarrow> (gc_ref \<times> nofl_allocator \<times> nofl_space) result" where
  "nofl_evacuation_allocate granules st =
    result_bind
      (while_result (\<lambda>(failed, avail, _). \<not> failed \<and> avail < granules)
        (\<lambda>(_, _, alloc, space).
          result_bind
            (if nofl_allocator_has_block alloc then nofl_allocator_release_full_evacuation_target (alloc, space)
             else Inr (alloc, space))
            (\<lambda>st. result_bind (nofl_allocator_acquire_evacuation_target st) (\<lambda>(avail, st). Inr (avail = 0, avail, st))))
        (False, drop_bit NOFL_GRANULE_SIZE_LOG_2 (na_sweep (fst st) - na_alloc (fst st)), st))
      (\<lambda>(failed, avail, alloc, space).
        if failed then Inr (gc_ref_null, alloc, space)
        else Inr (na_alloc alloc, alloc\<lparr>na_alloc := na_alloc alloc + granules * NOFL_GRANULE_SIZE\<rparr>, space))"

definition nofl_finish_sweeping ::
    "gc_config \<Rightarrow> nofl_allocator \<times> nofl_space \<Rightarrow> (nofl_allocator \<times> nofl_space) result" where
  "nofl_finish_sweeping cfg st =
    result_bind
      (while_result (\<lambda>(more, _). more)
        (\<lambda>(_, st). result_bind (nofl_allocator_next_hole cfg 0 st) (\<lambda>(granules, st). Inr (granules \<noteq> 0, st)))
        (True, st))
      (\<lambda>(_, st). Inr st)"

end
