(* ===== verification/NoflTrace.thy ===== *)
theory NoflTrace
  imports NoflSweep
begin

text \<open>
  Tracing in the nofl space, the third part of \<open>src/src/nofl-space.h\<close>: marking an object by its
  metadata byte, moving it to an evacuation target, resolving references that may point into an object,
  pinning, and the two bits for each granule that remember its fields. An atomic operation is a step,
  and waiting for another tracer is a loop that does not end when nothing else runs. \<open>valid\<close> is the
  embedder's \<open>gc_is_valid_conservative_ref_displacement\<close>.
\<close>

section \<open>Pinned bits and conservative tracing\<close>

definition clear_pinned_word :: "u64 \<Rightarrow> byte_mem \<Rightarrow> byte_mem result" where
  "clear_pinned_word meta mem =
    (let msk = broadcast_byte NOFL_METADATA_BYTE_PINNED in
     result_bind (load_eight_aligned_bytes mem meta) (\<lambda>vals.
       if vals AND msk \<noteq> 0 then store_eight_aligned_bytes mem meta (vals AND NOT msk) else Inr mem))"

definition nofl_clear_pinned_bits_in_block :: "nofl_block_ref \<Rightarrow> nofl_space \<Rightarrow> nofl_space result" where
  "nofl_clear_pinned_bits_in_block block space =
    (let meta = nofl_metadata_byte_for_addr (ref_addr block) in
     result_bind (result_fold (\<lambda>i. clear_pinned_word (meta + of_nat (8 * i))) [0..<unat NOFL_GRANULES_PER_BLOCK div 8] (ns_mem space))
       (\<lambda>mem. Inr (space\<lparr>ns_mem := mem\<rparr>)))"

text \<open>A walk over a list that does something to each of its blocks.\<close>

definition walk_blocks :: "(nofl_block_ref \<Rightarrow> nofl_space \<Rightarrow> nofl_space result) \<Rightarrow> nofl_block_ref \<Rightarrow> nofl_space \<Rightarrow> nofl_space result" where
  "walk_blocks f head space =
    result_bind
      (while_result (\<lambda>(walk, _). \<not> nofl_block_is_null walk)
        (\<lambda>(walk, space).
          result_bind (f walk space) (\<lambda>space.
          result_bind (nofl_block_next space walk) (\<lambda>nxt. Inr (nxt, space))))
        (head, space))
      (\<lambda>(_, space). Inr space)"

definition nofl_space_clear_all_pinned_bits :: "nofl_space \<Rightarrow> nofl_space result" where
  "nofl_space_clear_all_pinned_bits space =
    result_fold (\<lambda>name space. walk_blocks nofl_clear_pinned_bits_in_block (nofl_block_head space name) space)
      [List_to_sweep, List_partly_full, List_full, List_promoted, List_old] space"

definition nofl_space_set_heap_has_ambiguous_edges :: "nofl_space \<Rightarrow> nofl_space result" where
  "nofl_space_set_heap_has_ambiguous_edges space =
    (if \<not> ns_heap_has_ambiguous_edges space then
       (let space = space\<lparr>ns_heap_has_ambiguous_edges := True\<rparr> in
        result_bind (nofl_space_clear_all_pinned_bits space) (\<lambda>space.
          Inr (space\<lparr>ns_evacuation_minimum_reserve := 0, ns_evacuation_reserve := 0\<rparr>)))
     else Inr space)"

section \<open>Membership and remembered fields\<close>

definition nofl_space_contains_address :: "nofl_space \<Rightarrow> u64 \<Rightarrow> bool result" where
  "nofl_space_contains_address space addr =
    result_bind (extents_contain_addr (ns_extents space) addr) (\<lambda>a. Inr (a \<noteq> 0))"

definition nofl_space_contains_conservative_ref :: "nofl_space \<Rightarrow> u64 \<Rightarrow> bool result" where
  "nofl_space_contains_conservative_ref space ref = nofl_space_contains_address space ref"

definition nofl_space_contains :: "nofl_space \<Rightarrow> gc_ref \<Rightarrow> bool result" where
  "nofl_space_contains space ref = nofl_space_contains_address space ref"

definition nofl_space_contains_edge :: "nofl_space \<Rightarrow> u64 \<Rightarrow> bool result" where
  "nofl_space_contains_edge space edge = nofl_space_contains_address space edge"

definition nofl_space_is_survivor :: "nofl_space \<Rightarrow> gc_ref \<Rightarrow> bool result" where
  "nofl_space_is_survivor space ref =
    result_bind (nofl_metadata_byte_for_object space ref) (\<lambda>metadata.
      Inr (nofl_metadata_byte_has_mark (ns_mem space metadata) (ns_survivor_mark space)))"

definition nofl_field_logged_byte :: "u64 \<Rightarrow> u64" where
  "nofl_field_logged_byte edge = nofl_metadata_byte_for_addr edge"

definition nofl_field_logged_bit :: "u64 \<Rightarrow> u8" where
  "nofl_field_logged_bit edge = (let field = edge div 8 in push_bit (unat (field mod 2)) NOFL_METADATA_BYTE_LOGGED_0)"

definition nofl_space_remember_edge :: "gc_config \<Rightarrow> gc_ref \<Rightarrow> u64 \<Rightarrow> nofl_space \<Rightarrow> (bool \<times> nofl_space) result" where
  "nofl_space_remember_edge cfg obj edge space =
    result_bind (nofl_space_contains space obj) (\<lambda>inside.
    result_bind (gc_assert inside) (\<lambda>_.
      if \<not> gc_generational cfg then Inr (False, space)
      else
        result_bind (nofl_space_is_survivor space obj) (\<lambda>survivor.
          if \<not> survivor then Inr (False, space)
          else
            (let loc = nofl_field_logged_byte edge; b = nofl_field_logged_bit edge; byte = ns_mem space loc in
             if byte AND b \<noteq> 0 then Inr (False, space)
             else Inr (True, space\<lparr>ns_mem := (ns_mem space)(loc := byte OR b)\<rparr>)))))"

definition nofl_space_forget_edge :: "bool \<Rightarrow> gc_config \<Rightarrow> u64 \<Rightarrow> nofl_space \<Rightarrow> nofl_space result" where
  "nofl_space_forget_edge debug cfg edge space =
    result_bind (nofl_space_contains_edge space edge) (\<lambda>inside.
    result_bind (gc_assert inside) (\<lambda>_.
    result_bind (gc_assert (gc_generational cfg)) (\<lambda>_.
    let loc = nofl_field_logged_byte edge in
    if debug then
      (let b = nofl_field_logged_bit edge in
       result_bind (gc_assert (ns_mem space loc AND b \<noteq> 0)) (\<lambda>_.
         Inr (space\<lparr>ns_mem := (ns_mem space)(loc := ns_mem space loc AND NOT b)\<rparr>)))
    else
      (let byte = ns_mem space loc AND NOT (NOFL_METADATA_BYTE_LOGGED_0 OR NOFL_METADATA_BYTE_LOGGED_1)
       in Inr (space\<lparr>ns_mem := (ns_mem space)(loc := byte)\<rparr>)))))"

section \<open>Marking\<close>

definition nofl_metadata_byte_trace_kind :: "nofl_space \<Rightarrow> u8 \<Rightarrow> gc_trace_kind result" where
  "nofl_metadata_byte_trace_kind space byte =
    (let msk = NOFL_METADATA_BYTE_TRACE_KIND_MASK;
         msk = (if \<not> ns_heap_has_ambiguous_edges space then msk AND NOT NOFL_METADATA_BYTE_TRACE_CONSERVATIVELY else msk)
     in if byte AND msk = NOFL_METADATA_BYTE_TRACE_PRECISELY then Inr Trace_precisely
        else if byte AND msk = NOFL_METADATA_BYTE_TRACE_CONSERVATIVELY then Inr Trace_conservatively
        else if byte AND msk = NOFL_METADATA_BYTE_TRACE_NONE then Inr Trace_none
        else
          result_bind (gc_assert (byte AND msk = NOFL_METADATA_BYTE_TRACE_NONE OR NOFL_METADATA_BYTE_PINNED)) (\<lambda>_.
            Inr Trace_none))"

definition nofl_space_should_evacuate :: "nofl_space \<Rightarrow> u8 \<Rightarrow> gc_ref \<Rightarrow> bool result" where
  "nofl_space_should_evacuate space metadata_byte obj =
    (if ns_heap_has_ambiguous_edges space then Inr False
     else if \<not> ns_evacuating space then Inr False
     else if metadata_byte AND NOFL_METADATA_BYTE_PINNED \<noteq> 0 then Inr False
     else nofl_block_has_flag space (nofl_block_for_addr obj) NOFL_BLOCK_EVACUATE)"

definition nofl_space_set_mark :: "u64 \<Rightarrow> u8 \<Rightarrow> nofl_space \<Rightarrow> bool \<times> nofl_space" where
  "nofl_space_set_mark metadata byte space =
    (let msk = NOFL_METADATA_BYTE_MARK_MASK;
         byte = (byte AND NOT msk) OR ns_current_mark space;
         prev = ns_mem space metadata
     in (byte \<noteq> prev, space\<lparr>ns_mem := (ns_mem space)(metadata := byte)\<rparr>))"

definition nofl_space_set_nonempty_mark :: "u64 \<Rightarrow> u8 \<Rightarrow> gc_ref \<Rightarrow> nofl_space \<Rightarrow> (bool \<times> nofl_space) result" where
  "nofl_space_set_nonempty_mark metadata byte ref space =
    (let (changed, space) = nofl_space_set_mark metadata byte space in
     if changed then
       result_bind (gc_assert (nofl_metadata_byte_is_young_or_has_mark byte (ns_survivor_mark space))) (\<lambda>_.
         Inr (True, nofl_block_set_mark ref space))
     else Inr (False, space))"

definition nofl_space_pin_object :: "gc_ref \<Rightarrow> nofl_space \<Rightarrow> nofl_space result" where
  "nofl_space_pin_object ref space =
    (if ns_heap_has_ambiguous_edges space then Inr space
     else
       result_bind (nofl_metadata_byte_for_object space ref) (\<lambda>metadata.
       let byte = ns_mem space metadata in
       if byte AND NOFL_METADATA_BYTE_PINNED \<noteq> 0 then Inr space
       else Inr (space\<lparr>ns_mem := (ns_mem space)(metadata := byte OR NOFL_METADATA_BYTE_PINNED)\<rparr>)))"

definition clear_logged_bits_in_evacuated_object :: "u8 \<Rightarrow> u64 \<Rightarrow> nat \<Rightarrow> byte_mem \<Rightarrow> u8 \<times> byte_mem" where
  "clear_logged_bits_in_evacuated_object head metadata n mem =
    (let msk = NOFL_METADATA_BYTE_LOGGED_0 OR NOFL_METADATA_BYTE_LOGGED_1;
         mem = fold (\<lambda>i mem. if mem (metadata + of_nat i) AND msk \<noteq> 0
           then mem(metadata + of_nat i := mem (metadata + of_nat i) AND NOT msk) else mem) [1..<n] mem
     in (head AND NOT msk, mem))"

definition nofl_store_forwarding_pointer :: "gc_ref \<Rightarrow> gc_ref \<Rightarrow> byte_mem \<Rightarrow> byte_mem" where
  "nofl_store_forwarding_pointer old_ref new_ref mem = store_word mem old_ref new_ref"

definition nofl_load_forwarding_pointer :: "byte_mem \<Rightarrow> gc_ref \<Rightarrow> gc_ref" where
  "nofl_load_forwarding_pointer mem old_ref = load_word mem old_ref"

text \<open>The loads that a tracer repeats while another one has the object.\<close>

definition wait_while_busy :: "byte_mem \<Rightarrow> u64 \<Rightarrow> u8 \<Rightarrow> u8 \<Rightarrow> u8 result" where
  "wait_while_busy mem metadata busy_byte byte = while_loop (\<lambda>byte. byte = busy_byte) (\<lambda>_. mem metadata) byte"

definition nofl_space_evacuate ::
    "gc_config \<Rightarrow> u64 \<Rightarrow> u8 \<Rightarrow> u64 \<Rightarrow> gc_ref \<Rightarrow> nofl_allocator \<times> nofl_space \<Rightarrow> (bool \<times> nofl_allocator \<times> nofl_space) result" where
  "nofl_space_evacuate cfg metadata byte edge old_ref st =
    (let (evacuate, space) = st;
         mark = byte AND NOFL_METADATA_BYTE_MARK_MASK;
         busy_byte = (byte - mark) OR NOFL_METADATA_BYTE_BUSY;
         forwarded_byte = (byte - mark) OR NOFL_METADATA_BYTE_FORWARDED;
         marked_byte = (byte - mark) OR ns_current_mark space;
         claimable = nofl_metadata_byte_is_young_or_has_mark byte (ns_survivor_mark space);
         claimed = claimable \<and> ns_mem space metadata = byte;
         byte = (if claimable then ns_mem space metadata else byte) in
     if claimed then
       (let space = space\<lparr>ns_mem := (ns_mem space)(metadata := busy_byte)\<rparr> in
        result_bind (nofl_space_live_object_granules (ns_mem space) metadata) (\<lambda>object_granules.
        result_bind (nofl_evacuation_allocate object_granules (evacuate, space)) (\<lambda>(new_ref, evacuate, space).
          if gc_ref_is_null new_ref then
            Inr (True, evacuate, nofl_block_set_mark old_ref (space\<lparr>ns_mem := (ns_mem space)(metadata := marked_byte)\<rparr>))
          else
            (let mem = mem_copy (ns_mem space) new_ref old_ref (object_granules * NOFL_GRANULE_SIZE);
                 mem = nofl_store_forwarding_pointer old_ref new_ref mem;
                 mem = mem(metadata := forwarded_byte);
                 new_metadata = nofl_metadata_byte_for_addr new_ref;
                 mem = mem_copy mem (new_metadata + 1) (metadata + 1) (object_granules - 1);
                 byte = marked_byte;
                 (byte, mem) = (if gc_generational cfg
                   then clear_logged_bits_in_evacuated_object byte new_metadata (unat object_granules) mem else (byte, mem));
                 mem = mem(new_metadata := byte);
                 space = nofl_block_set_mark new_ref (space\<lparr>ns_mem := mem\<rparr>)
             in Inr (True, evacuate, space\<lparr>ns_mem := store_word (ns_mem space) edge new_ref\<rparr>)))))
     else
       result_bind (wait_while_busy (ns_mem space) metadata busy_byte byte) (\<lambda>byte.
         if byte = forwarded_byte
         then Inr (False, evacuate, space\<lparr>ns_mem := store_word (ns_mem space) edge (nofl_load_forwarding_pointer (ns_mem space) old_ref)\<rparr>)
         else Inr (False, evacuate, space)))"

definition nofl_space_evacuate_or_mark_object ::
    "gc_config \<Rightarrow> u64 \<Rightarrow> gc_ref \<Rightarrow> nofl_allocator \<times> nofl_space \<Rightarrow> (bool \<times> nofl_allocator \<times> nofl_space) result" where
  "nofl_space_evacuate_or_mark_object cfg edge old_ref st =
    (let (evacuate, space) = st in
     result_bind (nofl_metadata_byte_for_object space old_ref) (\<lambda>metadata.
     let byte = ns_mem space metadata in
     if nofl_metadata_byte_has_mark byte (ns_current_mark space) then Inr (False, st)
     else
       result_bind (nofl_space_should_evacuate space byte old_ref) (\<lambda>should.
         if should then nofl_space_evacuate cfg metadata byte edge old_ref st
         else result_bind (nofl_space_set_nonempty_mark metadata byte old_ref space) (\<lambda>(new, space). Inr (new, evacuate, space)))))"

definition nofl_space_mark_object :: "gc_ref \<Rightarrow> nofl_space \<Rightarrow> (bool \<times> nofl_space) result" where
  "nofl_space_mark_object ref space =
    result_bind (nofl_metadata_byte_for_object space ref) (\<lambda>metadata.
    let byte = ns_mem space metadata in
    if nofl_metadata_byte_has_mark byte (ns_current_mark space) then Inr (False, space)
    else
      result_bind (nofl_space_should_evacuate space byte ref) (\<lambda>should.
      result_bind (gc_assert (\<not> should)) (\<lambda>_.
        nofl_space_set_nonempty_mark metadata byte ref space)))"

definition nofl_space_forward_or_mark_if_traced :: "u64 \<Rightarrow> gc_ref \<Rightarrow> nofl_space \<Rightarrow> (bool \<times> nofl_space) result" where
  "nofl_space_forward_or_mark_if_traced edge ref space =
    result_bind (nofl_metadata_byte_for_object space ref) (\<lambda>metadata.
    let byte = ns_mem space metadata;
        mark = byte AND NOFL_METADATA_BYTE_MARK_MASK;
        busy_byte = (byte - mark) OR NOFL_METADATA_BYTE_BUSY;
        forwarded_byte = (byte - mark) OR NOFL_METADATA_BYTE_FORWARDED in
    result_bind (wait_while_busy (ns_mem space) metadata busy_byte byte) (\<lambda>byte.
      if byte = forwarded_byte then
        Inr (True, space\<lparr>ns_mem := store_word (ns_mem space) edge (nofl_load_forwarding_pointer (ns_mem space) ref)\<rparr>)
      else Inr (nofl_metadata_byte_has_mark byte (ns_current_mark space), space)))"

section \<open>Conservative references\<close>

record nofl_resolved_conservative_ref =
  rc_addr :: u64
  rc_metadata :: u64
  rc_byte :: u8

definition nofl_not_an_object :: nofl_resolved_conservative_ref where
  "nofl_not_an_object = \<lparr> rc_addr = 0, rc_metadata = 0, rc_byte = 0 \<rparr>"

definition nofl_space_resolve_conservative_ref_with_metadata ::
    "(u64 \<Rightarrow> bool) \<Rightarrow> nofl_space \<Rightarrow> u64 \<Rightarrow> bool \<Rightarrow> nofl_resolved_conservative_ref result" where
  "nofl_space_resolve_conservative_ref_with_metadata valid space ref possibly_interior =
    (let displacement = ref AND (NOFL_GRANULE_SIZE - 1);
         addr = (if possibly_interior then align_down ref NOFL_GRANULE_SIZE else ref - displacement) in
     if \<not> possibly_interior \<and> \<not> valid displacement then Inr nofl_not_an_object
     else if addr AND (NOFL_SLAB_SIZE - 1) < NOFL_META_BLOCKS_PER_SLAB * NOFL_BLOCK_SIZE then Inr nofl_not_an_object
     else
       result_bind (nofl_block_has_flag space (nofl_block_for_addr addr) NOFL_BLOCK_UNAVAILABLE) (\<lambda>unavailable.
         if unavailable then Inr nofl_not_an_object
         else
           (let loc = nofl_metadata_byte_for_addr addr; byte = ns_mem space loc in
            if byte AND NOFL_METADATA_BYTE_MARK_MASK = 0 then
              if \<not> possibly_interior then Inr nofl_not_an_object
              else
                (let block_base = align_down addr NOFL_BLOCK_SIZE;
                     loc_base = nofl_metadata_byte_for_addr block_base;
                     msk = NOFL_METADATA_BYTE_MARK_MASK OR NOFL_METADATA_BYTE_END in
                 result_bind (scan_backwards_for_byte_with_bits (ns_mem space) loc loc_base msk) (\<lambda>loc.
                   if loc = 0 then Inr nofl_not_an_object
                   else
                     (let byte = ns_mem space loc in
                      result_bind (gc_assert (byte AND msk \<noteq> 0)) (\<lambda>_.
                        if byte AND NOFL_METADATA_BYTE_END \<noteq> 0 then Inr nofl_not_an_object
                        else Inr \<lparr> rc_addr = block_base + (loc - loc_base) * NOFL_GRANULE_SIZE, rc_metadata = loc, rc_byte = byte \<rparr>))))
            else Inr \<lparr> rc_addr = addr, rc_metadata = loc, rc_byte = byte \<rparr>)))"

definition nofl_space_resolve_conservative_ref :: "(u64 \<Rightarrow> bool) \<Rightarrow> nofl_space \<Rightarrow> u64 \<Rightarrow> bool \<Rightarrow> gc_ref result" where
  "nofl_space_resolve_conservative_ref valid space ref possibly_interior =
    result_bind (nofl_space_resolve_conservative_ref_with_metadata valid space ref possibly_interior) (\<lambda>r. Inr (rc_addr r))"

definition nofl_space_mark_conservative_ref :: "(u64 \<Rightarrow> bool) \<Rightarrow> u64 \<Rightarrow> bool \<Rightarrow> nofl_space \<Rightarrow> (gc_ref \<times> nofl_space) result" where
  "nofl_space_mark_conservative_ref valid ref possibly_interior space =
    result_bind (nofl_space_resolve_conservative_ref_with_metadata valid space ref possibly_interior) (\<lambda>r.
      if rc_addr r = 0 then Inr (gc_ref_null, space)
      else if nofl_metadata_byte_has_mark (rc_byte r) (ns_current_mark space) then Inr (gc_ref_null, space)
      else
        result_bind (gc_assert (nofl_metadata_byte_is_young_or_has_mark (rc_byte r) (ns_survivor_mark space))) (\<lambda>_.
        result_bind (nofl_space_set_nonempty_mark (rc_metadata r) (rc_byte r) (rc_addr r) space) (\<lambda>(new, space).
          Inr (if new then rc_addr r else gc_ref_null, space))))"

definition nofl_space_object_size :: "nofl_space \<Rightarrow> gc_ref \<Rightarrow> u64 result" where
  "nofl_space_object_size space ref =
    result_bind (nofl_metadata_byte_for_object space ref) (\<lambda>loc.
    result_bind (nofl_space_live_object_granules (ns_mem space) loc) (\<lambda>granules. Inr (granules * NOFL_GRANULE_SIZE)))"

definition nofl_space_object_trace_plan :: "nofl_space \<Rightarrow> gc_ref \<Rightarrow> gc_trace_plan result" where
  "nofl_space_object_trace_plan space ref =
    result_bind (nofl_metadata_byte_for_object space ref) (\<lambda>loc.
    result_bind (nofl_metadata_byte_trace_kind space (ns_mem space loc)) (\<lambda>kind.
      if kind = Trace_conservatively then
        result_bind (nofl_space_live_object_granules (ns_mem space) loc) (\<lambda>granules.
          Inr \<lparr> plan_kind = kind, plan_size = granules * NOFL_GRANULE_SIZE \<rparr>)
      else Inr \<lparr> plan_kind = kind, plan_size = 0 \<rparr>))"

end
