(* ===== verification/BackgroundThread.thy ===== *)
theory BackgroundThread
  imports Prelude
begin

text \<open>
  The background thread of \<open>src/background-thread.h\<close>: a table of periodic tasks in the order of
  their priority, which the thread runs once a second while its state is \<open>RUNNING\<close>. Every operation
  holds the lock, so each is one step. A task's function and its argument are \<open>'r\<close> and \<open>'d\<close>; running
  one is the parameter \<open>exec\<close>.
\<close>

section \<open>The table of tasks\<close>

definition GC_BACKGROUND_TASK_START :: int where "GC_BACKGROUND_TASK_START = 0"
definition GC_BACKGROUND_TASK_MIDDLE :: int where "GC_BACKGROUND_TASK_MIDDLE = 100"
definition GC_BACKGROUND_TASK_END :: int where "GC_BACKGROUND_TASK_END = 200"

record ('r, 'd) gc_background_task =
  task_id :: int
  task_priority :: int
  task_run :: 'r
  task_data :: 'd

datatype gc_background_thread_state = Starting | Running | Stopping

record ('r, 'd) gc_background_thread =
  bt_count :: nat
  bt_capacity :: nat
  bt_tasks :: "('r, 'd) gc_background_task list"
  bt_next_id :: int
  bt_state :: gc_background_thread_state

definition gc_make_background_thread :: "('r, 'd) gc_background_thread" where
  "gc_make_background_thread =
    \<lparr> bt_count = 0, bt_capacity = 0, bt_tasks = [], bt_next_id = 0, bt_state = Starting \<rparr>"

definition gc_background_thread_start ::
    "('r, 'd) gc_background_thread \<Rightarrow> ('r, 'd) gc_background_thread result" where
  "gc_background_thread_start t =
    result_bind (gc_assert (bt_state t = Starting)) (\<lambda>_. Inr (t\<lparr>bt_state := Running\<rparr>))"

text \<open>The new slots of a reallocated table hold what \<open>realloc\<close> left there, the argument \<open>junk\<close>.\<close>

definition gc_background_thread_reserve ::
    "('r, 'd) gc_background_task \<Rightarrow> ('r, 'd) gc_background_thread \<Rightarrow> ('r, 'd) gc_background_thread" where
  "gc_background_thread_reserve junk t =
    (if bt_count t = bt_capacity t
     then let c = bt_capacity t * 2 + 1
          in t\<lparr>bt_capacity := c, bt_tasks := bt_tasks t @ replicate (c - bt_capacity t) junk\<rparr>
     else t)"

definition gc_background_thread_add_task ::
    "('r, 'd) gc_background_task \<Rightarrow> ('r, 'd) gc_background_thread \<Rightarrow> int \<Rightarrow> 'r \<Rightarrow> 'd
      \<Rightarrow> int \<times> ('r, 'd) gc_background_thread" where
  "gc_background_thread_add_task junk thread priority run data =
    (let t = gc_background_thread_reserve junk thread;
         ins = break_index (\<lambda>i. priority < task_priority (bt_tasks t ! i)) 0 (bt_count t);
         tasks = list_copy (bt_tasks t) (ins + 1) (bt_tasks t) ins (bt_count t - ins);
         tid = bt_next_id t
     in (tid, t\<lparr>bt_next_id := tid + 1, bt_count := bt_count t + 1,
               bt_tasks := tasks[ins := \<lparr> task_id = tid, task_priority = priority,
                                          task_run = run, task_data = data \<rparr>]\<rparr>))"

definition gc_background_thread_remove_task ::
    "('r, 'd) gc_background_thread \<Rightarrow> int \<Rightarrow> ('r, 'd) gc_background_thread result" where
  "gc_background_thread_remove_task t tid =
    (let k = break_index (\<lambda>i. task_id (bt_tasks t ! i) = tid) 0 (bt_count t)
     in if k = bt_count t then Inl Crash
        else Inr (t\<lparr>bt_tasks := list_copy (bt_tasks t) k (bt_tasks t) (k + 1) (bt_count t - (k + 1))\<rparr>))"

definition gc_destroy_background_thread ::
    "('r, 'd) gc_background_thread \<Rightarrow> ('r, 'd) gc_background_thread result" where
  "gc_destroy_background_thread t =
    result_bind (gc_assert (bt_state t = Running)) (\<lambda>_. Inr (t\<lparr>bt_state := Stopping\<rparr>))"

text \<open>One turn of the loop of \<open>gc_background_thread\<close>, woken after the timed wait.\<close>

definition gc_background_thread_tick ::
    "('r \<Rightarrow> 'd \<Rightarrow> 's \<Rightarrow> 's) \<Rightarrow> ('r, 'd) gc_background_thread \<Rightarrow> 's \<Rightarrow> 's" where
  "gc_background_thread_tick exec t s =
    (if bt_state t = Running
     then fold (\<lambda>i. exec (task_run (bt_tasks t ! i)) (task_data (bt_tasks t ! i))) [0..<bt_count t] s
     else s)"

section \<open>What the table holds\<close>

definition bt_wf :: "('r, 'd) gc_background_thread \<Rightarrow> bool" where
  "bt_wf t \<longleftrightarrow> length (bt_tasks t) = bt_capacity t \<and> bt_count t \<le> bt_capacity t"

definition bt_active :: "('r, 'd) gc_background_thread \<Rightarrow> ('r, 'd) gc_background_task list" where
  "bt_active t = take (bt_count t) (bt_tasks t)"

lemma length_bt_active: "bt_wf t \<Longrightarrow> length (bt_active t) = bt_count t"
  by (simp add: bt_wf_def bt_active_def)

lemma reserve_wf:
  assumes "bt_wf t" and "u = gc_background_thread_reserve junk t"
  shows "bt_wf u" "bt_active u = bt_active t" "bt_count u < bt_capacity u"
    "bt_count u = bt_count t" "bt_next_id u = bt_next_id t" "bt_state u = bt_state t"
  using assms by (auto simp: gc_background_thread_reserve_def bt_wf_def bt_active_def Let_def)

lemma break_index_active:
  assumes "bt_wf t"
  shows "break_index (\<lambda>i. Q (bt_tasks t ! i)) 0 (bt_count t)
    = length (takeWhile (\<lambda>x. \<not> Q x) (bt_active t))"
  using break_index_list[of 0 "bt_active t" "\<lambda>i. Q (bt_tasks t ! i)" Q] length_bt_active[OF assms]
  by (simp add: bt_active_def)

text \<open>Moving the tail of a prefix one slot up, or down, within the array.\<close>

lemma list_copy_up:
  assumes "k \<le> n" "n < length xs"
  shows "take (n + 1) ((list_copy xs (k + 1) xs k (n - k))[k := x]) = take k xs @ x # drop k (take n xs)"
  using assms
  by (intro nth_equalityI) (auto simp: list_copy_def nth_append nth_Cons' nth_list_update not_less)

lemma list_copy_down:
  assumes "k < n" "n \<le> length xs"
  shows "take n (list_copy xs k xs (k + 1) (n - (k + 1)))
    = take k xs @ drop (k + 1) (take n xs) @ [xs ! (n - 1)]"
  using assms
  by (intro nth_equalityI) (auto simp: list_copy_def nth_append nth_Cons' not_less)

lemma add_task_active:
  assumes "bt_wf t" "gc_background_thread_add_task junk t p r d = (i, u)"
  defines "new \<equiv> \<lparr> task_id = bt_next_id t, task_priority = p, task_run = r, task_data = d \<rparr>"
  shows "bt_active u = takeWhile (\<lambda>x. \<not> p < task_priority x) (bt_active t) @ new
      # dropWhile (\<lambda>x. \<not> p < task_priority x) (bt_active t)"
    and "bt_wf u" "i = bt_next_id t" "bt_next_id u = i + 1" "bt_state u = bt_state t"
proof -
  define v where "v = gc_background_thread_reserve junk t"
  note v = reserve_wf[OF assms(1) v_def]
  define k where "k = length (takeWhile (\<lambda>x. \<not> p < task_priority x) (bt_active t))"
  have k: "break_index (\<lambda>i. p < task_priority (bt_tasks v ! i)) 0 (bt_count v) = k"
    using break_index_active[OF v(1), of "\<lambda>x. p < task_priority x"] v(2) k_def by simp
  have kn: "k \<le> bt_count v"
    unfolding k_def v(2)[symmetric] using length_takeWhile_le length_bt_active[OF v(1)] by metis
  have len: "length (bt_tasks v) = bt_capacity v" using v(1) by (simp add: bt_wf_def)
  have split: "take k (bt_active t) = takeWhile (\<lambda>x. \<not> p < task_priority x) (bt_active t)"
    "drop k (bt_active t) = dropWhile (\<lambda>x. \<not> p < task_priority x) (bt_active t)"
    by (simp_all add: k_def takeWhile_eq_take[symmetric] dropWhile_eq_drop[symmetric])
  have act: "take (bt_count v) (bt_tasks v) = bt_active t" using v(2) by (simp add: bt_active_def)
  then have "take k (bt_tasks v) = take k (bt_active t)" using kn by (metis min_absorb1 take_take)
  note act = act this
  note eq = assms(2)[unfolded gc_background_thread_add_task_def Let_def v_def[symmetric] k]
  show "bt_active u = takeWhile (\<lambda>x. \<not> p < task_priority x) (bt_active t) @ new
      # dropWhile (\<lambda>x. \<not> p < task_priority x) (bt_active t)"
    using eq list_copy_up[OF kn, of "bt_tasks v" new] v(3) len act split v(5) assms(3)
    by (auto simp: bt_active_def)
  show "bt_wf u" "i = bt_next_id t" "bt_next_id u = i + 1" "bt_state u = bt_state t"
    using eq v len kn by (auto simp: bt_wf_def)
qed

lemma remove_task_active:
  assumes "bt_wf t" "bt_active t = xs @ y # zs" "\<forall>x \<in> set xs. task_id x \<noteq> task_id y"
  obtains u where "gc_background_thread_remove_task t (task_id y) = Inr u"
    "bt_active u = xs @ zs @ [last (y # zs)]"
    "bt_wf u" "bt_next_id u = bt_next_id t" "bt_state u = bt_state t"
proof -
  have "takeWhile (\<lambda>x. task_id x \<noteq> task_id y) (bt_active t) = xs"
    using assms(2,3) by (simp add: takeWhile_append2)
  then have k: "break_index (\<lambda>i. task_id (bt_tasks t ! i) = task_id y) 0 (bt_count t) = length xs"
    using break_index_active[OF assms(1), of "\<lambda>x. task_id x = task_id y"] by simp
  have n: "bt_count t = length xs + 1 + length zs" using length_bt_active[OF assms(1)] assms(2) by simp
  have le: "bt_count t \<le> length (bt_tasks t)" "length xs < bt_count t" using assms(1) n by (auto simp: bt_wf_def)
  have last: "bt_tasks t ! (bt_count t - 1) = last (y # zs)"
  proof -
    have "bt_tasks t ! (bt_count t - 1) = bt_active t ! (bt_count t - 1)" using n by (simp add: bt_active_def)
    also have "\<dots> = last (bt_active t)" using n assms(2) by (simp add: last_conv_nth)
    finally show ?thesis using assms(2) by simp
  qed
  have act: "take (bt_count t) (bt_tasks t) = xs @ y # zs" using assms(2) by (simp add: bt_active_def)
  have "take (length xs) (take (bt_count t) (bt_tasks t)) = take (length xs) (bt_tasks t)"
    using n by (simp add: min_absorb1)
  then have "take (length xs) (bt_tasks t) = xs" by (simp add: act)
  then have "take (bt_count t) (list_copy (bt_tasks t) (length xs) (bt_tasks t) (length xs + 1)
      (bt_count t - (length xs + 1))) = xs @ zs @ [last (y # zs)]"
    using list_copy_down[OF le(2,1)] last act by simp
  moreover have "length (list_copy (bt_tasks t) (length xs) (bt_tasks t) (length xs + 1)
      (bt_count t - (length xs + 1))) = length (bt_tasks t)"
    using le n by (intro length_list_copy) auto
  ultimately show thesis
    using that[of "t\<lparr>bt_tasks := list_copy (bt_tasks t) (length xs) (bt_tasks t) (length xs + 1)
      (bt_count t - (length xs + 1))\<rparr>"] assms(1) k n
    by (simp add: gc_background_thread_remove_task_def Let_def bt_active_def bt_wf_def)
qed

lemma tick_active:
  assumes "bt_wf t"
  shows "gc_background_thread_tick exec t s =
    (if bt_state t = Running then fold (\<lambda>x. exec (task_run x) (task_data x)) (bt_active t) s else s)"
  using fold_nth[of "bt_count t" "bt_tasks t" "\<lambda>x. exec (task_run x) (task_data x)" s] assms
  by (simp add: gc_background_thread_tick_def bt_wf_def bt_active_def)

section \<open>The life of the thread\<close>

datatype ('r, 'd) bg_event = Bg_start | Bg_add int 'r 'd | Bg_remove int | Bg_destroy

inductive bg_step :: "('r, 'd) gc_background_thread \<Rightarrow> ('r, 'd) bg_event \<Rightarrow> ('r, 'd) gc_background_thread \<Rightarrow> bool"
where
  start: "gc_background_thread_start t = Inr u \<Longrightarrow> bg_step t Bg_start u"
| add: "gc_background_thread_add_task junk t p r d = (i, u) \<Longrightarrow> bg_step t (Bg_add p r d) u"
| remove: "gc_background_thread_remove_task t i = Inr u \<Longrightarrow> bg_step t (Bg_remove i) u"
| destroy: "gc_destroy_background_thread t = Inr u \<Longrightarrow> bg_step t Bg_destroy u"

inductive_cases bg_startE: "bg_step t Bg_start u"
inductive_cases bg_destroyE: "bg_step t Bg_destroy u"
inductive_simps bg_remove_simps: "bg_step t (Bg_remove i) u"

inductive bg_reach :: "('r, 'd) gc_background_thread \<Rightarrow> bool" where
  made: "bg_reach gc_make_background_thread"
| step: "bg_reach t \<Longrightarrow> bg_step t e u \<Longrightarrow> bg_reach u"

definition by_priority :: "('r, 'd) gc_background_task list \<Rightarrow> bool" where
  "by_priority ts = sorted (map task_priority ts)"

lemma by_priority_insert:
  assumes "by_priority ts"
  shows "by_priority (takeWhile (\<lambda>x. \<not> task_priority y < task_priority x) ts @ y
    # dropWhile (\<lambda>x. \<not> task_priority y < task_priority x) ts)"
  using assms
proof (induction ts)
  case (Cons a ts)
  show ?case
  proof (cases "task_priority y < task_priority a")
    case False
    then show ?thesis using Cons by (auto simp: by_priority_def dest: set_takeWhileD set_dropWhileD)
  qed (use Cons.prems in \<open>auto simp: by_priority_def\<close>)
qed (simp add: by_priority_def)

lemma by_priority_remove:
  "by_priority (xs @ y # zs) \<Longrightarrow> by_priority (xs @ zs @ [last (y # zs)])"
  by (cases zs rule: rev_cases) (auto simp: by_priority_def sorted_append)

definition bt_inv :: "('r, 'd) gc_background_thread \<Rightarrow> bool" where
  "bt_inv t \<longleftrightarrow> bt_wf t \<and> by_priority (bt_active t) \<and> (\<forall>x \<in> set (bt_active t). task_id x < bt_next_id t)"

lemma add_task_inv:
  assumes "bt_inv t" "gc_background_thread_add_task junk t p r d = (i, u)"
  shows "bt_inv u"
proof -
  let ?new = "\<lparr> task_id = bt_next_id t, task_priority = p, task_run = r, task_data = d \<rparr>"
  let ?P = "\<lambda>x. \<not> p < task_priority x"
  have wf: "bt_wf t" using assms(1) by (simp add: bt_inv_def)
  note a = add_task_active[OF wf assms(2)]
  have "by_priority (bt_active u)"
    using by_priority_insert[of "bt_active t" ?new] assms(1) a(1) by (simp add: bt_inv_def)
  moreover have "set (bt_active u) \<subseteq> insert ?new (set (bt_active t))"
    unfolding a(1) using set_takeWhileD[of _ ?P "bt_active t"] set_dropWhileD[of _ ?P "bt_active t"] by auto
  moreover have "\<forall>x \<in> insert ?new (set (bt_active t)). task_id x < bt_next_id u"
    using assms(1) a(3,4) by (auto simp: bt_inv_def intro: less_trans)
  ultimately show ?thesis unfolding bt_inv_def using a(2) by blast
qed

lemma remove_task_inv:
  assumes "bt_inv t" "gc_background_thread_remove_task t i = Inr u"
  shows "bt_inv u"
proof -
  have wf: "bt_wf t" using assms(1) by (simp add: bt_inv_def)
  have "length (takeWhile (\<lambda>x. task_id x \<noteq> i) (bt_active t)) \<noteq> bt_count t"
    using assms(2) break_index_active[OF wf, of "\<lambda>x. task_id x = i"]
    by (auto simp: gc_background_thread_remove_task_def Let_def split: if_splits)
  then have "\<exists>x \<in> set (bt_active t). task_id x = i"
    using length_bt_active[OF wf] takeWhile_eq_all_conv[of "\<lambda>x. task_id x \<noteq> i" "bt_active t"] by metis
  then obtain xs y zs where s: "bt_active t = xs @ y # zs" "task_id y = i" "\<forall>x \<in> set xs. task_id x \<noteq> i"
    using split_list_first_prop[of "bt_active t" "\<lambda>x. task_id x = i"] by blast
  obtain v where v: "gc_background_thread_remove_task t (task_id y) = Inr v"
    "bt_active v = xs @ zs @ [last (y # zs)]" "bt_wf v" "bt_next_id v = bt_next_id t"
    by (rule remove_task_active[OF wf s(1)]) (use s(2,3) in auto)
  have "u = v" using v(1) assms(2) s(2) by simp
  moreover have "by_priority (bt_active v)"
    using assms(1) by_priority_remove[of xs y zs] s(1) v(2) by (simp add: bt_inv_def)
  moreover have "set (bt_active v) \<subseteq> set (bt_active t)" unfolding v(2) s(1) by auto
  ultimately show ?thesis using assms(1) v(3,4) by (auto simp: bt_inv_def)
qed

lemma bg_step_inv: "bg_step t e u \<Longrightarrow> bt_inv t \<Longrightarrow> bt_inv u"
proof (induction rule: bg_step.induct)
  case (start t u)
  then show ?case
    by (auto simp: gc_background_thread_start_def gc_assert_def bt_inv_def bt_wf_def bt_active_def
        split: if_splits)
next
  case (destroy t u)
  then show ?case
    by (auto simp: gc_destroy_background_thread_def gc_assert_def bt_inv_def bt_wf_def bt_active_def
        split: if_splits)
qed (auto intro: add_task_inv remove_task_inv)

text \<open>Whatever tasks are added and removed, and however the thread is started and stopped, the
  table of a background thread stays within its capacity and in the order of the tasks' priorities;
  a turn of the thread runs exactly the tasks of the table, in that order, and only while it is
  \<open>RUNNING\<close>.\<close>

theorem background_thread_tick_correct:
  assumes "bg_reach t"
  shows "bt_wf t \<and> by_priority (bt_active t)
    \<and> gc_background_thread_tick exec t s =
        (if bt_state t = Running then fold (\<lambda>x. exec (task_run x) (task_data x)) (bt_active t) s else s)"
proof -
  have "bt_inv t" using assms
  proof induction
    case made
    then show ?case
      by (simp add: bt_inv_def bt_wf_def bt_active_def gc_make_background_thread_def by_priority_def)
  qed (rule bg_step_inv)
  then show ?thesis using tick_active[of t exec s] by (simp add: bt_inv_def)
qed

definition two_tasks :: "(char, nat) gc_background_thread result" where
  "two_tasks =
    (let junk = \<lparr> task_id = 0, task_priority = 0, task_run = CHR ''-'', task_data = 0 \<rparr>;
         (_, t) = gc_background_thread_add_task junk gc_make_background_thread 200 CHR ''a'' 5;
         (_, u) = gc_background_thread_add_task junk t 100 CHR ''b'' 2
     in gc_background_thread_start u)"

lemma two_tasks_eq: "two_tasks = Inr
  \<lparr> bt_count = 2, bt_capacity = 3, bt_tasks =
      [\<lparr> task_id = 1, task_priority = 100, task_run = CHR ''b'', task_data = 2 \<rparr>,
       \<lparr> task_id = 0, task_priority = 200, task_run = CHR ''a'', task_data = 5 \<rparr>,
       \<lparr> task_id = 0, task_priority = 0, task_run = CHR ''-'', task_data = 0 \<rparr>],
    bt_next_id = 2, bt_state = Running \<rparr>"
  by code_simp

lemma two_tasks_reach: "bg_reach (projr two_tasks)"
proof -
  let ?junk = "\<lparr> task_id = 0, task_priority = 0, task_run = CHR ''-'', task_data = 0 \<rparr> :: (char, nat) gc_background_task"
  obtain i t where t: "gc_background_thread_add_task ?junk gc_make_background_thread 200 CHR ''a'' 5 = (i, t)"
    by (rule prod.exhaust)
  obtain j u where u: "gc_background_thread_add_task ?junk t 100 CHR ''b'' 2 = (j, u)"
    by (rule prod.exhaust)
  have "gc_background_thread_start u = two_tasks" by (simp add: two_tasks_def Let_def t u)
  then have "gc_background_thread_start u = Inr (projr two_tasks)" by (simp add: two_tasks_eq)
  then show ?thesis using bg_reach.intros bg_step.intros t u by metis
qed

theorem background_thread_tick_correct_witness:
  "gc_background_thread_tick (\<lambda>r d s. s @ [(r, d)]) (projr two_tasks) [] = [(CHR ''b'', 2), (CHR ''a'', 5)]"
  using background_thread_tick_correct[OF two_tasks_reach, of "\<lambda>r d s. s @ [(r, d)]" "[]"]
  by (simp add: two_tasks_eq bt_active_def)

text \<open>C35: Removing a task shifts the tasks after it but leaves the count as it was, so the last task
  of the table stays in it a second time; when the task added last sorts at the end of the table,
  removing it again removes nothing and the thread goes on running it.\<close>

theorem background_thread_remove_task_keeps_last:
  assumes "bt_inv t" and "gc_background_thread_add_task junk t p r d = (i, u)"
  shows "\<exists>v. gc_background_thread_remove_task u i = Inr v
    \<and> bt_active v = bt_active t @ [last (bt_active u)] \<and> bt_count v = bt_count t + 1
    \<and> ((\<forall>x \<in> set (bt_active t). task_priority x \<le> p) \<longrightarrow> bt_active v = bt_active u)"
proof -
  let ?P = "\<lambda>x. \<not> p < task_priority x"
  let ?new = "\<lparr> task_id = bt_next_id t, task_priority = p, task_run = r, task_data = d \<rparr>"
  have wf: "bt_wf t" using assms(1) by (simp add: bt_inv_def)
  note a = add_task_active[OF wf assms(2)]
  have "\<forall>x \<in> set (takeWhile ?P (bt_active t)). task_id x \<noteq> task_id ?new"
    using assms(1) set_takeWhileD[of _ ?P "bt_active t"] by (fastforce simp: bt_inv_def)
  then obtain v where v: "gc_background_thread_remove_task u (task_id ?new) = Inr v"
    "bt_active v = takeWhile ?P (bt_active t) @ dropWhile ?P (bt_active t)
      @ [last (?new # dropWhile ?P (bt_active t))]" "bt_wf v"
    by (rule remove_task_active[OF a(2,1)])
  have "last (?new # dropWhile ?P (bt_active t)) = last (bt_active u)" unfolding a(1) by simp
  then have act: "bt_active v = bt_active t @ [last (bt_active u)]"
    using v(2) takeWhile_dropWhile_id[of ?P "bt_active t"] by simp
  have "bt_count v = bt_count t + 1"
    using arg_cong[OF act, of length] length_bt_active[OF v(3)] length_bt_active[OF wf] by simp
  moreover have "bt_active v = bt_active u" if "\<forall>x \<in> set (bt_active t). task_priority x \<le> p"
  proof -
    have "takeWhile ?P (bt_active t) = bt_active t" "dropWhile ?P (bt_active t) = []" using that by force+
    then have "bt_active u = bt_active t @ [?new]" unfolding a(1) by (simp only:)
    then show ?thesis using act by simp
  qed
  ultimately show ?thesis using v(1) a(3) act by auto
qed

lemma make_background_thread_inv: "bt_inv gc_make_background_thread"
  by (simp add: bt_inv_def bt_wf_def bt_active_def gc_make_background_thread_def by_priority_def)

definition one_task :: "(char, nat) gc_background_thread" where
  "one_task = snd (gc_background_thread_add_task
    \<lparr> task_id = 0, task_priority = 0, task_run = CHR ''-'', task_data = 0 \<rparr>
    gc_make_background_thread 100 CHR ''a'' 5)"

theorem background_thread_remove_task_keeps_last_witness:
  "\<exists>v. gc_background_thread_remove_task one_task 0 = Inr v
    \<and> bt_active v = bt_active one_task \<and> bt_count v = 1"
proof -
  let ?junk = "\<lparr> task_id = 0, task_priority = 0, task_run = CHR ''-'', task_data = 0 \<rparr> :: (char, nat) gc_background_task"
  have "gc_background_thread_add_task ?junk gc_make_background_thread 100 CHR ''a'' 5 = (0, one_task)"
    by (simp add: one_task_def gc_background_thread_add_task_def gc_make_background_thread_def
        gc_background_thread_reserve_def Let_def)
  from background_thread_remove_task_keeps_last[OF make_background_thread_inv this]
  show ?thesis by (auto simp: bt_active_def gc_make_background_thread_def)
qed

end
