(* ===== verification/NoflCollect.thy ===== *)
theory NoflCollect
  imports NoflTrace BackgroundThread
begin

text \<open>
  Collecting and resizing the nofl space, the last part of \<open>src/src/nofl-space.h\<close>: what a collection does
  to the lists of blocks before and after the trace, the selection of blocks to evacuate, promotion,
  statistics, and blocks that go to the operating system and come back. \<open>acquire\<close> is
  \<open>gc_platform_acquire_memory\<close> and \<open>discard\<close> is \<open>gc_platform_discard_memory\<close>.
\<close>

datatype gc_collection_kind = Collection_any | Collection_minor | Collection_major | Collection_compacting

section \<open>Statistics\<close>

definition nofl_space_reset_statistics :: "nofl_space \<Rightarrow> nofl_space" where
  "nofl_space_reset_statistics space =
    space\<lparr>ns_survivor_granules := 0, ns_allocated_granules := 0, ns_fragmentation_granules := 0, ns_second_chance_granules := 0\<rparr>"

definition nofl_space_live_size_at_last_collection :: "nofl_space \<Rightarrow> u64" where
  "nofl_space_live_size_at_last_collection space =
    (let granules = ns_old_generation_granules space + ns_survivor_granules space in granules * NOFL_GRANULE_SIZE)"

definition nofl_space_add_to_allocation_counter :: "nofl_space \<Rightarrow> u64 \<Rightarrow> u64" where
  "nofl_space_add_to_allocation_counter space counter =
    (let allocated = ns_allocated_granules space; second_chance = ns_second_chance_granules space
     in counter + (allocated + second_chance) * NOFL_GRANULE_SIZE)"

definition nofl_space_evacuation_reserve_bytes :: "nofl_space \<Rightarrow> u64" where
  "nofl_space_evacuation_reserve_bytes space = of_nat (nofl_evacuation_block_count space) * NOFL_BLOCK_SIZE"

definition nofl_space_evacuation_minimum_reserve_bytes :: "nofl_space \<Rightarrow> u64 result" where
  "nofl_space_evacuation_minimum_reserve_bytes space =
    result_bind (nofl_active_block_count space) (\<lambda>active.
      Inr (of_nat (reserve_blocks active (ns_evacuation_minimum_reserve space)) * NOFL_BLOCK_SIZE))"

definition nofl_space_size :: "nofl_space \<Rightarrow> u64 result" where
  "nofl_space_size space = result_bind (nofl_active_block_count space) (\<lambda>active. Inr (of_nat active * NOFL_BLOCK_SIZE))"

definition nofl_space_fragmentation :: "nofl_space \<Rightarrow> u64 result" where
  "nofl_space_fragmentation space =
    (let young = ns_fragmentation_granules space;
         granules = of_nat (nofl_block_count space List_old) * NOFL_GRANULES_PER_BLOCK
     in result_bind (gc_assert (granules \<ge> ns_old_generation_granules space)) (\<lambda>_.
        let old = granules - ns_old_generation_granules space in Inr ((young + old) * NOFL_GRANULE_SIZE)))"

section \<open>Before the trace\<close>

text \<open>\<open>while (!null (block = pop (from))) push (to, block)\<close>.\<close>

definition move_blocks ::
    "(nofl_space \<Rightarrow> (nofl_block_ref \<times> nofl_space) result) \<Rightarrow> (nofl_block_ref \<Rightarrow> nofl_space \<Rightarrow> nofl_space result)
      \<Rightarrow> nofl_space \<Rightarrow> nofl_space result" where
  "move_blocks pop push space =
    result_bind
      (while_result (\<lambda>(more, _). more)
        (\<lambda>(_, space).
          result_bind (pop space) (\<lambda>(block, space).
            if nofl_block_is_null block then Inr (False, space)
            else result_bind (push block space) (\<lambda>space. Inr (True, space))))
        (True, space))
      (\<lambda>(_, space). Inr space)"

definition survivor_bucket :: "nofl_space \<Rightarrow> nofl_block_ref \<Rightarrow> nat" where
  "survivor_bucket space b =
    (let bucket_sz = NOFL_GRANULES_PER_BLOCK div 32;
         survivor_granules = NOFL_GRANULES_PER_BLOCK - ucast (sum_hole_granules (block_summary space b))
     in unat ((survivor_granules + bucket_sz - 1) div bucket_sz))"

definition count_survivors :: "nofl_block_ref \<Rightarrow> nofl_space \<times> nat list \<Rightarrow> nat list" where
  "count_survivors b st =
    (let (space, hist) = st; bucket = survivor_bucket space b in hist[bucket := hist ! bucket + 1])"

text \<open>The histogram of the blocks by their survivors, and how many of each bucket fit in the targets.\<close>

definition survivor_histogram :: "nofl_space \<Rightarrow> nat list result" where
  "survivor_histogram space =
    result_bind
      (while_result (\<lambda>(b, _). \<not> nofl_block_is_null b)
        (\<lambda>(b, hist). result_bind (nofl_block_next space b) (\<lambda>nxt. Inr (nxt, count_survivors b (space, hist))))
        (nofl_block_for_addr (list_blocks (ns_lists space List_to_sweep)), replicate 33 0))
      (\<lambda>(_, hist). Inr hist)"

definition select_buckets :: "nat \<Rightarrow> nat list \<Rightarrow> nat list" where
  "select_buckets target_granules hist =
    (let bucket_sz = unat (NOFL_GRANULES_PER_BLOCK div 32) in
     snd (fold (\<lambda>bucket (target_granules, hist).
       let bucket_granules = bucket * bucket_sz * hist ! bucket
       in if bucket_granules \<le> target_granules then (target_granules - bucket_granules, hist)
          else (0, hist[bucket := target_granules div (bucket_sz * bucket)])) [0..<33] (target_granules, hist)))"

definition mark_candidates :: "nat list \<Rightarrow> nofl_space \<Rightarrow> nofl_space result" where
  "mark_candidates hist space =
    result_bind
      (while_result (\<lambda>(b, _). \<not> nofl_block_is_null b)
        (\<lambda>(b, hist, space).
          let bucket = survivor_bucket space b in
          result_bind
            (if hist ! bucket \<noteq> 0
             then result_bind (nofl_block_set_flag b NOFL_BLOCK_EVACUATE space) (\<lambda>space. Inr (hist[bucket := hist ! bucket - 1], space))
             else result_bind (nofl_block_clear_flag b NOFL_BLOCK_EVACUATE space) (\<lambda>space. Inr (hist, space)))
            (\<lambda>(hist, space). result_bind (nofl_block_next space b) (\<lambda>nxt. Inr (nxt, hist, space))))
        (nofl_block_for_addr (list_blocks (ns_lists space List_to_sweep)), hist, space))
      (\<lambda>(_, _, space). Inr space)"

definition nofl_space_prepare_evacuation :: "nofl_space \<Rightarrow> nofl_space result" where
  "nofl_space_prepare_evacuation space =
    result_bind (gc_assert (\<not> ns_evacuating space)) (\<lambda>_.
    result_bind (move_blocks (nofl_block_list_pop List_evacuation_targets) nofl_push_empty_block space) (\<lambda>space.
    result_bind (gc_assert (\<forall>name \<in> {List_partly_full, List_full, List_promoted, List_old, List_evacuation_targets}.
      nofl_block_count space name = 0)) (\<lambda>_.
    let target_blocks = nofl_block_count space List_empty in
    if target_blocks = 0 then Inr space
    else
      (let space = space\<lparr>ns_evacuation_reserve := RESERVE_0_5, ns_evacuating := True\<rparr>;
           target_granules = target_blocks * unat NOFL_GRANULES_PER_BLOCK
       in result_bind (survivor_histogram space) (\<lambda>hist.
            mark_candidates (select_buckets target_granules hist) space)))))"

definition nofl_space_clear_block_marks :: "nofl_space \<Rightarrow> nofl_space" where
  "nofl_space_clear_block_marks space =
    space\<lparr>ns_mem := fold (\<lambda>slab mem. mem_set mem slab 0 NOFL_BLOCKS_PER_SLAB) (ns_slabs space) (ns_mem space)\<rparr>"

definition nofl_space_prepare_gc :: "gc_collection_kind \<Rightarrow> nofl_space \<Rightarrow> nofl_space result" where
  "nofl_space_prepare_gc kind space =
    (if kind \<noteq> Collection_minor then
       result_bind (nofl_advance_current_mark (ns_current_mark space)) (\<lambda>mark.
         Inr (nofl_space_clear_block_marks (space\<lparr>ns_current_mark := mark\<rparr>)))
     else Inr space)"

definition nofl_space_start_gc :: "gc_collection_kind \<Rightarrow> nofl_space \<Rightarrow> nofl_space result" where
  "nofl_space_start_gc kind space =
    result_bind (gc_assert (nofl_block_count space List_to_sweep = 0)) (\<lambda>_.
    result_bind (move_blocks (nofl_block_list_pop List_partly_full) (nofl_block_list_push List_to_sweep) space) (\<lambda>space.
    result_bind (move_blocks (nofl_block_list_pop List_full) (nofl_block_list_push List_to_sweep) space) (\<lambda>space.
    result_bind
      (if kind \<noteq> Collection_minor then
         result_bind (move_blocks (nofl_block_list_pop List_promoted) (nofl_block_list_push List_to_sweep) space) (\<lambda>space.
         result_bind (move_blocks (nofl_block_list_pop List_old) (nofl_block_list_push List_to_sweep) space) (\<lambda>space.
           Inr (space\<lparr>ns_old_generation_granules := 0\<rparr>)))
       else Inr space)
      (\<lambda>space. if kind = Collection_compacting then nofl_space_prepare_evacuation space else Inr space))))"

section \<open>After the trace\<close>

definition nofl_space_finish_evacuation :: "nofl_space \<Rightarrow> nofl_space result" where
  "nofl_space_finish_evacuation space =
    result_bind (gc_assert (ns_evacuating space)) (\<lambda>_.
    let space = space\<lparr>ns_evacuating := False\<rparr> in
    result_bind (nofl_active_block_count space) (\<lambda>active.
    let reserve = reserve_blocks active (ns_evacuation_minimum_reserve space) in
    result_bind (gc_assert (nofl_evacuation_block_count space = 0)) (\<lambda>_.
    result_bind
      (while_result (\<lambda>(reserve, _). reserve > 0)
        (\<lambda>(reserve, space).
          result_bind (nofl_pop_empty_block_with_lock space) (\<lambda>(block, space).
            if nofl_block_is_null block then Inr (0, space)
            else result_bind (nofl_block_list_push List_evacuation_targets block space) (\<lambda>space. Inr (reserve - 1, space))))
        (reserve, space))
      (\<lambda>(_, space). Inr space))))"

definition promote_block :: "nofl_block_ref \<Rightarrow> nofl_space \<Rightarrow> nofl_space result" where
  "promote_block block space =
    (let space = update_summary block (\<lambda>s. s\<lparr>sum_hole_count := 0, sum_hole_granules := 0,
           sum_holes_with_fragmentation := 0, sum_fragmentation_granules := 0\<rparr>) space;
         alloc = \<lparr> na_alloc = ref_addr block, na_sweep = ref_addr block, na_block = block,
           na_holes = \<lparr> hs_nonempty = 0, hs_buckets = replicate 64 0 \<rparr> \<rparr>
     in result_bind (nofl_allocator_finish_sweeping_in_block (ns_current_mark space) False (alloc, space)) (\<lambda>(_, space).
        nofl_block_list_push List_old block
          (space\<lparr>ns_old_generation_granules := ns_old_generation_granules space
            + (NOFL_GRANULES_PER_BLOCK - ucast (sum_hole_granules (block_summary space block)))\<rparr>)))"

definition nofl_space_promote_blocks :: "nofl_space \<Rightarrow> nofl_space result" where
  "nofl_space_promote_blocks space = move_blocks (nofl_block_list_pop List_promoted) promote_block space"

text \<open>A block of \<open>to_sweep\<close> that holds a marked object is kept, any other one is empty.\<close>

definition keep_or_empty_block :: "nofl_block_ref \<Rightarrow> nofl_space \<Rightarrow> nofl_space result" where
  "keep_or_empty_block block space =
    (if nofl_block_is_marked space (ref_addr block) then nofl_block_list_push List_local block space
     else
       (let space = space\<lparr>ns_mem := mem_set (ns_mem space) (nofl_metadata_byte_for_addr (ref_addr block)) 0 NOFL_GRANULES_PER_BLOCK\<rparr> in
        result_bind (nofl_push_evacuation_target_if_possible block space) (\<lambda>(pushed, space).
          if \<not> pushed then nofl_push_empty_block block space else Inr space)))"

definition return_reserve :: "nat \<Rightarrow> nat \<Rightarrow> nofl_space \<Rightarrow> nofl_space result" where
  "return_reserve reserve target space =
    result_bind
      (while_result (\<lambda>(reserve, _). reserve > target)
        (\<lambda>(reserve, space).
          result_bind (nofl_block_list_pop List_evacuation_targets space) (\<lambda>(block, space).
          result_bind (nofl_push_empty_block block space) (\<lambda>space. Inr (reserve - 1, space))))
        (reserve, space))
      (\<lambda>(_, space). Inr space)"

definition nofl_space_finish_gc :: "gc_collection_kind \<Rightarrow> nofl_space \<Rightarrow> nofl_space result" where
  "nofl_space_finish_gc kind space =
    (let space = space\<lparr>ns_holes := nofl_holeset_clear (ns_holes space), ns_last_collection_was_minor := (kind = Collection_minor)\<rparr> in
     result_bind
       (if ns_evacuating space then nofl_space_finish_evacuation space
        else
          (let space = space\<lparr>ns_evacuation_reserve := ns_evacuation_minimum_reserve space\<rparr> in
           result_bind (nofl_active_block_count space) (\<lambda>active.
             return_reserve (nofl_evacuation_block_count space) (reserve_blocks active (ns_evacuation_minimum_reserve space)) space)))
       (\<lambda>space.
         result_bind (move_blocks (nofl_block_list_pop List_to_sweep) keep_or_empty_block
           (put_list List_local \<lparr> list_count = 0, list_blocks = 0 \<rparr> space)) (\<lambda>space.
         let space = put_list List_local \<lparr> list_count = 0, list_blocks = 0 \<rparr> (put_list List_to_sweep (ns_lists space List_local) space) in
         result_bind (nofl_space_promote_blocks space) (\<lambda>space.
           let space = nofl_space_reset_statistics space
           in Inr (space\<lparr>ns_survivor_mark := ns_current_mark space\<rparr>)))))"

section \<open>Growing and shrinking\<close>

definition nofl_space_request_release_memory :: "u64 \<Rightarrow> nofl_space \<Rightarrow> int \<times> nofl_space" where
  "nofl_space_request_release_memory bytes space =
    (let n = ns_pending_unavailable_bytes space + uint bytes in (n, space\<lparr>ns_pending_unavailable_bytes := n\<rparr>))"

definition nofl_space_maybe_reacquire_memory :: "u64 \<Rightarrow> nofl_space \<Rightarrow> (int \<times> nofl_space) result" where
  "nofl_space_maybe_reacquire_memory bytes space =
    (let pending = ns_pending_unavailable_bytes space - uint bytes;
         space = space\<lparr>ns_pending_unavailable_bytes := pending\<rparr> in
     result_bind
       (while_result (\<lambda>(more, pending, _). more \<and> pending + uint NOFL_BLOCK_SIZE \<le> 0)
         (\<lambda>(_, pending, space).
           result_bind (nofl_pop_unavailable_block space) (\<lambda>(block, space).
             if nofl_block_is_null block then Inr (False, pending, space)
             else
               result_bind (nofl_push_evacuation_target_if_needed block space) (\<lambda>(pushed, space).
               result_bind (if \<not> pushed then nofl_push_empty_block block space else Inr space) (\<lambda>space.
               let pending = ns_pending_unavailable_bytes space + uint NOFL_BLOCK_SIZE
               in Inr (True, pending, space\<lparr>ns_pending_unavailable_bytes := pending\<rparr>)))))
         (True, pending, space))
       (\<lambda>(_, st). Inr st))"

definition nofl_allocate_slabs :: "(u64 \<Rightarrow> u64 \<Rightarrow> u64) \<Rightarrow> u64 \<Rightarrow> u64" where
  "nofl_allocate_slabs acquire nslabs = acquire (nslabs * NOFL_SLAB_SIZE) NOFL_SLAB_SIZE"

definition nofl_space_add_slabs :: "u64 \<Rightarrow> u64 \<Rightarrow> nofl_space \<Rightarrow> nofl_space result" where
  "nofl_space_add_slabs slabs nslabs space =
    result_bind (extents_adjoin (ns_extents space) slabs (nslabs * NOFL_SLAB_SIZE)) (\<lambda>extents.
      Inr (space\<lparr>ns_extents := extents,
        ns_slabs := ns_slabs space @ map (\<lambda>i. slabs + of_nat i * NOFL_SLAB_SIZE) [0..<unat nslabs]\<rparr>))"

definition release_one :: "(nofl_space \<Rightarrow> (nofl_block_ref \<times> nofl_space) result) \<Rightarrow> nofl_space \<Rightarrow> (bool \<times> int \<times> nofl_space) result" where
  "release_one pop space =
    result_bind (pop space) (\<lambda>(block, space).
      if nofl_block_is_null block then Inr (False, ns_pending_unavailable_bytes space, space)
      else
        result_bind (nofl_push_unavailable_block block space) (\<lambda>space.
          let pending = ns_pending_unavailable_bytes space - uint NOFL_BLOCK_SIZE
          in Inr (True, pending, space\<lparr>ns_pending_unavailable_bytes := pending\<rparr>)))"

definition nofl_space_shrink :: "u64 \<Rightarrow> nofl_space \<Rightarrow> (int \<times> nofl_space) result" where
  "nofl_space_shrink bytes space =
    (let (pending, space) = nofl_space_request_release_memory bytes space in
     result_bind
       (while_result (\<lambda>(more, pending, _). more \<and> pending > 0)
         (\<lambda>(_, pending, space).
           result_bind (release_one nofl_pop_empty_block_with_lock space) (\<lambda>(more, p, space).
             Inr (more, if more then p else pending, space)))
         (True, pending, space))
       (\<lambda>(_, pending, space).
         result_bind
           (if pending > 0 then
              result_bind (nofl_active_block_count space) (\<lambda>active.
              let target = reserve_blocks active (ns_evacuation_minimum_reserve space);
                  avail = nofl_evacuation_block_count space in
              result_bind
                (while_result (\<lambda>(avail, pending, _). avail > target \<and> pending > 0)
                  (\<lambda>(avail, pending, space).
                    result_bind (release_one (nofl_block_list_pop List_evacuation_targets) space) (\<lambda>(found, pending, space).
                    result_bind (gc_assert found) (\<lambda>_. Inr (avail - 1, pending, space))))
                  (avail, pending, space))
                (\<lambda>(_, st). Inr st))
            else Inr (pending, space))
           (\<lambda>(pending, space). Inr (if pending \<le> 0 then 0 else pending, space))))"

definition slab_block :: "u64 \<Rightarrow> nat \<Rightarrow> nofl_block_ref" where
  "slab_block slab idx = nofl_block_for_addr (slab + (NOFL_META_BLOCKS_PER_SLAB + of_nat idx) * NOFL_BLOCK_SIZE)"

definition new_blocks :: "u64 \<Rightarrow> nat \<Rightarrow> nofl_block_ref list" where
  "new_blocks slabs nslabs =
    [slab_block (slabs + of_nat slab * NOFL_SLAB_SIZE) idx. slab \<leftarrow> [0..<nslabs], idx \<leftarrow> [0..<unat NOFL_NONMETA_BLOCKS_PER_SLAB]]"

text \<open>\<open>to_acquire * (1 + overhead)\<close>: the factor is 17/16, which a double holds.\<close>

definition with_overhead :: "nat \<Rightarrow> nat" where
  "with_overhead n = double_of_nat (double_of_nat n * 17) div 16"

definition nofl_space_expand :: "(u64 \<Rightarrow> u64 \<Rightarrow> u64) \<Rightarrow> u64 \<Rightarrow> nofl_space \<Rightarrow> nofl_space result" where
  "nofl_space_expand acquire bytes space =
    result_bind (nofl_space_maybe_reacquire_memory bytes space) (\<lambda>(pending, space).
    let to_acquire = - pending in
    if to_acquire < uint NOFL_BLOCK_SIZE then Inr space
    else
      (let reserved = align_up (of_nat (with_overhead (nat to_acquire))) NOFL_SLAB_SIZE;
           nslabs = reserved div NOFL_SLAB_SIZE;
           slabs = nofl_allocate_slabs acquire nslabs in
       result_bind (nofl_space_add_slabs slabs nslabs space) (\<lambda>space.
       result_bind
         (result_fold (\<lambda>block space.
           result_bind (nofl_block_set_flag block (NOFL_BLOCK_ZERO OR NOFL_BLOCK_PAGED_OUT) space) (nofl_push_unavailable_block block))
           (new_blocks slabs (unat nslabs)) space)
         (\<lambda>space. result_bind (nofl_space_maybe_reacquire_memory 0 space) (\<lambda>(_, space). Inr space)))))"

text \<open>The tasks of the background thread.\<close>

definition nofl_space_advance_page_out_queue :: "nofl_space \<Rightarrow> nofl_space result" where
  "nofl_space_advance_page_out_queue space =
    result_bind
      (while_result (\<lambda>(age, _). age \<ge> 0)
        (\<lambda>(age, space).
          result_bind (nofl_block_stack_pop (List_paged_out (nat age)) space) (\<lambda>(block, space).
            if nofl_block_is_null block then Inr (- 1, space)
            else result_bind (nofl_block_stack_push (List_paged_out (nat age + 1)) block space) (\<lambda>space. Inr (age - 1, space))))
        (int NOFL_PAGE_OUT_QUEUE_SIZE - 3, space))
      (\<lambda>(_, space). Inr space)"

definition page_out_block :: "(u64 \<Rightarrow> u64 \<Rightarrow> byte_mem \<Rightarrow> byte_mem) \<Rightarrow> nofl_block_ref \<Rightarrow> nofl_space \<Rightarrow> nofl_space result" where
  "page_out_block discard block space =
    result_bind (nofl_block_set_flag block (NOFL_BLOCK_ZERO OR NOFL_BLOCK_PAGED_OUT) space) (\<lambda>space.
    let space = space\<lparr>ns_mem := discard (ref_addr block) NOFL_BLOCK_SIZE (ns_mem space)\<rparr>
    in nofl_block_stack_push (List_paged_out (NOFL_PAGE_OUT_QUEUE_SIZE - 1)) block space)"

definition nofl_space_page_out_blocks :: "(u64 \<Rightarrow> u64 \<Rightarrow> byte_mem \<Rightarrow> byte_mem) \<Rightarrow> nofl_space \<Rightarrow> nofl_space result" where
  "nofl_space_page_out_blocks discard space =
    move_blocks (nofl_block_stack_pop (List_paged_out (NOFL_PAGE_OUT_QUEUE_SIZE - 2))) (page_out_block discard) space"

datatype nofl_space_task = Nofl_Advance_Page_Out_Queue | Nofl_Page_Out_Blocks

text \<open>
  \<open>space\<close> is the space before, all zero but for its memory and the summaries in it; \<open>self\<close> is its address,
  the argument of the tasks, and \<open>junk\<close> is that of the table of the thread.
\<close>

definition init_nofl_block :: "u64 \<Rightarrow> nofl_block_ref \<Rightarrow> u64 \<times> nofl_space \<Rightarrow> (u64 \<times> nofl_space) result" where
  "init_nofl_block sz block st =
    (let (reserved, space) = st in
     result_bind (nofl_block_set_flag block (NOFL_BLOCK_ZERO OR NOFL_BLOCK_PAGED_OUT) space) (\<lambda>space.
       if reserved > sz then
         result_bind (nofl_push_unavailable_block block space) (\<lambda>space. Inr (reserved - NOFL_BLOCK_SIZE, space))
       else
         result_bind (nofl_push_evacuation_target_if_needed block space) (\<lambda>(pushed, space).
         result_bind (if \<not> pushed then nofl_push_empty_block block space else Inr space) (\<lambda>space. Inr (reserved, space)))))"

definition nofl_space_init ::
    "gc_config \<Rightarrow> (u64 \<Rightarrow> u64 \<Rightarrow> u64) \<Rightarrow> u64 \<Rightarrow> rat \<Rightarrow> u64 \<Rightarrow> (nofl_space_task, u64) gc_background_task
      \<Rightarrow> (nofl_space_task, u64) gc_background_thread \<Rightarrow> nofl_space
      \<Rightarrow> (nofl_space \<times> (nofl_space_task, u64) gc_background_thread) option result" where
  "nofl_space_init cfg acquire sz promotion_threshold self junk thread space =
    (let sz = align_up sz NOFL_BLOCK_SIZE;
         reserved = align_up sz NOFL_SLAB_SIZE;
         nslabs = reserved div NOFL_SLAB_SIZE;
         slabs = nofl_allocate_slabs acquire nslabs in
     if slabs = 0 then Inr None
     else
       (let space = space\<lparr>ns_current_mark := NOFL_METADATA_BYTE_MARK_0, ns_survivor_mark := NOFL_METADATA_BYTE_MARK_0,
              ns_extents := extents_allocate 10, ns_heap_has_ambiguous_edges := gc_conservative_trace cfg\<rparr> in
        result_bind (nofl_space_add_slabs slabs nslabs space) (\<lambda>space.
        let reserve = (if gc_conservative_trace cfg then 0 else RESERVE_0_02);
            space = space\<lparr>ns_evacuation_minimum_reserve := reserve, ns_evacuation_reserve := reserve,
              ns_promotion_threshold := promotion_threshold\<rparr> in
        result_bind (result_fold (init_nofl_block sz) (new_blocks slabs (unat nslabs)) (reserved, space)) (\<lambda>(_, space).
          let (_, thread) = gc_background_thread_add_task junk thread GC_BACKGROUND_TASK_START Nofl_Advance_Page_Out_Queue self;
              (_, thread) = gc_background_thread_add_task junk thread GC_BACKGROUND_TASK_END Nofl_Page_Out_Blocks self
          in Inr (Some (space, thread))))))"

end
