(* ===== verification/AddressHash.thy ===== *)
theory AddressHash
  imports Prelude
begin

section \<open>The address mixer and its inverse\<close>

text \<open>
  \<open>src/src/address-hash.h\<close>. The C function tests \<open>sizeof (uintptr_t) < 8\<close> at compile time, so each
  function has a 32-bit and a 64-bit body; the development's platform is the 64-bit one, and
  the 32-bit bodies are modelled beside it.
\<close>

definition hash_address32 :: "u32 \<Rightarrow> u32" where
  "hash_address32 x =
    (let x = x XOR drop_bit 16 x;
         x = x * 0x7feb352d;
         x = x XOR drop_bit 15 x;
         x = x * 0x846ca68b;
         x = x XOR drop_bit 16 x
     in x)"

definition hash_address :: "u64 \<Rightarrow> u64" where
  "hash_address x =
    (let x = x XOR drop_bit 30 x;
         x = x * 0xbf58476d1ce4e5b9;
         x = x XOR drop_bit 27 x;
         x = x * 0x94d049bb133111eb;
         x = x XOR drop_bit 31 x
     in x)"

definition unhash_address32 :: "u32 \<Rightarrow> u32" where
  "unhash_address32 x =
    (let x = x XOR drop_bit 16 x;
         x = x * 0x43021123;
         x = x XOR (drop_bit 15 x XOR drop_bit 30 x);
         x = x * 0x1d69e2a5;
         x = x XOR drop_bit 16 x
     in x)"

definition unhash_address :: "u64 \<Rightarrow> u64" where
  "unhash_address x =
    (let x = x XOR (drop_bit 31 x XOR drop_bit 62 x);
         x = x * 0x319642b2d24d8ec3;
         x = x XOR (drop_bit 27 x XOR drop_bit 54 x);
         x = x * 0x96de1b173f119089;
         x = x XOR (drop_bit 30 x XOR drop_bit 60 x)
     in x)"

subsection \<open>Each mixing step has an inverse\<close>

lemma xorshift_inverse:
  fixes x :: "'a::len word"
  assumes "LENGTH('a) \<le> 3 * s"
  shows "(x XOR drop_bit s x) XOR (drop_bit s (x XOR drop_bit s x) XOR drop_bit (s + s) (x XOR drop_bit s x)) = x"
  using assms by (intro bit_word_eqI) (auto simp: bit_simps ac_simps)

lemma unxorshift_inverse:
  fixes x :: "'a::len word"
  assumes "LENGTH('a) \<le> 3 * s"
  defines "y \<equiv> x XOR (drop_bit s x XOR drop_bit (s + s) x)"
  shows "y XOR drop_bit s y = x"
  unfolding y_def using assms(1) by (intro bit_word_eqI) (auto simp: bit_simps ac_simps)

lemma xorshift_half_inverse:
  fixes x :: "'a::len word"
  assumes "LENGTH('a) \<le> 2 * s"
  shows "(x XOR drop_bit s x) XOR drop_bit s (x XOR drop_bit s x) = x"
  using assms by (intro bit_word_eqI) (auto simp: bit_simps ac_simps)

lemma mult_cancel_right_inverse:
  fixes a b x :: "'a::len word"
  assumes "a * b = 1"
  shows "x * a * b = x"
  using assms by (simp add: mult.assoc)

lemmas mixer_steps =
  xorshift_inverse[where s = 30 and 'a = 64, simplified]
  xorshift_inverse[where s = 27 and 'a = 64, simplified]
  xorshift_inverse[where s = 31 and 'a = 64, simplified]
  unxorshift_inverse[where s = 30 and 'a = 64, simplified]
  unxorshift_inverse[where s = 27 and 'a = 64, simplified]
  unxorshift_inverse[where s = 31 and 'a = 64, simplified]
  xorshift_half_inverse[where s = 16 and 'a = 32, simplified]
  xorshift_inverse[where s = 15 and 'a = 32, simplified]
  unxorshift_inverse[where s = 15 and 'a = 32, simplified]

lemma unhash_hash_address [simp]: "unhash_address (hash_address x) = x"
  by (simp add: unhash_address_def hash_address_def Let_def mixer_steps mult_cancel_right_inverse)

lemma hash_unhash_address [simp]: "hash_address (unhash_address x) = x"
  by (simp add: unhash_address_def hash_address_def Let_def mixer_steps mult_cancel_right_inverse)

lemma unhash_hash_address32 [simp]: "unhash_address32 (hash_address32 x) = x"
  by (simp add: unhash_address32_def hash_address32_def Let_def mixer_steps mult_cancel_right_inverse)

lemma hash_unhash_address32 [simp]: "hash_address32 (unhash_address32 x) = x"
  by (simp add: unhash_address32_def hash_address32_def Let_def mixer_steps mult_cancel_right_inverse)

lemma hash_address_eq_iff [simp]: "hash_address a = hash_address b \<longleftrightarrow> a = b"
  by (metis unhash_hash_address)

end
