(* ===== verification/RobinHood.thy ===== *)
theory RobinHood
  imports Prelude
begin

section \<open>Robin Hood tables, abstractly\<close>

text \<open>
  The shared mathematics of \<open>address-map.h\<close> and \<open>address-set.h\<close>. A table of \<open>n\<close> slots is a
  function from slot numbers to entries, periodic in \<open>n\<close>; \<open>h\<close> gives the hash an entry is stored under.
  An entry lies at some distance after its home slot, and the ordering invariant says that
  distances grow by at most one from each slot to the next. Everything the C loops rely on
  follows from it: a search may stop at the first poorer entry, an insertion shifts a run of
  entries by one slot, a removal shifts it back.
\<close>

type_synonym 'e table = "nat \<Rightarrow> 'e option"

definition rh_dist :: "('e \<Rightarrow> nat) \<Rightarrow> nat \<Rightarrow> nat \<Rightarrow> 'e \<Rightarrow> nat" where
  "rh_dist h n i e = (i + n - h e mod n) mod n"

definition rh_set :: "'e table \<Rightarrow> 'e set" where
  "rh_set t = {e. \<exists>i. t i = Some e}"

definition rh_ord_at :: "('e \<Rightarrow> nat) \<Rightarrow> nat \<Rightarrow> 'e table \<Rightarrow> nat \<Rightarrow> bool" where
  "rh_ord_at h n t i \<longleftrightarrow> (\<forall>e. t i = Some e \<and> 0 < rh_dist h n i e \<longrightarrow>
     (\<exists>e'. t (i + n - 1) = Some e' \<and> rh_dist h n i e \<le> Suc (rh_dist h n (i + n - 1) e')))"

definition rh_inv :: "('e \<Rightarrow> nat) \<Rightarrow> nat \<Rightarrow> 'e table \<Rightarrow> bool" where
  "rh_inv h n t \<longleftrightarrow> 0 < n \<and> (\<forall>i. t (i + n) = t i) \<and> (\<forall>i. rh_ord_at h n t i) \<and>
     (\<forall>i j e e'. t i = Some e \<longrightarrow> t j = Some e' \<longrightarrow> h e = h e' \<longrightarrow> i mod n = j mod n)"

lemma rh_setI: "t i = Some e \<Longrightarrow> e \<in> rh_set t"
  by (auto simp: rh_set_def)

subsection \<open>Distances and periodicity\<close>

lemma rh_dist_less [simp]: "0 < n \<Longrightarrow> rh_dist h n i e < n"
  by (simp add: rh_dist_def)

lemma rh_dist_home: "0 < n \<Longrightarrow> (h e + rh_dist h n i e) mod n = i mod n"
  by (simp add: rh_dist_def add_diff_mod)

lemma rh_dist_eqI: "0 < n \<Longrightarrow> (h e + d) mod n = i mod n \<Longrightarrow> d < n \<Longrightarrow> rh_dist h n i e = d"
  by (simp add: rh_dist_def mod_diff_unique)

lemma rh_dist_add [simp]: "d < n \<Longrightarrow> rh_dist h n (h e + d) e = d"
  by (rule rh_dist_eqI) auto

lemma rh_dist_cong: "0 < n \<Longrightarrow> i mod n = j mod n \<Longrightarrow> rh_dist h n i e = rh_dist h n j e"
  by (rule rh_dist_eqI) (simp_all add: rh_dist_home)

lemma rh_dist_Suc:
  assumes "0 < n"
  shows "rh_dist h n (Suc i) e = (if Suc (rh_dist h n i e) = n then 0 else Suc (rh_dist h n i e))"
proof (rule rh_dist_eqI[OF assms])
  have "(h e + Suc (rh_dist h n i e)) mod n = Suc i mod n"
    using rh_dist_home[OF assms, of h e i] by (metis add_Suc_right mod_Suc_eq)
  then show "(h e + (if Suc (rh_dist h n i e) = n then 0 else Suc (rh_dist h n i e))) mod n = Suc i mod n"
    by (cases "Suc (rh_dist h n i e) = n") simp_all
  show "(if Suc (rh_dist h n i e) = n then 0 else Suc (rh_dist h n i e)) < n"
    using rh_dist_less[OF assms, of h i e] assms by (auto simp: Suc_lessI simp del: rh_dist_less)
qed

lemma rh_invD:
  assumes "rh_inv h n t"
  shows rh_inv_pos: "0 < n"
    and rh_inv_period: "t (i + n) = t i"
    and rh_inv_ord: "rh_ord_at h n t i"
    and rh_inv_inj: "t i = Some e \<Longrightarrow> t j = Some e' \<Longrightarrow> h e = h e' \<Longrightarrow> i mod n = j mod n"
  using assms unfolding rh_inv_def by blast+

lemma rh_period_mult:
  fixes t :: "'e table"
  assumes "\<forall>i. t (i + n) = t i"
  shows "t (i + k * n) = t i"
proof (induct k)
  case (Suc k)
  have "t (i + Suc k * n) = t ((i + k * n) + n)" by (simp add: ac_simps)
  also have "\<dots> = t i" using Suc assms by simp
  finally show ?case .
qed simp

lemma rh_period_cong:
  fixes t :: "'e table"
  assumes per: "\<forall>i. t (i + n) = t i" and "i mod n = j mod n"
  shows "t i = t j"
proof -
  have "t i = t (i mod n)" for i
    using rh_period_mult[OF per, of "i mod n" "i div n"] by simp
  then show ?thesis using assms(2) by metis
qed

lemma rh_inv_cong: "rh_inv h n t \<Longrightarrow> i mod n = j mod n \<Longrightarrow> t i = t j"
  by (rule rh_period_cong[of t n]) (auto simp: rh_inv_def)

lemma mod_prev_cong: "0 < (n::nat) \<Longrightarrow> i mod n = j mod n \<Longrightarrow> (i + n - 1) mod n = (j + n - 1) mod n"
  using mod_add_cong[of i n j "n - 1" "n - 1"] by simp

lemma rh_ord_at_cong:
  assumes "0 < n" "\<forall>i. t (i + n) = t i" "i mod n = j mod n" "rh_ord_at h n t i"
  shows "rh_ord_at h n t j"
proof -
  note prev = mod_prev_cong[OF assms(1,3)]
  have "t i = t j" "t (i + n - 1) = t (j + n - 1)"
    using assms(2,3) prev by (blast intro: rh_period_cong)+
  moreover have "rh_dist h n i = rh_dist h n j" "rh_dist h n (i + n - 1) = rh_dist h n (j + n - 1)"
    using assms(1,3) prev by (auto intro: rh_dist_cong)
  ultimately show ?thesis
    using assms(4) unfolding rh_ord_at_def by simp
qed

text \<open>It is enough to look at the \<open>n\<close> slots from any start.\<close>

lemma rh_ord_all:
  assumes "0 < n" "\<forall>i. t (i + n) = t i" "\<And>c. c < n \<Longrightarrow> rh_ord_at h n t (p + c)"
  shows "rh_ord_at h n t i"
proof -
  let ?c = "(i + n - p mod n) mod n"
  have "rh_ord_at h n t (p + ?c)" using assms(1,3) by simp
  then show ?thesis
    using add_diff_mod[OF assms(1), of p i] by (rule rh_ord_at_cong[OF assms(1,2), rotated])
qed

lemma rh_inv_ordD:
  assumes inv: "rh_inv h n t" and "t (Suc i) = Some e" "0 < rh_dist h n (Suc i) e"
  obtains e' where "t i = Some e'" "rh_dist h n (Suc i) e \<le> Suc (rh_dist h n i e')"
proof -
  have prev: "(Suc i + n - 1) mod n = i mod n" by simp
  have "t (Suc i + n - 1) = t i" by (rule rh_inv_cong[OF inv prev])
  moreover have "rh_dist h n (Suc i + n - 1) = rh_dist h n i"
    by (rule ext, rule rh_dist_cong[OF rh_inv_pos[OF inv] prev])
  ultimately show thesis
    using rh_inv_ord[OF inv, of "Suc i"] assms(2,3) that unfolding rh_ord_at_def by auto
qed

subsection \<open>Searching\<close>

lemma rh_run:
  assumes inv: "rh_inv h n t" and e: "t j = Some e" and le: "d \<le> rh_dist h n j e"
  shows "\<exists>e'. t (h e + d) = Some e' \<and> d \<le> rh_dist h n (h e + d) e'"
  using le
proof (induction rule: inc_induct)
  case base
  have home: "(h e + rh_dist h n j e) mod n = j mod n"
    by (rule rh_dist_home[OF rh_inv_pos[OF inv]])
  show ?case
    using e rh_inv_cong[OF inv home] rh_inv_pos[OF inv] by simp
next
  case (step d)
  then obtain e' where e': "t (Suc (h e + d)) = Some e'" "Suc d \<le> rh_dist h n (Suc (h e + d)) e'"
    by auto
  have "0 < rh_dist h n (Suc (h e + d)) e'" using e'(2) by simp
  with e'(1) obtain e'' where "t (h e + d) = Some e''"
    "rh_dist h n (Suc (h e + d)) e' \<le> Suc (rh_dist h n (h e + d) e'')"
    by (rule rh_inv_ordD[OF inv])
  then show ?case using e'(2) by auto
qed

lemma rh_hole_near:
  assumes inv: "rh_inv h n t" and "t i = None"
  obtains d where "d < n" "t (k + d) = None"
proof (rule that)
  show "(i + n - k mod n) mod n < n" using rh_inv_pos[OF inv] by simp
  show "t (k + (i + n - k mod n) mod n) = None"
    using rh_inv_cong[OF inv add_diff_mod[OF rh_inv_pos[OF inv]]] assms(2) by simp
qed

lemma rh_dist_not_last:
  assumes inv: "rh_inv h n t" and "t i = None" and e: "t j = Some e"
  shows "Suc (rh_dist h n j e) < n"
proof (rule ccontr)
  assume "\<not> ?thesis"
  then have last: "n - 1 = rh_dist h n j e"
    using rh_dist_less[OF rh_inv_pos[OF inv], of h j e] by simp
  from rh_hole_near[OF inv assms(2), of "h e"] obtain d where "d < n" "t (h e + d) = None" .
  moreover have "d \<le> rh_dist h n j e" using \<open>d < n\<close> last by simp
  ultimately show False using rh_run[OF inv e] by fastforce
qed

text \<open>The guard of every probing loop: go on past an entry at least as far from its home.\<close>

definition rh_scan :: "('e \<Rightarrow> nat) \<Rightarrow> nat \<Rightarrow> 'e table \<Rightarrow> nat \<Rightarrow> nat \<Rightarrow> bool" where
  "rh_scan h n t k d \<longleftrightarrow> (\<exists>e. t (k + d) = Some e \<and> h e \<noteq> k \<and> d \<le> rh_dist h n (k + d) e)"

lemma rh_scan_stops:
  assumes inv: "rh_inv h n t" and "t i = None"
  obtains d where "d < n" "\<not> rh_scan h n t k d" "\<And>c. c < d \<Longrightarrow> rh_scan h n t k c"
proof -
  from rh_hole_near[OF assms, of k] obtain d where d: "d < n" "t (k + d) = None" .
  then have "\<not> rh_scan h n t k d" by (simp add: rh_scan_def)
  then obtain m where "m \<le> d" "\<not> rh_scan h n t k m" "\<And>c. c < m \<Longrightarrow> rh_scan h n t k c"
    using least_stop[of "rh_scan h n t k" d] by blast
  with d(1) show thesis by (intro that[of m]) auto
qed

lemma rh_found:
  assumes inv: "rh_inv h n t" and d: "d < n" "\<not> rh_scan h n t (h e) d"
    "\<And>c. c < d \<Longrightarrow> rh_scan h n t (h e) c" and e: "t j = Some e"
  shows "t (h e + d) = Some e"
proof -
  let ?d = "rh_dist h n j e"
  have n: "0 < n" using inv by (rule rh_inv_pos)
  have home: "t (h e + ?d) = Some e"
    using rh_inv_cong[OF inv rh_dist_home[OF n, of h e j]] e by simp
  have "\<not> ?d < d" using d(3)[of ?d] home by (auto simp: rh_scan_def)
  moreover have "\<not> d < ?d"
  proof
    assume "d < ?d"
    then obtain e' where e': "t (h e + d) = Some e'" "d \<le> rh_dist h n (h e + d) e'"
      using rh_run[OF inv e, of d] by auto
    then have "h e' = h e" using d(2) by (auto simp: rh_scan_def)
    then have "(h e + d) mod n = (h e + ?d) mod n"
      using rh_inv_inj[OF inv e'(1) home] by simp
    then have "d = ?d" using mod_add_cancel_left[of "h e" d n ?d] d(1) rh_dist_less[OF n] by simp
    with \<open>d < ?d\<close> show False by simp
  qed
  ultimately have "?d = d" by simp
  with home show ?thesis by simp
qed

lemma rh_search:
  assumes inv: "rh_inv h n t" and d: "d < n" "\<not> rh_scan h n t k d"
    "\<And>c. c < d \<Longrightarrow> rh_scan h n t k c"
  shows "(e \<in> rh_set t \<and> h e = k) \<longleftrightarrow> (t (k + d) = Some e \<and> h e = k)"
  using rh_found[OF inv, of d e] d by (auto simp: rh_set_def)

lemma rh_set_inj: "rh_inv h n t \<Longrightarrow> inj_on h (rh_set t)"
proof (rule inj_onI)
  fix e e' assume inv: "rh_inv h n t" and "e \<in> rh_set t" "e' \<in> rh_set t" and eq: "h e = h e'"
  then obtain i j where ij: "t i = Some e" "t j = Some e'" by (auto simp: rh_set_def)
  from rh_inv_cong[OF inv rh_inv_inj[OF inv ij eq]] ij show "e = e'" by simp
qed

lemma rh_set_slots: "rh_inv h n t \<Longrightarrow> rh_set t = (\<lambda>i. the (t i)) ` {i. i < n \<and> t i \<noteq> None}"
proof (intro equalityI subsetI)
  fix e assume inv: "rh_inv h n t" and "e \<in> rh_set t"
  then obtain i where "t i = Some e" by (auto simp: rh_set_def)
  moreover have "t (i mod n) = t i" by (rule rh_inv_cong[OF inv]) simp
  ultimately show "e \<in> (\<lambda>i. the (t i)) ` {i. i < n \<and> t i \<noteq> None}"
    using rh_inv_pos[OF inv] by (intro image_eqI[of _ _ "i mod n"]) auto
qed (auto simp: rh_set_def)

lemma finite_rh_set: "rh_inv h n t \<Longrightarrow> finite (rh_set t)"
  by (simp add: rh_set_slots)

lemma rh_card_slots:
  assumes inv: "rh_inv h n t"
  shows "card (rh_set t) = card {i. i < n \<and> t i \<noteq> None}"
proof -
  have "inj_on (\<lambda>i. the (t i)) {i. i < n \<and> t i \<noteq> None}"
  proof (rule inj_onI)
    fix x y assume "x \<in> {i. i < n \<and> t i \<noteq> None}" "y \<in> {i. i < n \<and> t i \<noteq> None}" "the (t x) = the (t y)"
    then obtain e where e: "t x = Some e" "t y = Some e" and "x < n" "y < n" by auto
    from rh_inv_inj[OF inv e refl] \<open>x < n\<close> \<open>y < n\<close> show "x = y" by simp
  qed
  then show ?thesis by (simp add: rh_set_slots[OF inv] card_image)
qed

lemma rh_hole_iff:
  assumes inv: "rh_inv h n t"
  shows "card (rh_set t) < n \<longleftrightarrow> (\<exists>i. t i = None)"
proof
  assume less: "card (rh_set t) < n"
  show "\<exists>i. t i = None"
  proof (rule ccontr)
    assume "\<not> ?thesis"
    then have "{i. i < n \<and> t i \<noteq> None} = {..<n}" by (simp add: lessThan_def)
    with less show False by (simp add: rh_card_slots[OF inv])
  qed
next
  assume "\<exists>i. t i = None"
  then obtain i where "t i = None" by blast
  from rh_hole_near[OF inv this, of 0] obtain d where "d < n" "t (0 + d) = None" .
  then have "d \<in> {..<n}" "d \<notin> {i. i < n \<and> t i \<noteq> None}" by simp_all
  then have "{i. i < n \<and> t i \<noteq> None} \<subset> {..<n}" by blast
  then have "card {i. i < n \<and> t i \<noteq> None} < card {..<n}" by (intro psubset_card_mono) auto
  then show "card (rh_set t) < n" by (simp add: rh_card_slots[OF inv])
qed

subsection \<open>Shifting a run of entries\<close>

text \<open>
  \<open>rh_ins\<close> puts an entry in slot \<open>p\<close> and moves the \<open>m\<close> entries from there one slot on;
  \<open>rh_del\<close> drops the entry of slot \<open>p\<close> and moves the \<open>m\<close> entries after it one slot back.
\<close>

definition rh_off :: "nat \<Rightarrow> nat \<Rightarrow> nat \<Rightarrow> nat" where
  "rh_off n p i = (i + n - p mod n) mod n"

definition rh_ins :: "nat \<Rightarrow> 'e table \<Rightarrow> nat \<Rightarrow> nat \<Rightarrow> 'e \<Rightarrow> 'e table" where
  "rh_ins n t p m e = (\<lambda>i. let c = rh_off n p i in
     if c = 0 then Some e else if c \<le> m then t (p + c - 1) else t i)"

definition rh_del :: "nat \<Rightarrow> 'e table \<Rightarrow> nat \<Rightarrow> nat \<Rightarrow> 'e table" where
  "rh_del n t p m = (\<lambda>i. let c = rh_off n p i in
     if c < m then t (p + c + 1) else if c = m then None else t i)"

lemma rh_off_add [simp]: "c < n \<Longrightarrow> rh_off n p (p + c) = c"
  unfolding rh_off_def by (rule mod_diff_unique) auto

lemma rh_off_period [simp]: "rh_off n p (i + n) = rh_off n p i"
proof (cases "n = 0")
  case False
  then have "p mod n \<le> i + n" by (metis le_add2 less_imp_le mod_less_divisor not_gr0 order_trans)
  then have "i + n + n - p mod n = (i + n - p mod n) + n" by simp
  then show ?thesis by (simp add: rh_off_def)
qed (simp add: rh_off_def)

lemma rh_off_less: "0 < n \<Longrightarrow> rh_off n p i < n"
  by (simp add: rh_off_def)

lemma rh_off_eq_iff:
  assumes "c < n"
  shows "rh_off n p i = c \<longleftrightarrow> i mod n = (p + c) mod n"
proof
  assume "rh_off n p i = c"
  then show "i mod n = (p + c) mod n" using assms add_diff_mod[of n p i] by (auto simp: rh_off_def)
next
  assume "i mod n = (p + c) mod n"
  then show "rh_off n p i = c" unfolding rh_off_def by (intro mod_diff_unique) (use assms in auto)
qed

lemma rh_off_cases:
  assumes "0 < n" obtains c where "c < n" "(p + c) mod n = i mod n" "rh_off n p i = c"
  using add_diff_mod[OF assms, of p i] rh_off_less[OF assms, of p i] unfolding rh_off_def by blast

lemma rh_ins_period: "\<forall>i. t (i + n) = t i \<Longrightarrow> \<forall>i. rh_ins n t p m e (i + n) = rh_ins n t p m e i"
  by (simp add: rh_ins_def Let_def)

lemma rh_del_period: "\<forall>i. t (i + n) = t i \<Longrightarrow> \<forall>i. rh_del n t p m (i + n) = rh_del n t p m i"
  by (simp add: rh_del_def Let_def)

lemma rh_ins_at:
  assumes "c < n"
  shows "rh_ins n t p m e (p + c) = (if c = 0 then Some e else if c \<le> m then t (p + c - 1) else t (p + c))"
  using assms by (simp add: rh_ins_def)

lemma rh_del_at:
  assumes "c < n"
  shows "rh_del n t p m (p + c) = (if c < m then t (p + c + 1) else if c = m then None else t (p + c))"
  using assms by (simp add: rh_del_def)

lemma table_eqI:
  fixes t t' :: "'e table"
  assumes "0 < n" "\<forall>i. t (i + n) = t i" "\<forall>i. t' (i + n) = t' i"
    and "\<And>c. c < n \<Longrightarrow> t (p + c) = t' (p + c)"
  shows "t = t'"
proof
  fix i
  obtain c where "c < n" "(p + c) mod n = i mod n" using rh_off_cases[OF assms(1), of p i] by blast
  with rh_period_cong[OF assms(2), of "p + c" i] rh_period_cong[OF assms(3), of "p + c" i] assms(4)
  show "t i = t' i" by simp
qed

lemma rh_set_offsets:
  fixes t :: "'e table"
  assumes "0 < n" "\<forall>i. t (i + n) = t i"
  shows "rh_set t = {e. \<exists>c<n. t (p + c) = Some e}"
proof (intro equalityI subsetI CollectI)
  fix e assume "e \<in> rh_set t"
  then obtain i where i: "t i = Some e" by (auto simp: rh_set_def)
  obtain c where "c < n" "(p + c) mod n = i mod n" using rh_off_cases[OF assms(1), of p i] by blast
  then show "\<exists>c<n. t (p + c) = Some e" using rh_period_cong[OF assms(2)] i by metis
qed (auto simp: rh_set_def)

lemma rh_set_ins:
  fixes t :: "'e table"
  assumes n: "0 < n" and per: "\<forall>i. t (i + n) = t i" and m: "m < n" "t (p + m) = None"
  shows "rh_set (rh_ins n t p m e) = insert e (rh_set t)"
  unfolding rh_set_offsets[of n "rh_ins n t p m e" p, OF n rh_ins_period[OF per]]
    rh_set_offsets[of n t p, OF n per]
proof (intro equalityI subsetI)
  fix x assume "x \<in> {x. \<exists>c<n. rh_ins n t p m e (p + c) = Some x}"
  then obtain c where c: "c < n" "rh_ins n t p m e (p + c) = Some x" by blast
  show "x \<in> insert e {x. \<exists>c<n. t (p + c) = Some x}"
  proof (cases "c = 0 \<or> m < c")
    case True then show ?thesis using c by (auto simp: rh_ins_at split: if_splits)
  next
    case False
    then have "t (p + (c - 1)) = Some x" using c by (simp add: rh_ins_at)
    then show ?thesis using c(1) less_imp_diff_less[of c n 1] by blast
  qed
next
  fix x assume "x \<in> insert e {x. \<exists>c<n. t (p + c) = Some x}"
  then consider "x = e" | c where "c < n" "t (p + c) = Some x" by blast
  then show "x \<in> {x. \<exists>c<n. rh_ins n t p m e (p + c) = Some x}"
  proof cases
    case 1
    then have "rh_ins n t p m e (p + 0) = Some x" using n by (subst rh_ins_at) simp_all
    then show ?thesis using n by blast
  next
    case 2
    show ?thesis
    proof (cases "c < m")
      case True
      then have "rh_ins n t p m e (p + Suc c) = Some x" using 2 m by (subst rh_ins_at) auto
      then show ?thesis using True m by (intro CollectI exI[of _ "Suc c"]) simp
    next
      case False
      then have "m < c" using 2 m by (cases "c = m") auto
      then have "rh_ins n t p m e (p + c) = Some x" using 2 by (subst rh_ins_at) auto
      then show ?thesis using 2 by blast
    qed
  qed
qed

lemma rh_set_del:
  fixes t :: "'e table"
  assumes inv: "rh_inv h n t" and m: "m < n" and e: "t p = Some e"
  shows "rh_set (rh_del n t p m) = rh_set t - {e}"
proof -
  have n: "0 < n" and per: "\<forall>i. t (i + n) = t i" using inv by (auto simp: rh_inv_def)
  have only: "c = 0" if "c < n" "t (p + c) = Some e" for c
    using rh_inv_inj[OF inv that(2) e refl] mod_add_cancel_left[of p c n 0] that(1) by simp
  show ?thesis
    unfolding rh_set_offsets[of n "rh_del n t p m" p, OF n rh_del_period[OF per]]
      rh_set_offsets[of n t p, OF n per]
  proof (intro equalityI subsetI)
    fix x assume "x \<in> {x. \<exists>c<n. rh_del n t p m (p + c) = Some x}"
    then obtain c where c: "c < n" "rh_del n t p m (p + c) = Some x" by blast
    define b where "b = (if c < m then Suc c else c)"
    have b: "b < n" "0 < b" "t (p + b) = Some x"
      using c m by (auto simp: rh_del_at b_def split: if_splits)
    then have "x \<noteq> e" using only[of b] by auto
    then show "x \<in> {x. \<exists>c<n. t (p + c) = Some x} - {e}" using b by blast
  next
    fix x assume "x \<in> {x. \<exists>c<n. t (p + c) = Some x} - {e}"
    then obtain c where c: "c < n" "t (p + c) = Some x" "x \<noteq> e" by blast
    then have "c \<noteq> 0" using e by (cases c) auto
    define b where "b = (if c \<le> m then c - 1 else c)"
    have "b < n" "rh_del n t p m (p + b) = Some x"
      using c \<open>c \<noteq> 0\<close> m rh_del_at[of "c - 1" n t p m] rh_del_at[of c n t p m] by (auto simp: b_def)
    then show "x \<in> {x. \<exists>c<n. rh_del n t p m (p + c) = Some x}" by blast
  qed
qed

text \<open>Hash values stay distinct when the entries do.\<close>

lemma rh_inj_slots:
  fixes t :: "'e table"
  assumes n: "0 < n" and per: "\<forall>i. t (i + n) = t i"
    and inj: "\<And>c d e e'. c < n \<Longrightarrow> d < n \<Longrightarrow> t (p + c) = Some e \<Longrightarrow> t (p + d) = Some e' \<Longrightarrow> h e = h e' \<Longrightarrow> c = d"
    and "t i = Some e" "t j = Some e'" "h e = h e'"
  shows "i mod n = j mod n"
proof -
  obtain c where c: "c < n" "(p + c) mod n = i mod n" using rh_off_cases[OF n, of p i] by blast
  obtain d where d: "d < n" "(p + d) mod n = j mod n" using rh_off_cases[OF n, of p j] by blast
  have "t (p + c) = Some e" "t (p + d) = Some e'"
    using rh_period_cong[OF per c(2)] rh_period_cong[OF per d(2)] assms(4,5) by simp_all
  then have "c = d" using inj c(1) d(1) assms(6) by blast
  then show ?thesis using c(2) d(2) by simp
qed

lemma rh_step_away:
  assumes "rh_inv h n t" "t i = None" "t j = Some x"
  shows "rh_dist h n (Suc j) x = Suc (rh_dist h n j x)"
  using rh_dist_not_last[OF assms] rh_dist_Suc[OF rh_inv_pos[OF assms(1)], of h j x] by simp

lemma rh_ord_atI:
  fixes t :: "'e table"
  assumes "0 < n" "\<forall>i. t (i + n) = t i"
    and "\<And>x. t (Suc i) = Some x \<Longrightarrow> 0 < rh_dist h n (Suc i) x \<Longrightarrow>
      \<exists>y. t i = Some y \<and> rh_dist h n (Suc i) x \<le> Suc (rh_dist h n i y)"
  shows "rh_ord_at h n t (Suc i)"
proof -
  have "t (Suc i + n - 1) = t i" using assms(2) by simp
  moreover have "rh_dist h n (Suc i + n - 1) = rh_dist h n i"
    by (rule ext, rule rh_dist_cong[OF assms(1)]) simp
  ultimately show ?thesis using assms(3) unfolding rh_ord_at_def by simp
qed

lemma rh_ord_all_Suc:
  fixes t :: "'e table"
  assumes "0 < n" "\<forall>i. t (i + n) = t i" "\<And>c. c < n \<Longrightarrow> rh_ord_at h n t (Suc (p + c))"
  shows "rh_ord_at h n t i"
  using rh_ord_all[OF assms(1,2), of h "Suc p" i] assms(3) by simp

text \<open>Where the insertion point comes from: the scan stopped there, on an empty slot or a richer entry.\<close>

lemma rh_inv_ins_ord:
  fixes t :: "'e table"
  assumes inv: "rh_inv h n t" and e: "h e = k"
    and d: "d < n" "\<And>c. c < d \<Longrightarrow> rh_scan h n t k c"
    and stop: "\<And>x. t (k + d) = Some x \<Longrightarrow> rh_dist h n (k + d) x < d"
    and m: "m < n" "t (k + d + m) = None" "\<And>c. c < m \<Longrightarrow> t (k + d + c) \<noteq> None"
    and c: "c < n"
  shows "rh_ord_at h n (rh_ins n t (k + d) m e) (Suc (k + d + c))" (is "rh_ord_at h n ?t (Suc (?p + c))")
proof (rule rh_ord_atI[OF rh_inv_pos[OF inv]])
  have n: "0 < n" and per: "\<forall>i. t (i + n) = t i" using inv by (auto simp: rh_inv_def)
  note at = rh_ins_at[of _ n t ?p m e]
  note step = rh_step_away[OF inv m(2)]
  show "\<forall>i. ?t (i + n) = ?t i" by (rule rh_ins_period[OF per])
  fix x assume x: "?t (Suc (?p + c)) = Some x" and pos: "0 < rh_dist h n (Suc (?p + c)) x"
  consider "Suc c = n" | "Suc c < n" "c = 0" "c < m" | "Suc c < n" "0 < c" "c < m"
    | "Suc c < n" "c = m" | "Suc c < n" "m < c" using c by linarith
  then show "\<exists>y. ?t (?p + c) = Some y \<and> rh_dist h n (Suc (?p + c)) x \<le> Suc (rh_dist h n (?p + c) y)"
  proof cases
    case 1
    have home: "Suc (?p + c) mod n = ?p mod n" using 1 by (metis add_Suc_right mod_add_self2)
    have "?t (Suc (?p + c)) = ?t (?p + 0)" "rh_dist h n (Suc (?p + c)) x = rh_dist h n ?p x"
      using rh_period_cong[OF rh_ins_period[OF per] home, of ?p m e] rh_dist_cong[OF n home] by simp_all
    moreover have "rh_dist h n ?p e = d" using rh_dist_add[OF d(1), of h e] e by simp
    ultimately have "x = e" "rh_dist h n (Suc (?p + c)) x = d"
      using x n at[of 0] by simp_all
    then have "0 < d" using pos by simp
    then obtain y where y: "t (k + (d - 1)) = Some y" "d - 1 \<le> rh_dist h n (k + (d - 1)) y"
      using d(2)[of "d - 1"] by (auto simp: rh_scan_def)
    have bwd: "(?p + c) mod n = (k + (d - 1)) mod n"
    proof -
      have "?p + c = k + (d - 1) + n" using 1 \<open>0 < d\<close> by simp
      then show ?thesis by (simp only: mod_add_self2)
    qed
    have "t (?p + c) = Some y" "rh_dist h n (?p + c) y = rh_dist h n (k + (d - 1)) y"
      using rh_period_cong[OF per bwd] rh_dist_cong[OF n bwd] y(1) by simp_all
    moreover have "m < c" using 1 m(1,2) calculation(1) by (cases "m = c") auto
    ultimately show ?thesis
      using at[of c] c y(2) \<open>0 < d\<close> \<open>rh_dist h n (Suc (?p + c)) x = d\<close> by auto
  next
    case 2
    then have "t ?p = Some x" using x at[of "Suc c"] by simp
    moreover have "rh_dist h n ?p e = d" using rh_dist_add[OF d(1), of h e] e by simp
    ultimately show ?thesis using 2 at[of 0] step stop[of x] n by simp
  next
    case 3
    then obtain b where b: "c = Suc b" by (cases c) auto
    have tx: "t (Suc (?p + b)) = Some x" using x at[of "Suc c"] 3 b by simp
    obtain z where z: "t (?p + b) = Some z" using m(3)[of b] 3 b by auto
    have tz: "?t (?p + c) = Some z" using z at[of c] 3 b by simp
    have "rh_dist h n (Suc (?p + b)) x \<le> Suc (rh_dist h n (?p + b) z)"
    proof (cases "0 < rh_dist h n (Suc (?p + b)) x")
      case True
      then show ?thesis using rh_inv_ordD[OF inv tx] z by (metis option.inject)
    qed simp
    then show ?thesis using tz step[OF tx] step[OF z] b by simp
  next
    case 4
    then have "t (Suc (?p + m)) = Some x" using x at[of "Suc c"] by simp
    then show ?thesis using rh_inv_ordD[OF inv _ ] pos 4 m(2) by (metis option.distinct(1))
  next
    case 5
    then have tx: "t (Suc (?p + c)) = Some x" using x at[of "Suc c"] by simp
    from rh_inv_ordD[OF inv tx pos] show ?thesis using at[of c] 5 by auto
  qed
qed

lemma rh_inv_ins:
  fixes t :: "'e table"
  assumes inv: "rh_inv h n t" and e: "h e = k"
    and d: "d < n" "\<And>c. c < d \<Longrightarrow> rh_scan h n t k c"
    and stop: "\<And>x. t (k + d) = Some x \<Longrightarrow> rh_dist h n (k + d) x < d"
    and fresh: "\<And>x. x \<in> rh_set t \<Longrightarrow> h x \<noteq> k"
    and m: "m < n" "t (k + d + m) = None" "\<And>c. c < m \<Longrightarrow> t (k + d + c) \<noteq> None"
  shows "rh_inv h n (rh_ins n t (k + d) m e)" (is "rh_inv h n ?t")
proof -
  have n: "0 < n" and per: "\<forall>i. t (i + n) = t i" using inv by (auto simp: rh_inv_def)
  note per' = rh_ins_period[OF per, of "k + d" m e]
  have "rh_ord_at h n ?t i" for i
    by (rule rh_ord_all_Suc[OF n per']) (rule rh_inv_ins_ord[OF inv e d stop m], auto)
  moreover have "b = c" if bc: "b < n" "c < n" and x: "?t (k + d + b) = Some x" "?t (k + d + c) = Some x'"
    and eq: "h x = h x'" for b c x x'
  proof -
    define old where "old = (\<lambda>b. if b \<le> m then b - 1 else b)"
    have src: "b = 0 \<and> x = e \<or> b \<noteq> 0 \<and> t (k + d + old b) = Some x"
      if "b < n" "?t (k + d + b) = Some x" for b x
      using that by (auto simp: rh_ins_at old_def split: if_splits)
    have key: "h x = k \<longleftrightarrow> b = 0" if "b < n" "?t (k + d + b) = Some x" for b x
      using src[OF that] fresh e by (auto simp: rh_set_def)
    show ?thesis
    proof (cases "b = 0 \<or> c = 0")
      case True
      then show ?thesis using key[OF bc(1) x(1)] key[OF bc(2) x(2)] eq by auto
    next
      case False
      then have "(k + d + old b) mod n = (k + d + old c) mod n"
        using src[OF bc(1) x(1)] src[OF bc(2) x(2)] rh_inv_inj[OF inv _ _ eq] by blast
      then have "old b = old c"
        using mod_add_cancel_left[of "k + d" "old b" n "old c"] bc by (simp add: old_def split: if_splits)
      then show ?thesis using False by (auto simp: old_def split: if_splits)
    qed
  qed
  then have "i mod n = j mod n" if "?t i = Some x" "?t j = Some x'" "h x = h x'" for i j x x'
    by (rule rh_inj_slots[OF n per' _ that])
  ultimately show ?thesis using n per' unfolding rh_inv_def by blast
qed

lemma rh_inv_del:
  fixes t :: "'e table"
  assumes inv: "rh_inv h n t" and e: "t p = Some e"
    and m: "Suc m < n" "\<And>c x. c < m \<Longrightarrow> \<exists>x. t (Suc (p + c)) = Some x \<and> 0 < rh_dist h n (Suc (p + c)) x"
    and stop: "\<And>x. t (Suc (p + m)) = Some x \<Longrightarrow> rh_dist h n (Suc (p + m)) x = 0"
  shows "rh_inv h n (rh_del n t p m)" (is "rh_inv h n ?t")
proof -
  have n: "0 < n" and per: "\<forall>i. t (i + n) = t i" using inv by (auto simp: rh_inv_def)
  note per' = rh_del_period[OF per, of p m]
  note at = rh_del_at[of _ n t p m]
  note ord = rh_inv_ordD[OF inv]
  have bwd: "rh_dist h n (p + c) x = rh_dist h n (Suc (p + c)) x - 1"
    if "0 < rh_dist h n (Suc (p + c)) x" for c x
    using that rh_dist_Suc[OF n, of h "p + c" x] by (auto split: if_splits)
  have "rh_ord_at h n ?t (Suc (p + c))" if c: "c < n" for c
  proof (rule rh_ord_atI[OF n per'])
    fix x assume x: "?t (Suc (p + c)) = Some x" and pos: "0 < rh_dist h n (Suc (p + c)) x"
    consider "Suc c = n" | "Suc c < n" "Suc c < m" | "Suc c < n" "Suc c = m" | "Suc c < n" "m \<le> c" using c by linarith
    then show "\<exists>y. ?t (p + c) = Some y \<and> rh_dist h n (Suc (p + c)) x \<le> Suc (rh_dist h n (p + c) y)"
    proof cases
      case 1
      have home: "Suc (p + c) mod n = p mod n" using 1 by (metis add_Suc_right mod_add_self2)
      have px: "?t p = Some x" "0 < rh_dist h n p x" and dx: "rh_dist h n (Suc (p + c)) x = rh_dist h n p x"
        using rh_period_cong[OF per' home] rh_dist_cong[OF n home, of h x] x pos by simp_all
      then have "m \<noteq> 0" using at[of 0] n by (auto split: if_splits)
      then have tx: "t (Suc p) = Some x" using px at[of 0] n by simp
      have "0 < rh_dist h n (Suc p) x" using m(2)[of 0] \<open>m \<noteq> 0\<close> tx by auto
      from ord[OF tx this] obtain y where y: "t p = Some y" "rh_dist h n (Suc p) x \<le> Suc (rh_dist h n p y)" .
      have "rh_dist h n p x \<le> rh_dist h n p y" using bwd[of 0 x] y(2) \<open>0 < rh_dist h n (Suc p) x\<close> by simp
      moreover have tc: "t (Suc (p + c)) = t p" "rh_dist h n (Suc (p + c)) y = rh_dist h n p y"
        using rh_period_cong[OF per home] rh_dist_cong[OF n home] by simp_all
      ultimately have "0 < rh_dist h n (Suc (p + c)) y" using px by simp
      with tc(1) y(1) obtain z where "t (p + c) = Some z" "rh_dist h n (Suc (p + c)) y \<le> Suc (rh_dist h n (p + c) z)"
        using ord[of "p + c" y] by metis
      moreover have "m < c" using m(1) 1 by simp
      ultimately show ?thesis
        using at[of c] c dx tc(2) \<open>rh_dist h n p x \<le> rh_dist h n p y\<close> by auto
    next
      case 2
      then have tx: "t (Suc (p + Suc c)) = Some x" using x at[of "Suc c"] by simp
      have px: "0 < rh_dist h n (Suc (p + Suc c)) x" using m(2)[of "Suc c"] 2 tx by auto
      obtain y where y: "t (Suc (p + c)) = Some y" "0 < rh_dist h n (Suc (p + c)) y"
        using m(2)[of c] 2 by auto
      have "rh_dist h n (Suc (p + Suc c)) x \<le> Suc (rh_dist h n (Suc (p + c)) y)"
        using ord[OF tx px] y(1) by auto
      then show ?thesis using at[of c] 2 y bwd[of c y] bwd[of "Suc c" x] px by simp
    next
      case 3
      have "?t (p + Suc c) = None" using at[OF \<open>Suc c < n\<close>] 3(2) by simp
      then show ?thesis using x by (simp only: add_Suc_right) simp
    next
      case 4
      then have tx: "t (Suc (p + c)) = Some x" using x at[of "Suc c"] by (simp split: if_splits)
      have "m < c" using 4 stop tx pos by (cases "c = m") auto
      then show ?thesis using ord[OF tx pos] at[of c] c by auto
    qed
  qed
  then have "rh_ord_at h n ?t i" for i by (rule rh_ord_all_Suc[OF n per'])
  moreover have "b = c" if bc: "b < n" "c < n" and x: "?t (p + b) = Some x" "?t (p + c) = Some x'"
    and eq: "h x = h x'" for b c x x'
  proof -
    define old where "old = (\<lambda>b. if b < m then Suc b else b)"
    have src: "t (p + old b) = Some x \<and> b \<noteq> m \<and> old b < n" if "b < n" "?t (p + b) = Some x" for b x
      using that m(1) by (auto simp: rh_del_at old_def split: if_splits)
    have "(p + old b) mod n = (p + old c) mod n"
      using src[OF bc(1) x(1)] src[OF bc(2) x(2)] rh_inv_inj[OF inv _ _ eq] by blast
    then have "old b = old c"
      using mod_add_cancel_left[of p "old b" n "old c"] src[OF bc(1) x(1)] src[OF bc(2) x(2)] by simp
    then show ?thesis using src[OF bc(1) x(1)] src[OF bc(2) x(2)] by (auto simp: old_def split: if_splits)
  qed
  then have "i mod n = j mod n" if "?t i = Some x" "?t j = Some x'" "h x = h x'" for i j x x'
    by (rule rh_inj_slots[OF n per' _ that])
  ultimately show ?thesis using n per' unfolding rh_inv_def by blast
qed

text \<open>Overwriting an entry with another of the same hash.\<close>

definition rh_put :: "nat \<Rightarrow> 'e table \<Rightarrow> nat \<Rightarrow> 'e \<Rightarrow> 'e table" where
  "rh_put n t p e = (\<lambda>i. if i mod n = p mod n then Some e else t i)"

lemma rh_dist_same: "h e = h e' \<Longrightarrow> rh_dist h n i e = rh_dist h n i e'"
  by (simp add: rh_dist_def)

lemma rh_put_at:
  assumes inv: "rh_inv h n t" and p: "t p = Some e'"
  shows "rh_put n t p e i = map_option (\<lambda>x. if h x = h e' then e else x) (t i)"
proof (cases "i mod n = p mod n")
  case True
  then show ?thesis using rh_inv_cong[OF inv True] p by (simp add: rh_put_def)
next
  case False
  then have "h x \<noteq> h e'" if "t i = Some x" for x
    using rh_inv_inj[OF inv that p] by blast
  then show ?thesis using False by (cases "t i") (simp_all add: rh_put_def)
qed

lemma rh_inv_put:
  assumes inv: "rh_inv h n t" and p: "t p = Some e'" and eq: "h e = h e'"
  shows "rh_inv h n (rh_put n t p e)"
proof -
  define g where "g = (\<lambda>x. if h x = h e' then e else x)"
  have at: "rh_put n t p e i = map_option g (t i)" for i
    unfolding g_def by (rule rh_put_at[OF inv p])
  have hg: "h (g x) = h x" for x by (simp add: g_def eq)
  have dist: "rh_dist h n i (g x) = rh_dist h n i x" for i x by (rule rh_dist_same[of h "g x" x, OF hg])
  have "rh_ord_at h n (rh_put n t p e) i" for i
    unfolding rh_ord_at_def
  proof (intro allI impI)
    fix y assume "rh_put n t p e i = Some y \<and> 0 < rh_dist h n i y"
    then obtain x where x: "t i = Some x" "y = g x" "0 < rh_dist h n i x" by (auto simp: at dist)
    from rh_inv_ord[OF inv, of i] x(1,3) obtain z
      where "t (i + n - 1) = Some z" "rh_dist h n i x \<le> Suc (rh_dist h n (i + n - 1) z)"
      unfolding rh_ord_at_def by blast
    then show "\<exists>e'. rh_put n t p e (i + n - 1) = Some e' \<and> rh_dist h n i y \<le> Suc (rh_dist h n (i + n - 1) e')"
      unfolding at by (simp add: x(2) dist)
  qed
  moreover have "i mod n = j mod n"
    if ij: "rh_put n t p e i = Some x" "rh_put n t p e j = Some x'" and hx: "h x = h x'" for i j x x'
  proof -
    obtain y z where y: "t i = Some y" "x = g y" and z: "t j = Some z" "x' = g z"
      using ij unfolding at by auto
    have "h y = h z" using hx unfolding y z hg .
    then show ?thesis by (rule rh_inv_inj[OF inv y(1) z(1)])
  qed
  moreover have "rh_put n t p e (i + n) = rh_put n t p e i" for i
    unfolding at rh_inv_period[OF inv] ..
  ultimately show ?thesis using rh_inv_pos[OF inv] unfolding rh_inv_def by blast
qed

lemma rh_set_put:
  assumes inv: "rh_inv h n t" and p: "t p = Some e'" and eq: "h e = h e'"
  shows "rh_set (rh_put n t p e) = insert e (rh_set t - {e'})"
proof (intro equalityI subsetI)
  fix x assume "x \<in> rh_set (rh_put n t p e)"
  then obtain i y where "t i = Some y" "x = (if h y = h e' then e else y)"
    unfolding rh_set_def rh_put_at[OF inv p] by auto
  then show "x \<in> insert e (rh_set t - {e'})"
    by (auto simp: rh_set_def)
next
  fix x assume "x \<in> insert e (rh_set t - {e'})"
  then consider "x = e" | i where "x \<noteq> e'" "t i = Some x" by (auto simp: rh_set_def)
  then show "x \<in> rh_set (rh_put n t p e)"
  proof cases
    case 1
    then have "rh_put n t p e p = Some x" by (simp add: rh_put_def)
    then show ?thesis unfolding rh_set_def by blast
  next
    case (2 i)
    have "h x \<noteq> h e'"
    proof
      assume "h x = h e'"
      from rh_inv_inj[OF inv 2(2) p this] have "t i = t p" by (rule rh_inv_cong[OF inv])
      then show False using 2 p by simp
    qed
    then have "rh_put n t p e i = Some x" using 2 by (simp add: rh_put_at[OF inv p])
    then show ?thesis unfolding rh_set_def by blast
  qed
qed

lemma rh_inv_empty: "0 < n \<Longrightarrow> rh_inv h n (\<lambda>_. None)"
  by (simp add: rh_inv_def rh_ord_at_def)

lemma rh_set_empty [simp]: "rh_set (\<lambda>_. None) = {}"
  by (simp add: rh_set_def)

end
