(* ===== verification/Interfaces.thy ===== *)
theory Interfaces
  imports Prelude
begin

section \<open>The interfaces between components\<close>

text \<open>
  What the containers promise to the code that calls them. A container is a concrete type with an
  invariant \<open>ok\<close>, an abstraction \<open>abs\<close>, and operations whose laws speak of the abstraction only; the
  containers' theories interpret these locales on the model of the code.
\<close>

subsection \<open>Finite maps from addresses\<close>

locale address_table =
  fixes ok :: "'m \<Rightarrow> bool" and room :: "'m \<Rightarrow> bool" and abs :: "'m \<Rightarrow> 'k \<rightharpoonup> 'v"
    and empty :: "'m" and add :: "'m \<Rightarrow> 'k \<Rightarrow> 'v \<Rightarrow> 'm result" and remove :: "'m \<Rightarrow> 'k \<Rightarrow> 'm result"
    and lookup :: "'m \<Rightarrow> 'k \<Rightarrow> 'v \<Rightarrow> 'v result" and contains :: "'m \<Rightarrow> 'k \<Rightarrow> bool result"
  assumes empty_law: "ok empty \<and> abs empty = Map.empty"
    and add_law: "ok m \<Longrightarrow> room m \<Longrightarrow> \<exists>m'. add m k v = Inr m' \<and> ok m' \<and> abs m' = (abs m)(k \<mapsto> v)"
    and remove_law: "ok m \<Longrightarrow> abs m k \<noteq> None \<Longrightarrow>
      \<exists>m'. remove m k = Inr m' \<and> ok m' \<and> abs m' = (abs m)(k := None)"
    and remove_missing_law: "ok m \<Longrightarrow> abs m k = None \<Longrightarrow> remove m k = Inl Crash"
    and lookup_law: "ok m \<Longrightarrow> lookup m k d = Inr (case abs m k of None \<Rightarrow> d | Some v \<Rightarrow> v)"
    and contains_law: "ok m \<Longrightarrow> contains m k = Inr (abs m k \<noteq> None)"
begin

text \<open>An entry is found after it was added, and no other key notices.\<close>

lemma lookup_add:
  assumes "ok m" "room m"
  obtains m' where "add m k v = Inr m'" "ok m'"
    and "\<And>j d. lookup m' j d = (if j = k then Inr v else lookup m j d)"
    and "\<And>j. contains m' j = (if j = k then Inr True else contains m j)"
  using add_law[OF assms, of k v] lookup_law contains_law assms(1) by auto

lemma lookup_remove:
  assumes "ok m" "contains m k = Inr True"
  obtains m' where "remove m k = Inr m'" "ok m'"
    and "\<And>j d. lookup m' j d = (if j = k then Inr d else lookup m j d)"
    and "\<And>j. contains m' j = (if j = k then Inr False else contains m j)"
  using remove_law[OF assms(1), of k] lookup_law contains_law assms by auto

lemma remove_iff_contains:
  assumes "ok m"
  shows "(\<exists>m'. remove m k = Inr m') \<longleftrightarrow> contains m k = Inr True"
  using remove_law[OF assms, of k] remove_missing_law[OF assms, of k] contains_law[OF assms, of k]
  by (cases "abs m k") auto

end

subsection \<open>Finite sets of addresses\<close>

locale address_bag =
  fixes ok :: "'s \<Rightarrow> bool" and room :: "'s \<Rightarrow> bool" and abs :: "'s \<Rightarrow> 'k set"
    and empty :: "'s" and add :: "'s \<Rightarrow> 'k \<Rightarrow> 's result" and remove :: "'s \<Rightarrow> 'k \<Rightarrow> 's result"
    and contains :: "'s \<Rightarrow> 'k \<Rightarrow> bool result"
  assumes empty_law: "ok empty \<and> abs empty = {}"
    and add_law: "ok s \<Longrightarrow> room s \<Longrightarrow> \<exists>s'. add s k = Inr s' \<and> ok s' \<and> abs s' = insert k (abs s)"
    and remove_law: "ok s \<Longrightarrow> k \<in> abs s \<Longrightarrow> \<exists>s'. remove s k = Inr s' \<and> ok s' \<and> abs s' = abs s - {k}"
    and remove_missing_law: "ok s \<Longrightarrow> k \<notin> abs s \<Longrightarrow> remove s k = Inl Crash"
    and contains_law: "ok s \<Longrightarrow> contains s k = Inr (k \<in> abs s)"
begin

lemma contains_add:
  assumes "ok s" "room s"
  obtains s' where "add s k = Inr s'" "ok s'"
    and "\<And>j. contains s' j = (if j = k then Inr True else contains s j)"
  using add_law[OF assms, of k] contains_law assms(1) by auto

lemma remove_add:
  assumes "ok s" "room s" "k \<notin> abs s"
  obtains s' s'' where "add s k = Inr s'" "remove s' k = Inr s''" "ok s''" "abs s'' = abs s"
proof -
  obtain s' where s': "add s k = Inr s'" "ok s'" "abs s' = insert k (abs s)"
    using add_law[OF assms(1,2), of k] by blast
  then obtain s'' where "remove s' k = Inr s''" "ok s''" "abs s'' = abs s' - {k}"
    using remove_law[of s' k] by auto
  then show thesis using that s' assms(3) by auto
qed

end

subsection \<open>Queues of references\<close>

text \<open>What a tracer asks of its worklist: first in, first out, and \<open>pop\<close> returns \<open>null\<close> exactly when
  it is empty (so \<open>null\<close> must not be pushed). A push may fail for want of memory.\<close>

locale ref_queue =
  fixes ok :: "'q \<Rightarrow> bool" and room :: "'q \<Rightarrow> nat \<Rightarrow> bool" and abs :: "'q \<Rightarrow> 'r list" and null :: 'r
    and push :: "'q \<Rightarrow> 'r \<Rightarrow> 'q result" and pop :: "'q \<Rightarrow> 'r \<times> 'q"
  assumes push_law: "ok q \<Longrightarrow> room q (Suc n) \<Longrightarrow> push q x = Inl Crash
      \<or> (\<exists>q'. push q x = Inr q' \<and> ok q' \<and> room q' n \<and> abs q' = abs q @ [x])"
    and pop_law: "ok q \<Longrightarrow> fst (pop q) = (case abs q of [] \<Rightarrow> null | x # _ \<Rightarrow> x)
      \<and> ok (snd (pop q)) \<and> abs (snd (pop q)) = tl (abs q)"
    and pop_room: "room q n \<Longrightarrow> room (snd (pop q)) n"
begin

lemma push_abs:
  assumes "ok q" "room q (Suc n)" "push q x = Inr q'"
  shows "ok q'" "room q' n" "abs q' = abs q @ [x]"
  using push_law[OF assms(1,2), of x] assms(3) by auto

lemma pop_abs:
  assumes "ok q" "pop q = (x, q')"
  shows "ok q'" "abs q' = tl (abs q)" "x = (case abs q of [] \<Rightarrow> null | x # _ \<Rightarrow> x)"
  using pop_law[OF assms(1)] assms(2) by auto

lemma pop_null_iff:
  assumes "ok q" "null \<notin> set (abs q)"
  shows "fst (pop q) = null \<longleftrightarrow> abs q = []"
  using pop_law[OF assms(1)] assms(2) by (cases "abs q") auto

lemma push_all:
  assumes "ok q" "room q (length xs)" "result_fold (\<lambda>x q. push q x) xs q = Inr q'"
  shows "ok q' \<and> abs q' = abs q @ xs"
  using assms
proof (induction xs arbitrary: q)
  case (Cons x xs)
  then obtain q1 where q1: "push q x = Inr q1" "result_fold (\<lambda>x q. push q x) xs q1 = Inr q'"
    by (auto simp: result_bind_eq_Inr)
  then show ?case using Cons.IH[of q1] push_abs[OF Cons.prems(1) _ q1(1)] Cons.prems(2) by simp
qed simp

end

end
