(* ===== verification/AddressMap.thy ===== *)
theory AddressMap
  imports AddressHash RobinHood Interfaces
begin

section \<open>The address map\<close>

text \<open>
  \<open>src/src/address-map.h\<close>: an open-addressing hash table with Robin Hood probing, whose occupied
  slots are marked in a bit vector. \<open>slots\<close> reads a concrete table as an abstract one of
  theory RobinHood, \<open>hash_map_abs\<close> as a partial map. Shown: every operation keeps the
  representation invariant \<open>hash_map_wf\<close>, its loops stop, and it acts on the partial map as its
  name says. \<open>malloc\<close> is taken to succeed and to return zeroed memory; no operation reads the
  entry of a slot whose bit is clear, so its contents do not matter.
\<close>

record hash_map_entry =
  hm_k :: u64
  hm_v :: u64

record hash_map =
  hm_data :: "hash_map_entry list"
  hm_size :: u64
  hm_n_items :: u64
  hm_bits :: "u8 list"

definition hash_map_clear :: "hash_map \<Rightarrow> hash_map" where
  "hash_map_clear hm =
    hm\<lparr> hm_bits := replicate (unat (hm_size hm div 8)) 0 @ drop (unat (hm_size hm div 8)) (hm_bits hm),
         hm_n_items := 0 \<rparr>"

definition hash_map_init :: "u64 \<Rightarrow> hash_map" where
  "hash_map_init sz = hash_map_clear
    \<lparr> hm_data = replicate (unat (16 * sz) div 16) \<lparr> hm_k = 0, hm_v = 0 \<rparr>,
      hm_size = sz, hm_n_items = 0, hm_bits = replicate (unat (sz div 8)) 0 \<rparr>"

definition hash_map_slot_index :: "hash_map \<Rightarrow> u64 \<Rightarrow> u64" where
  "hash_map_slot_index hm idx = idx AND (hm_size hm - 1)"

definition hash_map_slot_entry :: "hash_map \<Rightarrow> u64 \<Rightarrow> hash_map_entry" where
  "hash_map_slot_entry hm idx = hm_data hm ! unat (hash_map_slot_index hm idx)"

text \<open>An assignment through the pointer that \<open>hash_map_slot_entry\<close> returns.\<close>

definition hash_map_slot_assign :: "hash_map \<Rightarrow> u64 \<Rightarrow> hash_map_entry \<Rightarrow> hash_map" where
  "hash_map_slot_assign hm idx e =
    hm\<lparr> hm_data := (hm_data hm)[unat (hash_map_slot_index hm idx) := e] \<rparr>"

definition hash_map_slot_is_empty :: "hash_map \<Rightarrow> u64 \<Rightarrow> bool" where
  "hash_map_slot_is_empty hm idx =
    (let idx = hash_map_slot_index hm idx in
     hm_bits hm ! unat (idx div 8) AND push_bit (unat (idx mod 8)) 1 = 0)"

definition hash_map_slot_acquire :: "hash_map \<Rightarrow> u64 \<Rightarrow> hash_map" where
  "hash_map_slot_acquire hm idx =
    (let idx = hash_map_slot_index hm idx; byte = unat (idx div 8) in
     hm\<lparr> hm_bits := (hm_bits hm)[byte := hm_bits hm ! byte OR push_bit (unat (idx mod 8)) 1],
          hm_n_items := hm_n_items hm + 1 \<rparr>)"

definition hash_map_slot_release :: "hash_map \<Rightarrow> u64 \<Rightarrow> hash_map" where
  "hash_map_slot_release hm idx =
    (let idx = hash_map_slot_index hm idx; byte = unat (idx div 8) in
     hm\<lparr> hm_bits := (hm_bits hm)[byte := hm_bits hm ! byte AND NOT (push_bit (unat (idx mod 8)) 1)],
          hm_n_items := hm_n_items hm - 1 \<rparr>)"

definition hash_map_slot_distance :: "hash_map \<Rightarrow> u64 \<Rightarrow> u64" where
  "hash_map_slot_distance hm idx =
    hash_map_slot_index hm (idx - hm_k (hash_map_slot_entry hm idx))"

definition hash_map_should_shrink :: "hash_map \<Rightarrow> bool" where
  "hash_map_should_shrink hm = (8 < hm_size hm \<and> hm_n_items hm \<le> drop_bit 3 (hm_size hm))"

definition hash_map_should_grow :: "hash_map \<Rightarrow> bool" where
  "hash_map_should_grow hm = (hm_size hm - drop_bit 3 (hm_size hm) \<le> hm_n_items hm)"

text \<open>The loop \<open>while (slots_to_move--)\<close> of an insertion.\<close>

primrec hash_map_shift_up :: "hash_map \<Rightarrow> u64 \<Rightarrow> nat \<Rightarrow> hash_map" where
  "hash_map_shift_up hm idx 0 = hm"
| "hash_map_shift_up hm idx (Suc s) =
    hash_map_shift_up
      (hash_map_slot_assign hm (idx + of_nat s + 1) (hash_map_slot_entry hm (idx + of_nat s))) idx s"

definition hash_map_do_insert :: "hash_map \<Rightarrow> u64 \<Rightarrow> u64 \<Rightarrow> hash_map result" where
  "hash_map_do_insert hm k v =
    result_bind
      (while_loop (\<lambda>displacement. \<not> hash_map_slot_is_empty hm (k + displacement)
          \<and> displacement < hash_map_slot_distance hm (k + displacement)) (\<lambda>d. d + 1) 0)
    (\<lambda>displacement. result_bind
      (while_loop (\<lambda>displacement. \<not> hash_map_slot_is_empty hm (k + displacement)
          \<and> displacement = hash_map_slot_distance hm (k + displacement)
          \<and> hm_k (hash_map_slot_entry hm (k + displacement)) \<noteq> k) (\<lambda>d. d + 1) displacement)
    (\<lambda>displacement.
      if \<not> hash_map_slot_is_empty hm (k + displacement)
          \<and> displacement = hash_map_slot_distance hm (k + displacement)
      then Inr (hash_map_slot_assign hm (k + displacement)
        ((hash_map_slot_entry hm (k + displacement))\<lparr> hm_v := v \<rparr>))
      else let idx = k + displacement in result_bind
        (while_loop (\<lambda>slots_to_move. \<not> hash_map_slot_is_empty hm (idx + slots_to_move)) (\<lambda>s. s + 1) 0)
      (\<lambda>slots_to_move.
        let hm = hash_map_slot_acquire hm (idx + slots_to_move);
            hm = hash_map_shift_up hm idx (unat slots_to_move)
        in Inr (hash_map_slot_assign hm idx \<lparr> hm_k = k, hm_v = v \<rparr>))))"

definition hash_map_populate :: "hash_map \<Rightarrow> hash_map \<Rightarrow> hash_map result" where
  "hash_map_populate dst src =
    result_fold (\<lambda>i dst.
      if \<not> hash_map_slot_is_empty src (of_nat i)
      then hash_map_do_insert dst (hm_k (hash_map_slot_entry src (of_nat i)))
             (hm_v (hash_map_slot_entry src (of_nat i)))
      else Inr dst) [0..<unat (hm_size src)] dst"

definition hash_map_grow :: "hash_map \<Rightarrow> hash_map result" where
  "hash_map_grow hm = hash_map_populate (hash_map_init (push_bit 1 (hm_size hm))) hm"

definition hash_map_shrink :: "hash_map \<Rightarrow> hash_map result" where
  "hash_map_shrink hm = hash_map_populate (hash_map_init (drop_bit 1 (hm_size hm))) hm"

definition hash_map_insert :: "hash_map \<Rightarrow> u64 \<Rightarrow> u64 \<Rightarrow> hash_map result" where
  "hash_map_insert hm k v =
    result_bind (if hash_map_should_grow hm then hash_map_grow hm else Inr hm)
      (\<lambda>hm. hash_map_do_insert hm k v)"

definition hash_map_remove :: "hash_map \<Rightarrow> u64 \<Rightarrow> hash_map result" where
  "hash_map_remove hm k =
    result_bind
      (while_loop (\<lambda>slot. \<not> hash_map_slot_is_empty hm slot
          \<and> hm_k (hash_map_slot_entry hm slot) \<noteq> k) (\<lambda>slot. slot + 1) k)
    (\<lambda>slot.
      if hash_map_slot_is_empty hm slot then Inl Crash
      else result_bind
        (while_loop (\<lambda>(hm, slot). \<not> hash_map_slot_is_empty hm (slot + 1)
            \<and> hash_map_slot_distance hm (slot + 1) \<noteq> 0)
          (\<lambda>(hm, slot).
            (hash_map_slot_assign hm slot (hash_map_slot_entry hm (slot + 1)), slot + 1))
          (hm, slot))
      (\<lambda>(hm, slot).
        let hm = hash_map_slot_release hm slot in
        if hash_map_should_shrink hm then hash_map_shrink hm else Inr hm))"

text \<open>The search that \<open>hash_map_contains\<close> and \<open>hash_map_lookup\<close> share: the \<open>for\<close> loop, left by its
  condition or by the \<open>return\<close> and \<open>break\<close> in its body.\<close>

definition hash_map_probe :: "hash_map \<Rightarrow> u64 \<Rightarrow> u64 result" where
  "hash_map_probe hm k =
    while_loop (\<lambda>slot. \<not> hash_map_slot_is_empty hm slot
        \<and> hm_k (hash_map_slot_entry hm slot) \<noteq> k
        \<and> \<not> hash_map_slot_distance hm slot < slot - k) (\<lambda>slot. slot + 1) k"

definition hash_map_contains :: "hash_map \<Rightarrow> u64 \<Rightarrow> bool result" where
  "hash_map_contains hm k = result_bind (hash_map_probe hm k)
    (\<lambda>slot. Inr (\<not> hash_map_slot_is_empty hm slot \<and> hm_k (hash_map_slot_entry hm slot) = k))"

definition hash_map_lookup :: "hash_map \<Rightarrow> u64 \<Rightarrow> u64 \<Rightarrow> u64 result" where
  "hash_map_lookup hm k dflt = result_bind (hash_map_probe hm k)
    (\<lambda>slot. Inr (if \<not> hash_map_slot_is_empty hm slot \<and> hm_k (hash_map_slot_entry hm slot) = k
                 then hm_v (hash_map_slot_entry hm slot) else dflt))"

definition hash_map_for_each :: "hash_map \<Rightarrow> (u64 \<Rightarrow> u64 \<Rightarrow> 's \<Rightarrow> 's) \<Rightarrow> 's \<Rightarrow> 's" where
  "hash_map_for_each hm f s =
    fold (\<lambda>i s. if \<not> hash_map_slot_is_empty hm (of_nat i)
                then f (hm_k (hash_map_slot_entry hm (of_nat i))) (hm_v (hash_map_slot_entry hm (of_nat i))) s
                else s) [0..<unat (hm_size hm)] s"

type_synonym address_map = hash_map

definition address_map_init :: address_map where
  "address_map_init = hash_map_init 8"

definition address_map_clear :: "address_map \<Rightarrow> address_map" where
  "address_map_clear hm = hash_map_clear hm"

definition address_map_size :: "address_map \<Rightarrow> u64" where
  "address_map_size hm = hm_n_items hm"

definition address_map_add :: "address_map \<Rightarrow> u64 \<Rightarrow> u64 \<Rightarrow> address_map result" where
  "address_map_add hm addr v = hash_map_insert hm (hash_address addr) v"

definition address_map_remove :: "address_map \<Rightarrow> u64 \<Rightarrow> address_map result" where
  "address_map_remove hm addr = hash_map_remove hm (hash_address addr)"

definition address_map_contains :: "address_map \<Rightarrow> u64 \<Rightarrow> bool result" where
  "address_map_contains hm addr = hash_map_contains hm (hash_address addr)"

definition address_map_lookup :: "address_map \<Rightarrow> u64 \<Rightarrow> u64 \<Rightarrow> u64 result" where
  "address_map_lookup hm addr dflt = hash_map_lookup hm (hash_address addr) dflt"

definition address_map_for_each :: "address_map \<Rightarrow> (u64 \<Rightarrow> u64 \<Rightarrow> 's \<Rightarrow> 's) \<Rightarrow> 's \<Rightarrow> 's" where
  "address_map_for_each hm f s = hash_map_for_each hm (\<lambda>k v s. f (unhash_address k) v s) s"

subsection \<open>Reading a table abstractly\<close>

lemma entry_eq_iff: "\<lparr> hm_k = k, hm_v = v \<rparr> = e \<longleftrightarrow> k = hm_k e \<and> v = hm_v e"
  by (cases e) auto

lemma pair_in_map_iff:
  "(k, v) \<in> set (map (\<lambda>e. (hm_k e, hm_v e)) es) \<longleftrightarrow> \<lparr> hm_k = k, hm_v = v \<rparr> \<in> set es"
  by (induction es) (auto simp: entry_eq_iff)

abbreviation key :: "hash_map_entry \<Rightarrow> nat" where
  "key e \<equiv> unat (hm_k e)"

abbreviation width :: "hash_map \<Rightarrow> nat" where
  "width hm \<equiv> unat (hm_size hm)"

definition slots :: "hash_map \<Rightarrow> hash_map_entry table" where
  "slots hm i = (if hash_map_slot_is_empty hm (of_nat i) then None
                  else Some (hash_map_slot_entry hm (of_nat i)))"

definition hash_map_shape :: "hash_map \<Rightarrow> bool" where
  "hash_map_shape hm \<longleftrightarrow> (\<exists>p. 3 \<le> p \<and> p < 60 \<and> hm_size hm = 2 ^ p)
     \<and> length (hm_data hm) = width hm \<and> length (hm_bits hm) = width hm div 8"

definition hash_map_wf :: "hash_map \<Rightarrow> bool" where
  "hash_map_wf hm \<longleftrightarrow> hash_map_shape hm \<and> rh_inv key (width hm) (slots hm)
     \<and> unat (hm_n_items hm) = card (rh_set (slots hm))
     \<and> card (rh_set (slots hm)) \<le> width hm - width hm div 8"

definition hash_map_entries :: "hash_map \<Rightarrow> hash_map_entry list" where
  "hash_map_entries hm =
    [hash_map_slot_entry hm (of_nat i). i \<leftarrow> [0..<width hm], \<not> hash_map_slot_is_empty hm (of_nat i)]"

definition hash_map_abs :: "hash_map \<Rightarrow> u64 \<rightharpoonup> u64" where
  "hash_map_abs hm = map_of [(hm_k e, hm_v e). e \<leftarrow> hash_map_entries hm]"

lemma shapeE:
  assumes "hash_map_shape hm"
  obtains p where "3 \<le> p" "p < 60" "hm_size hm = 2 ^ p" "width hm = 2 ^ p"
  using assms by (auto simp: hash_map_shape_def unat_exp)

lemma width_bounds:
  assumes "hash_map_shape hm"
  shows "0 < width hm" "8 \<le> width hm" "8 dvd width hm" "width hm dvd 2 ^ 64" "width hm < 2 ^ 60"
proof -
  obtain p where p: "3 \<le> p" "p < 60" "width hm = 2 ^ p" using assms by (rule shapeE)
  show "0 < width hm" using p by simp
  have "(2::nat) ^ 3 dvd 2 ^ p" using p(1) by (rule le_imp_power_dvd)
  then show "8 dvd width hm" using p by simp
  then show "8 \<le> width hm" using \<open>0 < width hm\<close> by (rule dvd_imp_le)
  show "width hm dvd 2 ^ 64" unfolding p(3) using p(2) by (intro le_imp_power_dvd) simp
  show "width hm < 2 ^ 60" unfolding p(3) using p(2) by (intro power_strict_increasing) simp_all
qed

lemma unat_slot_index:
  assumes "hash_map_shape hm"
  shows "unat (hash_map_slot_index hm idx) = unat idx mod width hm"
proof -
  obtain p where p: "hm_size hm = 2 ^ p" "width hm = 2 ^ p" using assms by (rule shapeE)
  show ?thesis unfolding hash_map_slot_index_def p(1) unat_simps using p by simp
qed

lemma mod_width_of_nat:
  assumes "hash_map_shape hm"
  shows "unat (of_nat i :: u64) mod width hm = i mod width hm"
  using width_bounds(4)[OF assms] by (simp add: unat_of_nat mod_mod_cancel)

lemma slot_index_cong:
  assumes "hash_map_shape hm" "unat idx mod width hm = i mod width hm"
  shows "hash_map_slot_index hm idx = hash_map_slot_index hm (of_nat i)"
  using assms by (intro word_unat_eq_iff[THEN iffD2]) (simp add: unat_slot_index mod_width_of_nat)

lemma slots_word:
  assumes sh: "hash_map_shape hm" and at: "unat idx mod width hm = i mod width hm"
  shows "hash_map_slot_is_empty hm idx \<longleftrightarrow> slots hm i = None"
    and "slots hm i = Some e \<Longrightarrow> hash_map_slot_entry hm idx = e"
  using slot_index_cong[OF assms]
  by (auto simp: slots_def hash_map_slot_is_empty_def hash_map_slot_entry_def Let_def split: if_splits)

lemma slots_period:
  assumes "hash_map_shape hm"
  shows "slots hm (i + width hm) = slots hm i"
proof -
  have "hash_map_slot_index hm (of_nat (i + width hm)) = hash_map_slot_index hm (of_nat i)"
    by (rule slot_index_cong[OF assms, of _ i]) (subst mod_width_of_nat[OF assms], simp)
  then show ?thesis
    by (simp only: slots_def hash_map_slot_is_empty_def hash_map_slot_entry_def Let_def)
qed

lemma distance_word:
  assumes sh: "hash_map_shape hm" and at: "unat idx mod width hm = i mod width hm"
    and e: "slots hm i = Some e"
  shows "unat (hash_map_slot_distance hm idx) = rh_dist key (width hm) i e"
proof -
  obtain p where p: "p < 60" "width hm = 2 ^ p" using sh by (rule shapeE)
  have "unat (idx - hm_k e) mod width hm = (unat idx + width hm - key e mod width hm) mod width hm"
    unfolding p(2) using p(1) by (intro unat_diff_mod_exp) simp
  also have "\<dots> = rh_dist key (width hm) (unat idx) e" by (simp add: rh_dist_def)
  also have "\<dots> = rh_dist key (width hm) i e" by (rule rh_dist_cong[OF width_bounds(1)[OF sh] at])
  finally show ?thesis
    unfolding hash_map_slot_distance_def slots_word(2)[OF sh at e] unat_slot_index[OF sh] .
qed

lemma index_add:
  assumes "hash_map_shape hm"
  shows "unat (k + of_nat d :: u64) mod width hm = (unat k + d) mod width hm"
proof -
  obtain p where p: "p < 60" "width hm = 2 ^ p" using assms by (rule shapeE)
  show ?thesis unfolding p(2) using p(1) by (intro unat_mod_exp') simp
qed

lemmas slots_add = slots_word[OF _ index_add] distance_word[OF _ index_add]

subsection \<open>Writing a slot\<close>

lemma slots_alt:
  assumes "hash_map_shape hm"
  defines "j \<equiv> \<lambda>i. i mod width hm"
  shows "slots hm i = (if bit (hm_bits hm ! (j i div 8)) (j i mod 8) then Some (hm_data hm ! j i) else None)"
  using assms
  by (simp add: slots_def hash_map_slot_is_empty_def hash_map_slot_entry_def Let_def
      unat_div_distrib unat_mod_distrib unat_slot_index mod_width_of_nat bit_iff_and_push_bit_not_eq_0)

lemma div_mod_8_eq_iff: "(i::nat) div 8 = j div 8 \<and> i mod 8 = j mod 8 \<longleftrightarrow> i = j"
  by (metis div_mult_mod_eq)

lemma slot_assign:
  assumes sh: "hash_map_shape hm" and at: "unat idx mod width hm = p mod width hm"
  shows "hash_map_shape (hash_map_slot_assign hm idx e)"
    and "hm_size (hash_map_slot_assign hm idx e) = hm_size hm"
    and "hm_n_items (hash_map_slot_assign hm idx e) = hm_n_items hm"
    and "slots (hash_map_slot_assign hm idx e) i =
      (if i mod width hm = p mod width hm \<and> slots hm i \<noteq> None then Some e else slots hm i)"
proof -
  let ?hm = "hash_map_slot_assign hm idx e"
  show sh': "hash_map_shape ?hm" and sz: "hm_size ?hm = hm_size hm" and "hm_n_items ?hm = hm_n_items hm"
    using sh by (auto simp: hash_map_slot_assign_def hash_map_shape_def)
  have len: "length (hm_data hm) = width hm" using sh by (simp add: hash_map_shape_def)
  have "p mod width hm < width hm" using width_bounds(1)[OF sh] by simp
  then show "slots ?hm i = (if i mod width hm = p mod width hm \<and> slots hm i \<noteq> None then Some e else slots hm i)"
    unfolding slots_alt[OF sh'] slots_alt[OF sh] sz
    by (auto simp: hash_map_slot_assign_def unat_slot_index[OF sh] at len nth_list_update)
qed

lemma slot_mark:
  fixes f :: "u8 \<Rightarrow> u8" and c :: u64
  assumes sh: "hash_map_shape hm" and at: "unat idx mod width hm = p mod width hm"
    and f: "\<And>w j. j < 8 \<Longrightarrow> bit (f w) j = (if j = p mod width hm mod 8 then b else bit w j)"
  defines "byte \<equiv> unat (hash_map_slot_index hm idx div 8)"
  defines "hm' \<equiv> hm\<lparr> hm_bits := (hm_bits hm)[byte := f (hm_bits hm ! byte)], hm_n_items := c \<rparr>"
  shows "hash_map_shape hm'" "hm_size hm' = hm_size hm" "hm_n_items hm' = c"
    and "slots hm' i = (if i mod width hm = p mod width hm
       then (if b then Some (hm_data hm ! (p mod width hm)) else None) else slots hm i)"
proof -
  show sh': "hash_map_shape hm'" and sz: "hm_size hm' = hm_size hm" and "hm_n_items hm' = c"
    using sh by (auto simp: hm'_def hash_map_shape_def)
  have byte: "byte = p mod width hm div 8"
    by (simp add: byte_def unat_div_distrib unat_slot_index[OF sh] at)
  have len: "length (hm_bits hm) = width hm div 8" and n: "8 dvd width hm" "0 < width hm"
    using sh width_bounds[OF sh] by (auto simp: hash_map_shape_def)
  have "p mod width hm < width hm" using n(2) by simp
  then have lt: "p mod width hm div 8 < length (hm_bits hm)"
    unfolding len using n(1) by (simp add: div_less_iff_less_mult)
  let ?i = "i mod width hm" and ?p = "p mod width hm"
  have bits: "hm_bits hm' ! (?i div 8) = (if ?i div 8 = ?p div 8 then f (hm_bits hm ! (?p div 8)) else hm_bits hm ! (?i div 8))"
    using lt by (simp add: hm'_def byte nth_list_update)
  have "bit (hm_bits hm' ! (?i div 8)) (?i mod 8) = (if ?i = ?p then b else bit (hm_bits hm ! (?i div 8)) (?i mod 8))"
  proof (cases "?i div 8 = ?p div 8")
    case True
    then have "?i mod 8 = ?p mod 8 \<longleftrightarrow> ?i = ?p" using div_mod_8_eq_iff[of ?i ?p] by blast
    then show ?thesis using bits unfolding True by (simp add: f)
  next
    case False
    then have "?i \<noteq> ?p" by auto
    with False show ?thesis unfolding bits by simp
  qed
  moreover have "hm_data hm' = hm_data hm" by (simp add: hm'_def)
  ultimately show "slots hm' i = (if ?i = ?p then (if b then Some (hm_data hm ! ?p) else None) else slots hm i)"
    unfolding slots_alt[OF sh'] slots_alt[OF sh] sz by simp
qed

lemma slot_acquire:
  assumes sh: "hash_map_shape hm" and at: "unat idx mod width hm = p mod width hm"
  shows "hash_map_shape (hash_map_slot_acquire hm idx)"
    and "hm_size (hash_map_slot_acquire hm idx) = hm_size hm"
    and "hm_n_items (hash_map_slot_acquire hm idx) = hm_n_items hm + 1"
    and "\<exists>e. \<forall>i. slots (hash_map_slot_acquire hm idx) i =
      (if i mod width hm = p mod width hm then Some e else slots hm i)"
proof -
  have f: "bit (w OR push_bit (unat (hash_map_slot_index hm idx mod 8)) 1 :: u8) j =
      (if j = p mod width hm mod 8 then True else bit w j)" if "j < 8" for w j
    using that by (auto simp: bit_simps unat_mod_distrib unat_slot_index[OF sh] at)
  show "hash_map_shape (hash_map_slot_acquire hm idx)" "hm_size (hash_map_slot_acquire hm idx) = hm_size hm"
    "hm_n_items (hash_map_slot_acquire hm idx) = hm_n_items hm + 1"
    "\<exists>e. \<forall>i. slots (hash_map_slot_acquire hm idx) i = (if i mod width hm = p mod width hm then Some e else slots hm i)"
    using slot_mark[OF sh at f] unfolding hash_map_slot_acquire_def Let_def by auto
qed

lemma slot_release:
  assumes sh: "hash_map_shape hm" and at: "unat idx mod width hm = p mod width hm"
  shows "hash_map_shape (hash_map_slot_release hm idx)"
    and "hm_size (hash_map_slot_release hm idx) = hm_size hm"
    and "hm_n_items (hash_map_slot_release hm idx) = hm_n_items hm - 1"
    and "slots (hash_map_slot_release hm idx) i = (if i mod width hm = p mod width hm then None else slots hm i)"
proof -
  have f: "bit (w AND NOT (push_bit (unat (hash_map_slot_index hm idx mod 8)) 1) :: u8) j =
      (if j = p mod width hm mod 8 then False else bit w j)" if "j < 8" for w j
    using that by (auto simp: bit_simps unat_mod_distrib unat_slot_index[OF sh] at)
  show "hash_map_shape (hash_map_slot_release hm idx)" "hm_size (hash_map_slot_release hm idx) = hm_size hm"
    "hm_n_items (hash_map_slot_release hm idx) = hm_n_items hm - 1"
    "slots (hash_map_slot_release hm idx) i = (if i mod width hm = p mod width hm then None else slots hm i)"
    using slot_mark[OF sh at f] unfolding hash_map_slot_release_def Let_def by auto
qed

subsection \<open>Insertion\<close>

definition hash_map_core :: "hash_map \<Rightarrow> bool" where
  "hash_map_core hm \<longleftrightarrow> hash_map_shape hm \<and> rh_inv key (width hm) (slots hm)
     \<and> unat (hm_n_items hm) = card (rh_set (slots hm))"

lemma hash_map_wf_core: "hash_map_wf hm \<longleftrightarrow>
    hash_map_core hm \<and> card (rh_set (slots hm)) \<le> width hm - width hm div 8"
  by (auto simp: hash_map_wf_def hash_map_core_def)

lemma wf_hole:
  assumes "hash_map_wf hm"
  obtains i where "slots hm i = None"
proof -
  have "hash_map_shape hm" "rh_inv key (width hm) (slots hm)"
    "card (rh_set (slots hm)) \<le> width hm - width hm div 8"
    using assms by (auto simp: hash_map_wf_def)
  moreover have "width hm - width hm div 8 < width hm" using width_bounds[OF \<open>hash_map_shape hm\<close>] by auto
  ultimately show thesis using rh_hole_iff that by (metis le_less_trans)
qed

lemma shift_up:
  assumes "hash_map_shape hm" "unat idx mod width hm = p mod width hm" "m < width hm"
    and "\<And>c. c \<le> m \<Longrightarrow> slots hm (p + c) \<noteq> None"
  shows "hash_map_shape (hash_map_shift_up hm idx m) \<and>
    hm_size (hash_map_shift_up hm idx m) = hm_size hm \<and>
    hm_n_items (hash_map_shift_up hm idx m) = hm_n_items hm \<and>
    (\<forall>c<width hm. slots (hash_map_shift_up hm idx m) (p + c) =
      (if 1 \<le> c \<and> c \<le> m then slots hm (p + c - 1) else slots hm (p + c)))"
  using assms
proof (induction m arbitrary: hm)
  case (Suc s)
  let ?n = "width hm" and ?to = "idx + of_nat s + 1 :: u64"
  have at: "unat ?to mod ?n = (p + Suc s) mod ?n"
  proof -
    have "unat (idx + of_nat (Suc s)) mod ?n = (unat idx + Suc s) mod ?n" by (rule index_add[OF Suc.prems(1)])
    also have "\<dots> = (p + Suc s) mod ?n" using Suc.prems(2) by (rule mod_add_cong) simp
    finally show ?thesis by (simp add: ac_simps)
  qed
  have at': "unat (idx + of_nat s) mod ?n = (p + s) mod ?n"
    using index_add[OF Suc.prems(1), of idx s] mod_add_cong[OF Suc.prems(2) refl, of s] by simp
  obtain e where e: "slots hm (p + s) = Some e" using Suc.prems(4)[of s] by auto
  let ?hm = "hash_map_slot_assign hm ?to e"
  note assign = slot_assign[OF Suc.prems(1) at, of e]
  have at_c: "(p + c) mod ?n = (p + Suc s) mod ?n \<longleftrightarrow> c = Suc s" if "c < ?n" for c
    using mod_add_cancel_left[of p c ?n "Suc s"] that Suc.prems(3) by auto
  have slots': "slots ?hm (p + c) = (if c = Suc s then Some e else slots hm (p + c))" if "c < ?n" for c
    using assign(4)[of "p + c"] at_c[OF that] Suc.prems(4)[of "Suc s"] by auto
  have "hash_map_shape (hash_map_shift_up ?hm idx s) \<and> hm_size (hash_map_shift_up ?hm idx s) = hm_size ?hm \<and>
      hm_n_items (hash_map_shift_up ?hm idx s) = hm_n_items ?hm \<and>
      (\<forall>c<width ?hm. slots (hash_map_shift_up ?hm idx s) (p + c) = (if 1 \<le> c \<and> c \<le> s then slots ?hm (p + c - 1) else slots ?hm (p + c)))"
  proof (rule Suc.IH)
    show "slots ?hm (p + c) \<noteq> None" if "c \<le> s" for c
      using that Suc.prems(3,4) slots'[of c] by simp
  qed (use assign Suc.prems in simp_all)
  note IH = this[unfolded assign(2,3)]
  have "hash_map_shift_up hm idx (Suc s) = hash_map_shift_up ?hm idx s"
    by (simp add: slots_word(2)[OF Suc.prems(1) at' e])
  moreover have "slots (hash_map_shift_up ?hm idx s) (p + c) =
      (if 1 \<le> c \<and> c \<le> Suc s then slots hm (p + c - 1) else slots hm (p + c))" if c: "c < ?n" for c
  proof -
    have "slots ?hm (p + c - 1) = slots hm (p + c - 1)" if "1 \<le> c" "c \<le> s"
      using slots'[of "c - 1"] that c by (cases c) simp_all
    moreover have "slots (hash_map_shift_up ?hm idx s) (p + c) =
        (if 1 \<le> c \<and> c \<le> s then slots ?hm (p + c - 1) else slots ?hm (p + c))"
      using IH c by blast
    ultimately show ?thesis using slots'[OF c] e by (cases "c = Suc s") simp_all
  qed
  ultimately show ?case using IH by simp
qed auto

text \<open>Where the two searching loops of an insertion leave off.\<close>

lemma insert_search:
  assumes sh: "hash_map_shape hm" and inv: "rh_inv key (width hm) (slots hm)" and hole: "slots hm i = None"
  obtains d d1 where "d1 \<le> d" "d < width hm"
    and "\<And>c. c < d \<Longrightarrow> rh_scan key (width hm) (slots hm) (unat k) c"
    and "\<And>e. slots hm (unat k + d) = Some e \<Longrightarrow> key e = unat k \<or> rh_dist key (width hm) (unat k + d) e < d"
    and "\<And>c. c < d1 \<Longrightarrow> \<exists>e. slots hm (unat k + c) = Some e \<and> c < rh_dist key (width hm) (unat k + c) e"
    and "\<And>e. slots hm (unat k + d1) = Some e \<Longrightarrow> rh_dist key (width hm) (unat k + d1) e \<le> d1"
    and "\<And>c. d1 \<le> c \<Longrightarrow> c < d \<Longrightarrow> \<exists>e. slots hm (unat k + c) = Some e \<and>
           c = rh_dist key (width hm) (unat k + c) e \<and> key e \<noteq> unat k"
proof -
  let ?n = "width hm" and ?t = "slots hm" and ?k = "unat k"
  obtain d where d: "d < ?n" "\<not> rh_scan key ?n ?t ?k d" "\<And>c. c < d \<Longrightarrow> rh_scan key ?n ?t ?k c"
    using rh_scan_stops[OF inv hole, of ?k] by blast
  define P where "P c \<longleftrightarrow> (\<exists>e. ?t (?k + c) = Some e \<and> c < rh_dist key ?n (?k + c) e)" for c
  have Pscan: "rh_scan key ?n ?t ?k c" if "P c" "c < ?n" for c
  proof -
    obtain e where e: "?t (?k + c) = Some e" "c < rh_dist key ?n (?k + c) e" using \<open>P c\<close> by (auto simp: P_def)
    have "key e \<noteq> ?k"
    proof
      assume "key e = ?k"
      then have "rh_dist key ?n (?k + c) e = c" using rh_dist_add[OF \<open>c < ?n\<close>, of key e] by simp
      with e(2) show False by simp
    qed
    then show ?thesis using e by (auto simp: rh_scan_def)
  qed
  have "\<not> P d" using Pscan d by blast
  then obtain d1 where d1: "d1 \<le> d" "\<not> P d1" "\<And>c. c < d1 \<Longrightarrow> P c"
    using least_stop[of P d] by blast
  have le: "rh_dist key ?n (?k + c) e \<le> c" if "d1 \<le> c" "c \<le> d" "?t (?k + c) = Some e" for c e
    using that
  proof (induction c arbitrary: e rule: dec_induct)
    case base
    then show ?case using d1(2) by (auto simp: P_def)
  next
    case (step c)
    show ?case
    proof (cases "0 < rh_dist key ?n (?k + Suc c) e")
      case True
      then obtain e' where "?t (?k + c) = Some e'" "rh_dist key ?n (Suc (?k + c)) e \<le> Suc (rh_dist key ?n (?k + c) e')"
        using rh_inv_ordD[OF inv, of "?k + c" e] step.prems by auto
      moreover have "rh_dist key ?n (?k + c) e' \<le> c" using step.IH[of e'] step.prems calculation(1) by simp
      ultimately show ?thesis by simp
    qed simp
  qed
  show thesis
  proof (rule that[OF d1(1) d(1,3)])
    show "key e = ?k \<or> rh_dist key ?n (?k + d) e < d" if "?t (?k + d) = Some e" for e
      using d(2) that by (auto simp: rh_scan_def not_le)
    show "\<exists>e. ?t (?k + c) = Some e \<and> c < rh_dist key ?n (?k + c) e" if "c < d1" for c
      using d1(3)[OF that] by (simp add: P_def)
    show "rh_dist key ?n (?k + d1) e \<le> d1" if "?t (?k + d1) = Some e" for e
      using le[of d1 e] d1(1) that by simp
    show "\<exists>e. ?t (?k + c) = Some e \<and> c = rh_dist key ?n (?k + c) e \<and> key e \<noteq> ?k" if c: "d1 \<le> c" "c < d" for c
    proof -
      obtain e where "?t (?k + c) = Some e" "key e \<noteq> ?k" "c \<le> rh_dist key ?n (?k + c) e"
        using d(3)[OF c(2)] by (auto simp: rh_scan_def)
      then show ?thesis using le[of c e] c by auto
    qed
  qed
qed

text \<open>The tail of an insertion: mark the free slot, shift the run, write the entry.\<close>

lemma insert_tail:
  fixes e :: hash_map_entry
  assumes sh: "hash_map_shape hm" and at: "unat idx mod width hm = p mod width hm"
    and m: "m < width hm" "slots hm (p + m) = None" "\<forall>c<m. slots hm (p + c) \<noteq> None"
  defines "hm' \<equiv> hash_map_slot_assign (hash_map_shift_up (hash_map_slot_acquire hm (idx + of_nat m)) idx m) idx e"
  shows "hash_map_shape hm'" "hm_size hm' = hm_size hm" "hm_n_items hm' = hm_n_items hm + 1"
    and "slots hm' = rh_ins (width hm) (slots hm) p m e"
proof -
  let ?n = "width hm"
  define hm1 where "hm1 = hash_map_slot_acquire hm (idx + of_nat m)"
  define hm2 where "hm2 = hash_map_shift_up hm1 idx m"
  have at_m: "unat (idx + of_nat m) mod ?n = (p + m) mod ?n"
    using index_add[OF sh, of idx m] mod_add_cong[OF at refl, of m] by simp
  note hm1 = slot_acquire[OF sh at_m, folded hm1_def]
  obtain x where x: "\<And>i. slots hm1 i = (if i mod ?n = (p + m) mod ?n then Some x else slots hm i)"
    using hm1(4) by blast
  have x': "slots hm1 (p + c) = (if c = m then Some x else slots hm (p + c))" if "c < ?n" for c
    using mod_add_cancel_left[of p c ?n m] that m(1) by (auto simp: x)
  have w1: "width hm1 = ?n" using hm1(2) by simp
  have occ: "slots hm1 (p + c) \<noteq> None" if "c \<le> m" for c
    using x'[of c] that m(1) m(3)[rule_format, of c] by auto
  have "hash_map_shape hm2 \<and> hm_size hm2 = hm_size hm1 \<and> hm_n_items hm2 = hm_n_items hm1 \<and>
    (\<forall>c<?n. slots hm2 (p + c) = (if 1 \<le> c \<and> c \<le> m then slots hm1 (p + c - 1) else slots hm1 (p + c)))"
    unfolding hm2_def using shift_up[of hm1 idx p m] hm1(1) occ at m(1) unfolding w1 by blast
  then have hm2: "hash_map_shape hm2" "hm_size hm2 = hm_size hm" "hm_n_items hm2 = hm_n_items hm + 1"
    and slots2: "\<And>c. c < ?n \<Longrightarrow> slots hm2 (p + c) =
      (if 1 \<le> c \<and> c \<le> m then slots hm1 (p + c - 1) else slots hm1 (p + c))"
    using hm1(2,3) by auto
  have w2: "width hm2 = ?n" using hm2(2) by simp
  have hm': "hm' = hash_map_slot_assign hm2 idx e" by (simp add: hm'_def hm2_def hm1_def)
  note assign = slot_assign[OF hm2(1), of idx p e, unfolded w2, OF at, folded hm']
  show "hash_map_shape hm'" "hm_size hm' = hm_size hm" "hm_n_items hm' = hm_n_items hm + 1"
    using assign hm2 by simp_all
  show "slots hm' = rh_ins ?n (slots hm) p m e"
  proof (rule table_eqI[OF width_bounds(1)[OF sh], where p = p])
    show "\<forall>i. slots hm' (i + ?n) = slots hm' i"
      using slots_period[OF assign(1)] assign(2) hm2(2) by simp
    show "\<forall>i. rh_ins ?n (slots hm) p m e (i + ?n) = rh_ins ?n (slots hm) p m e i"
      by (rule rh_ins_period) (simp add: slots_period[OF sh])
    fix c assume c: "c < ?n"
    have at_c: "(p + c) mod ?n = p mod ?n \<longleftrightarrow> c = 0"
      using mod_add_cancel_left[of p c ?n 0] c by auto
    have prev: "slots hm1 (p + c - 1) = slots hm (p + c - 1)" if "1 \<le> c" "c \<le> m"
      using x'[of "c - 1"] that c by (cases c) simp_all
    show "slots hm' (p + c) = rh_ins ?n (slots hm) p m e (p + c)"
      unfolding rh_ins_at[OF c] assign(4)[of "p + c"] at_c
      using slots2[OF c] prev x'[OF c] occ[of c] by (cases "c = 0") auto
  qed
qed

lemma free_slot:
  assumes sh: "hash_map_shape hm" and inv: "rh_inv key (width hm) (slots hm)" and hole: "slots hm i = None"
    and at: "unat idx mod width hm = p mod width hm"
  obtains m where "m < width hm" "slots hm (p + m) = None" "\<And>c. c < m \<Longrightarrow> slots hm (p + c) \<noteq> None"
    and "while_loop (\<lambda>s. \<not> hash_map_slot_is_empty hm (idx + s)) (\<lambda>s. s + 1) 0 = Inr (of_nat m)"
proof -
  obtain d where "d < width hm" "slots hm (p + d) = None" by (rule rh_hole_near[OF inv hole])
  then obtain m where m: "m \<le> d" "slots hm (p + m) = None" "\<And>c. c < m \<Longrightarrow> slots hm (p + c) \<noteq> None"
    using ex_least_nat_le[of "\<lambda>c. slots hm (p + c) = None" d] by blast
  have idx: "unat (idx + of_nat c) mod width hm = (p + c) mod width hm" for c
    using index_add[OF sh, of idx c] mod_add_cong[OF at refl, of c] by simp
  have empty: "hash_map_slot_is_empty hm (idx + of_nat c) \<longleftrightarrow> slots hm (p + c) = None" for c
    by (rule slots_word(1)[OF sh idx])
  have "while_loop (\<lambda>s. \<not> hash_map_slot_is_empty hm (idx + s)) (\<lambda>s. s + 1) 0 = Inr (of_nat m)"
    using while_loop_count[of m "\<lambda>s. \<not> hash_map_slot_is_empty hm (idx + s)" 0] empty m(2,3) by simp
  moreover have "m < width hm" using m(1) \<open>d < width hm\<close> by simp
  ultimately show thesis using m(2,3) by (intro that[of m])
qed

lemma card_rh_set_bound:
  assumes "hash_map_shape hm" "rh_inv key (width hm) (slots hm)"
  shows "card (rh_set (slots hm)) < 2 ^ 60"
proof -
  have "card (rh_set (slots hm)) \<le> card {i. i < width hm}"
    unfolding rh_card_slots[OF assms(2)] by (rule card_mono) auto
  then show ?thesis using width_bounds(5)[OF assms(1)] by simp
qed

lemma do_insert:
  assumes core: "hash_map_core hm" and hole: "slots hm i = None"
  obtains hm' where "hash_map_do_insert hm k v = Inr hm'" "hash_map_core hm'" "hm_size hm' = hm_size hm"
    and "rh_set (slots hm') = insert \<lparr> hm_k = k, hm_v = v \<rparr> {e \<in> rh_set (slots hm). hm_k e \<noteq> k}"
proof -
  let ?n = "width hm" and ?t = "slots hm" and ?k = "unat k" and ?e = "\<lparr> hm_k = k, hm_v = v \<rparr>"
  have sh: "hash_map_shape hm" and inv: "rh_inv key ?n ?t" and cnt: "unat (hm_n_items hm) = card (rh_set ?t)"
    using core by (auto simp: hash_map_core_def)
  obtain d d1 where d: "d1 \<le> d" "d < ?n" "\<And>c. c < d \<Longrightarrow> rh_scan key ?n ?t ?k c"
    and stop: "\<And>e. ?t (?k + d) = Some e \<Longrightarrow> key e = ?k \<or> rh_dist key ?n (?k + d) e < d"
    and one: "\<And>c. c < d1 \<Longrightarrow> \<exists>e. ?t (?k + c) = Some e \<and> c < rh_dist key ?n (?k + c) e"
      "\<And>e. ?t (?k + d1) = Some e \<Longrightarrow> rh_dist key ?n (?k + d1) e \<le> d1"
    and two: "\<And>c. d1 \<le> c \<Longrightarrow> c < d \<Longrightarrow> \<exists>e. ?t (?k + c) = Some e \<and>
        c = rh_dist key ?n (?k + c) e \<and> key e \<noteq> ?k"
    by (rule insert_search[OF sh inv hole, of k]) (rule that)
  have small: "unat (of_nat c :: u64) = c" if "c < ?n" for c
    using that width_bounds(5)[OF sh] by (simp add: unat_of_nat)
  note at = slots_word[OF sh index_add[OF sh]] distance_word[OF sh index_add[OF sh]]
  let ?P1 = "\<lambda>d. \<not> hash_map_slot_is_empty hm (k + d) \<and> d < hash_map_slot_distance hm (k + d)"
  let ?P2 = "\<lambda>d. \<not> hash_map_slot_is_empty hm (k + d) \<and> d = hash_map_slot_distance hm (k + d)
      \<and> hm_k (hash_map_slot_entry hm (k + d)) \<noteq> k"
  have P1: "?P1 (of_nat c) \<longleftrightarrow> (\<exists>e. ?t (?k + c) = Some e \<and> c < rh_dist key ?n (?k + c) e)" if "c < ?n" for c
    using small[OF that] at(3)[of k c] by (cases "?t (?k + c)") (simp_all add: at(1) word_less_nat_alt)
  have P2': "\<not> hash_map_slot_is_empty hm (k + of_nat c) \<and> of_nat c = hash_map_slot_distance hm (k + of_nat c)
      \<longleftrightarrow> (\<exists>e. ?t (?k + c) = Some e \<and> c = rh_dist key ?n (?k + c) e)" if "c < ?n" for c
    using small[OF that] at(3)[of k c] by (cases "?t (?k + c)") (simp_all add: at(1) word_unat_eq_iff)
  have P2: "?P2 (of_nat c) \<longleftrightarrow> (\<exists>e. ?t (?k + c) = Some e \<and> c = rh_dist key ?n (?k + c) e \<and> key e \<noteq> ?k)"
    if "c < ?n" for c
    using P2'[OF that] at(2)[of k c] by (cases "?t (?k + c)") (auto simp flip: word_unat_eq_iff)
  have loop1: "while_loop ?P1 (\<lambda>d. d + 1) 0 = Inr (of_nat d1)"
  proof -
    have "?P1 (0 + of_nat c)" if "c < d1" for c using one(1)[OF that] P1[of c] that d(1,2) by simp
    moreover have "\<not> ?P1 (0 + of_nat d1)" using one(2) P1[of d1] d(1,2) by (auto simp: not_less)
    ultimately show ?thesis using while_loop_count[of d1 ?P1 0] by simp
  qed
  have loop2: "while_loop ?P2 (\<lambda>d. d + 1) (of_nat d1) = Inr (of_nat d)"
  proof -
    have "while_loop ?P2 (\<lambda>d. d + 1) (of_nat d1) = Inr (of_nat d1 + of_nat (d - d1))"
    proof (rule while_loop_count)
      show "?P2 (of_nat d1 + of_nat i)" if "i < d - d1" for i
        using P2[of "d1 + i"] two[of "d1 + i"] that d(2) by simp
      show "\<not> ?P2 (of_nat d1 + of_nat (d - d1))"
        using P2[of d] d(1,2) stop by (fastforce simp flip: of_nat_add)
    qed
    then show ?thesis using d(1) by (simp flip: of_nat_add)
  qed
  show thesis
  proof (cases "\<exists>e. ?t (?k + d) = Some e \<and> key e = ?k")
    case True
    then obtain e where e: "?t (?k + d) = Some e" "key e = ?k" by blast
    have dist: "d = rh_dist key ?n (?k + d) e" using rh_dist_add[OF d(2), of key e] e(2) by simp
    have put: "e\<lparr> hm_v := v \<rparr> = ?e" using e(2) by (cases e) (simp flip: word_unat_eq_iff)
    let ?hm = "hash_map_slot_assign hm (k + of_nat d) ?e"
    note assign = slot_assign[OF sh index_add[OF sh, of k d], of ?e]
    have slots': "slots ?hm = rh_put ?n ?t (?k + d) ?e"
      using rh_inv_cong[OF inv, of _ "?k + d"] e(1) by (auto simp: assign(4) rh_put_def)
    have keys: "key ?e = key e" using e(2) by simp
    have "e \<in> rh_set ?t" using e(1) unfolding rh_set_def by blast
    have inj: "x = e" if "x \<in> rh_set ?t" "hm_k x = k" for x
      using rh_set_inj[OF inv] that e \<open>e \<in> rh_set ?t\<close> by (auto simp: inj_on_def)
    have "rh_set (slots ?hm) = insert ?e (rh_set ?t - {e})"
      unfolding slots' by (rule rh_set_put[OF inv e(1) keys])
    moreover have "rh_set ?t - {e} = {x \<in> rh_set ?t. hm_k x \<noteq> k}"
      using inj e(2) by (auto simp: word_unat_eq_iff)
    ultimately have set': "rh_set (slots ?hm) = insert ?e {x \<in> rh_set ?t. hm_k x \<noteq> k}" by simp
    have inv': "rh_inv key ?n (slots ?hm)" unfolding slots' by (rule rh_inv_put[OF inv e(1) keys])
    have "?e \<notin> {x \<in> rh_set ?t. hm_k x \<noteq> k}" by simp
    then have "card (rh_set (slots ?hm)) = Suc (card {x \<in> rh_set ?t. hm_k x \<noteq> k})"
      unfolding set' using finite_rh_set[OF inv] by (subst card_insert_disjoint) auto
    also have "\<dots> = card (rh_set ?t)"
      unfolding \<open>rh_set ?t - {e} = _\<close>[symmetric]
      using finite_rh_set[OF inv] \<open>e \<in> rh_set ?t\<close> by (rule card_Suc_Diff1)
    finally have "hash_map_core ?hm" using assign(1-3) inv' cnt by (simp add: hash_map_core_def)
    moreover have "hash_map_do_insert hm k v = Inr ?hm"
      using loop1 loop2 P2'[OF d(2)] e(1) dist put at(2)[OF e(1)]
      unfolding hash_map_do_insert_def by simp
    ultimately show thesis using that set' assign(2) by blast
  next
    case False
    then have stop': "rh_dist key ?n (?k + d) x < d" if "?t (?k + d) = Some x" for x
      using stop[OF that] that by blast
    have fresh: "hm_k x \<noteq> k" if x: "x \<in> rh_set ?t" for x
    proof
      assume "hm_k x = k"
      then have "?t (?k + d) = Some x \<and> key x = ?k"
        using rh_search[OF inv d(2) _ d(3), of x] x False stop' by (force simp: rh_scan_def)
      then show False using False by blast
    qed
    obtain m where m: "m < ?n" "?t (?k + d + m) = None" "\<And>c. c < m \<Longrightarrow> ?t (?k + d + c) \<noteq> None"
      and loop3: "while_loop (\<lambda>s. \<not> hash_map_slot_is_empty hm (k + of_nat d + s)) (\<lambda>s. s + 1) 0 = Inr (of_nat m)"
      by (rule free_slot[OF sh inv hole index_add[OF sh, of k d]]) (rule that)
    define hm' where "hm' = hash_map_slot_assign
      (hash_map_shift_up (hash_map_slot_acquire hm (k + of_nat d + of_nat m)) (k + of_nat d) m) (k + of_nat d) ?e"
    have m': "\<forall>c<m. ?t (?k + d + c) \<noteq> None" using m(3) by blast
    note tail = insert_tail[OF sh index_add[OF sh] m(1,2) m', where e = ?e, folded hm'_def]
    have inv': "rh_inv key ?n (slots hm')"
      unfolding tail(4) by (rule rh_inv_ins[OF inv _ d(2,3) stop' _ m]) (use fresh in \<open>auto simp: word_unat_eq_iff\<close>)
    have "rh_set (slots hm') = insert ?e (rh_set ?t)"
      unfolding tail(4) by (rule rh_set_ins[OF rh_inv_pos[OF inv]]) (simp_all add: slots_period[OF sh] m(1,2))
    then have set': "rh_set (slots hm') = insert ?e {x \<in> rh_set ?t. hm_k x \<noteq> k}" using fresh by auto
    have "?e \<notin> rh_set ?t" using fresh[of ?e] by auto
    then have "card (rh_set (slots hm')) = Suc (card (rh_set ?t))"
      unfolding \<open>rh_set (slots hm') = insert ?e (rh_set ?t)\<close> using finite_rh_set[OF inv] by simp
    moreover have "unat (hm_n_items hm + 1) = Suc (unat (hm_n_items hm))"
      using card_rh_set_bound[OF sh inv] cnt by (simp add: unat_word_ariths)
    ultimately have "hash_map_core hm'" using tail(1-3) inv' cnt by (simp add: hash_map_core_def)
    moreover have "hash_map_do_insert hm k v = Inr hm'"
    proof -
      have "\<not> (\<not> hash_map_slot_is_empty hm (k + of_nat d) \<and> of_nat d = hash_map_slot_distance hm (k + of_nat d))"
        using stop' P2'[OF d(2)] by fastforce
      then show ?thesis
        unfolding hash_map_do_insert_def hm'_def Let_def
        by (simp only: loop1 loop2 loop3 result_bind.simps if_not_P small[OF m(1)] not_False_eq_True if_False)
    qed
    ultimately show thesis using that set' tail(2) by blast
  qed
qed

subsection \<open>The partial map a table stands for\<close>

lemma coreD:
  assumes "hash_map_core hm"
  shows core_shape: "hash_map_shape hm" and core_inv: "rh_inv key (width hm) (slots hm)"
    and core_count: "unat (hm_n_items hm) = card (rh_set (slots hm))"
  using assms by (auto simp: hash_map_core_def)

lemma entries_slots:
  "hash_map_entries hm = [the (slots hm i). i \<leftarrow> [0..<width hm], slots hm i \<noteq> None]"
  unfolding hash_map_entries_def slots_def by (rule arg_cong[where f = concat]) auto

lemma set_entries:
  assumes "hash_map_core hm"
  shows "set (hash_map_entries hm) = rh_set (slots hm)"
  unfolding entries_slots rh_set_slots[OF core_inv[OF assms]] by auto

lemma distinct_selected:
  assumes "distinct xs" and "\<And>x y. x \<in> set xs \<Longrightarrow> y \<in> set xs \<Longrightarrow> P x \<Longrightarrow> P y \<Longrightarrow> f x = f y \<Longrightarrow> x = y"
  shows "distinct (map f (filter P xs))"
  using assms by (auto simp: distinct_map inj_on_def)

lemma concat_if_filter: "concat (map (\<lambda>x. if P x then [f x] else []) xs) = map f (filter P xs)"
  by (induction xs) auto

lemma distinct_entries:
  assumes "hash_map_core hm"
  shows "distinct (map hm_k (hash_map_entries hm))"
proof -
  have "distinct (map (hm_k \<circ> (\<lambda>i. the (slots hm i))) (filter (\<lambda>i. slots hm i \<noteq> None) [0..<width hm]))"
  proof (rule distinct_selected)
    fix i j
    assume ij: "i \<in> set [0..<width hm]" "j \<in> set [0..<width hm]" "slots hm i \<noteq> None" "slots hm j \<noteq> None"
      and "(hm_k \<circ> (\<lambda>i. the (slots hm i))) i = (hm_k \<circ> (\<lambda>i. the (slots hm i))) j"
    then obtain e e' where e: "slots hm i = Some e" "slots hm j = Some e'" "key e = key e'" by auto
    from rh_inv_inj[OF core_inv[OF assms] e] ij show "i = j" by simp
  qed simp
  then show ?thesis unfolding entries_slots concat_if_filter by simp
qed

lemma length_entries: "hash_map_core hm \<Longrightarrow> length (hash_map_entries hm) = card (rh_set (slots hm))"
  using distinct_card[of "hash_map_entries hm"] set_entries[of hm] distinct_entries[of hm]
  by (simp add: distinct_map)

lemma abs_iff:
  assumes "hash_map_core hm"
  shows "hash_map_abs hm k = Some v \<longleftrightarrow> \<lparr> hm_k = k, hm_v = v \<rparr> \<in> rh_set (slots hm)"
proof -
  have "distinct (map fst (map (\<lambda>e. (hm_k e, hm_v e)) (hash_map_entries hm)))"
    using distinct_entries[OF assms] by (simp add: comp_def)
  from map_of_eq_Some_iff[OF this, of k v] show ?thesis
    unfolding hash_map_abs_def set_entries[OF assms, symmetric] pair_in_map_iff by simp
qed

lemma abs_dom:
  assumes "hash_map_core hm"
  shows "dom (hash_map_abs hm) = hm_k ` rh_set (slots hm)" "card (dom (hash_map_abs hm)) = card (rh_set (slots hm))"
proof -
  show d: "dom (hash_map_abs hm) = hm_k ` rh_set (slots hm)"
    using set_entries[OF assms] by (simp add: hash_map_abs_def dom_map_of_conv_image_fst image_image)
  have "inj_on hm_k (rh_set (slots hm))"
    using rh_set_inj[OF core_inv[OF assms]] by (auto simp: inj_on_def)
  then show "card (dom (hash_map_abs hm)) = card (rh_set (slots hm))" unfolding d by (rule card_image)
qed

lemma abs_eqI:
  assumes "hash_map_core hm" "\<And>k v. m k = Some v \<longleftrightarrow> \<lparr> hm_k = k, hm_v = v \<rparr> \<in> rh_set (slots hm)"
  shows "hash_map_abs hm = m"
proof
  fix k
  have "hash_map_abs hm k = Some v \<longleftrightarrow> m k = Some v" for v using assms by (simp add: abs_iff)
  then show "hash_map_abs hm k = m k" by (metis not_Some_eq)
qed

lemma do_insert_abs:
  assumes "hash_map_core hm" "hash_map_core hm'"
    and "rh_set (slots hm') = insert \<lparr> hm_k = k, hm_v = v \<rparr> {e \<in> rh_set (slots hm). hm_k e \<noteq> k}"
  shows "hash_map_abs hm' = (hash_map_abs hm)(k \<mapsto> v)"
  using assms by (intro abs_eqI) (auto simp: abs_iff)

lemma core_hole:
  assumes "hash_map_core hm" "card (rh_set (slots hm)) < width hm"
  obtains i where "slots hm i = None"
  using rh_hole_iff[OF core_inv[OF assms(1)]] assms(2) by blast

subsection \<open>Copying, growing and shrinking\<close>

lemma insert_list:
  assumes "hash_map_core dst" "distinct (map hm_k es)" "card (rh_set (slots dst)) + length es \<le> width dst"
  shows "\<exists>dst'. result_fold (\<lambda>e dst. hash_map_do_insert dst (hm_k e) (hm_v e)) es dst = Inr dst'
    \<and> hash_map_core dst' \<and> hm_size dst' = hm_size dst
    \<and> hash_map_abs dst' = hash_map_abs dst ++ map_of [(hm_k e, hm_v e). e \<leftarrow> es]"
  using assms
proof (induction es arbitrary: dst)
  case (Cons e es)
  have "card (rh_set (slots dst)) < width dst" using Cons.prems(3) by simp
  then obtain i where "slots dst i = None" by (rule core_hole[OF Cons.prems(1)])
  then obtain dst1 where dst1: "hash_map_do_insert dst (hm_k e) (hm_v e) = Inr dst1" "hash_map_core dst1"
    "hm_size dst1 = hm_size dst"
    and set1: "rh_set (slots dst1) = insert \<lparr> hm_k = hm_k e, hm_v = hm_v e \<rparr> {x \<in> rh_set (slots dst). hm_k x \<noteq> hm_k e}"
    by (rule do_insert[OF Cons.prems(1)])
  have "card (rh_set (slots dst1)) \<le> Suc (card {x \<in> rh_set (slots dst). hm_k x \<noteq> hm_k e})"
    unfolding set1 by (rule card_insert_le_m1) (simp_all)
  also have "\<dots> \<le> Suc (card (rh_set (slots dst)))"
    using finite_rh_set[OF core_inv[OF Cons.prems(1)]] by (auto intro: card_mono)
  finally have "card (rh_set (slots dst1)) + length es \<le> width dst1" using Cons.prems(3) dst1(3) by simp
  then obtain dst' where dst': "result_fold (\<lambda>e dst. hash_map_do_insert dst (hm_k e) (hm_v e)) es dst1 = Inr dst'"
    "hash_map_core dst'" "hm_size dst' = hm_size dst1"
    "hash_map_abs dst' = hash_map_abs dst1 ++ map_of [(hm_k e, hm_v e). e \<leftarrow> es]"
    using Cons.IH[OF dst1(2)] Cons.prems(2) by auto
  have "hm_k e \<notin> dom (map_of [(hm_k e, hm_v e). e \<leftarrow> es])"
    using Cons.prems(2) by (auto simp: dom_map_of_conv_image_fst)
  then have "hash_map_abs dst' = hash_map_abs dst ++ map_of [(hm_k e, hm_v e). e \<leftarrow> e # es]"
    unfolding dst'(4) do_insert_abs[OF Cons.prems(1) dst1(2) set1]
    by (auto simp: fun_eq_iff map_add_def split: option.split)
  moreover have "result_fold (\<lambda>e dst. hash_map_do_insert dst (hm_k e) (hm_v e)) (e # es) dst = Inr dst'"
    using dst1(1) dst'(1) by simp
  moreover have "hm_size dst' = hm_size dst" using dst'(3) dst1(3) by simp
  ultimately show ?case using dst'(2) by blast
qed auto

lemma populate:
  assumes "hash_map_core dst" "hash_map_core src"
    and "card (rh_set (slots dst)) + card (rh_set (slots src)) \<le> width dst"
  obtains dst' where "hash_map_populate dst src = Inr dst'" "hash_map_core dst'" "hm_size dst' = hm_size dst"
    and "hash_map_abs dst' = hash_map_abs dst ++ hash_map_abs src"
proof -
  have "hash_map_populate dst src =
      result_fold (\<lambda>e dst. hash_map_do_insert dst (hm_k e) (hm_v e)) (hash_map_entries src) dst"
    unfolding hash_map_populate_def hash_map_entries_def by (rule result_fold_filter)
  then show thesis
    using insert_list[OF assms(1) distinct_entries[OF assms(2)]] assms(3) length_entries[OF assms(2)] that
    unfolding hash_map_abs_def by auto
qed

text \<open>What happens when the table has no free slot: an insertion of a new key never returns.\<close>

lemma do_insert_full:
  assumes core: "hash_map_core hm" and full: "\<And>i. slots hm i \<noteq> None" and new: "hash_map_abs hm k = None"
  shows "hash_map_do_insert hm k v = Inl Diverge"
proof -
  note sh = core_shape[OF core]
  have occ: "\<not> hash_map_slot_is_empty hm idx" for idx
    using slots_word(1)[OF sh refl, of idx] full by simp
  have key: "hm_k (hash_map_slot_entry hm idx) \<noteq> k" for idx
  proof
    obtain e where e: "slots hm (unat idx) = Some e" using full by blast
    assume "hm_k (hash_map_slot_entry hm idx) = k"
    then have "e = \<lparr> hm_k = k, hm_v = hm_v e \<rparr>" using slots_word(2)[OF sh refl e] by simp
    moreover have "e \<in> rh_set (slots hm)" using e unfolding rh_set_def by blast
    ultimately show False using new abs_iff[OF core, of k "hm_v e"] by simp
  qed
  show ?thesis
  proof (cases "while_loop (\<lambda>d. d < hash_map_slot_distance hm (k + d)) (\<lambda>d. d + 1) 0")
    case (Inl e)
    then show ?thesis
      using while_loop_result[of _ _ 0] by (cases e) (auto simp: hash_map_do_insert_def occ)
  next
    case (Inr d1)
    show ?thesis
    proof (cases "while_loop (\<lambda>d. d = hash_map_slot_distance hm (k + d)) (\<lambda>d. d + 1) d1")
      case (Inl e)
      then show ?thesis
        using Inr while_loop_result[of _ _ d1] by (cases e) (auto simp: hash_map_do_insert_def occ key)
    next
      case (Inr d)
      then have "d \<noteq> hash_map_slot_distance hm (k + d)" using while_loop_rule[OF Inr, of "\<lambda>_. True"] by simp
      then show ?thesis
        using Inr \<open>while_loop _ _ 0 = Inr d1\<close>
        by (simp add: hash_map_do_insert_def occ key Let_def while_loop_True)
    qed
  qed
qed

lemma insert_list_overflow:
  assumes "hash_map_core dst" "distinct (map hm_k es)" "width dst < card (rh_set (slots dst)) + length es"
    and "\<And>e. e \<in> set es \<Longrightarrow> hash_map_abs dst (hm_k e) = None"
  shows "result_fold (\<lambda>e dst. hash_map_do_insert dst (hm_k e) (hm_v e)) es dst = Inl Diverge"
  using assms
proof (induction es arbitrary: dst)
  case Nil
  have "card (rh_set (slots dst)) \<le> card {..<width dst}"
    unfolding rh_card_slots[OF core_inv[OF Nil(1)]] by (intro card_mono) auto
  then show ?case using Nil by simp
next
  case (Cons e es)
  have new: "hash_map_abs dst (hm_k e) = None" using Cons.prems(4) by simp
  show ?case
  proof (cases "\<exists>i. slots dst i = None")
    case True
    then obtain i where hole: "slots dst i = None" by blast
    obtain dst1 where dst1: "hash_map_do_insert dst (hm_k e) (hm_v e) = Inr dst1" "hash_map_core dst1"
      "hm_size dst1 = hm_size dst"
      and set1: "rh_set (slots dst1) = insert \<lparr> hm_k = hm_k e, hm_v = hm_v e \<rparr> {x \<in> rh_set (slots dst). hm_k x \<noteq> hm_k e}"
      by (rule do_insert[OF Cons.prems(1) hole])
    have abs1: "hash_map_abs dst1 = (hash_map_abs dst)(hm_k e \<mapsto> hm_v e)"
      by (rule do_insert_abs[OF Cons.prems(1) dst1(2) set1])
    have fin: "finite (dom (hash_map_abs dst))"
      using abs_dom(1)[OF Cons.prems(1)] finite_rh_set[OF core_inv[OF Cons.prems(1)]] by simp
    have "hm_k e \<notin> dom (hash_map_abs dst)" using new by blast
    then have "card (dom (hash_map_abs dst1)) = Suc (card (dom (hash_map_abs dst)))"
      unfolding abs1 dom_fun_upd using fin by simp
    then have "card (rh_set (slots dst1)) = Suc (card (rh_set (slots dst)))"
      using abs_dom(2)[OF Cons.prems(1)] abs_dom(2)[OF dst1(2)] by simp
    moreover have "hash_map_abs dst1 (hm_k x) = None" if "x \<in> set es" for x
    proof -
      have "hm_k x \<noteq> hm_k e" using Cons.prems(2) that by (metis distinct.simps(2) image_eqI list.set_map list.simps(9))
      then show ?thesis using Cons.prems(4)[of x] that by (simp add: abs1)
    qed
    ultimately have "result_fold (\<lambda>e dst. hash_map_do_insert dst (hm_k e) (hm_v e)) es dst1 = Inl Diverge"
      using Cons.prems dst1(3) by (intro Cons.IH dst1(2)) auto
    then show ?thesis using dst1(1) by simp
  next
    case False
    then show ?thesis using do_insert_full[OF Cons.prems(1) _ new] by simp
  qed
qed

lemma populate_overflow:
  assumes "hash_map_core dst" "hash_map_core src"
    and "width dst < card (rh_set (slots dst)) + card (rh_set (slots src))"
    and "dom (hash_map_abs dst) \<inter> dom (hash_map_abs src) = {}"
  shows "hash_map_populate dst src = Inl Diverge"
proof -
  have "hash_map_populate dst src =
      result_fold (\<lambda>e dst. hash_map_do_insert dst (hm_k e) (hm_v e)) (hash_map_entries src) dst"
    unfolding hash_map_populate_def hash_map_entries_def by (rule result_fold_filter)
  moreover have "hash_map_abs dst (hm_k e) = None" if "e \<in> set (hash_map_entries src)" for e
    using that abs_dom(1)[OF assms(2)] assms(4) set_entries[OF assms(2)] by fastforce
  ultimately show ?thesis
    using insert_list_overflow[OF assms(1) distinct_entries[OF assms(2)]] assms(3) length_entries[OF assms(2)]
    by simp
qed

lemma shape_init:
  assumes "3 \<le> p" "p < 60"
  shows "hash_map_shape (hash_map_init (2 ^ p))" "hm_size (hash_map_init (2 ^ p)) = 2 ^ p"
    "slots (hash_map_init (2 ^ p)) i = None" "hm_n_items (hash_map_init (2 ^ p)) = 0"
proof -
  let ?hm = "hash_map_init (2 ^ p)"
  have "(2::nat) ^ p < 2 ^ 60" using assms(2) by (intro power_strict_increasing) simp_all
  then have "unat (16 * 2 ^ p :: u64) div 16 = 2 ^ p"
    using assms by (simp add: unat_word_ariths unat_exp)
  moreover have "unat ((2::u64) ^ p div 8) = 2 ^ p div 8"
    using assms by (simp add: unat_div_distrib unat_exp)
  ultimately show sh: "hash_map_shape ?hm" and "hm_size ?hm = 2 ^ p" and "hm_n_items ?hm = 0"
    using assms by (auto simp: hash_map_shape_def hash_map_init_def hash_map_clear_def unat_exp)
  have w: "width ?hm = 2 ^ p" using assms by (simp add: hash_map_init_def hash_map_clear_def unat_exp)
  have "i mod 2 ^ p div 8 < 2 ^ p div 8"
    using width_bounds(1,3)[OF sh] unfolding w by (intro less_mult_imp_div_less) simp
  then show "slots ?hm i = None"
    unfolding slots_alt[OF sh] w
    by (simp add: hash_map_init_def hash_map_clear_def \<open>unat ((2::u64) ^ p div 8) = 2 ^ p div 8\<close>)
qed

lemma core_empty:
  assumes "hash_map_shape hm" "\<And>i. slots hm i = None" "hm_n_items hm = 0"
  shows "hash_map_core hm" "hash_map_abs hm = Map.empty" "card (rh_set (slots hm)) = 0"
proof -
  have t: "slots hm = (\<lambda>_. None)" using assms(2) by auto
  show core: "hash_map_core hm"
    unfolding hash_map_core_def t using assms(1,3) rh_inv_empty[OF width_bounds(1)[OF assms(1)]] by simp
  show "hash_map_abs hm = Map.empty" by (rule abs_eqI[OF core]) (simp add: t)
  show "card (rh_set (slots hm)) = 0" by (simp add: t)
qed

lemma grow:
  assumes wf: "hash_map_wf hm" and room: "hm_size hm < 2 ^ 59"
  obtains hm' where "hash_map_grow hm = Inr hm'" "hash_map_wf hm'" "hm_size hm' = 2 * hm_size hm"
    and "hash_map_abs hm' = hash_map_abs hm"
proof -
  have core: "hash_map_core hm" and le: "card (rh_set (slots hm)) \<le> width hm - width hm div 8"
    using wf by (simp_all add: hash_map_wf_core)
  obtain p where p: "3 \<le> p" "p < 60" "hm_size hm = 2 ^ p" "width hm = 2 ^ p" by (rule shapeE[OF core_shape[OF core]])
  have "(2::nat) ^ p < 2 ^ 59" using room p(4) by (simp add: word_less_nat_alt unat_exp)
  then have "p < 59" by (rule power_less_imp_less_exp[rotated]) simp
  then have q: "3 \<le> Suc p" "Suc p < 60" using p(1) by simp_all
  let ?init = "hash_map_init (2 ^ Suc p)"
  note init = shape_init[OF q] note core0 = core_empty[OF init(1,3,4)]
  have w: "width ?init = 2 ^ Suc p" unfolding init(2) by (rule unat_exp) (use q in simp)
  obtain hm' where hm': "hash_map_populate ?init hm = Inr hm'" "hash_map_core hm'" "hm_size hm' = hm_size ?init"
    "hash_map_abs hm' = hash_map_abs ?init ++ hash_map_abs hm"
    by (rule populate[OF core0(1) core]) (use le core0(3) w p(4) in simp_all)
  have abs: "hash_map_abs hm' = hash_map_abs hm" unfolding hm'(4) core0(2) by simp
  have "card (rh_set (slots hm')) = card (rh_set (slots hm))"
    using abs_dom(2)[OF hm'(2)] abs_dom(2)[OF core] abs by simp
  moreover have "width hm' = 2 * width hm" using w hm'(3) p(4) by simp
  ultimately have "hash_map_wf hm'" using hm'(2) le by (simp add: hash_map_wf_core)
  moreover have "hash_map_grow hm = Inr hm'"
    using hm'(1) by (simp add: hash_map_grow_def p(3) push_bit_eq_mult mult.commute)
  moreover have "hm_size hm' = 2 * hm_size hm" using hm'(3) init(2) p(3) by simp
  ultimately show thesis using abs that by blast
qed

lemma shrink:
  assumes core: "hash_map_core hm" and small: "hash_map_should_shrink hm"
  obtains hm' where "hash_map_shrink hm = Inr hm'" "hash_map_wf hm'" "hm_size hm' = hm_size hm div 2"
    and "hash_map_abs hm' = hash_map_abs hm"
proof -
  obtain p where p: "3 \<le> p" "p < 60" "hm_size hm = 2 ^ p" "width hm = 2 ^ p" by (rule shapeE[OF core_shape[OF core]])
  have "8 < width hm" using small by (simp add: hash_map_should_shrink_def word_less_nat_alt)
  then have "(2::nat) ^ 3 < 2 ^ p" using p(4) by simp
  then have "3 < p" by (rule power_less_imp_less_exp[rotated]) simp
  then obtain q where q: "p = Suc q" "3 \<le> q" "q < 60" using p(2) by (cases p) auto
  have le: "card (rh_set (slots hm)) \<le> width hm div 8"
  proof -
    have "unat (drop_bit 3 (hm_size hm)) = width hm div 8"
      by (simp add: drop_bit_eq_div unat_div_distrib)
    then show ?thesis
      using small core_count[OF core] by (simp add: hash_map_should_shrink_def word_le_nat_alt)
  qed
  let ?init = "hash_map_init (2 ^ q)"
  note init = shape_init[OF q(2,3)] note core0 = core_empty[OF init(1,3,4)]
  have w: "width ?init = 2 ^ q" unfolding init(2) by (rule unat_exp) (use q in simp)
  have half: "width hm = 2 * 2 ^ q" using p(4) q(1) by simp
  obtain hm' where hm': "hash_map_populate ?init hm = Inr hm'" "hash_map_core hm'" "hm_size hm' = hm_size ?init"
    "hash_map_abs hm' = hash_map_abs ?init ++ hash_map_abs hm"
    by (rule populate[OF core0(1) core]) (use le core0(3) w half in simp_all)
  have abs: "hash_map_abs hm' = hash_map_abs hm" unfolding hm'(4) core0(2) by simp
  have "card (rh_set (slots hm')) = card (rh_set (slots hm))"
    using abs_dom(2)[OF hm'(2)] abs_dom(2)[OF core] abs by simp
  moreover have "width hm' = 2 ^ q" using w hm'(3) by simp
  ultimately have "hash_map_wf hm'" using hm'(2) le half by (simp add: hash_map_wf_core)
  moreover have dv: "drop_bit 1 (hm_size hm) = 2 ^ q" "hm_size hm div 2 = 2 ^ q"
    using half q(3) by (simp_all add: word_unat_eq_iff drop_bit_eq_div unat_div_distrib unat_exp)
  moreover have "hash_map_shrink hm = Inr hm'" using hm'(1) unfolding hash_map_shrink_def dv .
  moreover have "hm_size hm' = hm_size hm div 2" using hm'(3) init(2) dv(2) by simp
  ultimately show thesis using abs that by blast
qed

lemma should_grow:
  assumes "hash_map_core hm"
  shows "hash_map_should_grow hm \<longleftrightarrow> width hm - width hm div 8 \<le> card (rh_set (slots hm))"
proof -
  have d: "unat (drop_bit 3 (hm_size hm)) = width hm div 8"
    by (simp add: drop_bit_eq_div unat_div_distrib)
  then have "drop_bit 3 (hm_size hm) \<le> hm_size hm" by (simp add: word_le_nat_alt)
  then have "unat (hm_size hm - drop_bit 3 (hm_size hm)) = width hm - width hm div 8"
    by (simp add: unat_sub d)
  then show ?thesis
    using core_count[OF assms] by (simp add: hash_map_should_grow_def word_le_nat_alt)
qed

lemma insert_wf:
  assumes wf: "hash_map_wf hm" and room: "hm_size hm < 2 ^ 59"
  obtains hm' where "hash_map_insert hm k v = Inr hm'" "hash_map_wf hm'"
      "hm_size hm' = (if hash_map_should_grow hm then 2 * hm_size hm else hm_size hm)"
    and "hash_map_abs hm' = (hash_map_abs hm)(k \<mapsto> v)"
proof -
  note finish = that
  have step: thesis if g: "(if hash_map_should_grow hm then hash_map_grow hm else Inr hm) = Inr g" "hash_map_wf g"
    "hm_size g = (if hash_map_should_grow hm then 2 * hm_size hm else hm_size hm)" "hash_map_abs g = hash_map_abs hm"
    and few: "card (rh_set (slots g)) < width g - width g div 8" for g
  proof -
    have core: "hash_map_core g" using g(2) by (simp add: hash_map_wf_core)
    obtain i where "slots g i = None" by (rule wf_hole[OF g(2)])
    then obtain hm' where hm': "hash_map_do_insert g k v = Inr hm'" "hash_map_core hm'" "hm_size hm' = hm_size g"
      and set': "rh_set (slots hm') = insert \<lparr> hm_k = k, hm_v = v \<rparr> {e \<in> rh_set (slots g). hm_k e \<noteq> k}"
      by (rule do_insert[OF core])
    have "card (rh_set (slots hm')) \<le> Suc (card {e \<in> rh_set (slots g). hm_k e \<noteq> k})"
      unfolding set' by (rule card_insert_le_m1) simp_all
    also have "\<dots> \<le> Suc (card (rh_set (slots g)))"
      using finite_rh_set[OF core_inv[OF core]] by (auto intro: card_mono)
    finally have "hash_map_wf hm'" using hm'(2,3) few by (simp add: hash_map_wf_core)
    moreover have "hash_map_insert hm k v = Inr hm'"
      unfolding hash_map_insert_def g(1) using hm'(1) by simp
    ultimately show thesis
      using finish hm'(3) g(3,4) do_insert_abs[OF core hm'(2) set'] by simp
  qed
  have core: "hash_map_core hm" using wf by (simp add: hash_map_wf_core)
  have le: "card (rh_set (slots hm)) \<le> width hm - width hm div 8" using wf by (simp add: hash_map_wf_core)
  show thesis
  proof (cases "hash_map_should_grow hm")
    case True
    obtain g where g: "hash_map_grow hm = Inr g" "hash_map_wf g" "hm_size g = 2 * hm_size hm"
      "hash_map_abs g = hash_map_abs hm" by (rule grow[OF wf room])
    have "width g = 2 * width hm"
      using g(3) room by (simp add: word_less_nat_alt unat_word_ariths)
    moreover have "card (rh_set (slots g)) = card (rh_set (slots hm))"
      using abs_dom(2)[OF core] abs_dom(2)[of g] g(2,4) by (simp add: hash_map_wf_core)
    ultimately show thesis
      using g le True width_bounds(2)[OF core_shape[OF core]] by (intro step[of g]) auto
  next
    case False
    then show thesis using wf should_grow[OF core] by (intro step[of hm]) auto
  qed
qed

subsection \<open>Searching\<close>

lemma key_eq_iff: "key e = unat k \<longleftrightarrow> hm_k e = k"
  by (simp add: word_unat_eq_iff)

lemma probe:
  assumes core: "hash_map_core hm" and hole: "slots hm i = None"
  obtains d where "hash_map_probe hm k = Inr (k + of_nat d)"
    and "\<And>e. slots hm (unat k + d) = Some e \<and> hm_k e = k \<longleftrightarrow> e \<in> rh_set (slots hm) \<and> hm_k e = k"
proof -
  let ?n = "width hm" and ?t = "slots hm" and ?k = "unat k"
  note sh = core_shape[OF core] and inv = core_inv[OF core]
  obtain d where d: "d < ?n" "\<not> rh_scan key ?n ?t ?k d" "\<And>c. c < d \<Longrightarrow> rh_scan key ?n ?t ?k c"
    using rh_scan_stops[OF inv hole, of ?k] by blast
  have small: "unat (of_nat c :: u64) = c" if "c < ?n" for c
    using that width_bounds(5)[OF sh] by (simp add: unat_of_nat)
  note at = slots_word[OF sh index_add[OF sh]] distance_word[OF sh index_add[OF sh]]
  let ?P = "\<lambda>slot. \<not> hash_map_slot_is_empty hm slot \<and> hm_k (hash_map_slot_entry hm slot) \<noteq> k
      \<and> \<not> hash_map_slot_distance hm slot < slot - k"
  have P: "?P (k + of_nat c) \<longleftrightarrow> rh_scan key ?n ?t ?k c" if "c < ?n" for c
    using small[OF that] at(2,3)[of k c]
    by (cases "?t (?k + c)") (auto simp: at(1) rh_scan_def word_less_nat_alt not_less key_eq_iff)
  have "while_loop ?P (\<lambda>slot. slot + 1) k = Inr (k + of_nat d)"
    by (rule while_loop_count) (use P d in auto)
  moreover have "?t (?k + d) = Some e \<and> hm_k e = k \<longleftrightarrow> e \<in> rh_set ?t \<and> hm_k e = k" for e
    using rh_search[OF inv d, of e] by (simp add: key_eq_iff)
  ultimately show thesis using that unfolding hash_map_probe_def by blast
qed

lemma lookup_core:
  assumes core: "hash_map_core hm" and hole: "slots hm i = None"
  shows "hash_map_lookup hm k d = Inr (case hash_map_abs hm k of None \<Rightarrow> d | Some v \<Rightarrow> v)"
    and "hash_map_contains hm k = Inr (hash_map_abs hm k \<noteq> None)"
proof -
  obtain c where c: "hash_map_probe hm k = Inr (k + of_nat c)"
    and found: "\<And>e. slots hm (unat k + c) = Some e \<and> hm_k e = k \<longleftrightarrow> e \<in> rh_set (slots hm) \<and> hm_k e = k"
    using probe[OF core hole, of k] by blast
  note at = slots_word[OF core_shape[OF core] index_add[OF core_shape[OF core]], of k c]
  have "(\<not> hash_map_slot_is_empty hm (k + of_nat c) \<and> hm_k (hash_map_slot_entry hm (k + of_nat c)) = k)
      \<longleftrightarrow> hash_map_abs hm k \<noteq> None"
    and "hash_map_abs hm k = Some v \<Longrightarrow> hm_v (hash_map_slot_entry hm (k + of_nat c)) = v" for v
  proof -
    show *: "hm_v (hash_map_slot_entry hm (k + of_nat c)) = v" if "hash_map_abs hm k = Some v" for v
      using found[of "\<lparr> hm_k = k, hm_v = v \<rparr>"] that at(2) by (auto simp: abs_iff[OF core])
    show "(\<not> hash_map_slot_is_empty hm (k + of_nat c) \<and> hm_k (hash_map_slot_entry hm (k + of_nat c)) = k)
        \<longleftrightarrow> hash_map_abs hm k \<noteq> None"
    proof
      assume "hash_map_abs hm k \<noteq> None"
      then obtain v where "hash_map_abs hm k = Some v" by blast
      then show "\<not> hash_map_slot_is_empty hm (k + of_nat c) \<and> hm_k (hash_map_slot_entry hm (k + of_nat c)) = k"
        using found[of "\<lparr> hm_k = k, hm_v = v \<rparr>"] at by (auto simp: abs_iff[OF core])
    next
      assume R: "\<not> hash_map_slot_is_empty hm (k + of_nat c) \<and> hm_k (hash_map_slot_entry hm (k + of_nat c)) = k"
      then obtain e where "slots hm (unat k + c) = Some e" using at(1) by auto
      then have "e \<in> rh_set (slots hm)" "hm_k e = k" using found[of e] at(2) R by auto
      have entry: "\<lparr> hm_k = k, hm_v = hm_v e \<rparr> = e" using \<open>hm_k e = k\<close> by (simp add: entry_eq_iff)
      have "hash_map_abs hm k = Some (hm_v e)" unfolding abs_iff[OF core] entry by fact
      then show "hash_map_abs hm k \<noteq> None" by simp
    qed
  qed
  then show "hash_map_lookup hm k d = Inr (case hash_map_abs hm k of None \<Rightarrow> d | Some v \<Rightarrow> v)"
    and "hash_map_contains hm k = Inr (hash_map_abs hm k \<noteq> None)"
    unfolding hash_map_lookup_def hash_map_contains_def c by (auto split: option.split)
qed

subsection \<open>Removal\<close>

lemma index_Suc:
  assumes "hash_map_shape hm" "unat idx mod width hm = p mod width hm"
  shows "unat (idx + 1 :: u64) mod width hm = Suc p mod width hm"
  using index_add[OF assms(1), of idx 1] mod_add_cong[OF assms(2) refl, of 1] by simp

text \<open>The loop that moves the rest of the run back by one slot, \<open>m\<close> times.\<close>

lemma shift_down:
  assumes "hash_map_shape hm" "unat idx mod width hm = p mod width hm" "Suc m < width hm" "slots hm p \<noteq> None"
    and "\<And>c. c < m \<Longrightarrow> \<exists>x. slots hm (Suc (p + c)) = Some x \<and> 0 < rh_dist key (width hm) (Suc (p + c)) x"
    and "\<And>x. slots hm (Suc (p + m)) = Some x \<Longrightarrow> rh_dist key (width hm) (Suc (p + m)) x = 0"
  shows "\<exists>hm'. while_loop (\<lambda>(hm, slot). \<not> hash_map_slot_is_empty hm (slot + 1)
            \<and> hash_map_slot_distance hm (slot + 1) \<noteq> 0)
          (\<lambda>(hm, slot). (hash_map_slot_assign hm slot (hash_map_slot_entry hm (slot + 1)), slot + 1))
          (hm, idx) = Inr (hm', idx + of_nat m)
    \<and> hash_map_shape hm' \<and> hm_size hm' = hm_size hm \<and> hm_n_items hm' = hm_n_items hm
    \<and> (\<forall>c<width hm. slots hm' (p + c) = (if c < m then slots hm (Suc (p + c)) else slots hm (p + c)))"
  using assms
proof (induction m arbitrary: hm idx p)
  case 0
  note at = slots_word[OF 0(1) index_Suc[OF 0(1,2)]] distance_word[OF 0(1) index_Suc[OF 0(1,2)]]
  have "hash_map_slot_is_empty hm (idx + 1) \<or> hash_map_slot_distance hm (idx + 1) = 0"
    using 0(6) at(1,3) by (cases "slots hm (Suc p)") (auto simp: word_unat_eq_iff)
  then show ?case using 0(1) by (subst while_loop_unfold) auto
next
  case (Suc m)
  let ?n = "width hm"
  note sh = Suc.prems(1)
  note at = slots_word[OF sh index_Suc[OF sh Suc.prems(2)]] distance_word[OF sh index_Suc[OF sh Suc.prems(2)]]
  obtain x where x: "slots hm (Suc p) = Some x" "0 < rh_dist key ?n (Suc p) x" using Suc.prems(5)[of 0] by auto
  let ?hm = "hash_map_slot_assign hm idx x"
  note assign = slot_assign[OF sh Suc.prems(2), of x]
  have slots': "slots ?hm (p + c) = (if c = 0 then Some x else slots hm (p + c))" if "c < ?n" for c
    using assign(4)[of "p + c"] mod_add_cancel_left[of p c ?n 0] that Suc.prems(4) by auto
  have slots1: "slots ?hm (Suc p + c) = slots hm (Suc p + c)" if "Suc c < ?n" for c
    using slots'[of "Suc c"] that by simp
  have go: "\<not> hash_map_slot_is_empty hm (idx + 1)" "hash_map_slot_distance hm (idx + 1) \<noteq> 0"
    "hash_map_slot_entry hm (idx + 1) = x"
    using at x by (auto simp: word_unat_eq_iff)
  have "\<exists>hm'. while_loop (\<lambda>(hm, slot). \<not> hash_map_slot_is_empty hm (slot + 1)
            \<and> hash_map_slot_distance hm (slot + 1) \<noteq> 0)
          (\<lambda>(hm, slot). (hash_map_slot_assign hm slot (hash_map_slot_entry hm (slot + 1)), slot + 1))
          (?hm, idx + 1) = Inr (hm', idx + 1 + of_nat m)
    \<and> hash_map_shape hm' \<and> hm_size hm' = hm_size ?hm \<and> hm_n_items hm' = hm_n_items ?hm
    \<and> (\<forall>c<width ?hm. slots hm' (Suc p + c) = (if c < m then slots ?hm (Suc (Suc p + c)) else slots ?hm (Suc p + c)))"
  proof (rule Suc.IH)
    show "\<exists>x. slots ?hm (Suc (Suc p + c)) = Some x \<and> 0 < rh_dist key (width ?hm) (Suc (Suc p + c)) x" if "c < m" for c
      using Suc.prems(3) Suc.prems(5)[of "Suc c"] slots1[of "Suc c"] that assign(2) by simp
    show "rh_dist key (width ?hm) (Suc (Suc p + m)) y = 0" if "slots ?hm (Suc (Suc p + m)) = Some y" for y
      using Suc.prems(3) Suc.prems(6)[of y] slots1[of "Suc m"] that assign(2) by simp
    show "slots ?hm (Suc p) \<noteq> None" using slots1[of 0] x Suc.prems(3) by simp
    show "unat (idx + 1) mod width ?hm = Suc p mod width ?hm"
      using index_Suc[OF sh Suc.prems(2)] assign(2) by simp
  qed (use assign Suc.prems(3) in simp_all)
  then obtain hm' where hm': "while_loop (\<lambda>(hm, slot). \<not> hash_map_slot_is_empty hm (slot + 1)
            \<and> hash_map_slot_distance hm (slot + 1) \<noteq> 0)
          (\<lambda>(hm, slot). (hash_map_slot_assign hm slot (hash_map_slot_entry hm (slot + 1)), slot + 1))
          (?hm, idx + 1) = Inr (hm', idx + 1 + of_nat m)"
    "hash_map_shape hm'" "hm_size hm' = hm_size hm" "hm_n_items hm' = hm_n_items hm"
    and sl: "\<And>c. c < ?n \<Longrightarrow> slots hm' (Suc p + c) = (if c < m then slots ?hm (Suc (Suc p + c)) else slots ?hm (Suc p + c))"
    using assign(2,3) by auto
  have "slots hm' (p + c) = (if c < Suc m then slots hm (Suc (p + c)) else slots hm (p + c))" if c: "c < ?n" for c
  proof (cases c)
    case 0
    have wrap: "Suc p + (?n - 1) = p + ?n" using Suc.prems(3) by simp
    have "\<not> ?n - 1 < m" "?n - 1 < ?n" using Suc.prems(3) by simp_all
    then have "slots hm' (p + ?n) = slots ?hm (p + ?n)" using sl[of "?n - 1"] unfolding wrap by simp
    moreover have "slots hm' (p + ?n) = slots hm' p" using slots_period[OF hm'(2), of p] hm'(3) by simp
    moreover have "slots ?hm (p + ?n) = slots ?hm p" using slots_period[OF assign(1), of p] assign(2) by simp
    ultimately have "slots hm' p = slots ?hm p" by simp
    also have "\<dots> = Some x" using slots'[of 0] Suc.prems(3) by simp
    finally show ?thesis using 0 x by simp
  next
    case (Suc b)
    then show ?thesis
      using sl[of b] slots1[of b] slots1[of "Suc b"] c Suc.prems(3) by auto
  qed
  moreover have "while_loop (\<lambda>(hm, slot). \<not> hash_map_slot_is_empty hm (slot + 1)
            \<and> hash_map_slot_distance hm (slot + 1) \<noteq> 0)
          (\<lambda>(hm, slot). (hash_map_slot_assign hm slot (hash_map_slot_entry hm (slot + 1)), slot + 1))
          (hm, idx) = Inr (hm', idx + of_nat (Suc m))"
    by (subst while_loop_unfold) (use go hm'(1) in \<open>simp add: ac_simps\<close>)
  ultimately show ?case using hm'(2-4) by blast
qed

text \<open>The search of a removal, which looks at keys only and stops at the key or at a free slot.\<close>

lemma remove_search:
  assumes core: "hash_map_core hm" and hole: "slots hm i = None"
  obtains d where "while_loop (\<lambda>slot. \<not> hash_map_slot_is_empty hm slot
          \<and> hm_k (hash_map_slot_entry hm slot) \<noteq> k) (\<lambda>slot. slot + 1) k = Inr (k + of_nat d)"
    and "\<And>e. slots hm (unat k + d) = Some e \<Longrightarrow> hm_k e = k"
    and "hash_map_abs hm k \<noteq> None \<longleftrightarrow> slots hm (unat k + d) \<noteq> None"
proof -
  let ?n = "width hm" and ?t = "slots hm" and ?k = "unat k"
  note sh = core_shape[OF core] and inv = core_inv[OF core]
  define Q where "Q c \<longleftrightarrow> (\<forall>e. ?t (?k + c) = Some e \<longrightarrow> hm_k e = k)" for c
  obtain b where "b < ?n" "?t (?k + b) = None" by (rule rh_hole_near[OF inv hole])
  then have "Q b" by (simp add: Q_def)
  then obtain d where d: "d \<le> b" "Q d" "\<And>c. c < d \<Longrightarrow> \<not> Q c"
    using ex_least_nat_le[of Q b] by blast
  note at = slots_word[OF sh index_add[OF sh]]
  have "while_loop (\<lambda>slot. \<not> hash_map_slot_is_empty hm slot
      \<and> hm_k (hash_map_slot_entry hm slot) \<noteq> k) (\<lambda>slot. slot + 1) k = Inr (k + of_nat d)"
  proof (rule while_loop_count)
    show "\<not> hash_map_slot_is_empty hm (k + of_nat c) \<and> hm_k (hash_map_slot_entry hm (k + of_nat c)) \<noteq> k" if "c < d" for c
      using d(3)[OF that] at[of k c] by (auto simp: Q_def)
    show "\<not> (\<not> hash_map_slot_is_empty hm (k + of_nat d) \<and> hm_k (hash_map_slot_entry hm (k + of_nat d)) \<noteq> k)"
      using d(2) at[of k d] by (auto simp: Q_def)
  qed
  moreover have "hash_map_abs hm k \<noteq> None \<longleftrightarrow> ?t (?k + d) \<noteq> None"
  proof
    assume "hash_map_abs hm k \<noteq> None"
    then obtain v where "\<lparr> hm_k = k, hm_v = v \<rparr> \<in> rh_set ?t" by (auto simp: abs_iff[OF core])
    then obtain j e where e: "?t j = Some e" "hm_k e = k" by (auto simp: rh_set_def)
    let ?d = "rh_dist key ?n j e"
    have run: "\<exists>e'. ?t (?k + c) = Some e'" if "c \<le> ?d" for c
      using rh_run[OF inv e(1) that] e(2) by auto
    have "(?k + ?d) mod ?n = j mod ?n" using rh_dist_home[OF rh_inv_pos[OF inv], of key e j] e(2) by simp
    from rh_inv_cong[OF inv this] have "?t (?k + ?d) = Some e" using e(1) by simp
    then have "Q ?d" using e(2) by (simp add: Q_def)
    then have "d \<le> ?d" using d(3)[of ?d] by (cases "?d < d") auto
    then show "?t (?k + d) \<noteq> None" using run[of d] by auto
  next
    assume "?t (?k + d) \<noteq> None"
    then obtain e where e: "?t (?k + d) = Some e" by auto
    then have "hm_k e = k" using d(2) by (simp add: Q_def)
    moreover have "e \<in> rh_set ?t" using e unfolding rh_set_def by blast
    ultimately have "\<lparr> hm_k = k, hm_v = hm_v e \<rparr> \<in> rh_set ?t" by (metis entry_eq_iff)
    then show "hash_map_abs hm k \<noteq> None" by (auto simp flip: abs_iff[OF core])
  qed
  ultimately show thesis using that d(2) unfolding Q_def by blast
qed

lemma release_core:
  assumes core: "hash_map_core hm" and hole: "slots hm i = None"
    and at: "unat idx mod width hm = p mod width hm" and e: "slots hm p = Some e"
  obtains hm1 slot where
    "while_loop (\<lambda>(hm, slot). \<not> hash_map_slot_is_empty hm (slot + 1)
            \<and> hash_map_slot_distance hm (slot + 1) \<noteq> 0)
          (\<lambda>(hm, slot). (hash_map_slot_assign hm slot (hash_map_slot_entry hm (slot + 1)), slot + 1))
          (hm, idx) = Inr (hm1, slot)"
    and "hash_map_core (hash_map_slot_release hm1 slot)"
    and "hm_size (hash_map_slot_release hm1 slot) = hm_size hm"
    and "rh_set (slots (hash_map_slot_release hm1 slot)) = rh_set (slots hm) - {e}"
proof -
  let ?n = "width hm" and ?t = "slots hm"
  note sh = core_shape[OF core] and inv = core_inv[OF core]
  define Q where "Q c \<longleftrightarrow> (\<forall>x. ?t (Suc (p + c)) = Some x \<longrightarrow> rh_dist key ?n (Suc (p + c)) x = 0)" for c
  obtain b where b: "b < ?n" "?t (Suc p + b) = None" by (rule rh_hole_near[OF inv hole])
  have "Suc b \<noteq> ?n"
  proof
    assume "Suc b = ?n"
    then have "Suc p + b = p + ?n" by simp
    then have "?t (Suc p + b) = ?t p" using slots_period[OF sh, of p] by (simp only:)
    then show False using b(2) e by simp
  qed
  have "Q b" using b(2) by (simp add: Q_def)
  then obtain m where m: "m \<le> b" "Q m" "\<And>c. c < m \<Longrightarrow> \<not> Q c"
    using ex_least_nat_le[of Q b] by blast
  have mn: "Suc m < ?n" using m(1) b(1) \<open>Suc b \<noteq> ?n\<close> by simp
  have run: "\<exists>x. ?t (Suc (p + c)) = Some x \<and> 0 < rh_dist key ?n (Suc (p + c)) x" if "c < m" for c
    using m(3)[OF that] by (auto simp: Q_def)
  have stop: "rh_dist key ?n (Suc (p + m)) x = 0" if "?t (Suc (p + m)) = Some x" for x
    using m(2) that by (simp add: Q_def)
  obtain hm1 where hm1: "while_loop (\<lambda>(hm, slot). \<not> hash_map_slot_is_empty hm (slot + 1)
            \<and> hash_map_slot_distance hm (slot + 1) \<noteq> 0)
          (\<lambda>(hm, slot). (hash_map_slot_assign hm slot (hash_map_slot_entry hm (slot + 1)), slot + 1))
          (hm, idx) = Inr (hm1, idx + of_nat m)"
    "hash_map_shape hm1" "hm_size hm1 = hm_size hm" "hm_n_items hm1 = hm_n_items hm"
    and sl: "\<And>c. c < ?n \<Longrightarrow> slots hm1 (p + c) = (if c < m then ?t (Suc (p + c)) else ?t (p + c))"
    using shift_down[OF sh at mn _ run stop] e by auto
  let ?hm = "hash_map_slot_release hm1 (idx + of_nat m)"
  have at_m: "unat (idx + of_nat m) mod width hm1 = (p + m) mod width hm1"
    using index_add[OF sh, of idx m] mod_add_cong[OF at refl, of m] hm1(3) by simp
  note rel = slot_release[OF hm1(2) at_m]
  have w: "width hm1 = ?n" using hm1(3) by simp
  have del: "slots ?hm = rh_del ?n ?t p m"
  proof (rule table_eqI[OF width_bounds(1)[OF sh], where p = p])
    show "\<forall>i. slots ?hm (i + ?n) = slots ?hm i" using slots_period[OF rel(1)] rel(2) w by simp
    show "\<forall>i. rh_del ?n ?t p m (i + ?n) = rh_del ?n ?t p m i"
      by (rule rh_del_period) (simp add: slots_period[OF sh])
    fix c assume c: "c < ?n"
    have at_c: "(p + c) mod ?n = (p + m) mod ?n \<longleftrightarrow> c = m"
      using mod_add_cancel_left[of p c ?n m] c mn by auto
    show "slots ?hm (p + c) = rh_del ?n ?t p m (p + c)"
      unfolding rh_del_at[OF c] rel(4)[of "p + c"] w at_c using sl[OF c] by simp
  qed
  have set': "rh_set (slots ?hm) = rh_set ?t - {e}"
    unfolding del by (rule rh_set_del[OF inv _ e]) (use mn in simp)
  have "e \<in> rh_set ?t" using e unfolding rh_set_def by blast
  then have "card (rh_set ?t) = Suc (card (rh_set (slots ?hm)))"
    unfolding set' using card_Suc_Diff1[OF finite_rh_set[OF inv]] by simp
  moreover have "unat (hm_n_items hm - 1) = unat (hm_n_items hm) - 1"
    using calculation core_count[OF core] by (intro unat_minus_one) auto
  moreover have "rh_inv key ?n (slots ?hm)" unfolding del by (rule rh_inv_del[OF inv e mn run stop])
  ultimately have "hash_map_core ?hm"
    using rel(1-3) hm1(3,4) core_count[OF core] by (simp add: hash_map_core_def)
  then show thesis using that hm1(1) rel(2) hm1(3) set' by auto
qed

lemma remove_missing:
  assumes "hash_map_wf hm" "hash_map_abs hm k = None"
  shows "hash_map_remove hm k = Inl Crash"
proof -
  have core: "hash_map_core hm" using assms(1) by (simp add: hash_map_wf_core)
  obtain i where hole: "slots hm i = None" by (rule wf_hole[OF assms(1)])
  obtain d where d: "while_loop (\<lambda>slot. \<not> hash_map_slot_is_empty hm slot
          \<and> hm_k (hash_map_slot_entry hm slot) \<noteq> k) (\<lambda>slot. slot + 1) k = Inr (k + of_nat d)"
    and "hash_map_abs hm k \<noteq> None \<longleftrightarrow> slots hm (unat k + d) \<noteq> None"
    by (rule remove_search[OF core hole, of k]) (rule that)
  then have "hash_map_slot_is_empty hm (k + of_nat d)"
    using assms(2) slots_word(1)[OF core_shape[OF core] index_add[OF core_shape[OF core]]] by simp
  then show ?thesis unfolding hash_map_remove_def d by simp
qed

lemma remove_wf:
  assumes wf: "hash_map_wf hm" and present: "hash_map_abs hm k \<noteq> None"
  obtains hm' where "hash_map_remove hm k = Inr hm'" "hash_map_wf hm'" "hm_size hm' \<le> hm_size hm"
    and "hash_map_abs hm' = (hash_map_abs hm)(k := None)"
    and "hm_size hm' = (if 8 < hm_size hm \<and> hm_n_items hm - 1 \<le> hm_size hm div 8 then hm_size hm div 2 else hm_size hm)"
proof -
  have core: "hash_map_core hm" using wf by (simp add: hash_map_wf_core)
  note sh = core_shape[OF core]
  obtain i where hole: "slots hm i = None" by (rule wf_hole[OF wf])
  obtain d where d: "while_loop (\<lambda>slot. \<not> hash_map_slot_is_empty hm slot
          \<and> hm_k (hash_map_slot_entry hm slot) \<noteq> k) (\<lambda>slot. slot + 1) k = Inr (k + of_nat d)"
    and key: "\<And>e. slots hm (unat k + d) = Some e \<Longrightarrow> hm_k e = k"
    and iff: "hash_map_abs hm k \<noteq> None \<longleftrightarrow> slots hm (unat k + d) \<noteq> None"
    by (rule remove_search[OF core hole, of k]) (rule that)
  obtain e where e: "slots hm (unat k + d) = Some e" using iff present by auto
  have nonempty: "\<not> hash_map_slot_is_empty hm (k + of_nat d)"
    using slots_word(1)[OF sh index_add[OF sh, of k d]] e by simp
  obtain hm1 slot where loop: "while_loop (\<lambda>(hm, slot). \<not> hash_map_slot_is_empty hm (slot + 1)
            \<and> hash_map_slot_distance hm (slot + 1) \<noteq> 0)
          (\<lambda>(hm, slot). (hash_map_slot_assign hm slot (hash_map_slot_entry hm (slot + 1)), slot + 1))
          (hm, k + of_nat d) = Inr (hm1, slot)"
    and core': "hash_map_core (hash_map_slot_release hm1 slot)"
    and size': "hm_size (hash_map_slot_release hm1 slot) = hm_size hm"
    and set': "rh_set (slots (hash_map_slot_release hm1 slot)) = rh_set (slots hm) - {e}"
    by (rule release_core[OF core hole index_add[OF sh, of k d] e]) (rule that)
  let ?hm = "hash_map_slot_release hm1 slot"
  have "x = e" if "x \<in> rh_set (slots hm)" "hm_k x = k" for x
  proof -
    have "e \<in> rh_set (slots hm)" using e unfolding rh_set_def by blast
    then show ?thesis using rh_set_inj[OF core_inv[OF core]] that key[OF e] by (auto simp: inj_on_def)
  qed
  then have abs': "hash_map_abs ?hm = (hash_map_abs hm)(k := None)"
    using key[OF e] by (intro abs_eqI[OF core']) (auto simp: set' abs_iff[OF core] entry_eq_iff)
  have "e \<in> rh_set (slots hm)" using e unfolding rh_set_def by blast
  then have "unat (hm_n_items ?hm) = unat (hm_n_items hm) - 1" "0 < unat (hm_n_items hm)"
    using core_count[OF core'] core_count[OF core] set' finite_rh_set[OF core_inv[OF core]] card_gt_0_iff by auto
  then have "hm_n_items ?hm = hm_n_items hm - 1" by (simp add: word_unat_eq_iff unat_sub_if')
  then have small: "hash_map_should_shrink ?hm \<longleftrightarrow> 8 < hm_size hm \<and> hm_n_items hm - 1 \<le> hm_size hm div 8"
    using size' drop_bit_eq_div[of 3 "hm_size hm"] by (simp add: hash_map_should_shrink_def)
  have rem: "hash_map_remove hm k = (if hash_map_should_shrink ?hm then hash_map_shrink ?hm else Inr ?hm)"
    unfolding hash_map_remove_def d using nonempty loop by (simp add: Let_def)
  show thesis
  proof (cases "hash_map_should_shrink ?hm")
    case True
    obtain hm' where "hash_map_shrink ?hm = Inr hm'" "hash_map_wf hm'" "hm_size hm' = hm_size ?hm div 2"
      "hash_map_abs hm' = hash_map_abs ?hm" by (rule shrink[OF core' True])
    moreover have "hm_size hm div 2 \<le> hm_size hm" by (simp add: word_le_nat_alt unat_div_distrib)
    ultimately show thesis using that rem True abs' size' small by simp
  next
    case False
    have "card (rh_set (slots ?hm)) \<le> card (rh_set (slots hm))"
      unfolding set' using finite_rh_set[OF core_inv[OF core]] by (intro card_mono) auto
    also have "\<dots> \<le> width hm - width hm div 8" using wf by (simp add: hash_map_wf_core)
    finally have "hash_map_wf ?hm" using core' size' by (simp add: hash_map_wf_core)
    moreover have "(if 8 < hm_size hm \<and> hm_n_items hm - 1 \<le> hm_size hm div 8 then hm_size hm div 2 else hm_size hm) = hm_size hm"
      using False unfolding small by (rule if_not_P)
    ultimately show thesis using that[of ?hm] rem False abs' size' by simp
  qed
qed

subsection \<open>The address map as a partial map\<close>

definition address_map_abs :: "address_map \<Rightarrow> u64 \<rightharpoonup> u64" where
  "address_map_abs hm addr = hash_map_abs hm (hash_address addr)"

lemma address_map_abs_update:
  "hash_map_abs hm' = (hash_map_abs hm)(hash_address a := x) \<Longrightarrow>
    address_map_abs hm' = (address_map_abs hm)(a := x)"
  by (auto simp: address_map_abs_def fun_eq_iff)

lemma wf_empty:
  assumes "hash_map_shape hm" "\<And>i. slots hm i = None" "hm_n_items hm = 0"
  shows "hash_map_wf hm"
  using core_empty[OF assms] by (simp add: hash_map_wf_core)

lemma init_wf: "hash_map_wf address_map_init" "address_map_abs address_map_init = Map.empty"
  "hm_size address_map_init = 8"
  using shape_init[of 3] core_empty[OF shape_init(1,3,4), of 3] wf_empty[OF shape_init(1,3,4), of 3]
  by (auto simp: address_map_init_def address_map_abs_def)

lemma clear_wf:
  assumes "hash_map_wf hm"
  shows "hash_map_wf (hash_map_clear hm)" "hash_map_abs (hash_map_clear hm) = Map.empty"
    "hm_size (hash_map_clear hm) = hm_size hm"
proof -
  have sh: "hash_map_shape hm" using assms by (simp add: hash_map_wf_def)
  let ?hm = "hash_map_clear hm"
  have len: "length (hm_bits hm) = width hm div 8" using sh by (simp add: hash_map_shape_def)
  have bits: "hm_bits ?hm = replicate (width hm div 8) 0"
    by (simp add: hash_map_clear_def unat_div_distrib len)
  show sz: "hm_size ?hm = hm_size hm" by (simp add: hash_map_clear_def)
  have sh': "hash_map_shape ?hm"
    using sh bits by (simp add: hash_map_shape_def hash_map_clear_def)
  have "i mod width hm div 8 < width hm div 8" for i
    using width_bounds(1,3)[OF sh] by (intro less_mult_imp_div_less) simp
  then have none: "slots ?hm i = None" for i unfolding slots_alt[OF sh'] sz bits by simp
  have "hm_n_items ?hm = 0" by (simp add: hash_map_clear_def)
  from core_empty(2)[OF sh' none this] wf_empty[OF sh' none this]
  show "hash_map_wf ?hm" "hash_map_abs ?hm = Map.empty" by simp_all
qed

definition address_map_room :: "address_map \<Rightarrow> bool" where
  "address_map_room hm \<longleftrightarrow> hm_size hm < 2 ^ 59"

lemma address_map_table:
  "address_table hash_map_wf address_map_room address_map_abs address_map_init
    address_map_add address_map_remove address_map_lookup address_map_contains"
proof
  fix hm a v d
  assume wf: "hash_map_wf hm"
  have core: "hash_map_core hm" using wf by (simp add: hash_map_wf_core)
  obtain i where hole: "slots hm i = None" by (rule wf_hole[OF wf])
  show "address_map_lookup hm a d = Inr (case address_map_abs hm a of None \<Rightarrow> d | Some v \<Rightarrow> v)"
    and "address_map_contains hm a = Inr (address_map_abs hm a \<noteq> None)"
    unfolding address_map_lookup_def address_map_contains_def address_map_abs_def
    by (rule lookup_core[OF core hole])+
  show "\<exists>hm'. address_map_add hm a v = Inr hm' \<and> hash_map_wf hm' \<and> address_map_abs hm' = (address_map_abs hm)(a \<mapsto> v)"
    if "address_map_room hm"
    unfolding address_map_add_def
    by (rule insert_wf[OF wf that[unfolded address_map_room_def], of "hash_address a" v])
      (use address_map_abs_update in blast)
  show "\<exists>hm'. address_map_remove hm a = Inr hm' \<and> hash_map_wf hm' \<and> address_map_abs hm' = (address_map_abs hm)(a := None)"
    if "address_map_abs hm a \<noteq> None"
    unfolding address_map_remove_def
    by (rule remove_wf[OF wf that[unfolded address_map_abs_def]]) (use address_map_abs_update in blast)
  show "address_map_remove hm a = Inl Crash" if "address_map_abs hm a = None"
    unfolding address_map_remove_def using remove_missing[OF wf] that by (simp add: address_map_abs_def)
qed (simp add: init_wf)

interpretation am: address_table hash_map_wf address_map_room address_map_abs address_map_init
    address_map_add address_map_remove address_map_lookup address_map_contains
  by (rule address_map_table)

lemma for_each_entries:
  assumes "hash_map_core hm"
  shows "hash_map_for_each hm f s = fold (\<lambda>(k, v). f k v) [(hm_k e, hm_v e). e \<leftarrow> hash_map_entries hm] s"
proof -
  have "hash_map_for_each hm f s = fold (\<lambda>e. f (hm_k e) (hm_v e)) (hash_map_entries hm) s"
    unfolding hash_map_for_each_def hash_map_entries_def by (rule fold_filter)
  then show ?thesis by (simp add: fold_map comp_def)
qed

subsection \<open>What the callers of the map rely on\<close>

text \<open>C24: Adding a mapping to a well-formed address map terminates with a well-formed map, twice
  the size if the load was seven eighths and of the same size otherwise, which maps the address to the value and every other address as before.\<close>

theorem address_map_add_correct:
  assumes "hash_map_wf hm" "hm_size hm < 2 ^ 59"
  shows "\<exists>hm'. address_map_add hm a v = Inr hm' \<and> hash_map_wf hm'
    \<and> hm_size hm' = (if hash_map_should_grow hm then 2 * hm_size hm else hm_size hm)
    \<and> address_map_abs hm' = (address_map_abs hm)(a \<mapsto> v)"
  unfolding address_map_add_def
  by (rule insert_wf[OF assms, of "hash_address a" v]) (use address_map_abs_update in blast)

theorem address_map_add_correct_witness:
  "\<exists>hm'. address_map_add address_map_init 0x1000 7 = Inr hm' \<and> hash_map_wf hm'
    \<and> hm_size hm' = (if hash_map_should_grow address_map_init then 2 * hm_size address_map_init
                    else hm_size address_map_init)
    \<and> address_map_abs hm' = (address_map_abs address_map_init)(0x1000 \<mapsto> 7)"
  by (rule address_map_add_correct) (simp_all add: init_wf)

text \<open>C25: Removing an address that the map holds terminates and removes exactly that address; the
  table is halved when and only when it has more than eight slots and not more than an eighth of them
  are left in use. Removing an address that the map does not hold reaches the trap.\<close>

theorem address_map_remove_correct:
  assumes "hash_map_wf hm"
  shows "if address_map_abs hm a = None then address_map_remove hm a = Inl Crash
    else \<exists>hm'. address_map_remove hm a = Inr hm' \<and> hash_map_wf hm'
      \<and> hm_size hm' = (if 8 < hm_size hm \<and> hm_n_items hm - 1 \<le> hm_size hm div 8 then hm_size hm div 2 else hm_size hm)
      \<and> address_map_abs hm' = (address_map_abs hm)(a := None)"
proof (cases "address_map_abs hm a")
  case None
  then show ?thesis using am.remove_missing_law[OF assms] by simp
next
  case (Some v)
  then have "hash_map_abs hm (hash_address a) \<noteq> None" by (simp add: address_map_abs_def)
  then obtain hm' where "hash_map_remove hm (hash_address a) = Inr hm'" "hash_map_wf hm'"
    "hm_size hm' = (if 8 < hm_size hm \<and> hm_n_items hm - 1 \<le> hm_size hm div 8 then hm_size hm div 2 else hm_size hm)"
    and "hash_map_abs hm' = (hash_map_abs hm)(hash_address a := None)" by (rule remove_wf[OF assms])
  then show ?thesis using Some address_map_abs_update unfolding address_map_remove_def by auto
qed

theorem address_map_remove_correct_witness:
  "\<exists>hm hm'. address_map_add address_map_init 5 7 = Inr hm \<and> address_map_abs hm 5 = Some 7
    \<and> address_map_remove hm 5 = Inr hm' \<and> hash_map_wf hm' \<and> address_map_abs hm' = Map.empty"
proof -
  have "address_map_room address_map_init"
    by (simp add: address_map_room_def address_map_init_def hash_map_init_def hash_map_clear_def)
  then obtain hm where hm: "address_map_add address_map_init 5 7 = Inr hm" "hash_map_wf hm"
    "address_map_abs hm = (address_map_abs address_map_init)(5 \<mapsto> 7)"
    using am.add_law[OF init_wf(1)] by blast
  then show ?thesis using address_map_remove_correct[OF hm(2), of 5] by (auto simp: init_wf(2))
qed

text \<open>a lookup in a well-formed map terminates with the value of the address, or the default
  when there is none, and the membership test agrees with it.\<close>

theorem address_map_lookup_correct:
  assumes "hash_map_wf hm"
  shows "address_map_lookup hm a d = Inr (case address_map_abs hm a of None \<Rightarrow> d | Some v \<Rightarrow> v)
    \<and> address_map_contains hm a = Inr (address_map_abs hm a \<noteq> None)"
  using am.lookup_law[OF assms] am.contains_law[OF assms] by simp

theorem address_map_lookup_correct_witness:
  "address_map_lookup address_map_init 3 9 = Inr (case address_map_abs address_map_init 3 of None \<Rightarrow> 9 | Some v \<Rightarrow> v)
    \<and> address_map_contains address_map_init 3 = Inr (address_map_abs address_map_init 3 \<noteq> None)"
  by (rule address_map_lookup_correct) (simp add: init_wf)

lemma for_each_graph:
  assumes "hash_map_wf hm"
  shows "\<exists>xs. distinct (map fst xs) \<and> map_of xs = address_map_abs hm
    \<and> (\<forall>f s. address_map_for_each hm f s = fold (\<lambda>(a, v). f a v) xs s)"
proof -
  have core: "hash_map_core hm" using assms by (simp add: hash_map_wf_core)
  let ?es = "[(hm_k e, hm_v e). e \<leftarrow> hash_map_entries hm]"
  let ?xs = "[(unhash_address k, v). (k, v) \<leftarrow> ?es]"
  have inj: "inj unhash_address" by (metis hash_unhash_address injI)
  have "distinct (map fst ?es)" using distinct_entries[OF core] by (simp add: comp_def)
  then have "distinct (map unhash_address (map fst ?es))"
    unfolding distinct_map[of unhash_address "map fst ?es"] using inj_on_subset[OF inj subset_UNIV] by blast
  then have "distinct (map fst ?xs)" by (simp add: comp_def case_prod_beta)
  moreover have "map_of ?xs a = address_map_abs hm a" for a
  proof -
    have "map_of [(unhash_address k, v). (k, v) \<leftarrow> es] a = map_of es (hash_address a)" for es :: "(u64 \<times> u64) list"
      by (induction es) auto
    then show ?thesis by (simp only: address_map_abs_def hash_map_abs_def)
  qed
  moreover have "address_map_for_each hm f s = fold (\<lambda>(a, v). f a v) ?xs s" for f :: "u64 \<Rightarrow> u64 \<Rightarrow> 's \<Rightarrow> 's" and s
    unfolding address_map_for_each_def for_each_entries[OF core]
    by (simp add: fold_map comp_def case_prod_beta)
  ultimately show ?thesis by blast
qed

text \<open>iteration calls its function once for each address that the map holds, on the address
  itself (not its hash) and its value: the calls are made along a list of the map's graph.\<close>

theorem address_map_for_each_correct:
  assumes "hash_map_wf hm"
  shows "\<exists>xs. distinct (map fst xs) \<and> map_of xs = address_map_abs hm
    \<and> (\<forall>f s. address_map_for_each hm f s = fold (\<lambda>(a, v). f a v) xs s)"
  by (rule for_each_graph[OF assms])

theorem address_map_for_each_correct_witness:
  "\<exists>xs. distinct (map fst xs) \<and> map_of xs = address_map_abs address_map_init
    \<and> (\<forall>f s. address_map_for_each address_map_init f s = fold (\<lambda>(a, v). f a v) xs s)"
  by (rule address_map_for_each_correct) (simp add: init_wf)

end
