(* ===== verification/AddressSet.thy ===== *)
theory AddressSet
  imports AddressMap
begin

section \<open>The address set\<close>

text \<open>
  \<open>src/src/address-set.h\<close>: the table of \<open>address-map.h\<close> with keys only. \<open>as_map\<close> turns a set into the
  map that sends each of its keys to 0; every operation of the set is the map's operation
  there, so that the map's theorems carry over. The union of two sets does not grow the
  first one beyond the size of the second: it is right when the sum of the two sets fits into
  the slots, and it never returns when two disjoint sets do not fit.
\<close>

record hash_set =
  hs_data :: "u64 list"
  hs_size :: u64
  hs_n_items :: u64
  hs_bits :: "u8 list"

definition hash_set_clear :: "hash_set \<Rightarrow> hash_set" where
  "hash_set_clear hs =
    hs\<lparr> hs_bits := replicate (unat (hs_size hs div 8)) 0 @ drop (unat (hs_size hs div 8)) (hs_bits hs),
        hs_n_items := 0 \<rparr>"

definition hash_set_init :: "u64 \<Rightarrow> hash_set" where
  "hash_set_init sz = hash_set_clear
    \<lparr> hs_data = replicate (unat (8 * sz) div 8) 0,
      hs_size = sz, hs_n_items = 0, hs_bits = replicate (unat (sz div 8)) 0 \<rparr>"

definition hash_set_slot_index :: "hash_set \<Rightarrow> u64 \<Rightarrow> u64" where
  "hash_set_slot_index hs idx = idx AND (hs_size hs - 1)"

definition hash_set_slot_is_empty :: "hash_set \<Rightarrow> u64 \<Rightarrow> bool" where
  "hash_set_slot_is_empty hs idx =
    (let idx = hash_set_slot_index hs idx in
     hs_bits hs ! unat (idx div 8) AND push_bit (unat (idx mod 8)) 1 = 0)"

definition hash_set_slot_ref :: "hash_set \<Rightarrow> u64 \<Rightarrow> u64" where
  "hash_set_slot_ref hs idx = hs_data hs ! unat (hash_set_slot_index hs idx)"

definition hash_set_slot_set :: "hash_set \<Rightarrow> u64 \<Rightarrow> u64 \<Rightarrow> hash_set" where
  "hash_set_slot_set hs idx v =
    hs\<lparr> hs_data := (hs_data hs)[unat (hash_set_slot_index hs idx) := v] \<rparr>"

definition hash_set_slot_acquire :: "hash_set \<Rightarrow> u64 \<Rightarrow> hash_set" where
  "hash_set_slot_acquire hs idx =
    (let idx = hash_set_slot_index hs idx; byte = unat (idx div 8) in
     hs\<lparr> hs_bits := (hs_bits hs)[byte := hs_bits hs ! byte OR push_bit (unat (idx mod 8)) 1],
         hs_n_items := hs_n_items hs + 1 \<rparr>)"

definition hash_set_slot_release :: "hash_set \<Rightarrow> u64 \<Rightarrow> hash_set" where
  "hash_set_slot_release hs idx =
    (let idx = hash_set_slot_index hs idx; byte = unat (idx div 8) in
     hs\<lparr> hs_bits := (hs_bits hs)[byte := hs_bits hs ! byte AND NOT (push_bit (unat (idx mod 8)) 1)],
         hs_n_items := hs_n_items hs - 1 \<rparr>)"

definition hash_set_slot_distance :: "hash_set \<Rightarrow> u64 \<Rightarrow> u64" where
  "hash_set_slot_distance hs idx = hash_set_slot_index hs (idx - hash_set_slot_ref hs idx)"

definition hash_set_should_shrink :: "hash_set \<Rightarrow> bool" where
  "hash_set_should_shrink hs = (8 < hs_size hs \<and> hs_n_items hs \<le> drop_bit 3 (hs_size hs))"

definition hash_set_should_grow :: "hash_set \<Rightarrow> bool" where
  "hash_set_should_grow hs = (hs_size hs - drop_bit 3 (hs_size hs) \<le> hs_n_items hs)"

primrec hash_set_shift_up :: "hash_set \<Rightarrow> u64 \<Rightarrow> nat \<Rightarrow> hash_set" where
  "hash_set_shift_up hs idx 0 = hs"
| "hash_set_shift_up hs idx (Suc s) =
    hash_set_shift_up
      (hash_set_slot_set hs (idx + of_nat s + 1) (hash_set_slot_ref hs (idx + of_nat s))) idx s"

definition hash_set_do_insert :: "hash_set \<Rightarrow> u64 \<Rightarrow> hash_set result" where
  "hash_set_do_insert hs v =
    result_bind
      (while_loop (\<lambda>displacement. \<not> hash_set_slot_is_empty hs (v + displacement)
          \<and> displacement < hash_set_slot_distance hs (v + displacement)) (\<lambda>d. d + 1) 0)
    (\<lambda>displacement. result_bind
      (while_loop (\<lambda>displacement. \<not> hash_set_slot_is_empty hs (v + displacement)
          \<and> displacement = hash_set_slot_distance hs (v + displacement)
          \<and> hash_set_slot_ref hs (v + displacement) \<noteq> v) (\<lambda>d. d + 1) displacement)
    (\<lambda>displacement.
      if \<not> hash_set_slot_is_empty hs (v + displacement)
          \<and> displacement = hash_set_slot_distance hs (v + displacement)
      then Inr hs
      else let idx = v + displacement in result_bind
        (while_loop (\<lambda>slots_to_move. \<not> hash_set_slot_is_empty hs (idx + slots_to_move)) (\<lambda>s. s + 1) 0)
      (\<lambda>slots_to_move.
        let hs = hash_set_slot_acquire hs (idx + slots_to_move);
            hs = hash_set_shift_up hs idx (unat slots_to_move)
        in Inr (hash_set_slot_set hs idx v))))"

definition hash_set_populate :: "hash_set \<Rightarrow> hash_set \<Rightarrow> hash_set result" where
  "hash_set_populate dst src =
    result_fold (\<lambda>i dst.
      if \<not> hash_set_slot_is_empty src (of_nat i)
      then hash_set_do_insert dst (hash_set_slot_ref src (of_nat i))
      else Inr dst) [0..<unat (hs_size src)] dst"

definition hash_set_grow :: "hash_set \<Rightarrow> hash_set result" where
  "hash_set_grow hs = hash_set_populate (hash_set_init (push_bit 1 (hs_size hs))) hs"

definition hash_set_shrink :: "hash_set \<Rightarrow> hash_set result" where
  "hash_set_shrink hs = hash_set_populate (hash_set_init (drop_bit 1 (hs_size hs))) hs"

definition hash_set_insert :: "hash_set \<Rightarrow> u64 \<Rightarrow> hash_set result" where
  "hash_set_insert hs v =
    result_bind (if hash_set_should_grow hs then hash_set_grow hs else Inr hs)
      (\<lambda>hs. hash_set_do_insert hs v)"

definition hash_set_remove :: "hash_set \<Rightarrow> u64 \<Rightarrow> hash_set result" where
  "hash_set_remove hs v =
    result_bind
      (while_loop (\<lambda>slot. \<not> hash_set_slot_is_empty hs slot
          \<and> hash_set_slot_ref hs slot \<noteq> v) (\<lambda>slot. slot + 1) v)
    (\<lambda>slot.
      if hash_set_slot_is_empty hs slot then Inl Crash
      else result_bind
        (while_loop (\<lambda>(hs, slot). \<not> hash_set_slot_is_empty hs (slot + 1)
            \<and> hash_set_slot_distance hs (slot + 1) \<noteq> 0)
          (\<lambda>(hs, slot).
            (hash_set_slot_set hs slot (hash_set_slot_ref hs (slot + 1)), slot + 1))
          (hs, slot))
      (\<lambda>(hs, slot).
        let hs = hash_set_slot_release hs slot in
        if hash_set_should_shrink hs then hash_set_shrink hs else Inr hs))"

definition hash_set_contains :: "hash_set \<Rightarrow> u64 \<Rightarrow> bool result" where
  "hash_set_contains hs v =
    result_bind
      (while_loop (\<lambda>slot. \<not> hash_set_slot_is_empty hs slot
          \<and> hash_set_slot_ref hs slot \<noteq> v
          \<and> \<not> hash_set_slot_distance hs slot < slot - v) (\<lambda>slot. slot + 1) v)
    (\<lambda>slot. Inr (\<not> hash_set_slot_is_empty hs slot \<and> hash_set_slot_ref hs slot = v))"

text \<open>The callback returns whether to stop; once it has said so it is not called again.\<close>

definition hash_set_find :: "hash_set \<Rightarrow> (u64 \<Rightarrow> 's \<Rightarrow> bool \<times> 's) \<Rightarrow> 's \<Rightarrow> 's" where
  "hash_set_find hs f s = snd (fold
    (\<lambda>i (stop, s). if stop then (stop, s)
      else if \<not> hash_set_slot_is_empty hs (of_nat i)
      then f (hash_set_slot_ref hs (of_nat i)) s
      else (False, s)) [0..<unat (hs_size hs)] (False, s))"

type_synonym address_set = hash_set

definition address_set_init :: address_set where
  "address_set_init = hash_set_init 8"

definition address_set_clear :: "address_set \<Rightarrow> address_set" where
  "address_set_clear hs = hash_set_clear hs"

definition address_set_add :: "address_set \<Rightarrow> u64 \<Rightarrow> address_set result" where
  "address_set_add hs addr = hash_set_insert hs (hash_address addr)"

definition address_set_remove :: "address_set \<Rightarrow> u64 \<Rightarrow> address_set result" where
  "address_set_remove hs addr = hash_set_remove hs (hash_address addr)"

definition address_set_contains :: "address_set \<Rightarrow> u64 \<Rightarrow> bool result" where
  "address_set_contains hs addr = hash_set_contains hs (hash_address addr)"

definition address_set_union :: "address_set \<Rightarrow> address_set \<Rightarrow> address_set result" where
  "address_set_union hs other =
    result_bind (while_result (\<lambda>hs. hs_size hs < hs_size other) hash_set_grow hs)
      (\<lambda>hs. hash_set_populate hs other)"

definition address_set_for_each :: "address_set \<Rightarrow> (u64 \<Rightarrow> 's \<Rightarrow> 's) \<Rightarrow> 's \<Rightarrow> 's" where
  "address_set_for_each hs f s = hash_set_find hs (\<lambda>v s. (False, f (unhash_address v) s)) s"

definition address_set_find :: "address_set \<Rightarrow> (u64 \<Rightarrow> 's \<Rightarrow> bool \<times> 's) \<Rightarrow> 's \<Rightarrow> 's" where
  "address_set_find hs f s = hash_set_find hs (\<lambda>v s. f (unhash_address v) s) s"

subsection \<open>A set is a map to zero\<close>

definition as_map :: "hash_set \<Rightarrow> hash_map" where
  "as_map hs = \<lparr> hm_data = map (\<lambda>k. \<lparr> hm_k = k, hm_v = 0 \<rparr>) (hs_data hs),
     hm_size = hs_size hs, hm_n_items = hs_n_items hs, hm_bits = hs_bits hs \<rparr>"

lemma as_map_sel [simp]:
  "hm_size (as_map hs) = hs_size hs" "hm_n_items (as_map hs) = hs_n_items hs"
  "hm_bits (as_map hs) = hs_bits hs"
  by (simp_all add: as_map_def)

lemma as_map_index [simp]: "hash_map_slot_index (as_map hs) idx = hash_set_slot_index hs idx"
  by (simp add: hash_map_slot_index_def hash_set_slot_index_def)

lemma as_map_empty [simp]: "hash_map_slot_is_empty (as_map hs) idx = hash_set_slot_is_empty hs idx"
  by (simp add: hash_map_slot_is_empty_def hash_set_slot_is_empty_def)

lemma as_map_entry:
  assumes "hash_map_shape (as_map hs)"
  shows "hash_map_slot_entry (as_map hs) idx = \<lparr> hm_k = hash_set_slot_ref hs idx, hm_v = 0 \<rparr>"
proof -
  have "unat (hash_set_slot_index hs idx) < length (hs_data hs)"
  proof -
    have "length (hs_data hs) = unat (hs_size hs)" using assms by (simp add: hash_map_shape_def as_map_def)
    then show ?thesis using unat_slot_index[OF assms, of idx] width_bounds(1)[OF assms] by simp
  qed
  then show ?thesis by (simp add: hash_map_slot_entry_def hash_set_slot_ref_def) (simp add: as_map_def)
qed

lemma as_map_distance:
  assumes "hash_map_shape (as_map hs)"
  shows "hash_map_slot_distance (as_map hs) idx = hash_set_slot_distance hs idx"
  by (simp add: hash_map_slot_distance_def hash_set_slot_distance_def as_map_entry[OF assms])

lemma as_map_set: "as_map (hash_set_slot_set hs idx v) = hash_map_slot_assign (as_map hs) idx \<lparr> hm_k = v, hm_v = 0 \<rparr>"
  by (simp add: hash_set_slot_set_def hash_map_slot_assign_def) (simp add: as_map_def map_update)

lemma as_map_acquire: "as_map (hash_set_slot_acquire hs idx) = hash_map_slot_acquire (as_map hs) idx"
  by (simp add: hash_set_slot_acquire_def hash_map_slot_acquire_def Let_def) (simp add: as_map_def)

lemma as_map_release: "as_map (hash_set_slot_release hs idx) = hash_map_slot_release (as_map hs) idx"
  by (simp add: hash_set_slot_release_def hash_map_slot_release_def Let_def) (simp add: as_map_def)

lemma shape_assign: "hash_map_shape hm \<Longrightarrow> hash_map_shape (hash_map_slot_assign hm idx e)"
  by (auto simp: hash_map_slot_assign_def hash_map_shape_def)

lemma shape_acquire: "hash_map_shape hm \<Longrightarrow> hash_map_shape (hash_map_slot_acquire hm idx)"
  by (auto simp: hash_map_slot_acquire_def hash_map_shape_def Let_def)

lemma shape_shift_up: "hash_map_shape hm \<Longrightarrow> hash_map_shape (hash_map_shift_up hm idx m)"
  by (induction m arbitrary: hm) (auto simp: shape_assign)

lemma shape_do_insert: "hash_map_do_insert hm k v = Inr hm' \<Longrightarrow> hash_map_shape hm \<Longrightarrow> hash_map_shape hm'"
  unfolding hash_map_do_insert_def Let_def result_bind_eq_Inr
  by (auto simp: result_bind_eq_Inr shape_assign shape_acquire shape_shift_up split: if_splits)

lemma as_map_shift_up:
  "hash_map_shape (as_map hs) \<Longrightarrow> as_map (hash_set_shift_up hs idx m) = hash_map_shift_up (as_map hs) idx m"
proof (induction m arbitrary: hs)
  case (Suc m)
  have "hash_map_shape (as_map (hash_set_slot_set hs i v))" for i v
    unfolding as_map_set by (rule shape_assign[OF Suc.prems])
  from Suc.IH[OF this] show ?case
    by (simp add: as_map_set as_map_entry[OF Suc.prems])
qed simp

lemma assign_same: "hash_map_slot_assign hm idx (hash_map_slot_entry hm idx) = hm"
  by (simp add: hash_map_slot_assign_def hash_map_slot_entry_def)

lemma as_map_do_insert:
  assumes "hash_map_shape (as_map hs)"
  shows "hash_map_do_insert (as_map hs) v 0 = map_result as_map (hash_set_do_insert hs v)"
proof -
  have same: "hash_map_slot_assign (as_map hs) idx \<lparr> hm_k = hash_set_slot_ref hs idx, hm_v = 0 \<rparr> = as_map hs" for idx
    using assign_same[of "as_map hs" idx] by (simp add: as_map_entry[OF assms])
  have "hash_map_shape (as_map (hash_set_slot_acquire hs idx))" for idx
    unfolding as_map_acquire by (rule shape_acquire[OF assms])
  note shift = as_map_shift_up[OF this]
  show ?thesis
    unfolding hash_map_do_insert_def hash_set_do_insert_def Let_def map_result_bind
      as_map_empty as_map_distance[OF assms] as_map_entry[OF assms]
    by (simp add: same as_map_set shift as_map_acquire map_result_bind if_distrib
        cong: if_cong)
qed

lemma as_map_populate:
  assumes "hash_map_shape (as_map dst)" "hash_map_shape (as_map src)"
  shows "hash_map_populate (as_map dst) (as_map src) = map_result as_map (hash_set_populate dst src)"
  unfolding hash_map_populate_def hash_set_populate_def as_map_sel
proof (rule result_fold_commute[where I = "\<lambda>hs. hash_map_shape (as_map hs)"])
  fix i s s'
  assume sh: "hash_map_shape (as_map s)"
  show "(if \<not> hash_map_slot_is_empty (as_map src) (of_nat i)
      then hash_map_do_insert (as_map s) (hm_k (hash_map_slot_entry (as_map src) (of_nat i)))
             (hm_v (hash_map_slot_entry (as_map src) (of_nat i)))
      else Inr (as_map s)) =
    map_result as_map (if \<not> hash_set_slot_is_empty src (of_nat i)
      then hash_set_do_insert s (hash_set_slot_ref src (of_nat i)) else Inr s)"
    by (simp add: as_map_entry[OF assms(2)] as_map_do_insert[OF sh])
  show "hash_map_shape (as_map s')"
    if "(if \<not> hash_set_slot_is_empty src (of_nat i)
      then hash_set_do_insert s (hash_set_slot_ref src (of_nat i)) else Inr s) = Inr s'"
  proof (cases "hash_set_slot_is_empty src (of_nat i)")
    case False
    then have "hash_map_do_insert (as_map s) (hash_set_slot_ref src (of_nat i)) 0 = Inr (as_map s')"
      using that as_map_do_insert[OF sh] by simp
    then show ?thesis using shape_do_insert sh by blast
  qed (use that sh in simp)
qed (rule assms(1))

lemma as_map_init:
  assumes "3 \<le> p" "p < 60"
  shows "as_map (hash_set_init (2 ^ p)) = hash_map_init (2 ^ p)"
proof -
  have "(2::nat) ^ p < 2 ^ 60" using assms(2) by (intro power_strict_increasing) simp_all
  then have "unat (16 * 2 ^ p :: u64) div 16 = unat (8 * 2 ^ p :: u64) div 8"
    using assms by (simp add: unat_word_ariths unat_exp)
  then show ?thesis
    by (simp add: hash_set_init_def hash_map_init_def hash_set_clear_def hash_map_clear_def as_map_def)
qed

lemma as_map_grow:
  assumes sh: "hash_map_shape (as_map hs)" and room: "hs_size hs < 2 ^ 59"
  shows "hash_map_grow (as_map hs) = map_result as_map (hash_set_grow hs)"
proof -
  obtain p where p: "3 \<le> p" "p < 60" "hs_size hs = 2 ^ p" "unat (hs_size hs) = 2 ^ p"
    using sh by (auto elim: shapeE)
  have "(2::nat) ^ p < 2 ^ 59" using room p(4) by (simp add: word_less_nat_alt)
  then have "p < 59" by (rule power_less_imp_less_exp[rotated]) simp
  then have q: "3 \<le> Suc p" "Suc p < 60" using p(1) by simp_all
  have "push_bit 1 (hs_size hs) = 2 ^ Suc p" by (simp add: p(3) push_bit_eq_mult mult.commute)
  then show ?thesis
    unfolding hash_map_grow_def hash_set_grow_def as_map_sel
    using as_map_populate[of "hash_set_init (2 ^ Suc p)" hs] as_map_init[OF q] shape_init(1)[OF q] sh
    by simp
qed

lemma as_map_shrink:
  assumes sh: "hash_map_shape (as_map hs)" and big: "8 < hs_size hs"
  shows "hash_map_shrink (as_map hs) = map_result as_map (hash_set_shrink hs)"
proof -
  obtain p where p: "3 \<le> p" "p < 60" "hs_size hs = 2 ^ p" "unat (hs_size hs) = 2 ^ p"
    using sh by (auto elim: shapeE)
  have "(2::nat) ^ 3 < 2 ^ p" using big p(4) by (simp add: word_less_nat_alt)
  then have "3 < p" by (rule power_less_imp_less_exp[rotated]) simp
  then obtain q where q: "p = Suc q" "3 \<le> q" "q < 60" using p(2) by (cases p) auto
  have "drop_bit 1 (hs_size hs) = 2 ^ q"
    using p(4) q by (simp add: word_unat_eq_iff drop_bit_eq_div unat_div_distrib unat_exp)
  then show ?thesis
    unfolding hash_map_shrink_def hash_set_shrink_def as_map_sel
    using as_map_populate[of "hash_set_init (2 ^ q)" hs] as_map_init[OF q(2,3)] shape_init(1)[OF q(2,3)] sh
    by simp
qed

lemma as_map_should [simp]:
  "hash_map_should_grow (as_map hs) = hash_set_should_grow hs"
  "hash_map_should_shrink (as_map hs) = hash_set_should_shrink hs"
  by (simp_all add: hash_map_should_grow_def hash_set_should_grow_def
      hash_map_should_shrink_def hash_set_should_shrink_def)

lemma as_map_contains:
  assumes "hash_map_shape (as_map hs)"
  shows "hash_map_contains (as_map hs) v = hash_set_contains hs v"
  unfolding hash_map_contains_def hash_map_probe_def hash_set_contains_def as_map_empty
    as_map_distance[OF assms] as_map_entry[OF assms] hash_map_entry.select_convs ..

lemma as_map_insert:
  assumes wf: "hash_map_wf (as_map hs)" and room: "hs_size hs < 2 ^ 59"
  shows "hash_map_insert (as_map hs) v 0 = map_result as_map (hash_set_insert hs v)"
proof -
  have sh: "hash_map_shape (as_map hs)" using wf by (simp add: hash_map_wf_def)
  show ?thesis
  proof (cases "hash_set_should_grow hs")
    case True
    obtain g where "hash_map_grow (as_map hs) = Inr g" "hash_map_wf g"
      by (rule grow[OF wf]) (use room in simp_all)
    moreover from this obtain hs' where "hash_set_grow hs = Inr hs'" "g = as_map hs'"
      using as_map_grow[OF sh room] by (auto simp: map_result_eq_Inr dest: sym)
    ultimately show ?thesis
      using True as_map_do_insert[of hs'] by (simp add: hash_map_insert_def hash_set_insert_def hash_map_wf_def)
  next
    case False
    then show ?thesis
      using as_map_do_insert[OF sh] by (simp add: hash_map_insert_def hash_set_insert_def)
  qed
qed

lemma as_map_remove:
  assumes sh: "hash_map_shape (as_map hs)"
  shows "hash_map_remove (as_map hs) v = map_result as_map (hash_set_remove hs v)"
proof -
  let ?P = "\<lambda>(hm, slot). \<not> hash_map_slot_is_empty hm (slot + 1) \<and> hash_map_slot_distance hm (slot + 1) \<noteq> 0"
  let ?f = "\<lambda>(hm, slot). (hash_map_slot_assign hm slot (hash_map_slot_entry hm (slot + 1)), slot + 1 :: u64)"
  let ?Q = "\<lambda>(hs, slot). \<not> hash_set_slot_is_empty hs (slot + 1) \<and> hash_set_slot_distance hs (slot + 1) \<noteq> 0"
  let ?g = "\<lambda>(hs, slot). (hash_set_slot_set hs slot (hash_set_slot_ref hs (slot + 1)), slot + 1 :: u64)"
  let ?h = "\<lambda>(hs, slot). (as_map hs, slot)" and ?I = "\<lambda>(hs, slot). hash_map_shape (as_map hs)"
  have loop: "while_loop ?P ?f (as_map hs, slot) = map_result ?h (while_loop ?Q ?g (hs, slot))" for slot
  proof -
    have "while_loop ?P ?f (?h (hs, slot)) = map_result ?h (while_loop ?Q ?g (hs, slot))"
      by (rule while_loop_commute[where I = ?I])
        (auto simp: as_map_distance as_map_entry as_map_set shape_assign sh)
    then show ?thesis by simp
  qed
  have sh': "hash_map_shape (as_map (hash_set_slot_release hs' slot'))"
    if "while_loop ?Q ?g (hs, slot) = Inr (hs', slot')" for slot hs' slot'
  proof -
    have "?I (hs', slot')"
      using while_loop_rule[OF that, of ?I] sh by (auto simp: as_map_set shape_assign)
    then show ?thesis
      unfolding as_map_release by (auto simp: hash_map_slot_release_def hash_map_shape_def Let_def)
  qed
  have shrink: "(if hash_set_should_shrink hs' then hash_map_shrink (as_map hs') else Inr (as_map hs')) =
      map_result as_map (if hash_set_should_shrink hs' then hash_set_shrink hs' else Inr hs')"
    if "hash_map_shape (as_map hs')" for hs'
    using as_map_shrink[OF that] by (simp add: hash_set_should_shrink_def)
  have tail: "result_bind (while_loop ?P ?f (as_map hs, slot)) (\<lambda>(hm, slot).
        let hm = hash_map_slot_release hm slot in if hash_map_should_shrink hm then hash_map_shrink hm else Inr hm)
      = map_result as_map (result_bind (while_loop ?Q ?g (hs, slot)) (\<lambda>(hs, slot).
        let hs = hash_set_slot_release hs slot in if hash_set_should_shrink hs then hash_set_shrink hs else Inr hs))" for slot
  proof (cases "while_loop ?Q ?g (hs, slot)")
    case (Inr r)
    obtain hs' slot' where "r = (hs', slot')" by (cases r)
    then show ?thesis
      using Inr shrink[OF sh'[of slot hs' slot']] unfolding loop
      by (simp add: Let_def split: if_splits flip: as_map_release)
  qed (simp add: loop)
  show ?thesis
    unfolding hash_map_remove_def hash_set_remove_def map_result_bind as_map_empty as_map_entry[OF sh]
      hash_map_entry.select_convs
    by (simp add: tail if_distrib cong: if_cong)
qed

subsection \<open>The address set as a set\<close>

definition hash_set_wf :: "hash_set \<Rightarrow> bool" where
  "hash_set_wf hs \<longleftrightarrow> hash_map_wf (as_map hs)"

definition address_set_abs :: "address_set \<Rightarrow> u64 set" where
  "address_set_abs hs = {a. address_map_abs (as_map hs) a \<noteq> None}"

definition address_set_room :: "address_set \<Rightarrow> bool" where
  "address_set_room hs \<longleftrightarrow> hs_size hs < 2 ^ 59"

lemma set_wf_core:
  assumes "hash_set_wf hs"
  shows "hash_map_core (as_map hs)" "hash_map_shape (as_map hs)"
  using assms by (simp_all add: hash_set_wf_def hash_map_wf_core core_shape)

lemma set_init: "hash_set_wf address_set_init" "address_set_abs address_set_init = {}"
  "hs_size address_set_init = 8"
proof -
  have "as_map address_set_init = address_map_init"
    using as_map_init[of 3] by (simp add: address_set_init_def address_map_init_def)
  then show "hash_set_wf address_set_init" "address_set_abs address_set_init = {}"
    using init_wf by (simp_all add: hash_set_wf_def address_set_abs_def)
qed (simp add: address_set_init_def hash_set_init_def hash_set_clear_def)

lemma set_clear:
  assumes "hash_set_wf hs"
  shows "hash_set_wf (address_set_clear hs)" "address_set_abs (address_set_clear hs) = {}"
proof -
  have "as_map (address_set_clear hs) = hash_map_clear (as_map hs)"
    by (simp add: address_set_clear_def hash_set_clear_def hash_map_clear_def as_map_def)
  then show "hash_set_wf (address_set_clear hs)" "address_set_abs (address_set_clear hs) = {}"
    using clear_wf[of "as_map hs"] assms
    by (simp_all add: hash_set_wf_def address_set_abs_def address_map_abs_def)
qed

lemma set_add:
  assumes "hash_set_wf hs" "address_set_room hs"
  obtains hs' where "address_set_add hs a = Inr hs'" "hash_set_wf hs'"
      "hs_size hs' = (if hash_set_should_grow hs then 2 * hs_size hs else hs_size hs)"
    and "address_set_abs hs' = insert a (address_set_abs hs)"
proof -
  have wf: "hash_map_wf (as_map hs)" and room: "hs_size hs < 2 ^ 59"
    using assms by (simp_all add: hash_set_wf_def address_set_room_def)
  obtain hm' where hm': "hash_map_insert (as_map hs) (hash_address a) 0 = Inr hm'" "hash_map_wf hm'"
    "hm_size hm' = (if hash_map_should_grow (as_map hs) then 2 * hm_size (as_map hs) else hm_size (as_map hs))"
    "hash_map_abs hm' = (hash_map_abs (as_map hs))(hash_address a \<mapsto> 0)"
    by (rule insert_wf[OF wf]) (use room in simp_all)
  then obtain hs' where "hash_set_insert hs (hash_address a) = Inr hs'" "as_map hs' = hm'"
    using as_map_insert[OF wf room] by (auto simp: map_result_eq_Inr)
  moreover from this hm' have "address_set_abs hs' = insert a (address_set_abs hs)"
    using address_map_abs_update[OF hm'(4)] by (auto simp: address_set_abs_def)
  ultimately show thesis using that hm' by (auto simp: address_set_add_def hash_set_wf_def)
qed

lemma set_remove:
  assumes "hash_set_wf hs" "a \<in> address_set_abs hs"
  obtains hs' where "address_set_remove hs a = Inr hs'" "hash_set_wf hs'" "hs_size hs' \<le> hs_size hs"
    and "address_set_abs hs' = address_set_abs hs - {a}"
proof -
  have wf: "hash_map_wf (as_map hs)" using assms by (simp add: hash_set_wf_def)
  have "hash_map_abs (as_map hs) (hash_address a) \<noteq> None"
    using assms(2) by (simp add: address_set_abs_def address_map_abs_def)
  then obtain hm' where hm': "hash_map_remove (as_map hs) (hash_address a) = Inr hm'" "hash_map_wf hm'"
    "hm_size hm' \<le> hm_size (as_map hs)" "hash_map_abs hm' = (hash_map_abs (as_map hs))(hash_address a := None)"
    by (rule remove_wf[OF wf])
  then obtain hs' where hs': "hash_set_remove hs (hash_address a) = Inr hs'" and eq: "as_map hs' = hm'"
    using as_map_remove[OF set_wf_core(2)[OF assms(1)]] by (auto simp: map_result_eq_Inr)
  have "address_set_abs hs' = address_set_abs hs - {a}"
    unfolding address_set_abs_def eq address_map_abs_update[OF hm'(4)] by auto
  moreover have "hash_set_wf hs'" "hs_size hs' \<le> hs_size hs"
    using hm'(2,3) unfolding hash_set_wf_def eq[symmetric] by simp_all
  ultimately show thesis using that hs' by (simp add: address_set_remove_def)
qed

lemma set_contains:
  assumes "hash_set_wf hs"
  shows "address_set_contains hs a = Inr (a \<in> address_set_abs hs)"
  using am.contains_law[of "as_map hs" a] assms as_map_contains[OF set_wf_core(2)[OF assms]]
  by (simp add: hash_set_wf_def address_set_contains_def address_set_abs_def address_map_contains_def)

lemma set_remove_missing:
  assumes "hash_set_wf hs" "a \<notin> address_set_abs hs"
  shows "address_set_remove hs a = Inl Crash"
proof -
  have "map_result as_map (address_set_remove hs a) = Inl Crash"
    using am.remove_missing_law[of "as_map hs" a] assms as_map_remove[OF set_wf_core(2)[OF assms(1)]]
    by (simp add: hash_set_wf_def address_set_remove_def address_set_abs_def address_map_remove_def)
  then show ?thesis by (cases "address_set_remove hs a") auto
qed

lemma address_set_bag:
  "address_bag hash_set_wf address_set_room address_set_abs address_set_init
    address_set_add address_set_remove address_set_contains"
proof
  fix hs a
  assume wf: "hash_set_wf hs"
  show "\<exists>hs'. address_set_add hs a = Inr hs' \<and> hash_set_wf hs' \<and> address_set_abs hs' = insert a (address_set_abs hs)"
    if "address_set_room hs"
    by (rule set_add[OF wf that]) blast
  show "\<exists>hs'. address_set_remove hs a = Inr hs' \<and> hash_set_wf hs' \<and> address_set_abs hs' = address_set_abs hs - {a}"
    if "a \<in> address_set_abs hs"
    by (rule set_remove[OF wf that]) blast
qed (simp_all add: set_init set_contains set_remove_missing)

interpretation aset: address_bag hash_set_wf address_set_room address_set_abs address_set_init
    address_set_add address_set_remove address_set_contains
  by (rule address_set_bag)

subsection \<open>Union\<close>

lemma set_grow:
  assumes "hash_set_wf hs" "hs_size hs < 2 ^ 59"
  obtains hs' where "hash_set_grow hs = Inr hs'" "hash_set_wf hs'" "hs_size hs' = 2 * hs_size hs"
    and "address_set_abs hs' = address_set_abs hs"
proof -
  have wf: "hash_map_wf (as_map hs)" using assms by (simp add: hash_set_wf_def)
  obtain hm' where hm': "hash_map_grow (as_map hs) = Inr hm'" "hash_map_wf hm'"
    "hm_size hm' = 2 * hm_size (as_map hs)" "hash_map_abs hm' = hash_map_abs (as_map hs)"
    by (rule grow[OF wf]) (use assms(2) in simp_all)
  then obtain hs' where "hash_set_grow hs = Inr hs'" "as_map hs' = hm'"
    using as_map_grow[OF set_wf_core(2)[OF assms(1)] assms(2)] by (auto simp: map_result_eq_Inr)
  then show thesis
    using that hm' by (auto simp: hash_set_wf_def address_set_abs_def address_map_abs_def)
qed

text \<open>Growing in the loop of the union ends at the other set's size.\<close>

lemma grow_to:
  assumes "hash_set_wf hs" "hs_size hs = 2 ^ p" "q < 60" "p < 60"
  obtains hs' where "while_result (\<lambda>hs. hs_size hs < 2 ^ q) hash_set_grow hs = Inr hs'" "hash_set_wf hs'"
    and "hs_size hs' = 2 ^ max p q" "address_set_abs hs' = address_set_abs hs"
  using assms
proof (induction "q - p" arbitrary: p hs thesis)
  case 0
  then have "(2::nat) ^ q \<le> 2 ^ p" by (intro power_increasing) simp_all
  then have "\<not> hs_size hs < 2 ^ q" using 0 by (simp add: word_less_nat_alt unat_exp not_less)
  then have "while_result (\<lambda>hs. hs_size hs < 2 ^ q) hash_set_grow hs = Inr hs"
    by (subst while_result_unfold) simp
  then show ?case using 0 by (simp add: max_def)
next
  case (Suc d)
  then have "p < q" by simp
  have "(2::nat) ^ p < 2 ^ 59" by (rule power_strict_increasing) (use \<open>p < q\<close> Suc.prems(4) in simp_all)
  moreover have "(2::nat) ^ p < 2 ^ q" by (rule power_strict_increasing) (use \<open>p < q\<close> in simp_all)
  ultimately have small: "hs_size hs < 2 ^ 59" and less: "hs_size hs < 2 ^ q"
    using Suc.prems by (simp_all add: word_less_nat_alt unat_exp)
  obtain g where g: "hash_set_grow hs = Inr g" "hash_set_wf g" "hs_size g = 2 * hs_size hs"
    "address_set_abs g = address_set_abs hs" by (rule set_grow[OF Suc.prems(2) small])
  have "d = q - Suc p" "hs_size g = 2 ^ Suc p" "Suc p < 60" "max (Suc p) q = max p q"
    using Suc \<open>p < q\<close> g(3) by simp_all
  then obtain hs' where "while_result (\<lambda>hs. hs_size hs < 2 ^ q) hash_set_grow g = Inr hs'" "hash_set_wf hs'"
    "hs_size hs' = 2 ^ max p q" "address_set_abs hs' = address_set_abs g"
    using Suc.hyps(1)[of "Suc p" g thesis] g(2) Suc.prems(4) by metis
  moreover have "while_result (\<lambda>hs. hs_size hs < 2 ^ q) hash_set_grow hs
      = while_result (\<lambda>hs. hs_size hs < 2 ^ q) hash_set_grow g"
    by (subst while_result_unfold) (simp add: less g(1))
  ultimately show ?case using Suc.prems(1) g(4) by simp
qed

abbreviation capacity :: "hash_set \<Rightarrow> nat" where
  "capacity hs \<equiv> unat (hs_size hs)"

lemma set_abs_image:
  assumes "hash_set_wf hs"
  shows "address_set_abs hs = unhash_address ` dom (hash_map_abs (as_map hs))"
    and "card (address_set_abs hs) = card (rh_set (slots (as_map hs)))"
    and "finite (address_set_abs hs)"
proof -
  show im: "address_set_abs hs = unhash_address ` dom (hash_map_abs (as_map hs))"
  proof (intro set_eqI iffI)
    fix a assume "a \<in> address_set_abs hs"
    then show "a \<in> unhash_address ` dom (hash_map_abs (as_map hs))"
      by (intro image_eqI[of _ _ "hash_address a"]) (auto simp: address_set_abs_def address_map_abs_def)
  qed (auto simp: address_set_abs_def address_map_abs_def)
  have inj: "inj unhash_address" by (metis hash_unhash_address injI)
  have "card (unhash_address ` dom (hash_map_abs (as_map hs))) = card (dom (hash_map_abs (as_map hs)))"
    by (rule card_image[OF inj_on_subset[OF inj subset_UNIV]])
  then show "card (address_set_abs hs) = card (rh_set (slots (as_map hs)))"
    unfolding im using abs_dom(2)[OF set_wf_core(1)[OF assms]] by simp
  show "finite (address_set_abs hs)"
    unfolding im abs_dom(1)[OF set_wf_core(1)[OF assms]]
    using finite_rh_set[OF core_inv[OF set_wf_core(1)[OF assms]]] by simp
qed

lemma capacity_exp:
  assumes "hash_set_wf hs"
  obtains p where "3 \<le> p" "p < 60" "hs_size hs = 2 ^ p" "capacity hs = 2 ^ p"
  using shapeE[OF set_wf_core(2)[OF assms]] by auto

lemma union_grown:
  assumes "hash_set_wf hs" "hash_set_wf other"
  obtains g where "address_set_union hs other = hash_set_populate g other" "hash_set_wf g"
    and "capacity g = max (capacity hs) (capacity other)" "address_set_abs g = address_set_abs hs"
proof -
  obtain p where p: "3 \<le> p" "p < 60" "hs_size hs = 2 ^ p" "capacity hs = 2 ^ p" by (rule capacity_exp[OF assms(1)])
  obtain q where q: "3 \<le> q" "q < 60" "hs_size other = 2 ^ q" "capacity other = 2 ^ q" by (rule capacity_exp[OF assms(2)])
  obtain g where g: "while_result (\<lambda>hs. hs_size hs < 2 ^ q) hash_set_grow hs = Inr g" "hash_set_wf g"
    "hs_size g = 2 ^ max p q" "address_set_abs g = address_set_abs hs"
    by (rule grow_to[OF assms(1) p(3) q(2) p(2)])
  have "capacity g = 2 ^ max p q" using p(2) q(2) by (simp add: g(3) unat_exp)
  also have "\<dots> = max (2 ^ p) (2 ^ q)" by (cases "p \<le> q") (simp_all add: max_def power_increasing)
  finally show thesis using that g p(4) q(4) by (simp add: address_set_union_def q(3))
qed

text \<open>Sets of at most seven addresses fit into a table of the initial size.\<close>

lemma small_set:
  assumes "distinct as" "length as \<le> 7"
  shows "\<exists>hs. hash_set_wf hs \<and> capacity hs = 8 \<and> address_set_abs hs = set as"
  using assms
proof (induction as)
  case Nil
  show ?case using set_init by (intro exI[of _ address_set_init]) simp
next
  case (Cons a as)
  obtain hs where hs: "hash_set_wf hs" "capacity hs = 8" "address_set_abs hs = set as"
    using Cons.IH Cons.prems by auto
  have "card (rh_set (slots (as_map hs))) = length as"
    using set_abs_image(2)[OF hs(1)] hs(3) Cons.prems(1) by (simp add: distinct_card)
  then have "\<not> hash_set_should_grow hs"
    using should_grow[OF set_wf_core(1)[OF hs(1)]] hs(2) Cons.prems(2) by simp
  moreover have "address_set_room hs" using hs(2) by (simp add: address_set_room_def word_less_nat_alt)
  ultimately obtain hs' where "hash_set_wf hs'" "hs_size hs' = hs_size hs"
    "address_set_abs hs' = insert a (address_set_abs hs)" using set_add[OF hs(1), of a] by auto
  then show ?case using hs by (intro exI[of _ hs']) simp
qed

text \<open>C31: The union of two sets whose sizes add up to a permitted load of the larger table
  terminates with a well-formed set that holds the addresses of both.\<close>

theorem address_set_union_correct:
  assumes "hash_set_wf hs" "hash_set_wf other"
    and "w = max (capacity hs) (capacity other)"
    and "card (address_set_abs hs) + card (address_set_abs other) \<le> w - w div 8"
  shows "\<exists>hs'. address_set_union hs other = Inr hs' \<and> hash_set_wf hs' \<and> capacity hs' = w
    \<and> address_set_abs hs' = address_set_abs hs \<union> address_set_abs other"
proof -
  obtain g where g: "address_set_union hs other = hash_set_populate g other" "hash_set_wf g"
    "capacity g = w" "address_set_abs g = address_set_abs hs"
    using union_grown[OF assms(1,2)] assms(3) by metis
  have few: "card (rh_set (slots (as_map g))) + card (rh_set (slots (as_map other))) \<le> w - w div 8"
    using set_abs_image(2)[OF g(2)] set_abs_image(2)[OF assms(2)] g(4) assms(4) by simp
  obtain hm' where hm': "hash_map_populate (as_map g) (as_map other) = Inr hm'" "hash_map_core hm'"
    "hm_size hm' = hm_size (as_map g)" "hash_map_abs hm' = hash_map_abs (as_map g) ++ hash_map_abs (as_map other)"
    by (rule populate[OF set_wf_core(1)[OF g(2)] set_wf_core(1)[OF assms(2)]]) (use few g(3) in simp_all)
  then obtain hs' where hs': "hash_set_populate g other = Inr hs'" and eq: "as_map hs' = hm'"
    using as_map_populate[OF set_wf_core(2)[OF g(2)] set_wf_core(2)[OF assms(2)]] by (auto simp: map_result_eq_Inr)
  have "card (rh_set (slots hm')) = card (dom (hash_map_abs (as_map g)) \<union> dom (hash_map_abs (as_map other)))"
    using abs_dom(2)[OF hm'(2)] hm'(4) by (simp add: Un_commute)
  also have "\<dots> \<le> w - w div 8"
    using card_Un_le[of "dom (hash_map_abs (as_map g))" "dom (hash_map_abs (as_map other))"] few
      abs_dom(2)[OF set_wf_core(1)[OF g(2)]] abs_dom(2)[OF set_wf_core(1)[OF assms(2)]] by simp
  finally have "hash_set_wf hs'" using hm'(2,3) g(3) by (simp add: hash_set_wf_def eq hash_map_wf_core)
  moreover have "address_set_abs hs' = address_set_abs g \<union> address_set_abs other"
    unfolding address_set_abs_def address_map_abs_def eq hm'(4)
    by (auto simp: map_add_def split: option.splits)
  moreover have "capacity hs' = w" using hm'(3) g(3) unfolding eq[symmetric] by simp
  ultimately show ?thesis using g(1,4) hs' by auto
qed

theorem address_set_union_correct_witness:
  "\<exists>hs other hs'. address_set_abs hs = {1, 2, 3} \<and> address_set_abs other = {3, 4, 5}
    \<and> address_set_union hs other = Inr hs' \<and> hash_set_wf hs' \<and> capacity hs' = 8
    \<and> address_set_abs hs' = address_set_abs hs \<union> address_set_abs other"
proof -
  obtain hs other where "hash_set_wf hs" "capacity hs = 8" "address_set_abs hs = set [1, 2, 3]"
    and "hash_set_wf other" "capacity other = 8" "address_set_abs other = set [3, 4, 5]"
    using small_set[of "[1, 2, 3]"] small_set[of "[3, 4, 5]"] by auto
  moreover from this obtain hs' where "address_set_union hs other = Inr hs'" "hash_set_wf hs'"
    "capacity hs' = 8" "address_set_abs hs' = address_set_abs hs \<union> address_set_abs other"
    using address_set_union_correct[of hs other 8] by auto
  ultimately show ?thesis by (intro exI[of _ hs] exI[of _ other] exI[of _ hs']) simp
qed

text \<open>C32: The union of two disjoint sets with more addresses than the larger table has
  slots does not return: the union never grows the table beyond the size of its argument.\<close>

theorem address_set_union_overflow:
  assumes "hash_set_wf hs" "hash_set_wf other" "address_set_abs hs \<inter> address_set_abs other = {}"
    and "max (capacity hs) (capacity other) < card (address_set_abs hs) + card (address_set_abs other)"
  shows "address_set_union hs other = Inl Diverge"
proof -
  obtain g where g: "address_set_union hs other = hash_set_populate g other" "hash_set_wf g"
    "capacity g = max (capacity hs) (capacity other)" "address_set_abs g = address_set_abs hs"
    by (rule union_grown[OF assms(1,2)])
  have "dom (hash_map_abs (as_map g)) \<inter> dom (hash_map_abs (as_map other)) = {}"
    using assms(3) unfolding g(4)[symmetric] set_abs_image(1)[OF g(2)] set_abs_image(1)[OF assms(2)] by blast
  moreover have "width (as_map g) < card (rh_set (slots (as_map g))) + card (rh_set (slots (as_map other)))"
    using set_abs_image(2)[OF g(2)] set_abs_image(2)[OF assms(2)] g(3,4) assms(4) by simp
  ultimately have "hash_map_populate (as_map g) (as_map other) = Inl Diverge"
    by (rule populate_overflow[OF set_wf_core(1)[OF g(2)] set_wf_core(1)[OF assms(2)], rotated])
  then have "map_result as_map (hash_set_populate g other) = Inl Diverge"
    using as_map_populate[OF set_wf_core(2)[OF g(2)] set_wf_core(2)[OF assms(2)]] by simp
  then show ?thesis unfolding g(1) by (cases "hash_set_populate g other") auto
qed

theorem address_set_union_overflow_witness:
  "\<exists>hs other. card (address_set_abs hs) = 5 \<and> card (address_set_abs other) = 5
    \<and> address_set_union hs other = Inl Diverge"
proof -
  obtain hs other where "hash_set_wf hs" "capacity hs = 8" "address_set_abs hs = set [1, 2, 3, 4, 5]"
    and "hash_set_wf other" "capacity other = 8" "address_set_abs other = set [6, 7, 8, 9, 10]"
    using small_set[of "[1, 2, 3, 4, 5]"] small_set[of "[6, 7, 8, 9, 10]"] by auto
  moreover from this have "address_set_union hs other = Inl Diverge"
    using address_set_union_overflow[of hs other] by auto
  ultimately show ?thesis by (intro exI[of _ hs] exI[of _ other]) simp
qed

subsection \<open>Membership and iteration\<close>

text \<open>The membership test, insertion and removal of a well-formed address set act on the
  set of its addresses; removing an address that is not there reaches the trap.\<close>

theorem address_set_ops_correct:
  assumes "hash_set_wf hs"
  shows "address_set_contains hs a = Inr (a \<in> address_set_abs hs)
    \<and> (hs_size hs < 2 ^ 59 \<longrightarrow> (\<exists>hs'. address_set_add hs a = Inr hs' \<and> hash_set_wf hs'
        \<and> address_set_abs hs' = insert a (address_set_abs hs)))
    \<and> (if a \<in> address_set_abs hs
       then \<exists>hs'. address_set_remove hs a = Inr hs' \<and> hash_set_wf hs'
         \<and> address_set_abs hs' = address_set_abs hs - {a}
       else address_set_remove hs a = Inl Crash)"
  using aset.contains_law[OF assms] aset.add_law[OF assms] aset.remove_law[OF assms]
    aset.remove_missing_law[OF assms] by (auto simp: address_set_room_def)

theorem address_set_ops_correct_witness:
  "\<exists>hs'. address_set_add address_set_init 0x2000 = Inr hs' \<and> hash_set_wf hs'
    \<and> address_set_abs hs' = insert 0x2000 (address_set_abs address_set_init)"
  using address_set_ops_correct[OF set_init(1), where a = "0x2000"] set_init(3) by (simp only:) simp

text \<open>The addresses in the order of their slots, and a search that stops at the first hit.\<close>

definition address_list :: "address_set \<Rightarrow> u64 list" where
  "address_list hs = [unhash_address (hash_set_slot_ref hs (of_nat i)).
     i \<leftarrow> [0..<capacity hs], \<not> hash_set_slot_is_empty hs (of_nat i)]"

fun find_first :: "('a \<Rightarrow> 's \<Rightarrow> bool \<times> 's) \<Rightarrow> 'a list \<Rightarrow> 's \<Rightarrow> 's" where
  "find_first f [] s = s"
| "find_first f (x # xs) s = (let (stop, s') = f x s in if stop then s' else find_first f xs s')"

lemma address_list_entries:
  assumes "hash_set_wf hs"
  shows "address_list hs = map (unhash_address \<circ> hm_k) (hash_map_entries (as_map hs))"
  by (simp add: address_list_def hash_map_entries_def map_concat comp_def if_distrib
      as_map_entry[OF set_wf_core(2)[OF assms]] cong: if_cong)

lemma find_list:
  "address_set_find hs f s = find_first f (address_list hs) s"
proof -
  let ?F = "\<lambda>i (stop, s). if stop then (stop, s)
      else if \<not> hash_set_slot_is_empty hs (of_nat i)
      then f (unhash_address (hash_set_slot_ref hs (of_nat i))) s else (False, s)"
  have stop: "fold ?F is (True, s) = (True, s)" for "is" s by (induction "is") auto
  have "snd (fold ?F is (False, s)) = find_first f [unhash_address (hash_set_slot_ref hs (of_nat i)).
      i \<leftarrow> is, \<not> hash_set_slot_is_empty hs (of_nat i)] s" for "is" s
  proof (induction "is" arbitrary: s)
    case (Cons i "is")
    show ?case
    proof (cases "hash_set_slot_is_empty hs (of_nat i)")
      case False
      obtain b s' where "f (unhash_address (hash_set_slot_ref hs (of_nat i))) s = (b, s')" by fastforce
      then show ?thesis using Cons.IH[of s'] False stop by (cases b) auto
    qed (use Cons.IH[of s] in simp)
  qed simp
  then show ?thesis by (simp add: address_set_find_def hash_set_find_def address_list_def)
qed

lemma address_list_set:
  assumes "hash_set_wf hs"
  shows "set (address_list hs) = address_set_abs hs" "distinct (address_list hs)"
proof -
  note core = set_wf_core(1)[OF assms]
  show "set (address_list hs) = address_set_abs hs"
    unfolding address_list_entries[OF assms] set_abs_image(1)[OF assms] abs_dom(1)[OF core]
    using set_entries[OF core] by (simp add: image_comp)
  have inj: "inj unhash_address" by (metis hash_unhash_address injI)
  have "distinct (map unhash_address (map hm_k (hash_map_entries (as_map hs))))"
    unfolding distinct_map[of unhash_address] using distinct_entries[OF core] inj_on_subset[OF inj subset_UNIV] by blast
  then show "distinct (address_list hs)" unfolding address_list_entries[OF assms] by simp
qed

text \<open>a search through a well-formed set calls its function on each address of the set at most
  once and in a fixed order, until the function says stop; an iteration calls it on every address.\<close>

theorem address_set_find_correct:
  assumes "hash_set_wf hs"
  shows "\<exists>xs. distinct xs \<and> set xs = address_set_abs hs
    \<and> (\<forall>f (s::'s). address_set_find hs f s = find_first f xs s)
    \<and> (\<forall>f (s::'s). address_set_for_each hs f s = fold f xs s)"
proof -
  have fold: "find_first (\<lambda>a s. (False, f a s)) xs s = fold f xs s" for f :: "u64 \<Rightarrow> 's \<Rightarrow> 's" and xs s
    by (induction xs arbitrary: s) auto
  have "address_set_for_each hs f s = address_set_find hs (\<lambda>a s. (False, f a s)) s" for f :: "u64 \<Rightarrow> 's \<Rightarrow> 's" and s
    by (simp add: address_set_for_each_def address_set_find_def)
  then show ?thesis
    using address_list_set[OF assms] by (intro exI[of _ "address_list hs"]) (auto simp: find_list fold)
qed

theorem address_set_find_correct_witness:
  "\<exists>xs. distinct xs \<and> set xs = address_set_abs address_set_init
    \<and> (\<forall>f (s::nat). address_set_find address_set_init f s = find_first f xs s)
    \<and> (\<forall>f (s::nat). address_set_for_each address_set_init f s = fold f xs s)"
  by (rule address_set_find_correct) (simp add: set_init)

end
