(* ===== verification/SplayTree.thy ===== *)
theory SplayTree
  imports Prelude "HOL-Library.Tree"
begin

section \<open>Splay trees over spans of keys\<close>

text \<open>
  \<open>src/src/splay-tree.h\<close>. The C file is a template: the node type, the key and the comparison are
  macro parameters, and here they are arguments. A node of the tree carries a payload (its
  key span and value); \<open>Node l n r\<close> is a C node with payload \<open>n\<close> and children \<open>l\<close> and \<open>r\<close>. The
  three-valued comparison is documented to return -1, 0 or 1, which are the constructors
  \<open>Below\<close>, \<open>Within\<close> and \<open>Above\<close>: the place of the key relative to the node's span.

  Shown: a splay keeps the sequence of the nodes and brings the node whose span contains the
  key to the root, all that lies before it to the left and all that lies after it to the
  right; look-up, insertion, removal and predecessor act on the sequence as they should.
\<close>

datatype place = Below | Within | Above

text \<open>
  The loop of the splay. The trees \<open>L\<close> and \<open>R\<close> of the algorithm hang from the dummy node; what has
  been linked to them is kept as a list, innermost link first: \<open>(l, a)\<close> for a node \<open>a\<close> with
  left child \<open>l\<close> whose right child is the next link, and \<open>(a, r)\<close> on the other side.
\<close>

fun link_left :: "('n tree \<times> 'n) list \<Rightarrow> 'n tree \<Rightarrow> 'n tree" where
  "link_left [] t = t"
| "link_left ((l, a) # ls) t = link_left ls (Node l a t)"

fun link_right :: "('n \<times> 'n tree) list \<Rightarrow> 'n tree \<Rightarrow> 'n tree" where
  "link_right [] t = t"
| "link_right ((a, r) # rs) t = link_right rs (Node t a r)"

definition splay_assemble ::
    "('n tree \<times> 'n) list \<Rightarrow> ('n \<times> 'n tree) list \<Rightarrow> 'n tree \<Rightarrow> 'n \<Rightarrow> 'n tree \<Rightarrow> 'n tree" where
  "splay_assemble ls rs l a r = Node (link_left ls l) a (link_right rs r)"

function (sequential) splay_loop ::
    "('k \<Rightarrow> 'n \<Rightarrow> place) \<Rightarrow> 'k \<Rightarrow> ('n tree \<times> 'n) list \<Rightarrow> ('n \<times> 'n tree) list \<Rightarrow> 'n tree \<Rightarrow> 'n tree" where
  "splay_loop cmp key ls rs Leaf = Leaf"
| "splay_loop cmp key ls rs (Node l a r) =
    (case cmp key a of
      Below \<Rightarrow> (case l of
        Leaf \<Rightarrow> splay_assemble ls rs l a r
      | Node ll b lr \<Rightarrow>
          if cmp key b = Below then
            (case ll of
              Leaf \<Rightarrow> splay_assemble ls rs ll b (Node lr a r)
            | _ \<Rightarrow> splay_loop cmp key ls ((b, Node lr a r) # rs) ll)
          else splay_loop cmp key ls ((a, r) # rs) l)
    | Within \<Rightarrow> splay_assemble ls rs l a r
    | Above \<Rightarrow> (case r of
        Leaf \<Rightarrow> splay_assemble ls rs l a r
      | Node rl b rr \<Rightarrow>
          if cmp key b = Above then
            (case rr of
              Leaf \<Rightarrow> splay_assemble ls rs (Node l a rl) b rr
            | _ \<Rightarrow> splay_loop cmp key ((Node l a rl, b) # ls) rs rr)
          else splay_loop cmp key ((l, a) # ls) rs r))"
  by pat_completeness auto
termination by (relation "measure (\<lambda>(_, _, _, _, t). size t)") auto

definition tree_splay :: "('k \<Rightarrow> 'n \<Rightarrow> place) \<Rightarrow> 'n tree \<Rightarrow> 'k \<Rightarrow> 'n tree" where
  "tree_splay cmp t key = (case t of Leaf \<Rightarrow> Leaf | _ \<Rightarrow> splay_loop cmp key [] [] t)"

text \<open>The node before a node: the last one of its left subtree.\<close>

fun rightmost :: "'n tree \<Rightarrow> 'n option" where
  "rightmost Leaf = None"
| "rightmost (Node l a Leaf) = Some a"
| "rightmost (Node l a r) = rightmost r"

definition tree_previous :: "'n tree \<Rightarrow> 'n option" where
  "tree_previous t = (case t of Leaf \<Rightarrow> None | Node l a r \<Rightarrow> rightmost l)"

definition tree_lookup :: "('k \<Rightarrow> 'n \<Rightarrow> place) \<Rightarrow> 'n tree \<Rightarrow> 'k \<Rightarrow> 'n option \<times> 'n tree" where
  "tree_lookup cmp t key =
    (let t = tree_splay cmp t key in
     case t of Leaf \<Rightarrow> (None, t) | Node l a r \<Rightarrow> (if cmp key a = Within then Some a else None, t))"

definition tree_contains :: "('k \<Rightarrow> 'n \<Rightarrow> place) \<Rightarrow> 'n tree \<Rightarrow> 'k \<Rightarrow> bool \<times> 'n tree" where
  "tree_contains cmp t key = (let (n, t) = tree_lookup cmp t key in (n \<noteq> None, t))"

text \<open>\<open>new\<close> is the node that \<open>SPLAY_NODE_NEW\<close> would make, \<open>assign\<close> the assignment of the value to
  a node that is there already, \<open>scalar\<close> the start of the new span.\<close>

definition tree_insert ::
    "('k \<Rightarrow> 'n \<Rightarrow> place) \<Rightarrow> 'k \<Rightarrow> 'n \<Rightarrow> ('n \<Rightarrow> 'n) \<Rightarrow> 'n tree \<Rightarrow> 'n tree" where
  "tree_insert cmp scalar new assign t =
    (case tree_splay cmp t scalar of
      Leaf \<Rightarrow> Node Leaf new Leaf
    | Node l a r \<Rightarrow> (case cmp scalar a of
        Below \<Rightarrow> Node l new (Node Leaf a r)
      | Within \<Rightarrow> Node l (assign a) r
      | Above \<Rightarrow> Node (Node l a Leaf) new r))"

text \<open>\<open>None\<close>: the assertion that the tree is not empty fails.\<close>

definition tree_remove :: "('k \<Rightarrow> 'n \<Rightarrow> place) \<Rightarrow> 'n tree \<Rightarrow> 'k \<Rightarrow> ('n \<times> 'n tree) option" where
  "tree_remove cmp t key =
    (case tree_splay cmp t key of
      Leaf \<Rightarrow> None
    | Node l removed r \<Rightarrow> Some (removed,
        case l of Leaf \<Rightarrow> r
        | _ \<Rightarrow> (case tree_splay cmp l key of Leaf \<Rightarrow> Leaf | Node l' a _ \<Rightarrow> Node l' a r)))"

subsection \<open>A splay keeps the sequence of nodes\<close>

lemma splay_Leaf [simp]: "tree_splay cmp Leaf key = Leaf"
  by (simp add: tree_splay_def)

lemma inorder_link_left:
  "inorder (link_left ls t) = concat (map (\<lambda>(l, a). inorder l @ [a]) (rev ls)) @ inorder t"
  by (induction ls t rule: link_left.induct) auto

lemma inorder_link_right:
  "inorder (link_right rs t) = inorder t @ concat (map (\<lambda>(a, r). a # inorder r) rs)"
  by (induction rs t rule: link_right.induct) auto

declare splay_loop.simps(2) [simp del]

text \<open>The loop rotates and links until it stops at a node without the child it would go to.\<close>

lemma splay_loop_rule:
  assumes start: "I ls rs t" and leaf: "\<And>ls rs. I ls rs Leaf \<Longrightarrow> Q Leaf"
    and stop: "\<And>ls rs l a r. I ls rs (Node l a r) \<Longrightarrow> l = Leaf \<or> cmp key a \<noteq> Below \<Longrightarrow>
      r = Leaf \<or> cmp key a \<noteq> Above \<Longrightarrow> Q (splay_assemble ls rs l a r)"
    and rotate_right: "\<And>ls rs ll b lr a r. I ls rs (Node (Node ll b lr) a r) \<Longrightarrow> cmp key a = Below \<Longrightarrow>
      cmp key b = Below \<Longrightarrow> I ls rs (Node ll b (Node lr a r))"
    and rotate_left: "\<And>ls rs l a rl b rr. I ls rs (Node l a (Node rl b rr)) \<Longrightarrow> cmp key a = Above \<Longrightarrow>
      cmp key b = Above \<Longrightarrow> I ls rs (Node (Node l a rl) b rr)"
    and link_right: "\<And>ls rs l a r. I ls rs (Node l a r) \<Longrightarrow> cmp key a = Below \<Longrightarrow> l \<noteq> Leaf \<Longrightarrow> I ls ((a, r) # rs) l"
    and link_left: "\<And>ls rs l a r. I ls rs (Node l a r) \<Longrightarrow> cmp key a = Above \<Longrightarrow> r \<noteq> Leaf \<Longrightarrow> I ((l, a) # ls) rs r"
  shows "Q (splay_loop cmp key ls rs t)"
  using start
proof (induction "size t" arbitrary: ls rs t rule: less_induct)
  case less
  show ?case
  proof (cases t)
    case Leaf
    then show ?thesis using leaf less.prems by simp
  next
    case (Node l a r)
    note I = less.prems[unfolded Node]
    show ?thesis
    proof (cases "cmp key a")
      case Below
      show ?thesis
      proof (cases l)
        case Leaf
        then show ?thesis using stop[OF I] Below Node by (simp add: splay_loop.simps)
      next
        case l: (Node ll b lr)
        show ?thesis
        proof (cases "cmp key b = Below")
          case True
          note I' = rotate_right[OF I[unfolded l] Below True]
          show ?thesis
          proof (cases "ll = Leaf")
            case True
            then show ?thesis
              using stop[OF I'] Below Node l \<open>cmp key b = Below\<close> by (simp add: splay_loop.simps(2))
          next
            case False
            then have "splay_loop cmp key ls rs t = splay_loop cmp key ls ((b, Node lr a r) # rs) ll"
              using Below Node l True by (simp add: splay_loop.simps(2)[of _ _ _ _ "Node ll b lr"] split: tree.split)
            moreover have "size ll < size t" using Node l by simp
            ultimately show ?thesis using less.hyps link_right[OF I' True False] by simp
          qed
        next
          case False
          then have "splay_loop cmp key ls rs t = splay_loop cmp key ls ((a, r) # rs) l"
            using Below Node l by (simp add: splay_loop.simps(2)[of _ _ _ _ "Node ll b lr"])
          moreover have "size l < size t" using Node by simp
          ultimately show ?thesis using less.hyps link_right[OF I Below] l by simp
        qed
      qed
    next
      case Within
      then show ?thesis using stop[OF I] Node by (simp add: splay_loop.simps)
    next
      case Above
      show ?thesis
      proof (cases r)
        case Leaf
        then show ?thesis using stop[OF I] Above Node by (simp add: splay_loop.simps)
      next
        case r: (Node rl b rr)
        show ?thesis
        proof (cases "cmp key b = Above")
          case True
          note I' = rotate_left[OF I[unfolded r] Above True]
          show ?thesis
          proof (cases "rr = Leaf")
            case True
            then show ?thesis
              using stop[OF I'] Above Node r \<open>cmp key b = Above\<close> by (simp add: splay_loop.simps(2))
          next
            case False
            then have "splay_loop cmp key ls rs t = splay_loop cmp key ((Node l a rl, b) # ls) rs rr"
              using Above Node r True by (simp add: splay_loop.simps(2)[of _ _ _ _ l] split: tree.split)
            moreover have "size rr < size t" using Node r by simp
            ultimately show ?thesis using less.hyps link_left[OF I' True False] by simp
          qed
        next
          case False
          then have "splay_loop cmp key ls rs t = splay_loop cmp key ((l, a) # ls) rs r"
            using Above Node r by (simp add: splay_loop.simps(2)[of _ _ _ _ l])
          moreover have "size r < size t" using Node by simp
          ultimately show ?thesis using less.hyps link_left[OF I Above] r by simp
        qed
      qed
    qed
  qed
qed

lemma inorder_splay_loop:
  assumes "t \<noteq> Leaf"
  shows "inorder (splay_loop cmp key ls rs t) =
    concat (map (\<lambda>(l, a). inorder l @ [a]) (rev ls)) @ inorder t @ concat (map (\<lambda>(a, r). a # inorder r) rs)"
    (is "_ = ?xs ls rs t")
  by (rule splay_loop_rule[where I = "\<lambda>ls' rs' t'. t' \<noteq> Leaf \<and> ?xs ls' rs' t' = ?xs ls rs t"])
    (use assms in \<open>auto simp: splay_assemble_def inorder_link_left inorder_link_right\<close>)

lemma inorder_splay [simp]: "inorder (tree_splay cmp t key) = inorder t"
  by (cases t) (simp_all add: tree_splay_def inorder_splay_loop del: splay_loop.simps)

lemma splay_loop_Leaf_iff: "splay_loop cmp key ls rs t = Leaf \<longleftrightarrow> t = Leaf"
proof (cases "t = Leaf")
  case False
  have "splay_loop cmp key ls rs t \<noteq> Leaf"
    by (rule splay_loop_rule[where I = "\<lambda>_ _ t. t \<noteq> Leaf"]) (use False in \<open>auto simp: splay_assemble_def\<close>)
  then show ?thesis using False by simp
qed simp

lemma splay_Leaf_iff [simp]: "tree_splay cmp t key = Leaf \<longleftrightarrow> t = Leaf"
  by (cases t) (simp_all add: tree_splay_def splay_loop_Leaf_iff del: splay_loop.simps)

text \<open>A splay depends on the comparisons with the nodes of the tree only.\<close>

lemma splay_loop_cong:
  assumes "\<forall>n \<in> set_tree t. cmp key n = cmp' key n"
  shows "splay_loop cmp key ls rs t = splay_loop cmp' key ls rs t"
  using assms
proof (induction "size t" arbitrary: ls rs t rule: less_induct)
  case less
  show ?case
  proof (cases t)
    case (Node l a r)
    have eq: "cmp key a = cmp' key a" using less.prems Node by simp
    show ?thesis
    proof (cases "cmp' key a")
      case Within
      then show ?thesis using Node eq by (simp add: splay_loop.simps(2))
    next
      case Below
      show ?thesis
      proof (cases l)
        case Leaf
        then show ?thesis using Node eq Below by (simp add: splay_loop.simps(2))
      next
        case l: (Node ll b lr)
        have "cmp key b = cmp' key b" using less.prems Node l by simp
        moreover have "splay_loop cmp key ls' rs' t' = splay_loop cmp' key ls' rs' t'"
          if "t' = l \<or> t' = ll" for ls' rs' t'
          by (rule less.hyps) (use that less.prems Node l in auto)
        ultimately show ?thesis using Node eq Below l
          by (auto simp: splay_loop.simps(2)[of _ _ _ _ "Node ll b lr"] split: tree.split)
      qed
    next
      case Above
      show ?thesis
      proof (cases r)
        case Leaf
        then show ?thesis using Node eq Above by (simp add: splay_loop.simps(2))
      next
        case r: (Node rl b rr)
        have "cmp key b = cmp' key b" using less.prems Node r by simp
        moreover have "splay_loop cmp key ls' rs' t' = splay_loop cmp' key ls' rs' t'"
          if "t' = r \<or> t' = rr" for ls' rs' t'
          by (rule less.hyps) (use that less.prems Node r in auto)
        ultimately show ?thesis using Node eq Above r
          by (auto simp: splay_loop.simps(2)[of _ _ _ _ l] split: tree.split)
      qed
    qed
  qed simp
qed

lemma tree_splay_cong:
  "\<forall>n \<in> set_tree t. cmp key n = cmp' key n \<Longrightarrow> tree_splay cmp t key = tree_splay cmp' t key"
  unfolding tree_splay_def by (rule tree.case_cong[OF refl refl]) (metis splay_loop_cong)

lemma tree_insert_cong:
  assumes "\<forall>n \<in> set_tree t. cmp scalar n = cmp' scalar n"
  shows "tree_insert cmp scalar new assign t = tree_insert cmp' scalar new assign t"
proof -
  have "set_tree (tree_splay cmp' t scalar) = set_tree t" by (metis inorder_splay set_inorder)
  moreover have "tree_splay cmp t scalar = tree_splay cmp' t scalar" by (rule tree_splay_cong) (rule assms)
  ultimately show ?thesis
  proof (cases "tree_splay cmp' t scalar")
    case (Node l a r)
    have "a \<in> set_tree t" using \<open>set_tree (tree_splay cmp' t scalar) = set_tree t\<close> Node by auto
    then have "cmp scalar a = cmp' scalar a" using assms by blast
    then show ?thesis using Node \<open>tree_splay cmp t scalar = _\<close> by (simp add: tree_insert_def)
  qed (simp add: tree_insert_def)
qed

subsection \<open>The key is brought to the root\<close>

text \<open>The key cuts a sequence: it is above the spans before a point, below those after it, and
  within at most the one at that point.\<close>

definition cuts :: "('k \<Rightarrow> 'n \<Rightarrow> place) \<Rightarrow> 'k \<Rightarrow> 'n list \<Rightarrow> bool" where
  "cuts cmp key xs \<longleftrightarrow> sorted_wrt (\<lambda>a b. cmp key a = Above \<or> cmp key b = Below) xs"

lemma cuts_append:
  "cuts cmp key (xs @ ys) \<longleftrightarrow> cuts cmp key xs \<and> cuts cmp key ys
    \<and> (\<forall>a\<in>set xs. \<forall>b\<in>set ys. cmp key a = Above \<or> cmp key b = Below)"
  by (simp add: cuts_def sorted_wrt_append)

lemma cuts_Cons:
  "cuts cmp key (x # ys) \<longleftrightarrow> cuts cmp key ys \<and> (\<forall>b\<in>set ys. cmp key x = Above \<or> cmp key b = Below)"
  by (auto simp: cuts_def)

lemmas cuts_simps = cuts_append cuts_Cons

definition split_at :: "('k \<Rightarrow> 'n \<Rightarrow> place) \<Rightarrow> 'k \<Rightarrow> 'n tree \<Rightarrow> bool" where
  "split_at cmp key t = (case t of Leaf \<Rightarrow> True
    | Node l a r \<Rightarrow> (\<forall>x\<in>set_tree l. cmp key x = Above) \<and> (\<forall>x\<in>set_tree r. cmp key x = Below))"

lemma set_link_left: "set_tree (link_left ls t) = (\<Union>(l, a)\<in>set ls. insert a (set_tree l)) \<union> set_tree t"
  by (induction ls t rule: link_left.induct) auto

lemma set_link_right: "set_tree (link_right rs t) = (\<Union>(a, r)\<in>set rs. insert a (set_tree r)) \<union> set_tree t"
  by (induction rs t rule: link_right.induct) auto

lemma split_assemble:
  assumes "\<forall>(l, a)\<in>set ls. cmp key a = Above \<and> (\<forall>x\<in>set_tree l. cmp key x = Above)"
    and "\<forall>(a, r)\<in>set rs. cmp key a = Below \<and> (\<forall>x\<in>set_tree r. cmp key x = Below)"
    and "\<forall>x\<in>set_tree l. cmp key x = Above" "\<forall>x\<in>set_tree r. cmp key x = Below"
  shows "split_at cmp key (splay_assemble ls rs l a r)"
  using assms by (fastforce simp: split_at_def splay_assemble_def set_link_left set_link_right)

lemma split_splay_loop:
  assumes "cuts cmp key (inorder t)"
    and "\<forall>(l, a)\<in>set ls. cmp key a = Above \<and> (\<forall>x\<in>set_tree l. cmp key x = Above)"
    and "\<forall>(a, r)\<in>set rs. cmp key a = Below \<and> (\<forall>x\<in>set_tree r. cmp key x = Below)"
  shows "split_at cmp key (splay_loop cmp key ls rs t)"
proof (rule splay_loop_rule[where I = "\<lambda>ls rs t. cuts cmp key (inorder t)
      \<and> (\<forall>(l, a)\<in>set ls. cmp key a = Above \<and> (\<forall>x\<in>set_tree l. cmp key x = Above))
      \<and> (\<forall>(a, r)\<in>set rs. cmp key a = Below \<and> (\<forall>x\<in>set_tree r. cmp key x = Below))"])
  fix ls :: "('b tree \<times> 'b) list" and rs and l :: "'b tree" and a r
  assume I: "cuts cmp key (inorder (Node l a r))
      \<and> (\<forall>(l, a)\<in>set ls. cmp key a = Above \<and> (\<forall>x\<in>set_tree l. cmp key x = Above))
      \<and> (\<forall>(a, r)\<in>set rs. cmp key a = Below \<and> (\<forall>x\<in>set_tree r. cmp key x = Below))"
  show "split_at cmp key (splay_assemble ls rs l a r)"
    if "l = Leaf \<or> cmp key a \<noteq> Below" "r = Leaf \<or> cmp key a \<noteq> Above"
    using I that by (intro split_assemble) (auto simp: cuts_simps)
qed (use assms in \<open>auto simp: cuts_simps split_at_def\<close>)

lemma split_splay:
  assumes "cuts cmp key (inorder t)"
  shows "split_at cmp key (tree_splay cmp t key)"
  using split_splay_loop[OF assms, of "[]" "[]"]
  by (cases t) (simp_all add: tree_splay_def split_at_def del: splay_loop.simps)

lemma splay_cases:
  assumes "cuts cmp key (inorder t)"
  obtains "t = Leaf" "tree_splay cmp t key = Leaf"
  | l a r where "tree_splay cmp t key = Node l a r" "inorder t = inorder l @ a # inorder r"
      "\<And>x. x \<in> set_tree l \<Longrightarrow> cmp key x = Above" "\<And>x. x \<in> set_tree r \<Longrightarrow> cmp key x = Below"
proof (cases "tree_splay cmp t key")
  case Leaf
  then show thesis using that(1) by simp
next
  case (Node l a r)
  then have "inorder t = inorder l @ a # inorder r" using inorder_splay[of cmp t key] by simp
  then show thesis using that(2)[OF Node] split_splay[OF assms] Node by (simp add: split_at_def)
qed

lemma lookup_cuts:
  assumes "cuts cmp key (inorder t)"
  shows "inorder (snd (tree_lookup cmp t key)) = inorder t"
    and "fst (tree_lookup cmp t key) = Some n \<longleftrightarrow> n \<in> set_tree t \<and> cmp key n = Within"
proof -
  show "inorder (snd (tree_lookup cmp t key)) = inorder t"
    using inorder_splay[of cmp t key]
    by (cases "tree_splay cmp t key") (auto simp add: tree_lookup_def Let_def simp del: inorder_splay)
  show "fst (tree_lookup cmp t key) = Some n \<longleftrightarrow> n \<in> set_tree t \<and> cmp key n = Within"
    using assms
  proof (cases rule: splay_cases)
    case (2 l a r)
    have "set_tree t = set_tree l \<union> {a} \<union> set_tree r" using 2(2) set_inorder[of t] by auto
    then show ?thesis using 2(1,3,4) by (auto simp: tree_lookup_def)
  qed (simp add: tree_lookup_def)
qed

lemma rightmost_last: "rightmost t = (if t = Leaf then None else Some (last (inorder t)))"
  by (induction t rule: rightmost.induct) auto

lemma previous_inorder:
  "tree_previous (Node l a r) = (if inorder l = [] then None else Some (last (inorder l)))"
  by (cases l) (auto simp: tree_previous_def rightmost_last)

lemma remove_cuts:
  assumes "cuts cmp key (inorder t)" "n \<in> set_tree t" "cmp key n = Within"
  obtains t' xs ys where "tree_remove cmp t key = Some (n, t')" "inorder t = xs @ n # ys" "inorder t' = xs @ ys"
  using assms(1)
proof (cases rule: splay_cases)
  case (2 l a r)
  have "set_tree t = set_tree l \<union> {a} \<union> set_tree r" using 2(2) set_inorder[of t] by auto
  then have a: "a = n" using assms(2,3) 2(3,4) by force
  show thesis
  proof (cases l)
    case Leaf
    then show thesis using that[of r "[]" "inorder r"] 2(1,2) a by (simp add: tree_remove_def)
  next
    case (Node ll b lr)
    have "cuts cmp key (inorder l)" using assms(1) 2(2) by (simp add: cuts_append)
    then show thesis
    proof (cases rule: splay_cases)
      case 1
      then show thesis using Node by simp
    next
      case l': (2 l1 c l2)
      have "x \<notin> set_tree l2" for x using 2(3)[of x] l'(2,4) set_inorder[of l] by (metis UnCI list.set_intros(2) place.distinct(3) set_append set_inorder)
      then have "l2 = Leaf" by (cases l2) auto
      then have "inorder l = inorder l1 @ [c]" using l'(2) by simp
      then show thesis
        using that[of "Node l1 c r" "inorder l" "inorder r"] 2(1,2) a Node l'(1)
        by (simp add: tree_remove_def)
    qed
  qed
qed (use assms(2) in simp)

subsection \<open>Spans in order\<close>

text \<open>What the template asks of its parameters: a strict order on spans that the comparison respects.\<close>

locale span_order =
  fixes cmp :: "'k \<Rightarrow> 'n \<Rightarrow> place" and start :: "'n \<Rightarrow> 'k"
    and ok :: "'n \<Rightarrow> bool" and before :: "'n \<Rightarrow> 'n \<Rightarrow> bool"
  assumes cmp_before: "ok a \<Longrightarrow> ok b \<Longrightarrow> before a b \<Longrightarrow> cmp k a = Above \<or> cmp k b = Below"
    and cmp_start: "ok a \<Longrightarrow> cmp (start a) a = Within"
begin

definition spans :: "'n tree \<Rightarrow> bool" where
  "spans t \<longleftrightarrow> sorted_wrt before (inorder t) \<and> (\<forall>n\<in>set_tree t. ok n)"

lemma spans_cuts: "spans t \<Longrightarrow> cuts cmp k (inorder t)"
  unfolding spans_def cuts_def
  by (rule sorted_wrt_mono_rel[of _ before]) (use cmp_before in \<open>simp_all add: set_inorder\<close>)

lemma spans_inorder: "inorder t' = inorder t \<Longrightarrow> spans t' = spans t \<and> set_tree t' = set_tree t"
  unfolding spans_def set_inorder[symmetric] by simp

lemma spans_lookup:
  assumes "spans t"
  shows "spans (snd (tree_lookup cmp t k))" "set_tree (snd (tree_lookup cmp t k)) = set_tree t"
    and "fst (tree_lookup cmp t k) = Some n \<longleftrightarrow> n \<in> set_tree t \<and> cmp k n = Within"
  using spans_inorder[OF lookup_cuts(1)[OF spans_cuts[OF assms], of k]] assms
    lookup_cuts(2)[OF spans_cuts[OF assms], of k n] by simp_all

lemma spans_insert:
  assumes t: "spans t" and new: "ok new" "\<And>n. n \<in> set_tree t \<Longrightarrow> before n new \<or> before new n"
    and trans: "\<And>a b c. before a b \<Longrightarrow> before b c \<Longrightarrow> before a c"
  shows "spans (tree_insert cmp (start new) new f t)"
    and "set_tree (tree_insert cmp (start new) new f t) = insert new (set_tree t)"
proof -
  let ?k = "start new"
  have ok: "ok n" if "n \<in> set_tree t" for n using t that by (simp add: spans_def)
  have above: "cmp ?k n = Above \<longleftrightarrow> before n new" "cmp ?k n = Below \<longleftrightarrow> before new n" "cmp ?k n \<noteq> Within"
    if n: "n \<in> set_tree t" for n
    using cmp_before[OF ok[OF n] new(1), of ?k] cmp_before[OF new(1) ok[OF n], of ?k] cmp_start[OF new(1)]
      new(2)[OF n] by auto
  have "spans (tree_insert cmp ?k new f t) \<and> set_tree (tree_insert cmp ?k new f t) = insert new (set_tree t)"
    using spans_cuts[OF t, of ?k]
  proof (cases rule: splay_cases)
    case 1
    then show ?thesis using new(1) by (simp add: tree_insert_def spans_def)
  next
    case (2 l a r)
    have set: "set_tree t = set_tree l \<union> {a} \<union> set_tree r" using 2(2) set_inorder[of t] by auto
    have srt: "sorted_wrt before (inorder l @ a # inorder r)" using t 2(2) by (simp add: spans_def)
    have l: "before n new" if "n \<in> set_tree l" for n using above(1)[of n] 2(3)[OF that] that set by auto
    have r: "before new n" if "n \<in> set_tree r" for n using above(2)[of n] 2(4)[OF that] that set by auto
    have oks: "\<forall>n\<in>set_tree l \<union> {a} \<union> set_tree r. ok n" using ok set by blast
    show ?thesis
    proof (cases "cmp ?k a")
      case Below
      then have "before new a" using above(2)[of a] set by simp
      then show ?thesis
        using Below 2(1) srt l r oks new(1) set
        by (auto simp: tree_insert_def spans_def sorted_wrt_append intro: trans)
    next
      case Within
      then show ?thesis using above(3)[of a] set by simp
    next
      case Above
      then have "before a new" using above(1)[of a] set by simp
      then show ?thesis
        using Above 2(1) srt l r oks new(1) set
        by (auto simp: tree_insert_def spans_def sorted_wrt_append intro: trans)
    qed
  qed
  then show "spans (tree_insert cmp ?k new f t)"
    "set_tree (tree_insert cmp ?k new f t) = insert new (set_tree t)" by simp_all
qed

lemma spans_remove:
  assumes t: "spans t" and n: "n \<in> set_tree t" "cmp k n = Within"
  obtains t' where "tree_remove cmp t k = Some (n, t')" "spans t'" "set_tree t' = set_tree t - {n}"
proof -
  obtain t' xs ys where t': "tree_remove cmp t k = Some (n, t')" "inorder t = xs @ n # ys" "inorder t' = xs @ ys"
    by (rule remove_cuts[OF spans_cuts[OF t] n])
  have set: "set_tree t = set xs \<union> {n} \<union> set ys" "set_tree t' = set xs \<union> set ys"
    using t'(2,3) set_inorder[of t] set_inorder[of t'] by auto
  have "ok n" using t n(1) by (simp add: spans_def)
  then have "\<not> before n n" using cmp_before[of n n "start n"] cmp_start[of n] by auto
  moreover have srt: "sorted_wrt before (xs @ n # ys)" using t t'(2) by (simp add: spans_def)
  ultimately have "n \<notin> set xs" "n \<notin> set ys" by (auto simp: sorted_wrt_append)
  then have "set_tree t' = set_tree t - {n}" using set by auto
  moreover have "spans t'"
    using srt t t'(3) set by (auto simp: spans_def sorted_wrt_append)
  ultimately show thesis using that t'(1) by blast
qed

end

subsection \<open>The operations of the tree\<close>

text \<open>A look-up leaves the sequence of nodes as it was and returns the node whose span the key
  lies within, if there is one; the root is then that node, with every node before the key in its left
  subtree and every node after it in its right subtree.\<close>

theorem tree_lookup_correct:
  assumes "cuts cmp key (inorder t)" "tree_lookup cmp t key = (found, t')"
  shows "inorder t' = inorder t \<and> split_at cmp key t'
    \<and> found = List.find (\<lambda>n. cmp key n = Within) (inorder t)"
proof -
  have found: "found = Some n \<longleftrightarrow> n \<in> set (inorder t) \<and> cmp key n = Within" for n
    using lookup_cuts(2)[OF assms(1), of n] assms(2) by simp
  have "found = List.find (\<lambda>n. cmp key n = Within) (inorder t)"
  proof (cases "List.find (\<lambda>n. cmp key n = Within) (inorder t)")
    case None
    then have "found = None" using found by (cases found) (auto simp: find_None_iff)
    then show ?thesis using None by simp
  next
    case (Some n)
    then obtain i where "i < length (inorder t)" "cmp key (inorder t ! i) = Within" "n = inorder t ! i"
      unfolding find_Some_iff by blast
    then have "n \<in> set (inorder t)" "cmp key n = Within" by (simp_all only: nth_mem)
    then show ?thesis using found Some by simp
  qed
  moreover have "t' = tree_splay cmp t key"
    using assms(2) by (auto simp: tree_lookup_def Let_def split: tree.splits)
  ultimately show ?thesis using split_splay[OF assms(1)] by simp
qed

definition digit_span :: "nat \<Rightarrow> nat \<times> nat \<Rightarrow> place" where
  "digit_span k n = (if k < fst n then Below else if k < snd n then Within else Above)"

abbreviation three_spans :: "(nat \<times> nat) tree" where
  "three_spans \<equiv> Node (Node Leaf (0, 2) Leaf) (5, 7) (Node Leaf (7, 9) Leaf)"

theorem tree_lookup_correct_witness:
  "\<exists>t'. tree_lookup digit_span three_spans 8 = (Some (7, 9), t') \<and> split_at digit_span 8 t'"
proof -
  have cuts: "cuts digit_span 8 (inorder three_spans)" by (simp add: cuts_def digit_span_def)
  obtain found t' where eq: "tree_lookup digit_span three_spans 8 = (found, t')" by (cases "tree_lookup digit_span three_spans 8")
  from tree_lookup_correct[OF cuts eq] eq show ?thesis by (simp add: digit_span_def)
qed

text \<open>A removal takes exactly the node that the key lies within out of the sequence.\<close>

theorem tree_remove_correct:
  assumes "cuts cmp key (inorder t)" "inorder t = xs @ n # ys" "cmp key n = Within"
  shows "\<exists>t'. tree_remove cmp t key = Some (n, t') \<and> inorder t' = xs @ ys"
proof -
  have "n \<in> set_tree t" using assms(2) set_inorder[of t] by (metis in_set_conv_decomp)
  then obtain t' xs' ys' where t': "tree_remove cmp t key = Some (n, t')" "inorder t = xs' @ n # ys'" "inorder t' = xs' @ ys'"
    by (rule remove_cuts[OF assms(1) _ assms(3)])
  have uniq: "\<forall>x\<in>set as. cmp key x \<noteq> Within" if "inorder t = as @ n # bs" for as bs
    using assms(1,3) that by (auto simp: cuts_simps)
  have "xs = takeWhile (\<lambda>x. cmp key x \<noteq> Within) (inorder t)" if "inorder t = xs @ n # ys" for xs ys
    using uniq[OF that] assms(3) that by (simp add: takeWhile_append)
  from this[OF assms(2)] this[OF t'(2)] have "xs = xs'" by simp
  then show ?thesis using t' assms(2) by simp
qed

theorem tree_remove_correct_witness:
  "\<exists>t'. tree_remove digit_span three_spans 6 = Some ((5, 7), t') \<and> inorder t' = [(0, 2)] @ [(7, 9)]"
  by (rule tree_remove_correct) (simp_all add: cuts_def digit_span_def)

end
