(* ===== verification/LargeObjectSpace.thy ===== *)
theory LargeObjectSpace
  imports AddressSet SplayTree Extents Histogram Trace
begin

text \<open>
  The mark-sweep space for large objects, \<open>src/large-object-space.h\<close>. A node of the splay tree is a
  C object of its own, shared by the tree, the address maps and the freelists, so nodes live in a
  store from addresses to nodes and the structures hold addresses. The doubly linked list of a bucket
  of the quarantine is the sequence of its nodes. Every operation holds the locks it needs from start
  to end and is one step; \<open>gc_atomic\<close> operations are plain ones.

  Arguments stand for what is outside: \<open>acquire\<close> is \<open>gc_platform_acquire_memory\<close>, \<open>new\<close> the
  address that \<open>malloc\<close> gives a new node, and the memory given back is part of what an operation
  returns. The bytes of the objects have no model here, so \<open>memset\<close> of a new object has none.
\<close>

section \<open>Objects, nodes and the space\<close>

definition large_object_nursery :: u8 where "large_object_nursery = 0"
definition large_object_marked_bit :: u8 where "large_object_marked_bit = 1"
definition large_object_mark_toggle_bit :: u8 where "large_object_mark_toggle_bit = 2"
definition large_object_mark_0 :: u8 where "large_object_mark_0 = large_object_marked_bit"
definition large_object_mark_1 :: u8 where
  "large_object_mark_1 = large_object_marked_bit OR large_object_mark_toggle_bit"

record large_object =
  obj_addr :: u64
  obj_size :: u64

datatype large_object_data = Live (live_mark: u8) (live_trace: gc_trace_kind) | Dead (dead_age: u8)

record large_object_node =
  node_key :: large_object
  node_value :: large_object_data

definition node_is_live :: "large_object_node \<Rightarrow> bool" where
  "node_is_live n = is_Live (node_value n)"

definition large_object_compare :: "u64 \<Rightarrow> large_object \<Rightarrow> place" where
  "large_object_compare addr obj =
    (if addr < obj_addr obj then Below
     else if addr - obj_addr obj < obj_size obj then Within
     else Above)"

definition large_object_span_start :: "large_object \<Rightarrow> u64" where
  "large_object_span_start obj = obj_addr obj"

record large_object_space =
  los_marked :: u8
  los_nodes :: "u64 \<rightharpoonup> large_object_node"
  los_object_tree :: "u64 tree"
  los_object_map :: address_map
  los_nursery :: address_map
  los_quarantine :: "u64 list list"
  los_remembered_edges :: address_set
  los_extents :: extents
  los_page_size :: u64
  los_page_size_log2 :: nat
  los_total_pages :: u64
  los_free_pages :: u64
  los_live_pages_at_last_collection :: u64
  los_pages_freed_by_last_collection :: u64
  los_synchronous_release :: bool

abbreviation los_node :: "large_object_space \<Rightarrow> u64 \<Rightarrow> large_object_node" where
  "los_node space n \<equiv> the (los_nodes space n)"

abbreviation los_set_node :: "u64 \<Rightarrow> large_object_node \<Rightarrow> large_object_space \<Rightarrow> large_object_space" where
  "los_set_node n node space \<equiv> space\<lparr>los_nodes := (los_nodes space)(n \<mapsto> node)\<rparr>"

abbreviation los_compare :: "large_object_space \<Rightarrow> u64 \<Rightarrow> u64 \<Rightarrow> place" where
  "los_compare space addr n \<equiv> large_object_compare addr (node_key (los_node space n))"

text \<open>The quarantine is a freelist of 63 bits with a precision of 2.\<close>

definition large_object_freelist_num_size_classes :: nat where
  "large_object_freelist_num_size_classes = freelist_num_size_classes 63 2"

definition large_object_freelist_size_class :: "u64 \<Rightarrow> nat" where
  "large_object_freelist_size_class sz = freelist_size_class 63 2 sz"

definition large_object_space_npages :: "large_object_space \<Rightarrow> u64 \<Rightarrow> u64" where
  "large_object_space_npages space bytes =
    drop_bit (los_page_size_log2 space) (bytes + los_page_size space - 1)"

definition large_object_space_size_at_last_collection :: "large_object_space \<Rightarrow> u64" where
  "large_object_space_size_at_last_collection space =
    push_bit (los_page_size_log2 space) (los_live_pages_at_last_collection space)"

definition large_object_space_contains :: "large_object_space \<Rightarrow> gc_ref \<Rightarrow> bool result" where
  "large_object_space_contains space ref = address_map_contains (los_object_map space) ref"

text \<open>The splay tree of the space. Inserting a span at the start of a node of the tree assigns the
  value of that node, whose span is asserted to be the same.\<close>

definition large_object_tree_lookup :: "large_object_space \<Rightarrow> u64 \<Rightarrow> u64 option \<times> large_object_space" where
  "large_object_tree_lookup space addr =
    (let (n, t) = tree_lookup (los_compare space) (los_object_tree space) addr
     in (n, space\<lparr>los_object_tree := t\<rparr>))"

definition large_object_tree_insert ::
    "u64 \<Rightarrow> large_object_space \<Rightarrow> large_object \<Rightarrow> large_object_data \<Rightarrow> (u64 \<times> large_object_space) result"
where
  "large_object_tree_insert new space ospan val =
    (let scalar = large_object_span_start ospan;
         t = tree_insert (los_compare space) scalar new id (los_object_tree space);
         space' = space\<lparr>los_object_tree := t\<rparr>
     in case tree_splay (los_compare space) (los_object_tree space) scalar of
          Leaf \<Rightarrow> Inr (new, los_set_node new \<lparr> node_key = ospan, node_value = val \<rparr> space')
        | Node l a r \<Rightarrow>
            if los_compare space scalar a = Within
            then result_bind (gc_assert (node_key (los_node space a) = ospan)) (\<lambda>_.
                 Inr (a, los_set_node a ((los_node space a)\<lparr>node_value := val\<rparr>) space'))
            else Inr (new, los_set_node new \<lparr> node_key = ospan, node_value = val \<rparr> space'))"

definition large_object_tree_remove :: "large_object_space \<Rightarrow> u64 \<Rightarrow> large_object_space result" where
  "large_object_tree_remove space addr =
    (case tree_remove (los_compare space) (los_object_tree space) addr of
       None \<Rightarrow> Inl Crash
     | Some (n, t) \<Rightarrow> Inr (space\<lparr>los_object_tree := t, los_nodes := (los_nodes space)(n := None)\<rparr>))"

definition large_object_space_object_containing_edge ::
    "large_object_space \<Rightarrow> u64 \<Rightarrow> gc_ref \<times> large_object_space" where
  "large_object_space_object_containing_edge space edge =
    (let (node, space) = large_object_tree_lookup space edge
     in (case node of
           None \<Rightarrow> 0
         | Some n \<Rightarrow> if node_is_live (los_node space n) then obj_addr (node_key (los_node space n)) else 0,
         space))"

section \<open>Starting a collection\<close>

fun large_object_append_extent :: "large_object_space \<Rightarrow> u64 tree \<Rightarrow> extents \<Rightarrow> extents result" where
  "large_object_append_extent space Leaf e = Inr e"
| "large_object_append_extent space (Node l n r) e =
    result_bind (large_object_append_extent space l e) (\<lambda>e.
    let k = node_key (los_node space n) in
    result_bind (extents_append e (obj_addr k) (obj_size k)) (large_object_append_extent space r))"

definition large_object_space_prepare_extents :: "large_object_space \<Rightarrow> large_object_space result" where
  "large_object_space_prepare_extents space =
    (let e = extents_prepare (los_extents space) (unat (address_map_size (los_object_map space)))
     in result_bind (large_object_append_extent space (los_object_tree space) e) (\<lambda>e.
        Inr (space\<lparr>los_extents := e\<rparr>)))"

definition large_object_space_start_gc :: "gc_config \<Rightarrow> large_object_space \<Rightarrow> bool \<Rightarrow> large_object_space result"
where
  "large_object_space_start_gc cfg space is_minor_gc =
    result_bind
      (if gc_has_mutator_conservative_roots cfg then large_object_space_prepare_extents space
       else Inr space)
      (\<lambda>space. Inr (if \<not> is_minor_gc
         then space\<lparr>los_marked := los_marked space XOR large_object_mark_toggle_bit,
                    los_live_pages_at_last_collection := 0\<rparr>
         else space))"

section \<open>Marking\<close>

definition large_object_space_lookup :: "large_object_space \<Rightarrow> gc_ref \<Rightarrow> u64 result" where
  "large_object_space_lookup space ref = address_map_lookup (los_object_map space) ref 0"

definition large_object_space_object_trace_plan ::
    "large_object_space \<Rightarrow> gc_ref \<Rightarrow> gc_trace_plan result" where
  "large_object_space_object_trace_plan space ref =
    result_bind (address_map_lookup (los_object_map space) ref 0) (\<lambda>node_bits.
    result_bind (gc_assert (node_bits \<noteq> 0)) (\<lambda>_.
    let node = los_node space node_bits in
    Inr (case live_trace (node_value node) of
        Trace_precisely \<Rightarrow> \<lparr> plan_kind = Trace_precisely, plan_size = 0 \<rparr>
      | Trace_none \<Rightarrow> \<lparr> plan_kind = Trace_none, plan_size = 0 \<rparr>
      | Trace_conservatively \<Rightarrow>
          \<lparr> plan_kind = Trace_conservatively, plan_size = obj_size (node_key node) \<rparr>)))"

definition large_object_node_get_mark :: "large_object_node \<Rightarrow> u8 result" where
  "large_object_node_get_mark node =
    result_bind (gc_assert (node_is_live node)) (\<lambda>_. Inr (live_mark (node_value node)))"

definition large_object_space_mark :: "large_object_space \<Rightarrow> gc_ref \<Rightarrow> (bool \<times> large_object_space) result" where
  "large_object_space_mark space ref =
    result_bind (large_object_space_lookup space ref) (\<lambda>n.
    if n = 0 then Inr (False, space)
    else let node = los_node space n in
      result_bind (large_object_node_get_mark node) (\<lambda>mark.
      if mark = los_marked space then Inr (False, space)
      else let node' = node\<lparr>node_value := Live (los_marked space) (live_trace (node_value node))\<rparr>;
               pages = drop_bit (los_page_size_log2 space) (obj_size (node_key node))
           in Inr (True, los_set_node n node' space
                \<lparr>los_live_pages_at_last_collection := los_live_pages_at_last_collection space + pages\<rparr>)))"

definition large_object_space_is_marked :: "large_object_space \<Rightarrow> gc_ref \<Rightarrow> bool result" where
  "large_object_space_is_marked space ref =
    result_bind (large_object_space_lookup space ref) (\<lambda>n.
    if n = 0 then Inr False
    else result_bind (large_object_node_get_mark (los_node space n)) (\<lambda>mark.
         Inr (mark = los_marked space)))"

definition large_object_space_is_survivor :: "large_object_space \<Rightarrow> gc_ref \<Rightarrow> bool result" where
  "large_object_space_is_survivor space ref =
    result_bind (large_object_space_contains space ref) (\<lambda>c.
    result_bind (gc_assert c) (\<lambda>_. large_object_space_is_marked space ref))"

section \<open>Remembered edges\<close>

definition large_object_space_remember_edge ::
    "large_object_space \<Rightarrow> gc_ref \<Rightarrow> u64 \<Rightarrow> (bool \<times> large_object_space) result" where
  "large_object_space_remember_edge space obj edge =
    result_bind (large_object_space_contains space obj) (\<lambda>c.
    result_bind (gc_assert c) (\<lambda>_.
    result_bind (large_object_space_is_survivor space obj) (\<lambda>old.
    if \<not> old then Inr (False, space)
    else result_bind (address_set_contains (los_remembered_edges space) edge) (\<lambda>there.
      if there then Inr (False, space)
      else result_bind (address_set_add (los_remembered_edges space) edge) (\<lambda>s.
           Inr (True, space\<lparr>los_remembered_edges := s\<rparr>))))))"

definition large_object_space_forget_edge :: "large_object_space \<Rightarrow> u64 \<Rightarrow> large_object_space result" where
  "large_object_space_forget_edge space edge =
    result_bind (address_set_contains (los_remembered_edges space) edge) (\<lambda>c.
    result_bind (gc_assert c) (\<lambda>_.
    result_bind (address_set_remove (los_remembered_edges space) edge) (\<lambda>s.
    Inr (space\<lparr>los_remembered_edges := s\<rparr>))))"

definition large_object_space_clear_remembered_edges :: "large_object_space \<Rightarrow> large_object_space" where
  "large_object_space_clear_remembered_edges space =
    space\<lparr>los_remembered_edges := address_set_clear (los_remembered_edges space)\<rparr>"

section \<open>The quarantine\<close>

definition large_object_space_add_to_freelist :: "large_object_space \<Rightarrow> u64 \<Rightarrow> large_object_space" where
  "large_object_space_add_to_freelist space n =
    (let node = (los_node space n)\<lparr>node_value := Dead 0\<rparr>;
         bucket = large_object_freelist_size_class (obj_size (node_key node))
     in (los_set_node n node space)
          \<lparr>los_quarantine := (los_quarantine space)[bucket := n # los_quarantine space ! bucket]\<rparr>)"

definition large_object_space_remove_from_freelist :: "large_object_space \<Rightarrow> u64 \<Rightarrow> large_object_space result"
where
  "large_object_space_remove_from_freelist space n =
    result_bind (gc_assert (\<not> node_is_live (los_node space n))) (\<lambda>_.
    result_bind (gc_assert (\<exists>ns \<in> set (los_quarantine space). n \<in> set ns)) (\<lambda>_.
    Inr (space\<lparr>los_quarantine := map (remove1 n) (los_quarantine space)\<rparr>)))"

definition large_object_space_sweep_one :: "u64 \<Rightarrow> u64 \<Rightarrow> large_object_space \<Rightarrow> large_object_space" where
  "large_object_space_sweep_one addr n space =
    (let node = los_node space n
     in if \<not> node_is_live node then space
        else if live_mark (node_value node) \<noteq> los_marked space
        then large_object_space_add_to_freelist space n else space)"

text \<open>One node of the quarantine grows older, and leaves it, and the space, at age 2.\<close>

definition large_object_space_age_one ::
    "u64 \<Rightarrow> large_object_space \<times> large_object list \<Rightarrow> (large_object_space \<times> large_object list) result"
where
  "large_object_space_age_one n st =
    (let (space, released) = st; node = los_node space n in
     result_bind (gc_assert (\<not> node_is_live node)) (\<lambda>_.
     let age = dead_age (node_value node) + 1;
         space = los_set_node n (node\<lparr>node_value := Dead age\<rparr>) space in
     if age < 2 then Inr (space, released)
     else let obj = node_key node in
       result_bind (large_object_space_remove_from_freelist space n) (\<lambda>space.
       result_bind (address_map_remove (los_object_map space) (obj_addr obj)) (\<lambda>m.
       result_bind (large_object_tree_remove (space\<lparr>los_object_map := m\<rparr>) (obj_addr obj)) (\<lambda>space.
       Inr (space, released @ [obj]))))))"

definition large_object_space_process_quarantine ::
    "large_object_space \<Rightarrow> (large_object_space \<times> large_object list) result" where
  "large_object_space_process_quarantine space =
    result_fold (\<lambda>idx st. result_fold large_object_space_age_one (los_quarantine (fst st) ! idx) st)
      [0..<large_object_freelist_num_size_classes] (space, [])"

section \<open>Finishing a collection\<close>

definition large_object_space_sweep :: "gc_config \<Rightarrow> large_object_space \<Rightarrow> bool \<Rightarrow> large_object_space" where
  "large_object_space_sweep cfg space is_minor_gc =
    (if gc_generational cfg
     then let m = (if is_minor_gc then los_nursery space else los_object_map space);
              space = address_map_for_each m large_object_space_sweep_one space
          in space\<lparr>los_nursery := address_map_clear (los_nursery space)\<rparr>
     else address_map_for_each (los_object_map space) large_object_space_sweep_one space)"

definition large_object_space_finish_gc ::
    "gc_config \<Rightarrow> large_object_space \<Rightarrow> bool \<Rightarrow> (large_object_space \<times> large_object list) result" where
  "large_object_space_finish_gc cfg space is_minor_gc =
    (let space = (if gc_has_mutator_conservative_roots cfg
                  then space\<lparr>los_extents := extents_clear (los_extents space)\<rparr> else space);
         space = large_object_space_sweep cfg space is_minor_gc;
         free_pages = los_total_pages space - los_live_pages_at_last_collection space;
         space = space\<lparr>los_pages_freed_by_last_collection := free_pages - los_free_pages space,
                       los_free_pages := free_pages\<rparr>
     in if los_synchronous_release space then large_object_space_process_quarantine space
        else Inr (space, []))"

definition large_object_space_add_to_allocation_counter :: "large_object_space \<Rightarrow> u64 \<Rightarrow> u64" where
  "large_object_space_add_to_allocation_counter space counter =
    (let pages = los_total_pages space - los_free_pages space;
         pages = pages - los_live_pages_at_last_collection space
     in counter + push_bit (los_page_size_log2 space) pages)"

section \<open>Conservative references\<close>

text \<open>Node 0 is the null pointer.\<close>

definition large_object_space_lookup_conservative_ref ::
    "(u64 \<Rightarrow> bool) \<Rightarrow> large_object_space \<Rightarrow> u64 \<Rightarrow> bool \<Rightarrow> (u64 \<times> large_object_space) result" where
  "large_object_space_lookup_conservative_ref valid_displacement space ref possibly_interior =
    (let displacement = ref AND (los_page_size space - 1);
         addr = (if possibly_interior then ref else ref - displacement)
     in if \<not> possibly_interior \<and> \<not> valid_displacement displacement then Inr (0, space)
     else result_bind
       (if ext_size (los_extents space) \<noteq> 0
        then result_bind (extents_contain_addr (los_extents space) addr) (\<lambda>start.
          Inr (if start = 0 then None
               else if possibly_interior then Some start
               else if addr \<noteq> start then None else Some addr))
        else Inr (Some addr))
       (\<lambda>a. case a of None \<Rightarrow> Inr (0, space) | Some addr \<Rightarrow>
         result_bind (large_object_space_lookup space addr) (\<lambda>n.
         if n \<noteq> 0 then Inr (n, space)
         else if possibly_interior
         then let (node, space) = large_object_tree_lookup space addr
              in Inr (case node of None \<Rightarrow> 0 | Some n \<Rightarrow> n, space)
         else Inr (n, space))))"

definition large_object_space_resolve_conservative_ref ::
    "(u64 \<Rightarrow> bool) \<Rightarrow> large_object_space \<Rightarrow> u64 \<Rightarrow> bool \<Rightarrow> (gc_ref \<times> large_object_space) result" where
  "large_object_space_resolve_conservative_ref valid_displacement space ref possibly_interior =
    result_bind (large_object_space_lookup_conservative_ref valid_displacement space ref possibly_interior)
      (\<lambda>(n, space).
        if n \<noteq> 0 \<and> node_is_live (los_node space n)
        then Inr (obj_addr (node_key (los_node space n)), space)
        else Inr (gc_ref_null, space))"

definition large_object_space_mark_conservative_ref ::
    "(u64 \<Rightarrow> bool) \<Rightarrow> large_object_space \<Rightarrow> u64 \<Rightarrow> bool \<Rightarrow> (gc_ref \<times> large_object_space) result" where
  "large_object_space_mark_conservative_ref valid_displacement space ref possibly_interior =
    result_bind (large_object_space_lookup_conservative_ref valid_displacement space ref possibly_interior)
      (\<lambda>(n, space).
        let addr = obj_addr (node_key (los_node space n)) in
        if n \<noteq> 0 \<and> node_is_live (los_node space n)
        then result_bind (large_object_space_mark space addr) (\<lambda>(marked, space).
             Inr (if marked then addr else gc_ref_null, space))
        else Inr (gc_ref_null, space))"

section \<open>Allocation\<close>

definition los_first_fit :: "large_object_space \<Rightarrow> u64 \<Rightarrow> nat \<Rightarrow> u64 option" where
  "los_first_fit space sz idx =
    List.find (\<lambda>n. \<not> obj_size (node_key (los_node space n)) < sz) (los_quarantine space ! idx)"

text \<open>The hole's node becomes live, and what is left of the hole a dead node of its own.\<close>

definition los_alloc_from_hole ::
    "gc_config \<Rightarrow> u64 \<Rightarrow> large_object_space \<Rightarrow> u64 \<Rightarrow> u64 \<Rightarrow> gc_trace_kind \<Rightarrow> u64
      \<Rightarrow> (u64 \<times> large_object_space) result" where
  "los_alloc_from_hole cfg new space npages sz trace n =
    result_bind (large_object_space_remove_from_freelist space n) (\<lambda>space.
    let ospan = node_key (los_node space n);
        space = los_set_node n ((los_node space n)\<lparr>node_value := Live large_object_nursery trace\<rparr>) space in
    result_bind
      (if obj_size ospan > sz
       then let tail = \<lparr> obj_addr = obj_addr ospan + sz, obj_size = obj_size ospan - sz \<rparr>;
                space = los_set_node n ((los_node space n)\<lparr>node_key := ospan\<lparr>obj_size := sz\<rparr>\<rparr>) space in
         result_bind (large_object_tree_insert new space tail (Dead 0)) (\<lambda>(tail_node, space).
         result_bind (address_map_add (los_object_map space)
             (obj_addr (node_key (los_node space tail_node))) tail_node) (\<lambda>m.
         Inr (large_object_space_add_to_freelist (space\<lparr>los_object_map := m\<rparr>) tail_node)))
       else Inr space)
    (\<lambda>space.
    result_bind
      (if gc_generational cfg then address_map_add (los_nursery space) (obj_addr ospan) n
       else Inr (los_nursery space))
    (\<lambda>m. Inr (obj_addr ospan, space\<lparr>los_nursery := m, los_free_pages := los_free_pages space - npages\<rparr>))))"

definition los_alloc_fresh ::
    "(u64 \<Rightarrow> u64 option) \<Rightarrow> u64 \<Rightarrow> large_object_space \<Rightarrow> u64 \<Rightarrow> u64 \<Rightarrow> gc_trace_kind
      \<Rightarrow> (u64 \<times> large_object_space) result" where
  "los_alloc_fresh acquire new space npages sz trace =
    (case acquire sz of
       None \<Rightarrow> Inr (0, space)
     | Some addr \<Rightarrow>
       result_bind (large_object_tree_insert new space \<lparr> obj_addr = addr, obj_size = sz \<rparr>
           (Live large_object_nursery trace)) (\<lambda>(n, space).
       result_bind (address_map_add (los_object_map space) addr n) (\<lambda>m.
       Inr (addr, space\<lparr>los_object_map := m, los_total_pages := los_total_pages space + npages\<rparr>))))"

definition large_object_space_alloc ::
    "gc_config \<Rightarrow> (u64 \<Rightarrow> u64 option) \<Rightarrow> u64 \<Rightarrow> large_object_space \<Rightarrow> u64 \<Rightarrow> gc_trace_kind
      \<Rightarrow> (u64 \<times> large_object_space) result" where
  "large_object_space_alloc cfg acquire new space npages trace =
    (let sz = push_bit (los_page_size_log2 space) npages;
         idx = break_index (\<lambda>idx. los_first_fit space sz idx \<noteq> None)
                 (large_object_freelist_size_class sz) large_object_freelist_num_size_classes
     in if idx < large_object_freelist_num_size_classes
        then los_alloc_from_hole cfg new space npages sz trace (the (los_first_fit space sz idx))
        else los_alloc_fresh acquire new space npages sz trace)"

definition large_object_space_init :: "gc_config \<Rightarrow> u64 \<Rightarrow> nat \<Rightarrow> bool \<Rightarrow> large_object_space" where
  "large_object_space_init cfg page_size page_size_log2 has_thread =
    \<lparr> los_marked = large_object_mark_0, los_nodes = Map.empty, los_object_tree = Leaf,
      los_object_map = address_map_init, los_nursery = address_map_init,
      los_quarantine = replicate large_object_freelist_num_size_classes [],
      los_remembered_edges = address_set_init,
      los_extents = (if gc_has_mutator_conservative_roots cfg then extents_allocate 64
                     else extents_allocate 0),
      los_page_size = page_size, los_page_size_log2 = page_size_log2,
      los_total_pages = 0, los_free_pages = 0, los_live_pages_at_last_collection = 0,
      los_pages_freed_by_last_collection = 0, los_synchronous_release = \<not> has_thread \<rparr>"

end
