(* ===== verification/Roots.thy ===== *)
theory Roots
  imports Extents
begin

text \<open>
  The roots of a trace: \<open>src/root.h\<close>, the edges of \<open>api/gc-edge.h\<close>, and the list of roots of
  \<open>src/root-worklist.h\<close> that a trace first fills and then hands out to its workers. Heaps, mutators
  and ephemerons appear in a root by address; an edge buffer is of a type \<open>'b\<close> left open.
\<close>

section \<open>Edges and roots\<close>

text \<open>An edge is the address of a field; the fields are a memory from addresses to references.\<close>

type_synonym gc_edge = u64

definition gc_edge_ref :: "(u64 \<Rightarrow> gc_ref) \<Rightarrow> gc_edge \<Rightarrow> gc_ref" where
  "gc_edge_ref mem edge = mem edge"

definition gc_edge_update :: "(u64 \<Rightarrow> gc_ref) \<Rightarrow> gc_edge \<Rightarrow> gc_ref \<Rightarrow> (u64 \<Rightarrow> gc_ref)" where
  "gc_edge_update mem edge ref = mem(edge := ref)"

datatype 'b gc_root =
    Root_none
  | Root_heap u64
  | Root_mutator u64
  | Root_conservative_edges extent_range
  | Root_conservative_possibly_interior_edges extent_range
  | Root_resolved_ephemerons u64
  | Root_edge gc_edge
  | Root_edge_buffer 'b
  | Root_heap_pinned_roots u64
  | Root_mutator_pinned_roots u64

definition gc_root_conservative_edges :: "u64 \<Rightarrow> u64 \<Rightarrow> bool \<Rightarrow> 'b gc_root" where
  "gc_root_conservative_edges lo hi possibly_interior =
    (let r = \<lparr> lo_addr = lo, hi_addr = hi \<rparr>
     in if possibly_interior then Root_conservative_possibly_interior_edges r
        else Root_conservative_edges r)"

definition gc_root_edge_buffer :: "'b \<Rightarrow> 'b gc_root" where
  "gc_root_edge_buffer buf = Root_edge_buffer buf"

section \<open>The worklist of roots\<close>

text \<open>
  The counters are natural numbers: \<open>read\<close> counts the pops of one trace, which stay far below
  \<open>2 ^ 64\<close>, and \<open>realloc\<close> crashes long before \<open>size\<close> would wrap. The slots of the buffer that have not
  been written hold \<open>Root_none\<close> in the model; no operation reads one.
\<close>

record 'b root_worklist =
  rw_size :: nat
  rw_read :: nat
  rw_write :: nat
  rw_buf :: "'b gc_root list"

definition root_worklist_alloc :: "'b root_worklist \<Rightarrow> 'b root_worklist" where
  "root_worklist_alloc q =
    q\<lparr>rw_buf := take (rw_size q) (rw_buf q) @ replicate (rw_size q - length (rw_buf q)) Root_none\<rparr>"

definition root_worklist_init :: "'b root_worklist" where
  "root_worklist_init =
    root_worklist_alloc \<lparr> rw_size = 16, rw_read = 0, rw_write = 0, rw_buf = [] \<rparr>"

definition root_worklist_push :: "'b root_worklist \<Rightarrow> 'b gc_root \<Rightarrow> 'b root_worklist" where
  "root_worklist_push q root =
    (let q = if rw_write q = rw_size q
             then root_worklist_alloc (q\<lparr>rw_size := rw_size q * 2\<rparr>) else q
     in q\<lparr>rw_buf := (rw_buf q)[rw_write q := root], rw_write := rw_write q + 1\<rparr>)"

definition root_worklist_size :: "'b root_worklist \<Rightarrow> nat" where
  "root_worklist_size q = rw_write q - rw_read q"

definition root_worklist_pop :: "'b root_worklist \<Rightarrow> 'b gc_root \<times> 'b root_worklist" where
  "root_worklist_pop q =
    (let idx = rw_read q; q = q\<lparr>rw_read := idx + 1\<rparr>
     in (if idx < rw_write q then rw_buf q ! idx else Root_none, q))"

definition root_worklist_reset :: "'b root_worklist \<Rightarrow> 'b root_worklist" where
  "root_worklist_reset q = q\<lparr>rw_read := 0, rw_write := 0\<rparr>"

subsection \<open>Two phases\<close>

definition rw_wf :: "'b root_worklist \<Rightarrow> bool" where
  "rw_wf q \<longleftrightarrow> length (rw_buf q) = rw_size q \<and> rw_write q \<le> rw_size q \<and> 0 < rw_size q"

definition rw_roots :: "'b root_worklist \<Rightarrow> 'b gc_root list" where
  "rw_roots q = take (rw_write q) (rw_buf q)"

lemma root_worklist_init_wf: "rw_wf root_worklist_init" "rw_roots root_worklist_init = []"
  "rw_read root_worklist_init = 0"
  by (simp_all add: rw_wf_def rw_roots_def root_worklist_init_def root_worklist_alloc_def)

lemma root_worklist_reset_wf:
  assumes "rw_wf q"
  shows "rw_wf (root_worklist_reset q)" "rw_roots (root_worklist_reset q) = []"
    "rw_read (root_worklist_reset q) = 0"
  using assms by (simp_all add: rw_wf_def rw_roots_def root_worklist_reset_def)

lemma root_worklist_push_wf:
  assumes "rw_wf q"
  shows "rw_wf (root_worklist_push q r)" "rw_roots (root_worklist_push q r) = rw_roots q @ [r]"
    "rw_read (root_worklist_push q r) = rw_read q"
proof -
  define p where "p = (if rw_write q = rw_size q
    then root_worklist_alloc (q\<lparr>rw_size := rw_size q * 2\<rparr>) else q)"
  have p: "length (rw_buf p) = rw_size p" "rw_write p < rw_size p" "rw_roots p = rw_roots q"
    "rw_read p = rw_read q"
    using assms by (auto simp: p_def rw_wf_def root_worklist_alloc_def rw_roots_def)
  have eq: "root_worklist_push q r = p\<lparr>rw_buf := (rw_buf p)[rw_write p := r], rw_write := rw_write p + 1\<rparr>"
    by (simp add: root_worklist_push_def p_def Let_def)
  show "rw_wf (root_worklist_push q r)" "rw_roots (root_worklist_push q r) = rw_roots q @ [r]"
    "rw_read (root_worklist_push q r) = rw_read q"
    using p by (simp_all add: eq rw_wf_def rw_roots_def take_Suc_conv_app_nth flip: p(3))
qed

lemma root_worklist_fill:
  assumes "rw_wf q"
  shows "rw_wf (foldl root_worklist_push q rs)" "rw_roots (foldl root_worklist_push q rs) = rw_roots q @ rs"
    "rw_read (foldl root_worklist_push q rs) = rw_read q"
  using assms
proof (induction rs arbitrary: q)
  case (Cons r rs)
  { case 1 then show ?case using Cons.IH(1)[OF root_worklist_push_wf(1)[OF 1]] root_worklist_push_wf[OF 1, of r] by simp }
  { case 2 then show ?case using Cons.IH(2)[OF root_worklist_push_wf(1)[OF 2]] root_worklist_push_wf[OF 2, of r] by simp }
  { case 3 then show ?case using Cons.IH(3)[OF root_worklist_push_wf(1)[OF 3]] root_worklist_push_wf[OF 3, of r] by simp }
qed simp_all

text \<open>The workers' pops are atomic, so a run of the second phase is a sequence of them.\<close>

fun root_worklist_pops :: "nat \<Rightarrow> 'b root_worklist \<Rightarrow> 'b gc_root list \<times> 'b root_worklist" where
  "root_worklist_pops 0 q = ([], q)"
| "root_worklist_pops (Suc n) q =
    (let (r, q) = root_worklist_pop q; (rs, q) = root_worklist_pops n q in (r # rs, q))"

lemma root_worklist_pops_eq:
  assumes "rw_wf q"
  shows "fst (root_worklist_pops n q) =
    map (\<lambda>i. if i < length (rw_roots q) then rw_roots q ! i else Root_none) [rw_read q..<rw_read q + n]"
  using assms
proof (induction n arbitrary: q)
  case (Suc n)
  define p where "p = q\<lparr>rw_read := rw_read q + 1\<rparr>"
  have p: "rw_wf p" "rw_roots p = rw_roots q" "rw_read p = rw_read q + 1"
    using Suc.prems by (simp_all add: p_def rw_wf_def rw_roots_def)
  have "root_worklist_pop q = (if rw_read q < rw_write q then rw_buf q ! rw_read q else Root_none, p)"
    by (simp add: root_worklist_pop_def p_def Let_def)
  moreover have "length (rw_roots q) = rw_write q" using Suc.prems by (simp add: rw_roots_def rw_wf_def)
  ultimately have "fst (root_worklist_pops (Suc n) q)
    = (if rw_read q < length (rw_roots q) then rw_roots q ! rw_read q else Root_none)
      # fst (root_worklist_pops n p)"
    by (simp add: split_beta Let_def rw_roots_def)
  also have "\<dots> = map (\<lambda>i. if i < length (rw_roots q) then rw_roots q ! i else Root_none)
      (rw_read q # [Suc (rw_read q)..<Suc (rw_read q) + n])"
    using Suc.IH[OF p(1)] p(2,3) by simp
  also have "rw_read q # [Suc (rw_read q)..<Suc (rw_read q) + n] = [rw_read q..<rw_read q + Suc n]"
    by (subst (2) upt_conv_Cons) auto
  finally show ?case .
qed simp

text \<open>A trace that resets the worklist of roots, adds roots to it and then takes roots from it,
  by any number of workers, gets the roots it added, each once and in the order it added them, and
  after the last of them \<open>GC_ROOT_KIND_NONE\<close> for ever.\<close>

theorem root_worklist_correct:
  assumes "rw_wf q"
  shows "fst (root_worklist_pops n (foldl root_worklist_push (root_worklist_reset q) rs))
    = take n rs @ replicate (n - length rs) Root_none"
proof -
  note r = root_worklist_reset_wf[OF assms]
  note f = root_worklist_fill[OF r(1), of rs]
  show ?thesis unfolding root_worklist_pops_eq[OF f(1)] f(2,3) r(2,3)
    by (intro nth_equalityI) (auto simp: nth_append)
qed

theorem root_worklist_correct_witness:
  "fst (root_worklist_pops 3 (foldl root_worklist_push (root_worklist_reset root_worklist_init)
      [Root_edge 8, gc_root_edge_buffer True])) = [Root_edge 8, Root_edge_buffer True, Root_none]"
  using root_worklist_correct[OF root_worklist_init_wf(1), of 3 "[Root_edge 8, gc_root_edge_buffer True]"]
  by (simp add: gc_root_edge_buffer_def numeral_eq_Suc)

end
