(* ===== verification/FieldSet.thy ===== *)
theory FieldSet
  imports Roots "HOL-Library.Multiset"
begin

text \<open>
  The remembered set of \<open>src/field-set.h\<close>: edges are logged into buffers of 510, which the writers of
  the mutators acquire from the set and give back to it, and which a collection takes as roots,
  filters and recycles. A buffer belongs to one list or to one writer at a time, so the lists hold the
  buffers themselves, the head first. An allocation of a buffer is taken to succeed. The slots of a
  buffer that have not been logged hold 0.
\<close>

section \<open>Buffers and lists of buffers\<close>

definition gc_edge_buffer_capacity :: nat where
  "gc_edge_buffer_capacity = 510"

record gc_edge_buffer =
  eb_size :: nat
  eb_edges :: "gc_edge list"

definition gc_edge_buffer_list_push :: "gc_edge_buffer list \<Rightarrow> gc_edge_buffer \<Rightarrow> gc_edge_buffer list" where
  "gc_edge_buffer_list_push list buf = buf # list"

definition gc_edge_buffer_list_pop ::
    "gc_edge_buffer list \<Rightarrow> gc_edge_buffer option \<times> gc_edge_buffer list" where
  "gc_edge_buffer_list_pop list =
    (case list of [] \<Rightarrow> (None, list) | head # next \<Rightarrow> (Some head, next))"

definition gc_edge_buffer_stack_push :: "gc_edge_buffer list \<Rightarrow> gc_edge_buffer \<Rightarrow> gc_edge_buffer list" where
  "gc_edge_buffer_stack_push stack buf = buf # stack"

definition gc_edge_buffer_stack_pop ::
    "gc_edge_buffer list \<Rightarrow> gc_edge_buffer option \<times> gc_edge_buffer list" where
  "gc_edge_buffer_stack_pop stack =
    (case stack of [] \<Rightarrow> (None, stack) | head # next \<Rightarrow> (Some head, next))"

section \<open>The set\<close>

record gc_field_set =
  fs_full :: "gc_edge_buffer list"
  fs_partly_full :: "gc_edge_buffer list"
  fs_empty :: "gc_edge_buffer list"

definition gc_field_set_init :: gc_field_set where
  "gc_field_set_init = \<lparr> fs_full = [], fs_partly_full = [], fs_empty = [] \<rparr>"

definition gc_field_set_acquire_buffer :: "gc_field_set \<Rightarrow> gc_edge_buffer \<times> gc_field_set" where
  "gc_field_set_acquire_buffer s =
    (case gc_edge_buffer_list_pop (fs_empty s) of
       (Some ret, rest) \<Rightarrow> (ret, s\<lparr>fs_empty := rest\<rparr>)
     | (None, _) \<Rightarrow>
       (case gc_edge_buffer_stack_pop (fs_partly_full s) of
          (Some ret, rest) \<Rightarrow> (ret, s\<lparr>fs_partly_full := rest\<rparr>)
        | (None, _) \<Rightarrow> (\<lparr> eb_size = 0, eb_edges = replicate gc_edge_buffer_capacity 0 \<rparr>, s)))"

definition gc_field_set_release_buffer :: "gc_field_set \<Rightarrow> gc_edge_buffer \<Rightarrow> gc_field_set" where
  "gc_field_set_release_buffer s buf =
    (if eb_size buf = gc_edge_buffer_capacity
     then s\<lparr>fs_full := gc_edge_buffer_list_push (fs_full s) buf\<rparr>
     else s\<lparr>fs_partly_full := gc_edge_buffer_stack_push (fs_partly_full s) buf\<rparr>)"

text \<open>\<open>while ((buf = gc_edge_buffer_stack_pop (...))) add (buf);\<close> and the same of a list.\<close>

function stack_pop_all ::
    "(gc_edge_buffer \<Rightarrow> 't \<Rightarrow> 't) \<Rightarrow> gc_edge_buffer list \<Rightarrow> 't \<Rightarrow> gc_edge_buffer list \<times> 't" where
  "stack_pop_all add l t =
    (case gc_edge_buffer_stack_pop l of
       (None, l) \<Rightarrow> (l, t) | (Some buf, l) \<Rightarrow> stack_pop_all add l (add buf t))"
  by auto
termination
  by (relation "measure (\<lambda>(add, l, t). length l)")
    (auto simp: gc_edge_buffer_stack_pop_def split: list.splits)

function list_pop_all ::
    "(gc_edge_buffer \<Rightarrow> 't \<Rightarrow> 't) \<Rightarrow> gc_edge_buffer list \<Rightarrow> 't \<Rightarrow> gc_edge_buffer list \<times> 't" where
  "list_pop_all add l t =
    (case gc_edge_buffer_list_pop l of
       (None, l) \<Rightarrow> (l, t) | (Some buf, l) \<Rightarrow> list_pop_all add l (add buf t))"
  by auto
termination
  by (relation "measure (\<lambda>(add, l, t). length l)")
    (auto simp: gc_edge_buffer_list_pop_def split: list.splits)

declare stack_pop_all.simps [simp del] list_pop_all.simps [simp del]

definition gc_field_set_add_roots ::
    "('t \<Rightarrow> gc_edge_buffer gc_root \<Rightarrow> 't) \<Rightarrow> gc_field_set \<Rightarrow> 't \<Rightarrow> gc_field_set \<times> 't" where
  "gc_field_set_add_roots add_root s tracer =
    (let add = (\<lambda>buf t. add_root t (gc_root_edge_buffer buf));
         (partly_full, tracer) = stack_pop_all add (fs_partly_full s) tracer;
         (full, tracer) = list_pop_all add (fs_full s) tracer
     in (s\<lparr>fs_partly_full := partly_full, fs_full := full\<rparr>, tracer))"

text \<open>Clearing: the buffers of both lists in turn, each edge forgotten when there is a function for it.\<close>

fun gc_field_set_clear_list ::
    "(gc_edge \<Rightarrow> 'h \<Rightarrow> 'h) option \<Rightarrow> gc_edge_buffer list \<Rightarrow> gc_field_set \<times> 'h \<Rightarrow> gc_field_set \<times> 'h" where
  "gc_field_set_clear_list forget_edge [] (s, heap) = (s, heap)"
| "gc_field_set_clear_list forget_edge (buf # next) (s, heap) =
    (let heap = (case forget_edge of
           None \<Rightarrow> heap
         | Some f \<Rightarrow> fold (\<lambda>i. f (eb_edges buf ! i)) [0..<eb_size buf] heap);
         buf = buf\<lparr>eb_size := 0\<rparr>
     in gc_field_set_clear_list forget_edge next
          (s\<lparr>fs_empty := gc_edge_buffer_list_push (fs_empty s) buf\<rparr>, heap))"

definition gc_field_set_clear ::
    "gc_field_set \<Rightarrow> (gc_edge \<Rightarrow> 'h \<Rightarrow> 'h) option \<Rightarrow> 'h \<Rightarrow> gc_field_set \<times> 'h" where
  "gc_field_set_clear s forget_edge heap =
    (let partly_full = fs_partly_full s; full = fs_full s;
         s = s\<lparr>fs_partly_full := [], fs_full := []\<rparr>
     in gc_field_set_clear_list forget_edge full (gc_field_set_clear_list forget_edge partly_full (s, heap)))"

text \<open>The loop of a visit, which drops an edge by moving the last one over it.\<close>

function visit_edge_buffer_loop ::
    "(gc_edge \<Rightarrow> 'd \<Rightarrow> bool \<times> 'd) \<Rightarrow> gc_edge_buffer \<Rightarrow> nat \<Rightarrow> 'd \<Rightarrow> gc_edge_buffer \<times> 'd" where
  "visit_edge_buffer_loop visit buf i d =
    (if i < eb_size buf
     then let (keep, d) = visit (eb_edges buf ! i) d in
       if keep then visit_edge_buffer_loop visit buf (i + 1) d
       else let n = eb_size buf - 1 in
         visit_edge_buffer_loop visit
           (buf\<lparr>eb_size := n, eb_edges := (eb_edges buf)[i := eb_edges buf ! n]\<rparr>) i d
     else (buf, d))"
  by auto
termination by (relation "measure (\<lambda>(visit, buf, i, d). eb_size buf - i)") auto

declare visit_edge_buffer_loop.simps [simp del]

definition gc_field_set_visit_edge_buffer ::
    "gc_field_set \<Rightarrow> gc_edge_buffer \<Rightarrow> (gc_edge \<Rightarrow> 'd \<Rightarrow> bool \<times> 'd) \<Rightarrow> 'd \<Rightarrow> gc_field_set \<times> 'd" where
  "gc_field_set_visit_edge_buffer s buf visit d =
    (let (buf, d) = visit_edge_buffer_loop visit buf 0 d in (gc_field_set_release_buffer s buf, d))"

section \<open>Writers\<close>

text \<open>A writer is the buffer it holds, if any; its set is passed along.\<close>

type_synonym gc_field_set_writer = "gc_edge_buffer option"

definition gc_field_set_writer_init :: gc_field_set_writer where
  "gc_field_set_writer_init = None"

definition gc_field_set_writer_release_buffer ::
    "gc_field_set_writer \<Rightarrow> gc_field_set \<Rightarrow> gc_field_set_writer \<times> gc_field_set" where
  "gc_field_set_writer_release_buffer writer s =
    (case writer of Some buf \<Rightarrow> (None, gc_field_set_release_buffer s buf) | None \<Rightarrow> (None, s))"

definition gc_field_set_writer_add_edge ::
    "gc_field_set_writer \<Rightarrow> gc_field_set \<Rightarrow> gc_edge \<Rightarrow> (gc_field_set_writer \<times> gc_field_set) result" where
  "gc_field_set_writer_add_edge writer s edge =
    (let (buf, s) = (case writer of Some buf \<Rightarrow> (buf, s) | None \<Rightarrow> gc_field_set_acquire_buffer s)
     in result_bind (gc_assert (eb_size buf < gc_edge_buffer_capacity)) (\<lambda>_.
       let buf = buf\<lparr>eb_edges := (eb_edges buf)[eb_size buf := edge], eb_size := eb_size buf + 1\<rparr>
       in if eb_size buf = gc_edge_buffer_capacity
          then Inr (None, s\<lparr>fs_full := gc_edge_buffer_list_push (fs_full s) buf\<rparr>)
          else Inr (Some buf, s)))"

section \<open>What the set remembers\<close>

definition eb_wf :: "gc_edge_buffer \<Rightarrow> bool" where
  "eb_wf b \<longleftrightarrow> length (eb_edges b) = gc_edge_buffer_capacity \<and> eb_size b \<le> gc_edge_buffer_capacity"

definition eb_log :: "gc_edge_buffer \<Rightarrow> gc_edge list" where
  "eb_log b = take (eb_size b) (eb_edges b)"

definition logged :: "gc_edge_buffer list \<Rightarrow> gc_edge multiset" where
  "logged bs = mset (concat (map eb_log bs))"

definition fs_wf :: "gc_field_set \<Rightarrow> bool" where
  "fs_wf s \<longleftrightarrow> (\<forall>b \<in> set (fs_full s). eb_wf b \<and> eb_size b = gc_edge_buffer_capacity)
    \<and> (\<forall>b \<in> set (fs_partly_full s). eb_wf b \<and> eb_size b < gc_edge_buffer_capacity)
    \<and> (\<forall>b \<in> set (fs_empty s). eb_wf b \<and> eb_size b = 0)"

definition fs_edges :: "gc_field_set \<Rightarrow> gc_edge multiset" where
  "fs_edges s = logged (fs_full s) + logged (fs_partly_full s)"

definition writer_wf :: "gc_field_set_writer \<Rightarrow> bool" where
  "writer_wf w \<longleftrightarrow> (case w of None \<Rightarrow> True | Some b \<Rightarrow> eb_wf b \<and> eb_size b < gc_edge_buffer_capacity)"

definition writer_edges :: "gc_field_set_writer \<Rightarrow> gc_edge multiset" where
  "writer_edges w = (case w of None \<Rightarrow> {#} | Some b \<Rightarrow> mset (eb_log b))"

lemma logged_simps [simp]:
  "logged [] = {#}" "logged (b # bs) = mset (eb_log b) + logged bs" "logged (bs @ cs) = logged bs + logged cs"
  by (simp_all add: logged_def)

lemma logged_rev [simp]: "logged (rev bs) = logged bs"
  by (induction bs) (simp_all add: add.commute)

lemma stack_pop_all_eq: "stack_pop_all add l t = ([], fold add l t)"
  by (induction l arbitrary: t) (simp_all add: stack_pop_all.simps gc_edge_buffer_stack_pop_def)

lemma list_pop_all_eq: "list_pop_all add l t = ([], fold add l t)"
  by (induction l arbitrary: t) (simp_all add: list_pop_all.simps gc_edge_buffer_list_pop_def)

lemma add_roots_eq:
  "gc_field_set_add_roots add_root s t = (s\<lparr>fs_partly_full := [], fs_full := []\<rparr>,
    foldl add_root t (map Root_edge_buffer (fs_partly_full s @ fs_full s)))"
  by (simp add: gc_field_set_add_roots_def stack_pop_all_eq list_pop_all_eq Let_def
      gc_root_edge_buffer_def foldl_conv_fold fold_map comp_def)

lemma field_set_acquire_wf:
  assumes "fs_wf s" "gc_field_set_acquire_buffer s = (b, s')"
  shows "fs_wf s'" "eb_wf b" "eb_size b < gc_edge_buffer_capacity"
    "fs_edges s = mset (eb_log b) + fs_edges s'"
  using assms
  by (auto simp: gc_field_set_acquire_buffer_def gc_edge_buffer_list_pop_def gc_edge_buffer_stack_pop_def
      fs_wf_def fs_edges_def eb_wf_def eb_log_def gc_edge_buffer_capacity_def split: list.splits)

lemma field_set_release_wf:
  assumes "fs_wf s" "eb_wf b"
  shows "fs_wf (gc_field_set_release_buffer s b)"
    "fs_edges (gc_field_set_release_buffer s b) = fs_edges s + mset (eb_log b)"
  using assms
  by (auto simp: gc_field_set_release_buffer_def gc_edge_buffer_list_push_def gc_edge_buffer_stack_push_def
      fs_wf_def fs_edges_def eb_wf_def)

lemma writer_release_wf:
  assumes "fs_wf s" "writer_wf w" "gc_field_set_writer_release_buffer w s = (w', s')"
  shows "fs_wf s'" "w' = None" "fs_edges s' = fs_edges s + writer_edges w"
  using assms field_set_release_wf
  by (auto simp: gc_field_set_writer_release_buffer_def writer_wf_def writer_edges_def split: option.splits)

lemma eb_log_snoc:
  fixes e :: gc_edge
  assumes "eb_wf b" "eb_size b < gc_edge_buffer_capacity"
  defines "b' \<equiv> b\<lparr>eb_edges := (eb_edges b)[eb_size b := e], eb_size := eb_size b + 1\<rparr>"
  shows "eb_wf b'" "eb_log b' = eb_log b @ [e]"
  using assms by (auto simp: eb_wf_def eb_log_def take_Suc_conv_app_nth)

lemma writer_add_edge_wf:
  assumes "fs_wf s" "writer_wf w"
  obtains w' s' where "gc_field_set_writer_add_edge w s e = Inr (w', s')" "fs_wf s'" "writer_wf w'"
    "fs_edges s' + writer_edges w' = fs_edges s + writer_edges w + {#e#}"
proof -
  obtain b s1 where b: "(case w of Some buf \<Rightarrow> (buf, s) | None \<Rightarrow> gc_field_set_acquire_buffer s) = (b, s1)"
    by (rule prod.exhaust)
  have wf: "fs_wf s1" "eb_wf b" "eb_size b < gc_edge_buffer_capacity"
    "fs_edges s + writer_edges w = mset (eb_log b) + fs_edges s1"
    using assms b field_set_acquire_wf[OF assms(1), of b s1]
    by (auto simp: writer_wf_def writer_edges_def split: option.splits)
  let ?b = "b\<lparr>eb_edges := (eb_edges b)[eb_size b := e], eb_size := eb_size b + 1\<rparr>"
  note snoc = eb_log_snoc[OF wf(2,3), of e]
  show thesis
  proof (cases "eb_size b + 1 = gc_edge_buffer_capacity")
    case True
    then show thesis
      using that[of None "s1\<lparr>fs_full := gc_edge_buffer_list_push (fs_full s1) ?b\<rparr>"] b wf snoc
      by (simp add: gc_field_set_writer_add_edge_def writer_wf_def writer_edges_def fs_wf_def fs_edges_def
          gc_edge_buffer_list_push_def)
  next
    case False
    then show thesis using that[of "Some ?b" s1] b wf snoc
      by (simp add: gc_field_set_writer_add_edge_def writer_wf_def writer_edges_def Let_def)
  qed
qed

text \<open>Clearing forgets every remembered edge once and keeps every buffer, emptied.\<close>

lemma clear_list_eq:
  "gc_field_set_clear_list (Some f) bs (s, h) =
    (s\<lparr>fs_empty := rev (map (\<lambda>b. b\<lparr>eb_size := 0\<rparr>) bs) @ fs_empty s\<rparr>, fold f (concat (map eb_log bs)) h)"
  if "\<forall>b \<in> set bs. eb_wf b"
  using that
proof (induction bs arbitrary: s h)
  case (Cons b bs)
  have "fold (\<lambda>i. f (eb_edges b ! i)) [0..<eb_size b] h = fold f (eb_log b) h"
    unfolding eb_log_def by (rule fold_nth) (use Cons.prems in \<open>auto simp: eb_wf_def\<close>)
  then show ?case using Cons by (simp add: gc_edge_buffer_list_push_def Let_def)
qed simp

lemma clear_eq:
  assumes "fs_wf s" "gc_field_set_clear s (Some f) h = (s', h')"
  shows "fs_wf s'" "fs_edges s' = {#}" "h' = fold f (concat (map eb_log (fs_partly_full s @ fs_full s))) h"
    "length (fs_empty s') = length (fs_empty s) + length (fs_partly_full s) + length (fs_full s)"
proof -
  have "\<forall>b \<in> set (fs_partly_full s). eb_wf b" "\<forall>b \<in> set (fs_full s). eb_wf b"
    using assms(1) by (auto simp: fs_wf_def)
  note eq = assms(2)[unfolded gc_field_set_clear_def Let_def clear_list_eq[OF this(1)] clear_list_eq[OF this(2)]]
  show "fs_wf s'" "fs_edges s' = {#}" "h' = fold f (concat (map eb_log (fs_partly_full s @ fs_full s))) h"
    "length (fs_empty s') = length (fs_empty s) + length (fs_partly_full s) + length (fs_full s)"
    using eq assms(1) by (auto simp: fs_wf_def fs_edges_def eb_wf_def)
qed

section \<open>Visiting a buffer\<close>

text \<open>A visit of the edges of a list in order, and the edges it kept.\<close>

fun visit_all :: "(gc_edge \<Rightarrow> 'd \<Rightarrow> bool \<times> 'd) \<Rightarrow> gc_edge list \<Rightarrow> 'd \<Rightarrow> gc_edge list \<times> 'd" where
  "visit_all visit [] d = ([], d)"
| "visit_all visit (x # xs) d =
    (let (keep, d) = visit x d; (ks, d) = visit_all visit xs d in (if keep then x # ks else ks, d))"

lemma eb_log_swap_remove:
  assumes "eb_wf b" "i < eb_size b"
  defines "n \<equiv> eb_size b - 1"
  defines "b' \<equiv> b\<lparr>eb_size := n, eb_edges := (eb_edges b)[i := eb_edges b ! n]\<rparr>"
  shows "eb_wf b'" "take i (eb_log b') = take i (eb_log b)"
    "mset (drop i (eb_log b)) = {#eb_edges b ! i#} + mset (drop i (eb_log b'))"
proof -
  let ?xs = "eb_edges b"
  have len: "i < length ?xs" "n < length ?xs" "i \<le> n" "eb_size b = Suc n" using assms(1,2) by (auto simp: n_def eb_wf_def)
  show "eb_wf b'" using assms(1) by (auto simp: b'_def eb_wf_def n_def)
  show "take i (eb_log b') = take i (eb_log b)"
    using len by (simp add: b'_def eb_log_def min_def)
  show "mset (drop i (eb_log b)) = {#?xs ! i#} + mset (drop i (eb_log b'))"
  proof (cases "i = n")
    case True
    then show ?thesis using len by (simp add: b'_def eb_log_def take_Suc_conv_app_nth)
  next
    case False
    then have lt: "i < n" using len by simp
    have b: "drop i (eb_log b) = ?xs ! i # drop (Suc i) (take n ?xs) @ [?xs ! n]"
      using len lt by (simp add: eb_log_def take_Suc_conv_app_nth Cons_nth_drop_Suc[symmetric])
    have "drop i (eb_log b') = ?xs ! n # drop (Suc i) (take n ?xs)"
      using len lt by (simp add: b'_def eb_log_def take_update_swap drop_update_cancel Cons_nth_drop_Suc[symmetric])
    then show ?thesis using b by simp
  qed
qed

lemma visit_loop_correct:
  assumes "eb_wf b" "i \<le> eb_size b" "visit_edge_buffer_loop visit b i d = (b', d')"
  shows "eb_wf b' \<and> eb_size b' \<le> eb_size b \<and> (\<exists>xs. mset xs = mset (drop i (eb_log b))
    \<and> snd (visit_all visit xs d) = d'
    \<and> mset (eb_log b') = mset (take i (eb_log b)) + mset (fst (visit_all visit xs d)))"
  using assms
proof (induction visit b i d arbitrary: b' d' rule: visit_edge_buffer_loop.induct)
  case (1 visit b i d)
  have len: "length (eb_log b) = eb_size b" using 1(3) by (simp add: eb_log_def eb_wf_def)
  show ?case
  proof (cases "i < eb_size b")
    case False
    then have "visit_edge_buffer_loop visit b i d = (b, d)" by (subst visit_edge_buffer_loop.simps) simp
    then have "b' = b" "d' = d" "i = eb_size b" using False 1(4,5) by simp_all
    then show ?thesis using 1(3) len by (intro conjI exI[of _ "[]"]) auto
  next
    case i: True
    obtain k e where v: "visit (eb_edges b ! i) d = (k, e)" by (rule prod.exhaust)
    have nth: "eb_edges b ! i = eb_log b ! i" using i by (simp add: eb_log_def)
    show ?thesis
    proof (cases k)
      case True
      then have "visit_edge_buffer_loop visit b (i + 1) e = (b', d')"
        using 1(5) i v by (simp add: visit_edge_buffer_loop.simps[of visit b i d])
      then obtain xs where xs: "eb_wf b'" "eb_size b' \<le> eb_size b" "mset xs = mset (drop (i + 1) (eb_log b))"
        "snd (visit_all visit xs e) = d'"
        "mset (eb_log b') = mset (take (i + 1) (eb_log b)) + mset (fst (visit_all visit xs e))"
        using 1(1)[OF i refl v[symmetric] True 1(3), of b' d'] i by auto
      have "visit_all visit (eb_edges b ! i # xs) d = (eb_edges b ! i # fst (visit_all visit xs e), d')"
        using v True xs(4) by (simp add: split_beta Let_def)
      moreover have "mset (eb_edges b ! i # xs) = mset (drop i (eb_log b))"
        using xs(3) i len nth by (simp add: Cons_nth_drop_Suc[symmetric])
      moreover have "mset (eb_log b') = mset (take i (eb_log b)) + mset (eb_edges b ! i # fst (visit_all visit xs e))"
        using xs(5) i len nth by (simp add: take_Suc_conv_app_nth)
      ultimately show ?thesis using xs(1,2)
        by (intro conjI exI[of _ "eb_edges b ! i # xs"]) simp_all
    next
      case False
      define c where "c = b\<lparr>eb_size := eb_size b - 1, eb_edges := (eb_edges b)[i := eb_edges b ! (eb_size b - 1)]\<rparr>"
      note c = eb_log_swap_remove[OF 1(3) i, folded c_def]
      have ih: "visit_edge_buffer_loop visit c i e = (b', d')"
        using 1(5) i v False by (simp add: visit_edge_buffer_loop.simps[of visit b i d] c_def Let_def)
      have "i \<le> eb_size c" using i by (simp add: c_def)
      from 1(2)[OF i refl v[symmetric] False refl, folded c_def, OF c(1) this ih]
      obtain xs where xs: "eb_wf b'" "eb_size b' \<le> eb_size c" "mset xs = mset (drop i (eb_log c))"
        "snd (visit_all visit xs e) = d'"
        "mset (eb_log b') = mset (take i (eb_log c)) + mset (fst (visit_all visit xs e))"
        by auto
      have "visit_all visit (eb_edges b ! i # xs) d = (fst (visit_all visit xs e), d')"
        using v False xs(4) by (simp add: split_beta Let_def prod_eq_iff)
      moreover have "mset (eb_edges b ! i # xs) = mset (drop i (eb_log b))" using xs(3) c(3) by simp
      ultimately show ?thesis using xs(1,2,5) c(2)
        by (intro conjI exI[of _ "eb_edges b ! i # xs"]) (simp_all add: c_def)
    qed
  qed
qed

text \<open>C36: Visiting an edge buffer, in whatever state the visitor keeps, calls the visitor once on each
  edge of the buffer; the edges it chose to keep, and only those, are then remembered by the set in
  addition to what the set remembered before.\<close>

theorem field_set_visit_edge_buffer_correct:
  assumes "fs_wf s" "eb_wf b" "gc_field_set_visit_edge_buffer s b visit d = (s', d')"
  shows "\<exists>xs. mset xs = mset (eb_log b) \<and> fs_wf s' \<and> d' = snd (visit_all visit xs d)
    \<and> fs_edges s' = fs_edges s + mset (fst (visit_all visit xs d))"
proof -
  obtain b' where v: "visit_edge_buffer_loop visit b 0 d = (b', d')" "s' = gc_field_set_release_buffer s b'"
    using assms(3) by (auto simp: gc_field_set_visit_edge_buffer_def split_beta Let_def prod_eq_iff)
  then show ?thesis
    using visit_loop_correct[OF assms(2) _ v(1)] field_set_release_wf[OF assms(1), of b'] by auto
qed

definition four_edges :: gc_edge_buffer where
  "four_edges = \<lparr> eb_size = 4, eb_edges = [8, 16, 24, 32] @ replicate 506 0 \<rparr>"

lemma four_edges_visit:
  "fst (gc_field_set_visit_edge_buffer gc_field_set_init four_edges (\<lambda>e d. (e \<noteq> 16, e # d)) []) =
    \<lparr> fs_full = [], fs_partly_full = [\<lparr> eb_size = 3, eb_edges = [8, 32, 24, 32] @ replicate 506 0 \<rparr>],
      fs_empty = [] \<rparr>"
  by (simp add: gc_field_set_visit_edge_buffer_def four_edges_def visit_edge_buffer_loop.simps
      gc_field_set_release_buffer_def gc_field_set_init_def gc_edge_buffer_stack_push_def
      gc_edge_buffer_capacity_def)

theorem field_set_visit_edge_buffer_correct_witness:
  "\<exists>xs. mset xs = {#8, 16, 24, 32#}
    \<and> {#8, 24, 32#} = mset (fst (visit_all (\<lambda>e d. (e \<noteq> 16, e # d)) xs ([] :: gc_edge list)))"
proof -
  have wf: "fs_wf gc_field_set_init" "eb_wf four_edges"
    by (simp_all add: fs_wf_def gc_field_set_init_def eb_wf_def four_edges_def gc_edge_buffer_capacity_def)
  obtain s' d' where r:
    "gc_field_set_visit_edge_buffer gc_field_set_init four_edges (\<lambda>e d. (e \<noteq> 16, e # d)) [] = (s', d')"
    by (rule prod.exhaust)
  have "fs_edges s' = {#8, 24, 32#}" using four_edges_visit unfolding r
    by (simp add: fs_edges_def eb_log_def)
  then show ?thesis using field_set_visit_edge_buffer_correct[OF wf r]
    by (auto simp: fs_edges_def gc_field_set_init_def four_edges_def eb_log_def)
qed

section \<open>Mutators and a collection\<close>

text \<open>What the writers of several mutators do between two collections.\<close>

datatype fs_event = Fs_add nat gc_edge | Fs_release nat

definition fs_exec ::
    "fs_event \<Rightarrow> gc_field_set_writer list \<times> gc_field_set \<Rightarrow> (gc_field_set_writer list \<times> gc_field_set) result"
where
  "fs_exec ev st = (case (ev, st) of
      (Fs_add i e, (ws, s)) \<Rightarrow>
        result_bind (gc_field_set_writer_add_edge (ws ! i) s e) (\<lambda>(w, s). Inr (ws[i := w], s))
    | (Fs_release i, (ws, s)) \<Rightarrow>
        (let (w, s) = gc_field_set_writer_release_buffer (ws ! i) s in Inr (ws[i := w], s)))"

primrec fs_event_writer :: "fs_event \<Rightarrow> nat" where
  "fs_event_writer (Fs_add i e) = i"
| "fs_event_writer (Fs_release i) = i"

definition fs_added :: "fs_event list \<Rightarrow> gc_edge multiset" where
  "fs_added evs = mset [e. Fs_add i e \<leftarrow> evs]"

definition fs_all :: "gc_field_set_writer list \<times> gc_field_set \<Rightarrow> gc_edge multiset" where
  "fs_all st = fs_edges (snd st) + sum_list (map writer_edges (fst st))"

lemma sum_list_upd:
  fixes f :: "'a \<Rightarrow> 'm multiset"
  assumes "i < length xs"
  shows "sum_list (map f (xs[i := x])) + f (xs ! i) = sum_list (map f xs) + f x"
  using assms
proof (induction xs arbitrary: i)
  case (Cons a xs)
  then show ?case by (cases i) (auto simp: ac_simps)
qed simp

definition fs_inv :: "nat \<Rightarrow> gc_edge multiset \<Rightarrow> gc_field_set_writer list \<times> gc_field_set \<Rightarrow> bool" where
  "fs_inv n m st \<longleftrightarrow> length (fst st) = n \<and> (\<forall>w \<in> set (fst st). writer_wf w) \<and> fs_wf (snd st) \<and> fs_all st = m"

lemma fs_exec_inv:
  assumes "fs_inv n m st" "fs_event_writer ev < n"
  shows "\<exists>st'. fs_exec ev st = Inr st' \<and> fs_inv n (m + fs_added [ev]) st'"
proof (cases ev)
  case (Fs_add i e)
  obtain ws s where st: "st = (ws, s)" by (rule prod.exhaust)
  have i: "i < length ws" "fs_wf s" "writer_wf (ws ! i)" "\<forall>w \<in> set ws. writer_wf w"
    using assms Fs_add st by (auto simp: fs_inv_def)
  obtain w' s' where w: "gc_field_set_writer_add_edge (ws ! i) s e = Inr (w', s')" "fs_wf s'" "writer_wf w'"
    "fs_edges s' + writer_edges w' = fs_edges s + writer_edges (ws ! i) + {#e#}"
    by (rule writer_add_edge_wf[OF i(2,3)])
  have "fs_all (ws[i := w'], s') + writer_edges (ws ! i) = (fs_all st + {#e#}) + writer_edges (ws ! i)"
    using sum_list_upd[OF i(1), of writer_edges w'] w(4) unfolding fs_all_def st
    by (simp add: ac_simps)
  then have "fs_all (ws[i := w'], s') = m + {#e#}" using assms(1) by (simp add: fs_inv_def)
  then show ?thesis
    using assms(1) w i Fs_add st set_update_subset_insert[of ws i w']
    by (auto simp: fs_exec_def fs_inv_def fs_added_def)
next
  case (Fs_release i)
  obtain ws s where st: "st = (ws, s)" by (rule prod.exhaust)
  have i: "i < length ws" "fs_wf s" "writer_wf (ws ! i)" "\<forall>w \<in> set ws. writer_wf w"
    using assms Fs_release st by (auto simp: fs_inv_def)
  obtain w' s' where w: "gc_field_set_writer_release_buffer (ws ! i) s = (w', s')" by (rule prod.exhaust)
  note r = writer_release_wf[OF i(2,3) w]
  have "fs_all (ws[i := w'], s') + writer_edges (ws ! i) = fs_all st + writer_edges (ws ! i)"
    using sum_list_upd[OF i(1), of writer_edges w'] r unfolding fs_all_def st
    by (simp add: writer_edges_def ac_simps)
  then have "fs_all (ws[i := w'], s') = m" using assms(1) by (simp add: fs_inv_def)
  then show ?thesis
    using assms(1) w r i Fs_release st set_update_subset_insert[of ws i w']
    by (auto simp: fs_exec_def fs_inv_def fs_added_def writer_wf_def)
qed

lemma fs_added_append: "fs_added (es @ fs) = fs_added es + fs_added fs"
  by (simp add: fs_added_def)

lemma fs_run_inv:
  assumes "fs_inv n m st" "\<forall>ev \<in> set evs. fs_event_writer ev < n"
  shows "\<exists>st'. result_fold fs_exec evs st = Inr st' \<and> fs_inv n (m + fs_added evs) st'"
proof (rule result_fold_invariant[where I = "\<lambda>evs st. fs_inv n (m + fs_added evs) st"])
  show "fs_inv n (m + fs_added []) st" using assms(1) by (simp add: fs_added_def)
  show "\<exists>s'. fs_exec ev s = Inr s' \<and> fs_inv n (m + fs_added (is @ [ev])) s'"
    if "evs = is @ ev # js" "fs_inv n (m + fs_added is) s" for "is" ev js s
    using fs_exec_inv[OF that(2), of ev] that(1) assms(2) by (simp add: fs_added_append add.assoc)
qed

lemma fs_release_all:
  assumes "fs_inv n m (ws, s)" "result_fold fs_exec (map Fs_release [0..<n]) (ws, s) = Inr (ws', s')"
  shows "fs_edges s' = m" "fs_wf s'"
proof -
  have added: "fs_added (map Fs_release is) = {#}" for "is" by (induction "is") (auto simp: fs_added_def)
  have "\<exists>st. result_fold fs_exec (map Fs_release [0..<n]) (ws, s) = Inr st
    \<and> fs_inv n m st \<and> (\<forall>ev \<in> set (map Fs_release [0..<n]). fst st ! fs_event_writer ev = None)"
  proof (rule result_fold_invariant[where I = "\<lambda>evs st. fs_inv n m st \<and> (\<forall>ev \<in> set evs. fst st ! fs_event_writer ev = None)"])
    show "\<exists>t. fs_exec ev st = Inr t \<and> fs_inv n m t \<and> (\<forall>ev \<in> set (is @ [ev]). fst t ! fs_event_writer ev = None)"
      if evs: "map Fs_release [0..<n] = is @ ev # js"
        and st: "fs_inv n m st \<and> (\<forall>ev \<in> set is. fst st ! fs_event_writer ev = None)" for "is" ev js st
    proof -
      have "ev \<in> set (map Fs_release [0..<n])" using evs by simp
      then obtain i where i: "ev = Fs_release i" "i < n" by auto
      obtain t where t: "fs_exec ev st = Inr t" "fs_inv n m t"
        using fs_exec_inv[of n m st ev] st i added[of "[i]"] by auto
      have "fst t = (fst st)[i := None]"
        using t(1) i(1) by (cases st) (auto simp: fs_exec_def gc_field_set_writer_release_buffer_def
            split: option.splits)
      then show ?thesis using t st i by (auto simp: fs_inv_def nth_list_update)
    qed
  qed (use assms(1) in simp)
  then have inv: "fs_inv n m (ws', s')" "\<forall>i < n. ws' ! i = None" using assms(2) by auto
  have "\<forall>w \<in> set ws'. w = None"
    using inv unfolding fs_inv_def by (metis fst_conv in_set_conv_nth)
  then have "sum_list (map writer_edges ws') = {#}" by (induction ws') (auto simp: writer_edges_def)
  then show "fs_edges s' = m" "fs_wf s'" using inv(1) by (auto simp: fs_inv_def fs_all_def)
qed

text \<open>C37: However the writers of any number of mutators interleave their additions and releases, no
  operation fails, and once every writer has released its buffer a collection's roots are edge
  buffers that hold exactly the edges that were added, each as often as it was added, while the set is
  left with none.\<close>

theorem field_set_remembers:
  assumes "\<forall>ev \<in> set evs. fs_event_writer ev < n"
  shows "\<exists>st ws s bs. result_fold fs_exec evs (replicate n gc_field_set_writer_init, gc_field_set_init) = Inr st
    \<and> result_fold fs_exec (map Fs_release [0..<n]) st = Inr (ws, s)
    \<and> gc_field_set_add_roots (\<lambda>rs r. rs @ [r]) s [] =
        (s\<lparr>fs_partly_full := [], fs_full := []\<rparr>, map Root_edge_buffer bs)
    \<and> logged bs = fs_added evs"
proof -
  have "sum_list (replicate n ({#} :: gc_edge multiset)) = {#}" by (induction n) auto
  then have "fs_inv n {#} (replicate n gc_field_set_writer_init, gc_field_set_init)"
    by (simp add: fs_inv_def fs_all_def gc_field_set_writer_init_def gc_field_set_init_def writer_wf_def
        writer_edges_def fs_wf_def fs_edges_def)
  from fs_run_inv[OF this assms] obtain st where st:
    "result_fold fs_exec evs (replicate n gc_field_set_writer_init, gc_field_set_init) = Inr st"
    "fs_inv n (fs_added evs) st" by auto
  obtain ws' s' where r: "result_fold fs_exec (map Fs_release [0..<n]) st = Inr (ws', s')"
    using fs_run_inv[OF st(2), of "map Fs_release [0..<n]"] by fastforce
  have edges: "fs_edges s' = fs_added evs" using fs_release_all[of n _ "fst st" "snd st" ws' s'] st(2) r by simp
  have "foldl (\<lambda>rs r. rs @ [r]) ys xs = ys @ xs" for ys xs :: "gc_edge_buffer gc_root list"
    by (induction xs arbitrary: ys) auto
  then have "gc_field_set_add_roots (\<lambda>rs r. rs @ [r]) s' [] =
      (s'\<lparr>fs_partly_full := [], fs_full := []\<rparr>, map Root_edge_buffer (fs_partly_full s' @ fs_full s'))"
    by (simp add: add_roots_eq)
  moreover have "logged (fs_partly_full s' @ fs_full s') = fs_added evs"
    using edges by (simp add: fs_edges_def add.commute)
  ultimately show ?thesis using st(1) r by blast
qed

theorem field_set_remembers_witness:
  "\<exists>st ws s bs. result_fold fs_exec [Fs_add 0 8, Fs_add 1 16, Fs_release 0, Fs_add 0 8]
      (replicate 2 gc_field_set_writer_init, gc_field_set_init) = Inr st
    \<and> result_fold fs_exec (map Fs_release [0..<2]) st = Inr (ws, s)
    \<and> gc_field_set_add_roots (\<lambda>rs r. rs @ [r]) s [] =
        (s\<lparr>fs_partly_full := [], fs_full := []\<rparr>, map Root_edge_buffer bs)
    \<and> logged bs = {#8, 16, 8#}"
  using field_set_remembers[of "[Fs_add 0 8, Fs_add 1 16, Fs_release 0, Fs_add 0 8]" 2]
  by (simp add: fs_added_def)

end
