(* ===== verification/Forwarding.thy ===== *)
theory Forwarding
  imports Memory
begin

text \<open>
  What a collector and its embedder say to each other about an object that moves
  (\<open>api/gc-forwarding.h\<close>): the state of the protocol, and what one use of it remembers.
\<close>

datatype gc_forwarding_state = Fwd_Forwarded | Fwd_Busy | Fwd_Acquired | Fwd_Not_Forwarded

record gc_atomic_forward =
  fwd_ref :: gc_ref
  fwd_data :: u64
  fwd_state :: gc_forwarding_state

end
