(* ===== verification/Embedder.thy ===== *)
theory Embedder
  imports Forwarding
begin

text \<open>
  What a program that embeds the collector supplies (\<open>api/gc-embedder-api.h\<close>): the size and the edges
  of an object, its forwarding address, the edges of its roots, and its own external objects. First
  the interface, then the laws that the collectors rely on as a locale, then the embedder of the
  benchmarks (\<open>benchmarks/simple-tagging-scheme.h\<close>, \<open>benchmarks/simple-gc-embedder.h\<close>,
  \<open>benchmarks/mt-gcbench-embedder.h\<close>), which satisfies them.
\<close>

section \<open>The interface\<close>

text \<open>\<open>gc_trace_object\<close> calls back for each edge and returns the size; here it is the list of the edges
  and the size. \<open>em_finalizer_roots\<close> are the edges that \<open>gc_visit_finalizer_roots\<close> (\<open>Finalizer\<close>) visits. \<open>'x\<close> is
  the state of the external space.\<close>

record 'x embedder =
  em_has_immediates :: bool
  em_edges :: "byte_mem \<Rightarrow> gc_ref \<Rightarrow> u64 list result"
  em_size :: "byte_mem \<Rightarrow> gc_ref \<Rightarrow> u64 result"
  em_forwarded :: "byte_mem \<Rightarrow> gc_ref \<Rightarrow> u64"
  em_forward :: "gc_ref \<Rightarrow> gc_ref \<Rightarrow> byte_mem \<Rightarrow> byte_mem"
  em_heap_roots :: "u64 list"
  em_mutator_roots :: "u64 list"
  em_finalizer_roots :: "u64 list"
  em_extern_visit :: "gc_ref \<Rightarrow> 'x \<Rightarrow> (bool \<times> 'x) result"
  em_extern_start_gc :: "bool \<Rightarrow> 'x \<Rightarrow> 'x"
  em_extern_finish_gc :: "bool \<Rightarrow> 'x \<Rightarrow> 'x"

text \<open>\<open>gc_ref_is_immediate\<close> of \<open>api/gc-ref.h\<close>; the callers have checked for null.\<close>

definition gc_ref_is_immediate :: "'x embedder \<Rightarrow> gc_ref \<Rightarrow> bool result" where
  "gc_ref_is_immediate em ref =
    result_bind (gc_assert (\<not> gc_ref_is_null ref)) (\<lambda>_. Inr (em_has_immediates em \<and> ref AND (8 - 1) \<noteq> 0))"

section \<open>What a collector relies on\<close>

text \<open>
  \<open>valid mem r\<close> says that an object that has not been forwarded is at \<open>r\<close>; then \<open>osize\<close> is its size in
  bytes and \<open>offs\<close> are the offsets of its edges, which are aligned words within it. The shape of an
  object and its not being forwarded depend only on the bytes of the object outside its edges, so
  that they survive a copy and an update of edges. Forwarding writes within the object, and is seen as
  long as the bytes of the object stay.
\<close>

definition in_edge :: "nat list \<Rightarrow> nat \<Rightarrow> bool" where
  "in_edge os k \<longleftrightarrow> (\<exists>o1 \<in> set os. o1 \<le> k \<and> k < o1 + 8)"

locale gc_embedder =
  fixes em :: "'x embedder" and valid :: "byte_mem \<Rightarrow> gc_ref \<Rightarrow> bool"
    and osize :: "byte_mem \<Rightarrow> gc_ref \<Rightarrow> nat" and offs :: "byte_mem \<Rightarrow> gc_ref \<Rightarrow> nat list"
  assumes size_law: "valid mem r \<Longrightarrow> em_size em mem r = Inr (of_nat (osize mem r)) \<and> 8 \<le> osize mem r \<and> osize mem r < 2 ^ 63"
    and edges_law: "valid mem r \<Longrightarrow> em_edges em mem r = Inr (map (\<lambda>k. r + of_nat k) (offs mem r))
      \<and> distinct (offs mem r) \<and> (\<forall>k \<in> set (offs mem r). 8 dvd k \<and> k + 8 \<le> osize mem r)"
    and fresh_law: "valid mem r \<Longrightarrow> em_forwarded em mem r = 0"
    and local_law: "valid mem r \<Longrightarrow> (\<forall>k < osize mem r. \<not> in_edge (offs mem r) k \<longrightarrow> mem' (r' + of_nat k) = mem (r + of_nat k)) \<Longrightarrow>
      valid mem' r' \<and> osize mem' r' = osize mem r \<and> offs mem' r' = offs mem r"
    and forward_law: "valid mem r \<Longrightarrow> to \<noteq> 0 \<Longrightarrow> unat to mod 8 = 0 \<Longrightarrow>
      (\<forall>k < osize mem r. mem' (r + of_nat k) = em_forward em r to mem (r + of_nat k)) \<Longrightarrow> em_forwarded em mem' r = to"
    and forward_frame: "valid mem r \<Longrightarrow> (\<forall>k < osize mem r. x \<noteq> r + of_nat k) \<Longrightarrow> em_forward em r to mem x = mem x"

section \<open>The embedder of the benchmarks\<close>

definition gcobj_alloc_kind_mask :: u64 where "gcobj_alloc_kind_mask = 0x7f"
definition gcobj_alloc_kind_shift :: nat where "gcobj_alloc_kind_shift = 1"
definition gcobj_not_forwarded_bit :: u64 where "gcobj_not_forwarded_bit = 1"
definition gcobj_busy :: u64 where "gcobj_busy = 0"

definition tag_live_alloc_kind :: "u64 \<Rightarrow> u8" where
  "tag_live_alloc_kind tag = ucast (drop_bit gcobj_alloc_kind_shift tag AND gcobj_alloc_kind_mask)"

definition tag_live :: "u8 \<Rightarrow> u64" where
  "tag_live alloc_kind = push_bit gcobj_alloc_kind_shift (ucast alloc_kind) OR gcobj_not_forwarded_bit"

text \<open>The tag is the first word of an object.\<close>

definition tag_word :: "byte_mem \<Rightarrow> gc_ref \<Rightarrow> u64" where "tag_word mem ref = load_word mem ref"
definition set_tag_word :: "gc_ref \<Rightarrow> u64 \<Rightarrow> byte_mem \<Rightarrow> byte_mem" where "set_tag_word ref tag mem = store_word mem ref tag"

definition gc_object_forwarded_nonatomic :: "byte_mem \<Rightarrow> gc_ref \<Rightarrow> u64" where
  "gc_object_forwarded_nonatomic mem ref =
    (let tag = tag_word mem ref in if tag AND gcobj_not_forwarded_bit \<noteq> 0 then 0 else tag)"

definition gc_object_forward_nonatomic :: "gc_ref \<Rightarrow> gc_ref \<Rightarrow> byte_mem \<Rightarrow> byte_mem" where
  "gc_object_forward_nonatomic ref new_ref mem = set_tag_word ref new_ref mem"

text \<open>The atomic protocol of \<open>api/gc-forwarding.h\<close>, each call as one step.\<close>

definition gc_atomic_forward_begin :: "byte_mem \<Rightarrow> gc_ref \<Rightarrow> gc_atomic_forward" where
  "gc_atomic_forward_begin mem ref =
    (let tag = tag_word mem ref;
         state = (if tag = gcobj_busy then Fwd_Busy
                  else if tag AND gcobj_not_forwarded_bit \<noteq> 0 then Fwd_Not_Forwarded
                  else Fwd_Forwarded)
     in \<lparr> fwd_ref = ref, fwd_data = tag, fwd_state = state \<rparr>)"

definition gc_atomic_forward_retry_busy :: "byte_mem \<Rightarrow> gc_atomic_forward \<Rightarrow> (bool \<times> gc_atomic_forward) result" where
  "gc_atomic_forward_retry_busy mem fwd =
    result_bind (gc_assert (fwd_state fwd = Fwd_Busy)) (\<lambda>_.
    let tag = tag_word mem (fwd_ref fwd)
    in if tag = gcobj_busy then Inr (False, fwd)
       else if tag AND gcobj_not_forwarded_bit \<noteq> 0
       then Inr (True, fwd\<lparr>fwd_state := Fwd_Not_Forwarded, fwd_data := tag\<rparr>)
       else Inr (True, fwd\<lparr>fwd_state := Fwd_Forwarded, fwd_data := tag\<rparr>))"

definition gc_atomic_forward_acquire :: "byte_mem \<Rightarrow> gc_atomic_forward \<Rightarrow> (gc_atomic_forward \<times> byte_mem) result" where
  "gc_atomic_forward_acquire mem fwd =
    result_bind (gc_assert (fwd_state fwd = Fwd_Not_Forwarded)) (\<lambda>_.
    let tag = tag_word mem (fwd_ref fwd)
    in if tag = fwd_data fwd then Inr (fwd\<lparr>fwd_state := Fwd_Acquired\<rparr>, set_tag_word (fwd_ref fwd) gcobj_busy mem)
       else let fwd = fwd\<lparr>fwd_data := tag\<rparr>
         in if tag = gcobj_busy then Inr (fwd\<lparr>fwd_state := Fwd_Busy\<rparr>, mem)
            else result_bind (gc_assert (tag AND gcobj_not_forwarded_bit = 0)) (\<lambda>_.
                   Inr (fwd\<lparr>fwd_state := Fwd_Forwarded\<rparr>, mem)))"

definition gc_atomic_forward_abort :: "byte_mem \<Rightarrow> gc_atomic_forward \<Rightarrow> (gc_atomic_forward \<times> byte_mem) result" where
  "gc_atomic_forward_abort mem fwd =
    result_bind (gc_assert (fwd_state fwd = Fwd_Acquired)) (\<lambda>_.
      Inr (fwd\<lparr>fwd_state := Fwd_Not_Forwarded\<rparr>, set_tag_word (fwd_ref fwd) (fwd_data fwd) mem))"

definition gc_atomic_forward_commit ::
    "byte_mem \<Rightarrow> gc_atomic_forward \<Rightarrow> gc_ref \<Rightarrow> (gc_atomic_forward \<times> byte_mem) result" where
  "gc_atomic_forward_commit mem fwd new_ref =
    result_bind (gc_assert (fwd_state fwd = Fwd_Acquired)) (\<lambda>_.
      let mem = set_tag_word new_ref (fwd_data fwd) mem
      in Inr (fwd\<lparr>fwd_state := Fwd_Forwarded\<rparr>, set_tag_word (fwd_ref fwd) new_ref mem))"

definition gc_atomic_forward_address :: "gc_atomic_forward \<Rightarrow> u64 result" where
  "gc_atomic_forward_address fwd =
    result_bind (gc_assert (fwd_state fwd = Fwd_Forwarded)) (\<lambda>_. Inr (fwd_data fwd))"

text \<open>The objects of \<open>benchmarks/mt-gcbench-types.h\<close>: nodes, arrays of doubles, and holes.\<close>

definition ALLOC_KIND_NODE :: u8 where "ALLOC_KIND_NODE = 0"
definition ALLOC_KIND_DOUBLE_ARRAY :: u8 where "ALLOC_KIND_DOUBLE_ARRAY = 1"
definition ALLOC_KIND_HOLE :: u8 where "ALLOC_KIND_HOLE = 2"

definition node_size :: u64 where "node_size = 32"
definition double_array_size :: "byte_mem \<Rightarrow> gc_ref \<Rightarrow> u64" where
  "double_array_size mem array = 16 + load_word mem (array + 8) * 8"
definition hole_object_size :: "byte_mem \<Rightarrow> gc_ref \<Rightarrow> u64" where
  "hole_object_size mem hole = 16 + load_word mem (hole + 8) * 8"

definition visit_node_fields :: "gc_ref \<Rightarrow> u64 list" where "visit_node_fields node = [node + 8, node + 16]"
definition visit_double_array_fields :: "gc_ref \<Rightarrow> u64 list" where "visit_double_array_fields obj = []"
definition visit_hole_fields :: "bool \<Rightarrow> gc_ref \<Rightarrow> u64 list result" where
  "visit_hole_fields precise_roots obj = (if precise_roots then Inl Crash else Inr [])"

definition gcbench_edges :: "bool \<Rightarrow> byte_mem \<Rightarrow> gc_ref \<Rightarrow> u64 list result" where
  "gcbench_edges precise_roots mem ref =
    (let kind = tag_live_alloc_kind (tag_word mem ref)
     in if kind = ALLOC_KIND_NODE then Inr (visit_node_fields ref)
        else if kind = ALLOC_KIND_DOUBLE_ARRAY then Inr (visit_double_array_fields ref)
        else if kind = ALLOC_KIND_HOLE then visit_hole_fields precise_roots ref
        else Inl Crash)"

definition gcbench_size :: "byte_mem \<Rightarrow> gc_ref \<Rightarrow> u64 result" where
  "gcbench_size mem ref =
    (let kind = tag_live_alloc_kind (tag_word mem ref)
     in if kind = ALLOC_KIND_NODE then Inr node_size
        else if kind = ALLOC_KIND_DOUBLE_ARRAY then Inr (double_array_size mem ref)
        else if kind = ALLOC_KIND_HOLE then Inr (hole_object_size mem ref)
        else Inl Crash)"

text \<open>The roots are handles on the stack and in global variables, by address. There are no external objects.\<close>

definition gcbench_embedder :: "bool \<Rightarrow> u64 list \<Rightarrow> u64 list \<Rightarrow> u64 list \<Rightarrow> unit embedder" where
  "gcbench_embedder precise_roots heap_roots mutator_roots finalizer_roots =
    \<lparr> em_has_immediates = True, em_edges = gcbench_edges precise_roots, em_size = gcbench_size,
      em_forwarded = gc_object_forwarded_nonatomic, em_forward = gc_object_forward_nonatomic,
      em_heap_roots = heap_roots, em_mutator_roots = mutator_roots,
      em_finalizer_roots = finalizer_roots,
      em_extern_visit = (\<lambda>_ _. Inl Crash), em_extern_start_gc = (\<lambda>_ x. x), em_extern_finish_gc = (\<lambda>_ x. x) \<rparr>"

subsection \<open>It satisfies the laws\<close>

definition gcbench_valid :: "bool \<Rightarrow> byte_mem \<Rightarrow> gc_ref \<Rightarrow> bool" where
  "gcbench_valid precise_roots mem ref \<longleftrightarrow> tag_word mem ref AND gcobj_not_forwarded_bit \<noteq> 0
    \<and> (let kind = tag_live_alloc_kind (tag_word mem ref)
       in kind = ALLOC_KIND_NODE
        \<or> (kind = ALLOC_KIND_DOUBLE_ARRAY \<or> kind = ALLOC_KIND_HOLE \<and> \<not> precise_roots)
          \<and> unat (load_word mem (ref + 8)) < 2 ^ 59)"

definition gcbench_osize :: "byte_mem \<Rightarrow> gc_ref \<Rightarrow> nat" where
  "gcbench_osize mem ref = (if tag_live_alloc_kind (tag_word mem ref) = ALLOC_KIND_NODE then 32
    else 16 + 8 * unat (load_word mem (ref + 8)))"

definition gcbench_offs :: "byte_mem \<Rightarrow> gc_ref \<Rightarrow> nat list" where
  "gcbench_offs mem ref = (if tag_live_alloc_kind (tag_word mem ref) = ALLOC_KIND_NODE then [8, 16] else [])"

lemma alloc_kinds_distinct [simp]:
  "ALLOC_KIND_DOUBLE_ARRAY \<noteq> ALLOC_KIND_NODE" "ALLOC_KIND_HOLE \<noteq> ALLOC_KIND_NODE" "ALLOC_KIND_HOLE \<noteq> ALLOC_KIND_DOUBLE_ARRAY"
  by (simp_all add: ALLOC_KIND_NODE_def ALLOC_KIND_DOUBLE_ARRAY_def ALLOC_KIND_HOLE_def)

lemma array_size_nat:
  assumes "unat n < 2 ^ 59"
  shows "(16 + n * 8 :: u64) = of_nat (16 + 8 * unat n)"
  by (simp add: mult.commute)

lemma aligned_even:
  assumes "unat (w :: u64) mod 8 = 0"
  shows "w AND 1 = 0"
proof -
  have "unat w mod 2 = 0" using assms mod_mod_cancel[of 2 8 "unat w"] by simp
  then have "unat (w mod 2) = 0" by (simp add: unat_mod_distrib)
  then show ?thesis by (simp add: and_one_eq word_unat_eq_iff)
qed

lemma gcbench_local:
  assumes v: "gcbench_valid p mem r"
    and e: "\<forall>k < gcbench_osize mem r. \<not> in_edge (gcbench_offs mem r) k \<longrightarrow> mem' (r' + of_nat k) = mem (r + of_nat k)"
  shows "gcbench_valid p mem' r' \<and> gcbench_osize mem' r' = gcbench_osize mem r \<and> gcbench_offs mem' r' = gcbench_offs mem r"
proof -
  have "load_word mem' r' = load_word mem r"
  proof (rule load_word_shift)
    show "mem' (r' + of_nat i) = mem (r + of_nat i)" if "i < 8" for i
      using e that by (auto simp: gcbench_osize_def gcbench_offs_def in_edge_def split: if_splits)
  qed
  then have t: "tag_word mem' r' = tag_word mem r" by (simp add: tag_word_def)
  show ?thesis
  proof (cases "tag_live_alloc_kind (tag_word mem r) = ALLOC_KIND_NODE")
    case True
    then show ?thesis using v t by (simp add: gcbench_valid_def gcbench_osize_def gcbench_offs_def)
  next
    case False
    have "load_word mem' (r' + 8) = load_word mem (r + 8)"
    proof (rule load_word_shift)
      show "mem' (r' + 8 + of_nat i) = mem (r + 8 + of_nat i)" if "i < 8" for i
        using e[rule_format, of "8 + i"] that False by (simp add: gcbench_osize_def gcbench_offs_def in_edge_def add.assoc)
    qed
    then show ?thesis using v t by (simp add: gcbench_valid_def gcbench_osize_def gcbench_offs_def Let_def)
  qed
qed

interpretation gcbench: gc_embedder "gcbench_embedder p hr mr fr" "gcbench_valid p" gcbench_osize gcbench_offs
proof
  fix mem r assume v: "gcbench_valid p mem r"
  show "em_size (gcbench_embedder p hr mr fr) mem r = Inr (of_nat (gcbench_osize mem r)) \<and> 8 \<le> gcbench_osize mem r \<and> gcbench_osize mem r < 2 ^ 63"
    using v array_size_nat
    by (auto simp: gcbench_embedder_def gcbench_size_def gcbench_valid_def gcbench_osize_def Let_def node_size_def
        double_array_size_def hole_object_size_def)
  show "em_edges (gcbench_embedder p hr mr fr) mem r = Inr (map (\<lambda>k. r + of_nat k) (gcbench_offs mem r))
      \<and> distinct (gcbench_offs mem r) \<and> (\<forall>k \<in> set (gcbench_offs mem r). 8 dvd k \<and> k + 8 \<le> gcbench_osize mem r)"
    using v by (auto simp: gcbench_embedder_def gcbench_edges_def gcbench_valid_def gcbench_osize_def gcbench_offs_def Let_def
        visit_node_fields_def visit_double_array_fields_def visit_hole_fields_def)
  show "em_forwarded (gcbench_embedder p hr mr fr) mem r = 0"
    using v by (simp add: gcbench_embedder_def gc_object_forwarded_nonatomic_def gcbench_valid_def)
  show "gcbench_valid p mem' r' \<and> gcbench_osize mem' r' = gcbench_osize mem r \<and> gcbench_offs mem' r' = gcbench_offs mem r"
    if "\<forall>k < gcbench_osize mem r. \<not> in_edge (gcbench_offs mem r) k \<longrightarrow> mem' (r' + of_nat k) = mem (r + of_nat k)" for mem' r'
    by (rule gcbench_local[OF v that])
  have big: "8 \<le> gcbench_osize mem r" by (simp add: gcbench_osize_def)
  show "em_forwarded (gcbench_embedder p hr mr fr) mem' r = to" if "to \<noteq> 0" "unat to mod 8 = 0"
    "\<forall>k < gcbench_osize mem r. mem' (r + of_nat k) = em_forward (gcbench_embedder p hr mr fr) r to mem (r + of_nat k)" for to mem'
  proof -
    have "load_word mem' r = load_word (store_word mem r to) r"
      by (rule load_word_shift)
        (use that(3) big in \<open>simp add: gcbench_embedder_def gc_object_forward_nonatomic_def set_tag_word_def\<close>)
    then have "tag_word mem' r = to" by (simp add: tag_word_def load_store_word)
    then show ?thesis using aligned_even[OF that(2)]
      by (simp add: gcbench_embedder_def gc_object_forwarded_nonatomic_def gcobj_not_forwarded_bit_def)
  qed
  show "em_forward (gcbench_embedder p hr mr fr) r to mem x = mem x" if "\<forall>k < gcbench_osize mem r. x \<noteq> r + of_nat k" for x to
  proof -
    have "\<not> x - r < 8"
    proof
      assume "x - r < 8"
      then have "unat (x - r) < gcbench_osize mem r" using big by (simp add: word_less_nat_alt)
      then show False using that[rule_format, of "unat (x - r)"] by simp
    qed
    then show ?thesis
      by (simp add: gcbench_embedder_def gc_object_forward_nonatomic_def set_tag_word_def store_word_other)
  qed
qed

end
