(* ===== verification/MmcHeap.thy ===== *)
theory MmcHeap
  imports NoflCollect LargeObjectSpace FieldSet Embedder
begin

text \<open>
  The heap of the mostly-marking collector, \<open>src/src/mmc.c\<close>: which space an object belongs to when it is
  traced, resolved, pinned or written to, how the size of the heap follows what is allocated, and which
  kind of collection is made. The heap is its nofl space, whose memory \<open>ns_mem\<close> holds the small objects,
  its large object space, the remembered set and the external space of the embedder \<open>mh_extern\<close>.

  The yield of the last collection, the fragmentation and the thresholds are doubles: rational numbers,
  with every operation rounded to the nearest double by \<open>round_double\<close>. Their values are far from
  the ends of the range of doubles.
\<close>

section \<open>Doubles\<close>

definition power_of_two :: "int \<Rightarrow> rat" where
  "power_of_two k = (if k \<ge> 0 then 2 ^ nat k else 1 / 2 ^ nat (- k))"

definition binary_exponent :: "rat \<Rightarrow> int" where
  "binary_exponent x =
    (let (n, d) = quotient_of x; k = int (floorlog 2 (nat n)) - int (floorlog 2 (nat d))
     in if power_of_two k \<le> x then k else k - 1)"

definition round_half_even :: "rat \<Rightarrow> int" where
  "round_half_even x =
    (let q = floor x; r = x - of_int q in if r < 1 / 2 \<or> r = 1 / 2 \<and> even q then q else q + 1)"

definition round_double :: "rat \<Rightarrow> rat" where
  "round_double x =
    (if x = 0 then 0
     else
       (let ulp = power_of_two (binary_exponent \<bar>x\<bar> - 52); y = of_int (round_half_even (\<bar>x\<bar> / ulp)) * ulp
        in if x < 0 then - y else y))"

definition double_of_size :: "u64 \<Rightarrow> rat" where
  "double_of_size n = of_nat (double_of_nat (unat n))"

section \<open>State\<close>

record 'x mmc_heap =
  mh_nofl :: nofl_space
  mh_large :: large_object_space
  mh_extern :: 'x
  mh_remembered_set :: gc_field_set
  mh_large_object_pages :: u64
  mh_size :: u64
  mh_total_allocated_bytes_at_last_gc :: u64
  mh_size_at_last_gc :: u64
  mh_gc_kind :: gc_collection_kind
  mh_count :: int
  mh_count_at_last_growth :: int
  mh_fragmentation_low_threshold :: rat
  mh_fragmentation_high_threshold :: rat
  mh_minor_gc_yield_threshold :: rat
  mh_major_gc_yield_threshold :: rat
  mh_minimum_major_gc_yield_threshold :: rat
  mh_fixed_size :: bool

section \<open>Tracing\<close>

definition do_trace ::
    "gc_config \<Rightarrow> 'x embedder \<Rightarrow> u64 \<Rightarrow> gc_ref \<Rightarrow> nofl_allocator \<times> 'x mmc_heap \<Rightarrow> (bool \<times> nofl_allocator \<times> 'x mmc_heap) result" where
  "do_trace cfg em edge ref st =
    (let (alloc, hp) = st in
     result_bind (nofl_space_contains (mh_nofl hp) ref) (\<lambda>small.
       if small then
         result_bind (nofl_space_evacuate_or_mark_object cfg edge ref (alloc, mh_nofl hp)) (\<lambda>(is_new, alloc, space).
           Inr (is_new, alloc, hp\<lparr>mh_nofl := space\<rparr>))
       else
         result_bind (large_object_space_contains (mh_large hp) ref) (\<lambda>large.
           if large then
             result_bind (large_object_space_mark (mh_large hp) ref) (\<lambda>(is_new, space).
               Inr (is_new, alloc, hp\<lparr>mh_large := space\<rparr>))
           else
             result_bind (em_extern_visit em ref (mh_extern hp)) (\<lambda>(is_new, extern).
               Inr (is_new, alloc, hp\<lparr>mh_extern := extern\<rparr>)))))"

definition do_trace_pinned :: "'x embedder \<Rightarrow> gc_ref \<Rightarrow> 'x mmc_heap \<Rightarrow> (bool \<times> 'x mmc_heap) result" where
  "do_trace_pinned em ref hp =
    result_bind (nofl_space_contains (mh_nofl hp) ref) (\<lambda>small.
      if small then
        result_bind (nofl_space_mark_object ref (mh_nofl hp)) (\<lambda>(is_new, space). Inr (is_new, hp\<lparr>mh_nofl := space\<rparr>))
      else
        result_bind (large_object_space_contains (mh_large hp) ref) (\<lambda>large.
          if large then
            result_bind (large_object_space_mark (mh_large hp) ref) (\<lambda>(is_new, space).
              Inr (is_new, hp\<lparr>mh_large := space\<rparr>))
          else
            result_bind (em_extern_visit em ref (mh_extern hp)) (\<lambda>(is_new, extern).
              Inr (is_new, hp\<lparr>mh_extern := extern\<rparr>))))"

text \<open>The edge of the key of an ephemeron is in the memory of the nofl space.\<close>

definition gc_visit_ephemeron_key :: "'x embedder \<Rightarrow> u64 \<Rightarrow> 'x mmc_heap \<Rightarrow> (bool \<times> 'x mmc_heap) result" where
  "gc_visit_ephemeron_key em edge hp =
    (let ref = load_word (ns_mem (mh_nofl hp)) edge in
     result_bind (gc_assert (\<not> gc_ref_is_null ref)) (\<lambda>_.
     result_bind (gc_ref_is_immediate em ref) (\<lambda>immediate.
       if immediate then Inr (True, hp)
       else
         result_bind (nofl_space_contains (mh_nofl hp) ref) (\<lambda>small.
           if small then
             result_bind (nofl_space_forward_or_mark_if_traced edge ref (mh_nofl hp)) (\<lambda>(traced, space).
               Inr (traced, hp\<lparr>mh_nofl := space\<rparr>))
           else
             result_bind (large_object_space_contains (mh_large hp) ref) (\<lambda>large.
               if large then
                 result_bind (large_object_space_is_marked (mh_large hp) ref) (\<lambda>marked. Inr (marked, hp))
               else Inr (True, hp))))))"

definition do_trace_conservative_ref ::
    "(u64 \<Rightarrow> bool) \<Rightarrow> u64 \<Rightarrow> bool \<Rightarrow> 'x mmc_heap \<Rightarrow> (gc_ref \<times> 'x mmc_heap) result" where
  "do_trace_conservative_ref valid_displacement ref possibly_interior hp =
    (if \<not> gc_conservative_ref_might_be_a_heap_object valid_displacement ref possibly_interior then Inr (gc_ref_null, hp)
     else
       result_bind (nofl_space_contains_conservative_ref (mh_nofl hp) ref) (\<lambda>small.
         if small then
           result_bind (nofl_space_mark_conservative_ref valid_displacement ref possibly_interior (mh_nofl hp)) (\<lambda>(ret, space).
             Inr (ret, hp\<lparr>mh_nofl := space\<rparr>))
         else
           result_bind (large_object_space_mark_conservative_ref valid_displacement (mh_large hp) ref possibly_interior) (\<lambda>(ret, space).
             Inr (ret, hp\<lparr>mh_large := space\<rparr>))))"

definition trace_plan :: "'x mmc_heap \<Rightarrow> gc_ref \<Rightarrow> gc_trace_plan result" where
  "trace_plan hp ref =
    result_bind (nofl_space_contains (mh_nofl hp) ref) (\<lambda>small.
      if small then nofl_space_object_trace_plan (mh_nofl hp) ref
      else large_object_space_object_trace_plan (mh_large hp) ref)"

section \<open>The size of the heap\<close>

definition heap_last_gc_yield :: "'x mmc_heap \<Rightarrow> rat" where
  "heap_last_gc_yield hp =
    (let live_size = nofl_space_live_size_at_last_collection (mh_nofl hp) + large_object_space_size_at_last_collection (mh_large hp)
     in if live_size > mh_size_at_last_gc hp then 0
        else round_double (1 - round_double (double_of_size live_size / double_of_size (mh_size_at_last_gc hp))))"

definition heap_fragmentation :: "'x mmc_heap \<Rightarrow> rat result" where
  "heap_fragmentation hp =
    result_bind (nofl_space_fragmentation (mh_nofl hp)) (\<lambda>fragmentation.
    result_bind (nofl_space_size (mh_nofl hp)) (\<lambda>sz.
      Inr (round_double (double_of_size fragmentation / double_of_size sz))))"

definition compute_progress :: "'x mmc_heap \<Rightarrow> u64 \<Rightarrow> bool result" where
  "compute_progress hp allocation_since_last_gc =
    result_bind (nofl_space_fragmentation (mh_nofl hp)) (\<lambda>fragmentation. Inr (allocation_since_last_gc > fragmentation))"

definition compute_success :: "'x mmc_heap \<Rightarrow> gc_collection_kind \<Rightarrow> bool \<Rightarrow> bool" where
  "compute_success hp kind progress \<longleftrightarrow> progress \<or> kind = Collection_minor \<or> \<not> mh_fixed_size hp"

text \<open>\<open>last_yield\<close> is a double, and so are the products and sums in which it takes part.\<close>

definition nofl_space_estimate_live_bytes_after_gc :: "nofl_space \<Rightarrow> rat \<Rightarrow> u64 result" where
  "nofl_space_estimate_live_bytes_after_gc space last_yield =
    (let bytes = of_nat (nofl_block_count space List_full) * NOFL_BLOCK_SIZE;
         bytes = bytes + of_nat (nofl_block_count space List_partly_full) * NOFL_BLOCK_SIZE div 2 in
     result_bind (gc_assert (nofl_block_count space List_promoted = 0)) (\<lambda>_.
     let bytes = bytes + ns_old_generation_granules space * NOFL_GRANULE_SIZE;
         to_sweep = round_double (double_of_size (of_nat (nofl_block_count space List_to_sweep) * NOFL_BLOCK_SIZE)
           * round_double (1 - last_yield));
         bytes = of_int (floor (round_double (double_of_size bytes + to_sweep)));
         pending = ns_pending_unavailable_bytes space
     in Inr (if pending > 0 then bytes + of_int pending else bytes)))"

definition heap_estimate_live_data_after_gc :: "'x mmc_heap \<Rightarrow> u64 \<Rightarrow> rat \<Rightarrow> u64 result" where
  "heap_estimate_live_data_after_gc hp last_live_bytes last_yield =
    result_bind (nofl_space_estimate_live_bytes_after_gc (mh_nofl hp) last_yield) (\<lambda>bytes.
      let bytes = bytes + large_object_space_size_at_last_collection (mh_large hp)
      in Inr (if bytes < last_live_bytes then last_live_bytes else bytes))"

definition allocation_counter :: "'x mmc_heap \<Rightarrow> u64" where
  "allocation_counter hp =
    large_object_space_add_to_allocation_counter (mh_large hp)
      (nofl_space_add_to_allocation_counter (mh_nofl hp) (mh_total_allocated_bytes_at_last_gc hp))"

definition mmc_resize_heap :: "(u64 \<Rightarrow> u64 \<Rightarrow> u64) \<Rightarrow> 'x mmc_heap \<Rightarrow> u64 \<Rightarrow> 'x mmc_heap result" where
  "mmc_resize_heap acquire hp new_size =
    (if new_size = mh_size hp then Inr hp
     else
       result_bind
         (if new_size < mh_size hp
          then result_bind (nofl_space_shrink (mh_size hp - new_size) (mh_nofl hp)) (\<lambda>(_, space). Inr (hp\<lparr>mh_nofl := space\<rparr>))
          else result_bind (nofl_space_expand acquire (new_size - mh_size hp) (mh_nofl hp)) (\<lambda>space.
            Inr (hp\<lparr>mh_count_at_last_growth := mh_count hp, mh_nofl := space\<rparr>)))
         (\<lambda>hp. Inr (hp\<lparr>mh_size := new_size\<rparr>)))"

definition heap_reset_large_object_pages :: "(u64 \<Rightarrow> u64 \<Rightarrow> u64) \<Rightarrow> 'x mmc_heap \<Rightarrow> u64 \<Rightarrow> 'x mmc_heap result" where
  "heap_reset_large_object_pages acquire hp npages =
    (let previous = mh_large_object_pages hp in
     result_bind (gc_assert (npages \<le> previous)) (\<lambda>_.
     let bytes = push_bit (los_page_size_log2 (mh_large hp)) (previous - npages) in
     result_bind (nofl_space_expand acquire bytes (mh_nofl hp)) (\<lambda>space.
       Inr (hp\<lparr>mh_large_object_pages := npages, mh_nofl := space\<rparr>))))"

definition grow_heap_if_necessary :: "(u64 \<Rightarrow> u64 \<Rightarrow> u64) \<Rightarrow> bool \<Rightarrow> 'x mmc_heap \<Rightarrow> 'x mmc_heap result" where
  "grow_heap_if_necessary acquire progress hp =
    (if mh_fixed_size hp then Inr hp
     else
       result_bind (nofl_space_shrink 0 (mh_nofl hp)) (\<lambda>(pending, nofl).
       let hp = hp\<lparr>mh_nofl := nofl\<rparr>; pending = of_int pending in
       result_bind
         (if ns_heap_has_ambiguous_edges nofl \<and> \<not> progress
          then result_bind (nofl_active_block_count nofl) (\<lambda>active. Inr (of_nat active * NOFL_BLOCK_SIZE div 4))
          else Inr 0)
         (\<lambda>needed_headroom.
           let headroom = of_nat (nofl_empty_block_count nofl) * NOFL_BLOCK_SIZE + nofl_space_evacuation_reserve_bytes nofl in
           result_bind (nofl_space_evacuation_minimum_reserve_bytes nofl) (\<lambda>minimum.
           let needed_headroom = needed_headroom + minimum in
           if headroom < needed_headroom + pending
           then mmc_resize_heap acquire hp (mh_size hp - headroom + needed_headroom + pending)
           else Inr hp))))"

section \<open>The kind of a collection\<close>

definition clamp_major_gc_yield_threshold :: "'x mmc_heap \<Rightarrow> rat \<Rightarrow> rat" where
  "clamp_major_gc_yield_threshold hp threshold =
    (let threshold = (if threshold < mh_minimum_major_gc_yield_threshold hp then mh_minimum_major_gc_yield_threshold hp else threshold);
         one_block = round_double (double_of_size NOFL_BLOCK_SIZE / double_of_size (mh_size hp))
     in if threshold < one_block then one_block else threshold)"

definition determine_collection_kind ::
    "gc_config \<Rightarrow> 'x mmc_heap \<Rightarrow> gc_collection_kind \<Rightarrow> (gc_collection_kind \<times> 'x mmc_heap) result" where
  "determine_collection_kind cfg hp requested =
    (let nofl_space = mh_nofl hp; previous_gc_kind = mh_gc_kind hp; yield = heap_last_gc_yield hp in
     result_bind (heap_fragmentation hp) (\<lambda>fragmentation.
     let pending = ns_pending_unavailable_bytes nofl_space in
     result_bind
       (if mh_count hp = 0 then Inr Collection_major
        else if requested \<noteq> Collection_any then Inr requested
        else if pending > 0 then Inr Collection_compacting
        else if previous_gc_kind = Collection_compacting \<and> fragmentation \<ge> mh_fragmentation_low_threshold hp then Inr Collection_compacting
        else if fragmentation > mh_fragmentation_high_threshold hp then Inr Collection_compacting
        else if previous_gc_kind = Collection_compacting then Inr (if gc_generational cfg then Collection_minor else Collection_major)
        else if \<not> gc_generational cfg then result_bind (gc_assert (previous_gc_kind = Collection_major)) (\<lambda>_. Inr Collection_major)
        else if previous_gc_kind \<noteq> Collection_minor then Inr Collection_minor
        else if yield < mh_major_gc_yield_threshold hp then Inr Collection_major
        else result_bind (gc_assert (previous_gc_kind = Collection_minor)) (\<lambda>_. Inr Collection_minor))
       (\<lambda>kind.
         let kind = (if ns_heap_has_ambiguous_edges nofl_space \<and> kind = Collection_compacting then Collection_major else kind);
             hp = (if kind = Collection_minor \<and> previous_gc_kind \<noteq> Collection_minor
               then
                 (let threshold = round_double (heap_last_gc_yield hp * mh_minor_gc_yield_threshold hp)
                  in hp\<lparr>mh_major_gc_yield_threshold := clamp_major_gc_yield_threshold hp threshold\<rparr>)
               else hp)
         in Inr (kind, hp\<lparr>mh_gc_kind := kind\<rparr>))))"

section \<open>Objects\<close>

definition gc_pin_object :: "gc_ref \<Rightarrow> 'x mmc_heap \<Rightarrow> 'x mmc_heap result" where
  "gc_pin_object ref hp =
    result_bind (nofl_space_contains (mh_nofl hp) ref) (\<lambda>small.
      if small then result_bind (nofl_space_pin_object ref (mh_nofl hp)) (\<lambda>space. Inr (hp\<lparr>mh_nofl := space\<rparr>))
      else Inr hp)"

definition gc_resolve_conservative_ref ::
    "(u64 \<Rightarrow> bool) \<Rightarrow> u64 \<Rightarrow> bool \<Rightarrow> 'x mmc_heap \<Rightarrow> (gc_ref \<times> 'x mmc_heap) result" where
  "gc_resolve_conservative_ref valid_displacement ref possibly_interior hp =
    (if \<not> gc_conservative_ref_might_be_a_heap_object valid_displacement ref possibly_interior then Inr (gc_ref_null, hp)
     else
       result_bind (nofl_space_contains_conservative_ref (mh_nofl hp) ref) (\<lambda>small.
         if small then
           result_bind (nofl_space_resolve_conservative_ref valid_displacement (mh_nofl hp) ref possibly_interior) (\<lambda>r. Inr (r, hp))
         else
           result_bind (large_object_space_resolve_conservative_ref valid_displacement (mh_large hp) ref possibly_interior)
             (\<lambda>(r, space). Inr (r, hp\<lparr>mh_large := space\<rparr>))))"

definition gc_object_is_old_generation_slow :: "gc_config \<Rightarrow> 'x mmc_heap \<Rightarrow> gc_ref \<Rightarrow> bool result" where
  "gc_object_is_old_generation_slow cfg hp obj =
    (if \<not> gc_generational cfg then Inr False
     else
       result_bind (nofl_space_contains (mh_nofl hp) obj) (\<lambda>small.
         if small then nofl_space_is_survivor (mh_nofl hp) obj
         else
           result_bind (large_object_space_contains (mh_large hp) obj) (\<lambda>large.
             if large then large_object_space_is_survivor (mh_large hp) obj else Inr False)))"

text \<open>
  The barrier of \<open>src/api/gc-barrier.h\<close> with the constants of \<open>src/api/mmc-attrs.h\<close>. Its fast path finds the
  byte of an object and the byte and bit of a field by itself. A field with eight bytes is a half of a granule.
\<close>

definition gc_object_is_old_generation :: "gc_config \<Rightarrow> 'x mmc_heap \<Rightarrow> gc_ref \<Rightarrow> u64 \<Rightarrow> bool result" where
  "gc_object_is_old_generation cfg hp obj obj_sz =
    (if \<not> gc_generational cfg then Inl Crash
     else if obj_sz \<le> gc_allocator_large_threshold then
       (let alignment = gc_allocator_alloc_table_alignment;
            addr = obj;
            base = addr AND NOT (alignment - 1);
            granule = (addr AND (alignment - 1)) div gc_allocator_small_granule_size;
            byte = ns_mem (mh_nofl hp) (base + granule);
            msk = 7; young = 1
        in Inr (byte AND msk \<noteq> young))
     else gc_object_is_old_generation_slow cfg hp obj)"

definition gc_write_barrier_fast :: "gc_config \<Rightarrow> 'x mmc_heap \<Rightarrow> gc_ref \<Rightarrow> u64 \<Rightarrow> u64 \<Rightarrow> bool result" where
  "gc_write_barrier_fast cfg hp obj obj_sz edge =
    (if \<not> gc_generational cfg then Inr False
     else if obj_sz \<le> gc_allocator_large_threshold then
       result_bind (gc_object_is_old_generation cfg hp obj obj_sz) (\<lambda>old.
         if \<not> old then Inr False
         else
           (let field_table_alignment = gc_allocator_alloc_table_alignment;
                fields_per_byte = 2;
                first_bit_pattern = 64;
                table_offset = 0;
                addr = edge;
                base = addr AND NOT (field_table_alignment - 1);
                field = (addr AND (field_table_alignment - 1)) div 8;
                log_byte = field div fields_per_byte;
                log_bit = push_bit (unat (field mod fields_per_byte)) (first_bit_pattern :: u8);
                byte = ns_mem (mh_nofl hp) (base + table_offset + log_byte)
            in Inr (byte AND log_bit = 0)))
     else Inr True)"

text \<open>The barrier on storing \<open>new_val\<close> to the field \<open>edge\<close> of \<open>obj\<close>: the writer of the mutator is \<open>logger\<close>.\<close>

definition gc_write_barrier_slow ::
    "gc_config \<Rightarrow> gc_ref \<Rightarrow> u64 \<Rightarrow> u64 \<Rightarrow> gc_ref \<Rightarrow> gc_field_set_writer \<times> 'x mmc_heap \<Rightarrow> (gc_field_set_writer \<times> 'x mmc_heap) result" where
  "gc_write_barrier_slow cfg obj obj_sz edge new_val st =
    (let (logger, hp) = st in
     result_bind (gc_assert (\<not> gc_ref_is_null new_val)) (\<lambda>_.
       if \<not> gc_generational cfg then Inr st
       else
         result_bind (gc_object_is_old_generation_slow cfg hp new_val) (\<lambda>old.
           if old then Inr st
           else
             result_bind
               (if obj_sz \<le> gc_allocator_large_threshold
                then result_bind (nofl_space_remember_edge cfg obj edge (mh_nofl hp)) (\<lambda>(new, space). Inr (new, hp\<lparr>mh_nofl := space\<rparr>))
                else result_bind (large_object_space_remember_edge (mh_large hp) obj edge) (\<lambda>(new, space). Inr (new, hp\<lparr>mh_large := space\<rparr>)))
               (\<lambda>(new, hp).
                 if new then
                   result_bind (gc_field_set_writer_add_edge logger (mh_remembered_set hp) edge) (\<lambda>(logger, s).
                     Inr (logger, hp\<lparr>mh_remembered_set := s\<rparr>))
                 else Inr (logger, hp)))))"

definition gc_write_barrier ::
    "gc_config \<Rightarrow> gc_ref \<Rightarrow> u64 \<Rightarrow> u64 \<Rightarrow> gc_ref \<Rightarrow> gc_field_set_writer \<times> 'x mmc_heap \<Rightarrow> (gc_field_set_writer \<times> 'x mmc_heap) result" where
  "gc_write_barrier cfg obj obj_sz edge new_val st =
    result_bind (gc_write_barrier_fast cfg (snd st) obj obj_sz edge) (\<lambda>slow.
      if slow then gc_write_barrier_slow cfg obj obj_sz edge new_val st else Inr st)"

definition forget_remembered_edge :: "bool \<Rightarrow> gc_config \<Rightarrow> u64 \<Rightarrow> 'x mmc_heap \<Rightarrow> 'x mmc_heap result" where
  "forget_remembered_edge debug cfg edge hp =
    result_bind (nofl_space_contains_edge (mh_nofl hp) edge) (\<lambda>inside.
      if inside then result_bind (nofl_space_forget_edge debug cfg edge (mh_nofl hp)) (\<lambda>space. Inr (hp\<lparr>mh_nofl := space\<rparr>))
      else Inr hp)"

end
