(* ===== verification/StopTheWorld.thy ===== *)
theory StopTheWorld
  imports MmcHeap
begin

text \<open>
  How mutators are stopped for a collection, the part of \<open>src/src/mmc.c\<close> that threads share: a mutator that
  wants a collection asks the others to stop and waits for them; they notice it at a safepoint, count
  themselves as paused and wait; one that is deactivated is not waited for. All counts are guarded by the
  lock of the heap, and there are two conditions, one for the collector and one for the mutators.

  Each thread is a program counter. A step is what a thread does between taking the lock, or being handed
  it after a wait, and the next point at which it gives it up or another thread can notice; the flag
  \<open>collecting\<close>, which mutators also read without the lock, is written under the lock only. \<open>may\<close> says which
  kind of collection can be chosen from the number of collections, the kind of the last one and the kind
  that is asked for. Counts are integers, so that a count that became negative would show.
\<close>

section \<open>State\<close>

text \<open>
  What a thread is about to do, or is in the middle of, with the lock of the heap: \<open>add_mutator\<close>,
  \<open>remove_mutator\<close>, \<open>gc_safepoint_slow\<close>, \<open>deactivate_mutator\<close>, \<open>reactivate_mutator\<close>, or \<open>trigger_collection\<close> for
  a kind, with the kind that the last pause of the thread returned, if it paused.
\<close>

datatype mutator_task = Task_Add | Task_Remove | Task_Safepoint | Task_Deactivate | Task_Reactivate
  | Task_Trigger gc_collection_kind "gc_collection_kind option"

text \<open>
  A thread without a mutator, one that runs, one that is deactivated; one that waits for the lock, or
  has it; one that waits on the condition of the mutators, before it may be added or reactivated or in
  \<open>pause_mutator_for_collection\<close>, with the kind that the pause will return; and one that is in \<open>collect\<close>:
  it checks whether all others have stopped, waits for that, or collects. A wait ends when it has been
  signalled and the lock is free.
\<close>

datatype mutator_pc = Mutator_None | Mutator_Running | Mutator_Inactive | Mutator_Locking mutator_task | Mutator_Locked mutator_task
  | Mutator_Waiting mutator_task bool | Mutator_Paused mutator_task gc_collection_kind bool
  | Collector_Check gc_collection_kind | Collector_Waiting gc_collection_kind bool | Collector_Collecting gc_collection_kind

record mmc_mutators =
  mm_collecting :: bool
  mm_mutator_count :: int
  mm_paused_mutator_count :: int
  mm_inactive_mutator_count :: int
  mm_mutators :: "nat list"
  mm_active :: "nat \<Rightarrow> bool"
  mm_lock :: "nat option"
  mm_gc_kind :: gc_collection_kind
  mm_collections :: "gc_collection_kind list"
  mm_pc :: "nat \<Rightarrow> mutator_pc"
  mm_failed :: bool

text \<open>The collections made so far are \<open>mm_collections\<close>, the last one first: \<open>heap->count\<close> is their number.\<close>

definition mutators_are_stopping :: "mmc_mutators \<Rightarrow> bool" where
  "mutators_are_stopping s \<longleftrightarrow> mm_collecting s"

definition all_mutators_stopped :: "mmc_mutators \<Rightarrow> bool" where
  "all_mutators_stopped s \<longleftrightarrow> mm_mutator_count s = mm_paused_mutator_count s + mm_inactive_mutator_count s"

abbreviation mutator_go :: "nat \<Rightarrow> mutator_pc \<Rightarrow> mmc_mutators \<Rightarrow> mmc_mutators" where
  "mutator_go i pc s \<equiv> s\<lparr>mm_pc := (mm_pc s)(i := pc)\<rparr>"

abbreviation mutator_unlock :: "mmc_mutators \<Rightarrow> mmc_mutators" where
  "mutator_unlock s \<equiv> s\<lparr>mm_lock := None\<rparr>"

abbreviation mutator_assert :: "bool \<Rightarrow> mmc_mutators \<Rightarrow> mmc_mutators" where
  "mutator_assert c s \<equiv> s\<lparr>mm_failed := mm_failed s \<or> \<not> c\<rparr>"

text \<open>\<open>pthread_cond_signal\<close> of the condition of the collector, and \<open>pthread_cond_broadcast\<close> of that of the mutators.\<close>

definition signal_collector :: "mmc_mutators \<Rightarrow> mmc_mutators" where
  "signal_collector s = s\<lparr>mm_pc := (\<lambda>i. case mm_pc s i of Collector_Waiting kind _ \<Rightarrow> Collector_Waiting kind True | pc \<Rightarrow> pc)\<rparr>"

definition broadcast_mutators :: "mmc_mutators \<Rightarrow> mmc_mutators" where
  "broadcast_mutators s = s\<lparr>mm_pc := (\<lambda>i. case mm_pc s i of Mutator_Waiting task _ \<Rightarrow> Mutator_Waiting task True
    | Mutator_Paused task kind _ \<Rightarrow> Mutator_Paused task kind True | pc \<Rightarrow> pc)\<rparr>"

definition signal_if :: "bool \<Rightarrow> mmc_mutators \<Rightarrow> mmc_mutators" where
  "signal_if c s = (if c then signal_collector s else s)"

text \<open>\<open>(int)GC_COLLECTION_ANY\<close> and so on; a thread that did not pause has -1.\<close>

fun collection_kind_number :: "gc_collection_kind \<Rightarrow> int" where
  "collection_kind_number Collection_any = 0"
| "collection_kind_number Collection_minor = 1"
| "collection_kind_number Collection_major = 2"
| "collection_kind_number Collection_compacting = 3"

definition previous_kind_number :: "gc_collection_kind option \<Rightarrow> int" where
  "previous_kind_number prev_kind = (case prev_kind of None \<Rightarrow> - 1 | Some kind \<Rightarrow> collection_kind_number kind)"

section \<open>The operations under the lock\<close>

definition add_mutator :: "nat \<Rightarrow> mmc_mutators \<Rightarrow> mmc_mutators" where
  "add_mutator i s =
    s\<lparr>mm_active := (mm_active s)(i := True), mm_mutators := i # mm_mutators s, mm_mutator_count := mm_mutator_count s + 1\<rparr>"

definition remove_mutator :: "nat \<Rightarrow> mmc_mutators \<Rightarrow> mmc_mutators" where
  "remove_mutator i s =
    (let s = (if \<not> mm_active s i then s\<lparr>mm_inactive_mutator_count := mm_inactive_mutator_count s - 1\<rparr> else s);
         s = s\<lparr>mm_mutator_count := mm_mutator_count s - 1, mm_active := (mm_active s)(i := False),
               mm_mutators := remove1 i (mm_mutators s)\<rparr>
     in signal_if (mutators_are_stopping s \<and> all_mutators_stopped s) s)"

definition request_mutators_to_stop :: "mmc_mutators \<Rightarrow> mmc_mutators" where
  "request_mutators_to_stop s = (mutator_assert (\<not> mutators_are_stopping s) s)\<lparr>mm_collecting := True\<rparr>"

definition allow_mutators_to_continue :: "mmc_mutators \<Rightarrow> mmc_mutators" where
  "allow_mutators_to_continue s =
    (let s = mutator_assert (mutators_are_stopping s \<and> all_mutators_stopped s) s;
         s = s\<lparr>mm_paused_mutator_count := mm_paused_mutator_count s - 1, mm_collecting := False\<rparr>
     in broadcast_mutators s)"

text \<open>Pausing, up to the wait; and the rest of it, when the collection is over.\<close>

definition pause_mutator_for_collection :: "mmc_mutators \<Rightarrow> mmc_mutators" where
  "pause_mutator_for_collection s =
    (let s = mutator_assert (mutators_are_stopping s \<and> \<not> all_mutators_stopped s) s;
         s = s\<lparr>mm_paused_mutator_count := mm_paused_mutator_count s + 1\<rparr>
     in signal_if (all_mutators_stopped s) s)"

definition deactivate_mutator :: "nat \<Rightarrow> mmc_mutators \<Rightarrow> mmc_mutators" where
  "deactivate_mutator i s =
    (let s = mutator_assert (mm_active s i) s;
         s = s\<lparr>mm_inactive_mutator_count := mm_inactive_mutator_count s + 1, mm_active := (mm_active s)(i := False)\<rparr>
     in signal_if (all_mutators_stopped s) s)"

definition reactivate_mutator :: "nat \<Rightarrow> mmc_mutators \<Rightarrow> mmc_mutators" where
  "reactivate_mutator i s =
    s\<lparr>mm_active := (mm_active s)(i := True), mm_inactive_mutator_count := mm_inactive_mutator_count s - 1\<rparr>"

text \<open>What a task becomes when a pause has returned a kind.\<close>

fun task_resumed :: "gc_collection_kind \<Rightarrow> mutator_task \<Rightarrow> mutator_task" where
  "task_resumed kind (Task_Trigger requested _) = Task_Trigger requested (Some kind)"
| "task_resumed kind task = task"

section \<open>Steps\<close>

text \<open>
  \<open>Voluntary\<close> steps are what the embedder's threads choose to do, \<open>Spurious\<close> ones are wakeups without a
  signal, which POSIX allows, and \<open>Forced\<close> ones are what the collector's code does next.
\<close>

datatype mutator_step_kind = Voluntary | Spurious | Forced

abbreviation mutator_at :: "nat \<Rightarrow> mmc_mutators \<Rightarrow> nat \<Rightarrow> mutator_pc \<Rightarrow> bool" where
  "mutator_at n s i pc \<equiv> i < n \<and> mm_pc s i = pc"

inductive mutator_step ::
    "nat \<Rightarrow> (nat \<Rightarrow> gc_collection_kind \<Rightarrow> gc_collection_kind \<Rightarrow> gc_collection_kind \<Rightarrow> bool)
      \<Rightarrow> mutator_step_kind \<Rightarrow> mmc_mutators \<Rightarrow> mmc_mutators \<Rightarrow> bool"
  for n may where
  start_add: "mutator_at n s i Mutator_None \<Longrightarrow> mutator_step n may Voluntary s (mutator_go i (Mutator_Locking Task_Add) s)"
| start_safepoint: "mutator_at n s i Mutator_Running \<Longrightarrow> mutator_step n may Voluntary s (mutator_go i (Mutator_Locking Task_Safepoint) s)"
| start_trigger: "mutator_at n s i Mutator_Running \<Longrightarrow>
    mutator_step n may Voluntary s (mutator_go i (Mutator_Locking (Task_Trigger kind None)) s)"
| start_deactivate: "mutator_at n s i Mutator_Running \<Longrightarrow> mutator_step n may Voluntary s (mutator_go i (Mutator_Locking Task_Deactivate) s)"
| start_reactivate: "mutator_at n s i Mutator_Inactive \<Longrightarrow> mutator_step n may Voluntary s (mutator_go i (Mutator_Locking Task_Reactivate) s)"
| start_remove: "i < n \<Longrightarrow> mm_pc s i \<in> {Mutator_Running, Mutator_Inactive} \<Longrightarrow>
    mutator_step n may Voluntary s (mutator_go i (Mutator_Locking Task_Remove) s)"
| spurious_wait: "mutator_at n s i (Mutator_Waiting task False) \<Longrightarrow>
    mutator_step n may Spurious s (mutator_go i (Mutator_Waiting task True) s)"
| spurious_pause: "mutator_at n s i (Mutator_Paused task kind False) \<Longrightarrow>
    mutator_step n may Spurious s (mutator_go i (Mutator_Paused task kind True) s)"
| spurious_collector: "mutator_at n s i (Collector_Waiting kind False) \<Longrightarrow>
    mutator_step n may Spurious s (mutator_go i (Collector_Waiting kind True) s)"
| lock: "mutator_at n s i (Mutator_Locking task) \<Longrightarrow> mm_lock s = None \<Longrightarrow>
    mutator_step n may Forced s (mutator_go i (Mutator_Locked task) (s\<lparr>mm_lock := Some i\<rparr>))"
| wait: "mutator_at n s i (Mutator_Locked task) \<Longrightarrow> task \<in> {Task_Add, Task_Reactivate} \<Longrightarrow> mutators_are_stopping s \<Longrightarrow>
    mutator_step n may Forced s (mutator_go i (Mutator_Waiting task False) (mutator_unlock s))"
| wake: "mutator_at n s i (Mutator_Waiting task True) \<Longrightarrow> mm_lock s = None \<Longrightarrow>
    mutator_step n may Forced s (mutator_go i (Mutator_Locked task) (s\<lparr>mm_lock := Some i\<rparr>))"
| add: "mutator_at n s i (Mutator_Locked Task_Add) \<Longrightarrow> \<not> mutators_are_stopping s \<Longrightarrow>
    mutator_step n may Forced s (mutator_go i Mutator_Running (mutator_unlock (add_mutator i s)))"
| reactivate: "mutator_at n s i (Mutator_Locked Task_Reactivate) \<Longrightarrow> \<not> mutators_are_stopping s \<Longrightarrow>
    mutator_step n may Forced s (mutator_go i Mutator_Running (mutator_unlock (reactivate_mutator i s)))"
| deactivate: "mutator_at n s i (Mutator_Locked Task_Deactivate) \<Longrightarrow>
    mutator_step n may Forced s (mutator_go i Mutator_Inactive (mutator_unlock (deactivate_mutator i s)))"
| remove: "mutator_at n s i (Mutator_Locked Task_Remove) \<Longrightarrow>
    mutator_step n may Forced s (mutator_go i Mutator_None (mutator_unlock (remove_mutator i s)))"
| pause: "mutator_at n s i (Mutator_Locked task) \<Longrightarrow> task = Task_Safepoint \<or> task = Task_Trigger requested prev_kind \<Longrightarrow>
    mutators_are_stopping s \<Longrightarrow>
    mutator_step n may Forced s
      (mutator_go i (Mutator_Paused task (mm_gc_kind s) False) (mutator_unlock (pause_mutator_for_collection s)))"
| pause_again: "mutator_at n s i (Mutator_Paused task kind True) \<Longrightarrow> mm_lock s = None \<Longrightarrow> mutators_are_stopping s \<Longrightarrow>
    mutator_step n may Forced s (mutator_go i (Mutator_Paused task kind False) s)"
| resume: "mutator_at n s i (Mutator_Paused task kind True) \<Longrightarrow> mm_lock s = None \<Longrightarrow> \<not> mutators_are_stopping s \<Longrightarrow>
    mutator_step n may Forced s (mutator_go i (Mutator_Locked (task_resumed kind task))
      (s\<lparr>mm_lock := Some i, mm_paused_mutator_count := mm_paused_mutator_count s - 1\<rparr>))"
| safepoint: "mutator_at n s i (Mutator_Locked Task_Safepoint) \<Longrightarrow> \<not> mutators_are_stopping s \<Longrightarrow>
    mutator_step n may Forced s (mutator_go i Mutator_Running (mutator_unlock s))"
| collected_already: "mutator_at n s i (Mutator_Locked (Task_Trigger requested prev_kind)) \<Longrightarrow> \<not> mutators_are_stopping s \<Longrightarrow>
    \<not> previous_kind_number prev_kind < collection_kind_number requested \<Longrightarrow>
    mutator_step n may Forced s (mutator_go i Mutator_Running (mutator_unlock s))"
| collect: "mutator_at n s i (Mutator_Locked (Task_Trigger requested prev_kind)) \<Longrightarrow> \<not> mutators_are_stopping s \<Longrightarrow>
    previous_kind_number prev_kind < collection_kind_number requested \<Longrightarrow>
    s' = request_mutators_to_stop s \<Longrightarrow>
    mutator_step n may Forced s
      (mutator_go i (Collector_Check requested) (s'\<lparr>mm_paused_mutator_count := mm_paused_mutator_count s' + 1\<rparr>))"
| wait_for_mutators: "mutator_at n s i (Collector_Check requested) \<Longrightarrow> \<not> all_mutators_stopped s \<Longrightarrow>
    mutator_step n may Forced s (mutator_go i (Collector_Waiting requested False) (mutator_unlock s))"
| wake_collector: "mutator_at n s i (Collector_Waiting requested True) \<Longrightarrow> mm_lock s = None \<Longrightarrow>
    mutator_step n may Forced s (mutator_go i (Collector_Check requested) (s\<lparr>mm_lock := Some i\<rparr>))"
| mutators_stopped: "mutator_at n s i (Collector_Check requested) \<Longrightarrow> all_mutators_stopped s \<Longrightarrow>
    may (length (mm_collections s)) (mm_gc_kind s) requested kind \<Longrightarrow>
    mutator_step n may Forced s (mutator_go i (Collector_Collecting kind) (s\<lparr>mm_gc_kind := kind\<rparr>))"
| finish: "mutator_at n s i (Collector_Collecting kind) \<Longrightarrow>
    mutator_step n may Forced s (mutator_go i Mutator_Running (mutator_unlock
      (allow_mutators_to_continue (s\<lparr>mm_collections := kind # mm_collections s\<rparr>))))"

inductive_cases mutator_stepE: "mutator_step n may l s t"

text \<open>A heap as \<open>gc_init\<close> makes it, before its first mutator is added.\<close>

definition heap_mutators_init :: mmc_mutators where
  "heap_mutators_init = \<lparr> mm_collecting = False, mm_mutator_count = 0, mm_paused_mutator_count = 0, mm_inactive_mutator_count = 0,
    mm_mutators = [], mm_active = (\<lambda>_. False), mm_lock = None, mm_gc_kind = Collection_any, mm_collections = [],
    mm_pc = (\<lambda>_. Mutator_None), mm_failed = False \<rparr>"

end
