(* ===== verification/NoflLists.thy ===== *)
theory NoflLists
  imports NoflCollect
begin

text \<open>
  The lists of blocks of the nofl space as lists: which blocks each list holds, \<open>L\<close>, and which are held by
  no list, \<open>F\<close>. Pushing and popping refine the operations on lists, whatever flags the summaries carry
  beside their links.
\<close>

section \<open>Summaries and blocks\<close>

definition block_aligned :: "u64 \<Rightarrow> bool" where
  "block_aligned a \<longleftrightarrow> a AND (NOFL_BLOCK_SIZE - 1) = 0"

lemma block_aligned_nat: "block_aligned a \<longleftrightarrow> unat a mod 2 ^ 16 = 0"
  by (simp only: block_aligned_def nofl_sizes word_unat_eq_iff and_exp_minus_1 unat_0)

lemma block_aligned_0 [simp]: "block_aligned 0"
  by (simp add: block_aligned_def)

lemma align_down_block: "block_aligned a \<Longrightarrow> align_down a NOFL_BLOCK_SIZE = a"
  unfolding block_aligned_nat nofl_sizes word_unat_eq_iff by (subst unat_align_down) simp_all

lemma align_down_aligned: "block_aligned (align_down a NOFL_BLOCK_SIZE)"
  unfolding block_aligned_nat nofl_sizes by (subst unat_align_down) (simp_all add: minus_mod_eq_mult_div)

lemma summary_addr:
  "unat (nofl_block_summary_for_addr a) = unat a - unat a mod 2 ^ 22 + unat a mod 2 ^ 22 div 2 ^ 16 * 16"
proof -
  have d: "unat ((a AND (2 ^ 22 - 1)) div 2 ^ 16 * 16) = unat a mod 2 ^ 22 div 2 ^ 16 * 16"
  proof -
    have "unat ((a AND (2 ^ 22 - 1)) div 2 ^ 16) = unat a mod 2 ^ 22 div 2 ^ 16"
      by (simp only: unat_div and_exp_minus_1 unat_exp) simp
    moreover have "unat a mod 2 ^ 22 div 2 ^ 16 * 16 < 2 ^ 64" by (rule le_less_trans[of _ "2 ^ 22"]) auto
    ultimately show ?thesis by (simp add: unat_word_ariths)
  qed
  have b: "unat (align_down a (2 ^ 22)) = unat a - unat a mod 2 ^ 22" by (rule unat_align_down) simp
  have "unat a mod 2 ^ 22 div 2 ^ 16 * 16 \<le> unat a mod 2 ^ 22" by (simp add: div_times_less_eq_dividend le_trans[OF mult_le_mono2[of 16 "2 ^ 16"]])
  then have "unat a - unat a mod 2 ^ 22 + unat a mod 2 ^ 22 div 2 ^ 16 * 16 \<le> unat a"
    using mod_less_eq_dividend[of "unat a" "2 ^ 22"] by linarith
  then have "unat a - unat a mod 2 ^ 22 + unat a mod 2 ^ 22 div 2 ^ 16 * 16 < 2 ^ 64" using u64_bound[of a] by linarith
  then have "(unat (align_down a (2 ^ 22)) + unat ((a AND (2 ^ 22 - 1)) div 2 ^ 16 * 16)) mod 2 ^ 64
      = unat a - unat a mod 2 ^ 22 + unat a mod 2 ^ 22 div 2 ^ 16 * 16"
    unfolding b d by (rule mod_less)
  then show ?thesis unfolding nofl_block_summary_for_addr_def Let_def nofl_sizes using unat_word_ariths(1)[of "align_down a (2 ^ 22)" "(a AND (2 ^ 22 - 1)) div 2 ^ 16 * 16"] by simp
qed

lemma summary_inj:
  assumes "block_aligned a" "block_aligned b" "nofl_block_summary_for_addr a = nofl_block_summary_for_addr b"
  shows "a = b"
proof -
  have split: "unat x = x1 * 2 ^ 22 + x2 * 2 ^ 16 \<and> x2 < 64 \<and> unat (nofl_block_summary_for_addr x) = x1 * 2 ^ 22 + x2 * 16"
    if "block_aligned x" "x1 = unat x div 2 ^ 22" "x2 = unat x mod 2 ^ 22 div 2 ^ 16" for x x1 x2
  proof -
    have m: "unat x mod 2 ^ 22 mod 2 ^ 16 = 0" using that(1) unfolding block_aligned_nat by (simp add: mod_mod_cancel)
    have s: "unat x = x1 * 2 ^ 22 + unat x mod 2 ^ 22" unfolding that(2) by simp
    have "unat x mod 2 ^ 22 = x2 * 2 ^ 16 + unat x mod 2 ^ 22 mod 2 ^ 16" unfolding that(3) by (simp only: div_mult_mod_eq)
    then have r: "unat x mod 2 ^ 22 = x2 * 2 ^ 16" using m by linarith
    have "unat x mod 2 ^ 22 < 2 ^ 22" by simp
    then have "x2 < 64" unfolding r by simp
    moreover have "unat (nofl_block_summary_for_addr x) = unat x - unat x mod 2 ^ 22 + x2 * 16" unfolding that(3) by (rule summary_addr)
    ultimately show ?thesis using r s by linarith
  qed
  define a1 a2 b1 b2 where "a1 = unat a div 2 ^ 22" "a2 = unat a mod 2 ^ 22 div 2 ^ 16" "b1 = unat b div 2 ^ 22" "b2 = unat b mod 2 ^ 22 div 2 ^ 16"
  note A = split[OF assms(1) this(1,2)] and B = split[OF assms(2) this(3,4)]
  have e: "a1 * 2 ^ 22 + a2 * 16 = b1 * 2 ^ 22 + b2 * 16" using A B assms(3) by simp
  have d: "(c * 2 ^ 22 + d * 16) div 2 ^ 22 = c \<and> (c * 2 ^ 22 + d * 16) mod 2 ^ 22 = d * 16" if "d < 64" for c d :: nat
    using that by simp
  have lt: "a2 < 64" "b2 < 64" using A B by blast+
  have "a1 = b1" using conjunct1[OF d[OF lt(1), of a1]] conjunct1[OF d[OF lt(2), of b1]] unfolding e by simp
  moreover have "a2 * 16 = b2 * 16" using conjunct2[OF d[OF lt(1), of a1]] conjunct2[OF d[OF lt(2), of b1]] unfolding e by simp
  ultimately show ?thesis using A B by (simp add: word_unat_eq_iff)
qed

lemma summary_0: "nofl_block_summary_for_addr 0 = 0"
  by (simp add: word_unat_eq_iff summary_addr)

lemma summary_null: "block_aligned a \<Longrightarrow> nofl_block_summary_for_addr a = 0 \<longleftrightarrow> a = 0"
  using summary_inj[of a 0] summary_0 by auto

lemma block_for_addr:
  "block_aligned a \<Longrightarrow> nofl_block_for_addr a = \<lparr> ref_summary = nofl_block_summary_for_addr a, ref_addr = a \<rparr>"
  by (simp add: nofl_block_for_addr_def align_down_block)

lemma block_for_addr_fields [simp]:
  "ref_summary (nofl_block_for_addr a) = nofl_block_summary_for_addr a"
  "block_aligned a \<Longrightarrow> ref_addr (nofl_block_for_addr a) = a"
  by (simp_all add: nofl_block_for_addr_def align_down_block)

lemma block_for_addr_null [simp]: "block_aligned a \<Longrightarrow> nofl_block_is_null (nofl_block_for_addr a) \<longleftrightarrow> a = 0"
  by (simp add: nofl_block_is_null_def summary_null)

lemma block_for_addr_0: "nofl_block_for_addr 0 = nofl_block_null"
  by (simp add: block_for_addr summary_0 nofl_block_null_def)

section \<open>Links\<close>

lemma next_set_next:
  assumes "block_aligned v" "nofl_block_summary_set_next v s = Inr s'"
  shows "nofl_block_summary_next s' = v"
proof -
  have s': "sum_next_and_flags s' = (sum_next_and_flags s AND (NOFL_BLOCK_SIZE - 1)) OR v"
    using assms by (auto simp: nofl_block_summary_set_next_def result_bind_eq_Inr gc_assert_def split: if_splits)
  have v: "v AND NOT (NOFL_BLOCK_SIZE - 1) = v" using align_down_block[OF assms(1)] by (simp add: align_down_def)
  show ?thesis unfolding nofl_block_summary_next_def align_down_def s'
    by (rule bit_word_eqI) (use arg_cong[OF v, of bit] in \<open>auto simp: bit_simps fun_eq_iff\<close>)
qed

lemma flags_set_next:
  assumes "block_aligned v" "nofl_block_summary_set_next v s = Inr s'" "f AND (NOFL_BLOCK_SIZE - 1) = f"
  shows "nofl_block_summary_has_flag s' f = nofl_block_summary_has_flag s f"
proof -
  have s': "sum_next_and_flags s' = (sum_next_and_flags s AND (NOFL_BLOCK_SIZE - 1)) OR v"
    using assms by (auto simp: nofl_block_summary_set_next_def result_bind_eq_Inr gc_assert_def split: if_splits)
  have v: "v AND f = 0"
  proof (rule bit_word_eqI)
    fix n
    have "\<not> (bit v n \<and> bit (NOFL_BLOCK_SIZE - 1) n)"
      using arg_cong[OF assms(1)[unfolded block_aligned_def], of "\<lambda>w. bit w n"] unfolding bit_and_iff by simp
    moreover have "bit f n \<Longrightarrow> bit (NOFL_BLOCK_SIZE - 1) n" using arg_cong[OF assms(3), of "\<lambda>w. bit w n"] unfolding bit_and_iff by simp
    ultimately show "bit (v AND f) n = bit 0 n" by (auto simp: bit_simps)
  qed
  have "sum_next_and_flags s' AND f = (sum_next_and_flags s AND (f AND (NOFL_BLOCK_SIZE - 1))) OR (v AND f)"
    unfolding s' by (rule bit_word_eqI) (auto simp: bit_simps)
  then show ?thesis unfolding nofl_block_summary_has_flag_def v assms(3) by simp
qed

lemma flag_sizes [simp]:
  "NOFL_BLOCK_EVACUATE AND (NOFL_BLOCK_SIZE - 1) = NOFL_BLOCK_EVACUATE" "NOFL_BLOCK_ZERO AND (NOFL_BLOCK_SIZE - 1) = NOFL_BLOCK_ZERO"
  "NOFL_BLOCK_UNAVAILABLE AND (NOFL_BLOCK_SIZE - 1) = NOFL_BLOCK_UNAVAILABLE" "NOFL_BLOCK_PAGED_OUT AND (NOFL_BLOCK_SIZE - 1) = NOFL_BLOCK_PAGED_OUT"
  by code_simp+

lemma next_flags:
  assumes "f AND (NOFL_BLOCK_SIZE - 1) = f"
  shows "nofl_block_summary_next (nofl_block_summary_set_flag f s) = nofl_block_summary_next s"
    "nofl_block_summary_next (nofl_block_summary_clear_flag f s) = nofl_block_summary_next s"
proof -
  have "bit f n \<Longrightarrow> bit (NOFL_BLOCK_SIZE - 1) n" for n using arg_cong[OF assms, of "\<lambda>w. bit w n"] by (simp add: bit_simps)
  then show "nofl_block_summary_next (nofl_block_summary_set_flag f s) = nofl_block_summary_next s"
    "nofl_block_summary_next (nofl_block_summary_clear_flag f s) = nofl_block_summary_next s"
    unfolding nofl_block_summary_next_def align_down_def nofl_block_summary_set_flag_def nofl_block_summary_clear_flag_def
    by (auto intro!: bit_word_eqI simp: bit_simps)
qed

section \<open>The lists\<close>

definition link_of :: "nofl_space \<Rightarrow> u64 \<Rightarrow> u64" where
  "link_of space a = nofl_block_summary_next (ns_summaries space (nofl_block_summary_for_addr a))"

definition lists_ok :: "nofl_space \<Rightarrow> (nofl_list \<Rightarrow> u64 list) \<Rightarrow> u64 set \<Rightarrow> bool" where
  "lists_ok space L F \<longleftrightarrow>
    (\<forall>n. chain (link_of space) (list_blocks (ns_lists space n)) (L n) \<and> list_count (ns_lists space n) = length (L n)
      \<and> (\<forall>a \<in> set (L n). block_aligned a \<and> a \<notin> F))
    \<and> (\<forall>n m. n \<noteq> m \<longrightarrow> set (L n) \<inter> set (L m) = {})
    \<and> (\<forall>a \<in> F. a \<noteq> 0 \<and> block_aligned a \<and> link_of space a = 0)"

text \<open>What an operation on lists leaves as it was.\<close>

definition same_summary :: "nofl_block_summary \<Rightarrow> nofl_block_summary \<Rightarrow> bool" where
  "same_summary s s' \<longleftrightarrow> sum_hole_count s' = sum_hole_count s \<and> sum_hole_granules s' = sum_hole_granules s
    \<and> sum_holes_with_fragmentation s' = sum_holes_with_fragmentation s
    \<and> sum_fragmentation_granules s' = sum_fragmentation_granules s
    \<and> (\<forall>f. f AND (NOFL_BLOCK_SIZE - 1) = f \<longrightarrow> nofl_block_summary_has_flag s' f = nofl_block_summary_has_flag s f)"

definition only_lists :: "nofl_space \<Rightarrow> nofl_space \<Rightarrow> bool" where
  "only_lists space space' \<longleftrightarrow> (\<exists>ss lists. space' = space\<lparr>ns_summaries := ss, ns_lists := lists\<rparr>
    \<and> (\<forall>x. same_summary (ns_summaries space x) (ss x)))"

lemma same_summary_refl [simp]: "same_summary s s"
  by (simp add: same_summary_def)

lemma same_summary_trans: "same_summary s t \<Longrightarrow> same_summary t u \<Longrightarrow> same_summary s u"
  by (simp add: same_summary_def)

lemma only_lists_refl [simp]: "only_lists s s"
  unfolding only_lists_def by (intro exI[of _ "ns_summaries s"] exI[of _ "ns_lists s"]) simp

lemma only_lists_trans: "only_lists s t \<Longrightarrow> only_lists t u \<Longrightarrow> only_lists s u"
proof -
  assume "only_lists s t" "only_lists t u"
  then obtain s1 l1 s2 l2 where t: "t = s\<lparr>ns_summaries := s1, ns_lists := l1\<rparr>" "\<And>x. same_summary (ns_summaries s x) (s1 x)"
    and u: "u = t\<lparr>ns_summaries := s2, ns_lists := l2\<rparr>" "\<And>x. same_summary (ns_summaries t x) (s2 x)" by (auto simp: only_lists_def)
  have "same_summary (ns_summaries s x) (s2 x)" for x using same_summary_trans[OF t(2)[of x]] u(2)[of x] unfolding t(1) by simp
  then show "only_lists s u" unfolding only_lists_def u(1) t(1) by (intro exI[of _ s2] exI[of _ l2]) simp
qed

lemma only_lists_fields:
  assumes "only_lists s t"
  shows "ns_mem t = ns_mem s" "ns_current_mark t = ns_current_mark s" "ns_survivor_mark t = ns_survivor_mark s"
    "ns_evacuating t = ns_evacuating s" "ns_holes t = ns_holes s" "ns_slabs t = ns_slabs s"
    "ns_evacuation_minimum_reserve t = ns_evacuation_minimum_reserve s" "ns_evacuation_reserve t = ns_evacuation_reserve s"
    "ns_pending_unavailable_bytes t = ns_pending_unavailable_bytes s"
    "ns_old_generation_granules t = ns_old_generation_granules s" "ns_extents t = ns_extents s"
    "same_summary (ns_summaries s x) (ns_summaries t x)"
  using assms by (auto simp: only_lists_def)

lemma same_summary_set_next: "block_aligned v \<Longrightarrow> nofl_block_summary_set_next v s = Inr s' \<Longrightarrow> same_summary s s'"
  using flags_set_next[of v s s']
  by (auto simp: same_summary_def nofl_block_summary_set_next_def result_bind_eq_Inr gc_assert_def split: if_splits)

lemma set_next_total: "block_aligned v \<Longrightarrow> \<exists>s'. nofl_block_summary_set_next v s = Inr s'"
  by (simp add: nofl_block_summary_set_next_def block_aligned_def)

lemma block_set_next:
  assumes "block_aligned a" "a \<noteq> 0" "block_aligned v"
  obtains space' where "nofl_block_set_next (nofl_block_for_addr a) (nofl_block_for_addr v) space = Inr space'"
    "only_lists space space'" "ns_lists space' = ns_lists space"
    "\<And>b. block_aligned b \<Longrightarrow> link_of space' b = (if b = a then v else link_of space b)"
proof -
  let ?r = "nofl_block_for_addr a"
  obtain s' where s': "nofl_block_summary_set_next v (block_summary space ?r) = Inr s'" using set_next_total[OF assms(3)] by blast
  let ?s = "update_summary ?r (\<lambda>_. s') space"
  have r: "nofl_block_set_next ?r (nofl_block_for_addr v) space = Inr ?s"
    using assms s' by (simp add: nofl_block_set_next_def)
  have "same_summary (block_summary space ?r) s'" using same_summary_set_next[OF assms(3) s'] .
  then have "only_lists space ?s"
    unfolding only_lists_def by (intro exI[of _ "ns_summaries ?s"] exI[of _ "ns_lists ?s"]) (simp add: update_summary_def block_summary_def)
  moreover have "link_of ?s b = (if b = a then v else link_of space b)" if "block_aligned b" for b
    using next_set_next[OF assms(3) s'] summary_inj[OF that assms(1)] by (auto simp: link_of_def update_summary_def)
  ultimately show thesis using that[OF r] by (simp add: update_summary_def)
qed

lemma lists_ok_link:
  assumes "lists_ok space L F" "link_of space' = link_of space" "ns_lists space' = ns_lists space"
  shows "lists_ok space' L F"
  using assms by (simp add: lists_ok_def)

lemma chain_aligned_head: "chain nxt p xs \<Longrightarrow> \<forall>a \<in> set xs. block_aligned a \<Longrightarrow> block_aligned p"
  by (cases xs) auto

lemma block_head:
  assumes "lists_ok space L F"
  shows "nofl_block_head space n = nofl_block_for_addr (list_blocks (ns_lists space n))" "block_aligned (list_blocks (ns_lists space n))"
proof -
  show a: "block_aligned (list_blocks (ns_lists space n))"
    using assms chain_aligned_head[of "link_of space" "list_blocks (ns_lists space n)" "L n"] by (auto simp: lists_ok_def)
  show "nofl_block_head space n = nofl_block_for_addr (list_blocks (ns_lists space n))"
    by (simp add: nofl_block_head_def block_for_addr[OF a] block_for_addr_0 summary_0 nofl_block_null_def Let_def)
qed

lemma link_cong: "block_aligned a \<Longrightarrow> (\<And>b. block_aligned b \<Longrightarrow> f b = g b) \<Longrightarrow> f a = g a"
  by simp

lemma lists_push:
  assumes ok: "lists_ok space L F" "a \<in> F"
    and sp: "\<And>b. block_aligned b \<Longrightarrow> link_of space' b = (if b = a then list_blocks (ns_lists space n) else link_of space b)"
      "ns_lists space' = (ns_lists space)(n := \<lparr> list_count = list_count (ns_lists space n) + 1, list_blocks = a \<rparr>)"
  shows "lists_ok space' (L(n := a # L n)) (F - {a})"
proof -
  have L: "chain (link_of space) (list_blocks (ns_lists space m)) (L m)" "list_count (ns_lists space m) = length (L m)"
    "\<And>b. b \<in> set (L m) \<Longrightarrow> block_aligned b \<and> b \<notin> F" for m using ok(1) by (auto simp: lists_ok_def)
  have dis: "m \<noteq> k \<Longrightarrow> set (L m) \<inter> set (L k) = {}" for m k using ok(1) by (simp add: lists_ok_def)
  have F: "b \<in> F \<Longrightarrow> b \<noteq> 0 \<and> block_aligned b \<and> link_of space b = 0" for b using ok(1) by (simp add: lists_ok_def)
  have c: "chain (link_of space') (list_blocks (ns_lists space m)) (L m)" for m
    using L(1)[of m] by (subst chain_cong[of _ _ "link_of space"]) (use L(3)[of _ m] ok(2) sp(1) in auto)
  have a: "a \<noteq> 0" "block_aligned a" "\<And>m. a \<notin> set (L m)" using F[OF ok(2)] L(3) ok(2) by auto
  show ?thesis
    unfolding lists_ok_def
  proof (intro conjI allI ballI impI)
    fix m
    show "chain (link_of space') (list_blocks (ns_lists space' m)) ((L(n := a # L n)) m)"
      using c[of m] a sp(1)[OF a(2)] by (cases "m = n") (simp_all add: sp(2))
    show "list_count (ns_lists space' m) = length ((L(n := a # L n)) m)" using L(2)[of m] by (cases "m = n") (simp_all add: sp(2))
    show "b \<in> set ((L(n := a # L n)) m) \<Longrightarrow> block_aligned b" "b \<in> set ((L(n := a # L n)) m) \<Longrightarrow> b \<notin> F - {a}" for b
      using L(3)[of b] a(2) by (auto split: if_splits)
    show "m \<noteq> k \<Longrightarrow> set ((L(n := a # L n)) m) \<inter> set ((L(n := a # L n)) k) = {}" for k using dis[of m k] a(3) by auto
  qed (use F sp(1) in auto)
qed

lemma lists_pop:
  assumes ok: "lists_ok space L F" "L n = a # xs"
    and sp: "\<And>b. block_aligned b \<Longrightarrow> link_of space' b = (if b = a then 0 else link_of space b)"
      "ns_lists space' = (ns_lists space)(n := \<lparr> list_count = list_count (ns_lists space n) - 1, list_blocks = link_of space a \<rparr>)"
  shows "lists_ok space' (L(n := xs)) (insert a F)"
proof -
  have L: "chain (link_of space) (list_blocks (ns_lists space m)) (L m)" "list_count (ns_lists space m) = length (L m)"
    "\<And>b. b \<in> set (L m) \<Longrightarrow> block_aligned b \<and> b \<notin> F" for m using ok(1) by (auto simp: lists_ok_def)
  have dis: "m \<noteq> k \<Longrightarrow> set (L m) \<inter> set (L k) = {}" for m k using ok(1) by (simp add: lists_ok_def)
  have F: "b \<in> F \<Longrightarrow> b \<noteq> 0 \<and> block_aligned b \<and> link_of space b = 0" for b using ok(1) by (simp add: lists_ok_def)
  have n: "list_blocks (ns_lists space n) = a" "a \<noteq> 0" "chain (link_of space) (link_of space a) xs" "a \<notin> set xs"
    using L(1)[of n] chain_distinct[OF L(1)[of n]] unfolding ok(2) by auto
  have a: "block_aligned a" using L(3)[of a n] ok(2) by simp
  have o: "a \<notin> set (L m)" if "m \<noteq> n" for m using dis[OF that] ok(2) by auto
  have c: "chain (link_of space') p xs' = chain (link_of space) p xs'" if "a \<notin> set xs'" "\<And>b. b \<in> set xs' \<Longrightarrow> block_aligned b" for p xs'
    by (rule chain_cong) (use sp(1) that in auto)
  show ?thesis
    unfolding lists_ok_def
  proof (intro conjI allI ballI impI)
    fix m
    show "chain (link_of space') (list_blocks (ns_lists space' m)) ((L(n := xs)) m)"
    proof (cases "m = n")
      case True
      have "\<And>b. b \<in> set xs \<Longrightarrow> block_aligned b" using L(3)[of _ n] unfolding ok(2) by simp
      then show ?thesis using True n c[of xs] by (simp add: sp(2))
    next
      case False
      then show ?thesis using L(3)[of _ m] L(1)[of m] c[of "L m"] o[OF False] by (simp add: sp(2))
    qed
    show "list_count (ns_lists space' m) = length ((L(n := xs)) m)" using L(2)[of m] ok(2) by (auto simp: sp(2))
    show "b \<in> set ((L(n := xs)) m) \<Longrightarrow> block_aligned b" for b using L(3)[of b m] ok(2) by (auto split: if_splits)
    show "b \<in> set ((L(n := xs)) m) \<Longrightarrow> b \<notin> insert a F" for b using L(3)[of b m] ok(2) n(4) o[of m] by (auto split: if_splits)
    show "m \<noteq> k \<Longrightarrow> set ((L(n := xs)) m) \<inter> set ((L(n := xs)) k) = {}" for k using dis[of m k] ok(2) by auto
  qed (use F sp(1) n(2) a in auto)
qed

text \<open>Changing what the summaries hold beside the links, or nothing of the blocks, keeps the lists.\<close>

lemma link_of_update:
  assumes "\<And>s. nofl_block_summary_next (f s) = nofl_block_summary_next s"
  shows "link_of (update_summary b f space) = link_of space"
  by (rule ext) (simp add: link_of_def update_summary_def block_summary_def assms)

lemma only_lists_put: "only_lists space (put_list n l space)"
  unfolding only_lists_def by (intro exI[of _ "ns_summaries space"] exI) (auto simp: fun_upd_def)

lemma link_of_put [simp]: "link_of (space\<lparr>ns_lists := l\<rparr>) = link_of space"
  by (rule ext) (simp add: link_of_def)

lemma list_push_ok:
  assumes ok: "lists_ok space L F" "a \<in> F"
  obtains space' where "nofl_block_list_push n (nofl_block_for_addr a) space = Inr space'"
    "nofl_block_stack_push n (nofl_block_for_addr a) space = Inr space'"
    "lists_ok space' (L(n := a # L n)) (F - {a})" "only_lists space space'"
proof -
  have a: "a \<noteq> 0" "block_aligned a" "link_of space a = 0" using ok by (auto simp: lists_ok_def)
  let ?s1 = "put_list n ((ns_lists space n)\<lparr>list_count := list_count (ns_lists space n) + 1\<rparr>) space"
  let ?h = "list_blocks (ns_lists space n)"
  have head: "nofl_block_head ?s1 n = nofl_block_for_addr ?h" using block_head(1)[OF ok(1), of n] by (simp add: nofl_block_head_def)
  obtain s2 where s2: "nofl_block_set_next (nofl_block_for_addr a) (nofl_block_for_addr ?h) ?s1 = Inr s2" "only_lists ?s1 s2"
    "ns_lists s2 = ns_lists ?s1" "\<And>b. block_aligned b \<Longrightarrow> link_of s2 b = (if b = a then ?h else link_of ?s1 b)"
    using block_set_next[OF a(2,1) block_head(2)[OF ok(1)]] by metis
  have nxt: "nofl_block_next ?s1 (nofl_block_for_addr a) = Inr nofl_block_null"
    using a by (simp add: nofl_block_next_def block_summary_def link_of_def block_for_addr_0)
  let ?s3 = "put_list n ((ns_lists s2 n)\<lparr>list_blocks := a\<rparr>) s2"
  have r: "nofl_block_list_push n (nofl_block_for_addr a) space = Inr ?s3"
    "nofl_block_stack_push n (nofl_block_for_addr a) space = Inr ?s3"
    unfolding nofl_block_list_push_def nofl_block_stack_push_def Let_def nxt head
    using s2(1) a(2) by (simp_all add: nofl_block_is_null_def nofl_block_null_def)
  have "lists_ok ?s3 (L(n := a # L n)) (F - {a})"
    by (rule lists_push[OF ok]) (use s2(3,4) in auto)
  moreover have "only_lists space ?s3" using only_lists_trans[OF only_lists_trans[OF only_lists_put s2(2)] only_lists_put] .
  ultimately show thesis using that r by blast
qed

lemma list_pop_nil:
  assumes "lists_ok space L F" "L n = []"
  shows "nofl_block_list_pop n space = Inr (nofl_block_null, space)" "nofl_block_stack_pop n space = Inr (nofl_block_null, space)"
proof -
  have "chain (link_of space) (list_blocks (ns_lists space n)) (L n)" using assms(1) by (simp add: lists_ok_def)
  then have "nofl_block_head space n = nofl_block_null" using assms(2) by (simp add: nofl_block_head_def)
  then show "nofl_block_list_pop n space = Inr (nofl_block_null, space)" "nofl_block_stack_pop n space = Inr (nofl_block_null, space)"
    by (simp_all add: nofl_block_list_pop_def nofl_block_stack_pop_def nofl_block_is_null_def nofl_block_null_def)
qed

lemma list_pop_cons:
  assumes ok: "lists_ok space L F" "L n = a # xs"
  obtains space' where "nofl_block_list_pop n space = Inr (nofl_block_for_addr a, space')"
    "nofl_block_stack_pop n space = Inr (nofl_block_for_addr a, space')"
    "lists_ok space' (L(n := xs)) (insert a F)" "only_lists space space'" "a \<noteq> 0" "block_aligned a"
proof -
  have c: "chain (link_of space) (list_blocks (ns_lists space n)) (a # xs)" "\<forall>b \<in> set (a # xs). block_aligned b"
    using ok unfolding lists_ok_def by metis+
  have a: "list_blocks (ns_lists space n) = a" "a \<noteq> 0" "block_aligned a" using c by auto
  have la: "block_aligned (link_of space a)" unfolding link_of_def nofl_block_summary_next_def by (rule align_down_aligned)
  have head: "nofl_block_head space n = nofl_block_for_addr a" using block_head(1)[OF ok(1), of n] a(1) by simp
  have nxt: "nofl_block_next sp (nofl_block_for_addr a) = Inr (nofl_block_for_addr (link_of space a))"
    if "ns_summaries sp = ns_summaries space" for sp
    using a by (simp add: nofl_block_next_def block_summary_def link_of_def that)
  let ?l = "ns_lists space n"
  have set: "\<exists>s2. nofl_block_set_next (nofl_block_for_addr a) nofl_block_null (put_list n l space) = Inr s2
    \<and> only_lists (put_list n l space) s2 \<and> ns_lists s2 = (ns_lists space)(n := l)
    \<and> (\<forall>b. block_aligned b \<longrightarrow> link_of s2 b = (if b = a then 0 else link_of space b))
    \<and> s2 = put_list n l (the_summaries s2)" if "the_summaries = (\<lambda>s2. space\<lparr>ns_summaries := ns_summaries s2\<rparr>)" for l the_summaries
  proof -
    obtain s2 where s2: "nofl_block_set_next (nofl_block_for_addr a) (nofl_block_for_addr 0) (put_list n l space) = Inr s2"
      "only_lists (put_list n l space) s2" "ns_lists s2 = ns_lists (put_list n l space)"
      "\<And>b. block_aligned b \<Longrightarrow> link_of s2 b = (if b = a then 0 else link_of (put_list n l space) b)"
      using block_set_next[OF a(3,2) block_aligned_0] by metis
    have "s2 = put_list n l (space\<lparr>ns_summaries := ns_summaries s2\<rparr>)" using s2(2,3) by (auto simp: only_lists_def)
    then show ?thesis using s2 unfolding block_for_addr_0 that by auto
  qed
  define l1 where "l1 = \<lparr> list_count = list_count ?l - 1, list_blocks = link_of space a \<rparr>"
  obtain t where t: "nofl_block_set_next (nofl_block_for_addr a) nofl_block_null (put_list n l1 space) = Inr t"
    "only_lists (put_list n l1 space) t" "ns_lists t = (ns_lists space)(n := l1)"
    "\<And>b. block_aligned b \<Longrightarrow> link_of t b = (if b = a then 0 else link_of space b)" using set[of _ l1] by blast
  define l2 where "l2 = ?l\<lparr>list_blocks := link_of space a\<rparr>"
  have "nofl_block_set_next (nofl_block_for_addr a) nofl_block_null (put_list n l2 space)
    = map_result (\<lambda>t. put_list n l2 t) (nofl_block_set_next (nofl_block_for_addr a) nofl_block_null (put_list n l1 space))"
    using a by (cases "nofl_block_summary_set_next 0 (block_summary space (nofl_block_for_addr a))")
      (simp_all add: nofl_block_set_next_def nofl_block_null_def block_summary_def update_summary_def)
  then have t2: "nofl_block_set_next (nofl_block_for_addr a) nofl_block_null (put_list n l2 space) = Inr (put_list n l2 t)" using t(1) by simp
  have tt: "t\<lparr>ns_lists := (ns_lists space)(n := l1)\<rparr> = t" unfolding t(3)[symmetric] by simp
  have l2: "l2\<lparr>list_count := list_count l2 - Suc 0\<rparr> = l1" "?l\<lparr>list_count := list_count ?l - Suc 0, list_blocks := link_of space a\<rparr> = l1"
    by (simp_all add: l1_def l2_def)
  have r: "nofl_block_list_pop n space = Inr (nofl_block_for_addr a, t)" "nofl_block_stack_pop n space = Inr (nofl_block_for_addr a, t)"
    unfolding nofl_block_list_pop_def nofl_block_stack_pop_def Let_def head
    using a la nxt t(1) t2 tt t(3) by (simp_all add: l1_def[symmetric] l2_def[symmetric] l2)
  have "lists_ok t (L(n := xs)) (insert a F)" by (rule lists_pop[OF ok]) (use t(3,4) in \<open>auto simp: l1_def\<close>)
  moreover have "only_lists space t" using only_lists_trans[OF only_lists_put t(2)] .
  ultimately show thesis using that r a by blast
qed

end
