(* ===== verification/NoflGC.thy ===== *)
theory NoflGC
  imports NoflLists
begin

text \<open>
  What a major collection of the nofl space does to its lists of blocks before and after the trace: no
  block is lost or put on two lists, and after it a block is to be swept when and only when an object in
  it was marked.
\<close>

section \<open>Moving blocks between lists\<close>

lemma move_blocks_rule:
  assumes nil: "\<And>s. I s [] \<Longrightarrow> pop s = Inr (nofl_block_null, s)"
    and cons: "\<And>s x xs. I s (x # xs) \<Longrightarrow> \<exists>s1 s2. pop s = Inr (nofl_block_for_addr x, s1) \<and> block_aligned x \<and> x \<noteq> 0
      \<and> push (nofl_block_for_addr x) s1 = Inr s2 \<and> I s2 xs"
    and start: "I s xs"
  obtains t where "move_blocks pop push s = Inr t" "I t []"
proof -
  have "\<exists>t. while_result (\<lambda>(more, _). more)
      (\<lambda>(_, space). result_bind (pop space) (\<lambda>(block, space). if nofl_block_is_null block then Inr (False, space)
        else result_bind (push block space) (\<lambda>space. Inr (True, space)))) (True, s) = Inr (False, t) \<and> I t []"
    using start
  proof (induction xs arbitrary: s)
    case Nil
    have n: "nofl_block_is_null nofl_block_null" by (simp add: nofl_block_is_null_def nofl_block_null_def)
    show ?case using nil[OF Nil] n Nil
      by (subst while_result_unfold) (simp add: while_result_unfold[of "\<lambda>(more, _). more" _ "(False, _)"])
  next
    case (Cons x xs)
    obtain s1 s2 where s: "pop s = Inr (nofl_block_for_addr x, s1)" "block_aligned x" "x \<noteq> 0"
      "push (nofl_block_for_addr x) s1 = Inr s2" "I s2 xs" using cons[OF Cons.prems] by blast
    show ?case using Cons.IH[OF s(5)] s by (subst while_result_unfold) simp
  qed
  then show thesis using that by (auto simp: move_blocks_def)
qed

lemma move_list_ok:
  assumes "lists_ok space L F" "n \<noteq> m"
  obtains t where "move_blocks (nofl_block_list_pop n) (nofl_block_list_push m) space = Inr t"
    "lists_ok t (L(n := [], m := rev (L n) @ L m)) F" "only_lists space t"
proof -
  define I where "I = (\<lambda>s xs. lists_ok s (L(n := xs, m := rev (take (length (L n) - length xs) (L n)) @ L m)) F
    \<and> only_lists space s \<and> (\<exists>ys. L n = ys @ xs))"
  have start: "I space (L n)" using assms by (simp add: I_def fun_upd_idem)
  have nil: "nofl_block_list_pop n s = Inr (nofl_block_null, s)" if "I s []" for s
    using that assms(2) unfolding I_def by (elim conjE) (erule list_pop_nil, simp)
  have cons: "\<exists>s1 s2. nofl_block_list_pop n s = Inr (nofl_block_for_addr x, s1) \<and> block_aligned x \<and> x \<noteq> 0
      \<and> nofl_block_list_push m (nofl_block_for_addr x) s1 = Inr s2 \<and> I s2 xs" if i: "I s (x # xs)" for s x xs
  proof -
    obtain ys where ys: "L n = ys @ x # xs" using i by (auto simp: I_def)
    let ?L = "L(n := x # xs, m := rev ys @ L m)"
    have ok: "lists_ok s ?L F" "only_lists space s" using i ys by (simp_all add: I_def)
    obtain s1 where s1: "nofl_block_list_pop n s = Inr (nofl_block_for_addr x, s1)" "lists_ok s1 (?L(n := xs)) (insert x F)"
      "only_lists s s1" "x \<noteq> 0" "block_aligned x" by (rule list_pop_cons[OF ok(1)]) (use assms(2) in auto)
    have xF: "x \<notin> F" using ok(1) assms(2) by (auto simp: lists_ok_def dest!: spec[of _ n])
    obtain s2 where s2: "nofl_block_list_push m (nofl_block_for_addr x) s1 = Inr s2"
      "lists_ok s2 (?L(n := xs, m := x # (?L(n := xs)) m)) (insert x F - {x})" "only_lists s1 s2"
      by (rule list_push_ok[OF s1(2), of x m]) auto
    have "?L(n := xs, m := x # (?L(n := xs)) m) = L(n := xs, m := rev (ys @ [x]) @ L m)" using assms(2) by (auto simp: fun_eq_iff)
    moreover have "insert x F - {x} = F" using xF by simp
    ultimately have "I s2 xs" using s2(2) only_lists_trans[OF ok(2) only_lists_trans[OF s1(3) s2(3)]] ys by (simp add: I_def)
    then show ?thesis using s1 s2(1) by blast
  qed
  obtain t where t: "move_blocks (nofl_block_list_pop n) (nofl_block_list_push m) space = Inr t" "I t []"
    by (rule move_blocks_rule[where I = I, OF nil cons start])
  then show thesis using that[OF t(1)] assms(2) by (simp add: I_def)
qed

lemma list_count_ok: "lists_ok space L F \<Longrightarrow> nofl_block_count space n = length (L n)"
  by (simp add: lists_ok_def nofl_block_count_def)

section \<open>Walking over a list\<close>

text \<open>A loop that walks a list: its body keeps the links, and \<open>I\<close> for what is left.\<close>

lemma walk_rule:
  assumes step: "\<And>b xs st. I (b # xs) st \<Longrightarrow> \<exists>st'. body (nofl_block_for_addr b, st)
      = Inr (nofl_block_for_addr (link b), st') \<and> I xs st'"
    and chain: "chain link p xs" "\<forall>a \<in> set xs. block_aligned a" and start: "I xs st"
  shows "\<exists>st'. while_result (\<lambda>(b, _). \<not> nofl_block_is_null b) body (nofl_block_for_addr p, st)
    = Inr (nofl_block_null, st') \<and> I [] st'"
  using chain start
proof (induction xs arbitrary: p st)
  case Nil
  then show ?case by (subst while_result_unfold) (simp add: block_for_addr_0 nofl_block_is_null_def nofl_block_null_def)
next
  case (Cons b xs)
  then have b: "p = b" "b \<noteq> 0" "block_aligned b" "chain link (link b) xs" by auto
  obtain st' where st': "body (nofl_block_for_addr b, st) = Inr (nofl_block_for_addr (link b), st')" "I xs st'"
    using step[OF Cons.prems(3)] by blast
  show ?case using Cons.IH[OF b(4) _ st'(2)] Cons.prems(2) b st'(1) by (subst while_result_unfold) simp
qed

lemma next_link: "block_aligned b \<Longrightarrow> b \<noteq> 0 \<Longrightarrow> nofl_block_next space (nofl_block_for_addr b) = Inr (nofl_block_for_addr (link_of space b))"
  by (simp add: nofl_block_next_def block_summary_def link_of_def)

lemma survivor_histogram_total:
  assumes "lists_ok space L F"
  obtains hist where "survivor_histogram space = Inr hist"
proof -
  have c: "chain (link_of space) (list_blocks (ns_lists space List_to_sweep)) (L List_to_sweep)"
    "\<forall>a \<in> set (L List_to_sweep). block_aligned a" using assms by (auto simp: lists_ok_def)
  have z: "0 \<notin> set (L List_to_sweep)" using chain_nonzero[OF c(1)] .
  have "\<exists>hist. while_result (\<lambda>(b, _). \<not> nofl_block_is_null b)
      (\<lambda>(b, hist). result_bind (nofl_block_next space b) (\<lambda>nxt. Inr (nxt, count_survivors b (space, hist))))
      (nofl_block_for_addr (list_blocks (ns_lists space List_to_sweep)), replicate 33 0)
    = Inr (nofl_block_null, hist) \<and> (\<lambda>xs hist. \<forall>a \<in> set xs. block_aligned a \<and> a \<noteq> 0) [] hist"
    by (rule walk_rule[OF _ c]) (use z c(2) in \<open>auto simp: next_link\<close>)
  then show thesis using that by (auto simp: survivor_histogram_def)
qed

text \<open>Setting and clearing flags keeps the lists, and everything but the flag.\<close>

definition only_flags :: "nofl_space \<Rightarrow> nofl_space \<Rightarrow> bool" where
  "only_flags space space' \<longleftrightarrow> (\<exists>fl. space' = space\<lparr>ns_summaries := (\<lambda>x. (ns_summaries space x)\<lparr>sum_next_and_flags := fl x\<rparr>)\<rparr>
    \<and> (\<forall>x. align_down (fl x) NOFL_BLOCK_SIZE = nofl_block_summary_next (ns_summaries space x)))"

lemma only_flags_refl [simp]: "only_flags s s"
  unfolding only_flags_def by (rule exI[of _ "\<lambda>x. sum_next_and_flags (ns_summaries s x)"]) (simp add: nofl_block_summary_next_def)

lemma only_flags_trans:
  assumes "only_flags s t" "only_flags t u"
  shows "only_flags s u"
proof -
  obtain f where f: "t = s\<lparr>ns_summaries := (\<lambda>x. (ns_summaries s x)\<lparr>sum_next_and_flags := f x\<rparr>)\<rparr>"
    "\<And>x. align_down (f x) NOFL_BLOCK_SIZE = nofl_block_summary_next (ns_summaries s x)" using assms(1) by (auto simp: only_flags_def)
  obtain g where g: "u = t\<lparr>ns_summaries := (\<lambda>x. (ns_summaries t x)\<lparr>sum_next_and_flags := g x\<rparr>)\<rparr>"
    "\<And>x. align_down (g x) NOFL_BLOCK_SIZE = nofl_block_summary_next (ns_summaries t x)" using assms(2) by (auto simp: only_flags_def)
  have "u = s\<lparr>ns_summaries := (\<lambda>x. (ns_summaries s x)\<lparr>sum_next_and_flags := g x\<rparr>)\<rparr>" unfolding g(1) f(1) by simp
  moreover have "align_down (g x) NOFL_BLOCK_SIZE = nofl_block_summary_next (ns_summaries s x)" for x
    using g(2)[of x] f(2)[of x] unfolding f(1) by (simp add: nofl_block_summary_next_def)
  ultimately show ?thesis unfolding only_flags_def by blast
qed

lemma only_flags_link: "only_flags s t \<Longrightarrow> link_of t = link_of s"
  by (rule ext) (auto simp: only_flags_def link_of_def nofl_block_summary_next_def)

lemma only_flags_lists:
  assumes "only_flags s t" "lists_ok s L F"
  shows "lists_ok t L F"
proof -
  have "ns_lists t = ns_lists s" using assms(1) by (auto simp: only_flags_def)
  then show ?thesis by (rule lists_ok_link[OF assms(2) only_flags_link[OF assms(1)]])
qed

lemma set_flag_ok:
  assumes "block_aligned b" "b \<noteq> 0" "f AND (NOFL_BLOCK_SIZE - 1) = f"
  shows "\<exists>t. nofl_block_set_flag (nofl_block_for_addr b) f space = Inr t \<and> only_flags space t"
    "\<exists>t. nofl_block_clear_flag (nofl_block_for_addr b) f space = Inr t \<and> only_flags space t"
proof -
  have *: "only_flags space (update_summary (nofl_block_for_addr b) g space)"
    if "\<And>s. g s = s\<lparr>sum_next_and_flags := h s\<rparr>" "\<And>s. nofl_block_summary_next (g s) = nofl_block_summary_next s" for g h
    unfolding only_flags_def update_summary_def block_summary_def
    by (rule exI[of _ "\<lambda>x. (if x = nofl_block_summary_for_addr b then h (ns_summaries space x) else sum_next_and_flags (ns_summaries space x))"])
      (use that in \<open>auto simp: nofl_block_summary_next_def fun_eq_iff\<close>)
  show "\<exists>t. nofl_block_set_flag (nofl_block_for_addr b) f space = Inr t \<and> only_flags space t"
    "\<exists>t. nofl_block_clear_flag (nofl_block_for_addr b) f space = Inr t \<and> only_flags space t"
    using assms(1,2) *[of "nofl_block_summary_set_flag f" "\<lambda>s. sum_next_and_flags s OR f"]
      *[of "nofl_block_summary_clear_flag f" "\<lambda>s. sum_next_and_flags s AND NOT f"] next_flags[OF assms(3)]
    by (simp_all add: nofl_block_set_flag_def nofl_block_clear_flag_def nofl_block_summary_set_flag_def nofl_block_summary_clear_flag_def)
qed

lemma mark_candidates_ok:
  assumes "lists_ok space L F"
  obtains t where "mark_candidates hist space = Inr t" "only_flags space t"
proof -
  have c: "chain (link_of space) (list_blocks (ns_lists space List_to_sweep)) (L List_to_sweep)"
    "\<forall>a \<in> set (L List_to_sweep). block_aligned a" using assms by (auto simp: lists_ok_def)
  have z: "0 \<notin> set (L List_to_sweep)" using chain_nonzero[OF c(1)] .
  define I where "I = (\<lambda>xs (st :: nat list \<times> nofl_space). only_flags space (snd st) \<and> (\<forall>a \<in> set xs. block_aligned a \<and> a \<noteq> 0))"
  define body :: "nofl_block_ref \<times> nat list \<times> nofl_space \<Rightarrow> (nofl_block_ref \<times> nat list \<times> nofl_space) result" where "body = (\<lambda>(b, hist, space).
    let bucket = survivor_bucket space b in
    result_bind
      (if hist ! bucket \<noteq> 0
       then result_bind (nofl_block_set_flag b NOFL_BLOCK_EVACUATE space) (\<lambda>space. Inr (hist[bucket := hist ! bucket - 1], space))
       else result_bind (nofl_block_clear_flag b NOFL_BLOCK_EVACUATE space) (\<lambda>space. Inr (hist, space)))
      (\<lambda>(hist, space). result_bind (nofl_block_next space b) (\<lambda>nxt. Inr (nxt, hist, space))))"
  have "\<exists>st'. while_result (\<lambda>(b, _). \<not> nofl_block_is_null b) body
      (nofl_block_for_addr (list_blocks (ns_lists space List_to_sweep)), hist, space) = Inr (nofl_block_null, st') \<and> I [] st'"
  proof (rule walk_rule[OF _ c])
    show "I (L List_to_sweep) (hist, space)" using z c(2) by (auto simp: I_def)
    fix b xs st assume i: "I (b # xs) st"
    obtain h s where st: "st = (h, s)" by (cases st)
    have b: "block_aligned b" "b \<noteq> 0" "only_flags space s" using i by (simp_all add: I_def st)
    obtain t1 where t1: "nofl_block_set_flag (nofl_block_for_addr b) NOFL_BLOCK_EVACUATE s = Inr t1" "only_flags s t1"
      using set_flag_ok(1)[OF b(1,2) flag_sizes(1)] by blast
    obtain t2 where t2: "nofl_block_clear_flag (nofl_block_for_addr b) NOFL_BLOCK_EVACUATE s = Inr t2" "only_flags s t2"
      using set_flag_ok(2)[OF b(1,2) flag_sizes(1)] by blast
    have l: "link_of t1 = link_of space" "link_of t2 = link_of space" using only_flags_link t1(2) t2(2) b(3) by metis+
    show "\<exists>st'. body (nofl_block_for_addr b, st) = Inr (nofl_block_for_addr (link_of space b), st') \<and> I xs st'"
      using t1 t2 l b i only_flags_trans[OF b(3) t1(2)] only_flags_trans[OF b(3) t2(2)]
      by (auto simp: body_def st next_link I_def Let_def)
  qed
  then obtain h t where t: "while_result (\<lambda>(b, _). \<not> nofl_block_is_null b) body
      (nofl_block_for_addr (list_blocks (ns_lists space List_to_sweep)), hist, space) = Inr (nofl_block_null, h, t)" "only_flags space t"
    by (auto simp: I_def)
  show thesis by (rule that[OF _ t(2)]) (use t(1) in \<open>simp add: mark_candidates_def body_def\<close>)
qed

section \<open>Before the trace\<close>

text \<open>What the operations on lists and flags leave alone.\<close>

definition gc_frame :: "nofl_space \<Rightarrow> nofl_space \<Rightarrow> bool" where
  "gc_frame s t \<longleftrightarrow> ns_mem t = ns_mem s \<and> ns_current_mark t = ns_current_mark s \<and> ns_survivor_mark t = ns_survivor_mark s
    \<and> ns_slabs t = ns_slabs s \<and> ns_extents t = ns_extents s \<and> ns_holes t = ns_holes s
    \<and> ns_evacuation_minimum_reserve t = ns_evacuation_minimum_reserve s
    \<and> ns_pending_unavailable_bytes t = ns_pending_unavailable_bytes s
    \<and> ns_old_generation_granules t = ns_old_generation_granules s
    \<and> (\<forall>x. sum_hole_granules (ns_summaries t x) = sum_hole_granules (ns_summaries s x))"

lemma gc_frame_trans: "gc_frame s t \<Longrightarrow> gc_frame t u \<Longrightarrow> gc_frame s u"
  by (simp add: gc_frame_def)

lemma gc_frame_refl [simp]: "gc_frame s s"
  by (simp add: gc_frame_def)

lemma gc_frame_lists: "only_lists s t \<Longrightarrow> gc_frame s t"
  using only_lists_fields[of s t] by (simp add: gc_frame_def same_summary_def)

lemma gc_frame_flags: "only_flags s t \<Longrightarrow> gc_frame s t"
  by (auto simp: gc_frame_def only_flags_def)

lemma push_empty_is_list_push: "nofl_push_empty_block = nofl_block_list_push List_empty"
  by (rule ext)+ (simp add: nofl_push_empty_block_def nofl_block_stack_push_def nofl_block_list_push_def)

text \<open>The blocks that a trace may move objects to, and the lists when it begins.\<close>

definition lists_at_start :: "bool \<Rightarrow> (nofl_list \<Rightarrow> u64 list) \<Rightarrow> nofl_list \<Rightarrow> u64 list" where
  "lists_at_start compacting L =
    (let L = L(List_partly_full := [], List_full := [], List_promoted := [], List_old := [],
           List_to_sweep := rev (L List_old) @ rev (L List_promoted) @ rev (L List_full) @ rev (L List_partly_full) @ L List_to_sweep)
     in if compacting
        then L(List_evacuation_targets := [], List_empty := rev (L List_evacuation_targets) @ L List_empty) else L)"

lemma prepare_evacuation_ok:
  assumes ok: "lists_ok space L F" and e: "\<not> ns_evacuating space"
    and nil: "L List_partly_full = []" "L List_full = []" "L List_promoted = []" "L List_old = []"
  obtains t where "nofl_space_prepare_evacuation space = Inr t"
    "lists_ok t (L(List_evacuation_targets := [], List_empty := rev (L List_evacuation_targets) @ L List_empty)) F" "gc_frame space t"
proof -
  let ?L = "L(List_evacuation_targets := [], List_empty := rev (L List_evacuation_targets) @ L List_empty)"
  obtain s where s: "move_blocks (nofl_block_list_pop List_evacuation_targets) (nofl_block_list_push List_empty) space = Inr s"
    "lists_ok s ?L F" "only_lists space s" by (rule move_list_ok[OF ok, of List_evacuation_targets List_empty]) auto
  note cnt = list_count_ok[OF s(2)]
  have z: "\<forall>name \<in> {List_partly_full, List_full, List_promoted, List_old, List_evacuation_targets}. nofl_block_count s name = 0"
    using nil cnt by simp
  define s1 where "s1 = s\<lparr>ns_evacuation_reserve := RESERVE_0_5, ns_evacuating := True\<rparr>"
  have ok1: "lists_ok s1 ?L F" by (rule lists_ok_link[OF s(2)]) (auto simp: s1_def link_of_def)
  obtain hist where hist: "survivor_histogram s1 = Inr hist" by (rule survivor_histogram_total[OF ok1])
  obtain t where t: "mark_candidates (select_buckets (nofl_block_count s List_empty * unat NOFL_GRANULES_PER_BLOCK) hist) s1 = Inr t" "only_flags s1 t"
    by (rule mark_candidates_ok[OF ok1])
  have r: "nofl_space_prepare_evacuation space = (if nofl_block_count s List_empty = 0 then Inr s else Inr t)"
    unfolding nofl_space_prepare_evacuation_def push_empty_is_list_push using e s(1) z hist t(1) by (simp add: Let_def s1_def[symmetric])
  have f: "gc_frame space s" by (rule gc_frame_lists[OF s(3)])
  have "gc_frame s s1" by (simp add: gc_frame_def s1_def)
  then have "gc_frame space t" using gc_frame_trans f gc_frame_flags[OF t(2)] by blast
  then show thesis using that r s(2) f only_flags_lists[OF t(2) ok1] by (cases "nofl_block_count s List_empty = 0") auto
qed

lemma start_gc_ok:
  assumes ok: "lists_ok space L F" and e: "\<not> ns_evacuating space" and nil: "L List_to_sweep = []" and k: "kind \<noteq> Collection_minor"
  obtains t where "nofl_space_start_gc kind space = Inr t" "lists_ok t (lists_at_start (kind = Collection_compacting) L) F"
    "gc_frame (space\<lparr>ns_old_generation_granules := 0\<rparr>) t"
proof -
  obtain s1 where s1: "move_blocks (nofl_block_list_pop List_partly_full) (nofl_block_list_push List_to_sweep) space = Inr s1"
    "lists_ok s1 (L(List_partly_full := [], List_to_sweep := rev (L List_partly_full) @ L List_to_sweep)) F" "only_lists space s1"
    by (rule move_list_ok[OF ok, of List_partly_full List_to_sweep]) auto
  obtain s2 where s2: "move_blocks (nofl_block_list_pop List_full) (nofl_block_list_push List_to_sweep) s1 = Inr s2"
    "lists_ok s2 (L(List_partly_full := [], List_full := [],
      List_to_sweep := rev (L List_full) @ rev (L List_partly_full) @ L List_to_sweep)) F" "only_lists s1 s2"
    by (rule move_list_ok[OF s1(2), of List_full List_to_sweep]) (auto simp: fun_upd_twist)
  obtain s3 where s3: "move_blocks (nofl_block_list_pop List_promoted) (nofl_block_list_push List_to_sweep) s2 = Inr s3"
    "lists_ok s3 (L(List_partly_full := [], List_full := [], List_promoted := [],
      List_to_sweep := rev (L List_promoted) @ rev (L List_full) @ rev (L List_partly_full) @ L List_to_sweep)) F" "only_lists s2 s3"
    by (rule move_list_ok[OF s2(2), of List_promoted List_to_sweep]) (auto simp: fun_upd_twist)
  obtain s4 where s4: "move_blocks (nofl_block_list_pop List_old) (nofl_block_list_push List_to_sweep) s3 = Inr s4"
    "lists_ok s4 (L(List_partly_full := [], List_full := [], List_promoted := [], List_old := [],
      List_to_sweep := rev (L List_old) @ rev (L List_promoted) @ rev (L List_full) @ rev (L List_partly_full) @ L List_to_sweep)) F"
    "only_lists s3 s4"
    by (rule move_list_ok[OF s3(2), of List_old List_to_sweep]) (auto simp: fun_upd_twist)
  let ?s = "s4\<lparr>ns_old_generation_granules := 0\<rparr>"
  have ok5: "lists_ok ?s (lists_at_start False L) F" by (rule lists_ok_link[of s4]) (use s4(2) in \<open>auto simp: link_of_def lists_at_start_def Let_def\<close>)
  have ol: "only_lists space s4" using only_lists_trans s1(3) s2(3) s3(3) s4(3) by blast
  have f: "gc_frame (space\<lparr>ns_old_generation_granules := 0\<rparr>) ?s" using gc_frame_lists[OF ol] by (simp add: gc_frame_def)
  have e5: "\<not> ns_evacuating ?s" using only_lists_fields(4)[OF ol] e by simp
  have r: "nofl_space_start_gc kind space = (if kind = Collection_compacting then nofl_space_prepare_evacuation ?s else Inr ?s)"
    using k nil list_count_ok[OF ok] s1(1) s2(1) s3(1) s4(1) by (simp add: nofl_space_start_gc_def)
  show thesis
  proof (cases "kind = Collection_compacting")
    case True
    obtain t where t: "nofl_space_prepare_evacuation ?s = Inr t" "lists_ok t ((lists_at_start False L)(List_evacuation_targets := [],
      List_empty := rev (lists_at_start False L List_evacuation_targets) @ lists_at_start False L List_empty)) F" "gc_frame ?s t"
      by (rule prepare_evacuation_ok[OF ok5 e5]) (auto simp: lists_at_start_def Let_def)
    then show thesis using that[of t] True t(1,2) gc_frame_trans[OF f t(3)] r by (simp add: lists_at_start_def Let_def)
  next
    case False
    then show thesis using that[of ?s] ok5 f r by (simp add: lists_at_start_def)
  qed
qed

section \<open>The metadata and the mark of a block\<close>

definition nonmeta :: "u64 \<Rightarrow> bool" where
  "nonmeta a \<longleftrightarrow> 2 ^ 18 \<le> unat a mod 2 ^ 22"

definition meta_range :: "u64 \<Rightarrow> u64 set" where
  "meta_range a = {x. x - nofl_metadata_byte_for_addr a < NOFL_GRANULES_PER_BLOCK}"

lemma metadata_addr: "unat (nofl_metadata_byte_for_addr a) = unat a - unat a mod 2 ^ 22 + unat a mod 2 ^ 22 div 16"
proof -
  have d: "unat (drop_bit 4 (a AND (2 ^ 22 - 1))) = unat a mod 2 ^ 22 div 16"
    by (simp only: unsigned_drop_bit_eq take_bit_nat_def drop_bit_nat_def and_exp_minus_1) simp
  have b: "unat (align_down a (2 ^ 22)) = unat a - unat a mod 2 ^ 22" by (rule unat_align_down) simp
  have "unat a mod 2 ^ 22 div 16 \<le> unat a mod 2 ^ 22" by (rule div_le_dividend)
  then have "unat a - unat a mod 2 ^ 22 + unat a mod 2 ^ 22 div 16 < 2 ^ 64"
    using mod_less_eq_dividend[of "unat a" "2 ^ 22"] u64_bound[of a] by linarith
  then have "(unat (align_down a (2 ^ 22)) + unat (drop_bit 4 (a AND (2 ^ 22 - 1)))) mod 2 ^ 64
      = unat a - unat a mod 2 ^ 22 + unat a mod 2 ^ 22 div 16" unfolding b d by (rule mod_less)
  then show ?thesis unfolding nofl_metadata_byte_for_addr_def Let_def nofl_sizes NOFL_GRANULE_SIZE_LOG_2_def
    using unat_word_ariths(1)[of "align_down a (2 ^ 22)" "drop_bit 4 (a AND (2 ^ 22 - 1))"] by simp
qed

lemma mark_addr: "unat (nofl_block_mark_loc a) = unat a - unat a mod 2 ^ 22 + unat a mod 2 ^ 22 div 2 ^ 16"
proof -
  have "unat (a div 2 ^ 16 mod 64) = unat a div 2 ^ 16 mod 2 ^ 6" by (simp add: unat_div unat_mod)
  also have "\<dots> = unat a mod 2 ^ 22 div 2 ^ 16" using div_exp_mod_exp_eq[of "unat a" 16 6] by simp
  finally have d: "unat (a div 2 ^ 16 mod 64) = unat a mod 2 ^ 22 div 2 ^ 16" .
  have b: "unat (align_down a (2 ^ 22)) = unat a - unat a mod 2 ^ 22" by (rule unat_align_down) simp
  have "unat a mod 2 ^ 22 div 2 ^ 16 \<le> unat a mod 2 ^ 22" by (rule div_le_dividend)
  then have "unat a - unat a mod 2 ^ 22 + unat a mod 2 ^ 22 div 2 ^ 16 < 2 ^ 64"
    using mod_less_eq_dividend[of "unat a" "2 ^ 22"] u64_bound[of a] by linarith
  then have "(unat (align_down a (2 ^ 22)) + unat (a div 2 ^ 16 mod 64)) mod 2 ^ 64
      = unat a - unat a mod 2 ^ 22 + unat a mod 2 ^ 22 div 2 ^ 16" unfolding b d by (rule mod_less)
  then show ?thesis unfolding nofl_block_mark_loc_def Let_def nofl_sizes
    using unat_word_ariths(1)[of "align_down a (2 ^ 22)" "a div 2 ^ 16 mod 64"] by simp
qed

lemma block_parts:
  assumes "block_aligned a"
  obtains p k where "unat a = p * 2 ^ 22 + k * 2 ^ 16" "k < 64" "p < 2 ^ 42" "nonmeta a \<longleftrightarrow> 4 \<le> k"
    "unat (nofl_metadata_byte_for_addr a) = p * 2 ^ 22 + k * 2 ^ 12" "unat (nofl_block_mark_loc a) = p * 2 ^ 22 + k"
proof -
  define p k where "p = unat a div 2 ^ 22" and "k = unat a mod 2 ^ 22 div 2 ^ 16"
  have m: "unat a mod 2 ^ 22 mod 2 ^ 16 = 0" using assms unfolding block_aligned_nat by (simp add: mod_mod_cancel)
  have "unat a mod 2 ^ 22 = k * 2 ^ 16 + unat a mod 2 ^ 22 mod 2 ^ 16" unfolding k_def by (simp only: div_mult_mod_eq)
  then have r: "unat a mod 2 ^ 22 = k * 2 ^ 16" using m by linarith
  have d: "unat a = p * 2 ^ 22 + k * 2 ^ 16" using div_mult_mod_eq[of "unat a" "2 ^ 22"] unfolding p_def[symmetric] r by linarith
  have "unat a mod 2 ^ 22 < 2 ^ 22" by simp
  then have k: "k < 64" unfolding r by simp
  have "unat a < 2 ^ 64" by (rule u64_bound)
  then have p: "p < 2 ^ 42" unfolding p_def by (simp add: less_mult_imp_div_less)
  have 16: "k * 2 ^ 16 div 16 = k * 2 ^ 12" by simp
  show thesis
  proof (rule that[OF d k p])
    show "nonmeta a \<longleftrightarrow> 4 \<le> k" unfolding nonmeta_def r by simp
    show "unat (nofl_metadata_byte_for_addr a) = p * 2 ^ 22 + k * 2 ^ 12" unfolding metadata_addr r 16 unfolding d by simp
    show "unat (nofl_block_mark_loc a) = p * 2 ^ 22 + k" unfolding mark_addr r unfolding d by simp
  qed
qed

lemma meta_range_nat:
  assumes "block_aligned a" "unat a = p * 2 ^ 22 + k * 2 ^ 16" "k < 64" "p < 2 ^ 42"
    "unat (nofl_metadata_byte_for_addr a) = p * 2 ^ 22 + k * 2 ^ 12"
  shows "x \<in> meta_range a \<longleftrightarrow> p * 2 ^ 22 + k * 2 ^ 12 \<le> unat x \<and> unat x < p * 2 ^ 22 + (k + 1) * 2 ^ 12"
proof -
  have "x \<in> meta_range a \<longleftrightarrow> unat (x - nofl_metadata_byte_for_addr a) < 4096"
    by (simp add: meta_range_def nofl_sizes word_less_nat_alt)
  also have "\<dots> \<longleftrightarrow> p * 2 ^ 22 + k * 2 ^ 12 \<le> unat x \<and> unat x < p * 2 ^ 22 + (k + 1) * 2 ^ 12"
  proof (cases "p * 2 ^ 22 + k * 2 ^ 12 \<le> unat x")
    case True
    then show ?thesis unfolding unat_sub_if' assms(5) by auto
  next
    case False
    have "p * 2 ^ 22 + k * 2 ^ 12 + 4096 \<le> 2 ^ 64" using assms(3,4) by simp
    then show ?thesis using False unfolding unat_sub_if' assms(5) by auto
  qed
  finally show ?thesis .
qed

lemma mark_not_metadata:
  assumes "block_aligned a" "nonmeta a" "block_aligned b"
  shows "nofl_block_mark_loc b \<notin> meta_range a"
proof -
  obtain p k where a: "unat a = p * 2 ^ 22 + k * 2 ^ 16" "k < 64" "p < 2 ^ 42" "nonmeta a \<longleftrightarrow> 4 \<le> k"
    "unat (nofl_metadata_byte_for_addr a) = p * 2 ^ 22 + k * 2 ^ 12" by (rule block_parts[OF assms(1)])
  obtain q j where b: "j < 64" "unat (nofl_block_mark_loc b) = q * 2 ^ 22 + j" by (rule block_parts[OF assms(3)])
  have k: "4 \<le> k" using a(4) assms(2) by simp
  show ?thesis
  proof
    assume "nofl_block_mark_loc b \<in> meta_range a"
    then have r: "p * 2 ^ 22 + k * 2 ^ 12 \<le> q * 2 ^ 22 + j" "q * 2 ^ 22 + j < p * 2 ^ 22 + (k + 1) * 2 ^ 12"
      using meta_range_nat[OF assms(1) a(1,2,3,5)] b(2) by simp_all
    have "q < p + 1" "p < q + 1"
    proof -
      have "q * 2 ^ 22 < (p + 1) * 2 ^ 22" using r(2) a(2) by simp
      then show "q < p + 1" by simp
      have "p * 2 ^ 22 < (q + 1) * 2 ^ 22" using r(1) b(1) by simp
      then show "p < q + 1" by simp
    qed
    then show False using r(1) k b(1) by simp
  qed
qed

lemma metadata_disjoint:
  assumes "block_aligned a" "block_aligned b" "x \<in> meta_range a" "x \<in> meta_range b"
  shows "a = b"
proof -
  obtain p k where a: "unat a = p * 2 ^ 22 + k * 2 ^ 16" "k < 64" "p < 2 ^ 42"
    "unat (nofl_metadata_byte_for_addr a) = p * 2 ^ 22 + k * 2 ^ 12" by (rule block_parts[OF assms(1)])
  obtain q j where b: "unat b = q * 2 ^ 22 + j * 2 ^ 16" "j < 64" "q < 2 ^ 42"
    "unat (nofl_metadata_byte_for_addr b) = q * 2 ^ 22 + j * 2 ^ 12" by (rule block_parts[OF assms(2)])
  have r: "p * 2 ^ 22 + k * 2 ^ 12 \<le> unat x" "unat x < p * 2 ^ 22 + (k + 1) * 2 ^ 12"
    "q * 2 ^ 22 + j * 2 ^ 12 \<le> unat x" "unat x < q * 2 ^ 22 + (j + 1) * 2 ^ 12"
    using meta_range_nat[OF assms(1) a] meta_range_nat[OF assms(2) b] assms(3,4) by simp_all
  have "p = q"
  proof -
    have "q * 2 ^ 22 < (p + 1) * 2 ^ 22" "p * 2 ^ 22 < (q + 1) * 2 ^ 22" using r a(2) b(2) by simp_all
    then show ?thesis by simp
  qed
  moreover have "k = j" using r \<open>p = q\<close> by simp
  ultimately show ?thesis using a(1) b(1) by (simp add: word_unat_eq_iff)
qed

section \<open>After the trace\<close>

definition reserve_lists_ok :: "nofl_space \<Rightarrow> (nofl_list \<Rightarrow> u64 list) \<Rightarrow> bool" where
  "reserve_lists_ok space L \<longleftrightarrow>
    sum_list (map (\<lambda>age. length (L (List_paged_out age))) [0..<NOFL_PAGE_OUT_QUEUE_SIZE]) \<le> length (ns_slabs space) * 60"

lemma active_count:
  assumes "lists_ok space L F" "reserve_lists_ok space L"
  obtains n where "nofl_active_block_count space = Inr n"
  using assms list_count_ok[OF assms(1)]
  by (auto simp: nofl_active_block_count_def reserve_lists_ok_def nofl_sizes Let_def)

lemma push_target_ok:
  assumes ok: "lists_ok space L F" "reserve_lists_ok space L" "a \<in> F"
  obtains pushed t where "nofl_maybe_push_evacuation_target (nofl_block_for_addr a) reserve space = Inr (pushed, t)"
    "pushed \<Longrightarrow> lists_ok t (L(List_evacuation_targets := a # L List_evacuation_targets)) (F - {a})" "\<not> pushed \<Longrightarrow> t = space" "only_lists space t"
proof -
  obtain n where n: "nofl_active_block_count space = Inr n" by (rule active_count[OF ok(1,2)])
  obtain t where t: "nofl_block_list_push List_evacuation_targets (nofl_block_for_addr a) space = Inr t"
    "lists_ok t (L(List_evacuation_targets := a # L List_evacuation_targets)) (F - {a})" "only_lists space t"
    by (rule list_push_ok[OF ok(1,3)])
  show thesis
  proof (cases "nofl_evacuation_block_count space \<ge> reserve_blocks n reserve")
    case True
    then show thesis using that[of False space] n by (simp add: nofl_maybe_push_evacuation_target_def)
  next
    case False
    then show thesis using that[of True t] n t by (simp add: nofl_maybe_push_evacuation_target_def)
  qed
qed

text \<open>A block goes to the evacuation targets or to the empty blocks.\<close>

definition emptied :: "(nofl_list \<Rightarrow> u64 list) \<Rightarrow> u64 set \<Rightarrow> (nofl_list \<Rightarrow> u64 list) \<Rightarrow> bool" where
  "emptied L A L' \<longleftrightarrow> set (L' List_empty) \<union> set (L' List_evacuation_targets) = set (L List_empty) \<union> set (L List_evacuation_targets) \<union> A
    \<and> (\<forall>n. n \<notin> {List_empty, List_evacuation_targets} \<longrightarrow> L' n = L n)"

lemma push_free_ok:
  assumes ok: "lists_ok space L F" "reserve_lists_ok space L" "a \<in> F"
  obtains t L' where "result_bind (nofl_maybe_push_evacuation_target (nofl_block_for_addr a) reserve space) (\<lambda>(pushed, space).
      if \<not> pushed then nofl_push_empty_block (nofl_block_for_addr a) space else Inr space) = Inr t"
    "lists_ok t L' (F - {a})" "emptied L {a} L'" "only_lists space t"
proof -
  obtain pushed t where t: "nofl_maybe_push_evacuation_target (nofl_block_for_addr a) reserve space = Inr (pushed, t)"
    "pushed \<Longrightarrow> lists_ok t (L(List_evacuation_targets := a # L List_evacuation_targets)) (F - {a})" "\<not> pushed \<Longrightarrow> t = space" "only_lists space t"
    using push_target_ok[OF ok, where reserve = reserve] by blast
  obtain u where u: "nofl_push_empty_block (nofl_block_for_addr a) space = Inr u"
    "lists_ok u (L(List_empty := a # L List_empty)) (F - {a})" "only_lists space u"
    unfolding push_empty_is_list_push by (rule list_push_ok[OF ok(1,3)])
  show thesis
  proof (cases pushed)
    case True
    show thesis by (rule that[of t "L(List_evacuation_targets := a # L List_evacuation_targets)"]) (use True t in \<open>auto simp: emptied_def\<close>)
  next
    case False
    show thesis by (rule that[of u "L(List_empty := a # L List_empty)"]) (use False t u in \<open>auto simp: emptied_def\<close>)
  qed
qed

lemma finish_evacuation_ok:
  assumes ok: "lists_ok space L F" "reserve_lists_ok space L" and e: "ns_evacuating space" "L List_evacuation_targets = []"
  obtains t L' where "nofl_space_finish_evacuation space = Inr t" "lists_ok t L' F" "emptied L {} L'"
    "only_lists (space\<lparr>ns_evacuating := False\<rparr>) t"
proof -
  define s0 where "s0 = space\<lparr>ns_evacuating := False\<rparr>"
  have ok0: "lists_ok s0 L F" by (rule lists_ok_link[OF ok(1)]) (auto simp: s0_def link_of_def)
  have r0: "reserve_lists_ok s0 L" using ok(2) by (simp add: reserve_lists_ok_def s0_def)
  obtain n where n: "nofl_active_block_count s0 = Inr n" by (rule active_count[OF ok0 r0])
  let ?body = "\<lambda>(reserve, space). result_bind (nofl_pop_empty_block_with_lock space) (\<lambda>(block, space).
    if nofl_block_is_null block then Inr (0, space)
    else result_bind (nofl_block_list_push List_evacuation_targets block space) (\<lambda>space. Inr (reserve - 1, space)))"
  have "\<exists>t L'. while_result (\<lambda>(reserve, _). reserve > 0) ?body (r, s) = Inr (0, t) \<and> lists_ok t L' F \<and> emptied L {} L' \<and> only_lists s0 t"
    if "lists_ok s L1 F" "emptied L {} L1" "only_lists s0 s" for r :: nat and s L1
    using that
  proof (induction r arbitrary: s L1)
    case 0
    then show ?case by (subst while_result_unfold) auto
  next
    case (Suc r)
    show ?case
    proof (cases "L1 List_empty")
      case Nil
      have "nofl_block_is_null nofl_block_null" by (simp add: nofl_block_is_null_def nofl_block_null_def)
      then show ?thesis using list_pop_nil(2)[OF Suc.prems(1) Nil] Suc.prems
        by (subst while_result_unfold) (auto simp: nofl_pop_empty_block_with_lock_def while_result_unfold[of "\<lambda>(reserve, _). reserve > 0" _ "(0, _)"])
    next
      case (Cons a xs)
      have aF: "a \<notin> F" using Suc.prems(1) Cons unfolding lists_ok_def by (metis list.set_intros(1))
      obtain s1 where s1: "nofl_block_stack_pop List_empty s = Inr (nofl_block_for_addr a, s1)"
        "lists_ok s1 (L1(List_empty := xs)) (insert a F)" "only_lists s s1" "a \<noteq> 0" "block_aligned a"
        by (rule list_pop_cons[OF Suc.prems(1) Cons])
      obtain s2 where s2: "nofl_block_list_push List_evacuation_targets (nofl_block_for_addr a) s1 = Inr s2"
        "lists_ok s2 (L1(List_empty := xs, List_evacuation_targets := a # L1 List_evacuation_targets)) (insert a F - {a})" "only_lists s1 s2"
        by (rule list_push_ok[OF s1(2), of a List_evacuation_targets]) auto
      have F: "insert a F - {a} = F" using aF by simp
      have "emptied L {} (L1(List_empty := xs, List_evacuation_targets := a # L1 List_evacuation_targets))"
        using Suc.prems(2) Cons by (auto simp: emptied_def)
      moreover have "only_lists s0 s2" using only_lists_trans[OF Suc.prems(3) only_lists_trans[OF s1(3) s2(3)]] .
      ultimately obtain t L' where "while_result (\<lambda>(reserve, _). reserve > 0) ?body (r, s2) = Inr (0, t)" "lists_ok t L' F" "emptied L {} L'" "only_lists s0 t"
        using Suc.IH[OF s2(2)[unfolded F]] by blast
      then show ?thesis using s1 s2(1) by (subst while_result_unfold) (auto simp: nofl_pop_empty_block_with_lock_def)
    qed
  qed
  from this[OF ok0 _ only_lists_refl, of "reserve_blocks n (ns_evacuation_minimum_reserve s0)"]
  obtain t L' where "while_result (\<lambda>(reserve, _). reserve > 0) ?body (reserve_blocks n (ns_evacuation_minimum_reserve s0), s0) = Inr (0, t)"
    "lists_ok t L' F" "emptied L {} L'" "only_lists s0 t" by (auto simp: emptied_def)
  then show thesis using that e n list_count_ok[OF ok0]
    by (simp add: nofl_space_finish_evacuation_def s0_def[symmetric] Let_def nofl_evacuation_block_count_def)
qed

lemma return_reserve_ok:
  assumes "lists_ok space L F" "reserve = length (L List_evacuation_targets)"
  obtains t L' where "return_reserve reserve target space = Inr t" "lists_ok t L' F" "emptied L {} L'" "only_lists space t"
proof -
  let ?body = "\<lambda>(reserve, space). result_bind (nofl_block_list_pop List_evacuation_targets space) (\<lambda>(block, space).
    result_bind (nofl_push_empty_block block space) (\<lambda>space. Inr (reserve - 1, space)))"
  have "\<exists>r' t L'. while_result (\<lambda>(reserve, _). reserve > target) ?body (r, s) = Inr (r', t) \<and> lists_ok t L' F \<and> emptied L {} L' \<and> only_lists space t"
    if "lists_ok s L1 F" "emptied L {} L1" "only_lists space s" "r = length (L1 List_evacuation_targets)" for r :: nat and s L1
    using that
  proof (induction r arbitrary: s L1)
    case 0
    then show ?case by (subst while_result_unfold) auto
  next
    case (Suc r)
    show ?case
    proof (cases "Suc r > target")
      case False
      then show ?thesis using Suc.prems by (subst while_result_unfold) auto
    next
      case True
      obtain a xs where Cons: "L1 List_evacuation_targets = a # xs" using Suc.prems(4) by (cases "L1 List_evacuation_targets") auto
      have aF: "a \<notin> F" using Suc.prems(1) Cons unfolding lists_ok_def by (metis list.set_intros(1))
      obtain s1 where s1: "nofl_block_list_pop List_evacuation_targets s = Inr (nofl_block_for_addr a, s1)"
        "lists_ok s1 (L1(List_evacuation_targets := xs)) (insert a F)" "only_lists s s1" "a \<noteq> 0" "block_aligned a"
        by (rule list_pop_cons[OF Suc.prems(1) Cons])
      obtain s2 where s2: "nofl_push_empty_block (nofl_block_for_addr a) s1 = Inr s2"
        "lists_ok s2 (L1(List_evacuation_targets := xs, List_empty := a # L1 List_empty)) (insert a F - {a})" "only_lists s1 s2"
        unfolding push_empty_is_list_push by (rule list_push_ok[OF s1(2), of a List_empty]) auto
      have F: "insert a F - {a} = F" using aF by simp
      have e: "emptied L {} (L1(List_evacuation_targets := xs, List_empty := a # L1 List_empty))"
        using Suc.prems(2) Cons by (auto simp: emptied_def)
      have o: "only_lists space s2" using only_lists_trans[OF Suc.prems(3) only_lists_trans[OF s1(3) s2(3)]] .
      have "r = length ((L1(List_evacuation_targets := xs, List_empty := a # L1 List_empty)) List_evacuation_targets)"
        using Suc.prems(4) Cons by simp
      from Suc.IH[OF s2(2)[unfolded F] e o this] show ?thesis using True s1 s2(1) by (subst while_result_unfold) auto
    qed
  qed
  from this[OF assms(1) _ only_lists_refl assms(2)] show thesis
    using that by (auto simp: return_reserve_def emptied_def)
qed

text \<open>The memory when the metadata of the blocks \<open>A\<close> has been cleared.\<close>

definition cleared :: "u64 set \<Rightarrow> byte_mem \<Rightarrow> byte_mem" where
  "cleared A mem x = (if \<exists>a \<in> A. x \<in> meta_range a then 0 else mem x)"

lemma cleared_empty [simp]: "cleared {} mem = mem"
  by (rule ext) (simp add: cleared_def)

lemma clear_block: "mem_set (cleared A mem) (nofl_metadata_byte_for_addr a) 0 NOFL_GRANULES_PER_BLOCK = cleared (insert a A) mem"
  by (rule ext) (auto simp: mem_set_def cleared_def meta_range_def)

lemma keep_or_empty_ok:
  assumes ok: "lists_ok space L F" "reserve_lists_ok space L" "a \<in> F"
  obtains t L' where "keep_or_empty_block (nofl_block_for_addr a) space = Inr t" "lists_ok t L' (F - {a})"
    "nofl_block_is_marked space a \<Longrightarrow> only_lists space t \<and> L' = L(List_local := a # L List_local)"
    "\<not> nofl_block_is_marked space a \<Longrightarrow> emptied L {a} L' \<and> only_lists
       (space\<lparr>ns_mem := mem_set (ns_mem space) (nofl_metadata_byte_for_addr a) 0 NOFL_GRANULES_PER_BLOCK\<rparr>) t"
proof (cases "nofl_block_is_marked space a")
  case True
  have a: "block_aligned a" using ok(1,3) by (auto simp: lists_ok_def)
  obtain t where t: "nofl_block_list_push List_local (nofl_block_for_addr a) space = Inr t"
    "lists_ok t (L(List_local := a # L List_local)) (F - {a})" "only_lists space t" by (rule list_push_ok[OF ok(1,3)])
  show thesis by (rule that[of t]) (use True t a in \<open>auto simp: keep_or_empty_block_def\<close>)
next
  case False
  have a: "block_aligned a" using ok(1,3) by (auto simp: lists_ok_def)
  let ?s = "space\<lparr>ns_mem := mem_set (ns_mem space) (nofl_metadata_byte_for_addr a) 0 NOFL_GRANULES_PER_BLOCK\<rparr>"
  have ok': "lists_ok ?s L F" by (rule lists_ok_link[OF ok(1)]) (auto simp: link_of_def)
  have r': "reserve_lists_ok ?s L" using ok(2) by (simp add: reserve_lists_ok_def)
  obtain t L' where t: "result_bind (nofl_maybe_push_evacuation_target (nofl_block_for_addr a) (ns_evacuation_reserve ?s) ?s) (\<lambda>(pushed, space).
      if \<not> pushed then nofl_push_empty_block (nofl_block_for_addr a) space else Inr space) = Inr t"
    "lists_ok t L' (F - {a})" "emptied L {a} L'" "only_lists ?s t" by (rule push_free_ok[OF ok' r' ok(3), where reserve = "ns_evacuation_reserve ?s"])
  show thesis by (rule that[of t L'])
    (use False t a in \<open>auto simp: keep_or_empty_block_def nofl_push_evacuation_target_if_possible_def Let_def\<close>)
qed

lemma only_lists_mem: "only_lists s t \<Longrightarrow> only_lists (s\<lparr>ns_mem := m\<rparr>) (t\<lparr>ns_mem := m\<rparr>)"
proof -
  assume "only_lists s t"
  then obtain ss l where t: "t = s\<lparr>ns_summaries := ss, ns_lists := l\<rparr>" "\<forall>x. same_summary (ns_summaries s x) (ss x)"
    by (auto simp: only_lists_def)
  have "t\<lparr>ns_mem := m\<rparr> = s\<lparr>ns_mem := m\<rparr>\<lparr>ns_summaries := ss, ns_lists := l\<rparr>" unfolding t(1) by (cases s) simp
  then show ?thesis using t(2) unfolding only_lists_def by (intro exI[of _ ss] exI[of _ l]) simp
qed

text \<open>The blocks to sweep, one after another: \<open>ys\<close> have been seen.\<close>

lemma sort_blocks_ok:
  assumes ok: "lists_ok space L F" "reserve_lists_ok space L" "L List_local = []" and nm: "\<forall>a \<in> set (L List_to_sweep). nonmeta a"
  obtains t L' where "move_blocks (nofl_block_list_pop List_to_sweep) keep_or_empty_block space = Inr t" "lists_ok t L' F"
    "emptied (L(List_to_sweep := [], List_local := rev (filter (nofl_block_is_marked space) (L List_to_sweep))))
      {a \<in> set (L List_to_sweep). \<not> nofl_block_is_marked space a} L'"
    "only_lists (space\<lparr>ns_mem := cleared {a \<in> set (L List_to_sweep). \<not> nofl_block_is_marked space a} (ns_mem space)\<rparr>) t"
proof -
  define mk where "mk = nofl_block_is_marked space"
  define dead where "dead = (\<lambda>ys. {a \<in> set ys. \<not> mk a})"
  define I where "I = (\<lambda>s xs. \<exists>ys L'. L List_to_sweep = ys @ xs \<and> lists_ok s L' F
    \<and> emptied (L(List_to_sweep := xs, List_local := rev (filter mk ys))) (dead ys) L'
    \<and> only_lists (space\<lparr>ns_mem := cleared (dead ys) (ns_mem space)\<rparr>) s)"
  have al: "block_aligned a" if "a \<in> set (L List_to_sweep)" for a using ok(1) that by (auto simp: lists_ok_def)
  have start: "I space (L List_to_sweep)"
    unfolding I_def by (rule exI[of _ "[]"], rule exI[of _ L]) (use ok(1,3) in \<open>auto simp: emptied_def dead_def\<close>)
  have nil: "nofl_block_list_pop List_to_sweep s = Inr (nofl_block_null, s)" if "I s []" for s
    using that unfolding I_def by (elim exE conjE) (erule list_pop_nil, simp add: emptied_def)
  have cons: "\<exists>s1 s2. nofl_block_list_pop List_to_sweep s = Inr (nofl_block_for_addr x, s1) \<and> block_aligned x \<and> x \<noteq> 0
      \<and> keep_or_empty_block (nofl_block_for_addr x) s1 = Inr s2 \<and> I s2 xs" if i: "I s (x # xs)" for s x xs
  proof -
    obtain ys L1 where y: "L List_to_sweep = ys @ x # xs" "lists_ok s L1 F"
      "emptied (L(List_to_sweep := x # xs, List_local := rev (filter mk ys))) (dead ys) L1"
      "only_lists (space\<lparr>ns_mem := cleared (dead ys) (ns_mem space)\<rparr>) s" using i unfolding I_def by blast
    have x: "L1 List_to_sweep = x # xs" using y(3) by (simp add: emptied_def)
    have xF: "x \<notin> F" using y(2) x unfolding lists_ok_def by (metis list.set_intros(1))
    obtain s1 where s1: "nofl_block_list_pop List_to_sweep s = Inr (nofl_block_for_addr x, s1)"
      "lists_ok s1 (L1(List_to_sweep := xs)) (insert x F)" "only_lists s s1" "x \<noteq> 0" "block_aligned x"
      by (rule list_pop_cons[OF y(2) x])
    note o1 = only_lists_trans[OF y(4) s1(3)]
    have mem: "ns_mem s1 = cleared (dead ys) (ns_mem space)" using only_lists_fields(1)[OF o1] by simp
    have r1: "reserve_lists_ok s1 (L1(List_to_sweep := xs))"
      using ok(2) y(3) only_lists_fields(6)[OF o1] by (simp add: reserve_lists_ok_def emptied_def)
    have marks: "nofl_block_is_marked s1 x = mk x"
    proof -
      have "nofl_block_mark_loc x \<notin> meta_range a" if "a \<in> dead ys" for a
        using mark_not_metadata[of a x] al[of a] nm that s1(5) y(1) by (auto simp: dead_def)
      then show ?thesis unfolding mk_def nofl_block_is_marked_def mem cleared_def by auto
    qed
    obtain s2 L2 where s2: "keep_or_empty_block (nofl_block_for_addr x) s1 = Inr s2" "lists_ok s2 L2 (insert x F - {x})"
      "mk x \<Longrightarrow> only_lists s1 s2 \<and> L2 = (L1(List_to_sweep := xs))(List_local := x # (L1(List_to_sweep := xs)) List_local)"
      "\<not> mk x \<Longrightarrow> emptied (L1(List_to_sweep := xs)) {x} L2 \<and> only_lists
         (s1\<lparr>ns_mem := mem_set (ns_mem s1) (nofl_metadata_byte_for_addr x) 0 NOFL_GRANULES_PER_BLOCK\<rparr>) s2"
      by (rule keep_or_empty_ok[OF s1(2) r1, of x]) (auto simp: marks)
    have F: "insert x F - {x} = F" using xF by simp
    have "I s2 xs"
    proof (cases "mk x")
      case True
      have d: "dead (ys @ [x]) = dead ys" using True by (auto simp: dead_def)
      have L2: "L2 = (L1(List_to_sweep := xs))(List_local := x # L1 List_local)" using s2(3) True by simp
      have "emptied (L(List_to_sweep := xs, List_local := rev (filter mk (ys @ [x])))) (dead (ys @ [x])) L2"
        using y(3) True unfolding d L2 by (auto simp: emptied_def)
      then show ?thesis unfolding I_def using y(1) s2(2)[unfolded F] s2(3) True only_lists_trans[OF o1, of s2]
        by (intro exI[of _ "ys @ [x]"] exI[of _ L2]) (simp add: d)
    next
      case False
      have d: "dead (ys @ [x]) = insert x (dead ys)" using False by (auto simp: dead_def)
      have "emptied (L(List_to_sweep := xs, List_local := rev (filter mk (ys @ [x])))) (dead (ys @ [x])) L2"
        using y(3) s2(4) False unfolding d by (auto simp: emptied_def)
      moreover have "only_lists (space\<lparr>ns_mem := cleared (dead (ys @ [x])) (ns_mem space)\<rparr>) s2"
      proof -
        have "only_lists (space\<lparr>ns_mem := cleared (dead (ys @ [x])) (ns_mem space)\<rparr>) (s1\<lparr>ns_mem := cleared (dead (ys @ [x])) (ns_mem space)\<rparr>)"
          using only_lists_mem[OF o1, of "cleared (dead (ys @ [x])) (ns_mem space)"] by simp
        moreover have "s1\<lparr>ns_mem := mem_set (ns_mem s1) (nofl_metadata_byte_for_addr x) 0 NOFL_GRANULES_PER_BLOCK\<rparr>
            = s1\<lparr>ns_mem := cleared (dead (ys @ [x])) (ns_mem space)\<rparr>" unfolding mem clear_block d ..
        ultimately show ?thesis using only_lists_trans[OF _ conjunct2[OF s2(4)[OF False]]] by simp
      qed
      ultimately show ?thesis unfolding I_def using y(1) s2(2)[unfolded F] by (intro exI[of _ "ys @ [x]"] exI[of _ L2]) simp
    qed
    then show ?thesis using s1 s2(1) by blast
  qed
  obtain t where t: "move_blocks (nofl_block_list_pop List_to_sweep) keep_or_empty_block space = Inr t" "I t []"
    by (rule move_blocks_rule[where I = I, OF nil cons start])
  then obtain L' where L': "lists_ok t L' F"
    "emptied (L(List_to_sweep := [], List_local := rev (filter mk (L List_to_sweep)))) (dead (L List_to_sweep)) L'"
    "only_lists (space\<lparr>ns_mem := cleared (dead (L List_to_sweep)) (ns_mem space)\<rparr>) t" by (auto simp: I_def)
  show thesis by (rule that[OF t(1) L'(1)]) (use L'(2,3) in \<open>simp_all add: dead_def mk_def\<close>)
qed

text \<open>The local list becomes the list to sweep.\<close>

lemma lists_ok_rename:
  assumes "lists_ok s L F" "L List_to_sweep = []"
  shows "lists_ok (put_list List_local \<lparr> list_count = 0, list_blocks = 0 \<rparr> (put_list List_to_sweep (ns_lists s List_local) s))
    (L(List_to_sweep := L List_local, List_local := [])) F"
  using assms unfolding lists_ok_def by auto

lemma lists_ok_clear_local: "lists_ok s L F \<Longrightarrow> L List_local = [] \<Longrightarrow> lists_ok (put_list List_local \<lparr> list_count = 0, list_blocks = 0 \<rparr> s) L F"
  unfolding lists_ok_def by auto

lemma promote_nothing: "lists_ok s L F \<Longrightarrow> L List_promoted = [] \<Longrightarrow> nofl_space_promote_blocks s = Inr s"
proof -
  assume "lists_ok s L F" "L List_promoted = []"
  then have "nofl_block_list_pop List_promoted s = Inr (nofl_block_null, s)" by (rule list_pop_nil)
  moreover have "nofl_block_is_null nofl_block_null" by (simp add: nofl_block_is_null_def nofl_block_null_def)
  ultimately show ?thesis
    by (simp add: nofl_space_promote_blocks_def move_blocks_def while_result_unfold[of "\<lambda>(more, _). more" _ "(True, _)"]
      while_result_unfold[of "\<lambda>(more, _). more" _ "(False, _)"])
qed

lemma emptied_trans: "emptied L A L1 \<Longrightarrow> emptied L1 B L2 \<Longrightarrow> emptied L (A \<union> B) L2"
  unfolding emptied_def by auto

text \<open>The reserve is restored first, from the empty blocks or to them.\<close>

lemma restore_reserve_ok:
  assumes ok: "lists_ok space L F" "reserve_lists_ok space L" and e: "ns_evacuating space \<longrightarrow> L List_evacuation_targets = []"
  obtains t L' where "(if ns_evacuating space then nofl_space_finish_evacuation space
      else
        (let space = space\<lparr>ns_evacuation_reserve := ns_evacuation_minimum_reserve space\<rparr> in
         result_bind (nofl_active_block_count space) (\<lambda>active.
           return_reserve (nofl_evacuation_block_count space) (reserve_blocks active (ns_evacuation_minimum_reserve space)) space))) = Inr t"
    "lists_ok t L' F" "emptied L {} L'" "gc_frame space t" "\<not> ns_evacuating t"
proof (cases "ns_evacuating space")
  case True
  obtain t L' where t: "nofl_space_finish_evacuation space = Inr t" "lists_ok t L' F" "emptied L {} L'"
    "only_lists (space\<lparr>ns_evacuating := False\<rparr>) t" by (rule finish_evacuation_ok[OF ok True]) (use e True in auto)
  have "gc_frame space t" using gc_frame_lists[OF t(4)] by (simp add: gc_frame_def)
  then show thesis using that t True only_lists_fields(4)[OF t(4)] by simp
next
  case False
  let ?s = "space\<lparr>ns_evacuation_reserve := ns_evacuation_minimum_reserve space\<rparr>"
  have ok': "lists_ok ?s L F" by (rule lists_ok_link[OF ok(1)]) (auto simp: link_of_def)
  have r': "reserve_lists_ok ?s L" using ok(2) by (simp add: reserve_lists_ok_def)
  obtain n where n: "nofl_active_block_count ?s = Inr n" by (rule active_count[OF ok' r'])
  obtain t L' where t: "return_reserve (nofl_evacuation_block_count ?s) (reserve_blocks n (ns_evacuation_minimum_reserve ?s)) ?s = Inr t"
    "lists_ok t L' F" "emptied L {} L'" "only_lists ?s t"
    by (rule return_reserve_ok[OF ok', of "nofl_evacuation_block_count ?s"]) (simp add: nofl_evacuation_block_count_def list_count_ok[OF ok'])
  have "gc_frame space t" using gc_frame_lists[OF t(4)] by (simp add: gc_frame_def)
  then show thesis using that t n False only_lists_fields(4)[OF t(4)] by (simp add: Let_def)
qed

text \<open>C19: A major collection begins without a fault by moving every block that was allocated from, the partly
  full, full, promoted and old ones, to the list of blocks to sweep, and the evacuation reserve to the empty
  blocks when it compacts; no block is lost or on two lists, and memory is as it was.\<close>

theorem nofl_start_gc_correct:
  assumes "lists_ok space L F" "\<not> ns_evacuating space" "L List_to_sweep = []" "kind \<noteq> Collection_minor"
  shows "\<exists>t. nofl_space_start_gc kind space = Inr t
    \<and> lists_ok t (lists_at_start (kind = Collection_compacting) L) F
    \<and> ns_mem t = ns_mem space \<and> ns_old_generation_granules t = 0"
proof -
  obtain t where "nofl_space_start_gc kind space = Inr t" "lists_ok t (lists_at_start (kind = Collection_compacting) L) F"
    "gc_frame (space\<lparr>ns_old_generation_granules := 0\<rparr>) t" by (rule start_gc_ok[OF assms])
  then show ?thesis by (simp add: gc_frame_def)
qed

text \<open>C6: A major collection ends without a fault: the blocks to sweep are then those with a marked object, the
  others have gone to the empty blocks and the evacuation reserve with their metadata cleared, and no
  other byte of memory has changed. No block is lost or on two lists, and what was marked now has survived.\<close>

theorem nofl_finish_gc_correct:
  assumes ok: "lists_ok space L F" "reserve_lists_ok space L" and nm: "\<forall>a \<in> set (L List_to_sweep). nonmeta a"
    and nil: "L List_promoted = []" "L List_local = []" "ns_evacuating space \<longrightarrow> L List_evacuation_targets = []"
  shows "\<exists>t L'. nofl_space_finish_gc kind space = Inr t \<and> lists_ok t L' F
    \<and> set (L' List_to_sweep) = {a \<in> set (L List_to_sweep). nofl_block_is_marked space a}
    \<and> set (L' List_empty) \<union> set (L' List_evacuation_targets) = set (L List_empty) \<union> set (L List_evacuation_targets)
        \<union> {a \<in> set (L List_to_sweep). \<not> nofl_block_is_marked space a}
    \<and> (\<forall>n. n \<notin> {List_to_sweep, List_empty, List_evacuation_targets} \<longrightarrow> L' n = L n)
    \<and> ns_mem t = cleared {a \<in> set (L List_to_sweep). \<not> nofl_block_is_marked space a} (ns_mem space)
    \<and> \<not> ns_evacuating t \<and> ns_survivor_mark t = ns_current_mark space"
proof -
  define dead where "dead = {a \<in> set (L List_to_sweep). \<not> nofl_block_is_marked space a}"
  define s0 where "s0 = space\<lparr>ns_holes := nofl_holeset_clear (ns_holes space), ns_last_collection_was_minor := (kind = Collection_minor)\<rparr>"
  have ok0: "lists_ok s0 L F" by (rule lists_ok_link[OF ok(1)]) (auto simp: s0_def link_of_def)
  have r0: "reserve_lists_ok s0 L" "ns_evacuating s0 \<longrightarrow> L List_evacuation_targets = []"
    using ok(2) nil(3) by (simp_all add: reserve_lists_ok_def s0_def)
  obtain s1 L1 where s1: "(if ns_evacuating s0 then nofl_space_finish_evacuation s0
      else
        (let space = s0\<lparr>ns_evacuation_reserve := ns_evacuation_minimum_reserve s0\<rparr> in
         result_bind (nofl_active_block_count space) (\<lambda>active.
           return_reserve (nofl_evacuation_block_count space) (reserve_blocks active (ns_evacuation_minimum_reserve space)) space))) = Inr s1"
    "lists_ok s1 L1 F" "emptied L {} L1" "gc_frame s0 s1" "\<not> ns_evacuating s1" by (rule restore_reserve_ok[OF ok0 r0])
  have L1: "L1 n = L n" if "n \<notin> {List_empty, List_evacuation_targets}" for n using s1(3) that unfolding emptied_def by blast
  let ?s1 = "put_list List_local \<lparr> list_count = 0, list_blocks = 0 \<rparr> s1"
  have l1: "L1 List_local = []" "L1 List_to_sweep = L List_to_sweep" using L1 nil(2) by simp_all
  have ok1: "lists_ok ?s1 L1 F" by (rule lists_ok_clear_local[OF s1(2) l1(1)])
  have mem1: "ns_mem ?s1 = ns_mem space" "nofl_block_is_marked ?s1 = nofl_block_is_marked space" "ns_current_mark ?s1 = ns_current_mark space"
    using s1(4) by (auto simp: gc_frame_def s0_def nofl_block_is_marked_def fun_eq_iff)
  have r1: "reserve_lists_ok ?s1 L1" using ok(2) s1(4) L1 by (simp add: reserve_lists_ok_def gc_frame_def s0_def)
  have nm1: "\<forall>a \<in> set (L1 List_to_sweep). nonmeta a" using nm l1(2) by simp
  obtain s2 L2 where s2: "move_blocks (nofl_block_list_pop List_to_sweep) keep_or_empty_block ?s1 = Inr s2" "lists_ok s2 L2 F"
    "emptied (L1(List_to_sweep := [], List_local := rev (filter (nofl_block_is_marked space) (L List_to_sweep)))) dead L2"
    "only_lists (?s1\<lparr>ns_mem := cleared dead (ns_mem space)\<rparr>) s2"
    using sort_blocks_ok[OF ok1 r1 l1(1) nm1] unfolding l1(2) mem1(1,2) dead_def[symmetric] by blast
  define s3 where "s3 = put_list List_local \<lparr> list_count = 0, list_blocks = 0 \<rparr> (put_list List_to_sweep (ns_lists s2 List_local) s2)"
  define L3 where "L3 = L2(List_to_sweep := L2 List_local, List_local := [])"
  have L2: "L2 List_to_sweep = []" "L2 List_local = rev (filter (nofl_block_is_marked space) (L List_to_sweep))"
    "\<And>n. n \<notin> {List_to_sweep, List_local, List_empty, List_evacuation_targets} \<Longrightarrow> L2 n = L n"
    using s2(3) L1 unfolding emptied_def by simp_all
  have ok3: "lists_ok s3 L3 F" unfolding s3_def L3_def by (rule lists_ok_rename[OF s2(2) L2(1)])
  have p3: "nofl_space_promote_blocks s3 = Inr s3" by (rule promote_nothing[OF ok3]) (use L2(3) nil(1) in \<open>simp add: L3_def\<close>)
  define t where "t = (nofl_space_reset_statistics s3)\<lparr>ns_survivor_mark := ns_current_mark (nofl_space_reset_statistics s3)\<rparr>"
  have "nofl_space_finish_gc kind space = Inr t"
    unfolding nofl_space_finish_gc_def Let_def s0_def[symmetric] s1(1)[unfolded Let_def] result_bind.simps s2(1) s3_def[symmetric] p3 t_def ..
  moreover have "lists_ok t L3 F" by (rule lists_ok_link[OF ok3]) (auto simp: t_def link_of_def nofl_space_reset_statistics_def)
  moreover have "set (L3 List_to_sweep) = {a \<in> set (L List_to_sweep). nofl_block_is_marked space a}" using L2(2) by (auto simp: L3_def)
  moreover have "set (L3 List_empty) \<union> set (L3 List_evacuation_targets) = set (L List_empty) \<union> set (L List_evacuation_targets) \<union> dead"
    using s1(3) s2(3) by (auto simp: emptied_def L3_def)
  moreover have "L3 n = L n" if "n \<notin> {List_to_sweep, List_empty, List_evacuation_targets}" for n
    using that L2(3)[of n] nil(2) by (auto simp: L3_def)
  moreover have "ns_mem t = cleared dead (ns_mem space)" "\<not> ns_evacuating t" "ns_survivor_mark t = ns_current_mark space"
    using only_lists_fields[OF s2(4)] mem1(3) s1(5) by (simp_all add: t_def s3_def nofl_space_reset_statistics_def)
  ultimately show ?thesis unfolding dead_def by blast
qed

text \<open>A slab at 4 MB, whose first two blocks are on the list \<open>n\<close>; the first one is marked.\<close>

definition example_space :: "nofl_list \<Rightarrow> nofl_space" where
  "example_space n = \<lparr> ns_mem = (\<lambda>_. 0)(0x400004 := 1),
    ns_summaries = (\<lambda>x. \<lparr> sum_hole_count = 0, sum_hole_granules = 0, sum_holes_with_fragmentation = 0, sum_fragmentation_granules = 0,
      sum_next_and_flags = (if x = 0x400040 then 0x450000 else 0) \<rparr>),
    ns_lists = (\<lambda>_. \<lparr> list_count = 0, list_blocks = 0 \<rparr>)(n := \<lparr> list_count = 2, list_blocks = 0x440000 \<rparr>),
    ns_current_mark = 2, ns_survivor_mark = 4, ns_evacuating = False, ns_extents = extents_allocate 10,
    ns_last_collection_was_minor = False, ns_heap_has_ambiguous_edges = False,
    ns_holes = \<lparr> hs_nonempty = 0, hs_buckets = replicate 64 0 \<rparr>, ns_evacuation_minimum_reserve = RESERVE_0_02,
    ns_evacuation_reserve = RESERVE_0_02, ns_promotion_threshold = 1 / 2, ns_pending_unavailable_bytes = 0, ns_slabs = [0x400000],
    ns_old_generation_granules = 0, ns_survivor_granules = 0, ns_allocated_granules = 0, ns_fragmentation_granules = 0,
    ns_second_chance_granules = 0 \<rparr>"

definition example_blocks :: "nofl_list \<Rightarrow> nofl_list \<Rightarrow> u64 list" where
  "example_blocks n = (\<lambda>_. [])(n := [0x440000, 0x450000])"

lemma example_space_ok: "lists_ok (example_space n) (example_blocks n) {}"
proof -
  have s: "nofl_block_summary_for_addr 0x440000 = 0x400040" "nofl_block_summary_for_addr 0x450000 = 0x400050"
    "nofl_block_summary_next \<lparr> sum_hole_count = 0, sum_hole_granules = 0, sum_holes_with_fragmentation = 0,
      sum_fragmentation_granules = 0, sum_next_and_flags = 0x450000 \<rparr> = 0x450000"
    "nofl_block_summary_next \<lparr> sum_hole_count = 0, sum_hole_granules = 0, sum_holes_with_fragmentation = 0,
      sum_fragmentation_granules = 0, sum_next_and_flags = 0 \<rparr> = 0" "block_aligned 0x440000" "block_aligned 0x450000"
    by code_simp+
  have "link_of (example_space n) 0x440000 = 0x450000" "link_of (example_space n) 0x450000 = 0"
    by (simp_all add: link_of_def example_space_def s)
  then show ?thesis using s(5,6) by (auto simp: lists_ok_def example_blocks_def example_space_def)
qed

theorem nofl_start_gc_correct_witness:
  "\<exists>t. nofl_space_start_gc Collection_compacting (example_space List_full) = Inr t
    \<and> lists_ok t ((example_blocks List_full)(List_full := [], List_to_sweep := [0x450000, 0x440000])) {}"
proof -
  have "lists_at_start True (example_blocks List_full) = (example_blocks List_full)(List_full := [], List_to_sweep := [0x450000, 0x440000])"
    by (auto simp: lists_at_start_def example_blocks_def Let_def fun_eq_iff)
  then show ?thesis
    using nofl_start_gc_correct[OF example_space_ok, of List_full Collection_compacting]
    by (auto simp: example_space_def[of List_full] example_blocks_def)
qed

theorem nofl_finish_gc_correct_witness:
  "\<exists>t L'. nofl_space_finish_gc Collection_major (example_space List_to_sweep) = Inr t \<and> lists_ok t L' {}
    \<and> set (L' List_to_sweep) = {0x440000} \<and> set (L' List_empty) \<union> set (L' List_evacuation_targets) = {0x450000}"
proof -
  have "nofl_block_mark_loc 0x440000 = 0x400004" "nofl_block_mark_loc 0x450000 = 0x400005" by code_simp+
  then have m: "nofl_block_is_marked (example_space List_to_sweep) 0x440000" "\<not> nofl_block_is_marked (example_space List_to_sweep) 0x450000"
    by (simp_all add: nofl_block_is_marked_def example_space_def)
  have nm: "nonmeta 0x440000" "nonmeta 0x450000" by (simp_all add: nonmeta_def)
  have "reserve_lists_ok (example_space List_to_sweep) (example_blocks List_to_sweep)"
    by (simp add: reserve_lists_ok_def example_blocks_def NOFL_PAGE_OUT_QUEUE_SIZE_def)
  note r = this
  have l: "set (example_blocks List_to_sweep List_to_sweep) = {0x440000, 0x450000}" "\<not> ns_evacuating (example_space List_to_sweep)"
    "n \<noteq> List_to_sweep \<Longrightarrow> example_blocks List_to_sweep n = []" for n
    by (simp_all add: example_blocks_def example_space_def)
  have e: "{a \<in> {0x440000, 0x450000}. nofl_block_is_marked (example_space List_to_sweep) a} = {0x440000}"
    "{a \<in> {0x440000, 0x450000}. \<not> nofl_block_is_marked (example_space List_to_sweep) a} = {0x450000}" using m by auto
  have nil: "\<forall>a \<in> set (example_blocks List_to_sweep List_to_sweep). nonmeta a" "example_blocks List_to_sweep List_promoted = []"
    "example_blocks List_to_sweep List_local = []"
    "ns_evacuating (example_space List_to_sweep) \<longrightarrow> example_blocks List_to_sweep List_evacuation_targets = []"
    using nm l by simp_all
  obtain t L' where t: "nofl_space_finish_gc Collection_major (example_space List_to_sweep) = Inr t" "lists_ok t L' {}"
    "set (L' List_to_sweep) = {0x440000}"
    "set (L' List_empty) \<union> set (L' List_evacuation_targets) = set (example_blocks List_to_sweep List_empty)
      \<union> set (example_blocks List_to_sweep List_evacuation_targets) \<union> {0x450000}"
    using nofl_finish_gc_correct[OF example_space_ok r nil, of Collection_major] unfolding l(1) e by (elim exE conjE)
  have "set (L' List_empty) \<union> set (L' List_evacuation_targets) = {0x450000}"
    using t(4) by (simp add: l(3))
  with t(1-3) show ?thesis by (intro exI conjI)
qed

end
