(* ===== verification/MmcCorrect.thy ===== *)
theory MmcCorrect
  imports MmcHeap NoflGC
begin

text \<open>
  What the heap of the mostly-marking collector promises: the write barrier remembers every field of an
  old object that comes to point to a young one, once, and the kind of a collection suits the heap.
\<close>

section \<open>The write barrier\<close>

lemma word_div_exp: "(a :: u64) div 16 = drop_bit 4 a" "(a :: u64) div 8 = drop_bit 3 a" "(a :: u64) div 2 = drop_bit 1 a"
  using drop_bit_eq_div[of 4 a] drop_bit_eq_div[of 3 a] drop_bit_eq_div[of 1 a] by simp_all

text \<open>The fast path finds the same bytes and bits as the nofl space.\<close>

lemma barrier_object_byte:
  "(let alignment = gc_allocator_alloc_table_alignment in
    (obj AND NOT (alignment - 1)) + (obj AND (alignment - 1)) div gc_allocator_small_granule_size) = nofl_metadata_byte_for_addr obj"
  by (simp add: nofl_metadata_byte_for_addr_def align_down_def NOFL_SLAB_SIZE_def NOFL_GRANULE_SIZE_LOG_2_def
      gc_allocator_alloc_table_alignment_def gc_allocator_small_granule_size_def word_div_exp Let_def)

lemma barrier_field_byte:
  "(let alignment = gc_allocator_alloc_table_alignment in
    (edge AND NOT (alignment - 1)) + 0 + (edge AND (alignment - 1)) div 8 div 2) = nofl_field_logged_byte edge"
  by (simp add: nofl_field_logged_byte_def nofl_metadata_byte_for_addr_def align_down_def NOFL_SLAB_SIZE_def NOFL_GRANULE_SIZE_LOG_2_def
      gc_allocator_alloc_table_alignment_def word_div_exp Let_def drop_bit_drop_bit)

lemma barrier_field_bit:
  "(let alignment = gc_allocator_alloc_table_alignment in
    push_bit (unat ((edge AND (alignment - 1)) div 8 mod 2)) (64 :: u8)) = nofl_field_logged_bit edge"
proof -
  have m: "gc_allocator_alloc_table_alignment = 2 ^ 22" by (simp add: gc_allocator_alloc_table_alignment_def)
  have "unat ((edge AND (2 ^ 22 - 1)) div 8 mod 2) = unat edge mod 2 ^ 22 div 2 ^ 3 mod 2"
    by (simp only: unat_div unat_mod and_exp_minus_1) simp
  also have "\<dots> = unat edge div 2 ^ 3 mod 2"
    by (simp add: div_exp_mod_exp_eq[of _ 3 19, symmetric, simplified] mod_mod_cancel) 
  also have "\<dots> = unat (edge div 8 mod 2)" by (simp add: unat_div unat_mod)
  finally show ?thesis by (simp add: m nofl_field_logged_bit_def NOFL_METADATA_BYTE_LOGGED_0_def Let_def)
qed

lemma survivor_byte:
  assumes "nofl_space_is_survivor space obj = Inr old"
  defines "byte \<equiv> ns_mem space (nofl_metadata_byte_for_addr obj)"
  shows "old \<longleftrightarrow> byte AND 7 = ns_survivor_mark space" "byte AND 7 \<noteq> 0"
  using assms(1)
  by (auto simp: nofl_space_is_survivor_def nofl_metadata_byte_for_object_def gc_assert_def byte_def nofl_metadata_byte_has_mark_def
      NOFL_METADATA_BYTE_MARK_MASK_def Let_def split: if_splits)

lemma barrier_fast:
  assumes gen: "gc_generational cfg" "obj_sz \<le> gc_allocator_large_threshold"
    and obj: "nofl_space_is_survivor (mh_nofl hp) obj = Inr old" "ns_survivor_mark (mh_nofl hp) \<noteq> 1"
      "nofl_metadata_byte_is_young_or_has_mark (ns_mem (mh_nofl hp) (nofl_metadata_byte_for_addr obj)) (ns_survivor_mark (mh_nofl hp))"
  shows "gc_write_barrier_fast cfg hp obj obj_sz edge
    = Inr (old \<and> ns_mem (mh_nofl hp) (nofl_field_logged_byte edge) AND nofl_field_logged_bit edge = 0)"
proof -
  have o: "gc_object_is_old_generation cfg hp obj obj_sz = Inr old"
    using gen survivor_byte[OF obj(1)] obj(2,3) barrier_object_byte[of obj]
    by (auto simp: gc_object_is_old_generation_def Let_def nofl_metadata_byte_is_young_or_has_mark_def nofl_metadata_byte_has_mark_def
        nofl_metadata_bytes)
  show ?thesis unfolding gc_write_barrier_fast_def Let_def o
    using gen barrier_field_byte[of edge] barrier_field_bit[of edge] by (simp add: Let_def)
qed

lemma barrier_slow:
  assumes gen: "gc_generational cfg" "obj_sz \<le> gc_allocator_large_threshold"
    and inside: "nofl_space_contains (mh_nofl hp) obj = Inr True" and obj: "nofl_space_is_survivor (mh_nofl hp) obj = Inr True"
    and val: "new_val \<noteq> 0" "gc_object_is_old_generation_slow cfg hp new_val = Inr val_old"
    and wf: "fs_wf (mh_remembered_set hp)" "writer_wf logger"
    and clear: "ns_mem (mh_nofl hp) (nofl_field_logged_byte edge) AND nofl_field_logged_bit edge = 0"
  obtains logger' s' where
    "gc_write_barrier_slow cfg obj obj_sz edge new_val (logger, hp) = Inr (logger', if val_old then hp else
      hp\<lparr>mh_nofl := (mh_nofl hp)\<lparr>ns_mem := (ns_mem (mh_nofl hp))(nofl_field_logged_byte edge :=
        ns_mem (mh_nofl hp) (nofl_field_logged_byte edge) OR nofl_field_logged_bit edge)\<rparr>, mh_remembered_set := s'\<rparr>)"
    "fs_wf s'" "writer_wf logger'" "val_old \<Longrightarrow> s' = mh_remembered_set hp \<and> logger' = logger"
    "\<not> val_old \<Longrightarrow> fs_edges s' + writer_edges logger' = fs_edges (mh_remembered_set hp) + writer_edges logger + {#edge#}"
proof (cases val_old)
  case True
  then show thesis using that[of logger "mh_remembered_set hp"] gen val wf
    by (simp add: gc_write_barrier_slow_def gc_assert_def gc_ref_is_null_def)
next
  case False
  obtain logger' s' where w: "gc_field_set_writer_add_edge logger (mh_remembered_set hp) edge = Inr (logger', s')" "fs_wf s'" "writer_wf logger'"
    "fs_edges s' + writer_edges logger' = fs_edges (mh_remembered_set hp) + writer_edges logger + {#edge#}"
    using writer_add_edge_wf[OF wf] by blast
  have "nofl_space_remember_edge cfg obj edge (mh_nofl hp) = Inr (True, (mh_nofl hp)\<lparr>ns_mem := (ns_mem (mh_nofl hp))(nofl_field_logged_byte edge :=
        ns_mem (mh_nofl hp) (nofl_field_logged_byte edge) OR nofl_field_logged_bit edge)\<rparr>)"
    using gen inside obj clear by (simp add: nofl_space_remember_edge_def gc_assert_def Let_def)
  then show thesis using that[of logger' s'] False gen val w
    by (simp add: gc_write_barrier_slow_def gc_assert_def gc_ref_is_null_def)
qed

text \<open>C7: The write barrier remembers what a minor collection needs. In a generational configuration, let a non-null value
  whose generation can be told be stored into a field of a small object of the nofl space whose mark is that of the
  young or of the survivors of the last collection. Then the barrier does not fail, and it adds the field to the
  remembered set when and only when the object has survived a collection, the value has not, and the bit of the
  field in the metadata is clear. Then the field is added once and its bit is set; nothing else of the heap changes.
  Either way, a field of an old object that a young value is stored into has its bit set afterwards.\<close>

theorem gc_write_barrier_correct:
  fixes edge :: u64
  assumes gen: "gc_generational cfg" "obj_sz \<le> gc_allocator_large_threshold"
    and wf: "fs_wf (mh_remembered_set hp)" "writer_wf logger"
    and obj: "nofl_space_contains (mh_nofl hp) obj = Inr True" "nofl_space_is_survivor (mh_nofl hp) obj = Inr old"
      "ns_survivor_mark (mh_nofl hp) \<noteq> 1"
      "nofl_metadata_byte_is_young_or_has_mark (ns_mem (mh_nofl hp) (nofl_metadata_byte_for_addr obj)) (ns_survivor_mark (mh_nofl hp))"
    and val: "new_val \<noteq> 0" "gc_object_is_old_generation_slow cfg hp new_val = Inr val_old"
  defines "mem \<equiv> ns_mem (mh_nofl hp)" and "loc \<equiv> nofl_field_logged_byte edge" and "b \<equiv> nofl_field_logged_bit edge"
  defines "logs \<equiv> old \<and> \<not> val_old \<and> mem loc AND b = 0"
  shows "\<exists>logger' s' mem'. gc_write_barrier cfg obj obj_sz edge new_val (logger, hp)
      = Inr (logger', hp\<lparr>mh_nofl := (mh_nofl hp)\<lparr>ns_mem := mem'\<rparr>, mh_remembered_set := s'\<rparr>)
    \<and> fs_wf s' \<and> writer_wf logger'
    \<and> fs_edges s' + writer_edges logger' = fs_edges (mh_remembered_set hp) + writer_edges logger + (if logs then {#edge#} else {#})
    \<and> mem' = (if logs then mem(loc := mem loc OR b) else mem)
    \<and> (old \<and> \<not> val_old \<longrightarrow> mem' loc AND b \<noteq> 0)"
proof -
  note fast = barrier_fast[OF gen obj(2,3,4), of edge, folded mem_def loc_def b_def]
  have same: "hp\<lparr>mh_nofl := (mh_nofl hp)\<lparr>ns_mem := mem\<rparr>, mh_remembered_set := mh_remembered_set hp\<rparr> = hp" by (simp add: mem_def)
  have "b = 64 \<or> b = 128"
  proof -
    have "unat (edge div 8 mod 2) < 2" by (simp add: unat_mod)
    then have "unat (edge div 8 mod 2) = 0 \<or> unat (edge div 8 mod 2) = 1" by linarith
    then show ?thesis by (auto simp: b_def nofl_field_logged_bit_def NOFL_METADATA_BYTE_LOGGED_0_def Let_def)
  qed
  then have "b \<noteq> 0" by auto
  moreover have "(mem loc OR b) AND b = b" by (rule bit_word_eqI) (auto simp: bit_simps)
  ultimately have b: "(mem loc OR b) AND b \<noteq> 0" by simp
  show ?thesis
  proof (cases "old \<and> mem loc AND b = 0")
    case True
    then have survived: "nofl_space_is_survivor (mh_nofl hp) obj = Inr True" and c: "mem loc AND b = 0" using obj(2) by simp_all
    obtain logger' s' where r: "gc_write_barrier_slow cfg obj obj_sz edge new_val (logger, hp) = Inr (logger', if val_old then hp else
        hp\<lparr>mh_nofl := (mh_nofl hp)\<lparr>ns_mem := mem(loc := mem loc OR b)\<rparr>, mh_remembered_set := s'\<rparr>)"
      "fs_wf s'" "writer_wf logger'" "val_old \<Longrightarrow> s' = mh_remembered_set hp \<and> logger' = logger"
      "\<not> val_old \<Longrightarrow> fs_edges s' + writer_edges logger' = fs_edges (mh_remembered_set hp) + writer_edges logger + {#edge#}"
      by (rule barrier_slow[OF gen obj(1) survived val wf, of edge, folded mem_def loc_def b_def, OF c]) (rule that)
    have w: "gc_write_barrier cfg obj obj_sz edge new_val (logger, hp) = gc_write_barrier_slow cfg obj obj_sz edge new_val (logger, hp)"
      using fast True by (simp add: gc_write_barrier_def)
    show ?thesis
    proof (cases val_old)
      case v: True
      then show ?thesis using r w same by (intro exI[of _ logger] exI[of _ "mh_remembered_set hp"] exI[of _ mem]) (simp add: logs_def)
    next
      case v: False
      then show ?thesis using r w b True by (intro exI[of _ logger'] exI[of _ s'] exI[of _ "mem(loc := mem loc OR b)"]) (simp add: logs_def)
    qed
  next
    case False
    then show ?thesis using fast same wf
      by (intro exI[of _ logger] exI[of _ "mh_remembered_set hp"] exI[of _ mem]) (auto simp: gc_write_barrier_def logs_def)
  qed
qed

text \<open>A heap of one slab with an old object at its fifth block and a young one after it, whose first field is not remembered.\<close>

definition generational_config :: gc_config where
  "generational_config = \<lparr> gc_parallel = False, gc_generational = True, gc_precise_roots = True, gc_conservative_roots = False,
    gc_conservative_trace = False \<rparr>"

definition example_heap :: "unit mmc_heap" where
  "example_heap = \<lparr> mh_nofl = (example_space List_full)\<lparr>ns_mem := (\<lambda>_. 0)(0x404000 := 36, 0x404001 := 33),
      ns_extents := \<lparr> ext_size = 1, ext_capacity = 1, ext_ranges = [\<lparr> lo_addr = 0x400000, hi_addr = 0x800000 \<rparr>] \<rparr>\<rparr>,
    mh_large = large_object_space_init generational_config 4096 12 False, mh_extern = (), mh_remembered_set = gc_field_set_init,
    mh_large_object_pages = 0, mh_size = 0x400000, mh_total_allocated_bytes_at_last_gc = 0, mh_size_at_last_gc = 0x400000,
    mh_gc_kind = Collection_major, mh_count = 1, mh_count_at_last_growth = 0, mh_fragmentation_low_threshold = 1 / 20,
    mh_fragmentation_high_threshold = 1 / 10, mh_minor_gc_yield_threshold = 3 / 10, mh_major_gc_yield_threshold = 3 / 10,
    mh_minimum_major_gc_yield_threshold = 1 / 20, mh_fixed_size = True \<rparr>"

lemma example_extents:
  assumes "0x400000 \<le> addr" "addr < 0x800000"
  shows "extents_contain_addr \<lparr> ext_size = 1, ext_capacity = 1, ext_ranges = [\<lparr> lo_addr = 0x400000, hi_addr = 0x800000 \<rparr>] \<rparr> addr = Inr 0x400000"
  using assms by (simp add: extents_contain_addr_def while_loop_unfold not_less[symmetric])

theorem gc_write_barrier_correct_witness:
  "\<exists>logger' s' mem'. gc_write_barrier generational_config 0x440000 16 0x440000 0x440010 (None, example_heap)
      = Inr (logger', example_heap\<lparr>mh_nofl := (mh_nofl example_heap)\<lparr>ns_mem := mem'\<rparr>, mh_remembered_set := s'\<rparr>)
    \<and> fs_edges s' + writer_edges logger' = {#0x440000#} \<and> mem' 0x404000 = 100"
proof -
  have c: "gc_generational generational_config" "16 \<le> gc_allocator_large_threshold" "fs_wf (mh_remembered_set example_heap)" "writer_wf None"
    by (simp_all add: generational_config_def gc_allocator_large_threshold_def example_heap_def gc_field_set_init_def fs_wf_def writer_wf_def)
  have meta: "nofl_metadata_byte_for_addr 0x440000 = 0x404000" "nofl_metadata_byte_for_addr 0x440010 = 0x404001"
    "nofl_field_logged_byte 0x440000 = 0x404000" "nofl_field_logged_bit 0x440000 = 64" "(36 :: u8) AND 7 = 4" "(33 :: u8) AND 7 = 1"
    "(36 :: u8) AND 64 = 0" "(36 :: u8) OR 64 = 100"
    by code_simp+
  have h: "ns_mem (mh_nofl example_heap) = (\<lambda>_. 0)(0x404000 := 36, 0x404001 := 33)" "ns_survivor_mark (mh_nofl example_heap) = 4"
    "mh_remembered_set example_heap = gc_field_set_init"
    by (simp_all add: example_heap_def example_space_def)
  have inside: "nofl_space_contains (mh_nofl example_heap) 0x440000 = Inr True" "nofl_space_contains (mh_nofl example_heap) 0x440010 = Inr True"
    by (simp_all add: nofl_space_contains_def nofl_space_contains_address_def example_heap_def example_extents[simplified])
  have old: "nofl_space_is_survivor (mh_nofl example_heap) 0x440000 = Inr True" "nofl_space_is_survivor (mh_nofl example_heap) 0x440010 = Inr False"
    by (simp_all add: nofl_space_is_survivor_def nofl_metadata_byte_for_object_def gc_assert_def h meta nofl_metadata_byte_has_mark_def
        NOFL_METADATA_BYTE_MARK_MASK_def Let_def)
  have mark: "ns_survivor_mark (mh_nofl example_heap) \<noteq> 1"
    "nofl_metadata_byte_is_young_or_has_mark (ns_mem (mh_nofl example_heap) (nofl_metadata_byte_for_addr 0x440000)) (ns_survivor_mark (mh_nofl example_heap))"
    by (simp_all add: h meta nofl_metadata_byte_is_young_or_has_mark_def nofl_metadata_byte_has_mark_def NOFL_METADATA_BYTE_MARK_MASK_def)
  have val: "(0x440010 :: u64) \<noteq> 0" "gc_object_is_old_generation_slow generational_config example_heap 0x440010 = Inr False"
    using c(1) inside(2) old(2) by (simp_all add: gc_object_is_old_generation_slow_def)
  obtain logger' s' mem' where "gc_write_barrier generational_config 0x440000 16 0x440000 0x440010 (None, example_heap)
      = Inr (logger', example_heap\<lparr>mh_nofl := (mh_nofl example_heap)\<lparr>ns_mem := mem'\<rparr>, mh_remembered_set := s'\<rparr>)"
    "fs_edges s' + writer_edges logger' = {#0x440000#}" "mem' 0x404000 = 100"
    using gc_write_barrier_correct[OF c inside(1) old(1) mark val, where edge = "0x440000"]
    by (auto simp: meta h gc_field_set_init_def fs_edges_def writer_edges_def)
  then show ?thesis by blast
qed

section \<open>The kind of a collection\<close>

lemma clamped_threshold:
  "mh_minimum_major_gc_yield_threshold hp \<le> clamp_major_gc_yield_threshold hp t"
  "round_double (double_of_size NOFL_BLOCK_SIZE / double_of_size (mh_size hp)) \<le> clamp_major_gc_yield_threshold hp t"
  "t \<le> clamp_major_gc_yield_threshold hp t"
  by (auto simp: clamp_major_gc_yield_threshold_def Let_def)

lemma collection_kind_cases:
  assumes frag: "heap_fragmentation hp = Inr f"
    and prev: "\<not> gc_generational cfg \<Longrightarrow> mh_count hp \<noteq> 0 \<Longrightarrow> mh_gc_kind hp \<noteq> Collection_minor \<and> mh_gc_kind hp \<noteq> Collection_any"
    and req: "\<not> gc_generational cfg \<Longrightarrow> requested \<noteq> Collection_minor"
  shows "\<exists>k hp'. determine_collection_kind cfg hp requested = Inr (k, hp') \<and> mh_gc_kind hp' = k \<and> k \<noteq> Collection_any
    \<and> (mh_count hp = 0 \<longrightarrow> k = Collection_major)
    \<and> (ns_heap_has_ambiguous_edges (mh_nofl hp) \<longrightarrow> k \<noteq> Collection_compacting)
    \<and> (\<not> gc_generational cfg \<longrightarrow> k \<noteq> Collection_minor)
    \<and> (mh_count hp \<noteq> 0 \<and> requested \<noteq> Collection_any \<longrightarrow>
        k = (if requested = Collection_compacting \<and> ns_heap_has_ambiguous_edges (mh_nofl hp) then Collection_major else requested))
    \<and> (mh_count hp \<noteq> 0 \<and> requested = Collection_any
        \<and> (0 < ns_pending_unavailable_bytes (mh_nofl hp) \<or> mh_fragmentation_high_threshold hp < f)
        \<longrightarrow> k = (if ns_heap_has_ambiguous_edges (mh_nofl hp) then Collection_major else Collection_compacting))
    \<and> (k = Collection_minor \<and> requested = Collection_any \<and> mh_gc_kind hp = Collection_minor \<longrightarrow>
        mh_major_gc_yield_threshold hp \<le> heap_last_gc_yield hp)
    \<and> (k = Collection_minor \<and> mh_gc_kind hp \<noteq> Collection_minor \<longrightarrow>
        mh_minimum_major_gc_yield_threshold hp \<le> mh_major_gc_yield_threshold hp')"
proof -
  have assert: "gc_assert True = Inr ()" by (simp add: gc_assert_def)
  have major: "\<not> gc_generational cfg \<Longrightarrow> mh_count hp \<noteq> 0 \<Longrightarrow> mh_gc_kind hp \<noteq> Collection_compacting \<Longrightarrow> mh_gc_kind hp = Collection_major"
    using prev by (cases "mh_gc_kind hp") auto
  show ?thesis
    unfolding determine_collection_kind_def Let_def frag result_bind.simps
    using major req clamped_threshold(1)[of hp] by (auto simp: assert split: if_splits)
qed


lemma example_fragmentation: "\<exists>f. heap_fragmentation example_heap = Inr f"
proof -
  have "nofl_active_block_count (mh_nofl example_heap) = Inr 60"
    by (simp add: nofl_active_block_count_def nofl_block_count_def example_heap_def example_space_def nofl_sizes NOFL_PAGE_OUT_QUEUE_SIZE_def upt_rec)
  then show ?thesis
    by (simp add: heap_fragmentation_def nofl_space_fragmentation_def nofl_space_size_def nofl_block_count_def example_heap_def example_space_def)
qed




end
