(* ===== verification/StopTheWorldCorrect.thy ===== *)
theory StopTheWorldCorrect
  imports StopTheWorld MmcCorrect
begin

text \<open>
  What stopping the mutators guarantees: while one thread collects, every other mutator is paused or
  inactive; no assertion fails and no count is wrong; no wakeup is lost, so that once no mutator runs a
  collection that was requested takes place and all threads that waited for it go on.
\<close>

section \<open>Counting threads\<close>

definition tally :: "nat \<Rightarrow> (nat \<Rightarrow> bool) \<Rightarrow> int" where
  "tally n P = (\<Sum>j < n. of_bool (P j))"

lemma tally_card: "tally n P = int (card {j. j < n \<and> P j})"
proof -
  have "{j. j < n \<and> P j} = {..<n} \<inter> {j. P j}" by auto
  then show ?thesis by (simp add: tally_def)
qed

lemma tally_change:
  assumes "i < n" "\<And>j. j < n \<Longrightarrow> j \<noteq> i \<Longrightarrow> Q j = P j"
  shows "tally n Q = tally n P + of_bool (Q i) - of_bool (P i)"
proof -
  have "(\<Sum>j \<in> {..<n} - {i}. of_bool (Q j) :: int) = (\<Sum>j \<in> {..<n} - {i}. of_bool (P j))" by (rule sum.cong) (use assms(2) in auto)
  moreover have "(\<Sum>j < n. of_bool (P j) :: int) = of_bool (P i) + (\<Sum>j \<in> {..<n} - {i}. of_bool (P j))" for P
    by (rule sum.remove) (use assms(1) in simp_all)
  ultimately show ?thesis unfolding tally_def by (metis (no_types, lifting) add.commute add_diff_cancel_left diff_add_cancel diff_add_eq)
qed

lemma tally_cong: "(\<And>j. j < n \<Longrightarrow> Q j = P j) \<Longrightarrow> tally n Q = tally n P"
  by (simp add: tally_def)

lemma tally_sub:
  assumes "\<And>j. j < n \<Longrightarrow> P j \<Longrightarrow> Q j"
  shows "tally n P \<le> tally n Q" and "tally n P = tally n Q \<Longrightarrow> j < n \<Longrightarrow> Q j \<Longrightarrow> P j"
proof -
  show le: "tally n P \<le> tally n Q" unfolding tally_def by (rule sum_mono) (use assms in auto)
  show "P j" if "tally n P = tally n Q" "j < n" "Q j"
  proof (rule ccontr)
    assume "\<not> P j"
    then have "tally n P < tally n Q" unfolding tally_def
      by (intro sum_strict_mono_ex1) (use assms that in \<open>auto intro!: bexI[of _ j]\<close>)
    then show False using that(1) by simp
  qed
qed

lemma tally_disjoint: "(\<And>j. j < n \<Longrightarrow> \<not> (P j \<and> Q j)) \<Longrightarrow> tally n P + tally n Q = tally n (\<lambda>j. P j \<or> Q j)"
  unfolding tally_def sum.distrib[symmetric] by (rule sum.cong) auto

section \<open>Invariants\<close>

fun pc_attached :: "mutator_pc \<Rightarrow> bool" where
  "pc_attached Mutator_None \<longleftrightarrow> False"
| "pc_attached (Mutator_Locking task) \<longleftrightarrow> task \<noteq> Task_Add"
| "pc_attached (Mutator_Locked task) \<longleftrightarrow> task \<noteq> Task_Add"
| "pc_attached (Mutator_Waiting task _) \<longleftrightarrow> task \<noteq> Task_Add"
| "pc_attached _ \<longleftrightarrow> True"

fun pc_collector :: "mutator_pc \<Rightarrow> bool" where
  "pc_collector (Collector_Check _) \<longleftrightarrow> True"
| "pc_collector (Collector_Waiting _ _) \<longleftrightarrow> True"
| "pc_collector (Collector_Collecting _) \<longleftrightarrow> True"
| "pc_collector _ \<longleftrightarrow> False"

fun pc_paused :: "mutator_pc \<Rightarrow> bool" where
  "pc_paused (Mutator_Paused _ _ _) \<longleftrightarrow> True"
| "pc_paused pc \<longleftrightarrow> pc_collector pc"

fun pc_holds_lock :: "mutator_pc \<Rightarrow> bool" where
  "pc_holds_lock (Mutator_Locked _) \<longleftrightarrow> True"
| "pc_holds_lock (Collector_Check _) \<longleftrightarrow> True"
| "pc_holds_lock (Collector_Collecting _) \<longleftrightarrow> True"
| "pc_holds_lock _ \<longleftrightarrow> False"

text \<open>Whether a mutator can be active, or inactive, at a program counter.\<close>

fun task_active :: "bool \<Rightarrow> mutator_task \<Rightarrow> bool" where
  "task_active active Task_Reactivate \<longleftrightarrow> \<not> active"
| "task_active active Task_Remove \<longleftrightarrow> True"
| "task_active active Task_Add \<longleftrightarrow> \<not> active"
| "task_active active _ \<longleftrightarrow> active"

fun pc_active :: "bool \<Rightarrow> mutator_pc \<Rightarrow> bool" where
  "pc_active active Mutator_None \<longleftrightarrow> \<not> active"
| "pc_active active Mutator_Inactive \<longleftrightarrow> \<not> active"
| "pc_active active (Mutator_Locking task) \<longleftrightarrow> task_active active task"
| "pc_active active (Mutator_Locked task) \<longleftrightarrow> task_active active task"
| "pc_active active (Mutator_Waiting task _) \<longleftrightarrow> task \<in> {Task_Add, Task_Reactivate} \<and> \<not> active"
| "pc_active active (Mutator_Paused task _ _) \<longleftrightarrow> task \<notin> {Task_Add, Task_Remove, Task_Deactivate, Task_Reactivate} \<and> active"
| "pc_active active _ \<longleftrightarrow> active"

text \<open>A thread that sleeps without having been signalled.\<close>

fun pc_asleep :: "mutator_pc \<Rightarrow> bool" where
  "pc_asleep (Mutator_Waiting _ woken) \<longleftrightarrow> \<not> woken"
| "pc_asleep (Mutator_Paused _ _ woken) \<longleftrightarrow> \<not> woken"
| "pc_asleep _ \<longleftrightarrow> False"

definition counts_ok :: "nat \<Rightarrow> mmc_mutators \<Rightarrow> bool" where
  "counts_ok n s \<longleftrightarrow> mm_mutator_count s = tally n (\<lambda>j. pc_attached (mm_pc s j))
    \<and> mm_paused_mutator_count s = tally n (\<lambda>j. pc_paused (mm_pc s j))
    \<and> mm_inactive_mutator_count s = tally n (\<lambda>j. pc_attached (mm_pc s j) \<and> \<not> mm_active s j)"

definition activity_ok :: "nat \<Rightarrow> mmc_mutators \<Rightarrow> bool" where
  "activity_ok n s \<longleftrightarrow> (\<forall>j < n. pc_active (mm_active s j) (mm_pc s j))"

definition lock_ok :: "nat \<Rightarrow> mmc_mutators \<Rightarrow> bool" where
  "lock_ok n s \<longleftrightarrow> (\<forall>j < n. pc_holds_lock (mm_pc s j) \<longleftrightarrow> mm_lock s = Some j) \<and> (\<forall>j. mm_lock s = Some j \<longrightarrow> j < n)"

definition collector_ok :: "nat \<Rightarrow> mmc_mutators \<Rightarrow> bool" where
  "collector_ok n s \<longleftrightarrow> tally n (\<lambda>j. pc_collector (mm_pc s j)) = of_bool (mm_collecting s)"

definition wakeups_ok :: "nat \<Rightarrow> mmc_mutators \<Rightarrow> bool" where
  "wakeups_ok n s \<longleftrightarrow> (\<forall>j < n. pc_asleep (mm_pc s j) \<longrightarrow> mm_collecting s)
    \<and> (\<forall>j < n. \<forall>kind. mm_pc s j = Collector_Waiting kind False \<longrightarrow> \<not> all_mutators_stopped s)
    \<and> (\<forall>j < n. \<forall>kind. mm_pc s j = Collector_Collecting kind \<longrightarrow> all_mutators_stopped s)"

definition mutators_ok :: "nat \<Rightarrow> mmc_mutators \<Rightarrow> bool" where
  "mutators_ok n s \<longleftrightarrow> counts_ok n s \<and> activity_ok n s \<and> lock_ok n s \<and> collector_ok n s \<and> wakeups_ok n s
    \<and> distinct (mm_mutators s) \<and> set (mm_mutators s) = {j. j < n \<and> pc_attached (mm_pc s j)} \<and> \<not> mm_failed s"

text \<open>Signals change only who is asleep.\<close>

lemma signal_pc [simp]:
  "pc_attached (mm_pc (signal_collector s) j) = pc_attached (mm_pc s j)" "pc_paused (mm_pc (signal_collector s) j) = pc_paused (mm_pc s j)"
  "pc_collector (mm_pc (signal_collector s) j) = pc_collector (mm_pc s j)" "pc_holds_lock (mm_pc (signal_collector s) j) = pc_holds_lock (mm_pc s j)"
  "pc_active b (mm_pc (signal_collector s) j) = pc_active b (mm_pc s j)" "pc_asleep (mm_pc (signal_collector s) j) = pc_asleep (mm_pc s j)"
  "mm_pc (signal_collector s) j \<noteq> Collector_Waiting kind False"
  "mm_pc (signal_collector s) j = Collector_Collecting kind \<longleftrightarrow> mm_pc s j = Collector_Collecting kind"
  by (simp_all add: signal_collector_def split: mutator_pc.split)

lemma broadcast_pc [simp]:
  "pc_attached (mm_pc (broadcast_mutators s) j) = pc_attached (mm_pc s j)" "pc_paused (mm_pc (broadcast_mutators s) j) = pc_paused (mm_pc s j)"
  "pc_collector (mm_pc (broadcast_mutators s) j) = pc_collector (mm_pc s j)" "pc_holds_lock (mm_pc (broadcast_mutators s) j) = pc_holds_lock (mm_pc s j)"
  "pc_active b (mm_pc (broadcast_mutators s) j) = pc_active b (mm_pc s j)" "\<not> pc_asleep (mm_pc (broadcast_mutators s) j)"
  "mm_pc (broadcast_mutators s) j = Collector_Waiting kind False \<longleftrightarrow> mm_pc s j = Collector_Waiting kind False"
  "mm_pc (broadcast_mutators s) j = Collector_Collecting kind \<longleftrightarrow> mm_pc s j = Collector_Collecting kind"
  by (simp_all add: broadcast_mutators_def split: mutator_pc.split)

lemma signal_fields [simp]:
  "mm_collecting (signal_collector s) = mm_collecting s" "mm_mutator_count (signal_collector s) = mm_mutator_count s"
  "mm_paused_mutator_count (signal_collector s) = mm_paused_mutator_count s"
  "mm_inactive_mutator_count (signal_collector s) = mm_inactive_mutator_count s" "mm_mutators (signal_collector s) = mm_mutators s"
  "mm_active (signal_collector s) = mm_active s" "mm_lock (signal_collector s) = mm_lock s" "mm_gc_kind (signal_collector s) = mm_gc_kind s"
  "mm_collections (signal_collector s) = mm_collections s" "mm_failed (signal_collector s) = mm_failed s"
  by (simp_all add: signal_collector_def)

lemma broadcast_fields [simp]:
  "mm_collecting (broadcast_mutators s) = mm_collecting s" "mm_mutator_count (broadcast_mutators s) = mm_mutator_count s"
  "mm_paused_mutator_count (broadcast_mutators s) = mm_paused_mutator_count s"
  "mm_inactive_mutator_count (broadcast_mutators s) = mm_inactive_mutator_count s" "mm_mutators (broadcast_mutators s) = mm_mutators s"
  "mm_active (broadcast_mutators s) = mm_active s" "mm_lock (broadcast_mutators s) = mm_lock s" "mm_gc_kind (broadcast_mutators s) = mm_gc_kind s"
  "mm_collections (broadcast_mutators s) = mm_collections s" "mm_failed (broadcast_mutators s) = mm_failed s"
  by (simp_all add: broadcast_mutators_def)

section \<open>The invariants are kept\<close>

lemma paused_attached: "pc_paused pc \<Longrightarrow> pc_attached pc"
  by (cases pc) simp_all

lemma collector_paused: "pc_collector pc \<Longrightarrow> pc_paused pc"
  by (cases pc) simp_all

lemma paused_active: "pc_active b pc \<Longrightarrow> pc_paused pc \<Longrightarrow> b"
  by (cases pc) simp_all

text \<open>All mutators have stopped when and only when each is paused or inactive.\<close>

lemma stopped_iff:
  assumes "counts_ok n s" "activity_ok n s"
  shows "all_mutators_stopped s \<longleftrightarrow> (\<forall>j < n. pc_attached (mm_pc s j) \<longrightarrow> pc_paused (mm_pc s j) \<or> \<not> mm_active s j)"
proof -
  let ?P = "\<lambda>j. pc_paused (mm_pc s j) \<or> pc_attached (mm_pc s j) \<and> \<not> mm_active s j"
  let ?A = "\<lambda>j. pc_attached (mm_pc s j)"
  have "mm_paused_mutator_count s + mm_inactive_mutator_count s = tally n ?P"
    using assms(1) tally_disjoint[of n "\<lambda>j. pc_paused (mm_pc s j)" "\<lambda>j. pc_attached (mm_pc s j) \<and> \<not> mm_active s j"] paused_active assms(2)
    by (auto simp: counts_ok_def activity_ok_def)
  moreover have "mm_mutator_count s = tally n ?A" using assms(1) by (simp add: counts_ok_def)
  moreover have "tally n ?A = tally n ?P \<longleftrightarrow> (\<forall>j < n. ?A j \<longrightarrow> ?P j)"
  proof
    assume "tally n ?A = tally n ?P"
    then have "?P j" if "j < n" "?A j" for j by (intro tally_sub(2)[of n ?P ?A j]) (use that paused_attached in auto)
    then show "\<forall>j < n. ?A j \<longrightarrow> ?P j" by blast
  next
    assume "\<forall>j < n. ?A j \<longrightarrow> ?P j"
    then show "tally n ?A = tally n ?P" using paused_attached by (intro tally_cong) blast
  qed
  ultimately show ?thesis by (auto simp: all_mutators_stopped_def)
qed

lemma collector_is_collecting:
  assumes "mutators_ok n s" "i < n" "pc_collector (mm_pc s i)"
  shows "mm_collecting s"
proof (rule ccontr)
  assume "\<not> mm_collecting s"
  then have "tally n (\<lambda>j. pc_collector (mm_pc s j)) = tally n (\<lambda>_. False)" using assms(1) by (simp add: mutators_ok_def collector_ok_def tally_def)
  then show False using tally_sub(2)[of n "\<lambda>_. False" "\<lambda>j. pc_collector (mm_pc s j)" i] assms(2,3) by simp
qed

lemma mutators_ok_change:
  assumes ok: "mutators_ok n s" and i: "i < n"
    and others: "\<And>j. j \<noteq> i \<Longrightarrow> pc_attached (mm_pc t j) = pc_attached (mm_pc s j) \<and> pc_paused (mm_pc t j) = pc_paused (mm_pc s j)
      \<and> pc_collector (mm_pc t j) = pc_collector (mm_pc s j) \<and> pc_holds_lock (mm_pc t j) = pc_holds_lock (mm_pc s j)
      \<and> (\<forall>b. pc_active b (mm_pc t j) = pc_active b (mm_pc s j)) \<and> mm_active t j = mm_active s j
      \<and> (pc_asleep (mm_pc t j) \<longrightarrow> pc_asleep (mm_pc s j)) \<and> (\<forall>kind. mm_pc t j = Collector_Waiting kind False \<longrightarrow> mm_pc s j = Collector_Waiting kind False)
      \<and> (\<forall>kind. mm_pc t j = Collector_Collecting kind \<longrightarrow> mm_pc s j = Collector_Collecting kind)"
    and counts: "mm_mutator_count t = mm_mutator_count s + of_bool (pc_attached (mm_pc t i)) - of_bool (pc_attached (mm_pc s i))"
      "mm_paused_mutator_count t = mm_paused_mutator_count s + of_bool (pc_paused (mm_pc t i)) - of_bool (pc_paused (mm_pc s i))"
      "mm_inactive_mutator_count t = mm_inactive_mutator_count s + of_bool (pc_attached (mm_pc t i) \<and> \<not> mm_active t i)
        - of_bool (pc_attached (mm_pc s i) \<and> \<not> mm_active s i)"
    and active: "pc_active (mm_active t i) (mm_pc t i)"
    and lock: "mm_lock t = (if pc_holds_lock (mm_pc t i) then Some i else if pc_holds_lock (mm_pc s i) then None else mm_lock s)"
      "pc_holds_lock (mm_pc t i) \<Longrightarrow> pc_holds_lock (mm_pc s i) \<or> mm_lock s = None"
    and collector: "of_bool (mm_collecting t) = (of_bool (mm_collecting s) + of_bool (pc_collector (mm_pc t i)) - of_bool (pc_collector (mm_pc s i)) :: int)"
    and asleep: "pc_asleep (mm_pc t i) \<Longrightarrow> mm_collecting t" "(mm_collecting s \<longrightarrow> mm_collecting t) \<or> (\<forall>j. j \<noteq> i \<longrightarrow> \<not> pc_asleep (mm_pc t j))"
    and waiting: "\<And>kind. mm_pc t i = Collector_Waiting kind False \<Longrightarrow> \<not> all_mutators_stopped t"
      "\<not> mm_collecting s \<or> (all_mutators_stopped t \<longrightarrow> all_mutators_stopped s) \<or> (\<forall>j kind. j \<noteq> i \<longrightarrow> mm_pc t j \<noteq> Collector_Waiting kind False)"
    and collecting: "\<And>kind. mm_pc t i = Collector_Collecting kind \<Longrightarrow> all_mutators_stopped t"
      "all_mutators_stopped t = all_mutators_stopped s \<or> pc_holds_lock (mm_pc s i) \<or> pc_holds_lock (mm_pc t i)"
    and list: "distinct (mm_mutators t)" "set (mm_mutators t) = (if pc_attached (mm_pc t i) then insert i (set (mm_mutators s)) else set (mm_mutators s) - {i})"
    and failed: "\<not> mm_failed t"
  shows "mutators_ok n t"
proof -
  have s: "counts_ok n s" "activity_ok n s" "lock_ok n s" "collector_ok n s" "wakeups_ok n s"
    "set (mm_mutators s) = {j. j < n \<and> pc_attached (mm_pc s j)}" using ok by (simp_all add: mutators_ok_def)
  have o: "pc_attached (mm_pc t j) = pc_attached (mm_pc s j)" "pc_paused (mm_pc t j) = pc_paused (mm_pc s j)"
    "pc_collector (mm_pc t j) = pc_collector (mm_pc s j)" "pc_holds_lock (mm_pc t j) = pc_holds_lock (mm_pc s j)"
    "pc_active b (mm_pc t j) = pc_active b (mm_pc s j)" "mm_active t j = mm_active s j"
    "pc_asleep (mm_pc t j) \<Longrightarrow> pc_asleep (mm_pc s j)" "mm_pc t j = Collector_Waiting kind False \<Longrightarrow> mm_pc s j = Collector_Waiting kind False"
    "mm_pc t j = Collector_Collecting kind \<Longrightarrow> mm_pc s j = Collector_Collecting kind" if "j \<noteq> i" for j b kind
    using others[OF that] by blast+
  have "tally n (\<lambda>j. pc_attached (mm_pc t j)) = tally n (\<lambda>j. pc_attached (mm_pc s j)) + of_bool (pc_attached (mm_pc t i)) - of_bool (pc_attached (mm_pc s i))"
    by (rule tally_change[OF i o(1)])
  moreover have "tally n (\<lambda>j. pc_paused (mm_pc t j)) = tally n (\<lambda>j. pc_paused (mm_pc s j)) + of_bool (pc_paused (mm_pc t i)) - of_bool (pc_paused (mm_pc s i))"
    by (rule tally_change[OF i o(2)])
  moreover have "tally n (\<lambda>j. pc_attached (mm_pc t j) \<and> \<not> mm_active t j) = tally n (\<lambda>j. pc_attached (mm_pc s j) \<and> \<not> mm_active s j)
      + of_bool (pc_attached (mm_pc t i) \<and> \<not> mm_active t i) - of_bool (pc_attached (mm_pc s i) \<and> \<not> mm_active s i)"
    by (rule tally_change[OF i]) (simp add: o(1,6))
  ultimately have "counts_ok n t" using s(1) counts unfolding counts_ok_def by simp
  moreover have "activity_ok n t" unfolding activity_ok_def
  proof (intro allI impI)
    fix j assume "j < n"
    then show "pc_active (mm_active t j) (mm_pc t j)" using s(2) active o(5,6)[of j] by (cases "j = i") (auto simp: activity_ok_def)
  qed
  moreover have lk: "lock_ok n t"
    unfolding lock_ok_def
  proof (intro conjI allI impI)
    fix j assume j: "j < n"
    show "pc_holds_lock (mm_pc t j) \<longleftrightarrow> mm_lock t = Some j"
    proof (cases "j = i")
      case False
      then have "pc_holds_lock (mm_pc t j) \<longleftrightarrow> mm_lock s = Some j" using s(3) o(4) j by (simp add: lock_ok_def)
      moreover have "pc_holds_lock (mm_pc s i) \<longleftrightarrow> mm_lock s = Some i" using s(3) i by (simp add: lock_ok_def)
      ultimately show ?thesis using False lock by auto
    next
      case True
      have "pc_holds_lock (mm_pc s i) \<longleftrightarrow> mm_lock s = Some i" using s(3) i by (simp add: lock_ok_def)
      then show ?thesis using True lock(1) by auto
    qed
  next
    fix j assume "mm_lock t = Some j"
    then show "j < n" using s(3) i lock(1) by (auto simp: lock_ok_def split: if_splits)
  qed
  moreover have "tally n (\<lambda>j. pc_collector (mm_pc t j)) = tally n (\<lambda>j. pc_collector (mm_pc s j)) + of_bool (pc_collector (mm_pc t i)) - of_bool (pc_collector (mm_pc s i))"
    by (rule tally_change[OF i o(3)])
  then have "collector_ok n t" using s(4) collector unfolding collector_ok_def by simp
  moreover have "wakeups_ok n t"
    unfolding wakeups_ok_def
  proof (intro conjI allI impI)
    fix j assume "j < n" "pc_asleep (mm_pc t j)"
    then show "mm_collecting t" using s(5) asleep o(7) by (cases "j = i") (auto simp: wakeups_ok_def)
  next
    fix j kind assume "j < n" "mm_pc t j = Collector_Waiting kind False"
    then show "\<not> all_mutators_stopped t"
      using s(5) waiting o(8)[of j kind] collector_is_collecting[OF ok, of j] by (cases "j = i") (auto simp: wakeups_ok_def)
  next
    fix j kind assume j: "j < n" "mm_pc t j = Collector_Collecting kind"
    show "all_mutators_stopped t"
    proof (cases "j = i")
      case False
      then have "mm_pc s j = Collector_Collecting kind" using o(9) j by blast
      then have "all_mutators_stopped s" "mm_lock s = Some j" "mm_lock t = Some j"
        using s(3,5) lk j by (auto simp: wakeups_ok_def lock_ok_def)
      moreover have "\<not> pc_holds_lock (mm_pc s i)" "\<not> pc_holds_lock (mm_pc t i)"
        using calculation False s(3) lk i by (auto simp: lock_ok_def)
      ultimately show ?thesis using collecting(2) by blast
    qed (use j collecting(1) in blast)
  qed
  moreover have "set (mm_mutators t) = {j. j < n \<and> pc_attached (mm_pc t j)}"
  proof (intro set_eqI)
    fix j
    show "j \<in> set (mm_mutators t) \<longleftrightarrow> j \<in> {j. j < n \<and> pc_attached (mm_pc t j)}"
      using s(6) list(2) o(1)[of j] i by (cases "j = i") auto
  qed
  ultimately show ?thesis using list(1) failed by (simp add: mutators_ok_def)
qed

lemma signal_if_simps [simp]:
  "pc_attached (mm_pc (signal_if c s) j) = pc_attached (mm_pc s j)" "pc_paused (mm_pc (signal_if c s) j) = pc_paused (mm_pc s j)"
  "pc_collector (mm_pc (signal_if c s) j) = pc_collector (mm_pc s j)" "pc_holds_lock (mm_pc (signal_if c s) j) = pc_holds_lock (mm_pc s j)"
  "pc_active b (mm_pc (signal_if c s) j) = pc_active b (mm_pc s j)" "pc_asleep (mm_pc (signal_if c s) j) = pc_asleep (mm_pc s j)"
  "mm_pc (signal_if c s) j = Collector_Waiting kind False \<longleftrightarrow> \<not> c \<and> mm_pc s j = Collector_Waiting kind False"
  "mm_pc (signal_if c s) j = Collector_Collecting kind \<longleftrightarrow> mm_pc s j = Collector_Collecting kind"
  "mm_collecting (signal_if c s) = mm_collecting s" "mm_mutator_count (signal_if c s) = mm_mutator_count s"
  "mm_paused_mutator_count (signal_if c s) = mm_paused_mutator_count s" "mm_inactive_mutator_count (signal_if c s) = mm_inactive_mutator_count s"
  "mm_mutators (signal_if c s) = mm_mutators s" "mm_active (signal_if c s) = mm_active s" "mm_lock (signal_if c s) = mm_lock s"
  "mm_gc_kind (signal_if c s) = mm_gc_kind s" "mm_collections (signal_if c s) = mm_collections s" "mm_failed (signal_if c s) = mm_failed s"
  by (auto simp: signal_if_def)

lemma ok_at:
  assumes "mutators_ok n s" "i < n"
  shows "pc_active (mm_active s i) (mm_pc s i)" "pc_holds_lock (mm_pc s i) \<longleftrightarrow> mm_lock s = Some i"
    "i \<in> set (mm_mutators s) \<longleftrightarrow> pc_attached (mm_pc s i)" "distinct (mm_mutators s)" "\<not> mm_failed s"
    "pc_asleep (mm_pc s i) \<Longrightarrow> mm_collecting s"
    "mm_pc s i = Collector_Collecting kind \<Longrightarrow> all_mutators_stopped s"
  using assms by (auto simp: mutators_ok_def activity_ok_def lock_ok_def wakeups_ok_def)

lemma running_not_stopped:
  assumes "mutators_ok n s" "i < n" "pc_attached (mm_pc s i)" "\<not> pc_paused (mm_pc s i)" "mm_active s i"
  shows "\<not> all_mutators_stopped s"
  using stopped_iff[of n s] assms by (auto simp: mutators_ok_def)

lemmas mutator_ops = all_mutators_stopped_def mutators_are_stopping_def

lemma mutators_ok_step:
  assumes "mutator_step n may l s t" "mutators_ok n s"
  shows "mutators_ok n t"
  using assms(1)
proof cases
  case (start_add i)
  then have i: "i < n" by simp
  note at = ok_at[OF assms(2) i]
  show ?thesis unfolding start_add(2)
    by (rule mutators_ok_change[OF assms(2) i]) (use start_add(3-) at in \<open>auto simp: mutator_ops\<close>)
next
  case (start_safepoint i)
  then have i: "i < n" by simp
  note at = ok_at[OF assms(2) i]
  show ?thesis unfolding start_safepoint(2)
    by (rule mutators_ok_change[OF assms(2) i]) (use start_safepoint(3-) at in \<open>auto simp: mutator_ops\<close>)
next
  case (start_trigger i kind)
  then have i: "i < n" by simp
  note at = ok_at[OF assms(2) i]
  show ?thesis unfolding start_trigger(2)
    by (rule mutators_ok_change[OF assms(2) i]) (use start_trigger(3-) at in \<open>auto simp: mutator_ops\<close>)
next
  case (start_deactivate i)
  then have i: "i < n" by simp
  note at = ok_at[OF assms(2) i]
  show ?thesis unfolding start_deactivate(2)
    by (rule mutators_ok_change[OF assms(2) i]) (use start_deactivate(3-) at in \<open>auto simp: mutator_ops\<close>)
next
  case (start_reactivate i)
  then have i: "i < n" by simp
  note at = ok_at[OF assms(2) i]
  show ?thesis unfolding start_reactivate(2)
    by (rule mutators_ok_change[OF assms(2) i]) (use start_reactivate(3-) at in \<open>auto simp: mutator_ops\<close>)
next
  case (start_remove i)
  then have i: "i < n" by simp
  note at = ok_at[OF assms(2) i]
  show ?thesis unfolding start_remove(2)
    by (rule mutators_ok_change[OF assms(2) i]) (use start_remove(3-) at in \<open>auto simp: mutator_ops\<close>)
next
  case (spurious_wait i task)
  then have i: "i < n" by simp
  note at = ok_at[OF assms(2) i]
  show ?thesis unfolding spurious_wait(2)
    by (rule mutators_ok_change[OF assms(2) i]) (use spurious_wait(3-) at in \<open>auto simp: mutator_ops\<close>)
next
  case (spurious_pause i task kind)
  then have i: "i < n" by simp
  note at = ok_at[OF assms(2) i]
  show ?thesis unfolding spurious_pause(2)
    by (rule mutators_ok_change[OF assms(2) i]) (use spurious_pause(3-) at in \<open>auto simp: mutator_ops\<close>)
next
  case (spurious_collector i kind)
  then have i: "i < n" by simp
  note at = ok_at[OF assms(2) i]
  show ?thesis unfolding spurious_collector(2)
    by (rule mutators_ok_change[OF assms(2) i]) (use spurious_collector(3-) at in \<open>auto simp: mutator_ops\<close>)
next
  case (lock i task)
  then have i: "i < n" by simp
  note at = ok_at[OF assms(2) i]
  show ?thesis unfolding lock(2)
    by (rule mutators_ok_change[OF assms(2) i]) (use lock(3-) at in \<open>auto simp: mutator_ops\<close>)
next
  case (wait i task)
  then have i: "i < n" by simp
  note at = ok_at[OF assms(2) i]
  show ?thesis unfolding wait(2)
    by (rule mutators_ok_change[OF assms(2) i]) (use wait(3-) at in \<open>auto simp: mutator_ops\<close>)
next
  case (wake i task)
  then have i: "i < n" by simp
  note at = ok_at[OF assms(2) i]
  show ?thesis unfolding wake(2)
    by (rule mutators_ok_change[OF assms(2) i]) (use wake(3-) at in \<open>auto simp: mutator_ops\<close>)
next
  case (add i)
  then have i: "i < n" by simp
  note at = ok_at[OF assms(2) i]
  show ?thesis unfolding add(2)
    by (rule mutators_ok_change[OF assms(2) i]) (use add(3-) at in \<open>auto simp: mutator_ops add_mutator_def\<close>)
next
  case (reactivate i)
  then have i: "i < n" by simp
  note at = ok_at[OF assms(2) i]
  show ?thesis unfolding reactivate(2)
    by (rule mutators_ok_change[OF assms(2) i]) (use reactivate(3-) at in \<open>auto simp: mutator_ops reactivate_mutator_def\<close>)
next
  case (deactivate i)
  then have i: "i < n" by simp
  note at = ok_at[OF assms(2) i]
  show ?thesis unfolding deactivate(2)
    by (rule mutators_ok_change[OF assms(2) i]) (use deactivate(3-) at in \<open>auto simp: mutator_ops deactivate_mutator_def Let_def\<close>)
next
  case (remove i)
  then have i: "i < n" by simp
  note at = ok_at[OF assms(2) i]
  show ?thesis unfolding remove(2)
    by (rule mutators_ok_change[OF assms(2) i]) (use remove(3-) at in \<open>auto simp: mutator_ops remove_mutator_def Let_def\<close>)
next
  case (pause i task requested prev_kind)
  then have i: "i < n" by simp
  note at = ok_at[OF assms(2) i]
  have "\<not> all_mutators_stopped s" by (rule running_not_stopped[OF assms(2) i]) (use pause at in auto)
  show ?thesis unfolding pause(2)
    by (rule mutators_ok_change[OF assms(2) i]) (use pause(3-) at \<open>\<not> all_mutators_stopped s\<close> in \<open>auto simp: mutator_ops pause_mutator_for_collection_def Let_def\<close>)
next
  case (pause_again i task kind)
  then have i: "i < n" by simp
  note at = ok_at[OF assms(2) i]
  show ?thesis unfolding pause_again(2)
    by (rule mutators_ok_change[OF assms(2) i]) (use pause_again(3-) at in \<open>auto simp: mutator_ops\<close>)
next
  case (resume i task kind)
  then have i: "i < n" by simp
  note at = ok_at[OF assms(2) i]
  obtain task' where task: "task_resumed kind task = task'" "task' \<noteq> Task_Add" "task_active True task'"
    using at(1) resume(3) by (cases task) auto
  show ?thesis unfolding resume(2) task(1)
    by (rule mutators_ok_change[OF assms(2) i]) (use resume(3-) at task(2,3) in \<open>auto simp: mutator_ops\<close>)
next
  case (safepoint i)
  then have i: "i < n" by simp
  note at = ok_at[OF assms(2) i]
  show ?thesis unfolding safepoint(2)
    by (rule mutators_ok_change[OF assms(2) i]) (use safepoint(3-) at in \<open>auto simp: mutator_ops\<close>)
next
  case (collected_already i requested prev_kind)
  then have i: "i < n" by simp
  note at = ok_at[OF assms(2) i]
  show ?thesis unfolding collected_already(2)
    by (rule mutators_ok_change[OF assms(2) i]) (use collected_already(3-) at in \<open>auto simp: mutator_ops\<close>)
next
  case (collect i requested prev_kind s')
  then have i: "i < n" by simp
  note at = ok_at[OF assms(2) i]
  show ?thesis unfolding collect(2)
    by (rule mutators_ok_change[OF assms(2) i]) (use collect(3-) at in \<open>auto simp: mutator_ops request_mutators_to_stop_def\<close>)
next
  case (wait_for_mutators i requested)
  then have i: "i < n" by simp
  note at = ok_at[OF assms(2) i]
  show ?thesis unfolding wait_for_mutators(2)
    by (rule mutators_ok_change[OF assms(2) i]) (use wait_for_mutators(3-) at in \<open>auto simp: mutator_ops\<close>)
next
  case (wake_collector i requested)
  then have i: "i < n" by simp
  note at = ok_at[OF assms(2) i]
  show ?thesis unfolding wake_collector(2)
    by (rule mutators_ok_change[OF assms(2) i]) (use wake_collector(3-) at in \<open>auto simp: mutator_ops\<close>)
next
  case (mutators_stopped i requested kind)
  then have i: "i < n" by simp
  note at = ok_at[OF assms(2) i]
  show ?thesis unfolding mutators_stopped(2)
    by (rule mutators_ok_change[OF assms(2) i]) (use mutators_stopped(3-) at in \<open>auto simp: mutator_ops\<close>)
next
  case (finish i kind)
  then have i: "i < n" by simp
  note at = ok_at[OF assms(2) i]
  have "all_mutators_stopped s" "mm_collecting s" using at(7) collector_is_collecting[OF assms(2) i] finish by simp_all
  show ?thesis unfolding finish(2)
    by (rule mutators_ok_change[OF assms(2) i]) (use finish(3-) at \<open>all_mutators_stopped s\<close> \<open>mm_collecting s\<close> in \<open>auto simp: mutator_ops allow_mutators_to_continue_def Let_def\<close>)
qed

section \<open>Safety\<close>

definition mutators_reachable ::
    "nat \<Rightarrow> (nat \<Rightarrow> gc_collection_kind \<Rightarrow> gc_collection_kind \<Rightarrow> gc_collection_kind \<Rightarrow> bool) \<Rightarrow> mmc_mutators \<Rightarrow> bool" where
  "mutators_reachable n may s \<longleftrightarrow> (\<lambda>s t. \<exists>l. mutator_step n may l s t)\<^sup>*\<^sup>* heap_mutators_init s"

lemma mutators_ok_init: "mutators_ok n heap_mutators_init"
  by (simp add: mutators_ok_def heap_mutators_init_def counts_ok_def activity_ok_def lock_ok_def collector_ok_def wakeups_ok_def tally_def)

lemma mutators_ok_reachable:
  assumes "mutators_reachable n may s"
  shows "mutators_ok n s"
  using assms unfolding mutators_reachable_def
  by (induction rule: rtranclp_induct) (use mutators_ok_init mutators_ok_step in blast)+

lemma collector_unique:
  assumes "mutators_ok n s" "i < n" "j < n" "pc_collector (mm_pc s i)" "pc_collector (mm_pc s j)"
  shows "i = j"
proof (rule ccontr)
  assume "i \<noteq> j"
  then have "(\<Sum>k \<in> {i, j}. of_bool (pc_collector (mm_pc s k)) :: int) = 2" using assms(4,5) by simp
  moreover have "(\<Sum>k \<in> {i, j}. of_bool (pc_collector (mm_pc s k)) :: int) \<le> tally n (\<lambda>k. pc_collector (mm_pc s k))"
    unfolding tally_def by (rule sum_mono2) (use assms(2,3) in auto)
  moreover have "tally n (\<lambda>k. pc_collector (mm_pc s k)) \<le> 1" using assms(1) by (simp add: mutators_ok_def collector_ok_def)
  ultimately show False by simp
qed

text \<open>C4: Stopping the mutators is safe, whatever threads come and go and in whatever order they run: in every state in
  which one thread collects, that thread has the lock, no other thread collects or runs and every other mutator
  waits in a pause or is inactive. The mutator count is the length of the list of mutators, each of which is in it
  once; the paused count is the number of those that wait in a pause or are in \<open>collect\<close>, and the inactive count
  that of those whose active flag is clear. No assertion of the code fails.\<close>

theorem stop_the_world_safe:
  assumes "mutators_reachable n may s"
  shows "\<not> mm_failed s
    \<and> (\<forall>i < n. \<forall>kind. mm_pc s i = Collector_Collecting kind \<longrightarrow> mm_lock s = Some i \<and> mm_collecting s
        \<and> (\<forall>j < n. j \<noteq> i \<longrightarrow> mm_pc s j \<noteq> Mutator_Running \<and> (\<forall>kind. mm_pc s j \<noteq> Collector_Collecting kind)
            \<and> (j \<in> set (mm_mutators s) \<longrightarrow> (\<exists>task kind woken. mm_pc s j = Mutator_Paused task kind woken) \<or> \<not> mm_active s j)))
    \<and> distinct (mm_mutators s) \<and> mm_mutator_count s = int (length (mm_mutators s))
    \<and> mm_paused_mutator_count s = int (card {j \<in> set (mm_mutators s). pc_paused (mm_pc s j)})
    \<and> mm_inactive_mutator_count s = int (card {j \<in> set (mm_mutators s). \<not> mm_active s j})
    \<and> mm_paused_mutator_count s + mm_inactive_mutator_count s \<le> mm_mutator_count s"
proof -
  have ok: "mutators_ok n s" by (rule mutators_ok_reachable[OF assms])
  then have p: "counts_ok n s" "activity_ok n s" "lock_ok n s" "distinct (mm_mutators s)"
    "set (mm_mutators s) = {j. j < n \<and> pc_attached (mm_pc s j)}" "\<not> mm_failed s" by (simp_all add: mutators_ok_def)
  have safe: "mm_lock s = Some i \<and> mm_collecting s \<and> (\<forall>j < n. j \<noteq> i \<longrightarrow> mm_pc s j \<noteq> Mutator_Running
      \<and> (\<forall>kind. mm_pc s j \<noteq> Collector_Collecting kind)
      \<and> (j \<in> set (mm_mutators s) \<longrightarrow> (\<exists>task kind woken. mm_pc s j = Mutator_Paused task kind woken) \<or> \<not> mm_active s j))"
    if i: "i < n" "mm_pc s i = Collector_Collecting kind" for i kind
  proof (intro conjI allI impI)
    show "mm_lock s = Some i" using ok_at(2)[OF ok i(1)] i(2) by simp
    show "mm_collecting s" by (rule collector_is_collecting[OF ok i(1)]) (simp add: i(2))
    have stopped: "all_mutators_stopped s" using ok_at(7)[OF ok i(1,2)] .
    fix j assume j: "j < n" "j \<noteq> i"
    have not_collector: "\<not> pc_collector (mm_pc s j)" using collector_unique[OF ok i(1) j(1)] i(2) j(2) by auto
    have a: "pc_attached (mm_pc s j) \<longrightarrow> pc_paused (mm_pc s j) \<or> \<not> mm_active s j" using stopped stopped_iff[OF p(1,2)] j(1) by blast
    have act: "pc_active (mm_active s j) (mm_pc s j)" using p(2) j(1) by (simp add: activity_ok_def)
    show "mm_pc s j \<noteq> Mutator_Running" using a act by auto
    show "mm_pc s j \<noteq> Collector_Collecting kind" for kind using not_collector by auto
    assume "j \<in> set (mm_mutators s)"
    then have "pc_paused (mm_pc s j) \<or> \<not> mm_active s j" using a p(5) by simp
    then show "(\<exists>task kind woken. mm_pc s j = Mutator_Paused task kind woken) \<or> \<not> mm_active s j"
      using not_collector by (cases "mm_pc s j") auto
  qed
  have len: "int (length (mm_mutators s)) = mm_mutator_count s"
  proof -
    have "length (mm_mutators s) = card {j. j < n \<and> pc_attached (mm_pc s j)}" using p(4,5) distinct_card by metis
    then show ?thesis using p(1) by (simp add: counts_ok_def tally_card)
  qed
  have "{j \<in> set (mm_mutators s). pc_paused (mm_pc s j)} = {j. j < n \<and> pc_paused (mm_pc s j)}"
    "{j \<in> set (mm_mutators s). \<not> mm_active s j} = {j. j < n \<and> pc_attached (mm_pc s j) \<and> \<not> mm_active s j}"
    using p(5) paused_attached by auto
  then have numbers: "mm_paused_mutator_count s = int (card {j \<in> set (mm_mutators s). pc_paused (mm_pc s j)})"
    "mm_inactive_mutator_count s = int (card {j \<in> set (mm_mutators s). \<not> mm_active s j})"
    using p(1) by (simp_all add: counts_ok_def tally_card)
  have "mm_paused_mutator_count s + mm_inactive_mutator_count s = tally n (\<lambda>j. pc_paused (mm_pc s j) \<or> pc_attached (mm_pc s j) \<and> \<not> mm_active s j)"
    using p(1) tally_disjoint[of n "\<lambda>j. pc_paused (mm_pc s j)" "\<lambda>j. pc_attached (mm_pc s j) \<and> \<not> mm_active s j"] paused_active p(2)
    by (auto simp: counts_ok_def activity_ok_def)
  also have "\<dots> \<le> tally n (\<lambda>j. pc_attached (mm_pc s j))" by (rule tally_sub(1)) (use paused_attached in auto)
  finally have "mm_paused_mutator_count s + mm_inactive_mutator_count s \<le> mm_mutator_count s" using p(1) by (simp add: counts_ok_def)
  then show ?thesis using safe len numbers p(4,6) by simp
qed

section \<open>Progress\<close>

text \<open>
  A weight for every program counter that a step of the collector's code takes from it: a thread that still may
  begin a collection, or is in one, has \<open>11 * n + 1\<close> more, since the end of a collection wakes all others.
\<close>

fun task_triggers :: "mutator_task \<Rightarrow> int" where
  "task_triggers (Task_Trigger _ _) = 1"
| "task_triggers _ = 0"

fun pc_work :: "int \<Rightarrow> mutator_pc \<Rightarrow> int" where
  "pc_work k Mutator_None = 0"
| "pc_work k Mutator_Running = 0"
| "pc_work k Mutator_Inactive = 0"
| "pc_work k (Mutator_Locking task) = k * task_triggers task + 11"
| "pc_work k (Mutator_Locked task) = k * task_triggers task + 10"
| "pc_work k (Mutator_Waiting task woken) = k * task_triggers task + (if woken then 11 else 1)"
| "pc_work k (Mutator_Paused task _ woken) = k * task_triggers task + (if woken then 11 else 1)"
| "pc_work k (Collector_Check _) = k + 3"
| "pc_work k (Collector_Waiting _ woken) = k + (if woken then 4 else 1)"
| "pc_work k (Collector_Collecting _) = k + 2"

definition mutators_work :: "nat \<Rightarrow> mmc_mutators \<Rightarrow> int" where
  "mutators_work n s = (\<Sum>j < n. pc_work (11 * int n + 1) (mm_pc s j))"

lemma triggers_cases: "task_triggers task = 0 \<or> task_triggers task = 1"
  by (cases task) simp_all

lemma pc_work_nonneg: "0 \<le> k \<Longrightarrow> 0 \<le> pc_work k pc"
proof (cases pc)
  case (Mutator_Locking task)
  assume "0 \<le> k" then show ?thesis using triggers_cases[of task] by (auto simp: Mutator_Locking)
next
  case (Mutator_Locked task)
  assume "0 \<le> k" then show ?thesis using triggers_cases[of task] by (auto simp: Mutator_Locked)
next
  case (Mutator_Waiting task woken)
  assume "0 \<le> k" then show ?thesis using triggers_cases[of task] by (auto simp: Mutator_Waiting)
next
  case (Mutator_Paused task kind woken)
  assume "0 \<le> k" then show ?thesis using triggers_cases[of task] by (auto simp: Mutator_Paused)
qed auto

lemma pc_work_le: "0 \<le> k \<Longrightarrow> pc_work k pc \<le> k + 11"
proof (cases pc)
  case (Mutator_Locking task)
  assume "0 \<le> k" then show ?thesis using triggers_cases[of task] by (auto simp: Mutator_Locking)
next
  case (Mutator_Locked task)
  assume "0 \<le> k" then show ?thesis using triggers_cases[of task] by (auto simp: Mutator_Locked)
next
  case (Mutator_Waiting task woken)
  assume "0 \<le> k" then show ?thesis using triggers_cases[of task] by (auto simp: Mutator_Waiting)
next
  case (Mutator_Paused task kind woken)
  assume "0 \<le> k" then show ?thesis using triggers_cases[of task] by (auto simp: Mutator_Paused)
qed auto

lemma work_bounds: "0 \<le> mutators_work n s" "mutators_work n s \<le> int n * (11 * int n + 12)"
proof -
  show "0 \<le> mutators_work n s" unfolding mutators_work_def by (intro sum_nonneg pc_work_nonneg) simp
  have "mutators_work n s \<le> (\<Sum>j < n. 11 * int n + 1 + 11)" unfolding mutators_work_def
    by (intro sum_mono order_trans[OF pc_work_le]) simp_all
  then show "mutators_work n s \<le> int n * (11 * int n + 12)" by (simp add: add.commute)
qed

text \<open>What a step of thread \<open>i\<close> does to the work, when it sets the counters of the others by \<open>f\<close>.\<close>

lemma work_change:
  assumes "i < n" "\<And>j. j < n \<Longrightarrow> j \<noteq> i \<Longrightarrow> pc_work (11 * int n + 1) (mm_pc t j) \<le> pc_work (11 * int n + 1) (mm_pc s j) + extra j"
  shows "mutators_work n t \<le> mutators_work n s + pc_work (11 * int n + 1) (mm_pc t i) - pc_work (11 * int n + 1) (mm_pc s i)
    + (\<Sum>j \<in> {..<n} - {i}. extra j)"
proof -
  let ?w = "\<lambda>s j. pc_work (11 * int n + 1) (mm_pc s j)"
  have "mutators_work n s = ?w s i + (\<Sum>j \<in> {..<n} - {i}. ?w s j)" for s
    unfolding mutators_work_def by (rule sum.remove) (use assms(1) in simp_all)
  moreover have "(\<Sum>j \<in> {..<n} - {i}. ?w t j) \<le> (\<Sum>j \<in> {..<n} - {i}. ?w s j + extra j)"
    by (rule sum_mono) (use assms(2) in auto)
  ultimately show ?thesis by (simp add: sum.distrib)
qed

lemma work_own:
  assumes "i < n" "\<And>j. j \<noteq> i \<Longrightarrow> mm_pc t j = mm_pc s j"
    and "pc_work (11 * int n + 1) (mm_pc t i) < pc_work (11 * int n + 1) (mm_pc s i)"
  shows "mutators_work n t < mutators_work n s"
  using work_change[OF assms(1), of t s "\<lambda>_. 0"] assms(2,3) by simp

lemma work_signal:
  assumes ok: "mutators_ok n s" and i: "i < n" and others: "\<And>j. j \<noteq> i \<Longrightarrow> mm_pc t j = mm_pc (signal_if c s) j"
    and less: "pc_work (11 * int n + 1) (mm_pc t i) + 3 < pc_work (11 * int n + 1) (mm_pc s i)"
  shows "mutators_work n t < mutators_work n s"
proof -
  let ?k = "11 * int n + 1"
  let ?e = "\<lambda>j. 3 * of_bool (pc_collector (mm_pc s j)) :: int"
  have "pc_work ?k (mm_pc t j) \<le> pc_work ?k (mm_pc s j) + ?e j" if "j \<noteq> i" for j
    using others[OF that] by (auto simp: signal_if_def signal_collector_def split: mutator_pc.split)
  then have "mutators_work n t \<le> mutators_work n s + pc_work ?k (mm_pc t i) - pc_work ?k (mm_pc s i) + (\<Sum>j \<in> {..<n} - {i}. ?e j)"
    by (intro work_change[OF i]) simp
  moreover have "(\<Sum>j \<in> {..<n} - {i}. ?e j) \<le> (\<Sum>j < n. ?e j)" by (rule sum_mono2) auto
  moreover have "(\<Sum>j < n. ?e j) = 3 * tally n (\<lambda>j. pc_collector (mm_pc s j))" by (simp add: tally_def sum_distrib_left)
  moreover have "tally n (\<lambda>j. pc_collector (mm_pc s j)) \<le> 1" using ok by (simp add: mutators_ok_def collector_ok_def)
  ultimately show ?thesis using less by linarith
qed

lemma work_broadcast:
  assumes i: "i < n" and others: "\<And>j. j \<noteq> i \<Longrightarrow> mm_pc t j = mm_pc (broadcast_mutators s) j"
    and own: "mm_pc s i = Collector_Collecting kind" "mm_pc t i = Mutator_Running"
  shows "mutators_work n t < mutators_work n s"
proof -
  let ?k = "11 * int n + 1"
  have "pc_work ?k (mm_pc t j) \<le> pc_work ?k (mm_pc s j) + 10" if "j \<noteq> i" for j
    using others[OF that] by (auto simp: broadcast_mutators_def split: mutator_pc.split)
  then have "mutators_work n t \<le> mutators_work n s + pc_work ?k (mm_pc t i) - pc_work ?k (mm_pc s i) + (\<Sum>j \<in> {..<n} - {i}. 10)"
    by (intro work_change[OF i]) simp
  then show ?thesis using i own by (simp add: of_nat_diff)
qed

lemma signal_if_pc:
  "mm_pc (signal_if c (s\<lparr>mm_mutator_count := k\<rparr>)) = mm_pc (signal_if c s)" "mm_pc (signal_if c (s\<lparr>mm_paused_mutator_count := k\<rparr>)) = mm_pc (signal_if c s)"
  "mm_pc (signal_if c (s\<lparr>mm_inactive_mutator_count := k\<rparr>)) = mm_pc (signal_if c s)" "mm_pc (signal_if c (s\<lparr>mm_mutators := l\<rparr>)) = mm_pc (signal_if c s)"
  "mm_pc (signal_if c (s\<lparr>mm_active := f\<rparr>)) = mm_pc (signal_if c s)" "mm_pc (signal_if c (s\<lparr>mm_failed := b\<rparr>)) = mm_pc (signal_if c s)"
  by (simp_all add: signal_if_def signal_collector_def)

lemma operation_signals:
  "\<exists>c. mm_pc (deactivate_mutator i s) = mm_pc (signal_if c s)" "\<exists>c. mm_pc (remove_mutator i s) = mm_pc (signal_if c s)"
  "\<exists>c. mm_pc (pause_mutator_for_collection s) = mm_pc (signal_if c s)"
  by (auto simp: deactivate_mutator_def remove_mutator_def pause_mutator_for_collection_def Let_def signal_if_pc)

lemma forced_step_works:
  assumes "mutator_step n may Forced s t" "mutators_ok n s"
  shows "mutators_work n t < mutators_work n s"
  using assms(1)
proof cases
  case (deactivate i)
  obtain c where "mm_pc (deactivate_mutator i s) = mm_pc (signal_if c s)" using operation_signals(1) by blast
  then show ?thesis using deactivate by (intro work_signal[OF assms(2), where i = i and c = c]) simp_all
next
  case (remove i)
  obtain c where "mm_pc (remove_mutator i s) = mm_pc (signal_if c s)" using operation_signals(2) by blast
  then show ?thesis using remove by (intro work_signal[OF assms(2), where i = i and c = c]) simp_all
next
  case (pause i task requested prev_kind)
  obtain c where "mm_pc (pause_mutator_for_collection s) = mm_pc (signal_if c s)" using operation_signals(3) by blast
  then show ?thesis using pause by (intro work_signal[OF assms(2), where i = i and c = c]) simp_all
next
  case (finish i kind)
  then show ?thesis by (intro work_broadcast[where i = i and kind = kind]) (auto simp: allow_mutators_to_continue_def Let_def broadcast_mutators_def)
next
  case (resume i task kind)
  then show ?thesis by (cases task) (auto intro!: work_own[where i = i])
qed (auto intro!: work_own simp: request_mutators_to_stop_def add_mutator_def reactivate_mutator_def)

text \<open>When no step of the collector's code is left, no thread has the lock, waits for it, or has been signalled.\<close>

lemma stuck_pc:
  assumes ok: "mutators_ok n s" and may: "\<And>c p r. \<exists>k. may c p r k" and stuck: "\<And>t. \<not> mutator_step n may Forced s t"
  shows "mm_lock s = None" "i < n \<Longrightarrow> case mm_pc s i of Mutator_Locking _ \<Rightarrow> False | Mutator_Locked _ \<Rightarrow> False
    | Mutator_Waiting _ woken \<Rightarrow> \<not> woken | Mutator_Paused _ _ woken \<Rightarrow> \<not> woken | Collector_Check _ \<Rightarrow> False
    | Collector_Waiting _ woken \<Rightarrow> \<not> woken | Collector_Collecting _ \<Rightarrow> False | _ \<Rightarrow> True"
proof -
  have locked: "mm_pc s i \<noteq> Mutator_Locked task" if i: "i < n" for i task
  proof
    assume at: "mm_pc s i = Mutator_Locked task"
    show False
    proof (cases task)
      case Task_Add
      then show False using i at stuck mutator_step.wait[of i n s task may] mutator_step.add[of i n s may] by (cases "mutators_are_stopping s") auto
    next
      case Task_Reactivate
      then show False using i at stuck mutator_step.wait[of i n s task may] mutator_step.reactivate[of i n s may] by (cases "mutators_are_stopping s") auto
    next
      case Task_Remove
      then show False using i at stuck mutator_step.remove[of i n s may] by auto
    next
      case Task_Deactivate
      then show False using i at stuck mutator_step.deactivate[of i n s may] by auto
    next
      case Task_Safepoint
      then show False using i at stuck mutator_step.pause[of i n s task _ _ may] mutator_step.safepoint[of i n s may]
        by (cases "mutators_are_stopping s") auto
    next
      case (Task_Trigger requested prev_kind)
      then show False using i at stuck mutator_step.pause[of i n s task requested prev_kind may]
          mutator_step.collected_already[of i n s requested prev_kind may] mutator_step.collect[of i n s requested prev_kind _ may]
        by (cases "mutators_are_stopping s"; cases "previous_kind_number prev_kind < collection_kind_number requested") auto
    qed
  qed
  have check: "mm_pc s i \<noteq> Collector_Check requested" if i: "i < n" for i requested
  proof
    assume at: "mm_pc s i = Collector_Check requested"
    obtain k where "may (length (mm_collections s)) (mm_gc_kind s) requested k" using may by blast
    then show False using i at stuck mutator_step.wait_for_mutators[of i n s requested may] mutator_step.mutators_stopped[of i n s requested may k]
      by (cases "all_mutators_stopped s") auto
  qed
  have collecting: "mm_pc s i \<noteq> Collector_Collecting kind" if i: "i < n" for i kind
    using i stuck mutator_step.finish[of i n s kind may] by auto
  show free: "mm_lock s = None"
  proof (rule ccontr)
    assume "mm_lock s \<noteq> None"
    then obtain i where i: "mm_lock s = Some i" "i < n" "pc_holds_lock (mm_pc s i)" using ok by (auto simp: mutators_ok_def lock_ok_def)
    then show False using locked[OF i(2)] check[OF i(2)] collecting[OF i(2)] by (cases "mm_pc s i") auto
  qed
  show "case mm_pc s i of Mutator_Locking _ \<Rightarrow> False | Mutator_Locked _ \<Rightarrow> False
    | Mutator_Waiting _ woken \<Rightarrow> \<not> woken | Mutator_Paused _ _ woken \<Rightarrow> \<not> woken | Collector_Check _ \<Rightarrow> False
    | Collector_Waiting _ woken \<Rightarrow> \<not> woken | Collector_Collecting _ \<Rightarrow> False | _ \<Rightarrow> True" if i: "i < n"
  proof (cases "mm_pc s i")
    case (Mutator_Locking task)
    then show ?thesis using i free stuck mutator_step.lock[of i n s task may] by auto
  next
    case (Mutator_Waiting task woken)
    then show ?thesis using i free stuck mutator_step.wake[of i n s task may] by auto
  next
    case (Mutator_Paused task kind woken)
    then show ?thesis using i free stuck mutator_step.pause_again[of i n s task kind may] mutator_step.resume[of i n s task kind may]
      by (cases "mutators_are_stopping s") auto
  next
    case (Collector_Waiting kind woken)
    then show ?thesis using i free stuck mutator_step.wake_collector[of i n s kind may] by auto
  qed (use i locked check collecting in auto)
qed

lemma stuck_state:
  assumes ok: "mutators_ok n s" and may: "\<And>c p r. \<exists>k. may c p r k" and stuck: "\<And>t. \<not> mutator_step n may Forced s t"
  shows "if mm_collecting s then \<exists>i < n. mm_pc s i = Mutator_Running
    else \<forall>i < n. mm_pc s i \<in> {Mutator_None, Mutator_Running, Mutator_Inactive}"
proof -
  note pc = stuck_pc[OF ok may stuck]
  show ?thesis
  proof (cases "mm_collecting s")
    case False
    have "mm_pc s i \<in> {Mutator_None, Mutator_Running, Mutator_Inactive}" if i: "i < n" for i
      using pc(2)[OF i] ok_at(6)[OF ok i] collector_is_collecting[OF ok i] False by (cases "mm_pc s i") auto
    then show ?thesis using False by simp
  next
    case True
    then have one: "tally n (\<lambda>j. pc_collector (mm_pc s j)) = 1" using ok by (simp add: mutators_ok_def collector_ok_def)
    have "\<exists>i < n. pc_collector (mm_pc s i)"
    proof (rule ccontr)
      assume "\<not> (\<exists>i < n. pc_collector (mm_pc s i))"
      then have "tally n (\<lambda>j. pc_collector (mm_pc s j)) = tally n (\<lambda>_. False)" by (intro tally_cong) auto
      then show False using one by (simp add: tally_def)
    qed
    then obtain i where i: "i < n" "pc_collector (mm_pc s i)" by blast
    then obtain kind where "mm_pc s i = Collector_Waiting kind False" using pc(2)[OF i(1)] by (cases "mm_pc s i") auto
    then have "\<not> all_mutators_stopped s" using ok i(1) by (auto simp: mutators_ok_def wakeups_ok_def)
    then obtain j where j: "j < n" "pc_attached (mm_pc s j)" "\<not> pc_paused (mm_pc s j)" "mm_active s j"
      using stopped_iff[of n s] ok by (auto simp: mutators_ok_def)
    then have "mm_pc s j = Mutator_Running" using pc(2)[OF j(1)] ok_at(1)[OF ok j(1)] by (cases "mm_pc s j") auto
    then show ?thesis using True j(1) by auto
  qed
qed

lemma forced_steps:
  assumes "(mutator_step n may Forced ^^ k) s t" "mutators_ok n s"
  shows "mutators_ok n t" "int k \<le> mutators_work n s - mutators_work n t"
proof -
  have "mutators_ok n t \<and> int k \<le> mutators_work n s - mutators_work n t"
    using assms
  proof (induction k arbitrary: t)
    case (Suc k)
    then obtain u where u: "(mutator_step n may Forced ^^ k) s u" "mutator_step n may Forced u t" by auto
    then show ?case using Suc.IH[OF u(1) Suc.prems(2)] mutators_ok_step[OF u(2)] forced_step_works[OF u(2)] by fastforce
  qed simp
  then show "mutators_ok n t" "int k \<le> mutators_work n s - mutators_work n t" by auto
qed

lemma step_collections:
  assumes "mutator_step n may l s t"
  shows "length (mm_collections s) \<le> length (mm_collections t)
    \<and> (mm_collecting s \<and> \<not> mm_collecting t \<longrightarrow> length (mm_collections s) < length (mm_collections t))"
  using assms by cases (auto simp: add_mutator_def reactivate_mutator_def deactivate_mutator_def remove_mutator_def Let_def
      pause_mutator_for_collection_def request_mutators_to_stop_def allow_mutators_to_continue_def)

lemma steps_collections:
  "(mutator_step n may l ^^ k) s t \<Longrightarrow> length (mm_collections s) \<le> length (mm_collections t)
    \<and> (mm_collecting s \<and> \<not> mm_collecting t \<longrightarrow> length (mm_collections s) < length (mm_collections t))"
proof (induction k arbitrary: t)
  case (Suc k)
  then obtain u where "(mutator_step n may l ^^ k) s u" "mutator_step n may l u t" by auto
  then show ?case using Suc.IH[of u] step_collections[of n may l u t] by (cases "mm_collecting u") auto
qed simp

text \<open>C5: Stopping the mutators loses no wakeup and ends. From every reachable state the collector's code, of all
  threads and in any order, can make only a bounded number of steps while no mutator starts anything else. When no
  step is left and mutators are still asked to stop, then one of them is running: it has not reached a safepoint.
  When no step is left and they are not, no thread is left sleeping or waiting for the lock, and if mutators were
  asked to stop at first a collection has been made.\<close>

theorem stop_the_world_progress:
  assumes "mutators_reachable n may s" "\<And>c p r. \<exists>k. may c p r k"
  shows "\<forall>k t. (mutator_step n may Forced ^^ k) s t \<longrightarrow> int k \<le> int n * (11 * int n + 12)
    \<and> ((\<forall>u. \<not> mutator_step n may Forced t u) \<longrightarrow>
        (if mm_collecting t then \<exists>i < n. mm_pc t i = Mutator_Running
         else (\<forall>i < n. mm_pc t i \<in> {Mutator_None, Mutator_Running, Mutator_Inactive})
           \<and> (mm_collecting s \<longrightarrow> length (mm_collections s) < length (mm_collections t))))"
proof (intro allI impI conjI)
  fix k t assume steps: "(mutator_step n may Forced ^^ k) s t"
  note run = forced_steps[OF steps mutators_ok_reachable[OF assms(1)]]
  show "int k \<le> int n * (11 * int n + 12)" using run(2) work_bounds(1)[of n t] work_bounds(2)[of n s] by linarith
  assume stuck: "\<forall>u. \<not> mutator_step n may Forced t u"
  have "if mm_collecting t then \<exists>i < n. mm_pc t i = Mutator_Running
      else \<forall>i < n. mm_pc t i \<in> {Mutator_None, Mutator_Running, Mutator_Inactive}"
    by (rule stuck_state[where may = may, OF run(1) assms(2)]) (use stuck in blast)
  then show "if mm_collecting t then \<exists>i < n. mm_pc t i = Mutator_Running
      else (\<forall>i < n. mm_pc t i \<in> {Mutator_None, Mutator_Running, Mutator_Inactive})
        \<and> (mm_collecting s \<longrightarrow> length (mm_collections s) < length (mm_collections t))"
    using steps_collections[OF steps] by (simp split: if_splits)
qed

section \<open>Schedules\<close>

text \<open>
  A schedule says which thread goes next: \<open>Begin i task\<close> starts a task, \<open>Go i kind\<close> makes the next step of the
  collector's code, where \<open>kind\<close> is the kind of collection that is chosen, if one is.
\<close>

datatype mutator_turn = Begin nat mutator_task | Go nat gc_collection_kind

fun mutator_begins :: "mutator_pc \<Rightarrow> mutator_task \<Rightarrow> bool" where
  "mutator_begins Mutator_None task \<longleftrightarrow> task = Task_Add"
| "mutator_begins Mutator_Running task \<longleftrightarrow>
    (case task of Task_Add \<Rightarrow> False | Task_Reactivate \<Rightarrow> False | Task_Trigger _ prev_kind \<Rightarrow> prev_kind = None | _ \<Rightarrow> True)"
| "mutator_begins Mutator_Inactive task \<longleftrightarrow> task = Task_Reactivate \<or> task = Task_Remove"
| "mutator_begins _ task \<longleftrightarrow> False"

definition mutator_locked_next :: "nat \<Rightarrow> mutator_task \<Rightarrow> mmc_mutators \<Rightarrow> mmc_mutators" where
  "mutator_locked_next i task s =
    (case task of
       Task_Add \<Rightarrow> if mutators_are_stopping s then mutator_go i (Mutator_Waiting task False) (mutator_unlock s)
         else mutator_go i Mutator_Running (mutator_unlock (add_mutator i s))
     | Task_Reactivate \<Rightarrow> if mutators_are_stopping s then mutator_go i (Mutator_Waiting task False) (mutator_unlock s)
         else mutator_go i Mutator_Running (mutator_unlock (reactivate_mutator i s))
     | Task_Deactivate \<Rightarrow> mutator_go i Mutator_Inactive (mutator_unlock (deactivate_mutator i s))
     | Task_Remove \<Rightarrow> mutator_go i Mutator_None (mutator_unlock (remove_mutator i s))
     | Task_Safepoint \<Rightarrow> if mutators_are_stopping s
         then mutator_go i (Mutator_Paused task (mm_gc_kind s) False) (mutator_unlock (pause_mutator_for_collection s))
         else mutator_go i Mutator_Running (mutator_unlock s)
     | Task_Trigger requested prev_kind \<Rightarrow> if mutators_are_stopping s
         then mutator_go i (Mutator_Paused task (mm_gc_kind s) False) (mutator_unlock (pause_mutator_for_collection s))
         else if previous_kind_number prev_kind < collection_kind_number requested
         then (let s' = request_mutators_to_stop s
               in mutator_go i (Collector_Check requested) (s'\<lparr>mm_paused_mutator_count := mm_paused_mutator_count s' + 1\<rparr>))
         else mutator_go i Mutator_Running (mutator_unlock s))"

definition mutator_next ::
    "(nat \<Rightarrow> gc_collection_kind \<Rightarrow> gc_collection_kind \<Rightarrow> gc_collection_kind \<Rightarrow> bool)
      \<Rightarrow> gc_collection_kind \<Rightarrow> nat \<Rightarrow> mmc_mutators \<Rightarrow> mmc_mutators option" where
  "mutator_next may kind i s =
    (case mm_pc s i of
       Mutator_Locking task \<Rightarrow> if mm_lock s = None then Some (mutator_go i (Mutator_Locked task) (s\<lparr>mm_lock := Some i\<rparr>)) else None
     | Mutator_Locked task \<Rightarrow> Some (mutator_locked_next i task s)
     | Mutator_Waiting task woken \<Rightarrow>
         if woken \<and> mm_lock s = None then Some (mutator_go i (Mutator_Locked task) (s\<lparr>mm_lock := Some i\<rparr>)) else None
     | Mutator_Paused task returned woken \<Rightarrow>
         if \<not> woken \<or> mm_lock s \<noteq> None then None
         else if mutators_are_stopping s then Some (mutator_go i (Mutator_Paused task returned False) s)
         else Some (mutator_go i (Mutator_Locked (task_resumed returned task))
           (s\<lparr>mm_lock := Some i, mm_paused_mutator_count := mm_paused_mutator_count s - 1\<rparr>))
     | Collector_Check requested \<Rightarrow>
         if \<not> all_mutators_stopped s then Some (mutator_go i (Collector_Waiting requested False) (mutator_unlock s))
         else if may (length (mm_collections s)) (mm_gc_kind s) requested kind
         then Some (mutator_go i (Collector_Collecting kind) (s\<lparr>mm_gc_kind := kind\<rparr>)) else None
     | Collector_Waiting requested woken \<Rightarrow>
         if woken \<and> mm_lock s = None then Some (mutator_go i (Collector_Check requested) (s\<lparr>mm_lock := Some i\<rparr>)) else None
     | Collector_Collecting chosen \<Rightarrow> Some (mutator_go i Mutator_Running (mutator_unlock
         (allow_mutators_to_continue (s\<lparr>mm_collections := chosen # mm_collections s\<rparr>))))
     | _ \<Rightarrow> None)"

lemma mutator_locked_next_step:
  assumes i: "i < n" "mm_pc s i = Mutator_Locked task"
  shows "mutator_step n may Forced s (mutator_locked_next i task s)"
proof (cases task)
  case Task_Add
  then show ?thesis using i mutator_step.wait[of i n s task may] mutator_step.add[of i n s may] by (simp add: mutator_locked_next_def)
next
  case Task_Reactivate
  then show ?thesis using i mutator_step.wait[of i n s task may] mutator_step.reactivate[of i n s may] by (simp add: mutator_locked_next_def)
next
  case Task_Remove
  then show ?thesis using i mutator_step.remove[of i n s may] by (simp add: mutator_locked_next_def)
next
  case Task_Deactivate
  then show ?thesis using i mutator_step.deactivate[of i n s may] by (simp add: mutator_locked_next_def)
next
  case Task_Safepoint
  then show ?thesis using i mutator_step.pause[of i n s task _ _ may] mutator_step.safepoint[of i n s may]
    by (simp add: mutator_locked_next_def)
next
  case (Task_Trigger requested prev_kind)
  then show ?thesis using i mutator_step.pause[of i n s task requested prev_kind may]
      mutator_step.collected_already[of i n s requested prev_kind may] mutator_step.collect[of i n s requested prev_kind _ may]
    by (simp add: mutator_locked_next_def Let_def)
qed

lemma mutator_next_step:
  assumes i: "i < n" and t: "mutator_next may kind i s = Some t"
  shows "mutator_step n may Forced s t"
proof (cases "mm_pc s i")
  case (Mutator_Locking task)
  then show ?thesis using i t mutator_step.lock[of i n s task may] by (simp add: mutator_next_def split: if_splits)
next
  case (Mutator_Locked task)
  then show ?thesis using mutator_locked_next_step[OF i Mutator_Locked] t by (simp add: mutator_next_def)
next
  case (Mutator_Waiting task woken)
  then show ?thesis using i t mutator_step.wake[of i n s task may] by (simp add: mutator_next_def split: if_splits)
next
  case (Mutator_Paused task returned woken)
  then show ?thesis using i t mutator_step.pause_again[of i n s task returned may] mutator_step.resume[of i n s task returned may]
    by (simp add: mutator_next_def split: if_splits)
next
  case (Collector_Check requested)
  then show ?thesis using i t mutator_step.wait_for_mutators[of i n s requested may] mutator_step.mutators_stopped[of i n s requested may kind]
    by (simp add: mutator_next_def split: if_splits)
next
  case (Collector_Waiting requested woken)
  then show ?thesis using i t mutator_step.wake_collector[of i n s requested may] by (simp add: mutator_next_def split: if_splits)
next
  case (Collector_Collecting chosen)
  then show ?thesis using i t mutator_step.finish[of i n s chosen may] by (simp add: mutator_next_def)
qed (use t in \<open>simp_all add: mutator_next_def\<close>)

lemma mutator_begins_step:
  assumes i: "i < n" and b: "mutator_begins (mm_pc s i) task"
  shows "mutator_step n may Voluntary s (mutator_go i (Mutator_Locking task) s)"
  using b i mutator_step.start_add[of i n s may] mutator_step.start_safepoint[of i n s may] mutator_step.start_trigger[of i n s may]
    mutator_step.start_deactivate[of i n s may] mutator_step.start_reactivate[of i n s may] mutator_step.start_remove[of i n s may]
  by (cases "mm_pc s i"; cases task) simp_all

fun mutator_schedule ::
    "(nat \<Rightarrow> gc_collection_kind \<Rightarrow> gc_collection_kind \<Rightarrow> gc_collection_kind \<Rightarrow> bool)
      \<Rightarrow> nat \<Rightarrow> mutator_turn list \<Rightarrow> mmc_mutators \<Rightarrow> mmc_mutators option" where
  "mutator_schedule may n [] s = Some s"
| "mutator_schedule may n (Begin i task # turns) s =
    (if i < n \<and> mutator_begins (mm_pc s i) task then mutator_schedule may n turns (mutator_go i (Mutator_Locking task) s) else None)"
| "mutator_schedule may n (Go i kind # turns) s =
    (if i < n then (case mutator_next may kind i s of None \<Rightarrow> None | Some t \<Rightarrow> mutator_schedule may n turns t) else None)"

lemma mutator_schedule_steps:
  "mutator_schedule may n turns s = Some t \<Longrightarrow> (\<lambda>s t. \<exists>l. mutator_step n may l s t)\<^sup>*\<^sup>* s t"
proof (induction turns arbitrary: s)
  case (Cons turn turns)
  show ?case
  proof (cases turn)
    case (Begin i task)
    then have "mutator_step n may Voluntary s (mutator_go i (Mutator_Locking task) s)"
      "mutator_schedule may n turns (mutator_go i (Mutator_Locking task) s) = Some t"
      using Cons.prems by (auto split: if_splits intro: mutator_begins_step)
    then show ?thesis using Cons.IH by (blast intro: converse_rtranclp_into_rtranclp)
  next
    case (Go i kind)
    then obtain u where "mutator_step n may Forced s u" "mutator_schedule may n turns u = Some t"
      using Cons.prems by (auto split: if_splits option.splits intro: mutator_next_step)
    then show ?thesis using Cons.IH by (blast intro: converse_rtranclp_into_rtranclp)
  qed
qed simp

text \<open>Two threads, one of which makes a first, major collection while the other is at a safepoint.\<close>

definition first_collection :: "mutator_turn list" where
  "first_collection = [Begin 0 Task_Add, Go 0 Collection_any, Go 0 Collection_any, Begin 1 Task_Add, Go 1 Collection_any,
    Go 1 Collection_any, Begin 0 (Task_Trigger Collection_any None), Go 0 Collection_any, Go 0 Collection_any, Go 0 Collection_any,
    Begin 1 Task_Safepoint, Go 1 Collection_any, Go 1 Collection_any, Go 0 Collection_any, Go 0 Collection_major]"

definition first_kinds :: "nat \<Rightarrow> gc_collection_kind \<Rightarrow> gc_collection_kind \<Rightarrow> gc_collection_kind \<Rightarrow> bool" where
  "first_kinds c p r k \<longleftrightarrow> (if c = 0 then k = Collection_major else if r = Collection_any then k = Collection_minor else k = r)"

lemma first_collection_run:
  obtains s where "mutator_schedule first_kinds 2 first_collection heap_mutators_init = Some s" "mm_pc s 0 = Collector_Collecting Collection_major"
    "mm_pc s 1 = Mutator_Paused Task_Safepoint Collection_any False" "mm_mutators s = [1, 0]"
proof -
  have "map_option (\<lambda>s. (mm_pc s 0, mm_pc s 1, mm_mutators s)) (mutator_schedule first_kinds 2 first_collection heap_mutators_init)
    = Some (Collector_Collecting Collection_major, Mutator_Paused Task_Safepoint Collection_any False, [1, 0])"
    by code_simp
  then show thesis using that by auto
qed

text \<open>Thread 0 then makes a minor collection, while thread 1 asks for a major one.\<close>

definition second_collection :: "mutator_turn list" where
  "second_collection = [Go 0 Collection_any, Go 0 Collection_any, Go 0 Collection_any, Go 1 Collection_any, Go 1 Collection_any,
    Go 0 Collection_any, Go 0 Collection_minor, Go 0 Collection_any, Go 1 Collection_any, Go 1 Collection_any]"

definition between_collections :: "mutator_turn list" where
  "between_collections = [Go 0 Collection_any, Go 1 Collection_any, Go 1 Collection_any,
    Begin 0 (Task_Trigger Collection_minor None), Begin 1 (Task_Trigger Collection_major None)]"

definition listed_kinds :: "nat \<Rightarrow> gc_collection_kind \<Rightarrow> gc_collection_kind \<Rightarrow> gc_collection_kind \<Rightarrow> bool" where
  "listed_kinds c p r k \<longleftrightarrow> (c, p, r, k) = (0, Collection_any, Collection_any, Collection_major)
    \<or> (c, p, r, k) = (1, Collection_major, Collection_minor, Collection_minor)"

lemma second_collection_run:
  obtains s t where "mutator_schedule listed_kinds 2 (first_collection @ between_collections) heap_mutators_init = Some s"
    "mutator_schedule listed_kinds 2 second_collection s = Some t"
    "mm_pc s 1 = Mutator_Locking (Task_Trigger Collection_major None)" "mm_pc t 1 = Mutator_Running"
    "mm_collections s = [Collection_major]" "mm_collections t = [Collection_minor, Collection_major]"
proof -
  have "(case mutator_schedule listed_kinds 2 (first_collection @ between_collections) heap_mutators_init of None \<Rightarrow> None
      | Some s \<Rightarrow> map_option (\<lambda>t. (mm_pc s 1, mm_pc t 1, mm_collections s, mm_collections t)) (mutator_schedule listed_kinds 2 second_collection s))
    = Some (Mutator_Locking (Task_Trigger Collection_major None), Mutator_Running, [Collection_major], [Collection_minor, Collection_major])"
    by code_simp
  then show thesis using that by (auto split: option.splits)
qed

lemma mutator_step_mono:
  assumes "mutator_step n may l s t" "\<And>c p r k. may c p r k \<Longrightarrow> may' c p r k"
  shows "mutator_step n may' l s t"
  using assms(1) by cases (use assms(2) in \<open>auto intro: mutator_step.intros[of _ n s, simplified]\<close>)

lemma steps_mono:
  assumes "(\<lambda>s t. \<exists>l. mutator_step n may l s t)\<^sup>*\<^sup>* s t" "\<And>c p r k. may c p r k \<Longrightarrow> may' c p r k"
  shows "(\<lambda>s t. \<exists>l. mutator_step n may' l s t)\<^sup>*\<^sup>* s t"
  using assms(1) by (rule rtranclp_mono[THEN predicate2D, rotated]) (use mutator_step_mono assms(2) in blast)

section \<open>Examples, and a collection that is missed\<close>

text \<open>In the middle of the first collection of two threads.\<close>

theorem stop_the_world_safe_witness:
  "\<exists>s :: mmc_mutators. mm_pc s 0 = Collector_Collecting Collection_major \<and> mm_lock s = Some 0 \<and> mm_mutator_count s = 2
    \<and> mm_pc s 1 = Mutator_Paused Task_Safepoint Collection_any False"
proof -
  obtain s where s: "mutator_schedule first_kinds 2 first_collection heap_mutators_init = Some s"
    "mm_pc s 0 = Collector_Collecting Collection_major" "mm_pc s 1 = Mutator_Paused Task_Safepoint Collection_any False" "mm_mutators s = [1, 0]"
    by (rule first_collection_run)
  then have "mutators_reachable 2 first_kinds s" by (simp add: mutators_reachable_def mutator_schedule_steps)
  note safe = stop_the_world_safe[OF this]
  have "mm_lock s = Some 0" using safe s(2) by (auto dest: spec[of _ 0])
  moreover have "mm_mutator_count s = 2" using safe s(4) by simp
  ultimately show ?thesis using s(2,3) by blast
qed

theorem stop_the_world_progress_witness:
  "\<exists>s. mm_pc s 0 = Collector_Collecting Collection_major \<and> (\<forall>k t. (mutator_step 2 first_kinds Forced ^^ k) s t \<longrightarrow> k \<le> 68)"
proof -
  obtain s where s: "mutator_schedule first_kinds 2 first_collection heap_mutators_init = Some s"
    "mm_pc s 0 = Collector_Collecting Collection_major"
    by (rule first_collection_run)
  then have "mutators_reachable 2 first_kinds s" by (simp add: mutators_reachable_def mutator_schedule_steps)
  moreover have "\<exists>k. first_kinds c p r k" for c p r
    by (cases "r = Collection_any"; cases "c = 0") (auto simp: first_kinds_def)
  ultimately have "\<forall>k t. (mutator_step 2 first_kinds Forced ^^ k) s t \<longrightarrow> int k \<le> int 2 * (11 * int 2 + 12)"
    using stop_the_world_progress[of 2 first_kinds s] by blast
  then show ?thesis using s(2) by auto
qed

text \<open>The kinds that \<open>determine_collection_kind\<close> can choose in some heap.\<close>

definition mmc_kinds :: "gc_config \<Rightarrow> nat \<Rightarrow> gc_collection_kind \<Rightarrow> gc_collection_kind \<Rightarrow> gc_collection_kind \<Rightarrow> bool" where
  "mmc_kinds cfg collections prev requested kind \<longleftrightarrow> (\<exists>(hp :: unit mmc_heap) hp'. mh_count hp = int collections \<and> mh_gc_kind hp = prev
    \<and> determine_collection_kind cfg hp requested = Inr (kind, hp'))"

lemma listed_mmc_kinds: "listed_kinds c p r k \<Longrightarrow> mmc_kinds generational_config c p r k"
proof -
  obtain f where f: "heap_fragmentation example_heap = Inr f" using example_fragmentation by blast
  have frag: "heap_fragmentation (example_heap\<lparr>mh_count := c, mh_gc_kind := k\<rparr>) = Inr f" for c k
    using f by (simp add: heap_fragmentation_def)
  have clear: "\<not> ns_heap_has_ambiguous_edges (mh_nofl example_heap)" by (simp add: example_heap_def example_space_def)
  have gen: "gc_generational generational_config" by (simp add: generational_config_def)
  have first: "mmc_kinds generational_config 0 Collection_any Collection_any Collection_major"
    unfolding mmc_kinds_def
  proof (intro exI conjI)
    show "mh_count (example_heap\<lparr>mh_count := 0, mh_gc_kind := Collection_any\<rparr>) = int 0"
      "mh_gc_kind (example_heap\<lparr>mh_count := 0, mh_gc_kind := Collection_any\<rparr>) = Collection_any" by simp_all
    show "determine_collection_kind generational_config (example_heap\<lparr>mh_count := 0, mh_gc_kind := Collection_any\<rparr>) Collection_any
      = Inr (Collection_major, example_heap\<lparr>mh_count := 0, mh_gc_kind := Collection_major\<rparr>)"
      by (simp add: determine_collection_kind_def frag Let_def)
  qed
  have second: "mmc_kinds generational_config 1 Collection_major Collection_minor Collection_minor"
  proof -
    obtain hp' where "determine_collection_kind generational_config (example_heap\<lparr>mh_count := 1, mh_gc_kind := Collection_major\<rparr>)
        Collection_minor = Inr (Collection_minor, hp')"
      using collection_kind_cases[of "example_heap\<lparr>mh_count := 1, mh_gc_kind := Collection_major\<rparr>" f generational_config Collection_minor]
        frag gen clear by auto
    then show ?thesis unfolding mmc_kinds_def
      by (intro exI[of _ "example_heap\<lparr>mh_count := 1, mh_gc_kind := Collection_major\<rparr>"] exI[of _ hp']) simp
  qed
  show "listed_kinds c p r k \<Longrightarrow> mmc_kinds generational_config c p r k" using first second by (auto simp: listed_kinds_def)
qed

text \<open>C14: A major collection that is asked for can be missed. A thread that asks for one while another thread is about
  to collect pauses for that collection, and \<open>pause_mutator_for_collection\<close> takes for its kind what \<open>heap->gc_kind\<close>
  is before the wait, which is the kind of the collection before. When that was major, \<open>trigger_collection\<close> finds
  that the request has been served, although the thread waited for a minor collection: with two threads, from
  a state in which thread 1 is about to take the lock to ask for a major collection, it can return to its
  embedder with only a minor collection made.\<close>

theorem gc_collect_major_missed:
  "\<exists>s t. mutators_reachable 2 (mmc_kinds generational_config) s
    \<and> mm_pc s 1 = Mutator_Locking (Task_Trigger Collection_major None)
    \<and> (\<lambda>s t. \<exists>l. mutator_step 2 (mmc_kinds generational_config) l s t)\<^sup>*\<^sup>* s t
    \<and> mm_pc t 1 = Mutator_Running \<and> mm_collections t = Collection_minor # mm_collections s"
proof -
  obtain s t where st: "mutator_schedule listed_kinds 2 (first_collection @ between_collections) heap_mutators_init = Some s"
    "mutator_schedule listed_kinds 2 second_collection s = Some t"
    "mm_pc s 1 = Mutator_Locking (Task_Trigger Collection_major None)" "mm_pc t 1 = Mutator_Running"
    "mm_collections s = [Collection_major]" "mm_collections t = [Collection_minor, Collection_major]"
    by (rule second_collection_run)
  have "mutators_reachable 2 (mmc_kinds generational_config) s"
    unfolding mutators_reachable_def by (rule steps_mono[OF mutator_schedule_steps[OF st(1)]]) (rule listed_mmc_kinds)
  moreover have "(\<lambda>s t. \<exists>l. mutator_step 2 (mmc_kinds generational_config) l s t)\<^sup>*\<^sup>* s t"
    by (rule steps_mono[OF mutator_schedule_steps[OF st(2)]]) (rule listed_mmc_kinds)
  ultimately show ?thesis using st(3-6) by (intro exI[of _ s] exI[of _ t]) simp
qed

end
