(* ===== verification/LargeObjectInvariant.thy ===== *)
theory LargeObjectInvariant
  imports LargeObjectSpace
begin

text \<open>
  The invariant of the large object space and what its operations do to it. The splay tree, the map
  and the quarantine of a well-formed space agree: the nodes of the tree are those of the store, with
  spans that do not overlap; the map sends the address of each to it; the quarantine holds the dead
  ones, each in the bucket of its size.
\<close>

section \<open>Spans\<close>

definition span_valid :: "large_object \<Rightarrow> bool" where
  "span_valid o1 \<longleftrightarrow> 0 < unat (obj_size o1) \<and> unat (obj_addr o1) + unat (obj_size o1) < 2 ^ 64 \<and> obj_addr o1 \<noteq> 0"

definition span_before :: "large_object \<Rightarrow> large_object \<Rightarrow> bool" where
  "span_before o1 o2 \<longleftrightarrow> unat (obj_addr o1) + unat (obj_size o1) \<le> unat (obj_addr o2)"

definition span_apart :: "large_object \<Rightarrow> large_object \<Rightarrow> bool" where
  "span_apart o1 o2 \<longleftrightarrow> span_before o1 o2 \<or> span_before o2 o1"

definition in_span :: "u64 \<Rightarrow> large_object \<Rightarrow> bool" where
  "in_span a o1 \<longleftrightarrow> unat (obj_addr o1) \<le> unat a \<and> unat a < unat (obj_addr o1) + unat (obj_size o1)"

lemma compare_place:
  shows "large_object_compare a o1 = Below \<longleftrightarrow> unat a < unat (obj_addr o1)"
    and "large_object_compare a o1 = Within \<longleftrightarrow> in_span a o1"
    and "large_object_compare a o1 = Above \<longleftrightarrow> unat (obj_addr o1) + unat (obj_size o1) \<le> unat a"
  by (auto simp: large_object_compare_def in_span_def word_less_nat_alt unat_sub word_le_nat_alt)

interpretation lo: span_order "\<lambda>a n. large_object_compare a (key n)" "\<lambda>n. obj_addr (key n)"
    "\<lambda>n. span_valid (key n)" "\<lambda>m n. span_before (key m) (key n)" for key :: "u64 \<Rightarrow> large_object"
proof unfold_locales
  fix key :: "u64 \<Rightarrow> large_object" and m n k
  show "large_object_compare k (key m) = Above \<or> large_object_compare k (key n) = Below"
    if "span_before (key m) (key n)"
    using that by (auto simp: compare_place span_before_def)
  show "large_object_compare (obj_addr (key n)) (key n) = Within" if "span_valid (key n)"
    using that by (auto simp: compare_place in_span_def span_valid_def)
qed

section \<open>The invariant\<close>

definition los_key :: "large_object_space \<Rightarrow> u64 \<Rightarrow> large_object" where
  "los_key space n = node_key (los_node space n)"

definition los_live_node :: "large_object_space \<Rightarrow> u64 \<Rightarrow> bool" where
  "los_live_node space n \<longleftrightarrow> n \<in> dom (los_nodes space) \<and> node_is_live (los_node space n)"

definition los_dead_node :: "large_object_space \<Rightarrow> u64 \<Rightarrow> bool" where
  "los_dead_node space n \<longleftrightarrow> n \<in> dom (los_nodes space) \<and> \<not> node_is_live (los_node space n)"

text \<open>The quarantine, apart from the dead nodes \<open>X\<close> that have been unlinked from it.\<close>

definition quarantine_ok :: "u64 set \<Rightarrow> large_object_space \<Rightarrow> bool" where
  "quarantine_ok X space \<longleftrightarrow> length (los_quarantine space) = large_object_freelist_num_size_classes
    \<and> (\<forall>ns \<in> set (los_quarantine space). distinct ns)
    \<and> (\<forall>i < large_object_freelist_num_size_classes. \<forall>n. n \<in> set (los_quarantine space ! i) \<longleftrightarrow>
        los_dead_node space n \<and> n \<notin> X \<and> large_object_freelist_size_class (obj_size (los_key space n)) = i)"

definition los_wf_apart :: "u64 set \<Rightarrow> large_object_space \<Rightarrow> bool" where
  "los_wf_apart X space \<longleftrightarrow> hash_map_wf (los_object_map space) \<and> hash_map_wf (los_nursery space)
    \<and> hash_set_wf (los_remembered_edges space)
    \<and> lo.spans (los_key space) (los_object_tree space)
    \<and> set_tree (los_object_tree space) = dom (los_nodes space) \<and> 0 \<notin> dom (los_nodes space)
    \<and> (\<forall>a n. address_map_abs (los_object_map space) a = Some n \<longleftrightarrow>
        n \<in> dom (los_nodes space) \<and> obj_addr (los_key space n) = a)
    \<and> quarantine_ok X space"

abbreviation los_wf :: "large_object_space \<Rightarrow> bool" where
  "los_wf \<equiv> los_wf_apart {}"

definition los_objects :: "large_object_space \<Rightarrow> large_object set" where
  "los_objects space = los_key space ` {n. los_live_node space n}"

definition los_spans :: "large_object_space \<Rightarrow> large_object set" where
  "los_spans space = los_key space ` dom (los_nodes space)"

lemma los_wf_apartD:
  assumes "los_wf_apart X space"
  shows "hash_map_wf (los_object_map space)" "hash_map_wf (los_nursery space)"
    "hash_set_wf (los_remembered_edges space)" "lo.spans (los_key space) (los_object_tree space)"
    "set_tree (los_object_tree space) = dom (los_nodes space)" "0 \<notin> dom (los_nodes space)"
    "address_map_abs (los_object_map space) a = Some n \<longleftrightarrow>
      n \<in> dom (los_nodes space) \<and> obj_addr (los_key space n) = a"
    "quarantine_ok X space"
  using assms unfolding los_wf_apart_def by blast+

lemma spans_valid:
  assumes "lo.spans k t" "n \<in> set_tree t"
  shows "span_valid (k n)"
  using assms by (simp add: lo.spans_def)

lemma spans_apart:
  assumes "lo.spans k t" "m \<in> set_tree t" "n \<in> set_tree t" "m \<noteq> n"
  shows "span_apart (k m) (k n)"
proof -
  obtain xs ys where "inorder t = xs @ m # ys" using assms(2) by (metis set_inorder split_list)
  then show ?thesis using assms
    by (auto simp: lo.spans_def sorted_wrt_append span_apart_def simp flip: set_inorder)
qed

lemma node_addr_inj:
  assumes "los_wf_apart X space" "m \<in> dom (los_nodes space)" "n \<in> dom (los_nodes space)"
    and "obj_addr (los_key space m) = obj_addr (los_key space n)"
  shows "m = n"
  using los_wf_apartD(7)[OF assms(1), of "obj_addr (los_key space m)" m]
    los_wf_apartD(7)[OF assms(1), of "obj_addr (los_key space m)" n] assms(2-) by simp

lemma key_inj: "los_wf_apart X space \<Longrightarrow> inj_on (los_key space) (dom (los_nodes space))"
  by (auto intro!: inj_onI dest: node_addr_inj)

lemma lookup_node:
  assumes "los_wf_apart X space"
  shows "large_object_space_lookup space a = Inr (case address_map_abs (los_object_map space) a of None \<Rightarrow> 0 | Some n \<Rightarrow> n)"
  unfolding large_object_space_lookup_def using am.lookup_law[OF los_wf_apartD(1)[OF assms]] .

lemma lookup_cases:
  assumes "los_wf_apart X space"
  obtains "large_object_space_lookup space a = Inr 0" "\<forall>n \<in> dom (los_nodes space). obj_addr (los_key space n) \<noteq> a"
  | n where "large_object_space_lookup space a = Inr n" "n \<noteq> 0" "n \<in> dom (los_nodes space)"
      "obj_addr (los_key space n) = a"
proof (cases "address_map_abs (los_object_map space) a")
  case None
  then show thesis using that(1) lookup_node[OF assms, of a] los_wf_apartD(7)[OF assms, of a] by auto
next
  case (Some n)
  then have "n \<in> dom (los_nodes space)" "obj_addr (los_key space n) = a"
    using los_wf_apartD(7)[OF assms, of a n] by simp_all
  then show thesis using that(2)[of n] lookup_node[OF assms, of a] Some los_wf_apartD(6)[OF assms] by auto
qed

section \<open>Changes of one node\<close>

text \<open>A node's value changes, live nodes staying live and dead ones dead.\<close>

lemma quarantine_ok_cong:
  assumes "quarantine_ok X space" "los_quarantine space' = los_quarantine space"
    and "\<forall>n. los_dead_node space' n \<and> n \<notin> Y \<longleftrightarrow> los_dead_node space n \<and> n \<notin> X"
    and "\<forall>n. los_dead_node space n \<and> n \<notin> X \<longrightarrow> los_key space' n = los_key space n"
  shows "quarantine_ok Y space'"
  using assms unfolding quarantine_ok_def by metis

lemma spans_key_cong:
  assumes "\<forall>n \<in> set_tree t. k' n = k n"
  shows "lo.spans k' t = lo.spans k t"
proof -
  have "sorted_wrt (\<lambda>m n. span_before (k' m) (k' n)) (inorder t) = sorted_wrt (\<lambda>m n. span_before (k m) (k n)) (inorder t)"
    by (rule iffI; erule sorted_wrt_mono_rel[rotated]) (use assms in \<open>auto simp: set_inorder\<close>)
  then show ?thesis using assms by (simp add: lo.spans_def)
qed

lemma set_value_wf:
  assumes "los_wf_apart X space" "n \<in> dom (los_nodes space)"
    and "node_key node' = los_key space n" "node_is_live node' = node_is_live (los_node space n)"
  shows "los_wf_apart X (los_set_node n node' space)" "los_objects (los_set_node n node' space) = los_objects space"
    "los_key (los_set_node n node' space) = los_key space"
proof -
  let ?s = "los_set_node n node' space"
  have key: "los_key ?s = los_key space" using assms(3) by (auto simp: los_key_def fun_eq_iff)
  have dom: "dom (los_nodes ?s) = dom (los_nodes space)" using assms(2) by auto
  have "quarantine_ok X ?s"
    by (rule quarantine_ok_cong[OF los_wf_apartD(8)[OF assms(1)]])
      (use assms(2,4) in \<open>auto simp: los_dead_node_def key dom\<close>)
  then show "los_wf_apart X ?s" using assms(1) unfolding los_wf_apart_def key dom by simp
  show "los_objects ?s = los_objects space"
    unfolding los_objects_def los_live_node_def key dom using assms(2,4) by auto
  show "los_key ?s = los_key space" by (rule key)
qed

text \<open>A node of another shape at the same address: it shrinks, or comes to life.\<close>

lemma set_node_wf:
  assumes wf: "los_wf_apart X space" and n: "n \<in> dom (los_nodes space)" "los_live_node space n \<or> n \<in> X"
    and key: "obj_addr (node_key node') = obj_addr (los_key space n)"
      "obj_size (node_key node') \<le> obj_size (los_key space n)" "0 < unat (obj_size (node_key node'))"
    and Y: "Y = (if node_is_live node' then X - {n} else insert n X)"
  shows "los_wf_apart Y (los_set_node n node' space)"
    "los_key (los_set_node n node' space) = (los_key space)(n := node_key node')"
    "los_objects (los_set_node n node' space) = los_objects space - {los_key space n}
      \<union> (if node_is_live node' then {node_key node'} else {})"
proof -
  let ?s = "los_set_node n node' space"
  have k: "los_key ?s = (los_key space)(n := node_key node')" by (auto simp: los_key_def fun_eq_iff)
  have dom: "dom (los_nodes ?s) = dom (los_nodes space)" using n(1) by auto
  have le: "unat (obj_size (node_key node')) \<le> unat (obj_size (los_key space n))"
    using key(2) by (simp add: word_le_nat_alt)
  have q: "quarantine_ok Y ?s"
    by (rule quarantine_ok_cong[OF los_wf_apartD(8)[OF wf]])
      (use n Y in \<open>auto simp: los_dead_node_def los_live_node_def k split: if_splits\<close>)
  note sp = los_wf_apartD(4)[OF wf]
  have valid: "span_valid (los_key space m)" if "m \<in> dom (los_nodes space)" for m
    using spans_valid[OF sp] los_wf_apartD(5)[OF wf] that by simp
  have "lo.spans (los_key ?s) (los_object_tree ?s)"
    unfolding lo.spans_def
  proof
    show "sorted_wrt (\<lambda>a b. span_before (los_key ?s a) (los_key ?s b)) (inorder (los_object_tree ?s))"
      by (rule sorted_wrt_mono_rel[of _ "\<lambda>a b. span_before (los_key space a) (los_key space b)"])
        (use sp[unfolded lo.spans_def] key le in \<open>auto simp: k span_before_def\<close>)
    show "\<forall>m \<in> set_tree (los_object_tree ?s). span_valid (los_key ?s m)"
      using valid los_wf_apartD(5)[OF wf] valid[OF n(1)] key le by (auto simp: k span_valid_def)
  qed
  then show "los_wf_apart Y ?s" using wf q key(1) unfolding los_wf_apart_def dom by (simp add: k)
  show "los_key ?s = (los_key space)(n := node_key node')" by (rule k)
  have live: "{m. los_live_node ?s m} = {m. los_live_node space m} - {n} \<union> (if node_is_live node' then {n} else {})"
    using n(1) by (auto simp: los_live_node_def)
  have "los_key ?s ` ({m. los_live_node space m} - {n}) = los_key space ` ({m. los_live_node space m} - {n})"
    by (rule image_cong) (auto simp: k)
  also have "\<dots> = los_key space ` {m. los_live_node space m} - {los_key space n}"
    using key_inj[OF wf] n(1) by (auto simp: los_live_node_def inj_on_def)
  finally show "los_objects ?s = los_objects space - {los_key space n}
      \<union> (if node_is_live node' then {node_key node'} else {})"
    unfolding los_objects_def live image_Un by (simp add: k)
qed

section \<open>The quarantine\<close>

lemma size_class_less: "large_object_freelist_size_class sz < large_object_freelist_num_size_classes"
proof -
  have "unat (gc_histogram_bucket 63 2 sz) \<le> 63 * 2 ^ 2" by (subst bucket_unat) auto
  then show ?thesis
    by (simp add: large_object_freelist_size_class_def large_object_freelist_num_size_classes_def
        freelist_size_class_def freelist_num_size_classes_def)
qed

lemma enqueue_wf:
  assumes wf: "los_wf_apart X space" and n: "los_dead_node space n" "n \<in> X"
  defines "b \<equiv> large_object_freelist_size_class (obj_size (los_key space n))"
  shows "los_wf_apart (X - {n}) (space\<lparr>los_quarantine := (los_quarantine space)[b := n # los_quarantine space ! b]\<rparr>)"
proof -
  let ?s = "space\<lparr>los_quarantine := (los_quarantine space)[b := n # los_quarantine space ! b]\<rparr>"
  note q = los_wf_apartD(8)[OF wf, unfolded quarantine_ok_def]
  have b: "b < large_object_freelist_num_size_classes" by (simp add: b_def size_class_less)
  have key: "los_key ?s = los_key space" by (simp add: los_key_def fun_eq_iff)
  have dead: "los_dead_node ?s = los_dead_node space" by (simp add: los_dead_node_def fun_eq_iff)
  have nth: "los_quarantine ?s ! i = (if i = b then n # los_quarantine space ! b else los_quarantine space ! i)"
    if "i < large_object_freelist_num_size_classes" for i using q that by simp
  have "n \<notin> set (los_quarantine space ! b)" using q b n(2) by simp
  moreover have "set (los_quarantine ?s) \<subseteq> insert (n # los_quarantine space ! b) (set (los_quarantine space))"
    by (simp add: set_update_subset_insert)
  moreover have "los_quarantine space ! b \<in> set (los_quarantine space)" using q b by simp
  ultimately have "\<forall>ns \<in> set (los_quarantine ?s). distinct ns" using q by auto
  moreover have "\<forall>i < large_object_freelist_num_size_classes. \<forall>m. m \<in> set (los_quarantine ?s ! i) \<longleftrightarrow>
      los_dead_node space m \<and> m \<notin> X - {n} \<and> large_object_freelist_size_class (obj_size (los_key space m)) = i"
  proof (intro allI impI)
    fix i m
    assume i: "i < large_object_freelist_num_size_classes"
    have "m \<in> set (los_quarantine space ! i) \<longleftrightarrow> los_dead_node space m \<and> m \<notin> X
      \<and> large_object_freelist_size_class (obj_size (los_key space m)) = i" using q i by blast
    then show "m \<in> set (los_quarantine ?s ! i) \<longleftrightarrow>
      los_dead_node space m \<and> m \<notin> X - {n} \<and> large_object_freelist_size_class (obj_size (los_key space m)) = i"
      unfolding nth[OF i] using n by (auto simp: b_def)
  qed
  ultimately have "quarantine_ok (X - {n}) ?s" using q unfolding quarantine_ok_def key dead by simp
  then show ?thesis using wf unfolding los_wf_apart_def key by simp
qed

lemma add_to_freelist_wf:
  assumes wf: "los_wf_apart X space" and n: "n \<in> dom (los_nodes space)" "los_live_node space n \<or> n \<in> X"
  defines "s \<equiv> large_object_space_add_to_freelist space n"
  shows "los_wf_apart (X - {n}) s" "los_key s = los_key space" "dom (los_nodes s) = dom (los_nodes space)"
    "los_objects s = los_objects space - {los_key space n}"
    "los_live_node s m \<longleftrightarrow> los_live_node space m \<and> m \<noteq> n"
    "los_node s m = (if m = n then (los_node space n)\<lparr>node_value := Dead 0\<rparr> else los_node space m)"
    "los_object_map s = los_object_map space" "los_marked s = los_marked space"
    "los_nursery s = los_nursery space"
proof -
  let ?node = "(los_node space n)\<lparr>node_value := Dead 0\<rparr>"
  let ?t = "los_set_node n ?node space"
  have key: "node_key ?node = los_key space n" by (simp add: los_key_def)
  have dead: "\<not> node_is_live ?node" by (simp add: node_is_live_def)
  have valid: "span_valid (los_key space n)"
    using spans_valid[OF los_wf_apartD(4)[OF wf]] los_wf_apartD(5)[OF wf] n(1) by simp
  have t: "los_wf_apart (insert n X) ?t" "los_key ?t = (los_key space)(n := node_key ?node)"
    "los_objects ?t = los_objects space - {los_key space n}
      \<union> (if node_is_live ?node then {node_key ?node} else {})"
    by (rule set_node_wf[OF wf n]; use key dead valid in \<open>simp add: span_valid_def\<close>)+
  then have k: "los_key ?t = los_key space" using key by simp
  have b: "obj_size (node_key ?node) = obj_size (los_key ?t n)" by (simp add: k key)
  have s: "s = ?t\<lparr>los_quarantine := (los_quarantine ?t)[large_object_freelist_size_class (obj_size (los_key ?t n)) :=
      n # los_quarantine ?t ! large_object_freelist_size_class (obj_size (los_key ?t n))]\<rparr>"
    unfolding s_def large_object_space_add_to_freelist_def Let_def b[symmetric] by simp
  have "los_dead_node ?t n" using n(1) dead by (simp add: los_dead_node_def)
  from enqueue_wf[OF t(1) this] show "los_wf_apart (X - {n}) s" unfolding s by simp
  show key_s: "los_key s = los_key space" unfolding s k[symmetric] by (simp add: los_key_def fun_eq_iff)
  show "dom (los_nodes s) = dom (los_nodes space)" using n(1) by (auto simp: s)
  show "los_objects s = los_objects space - {los_key space n}"
  proof -
    have "los_live_node s = los_live_node ?t" by (simp add: s los_live_node_def fun_eq_iff)
    then have "los_objects s = los_objects ?t" using key_s k by (simp add: los_objects_def)
    then show ?thesis using t(3) dead by simp
  qed
  show "los_live_node s m \<longleftrightarrow> los_live_node space m \<and> m \<noteq> n"
    using n(1) by (auto simp: s los_live_node_def node_is_live_def)
  show "los_node s m = (if m = n then ?node else los_node space m)" by (simp add: s)
qed (simp_all add: s_def large_object_space_add_to_freelist_def Let_def)

lemma remove_from_freelist_wf:
  assumes wf: "los_wf_apart X space" and n: "los_dead_node space n" "n \<notin> X"
  obtains s where "large_object_space_remove_from_freelist space n = Inr s"
    "los_wf_apart (insert n X) s" "s = space\<lparr>los_quarantine := los_quarantine s\<rparr>"
    "los_quarantine s = map (remove1 n) (los_quarantine space)"
proof -
  note q = los_wf_apartD(8)[OF wf, unfolded quarantine_ok_def]
  let ?b = "large_object_freelist_size_class (obj_size (los_key space n))"
  let ?s = "space\<lparr>los_quarantine := map (remove1 n) (los_quarantine space)\<rparr>"
  have "n \<in> set (los_quarantine space ! ?b)" "los_quarantine space ! ?b \<in> set (los_quarantine space)"
    using q n size_class_less[of "obj_size (los_key space n)"] by simp_all
  then have eq: "large_object_space_remove_from_freelist space n = Inr ?s"
    using n(1) by (auto simp: large_object_space_remove_from_freelist_def los_dead_node_def gc_assert_def)
  have key: "los_key ?s = los_key space" by (simp add: los_key_def fun_eq_iff)
  have dead: "los_dead_node ?s = los_dead_node space" by (simp add: los_dead_node_def fun_eq_iff)
  have "set (remove1 n (los_quarantine space ! i)) = set (los_quarantine space ! i) - {n}"
    if "i < large_object_freelist_num_size_classes" for i
    using q that by (simp add: set_remove1_eq)
  then have "quarantine_ok (insert n X) ?s" using q unfolding quarantine_ok_def key dead by auto
  then have "los_wf_apart (insert n X) ?s" using wf unfolding los_wf_apart_def key by simp
  then show thesis using that[OF eq] by simp
qed

section \<open>The tree\<close>

lemma los_compare_key: "los_compare space = (\<lambda>a n. large_object_compare a (los_key space n))"
  by (simp add: los_key_def fun_eq_iff)

lemma tree_lookup_wf:
  assumes wf: "los_wf_apart X space" and l: "large_object_tree_lookup space a = (found, s)"
  shows "los_wf_apart X s" "s = space\<lparr>los_object_tree := los_object_tree s\<rparr>"
    "found = Some n \<longleftrightarrow> n \<in> dom (los_nodes space) \<and> in_span a (los_key space n)"
proof -
  note look = lo.spans_lookup[OF los_wf_apartD(4)[OF wf], of a, folded los_compare_key]
  have s: "s = space\<lparr>los_object_tree := snd (tree_lookup (los_compare space) (los_object_tree space) a)\<rparr>"
    and f: "found = fst (tree_lookup (los_compare space) (los_object_tree space) a)"
    using l by (auto simp: large_object_tree_lookup_def Let_def split_beta)
  have key: "los_key s = los_key space" by (simp add: s los_key_def fun_eq_iff)
  have "quarantine_ok X s"
    by (rule quarantine_ok_cong[OF los_wf_apartD(8)[OF wf]]) (simp_all add: s key los_dead_node_def, simp add: los_key_def)
  then show "los_wf_apart X s" using wf look(1,2) unfolding los_wf_apart_def key by (simp add: s)
  show "s = space\<lparr>los_object_tree := los_object_tree s\<rparr>" by (simp add: s)
  show "found = Some n \<longleftrightarrow> n \<in> dom (los_nodes space) \<and> in_span a (los_key space n)"
    using look(3)[of n] los_wf_apartD(5)[OF wf] by (simp add: f compare_place los_key_def)
qed

text \<open>A new node goes into the tree and the map.\<close>

lemma insert_node_wf:
  assumes wf: "los_wf_apart X space" and new: "new \<notin> dom (los_nodes space)" "new \<noteq> 0"
    and spn: "span_valid sp" "\<forall>n \<in> dom (los_nodes space). span_apart sp (los_key space n)"
    and room: "address_map_room (los_object_map space)"
    and Y: "Y = (if is_Live val then X else insert new X)" and X: "X \<subseteq> dom (los_nodes space)"
  obtains s m where "large_object_tree_insert new space sp val = Inr (new, s)"
    "los_object_map s = los_object_map space" "los_node s new = \<lparr> node_key = sp, node_value = val \<rparr>"
    "address_map_add (los_object_map space) (obj_addr sp) new = Inr m"
    "los_wf_apart Y (s\<lparr>los_object_map := m\<rparr>)"
    "los_objects (s\<lparr>los_object_map := m\<rparr>) = los_objects space \<union> (if is_Live val then {sp} else {})"
    "los_spans (s\<lparr>los_object_map := m\<rparr>) = insert sp (los_spans space)"
    "s = space\<lparr>los_object_tree := los_object_tree s, los_nodes := (los_nodes space)(new \<mapsto> \<lparr> node_key = sp, node_value = val \<rparr>)\<rparr>"
proof -
  let ?node = "\<lparr> node_key = sp, node_value = val \<rparr>"
  let ?k = "(los_key space)(new := sp)"
  let ?t = "tree_insert (los_compare space) (obj_addr sp) new id (los_object_tree space)"
  define s where "s = los_set_node new ?node (space\<lparr>los_object_tree := ?t\<rparr>)"
  have tree: "set_tree (los_object_tree space) = dom (los_nodes space)" by (rule los_wf_apartD(5)[OF wf])
  have agree: "\<forall>n \<in> set_tree (los_object_tree space). ?k n = los_key space n" using new(1) tree by auto
  have kspans: "lo.spans ?k (los_object_tree space)" using los_wf_apartD(4)[OF wf] spans_key_cong[OF agree] by simp
  have t: "?t = tree_insert (\<lambda>a n. large_object_compare a (?k n)) (obj_addr (?k new)) new id (los_object_tree space)"
    unfolding los_compare_key fun_upd_same by (rule tree_insert_cong) (use agree in simp)
  have apart: "span_before (?k n) (?k new) \<or> span_before (?k new) (?k n)"
    if "n \<in> set_tree (los_object_tree space)" for n
    using spn(2) that agree tree by (auto simp: span_apart_def)
  have ins: "lo.spans ?k ?t" "set_tree ?t = insert new (dom (los_nodes space))"
    unfolding t tree[symmetric]
    by (rule lo.spans_insert[OF kspans]; use spn(1) apart in \<open>auto simp: span_before_def\<close>)+
  have eq: "large_object_tree_insert new space sp val = Inr (new, s)"
  proof (cases "tree_splay (los_compare space) (los_object_tree space) (obj_addr sp)")
    case Leaf
    then show ?thesis by (simp add: large_object_tree_insert_def large_object_span_start_def s_def)
  next
    case (Node l a r)
    have "a \<in> set_tree (los_object_tree space)"
      using Node inorder_splay[of "los_compare space" "los_object_tree space" "obj_addr sp"] set_inorder
      by (metis tree.set_intros(2))
    then have "span_apart sp (los_key space a)" using spn(2) tree by blast
    then have "los_compare space (obj_addr sp) a \<noteq> Within"
      using spn(1) by (auto simp: compare_place in_span_def span_apart_def span_before_def span_valid_def los_key_def)
    then show ?thesis using Node
      by (simp add: large_object_tree_insert_def large_object_span_start_def s_def Let_def)
  qed
  obtain m where m: "address_map_add (los_object_map space) (obj_addr sp) new = Inr m" "hash_map_wf m"
    "address_map_abs m = (address_map_abs (los_object_map space))(obj_addr sp \<mapsto> new)"
    using am.add_law[OF los_wf_apartD(1)[OF wf] room, of "obj_addr sp" new] by blast
  let ?s = "s\<lparr>los_object_map := m\<rparr>"
  have k: "los_key ?s = ?k" by (auto simp: s_def los_key_def fun_eq_iff)
  have dom: "dom (los_nodes ?s) = insert new (dom (los_nodes space))" by (auto simp: s_def)
  have noaddr: "obj_addr (los_key space n) \<noteq> obj_addr sp" if "n \<in> dom (los_nodes space)" for n
    using spn(1) bspec[OF spn(2) that] spans_valid[OF los_wf_apartD(4)[OF wf], of n] tree that
    by (auto simp: span_apart_def span_before_def span_valid_def)
  have q: "quarantine_ok Y ?s"
    by (rule quarantine_ok_cong[OF los_wf_apartD(8)[OF wf]])
      (use new(1) Y X in \<open>auto simp: s_def los_dead_node_def k los_key_def node_is_live_def split: if_splits\<close>)
  have "los_wf_apart Y ?s"
    unfolding los_wf_apart_def
  proof (intro conjI)
    show "lo.spans (los_key ?s) (los_object_tree ?s)" unfolding k using ins(1) by (simp add: s_def)
    show "set_tree (los_object_tree ?s) = dom (los_nodes ?s)" unfolding dom using ins(2) by (simp add: s_def)
    show "0 \<notin> dom (los_nodes ?s)" unfolding dom using new(2) los_wf_apartD(6)[OF wf] by simp
    show "\<forall>a n. address_map_abs (los_object_map ?s) a = Some n \<longleftrightarrow>
        n \<in> dom (los_nodes ?s) \<and> obj_addr (los_key ?s n) = a"
      unfolding dom k using los_wf_apartD(7)[OF wf] m(3) noaddr new(1) by (auto split: if_splits)
  qed (use wf m(2) q in \<open>auto simp: los_wf_apart_def s_def\<close>)
  moreover have "los_objects ?s = los_objects space \<union> (if is_Live val then {sp} else {})"
  proof -
    have live: "{n. los_live_node ?s n} = {n. los_live_node space n} \<union> (if is_Live val then {new} else {})"
      using new(1) by (auto simp: los_live_node_def s_def node_is_live_def)
    have "?k ` {n. los_live_node space n} = los_key space ` {n. los_live_node space n}"
      by (rule image_cong) (use new(1) in \<open>auto simp: los_live_node_def\<close>)
    then show ?thesis unfolding los_objects_def k live image_Un by simp
  qed
  moreover have "los_spans ?s = insert sp (los_spans space)"
    unfolding los_spans_def dom k using new(1) by auto
  ultimately show thesis
    using that[OF eq _ _ m(1), of ] by (simp add: s_def)
qed

text \<open>An unlinked dead node leaves the map, the tree and the store.\<close>

lemma remove_node_wf:
  assumes wf: "los_wf_apart X space" and n: "los_dead_node space n" "n \<in> X"
  obtains m s where "address_map_remove (los_object_map space) (obj_addr (los_key space n)) = Inr m"
    "large_object_tree_remove (space\<lparr>los_object_map := m\<rparr>) (obj_addr (los_key space n)) = Inr s"
    "los_wf_apart (X - {n}) s" "los_nodes s = (los_nodes space)(n := None)"
    "los_quarantine s = los_quarantine space" "los_objects s = los_objects space"
proof -
  let ?a = "obj_addr (los_key space n)"
  have dn: "n \<in> dom (los_nodes space)" using n(1) by (simp add: los_dead_node_def)
  note tree = los_wf_apartD(5)[OF wf]
  have "address_map_abs (los_object_map space) ?a = Some n" using los_wf_apartD(7)[OF wf] dn by blast
  then obtain m where m: "address_map_remove (los_object_map space) ?a = Inr m" "hash_map_wf m"
    "address_map_abs m = (address_map_abs (los_object_map space))(?a := None)"
    using am.remove_law[OF los_wf_apartD(1)[OF wf], of ?a] by auto
  have valid: "span_valid (los_key space n)"
    using spans_valid[OF los_wf_apartD(4)[OF wf]] tree dn by simp
  have "large_object_compare ?a (los_key space n) = Within"
    using valid by (auto simp: compare_place in_span_def span_valid_def)
  then obtain t where t: "tree_remove (\<lambda>a n. large_object_compare a (los_key space n)) (los_object_tree space) ?a = Some (n, t)"
    "lo.spans (los_key space) t" "set_tree t = set_tree (los_object_tree space) - {n}"
    using dn tree by (metis lo.spans_remove[OF los_wf_apartD(4)[OF wf]])
  let ?s = "space\<lparr>los_object_map := m, los_object_tree := t, los_nodes := (los_nodes space)(n := None)\<rparr>"
  have rem: "large_object_tree_remove (space\<lparr>los_object_map := m\<rparr>) ?a = Inr ?s"
    using t(1) by (simp add: large_object_tree_remove_def los_key_def)
  have k: "los_key ?s m = los_key space m" if "m \<noteq> n" for m using that by (simp add: los_key_def)
  have k': "\<forall>i. i \<notin> X \<longrightarrow> los_key ?s i = los_key space i" using k n(2) by metis
  have dom: "dom (los_nodes ?s) = dom (los_nodes space) - {n}" by auto
  have q: "quarantine_ok (X - {n}) ?s"
    by (rule quarantine_ok_cong[OF los_wf_apartD(8)[OF wf]])
      (use n k' in \<open>auto simp: los_dead_node_def split: if_splits\<close>)
  have "los_wf_apart (X - {n}) ?s"
    unfolding los_wf_apart_def
  proof (intro conjI)
    have "lo.spans (los_key ?s) t = lo.spans (los_key space) t" by (rule spans_key_cong) (use t(3) k in auto)
    then show "lo.spans (los_key ?s) (los_object_tree ?s)" using t(2) by simp
    show "set_tree (los_object_tree ?s) = dom (los_nodes ?s)" unfolding dom using t(3) tree by simp
    show "0 \<notin> dom (los_nodes ?s)" using los_wf_apartD(6)[OF wf] by auto
    show "\<forall>a i. address_map_abs (los_object_map ?s) a = Some i \<longleftrightarrow>
        i \<in> dom (los_nodes ?s) \<and> obj_addr (los_key ?s i) = a"
    proof (intro allI)
      fix a i
      show "address_map_abs (los_object_map ?s) a = Some i \<longleftrightarrow>
          i \<in> dom (los_nodes ?s) \<and> obj_addr (los_key ?s i) = a"
      proof (cases "i = n")
        case True
        then show ?thesis unfolding dom using m(3) los_wf_apartD(7)[OF wf, of a n] by auto
      next
        case False
        then show ?thesis unfolding dom k[OF False]
          using m(3) los_wf_apartD(7)[OF wf, of a i] node_addr_inj[OF wf _ dn, of i] False
          by (cases "a = ?a"; simp; blast?)
      qed
    qed
  qed (use wf m(2) q in \<open>auto simp: los_wf_apart_def\<close>)
  moreover have "los_objects ?s = los_objects space"
  proof -
    have live: "{m. los_live_node ?s m} = {m. los_live_node space m}"
      using n(1) by (auto simp: los_live_node_def los_dead_node_def split: if_splits)
    have "los_key ?s i = los_key space i" if "los_live_node space i" for i
      using k[of i] that n(1) by (cases "i = n") (simp_all add: los_live_node_def los_dead_node_def)
    then show ?thesis unfolding los_objects_def live by (intro image_cong) simp_all
  qed
  ultimately show thesis using that[OF m(1) rem] by simp
qed

end
