(* ===== verification/LargeObjectCorrect.thy ===== *)
theory LargeObjectCorrect
  imports LargeObjectInvariant
begin

text \<open>
  What the large object space promises: allocation hands out a span apart from every live object, a
  major collection keeps the marked objects and no others, dead spans go back to the system after two
  turns of the quarantine, and a conservative reference resolves to the live object it points into.
\<close>

section \<open>Fields that the invariant does not read\<close>

lemma los_key_fields [simp]:
  "los_key (space\<lparr>los_marked := a\<rparr>) = los_key space" "los_key (space\<lparr>los_nursery := b\<rparr>) = los_key space"
  "los_key (space\<lparr>los_free_pages := c\<rparr>) = los_key space" "los_key (space\<lparr>los_total_pages := c\<rparr>) = los_key space"
  "los_key (space\<lparr>los_live_pages_at_last_collection := c\<rparr>) = los_key space"
  "los_key (space\<lparr>los_pages_freed_by_last_collection := c\<rparr>) = los_key space"
  "los_key (space\<lparr>los_extents := d\<rparr>) = los_key space"
  "los_key (space\<lparr>los_object_map := b\<rparr>) = los_key space"
  by (simp_all add: los_key_def fun_eq_iff)

lemma los_nodes_fields [simp]:
  "los_live_node (space\<lparr>los_marked := a\<rparr>) = los_live_node space"
  "los_live_node (space\<lparr>los_nursery := b\<rparr>) = los_live_node space"
  "los_live_node (space\<lparr>los_free_pages := c\<rparr>) = los_live_node space"
  "los_live_node (space\<lparr>los_total_pages := c\<rparr>) = los_live_node space"
  "los_live_node (space\<lparr>los_live_pages_at_last_collection := c\<rparr>) = los_live_node space"
  "los_live_node (space\<lparr>los_pages_freed_by_last_collection := c\<rparr>) = los_live_node space"
  "los_live_node (space\<lparr>los_extents := d\<rparr>) = los_live_node space"
  "los_dead_node (space\<lparr>los_marked := a\<rparr>) = los_dead_node space"
  "los_dead_node (space\<lparr>los_nursery := b\<rparr>) = los_dead_node space"
  "los_dead_node (space\<lparr>los_free_pages := c\<rparr>) = los_dead_node space"
  "los_dead_node (space\<lparr>los_total_pages := c\<rparr>) = los_dead_node space"
  "los_dead_node (space\<lparr>los_live_pages_at_last_collection := c\<rparr>) = los_dead_node space"
  "los_dead_node (space\<lparr>los_pages_freed_by_last_collection := c\<rparr>) = los_dead_node space"
  "los_dead_node (space\<lparr>los_extents := d\<rparr>) = los_dead_node space"
  by (simp_all add: los_live_node_def los_dead_node_def fun_eq_iff)

lemma los_wf_fields [simp]:
  "los_wf_apart X (space\<lparr>los_marked := a\<rparr>) = los_wf_apart X space"
  "los_wf_apart X (space\<lparr>los_free_pages := c\<rparr>) = los_wf_apart X space"
  "los_wf_apart X (space\<lparr>los_total_pages := c\<rparr>) = los_wf_apart X space"
  "los_wf_apart X (space\<lparr>los_live_pages_at_last_collection := c\<rparr>) = los_wf_apart X space"
  "los_wf_apart X (space\<lparr>los_pages_freed_by_last_collection := c\<rparr>) = los_wf_apart X space"
  "los_wf_apart X (space\<lparr>los_extents := d\<rparr>) = los_wf_apart X space"
  by (simp_all add: los_wf_apart_def quarantine_ok_def)

lemma los_wf_nursery:
  "los_wf_apart X space \<Longrightarrow> hash_map_wf m \<Longrightarrow> los_wf_apart X (space\<lparr>los_nursery := m\<rparr>)"
  by (simp add: los_wf_apart_def quarantine_ok_def)

lemma los_objects_fields [simp]:
  "los_objects (space\<lparr>los_marked := a\<rparr>) = los_objects space"
  "los_objects (space\<lparr>los_nursery := b\<rparr>) = los_objects space"
  "los_objects (space\<lparr>los_free_pages := c\<rparr>) = los_objects space"
  "los_objects (space\<lparr>los_total_pages := c\<rparr>) = los_objects space"
  "los_objects (space\<lparr>los_live_pages_at_last_collection := c\<rparr>) = los_objects space"
  "los_objects (space\<lparr>los_pages_freed_by_last_collection := c\<rparr>) = los_objects space"
  "los_objects (space\<lparr>los_extents := d\<rparr>) = los_objects space"
  by (simp_all add: los_objects_def)

section \<open>Allocation\<close>

text \<open>What is asked of the platform: memory that it hands out is none of the spans of the space.\<close>

definition acquire_ok :: "large_object_space \<Rightarrow> (u64 \<Rightarrow> u64 option) \<Rightarrow> bool" where
  "acquire_ok space acquire \<longleftrightarrow> (\<forall>sz a. 0 < sz \<longrightarrow> acquire sz = Some a \<longrightarrow>
    span_valid \<lparr> obj_addr = a, obj_size = sz \<rparr>
    \<and> (\<forall>o1 \<in> los_spans space. span_apart \<lparr> obj_addr = a, obj_size = sz \<rparr> o1))"

lemma los_objects_spans: "los_objects space \<subseteq> los_spans space"
  by (auto simp: los_objects_def los_spans_def los_live_node_def)

text \<open>The holes are the dead spans; each is in the quarantine, in the bucket of its size.\<close>

definition los_holes :: "large_object_space \<Rightarrow> large_object set" where
  "los_holes space = los_key space ` {n. los_dead_node space n}"

lemma los_holes_fields [simp]:
  "los_holes (s\<lparr>los_object_map := m\<rparr>) = los_holes s" "los_holes (s\<lparr>los_nursery := m\<rparr>) = los_holes s"
  "los_holes (s\<lparr>los_total_pages := k\<rparr>) = los_holes s" "los_holes (s\<lparr>los_free_pages := k\<rparr>) = los_holes s"
  by (simp_all add: los_holes_def los_key_def los_dead_node_def)

text \<open>A hole becomes a live object; and what is left of it a new hole.\<close>

lemma holes_filled:
  assumes "los_wf_apart X space" "los_dead_node space n" "node_is_live a" "los_nodes s = (los_nodes space)(n \<mapsto> a)"
  shows "los_holes s = los_holes space - {los_key space n}"
proof -
  have "los_dead_node s m \<longleftrightarrow> los_dead_node space m \<and> m \<noteq> n" for m using assms(3,4) by (auto simp: los_dead_node_def)
  moreover have "los_key s m = los_key space m" if "m \<noteq> n" for m using assms(4) that by (simp add: los_key_def)
  ultimately have "los_holes s = los_key space ` ({m. los_dead_node space m} - {n})" by (auto simp: los_holes_def)
  also have "\<dots> = los_holes space - {los_key space n}"
    using key_inj[OF assms(1)] assms(2) by (auto simp: los_holes_def los_dead_node_def inj_on_def)
  finally show ?thesis .
qed

lemma holes_split:
  assumes "los_wf_apart X space" "los_dead_node space n" "node_is_live a" "new \<notin> dom (los_nodes space)" "\<not> node_is_live b"
    and "los_nodes s = (los_nodes space)(n \<mapsto> a, new \<mapsto> b)"
  shows "los_holes s = insert (node_key b) (los_holes space - {los_key space n})"
proof -
  let ?u = "space\<lparr>los_nodes := (los_nodes space)(n \<mapsto> a)\<rparr>"
  have "new \<noteq> n" using assms(2,4) by (auto simp: los_dead_node_def)
  then have "{m. los_dead_node s m} = insert new {m. los_dead_node ?u m}" "\<not> los_dead_node ?u new"
    using assms(4-6) by (auto simp: los_dead_node_def)
  moreover have "los_key s m = (if m = new then node_key b else los_key ?u m)" for m by (simp add: los_key_def assms(6))
  ultimately have "los_holes s = insert (node_key b) (los_holes ?u)" by (auto simp: los_holes_def)
  then show ?thesis using holes_filled[OF assms(1-3), of ?u] by simp
qed

lemma first_fit:
  assumes "los_wf space" "los_first_fit space sz idx = Some n" "idx < large_object_freelist_num_size_classes"
  shows "los_dead_node space n" "\<not> obj_size (los_key space n) < sz"
proof -
  have "n \<in> set (los_quarantine space ! idx)" "\<not> obj_size (los_key space n) < sz"
    using assms(2) by (auto simp: los_first_fit_def find_Some_iff los_key_def)
  then show "los_dead_node space n" "\<not> obj_size (los_key space n) < sz"
    using los_wf_apartD(8)[OF assms(1)] assms(3) by (simp_all add: quarantine_ok_def)
qed

lemma span_apart_sub:
  assumes "span_apart o1 o2" "unat (obj_addr o2) \<le> unat (obj_addr o3)"
    and "unat (obj_addr o3) + unat (obj_size o3) \<le> unat (obj_addr o2) + unat (obj_size o2)"
  shows "span_apart o1 o3"
  using assms by (auto simp: span_apart_def span_before_def)

lemma span_apart_sym: "span_apart o1 o2 \<longleftrightarrow> span_apart o2 o1"
  by (auto simp: span_apart_def)

lemma alloc_from_hole:
  assumes wf: "los_wf space" and n: "los_dead_node space n" "\<not> obj_size (los_key space n) < sz" and sz: "0 < sz"
    and new: "new \<notin> dom (los_nodes space)" "new \<noteq> 0"
    and room: "address_map_room (los_object_map space)" "address_map_room (los_nursery space)"
  defines "obj \<equiv> \<lparr> obj_addr = obj_addr (los_key space n), obj_size = sz \<rparr>"
  obtains s where "los_alloc_from_hole cfg new space npages sz trace n = Inr (obj_addr obj, s)"
    "los_wf s" "los_objects s = insert obj (los_objects space)" "\<forall>o1 \<in> los_objects space. span_apart obj o1"
    "obj_addr obj \<noteq> 0"
    "los_holes s = los_holes space - {los_key space n} \<union> (if sz < obj_size (los_key space n)
      then {\<lparr> obj_addr = obj_addr (los_key space n) + sz, obj_size = obj_size (los_key space n) - sz \<rparr>} else {})"
proof -
  have dn: "n \<in> dom (los_nodes space)" using n(1) by (simp add: los_dead_node_def)
  let ?k = "los_key space n"
  have valid: "span_valid ?k" using spans_valid[OF los_wf_apartD(4)[OF wf]] los_wf_apartD(5)[OF wf] dn by simp
  obtain s1 where s1: "large_object_space_remove_from_freelist space n = Inr s1" "los_wf_apart {n} s1"
    "s1 = space\<lparr>los_quarantine := los_quarantine s1\<rparr>"
    by (rule remove_from_freelist_wf[OF wf n(1)]) auto
  have s1n: "los_nodes s1 = los_nodes space" "los_object_map s1 = los_object_map space"
    "los_nursery s1 = los_nursery space"
    by (subst s1(3), simp)+
  have key1: "los_key s1 = los_key space" by (simp add: los_key_def s1n fun_eq_iff)
  have obj1: "los_objects s1 = los_objects space" by (simp add: los_objects_def los_live_node_def key1 s1n)
  let ?live = "\<lparr> node_key = ?k, node_value = Live large_object_nursery trace \<rparr>"
  define s2 where "s2 = los_set_node n ?live s1"
  have notin: "?k \<notin> los_objects space"
    using n(1) key_inj[OF wf] dn
    by (auto simp: los_objects_def los_live_node_def los_dead_node_def inj_on_def)
  have s2: "los_wf_apart {} s2" "los_key s2 = (los_key s1)(n := node_key ?live)"
    "los_objects s2 = los_objects s1 - {los_key s1 n} \<union> (if node_is_live ?live then {node_key ?live} else {})"
    unfolding s2_def
    by (rule set_node_wf[OF s1(2)]; use dn s1n key1 valid in \<open>simp add: span_valid_def node_is_live_def\<close>)+
  have key2: "los_key s2 = los_key space" using s2(2) key1 by simp
  have obj2: "los_objects s2 = insert ?k (los_objects space)"
    using s2(3) obj1 key1 notin by (simp add: node_is_live_def)
  have live2: "los_live_node s2 n" by (simp add: s2_def los_live_node_def node_is_live_def)
  have apart: "span_apart ?k (los_key space m)" if "m \<in> dom (los_nodes space)" "m \<noteq> n" for m
    using spans_apart[OF los_wf_apartD(4)[OF wf], of n m] los_wf_apartD(5)[OF wf] that dn by simp
  have szk: "unat sz \<le> unat (obj_size ?k)" using n(2) by (simp add: not_less word_le_nat_alt)
  have sz0: "0 < unat sz" using sz by (simp add: word_less_nat_alt)
  have obj_apart: "\<forall>o1 \<in> los_objects space. span_apart obj o1"
  proof
    fix o1 assume "o1 \<in> los_objects space"
    then obtain m where m: "los_live_node space m" "o1 = los_key space m" by (auto simp: los_objects_def)
    then have "span_apart o1 ?k"
      using apart[of m] n(1) span_apart_sym by (auto simp: los_live_node_def los_dead_node_def)
    then show "span_apart obj o1" using szk
      by (subst span_apart_sym) (erule span_apart_sub; simp add: obj_def)
  qed
  text \<open>The tail goes back to the quarantine.\<close>
  have keep2: "los_holes s2 = los_holes space - {los_key space n}"
    by (rule holes_filled[OF wf n(1), of ?live]) (simp_all add: s2_def s1n node_is_live_def)
  obtain s3 where s3: "los_wf s3" "los_objects s3 = insert obj (los_objects space)"
    "los_nursery s3 = los_nursery space"
    "(if obj_size ?k > sz
       then let tail = \<lparr> obj_addr = obj_addr ?k + sz, obj_size = obj_size ?k - sz \<rparr>;
                s = los_set_node n ((los_node s2 n)\<lparr>node_key := ?k\<lparr>obj_size := sz\<rparr>\<rparr>) s2 in
         result_bind (large_object_tree_insert new s tail (Dead 0)) (\<lambda>(tail_node, s).
         result_bind (address_map_add (los_object_map s)
             (obj_addr (node_key (los_node s tail_node))) tail_node) (\<lambda>m.
         Inr (large_object_space_add_to_freelist (s\<lparr>los_object_map := m\<rparr>) tail_node)))
       else Inr s2) = Inr s3"
    "los_holes s3 = los_holes space - {los_key space n} \<union> (if sz < obj_size ?k
      then {\<lparr> obj_addr = obj_addr ?k + sz, obj_size = obj_size ?k - sz \<rparr>} else {})"
  proof (cases "obj_size ?k > sz")
    case False
    then have "sz = obj_size ?k" using n(2) by simp
    then have "obj = ?k" by (simp add: obj_def)
    then show thesis using that[of s2] s2(1) obj2 False s1n(3) keep2 by (simp add: s2_def)
  next
    case True
    let ?small = "(los_node s2 n)\<lparr>node_key := ?k\<lparr>obj_size := sz\<rparr>\<rparr>"
    define s where "s = los_set_node n ?small s2"
    have small: "node_key ?small = obj" "node_is_live ?small"
      using live2 by (simp_all add: obj_def los_live_node_def node_is_live_def)
    have s: "los_wf_apart {} s" "los_key s = (los_key s2)(n := node_key ?small)"
      "los_objects s = los_objects s2 - {los_key s2 n} \<union> (if node_is_live ?small then {node_key ?small} else {})"
      unfolding s_def
      by (rule set_node_wf[OF s2(1)];
          use live2 small key2 less_imp_le[OF True] sz0 in \<open>simp add: los_live_node_def obj_def\<close>)+
    have objs: "los_objects s = insert obj (los_objects space)"
      using s(3) small key2 obj2 notin by auto
    have keys: "los_key s = (los_key space)(n := obj)" using s(2) small key2 by simp
    have nodes: "dom (los_nodes s) = dom (los_nodes space)" "los_object_map s = los_object_map space"
      "los_nursery s = los_nursery space"
      using dn s1n by (auto simp: s_def s2_def)
    let ?tail = "\<lparr> obj_addr = obj_addr ?k + sz, obj_size = obj_size ?k - sz \<rparr>"
    have t: "unat (obj_addr ?k + sz) = unat (obj_addr ?k) + unat sz" "unat (obj_size ?k - sz) = unat (obj_size ?k) - unat sz"
      using valid szk True
      by (simp_all add: unat_sub word_le_nat_alt span_valid_def unat_word_ariths(1))
    have tail_valid: "span_valid ?tail"
      using valid szk True sz t by (auto simp: span_valid_def word_less_nat_alt unat_eq_0 simp flip: unat_gt_0)
    have tail_apart: "\<forall>m \<in> dom (los_nodes s). span_apart ?tail (los_key s m)"
    proof
      fix m assume m: "m \<in> dom (los_nodes s)"
      show "span_apart ?tail (los_key s m)"
      proof (cases "m = n")
        case True
        then show ?thesis using t by (simp add: keys obj_def span_apart_def span_before_def)
      next
        case False
        then have "span_apart (los_key space m) ?k" using apart[of m] m nodes(1) span_apart_sym by simp
        then show ?thesis using t szk False
          by (subst span_apart_sym) (simp add: keys, erule span_apart_sub; simp)
      qed
    qed
    obtain s' m where ins: "large_object_tree_insert new s ?tail (Dead 0) = Inr (new, s')"
      "los_node s' new = \<lparr> node_key = ?tail, node_value = Dead 0 \<rparr>"
      "address_map_add (los_object_map s) (obj_addr ?tail) new = Inr m" "los_object_map s' = los_object_map s"
      "los_wf_apart {new} (s'\<lparr>los_object_map := m\<rparr>)"
      "los_objects (s'\<lparr>los_object_map := m\<rparr>) = los_objects s"
      "s' = s\<lparr>los_object_tree := los_object_tree s', los_nodes := (los_nodes s)(new \<mapsto> \<lparr> node_key = ?tail, node_value = Dead 0 \<rparr>)\<rparr>"
    proof (rule insert_node_wf[OF s(1) _ new(2) tail_valid tail_apart, where val = "Dead 0" and Y = "{new}"])
      show "new \<notin> dom (los_nodes s)" using new(1) nodes(1) by simp
      show "address_map_room (los_object_map s)" using room(1) nodes(2) by simp
    qed auto
    let ?u = "s'\<lparr>los_object_map := m\<rparr>"
    have "new \<in> dom (los_nodes ?u)" by (subst ins(7)) simp
    note f = add_to_freelist_wf[OF ins(5) this]
    have notlive: "\<not> los_live_node ?u new" using ins(2) by (simp add: los_live_node_def node_is_live_def)
    have "los_key ?u new \<notin> los_objects ?u"
      using notlive key_inj[OF ins(5)] \<open>new \<in> dom (los_nodes ?u)\<close>
      by (auto simp: los_objects_def los_live_node_def inj_on_def)
    then have "los_objects (large_object_space_add_to_freelist ?u new) = insert obj (los_objects space)"
      using f(4) ins(6) objs by simp
    moreover have "los_nursery ?u = los_nursery space" by (subst ins(7)) (simp add: nodes)
    moreover have "los_holes (large_object_space_add_to_freelist ?u new) = insert ?tail (los_holes space - {los_key space n})"
    proof -
      have "los_nodes ?u = (los_nodes s)(new \<mapsto> \<lparr> node_key = ?tail, node_value = Dead 0 \<rparr>)" by (subst ins(7)) simp
      then have "los_nodes (large_object_space_add_to_freelist ?u new)
          = (los_nodes space)(n \<mapsto> ?small, new \<mapsto> \<lparr> node_key = ?tail, node_value = Dead 0 \<rparr>)"
        by (simp add: large_object_space_add_to_freelist_def Let_def s_def s2_def s1n)
      from holes_split[OF wf n(1) small(2) new(1) _ this] show ?thesis by (simp add: node_is_live_def)
    qed
    ultimately show thesis
      using that[of "large_object_space_add_to_freelist ?u new"] f(1,9) True ins(1,2,3,4)
      by (simp add: s_def obj_def)
  qed
  have hole: "los_alloc_from_hole cfg new space npages sz trace n =
    result_bind (if gc_generational cfg then address_map_add (los_nursery s3) (obj_addr ?k) n
       else Inr (los_nursery s3))
    (\<lambda>m. Inr (obj_addr ?k, s3\<lparr>los_nursery := m, los_free_pages := los_free_pages s3 - npages\<rparr>))"
  proof -
    have k: "node_key (los_node s1 n) = ?k" by (simp add: s1n los_key_def)
    have "(los_node s1 n)\<lparr>node_value := Live large_object_nursery trace\<rparr> = ?live"
      using k by (cases "los_node s1 n") simp
    note live_eq = this
    show ?thesis
      unfolding los_alloc_from_hole_def s1(1) result_bind.simps Let_def k live_eq s2_def[symmetric]
        s3(4)[unfolded Let_def] ..
  qed
  obtain m where m: "(if gc_generational cfg then address_map_add (los_nursery s3) (obj_addr ?k) n
       else Inr (los_nursery s3)) = Inr m" "hash_map_wf m"
    using am.add_law[OF los_wf_apartD(2)[OF wf] room(2), of "obj_addr ?k" n] s3(3) los_wf_apartD(2)[OF wf]
    by (cases "gc_generational cfg") auto
  have "los_wf (s3\<lparr>los_nursery := m, los_free_pages := los_free_pages s3 - npages\<rparr>)"
    using los_wf_nursery[OF s3(1) m(2)] by simp
  then show thesis using that hole m(1) s3(2,5) obj_apart valid by (simp add: obj_def span_valid_def)
qed

lemma alloc_fresh:
  assumes wf: "los_wf space" and acquire: "acquire_ok space acquire" and sz: "0 < sz"
    and new: "new \<notin> dom (los_nodes space)" "new \<noteq> 0" and room: "address_map_room (los_object_map space)"
  obtains "acquire sz = None" "los_alloc_fresh acquire new space npages sz trace = Inr (0, space)"
  | a s where "acquire sz = Some a" "los_alloc_fresh acquire new space npages sz trace = Inr (a, s)"
    "los_wf s" "a \<noteq> 0" "los_objects s = insert \<lparr> obj_addr = a, obj_size = sz \<rparr> (los_objects space)"
    "\<forall>o1 \<in> los_objects space. span_apart \<lparr> obj_addr = a, obj_size = sz \<rparr> o1" "los_holes s = los_holes space"
proof (cases "acquire sz")
  case None
  then show thesis using that(1) by (simp add: los_alloc_fresh_def)
next
  case (Some a)
  let ?o = "\<lparr> obj_addr = a, obj_size = sz \<rparr>"
  have o: "span_valid ?o" "\<forall>o1 \<in> los_spans space. span_apart ?o o1"
    using acquire Some sz by (auto simp: acquire_ok_def)
  obtain s m where ins: "large_object_tree_insert new space ?o (Live large_object_nursery trace) = Inr (new, s)"
    "address_map_add (los_object_map space) (obj_addr ?o) new = Inr m" "los_object_map s = los_object_map space"
    "los_wf_apart {} (s\<lparr>los_object_map := m\<rparr>)"
    "los_objects (s\<lparr>los_object_map := m\<rparr>) = los_objects space \<union> (if is_Live (Live large_object_nursery trace) then {?o} else {})"
    "s = space\<lparr>los_object_tree := los_object_tree s,
      los_nodes := (los_nodes space)(new \<mapsto> \<lparr> node_key = ?o, node_value = Live large_object_nursery trace \<rparr>)\<rparr>"
    by (rule insert_node_wf[OF wf new o(1) _ room, where val = "Live large_object_nursery trace" and Y = "{}"])
      (use o(2) in \<open>auto simp: los_spans_def\<close>)
  let ?s = "s\<lparr>los_object_map := m, los_total_pages := los_total_pages s + npages\<rparr>"
  have "los_alloc_fresh acquire new space npages sz trace = Inr (a, ?s)"
    using ins(1,2,3) Some by (simp add: los_alloc_fresh_def)
  moreover have "los_objects ?s = insert ?o (los_objects space)" using ins(5) by simp
  moreover have "los_holes ?s = los_holes space"
  proof -
    have "los_nodes s = (los_nodes space)(new \<mapsto> \<lparr> node_key = ?o, node_value = Live large_object_nursery trace \<rparr>)"
      by (subst ins(6)) simp
    then have same: "los_dead_node s m \<longleftrightarrow> los_dead_node space m" and "m \<noteq> new \<Longrightarrow> los_key s m = los_key space m" for m
      using new(1) by (auto simp: los_dead_node_def los_key_def node_is_live_def)
    moreover have "\<not> los_dead_node space new" using new(1) by (simp add: los_dead_node_def)
    ultimately have "los_key s m = los_key space m" if "los_dead_node space m" for m
      using that by metis
    moreover have "los_dead_node s = los_dead_node space" using same by (simp add: fun_eq_iff)
    ultimately have "los_holes s = los_holes space" unfolding los_holes_def by (intro image_cong) simp_all
    then show ?thesis by simp
  qed
  ultimately show thesis
    using that(2)[OF Some] ins(4) o los_objects_spans[of space] by (auto simp: span_valid_def)
qed

text \<open>C17: An allocation of a non-zero number of pages, in a well-formed space, keeps the space
  well-formed and either returns 0 and changes nothing, which happens only when the system has no
  memory for it, or returns the address of a new live object of exactly that size which overlaps none
  of the objects that were live. The object is in memory that the system has just given, and the holes
  of the quarantine stay as they are, or it is the beginning of a hole that is large enough; of a hole
  that is too large the rest is a hole of its own afterwards, in the quarantine, and all other holes
  stay.\<close>

theorem large_object_space_alloc_correct:
  assumes "los_wf space" "acquire_ok space acquire" "new \<notin> dom (los_nodes space)" "new \<noteq> 0"
    and "address_map_room (los_object_map space)" "address_map_room (los_nursery space)"
    and "sz = push_bit (los_page_size_log2 space) npages" "0 < sz"
  shows "\<exists>a s. large_object_space_alloc cfg acquire new space npages trace = Inr (a, s) \<and> los_wf s
    \<and> (if a = 0 then acquire sz = None \<and> s = space
       else los_objects s = insert \<lparr> obj_addr = a, obj_size = sz \<rparr> (los_objects space)
         \<and> (\<forall>o1 \<in> los_objects space. span_apart \<lparr> obj_addr = a, obj_size = sz \<rparr> o1)
         \<and> (acquire sz = Some a \<and> los_holes s = los_holes space
            \<or> (\<exists>hole \<in> los_holes space. obj_addr hole = a \<and> sz \<le> obj_size hole
                \<and> los_holes s = los_holes space - {hole} \<union> (if sz < obj_size hole
                  then {\<lparr> obj_addr = a + sz, obj_size = obj_size hole - sz \<rparr>} else {}))))"
proof -
  define idx where "idx = break_index (\<lambda>idx. los_first_fit space sz idx \<noteq> None)
    (large_object_freelist_size_class sz) large_object_freelist_num_size_classes"
  have alloc: "large_object_space_alloc cfg acquire new space npages trace =
      (if idx < large_object_freelist_num_size_classes
       then los_alloc_from_hole cfg new space npages sz trace (the (los_first_fit space sz idx))
       else los_alloc_fresh acquire new space npages sz trace)"
    unfolding large_object_space_alloc_def Let_def idx_def assms(7) ..
  show ?thesis
  proof (cases "idx < large_object_freelist_num_size_classes")
    case True
    then have "los_first_fit space sz idx \<noteq> None" unfolding idx_def by (rule break_index_stops)
    then obtain n where n: "los_first_fit space sz idx = Some n" by blast
    obtain s where "los_alloc_from_hole cfg new space npages sz trace n = Inr (obj_addr (los_key space n), s)"
      "los_wf s" "los_objects s = insert \<lparr> obj_addr = obj_addr (los_key space n), obj_size = sz \<rparr> (los_objects space)"
      "\<forall>o1 \<in> los_objects space. span_apart \<lparr> obj_addr = obj_addr (los_key space n), obj_size = sz \<rparr> o1"
      "obj_addr (los_key space n) \<noteq> 0"
      "los_holes s = los_holes space - {los_key space n} \<union> (if sz < obj_size (los_key space n)
        then {\<lparr> obj_addr = obj_addr (los_key space n) + sz, obj_size = obj_size (los_key space n) - sz \<rparr>} else {})"
      using alloc_from_hole[OF assms(1) first_fit[OF assms(1) n True] assms(8,3,4,5,6), of cfg npages trace]
      by auto
    moreover have "los_key space n \<in> los_holes space" "sz \<le> obj_size (los_key space n)"
      using first_fit[OF assms(1) n True] by (auto simp: los_holes_def)
    ultimately show ?thesis using True n by (auto simp: alloc)
  next
    case False
    show ?thesis
    proof (rule alloc_fresh[OF assms(1,2,8,3,4,5), of npages trace])
      assume "acquire sz = None" "los_alloc_fresh acquire new space npages sz trace = Inr (0, space)"
      then show ?thesis using False assms(1) by (simp add: alloc)
    next
      fix a s
      assume "los_alloc_fresh acquire new space npages sz trace = Inr (a, s)" "los_wf s" "a \<noteq> 0" "acquire sz = Some a"
        "los_holes s = los_holes space"
        "los_objects s = insert \<lparr> obj_addr = a, obj_size = sz \<rparr> (los_objects space)"
        "\<forall>o1 \<in> los_objects space. span_apart \<lparr> obj_addr = a, obj_size = sz \<rparr> o1"
      then show ?thesis using False by (simp add: alloc)
    qed
  qed
qed

lemma los_init_wf:
  "los_wf (large_object_space_init cfg ps lg t)" "los_objects (large_object_space_init cfg ps lg t) = {}"
proof -
  have "lo.spans k Leaf" for k by (simp add: lo.spans_def)
  then show "los_wf (large_object_space_init cfg ps lg t)"
    using init_wf set_init
    by (auto simp: los_wf_apart_def large_object_space_init_def quarantine_ok_def los_dead_node_def)
  show "los_objects (large_object_space_init cfg ps lg t) = {}"
    by (simp add: los_objects_def los_live_node_def large_object_space_init_def)
qed

definition small_config :: gc_config where
  "small_config = \<lparr> gc_parallel = False, gc_generational = True, gc_precise_roots = True,
    gc_conservative_roots = False, gc_conservative_trace = False \<rparr>"

abbreviation los_fresh :: large_object_space where
  "los_fresh \<equiv> large_object_space_init small_config 4096 12 False"

theorem large_object_space_alloc_correct_witness:
  "\<exists>a s. large_object_space_alloc small_config (\<lambda>sz. if sz = 8192 then Some 0x10000 else None) 8 los_fresh 2
      Trace_precisely = Inr (a, s) \<and> los_wf s
    \<and> (if a = 0 then False else los_objects s = {\<lparr> obj_addr = a, obj_size = 8192 \<rparr>})"
proof -
  let ?acquire = "\<lambda>sz :: u64. if sz = 8192 then Some (0x10000 :: u64) else None"
  have acquire: "acquire_ok los_fresh ?acquire"
    by (auto simp: acquire_ok_def span_valid_def los_spans_def large_object_space_init_def)
  have fields: "los_nodes los_fresh = Map.empty" "los_object_map los_fresh = address_map_init"
    "los_nursery los_fresh = address_map_init" "los_page_size_log2 los_fresh = 12"
    by (simp_all add: large_object_space_init_def)
  have room: "address_map_room address_map_init"
    by (simp add: address_map_room_def address_map_init_def hash_map_init_def hash_map_clear_def)
  have size: "(8192 :: u64) = push_bit (los_page_size_log2 los_fresh) 2"
    unfolding fields by (simp add: push_bit_eq_mult)
  have new: "8 \<notin> dom (los_nodes los_fresh)" "(8 :: u64) \<noteq> 0" by (simp_all add: fields)
  have pos: "(0 :: u64) < 8192" by simp
  from large_object_space_alloc_correct[OF los_init_wf(1) acquire new, unfolded fields,
      OF room room size[unfolded fields] pos, of small_config Trace_precisely]
  show ?thesis unfolding los_init_wf(2) by (auto split: if_splits)
qed

section \<open>A major collection\<close>

definition los_mark_of :: "large_object_space \<Rightarrow> u64 \<Rightarrow> u8" where
  "los_mark_of space n = live_mark (node_value (los_node space n))"

lemma dead_node_iff: "los_dead_node s n \<longleftrightarrow> n \<in> dom (los_nodes s) \<and> \<not> los_live_node s n"
  by (auto simp: los_dead_node_def los_live_node_def)

lemma los_mark_of_fields [simp]:
  "los_mark_of (s\<lparr>los_free_pages := c\<rparr>) = los_mark_of s"
  "los_mark_of (s\<lparr>los_pages_freed_by_last_collection := c\<rparr>) = los_mark_of s"
  by (simp_all add: los_mark_of_def fun_eq_iff)

definition los_pages_of :: "large_object_space \<Rightarrow> large_object \<Rightarrow> u64" where
  "los_pages_of space o1 = drop_bit (los_page_size_log2 space) (obj_size o1)"

definition los_age_of :: "large_object_space \<Rightarrow> u64 \<Rightarrow> u8" where
  "los_age_of s n = dead_age (node_value (los_node s n))"

text \<open>Between collections a live object is unmarked or has the current mark.\<close>

definition los_marks_ok :: "large_object_space \<Rightarrow> bool" where
  "los_marks_ok space \<longleftrightarrow> los_marked space \<in> {large_object_mark_0, large_object_mark_1}
    \<and> (\<forall>n. los_live_node space n \<longrightarrow> los_mark_of space n \<in> {large_object_nursery, los_marked space})"

definition los_marked_nodes :: "large_object_space \<Rightarrow> u64 set" where
  "los_marked_nodes space = {n. los_live_node space n \<and> los_mark_of space n = los_marked space}"

text \<open>What stays as it was while objects are marked.\<close>

definition los_same :: "large_object_space \<Rightarrow> large_object_space \<Rightarrow> bool" where
  "los_same s t \<longleftrightarrow> los_key t = los_key s \<and> los_live_node t = los_live_node s \<and> los_marked t = los_marked s
    \<and> los_page_size_log2 t = los_page_size_log2 s \<and> dom (los_nodes t) = dom (los_nodes s)
    \<and> los_synchronous_release t = los_synchronous_release s
    \<and> (\<forall>n. los_dead_node s n \<longrightarrow> los_dead_node t n \<and> los_age_of t n = los_age_of s n)"

lemma los_same_trans: "los_same s t \<Longrightarrow> los_same t u \<Longrightarrow> los_same s u"
  by (simp add: los_same_def)

lemma live_node_of:
  assumes "los_wf s" "r \<in> obj_addr ` los_objects s"
  obtains n where "los_live_node s n" "obj_addr (los_key s n) = r" "large_object_space_lookup s r = Inr n" "n \<noteq> 0"
proof -
  obtain n where n: "los_live_node s n" "obj_addr (los_key s n) = r"
    using assms(2) by (auto simp: los_objects_def)
  then have dn: "n \<in> dom (los_nodes s)" by (simp add: los_live_node_def)
  show thesis
  proof (cases rule: lookup_cases[OF assms(1), of r])
    case 1
    then show thesis using n dn by blast
  next
    case (2 m)
    then show thesis using that[OF n] node_addr_inj[OF assms(1), of m n] n(2) dn by simp
  qed
qed

lemma mark_wf:
  assumes wf: "los_wf s" and r: "r \<in> obj_addr ` los_objects s"
  obtains b t where "large_object_space_mark s r = Inr (b, t)" "los_wf t" "los_same s t"
    "los_objects t = los_objects s"
    "los_marked_nodes t = los_marked_nodes s \<union> {n. los_live_node s n \<and> obj_addr (los_key s n) = r}"
    "los_live_pages_at_last_collection t = los_live_pages_at_last_collection s
      + (\<Sum>n \<in> los_marked_nodes t - los_marked_nodes s. los_pages_of s (los_key s n))"
proof -
  obtain n where n: "los_live_node s n" "obj_addr (los_key s n) = r" "large_object_space_lookup s r = Inr n" "n \<noteq> 0"
    by (rule live_node_of[OF wf r])
  have dn: "n \<in> dom (los_nodes s)" using n(1) by (simp add: los_live_node_def)
  have uniq: "{m. los_live_node s m \<and> obj_addr (los_key s m) = r} = {n}"
    using n(1,2) node_addr_inj[OF wf] by (auto simp: los_live_node_def)
  have get: "large_object_node_get_mark (los_node s n) = Inr (los_mark_of s n)"
    using n(1) by (simp add: large_object_node_get_mark_def los_mark_of_def los_live_node_def)
  show thesis
  proof (cases "los_mark_of s n = los_marked s")
    case True
    then have "large_object_space_mark s r = Inr (False, s)"
      using n(3,4) get by (simp add: large_object_space_mark_def Let_def)
    moreover have "los_marked_nodes s \<union> {n} = los_marked_nodes s"
      using True n(1) by (auto simp: los_marked_nodes_def)
    ultimately show thesis using that[of False s] wf uniq by (simp add: los_same_def)
  next
    case False
    let ?node = "(los_node s n)\<lparr>node_value := Live (los_marked s) (live_trace (node_value (los_node s n)))\<rparr>"
    let ?u = "los_set_node n ?node s"
    let ?t = "?u\<lparr>los_live_pages_at_last_collection := los_live_pages_at_last_collection s + los_pages_of s (los_key s n)\<rparr>"
    have eq: "large_object_space_mark s r = Inr (True, ?t)"
      using n(3,4) get False
      by (simp add: large_object_space_mark_def Let_def los_pages_of_def los_key_def)
    have u: "los_wf_apart {} ?u" "los_objects ?u = los_objects s" "los_key ?u = los_key s"
      by (rule set_value_wf[OF wf dn]; use n(1) in \<open>simp add: los_key_def los_live_node_def node_is_live_def\<close>)+
    have live: "los_live_node ?u = los_live_node s"
      using n(1) by (auto simp: los_live_node_def node_is_live_def fun_eq_iff)
    have "los_dead_node ?t m \<and> los_age_of ?t m = los_age_of s m" if "los_dead_node s m" for m
      using that n(1) by (auto simp: los_dead_node_def los_live_node_def los_age_of_def)
    then have same: "los_same s ?t" using u(3) live dn by (auto simp: los_same_def)
    have marked: "los_marked_nodes ?t = insert n (los_marked_nodes s)"
      using live n(1) by (auto simp: los_marked_nodes_def los_mark_of_def)
    moreover have "n \<notin> los_marked_nodes s" using False by (simp add: los_marked_nodes_def)
    ultimately have "los_marked_nodes ?t - los_marked_nodes s = {n}" by auto
    then show thesis using that[OF eq _ same] u(1,2) marked uniq by simp
  qed
qed

definition los_mark_all :: "large_object_space \<Rightarrow> gc_ref list \<Rightarrow> large_object_space result" where
  "los_mark_all s refs = result_fold (\<lambda>r s. map_result snd (large_object_space_mark s r)) refs s"

lemma finite_nodes: "los_wf_apart X s \<Longrightarrow> finite (dom (los_nodes s))"
  using los_wf_apartD(5)[of X s] finite_set_tree[of "los_object_tree s"] by simp

lemma mark_all_wf:
  assumes wf: "los_wf s" and refs: "set refs \<subseteq> obj_addr ` los_objects s"
  obtains t where "los_mark_all s refs = Inr t" "los_wf t" "los_same s t" "los_objects t = los_objects s"
    "los_marked_nodes t = los_marked_nodes s \<union> {n. los_live_node s n \<and> obj_addr (los_key s n) \<in> set refs}"
    "los_live_pages_at_last_collection t = los_live_pages_at_last_collection s
      + (\<Sum>n \<in> los_marked_nodes t - los_marked_nodes s. los_pages_of s (los_key s n))"
proof -
  let ?I = "\<lambda>rs t. los_wf t \<and> los_same s t \<and> los_objects t = los_objects s
    \<and> los_marked_nodes t = los_marked_nodes s \<union> {n. los_live_node s n \<and> obj_addr (los_key s n) \<in> set rs}
    \<and> los_live_pages_at_last_collection t = los_live_pages_at_last_collection s
      + (\<Sum>n \<in> los_marked_nodes t - los_marked_nodes s. los_pages_of s (los_key s n))"
  have "\<exists>t. los_mark_all s refs = Inr t \<and> ?I refs t"
    unfolding los_mark_all_def
  proof (rule result_fold_invariant[where I = ?I])
    show "?I [] s" using wf by (simp add: los_same_def)
    fix rs r rs' t
    assume refs': "refs = rs @ r # rs'" and I: "?I rs t"
    have "r \<in> obj_addr ` los_objects t" using I refs refs' by auto
    then obtain b u where u: "large_object_space_mark t r = Inr (b, u)" "los_wf u" "los_same t u"
      "los_objects u = los_objects t"
      "los_marked_nodes u = los_marked_nodes t \<union> {n. los_live_node t n \<and> obj_addr (los_key t n) = r}"
      "los_live_pages_at_last_collection u = los_live_pages_at_last_collection t
        + (\<Sum>n \<in> los_marked_nodes u - los_marked_nodes t. los_pages_of t (los_key t n))"
      using mark_wf[of t r] I by blast
    have same: "los_key t = los_key s" "los_live_node t = los_live_node s" "los_page_size_log2 t = los_page_size_log2 s"
      using I by (simp_all add: los_same_def)
    have m: "los_marked_nodes u = los_marked_nodes s \<union> {n. los_live_node s n \<and> obj_addr (los_key s n) \<in> set (rs @ [r])}"
      using u(5) I same by auto
    have "finite (los_marked_nodes u)"
      using finite_nodes[OF u(2)] by (rule finite_subset[rotated]) (auto simp: los_marked_nodes_def los_live_node_def)
    moreover have "los_marked_nodes u - los_marked_nodes s
        = (los_marked_nodes t - los_marked_nodes s) \<union> (los_marked_nodes u - los_marked_nodes t)"
      using u(5) I by blast
    ultimately have "(\<Sum>n \<in> los_marked_nodes u - los_marked_nodes s. los_pages_of s (los_key s n))
        = (\<Sum>n \<in> los_marked_nodes t - los_marked_nodes s. los_pages_of s (los_key s n))
        + (\<Sum>n \<in> los_marked_nodes u - los_marked_nodes t. los_pages_of s (los_key s n))"
      by (metis (no_types, lifting) Diff_disjoint Diff_Int_distrib2 Int_Diff finite_Un inf_commute
          sum.union_disjoint Diff_Int2 finite_Diff)
    moreover have "los_pages_of t = los_pages_of s" using same(3) by (simp add: los_pages_of_def fun_eq_iff)
    ultimately have "los_live_pages_at_last_collection u = los_live_pages_at_last_collection s
        + (\<Sum>n \<in> los_marked_nodes u - los_marked_nodes s. los_pages_of s (los_key s n))"
      using u(6) I same by (simp add: add.assoc)
    moreover have "los_same s u" using los_same_trans[OF _ u(3)] I by blast
    ultimately have "?I (rs @ [r]) u" using u(2,4) I m by (intro conjI) simp_all
    then show "\<exists>u. map_result snd (large_object_space_mark t r) = Inr u \<and> ?I (rs @ [r]) u"
      using u(1) by simp
  qed
  then show thesis using that by blast
qed

lemma sweep_list:
  assumes wf: "los_wf s" and xs: "distinct (map snd xs)" "\<forall>(a, n) \<in> set xs. n \<in> dom (los_nodes s)"
  defines "t \<equiv> fold (\<lambda>(a, n). large_object_space_sweep_one a n) xs s"
  shows "los_wf t \<and> los_key t = los_key s \<and> dom (los_nodes t) = dom (los_nodes s) \<and> los_marked t = los_marked s
    \<and> los_synchronous_release t = los_synchronous_release s \<and> los_nursery t = los_nursery s
    \<and> los_page_size_log2 t = los_page_size_log2 s
    \<and> los_live_pages_at_last_collection t = los_live_pages_at_last_collection s
    \<and> (\<forall>n. los_live_node t n \<longleftrightarrow> los_live_node s n \<and> (n \<in> snd ` set xs \<longrightarrow> los_mark_of s n = los_marked s))
    \<and> (\<forall>n. los_live_node t n \<longrightarrow> los_mark_of t n = los_mark_of s n)
    \<and> (\<forall>n. los_dead_node t n \<longrightarrow> los_age_of t n = (if los_dead_node s n then los_age_of s n else 0))"
  using wf xs unfolding t_def
proof (induction xs arbitrary: s)
  case (Cons x xs)
  obtain a n where x: "x = (a, n)" by (rule prod.exhaust)
  have dn: "n \<in> dom (los_nodes s)" using Cons.prems(3) x by simp
  define u where "u = large_object_space_sweep_one a n s"
  have u: "los_wf u \<and> los_key u = los_key s \<and> dom (los_nodes u) = dom (los_nodes s) \<and> los_marked u = los_marked s
    \<and> los_synchronous_release u = los_synchronous_release s \<and> los_nursery u = los_nursery s
    \<and> los_page_size_log2 u = los_page_size_log2 s
    \<and> los_live_pages_at_last_collection u = los_live_pages_at_last_collection s
    \<and> (\<forall>m. los_live_node u m \<longleftrightarrow> los_live_node s m \<and> (m = n \<longrightarrow> los_mark_of s m = los_marked s))
    \<and> (\<forall>m. los_live_node u m \<longrightarrow> los_mark_of u m = los_mark_of s m)
    \<and> (\<forall>m. los_dead_node u m \<longrightarrow> los_age_of u m = (if los_dead_node s m then los_age_of s m else 0))"
  proof (cases "los_live_node s n \<and> los_mark_of s n \<noteq> los_marked s")
    case True
    then have "u = large_object_space_add_to_freelist s n"
      by (simp add: u_def large_object_space_sweep_one_def los_live_node_def los_mark_of_def)
    moreover note f = add_to_freelist_wf[OF Cons.prems(1) dn disjI1, OF conjunct1[OF True]]
    moreover have "los_synchronous_release (large_object_space_add_to_freelist s n) = los_synchronous_release s"
      "los_page_size_log2 (large_object_space_add_to_freelist s n) = los_page_size_log2 s"
      "los_live_pages_at_last_collection (large_object_space_add_to_freelist s n) = los_live_pages_at_last_collection s"
      by (simp_all add: large_object_space_add_to_freelist_def Let_def)
    moreover have "los_age_of (large_object_space_add_to_freelist s n) m = (if los_dead_node s m then los_age_of s m else 0)"
      if "los_dead_node (large_object_space_add_to_freelist s n) m" for m
      using that True
      by (auto simp: large_object_space_add_to_freelist_def Let_def los_dead_node_def los_live_node_def los_age_of_def split: if_splits)
    ultimately show ?thesis using True by (auto simp: los_mark_of_def)
  next
    case False
    then have "u = s"
      using dn by (auto simp: u_def large_object_space_sweep_one_def los_live_node_def los_mark_of_def)
    then show ?thesis using False Cons.prems(1) by auto
  qed
  have deadu: "los_dead_node u m" if "los_dead_node s m" for m
    using that u by (auto simp: los_dead_node_def los_live_node_def)
  have "fold (\<lambda>(a, n). large_object_space_sweep_one a n) (x # xs) s
      = fold (\<lambda>(a, n). large_object_space_sweep_one a n) xs u" by (simp add: x u_def)
  moreover have "\<forall>(a, n) \<in> set xs. n \<in> dom (los_nodes u)" using Cons.prems(3) u by auto
  moreover have age: "los_age_of t m = (if los_dead_node s m then los_age_of s m else 0)"
    if "los_age_of t m = (if los_dead_node u m then los_age_of u m else 0)" for t :: large_object_space and m
  proof (cases "los_dead_node u m")
    case False
    then have "\<not> los_dead_node s m" using deadu by blast
    then show ?thesis using that False by simp
  qed (use that u in simp)
  ultimately have t: "fold (\<lambda>(a, n). large_object_space_sweep_one a n) (x # xs) s = fold (\<lambda>(a, n). large_object_space_sweep_one a n) xs u"
    and dom: "\<forall>(a, n) \<in> set xs. n \<in> dom (los_nodes u)" by blast+
  have "distinct (map snd xs)" "los_wf u" "n \<notin> snd ` set xs" using Cons.prems(2) x u by auto
  note IH = Cons.IH[OF \<open>los_wf u\<close> \<open>distinct (map snd xs)\<close> dom]
  define t where "t = fold (\<lambda>(a, n). large_object_space_sweep_one a n) xs u"
  note IH = IH[folded t_def]
  have "los_live_node t m \<longleftrightarrow> los_live_node s m \<and> (m \<in> snd ` set (x # xs) \<longrightarrow> los_mark_of s m = los_marked s)" for m
    using IH u x by auto
  moreover have "los_mark_of t m = los_mark_of s m" if "los_live_node t m" for m using IH u that by auto
  moreover have "los_age_of t m = (if los_dead_node s m then los_age_of s m else 0)" if "los_dead_node t m" for m
    by (rule age) (use IH that in blast)
  ultimately show ?case unfolding t t_def[symmetric] using IH u by simp
qed simp

lemma sweep_map:
  assumes wf: "los_wf s"
  defines "t \<equiv> address_map_for_each (los_object_map s) large_object_space_sweep_one s"
  shows "los_wf t" "los_key t = los_key s" "dom (los_nodes t) = dom (los_nodes s)" "los_marked t = los_marked s"
    "los_synchronous_release t = los_synchronous_release s" "los_nursery t = los_nursery s"
    "los_page_size_log2 t = los_page_size_log2 s"
    "los_live_pages_at_last_collection t = los_live_pages_at_last_collection s"
    "{n. los_live_node t n} = los_marked_nodes s" "los_marked_nodes t = los_marked_nodes s"
    "\<And>n. los_dead_node t n \<Longrightarrow> los_age_of t n = (if los_dead_node s n then los_age_of s n else 0)"
proof -
  from for_each_graph[OF los_wf_apartD(1)[OF wf]]
  obtain xs where xs: "distinct (map fst xs)" "map_of xs = address_map_abs (los_object_map s)"
    and each: "\<forall>f (s' :: large_object_space). address_map_for_each (los_object_map s) f s' = fold (\<lambda>(a, v). f a v) xs s'"
    by (elim exE conjE)
  note xs = xs each[THEN spec, THEN spec, of large_object_space_sweep_one s]
  have mem: "(a, n) \<in> set xs \<longleftrightarrow> n \<in> dom (los_nodes s) \<and> obj_addr (los_key s n) = a" for a n
    using map_of_eq_Some_iff[OF xs(1), of a n] xs(2) los_wf_apartD(7)[OF wf, of a n] by simp
  have "distinct (map snd xs)"
  proof -
    have "fst x = obj_addr (los_key s (snd x))" if "x \<in> set xs" for x
      using that mem[of "fst x" "snd x"] by simp
    then have "inj_on snd (set xs)" by (intro inj_onI prod_eqI) simp_all
    then show ?thesis using xs(1) by (simp add: distinct_map)
  qed
  moreover have "\<forall>(a, n) \<in> set xs. n \<in> dom (los_nodes s)" using mem by blast
  ultimately have r: "los_wf t \<and> los_key t = los_key s \<and> dom (los_nodes t) = dom (los_nodes s) \<and> los_marked t = los_marked s
    \<and> los_synchronous_release t = los_synchronous_release s \<and> los_nursery t = los_nursery s
    \<and> los_page_size_log2 t = los_page_size_log2 s
    \<and> los_live_pages_at_last_collection t = los_live_pages_at_last_collection s
    \<and> (\<forall>n. los_live_node t n \<longleftrightarrow> los_live_node s n \<and> (n \<in> snd ` set xs \<longrightarrow> los_mark_of s n = los_marked s))
    \<and> (\<forall>n. los_live_node t n \<longrightarrow> los_mark_of t n = los_mark_of s n)
    \<and> (\<forall>n. los_dead_node t n \<longrightarrow> los_age_of t n = (if los_dead_node s n then los_age_of s n else 0))"
    unfolding t_def xs(3) by (rule sweep_list[OF wf])
  show "los_wf t" "los_key t = los_key s" "dom (los_nodes t) = dom (los_nodes s)" "los_marked t = los_marked s"
    "los_synchronous_release t = los_synchronous_release s" "los_nursery t = los_nursery s"
    "los_page_size_log2 t = los_page_size_log2 s"
    "los_live_pages_at_last_collection t = los_live_pages_at_last_collection s"
    using r by - (elim conjE, assumption)+
  show "los_age_of t n = (if los_dead_node s n then los_age_of s n else 0)" if "los_dead_node t n" for n
    using r that by blast
  have all: "n \<in> snd ` set xs" if "los_live_node s n" for n
    by (rule image_eqI[of _ snd "(obj_addr (los_key s n), n)"]) (use that mem in \<open>simp_all add: los_live_node_def\<close>)
  have live: "los_live_node t n \<longleftrightarrow> los_live_node s n \<and> los_mark_of s n = los_marked s" for n
    using r all[of n] by blast
  then show "{n. los_live_node t n} = los_marked_nodes s" by (simp add: los_marked_nodes_def)
  have "los_mark_of t n = los_mark_of s n" if "los_live_node t n" for n using r that by blast
  then show "los_marked_nodes t = los_marked_nodes s"
    using live \<open>los_marked t = los_marked s\<close> by (auto simp: los_marked_nodes_def)
qed

lemma start_major:
  assumes "los_wf s" "los_marks_ok s" "\<not> gc_conservative_roots cfg"
  obtains t where "large_object_space_start_gc cfg s False = Inr t" "los_wf t" "los_objects t = los_objects s"
    "los_key t = los_key s" "los_live_node t = los_live_node s" "los_marked_nodes t = {}"
    "los_marked t \<in> {large_object_mark_0, large_object_mark_1}" "los_live_pages_at_last_collection t = 0"
    "los_page_size_log2 t = los_page_size_log2 s" "dom (los_nodes t) = dom (los_nodes s)"
    "los_synchronous_release t = los_synchronous_release s" "los_nodes t = los_nodes s"
proof -
  let ?t = "s\<lparr>los_marked := los_marked s XOR large_object_mark_toggle_bit, los_live_pages_at_last_collection := 0\<rparr>"
  have marks: "large_object_mark_0 = 1" "large_object_mark_1 = 3" "large_object_nursery = 0" "large_object_mark_toggle_bit = 2"
    by (simp_all add: large_object_mark_0_def large_object_mark_1_def large_object_nursery_def
        large_object_marked_bit_def large_object_mark_toggle_bit_def)
  have "large_object_space_start_gc cfg s False = Inr ?t"
    using assms(3) by (simp add: large_object_space_start_gc_def gc_has_mutator_conservative_roots_def)
  moreover have "los_marked_nodes ?t = {}"
  proof -
    have "los_mark_of ?t n = los_mark_of s n" for n by (simp add: los_mark_of_def)
    then show ?thesis using assms(2) unfolding los_marked_nodes_def los_marks_ok_def marks
      by (auto; fastforce)
  qed
  moreover have "los_marked ?t \<in> {large_object_mark_0, large_object_mark_1}"
    using assms(2) by (auto simp: los_marks_ok_def marks)
  ultimately show thesis using that[of ?t] assms(1) by simp
qed

text \<open>A space with one object of two pages.\<close>

definition los_one :: large_object_space where
  "los_one = (large_object_space_init small_config 4096 12 True)
    \<lparr> los_nodes := [8 \<mapsto> \<lparr> node_key = \<lparr> obj_addr = 0x10000, obj_size = 8192 \<rparr>,
        node_value = Live large_object_nursery Trace_precisely \<rparr>],
      los_object_tree := Node Leaf 8 Leaf,
      los_object_map := projr (address_map_add address_map_init 0x10000 8), los_total_pages := 2 \<rparr>"

lemma los_one:
  "los_wf los_one" "los_objects los_one = {\<lparr> obj_addr = 0x10000, obj_size = 8192 \<rparr>}" "los_marks_ok los_one"
  "\<not> los_synchronous_release los_one" "los_live_node los_one 8" "8 \<in> dom (los_nodes los_one)"
proof -
  have room: "address_map_room address_map_init"
    by (simp add: address_map_room_def address_map_init_def hash_map_init_def hash_map_clear_def)
  obtain m where m: "address_map_add address_map_init 0x10000 8 = Inr m" "hash_map_wf m"
    "address_map_abs m = (address_map_abs address_map_init)(0x10000 \<mapsto> 8)"
    using am.add_law[OF init_wf(1) room] by blast
  have live: "los_live_node los_one n \<longleftrightarrow> n = 8" for n
    by (auto simp: los_one_def los_live_node_def node_is_live_def)
  have dead: "\<not> los_dead_node los_one n" for n
    by (auto simp: los_one_def los_dead_node_def node_is_live_def)
  have key: "los_key los_one 8 = \<lparr> obj_addr = 0x10000, obj_size = 8192 \<rparr>"
    by (simp add: los_one_def los_key_def)
  have "quarantine_ok {} los_one"
    using dead by (auto simp: quarantine_ok_def) (auto simp: los_one_def large_object_space_init_def)
  moreover have "lo.spans (los_key los_one) (Node Leaf 8 Leaf)"
    unfolding lo.spans_def by (simp add: key span_valid_def)
  ultimately show "los_wf los_one"
    unfolding los_wf_apart_def using m init_wf set_init
    by (auto simp: los_one_def large_object_space_init_def los_key_def split: if_splits)
  have "{n. los_live_node los_one n} = {8}" using live by auto
  then show "los_objects los_one = {\<lparr> obj_addr = 0x10000, obj_size = 8192 \<rparr>}" by (simp add: los_objects_def key)
  show "los_marks_ok los_one" unfolding los_marks_ok_def live
    by (simp add: los_one_def large_object_space_init_def los_mark_of_def)
qed (simp_all add: los_one_def large_object_space_init_def los_live_node_def node_is_live_def)

section \<open>The quarantine\<close>

text \<open>What stays of the live objects while the quarantine grows older.\<close>

definition los_keeps_live :: "large_object_space \<Rightarrow> large_object_space \<Rightarrow> bool" where
  "los_keeps_live s t \<longleftrightarrow> (\<forall>m. los_live_node t m \<longrightarrow> los_nodes t m = los_nodes s m) \<and> los_marked t = los_marked s
    \<and> los_live_pages_at_last_collection t = los_live_pages_at_last_collection s"

lemma keeps_live_trans: "los_keeps_live s t \<Longrightarrow> los_keeps_live t u \<Longrightarrow> los_keeps_live s u"
  by (auto simp: los_keeps_live_def los_live_node_def dom_def)

lemma tree_remove_fields:
  "large_object_tree_remove s a = Inr t \<Longrightarrow> los_marked t = los_marked s
    \<and> los_live_pages_at_last_collection t = los_live_pages_at_last_collection s"
  by (auto simp: large_object_tree_remove_def split: option.splits)

text \<open>Between collections the dead nodes are of age 0 or 1.\<close>

definition los_ages_ok :: "large_object_space \<Rightarrow> bool" where
  "los_ages_ok s \<longleftrightarrow> (\<forall>n. los_dead_node s n \<longrightarrow> los_age_of s n \<in> {0, 1})"

lemma age_one_wf:
  assumes wf: "los_wf s" and n: "los_dead_node s n" "los_age_of s n \<in> {0, 1}"
  obtains t where "large_object_space_age_one n (s, rel) =
      Inr (t, rel @ (if los_age_of s n = 1 then [los_key s n] else []))"
    "los_wf t" "los_objects t = los_objects s"
    "\<forall>m. los_dead_node t m \<longleftrightarrow> los_dead_node s m \<and> (m = n \<longrightarrow> los_age_of s n = 0)"
    "\<forall>m. los_dead_node t m \<longrightarrow> los_age_of t m = (if m = n then 1 else los_age_of s m) \<and> los_key t m = los_key s m"
    "los_quarantine t = (if los_age_of s n = 1 then map (remove1 n) (los_quarantine s) else los_quarantine s)"
    "los_keeps_live s t"
proof -
  have dn: "n \<in> dom (los_nodes s)" "\<not> node_is_live (los_node s n)" using n(1) by (simp_all add: los_dead_node_def)
  let ?node = "(los_node s n)\<lparr>node_value := Dead (los_age_of s n + 1)\<rparr>"
  define u where "u = los_set_node n ?node s"
  have "node_key ?node = los_key s n" "node_is_live ?node = node_is_live (los_node s n)"
    using dn(2) by (simp_all add: los_key_def node_is_live_def)
  note set = set_value_wf[OF wf dn(1) this, folded u_def]
  have dead: "los_dead_node u = los_dead_node s" using dn by (auto simp: u_def los_dead_node_def node_is_live_def fun_eq_iff)
  have age: "los_age_of u m = (if m = n then los_age_of s n + 1 else los_age_of s m)" for m
    by (simp add: u_def los_age_of_def)
  have q: "los_quarantine u = los_quarantine s" by (simp add: u_def)
  have step: "large_object_space_age_one n (s, rel) =
     (if los_age_of s n + 1 < 2 then Inr (u, rel)
      else result_bind (large_object_space_remove_from_freelist u n) (\<lambda>s.
       result_bind (address_map_remove (los_object_map s) (obj_addr (los_key u n))) (\<lambda>m.
       result_bind (large_object_tree_remove (s\<lparr>los_object_map := m\<rparr>) (obj_addr (los_key u n))) (\<lambda>s.
       Inr (s, rel @ [los_key u n])))))"
    using dn(2) by (simp add: large_object_space_age_one_def Let_def u_def los_age_of_def los_key_def)
  show thesis
  proof (cases "los_age_of s n = 1")
    case False
    then have "los_age_of s n = 0" using n(2) by simp
    moreover have "los_keeps_live s u"
      using dn by (auto simp: los_keeps_live_def u_def los_live_node_def node_is_live_def)
    ultimately show thesis using that[of u] step set dead age q by simp
  next
    case True
    have "los_dead_node u n" using n(1) dead by simp
    then obtain v where v: "large_object_space_remove_from_freelist u n = Inr v" "los_wf_apart {n} v"
      "v = u\<lparr>los_quarantine := los_quarantine v\<rparr>" "los_quarantine v = map (remove1 n) (los_quarantine u)"
      by (rule remove_from_freelist_wf[OF set(1)]) auto
    have vn: "los_nodes v = los_nodes u" "los_object_map v = los_object_map u" by (subst v(3), simp)+
    have keyv: "los_key v = los_key u" by (simp add: los_key_def vn fun_eq_iff)
    have deadv: "los_dead_node v = los_dead_node u" by (simp add: los_dead_node_def vn fun_eq_iff)
    have objv: "los_objects v = los_objects u" by (simp add: los_objects_def los_live_node_def keyv vn)
    have "los_dead_node v n" using deadv dead n(1) by simp
    then obtain m t where t: "address_map_remove (los_object_map v) (obj_addr (los_key v n)) = Inr m"
      "large_object_tree_remove (v\<lparr>los_object_map := m\<rparr>) (obj_addr (los_key v n)) = Inr t"
      "los_wf_apart {} t" "los_nodes t = (los_nodes v)(n := None)" "los_quarantine t = los_quarantine v"
      "los_objects t = los_objects v"
      by (rule remove_node_wf[OF v(2)]) auto
    have "large_object_space_age_one n (s, rel) = Inr (t, rel @ [los_key s n])"
      using step True v(1) t(1,2) keyv set(3) by simp
    moreover have "los_dead_node t k \<longleftrightarrow> los_dead_node s k \<and> k \<noteq> n" for k
    proof -
      have "los_dead_node t k \<longleftrightarrow> los_dead_node v k \<and> k \<noteq> n"
        by (auto simp: los_dead_node_def t(4) split: if_splits)
      then show ?thesis using deadv dead by simp
    qed
    moreover have "los_age_of t k = los_age_of s k" "los_key t k = los_key s k" if "k \<noteq> n" for k
    proof -
      have "los_node t k = los_node u k" using that by (simp add: t(4) vn)
      then show "los_age_of t k = los_age_of s k" "los_key t k = los_key s k"
        using that age[of k] set(3) by (simp_all add: los_age_of_def los_key_def fun_eq_iff)
    qed
    moreover have "los_keeps_live s t"
    proof -
      have "los_marked v = los_marked u" "los_live_pages_at_last_collection v = los_live_pages_at_last_collection u"
        by (subst v(3), simp)+
      then show ?thesis using tree_remove_fields[OF t(2)] dn
        by (auto simp: los_keeps_live_def u_def los_live_node_def node_is_live_def t(4) vn split: if_splits)
    qed
    ultimately show thesis using that[of t] t(3,5,6) objv set(2) v(4) q True by auto
  qed
qed

text \<open>A list of distinct dead nodes, none of them visited before.\<close>

lemma age_list_wf:
  assumes "los_wf s" "distinct ns" "\<forall>n \<in> set ns. los_dead_node s n \<and> los_age_of s n \<in> {0, 1}"
  shows "\<exists>t. result_fold large_object_space_age_one ns (s, rel) =
      Inr (t, rel @ map (los_key s) (filter (\<lambda>n. los_age_of s n = 1) ns))
    \<and> los_wf t \<and> los_objects t = los_objects s
    \<and> (\<forall>m. los_dead_node t m \<longleftrightarrow> los_dead_node s m \<and> (m \<in> set ns \<longrightarrow> los_age_of s m = 0))
    \<and> (\<forall>m. los_dead_node t m \<longrightarrow> los_age_of t m = (if m \<in> set ns then 1 else los_age_of s m) \<and> los_key t m = los_key s m)
    \<and> (\<forall>i < length (los_quarantine s). set ns \<inter> set (los_quarantine s ! i) = {} \<longrightarrow> los_quarantine t ! i = los_quarantine s ! i)
    \<and> los_keeps_live s t"
  using assms
proof (induction ns arbitrary: s rel)
  case (Cons n ns)
  have n: "los_dead_node s n" "los_age_of s n \<in> {0, 1}" using Cons.prems(3) by auto
  obtain u where u: "large_object_space_age_one n (s, rel) =
      Inr (u, rel @ (if los_age_of s n = 1 then [los_key s n] else []))"
    "los_wf u" "los_objects u = los_objects s"
    "\<forall>m. los_dead_node u m \<longleftrightarrow> los_dead_node s m \<and> (m = n \<longrightarrow> los_age_of s n = 0)"
    "\<forall>m. los_dead_node u m \<longrightarrow> los_age_of u m = (if m = n then 1 else los_age_of s m) \<and> los_key u m = los_key s m"
    "los_quarantine u = (if los_age_of s n = 1 then map (remove1 n) (los_quarantine s) else los_quarantine s)"
    "los_keeps_live s u"
    by (rule age_one_wf[OF Cons.prems(1) n])
  have ns: "los_dead_node u m \<and> los_age_of u m = los_age_of s m \<and> los_key u m = los_key s m" if "m \<in> set ns" for m
    using that u(4,5) Cons.prems(2,3) by auto
  then have "\<forall>m \<in> set ns. los_dead_node u m \<and> los_age_of u m \<in> {0, 1}" using Cons.prems(3) by simp
  from Cons.IH[OF u(2) _ this, of "rel @ (if los_age_of s n = 1 then [los_key s n] else [])"] Cons.prems(2)
  obtain t where t: "result_fold large_object_space_age_one ns (u, rel @ (if los_age_of s n = 1 then [los_key s n] else [])) =
      Inr (t, (rel @ (if los_age_of s n = 1 then [los_key s n] else [])) @ map (los_key u) (filter (\<lambda>n. los_age_of u n = 1) ns))"
    "los_wf t" "los_objects t = los_objects u"
    "\<forall>m. los_dead_node t m \<longleftrightarrow> los_dead_node u m \<and> (m \<in> set ns \<longrightarrow> los_age_of u m = 0)"
    "\<forall>m. los_dead_node t m \<longrightarrow> los_age_of t m = (if m \<in> set ns then 1 else los_age_of u m) \<and> los_key t m = los_key u m"
    "\<forall>i < length (los_quarantine u). set ns \<inter> set (los_quarantine u ! i) = {} \<longrightarrow> los_quarantine t ! i = los_quarantine u ! i"
    "los_keeps_live u t"
    by auto
  have "filter (\<lambda>n. los_age_of u n = 1) ns = filter (\<lambda>n. los_age_of s n = 1) ns"
    by (rule filter_cong) (use ns in auto)
  moreover have "map (los_key u) (filter (\<lambda>n. los_age_of s n = 1) ns) = map (los_key s) (filter (\<lambda>n. los_age_of s n = 1) ns)"
    by (rule map_cong) (use ns in auto)
  ultimately have res: "result_fold large_object_space_age_one (n # ns) (s, rel) =
      Inr (t, rel @ map (los_key s) (filter (\<lambda>n. los_age_of s n = 1) (n # ns)))"
    using u(1) t(1) by simp
  have dead: "los_dead_node t m \<longleftrightarrow> los_dead_node s m \<and> (m \<in> set (n # ns) \<longrightarrow> los_age_of s m = 0)" for m
    using t(4)[rule_format, of m] u(4)[rule_format, of m] ns[of m] Cons.prems(2) by (cases "m \<in> set ns"; cases "m = n") auto
  have age: "los_age_of t m = (if m \<in> set (n # ns) then 1 else los_age_of s m) \<and> los_key t m = los_key s m"
    if "los_dead_node t m" for m
    using t(5)[rule_format, OF that] t(4)[rule_format, of m] u(5)[rule_format, of m] that by (cases "m \<in> set ns") auto
  have quar: "los_quarantine t ! i = los_quarantine s ! i"
    if i: "i < length (los_quarantine s)" "set (n # ns) \<inter> set (los_quarantine s ! i) = {}" for i
  proof -
    have "los_quarantine u ! i = los_quarantine s ! i" using u(6) i by (simp add: remove1_idem)
    then show ?thesis using t(6)[rule_format, of i] u(6) i by (auto split: if_splits)
  qed
  show ?case using res t(2,3) u(3) dead age quar keeps_live_trans[OF u(7) t(7)] by (intro exI[of _ t] conjI allI impI) simp_all
qed (simp add: los_keeps_live_def)

definition los_class :: "large_object_space \<Rightarrow> u64 \<Rightarrow> nat" where
  "los_class s n = large_object_freelist_size_class (obj_size (los_key s n))"

definition los_aged :: "large_object_space \<Rightarrow> nat \<Rightarrow> large_object_space \<times> large_object list \<Rightarrow> bool" where
  "los_aged s k st \<longleftrightarrow> (let (t, rel) = st in los_wf t \<and> los_objects t = los_objects s
    \<and> (\<forall>m. los_dead_node t m \<longleftrightarrow> los_dead_node s m \<and> (los_class s m < k \<longrightarrow> los_age_of s m = 0))
    \<and> (\<forall>m. los_dead_node t m \<longrightarrow> los_age_of t m = (if los_class s m < k then 1 else los_age_of s m) \<and> los_key t m = los_key s m)
    \<and> (\<forall>i. k \<le> i \<longrightarrow> i < large_object_freelist_num_size_classes \<longrightarrow> los_quarantine t ! i = los_quarantine s ! i)
    \<and> distinct rel \<and> set rel = los_key s ` {m. los_dead_node s m \<and> los_age_of s m = 1 \<and> los_class s m < k}
    \<and> los_keeps_live s t)"

lemma bucket_iff:
  assumes "los_wf s" "i < large_object_freelist_num_size_classes"
  shows "n \<in> set (los_quarantine s ! i) \<longleftrightarrow> los_dead_node s n \<and> los_class s n = i"
    "distinct (los_quarantine s ! i)" "length (los_quarantine s) = large_object_freelist_num_size_classes"
  using los_wf_apartD(8)[OF assms(1)] assms(2) by (simp_all add: quarantine_ok_def los_class_def)

lemma aged_step:
  assumes wf: "los_wf s" and ages: "los_ages_ok s" and k: "k < large_object_freelist_num_size_classes"
    and I: "los_aged s k (t, rel)"
  shows "\<exists>st. result_fold large_object_space_age_one (los_quarantine t ! k) (t, rel) = Inr st \<and> los_aged s (Suc k) st"
proof -
  note t = I[unfolded los_aged_def Let_def prod.case]
  let ?ns = "los_quarantine s ! k"
  have bucket: "n \<in> set ?ns \<longleftrightarrow> los_dead_node s n \<and> los_class s n = k" for n by (rule bucket_iff(1)[OF wf k])
  have ns: "los_quarantine t ! k = ?ns" using t k by blast
  have mem: "los_dead_node t n \<and> los_age_of t n = los_age_of s n \<and> los_key t n = los_key s n" if "n \<in> set ?ns" for n
  proof -
    have "los_dead_node t n" using t that bucket[of n] by simp
    then show ?thesis using t that bucket[of n] by simp
  qed
  have "\<forall>n \<in> set ?ns. los_dead_node t n \<and> los_age_of t n \<in> {0, 1}"
  proof
    fix n assume n: "n \<in> set ?ns"
    then have "los_age_of s n \<in> {0, 1}" using ages bucket by (simp add: los_ages_ok_def)
    then show "los_dead_node t n \<and> los_age_of t n \<in> {0, 1}" using mem[OF n] by simp
  qed
  from age_list_wf[OF _ bucket_iff(2)[OF wf k] this, of rel] t
  obtain u where u: "result_fold large_object_space_age_one ?ns (t, rel) =
      Inr (u, rel @ map (los_key t) (filter (\<lambda>n. los_age_of t n = 1) ?ns))"
    "los_wf u" "los_objects u = los_objects t"
    "\<forall>m. los_dead_node u m \<longleftrightarrow> los_dead_node t m \<and> (m \<in> set ?ns \<longrightarrow> los_age_of t m = 0)"
    "\<forall>m. los_dead_node u m \<longrightarrow> los_age_of u m = (if m \<in> set ?ns then 1 else los_age_of t m) \<and> los_key u m = los_key t m"
    "\<forall>i < length (los_quarantine t). set ?ns \<inter> set (los_quarantine t ! i) = {} \<longrightarrow> los_quarantine u ! i = los_quarantine t ! i"
    "los_keeps_live t u"
    by auto
  have live: "los_keeps_live s u" using keeps_live_trans[OF _ u(7)] t by blast
  let ?new = "map (los_key s) (filter (\<lambda>n. los_age_of s n = 1) ?ns)"
  have "filter (\<lambda>n. los_age_of t n = 1) ?ns = filter (\<lambda>n. los_age_of s n = 1) ?ns"
    by (rule filter_cong) (use mem in auto)
  moreover have "map (los_key t) (filter (\<lambda>n. los_age_of s n = 1) ?ns) = ?new"
    by (rule map_cong) (use mem in auto)
  ultimately have new: "map (los_key t) (filter (\<lambda>n. los_age_of t n = 1) ?ns) = ?new" by simp
  have dead: "los_dead_node u m \<longleftrightarrow> los_dead_node s m \<and> (los_class s m < Suc k \<longrightarrow> los_age_of s m = 0)" for m
  proof (cases "m \<in> set ?ns")
    case True
    then show ?thesis using u(4)[rule_format, of m] mem[OF True] bucket[of m] by simp
  next
    case False
    then have "los_dead_node u m \<longleftrightarrow> los_dead_node t m" using u(4) by simp
    also have "\<dots> \<longleftrightarrow> los_dead_node s m \<and> (los_class s m < k \<longrightarrow> los_age_of s m = 0)" using t by blast
    also have "\<dots> \<longleftrightarrow> los_dead_node s m \<and> (los_class s m < Suc k \<longrightarrow> los_age_of s m = 0)"
      using False bucket[of m] by (auto simp: less_Suc_eq)
    finally show ?thesis .
  qed
  have age: "los_age_of u m = (if los_class s m < Suc k then 1 else los_age_of s m) \<and> los_key u m = los_key s m"
    if "los_dead_node u m" for m
  proof -
    have "los_dead_node t m" using u(4) that by blast
    then have tm: "los_age_of t m = (if los_class s m < k then 1 else los_age_of s m)" "los_key t m = los_key s m"
      using t by blast+
    have "los_dead_node s m" using dead[of m] that by blast
    then have "m \<in> set ?ns \<longleftrightarrow> los_class s m = k" using bucket by simp
    then show ?thesis using u(5)[rule_format, OF that] tm by (auto simp: less_Suc_eq)
  qed
  have quar: "los_quarantine u ! i = los_quarantine s ! i"
    if i: "Suc k \<le> i" "i < large_object_freelist_num_size_classes" for i
  proof -
    have ti: "los_quarantine t ! i = los_quarantine s ! i" using t i by simp
    have "set ?ns \<inter> set (los_quarantine s ! i) = {}" using bucket bucket_iff(1)[OF wf i(2)] i(1) by auto
    moreover have "length (los_quarantine t) = large_object_freelist_num_size_classes"
      using t bucket_iff(3)[OF _ i(2)] by blast
    ultimately show ?thesis using u(6) ti i by simp
  qed
  let ?D = "{m. los_dead_node s m \<and> los_age_of s m = 1 \<and> los_class s m < k}"
  let ?E = "{m. los_dead_node s m \<and> los_age_of s m = 1 \<and> los_class s m = k}"
  have inj: "inj_on (los_key s) (dom (los_nodes s))" by (rule key_inj[OF wf])
  have set_new: "set ?new = los_key s ` ?E" using bucket by auto
  have sub: "?D \<subseteq> dom (los_nodes s)" "?E \<subseteq> dom (los_nodes s)" by (auto simp: los_dead_node_def)
  have "los_key s ` ?D \<inter> los_key s ` ?E = {}" using inj_on_image_Int[OF inj sub] by auto
  moreover have "distinct ?new"
    using bucket_iff(2)[OF wf k] sub(2) bucket inj_on_subset[OF inj]
    by (auto simp: distinct_map los_dead_node_def intro!: inj_on_subset[OF inj])
  ultimately have "distinct (rel @ ?new)" using t set_new by auto
  moreover have "set (rel @ ?new) = los_key s ` {m. los_dead_node s m \<and> los_age_of s m = 1 \<and> los_class s m < Suc k}"
    unfolding set_append set_new using t by (auto simp: less_Suc_eq)
  ultimately have "los_aged s (Suc k) (u, rel @ ?new)"
    unfolding los_aged_def Let_def prod.case using u(2,3) t dead age quar live by (intro conjI allI impI) simp_all
  then show ?thesis unfolding ns using u(1) new by auto
qed

lemma process_quarantine_wf:
  assumes "los_wf s" "los_ages_ok s"
  shows "\<exists>t rel. large_object_space_process_quarantine s = Inr (t, rel) \<and> los_wf t \<and> los_ages_ok t
    \<and> los_objects t = los_objects s \<and> distinct rel
    \<and> set rel = los_key s ` {n. los_dead_node s n \<and> los_age_of s n = 1}
    \<and> los_spans t = los_spans s - set rel \<and> los_objects s \<inter> set rel = {} \<and> los_keeps_live s t"
proof -
  have "\<exists>st. result_fold (\<lambda>idx st. result_fold large_object_space_age_one (los_quarantine (fst st) ! idx) st)
      [0..<large_object_freelist_num_size_classes] (s, []) = Inr st
    \<and> los_aged s (length [0..<large_object_freelist_num_size_classes]) st"
  proof (rule result_fold_invariant[where I = "\<lambda>is. los_aged s (length is)"])
    show "los_aged s (length []) (s, [])" using assms(1) by (simp add: los_aged_def los_keeps_live_def)
    fix "is" i js st
    assume l: "[0..<large_object_freelist_num_size_classes] = is @ i # js" and I: "los_aged s (length is) st"
    have "i = length is" "length is < large_object_freelist_num_size_classes"
      using arg_cong[OF l, of "\<lambda>l. l ! length is"] arg_cong[OF l, of length] by simp_all
    then show "\<exists>st'. result_fold large_object_space_age_one (los_quarantine (fst st) ! i) st = Inr st'
        \<and> los_aged s (length (is @ [i])) st'"
      using aged_step[OF assms, of "length is" "fst st" "snd st"] I by simp
  qed
  then obtain t rel where r: "large_object_space_process_quarantine s = Inr (t, rel)"
    "los_aged s large_object_freelist_num_size_classes (t, rel)"
    by (auto simp: large_object_space_process_quarantine_def)
  have less: "los_class s m < large_object_freelist_num_size_classes" for m by (simp add: los_class_def size_class_less)
  note t = r(2)[unfolded los_aged_def Let_def prod.case, simplified less simp_thms]
  have rel: "set rel = los_key s ` {n. los_dead_node s n \<and> los_age_of s n = 1}" using t by simp
  have "los_ages_ok t" using t by (simp add: los_ages_ok_def)
  have split: "los_spans u = los_objects u \<union> los_key u ` {n. los_dead_node u n}" for u
    by (auto simp: los_spans_def los_objects_def los_live_node_def los_dead_node_def)
  have inj: "inj_on (los_key s) (dom (los_nodes s))" by (rule key_inj[OF assms(1)])
  have disj: "los_objects s \<inter> los_key s ` {n. los_dead_node s n} = {}"
    using inj by (auto simp: los_objects_def los_live_node_def los_dead_node_def inj_on_def)
  have "los_key t ` {n. los_dead_node t n} = los_key s ` {n. los_dead_node s n \<and> los_age_of s n = 0}"
    by (rule image_cong) (use t in auto)
  also have "\<dots> = los_key s ` {n. los_dead_node s n} - set rel"
  proof -
    have ages: "{n. los_dead_node s n \<and> los_age_of s n = 0}
        = {n. los_dead_node s n} - {n. los_dead_node s n \<and> los_age_of s n = 1}"
      using assms(2) by (auto simp: los_ages_ok_def)
    have "inj_on (los_key s) {n. los_dead_node s n}"
      by (rule inj_on_subset[OF inj]) (auto simp: los_dead_node_def)
    then show ?thesis unfolding ages rel by (subst inj_on_image_set_diff) auto
  qed
  finally have dead: "los_key t ` {n. los_dead_node t n} = los_key s ` {n. los_dead_node s n} - set rel" .
  have apart: "los_objects s \<inter> set rel = {}" unfolding rel using disj by auto
  have "los_objects t = los_objects s" using t by blast
  then have "los_spans t = los_spans s - set rel"
    unfolding split dead using apart by blast
  moreover note apart
  ultimately show ?thesis using r(1) t rel \<open>los_ages_ok t\<close> by simp
qed

text \<open>C29: A turn of the quarantine never fails and touches no live object: the dead spans that were
  there for the turn before are given back to the system, each once, and leave the space; the other
  dead spans stay for the next turn.\<close>

theorem large_object_space_quarantine_correct:
  assumes "los_wf s" "los_ages_ok s"
  shows "\<exists>t rel. large_object_space_process_quarantine s = Inr (t, rel) \<and> los_wf t \<and> los_ages_ok t
    \<and> los_objects t = los_objects s \<and> distinct rel
    \<and> set rel = los_key s ` {n. los_dead_node s n \<and> los_age_of s n = 1}
    \<and> los_spans t = los_spans s - set rel \<and> los_objects s \<inter> set rel = {}"
  using process_quarantine_wf[OF assms] by blast

definition los_quarantined :: large_object_space where
  "los_quarantined = large_object_space_add_to_freelist los_one 8"

theorem large_object_space_quarantine_correct_witness:
  "\<exists>t rel. large_object_space_process_quarantine los_quarantined = Inr (t, rel) \<and> los_wf t \<and> rel = []
    \<and> los_spans t = {\<lparr> obj_addr = 0x10000, obj_size = 8192 \<rparr>}"
proof -
  note f = add_to_freelist_wf[OF los_one(1,6) disjI1, OF los_one(5), folded los_quarantined_def]
  have dom: "dom (los_nodes los_one) = {8}" by (auto simp: los_one_def)
  have age: "los_age_of los_quarantined n = 0" if "los_dead_node los_quarantined n" for n
    using that f(3,6) dom by (auto simp: los_dead_node_def los_age_of_def)
  then have "los_ages_ok los_quarantined" by (simp add: los_ages_ok_def)
  moreover have "los_key los_one 8 = \<lparr> obj_addr = 0x10000, obj_size = 8192 \<rparr>" by (simp add: los_one_def los_key_def)
  then have "los_spans los_quarantined = {\<lparr> obj_addr = 0x10000, obj_size = 8192 \<rparr>}"
    using f(2,3) dom by (simp add: los_spans_def)
  moreover have "los_wf los_quarantined" using f(1) by simp
  moreover have none: "{n. los_dead_node los_quarantined n \<and> los_age_of los_quarantined n = 1} = {}"
    using age by auto
  ultimately show ?thesis
    using large_object_space_quarantine_correct[of los_quarantined] by (auto simp: none)
qed

subsection \<open>A whole collection\<close>

text \<open>C18: A major collection, with precise roots, which marks the live objects at the addresses
  \<open>refs\<close> and no others, leaves exactly those objects live; the marks are then as the next collection
  needs them, and the count of live pages is the sum of the pages of the live objects. Every other span
  stays in the quarantine if it is the background thread that takes turns of it; in a space that releases
  memory synchronously the collection ends with a turn, which gives back the dead spans that were there
  for a turn before, each once, and no others.\<close>

theorem large_object_space_major_gc:
  assumes "los_wf s" "los_marks_ok s" "\<not> gc_conservative_roots cfg" "los_synchronous_release s \<Longrightarrow> los_ages_ok s"
    and "set refs \<subseteq> obj_addr ` los_objects s"
  shows "\<exists>s1 s2 t rel. large_object_space_start_gc cfg s False = Inr s1 \<and> los_mark_all s1 refs = Inr s2
    \<and> large_object_space_finish_gc cfg s2 False = Inr (t, rel) \<and> los_wf t \<and> los_marks_ok t
    \<and> los_objects t = {o1 \<in> los_objects s. obj_addr o1 \<in> set refs}
    \<and> los_live_pages_at_last_collection t = (\<Sum>o1 \<in> los_objects t. los_pages_of s o1)
    \<and> los_spans t = los_spans s - set rel \<and> distinct rel
    \<and> set rel = (if los_synchronous_release s then los_key s ` {n. los_dead_node s n \<and> los_age_of s n = 1} else {})"
proof -
  obtain s1 where s1: "large_object_space_start_gc cfg s False = Inr s1" "los_wf s1" "los_objects s1 = los_objects s"
    "los_key s1 = los_key s" "los_live_node s1 = los_live_node s" "los_marked_nodes s1 = {}"
    "los_marked s1 \<in> {large_object_mark_0, large_object_mark_1}" "los_live_pages_at_last_collection s1 = 0"
    "los_page_size_log2 s1 = los_page_size_log2 s" "dom (los_nodes s1) = dom (los_nodes s)"
    "los_synchronous_release s1 = los_synchronous_release s" "los_nodes s1 = los_nodes s"
    by (rule start_major[OF assms(1,2,3)])
  obtain s2 where s2: "los_mark_all s1 refs = Inr s2" "los_wf s2" "los_same s1 s2"
    "los_marked_nodes s2 = los_marked_nodes s1 \<union> {n. los_live_node s1 n \<and> obj_addr (los_key s1 n) \<in> set refs}"
    "los_live_pages_at_last_collection s2 = los_live_pages_at_last_collection s1
      + (\<Sum>n \<in> los_marked_nodes s2 - los_marked_nodes s1. los_pages_of s1 (los_key s1 n))"
    by (rule mark_all_wf[OF s1(2)]) (use assms(5) s1(3) in auto)
  define s3 where "s3 = address_map_for_each (los_object_map s2) large_object_space_sweep_one s2"
  note s3 = sweep_map[OF s2(2), folded s3_def]
  let ?M = "{n. los_live_node s n \<and> obj_addr (los_key s n) \<in> set refs}"
  have M: "los_marked_nodes s2 = ?M" using s2(4) s1(4,5,6) by simp
  have key: "los_key s3 = los_key s" using s3(2) s2(3) s1(4) by (simp add: los_same_def)
  have live: "{n. los_live_node s3 n} = ?M" using s3(9) M by simp
  define s4 where "s4 = (if gc_generational cfg then s3\<lparr>los_nursery := address_map_clear (los_nursery s3)\<rparr> else s3)"
  have s4: "large_object_space_sweep cfg s2 False = s4"
    by (simp add: s4_def large_object_space_sweep_def s3_def Let_def)
  have wf4: "los_wf s4"
    using s3(1) los_wf_nursery[OF s3(1) clear_wf(1)[OF los_wf_apartD(2)[OF s3(1)]]] by (simp add: s4_def address_map_clear_def)
  have s4f: "los_key s4 = los_key s" "los_live_node s4 = los_live_node s3" "los_marked s4 = los_marked s1"
    "los_live_pages_at_last_collection s4 = los_live_pages_at_last_collection s2"
    "los_mark_of s4 = los_mark_of s3" "dom (los_nodes s4) = dom (los_nodes s)" "los_synchronous_release s4 = los_synchronous_release s"
    "los_page_size_log2 s4 = los_page_size_log2 s"
    using key s3 s2(3) s1(9,10,11) by (auto simp: s4_def los_same_def los_mark_of_def fun_eq_iff)
  let ?t = "s4\<lparr>los_pages_freed_by_last_collection :=
        los_total_pages s4 - los_live_pages_at_last_collection s4 - los_free_pages s4,
      los_free_pages := los_total_pages s4 - los_live_pages_at_last_collection s4\<rparr>"
  have fin: "large_object_space_finish_gc cfg s2 False =
      (if los_synchronous_release s then large_object_space_process_quarantine ?t else Inr (?t, []))"
    using assms(3) s4 s4f(7)
    by (simp add: large_object_space_finish_gc_def gc_has_mutator_conservative_roots_def Let_def)
  have "los_objects ?t = los_objects s4" by simp
  also have "\<dots> = {o1 \<in> los_objects s. obj_addr o1 \<in> set refs}"
    unfolding los_objects_def s4f(1,2) live by auto
  finally have objs: "los_objects ?t = {o1 \<in> los_objects s. obj_addr o1 \<in> set refs}" .
  have "los_mark_of s3 n = los_marked s1" if "los_live_node s3 n" for n
    using that s3(4,9,10) s2(3) by (auto simp: los_marked_nodes_def los_same_def)
  then have marks: "los_marks_ok ?t"
    using s1(7) s4f(2,3,5) by (simp add: los_marks_ok_def)
  have spans: "los_spans ?t = los_spans s" using s4f(1,6) by (simp add: los_spans_def)
  have pages: "los_live_pages_at_last_collection ?t = (\<Sum>o1 \<in> los_objects ?t. los_pages_of s o1)"
  proof -
    have "inj_on (los_key s) ?M"
      using key_inj[OF assms(1)] by (rule inj_on_subset) (auto simp: los_live_node_def)
    then have "(\<Sum>o1 \<in> los_key s ` ?M. los_pages_of s o1) = (\<Sum>n \<in> ?M. los_pages_of s (los_key s n))"
      by (simp add: sum.reindex)
    moreover have "los_pages_of s1 = los_pages_of s" using s1(9) by (simp add: los_pages_of_def fun_eq_iff)
    ultimately show ?thesis using s2(5) s1(4,6,8) M s4f(1,2,4) live
      by (simp add: los_objects_def)
  qed
  show ?thesis
  proof (cases "los_synchronous_release s")
    case False
    then show ?thesis using s1(1) s2(1) fin wf4 marks objs spans pages by fastforce
  next
    case True
    have old: "los_dead_node ?t n \<and> los_age_of ?t n = los_age_of s n" if "los_dead_node s n" for n
    proof -
      have "los_dead_node s2 n" "los_age_of s2 n = los_age_of s n"
        using that s2(3) s1(12) by (auto simp: los_same_def los_dead_node_def los_age_of_def)
      moreover have "\<not> los_live_node s3 n" using that live by (auto simp: los_dead_node_def los_live_node_def)
      then have "los_dead_node s3 n" using that s4f(6) by (auto simp: los_dead_node_def los_live_node_def s4_def split: if_splits)
      ultimately show ?thesis using s3(11)[of n] by (simp add: s4_def los_dead_node_def los_age_of_def)
    qed
    have age: "los_age_of ?t n = (if los_dead_node s n then los_age_of s n else 0)" if "los_dead_node ?t n" for n
    proof (cases "los_dead_node s n")
      case False
      then have "\<not> los_dead_node s2 n" using that s2(3) s1(5,10) s4f(6) by (simp add: los_same_def dead_node_iff)
      moreover have "los_dead_node s3 n" using that by (simp add: s4_def los_dead_node_def split: if_splits)
      ultimately show ?thesis using s3(11)[of n] False by (simp add: s4_def los_age_of_def)
    qed (use old in simp)
    have "los_ages_ok ?t" using age assms(4) True by (auto simp: los_ages_ok_def)
    moreover have "los_wf ?t" using wf4 by simp
    ultimately obtain t rel where t: "large_object_space_process_quarantine ?t = Inr (t, rel)" "los_wf t"
      "los_objects t = los_objects ?t" "distinct rel" "set rel = los_key ?t ` {n. los_dead_node ?t n \<and> los_age_of ?t n = 1}"
      "los_spans t = los_spans ?t - set rel" "los_keeps_live ?t t"
      using process_quarantine_wf[of ?t] by blast
    have "{n. los_dead_node ?t n \<and> los_age_of ?t n = 1} = {n. los_dead_node s n \<and> los_age_of s n = 1}"
      by (rule Collect_cong) (metis old age zero_neq_one)
    then have rel: "set rel = los_key s ` {n. los_dead_node s n \<and> los_age_of s n = 1}" using t(5) s4f(1) by simp
    have "los_marks_ok t"
      unfolding los_marks_ok_def
    proof (intro conjI allI impI)
      show "los_marked t \<in> {large_object_mark_0, large_object_mark_1}" using marks t(7) by (simp add: los_marks_ok_def los_keeps_live_def)
      fix n assume n: "los_live_node t n"
      then have "los_nodes t n = los_nodes ?t n" using t(7) by (simp add: los_keeps_live_def)
      then have "los_live_node ?t n" "los_mark_of t n = los_mark_of ?t n" using n by (simp_all add: los_live_node_def los_mark_of_def domIff)
      then show "los_mark_of t n \<in> {large_object_nursery, los_marked t}" using marks t(7) by (simp add: los_marks_ok_def los_keeps_live_def)
    qed
    moreover have "los_live_pages_at_last_collection t = (\<Sum>o1 \<in> los_objects t. los_pages_of s o1)"
      using pages t(3,7) by (simp add: los_keeps_live_def)
    ultimately have "large_object_space_finish_gc cfg s2 False = Inr (t, rel) \<and> los_wf t \<and> los_marks_ok t
      \<and> los_objects t = {o1 \<in> los_objects s. obj_addr o1 \<in> set refs}
      \<and> los_live_pages_at_last_collection t = (\<Sum>o1 \<in> los_objects t. los_pages_of s o1)
      \<and> los_spans t = los_spans s - set rel \<and> distinct rel
      \<and> set rel = (if los_synchronous_release s then los_key s ` {n. los_dead_node s n \<and> los_age_of s n = 1} else {})"
      using fin True t(1,2,4) t(3)[unfolded objs] t(6)[unfolded spans] rel by simp
    then show ?thesis using s1(1) s2(1) by blast
  qed
qed

theorem large_object_space_major_gc_witness:
  "\<exists>s1 s2 t. large_object_space_start_gc small_config los_one False = Inr s1
    \<and> los_mark_all s1 [0x10000, 0x10000] = Inr s2
    \<and> large_object_space_finish_gc small_config s2 False = Inr (t, []) \<and> los_wf t
    \<and> los_objects t = {\<lparr> obj_addr = 0x10000, obj_size = 8192 \<rparr>}"
proof -
  have cfg: "\<not> gc_conservative_roots small_config" by (simp add: small_config_def)
  have refs: "set [0x10000, 0x10000] \<subseteq> obj_addr ` los_objects los_one" by (simp add: los_one(2))
  have objs: "{o1 \<in> los_objects los_one. obj_addr o1 \<in> set [0x10000, 0x10000]} = {\<lparr> obj_addr = 0x10000, obj_size = 8192 \<rparr>}"
    unfolding los_one(2) by auto
  have sync: "los_ages_ok los_one"
    by (auto simp: los_ages_ok_def los_dead_node_def los_one_def node_is_live_def split: if_splits)
  have none: "set rel = (if los_synchronous_release los_one then X else {}) \<Longrightarrow> rel = []" for rel and X :: "large_object set"
    using los_one(4) by simp
  note major = large_object_space_major_gc[of los_one small_config "[0x10000, 0x10000]", unfolded objs, OF los_one(1,3) cfg sync refs]
  obtain s1 s2 t rel where "large_object_space_start_gc small_config los_one False = Inr s1"
    "los_mark_all s1 [0x10000, 0x10000] = Inr s2" "large_object_space_finish_gc small_config s2 False = Inr (t, rel)" "los_wf t"
    "los_objects t = {\<lparr> obj_addr = 0x10000, obj_size = 8192 \<rparr>}" "rel = []"
    using major none by (elim exE conjE) blast
  then show ?thesis by blast
qed

section \<open>Interior pointers\<close>

text \<open>C30: Outside a collection, an address resolves, as a possibly interior reference, to the address
  of the live object whose span it lies in, and to null when it lies in no live object; the look-up
  changes the shape of the tree only.\<close>

theorem large_object_space_resolve_correct:
  assumes "los_wf s" "ext_size (los_extents s) = 0"
  shows "\<exists>a t. large_object_space_resolve_conservative_ref valid s ref True = Inr (a, t) \<and> los_wf t
    \<and> t = s\<lparr>los_object_tree := los_object_tree t\<rparr>
    \<and> (\<forall>o1 \<in> los_objects s. in_span ref o1 \<longrightarrow> a = obj_addr o1)
    \<and> ((\<forall>o1 \<in> los_objects s. \<not> in_span ref o1) \<longrightarrow> a = gc_ref_null)"
proof -
  have "\<exists>n t. large_object_space_lookup_conservative_ref valid s ref True = Inr (n, t) \<and> los_wf t
    \<and> t = s\<lparr>los_object_tree := los_object_tree t\<rparr>
    \<and> (if n = 0 then \<forall>m \<in> dom (los_nodes s). \<not> in_span ref (los_key s m)
       else n \<in> dom (los_nodes s) \<and> in_span ref (los_key s n))"
  proof (cases rule: lookup_cases[OF assms(1), of ref])
    case 1
    obtain found t where l: "large_object_tree_lookup s ref = (found, t)" by (rule prod.exhaust)
    note look = tree_lookup_wf[OF assms(1) l]
    have "large_object_space_lookup_conservative_ref valid s ref True
        = Inr (case found of None \<Rightarrow> 0 | Some n \<Rightarrow> n, t)"
      using 1(1) l assms(2) by (simp add: large_object_space_lookup_conservative_ref_def Let_def)
    moreover have "if (case found of None \<Rightarrow> 0 | Some n \<Rightarrow> n) = 0
        then \<forall>m \<in> dom (los_nodes s). \<not> in_span ref (los_key s m)
        else (case found of None \<Rightarrow> 0 | Some n \<Rightarrow> n) \<in> dom (los_nodes s)
          \<and> in_span ref (los_key s (case found of None \<Rightarrow> 0 | Some n \<Rightarrow> n))"
    proof (cases found)
      case None
      then show ?thesis using look(3) by auto
    next
      case (Some n)
      then have "n \<in> dom (los_nodes s) \<and> in_span ref (los_key s n)" using look(3)[of n] by simp
      moreover from this have "n \<noteq> 0" using los_wf_apartD(6)[OF assms(1)] by metis
      ultimately show ?thesis using Some by simp
    qed
    ultimately show ?thesis using look(1,2) by (intro exI conjI)
  next
    case (2 n)
    have "span_valid (los_key s n)"
      using spans_valid[OF los_wf_apartD(4)[OF assms(1)]] los_wf_apartD(5)[OF assms(1)] 2(3) by simp
    then have "in_span ref (los_key s n)" using 2(4) by (auto simp: in_span_def span_valid_def)
    moreover have "large_object_space_lookup_conservative_ref valid s ref True = Inr (n, s)"
      using 2(1,2) assms(2) by (simp add: large_object_space_lookup_conservative_ref_def Let_def)
    ultimately show ?thesis using 2(2,3) assms(1) by auto
  qed
  then obtain n t where l: "large_object_space_lookup_conservative_ref valid s ref True = Inr (n, t)" "los_wf t"
    "t = s\<lparr>los_object_tree := los_object_tree t\<rparr>"
    and n: "if n = 0 then \<forall>m \<in> dom (los_nodes s). \<not> in_span ref (los_key s m)
       else n \<in> dom (los_nodes s) \<and> in_span ref (los_key s n)" by blast
  define a where "a = (if n \<noteq> 0 \<and> node_is_live (los_node s n) then obj_addr (los_key s n) else gc_ref_null)"
  have nodes: "los_nodes t = los_nodes s" by (subst l(3)) simp
  have res: "large_object_space_resolve_conservative_ref valid s ref True = Inr (a, t)"
    using l(1) by (simp add: large_object_space_resolve_conservative_ref_def a_def nodes los_key_def)
  have only: "m = n" if "m \<in> dom (los_nodes s)" "in_span ref (los_key s m)" for m
  proof (rule ccontr)
    assume ne: "m \<noteq> n"
    have "n \<noteq> 0" using n that by (auto split: if_splits)
    then have "n \<in> dom (los_nodes s)" "in_span ref (los_key s n)" using n by auto
    then have "span_apart (los_key s m) (los_key s n)"
      using spans_apart[OF los_wf_apartD(4)[OF assms(1)], of m n] los_wf_apartD(5)[OF assms(1)] that(1) ne by simp
    then show False using that(2) \<open>in_span ref (los_key s n)\<close>
      by (auto simp: span_apart_def span_before_def in_span_def)
  qed
  have "a = obj_addr o1" if o1: "o1 \<in> los_objects s" "in_span ref o1" for o1
  proof -
    obtain m where m: "los_live_node s m" "o1 = los_key s m" using o1(1) by (auto simp: los_objects_def)
    then have "m = n" using only[of m] o1(2) by (simp add: los_live_node_def)
    then show ?thesis using m los_wf_apartD(6)[OF assms(1)] by (auto simp: a_def los_live_node_def)
  qed
  moreover have "a = gc_ref_null" if "\<forall>o1 \<in> los_objects s. \<not> in_span ref o1"
    using that n by (auto simp: a_def los_objects_def los_live_node_def split: if_splits)
  ultimately show ?thesis using res l(2,3) by blast
qed

theorem large_object_space_resolve_correct_witness:
  "\<exists>t. large_object_space_resolve_conservative_ref (\<lambda>d. d = 0) los_one 0x11234 True = Inr (0x10000, t) \<and> los_wf t"
proof -
  have "ext_size (los_extents los_one) = 0"
    by (simp add: los_one_def large_object_space_init_def small_config_def gc_has_mutator_conservative_roots_def
        extents_allocate_def)
  from large_object_space_resolve_correct[OF los_one(1) this, of "\<lambda>d. d = 0" "0x11234"]
  show ?thesis by (auto simp: los_one(2) in_span_def)
qed

end
