(* ===== verification/SimpleWorklist.thy ===== *)
theory SimpleWorklist
  imports Interfaces
begin

section \<open>The worklist of a serial tracer\<close>

text \<open>
  \<open>src/src/simple-worklist.h\<close>: a ring buffer whose read and write positions run freely and are
  masked on access. Memory comes from \<open>gc_platform_acquire_memory\<close>, a wrapper of \<open>mmap\<close>: the
  parameter \<open>mem\<close> says for which sizes it succeeds, and fresh memory is zero. \<open>wl_abs\<close> is the
  sequence of references in the queue. Shown: the worklist is a first-in first-out queue, and
  every operation returns or crashes for want of memory.
\<close>

record simple_worklist =
  wl_size :: u64
  wl_read :: u64
  wl_write :: u64
  wl_buf :: "gc_ref list"

definition simple_worklist_max_size :: u64 where
  "simple_worklist_max_size = push_bit 63 1 div 8"

definition simple_worklist_alloc :: "(u64 \<Rightarrow> bool) \<Rightarrow> u64 \<Rightarrow> gc_ref list option" where
  "simple_worklist_alloc mem sz =
    (if mem (sz * 8) then Some (replicate (unat (sz * 8) div 8) 0) else None)"

definition simple_worklist_init :: "(u64 \<Rightarrow> bool) \<Rightarrow> u64 \<Rightarrow> simple_worklist option" where
  "simple_worklist_init mem page_size =
    (let sz = page_size div 8 in
     map_option (\<lambda>buf. \<lparr> wl_size = sz, wl_read = 0, wl_write = 0, wl_buf = buf \<rparr>)
       (simple_worklist_alloc mem sz))"

definition simple_worklist_get :: "simple_worklist \<Rightarrow> u64 \<Rightarrow> gc_ref" where
  "simple_worklist_get q idx = wl_buf q ! unat (idx AND (wl_size q - 1))"

definition simple_worklist_put :: "simple_worklist \<Rightarrow> u64 \<Rightarrow> gc_ref \<Rightarrow> simple_worklist" where
  "simple_worklist_put q idx x =
    q\<lparr> wl_buf := (wl_buf q)[unat (idx AND (wl_size q - 1)) := x] \<rparr>"

text \<open>The copying loop \<open>for (i = read; i < write; i++)\<close>, by the number of iterations.\<close>

definition simple_worklist_grow :: "(u64 \<Rightarrow> bool) \<Rightarrow> simple_worklist \<Rightarrow> simple_worklist option" where
  "simple_worklist_grow mem q =
    (let old_size = wl_size q; old_buf = wl_buf q in
     if simple_worklist_max_size \<le> old_size then None
     else let new_size = old_size * 2 in
       case simple_worklist_alloc mem new_size of None \<Rightarrow> None
       | Some new_buf \<Rightarrow>
         let old_mask = old_size - 1; new_mask = new_size - 1;
             new_buf = fold (\<lambda>i buf. buf[unat (of_nat i AND new_mask) := old_buf ! unat (of_nat i AND old_mask)])
               [unat (wl_read q)..<unat (wl_write q)] new_buf
         in Some (q\<lparr> wl_size := new_size, wl_buf := new_buf \<rparr>))"

definition simple_worklist_push :: "(u64 \<Rightarrow> bool) \<Rightarrow> simple_worklist \<Rightarrow> gc_ref \<Rightarrow> simple_worklist result" where
  "simple_worklist_push mem q p =
    result_bind
      (if wl_write q - wl_read q = wl_size q
       then (case simple_worklist_grow mem q of None \<Rightarrow> Inl Crash | Some q \<Rightarrow> Inr q) else Inr q)
      (\<lambda>q. Inr ((simple_worklist_put q (wl_write q) p)\<lparr> wl_write := wl_write q + 1 \<rparr>))"

definition simple_worklist_push_many ::
    "(u64 \<Rightarrow> bool) \<Rightarrow> simple_worklist \<Rightarrow> gc_ref list \<Rightarrow> simple_worklist result" where
  "simple_worklist_push_many mem q pv =
    result_bind
      (while_result (\<lambda>q. wl_size q - (wl_write q - wl_read q) < of_nat (length pv))
        (\<lambda>q. case simple_worklist_grow mem q of None \<Rightarrow> Inl Crash | Some q \<Rightarrow> Inr q) q)
      (\<lambda>q. Inr (fold (\<lambda>p q. (simple_worklist_put q (wl_write q) p)\<lparr> wl_write := wl_write q + 1 \<rparr>) pv q))"

definition simple_worklist_pop :: "simple_worklist \<Rightarrow> gc_ref \<times> simple_worklist" where
  "simple_worklist_pop q =
    (if wl_read q = wl_write q then (gc_ref_null, q)
     else (simple_worklist_get q (wl_read q), q\<lparr> wl_read := wl_read q + 1 \<rparr>))"

text \<open>Giving large buffers back to the system zeroes them, which the empty queue does not notice.\<close>

definition simple_worklist_release :: "simple_worklist \<Rightarrow> simple_worklist" where
  "simple_worklist_release q =
    (let byte_size = wl_size q * 8;
         q = (if 1 * 1024 * 1024 \<le> byte_size then q\<lparr> wl_buf := replicate (length (wl_buf q)) 0 \<rparr> else q)
     in q\<lparr> wl_read := 0, wl_write := 0 \<rparr>)"

subsection \<open>The queue in the ring\<close>

text \<open>Positions below \<open>2 ^ 63\<close> cannot wrap in any run that fits into time: each push adds one.\<close>

definition wl_wf :: "simple_worklist \<Rightarrow> bool" where
  "wl_wf q \<longleftrightarrow> (\<exists>p\<le>60. wl_size q = 2 ^ p) \<and> length (wl_buf q) = unat (wl_size q)
    \<and> wl_read q \<le> wl_write q \<and> unat (wl_write q) - unat (wl_read q) \<le> unat (wl_size q)"

definition wl_abs :: "simple_worklist \<Rightarrow> gc_ref list" where
  "wl_abs q = map (\<lambda>i. wl_buf q ! (i mod length (wl_buf q))) [unat (wl_read q)..<unat (wl_write q)]"

lemma wl_sizeE:
  assumes "wl_wf q"
  obtains p where "p \<le> 60" "wl_size q = 2 ^ p" "unat (wl_size q) = 2 ^ p" "length (wl_buf q) = 2 ^ p"
  using assms by (auto simp: wl_wf_def unat_exp)

lemma wl_index:
  assumes "wl_wf q"
  shows "unat (idx AND (wl_size q - 1)) = unat idx mod length (wl_buf q)"
proof -
  obtain p where p: "wl_size q = 2 ^ p" "length (wl_buf q) = 2 ^ p" using wl_sizeE[OF assms] by metis
  show ?thesis unfolding p by (rule and_exp_minus_1)
qed

lemma map_ring_update:
  fixes buf :: "'a list"
  assumes "w - r < length buf" "r \<le> w"
  shows "map (\<lambda>i. buf[w mod length buf := x] ! (i mod length buf)) [r..<Suc w]
    = map (\<lambda>i. buf ! (i mod length buf)) [r..<w] @ [x]"
proof -
  let ?n = "length buf"
  have n: "0 < ?n" using assms by linarith
  have "buf[w mod ?n := x] ! (i mod ?n) = buf ! (i mod ?n)" if "r \<le> i" "i < w" for i
  proof -
    have "w mod ?n \<noteq> i mod ?n" using mod_ring_eq[of i ?n w] that assms by fastforce
    then show ?thesis by simp
  qed
  then show ?thesis using assms(2) n by simp
qed

lemma put_wf:
  fixes x :: gc_ref
  assumes wf: "wl_wf q" and free: "unat (wl_write q) - unat (wl_read q) < unat (wl_size q)"
    and nowrap: "unat (wl_write q) + 1 < 2 ^ 64"
  defines "q' \<equiv> (simple_worklist_put q (wl_write q) x)\<lparr> wl_write := wl_write q + 1 \<rparr>"
  shows "wl_wf q'" "wl_abs q' = wl_abs q @ [x]" "wl_size q' = wl_size q" "wl_read q' = wl_read q"
    "unat (wl_write q') = Suc (unat (wl_write q))"
proof -
  have sel: "wl_size q' = wl_size q" "wl_read q' = wl_read q" "length (wl_buf q') = length (wl_buf q)"
    and buf: "wl_buf q' = (wl_buf q)[unat (wl_write q) mod length (wl_buf q) := x]"
    by (simp_all add: q'_def simple_worklist_put_def wl_index[OF wf])
  have w: "unat (wl_write q') = Suc (unat (wl_write q))"
    using nowrap by (simp add: q'_def simple_worklist_put_def unat_word_ariths)
  have le: "unat (wl_read q) \<le> unat (wl_write q)" and len: "length (wl_buf q) = unat (wl_size q)"
    using wf by (simp_all add: wl_wf_def word_le_nat_alt)
  show "wl_wf q'" using wf free w sel le by (simp add: wl_wf_def word_le_nat_alt)
  show "wl_abs q' = wl_abs q @ [x]"
    unfolding wl_abs_def sel(2,3) w buf using map_ring_update[of "unat (wl_write q)" "unat (wl_read q)" "wl_buf q" x] free le len
    by simp
  show "wl_size q' = wl_size q" "wl_read q' = wl_read q" "unat (wl_write q') = Suc (unat (wl_write q))"
    using sel w by simp_all
qed

text \<open>Growing copies the live references to their places in the larger ring.\<close>

lemma copy_ring:
  assumes "r \<le> w" "w - r \<le> length new" "0 < length new"
  shows "map (\<lambda>i. fold (\<lambda>i buf. buf[i mod length new := f i]) [r..<w] new ! (i mod length new)) [r..<w] = map f [r..<w]
    \<and> length (fold (\<lambda>i buf. buf[i mod length new := f i]) [r..<w] new) = length new"
  using assms(1,2)
proof (induction w rule: dec_induct)
  case (step w)
  let ?b = "fold (\<lambda>i buf. buf[i mod length new := f i]) [r..<w] new"
  have IH: "map (\<lambda>i. ?b ! (i mod length new)) [r..<w] = map f [r..<w]" "length ?b = length new"
    using step by simp_all
  have "map (\<lambda>i. ?b[w mod length new := f w] ! (i mod length new)) [r..<Suc w]
      = map (\<lambda>i. ?b ! (i mod length new)) [r..<w] @ [f w]"
    using map_ring_update[of w r ?b "f w"] step.prems step.hyps IH(2) by simp
  then show ?case using IH step.hyps by simp
qed simp

lemma grow_wf:
  assumes wf: "wl_wf q" and grown: "simple_worklist_grow mem q = Some q'"
  shows "wl_wf q' \<and> wl_abs q' = wl_abs q \<and> unat (wl_size q') = 2 * unat (wl_size q)
    \<and> wl_read q' = wl_read q \<and> wl_write q' = wl_write q"
proof -
  obtain p where p: "p \<le> 60" "wl_size q = 2 ^ p" "unat (wl_size q) = 2 ^ p" "length (wl_buf q) = 2 ^ p"
    by (rule wl_sizeE[OF wf])
  have small: "wl_size q < simple_worklist_max_size" using grown by (auto simp: simple_worklist_grow_def Let_def split: if_splits)
  have "unat simple_worklist_max_size = 2 ^ 60" by (simp add: simple_worklist_max_size_def)
  then have "(2::nat) ^ p < 2 ^ 60" using small p(3) by (simp add: word_less_nat_alt)
  then have "p < 60" by (rule power_less_imp_less_exp[rotated]) simp
  have two': "wl_size q * 2 = 2 ^ Suc p" using p(2) by (simp add: mult.commute)
  have "unat (2 ^ Suc p :: u64) = 2 ^ Suc p" by (rule unat_exp) (use \<open>p < 60\<close> in simp)
  then have two: "unat (wl_size q * 2) = 2 ^ Suc p" "wl_size q * 2 = 2 ^ Suc p" unfolding two' by simp_all
  have "(2::nat) ^ Suc p \<le> 2 ^ 60" using \<open>p < 60\<close> by (intro power_increasing) simp_all
  then have "unat (wl_size q * 2 * 8) = 2 ^ Suc p * 8"
    using two(1) unat_word_ariths(2)[of "wl_size q * 2" 8] by (simp del: power_Suc)
  then have bytes: "unat (wl_size q * 2 * 8) div 8 = 2 ^ Suc p" by simp
  let ?new = "replicate (2 ^ Suc p) (0 :: gc_ref)" and ?r = "unat (wl_read q)" and ?w = "unat (wl_write q)"
  let ?f = "\<lambda>i. wl_buf q ! (i mod 2 ^ p)"
  let ?buf = "fold (\<lambda>i buf. buf[i mod length ?new := ?f i]) [?r..<?w] ?new"
  have le: "?r \<le> ?w" "?w - ?r \<le> 2 ^ p" using wf p(3) by (simp_all add: wl_wf_def word_le_nat_alt)
  have mask: "unat (of_nat i AND (2 ^ k - 1) :: u64) = i mod 2 ^ k" if "k \<le> 61" for i k
    using that unat_mod_exp[of k i "0 :: u64"] by (simp add: and_exp_minus_1)
  have mask2: "unat (of_nat i AND (2 ^ p * 2 - 1) :: u64) = i mod 2 ^ Suc p" for i
    using mask[of "Suc p" i] \<open>p < 60\<close> by (simp add: mult.commute)
  have q': "q' = q\<lparr> wl_size := wl_size q * 2, wl_buf := ?buf \<rparr>"
    using grown small bytes p(1) \<open>p < 60\<close> mask[of p] mask2
    by (auto simp: simple_worklist_grow_def simple_worklist_alloc_def Let_def not_le p(2) two(2)
        simp flip: power_Suc split: if_splits)
  have ring: "map (\<lambda>i. ?buf ! (i mod length ?new)) [?r..<?w] = map ?f [?r..<?w]" "length ?buf = 2 ^ Suc p"
    using copy_ring[of ?r ?w ?new ?f] le by simp_all
  have "wl_wf q'"
    unfolding q' using wf two \<open>p < 60\<close> ring(2) le
    by (auto simp: wl_wf_def intro!: exI[of _ "Suc p"])
  moreover have "wl_abs q' = wl_abs q"
    using ring p(4) by (simp add: q' wl_abs_def)
  ultimately show ?thesis using two(1) p(3) by (simp add: q' mult.commute)
qed

lemma full_iff:
  assumes "wl_wf q"
  shows "wl_write q - wl_read q = wl_size q \<longleftrightarrow> unat (wl_write q) - unat (wl_read q) = unat (wl_size q)"
    and "unat (wl_write q - wl_read q) = unat (wl_write q) - unat (wl_read q)"
  using assms by (simp_all add: wl_wf_def word_unat_eq_iff unat_sub)

lemma length_wl_abs: "length (wl_abs q) = unat (wl_write q) - unat (wl_read q)"
  by (simp add: wl_abs_def)

definition wl_room :: "simple_worklist \<Rightarrow> nat \<Rightarrow> bool" where
  "wl_room q n \<longleftrightarrow> unat (wl_write q) + n < 2 ^ 64"

lemma push_wf:
  assumes wf: "wl_wf q" and room: "wl_room q (Suc n)"
  shows "simple_worklist_push mem q x = Inl Crash
    \<or> (\<exists>q'. simple_worklist_push mem q x = Inr q' \<and> wl_wf q' \<and> wl_room q' n \<and> wl_abs q' = wl_abs q @ [x])"
proof -
  have put: "\<exists>q'. Inr ((simple_worklist_put g (wl_write g) x)\<lparr> wl_write := wl_write g + 1 \<rparr>) = Inr q'
      \<and> wl_wf q' \<and> wl_room q' n \<and> wl_abs q' = wl_abs q @ [x]"
    if "wl_wf g" "wl_abs g = wl_abs q" "wl_write g = wl_write q" "unat (wl_write g) - unat (wl_read g) < unat (wl_size g)" for g
    using put_wf[OF that(1,4), of x] that(2,3) room by (simp add: wl_room_def)
  show ?thesis
  proof (cases "wl_write q - wl_read q = wl_size q")
    case True
    show ?thesis
    proof (cases "simple_worklist_grow mem q")
      case (Some g)
      note g = grow_wf[OF wf Some]
      have "0 < unat (wl_size q)" by (rule wl_sizeE[OF wf]) simp
      then have "unat (wl_write g) - unat (wl_read g) < unat (wl_size g)" using g True full_iff[OF wf] by simp
      then show ?thesis using put[of g] g Some True by (simp add: simple_worklist_push_def)
    qed (use True in \<open>simp add: simple_worklist_push_def\<close>)
  next
    case False
    then have "unat (wl_write q) - unat (wl_read q) < unat (wl_size q)"
      using full_iff[OF wf] wf by (simp add: wl_wf_def)
    then show ?thesis using put[OF wf] False by (simp add: simple_worklist_push_def)
  qed
qed

lemma pop_wf:
  assumes wf: "wl_wf q"
  shows "fst (simple_worklist_pop q) = (case wl_abs q of [] \<Rightarrow> gc_ref_null | x # _ \<Rightarrow> x)
    \<and> wl_wf (snd (simple_worklist_pop q)) \<and> wl_abs (snd (simple_worklist_pop q)) = tl (wl_abs q)"
proof (cases "wl_read q = wl_write q")
  case True
  then show ?thesis using wf by (simp add: simple_worklist_pop_def wl_abs_def)
next
  case False
  let ?r = "unat (wl_read q)" and ?w = "unat (wl_write q)"
  have "wl_read q < wl_write q" using False wf by (simp add: wl_wf_def order_less_le)
  then have less: "?r < ?w" by (simp add: word_less_nat_alt)
  then have r: "unat (wl_read q + 1) = Suc ?r"
  proof -
    have "unat (wl_write q) < 2 ^ 64" using unsigned_less[of "wl_write q"] by simp
    then show ?thesis using less by (simp add: unat_word_ariths)
  qed
  have "wl_abs q = wl_buf q ! (?r mod length (wl_buf q)) # wl_abs (q\<lparr> wl_read := wl_read q + 1 \<rparr>)"
    using less by (simp add: wl_abs_def r upt_conv_Cons)
  moreover have "wl_wf (q\<lparr> wl_read := wl_read q + 1 \<rparr>)"
    using wf less by (auto simp: wl_wf_def word_le_nat_alt r)
  ultimately show ?thesis
    using False by (simp add: simple_worklist_pop_def simple_worklist_get_def wl_index[OF wf])
qed

interpretation wl: ref_queue wl_wf wl_room wl_abs gc_ref_null "simple_worklist_push mem" simple_worklist_pop for mem
proof
  fix q n x
  show "wl_wf q \<Longrightarrow> wl_room q (Suc n) \<Longrightarrow> simple_worklist_push mem q x = Inl Crash
      \<or> (\<exists>q'. simple_worklist_push mem q x = Inr q' \<and> wl_wf q' \<and> wl_room q' n \<and> wl_abs q' = wl_abs q @ [x])"
    by (rule push_wf)
  show "wl_room q n \<Longrightarrow> wl_room (snd (simple_worklist_pop q)) n"
    by (simp add: wl_room_def simple_worklist_pop_def)
qed (use pop_wf in blast)

lemma init_wl_wf:
  assumes "simple_worklist_init mem (2 ^ p) = Some q" "3 \<le> p" "p \<le> 60"
  shows "wl_wf q" "wl_abs q = []" "wl_write q = 0"
proof -
  have "(2::u64) ^ p div 8 = 2 ^ (p - 3)"
  proof -
    have "unat ((2::u64) ^ p div 8) = 2 ^ p div 2 ^ 3" using assms(3) by (simp add: unat_div_distrib unat_exp)
    also have "\<dots> = 2 ^ (p - 3)" using assms(2) by (simp add: power_diff)
    also have "\<dots> = unat ((2::u64) ^ (p - 3))" using assms(3) by (simp add: unat_exp)
    finally show ?thesis by (simp add: word_unat_eq_iff)
  qed
  moreover have "(2::u64) ^ (p - 3) * 8 = 2 ^ p"
  proof -
    have "(2::u64) ^ (p - 3) * 2 ^ 3 = 2 ^ (p - 3 + 3)" by (rule power_add[symmetric])
    then show ?thesis using assms(2) by simp
  qed
  moreover have "unat ((2::u64) ^ p) div 8 = 2 ^ (p - 3)"
  proof -
    have "unat ((2::u64) ^ p) div 8 = 2 ^ p div 2 ^ 3" using assms(3) by (simp add: unat_exp)
    then show ?thesis using assms(2) by (simp add: power_diff)
  qed
  ultimately have q: "q = \<lparr> wl_size = 2 ^ (p - 3), wl_read = 0, wl_write = 0, wl_buf = replicate (2 ^ (p - 3)) 0 \<rparr>"
    using assms(1) by (auto simp: simple_worklist_init_def simple_worklist_alloc_def Let_def split: if_splits)
  show "wl_wf q" "wl_abs q = []" "wl_write q = 0"
    using assms(3) by (auto simp: q wl_wf_def wl_abs_def unat_exp intro!: exI[of _ "p - 3"])
qed

lemma release_wf: "wl_wf q \<Longrightarrow> wl_wf (simple_worklist_release q) \<and> wl_abs (simple_worklist_release q) = []"
  by (auto simp: simple_worklist_release_def wl_wf_def wl_abs_def Let_def)

text \<open>Growing fails when the ring has the largest size, or the system has no memory for twice the size; a
  worklist cannot have \<open>n\<close> references if growing fails at a size that is less than \<open>n\<close>.\<close>

definition wl_refused :: "(u64 \<Rightarrow> bool) \<Rightarrow> simple_worklist \<Rightarrow> nat \<Rightarrow> bool" where
  "wl_refused mem q n \<longleftrightarrow> (\<exists>k. let sz = unat (wl_size q) * 2 ^ k in sz < n \<and> (2 ^ 60 \<le> sz \<or> \<not> mem (of_nat (16 * sz))))"

lemma grow_fails:
  assumes "wl_wf q"
  shows "simple_worklist_grow mem q = None \<longleftrightarrow> 2 ^ 60 \<le> unat (wl_size q) \<or> \<not> mem (of_nat (16 * unat (wl_size q)))"
proof -
  have "unat simple_worklist_max_size = 2 ^ 60" by (simp add: simple_worklist_max_size_def)
  then have "simple_worklist_max_size \<le> wl_size q \<longleftrightarrow> 2 ^ 60 \<le> unat (wl_size q)" by (simp add: word_le_nat_alt)
  moreover have "wl_size q * 2 * 8 = of_nat (16 * unat (wl_size q))" by simp
  ultimately show ?thesis unfolding simple_worklist_grow_def simple_worklist_alloc_def Let_def by simp
qed

lemma refused_step:
  assumes "wl_wf q" "unat (wl_size q) < n"
  shows "simple_worklist_grow mem q = None \<Longrightarrow> wl_refused mem q n"
    and "simple_worklist_grow mem q = Some g \<Longrightarrow> wl_refused mem g n = wl_refused mem q n"
proof -
  let ?P = "\<lambda>sz. sz < n \<and> (2 ^ 60 \<le> sz \<or> \<not> mem (of_nat (16 * sz)))"
  show "wl_refused mem q n" if "simple_worklist_grow mem q = None"
    using grow_fails[OF assms(1), of mem] that assms(2) unfolding wl_refused_def Let_def by (intro exI[of _ 0]) simp
  assume g: "simple_worklist_grow mem q = Some g"
  have sz: "unat (wl_size g) * 2 ^ k = unat (wl_size q) * 2 ^ Suc k" for k using grow_wf[OF assms(1) g] by simp
  have "\<not> ?P (unat (wl_size q) * 2 ^ 0)" using grow_fails[OF assms(1), of mem] g by simp
  then have "(\<exists>k. ?P (unat (wl_size q) * 2 ^ k)) \<longleftrightarrow> (\<exists>k. ?P (unat (wl_size q) * 2 ^ Suc k))" by (metis not0_implies_Suc)
  then show "wl_refused mem g n = wl_refused mem q n" unfolding wl_refused_def Let_def sz by simp
qed

lemma need_iff:
  assumes "wl_wf q" "c < 2 ^ 64"
  shows "wl_size q - (wl_write q - wl_read q) < of_nat c \<longleftrightarrow> unat (wl_size q) < length (wl_abs q) + c"
proof -
  have le: "wl_write q - wl_read q \<le> wl_size q" using full_iff(2)[OF assms(1)] assms(1) by (simp add: wl_wf_def word_le_nat_alt)
  moreover have "unat (wl_write q - wl_read q) = length (wl_abs q)" using full_iff(2)[OF assms(1)] by (simp add: length_wl_abs)
  moreover have "unat (wl_write q - wl_read q) \<le> unat (wl_size q)" using le by (simp add: word_le_nat_alt)
  ultimately show ?thesis using unat_of_nat_u64[OF assms(2)] by (auto simp: word_less_nat_alt unat_sub[OF le])
qed

text \<open>Pushing many references grows first until they all fit, and then writes them.\<close>

lemma grow_until:
  fixes mem :: "u64 \<Rightarrow> bool"
  assumes "wl_wf q" "c < 2 ^ 64"
  defines "loop \<equiv> while_result (\<lambda>q. wl_size q - (wl_write q - wl_read q) < of_nat c)
      (\<lambda>q. case simple_worklist_grow mem q of None \<Rightarrow> Inl Crash | Some q \<Rightarrow> Inr q)"
  shows "if wl_refused mem q (length (wl_abs q) + c) then loop q = Inl Crash
    else \<exists>q'. loop q = Inr q' \<and> wl_wf q' \<and> wl_abs q' = wl_abs q \<and> wl_write q' = wl_write q
      \<and> length (wl_abs q') + c \<le> unat (wl_size q')"
  using assms(1)
proof (induction "2 ^ 61 - unat (wl_size q)" arbitrary: q rule: less_induct)
  case less
  note need = need_iff[OF less.prems assms(2)]
  show ?case
  proof (cases "unat (wl_size q) < length (wl_abs q) + c")
    case True
    show ?thesis
    proof (cases "simple_worklist_grow mem q")
      case None
      then have "loop q = Inl Crash" unfolding loop_def using need True by (simp add: while_result_unfold[of _ _ q])
      then show ?thesis using refused_step(1)[OF less.prems True None] by simp
    next
      case (Some g)
      note g = grow_wf[OF less.prems Some]
      obtain p where "p \<le> 60" "unat (wl_size q) = 2 ^ p" using wl_sizeE[OF less.prems] by metis
      moreover from this have "(2::nat) ^ p \<le> 2 ^ 60" by (intro power_increasing) simp_all
      moreover have "0 < (2::nat) ^ p" by simp
      moreover have "unat (wl_size g) = 2 * unat (wl_size q)" using g by blast
      ultimately have "2 ^ 61 - unat (wl_size g) < 2 ^ 61 - unat (wl_size q)"
        by (intro diff_less_mono2) simp_all
      moreover have "loop q = loop g" unfolding loop_def using need True Some by (simp add: while_result_unfold[of _ _ q])
      ultimately show ?thesis using less.hyps[of g] g refused_step(2)[OF less.prems True Some] by (auto split: if_splits)
    qed
  next
    case False
    then have "\<not> wl_refused mem q (length (wl_abs q) + c)"
    proof -
      have "\<not> unat (wl_size q) * 2 ^ k < length (wl_abs q) + c" for k
      proof -
        have "unat (wl_size q) * 1 \<le> unat (wl_size q) * 2 ^ k" by (rule mult_le_mono2) simp
        then show ?thesis using False by linarith
      qed
      then show ?thesis by (simp add: wl_refused_def Let_def)
    qed
    moreover have "loop q = Inr q" unfolding loop_def using need False by (simp add: while_result_unfold[of _ _ q])
    ultimately show ?thesis using less.prems False by simp
  qed
qed

lemma put_many:
  assumes "wl_wf q" "length (wl_abs q) + length xs \<le> unat (wl_size q)" "wl_room q (length xs)"
  shows "wl_wf (fold (\<lambda>p q. (simple_worklist_put q (wl_write q) p)\<lparr> wl_write := wl_write q + 1 \<rparr>) xs q)
    \<and> wl_abs (fold (\<lambda>p q. (simple_worklist_put q (wl_write q) p)\<lparr> wl_write := wl_write q + 1 \<rparr>) xs q) = wl_abs q @ xs"
  using assms
proof (induction xs arbitrary: q)
  case (Cons x xs)
  have room: "unat (wl_write q) - unat (wl_read q) < unat (wl_size q)" "unat (wl_write q) + 1 < 2 ^ 64"
    using Cons.prems(2,3) by (simp_all add: length_wl_abs wl_room_def)
  note put = put_wf[OF Cons.prems(1) room, of x]
  have "wl_room ((simple_worklist_put q (wl_write q) x)\<lparr> wl_write := wl_write q + 1 \<rparr>) (length xs)"
    using Cons.prems(3) put(5) by (simp add: wl_room_def)
  then show ?case using Cons.IH[OF put(1)] put(2,3) Cons.prems(2) by simp
qed simp

subsection \<open>First in, first out\<close>

lemma push_is_push_many:
  assumes "wl_wf q"
  shows "simple_worklist_push mem q x = simple_worklist_push_many mem q [x]"
proof -
  let ?need = "\<lambda>q. wl_size q - (wl_write q - wl_read q) < 1"
  have full: "?need q \<longleftrightarrow> wl_write q - wl_read q = wl_size q" if "wl_wf q" for q
    using need_iff[OF that, of 1] full_iff[OF that] that by (auto simp: wl_wf_def length_wl_abs)
  show ?thesis
  proof (cases "simple_worklist_grow mem q")
    case None
    then show ?thesis using full[OF assms]
      by (simp add: simple_worklist_push_def simple_worklist_push_many_def while_result_unfold[of _ _ q])
  next
    case (Some g)
    note g = grow_wf[OF assms Some]
    have "0 < unat (wl_size q)" by (rule wl_sizeE[OF assms]) simp
    then have "\<not> ?need g" if "?need q" using full[of g] full[OF assms] that g full_iff[OF assms] full_iff[of g] by auto
    then show ?thesis using full[OF assms] Some
      by (simp add: simple_worklist_push_def simple_worklist_push_many_def while_result_unfold[of _ _ q] while_result_unfold[of _ _ g])
  qed
qed

text \<open>C34: A worklist is a queue. A batch of pushes appends to the references of the worklist, in order, and
  leaves it well-formed, unless growing fails at a size that is too small for them all: the ring has the
  largest size, or the system has no memory for twice the size; then, and only then, it crashes. A
  single push is a batch of one. A pop returns the oldest reference and leaves the others in order; it
  returns the null reference and leaves the worklist alone exactly when there is nothing to pop.\<close>

theorem simple_worklist_fifo:
  assumes "wl_wf q" "unat (wl_write q) + length xs < 2 ^ 64"
  shows "(if wl_refused mem q (length (wl_abs q) + length xs) then simple_worklist_push_many mem q xs = Inl Crash
      else \<exists>q'. simple_worklist_push_many mem q xs = Inr q' \<and> wl_wf q' \<and> wl_abs q' = wl_abs q @ xs)
    \<and> simple_worklist_push mem q x = simple_worklist_push_many mem q [x]
    \<and> (case wl_abs q of
        [] \<Rightarrow> simple_worklist_pop q = (gc_ref_null, q)
      | x # xs \<Rightarrow> \<exists>q'. simple_worklist_pop q = (x, q') \<and> wl_wf q' \<and> wl_abs q' = xs)"
proof (intro conjI)
  let ?loop = "while_result (\<lambda>q. wl_size q - (wl_write q - wl_read q) < of_nat (length xs))
      (\<lambda>q. case simple_worklist_grow mem q of None \<Rightarrow> Inl Crash | Some q \<Rightarrow> Inr q) q"
  have "length xs < 2 ^ 64" using assms(2) by simp
  note until = grow_until[OF assms(1) this, of mem]
  show "if wl_refused mem q (length (wl_abs q) + length xs) then simple_worklist_push_many mem q xs = Inl Crash
      else \<exists>q'. simple_worklist_push_many mem q xs = Inr q' \<and> wl_wf q' \<and> wl_abs q' = wl_abs q @ xs"
  proof (cases "wl_refused mem q (length (wl_abs q) + length xs)")
    case False
    then obtain q' where q': "?loop = Inr q'" "wl_wf q'" "wl_abs q' = wl_abs q" "wl_write q' = wl_write q"
      "length (wl_abs q') + length xs \<le> unat (wl_size q')"
      using until by auto
    then show ?thesis using False put_many[OF q'(2,5)] assms(2) by (simp add: simple_worklist_push_many_def wl_room_def)
  qed (use until in \<open>simp add: simple_worklist_push_many_def\<close>)
  show "simple_worklist_push mem q x = simple_worklist_push_many mem q [x]" by (rule push_is_push_many[OF assms(1)])
  show "case wl_abs q of [] \<Rightarrow> simple_worklist_pop q = (gc_ref_null, q)
      | x # xs \<Rightarrow> \<exists>q'. simple_worklist_pop q = (x, q') \<and> wl_wf q' \<and> wl_abs q' = xs"
  proof (cases "wl_abs q")
    case Nil
    then have "wl_read q = wl_write q"
      using assms(1) length_wl_abs[of q] by (simp add: wl_wf_def word_unat_eq_iff word_le_nat_alt)
    then show ?thesis using Nil by (simp add: simple_worklist_pop_def)
  next
    case (Cons x xs)
    obtain y q' where "simple_worklist_pop q = (y, q')" by (cases "simple_worklist_pop q")
    with wl.pop_abs[OF assms(1) this] Cons show ?thesis by simp
  qed
qed

lemma wl_page: "\<exists>q. simple_worklist_init (\<lambda>_. True) 4096 = Some q \<and> wl_wf q \<and> wl_abs q = [] \<and> wl_write q = 0"
proof -
  obtain q where q: "simple_worklist_init (\<lambda>_. True) (2 ^ 12) = Some q"
    by (simp add: simple_worklist_init_def simple_worklist_alloc_def Let_def)
  from init_wl_wf[OF this] q show ?thesis by auto
qed

text \<open>A ring of two with one reference, which has to grow for two more.\<close>

theorem simple_worklist_fifo_witness:
  "\<exists>q q'. wl_abs q = [8] \<and> simple_worklist_push_many (\<lambda>_. True) q [16, 24] = Inr q' \<and> wl_wf q' \<and> wl_abs q' = [8, 16, 24]
    \<and> simple_worklist_push_many (\<lambda>_. False) q [16, 24] = Inl Crash \<and> fst (simple_worklist_pop q) = 8"
proof -
  let ?q = "\<lparr> wl_size = 2, wl_read = 3, wl_write = 4, wl_buf = [16, 8] \<rparr>"
  have wf: "wl_wf ?q" by (auto simp: wl_wf_def intro!: exI[of _ 1])
  have abs: "wl_abs ?q = [8]" by code_simp
  have granted: "\<not> wl_refused (\<lambda>_. True) ?q 3"
  proof -
    have "\<not> (unat (2 :: u64) * 2 ^ k < 3 \<and> 2 ^ 60 \<le> unat (2 :: u64) * 2 ^ k)" for k :: nat by simp
    then show ?thesis by (simp add: wl_refused_def Let_def del: power_strict_increasing_iff power_increasing_iff)
  qed
  have refused: "wl_refused (\<lambda>_. False) ?q 3" by (auto simp: wl_refused_def Let_def intro!: exI[of _ 0])
  have three: "length (wl_abs ?q) + length [16, 24 :: gc_ref] = 3" unfolding abs by simp
  have "unat (wl_write ?q) + length [16, 24 :: gc_ref] < 2 ^ 64" by simp
  note fifo = simple_worklist_fifo[OF wf this, unfolded three, of "\<lambda>_. True" 0] simple_worklist_fifo[OF wf this, unfolded three, of "\<lambda>_. False" 0]
  obtain q' where "simple_worklist_push_many (\<lambda>_. True) ?q [16, 24] = Inr q'" "wl_wf q'" "wl_abs q' = wl_abs ?q @ [16, 24]"
    using conjunct1[OF fifo(1)] unfolding if_not_P[OF granted] by blast
  moreover have "simple_worklist_push_many (\<lambda>_. False) ?q [16, 24] = Inl Crash" using conjunct1[OF fifo(2)] unfolding if_P[OF refused] .
  moreover have "fst (simple_worklist_pop ?q) = 8" using fifo(1) unfolding abs by auto
  ultimately show ?thesis unfolding abs by (intro exI[of _ ?q] exI[of _ q']) (simp add: abs)
qed

end
