(* ===== verification/Options.thy ===== *)
theory Options
  imports Complex_Main Prelude "HOL-Library.Char_ord"
begin

text \<open>
  The options of a collector: \<open>src/gc-options.c\<close> with the types of \<open>src/gc-options-internal.h\<close> and
  \<open>api/gc-options.h\<close>. C strings are lists of characters without the terminating NUL. \<open>strtol\<close> of the C
  library is written out for base 0; \<open>strtod\<close>, the rounding of a size to a double and the number of
  processors are parameters. A C \<open>int\<close> or \<open>long\<close> is an \<open>int\<close> in its range.
\<close>

section \<open>Options and their ranges\<close>

datatype gc_option =
    Heap_size_policy | Heap_size | Maximum_heap_size | Heap_double_threshold | Heap_expansiveness
  | Parallelism

text \<open>The values a double can have, as far as the options tell them apart.\<close>

datatype double = Nan | Neg_inf | Fin rat | Pos_inf

fun double_less :: "double \<Rightarrow> double \<Rightarrow> bool" where
  "double_less (Fin x) (Fin y) \<longleftrightarrow> x < y"
| "double_less Neg_inf (Fin _) \<longleftrightarrow> True"
| "double_less Neg_inf Pos_inf \<longleftrightarrow> True"
| "double_less (Fin _) Pos_inf \<longleftrightarrow> True"
| "double_less _ _ \<longleftrightarrow> False"

definition double_eq :: "double \<Rightarrow> double \<Rightarrow> bool" where
  "double_eq x y \<longleftrightarrow> x \<noteq> Nan \<and> x = y"

text \<open>\<open>GC_HEAP_SIZE_FIXED\<close>, \<open>_GROWABLE\<close> and \<open>_ADAPTIVE\<close> are 0, 1 and 2.\<close>

definition gc_heap_size_fixed :: int where "gc_heap_size_fixed = 0"
definition gc_heap_size_growable :: int where "gc_heap_size_growable = 1"
definition gc_heap_size_adaptive :: int where "gc_heap_size_adaptive = 2"

record gc_common_options =
  heap_size_policy :: int
  heap_size :: u64
  maximum_heap_size :: u64
  heap_double_threshold :: double
  heap_expansiveness :: double
  parallelism :: int

definition clamp_int :: "int \<Rightarrow> int \<Rightarrow> int \<Rightarrow> int" where
  "clamp_int n lo hi = (if n < lo then lo else if n > hi then hi else n)"

definition clamp_size :: "u64 \<Rightarrow> u64 \<Rightarrow> u64 \<Rightarrow> u64" where
  "clamp_size n lo hi = (if n < lo then lo else if n > hi then hi else n)"

definition clamp_double :: "double \<Rightarrow> double \<Rightarrow> double \<Rightarrow> double" where
  "clamp_double n lo hi = (if double_less n lo then lo else if double_less hi n then hi else n)"

definition default_parallelism :: "int \<Rightarrow> int" where
  "default_parallelism processors = clamp_int processors 1 8"

definition gc_init_common_options :: "int \<Rightarrow> gc_common_options" where
  "gc_init_common_options processors =
    \<lparr> heap_size_policy = gc_heap_size_fixed, heap_size = 6 * 1024 * 1024, maximum_heap_size = 0,
      heap_double_threshold = Fin (60 * 1024 * 1024), heap_expansiveness = Fin 1,
      parallelism = default_parallelism processors \<rparr>"

definition gc_common_option_from_string :: "string \<Rightarrow> gc_option option" where
  "gc_common_option_from_string str =
    (if str = ''heap-size-policy'' then Some Heap_size_policy
     else if str = ''parallelism'' then Some Parallelism
     else if str = ''heap-size'' then Some Heap_size
     else if str = ''heap-double-threshold'' then Some Heap_double_threshold
     else if str = ''maximum-heap-size'' then Some Maximum_heap_size
     else if str = ''heap-expansiveness'' then Some Heap_expansiveness
     else None)"

text \<open>A setter returns \<open>None\<close> where the code returns 0; the options are then as they were.\<close>

definition gc_common_options_set_int ::
    "gc_common_options \<Rightarrow> gc_option \<Rightarrow> int \<Rightarrow> gc_common_options option" where
  "gc_common_options_set_int options opt value = (case opt of
      Heap_size_policy \<Rightarrow>
        if value \<noteq> clamp_int value gc_heap_size_fixed gc_heap_size_adaptive then None
        else Some (options\<lparr>heap_size_policy := value\<rparr>)
    | Parallelism \<Rightarrow>
        if value \<noteq> clamp_int value 1 64 then None else Some (options\<lparr>parallelism := value\<rparr>)
    | _ \<Rightarrow> None)"

definition gc_common_options_set_size ::
    "(u64 \<Rightarrow> rat) \<Rightarrow> gc_common_options \<Rightarrow> gc_option \<Rightarrow> u64 \<Rightarrow> gc_common_options option" where
  "gc_common_options_set_size to_double options opt value = (case opt of
      Heap_size \<Rightarrow>
        if value \<noteq> clamp_size value 0 (- 1) then None else Some (options\<lparr>heap_size := value\<rparr>)
    | Heap_double_threshold \<Rightarrow>
        if value \<noteq> clamp_size value 1 (- 1) then None
        else Some (options\<lparr>heap_double_threshold := Fin (to_double value)\<rparr>)
    | Maximum_heap_size \<Rightarrow>
        if value \<noteq> clamp_size value 0 (- 1) then None else Some (options\<lparr>maximum_heap_size := value\<rparr>)
    | _ \<Rightarrow> None)"

definition gc_common_options_set_double ::
    "gc_common_options \<Rightarrow> gc_option \<Rightarrow> double \<Rightarrow> gc_common_options option" where
  "gc_common_options_set_double options opt value = (case opt of
      Heap_expansiveness \<Rightarrow>
        if \<not> double_eq value (clamp_double value (Fin 0) (Fin 50)) then None
        else Some (options\<lparr>heap_expansiveness := value\<rparr>)
    | _ \<Rightarrow> None)"

section \<open>Parsing values\<close>

definition c_isspace :: "char \<Rightarrow> bool" where
  "c_isspace c \<longleftrightarrow> c \<in> {CHR '' '', CHR 0x09, CHR 0x0A, CHR 0x0B, CHR 0x0C, CHR 0x0D}"

definition c_digit :: "char \<Rightarrow> nat option" where
  "c_digit c = (let n = (of_char c :: nat) in
    if 48 \<le> n \<and> n \<le> 57 then Some (n - 48)
    else if 97 \<le> n \<and> n \<le> 122 then Some (n - 87)
    else if 65 \<le> n \<and> n \<le> 90 then Some (n - 55)
    else None)"

definition c_is_digit :: "nat \<Rightarrow> char \<Rightarrow> bool" where
  "c_is_digit base c \<longleftrightarrow> (case c_digit c of None \<Rightarrow> False | Some d \<Rightarrow> d < base)"

fun strtol_digits :: "nat \<Rightarrow> int \<Rightarrow> string \<Rightarrow> int \<times> string" where
  "strtol_digits base acc [] = (acc, [])"
| "strtol_digits base acc (c # cs) =
    (if c_is_digit base c then strtol_digits base (acc * int base + int (the (c_digit c))) cs
     else (acc, c # cs))"

definition strtol_base :: "string \<Rightarrow> nat \<times> string" where
  "strtol_base s = (case s of
      z # x # h # rest \<Rightarrow>
        if z = CHR ''0'' \<and> (x = CHR ''x'' \<or> x = CHR ''X'') \<and> c_is_digit 16 h then (16, h # rest)
        else if z = CHR ''0'' then (8, s) else (10, s)
    | z # rest \<Rightarrow> if z = CHR ''0'' then (8, s) else (10, s)
    | [] \<Rightarrow> (10, s))"

definition long_max :: int where "long_max = 2 ^ 63 - 1"
definition long_min :: int where "long_min = - (2 ^ 63)"

text \<open>\<open>strtol (arg, &end, 0)\<close>: the value, saturated, and the string at \<open>end\<close>.\<close>

definition strtol :: "string \<Rightarrow> int \<times> string" where
  "strtol arg =
    (let s = dropWhile c_isspace arg;
         (neg, s) = (case s of
            [] \<Rightarrow> (False, s)
          | c # cs \<Rightarrow> if c = CHR ''-'' then (True, cs) else if c = CHR ''+'' then (False, cs) else (False, s));
         (base, s) = strtol_base s
     in if s = [] \<or> \<not> c_is_digit base (hd s) then (0, arg)
        else let (v, rest) = strtol_digits base 0 s;
                 v = (if neg then - v else v)
             in (max long_min (min long_max v), rest))"

definition c_head :: "string \<Rightarrow> char" where
  "c_head s = (case s of [] \<Rightarrow> CHR 0x00 | c # _ \<Rightarrow> c)"

text \<open>The product wraps, as it does where signed overflow is two's complement.\<close>

definition parse_size :: "string \<Rightarrow> u64 option" where
  "parse_size arg =
    (let (i, rest) = strtol arg
     in if i < 0 \<or> i = long_max then None
        else if rest = arg then None
        else let delim = c_head rest;
                 (rest, factor) =
                   (if delim = CHR ''k'' \<or> delim = CHR ''K'' then (tl rest, 1024)
                    else if delim = CHR ''m'' \<or> delim = CHR ''M'' then (tl rest, 1024 * 1024)
                    else if delim = CHR ''g'' \<or> delim = CHR ''G'' then (tl rest, 1024 * 1024 * 1024)
                    else if delim = CHR ''t'' \<or> delim = CHR ''T'' then (tl rest, 1024 * 1024 * 1024 * 1024)
                    else (rest, 1))
             in if rest \<noteq> [] then None else Some (word_of_int i * factor))"

definition parse_int :: "string \<Rightarrow> int option" where
  "parse_int arg =
    (let (i, rest) = strtol arg
     in if i = long_min \<or> i = long_max \<or> rest = arg \<or> rest \<noteq> [] then None
        else Some (sint (word_of_int i :: u32)))"

definition parse_heap_size_policy :: "string \<Rightarrow> int option" where
  "parse_heap_size_policy arg =
    (if arg = ''fixed'' then Some gc_heap_size_fixed
     else if arg = ''growable'' then Some gc_heap_size_growable
     else if arg = ''adaptive'' then Some gc_heap_size_adaptive
     else parse_int arg)"

definition parse_double :: "(string \<Rightarrow> double \<times> string) \<Rightarrow> string \<Rightarrow> double option" where
  "parse_double strtod arg =
    (let (d, rest) = strtod arg in if rest = arg \<or> rest \<noteq> [] then None else Some d)"

definition gc_common_options_parse_and_set ::
    "(string \<Rightarrow> double \<times> string) \<Rightarrow> (u64 \<Rightarrow> rat) \<Rightarrow> gc_common_options \<Rightarrow> gc_option \<Rightarrow> string
      \<Rightarrow> gc_common_options option" where
  "gc_common_options_parse_and_set strtod to_double options opt value = (case opt of
      Heap_size_policy \<Rightarrow>
        Option.bind (parse_heap_size_policy value) (gc_common_options_set_int options opt)
    | Parallelism \<Rightarrow> Option.bind (parse_int value) (gc_common_options_set_int options opt)
    | Heap_size \<Rightarrow> Option.bind (parse_size value) (gc_common_options_set_size to_double options opt)
    | Heap_double_threshold \<Rightarrow>
        Option.bind (parse_size value) (gc_common_options_set_size to_double options opt)
    | Maximum_heap_size \<Rightarrow>
        Option.bind (parse_size value) (gc_common_options_set_size to_double options opt)
    | Heap_expansiveness \<Rightarrow>
        Option.bind (parse_double strtod value) (gc_common_options_set_double options opt))"

section \<open>Parsing a list of settings\<close>

definition is_lower :: "char \<Rightarrow> bool" where
  "is_lower c \<longleftrightarrow> CHR ''a'' \<le> c \<and> c \<le> CHR ''z''"

definition is_digit :: "char \<Rightarrow> bool" where
  "is_digit c \<longleftrightarrow> CHR ''0'' \<le> c \<and> c \<le> CHR ''9''"

definition is_option :: "char \<Rightarrow> bool" where
  "is_option c \<longleftrightarrow> is_lower c \<or> c = CHR ''-''"

definition is_option_end :: "char \<Rightarrow> bool" where
  "is_option_end c \<longleftrightarrow> c = CHR ''=''"

definition is_value :: "char \<Rightarrow> bool" where
  "is_value c \<longleftrightarrow> is_lower c \<or> is_digit c \<or> c = CHR ''-'' \<or> c = CHR ''+'' \<or> c = CHR ''.''"

definition is_value_end :: "char \<Rightarrow> bool" where
  "is_value_end c \<longleftrightarrow> c = CHR 0x00 \<or> c = CHR '',''"

text \<open>The token, the delimiter after it and the string past the delimiter.\<close>

definition read_token ::
    "string \<Rightarrow> (char \<Rightarrow> bool) \<Rightarrow> (char \<Rightarrow> bool) \<Rightarrow> (string \<times> char \<times> string) option" where
  "read_token p is_tok is_end =
    (let rest = dropWhile is_tok p; c = c_head rest
     in if \<not> is_end c then None else Some (takeWhile is_tok p, c, tl rest))"

lemma read_token_shorter:
  assumes "read_token p is_tok is_end = Some (tok, c, next)"
  shows "length next \<le> length p" "c \<noteq> CHR 0x00 \<Longrightarrow> length next < length p"
proof -
  have len: "length (dropWhile is_tok p) \<le> length p" by (rule length_dropWhile_le)
  show "length next \<le> length p"
    using assms len by (auto simp: read_token_def Let_def split: if_splits)
  show "length next < length p" if "c \<noteq> CHR 0x00"
    using assms len that
    by (cases "dropWhile is_tok p") (auto simp: read_token_def Let_def c_head_def split: if_splits)
qed

text \<open>The options are set as the loop goes, so those set before an error stay set; the flag is the
  value returned.\<close>

function gc_options_parse_loop ::
    "(gc_common_options \<Rightarrow> gc_option \<Rightarrow> string \<Rightarrow> gc_common_options option)
      \<Rightarrow> gc_common_options \<Rightarrow> string \<Rightarrow> bool \<times> gc_common_options" where
  "gc_options_parse_loop parse_and_set options cur =
    (case read_token cur is_option is_option_end of
       None \<Rightarrow> (False, options)
     | Some (name, delim, next) \<Rightarrow>
       (case gc_common_option_from_string name of
          None \<Rightarrow> (False, options)
        | Some opt \<Rightarrow>
          (case read_token next is_value is_value_end of
             None \<Rightarrow> (False, options)
           | Some (value, delim, next) \<Rightarrow>
             (case parse_and_set options opt value of
                None \<Rightarrow> (False, options)
              | Some options \<Rightarrow>
                if delim = CHR 0x00 then (True, options)
                else gc_options_parse_loop parse_and_set options next))))"
  by auto

termination
proof (relation "measure (\<lambda>(_, _, cur). length cur)", goal_cases)
  case (2 parse_and_set options cur x1 name x2 delim next1 opt x3 val x4 delim2 next2 options2)
  then show ?case
    using read_token_shorter(1)[of cur is_option is_option_end name delim next1]
      read_token_shorter(2)[of next1 is_value is_value_end val delim2 next2] by auto
qed simp

declare gc_options_parse_loop.simps [simp del]

definition gc_options_parse_and_set_many ::
    "(gc_common_options \<Rightarrow> gc_option \<Rightarrow> string \<Rightarrow> gc_common_options option)
      \<Rightarrow> gc_common_options \<Rightarrow> string \<Rightarrow> bool \<times> gc_common_options" where
  "gc_options_parse_and_set_many parse_and_set options str =
    (if str = [] then (True, options) else gc_options_parse_loop parse_and_set options str)"

section \<open>The options stay in their ranges\<close>

definition options_ok :: "gc_common_options \<Rightarrow> bool" where
  "options_ok cfg \<longleftrightarrow> gc_heap_size_fixed \<le> heap_size_policy cfg \<and> heap_size_policy cfg \<le> gc_heap_size_adaptive
    \<and> 1 \<le> parallelism cfg \<and> parallelism cfg \<le> 64
    \<and> (\<exists>x. heap_double_threshold cfg = Fin x \<and> 1 \<le> x)
    \<and> (\<exists>x. heap_expansiveness cfg = Fin x \<and> 0 \<le> x \<and> x \<le> 50)"

lemma double_eq_clamp:
  "double_eq v (clamp_double v (Fin lo) (Fin hi)) \<Longrightarrow> lo \<le> hi \<Longrightarrow> \<exists>x. v = Fin x \<and> lo \<le> x \<and> x \<le> hi"
  by (cases v) (auto simp: double_eq_def clamp_double_def split: if_splits)

lemma set_int_ok:
  assumes "options_ok cfg" "gc_common_options_set_int cfg opt v = Some cfg'"
  shows "options_ok cfg'"
  using assms
  by (auto simp: gc_common_options_set_int_def options_ok_def clamp_int_def split: gc_option.splits if_splits)

lemma set_size_ok:
  assumes "options_ok cfg" "gc_common_options_set_size to_double cfg opt v = Some cfg'"
    and "\<forall>n. 1 \<le> n \<longrightarrow> 1 \<le> to_double n"
  shows "options_ok cfg'"
proof -
  have "1 \<le> to_double v" if "v \<noteq> 0"
    using assms(3) that by (simp add: word_le_nat_alt Suc_le_eq unat_gt_0)
  then show ?thesis
    using assms(1,2)
    by (auto simp: gc_common_options_set_size_def options_ok_def clamp_size_def not_less
        split: gc_option.splits if_splits)
qed

lemma set_double_ok:
  assumes "options_ok cfg" "gc_common_options_set_double cfg opt v = Some cfg'"
  shows "options_ok cfg'"
  using assms double_eq_clamp[of v 0 50]
  by (auto simp: gc_common_options_set_double_def options_ok_def split: gc_option.splits if_splits)

lemma parse_and_set_ok:
  assumes "options_ok cfg" "gc_common_options_parse_and_set strtod to_double cfg opt v = Some cfg'"
    and "\<forall>n. 1 \<le> n \<longrightarrow> 1 \<le> to_double n"
  shows "options_ok cfg'"
  using assms(2) set_int_ok[OF assms(1)] set_size_ok[OF assms(1) _ assms(3)] set_double_ok[OF assms(1)]
  by (auto simp: gc_common_options_parse_and_set_def bind_eq_Some_conv split: gc_option.splits)

lemma parse_loop_ok:
  assumes "options_ok cfg" "\<forall>cfg opt v cfg'. options_ok cfg \<longrightarrow> pas cfg opt v = Some cfg' \<longrightarrow> options_ok cfg'"
  shows "options_ok (snd (gc_options_parse_loop pas cfg s))"
  using assms
proof (induction pas cfg s rule: gc_options_parse_loop.induct)
  case (1 pas cfg s)
  note simps = gc_options_parse_loop.simps[of pas cfg s]
  show ?case
  proof (cases "read_token s is_option is_option_end")
    case None
    then show ?thesis using 1(2) by (simp add: simps)
  next
    case (Some t)
    obtain name delim nxt where t: "t = (name, delim, nxt)" by (rule prod_cases3)
    show ?thesis
    proof (cases "gc_common_option_from_string name")
      case None
      then show ?thesis using 1(2) Some t by (simp add: simps)
    next
      case opt: (Some opt)
      show ?thesis
      proof (cases "read_token nxt is_value is_value_end")
        case None
        then show ?thesis using 1(2) Some t opt by (simp add: simps)
      next
        case u: (Some u)
        obtain val delim2 next2 where v: "u = (val, delim2, next2)" by (rule prod_cases3)
        show ?thesis
        proof (cases "pas cfg opt val")
          case None
          then show ?thesis using 1(2) Some t opt u v by (simp add: simps)
        next
          case c: (Some cfg')
          have ok: "options_ok cfg'" using 1(2,3) c by blast
          show ?thesis
          proof (cases "delim2 = CHR 0x00")
            case True
            then show ?thesis using ok Some t opt u v c by (simp add: simps)
          next
            case False
            then show ?thesis
              using 1(1)[OF Some t[symmetric] refl opt u v[symmetric] refl c False ok 1(3)] Some t opt u v c by (simp add: simps)
          qed
        qed
      qed
    qed
  qed
qed

lemma init_ok: "options_ok (gc_init_common_options p)"
  by (simp add: options_ok_def gc_init_common_options_def gc_heap_size_fixed_def gc_heap_size_adaptive_def
      default_parallelism_def clamp_int_def)

inductive options_reach ::
    "int \<Rightarrow> (string \<Rightarrow> double \<times> string) \<Rightarrow> (u64 \<Rightarrow> rat) \<Rightarrow> gc_common_options \<Rightarrow> bool"
  for processors strtod to_double where
  init: "options_reach processors strtod to_double (gc_init_common_options processors)"
| set_int: "options_reach processors strtod to_double cfg \<Longrightarrow> gc_common_options_set_int cfg opt i = Some cfg'
    \<Longrightarrow> options_reach processors strtod to_double cfg'"
| set_size: "options_reach processors strtod to_double cfg
    \<Longrightarrow> gc_common_options_set_size to_double cfg opt n = Some cfg'
    \<Longrightarrow> options_reach processors strtod to_double cfg'"
| set_double: "options_reach processors strtod to_double cfg \<Longrightarrow> gc_common_options_set_double cfg opt d = Some cfg'
    \<Longrightarrow> options_reach processors strtod to_double cfg'"
| parse: "options_reach processors strtod to_double cfg
    \<Longrightarrow> gc_common_options_parse_and_set strtod to_double cfg opt str = Some cfg'
    \<Longrightarrow> options_reach processors strtod to_double cfg'"
| parse_many: "options_reach processors strtod to_double cfg
    \<Longrightarrow> gc_options_parse_and_set_many (gc_common_options_parse_and_set strtod to_double) cfg str = (ok, cfg')
    \<Longrightarrow> options_reach processors strtod to_double cfg'"

text \<open>C38: Whatever the number of processors, and whatever values and strings the options are set from,
  also when a list of settings is refused half way, the policy is one of the three policies, the
  parallelism is between 1 and 64, the threshold for doubling is a number of at least 1 and the
  expansiveness a number between 0 and 50.\<close>

theorem options_in_range:
  assumes "\<forall>n. 1 \<le> n \<longrightarrow> 1 \<le> to_double n" and "options_reach processors strtod to_double cfg"
  shows "options_ok cfg"
  using assms(2)
proof induction
  case init
  then show ?case by (rule init_ok)
next
  case (set_int cfg opt i cfg')
  show ?case by (rule set_int_ok[OF set_int.IH set_int.hyps(2)])
next
  case (set_size cfg opt n cfg')
  show ?case by (rule set_size_ok[OF set_size.IH set_size.hyps(2) assms(1)])
next
  case (set_double cfg opt d cfg')
  show ?case by (rule set_double_ok[OF set_double.IH set_double.hyps(2)])
next
  case (parse cfg opt str cfg')
  show ?case by (rule parse_and_set_ok[OF parse.IH parse.hyps(2) assms(1)])
next
  case (parse_many cfg str ok cfg')
  have "\<forall>c opt v c'. options_ok c
      \<longrightarrow> gc_common_options_parse_and_set strtod to_double c opt v = Some c' \<longrightarrow> options_ok c'"
    using parse_and_set_ok[OF _ _ assms(1)] by blast
  from parse_loop_ok[OF parse_many.IH this, of str] show ?case
    using parse_many.IH parse_many.hyps(2) by (auto simp: gc_options_parse_and_set_many_def split: if_splits)
qed

section \<open>Sizes are read back as they are written\<close>

definition digit_char :: "nat \<Rightarrow> char" where
  "digit_char d = char_of (48 + d)"

fun show_nat :: "nat \<Rightarrow> string" where
  "show_nat n = (if n < 10 then [digit_char n] else show_nat (n div 10) @ [digit_char (n mod 10)])"

declare show_nat.simps [simp del]

lemma c_digit_char [simp]:
  assumes "d < 10"
  shows "c_digit (digit_char d) = Some d" "10 \<le> b \<Longrightarrow> c_is_digit b (digit_char d)"
  using assms by (simp_all add: c_digit_def digit_char_def of_char_of c_is_digit_def Let_def)

lemma digit_char_all: "\<forall>d \<in> set [0..<10]. digit_char d \<noteq> CHR ''-'' \<and> digit_char d \<noteq> CHR ''+''
    \<and> \<not> c_isspace (digit_char d) \<and> digit_char d \<noteq> CHR ''x'' \<and> digit_char d \<noteq> CHR ''X''
    \<and> (digit_char d = CHR ''0'' \<longleftrightarrow> d = 0)"
  by code_simp

lemma digit_char_neq [simp]:
  assumes "d < 10"
  shows "digit_char d \<noteq> CHR ''-''" "digit_char d \<noteq> CHR ''+''" "\<not> c_isspace (digit_char d)"
    "digit_char d \<noteq> CHR ''x''" "digit_char d \<noteq> CHR ''X''"
    "digit_char d = CHR ''0'' \<longleftrightarrow> d = 0"
  using assms digit_char_all by simp_all

lemma strtol_digits_append:
  "\<forall>c \<in> set cs. c_is_digit b c \<Longrightarrow> strtol_digits b acc (cs @ rest)
    = strtol_digits b (fst (strtol_digits b acc cs)) rest"
  by (induction cs arbitrary: acc) auto

lemma show_nat_digits: "\<forall>c \<in> set (show_nat n). \<exists>d < 10. c = digit_char d"
proof (induction n rule: show_nat.induct)
  case (1 n)
  show ?case
  proof (cases "n < 10")
    case True
    then show ?thesis by (auto simp: show_nat.simps[of n])
  next
    case False
    have "\<exists>d < 10. digit_char (n mod 10) = digit_char d" by (rule exI[of _ "n mod 10"]) simp
    then show ?thesis using 1[OF False] False by (auto simp: show_nat.simps[of n])
  qed
qed

lemma show_nat_head:
  obtains d cs where "show_nat n = digit_char d # cs" "d < 10" "d = 0 \<longleftrightarrow> n = 0" "n = 0 \<Longrightarrow> cs = []"
proof (induction n arbitrary: thesis rule: show_nat.induct)
  case (1 n)
  show ?case
  proof (cases "n < 10")
    case True
    then show ?thesis using 1(2)[of n "[]"] by (simp add: show_nat.simps[of n])
  next
    case False
    show ?thesis
    proof (rule 1(1)[OF False])
      fix d cs
      assume "show_nat (n div 10) = digit_char d # cs" "d < 10" "d = 0 \<longleftrightarrow> n div 10 = 0"
      then show ?thesis using 1(2)[of d "cs @ [digit_char (n mod 10)]"] False
        by (simp add: show_nat.simps[of n])
    qed
  qed
qed

lemma strtol_digits_show_nat:
  "b = 10 \<Longrightarrow> fst (strtol_digits b 0 (show_nat n)) = int n"
proof (induction n rule: show_nat.induct)
  case (1 n)
  show ?case
  proof (cases "n < 10")
    case True
    then show ?thesis using 1(2) by (simp add: show_nat.simps[of n])
  next
    case False
    have dig: "\<forall>c \<in> set (show_nat (n div 10)). c_is_digit b c"
      using show_nat_digits[of "n div 10"] 1(2) by auto
    have "fst (strtol_digits b 0 (show_nat n)) = int (n div 10) * 10 + int (n mod 10)"
      using False 1(1)[OF False] 1(2) strtol_digits_append[OF dig, of 0]
      by (simp add: show_nat.simps[of n])
    then show ?thesis by (metis div_mult_mod_eq of_nat_add of_nat_mult of_nat_numeral)
  qed
qed

definition size_units :: "(string \<times> nat) list" where
  "size_units = [('''', 1), (''k'', 2 ^ 10), (''K'', 2 ^ 10), (''m'', 2 ^ 20), (''M'', 2 ^ 20),
    (''g'', 2 ^ 30), (''G'', 2 ^ 30), (''t'', 2 ^ 40), (''T'', 2 ^ 40)]"

lemmas parse_defs = parse_size_def parse_int_def strtol_def strtol_base_def c_is_digit_def c_digit_def
  c_isspace_def c_head_def long_min_def long_max_def

lemma parse_size_zero:
  "list_all (\<lambda>(suf, f). parse_size (CHR ''0'' # suf) = Some 0) size_units"
  by (simp add: size_units_def parse_defs)

lemma size_units_head:
  "list_all (\<lambda>(suf, f). case suf of [] \<Rightarrow> True | c # cs \<Rightarrow> \<not> c_is_digit 10 c) size_units"
  by (simp add: size_units_def c_is_digit_def c_digit_def)

lemma strtol_show_nat:
  assumes "0 < n" "case suf of [] \<Rightarrow> True | c # cs \<Rightarrow> \<not> c_is_digit 10 c" "int n \<le> long_max"
  shows "strtol (show_nat n @ suf) = (int n, suf)"
proof -
  obtain d cs where d: "show_nat n = digit_char d # cs" "d < 10" "d = 0 \<longleftrightarrow> n = 0"
    by (rule show_nat_head)
  have sp: "dropWhile c_isspace (show_nat n @ suf) = show_nat n @ suf" using d(1,2) by simp
  have base: "strtol_base (show_nat n @ suf) = (10, show_nat n @ suf)"
    using d assms(1) by (simp add: strtol_base_def split: list.splits)
  have dig: "\<forall>c \<in> set (show_nat n). c_is_digit 10 c" using show_nat_digits[of n] by auto
  have "strtol_digits 10 0 (show_nat n @ suf) = (int n, suf)"
    using strtol_digits_append[OF dig, of 0 suf] strtol_digits_show_nat[of 10 n] assms(2)
    by (cases suf) auto
  moreover have "c_is_digit 10 (hd (show_nat n @ suf))" "show_nat n @ suf \<noteq> []" using d(1,2) by auto
  ultimately show ?thesis using sp base d(1,2) assms(3)
    by (simp add: strtol_def long_min_def long_max_def)
qed

text \<open>A size written as a decimal number, with or without one of the letters k, m, g and t, is
  read back as that number times the power of 1024 of the letter, modulo \<open>2 ^ 64\<close>; without a letter
  every number below the largest \<open>long\<close> is read back exactly.\<close>

theorem parse_size_show:
  assumes "(suf, f) \<in> set size_units" and "int n < long_max"
  shows "\<exists>v. parse_size (show_nat n @ suf) = Some v \<and> unat v = n * f mod 2 ^ 64"
proof (cases "n = 0")
  case True
  have "show_nat 0 = ''0''" by (simp add: show_nat.simps)
  then show ?thesis
    using True parse_size_zero assms(1) by (auto simp: list_all_iff)
next
  case False
  then obtain d cs where d: "show_nat n = digit_char d # cs" by (rule_tac show_nat_head)
  have "case suf of [] \<Rightarrow> True | c # cs \<Rightarrow> \<not> c_is_digit 10 c"
    using size_units_head assms(1) by (auto simp: list_all_iff)
  then have st: "strtol (show_nat n @ suf) = (int n, suf)"
    using False assms(2) by (intro strtol_show_nat) auto
  have ne: "suf \<noteq> show_nat n @ suf" using d by (metis append_self_conv2 list.distinct(1))
  have eq: "parse_size (show_nat n @ suf) = Some (of_nat n * of_nat f)"
    using assms st ne by (auto simp: parse_size_def size_units_def c_head_def)
  show ?thesis by (simp add: eq unat_of_nat mult.commute flip: of_nat_mult)
qed

theorem parse_size_show_witness:
  "(\<exists>v. parse_size ''12k'' = Some v \<and> unat v = 12288)
    \<and> (\<exists>v. parse_size ''16777216T'' = Some v \<and> unat v = 0)"
proof -
  have s: "show_nat 12 = ''12''" "show_nat 16777216 = ''16777216''"
    by (simp_all add: show_nat.simps digit_char_def char_of_def bit_Suc_0_iff)
  show ?thesis
    using parse_size_show[of "''k''" "2 ^ 10" 12] parse_size_show[of "''T''" "2 ^ 40" 16777216]
    by (simp add: s size_units_def long_max_def)
qed

section \<open>Lists of settings\<close>

text \<open>A list of settings is applied one by one, and stops at the first that is refused.\<close>

fun option_name :: "gc_option \<Rightarrow> string" where
  "option_name Heap_size_policy = ''heap-size-policy''"
| "option_name Parallelism = ''parallelism''"
| "option_name Heap_size = ''heap-size''"
| "option_name Heap_double_threshold = ''heap-double-threshold''"
| "option_name Maximum_heap_size = ''maximum-heap-size''"
| "option_name Heap_expansiveness = ''heap-expansiveness''"

fun apply_settings :: "(gc_common_options \<Rightarrow> gc_option \<Rightarrow> string \<Rightarrow> gc_common_options option)
    \<Rightarrow> gc_common_options \<Rightarrow> (gc_option \<times> string) list \<Rightarrow> bool \<times> gc_common_options" where
  "apply_settings set1 cfg [] = (True, cfg)"
| "apply_settings set1 cfg ((opt, val) # rest) =
    (case set1 cfg opt val of None \<Rightarrow> (False, cfg) | Some cfg \<Rightarrow> apply_settings set1 cfg rest)"

fun render_settings :: "(gc_option \<times> string) list \<Rightarrow> string" where
  "render_settings [] = ''''"
| "render_settings [(opt, val)] = option_name opt @ ''='' @ val"
| "render_settings ((opt, val) # rest) = option_name opt @ ''='' @ val @ '','' @ render_settings rest"

lemma option_name_chars: "list_all is_option (option_name opt)" "option_name opt \<noteq> []"
  "gc_common_option_from_string (option_name opt) = Some opt"
  by (cases opt; simp add: is_option_def is_lower_def less_eq_char_def gc_common_option_from_string_def)+

lemma delimiters: "\<not> is_option CHR ''=''" "\<not> is_value CHR '',''" "is_option_end CHR ''=''" "is_value_end CHR '',''"
  "is_value_end CHR 0x00"
  by (simp_all add: is_option_def is_lower_def is_value_def is_digit_def less_eq_char_def is_option_end_def
      is_value_end_def)

lemma read_token_append:
  assumes "list_all is_tok tok" "\<not> is_tok c" "is_end c"
  shows "read_token (tok @ c # rest) is_tok is_end = Some (tok, c, rest)"
proof -
  have "takeWhile is_tok (tok @ c # rest) = tok" "dropWhile is_tok (tok @ c # rest) = c # rest"
    using assms by (simp_all add: list_all_iff takeWhile_append2 dropWhile_append2)
  then show ?thesis using assms(3) by (simp add: read_token_def c_head_def Let_def)
qed

lemma read_token_end:
  assumes "list_all is_tok tok" "is_end CHR 0x00"
  shows "read_token tok is_tok is_end = Some (tok, CHR 0x00, [])"
proof -
  have "dropWhile is_tok tok = []" "takeWhile is_tok tok = tok"
    using assms(1) by (auto simp: list_all_iff)
  note eq = this
  show ?thesis unfolding read_token_def c_head_def Let_def eq using assms(2) by simp
qed

lemma read_name:
  "read_token (option_name opt @ CHR ''='' # rest) is_option is_option_end
    = Some (option_name opt, CHR ''='', rest)"
  by (rule read_token_append) (rule option_name_chars delimiters)+

lemma parse_loop_render:
  assumes "kvs \<noteq> []" "\<forall>(opt, val) \<in> set kvs. list_all is_value val"
  shows "gc_options_parse_loop set1 cfg (render_settings kvs) = apply_settings set1 cfg kvs"
  using assms
proof (induction kvs arbitrary: cfg rule: render_settings.induct)
  case (2 opt val)
  then show ?case
    by (simp add: gc_options_parse_loop.simps[of _ _ "_ @ _"] read_name option_name_chars
        read_token_end[of is_value val is_value_end] delimiters split: option.splits)
next
  case (3 opt val kv kvs)
  have "read_token (val @ CHR '','' # render_settings (kv # kvs)) is_value is_value_end
      = Some (val, CHR '','', render_settings (kv # kvs))"
    using 3(3) by (intro read_token_append delimiters) auto
  then show ?case using 3
    by (simp add: gc_options_parse_loop.simps[of _ _ "_ @ _"] read_name option_name_chars split: option.splits)
qed simp

text \<open>A value with a character that is neither of a value nor its end is refused unread, such as the
  upper-case unit of \<open>10M\<close> that \<open>parse_size\<close> accepts.\<close>

lemma parse_and_set_many_refuses:
  assumes "list_all is_value pre" "\<not> is_value c" "\<not> is_value_end c"
  shows "gc_options_parse_and_set_many set1 cfg (option_name opt @ ''='' @ pre @ c # post) = (False, cfg)"
proof -
  have "read_token (pre @ c # post) is_value is_value_end = None"
    using assms by (simp add: read_token_def list_all_iff c_head_def dropWhile_append2)
  then show ?thesis
    by (simp add: gc_options_parse_and_set_many_def gc_options_parse_loop.simps[of _ _ "_ @ _"] read_name
        option_name_chars)
qed

lemma upper_case_unit_refused:
  "parse_size ''10M'' = Some 0xA00000
    \<and> gc_options_parse_and_set_many set1 cfg ''heap-size=10M'' = (False, cfg)"
proof
  show "parse_size ''10M'' = Some 0xA00000" by (simp add: parse_defs)
  have "list_all is_value ''10''" "\<not> is_value CHR ''M''" "\<not> is_value_end CHR ''M''"
    by (simp_all add: is_lower_def is_value_def is_digit_def less_eq_char_def is_value_end_def)
  from parse_and_set_many_refuses[OF this, of set1 cfg Heap_size "[]"]
  show "gc_options_parse_and_set_many set1 cfg ''heap-size=10M'' = (False, cfg)" by simp
qed

text \<open>A string of settings \<open>name=value\<close> with commas between them, whose values are made of
  lower-case letters, digits and the signs \<open>-\<close>, \<open>+\<close> and \<open>.\<close>, has the effect of the settings one
  after the other up to the first that is refused, and is accepted when none is.\<close>

theorem parse_and_set_many_correct:
  assumes "\<forall>(opt, val) \<in> set kvs. list_all is_value val"
  shows "gc_options_parse_and_set_many set1 cfg (render_settings kvs) = apply_settings set1 cfg kvs"
proof -
  have "render_settings kvs \<noteq> []" if "kvs \<noteq> []"
    using that option_name_chars(2) by (cases kvs rule: render_settings.cases) auto
  then show ?thesis
    using parse_loop_render[OF _ assms, of set1 cfg]
    by (cases "kvs = []") (auto simp: gc_options_parse_and_set_many_def)
qed

theorem parse_and_set_many_correct_witness:
  "gc_options_parse_and_set_many (gc_common_options_parse_and_set (\<lambda>s. (Nan, s)) (\<lambda>_. 1))
      (gc_init_common_options 4) ''heap-size-policy=adaptive,parallelism=100,heap-size=0''
    = (False, (gc_init_common_options 4)\<lparr>heap_size_policy := 2\<rparr>)"
proof -
  let ?kvs = "[(Heap_size_policy, ''adaptive''), (Parallelism, ''100''), (Heap_size, ''0'')]"
  have "\<forall>(opt, val) \<in> set ?kvs. list_all is_value val"
    by (simp add: is_lower_def is_value_def is_digit_def less_eq_char_def)
  from parse_and_set_many_correct[OF this,
      of "gc_common_options_parse_and_set (\<lambda>s. (Nan, s)) (\<lambda>_. 1)" "gc_init_common_options 4"]
  show ?thesis
    by (simp add: gc_common_options_parse_and_set_def parse_heap_size_policy_def gc_common_options_set_int_def
        clamp_int_def gc_heap_size_fixed_def gc_heap_size_adaptive_def parse_int_def strtol_def
        strtol_base_def c_is_digit_def c_digit_def c_isspace_def long_min_def long_max_def Let_def)
qed

theorem options_in_range_witness:
  "options_ok ((gc_init_common_options 4)\<lparr>parallelism := 64\<rparr>)"
proof -
  have "gc_common_options_set_int (gc_init_common_options 4) Parallelism 64
      = Some ((gc_init_common_options 4)\<lparr>parallelism := 64\<rparr>)"
    by (simp add: gc_common_options_set_int_def clamp_int_def)
  from options_reach.set_int[OF options_reach.init[of 4 "\<lambda>s. (Nan, s)" "\<lambda>n. of_nat (unat n)"] this]
  show ?thesis
    by (intro options_in_range[of "\<lambda>n. of_nat (unat n)" 4 "\<lambda>s. (Nan, s)"])
      (auto simp: word_le_nat_alt simp del: of_nat_unat)
qed

end
