(* ===== verification/Finalizer.thy ===== *)
theory Finalizer
  imports Chains
begin

section \<open>Finalizers\<close>

text \<open>
  \<open>src/src/gc-finalizer.c\<close>. A finalizer is a heap object, kept here in a store \<open>fz_mem\<close> from
  addresses to records; the tables and the fired list are threaded through its \<open>next\<close> field. The
  compare-and-swap loops of the list operations retry until nobody interfered, so each operation is
  the single atomic step it becomes when its swap succeeds. \<open>gc_visit_ephemeron_key\<close> and the visitor
  belong to the collector: \<open>vk r h\<close> says whether the object \<open>r\<close> is visited in heap \<open>h\<close> and \<open>visit r h\<close>
  enqueues it; both give back the reference they leave in the edge, and the heap.
\<close>

datatype finalizer_state = Finalizer_Init | Finalizer_Active | Finalizer_Fired

record gc_finalizer =
  fin_state :: finalizer_state
  fin_object :: gc_ref
  fin_closure :: gc_ref
  fin_next :: u64

type_synonym fin_mem = "u64 \<Rightarrow> gc_finalizer"

definition BUCKET_COUNT :: nat where
  "BUCKET_COUNT = 32"

record gc_finalizer_table =
  finalizer_count :: u64
  fin_buckets :: "u64 list"

record 'h gc_finalizer_state =
  have_finalizers :: "('h \<Rightarrow> u64 \<Rightarrow> 'h) option"
  fired :: u64
  fired_this_cycle :: u64
  fin_tables :: "gc_finalizer_table list"

record 'h fin_world =
  fz_mem :: fin_mem
  fz_state :: "'h gc_finalizer_state"
  fz_heap :: 'h

type_synonym 'h visit_key = "gc_ref \<Rightarrow> 'h \<Rightarrow> bool \<times> gc_ref \<times> 'h"
type_synonym 'h visit_ref = "gc_ref \<Rightarrow> 'h \<Rightarrow> gc_ref \<times> 'h"

text \<open>A table of zeroes: what \<open>memset\<close> makes of a new state and \<open>{ 0, }\<close> of the scratch table.\<close>

definition empty_table :: gc_finalizer_table where
  "empty_table = \<lparr> finalizer_count = 0, fin_buckets = replicate BUCKET_COUNT 0 \<rparr>"

definition gc_make_finalizer_state :: "nat \<Rightarrow> 'h gc_finalizer_state" where
  "gc_make_finalizer_state ntables =
    \<lparr> have_finalizers = None, fired = 0, fired_this_cycle = 0,
      fin_tables = replicate ntables empty_table \<rparr>"

definition gc_finalizer_object :: "fin_mem \<Rightarrow> u64 \<Rightarrow> gc_ref" where
  "gc_finalizer_object mem f = fin_object (mem f)"

definition gc_finalizer_closure :: "fin_mem \<Rightarrow> u64 \<Rightarrow> gc_ref" where
  "gc_finalizer_closure mem f = fin_closure (mem f)"

text \<open>The lists: \<open>loc\<close> is the content of the location, which is given back as the new head.\<close>

definition finalizer_list_push :: "fin_mem \<Rightarrow> u64 \<Rightarrow> u64 \<Rightarrow> fin_mem \<times> u64" where
  "finalizer_list_push mem loc head = (mem(head := (mem head)\<lparr>fin_next := loc\<rparr>), head)"

definition finalizer_list_pop :: "fin_mem \<Rightarrow> u64 \<Rightarrow> u64 \<times> fin_mem \<times> u64" where
  "finalizer_list_pop mem loc =
    (if loc = 0 then (0, mem, loc)
     else (loc, mem(loc := (mem loc)\<lparr>fin_next := 0\<rparr>), fin_next (mem loc)))"

definition add_finalizer_to_table :: "fin_mem \<Rightarrow> gc_finalizer_table \<Rightarrow> u64 \<Rightarrow> fin_mem \<times> gc_finalizer_table" where
  "add_finalizer_to_table mem table f =
    (let cnt = finalizer_count table;
         b = unat cnt mod BUCKET_COUNT;
         (mem, loc) = finalizer_list_push mem (fin_buckets table ! b) f
     in (mem, table\<lparr>finalizer_count := cnt + 1, fin_buckets := (fin_buckets table)[b := loc]\<rparr>))"

definition gc_finalizer_init_internal :: "fin_mem \<Rightarrow> u64 \<Rightarrow> gc_ref \<Rightarrow> gc_ref \<Rightarrow> fin_mem result" where
  "gc_finalizer_init_internal mem f obj closure =
    (if fin_state (mem f) \<noteq> Finalizer_Init then Inl Crash
     else result_bind (gc_assert (gc_ref_is_null (fin_object (mem f))))
       (\<lambda>_. Inr (mem(f := (mem f)\<lparr>fin_object := obj, fin_closure := closure\<rparr>))))"

definition gc_finalizer_attach_internal :: "'h fin_world \<Rightarrow> u64 \<Rightarrow> nat \<Rightarrow> 'h fin_world result" where
  "gc_finalizer_attach_internal w f priority =
    (let mem = fz_mem w; st = fz_state w
     in if fin_state (mem f) \<noteq> Finalizer_Init then Inl Crash
        else if gc_ref_is_null (fin_object (mem f)) then Inl Crash
        else
          (let mem = mem(f := (mem f)\<lparr>fin_state := Finalizer_Active\<rparr>)
           in result_bind (gc_assert (priority < length (fin_tables st)))
             (\<lambda>_. let (mem, table) = add_finalizer_to_table mem (fin_tables st ! priority) f
                  in Inr (w\<lparr>fz_mem := mem, fz_state := st\<lparr>fin_tables := (fin_tables st)[priority := table]\<rparr>\<rparr>))))"

definition gc_finalizer_state_pop :: "'h fin_world \<Rightarrow> u64 \<times> 'h fin_world" where
  "gc_finalizer_state_pop w =
    (let (f, mem, loc) = finalizer_list_pop (fz_mem w) (fired (fz_state w))
     in (f, w\<lparr>fz_mem := mem, fz_state := (fz_state w)\<lparr>fired := loc\<rparr>\<rparr>))"

definition add_fired_finalizer :: "'h fin_world \<Rightarrow> u64 \<Rightarrow> 'h fin_world result" where
  "add_fired_finalizer w f =
    (if fin_state (fz_mem w f) \<noteq> Finalizer_Active then Inl Crash
     else
       (let mem = (fz_mem w)(f := (fz_mem w f)\<lparr>fin_state := Finalizer_Fired\<rparr>);
            (mem, loc) = finalizer_list_push mem (fired (fz_state w)) f
        in Inr (w\<lparr>fz_mem := mem, fz_state := (fz_state w)\<lparr>fired := loc\<rparr>\<rparr>)))"

definition gc_finalizer_externally_activated :: "fin_mem \<Rightarrow> u64 \<Rightarrow> fin_mem result" where
  "gc_finalizer_externally_activated mem f =
    (if fin_state (mem f) \<noteq> Finalizer_Init then Inl Crash
     else Inr (mem(f := (mem f)\<lparr>fin_state := Finalizer_Active\<rparr>)))"

definition gc_finalizer_externally_fired :: "'h fin_world \<Rightarrow> u64 \<Rightarrow> 'h fin_world result" where
  "gc_finalizer_externally_fired w f = add_fired_finalizer w f"

definition gc_finalizer_state_set_callback :: "'h gc_finalizer_state \<Rightarrow> ('h \<Rightarrow> u64 \<Rightarrow> 'h) \<Rightarrow> 'h gc_finalizer_state" where
  "gc_finalizer_state_set_callback st callback = st\<lparr>have_finalizers := Some callback\<rparr>"

definition gc_notify_finalizers :: "'h fin_world \<Rightarrow> 'h fin_world" where
  "gc_notify_finalizers w =
    (let st = fz_state w
     in if fired_this_cycle st \<noteq> 0 then
          (case have_finalizers st of
             Some callback \<Rightarrow>
               w\<lparr>fz_heap := callback (fz_heap w) (fired_this_cycle st),
                 fz_state := st\<lparr>fired_this_cycle := 0\<rparr>\<rparr>
           | None \<Rightarrow> w)
        else w)"

text \<open>Visiting a location that holds a finalizer's address.\<close>

fun visit_buckets :: "'h visit_ref \<Rightarrow> u64 list \<Rightarrow> 'h \<Rightarrow> u64 list \<times> 'h" where
  "visit_buckets visit [] h = ([], h)"
| "visit_buckets visit (p # ps) h =
    (let (p, h) = visit p h; (ps, h) = visit_buckets visit ps h in (p # ps, h))"

fun visit_tables :: "'h visit_ref \<Rightarrow> gc_finalizer_table list \<Rightarrow> u64 \<Rightarrow> 'h \<Rightarrow> u64 \<times> gc_finalizer_table list \<times> 'h" where
  "visit_tables visit [] n h = (n, [], h)"
| "visit_tables visit (table # tables) n h =
    (let (n, table, h) =
           (if finalizer_count table \<noteq> 0 then
              let (ps, h) = visit_buckets visit (fin_buckets table) h
              in (n + finalizer_count table, table\<lparr>fin_buckets := ps\<rparr>, h)
            else (n, table, h));
         (n, tables, h) = visit_tables visit tables n h
     in (n, table # tables, h))"

definition gc_visit_finalizer_roots :: "'h visit_ref \<Rightarrow> 'h fin_world \<Rightarrow> u64 \<times> 'h fin_world" where
  "gc_visit_finalizer_roots visit w =
    (let st = fz_state w;
         (n, tables, h) = visit_tables visit (fin_tables st) 0 (fz_heap w);
         (p, h) = visit (fired st) h
     in (n, w\<lparr>fz_heap := h, fz_state := st\<lparr>fin_tables := tables, fired := p\<rparr>\<rparr>))"

definition gc_trace_finalizer :: "'h visit_ref \<Rightarrow> u64 \<Rightarrow> 'h fin_world \<Rightarrow> 'h fin_world" where
  "gc_trace_finalizer visit f w =
    (let mem = fz_mem w; h = fz_heap w;
         (mem, h) = (if fin_state (mem f) \<noteq> Finalizer_Active then
                       let (r, h) = visit (fin_object (mem f)) h in (mem(f := (mem f)\<lparr>fin_object := r\<rparr>), h)
                     else (mem, h));
         (r, h) = visit (fin_closure (mem f)) h;
         mem = mem(f := (mem f)\<lparr>fin_closure := r\<rparr>);
         (r, h) = visit (fin_next (mem f)) h;
         mem = mem(f := (mem f)\<lparr>fin_next := r\<rparr>)
     in w\<lparr>fz_mem := mem, fz_heap := h\<rparr>)"

text \<open>The two nested loops of \<open>gc_resolve_finalizers\<close>, over buckets and along each bucket.\<close>

record 'h resolve_vars =
  rv_world :: "'h fin_world"
  rv_scratch :: gc_finalizer_table
  rv_fired :: u64
  rv_f :: u64

definition resolve_one :: "'h visit_key \<Rightarrow> 'h visit_ref \<Rightarrow> 'h resolve_vars \<Rightarrow> 'h resolve_vars result" where
  "resolve_one vk visit v =
    (let w = rv_world v; f = rv_f v; mem = fz_mem w;
         nxt = fin_next (mem f);
         mem = mem(f := (mem f)\<lparr>fin_next := 0\<rparr>);
         (visited, r, h) = vk (fin_object (mem f)) (fz_heap w);
         mem = mem(f := (mem f)\<lparr>fin_object := r\<rparr>)
     in if visited then
          (let (mem, scratch) = add_finalizer_to_table mem (rv_scratch v) f
           in Inr (v\<lparr>rv_world := w\<lparr>fz_mem := mem, fz_heap := h\<rparr>, rv_scratch := scratch, rv_f := nxt\<rparr>))
        else
          (let (r, h) = visit r h;
               mem = mem(f := (mem f)\<lparr>fin_object := r\<rparr>)
           in result_bind (add_fired_finalizer (w\<lparr>fz_mem := mem, fz_heap := h\<rparr>) f)
             (\<lambda>w. Inr (v\<lparr>rv_world := w, rv_fired := rv_fired v + 1, rv_f := nxt\<rparr>))))"

definition resolve_bucket :: "'h visit_key \<Rightarrow> 'h visit_ref \<Rightarrow> u64 \<Rightarrow> 'h resolve_vars \<Rightarrow> 'h resolve_vars result" where
  "resolve_bucket vk visit p v = while_result (\<lambda>v. rv_f v \<noteq> 0) (resolve_one vk visit) (v\<lparr>rv_f := p\<rparr>)"

definition gc_resolve_finalizers ::
    "'h visit_key \<Rightarrow> 'h visit_ref \<Rightarrow> nat \<Rightarrow> 'h fin_world \<Rightarrow> (u64 \<times> 'h fin_world) result" where
  "gc_resolve_finalizers vk visit priority w =
    result_bind (gc_assert (priority < length (fin_tables (fz_state w)))) (\<lambda>_.
    let table = fin_tables (fz_state w) ! priority;
        v = \<lparr> rv_world = w, rv_scratch = empty_table, rv_fired = 0, rv_f = 0 \<rparr>
    in result_bind
         (if finalizer_count table \<noteq> 0 then
            result_bind (result_fold (\<lambda>b. resolve_bucket vk visit (fin_buckets table ! b)) [0..<BUCKET_COUNT] v)
              (\<lambda>v. let w = rv_world v; st = fz_state w
                   in Inr (v\<lparr>rv_world := w\<lparr>fz_state := st\<lparr>fin_tables := (fin_tables st)[priority := rv_scratch v]\<rparr>\<rparr>\<rparr>))
          else Inr v)
         (\<lambda>v. let w = rv_world v; st = fz_state w
              in Inr (rv_fired v, w\<lparr>fz_state := st\<lparr>fired_this_cycle := fired_this_cycle st + rv_fired v\<rparr>\<rparr>)))"


subsection \<open>What the state holds\<close>

text \<open>
  \<open>balanced bl\<close> is the distribution over the buckets that the choice by count modulo 32 gives.
  \<open>table_rep\<close> reads a table as the list of its buckets, \<open>fin_rep\<close> reads the whole state.
\<close>

definition balanced :: "u64 list list \<Rightarrow> bool" where
  "balanced bl \<longleftrightarrow> (\<forall>b < BUCKET_COUNT. length (bl ! b) = (length (concat bl) + 31 - b) div BUCKET_COUNT)"

definition table_rep :: "fin_mem \<Rightarrow> gc_finalizer_table \<Rightarrow> u64 list list \<Rightarrow> bool" where
  "table_rep mem table bl \<longleftrightarrow>
    length (fin_buckets table) = BUCKET_COUNT \<and> length bl = BUCKET_COUNT
    \<and> (\<forall>b < BUCKET_COUNT. chain (\<lambda>f. fin_next (mem f)) (fin_buckets table ! b) (bl ! b))
    \<and> finalizer_count table = of_nat (length (concat bl)) \<and> length (concat bl) < 2 ^ 64
    \<and> balanced bl"

definition fin_rep :: "'h fin_world \<Rightarrow> u64 list list list \<Rightarrow> u64 list \<Rightarrow> bool" where
  "fin_rep w tbs fl \<longleftrightarrow>
    length tbs = length (fin_tables (fz_state w))
    \<and> (\<forall>t < length tbs. table_rep (fz_mem w) (fin_tables (fz_state w) ! t) (tbs ! t))
    \<and> chain (\<lambda>f. fin_next (fz_mem w f)) (fired (fz_state w)) fl
    \<and> distinct (concat (concat tbs) @ fl)
    \<and> (\<forall>f \<in> set (concat (concat tbs)). fin_state (fz_mem w f) = Finalizer_Active)
    \<and> (\<forall>f \<in> set fl. fin_state (fz_mem w f) = Finalizer_Fired)"

lemma balanced_step:
  fixes n b :: nat
  assumes "b < 32"
  shows "(Suc n + 31 - b) div 32 = (n + 31 - b) div 32 + (if b = n mod 32 then 1 else 0)"
proof -
  obtain q r where n: "n = 32 * q + r" "r < 32" "r = n mod 32"
    by (metis mult.commute div_mult_mod_eq mod_less_divisor zero_less_numeral)
  have e: "(32 * q + m) div 32 = q + m div 32" for m :: nat by simp
  have "(Suc n + 31 - b) div 32 = q + (r + 32 - b) div 32"
    using e[of "r + 32 - b"] assms n(1) by (simp add: algebra_simps)
  moreover have "(n + 31 - b) div 32 = q + (r + 31 - b) div 32"
    using e[of "r + 31 - b"] assms n(1) by (simp add: algebra_simps)
  moreover have "(r + 32 - b) div 32 = (if b \<le> r then 1 else 0)"
    using assms n(2) by (auto simp: div_nat_eqI)
  moreover have "(r + 31 - b) div 32 = (if b < r then 1 else 0)"
    using assms n(2) by (auto simp: div_nat_eqI)
  ultimately show ?thesis using n(3) by auto
qed

lemma table_rep_empty: "table_rep mem empty_table (replicate BUCKET_COUNT [])"
  by (auto simp: table_rep_def empty_table_def balanced_def BUCKET_COUNT_def concat_replicate_trivial)

lemma table_rep_cong:
  assumes "\<And>f. f \<in> set (concat bl) \<Longrightarrow> fin_next (mem f) = fin_next (mem' f)"
  shows "table_rep mem table bl = table_rep mem' table bl"
proof -
  have "chain (\<lambda>f. fin_next (mem f)) p (bl ! b) = chain (\<lambda>f. fin_next (mem' f)) p (bl ! b)"
    if "b < length bl" for b p
    by (rule chain_cong) (use assms that in \<open>auto intro: nth_mem\<close>)
  then show ?thesis unfolding table_rep_def by auto
qed

lemma table_rep_frame:
  assumes "f \<notin> set (concat bl)"
  shows "table_rep (mem(f := x)) table bl = table_rep mem table bl"
  by (rule table_rep_cong) (use assms in \<open>auto simp del: set_concat\<close>)

lemma fin_chain_frame:
  assumes "f \<notin> set fl"
  shows "chain (\<lambda>g. fin_next ((mem(f := x)) g)) p fl = chain (\<lambda>g. fin_next (mem g)) p fl"
  by (rule chain_cong) (use assms in auto)

lemma add_finalizer_to_table_rep:
  assumes rep: "table_rep mem table bl" and f: "f \<noteq> 0" "f \<notin> set (concat bl)"
    and room: "length (concat bl) < 2 ^ 64 - 1"
    and eq: "add_finalizer_to_table mem table f = (mem', table')"
  shows "\<exists>bl' v. table_rep mem' table' bl' \<and> mset (concat bl') = add_mset f (mset (concat bl))
    \<and> mem' = mem(f := (mem f)\<lparr>fin_next := v\<rparr>)"
proof -
  define n where "n = length (concat bl)"
  define b where "b = n mod 32"
  have b: "b < 32" by (simp add: b_def)
  have len: "length bl = 32" "length (fin_buckets table) = 32"
    using rep by (auto simp: table_rep_def BUCKET_COUNT_def)
  have cnt: "finalizer_count table = of_nat n" "n < 2 ^ 64 - 1"
    using rep room by (auto simp: table_rep_def n_def)
  then have ix: "unat (finalizer_count table) mod BUCKET_COUNT = b"
    by (simp add: BUCKET_COUNT_def b_def unat_of_nat)
  let ?v = "fin_buckets table ! b"
  have mem': "mem' = mem(f := (mem f)\<lparr>fin_next := ?v\<rparr>)"
    and table': "table' = table\<lparr>finalizer_count := finalizer_count table + 1, fin_buckets := (fin_buckets table)[b := f]\<rparr>"
    using eq ix by (auto simp: add_finalizer_to_table_def finalizer_list_push_def Let_def)
  define bl' where "bl' = bl[b := f # bl ! b]"
  have b': "b < length bl" using b len by simp
  note facts = mset_add_facts[OF concat_update_mset[OF b', of f], folded bl'_def]
  have ch: "chain (\<lambda>g. fin_next (mem' g)) (fin_buckets table ! c) (bl ! c)" if "c < 32" for c
  proof -
    have "f \<notin> set (bl ! c)" using f(2) that len by (auto intro: nth_mem)
    then have "fin_next (mem' g) = fin_next (mem g)" if "g \<in> set (bl ! c)" for g
      using that by (auto simp: mem')
    then have "chain (\<lambda>g. fin_next (mem' g)) p (bl ! c) = chain (\<lambda>g. fin_next (mem g)) p (bl ! c)" for p
      by (rule chain_cong)
    then show ?thesis using rep that by (simp add: table_rep_def BUCKET_COUNT_def)
  qed
  have "chain (\<lambda>g. fin_next (mem' g)) (fin_buckets table' ! c) (bl' ! c)" if "c < 32" for c
    using ch[OF that] ch[OF b] f(1) len that b by (cases "c = b") (auto simp: bl'_def table' mem')
  moreover have "length (bl' ! c) = (length (concat bl') + 31 - c) div 32" if "c < 32" for c
  proof -
    have "length (bl ! c) = (n + 31 - c) div 32"
      using rep that by (simp add: table_rep_def balanced_def BUCKET_COUNT_def n_def)
    moreover have "length (bl' ! c) = length (bl ! c) + (if c = b then 1 else 0)"
      using len b that by (cases "c = b") (auto simp: bl'_def)
    ultimately show ?thesis
      using facts(2) b len balanced_step[OF that, of n] by (simp add: n_def b_def)
  qed
  ultimately have "table_rep mem' table' bl'"
    using facts(2) b len cnt by (simp add: table_rep_def balanced_def BUCKET_COUNT_def table' bl'_def n_def)
  moreover have "mset (concat bl') = add_mset f (mset (concat bl))"
    using concat_update_mset[of b bl f] len b by (simp add: bl'_def)
  ultimately show ?thesis using mem' by blast
qed

subsection \<open>Resolving a table\<close>

text \<open>
  The order in which a collection decides about finalizers, without tables or links: each is kept
  when its object turns out to be visited and fires otherwise, and each question and each enqueued
  object changes the heap that the next question is asked of.
\<close>

fun resolve_plan :: "'h visit_key \<Rightarrow> 'h visit_ref \<Rightarrow> (u64 \<times> gc_ref) list \<Rightarrow> 'h
    \<Rightarrow> (u64 \<times> gc_ref) list \<times> (u64 \<times> gc_ref) list \<times> 'h" where
  "resolve_plan vk visit [] h = ([], [], h)"
| "resolve_plan vk visit ((f, r) # fs) h =
    (let (visited, r, h) = vk r h
     in if visited then
          (let (ks, ds, h) = resolve_plan vk visit fs h in ((f, r) # ks, ds, h))
        else
          (let (r, h) = visit r h; (ks, ds, h) = resolve_plan vk visit fs h in (ks, (f, r) # ds, h)))"

lemma resolve_plan_append:
  "resolve_plan vk visit (xs @ ys) h =
    (let (ks, ds, h) = resolve_plan vk visit xs h; (ks', ds', h) = resolve_plan vk visit ys h
     in (ks @ ks', ds @ ds', h))"
  by (induction vk visit xs h rule: resolve_plan.induct) (auto simp: Let_def split: prod.splits)

lemma resolve_plan_split:
  assumes "resolve_plan vk visit xs h = (ks, ds, h1)" "resolve_plan vk visit ys h1 = (ks', ds', h2)"
  shows "resolve_plan vk visit (xs @ ys) h = (ks @ ks', ds @ ds', h2)"
  unfolding resolve_plan_append by (simp add: assms)

lemma resolve_plan_mset:
  "resolve_plan vk visit xs h = (ks, ds, h') \<Longrightarrow> mset (map fst ks) + mset (map fst ds) = mset (map fst xs)"
  by (induction vk visit xs h arbitrary: ks ds h' rule: resolve_plan.induct)
    (auto simp: Let_def split: prod.splits if_splits)

definition loop_rep :: "'h resolve_vars \<Rightarrow> u64 list list \<Rightarrow> u64 list \<Rightarrow> bool" where
  "loop_rep v sb fl \<longleftrightarrow>
    table_rep (fz_mem (rv_world v)) (rv_scratch v) sb
    \<and> chain (\<lambda>f. fin_next (fz_mem (rv_world v) f)) (fired (fz_state (rv_world v))) fl
    \<and> distinct (concat sb @ fl)
    \<and> (\<forall>f \<in> set (concat sb). fin_state (fz_mem (rv_world v) f) = Finalizer_Active)
    \<and> (\<forall>f \<in> set fl. fin_state (fz_mem (rv_world v) f) = Finalizer_Fired)"

definition resolved ::
    "'h resolve_vars \<Rightarrow> 'h resolve_vars \<Rightarrow> u64 list list \<Rightarrow> u64 list list \<Rightarrow> u64 list \<Rightarrow> u64 list
      \<Rightarrow> (u64 \<times> gc_ref) list \<Rightarrow> (u64 \<times> gc_ref) list \<Rightarrow> 'h \<Rightarrow> bool" where
  "resolved v v' sb sb' fl xs ks ds h \<longleftrightarrow>
    loop_rep v' sb' (rev (map fst ds) @ fl)
    \<and> mset (concat sb') = mset (map fst ks) + mset (concat sb)
    \<and> rv_fired v' = rv_fired v + of_nat (length ds)
    \<and> fz_heap (rv_world v') = h
    \<and> (\<forall>f. f \<notin> set xs \<longrightarrow> fz_mem (rv_world v') f = fz_mem (rv_world v) f)
    \<and> (\<forall>x \<in> set (ks @ ds). fin_object (fz_mem (rv_world v') (fst x)) = snd x)
    \<and> fz_state (rv_world v') = (fz_state (rv_world v))\<lparr>fired := fired (fz_state (rv_world v'))\<rparr>"

lemma resolved_trans:
  assumes 1: "resolved v v1 sb sb1 fl xs ks ds h" and 2: "resolved v1 v2 sb1 sb2 (rev (map fst ds) @ fl) ys ks' ds' h'"
    and d: "fst ` set (ks @ ds) \<inter> set ys = {}"
  shows "resolved v v2 sb sb2 fl (xs @ ys) (ks @ ks') (ds @ ds') h'"
proof -
  have "fin_object (fz_mem (rv_world v2) (fst x)) = snd x" if "x \<in> set (ks @ ds)" for x
  proof -
    have "fst x \<notin> set ys" using d that by auto
    then show ?thesis using 1 2 that by (auto simp: resolved_def)
  qed
  moreover have "fz_state (rv_world v2) = (fz_state (rv_world v))\<lparr>fired := fired (fz_state (rv_world v2))\<rparr>"
  proof -
    have "fz_state (rv_world v1) = (fz_state (rv_world v))\<lparr>fired := fired (fz_state (rv_world v1))\<rparr>"
      "fz_state (rv_world v2) = (fz_state (rv_world v1))\<lparr>fired := fired (fz_state (rv_world v2))\<rparr>"
      using 1 2 by (auto simp: resolved_def)
    then show ?thesis by (metis gc_finalizer_state.unfold_congs(2) gc_finalizer_state.update_convs(2) gc_finalizer_state.surjective)
  qed
  ultimately show ?thesis using 1 2 unfolding resolved_def by (auto simp: ac_simps)
qed

lemma resolve_one_resolved:
  assumes rep: "loop_rep v sb fl" and f: "f = rv_f v" "f \<noteq> 0" "f \<notin> set (concat sb)" "f \<notin> set fl"
    and act: "fin_state (fz_mem (rv_world v) f) = Finalizer_Active"
    and room: "length (concat sb) < 2 ^ 64 - 1"
    and plan: "resolve_plan vk visit [(f, fin_object (fz_mem (rv_world v) f))] (fz_heap (rv_world v)) = (ks, ds, h)"
  obtains v' sb' where "resolve_one vk visit v = Inr v'" "rv_f v' = fin_next (fz_mem (rv_world v) f)"
    "resolved v v' sb sb' fl [f] ks ds h"
proof -
  let ?w = "rv_world v" and ?mem = "fz_mem (rv_world v)"
  obtain visited r h1 where vk: "vk (fin_object (?mem f)) (fz_heap ?w) = (visited, r, h1)"
    by (rule prod_cases3)
  show thesis
  proof (cases visited)
    case True
    let ?m = "?mem(f := (?mem f)\<lparr>fin_next := 0, fin_object := r\<rparr>)"
    obtain m' sc where add: "add_finalizer_to_table ?m (rv_scratch v) f = (m', sc)" by (metis surj_pair)
    let ?v = "v\<lparr>rv_world := ?w\<lparr>fz_mem := m', fz_heap := h1\<rparr>, rv_scratch := sc, rv_f := fin_next (?mem f)\<rparr>"
    have "table_rep ?m (rv_scratch v) sb"
      using rep by (simp add: loop_rep_def table_rep_frame[OF f(3)] del: fun_upd_apply)
    from add_finalizer_to_table_rep[OF this f(2,3) room add]
    obtain sb' x where sb': "table_rep m' sc sb'" "mset (concat sb') = add_mset f (mset (concat sb))"
      "m' = ?m(f := (?m f)\<lparr>fin_next := x\<rparr>)" by blast
    note facts = mset_add_facts[OF sb'(2)]
    have "resolve_one vk visit v = Inr ?v"
      using True vk add f(1) by (simp add: resolve_one_def Let_def)
    moreover have "loop_rep ?v sb' fl"
    proof -
      have "chain (\<lambda>g. fin_next (m' g)) (fired (fz_state ?w)) fl"
        using rep by (simp add: loop_rep_def sb'(3) fin_chain_frame[OF f(4)] del: fun_upd_apply)
      moreover have "distinct (concat sb' @ fl)"
        using rep facts(1,3) f(3,4) by (auto simp: loop_rep_def simp del: set_concat)
      moreover have "\<forall>g \<in> set (concat sb'). fin_state (m' g) = Finalizer_Active"
        using rep facts(1) act sb'(3) by (auto simp: loop_rep_def simp del: set_concat)
      moreover have "\<forall>g \<in> set fl. fin_state (m' g) = Finalizer_Fired"
        using rep f(4) sb'(3) by (auto simp: loop_rep_def)
      ultimately show ?thesis using sb'(1) by (simp add: loop_rep_def)
    qed
    moreover have "ks = [(f, r)]" "ds = []" "h = h1"
      using plan vk True by (auto simp: Let_def)
    ultimately show thesis
      using that[of ?v sb'] sb'(2,3) by (simp add: resolved_def)
  next
    case False
    obtain r2 h2 where vs: "visit r h1 = (r2, h2)" by (metis surj_pair)
    let ?m = "?mem(f := (?mem f)\<lparr>fin_object := r2, fin_state := Finalizer_Fired, fin_next := fired (fz_state ?w)\<rparr>)"
    let ?w' = "?w\<lparr>fz_heap := h2, fz_mem := ?m, fz_state := (fz_state ?w)\<lparr>fired := f\<rparr>\<rparr>"
    let ?v = "v\<lparr>rv_world := ?w', rv_fired := rv_fired v + 1, rv_f := fin_next (?mem f)\<rparr>"
    have "resolve_one vk visit v = Inr ?v"
      using False vk vs f(1) act
      by (simp add: resolve_one_def Let_def add_fired_finalizer_def finalizer_list_push_def)
    moreover have "loop_rep ?v sb (f # fl)"
    proof -
      have "table_rep ?m (rv_scratch v) sb"
        using rep by (simp add: loop_rep_def table_rep_frame[OF f(3)] del: fun_upd_apply)
      moreover have "chain (\<lambda>g. fin_next (?m g)) (fired (fz_state ?w)) fl"
        using rep by (simp add: loop_rep_def fin_chain_frame[OF f(4)] del: fun_upd_apply)
      moreover have "\<forall>g \<in> set (concat sb). fin_state (?m g) = Finalizer_Active"
        using rep f(3) by (auto simp: loop_rep_def simp del: set_concat)
      ultimately show ?thesis using rep f(2,3,4) by (auto simp: loop_rep_def simp del: set_concat)
    qed
    moreover have "ks = []" "ds = [(f, r2)]" "h = h2"
      using plan vk vs False by (auto simp: Let_def)
    ultimately show thesis using that[of ?v sb] by (simp add: resolved_def)
  qed
qed

lemma resolve_list:
  assumes "chain (\<lambda>f. fin_next (fz_mem (rv_world v) f)) (rv_f v) xs" "loop_rep v sb fl"
    and "distinct xs" "set xs \<inter> set (concat sb) = {}" "set xs \<inter> set fl = {}"
    and "\<forall>f \<in> set xs. fin_state (fz_mem (rv_world v) f) = Finalizer_Active"
    and "length xs + length (concat sb) < 2 ^ 64"
    and "resolve_plan vk visit (map (\<lambda>f. (f, fin_object (fz_mem (rv_world v) f))) xs) (fz_heap (rv_world v)) = (ks, ds, h)"
  shows "\<exists>v' sb'. while_result (\<lambda>v. rv_f v \<noteq> 0) (resolve_one vk visit) v = Inr v' \<and> resolved v v' sb sb' fl xs ks ds h"
  using assms
proof (induction xs arbitrary: v sb fl ks ds h)
  case Nil
  then have "resolved v v sb sb fl [] ks ds h" "rv_f v = 0" by (simp_all add: resolved_def)
  moreover have "while_result (\<lambda>v. rv_f v \<noteq> 0) (resolve_one vk visit) v = Inr v"
    using \<open>rv_f v = 0\<close> by (subst while_result_unfold) simp
  ultimately show ?case by iprover
next
  case (Cons f xs)
  let ?mem = "fz_mem (rv_world v)"
  obtain ks1 ds1 h1 where p1: "resolve_plan vk visit [(f, fin_object (?mem f))] (fz_heap (rv_world v)) = (ks1, ds1, h1)"
    by (rule prod_cases3)
  obtain ks2 ds2 h2 where p2: "resolve_plan vk visit (map (\<lambda>f. (f, fin_object (?mem f))) xs) h1 = (ks2, ds2, h2)"
    by (rule prod_cases3)
  have p: "ks = ks1 @ ks2" "ds = ds1 @ ds2" "h = h2"
    using Cons.prems(8) resolve_plan_split[OF p1 p2] by simp_all
  have f: "f = rv_f v" "f \<noteq> 0" "f \<notin> set (concat sb)" "f \<notin> set fl"
    using Cons.prems(1,4,5) by auto
  have act: "fin_state (?mem f) = Finalizer_Active" using Cons.prems(6) by simp
  have room: "length (concat sb) < 2 ^ 64 - 1" using Cons.prems(7) by simp
  obtain v1 sb1 where v1: "resolve_one vk visit v = Inr v1" "rv_f v1 = fin_next (?mem f)"
    "resolved v v1 sb sb1 fl [f] ks1 ds1 h1"
    by (rule resolve_one_resolved[OF Cons.prems(2) f act room p1])
  have m: "mset (map fst ks1) + mset (map fst ds1) = {#f#}"
    using resolve_plan_mset[OF p1] by simp
  have frame: "fz_mem (rv_world v1) g = ?mem g" if "g \<in> set xs" for g
    using v1(3) that Cons.prems(3) by (auto simp: resolved_def)
  have sb1: "mset (concat sb1) = mset (map fst ks1) + mset (concat sb)"
    using v1(3) by (simp add: resolved_def)
  have sets: "set (map fst ks1) \<union> set (map fst ds1) = {f}"
    using arg_cong[OF m, of set_mset] by simp
  have "set (concat sb1) \<subseteq> insert f (set (concat sb))"
    using arg_cong[OF sb1, of set_mset] sets by (auto simp del: set_concat)
  moreover have "set (rev (map fst ds1) @ fl) \<subseteq> insert f (set fl)" using sets by auto
  moreover have "length (concat sb1) \<le> Suc (length (concat sb))"
    using arg_cong[OF sb1, of size] arg_cong[OF m, of size] by simp
  ultimately have side: "set xs \<inter> set (concat sb1) = {}" "set xs \<inter> set (rev (map fst ds1) @ fl) = {}"
    "length xs + length (concat sb1) < 2 ^ 64"
    using Cons.prems(3,4,5,7) by (auto simp del: set_concat)
  have "chain (\<lambda>f. fin_next (fz_mem (rv_world v1) f)) (rv_f v1) xs"
    using Cons.prems(1) chain_cong[of xs "\<lambda>f. fin_next (fz_mem (rv_world v1) f)" "\<lambda>f. fin_next (?mem f)"]
      frame v1(2) by simp
  moreover have "loop_rep v1 sb1 (rev (map fst ds1) @ fl)" using v1(3) by (simp add: resolved_def)
  moreover have "\<forall>f \<in> set xs. fin_state (fz_mem (rv_world v1) f) = Finalizer_Active"
    using Cons.prems(6) frame by simp
  moreover have "resolve_plan vk visit (map (\<lambda>f. (f, fin_object (fz_mem (rv_world v1) f))) xs) (fz_heap (rv_world v1)) = (ks2, ds2, h2)"
    using p2 v1(3) frame by (simp add: resolved_def cong: map_cong)
  ultimately obtain v2 sb2 where v2: "while_result (\<lambda>v. rv_f v \<noteq> 0) (resolve_one vk visit) v1 = Inr v2"
    "resolved v1 v2 sb1 sb2 (rev (map fst ds1) @ fl) xs ks2 ds2 h2"
    using Cons.IH[of v1 sb1 "rev (map fst ds1) @ fl" ks2 ds2 h2] Cons.prems(3) side by auto
  have "resolved v v2 sb sb2 fl ([f] @ xs) (ks1 @ ks2) (ds1 @ ds2) h2"
    by (rule resolved_trans[OF v1(3) v2(2)]) (use sets Cons.prems(3) in auto)
  moreover have "while_result (\<lambda>v. rv_f v \<noteq> 0) (resolve_one vk visit) v = Inr v2"
    using v1(1) v2(1) f(1,2) by (subst while_result_unfold) simp
  ultimately show ?case unfolding p by (simp only: append.simps) iprover
qed

lemma resolve_buckets:
  assumes "\<forall>b \<in> set bs. chain (\<lambda>f. fin_next (fz_mem (rv_world v) f)) (buckets ! b) (bl ! b)" "loop_rep v sb fl"
    and "distinct (concat (map ((!) bl) bs))" "set (concat (map ((!) bl) bs)) \<inter> set (concat sb) = {}"
    and "set (concat (map ((!) bl) bs)) \<inter> set fl = {}"
    and "\<forall>f \<in> set (concat (map ((!) bl) bs)). fin_state (fz_mem (rv_world v) f) = Finalizer_Active"
    and "length (concat (map ((!) bl) bs)) + length (concat sb) < 2 ^ 64"
    and "resolve_plan vk visit (map (\<lambda>f. (f, fin_object (fz_mem (rv_world v) f))) (concat (map ((!) bl) bs)))
      (fz_heap (rv_world v)) = (ks, ds, h)"
  shows "\<exists>v' sb'. result_fold (\<lambda>b. resolve_bucket vk visit (buckets ! b)) bs v = Inr v'
    \<and> resolved v v' sb sb' fl (concat (map ((!) bl) bs)) ks ds h"
  using assms
proof (induction bs arbitrary: v sb fl ks ds h)
  case Nil
  then have "resolved v v sb sb fl [] ks ds h" by (simp add: resolved_def)
  moreover have "result_fold (\<lambda>b. resolve_bucket vk visit (buckets ! b)) [] v = Inr v" by simp
  ultimately show ?case by (simp only: list.map concat.simps) iprover
next
  case (Cons b bs)
  let ?mem = "fz_mem (rv_world v)" and ?rest = "concat (map ((!) bl) bs)"
  obtain ks1 ds1 h1 where p1: "resolve_plan vk visit (map (\<lambda>f. (f, fin_object (?mem f))) (bl ! b)) (fz_heap (rv_world v)) = (ks1, ds1, h1)"
    by (rule prod_cases3)
  obtain ks2 ds2 h2 where p2: "resolve_plan vk visit (map (\<lambda>f. (f, fin_object (?mem f))) ?rest) h1 = (ks2, ds2, h2)"
    by (rule prod_cases3)
  have p: "ks = ks1 @ ks2" "ds = ds1 @ ds2" "h = h2"
    using Cons.prems(8) p1 p2 by (simp_all add: resolve_plan_append)
  let ?v = "v\<lparr>rv_f := buckets ! b\<rparr>"
  have "\<exists>v' sb'. while_result (\<lambda>v. rv_f v \<noteq> 0) (resolve_one vk visit) ?v = Inr v' \<and> resolved ?v v' sb sb' fl (bl ! b) ks1 ds1 h1"
    by (rule resolve_list) (use Cons.prems p1 in \<open>auto simp: loop_rep_def\<close>)
  then obtain v1 sb1 where v1: "resolve_bucket vk visit (buckets ! b) v = Inr v1" "resolved v v1 sb sb1 fl (bl ! b) ks1 ds1 h1"
    unfolding resolve_bucket_def by (auto simp: resolved_def)
  have m: "mset (map fst ks1) + mset (map fst ds1) = mset (bl ! b)"
    using resolve_plan_mset[OF p1] by (simp add: comp_def)
  have dis: "set (bl ! b) \<inter> set ?rest = {}" "distinct ?rest" using Cons.prems(3) by auto
  have frame: "fz_mem (rv_world v1) g = ?mem g" if "g \<in> set ?rest" for g
    using v1(2) that dis by (auto simp: resolved_def)
  have sb1: "mset (concat sb1) = mset (map fst ks1) + mset (concat sb)"
    using v1(2) by (simp add: resolved_def)
  have sets: "set (map fst ks1) \<union> set (map fst ds1) = set (bl ! b)"
    using arg_cong[OF m, of set_mset] by simp
  have "set (concat sb1) \<subseteq> set (bl ! b) \<union> set (concat sb)"
    using arg_cong[OF sb1, of set_mset] sets by (auto simp del: set_concat)
  moreover have "set (rev (map fst ds1) @ fl) \<subseteq> set (bl ! b) \<union> set fl" using sets by auto
  moreover have "length (concat sb1) \<le> length (bl ! b) + length (concat sb)"
    using arg_cong[OF sb1, of size] arg_cong[OF m, of size] by simp
  ultimately have side: "set ?rest \<inter> set (concat sb1) = {}" "set ?rest \<inter> set (rev (map fst ds1) @ fl) = {}"
    "length ?rest + length (concat sb1) < 2 ^ 64"
    using Cons.prems(4,5,7) dis by (auto simp del: set_concat)
  have "chain (\<lambda>f. fin_next (fz_mem (rv_world v1) f)) (buckets ! c) (bl ! c)" if "c \<in> set bs" for c
  proof -
    have "chain (\<lambda>f. fin_next (fz_mem (rv_world v1) f)) p (bl ! c) = chain (\<lambda>f. fin_next (?mem f)) p (bl ! c)" for p
      by (rule chain_cong, subst frame) (use that in auto)
    then show ?thesis using Cons.prems(1) that by simp
  qed
  moreover have "loop_rep v1 sb1 (rev (map fst ds1) @ fl)" using v1(2) by (simp add: resolved_def)
  moreover have "\<forall>f \<in> set ?rest. fin_state (fz_mem (rv_world v1) f) = Finalizer_Active"
    using Cons.prems(6) frame by simp
  moreover have "resolve_plan vk visit (map (\<lambda>f. (f, fin_object (fz_mem (rv_world v1) f))) ?rest) (fz_heap (rv_world v1)) = (ks2, ds2, h2)"
  proof -
    have "map (\<lambda>f. (f, fin_object (fz_mem (rv_world v1) f))) ?rest = map (\<lambda>f. (f, fin_object (?mem f))) ?rest"
      by (rule map_cong[OF refl], subst frame) (simp_all only:)
    moreover have "fz_heap (rv_world v1) = h1" using v1(2) by (simp add: resolved_def)
    ultimately show ?thesis using p2 by (simp only:)
  qed
  ultimately obtain v2 sb2 where v2: "result_fold (\<lambda>b. resolve_bucket vk visit (buckets ! b)) bs v1 = Inr v2"
    "resolved v1 v2 sb1 sb2 (rev (map fst ds1) @ fl) ?rest ks2 ds2 h2"
    using Cons.IH[of v1 sb1 "rev (map fst ds1) @ fl" ks2 ds2 h2, OF _ _ dis(2) side(1,2) _ side(3)] by fast
  have "resolved v v2 sb sb2 fl (bl ! b @ ?rest) (ks1 @ ks2) (ds1 @ ds2) h2"
    by (rule resolved_trans[OF v1(2) v2(2)]) (use sets dis in auto)
  moreover have "result_fold (\<lambda>b. resolve_bucket vk visit (buckets ! b)) (b # bs) v = Inr v2"
    using v1(1) v2(1) by simp
  ultimately show ?case unfolding p by (simp only: list.map concat.simps) iprover
qed

lemma tables_update:
  assumes "p < length tbs"
  obtains M where "mset (concat (concat tbs)) = M + mset (concat (tbs ! p))"
    "\<And>tb. mset (concat (concat (tbs[p := tb]))) = M + mset (concat tb)"
    "\<And>t. t < length tbs \<Longrightarrow> t \<noteq> p \<Longrightarrow> set (concat (tbs ! t)) \<subseteq> set_mset M"
proof
  let ?xs = "take p tbs" and ?ys = "drop (Suc p) tbs"
  have "concat (concat tbs) = concat (concat ?xs) @ concat (tbs ! p) @ concat (concat ?ys)"
    using arg_cong[OF id_take_nth_drop[OF assms], of "\<lambda>t. concat (concat t)"] by simp
  then show "mset (concat (concat tbs)) = mset (concat (concat ?xs) @ concat (concat ?ys)) + mset (concat (tbs ! p))"
    by (simp add: ac_simps)
  show "mset (concat (concat (tbs[p := tb]))) = mset (concat (concat ?xs) @ concat (concat ?ys)) + mset (concat tb)" for tb
    unfolding upd_conv_take_nth_drop[OF assms] by (simp add: ac_simps)
  show "set (concat (tbs ! t)) \<subseteq> set_mset (mset (concat (concat ?xs) @ concat (concat ?ys)))"
    if "t < length tbs" "t \<noteq> p" for t
  proof -
    have "tbs ! t \<in> set ?xs \<union> set ?ys"
    proof (cases "t < p")
      case True
      then show ?thesis using that in_set_conv_nth[of "tbs ! t" ?xs] by auto
    next
      case False
      then have "?ys ! (t - Suc p) = tbs ! t" "t - Suc p < length ?ys" using that by auto
      then have "tbs ! t \<in> set ?ys" by (metis nth_mem)
      then show ?thesis by simp
    qed
    then show ?thesis by auto
  qed
qed

text \<open>
  Replacing one table, and the fired list, by lists of the same finalizers: what \<open>attach\<close>,
  \<open>resolve\<close> and the firing of a finalizer owe to the rest of the state.
\<close>

lemma fin_rep_update:
  assumes rep: "fin_rep w tbs fl" and p: "p < length tbs"
    and table: "table_rep mem' table' tb" and fired: "chain (\<lambda>f. fin_next (mem' f)) q fl'"
    and old: "set xs \<inter> set (concat (concat tbs)) \<subseteq> set (concat (tbs ! p))"
    and all: "mset (concat tb) + mset fl' = mset xs + mset fl" "distinct (xs @ fl)"
    and cover: "set (concat (tbs ! p)) \<subseteq> set xs"
    and frame: "\<And>f. f \<notin> set xs \<Longrightarrow> f \<notin> set fl \<Longrightarrow> mem' f = fz_mem w f"
    and states: "\<forall>f \<in> set (concat tb). fin_state (mem' f) = Finalizer_Active"
      "\<forall>f \<in> set fl'. fin_state (mem' f) = Finalizer_Fired"
    and w': "fz_mem w' = mem'" "fin_tables (fz_state w') = (fin_tables (fz_state w))[p := table']"
      "fired (fz_state w') = q"
  shows "fin_rep w' (tbs[p := tb]) fl'"
proof -
  obtain M where M: "mset (concat (concat tbs)) = M + mset (concat (tbs ! p))"
    "\<And>tb. mset (concat (concat (tbs[p := tb]))) = M + mset (concat tb)"
    "\<And>t. t < length tbs \<Longrightarrow> t \<noteq> p \<Longrightarrow> set (concat (tbs ! t)) \<subseteq> set_mset M"
    using tables_update[OF p] by metis
  have dist: "distinct (concat (concat tbs) @ fl)" using rep by (simp add: fin_rep_def)
  obtain ms where ms: "M = mset ms" by (metis ex_mset)
  have "mset (concat (concat tbs) @ fl) = mset (ms @ concat (tbs ! p) @ fl)" using M(1) ms by simp
  then have d: "distinct (ms @ concat (tbs ! p) @ fl)" using dist mset_eq_imp_distinct_iff by blast
  have ms_sub: "set ms \<subseteq> set (concat (concat tbs))"
    using arg_cong[OF M(1), of set_mset] ms by auto
  then have disj: "set ms \<inter> set xs = {}" "set ms \<inter> set fl = {}" using d old by (auto simp del: set_concat)
  have new: "mset (concat (concat (tbs[p := tb])) @ fl') = mset (ms @ xs @ fl)"
    using M(2) ms all(1) by (simp add: add.assoc)
  have "distinct (ms @ xs @ fl)" using d all(2) disj by auto
  then have dist': "distinct (concat (concat (tbs[p := tb])) @ fl')"
    using new mset_eq_imp_distinct_iff by blast
  have keep: "mem' f = fz_mem w f" if "f \<in> set ms" for f
    by (rule frame) (use that disj in auto)
  have "table_rep mem' (fin_tables (fz_state w') ! t) (tbs[p := tb] ! t)" if t: "t < length tbs" for t
  proof (cases "t = p")
    case False
    have "mem' f = fz_mem w f" if "f \<in> set (concat (tbs ! t))" for f
      using M(3)[OF t False] that keep ms by auto
    then have "table_rep mem' (fin_tables (fz_state w) ! t) (tbs ! t) = table_rep (fz_mem w) (fin_tables (fz_state w) ! t) (tbs ! t)"
      by (intro table_rep_cong) simp
    then show ?thesis using rep t False w'(2) by (simp add: fin_rep_def)
  qed (use table w'(2) p rep in \<open>simp add: fin_rep_def\<close>)
  moreover have "\<forall>f \<in> set (concat (concat (tbs[p := tb]))). fin_state (mem' f) = Finalizer_Active"
  proof
    fix f assume "f \<in> set (concat (concat (tbs[p := tb])))"
    then have "f \<in> set ms \<union> set (concat tb)" using arg_cong[OF M(2)[of tb], of set_mset] ms by (auto simp del: set_concat)
    then show "fin_state (mem' f) = Finalizer_Active"
      using states(1) keep ms_sub rep unfolding fin_rep_def by (auto simp del: set_concat)
  qed
  ultimately show ?thesis using rep dist' fired states(2) w' unfolding fin_rep_def by simp
qed

lemma fin_rep_distinct:
  assumes "fin_rep w tbs fl" "p < length tbs"
  shows "distinct (concat (tbs ! p) @ fl)" "set (concat (tbs ! p)) \<subseteq> set (concat (concat tbs))"
proof -
  obtain M where M: "mset (concat (concat tbs)) = M + mset (concat (tbs ! p))"
    using tables_update[OF assms(2)] by metis
  then show sub: "set (concat (tbs ! p)) \<subseteq> set (concat (concat tbs))"
    unfolding set_mset_mset[symmetric] M by (simp only: set_mset_union Un_upper2)
  obtain ms where ms: "M = mset ms" by (metis ex_mset)
  have "distinct (ms @ concat (tbs ! p) @ fl) = distinct (concat (concat tbs) @ fl)"
    by (rule mset_eq_imp_distinct_iff) (simp add: M ms)
  then show "distinct (concat (tbs ! p) @ fl)" using assms(1) by (simp add: fin_rep_def)
qed

lemma resolve_table:
  assumes rep: "fin_rep w tbs fl" and p: "p < length tbs"
    and plan: "resolve_plan vk visit (map (\<lambda>f. (f, fin_object (fz_mem w f))) (concat (tbs ! p))) (fz_heap w) = (ks, ds, h)"
  shows "\<exists>w' tb. gc_resolve_finalizers vk visit p w = Inr (of_nat (length ds), w')
    \<and> fin_rep w' (tbs[p := tb]) (rev (map fst ds) @ fl) \<and> mset (concat tb) = mset (map fst ks)
    \<and> fz_heap w' = h
    \<and> (\<forall>x \<in> set (ks @ ds). fin_object (fz_mem w' (fst x)) = snd x)
    \<and> (\<forall>f. f \<notin> set (concat (tbs ! p)) \<longrightarrow> fz_mem w' f = fz_mem w f)
    \<and> fired_this_cycle (fz_state w') = fired_this_cycle (fz_state w) + of_nat (length ds)"
proof -
  let ?table = "fin_tables (fz_state w) ! p" and ?bl = "tbs ! p"
  let ?v = "\<lparr> rv_world = w, rv_scratch = empty_table, rv_fired = 0, rv_f = 0 \<rparr>"
  let ?fs = "concat ?bl"
  have len: "p < length (fin_tables (fz_state w))" using rep p by (simp add: fin_rep_def)
  have tr: "table_rep (fz_mem w) ?table ?bl" using rep p by (simp add: fin_rep_def)
  note dist = fin_rep_distinct[OF rep p]
  have m: "mset (map fst ks) + mset (map fst ds) = mset ?fs"
    using resolve_plan_mset[OF plan] by (simp add: comp_def)
  have cnt: "finalizer_count ?table = of_nat (length ?fs)" "length ?fs < 2 ^ 64"
    using tr by (simp_all add: table_rep_def)
  show ?thesis
  proof (cases "finalizer_count ?table = 0")
    case True
    have "length ?fs = 0" using True cnt of_nat_inverse[of "length ?fs" "0 :: u64"] by simp
    then have fs: "?fs = []" by (simp only: length_0_conv)
    let ?w = "w\<lparr>fz_state := (fz_state w)\<lparr>fired_this_cycle := fired_this_cycle (fz_state w) + 0\<rparr>\<rparr>"
    have kd: "ks = []" "ds = []" "h = fz_heap w" using plan unfolding fs by simp_all
    have "gc_resolve_finalizers vk visit p w = Inr (0, ?w)"
      using True len by (simp add: gc_resolve_finalizers_def Let_def)
    moreover have "fin_rep ?w (tbs[p := ?bl]) fl" using rep by (simp add: fin_rep_def)
    ultimately show ?thesis unfolding kd using fs by (intro exI[of _ ?w] exI[of _ ?bl]) (simp del: set_concat concat_eq_Nil_conv)
  next
    case False
    have bl: "map ((!) ?bl) [0..<BUCKET_COUNT] = ?bl"
      using tr map_nth[of ?bl] by (simp add: table_rep_def)
    have "\<exists>v' sb'. result_fold (\<lambda>b. resolve_bucket vk visit (fin_buckets ?table ! b)) [0..<BUCKET_COUNT] ?v = Inr v'
      \<and> resolved ?v v' (replicate BUCKET_COUNT []) sb' fl (concat (map ((!) ?bl) [0..<BUCKET_COUNT])) ks ds h"
    proof (rule resolve_buckets)
      show "loop_rep ?v (replicate BUCKET_COUNT []) fl"
        using rep by (auto simp: loop_rep_def fin_rep_def table_rep_empty concat_replicate_trivial)
      show "\<forall>b \<in> set [0..<BUCKET_COUNT]. chain (\<lambda>f. fin_next (fz_mem (rv_world ?v) f)) (fin_buckets ?table ! b) (?bl ! b)"
        using tr by (simp add: table_rep_def)
    qed (use dist plan cnt(2) rep in \<open>auto simp: bl concat_replicate_trivial fin_rep_def simp del: set_concat\<close>)
    then obtain v' sb' where v': "result_fold (\<lambda>b. resolve_bucket vk visit (fin_buckets ?table ! b)) [0..<BUCKET_COUNT] ?v = Inr v'"
      "resolved ?v v' (replicate BUCKET_COUNT []) sb' fl ?fs ks ds h"
      unfolding bl by blast
    let ?st = "(fz_state (rv_world v'))\<lparr>fin_tables := (fin_tables (fz_state w))[p := rv_scratch v'], fired_this_cycle := fired_this_cycle (fz_state w) + rv_fired v'\<rparr>"
    let ?w = "(rv_world v')\<lparr>fz_state := ?st\<rparr>"
    have st: "fz_state (rv_world v') = (fz_state w)\<lparr>fired := fired (fz_state (rv_world v'))\<rparr>"
      using v'(2) by (simp add: resolved_def)
    then have st': "fin_tables (fz_state (rv_world v')) = fin_tables (fz_state w)"
      "fired_this_cycle (fz_state (rv_world v')) = fired_this_cycle (fz_state w)"
      by (metis gc_finalizer_state.select_convs gc_finalizer_state.surjective gc_finalizer_state.update_convs)+
    have n: "rv_fired v' = of_nat (length ds)" using v'(2) by (simp add: resolved_def)
    have "gc_resolve_finalizers vk visit p w = Inr (of_nat (length ds), ?w)"
      using False len v'(1) n st' by (simp add: gc_resolve_finalizers_def Let_def)
    moreover have sb': "mset (concat sb') = mset (map fst ks)"
      using v'(2) by (simp add: resolved_def concat_replicate_trivial)
    moreover have "fin_rep ?w (tbs[p := sb']) (rev (map fst ds) @ fl)"
    proof (rule fin_rep_update[OF rep p])
      show "table_rep (fz_mem (rv_world v')) (rv_scratch v') sb'"
        "chain (\<lambda>f. fin_next (fz_mem (rv_world v') f)) (fired (fz_state (rv_world v'))) (rev (map fst ds) @ fl)"
        "\<forall>f \<in> set (concat sb'). fin_state (fz_mem (rv_world v') f) = Finalizer_Active"
        "\<forall>f \<in> set (rev (map fst ds) @ fl). fin_state (fz_mem (rv_world v') f) = Finalizer_Fired"
        using v'(2) by (simp_all add: resolved_def loop_rep_def)
      show "mset (concat sb') + mset (rev (map fst ds) @ fl) = mset ?fs + mset fl"
        using sb' m by (simp add: ac_simps)
      show "fz_mem (rv_world v') f = fz_mem w f" if "f \<notin> set ?fs" for f
        using v'(2) that by (simp add: resolved_def)
    qed (use dist in simp_all)
    ultimately show ?thesis using v'(2) n unfolding resolved_def
      by (intro exI[of _ ?w] exI[of _ sb']) simp
  qed
qed

subsection \<open>The life of a finalizer\<close>

lemma fin_rep_same:
  assumes "fin_rep w tbs fl"
    and "\<And>f. f \<in> set (concat (concat tbs) @ fl) \<Longrightarrow> fin_next (fz_mem w' f) = fin_next (fz_mem w f)
      \<and> fin_state (fz_mem w' f) = fin_state (fz_mem w f)"
    and "fin_tables (fz_state w') = fin_tables (fz_state w)" "fired (fz_state w') = fired (fz_state w)"
  shows "fin_rep w' tbs fl"
proof -
  have "table_rep (fz_mem w') table (tbs ! t) = table_rep (fz_mem w) table (tbs ! t)" if "t < length tbs" for t table
  proof (rule table_rep_cong)
    fix f assume "f \<in> set (concat (tbs ! t))"
    then have "f \<in> set (concat (concat tbs) @ fl)" using that by (auto intro: nth_mem)
    then show "fin_next (fz_mem w' f) = fin_next (fz_mem w f)" using assms(2) by blast
  qed
  moreover have "chain (\<lambda>f. fin_next (fz_mem w' f)) p fl = chain (\<lambda>f. fin_next (fz_mem w f)) p fl" for p
    by (rule chain_cong) (use assms(2) in auto)
  moreover have "\<forall>f \<in> set (concat (concat tbs)). fin_state (fz_mem w' f) = fin_state (fz_mem w f)"
    "\<forall>f \<in> set fl. fin_state (fz_mem w' f) = fin_state (fz_mem w f)"
    using assms(2) by simp_all
  ultimately show ?thesis using assms(1,3,4) unfolding fin_rep_def by simp
qed

lemma distinct_addresses:
  assumes "distinct (x # xs)" "0 \<notin> set (x # xs)"
  shows "length (xs :: u64 list) < 2 ^ 64 - 1"
proof -
  have "length (0 # x # xs) = card (set (0 # x # xs))" using assms by (intro distinct_card[symmetric]) auto
  also have "\<dots> \<le> card (UNIV :: u64 set)" by (rule card_mono) auto
  also have "\<dots> = 2 ^ 64" by (simp add: card_word)
  finally show ?thesis by simp
qed

lemma table_rep_nonzero: "table_rep mem table bl \<Longrightarrow> 0 \<notin> set (concat bl)"
proof
  assume rep: "table_rep mem table bl" and "0 \<in> set (concat bl)"
  then obtain b where "b < BUCKET_COUNT" "0 \<in> set (bl ! b)"
    by (auto simp: table_rep_def in_set_conv_nth[of _ bl])
  then show False using rep chain_nonzero unfolding table_rep_def by blast
qed

lemma attach_rep:
  assumes rep: "fin_rep w tbs fl" and p: "p < length tbs" and f: "f \<noteq> 0"
    and eq: "gc_finalizer_attach_internal w f p = Inr w'"
  shows "\<exists>tb. fin_rep w' (tbs[p := tb]) fl \<and> mset (concat tb) = add_mset f (mset (concat (tbs ! p)))"
proof -
  let ?mem = "(fz_mem w)(f := (fz_mem w f)\<lparr>fin_state := Finalizer_Active\<rparr>)"
  let ?table = "fin_tables (fz_state w) ! p"
  have st: "fin_state (fz_mem w f) = Finalizer_Init"
    using eq by (auto simp: gc_finalizer_attach_internal_def Let_def split: if_splits)
  have len: "length (fin_tables (fz_state w)) = length tbs" using rep by (simp add: fin_rep_def)
  obtain mem' table' where add: "add_finalizer_to_table ?mem ?table f = (mem', table')" by (rule prod.exhaust)
  have w': "w' = w\<lparr>fz_mem := mem', fz_state := (fz_state w)\<lparr>fin_tables := (fin_tables (fz_state w))[p := table']\<rparr>\<rparr>"
    using eq add p len st by (auto simp: gc_finalizer_attach_internal_def Let_def split: if_splits)
  note dist = fin_rep_distinct[OF rep p]
  have fresh: "f \<notin> set (concat (concat tbs))" "f \<notin> set fl" using rep st by (auto simp: fin_rep_def)
  then have fresh': "f \<notin> set (concat (tbs ! p))" using dist(2) by blast
  have tr: "table_rep (fz_mem w) ?table (tbs ! p)" using rep p by (simp add: fin_rep_def)
  then have tr': "table_rep ?mem ?table (tbs ! p)" by (simp only: table_rep_frame[OF fresh'])
  have "length (concat (tbs ! p)) < 2 ^ 64 - 1"
    by (rule distinct_addresses[of f]) (use fresh' dist(1) f table_rep_nonzero[OF tr] in auto)
  from add_finalizer_to_table_rep[OF tr' f fresh' this add]
  obtain tb v where tb: "table_rep mem' table' tb" "mset (concat tb) = add_mset f (mset (concat (tbs ! p)))"
    "mem' = ?mem(f := (?mem f)\<lparr>fin_next := v\<rparr>)" by blast
  have "fin_rep w' (tbs[p := tb]) fl"
  proof (rule fin_rep_update[OF rep p tb(1)])
    show "set (f # concat (tbs ! p)) \<inter> set (concat (concat tbs)) \<subseteq> set (concat (tbs ! p))"
      using fresh by auto
    show "chain (\<lambda>g. fin_next (mem' g)) (fired (fz_state w)) fl"
      using rep by (simp add: fin_rep_def tb(3) fin_chain_frame[OF fresh(2)] del: fun_upd_apply)
    show "\<forall>g \<in> set (concat tb). fin_state (mem' g) = Finalizer_Active"
      using mset_add_facts(1)[OF tb(2)] dist(2) rep unfolding fin_rep_def tb(3) by (auto simp del: set_concat)
    show "\<forall>g \<in> set fl. fin_state (mem' g) = Finalizer_Fired"
      using rep fresh(2) unfolding fin_rep_def tb(3) by auto
  qed (use tb dist fresh' fresh w' in \<open>auto simp del: set_concat\<close>)
  then show ?thesis using tb(2) by blast
qed

lemma attach_total:
  assumes "fin_state (fz_mem w f) = Finalizer_Init" "fin_object (fz_mem w f) \<noteq> 0" "p < length (fin_tables (fz_state w))"
  shows "\<exists>w'. gc_finalizer_attach_internal w f p = Inr w'"
  using assms by (simp add: gc_finalizer_attach_internal_def gc_ref_is_null_def Let_def split: prod.split)

lemma pop_rep:
  assumes "fin_rep w tbs fl"
  shows "(fl = [] \<and> gc_finalizer_state_pop w = (0, w))
    \<or> (\<exists>w'. fl \<noteq> [] \<and> gc_finalizer_state_pop w = (hd fl, w') \<and> fin_rep w' tbs (tl fl)
        \<and> fin_next (fz_mem w' (hd fl)) = 0)"
proof (cases fl)
  case Nil
  then have "fired (fz_state w) = 0" using assms by (simp add: fin_rep_def)
  then have "gc_finalizer_state_pop w = (0, w)"
    by (simp add: gc_finalizer_state_pop_def finalizer_list_pop_def)
  then show ?thesis using Nil by simp
next
  case (Cons f fs)
  let ?mem = "(fz_mem w)(f := (fz_mem w f)\<lparr>fin_next := 0\<rparr>)"
  let ?w = "w\<lparr>fz_mem := ?mem, fz_state := (fz_state w)\<lparr>fired := fin_next (fz_mem w f)\<rparr>\<rparr>"
  have ch: "fired (fz_state w) = f" "f \<noteq> 0" "chain (\<lambda>f. fin_next (fz_mem w f)) (fin_next (fz_mem w f)) fs"
    and dist: "distinct (concat (concat tbs) @ f # fs)"
    using assms Cons by (simp_all add: fin_rep_def)
  have "gc_finalizer_state_pop w = (f, ?w)"
    using ch by (simp add: gc_finalizer_state_pop_def finalizer_list_pop_def Let_def)
  moreover have "fin_rep (w\<lparr>fz_state := (fz_state w)\<lparr>fired := fin_next (fz_mem w f)\<rparr>\<rparr>) tbs fs"
    using assms Cons ch by (simp add: fin_rep_def)
  then have "fin_rep ?w tbs fs" by (rule fin_rep_same) (use dist in \<open>auto simp del: set_concat\<close>)
  ultimately show ?thesis using Cons by simp
qed

lemma externally_fired_rep:
  assumes rep: "fin_rep w tbs fl" and f: "f \<noteq> 0" "f \<notin> set (concat (concat tbs))"
    and eq: "gc_finalizer_externally_fired w f = Inr w'"
  shows "fin_rep w' tbs (f # fl)"
proof -
  let ?w = "w\<lparr>fz_mem := (fz_mem w)(f := (fz_mem w f)\<lparr>fin_state := Finalizer_Fired, fin_next := fired (fz_state w)\<rparr>)\<rparr>"
  have st: "fin_state (fz_mem w f) = Finalizer_Active"
    and w': "w' = ?w\<lparr>fz_state := (fz_state w)\<lparr>fired := f\<rparr>\<rparr>"
    using eq by (auto simp: gc_finalizer_externally_fired_def add_fired_finalizer_def
        finalizer_list_push_def Let_def split: if_splits)
  have "f \<notin> set fl" using rep st by (auto simp: fin_rep_def)
  then have "fin_rep ?w tbs fl"
    by (intro fin_rep_same[OF rep]) (use f in \<open>auto simp del: set_concat\<close>)
  then show ?thesis using f \<open>f \<notin> set fl\<close> w' by (simp add: fin_rep_def)
qed

text \<open>
  The steps of a finalizer's life. A new finalizer is memory that the state does not hold; a visitor
  of the roots, or of a finalizer, leaves finalizers where they are.
\<close>

definition fin_held :: "'h fin_world \<Rightarrow> u64 \<Rightarrow> bool" where
  "fin_held w f \<longleftrightarrow> (\<exists>tbs fl. fin_rep w tbs fl \<and> f \<in> set (concat (concat tbs) @ fl))"

definition in_place :: "'h visit_ref \<Rightarrow> bool" where
  "in_place visit \<longleftrightarrow> (\<forall>r h. fst (visit r h) = r)"

inductive fin_step :: "'h visit_key \<Rightarrow> 'h visit_ref \<Rightarrow> 'h fin_world \<Rightarrow> 'h fin_world \<Rightarrow> bool" for vk visit where
  allocate: "\<not> fin_held w f \<Longrightarrow> fin_step vk visit w (w\<lparr>fz_mem := (fz_mem w)(f :=
    \<lparr> fin_state = Finalizer_Init, fin_object = 0, fin_closure = 0, fin_next = 0 \<rparr>)\<rparr>)"
| init: "gc_finalizer_init_internal (fz_mem w) f obj closure = Inr mem \<Longrightarrow> fin_step vk visit w (w\<lparr>fz_mem := mem\<rparr>)"
| attach: "f \<noteq> 0 \<Longrightarrow> gc_finalizer_attach_internal w f p = Inr w' \<Longrightarrow> fin_step vk visit w w'"
| pop: "gc_finalizer_state_pop w = (f, w') \<Longrightarrow> fin_step vk visit w w'"
| resolve: "gc_resolve_finalizers vk visit p w = Inr (n, w') \<Longrightarrow> fin_step vk visit w w'"
| notify: "fin_step vk visit w (gc_notify_finalizers w)"
| callback: "fin_step vk visit w (w\<lparr>fz_state := gc_finalizer_state_set_callback (fz_state w) c\<rparr>)"
| activate: "gc_finalizer_externally_activated (fz_mem w) f = Inr mem \<Longrightarrow> fin_step vk visit w (w\<lparr>fz_mem := mem\<rparr>)"
| fire: "f \<noteq> 0 \<Longrightarrow> \<not> fin_held w f \<Longrightarrow> gc_finalizer_externally_fired w f = Inr w' \<Longrightarrow> fin_step vk visit w w'"
| roots: "in_place visit \<Longrightarrow> gc_visit_finalizer_roots visit w = (n, w') \<Longrightarrow> fin_step vk visit w w'"
| trace: "in_place visit \<Longrightarrow> fin_step vk visit w (gc_trace_finalizer visit f w)"

inductive fin_reach :: "'h visit_key \<Rightarrow> 'h visit_ref \<Rightarrow> nat \<Rightarrow> 'h fin_world \<Rightarrow> bool" for vk visit n where
  made: "fin_reach vk visit n \<lparr> fz_mem = mem, fz_state = gc_make_finalizer_state n, fz_heap = h \<rparr>"
| step: "fin_reach vk visit n w \<Longrightarrow> fin_step vk visit w w' \<Longrightarrow> fin_reach vk visit n w'"

lemma in_place_visit: "in_place visit \<Longrightarrow> visit r h = (r', h') \<Longrightarrow> r' = r"
  unfolding in_place_def by (metis fst_conv)

lemma visit_buckets_in_place: "in_place visit \<Longrightarrow> fst (visit_buckets visit ps h) = ps"
  by (induction visit ps h rule: visit_buckets.induct)
    (auto simp: Let_def split: prod.splits dest: in_place_visit)

lemma visit_tables_in_place:
  assumes "in_place visit"
  shows "\<exists>h'. visit_tables visit ts n h = (n + sum_list (map finalizer_count ts), ts, h')"
proof (induction ts arbitrary: n h)
  case (Cons t ts)
  obtain h1 where b: "visit_buckets visit (fin_buckets t) h = (fin_buckets t, h1)"
    using visit_buckets_in_place[OF assms, of "fin_buckets t" h] by (metis surj_pair fst_conv)
  obtain h2 where h2: "visit_tables visit ts (n + finalizer_count t) h1 = (n + finalizer_count t + sum_list (map finalizer_count ts), ts, h2)"
    using Cons by blast
  obtain h3 where h3: "visit_tables visit ts n h = (n + sum_list (map finalizer_count ts), ts, h3)"
    using Cons by blast
  show ?case by (cases "finalizer_count t = 0") (simp_all add: b h2 h3 add.assoc)
qed simp

lemma visit_roots_in_place:
  assumes "in_place visit" "gc_visit_finalizer_roots visit w = (n, w')"
  shows "fz_mem w' = fz_mem w" "fz_state w' = fz_state w"
    "n = sum_list (map finalizer_count (fin_tables (fz_state w)))"
proof -
  obtain h1 where h1: "visit_tables visit (fin_tables (fz_state w)) 0 (fz_heap w)
    = (0 + sum_list (map finalizer_count (fin_tables (fz_state w))), fin_tables (fz_state w), h1)"
    using visit_tables_in_place[OF assms(1)] by blast
  obtain h2 where "visit (fired (fz_state w)) h1 = (fired (fz_state w), h2)"
    using in_place_visit[OF assms(1)] by (metis surj_pair)
  then show "fz_mem w' = fz_mem w" "fz_state w' = fz_state w"
    "n = sum_list (map finalizer_count (fin_tables (fz_state w)))"
    using assms(2) h1 by (auto simp: gc_visit_finalizer_roots_def)
qed

lemma trace_in_place:
  assumes "in_place visit"
  shows "fin_next (fz_mem (gc_trace_finalizer visit f w) g) = fin_next (fz_mem w g)"
    "fin_state (fz_mem (gc_trace_finalizer visit f w) g) = fin_state (fz_mem w g)"
    "fz_state (gc_trace_finalizer visit f w) = fz_state w"
  using in_place_visit[OF assms]
  by (auto simp: gc_trace_finalizer_def Let_def split: prod.splits if_splits)

lemma fin_rep_make: "fin_rep \<lparr> fz_mem = mem, fz_state = gc_make_finalizer_state n, fz_heap = h \<rparr>
    (replicate n (replicate BUCKET_COUNT [])) []"
proof -
  have "concat (concat (replicate n (replicate BUCKET_COUNT []))) = ([] :: u64 list)" by simp
  then show ?thesis
    by (simp add: fin_rep_def gc_make_finalizer_state_def table_rep_empty del: concat_eq_Nil_conv)
qed

lemma fin_step_rep:
  assumes "fin_step vk visit w w'" "fin_rep w tbs fl"
  shows "\<exists>tbs' fl'. fin_rep w' tbs' fl' \<and> length tbs' = length tbs"
  using assms
proof cases
  case (allocate f)
  then have "f \<notin> set (concat (concat tbs) @ fl)" using assms(2) by (auto simp: fin_held_def)
  then have "fin_rep w' tbs fl" using allocate(1) by (intro fin_rep_same[OF assms(2)]) auto
  then show ?thesis by blast
next
  case (init f obj closure mem)
  then have "fin_state (fz_mem w f) = Finalizer_Init" "mem = (fz_mem w)(f := (fz_mem w f)\<lparr>fin_object := obj, fin_closure := closure\<rparr>)"
    by (auto simp: gc_finalizer_init_internal_def gc_assert_def split: if_splits)
  then have "fin_rep w' tbs fl" using init(1) by (intro fin_rep_same[OF assms(2)]) auto
  then show ?thesis by blast
next
  case (attach f p)
  have "p < length tbs"
    using attach(2) assms(2) by (auto simp: gc_finalizer_attach_internal_def gc_assert_def fin_rep_def Let_def split: if_splits)
  then obtain tb where "fin_rep w' (tbs[p := tb]) fl" using attach_rep[OF assms(2) _ attach] by blast
  then show ?thesis by (metis length_list_update)
next
  case (pop f)
  have "fin_rep w' tbs fl \<or> fin_rep w' tbs (tl fl)" using pop_rep[OF assms(2)] pop assms(2) by auto
  then show ?thesis by blast
next
  case (resolve p n)
  have p: "p < length tbs"
    using resolve assms(2) by (auto simp: gc_resolve_finalizers_def gc_assert_def fin_rep_def split: if_splits)
  obtain ks ds h where plan: "resolve_plan vk visit (map (\<lambda>f. (f, fin_object (fz_mem w f))) (concat (tbs ! p))) (fz_heap w) = (ks, ds, h)"
    by (rule prod_cases3)
  obtain tb where "fin_rep w' (tbs[p := tb]) (rev (map fst ds) @ fl)"
    using resolve_table[OF assms(2) p plan] resolve by auto
  then show ?thesis by (metis length_list_update)
next
  case notify
  have "fin_rep w' tbs fl"
    by (rule fin_rep_same[OF assms(2)]) (auto simp: notify gc_notify_finalizers_def Let_def split: option.splits)
  then show ?thesis by blast
next
  case (callback c)
  have "fin_rep w' tbs fl"
    by (rule fin_rep_same[OF assms(2)]) (auto simp: callback gc_finalizer_state_set_callback_def)
  then show ?thesis by blast
next
  case (activate f mem)
  then have "fin_state (fz_mem w f) = Finalizer_Init" "mem = (fz_mem w)(f := (fz_mem w f)\<lparr>fin_state := Finalizer_Active\<rparr>)"
    by (auto simp: gc_finalizer_externally_activated_def split: if_splits)
  moreover from this have "f \<notin> set (concat (concat tbs) @ fl)" using assms(2) by (auto simp: fin_rep_def)
  ultimately have "fin_rep w' tbs fl" using activate(1) by (intro fin_rep_same[OF assms(2)]) auto
  then show ?thesis by blast
next
  case (fire f)
  then have "f \<notin> set (concat (concat tbs))" using assms(2) by (auto simp: fin_held_def)
  then show ?thesis using externally_fired_rep[OF assms(2) fire(1) _ fire(3)] by blast
next
  case (roots n)
  have "fin_rep w' tbs fl"
    by (rule fin_rep_same[OF assms(2)]) (simp_all add: visit_roots_in_place[OF roots])
  then show ?thesis by blast
next
  case (trace f)
  have "fin_rep w' tbs fl"
    by (rule fin_rep_same[OF assms(2)]) (simp_all add: trace trace_in_place[OF trace(2)])
  then show ?thesis by blast
qed

lemma fin_reach_rep: "fin_reach vk visit n w \<Longrightarrow> \<exists>tbs fl. fin_rep w tbs fl \<and> length tbs = n"
proof (induction rule: fin_reach.induct)
  case (made mem h)
  then show ?case using fin_rep_make by fastforce
next
  case (step w w')
  then show ?case using fin_step_rep by metis
qed

text \<open>C22: However finalizers are made, attached, resolved, fired, popped and traced, every table keeps its
  finalizers \<open>ACTIVE\<close>, on disjoint lists, counted, and spread over its 32 buckets within one of each
  other; the fired list holds only \<open>FIRED\<close> ones. The fired list is a stack: what fires is put in front of
  what fired before, when the finalizers of a priority are resolved as when one is fired externally, and a
  pop returns the first finalizer, which is the one fired last, and takes it off the list, or returns null
  and changes nothing when the list is empty. Attaching crashes exactly when the finalizer is not newborn
  or has no object, and otherwise adds it to the table of its priority and nowhere else. The visitor that
  resolves finalizers may move objects; one that visits the roots or traces a finalizer leaves finalizers
  where they are.\<close>

theorem finalizer_lifecycle:
  assumes "fin_reach vk visit n w"
  shows "\<exists>tbs fl. fin_rep w tbs fl \<and> length tbs = n
    \<and> (case fl of [] \<Rightarrow> gc_finalizer_state_pop w = (0, w)
      | f # fs \<Rightarrow> \<exists>w'. gc_finalizer_state_pop w = (f, w') \<and> fin_rep w' tbs fs \<and> fin_next (fz_mem w' f) = 0)
    \<and> (\<forall>p < n. \<forall>k w'. gc_resolve_finalizers vk visit p w = Inr (k, w') \<longrightarrow>
        (\<exists>tb fs. fin_rep w' (tbs[p := tb]) (fs @ fl) \<and> mset (concat tb) + mset fs = mset (concat (tbs ! p)) \<and> k = of_nat (length fs)))
    \<and> (\<forall>f. f \<noteq> 0 \<longrightarrow> f \<notin> set (concat (concat tbs)) \<longrightarrow>
        (if fin_state (fz_mem w f) \<noteq> Finalizer_Active then gc_finalizer_externally_fired w f = Inl Crash
         else \<exists>w'. gc_finalizer_externally_fired w f = Inr w' \<and> fin_rep w' tbs (f # fl)))
    \<and> (\<forall>f p. f \<noteq> 0 \<longrightarrow> p < n \<longrightarrow>
        (if fin_state (fz_mem w f) \<noteq> Finalizer_Init \<or> fin_object (fz_mem w f) = 0
         then gc_finalizer_attach_internal w f p = Inl Crash
         else \<exists>w' tb. gc_finalizer_attach_internal w f p = Inr w'
           \<and> fin_rep w' (tbs[p := tb]) fl \<and> mset (concat tb) = add_mset f (mset (concat (tbs ! p)))))"
proof -
  obtain tbs fl where rep: "fin_rep w tbs fl" and n: "length tbs = n" using fin_reach_rep[OF assms] by blast
  have pop: "case fl of [] \<Rightarrow> gc_finalizer_state_pop w = (0, w)
      | f # fs \<Rightarrow> \<exists>w'. gc_finalizer_state_pop w = (f, w') \<and> fin_rep w' tbs fs \<and> fin_next (fz_mem w' f) = 0"
    using pop_rep[OF rep] by (cases fl) auto
  have resolve: "\<exists>tb fs. fin_rep w' (tbs[p := tb]) (fs @ fl) \<and> mset (concat tb) + mset fs = mset (concat (tbs ! p)) \<and> k = of_nat (length fs)"
    if p: "p < n" "gc_resolve_finalizers vk visit p w = Inr (k, w')" for p k w'
  proof -
    obtain ks ds h where plan: "resolve_plan vk visit (map (\<lambda>f. (f, fin_object (fz_mem w f))) (concat (tbs ! p))) (fz_heap w) = (ks, ds, h)"
      by (rule prod_cases3)
    have "mset (map fst ks) + mset (map fst ds) = mset (concat (tbs ! p))"
      using resolve_plan_mset[OF plan] by (simp add: comp_def)
    moreover obtain tb where "fin_rep w' (tbs[p := tb]) (rev (map fst ds) @ fl)" "mset (concat tb) = mset (map fst ks)" "k = of_nat (length ds)"
      using resolve_table[OF rep _ plan] p n by auto
    ultimately show ?thesis by (intro exI[of _ tb] exI[of _ "rev (map fst ds)"]) simp
  qed
  have fire: "if fin_state (fz_mem w f) \<noteq> Finalizer_Active then gc_finalizer_externally_fired w f = Inl Crash
      else \<exists>w'. gc_finalizer_externally_fired w f = Inr w' \<and> fin_rep w' tbs (f # fl)"
    if f: "f \<noteq> 0" "f \<notin> set (concat (concat tbs))" for f
    using externally_fired_rep[OF rep f]
    by (auto simp: gc_finalizer_externally_fired_def add_fired_finalizer_def finalizer_list_push_def Let_def)
  have crash: "gc_finalizer_attach_internal w f p = Inl Crash"
    if "fin_state (fz_mem w f) \<noteq> Finalizer_Init \<or> fin_object (fz_mem w f) = 0" for f p
    using that by (auto simp: gc_finalizer_attach_internal_def gc_ref_is_null_def Let_def)
  have attach: "\<exists>w' tb. gc_finalizer_attach_internal w f p = Inr w'
           \<and> fin_rep w' (tbs[p := tb]) fl \<and> mset (concat tb) = add_mset f (mset (concat (tbs ! p)))"
    if f: "f \<noteq> 0" "p < n" "fin_state (fz_mem w f) = Finalizer_Init" "fin_object (fz_mem w f) \<noteq> 0" for f p
  proof -
    have "p < length (fin_tables (fz_state w))" using f(2) rep n by (simp add: fin_rep_def)
    then obtain w' where "gc_finalizer_attach_internal w f p = Inr w'"
      using attach_total[OF f(3,4)] by blast
    then show ?thesis using attach_rep[OF rep _ f(1)] f(2) n by blast
  qed
  show ?thesis using rep n pop resolve fire crash attach by (intro exI[of _ tbs] exI[of _ fl] conjI allI impI) auto
qed

text \<open>A heap that is the list of its visited objects, and a finalizer at address 16 attached in it.\<close>

definition seen_key :: "u64 list visit_key" where
  "seen_key r h = (r \<in> set h, r, h)"

definition see_ref :: "u64 list visit_ref" where
  "see_ref r h = (r, r # h)"

definition newborn_world :: "u64 list fin_world" where
  "newborn_world = \<lparr> fz_mem = (\<lambda>_. \<lparr> fin_state = Finalizer_Init, fin_object = 5, fin_closure = 6, fin_next = 0 \<rparr>),
    fz_state = gc_make_finalizer_state 1, fz_heap = [7] \<rparr>"

definition attached_world :: "u64 list fin_world" where
  "attached_world = (case gc_finalizer_attach_internal newborn_world 16 0 of Inr w \<Rightarrow> w | Inl _ \<Rightarrow> newborn_world)"

lemma attached_world_eq: "gc_finalizer_attach_internal newborn_world 16 0 = Inr attached_world"
  by (simp add: attached_world_def newborn_world_def gc_finalizer_attach_internal_def gc_ref_is_null_def
      gc_make_finalizer_state_def Let_def split: prod.splits)

theorem finalizer_lifecycle_witness:
  "\<exists>tbs fl. fin_rep newborn_world tbs fl \<and> length tbs = 1
    \<and> (\<exists>w' tb. gc_finalizer_attach_internal newborn_world 16 0 = Inr w'
        \<and> fin_rep w' [tb] fl \<and> mset (concat tb) = add_mset 16 (mset (concat (tbs ! 0))))"
proof -
  have "fin_reach seen_key see_ref 1 newborn_world"
    unfolding newborn_world_def by (rule fin_reach.made)
  from finalizer_lifecycle[OF this] obtain tbs fl where *: "fin_rep newborn_world tbs fl" "length tbs = 1"
    "\<forall>f p. f \<noteq> 0 \<longrightarrow> p < 1 \<longrightarrow>
        (if fin_state (fz_mem newborn_world f) \<noteq> Finalizer_Init \<or> fin_object (fz_mem newborn_world f) = 0
         then gc_finalizer_attach_internal newborn_world f p = Inl Crash
         else \<exists>w' tb. gc_finalizer_attach_internal newborn_world f p = Inr w'
           \<and> fin_rep w' (tbs[p := tb]) fl \<and> mset (concat tb) = add_mset f (mset (concat (tbs ! p))))"
    by (elim exE conjE) blast
  have "fin_state (fz_mem newborn_world 16) = Finalizer_Init" "fin_object (fz_mem newborn_world 16) \<noteq> 0"
    by (simp_all add: newborn_world_def)
  then obtain w' tb where "gc_finalizer_attach_internal newborn_world 16 0 = Inr w'"
    "fin_rep w' (tbs[0 := tb]) fl" "mset (concat tb) = add_mset 16 (mset (concat (tbs ! 0)))"
    using *(3)[rule_format, of 16 0] by auto
  moreover have "tbs[0 := tb] = [tb]" using *(2) by (cases tbs) auto
  ultimately show ?thesis using *(1,2) by auto
qed

text \<open>C21: Resolving the finalizers of a priority decides about each finalizer of its table once, in the
  table's order: those whose object turns out to be visited stay in the table, \<open>ACTIVE\<close> and with
  their object's reference updated, the others have their object enqueued and move to the front of
  the fired list. None is lost or duplicated, no other finalizer changes, the call returns the number
  that fired and adds it to the cycle's count, and it neither crashes nor runs forever.\<close>

theorem gc_resolve_finalizers_correct:
  assumes "fin_rep w tbs fl" "p < length tbs"
    and "resolve_plan vk visit (map (\<lambda>f. (f, fin_object (fz_mem w f))) (concat (tbs ! p))) (fz_heap w) = (ks, ds, h)"
  shows "\<exists>w' tb. gc_resolve_finalizers vk visit p w = Inr (of_nat (length ds), w')
    \<and> fin_rep w' (tbs[p := tb]) (rev (map fst ds) @ fl)
    \<and> mset (concat tb) = mset (map fst ks)
    \<and> mset (map fst ks) + mset (map fst ds) = mset (concat (tbs ! p))
    \<and> fz_heap w' = h
    \<and> (\<forall>x \<in> set (ks @ ds). fin_object (fz_mem w' (fst x)) = snd x)
    \<and> (\<forall>f. f \<notin> set (concat (tbs ! p)) \<longrightarrow> fz_mem w' f = fz_mem w f)
    \<and> fired_this_cycle (fz_state w') = fired_this_cycle (fz_state w) + of_nat (length ds)"
proof -
  have "mset (map fst ks) + mset (map fst ds) = mset (concat (tbs ! p))"
    using resolve_plan_mset[OF assms(3)] by (simp add: comp_def)
  then show ?thesis using resolve_table[OF assms] by blast
qed

theorem gc_resolve_finalizers_correct_witness:
  "\<exists>w'. gc_resolve_finalizers seen_key see_ref 0 attached_world = Inr (1, w') \<and> fz_heap w' = [5, 7]
    \<and> fst (gc_finalizer_state_pop w') = 16"
proof -
  have "fin_rep newborn_world [replicate BUCKET_COUNT []] []"
    using fin_rep_make[of _ 1] by (simp add: newborn_world_def)
  from attach_rep[OF this _ _ attached_world_eq] obtain tb where tb: "fin_rep attached_world [tb] []"
    "mset (concat tb) = {#16#}" by (auto simp: concat_replicate_trivial)
  then have c: "concat tb = [16]" by (simp only: mset_single_iff_right[symmetric] mset.simps)
  have "fin_object (fz_mem attached_world 16) = 5" "fz_heap attached_world = [7]"
    by (simp_all add: attached_world_def newborn_world_def gc_finalizer_attach_internal_def gc_ref_is_null_def
      gc_make_finalizer_state_def Let_def add_finalizer_to_table_def finalizer_list_push_def)
  then have "resolve_plan seen_key see_ref (map (\<lambda>f. (f, fin_object (fz_mem attached_world f))) (concat ([tb] ! 0)))
    (fz_heap attached_world) = ([], [(16, 5)], [5, 7])"
    by (simp add: c seen_key_def see_ref_def)
  from gc_resolve_finalizers_correct[OF tb(1) _ this] obtain w' tb' where w':
    "gc_resolve_finalizers seen_key see_ref 0 attached_world = Inr (1, w')" "fz_heap w' = [5, 7]" "fin_rep w' [tb'] [16]"
    by auto
  then show ?thesis using pop_rep[OF w'(3)] by auto
qed

end
