(* ===== verification/Ephemeron.thy ===== *)
theory Ephemeron
  imports Chains Doubles AddressHash
begin

section \<open>Ephemerons\<close>

text \<open>
  \<open>src/src/gc-ephemeron.c\<close>. Ephemerons are heap objects, kept in a store \<open>ew_mem\<close> from addresses to
  records. The chain, pending and resolved lists are threaded through three fields of theirs. A list
  operation takes the content of the location it works on and gives back the content it leaves; its
  compare-and-swap loop is the step that its successful swap makes. \<open>gc_visit_ephemeron_key\<close> and the
  visitor are the collector's: \<open>vk r h\<close> says whether \<open>r\<close> is visited in heap \<open>h\<close>, \<open>visit r h\<close> visits
  it; both give back the reference they leave in the edge, and the heap.
\<close>

datatype ephemeron_state = Ephemeron_Traced | Ephemeron_Claimed | Ephemeron_Pending | Ephemeron_Resolved

record gc_ephemeron =
  eph_state :: ephemeron_state
  eph_epoch :: u32
  eph_chain :: u64
  eph_pending :: u64
  eph_resolved :: u64
  eph_key :: gc_ref
  eph_value :: gc_ref

type_synonym eph_mem = "u64 \<Rightarrow> gc_ephemeron"

text \<open>\<open>struct gc_pending_ephemerons\<close>; the number of buckets is the length of the list, and the scale is
  the double that divides it by \<open>2 ^ 64\<close>, which is exact.\<close>

record gc_pending_ephemerons =
  pe_resolved :: u64
  pe_buckets :: "u64 list"

record 'h eph_world =
  ew_mem :: eph_mem
  ew_pending :: gc_pending_ephemerons
  ew_epoch :: u32
  ew_heap :: 'h

type_synonym 'h eph_visit_key = "gc_ref \<Rightarrow> 'h \<Rightarrow> bool \<times> gc_ref \<times> 'h"
type_synonym 'h eph_visit = "gc_ref \<Rightarrow> 'h \<Rightarrow> gc_ref \<times> 'h"

subsection \<open>Ephemeron lists\<close>

text \<open>\<open>put\<close> stores the link of an ephemeron, \<open>get_next\<close> reads it.\<close>

definition ephemeron_list_try_push ::
    "(u64 \<Rightarrow> gc_ephemeron \<Rightarrow> gc_ephemeron) \<Rightarrow> eph_mem \<Rightarrow> u64 \<Rightarrow> u64 \<Rightarrow> u64 \<Rightarrow> bool \<times> eph_mem \<times> u64 \<times> u64" where
  "ephemeron_list_try_push put mem loc head tail =
    (let mem = mem(head := put tail (mem head))
     in if loc = tail then (True, mem, head, tail) else (False, mem, loc, loc))"

definition ephemeron_list_push ::
    "(u64 \<Rightarrow> gc_ephemeron \<Rightarrow> gc_ephemeron) \<Rightarrow> eph_mem \<Rightarrow> u64 \<Rightarrow> u64 \<Rightarrow> eph_mem \<times> u64" where
  "ephemeron_list_push put mem loc head =
    (let (_, mem, loc, _) = ephemeron_list_try_push put mem loc head loc in (mem, loc))"

definition ephemeron_list_pop :: "(gc_ephemeron \<Rightarrow> u64) \<Rightarrow> eph_mem \<Rightarrow> u64 \<Rightarrow> u64 \<times> u64" where
  "ephemeron_list_pop get_next mem loc =
    (if loc \<noteq> 0 then (let tail = get_next (mem loc) in (loc, tail)) else (loc, loc))"

definition ephemeron_list_follow ::
    "(gc_ephemeron \<Rightarrow> u64) \<Rightarrow> (gc_ephemeron \<Rightarrow> bool) \<Rightarrow> eph_mem \<Rightarrow> u64 \<Rightarrow> u64 result" where
  "ephemeron_list_follow get_next is_live mem loc =
    (if loc = 0 then Inr 0
     else while_loop (\<lambda>new_head. new_head \<noteq> 0 \<and> \<not> is_live (mem new_head)) (\<lambda>new_head. get_next (mem new_head)) loc)"

subsection \<open>The chain, and access to the association\<close>

definition ephemeron_is_dead :: "gc_ephemeron \<Rightarrow> bool" where
  "ephemeron_is_dead e = (eph_key e = 0)"

definition ephemeron_is_not_dead :: "gc_ephemeron \<Rightarrow> bool" where
  "ephemeron_is_not_dead e = (\<not> ephemeron_is_dead e)"

definition put_chain :: "u64 \<Rightarrow> gc_ephemeron \<Rightarrow> gc_ephemeron" where
  "put_chain x e = e\<lparr>eph_chain := x\<rparr>"

definition put_pending :: "u64 \<Rightarrow> gc_ephemeron \<Rightarrow> gc_ephemeron" where
  "put_pending x e = e\<lparr>eph_pending := x\<rparr>"

definition put_resolved :: "u64 \<Rightarrow> gc_ephemeron \<Rightarrow> gc_ephemeron" where
  "put_resolved x e = e\<lparr>eph_resolved := x\<rparr>"

definition gc_ephemeron_chain_push :: "eph_mem \<Rightarrow> u64 \<Rightarrow> u64 \<Rightarrow> eph_mem \<times> u64" where
  "gc_ephemeron_chain_push mem loc e = ephemeron_list_push put_chain mem loc e"

definition gc_ephemeron_chain_try_push :: "eph_mem \<Rightarrow> u64 \<Rightarrow> u64 \<Rightarrow> u64 \<Rightarrow> bool \<times> eph_mem \<times> u64 \<times> u64" where
  "gc_ephemeron_chain_try_push mem loc e tail = ephemeron_list_try_push put_chain mem loc e tail"

definition follow_chain :: "eph_mem \<Rightarrow> u64 \<Rightarrow> u64 result" where
  "follow_chain mem loc = ephemeron_list_follow eph_chain ephemeron_is_not_dead mem loc"

text \<open>The head is also what the location then holds.\<close>

definition gc_ephemeron_chain_head :: "eph_mem \<Rightarrow> u64 \<Rightarrow> u64 result" where
  "gc_ephemeron_chain_head mem loc = follow_chain mem loc"

definition gc_ephemeron_chain_next :: "eph_mem \<Rightarrow> u64 \<Rightarrow> (u64 \<times> eph_mem) result" where
  "gc_ephemeron_chain_next mem e =
    result_bind (follow_chain mem (eph_chain (mem e))) (\<lambda>p. Inr (p, mem(e := put_chain p (mem e))))"

definition gc_ephemeron_swap_value_internal :: "eph_mem \<Rightarrow> u64 \<Rightarrow> gc_ref \<Rightarrow> (gc_ref \<times> eph_mem) result" where
  "gc_ephemeron_swap_value_internal mem e ref =
    result_bind (gc_assert (\<not> gc_ref_is_null ref)) (\<lambda>_.
      let prev = eph_value (mem e)
      in Inr (prev, if prev = 0 then mem else mem(e := (mem e)\<lparr>eph_value := ref\<rparr>)))"

definition gc_ephemeron_mark_dead :: "eph_mem \<Rightarrow> u64 \<Rightarrow> eph_mem" where
  "gc_ephemeron_mark_dead mem e = mem(e := (mem e)\<lparr>eph_key := 0\<rparr>)"

definition gc_ephemeron_key :: "eph_mem \<Rightarrow> u64 \<Rightarrow> gc_ref" where
  "gc_ephemeron_key mem e = eph_key (mem e)"

definition gc_ephemeron_value :: "eph_mem \<Rightarrow> u64 \<Rightarrow> gc_ref" where
  "gc_ephemeron_value mem e = (if ephemeron_is_dead (mem e) then gc_ref_null else eph_value (mem e))"

definition gc_ephemeron_init_internal :: "u32 \<Rightarrow> eph_mem \<Rightarrow> u64 \<Rightarrow> gc_ref \<Rightarrow> gc_ref \<Rightarrow> eph_mem result" where
  "gc_ephemeron_init_internal trace_epoch mem e key v =
    result_bind (gc_assert (\<not> gc_ref_is_null key)) (\<lambda>_.
    result_bind (gc_assert (\<not> gc_ref_is_null v)) (\<lambda>_.
      Inr (mem(e := \<lparr> eph_state = Ephemeron_Traced, eph_epoch = trace_epoch - 1, eph_chain = 0,
        eph_pending = 0, eph_resolved = 0, eph_key = key, eph_value = v \<rparr>))))"

subsection \<open>The table of pending ephemerons\<close>

definition MIN_PENDING_EPHEMERONS_SIZE :: nat where
  "MIN_PENDING_EPHEMERONS_SIZE = 32"

definition pending_ephemerons_byte_size :: "nat \<Rightarrow> nat" where
  "pending_ephemerons_byte_size nbuckets = 24 + 8 * nbuckets"

definition gc_make_pending_ephemerons :: "nat \<Rightarrow> gc_pending_ephemerons" where
  "gc_make_pending_ephemerons byte_size =
    (let nbuckets = byte_size div 8;
         nbuckets = (if nbuckets < MIN_PENDING_EPHEMERONS_SIZE then MIN_PENDING_EPHEMERONS_SIZE else nbuckets)
     in \<lparr> pe_resolved = 0, pe_buckets = replicate nbuckets 0 \<rparr>)"

text \<open>The slop is the fraction \<open>n / d\<close>; its products with a size are exact in doubles. \<open>ok\<close> says whether
  \<open>malloc\<close> succeeds.\<close>

definition gc_prepare_pending_ephemerons ::
    "gc_pending_ephemerons option \<Rightarrow> nat \<Rightarrow> nat \<times> nat \<Rightarrow> bool \<Rightarrow> gc_pending_ephemerons option" where
  "gc_prepare_pending_ephemerons state target_byte_size slop ok =
    (let existing = (case state of None \<Rightarrow> 0 | Some s \<Rightarrow> pending_ephemerons_byte_size (length (pe_buckets s)));
         (n, d) = slop; n = n + d
     in if existing * n > target_byte_size * d \<and> existing * d < target_byte_size * n then state
        else if ok then Some (gc_make_pending_ephemerons target_byte_size) else state)"

definition pending_ephemeron_bucket :: "gc_pending_ephemerons \<Rightarrow> gc_ref \<Rightarrow> nat result" where
  "pending_ephemeron_bucket state ref =
    (let hash = hash_address ref; nbuckets = length (pe_buckets state);
         idx = double_of_nat (double_of_nat (unat hash) * double_of_nat nbuckets) div 2 ^ 64
     in result_bind (gc_assert (idx < nbuckets)) (\<lambda>_. Inr idx))"

definition ephemeron_is_pending :: "gc_ephemeron \<Rightarrow> bool" where
  "ephemeron_is_pending e = (eph_state e = Ephemeron_Pending)"

definition push_pending :: "'h eph_world \<Rightarrow> nat \<Rightarrow> u64 \<Rightarrow> 'h eph_world" where
  "push_pending w b e =
    (let st = ew_pending w;
         (mem, loc) = ephemeron_list_push put_pending (ew_mem w) (pe_buckets st ! b) e
     in w\<lparr>ew_mem := mem, ew_pending := st\<lparr>pe_buckets := (pe_buckets st)[b := loc]\<rparr>\<rparr>)"

text \<open>\<open>follow_pending\<close> on a bucket and on an ephemeron's link.\<close>

definition follow_pending_bucket :: "nat \<Rightarrow> 'h eph_world \<Rightarrow> (u64 \<times> 'h eph_world) result" where
  "follow_pending_bucket b w =
    (let st = ew_pending w
     in result_bind (ephemeron_list_follow eph_pending ephemeron_is_pending (ew_mem w) (pe_buckets st ! b))
       (\<lambda>p. Inr (p, w\<lparr>ew_pending := st\<lparr>pe_buckets := (pe_buckets st)[b := p]\<rparr>\<rparr>)))"

definition follow_pending_link :: "u64 \<Rightarrow> 'h eph_world \<Rightarrow> (u64 \<times> 'h eph_world) result" where
  "follow_pending_link e w =
    (let mem = ew_mem w
     in result_bind (ephemeron_list_follow eph_pending ephemeron_is_pending mem (eph_pending (mem e)))
       (\<lambda>p. Inr (p, w\<lparr>ew_mem := mem(e := put_pending p (mem e))\<rparr>)))"

definition push_resolved :: "'h eph_world \<Rightarrow> u64 \<Rightarrow> 'h eph_world" where
  "push_resolved w e =
    (let st = ew_pending w;
         (mem, loc) = ephemeron_list_push put_resolved (ew_mem w) (pe_resolved st) e
     in w\<lparr>ew_mem := mem, ew_pending := st\<lparr>pe_resolved := loc\<rparr>\<rparr>)"

definition set_eph_state :: "u64 \<Rightarrow> ephemeron_state \<Rightarrow> 'h eph_world \<Rightarrow> 'h eph_world" where
  "set_eph_state e s w = w\<lparr>ew_mem := (ew_mem w)(e := (ew_mem w e)\<lparr>eph_state := s\<rparr>)\<rparr>"

definition add_pending_ephemeron :: "u64 \<Rightarrow> 'h eph_world \<Rightarrow> 'h eph_world result" where
  "add_pending_ephemeron e w =
    result_bind (pending_ephemeron_bucket (ew_pending w) (eph_key (ew_mem w e)))
      (\<lambda>b. Inr (push_pending (set_eph_state e Ephemeron_Pending w) b e))"

definition maybe_resolve_ephemeron :: "u64 \<Rightarrow> 'h eph_world \<Rightarrow> 'h eph_world" where
  "maybe_resolve_ephemeron e w =
    (if eph_state (ew_mem w e) = Ephemeron_Pending
     then push_resolved (set_eph_state e Ephemeron_Resolved w) e else w)"

text \<open>Visiting the key and the value of an ephemeron.\<close>

definition visit_eph_key :: "'h eph_visit_key \<Rightarrow> u64 \<Rightarrow> 'h eph_world \<Rightarrow> bool \<times> 'h eph_world" where
  "visit_eph_key vk e w =
    (let (live, r, h) = vk (eph_key (ew_mem w e)) (ew_heap w)
     in (live, w\<lparr>ew_mem := (ew_mem w)(e := (ew_mem w e)\<lparr>eph_key := r\<rparr>), ew_heap := h\<rparr>))"

definition visit_eph_value :: "'h eph_visit \<Rightarrow> u64 \<Rightarrow> 'h eph_world \<Rightarrow> 'h eph_world" where
  "visit_eph_value visit e w =
    (let (r, h) = visit (eph_value (ew_mem w e)) (ew_heap w)
     in w\<lparr>ew_mem := (ew_mem w)(e := (ew_mem w e)\<lparr>eph_value := r\<rparr>), ew_heap := h\<rparr>)"

definition visit_eph_chain :: "'h eph_visit \<Rightarrow> u64 \<Rightarrow> 'h eph_world \<Rightarrow> 'h eph_world" where
  "visit_eph_chain visit e w =
    (let (r, h) = visit (eph_chain (ew_mem w e)) (ew_heap w)
     in w\<lparr>ew_mem := (ew_mem w)(e := (ew_mem w e)\<lparr>eph_chain := r\<rparr>), ew_heap := h\<rparr>)"

text \<open>\<open>for (e = follow_pending(bucket); e; e = follow_pending(&e->pending)) body(e);\<close>\<close>

definition for_each_pending :: "(u64 \<Rightarrow> 'h eph_world \<Rightarrow> 'h eph_world) \<Rightarrow> nat \<Rightarrow> 'h eph_world \<Rightarrow> 'h eph_world result" where
  "for_each_pending body b w =
    result_bind (follow_pending_bucket b w)
      (\<lambda>s. result_bind (while_result (\<lambda>(e, w). e \<noteq> 0) (\<lambda>(e, w). follow_pending_link e (body e w)) s)
        (\<lambda>(e, w). Inr w))"

definition resolve_pending_one :: "'h eph_visit_key \<Rightarrow> gc_ref \<Rightarrow> u64 \<Rightarrow> 'h eph_world \<Rightarrow> 'h eph_world" where
  "resolve_pending_one vk obj e w =
    (if obj = eph_key (ew_mem w e) then maybe_resolve_ephemeron e (snd (visit_eph_key vk e w)) else w)"

definition gc_resolve_pending_ephemerons :: "'h eph_visit_key \<Rightarrow> gc_ref \<Rightarrow> 'h eph_world \<Rightarrow> 'h eph_world result" where
  "gc_resolve_pending_ephemerons vk obj w =
    result_bind (pending_ephemeron_bucket (ew_pending w) obj)
      (\<lambda>b. for_each_pending (resolve_pending_one vk obj) b w)"

definition gc_trace_ephemeron :: "'h eph_visit_key \<Rightarrow> 'h eph_visit \<Rightarrow> u64 \<Rightarrow> 'h eph_world \<Rightarrow> 'h eph_world result" where
  "gc_trace_ephemeron vk visit e w =
    (if eph_state (ew_mem w e) \<noteq> Ephemeron_Traced then Inr w
     else
       (let w = set_eph_state e Ephemeron_Claimed w
        in if eph_epoch (ew_mem w e) = ew_epoch w then Inr (set_eph_state e Ephemeron_Traced w)
           else
             (let w = w\<lparr>ew_mem := (ew_mem w)(e :=
                    (ew_mem w e)\<lparr>eph_epoch := ew_epoch w, eph_pending := 0, eph_resolved := 0\<rparr>)\<rparr>
              in result_bind (gc_ephemeron_chain_next (ew_mem w) e) (\<lambda>(_, mem).
              let w = visit_eph_chain visit e (w\<lparr>ew_mem := mem\<rparr>)
              in if ephemeron_is_dead (ew_mem w e) then Inr (set_eph_state e Ephemeron_Traced w)
                 else
                   (let (live, w) = visit_eph_key vk e w
                    in if live then Inr (set_eph_state e Ephemeron_Traced (visit_eph_value visit e w))
                       else
                         result_bind (add_pending_ephemeron e w) (\<lambda>w.
                         let (live, w) = visit_eph_key vk e w
                         in Inr (if live then maybe_resolve_ephemeron e w else w)))))))"

text \<open>A shard's bounds, which C computes in doubles: exact while \<open>nbuckets * nshards\<close> is below \<open>2 ^ 53\<close>.\<close>

definition shard_bound :: "nat \<Rightarrow> nat \<Rightarrow> nat \<Rightarrow> nat" where
  "shard_bound nbuckets shard nshards = nbuckets * shard div nshards"

definition scan_pending_one :: "'h eph_visit_key \<Rightarrow> u64 \<Rightarrow> 'h eph_world \<Rightarrow> 'h eph_world" where
  "scan_pending_one vk e w =
    (let (live, w) = visit_eph_key vk e w in if live then maybe_resolve_ephemeron e w else w)"

definition gc_scan_pending_ephemerons :: "'h eph_visit_key \<Rightarrow> nat \<Rightarrow> nat \<Rightarrow> 'h eph_world \<Rightarrow> 'h eph_world result" where
  "gc_scan_pending_ephemerons vk shard nshards w =
    result_bind (gc_assert (shard < nshards)) (\<lambda>_.
      let nbuckets = length (pe_buckets (ew_pending w))
      in result_fold (\<lambda>idx. for_each_pending (scan_pending_one vk) idx)
           [shard_bound nbuckets shard nshards..<shard_bound nbuckets (shard + 1) nshards] w)"

definition gc_pop_resolved_ephemerons :: "'h eph_world \<Rightarrow> u64 \<times> 'h eph_world" where
  "gc_pop_resolved_ephemerons w =
    (pe_resolved (ew_pending w), w\<lparr>ew_pending := (ew_pending w)\<lparr>pe_resolved := 0\<rparr>\<rparr>)"

definition gc_trace_resolved_ephemerons :: "'h eph_visit \<Rightarrow> u64 \<Rightarrow> 'h eph_world \<Rightarrow> 'h eph_world result" where
  "gc_trace_resolved_ephemerons visit e w =
    result_bind
      (while_loop (\<lambda>(e, w). e \<noteq> 0)
        (\<lambda>(e, w). let w = set_eph_state e Ephemeron_Traced (visit_eph_value visit e w)
                  in (eph_resolved (ew_mem w e), w)) (e, w))
      (\<lambda>(e, w). Inr w)"

definition sweep_pending_one :: "u64 \<Rightarrow> 'h eph_world \<Rightarrow> 'h eph_world" where
  "sweep_pending_one e w = set_eph_state e Ephemeron_Traced (w\<lparr>ew_mem := gc_ephemeron_mark_dead (ew_mem w) e\<rparr>)"

definition sweep_pending_bucket :: "nat \<Rightarrow> 'h eph_world \<Rightarrow> 'h eph_world result" where
  "sweep_pending_bucket idx w =
    result_bind (for_each_pending sweep_pending_one idx w)
      (\<lambda>w. let st = ew_pending w
           in Inr (w\<lparr>ew_pending := st\<lparr>pe_buckets := (pe_buckets st)[idx := 0]\<rparr>\<rparr>))"

definition gc_sweep_pending_ephemerons :: "nat \<Rightarrow> nat \<Rightarrow> 'h eph_world \<Rightarrow> 'h eph_world result" where
  "gc_sweep_pending_ephemerons shard nshards w =
    result_bind (gc_assert (shard < nshards)) (\<lambda>_.
      let nbuckets = length (pe_buckets (ew_pending w))
      in result_fold sweep_pending_bucket
           [shard_bound nbuckets shard nshards..<shard_bound nbuckets (shard + 1) nshards] w)"

subsection \<open>Following a list\<close>

lemma ephemeron_list_follow_chain:
  assumes "chain (\<lambda>e. get (mem e)) p xs"
  shows "\<exists>q. ephemeron_list_follow get live mem p = Inr q
    \<and> chain (\<lambda>e. get (mem e)) q (dropWhile (\<lambda>e. \<not> live (mem e)) xs)"
proof -
  have "\<exists>q. while_loop (\<lambda>e. e \<noteq> 0 \<and> \<not> live (mem e)) (\<lambda>e. get (mem e)) p = Inr q
    \<and> chain (\<lambda>e. get (mem e)) q (dropWhile (\<lambda>e. \<not> live (mem e)) xs)"
    using assms
  proof (induction xs arbitrary: p)
    case (Cons x xs)
    then show ?case by (subst while_loop_unfold) auto
  qed (subst while_loop_unfold, simp)
  then show ?thesis
    using assms by (cases "p = 0") (auto simp: ephemeron_list_follow_def)
qed

text \<open>A traversal of the user's chain from its head, the ephemerons it visits in order.\<close>

definition chain_traversal :: "eph_mem \<Rightarrow> u64 \<Rightarrow> (u64 \<times> eph_mem \<times> u64 list) result" where
  "chain_traversal mem loc =
    result_bind (gc_ephemeron_chain_head mem loc)
      (\<lambda>e. while_result (\<lambda>(e, mem, acc). e \<noteq> 0)
        (\<lambda>(e, mem, acc). result_bind (gc_ephemeron_chain_next mem e) (\<lambda>(e', mem). Inr (e', mem, acc @ [e])))
        (e, mem, []))"

lemma chain_mem_update:
  assumes "e \<notin> set xs"
  shows "chain (\<lambda>x. get ((mem(e := y)) x)) p xs = chain (\<lambda>x. get (mem x)) p xs"
  by (rule chain_cong) (use assms in auto)

lemma dropWhile_facts:
  assumes "ys = dropWhile (\<lambda>x. \<not> P x) xs"
  shows "ys = [] \<or> P (hd ys)" "filter P ys = filter P xs" "set ys \<subseteq> set xs" "length ys \<le> length xs"
proof -
  show "ys = [] \<or> P (hd ys)" unfolding assms using hd_dropWhile[of "\<lambda>x. \<not> P x" xs] by auto
  show "filter P ys = filter P xs" unfolding assms by (induction xs) auto
  show "set ys \<subseteq> set xs" unfolding assms using set_dropWhileD by fast
  show "length ys \<le> length xs" unfolding assms by (rule length_dropWhile_le)
qed

lemma chain_walk:
  assumes "chain (\<lambda>e. eph_chain (mem e)) p xs" "xs = [] \<or> \<not> ephemeron_is_dead (mem (hd xs))"
  shows "\<exists>mem'. while_result (\<lambda>(e, mem, acc). e \<noteq> 0)
      (\<lambda>(e, mem, acc). result_bind (gc_ephemeron_chain_next mem e) (\<lambda>(e', mem). Inr (e', mem, acc @ [e]))) (p, mem, acc)
      = Inr (0, mem', acc @ filter (\<lambda>e. \<not> ephemeron_is_dead (mem e)) xs)
    \<and> chain (\<lambda>e. eph_chain (mem' e)) p (filter (\<lambda>e. \<not> ephemeron_is_dead (mem e)) xs)
    \<and> (\<forall>e. put_chain 0 (mem' e) = put_chain 0 (mem e)) \<and> (\<forall>e. e \<notin> set xs \<longrightarrow> mem' e = mem e)"
  using assms
proof (induction "length xs" arbitrary: p mem xs acc rule: less_induct)
  case less
  show ?case
  proof (cases xs)
    case Nil
    then show ?thesis using less.prems by (subst while_result_unfold) auto
  next
    case (Cons e ys)
    then have e: "p = e" "e \<noteq> 0" "\<not> ephemeron_is_dead (mem e)" and ch: "chain (\<lambda>e. eph_chain (mem e)) (eph_chain (mem e)) ys"
      using less.prems by auto
    have dist: "distinct (e # ys)" using chain_distinct[OF less.prems(1)] Cons by simp
    define zs where "zs = dropWhile (\<lambda>e. ephemeron_is_dead (mem e)) ys"
    obtain q where q: "follow_chain mem (eph_chain (mem e)) = Inr q" "chain (\<lambda>e. eph_chain (mem e)) q zs"
      using ephemeron_list_follow_chain[OF ch, of ephemeron_is_not_dead]
      by (auto simp: follow_chain_def zs_def ephemeron_is_not_dead_def)
    have zs: "zs = [] \<or> \<not> ephemeron_is_dead (mem (hd zs))" "set zs \<subseteq> set ys" "length zs \<le> length ys"
      "filter (\<lambda>e. \<not> ephemeron_is_dead (mem e)) zs = filter (\<lambda>e. \<not> ephemeron_is_dead (mem e)) ys"
      using dropWhile_facts[of zs "\<lambda>e. \<not> ephemeron_is_dead (mem e)" ys] by (simp_all add: zs_def)
    define mem2 where "mem2 = mem(e := put_chain q (mem e))"
    have dead: "ephemeron_is_dead (mem2 x) = ephemeron_is_dead (mem x)" for x
      by (simp add: mem2_def put_chain_def ephemeron_is_dead_def)
    have ch2: "chain (\<lambda>e. eph_chain (mem2 e)) q zs"
      unfolding mem2_def by (rule iffD2[OF chain_mem_update]) (use q(2) zs(2) dist in auto)
    have f2: "filter (\<lambda>e. \<not> ephemeron_is_dead (mem2 e)) zs = filter (\<lambda>e. \<not> ephemeron_is_dead (mem e)) ys"
      using zs(4) by (simp add: dead)
    have "length zs < length xs" "zs = [] \<or> \<not> ephemeron_is_dead (mem2 (hd zs))"
      using zs(1,3) Cons by (simp_all add: dead)
    from less.hyps[OF this(1) ch2 this(2), of "acc @ [e]", unfolded f2] obtain mem' where mem':
      "while_result (\<lambda>(e, mem, acc). e \<noteq> 0)
        (\<lambda>(e, mem, acc). result_bind (gc_ephemeron_chain_next mem e) (\<lambda>(e', mem). Inr (e', mem, acc @ [e]))) (q, mem2, acc @ [e])
        = Inr (0, mem', (acc @ [e]) @ filter (\<lambda>e. \<not> ephemeron_is_dead (mem e)) ys)"
      "chain (\<lambda>e. eph_chain (mem' e)) q (filter (\<lambda>e. \<not> ephemeron_is_dead (mem e)) ys)"
      "\<forall>x. put_chain 0 (mem' x) = put_chain 0 (mem2 x)" "\<forall>x. x \<notin> set zs \<longrightarrow> mem' x = mem2 x"
      by blast
    have "gc_ephemeron_chain_next mem e = Inr (q, mem2)" using q(1) by (simp add: gc_ephemeron_chain_next_def mem2_def)
    moreover have "eph_chain (mem' e) = q" using mem'(4) zs(2) dist by (auto simp: mem2_def put_chain_def)
    moreover have "put_chain 0 (mem' x) = put_chain 0 (mem x)" for x
      using mem'(3) by (simp add: mem2_def put_chain_def)
    moreover have "mem' x = mem x" if "x \<notin> set xs" for x using mem'(4) that zs(2) Cons by (auto simp: mem2_def)
    ultimately show ?thesis using mem'(1,2) e Cons
      by (intro exI[of _ mem'] conjI allI impI) (simp_all add: while_result_unfold[of _ _ "(e, mem, acc)"])
  qed
qed

subsection \<open>The pending lists\<close>

definition same_but_links :: "'h eph_world \<Rightarrow> 'h eph_world \<Rightarrow> bool" where
  "same_but_links u u' \<longleftrightarrow> (\<forall>x. put_pending 0 (ew_mem u x) = put_pending 0 (ew_mem u' x))
    \<and> pe_resolved (ew_pending u) = pe_resolved (ew_pending u') \<and> ew_epoch u = ew_epoch u' \<and> ew_heap u = ew_heap u'"

definition keeps_links :: "u64 \<Rightarrow> 'h eph_world \<Rightarrow> 'h eph_world \<Rightarrow> bool" where
  "keeps_links e u u' \<longleftrightarrow> (\<forall>x. eph_pending (ew_mem u' x) = eph_pending (ew_mem u x))
    \<and> pe_buckets (ew_pending u') = pe_buckets (ew_pending u)
    \<and> (\<forall>x. x \<noteq> e \<longrightarrow> eph_state (ew_mem u' x) = eph_state (ew_mem u x))"

lemma same_but_links_fields:
  assumes "same_but_links u u'"
  shows "eph_state (ew_mem u' x) = eph_state (ew_mem u x)" "eph_epoch (ew_mem u' x) = eph_epoch (ew_mem u x)"
    "eph_chain (ew_mem u' x) = eph_chain (ew_mem u x)" "eph_resolved (ew_mem u' x) = eph_resolved (ew_mem u x)"
    "eph_key (ew_mem u' x) = eph_key (ew_mem u x)" "eph_value (ew_mem u' x) = eph_value (ew_mem u x)"
    "pe_resolved (ew_pending u') = pe_resolved (ew_pending u)" "ew_epoch u' = ew_epoch u" "ew_heap u' = ew_heap u"
proof -
  have "put_pending 0 (ew_mem u x) = put_pending 0 (ew_mem u' x)" using assms by (simp add: same_but_links_def)
  then show "eph_state (ew_mem u' x) = eph_state (ew_mem u x)" "eph_epoch (ew_mem u' x) = eph_epoch (ew_mem u x)"
    "eph_chain (ew_mem u' x) = eph_chain (ew_mem u x)" "eph_resolved (ew_mem u' x) = eph_resolved (ew_mem u x)"
    "eph_key (ew_mem u' x) = eph_key (ew_mem u x)" "eph_value (ew_mem u' x) = eph_value (ew_mem u x)"
    by (cases "ew_mem u x"; cases "ew_mem u' x"; simp add: put_pending_def)+
qed (use assms in \<open>simp_all add: same_but_links_def\<close>)

lemma pending_loop:
  assumes links: "\<And>d u u'. I d u \<Longrightarrow> same_but_links u u' \<Longrightarrow> I d u'"
    and body: "\<And>d e u. e \<in> set xs \<Longrightarrow> e \<notin> set d \<Longrightarrow> ephemeron_is_pending (ew_mem u e) \<Longrightarrow> I d u
      \<Longrightarrow> I (d @ [e]) (body e u) \<and> keeps_links e u (body e u)"
    and "chain (\<lambda>x. eph_pending (ew_mem u x)) p ys" "ys = [] \<or> ephemeron_is_pending (ew_mem u (hd ys))"
    and "I d u" "set ys \<subseteq> set xs" "set d \<inter> set ys = {}" "\<forall>x \<in> set ys. eph_state (ew_mem u x) = eph_state (ew_mem w x)"
  shows "\<exists>u'. while_result (\<lambda>(e, w). e \<noteq> 0) (\<lambda>(e, w). follow_pending_link e (body e w)) (p, u) = Inr (0, u')
    \<and> I (d @ filter (\<lambda>x. ephemeron_is_pending (ew_mem w x)) ys) u'
    \<and> chain (\<lambda>x. eph_pending (ew_mem u' x)) p (filter (\<lambda>x. ephemeron_is_pending (ew_mem w x)) ys)
    \<and> (\<forall>x. x \<notin> set ys \<longrightarrow> eph_pending (ew_mem u' x) = eph_pending (ew_mem u x))
    \<and> pe_buckets (ew_pending u') = pe_buckets (ew_pending u)"
  using assms(3-)
proof (induction "length ys" arbitrary: p u ys d rule: less_induct)
  case less
  let ?P = "\<lambda>x. ephemeron_is_pending (ew_mem w x)"
  show ?case
  proof (cases ys)
    case Nil
    then show ?thesis using less.prems by (subst while_result_unfold) auto
  next
    case (Cons e zs)
    have e: "p = e" "e \<noteq> 0" "ephemeron_is_pending (ew_mem u e)" "?P e" "e \<in> set xs" "e \<notin> set d"
      using less.prems Cons by (auto simp: ephemeron_is_pending_def)
    have dist: "distinct (e # zs)" using chain_distinct[OF less.prems(1)] Cons by simp
    define u1 where "u1 = body e u"
    have u1: "I (d @ [e]) u1" "keeps_links e u u1" using body[OF e(5,6,3) less.prems(3)] by (simp_all add: u1_def)
    have ch: "chain (\<lambda>x. eph_pending (ew_mem u1 x)) (eph_pending (ew_mem u1 e)) zs"
      using less.prems(1) Cons u1(2) by (simp add: keeps_links_def)
    define vs where "vs = dropWhile (\<lambda>x. \<not> ephemeron_is_pending (ew_mem u1 x)) zs"
    obtain q where q: "ephemeron_list_follow eph_pending ephemeron_is_pending (ew_mem u1) (eph_pending (ew_mem u1 e)) = Inr q"
      "chain (\<lambda>x. eph_pending (ew_mem u1 x)) q vs"
      using ephemeron_list_follow_chain[OF ch, of ephemeron_is_pending] by (auto simp: vs_def)
    have st: "ephemeron_is_pending (ew_mem u1 x) = ?P x" "eph_state (ew_mem u1 x) = eph_state (ew_mem w x)" if "x \<in> set zs" for x
      using that u1(2) less.prems(6) Cons dist by (auto simp: keeps_links_def ephemeron_is_pending_def)
    have vs_eq: "vs = dropWhile (\<lambda>x. \<not> ?P x) zs"
      unfolding vs_def by (rule dropWhile_cong) (simp_all add: st)
    note vs = dropWhile_facts[OF vs_eq]
    define u2 where "u2 = u1\<lparr>ew_mem := (ew_mem u1)(e := put_pending q (ew_mem u1 e))\<rparr>"
    have step: "follow_pending_link e (body e u) = Inr (q, u2)"
      using q(1) by (simp add: follow_pending_link_def u1_def[symmetric] u2_def Let_def)
    have "same_but_links u1 u2" by (simp add: same_but_links_def u2_def put_pending_def)
    then have I2: "I (d @ [e]) u2" using links u1(1) by blast
    have mem2: "ew_mem u2 = (ew_mem u1)(e := put_pending q (ew_mem u1 e))" by (simp add: u2_def)
    have c2: "chain (\<lambda>x. eph_pending (ew_mem u2 x)) q vs"
      unfolding mem2 by (rule iffD2[OF chain_mem_update]) (use q(2) vs(3) dist in auto)
    have st2: "eph_state (ew_mem u2 x) = eph_state (ew_mem w x)" if "x \<in> set vs" for x
      using that vs(3) st(2)[of x] by (auto simp: u2_def put_pending_def)
    then have hd2: "vs = [] \<or> ephemeron_is_pending (ew_mem u2 (hd vs))"
      using vs(1) by (cases vs) (auto simp: ephemeron_is_pending_def)
    have side: "length vs < length ys" "set vs \<subseteq> set xs" "set (d @ [e]) \<inter> set vs = {}"
      using vs(3,4) less.prems(4,5) Cons dist by auto
    from hd2 less.hyps[of vs, OF _ c2 _ I2] obtain u' where u':
      "while_result (\<lambda>(e, w). e \<noteq> 0) (\<lambda>(e, w). follow_pending_link e (body e w)) (q, u2) = Inr (0, u')"
      "I ((d @ [e]) @ filter ?P vs) u'" "chain (\<lambda>x. eph_pending (ew_mem u' x)) q (filter ?P vs)"
      "\<forall>x. x \<notin> set vs \<longrightarrow> eph_pending (ew_mem u' x) = eph_pending (ew_mem u2 x)"
      "pe_buckets (ew_pending u') = pe_buckets (ew_pending u2)"
      using side st2 by auto
    have "eph_pending (ew_mem u' e) = q" using u'(4) vs(3) dist by (auto simp: u2_def put_pending_def)
    moreover have "eph_pending (ew_mem u' x) = eph_pending (ew_mem u x)" if "x \<notin> set ys" for x
      using u'(4) vs(3) that Cons u1(2) by (auto simp: u2_def put_pending_def keeps_links_def)
    moreover have "pe_buckets (ew_pending u') = pe_buckets (ew_pending u)"
      using u'(5) u1(2) by (simp add: u2_def keeps_links_def)
    ultimately show ?thesis using u'(1,2,3) e Cons vs(2) step
      by (subst while_result_unfold) auto
  qed
qed

lemma for_each_pending_rule:
  assumes links: "\<And>d u u'. I d u \<Longrightarrow> same_but_links u u' \<Longrightarrow> I d u'"
    and body: "\<And>d e u. e \<in> set xs \<Longrightarrow> e \<notin> set d \<Longrightarrow> ephemeron_is_pending (ew_mem u e) \<Longrightarrow> I d u
      \<Longrightarrow> I (d @ [e]) (body e u) \<and> keeps_links e u (body e u)"
    and list: "chain (\<lambda>x. eph_pending (ew_mem w x)) (pe_buckets (ew_pending w) ! b) xs"
    and b: "b < length (pe_buckets (ew_pending w))" and init: "I [] w"
  shows "\<exists>u'. for_each_pending body b w = Inr u'
    \<and> I (filter (\<lambda>x. ephemeron_is_pending (ew_mem w x)) xs) u'
    \<and> chain (\<lambda>x. eph_pending (ew_mem u' x)) (pe_buckets (ew_pending u') ! b) (filter (\<lambda>x. ephemeron_is_pending (ew_mem w x)) xs)
    \<and> (\<forall>x. x \<notin> set xs \<longrightarrow> eph_pending (ew_mem u' x) = eph_pending (ew_mem w x))
    \<and> length (pe_buckets (ew_pending u')) = length (pe_buckets (ew_pending w))
    \<and> (\<forall>c. c \<noteq> b \<longrightarrow> pe_buckets (ew_pending u') ! c = pe_buckets (ew_pending w) ! c)"
proof -
  let ?P = "\<lambda>x. ephemeron_is_pending (ew_mem w x)"
  define vs where "vs = dropWhile (\<lambda>x. \<not> ?P x) xs"
  obtain q where q: "ephemeron_list_follow eph_pending ephemeron_is_pending (ew_mem w) (pe_buckets (ew_pending w) ! b) = Inr q"
    "chain (\<lambda>x. eph_pending (ew_mem w x)) q vs"
    using ephemeron_list_follow_chain[OF list, of ephemeron_is_pending] by (auto simp: vs_def)
  note vs = dropWhile_facts[OF vs_def]
  define u where "u = w\<lparr>ew_pending := (ew_pending w)\<lparr>pe_buckets := (pe_buckets (ew_pending w))[b := q]\<rparr>\<rparr>"
  have "same_but_links w u" by (simp add: same_but_links_def u_def)
  then have "I [] u" using links init by blast
  have "\<exists>u'. while_result (\<lambda>(e, w). e \<noteq> 0) (\<lambda>(e, w). follow_pending_link e (body e w)) (q, u) = Inr (0, u')
    \<and> I ([] @ filter ?P vs) u' \<and> chain (\<lambda>x. eph_pending (ew_mem u' x)) q (filter ?P vs)
    \<and> (\<forall>x. x \<notin> set vs \<longrightarrow> eph_pending (ew_mem u' x) = eph_pending (ew_mem u x))
    \<and> pe_buckets (ew_pending u') = pe_buckets (ew_pending u)"
  proof (rule pending_loop[where xs = xs])
    show "I d u'" if "I d u" "same_but_links u u'" for d u u' by (rule links[OF that])
    show "I (d @ [e]) (body e u) \<and> keeps_links e u (body e u)"
      if "e \<in> set xs" "e \<notin> set d" "ephemeron_is_pending (ew_mem u e)" "I d u" for d e u
      by (rule body[OF that])
  qed (use q(2) vs \<open>I [] u\<close> in \<open>auto simp: u_def\<close>)
  then obtain u' where u': "while_result (\<lambda>(e, w). e \<noteq> 0) (\<lambda>(e, w). follow_pending_link e (body e w)) (q, u) = Inr (0, u')"
    "I (filter ?P xs) u'" "chain (\<lambda>x. eph_pending (ew_mem u' x)) q (filter ?P xs)"
    "\<forall>x. x \<notin> set vs \<longrightarrow> eph_pending (ew_mem u' x) = eph_pending (ew_mem u x)"
    "pe_buckets (ew_pending u') = pe_buckets (ew_pending u)"
    unfolding vs(2) append_Nil by blast
  have "for_each_pending body b w = Inr u'"
    using q(1) u'(1) by (simp add: for_each_pending_def follow_pending_bucket_def Let_def u_def)
  moreover have "eph_pending (ew_mem u' x) = eph_pending (ew_mem w x)" if "x \<notin> set xs" for x
    using u'(4) vs(3) that by (auto simp: u_def)
  ultimately show ?thesis using u'(2,3,5) b by (intro exI[of _ u']) (simp add: u_def)
qed

end
