(* ===== verification/EphemeronCycle.thy ===== *)
theory EphemeronCycle
  imports Ephemeron
begin

section \<open>Ephemerons through a collection\<close>

text \<open>
  What a collection makes of ephemerons, for a collector that marks objects in place: \<open>marked h r\<close>
  says that \<open>r\<close> is visited in heap \<open>h\<close>.
\<close>

definition marking :: "('h \<Rightarrow> gc_ref \<Rightarrow> bool) \<Rightarrow> 'h eph_visit_key \<Rightarrow> 'h eph_visit \<Rightarrow> bool" where
  "marking marked vk visit \<longleftrightarrow>
    (\<forall>r h. vk r h = (marked h r, r, h))
    \<and> (\<forall>r h. fst (visit r h) = r \<and> (\<forall>x. marked (snd (visit r h)) x \<longleftrightarrow> marked h x \<or> x = r))"

lemma marking_key [simp]: "marking marked vk visit \<Longrightarrow> visit_eph_key vk e w = (marked (ew_heap w) (eph_key (ew_mem w e)), w)"
  by (simp add: marking_def visit_eph_key_def)

lemma marking_visit:
  assumes "marking marked vk visit"
  shows "\<exists>h'. visit r h = (r, h') \<and> (\<forall>x. marked h' x \<longleftrightarrow> marked h x \<or> x = r)"
  using assms unfolding marking_def by (metis prod.collapse)

definition bucket_index :: "'h eph_world \<Rightarrow> gc_ref \<Rightarrow> nat" where
  "bucket_index w ref =
    double_of_nat (double_of_nat (unat (hash_address ref)) * double_of_nat (length (pe_buckets (ew_pending w)))) div 2 ^ 64"

lemma pending_ephemeron_bucket_eq:
  "pending_ephemeron_bucket (ew_pending w) ref =
    (if bucket_index w ref < length (pe_buckets (ew_pending w)) then Inr (bucket_index w ref) else Inl Crash)"
  by (simp add: pending_ephemeron_bucket_def bucket_index_def gc_assert_def)

subsection \<open>The invariant of a collection\<close>

definition eph_inv :: "('h \<Rightarrow> gc_ref \<Rightarrow> bool) \<Rightarrow> 'h eph_world \<Rightarrow> u64 list list \<Rightarrow> u64 list \<Rightarrow> bool" where
  "eph_inv marked w bl rl \<longleftrightarrow>
    length bl = length (pe_buckets (ew_pending w))
    \<and> (\<forall>b < length bl. chain (\<lambda>e. eph_pending (ew_mem w e)) (pe_buckets (ew_pending w) ! b) (bl ! b))
    \<and> (\<forall>b < length bl. \<forall>e \<in> set (bl ! b). eph_epoch (ew_mem w e) = ew_epoch w)
    \<and> (\<forall>b < length bl. \<forall>c < length bl. b \<noteq> c \<longrightarrow> set (bl ! b) \<inter> set (bl ! c) = {})
    \<and> chain (\<lambda>e. eph_resolved (ew_mem w e)) (pe_resolved (ew_pending w)) rl
    \<and> (\<forall>e. eph_state (ew_mem w e) = Ephemeron_Pending \<longrightarrow>
        eph_key (ew_mem w e) \<noteq> 0 \<and> bucket_index w (eph_key (ew_mem w e)) < length bl
        \<and> e \<in> set (bl ! bucket_index w (eph_key (ew_mem w e))))
    \<and> (\<forall>e. eph_state (ew_mem w e) = Ephemeron_Resolved \<longleftrightarrow> e \<in> set rl)
    \<and> (\<forall>e \<in> set rl. eph_epoch (ew_mem w e) = ew_epoch w \<and> eph_key (ew_mem w e) \<noteq> 0
        \<and> marked (ew_heap w) (eph_key (ew_mem w e)))
    \<and> (\<forall>e. eph_state (ew_mem w e) \<noteq> Ephemeron_Claimed)
    \<and> (\<forall>e. eph_epoch (ew_mem w e) = ew_epoch w \<and> eph_state (ew_mem w e) = Ephemeron_Traced
        \<and> eph_key (ew_mem w e) \<noteq> 0 \<longrightarrow>
        marked (ew_heap w) (eph_key (ew_mem w e)) \<and> marked (ew_heap w) (eph_value (ew_mem w e)))"

lemma eph_inv_facts:
  assumes "eph_inv marked w bl rl"
  shows "length bl = length (pe_buckets (ew_pending w))"
    "\<And>b. b < length bl \<Longrightarrow> chain (\<lambda>e. eph_pending (ew_mem w e)) (pe_buckets (ew_pending w) ! b) (bl ! b)"
    "\<And>b e. b < length bl \<Longrightarrow> e \<in> set (bl ! b) \<Longrightarrow> eph_epoch (ew_mem w e) = ew_epoch w"
    "\<And>b c e. b < length bl \<Longrightarrow> c < length bl \<Longrightarrow> b \<noteq> c \<Longrightarrow> e \<in> set (bl ! c) \<Longrightarrow> e \<notin> set (bl ! b)"
    "chain (\<lambda>e. eph_resolved (ew_mem w e)) (pe_resolved (ew_pending w)) rl"
    "\<And>e. eph_state (ew_mem w e) = Ephemeron_Pending \<Longrightarrow> eph_key (ew_mem w e) \<noteq> 0
      \<and> bucket_index w (eph_key (ew_mem w e)) < length bl \<and> e \<in> set (bl ! bucket_index w (eph_key (ew_mem w e)))"
    "\<And>e. eph_state (ew_mem w e) = Ephemeron_Resolved \<longleftrightarrow> e \<in> set rl"
    "\<And>e. e \<in> set rl \<Longrightarrow> eph_epoch (ew_mem w e) = ew_epoch w \<and> eph_key (ew_mem w e) \<noteq> 0
        \<and> marked (ew_heap w) (eph_key (ew_mem w e))"
    "\<And>e. eph_state (ew_mem w e) \<noteq> Ephemeron_Claimed"
    "\<And>e. eph_epoch (ew_mem w e) = ew_epoch w \<Longrightarrow> eph_state (ew_mem w e) = Ephemeron_Traced
        \<Longrightarrow> eph_key (ew_mem w e) \<noteq> 0 \<Longrightarrow>
        marked (ew_heap w) (eph_key (ew_mem w e)) \<and> marked (ew_heap w) (eph_value (ew_mem w e))"
  using assms unfolding eph_inv_def by blast+

text \<open>What an operation that only moves ephemerons from pending to resolved changes.\<close>

definition same_assoc :: "'h eph_world \<Rightarrow> 'h eph_world \<Rightarrow> bool" where
  "same_assoc w u \<longleftrightarrow> ew_epoch u = ew_epoch w
    \<and> length (pe_buckets (ew_pending u)) = length (pe_buckets (ew_pending w))
    \<and> (\<forall>x. eph_epoch (ew_mem u x) = eph_epoch (ew_mem w x) \<and> eph_chain (ew_mem u x) = eph_chain (ew_mem w x)
        \<and> eph_value (ew_mem u x) = eph_value (ew_mem w x))"

definition resolves :: "u64 set \<Rightarrow> 'h eph_world \<Rightarrow> 'h eph_world \<Rightarrow> bool" where
  "resolves S w u \<longleftrightarrow> same_assoc w u \<and> ew_heap u = ew_heap w
    \<and> (\<forall>x. eph_key (ew_mem u x) = eph_key (ew_mem w x))
    \<and> (\<forall>x. eph_state (ew_mem u x) = (if x \<in> S then Ephemeron_Resolved else eph_state (ew_mem w x)))"

lemma resolves_trans: "resolves S w u \<Longrightarrow> resolves T u v \<Longrightarrow> resolves (S \<union> T) w v"
  by (simp add: resolves_def same_assoc_def)

lemma resolves_bucket: "resolves S w u \<Longrightarrow> bucket_index u = bucket_index w"
  by (simp add: resolves_def same_assoc_def bucket_index_def fun_eq_iff)

lemma maybe_resolve_pending:
  assumes "ephemeron_is_pending (ew_mem w e)"
  shows "maybe_resolve_ephemeron e w =
    w\<lparr>ew_mem := (ew_mem w)(e := (ew_mem w e)\<lparr>eph_state := Ephemeron_Resolved, eph_resolved := pe_resolved (ew_pending w)\<rparr>),
      ew_pending := (ew_pending w)\<lparr>pe_resolved := e\<rparr>\<rparr>"
  using assms by (simp add: maybe_resolve_ephemeron_def push_resolved_def set_eph_state_def ephemeron_is_pending_def
      ephemeron_list_push_def ephemeron_list_try_push_def put_resolved_def Let_def)

text \<open>The invariant after a pass over bucket \<open>b\<close> that left the ephemerons \<open>ds\<close> in it.\<close>

lemma eph_inv_bucket:
  fixes w u :: "'h eph_world"
  assumes inv: "eph_inv marked w bl rl" and b: "b < length bl"
    and len: "length (pe_buckets (ew_pending u)) = length (pe_buckets (ew_pending w))"
    and others: "\<And>c. c \<noteq> b \<Longrightarrow> pe_buckets (ew_pending u) ! c = pe_buckets (ew_pending w) ! c"
      "\<And>x. x \<notin> set (bl ! b) \<Longrightarrow> eph_pending (ew_mem u x) = eph_pending (ew_mem w x)"
    and ds: "chain (\<lambda>e. eph_pending (ew_mem u e)) (pe_buckets (ew_pending u) ! b) ds" "set ds \<subseteq> set (bl ! b)"
    and same: "ew_epoch u = ew_epoch w" "ew_heap u = ew_heap w"
      "\<And>x. eph_epoch (ew_mem u x) = eph_epoch (ew_mem w x)" "\<And>x. eph_value (ew_mem u x) = eph_value (ew_mem w x)"
    and key: "\<And>x. eph_key (ew_mem u x) = eph_key (ew_mem w x) \<or> eph_key (ew_mem u x) = 0 \<and> eph_state (ew_mem u x) = Ephemeron_Traced"
    and state: "\<And>x. eph_state (ew_mem u x) = eph_state (ew_mem w x)
      \<or> eph_state (ew_mem w x) = Ephemeron_Pending \<and> (eph_state (ew_mem u x) = Ephemeron_Resolved
          \<or> eph_state (ew_mem u x) = Ephemeron_Traced \<and> eph_key (ew_mem u x) = 0)"
    and left: "\<And>x. eph_state (ew_mem u x) = Ephemeron_Pending \<Longrightarrow> x \<in> set (bl ! b) \<Longrightarrow> x \<in> set ds"
    and rl: "chain (\<lambda>e. eph_resolved (ew_mem u e)) (pe_resolved (ew_pending u)) rl'"
      "\<And>x. eph_state (ew_mem u x) = Ephemeron_Resolved \<longleftrightarrow> x \<in> set rl'"
      "\<And>x. eph_state (ew_mem u x) = Ephemeron_Resolved
        \<Longrightarrow> eph_state (ew_mem w x) = Ephemeron_Resolved \<or> marked (ew_heap w) (eph_key (ew_mem w x))"
  shows "eph_inv marked u (bl[b := ds]) rl'"
proof -
  note facts = eph_inv_facts[OF inv]
  have bi: "bucket_index u = bucket_index w" using len by (simp add: bucket_index_def fun_eq_iff)
  let ?bl = "bl[b := ds]"
  have sub: "set (?bl ! c) \<subseteq> set (bl ! c)" if "c < length bl" for c
    using that b ds(2) by (cases "c = b") auto
  show ?thesis
    unfolding eph_inv_def
  proof (intro conjI allI impI ballI)
    show "length ?bl = length (pe_buckets (ew_pending u))" using facts(1) len by simp
    show "chain (\<lambda>e. eph_pending (ew_mem u e)) (pe_buckets (ew_pending u) ! c) (?bl ! c)" if c: "c < length ?bl" for c
    proof (cases "c = b")
      case False
      have "chain (\<lambda>e. eph_pending (ew_mem u e)) p (bl ! c) = chain (\<lambda>e. eph_pending (ew_mem w e)) p (bl ! c)" for p
        by (rule chain_cong) (use others(2) facts(4)[OF b] c False in simp)
      then show ?thesis using False c facts(2) others(1) by simp
    qed (use ds b in simp)
    show "eph_epoch (ew_mem u e) = ew_epoch u" if c: "c < length ?bl" "e \<in> set (?bl ! c)" for c e
      using facts(3)[of c e] sub[of c] c by (auto simp: same)
    show "set (?bl ! c) \<inter> set (?bl ! d) = {}" if cd: "c < length ?bl" "d < length ?bl" "c \<noteq> d" for c d
    proof -
      have "set (bl ! c) \<inter> set (bl ! d) = {}" using facts(4)[of c d] cd by auto
      then show ?thesis using sub[of c] sub[of d] cd by auto
    qed
    fix e
    { assume "eph_state (ew_mem u e) = Ephemeron_Pending"
      then have p: "eph_state (ew_mem w e) = Ephemeron_Pending" "eph_key (ew_mem u e) = eph_key (ew_mem w e)"
        using state[of e] key[of e] by auto
      show "eph_key (ew_mem u e) \<noteq> 0" "bucket_index u (eph_key (ew_mem u e)) < length ?bl"
        using facts(6)[OF p(1)] p(2) by (simp_all add: bi)
      show "e \<in> set (?bl ! bucket_index u (eph_key (ew_mem u e)))"
        using facts(6)[OF p(1)] p(2) left[of e] \<open>eph_state (ew_mem u e) = Ephemeron_Pending\<close> b
        by (cases "bucket_index w (eph_key (ew_mem w e)) = b") (simp_all add: bi) }
    show "eph_state (ew_mem u e) \<noteq> Ephemeron_Claimed" using state[of e] facts(9)[of e] by auto
    { assume e: "eph_epoch (ew_mem u e) = ew_epoch u \<and> eph_state (ew_mem u e) = Ephemeron_Traced \<and> eph_key (ew_mem u e) \<noteq> 0"
      then have "eph_state (ew_mem w e) = Ephemeron_Traced" "eph_key (ew_mem u e) = eph_key (ew_mem w e)"
        using state[of e] key[of e] by auto
      then show "marked (ew_heap u) (eph_key (ew_mem u e))" "marked (ew_heap u) (eph_value (ew_mem u e))"
        using facts(10)[of e] e by (simp_all add: same) }
    { assume "e \<in> set rl'"
      then have r: "eph_state (ew_mem u e) = Ephemeron_Resolved" using rl(2) by blast
      then have k: "eph_key (ew_mem u e) = eph_key (ew_mem w e)" using key[of e] by auto
      consider "eph_state (ew_mem w e) = Ephemeron_Resolved"
        | "eph_state (ew_mem w e) = Ephemeron_Pending" "marked (ew_heap w) (eph_key (ew_mem w e))"
        using r rl(3)[of e] state[of e] by auto
      then have "eph_epoch (ew_mem w e) = ew_epoch w \<and> eph_key (ew_mem w e) \<noteq> 0 \<and> marked (ew_heap w) (eph_key (ew_mem w e))"
      proof cases
        case 1
        then show ?thesis using facts(7,8) by blast
      next
        case 2
        then show ?thesis using facts(3,6) by blast
      qed
      then show "eph_epoch (ew_mem u e) = ew_epoch u" "eph_key (ew_mem u e) \<noteq> 0" "marked (ew_heap u) (eph_key (ew_mem u e))"
        by (simp_all add: same k) }
  qed (use rl in auto)
qed

lemma pending_in_bucket:
  assumes inv: "eph_inv marked w bl rl" and b: "b < length bl"
  shows "e \<in> set (filter (\<lambda>e. ephemeron_is_pending (ew_mem w e)) (bl ! b)) \<longleftrightarrow>
    eph_state (ew_mem w e) = Ephemeron_Pending \<and> bucket_index w (eph_key (ew_mem w e)) = b"
proof -
  have "e \<in> set (bl ! b)" if "eph_state (ew_mem w e) = Ephemeron_Pending" "bucket_index w (eph_key (ew_mem w e)) = b"
    using inv that by (auto simp: eph_inv_def)
  moreover have "bucket_index w (eph_key (ew_mem w e)) = b" if "e \<in> set (bl ! b)" "eph_state (ew_mem w e) = Ephemeron_Pending"
  proof (rule ccontr)
    assume "bucket_index w (eph_key (ew_mem w e)) \<noteq> b"
    moreover have "bucket_index w (eph_key (ew_mem w e)) < length bl"
      "e \<in> set (bl ! bucket_index w (eph_key (ew_mem w e)))"
      using inv that(2) by (auto simp: eph_inv_def)
    ultimately show False using inv b that(1) unfolding eph_inv_def by blast
  qed
  ultimately show ?thesis by (auto simp: ephemeron_is_pending_def)
qed

lemma resolve_bucket_list:
  fixes w :: "'h eph_world"
  assumes inv: "eph_inv marked w bl rl" and b: "b < length bl"
    and sel: "\<And>e. P (eph_key (ew_mem w e)) \<Longrightarrow> marked (ew_heap w) (eph_key (ew_mem w e))"
    and body: "\<And>e u. ew_heap u = ew_heap w \<Longrightarrow> body e u = (if P (eph_key (ew_mem u e)) then maybe_resolve_ephemeron e u else u)"
  shows "\<exists>u bl' rl'. for_each_pending body b w = Inr u \<and> eph_inv marked u bl' rl'
    \<and> resolves {e. eph_state (ew_mem w e) = Ephemeron_Pending
        \<and> bucket_index w (eph_key (ew_mem w e)) = b \<and> P (eph_key (ew_mem w e))} w u"
proof -
  let ?P = "\<lambda>e. P (eph_key (ew_mem w e))"
  let ?pend = "\<lambda>e. ephemeron_is_pending (ew_mem w e)"
  let ?ds = "filter ?pend (bl ! b)"
  define I where "I = (\<lambda>d (u :: 'h eph_world). ew_epoch u = ew_epoch w \<and> ew_heap u = ew_heap w
    \<and> (\<forall>x. eph_epoch (ew_mem u x) = eph_epoch (ew_mem w x) \<and> eph_chain (ew_mem u x) = eph_chain (ew_mem w x)
        \<and> eph_value (ew_mem u x) = eph_value (ew_mem w x) \<and> eph_key (ew_mem u x) = eph_key (ew_mem w x))
    \<and> (\<forall>x. eph_state (ew_mem u x) = (if x \<in> set d \<and> ?P x then Ephemeron_Resolved else eph_state (ew_mem w x)))
    \<and> chain (\<lambda>e. eph_resolved (ew_mem u e)) (pe_resolved (ew_pending u)) (rev (filter ?P d) @ rl))"
  have rl: "\<forall>e \<in> set rl. eph_state (ew_mem w e) = Ephemeron_Resolved" using inv by (simp add: eph_inv_def)
  have ch: "chain (\<lambda>e. eph_pending (ew_mem w e)) (pe_buckets (ew_pending w) ! b) (bl ! b)"
    using inv b by (simp add: eph_inv_def)
  have "\<exists>u'. for_each_pending body b w = Inr u' \<and> I ?ds u'
    \<and> chain (\<lambda>x. eph_pending (ew_mem u' x)) (pe_buckets (ew_pending u') ! b) ?ds
    \<and> (\<forall>x. x \<notin> set (bl ! b) \<longrightarrow> eph_pending (ew_mem u' x) = eph_pending (ew_mem w x))
    \<and> length (pe_buckets (ew_pending u')) = length (pe_buckets (ew_pending w))
    \<and> (\<forall>c. c \<noteq> b \<longrightarrow> pe_buckets (ew_pending u') ! c = pe_buckets (ew_pending w) ! c)"
  proof (rule for_each_pending_rule[OF _ _ ch])
    show "I d u'" if "I d u" "same_but_links u u'" for d u u'
      using that(1) unfolding I_def same_but_links_fields[OF that(2)] .
    show "I (d @ [e]) (body e u) \<and> keeps_links e u (body e u)"
      if "e \<in> set (bl ! b)" "e \<notin> set d" "ephemeron_is_pending (ew_mem u e)" "I d u" for d e u
    proof -
      have e: "?P e = P (eph_key (ew_mem u e))" "eph_state (ew_mem w e) = Ephemeron_Pending"
        "e \<noteq> 0" "e \<notin> set (rev (filter ?P d) @ rl)"
        using that chain_nonzero[OF ch] rl by (auto simp: I_def ephemeron_is_pending_def split: if_splits)
      have bd: "body e u = (if ?P e then maybe_resolve_ephemeron e u else u)"
        using body[of u e] that(4) e(1) by (simp add: I_def)
      show ?thesis
      proof (cases "?P e")
        case True
        have m: "body e u = maybe_resolve_ephemeron e u" using bd True by simp
        have "chain (\<lambda>x. eph_resolved (ew_mem u x)) (pe_resolved (ew_pending u)) (rev (filter ?P d) @ rl)"
          using that(4) by (simp add: I_def)
        then have "chain (\<lambda>x. eph_resolved (((ew_mem u)(e := y)) x)) (pe_resolved (ew_pending u)) (rev (filter ?P d) @ rl)" for y
          by (subst chain_mem_update[OF e(4)])
        then show ?thesis using that(2,4) True e(2,3) unfolding m maybe_resolve_pending[OF that(3)]
          by (simp add: I_def keeps_links_def)
      next
        case False
        then show ?thesis using that(4) bd by (simp add: I_def keeps_links_def)
      qed
    qed
  qed (use inv b in \<open>auto simp: I_def eph_inv_def\<close>)
  then obtain u where u: "for_each_pending body b w = Inr u" "I ?ds u"
    "chain (\<lambda>x. eph_pending (ew_mem u x)) (pe_buckets (ew_pending u) ! b) ?ds"
    "\<forall>x. x \<notin> set (bl ! b) \<longrightarrow> eph_pending (ew_mem u x) = eph_pending (ew_mem w x)"
    "length (pe_buckets (ew_pending u)) = length (pe_buckets (ew_pending w))"
    "\<forall>c. c \<noteq> b \<longrightarrow> pe_buckets (ew_pending u) ! c = pe_buckets (ew_pending w) ! c" by blast
  note in_b = pending_in_bucket[OF inv b]
  have Is: "ew_epoch u = ew_epoch w" "ew_heap u = ew_heap w"
    "\<And>x. eph_epoch (ew_mem u x) = eph_epoch (ew_mem w x)" "\<And>x. eph_chain (ew_mem u x) = eph_chain (ew_mem w x)"
    "\<And>x. eph_value (ew_mem u x) = eph_value (ew_mem w x)" "\<And>x. eph_key (ew_mem u x) = eph_key (ew_mem w x)"
    "\<And>x. eph_state (ew_mem u x) = (if x \<in> set ?ds \<and> ?P x then Ephemeron_Resolved else eph_state (ew_mem w x))"
    "chain (\<lambda>e. eph_resolved (ew_mem u e)) (pe_resolved (ew_pending u)) (rev (filter ?P ?ds) @ rl)"
    using u(2) by (simp_all add: I_def)
  have bi: "bucket_index u = bucket_index w" using u(5) by (simp add: bucket_index_def fun_eq_iff)
  have "eph_inv marked u (bl[b := ?ds]) (rev (filter ?P ?ds) @ rl)"
  proof (rule eph_inv_bucket[OF inv b])
    show "eph_state (ew_mem u e) = Ephemeron_Resolved \<longleftrightarrow> e \<in> set (rev (filter ?P ?ds) @ rl)" for e
      using eph_inv_facts(7)[OF inv] by (auto simp: Is(7) ephemeron_is_pending_def)
    show "eph_state (ew_mem w e) = Ephemeron_Resolved \<or> marked (ew_heap w) (eph_key (ew_mem w e))"
      if "eph_state (ew_mem u e) = Ephemeron_Resolved" for e
      using that sel by (auto simp: Is(7) split: if_splits)
  qed (use u(3-6) Is in \<open>auto simp: ephemeron_is_pending_def split: if_splits\<close>)
  moreover have "{e. eph_state (ew_mem w e) = Ephemeron_Pending
        \<and> bucket_index w (eph_key (ew_mem w e)) = b \<and> P (eph_key (ew_mem w e))} = {e. e \<in> set ?ds \<and> ?P e}"
    unfolding in_b by blast
  then have "resolves {e. eph_state (ew_mem w e) = Ephemeron_Pending
        \<and> bucket_index w (eph_key (ew_mem w e)) = b \<and> P (eph_key (ew_mem w e))} w u"
    using u(5) by (simp only: resolves_def same_assoc_def Is mem_Collect_eq) simp
  ultimately show ?thesis using u(1) by blast
qed

subsection \<open>Resolving, scanning and sweeping\<close>

lemma resolve_pending_inv:
  fixes w :: "'h eph_world"
  assumes m: "marking marked vk visit" and inv: "eph_inv marked w bl rl" and obj: "marked (ew_heap w) obj"
    and b: "bucket_index w obj < length (pe_buckets (ew_pending w))"
  shows "\<exists>u bl' rl'. gc_resolve_pending_ephemerons vk obj w = Inr u \<and> eph_inv marked u bl' rl'
    \<and> resolves {e. eph_state (ew_mem w e) = Ephemeron_Pending \<and> eph_key (ew_mem w e) = obj} w u"
proof -
  have len: "bucket_index w obj < length bl" using b eph_inv_facts(1)[OF inv] by simp
  have "\<exists>u bl' rl'. for_each_pending (resolve_pending_one vk obj) (bucket_index w obj) w = Inr u \<and> eph_inv marked u bl' rl'
    \<and> resolves {e. eph_state (ew_mem w e) = Ephemeron_Pending
        \<and> bucket_index w (eph_key (ew_mem w e)) = bucket_index w obj \<and> obj = eph_key (ew_mem w e)} w u"
    by (rule resolve_bucket_list[OF inv len, where P = "(=) obj"])
      (use obj m in \<open>auto simp: resolve_pending_one_def\<close>)
  moreover have "{e. eph_state (ew_mem w e) = Ephemeron_Pending
        \<and> bucket_index w (eph_key (ew_mem w e)) = bucket_index w obj \<and> obj = eph_key (ew_mem w e)}
    = {e. eph_state (ew_mem w e) = Ephemeron_Pending \<and> eph_key (ew_mem w e) = obj}" by auto
  ultimately show ?thesis using b by (simp add: gc_resolve_pending_ephemerons_def pending_ephemeron_bucket_eq)
qed

lemma scan_buckets:
  fixes w :: "'h eph_world"
  assumes m: "marking marked vk visit"
  shows "eph_inv marked w bl rl \<Longrightarrow> set bs \<subseteq> {..<length (pe_buckets (ew_pending w))} \<Longrightarrow>
    \<exists>u bl' rl'. result_fold (for_each_pending (scan_pending_one vk)) bs w = Inr u \<and> eph_inv marked u bl' rl'
    \<and> resolves {e. eph_state (ew_mem w e) = Ephemeron_Pending
        \<and> bucket_index w (eph_key (ew_mem w e)) \<in> set bs \<and> marked (ew_heap w) (eph_key (ew_mem w e))} w u"
proof (induction bs arbitrary: w bl rl)
  case Nil
  have "resolves {} w w" by (simp add: resolves_def same_assoc_def)
  then show ?case using Nil by auto
next
  case (Cons b bs)
  let ?S = "\<lambda>w B. {e. eph_state (ew_mem w e) = Ephemeron_Pending
        \<and> bucket_index w (eph_key (ew_mem w e)) \<in> B \<and> marked (ew_heap w) (eph_key (ew_mem w e))}"
  have b: "b < length bl" using Cons.prems eph_inv_facts(1)[OF Cons.prems(1)] by simp
  have "\<exists>u bl' rl'. for_each_pending (scan_pending_one vk) b w = Inr u \<and> eph_inv marked u bl' rl'
    \<and> resolves {e. eph_state (ew_mem w e) = Ephemeron_Pending
        \<and> bucket_index w (eph_key (ew_mem w e)) = b \<and> marked (ew_heap w) (eph_key (ew_mem w e))} w u"
    by (rule resolve_bucket_list[OF Cons.prems(1) b, where P = "marked (ew_heap w)"])
      (use m in \<open>auto simp: scan_pending_one_def\<close>)
  then obtain u bl1 rl1 where u: "for_each_pending (scan_pending_one vk) b w = Inr u" "eph_inv marked u bl1 rl1"
    "resolves (?S w {b}) w u" by auto
  have "set bs \<subseteq> {..<length (pe_buckets (ew_pending u))}"
    using Cons.prems(2) u(3) by (simp add: resolves_def same_assoc_def)
  from Cons.IH[OF u(2) this] obtain v bl2 rl2 where v: "result_fold (for_each_pending (scan_pending_one vk)) bs u = Inr v"
    "eph_inv marked v bl2 rl2" "resolves (?S u (set bs)) u v" by blast
  have "?S w {b} \<union> ?S u (set bs) = ?S w (set (b # bs))"
    using u(3) resolves_bucket[OF u(3)] by (auto simp: resolves_def split: if_splits)
  then have "resolves (?S w (set (b # bs))) w v" using resolves_trans[OF u(3) v(3)] by (simp only:)
  then show ?case using u(1) v(1,2) by auto
qed

lemma shard_bound_mono: "s \<le> t \<Longrightarrow> shard_bound n s k \<le> shard_bound n t k"
  by (simp add: shard_bound_def div_le_mono)

lemma shard_bound_ends: "0 < k \<Longrightarrow> shard_bound n 0 k = 0" "0 < k \<Longrightarrow> shard_bound n k k = n"
  by (simp_all add: shard_bound_def)

lemma shard_cover:
  assumes "0 < k"
  shows "idx < n \<longleftrightarrow> (\<exists>s < k. idx \<in> {shard_bound n s k..<shard_bound n (s + 1) k})"
proof
  assume "idx < n"
  then have "\<not> shard_bound n k k \<le> idx" using shard_bound_ends(2)[OF assms] by simp
  then obtain m where m: "m \<le> k" "\<not> shard_bound n m k \<le> idx" "\<And>i. i < m \<Longrightarrow> shard_bound n i k \<le> idx"
    using least_stop[of "\<lambda>s. shard_bound n s k \<le> idx" k] by metis
  have "m \<noteq> 0" using m(2) shard_bound_ends(1)[OF assms] by (metis le0)
  then show "\<exists>s < k. idx \<in> {shard_bound n s k..<shard_bound n (s + 1) k}"
    using m by (intro exI[of _ "m - 1"]) auto
next
  assume "\<exists>s < k. idx \<in> {shard_bound n s k..<shard_bound n (s + 1) k}"
  then obtain s where "s < k" "idx < shard_bound n (s + 1) k" by auto
  then show "idx < n" using shard_bound_mono[of "s + 1" k n k] shard_bound_ends(2)[OF assms, of n] by simp
qed

text \<open>The shards of a scan, in any order.\<close>

definition scan_shards :: "'h eph_visit_key \<Rightarrow> nat \<Rightarrow> nat list \<Rightarrow> 'h eph_world \<Rightarrow> 'h eph_world result" where
  "scan_shards vk k = result_fold (\<lambda>s. gc_scan_pending_ephemerons vk s k)"

lemma scan_shards_inv:
  fixes w :: "'h eph_world"
  assumes m: "marking marked vk visit"
  shows "eph_inv marked w bl rl \<Longrightarrow> set ss \<subseteq> {..<k} \<Longrightarrow>
    \<exists>u bl' rl'. scan_shards vk k ss w = Inr u \<and> eph_inv marked u bl' rl'
    \<and> resolves {e. eph_state (ew_mem w e) = Ephemeron_Pending
        \<and> (\<exists>s \<in> set ss. bucket_index w (eph_key (ew_mem w e))
            \<in> {shard_bound (length (pe_buckets (ew_pending w))) s k..<shard_bound (length (pe_buckets (ew_pending w))) (s + 1) k})
        \<and> marked (ew_heap w) (eph_key (ew_mem w e))} w u"
proof (induction ss arbitrary: w bl rl)
  case Nil
  have "resolves {} w w" by (simp add: resolves_def same_assoc_def)
  then show ?case using Nil by (auto simp: scan_shards_def)
next
  case (Cons s ss)
  let ?n = "\<lambda>w. length (pe_buckets (ew_pending w))"
  let ?B = "\<lambda>w s. {shard_bound (?n w) s k..<shard_bound (?n w) (s + 1) k}"
  let ?S = "\<lambda>w A. {e. eph_state (ew_mem w e) = Ephemeron_Pending
        \<and> (\<exists>s \<in> A. bucket_index w (eph_key (ew_mem w e)) \<in> ?B w s) \<and> marked (ew_heap w) (eph_key (ew_mem w e))}"
  have s: "s < k" using Cons.prems(2) by simp
  then have "set [shard_bound (?n w) s k..<shard_bound (?n w) (s + 1) k] \<subseteq> {..<?n w}"
    using shard_cover[of k _ "?n w"] by auto
  from scan_buckets[OF m Cons.prems(1) this] obtain u bl1 rl1 where
    u: "gc_scan_pending_ephemerons vk s k w = Inr u" "eph_inv marked u bl1 rl1" "resolves (?S w {s}) w u"
    using s by (auto simp: gc_scan_pending_ephemerons_def)
  have "set ss \<subseteq> {..<k}" using Cons.prems(2) by simp
  from Cons.IH[OF u(2) this] obtain v bl2 rl2 where v: "scan_shards vk k ss u = Inr v"
    "eph_inv marked v bl2 rl2" "resolves (?S u (set ss)) u v" by blast
  have "?S w {s} \<union> ?S u (set ss) = ?S w (set (s # ss))"
    using u(3) resolves_bucket[OF u(3)] by (auto simp: resolves_def same_assoc_def split: if_splits)
  then have "resolves (?S w (set (s # ss))) w v" using resolves_trans[OF u(3) v(3)] by (simp only:)
  moreover have "scan_shards vk k (s # ss) w = Inr v" using u(1) v(1) by (simp add: scan_shards_def)
  ultimately show ?case using v(2) by blast
qed

text \<open>A complete scan resolves every pending ephemeron whose key is live.\<close>

lemma scan_all:
  fixes w :: "'h eph_world"
  assumes "marking marked vk visit" "eph_inv marked w bl rl" "0 < k" "set ss = {..<k}"
  shows "\<exists>u bl' rl'. scan_shards vk k ss w = Inr u \<and> eph_inv marked u bl' rl'
    \<and> resolves {e. eph_state (ew_mem w e) = Ephemeron_Pending \<and> marked (ew_heap w) (eph_key (ew_mem w e))} w u"
proof -
  have "{e. eph_state (ew_mem w e) = Ephemeron_Pending
        \<and> (\<exists>s \<in> set ss. bucket_index w (eph_key (ew_mem w e))
            \<in> {shard_bound (length (pe_buckets (ew_pending w))) s k..<shard_bound (length (pe_buckets (ew_pending w))) (s + 1) k})
        \<and> marked (ew_heap w) (eph_key (ew_mem w e))}
    = {e. eph_state (ew_mem w e) = Ephemeron_Pending \<and> marked (ew_heap w) (eph_key (ew_mem w e))}"
    using eph_inv_facts(1,6)[OF assms(2)] shard_cover[OF assms(3), of _ "length (pe_buckets (ew_pending w))"]
    unfolding assms(4) lessThan_iff[symmetric] by fastforce
  then show ?thesis using scan_shards_inv[OF assms(1,2), of ss k] assms(4) by simp
qed

definition kills :: "u64 set \<Rightarrow> 'h eph_world \<Rightarrow> 'h eph_world \<Rightarrow> bool" where
  "kills S w u \<longleftrightarrow> same_assoc w u \<and> ew_heap u = ew_heap w \<and> pe_resolved (ew_pending u) = pe_resolved (ew_pending w)
    \<and> (\<forall>x. eph_key (ew_mem u x) = (if x \<in> S then 0 else eph_key (ew_mem w x)))
    \<and> (\<forall>x. eph_state (ew_mem u x) = (if x \<in> S then Ephemeron_Traced else eph_state (ew_mem w x)))"

lemma kills_trans: "kills S w u \<Longrightarrow> kills T u v \<Longrightarrow> kills (S \<union> T) w v"
  by (simp add: kills_def same_assoc_def)

lemma kills_bucket: "kills S w u \<Longrightarrow> bucket_index u = bucket_index w"
  by (simp add: kills_def same_assoc_def bucket_index_def fun_eq_iff)

lemma sweep_bucket:
  fixes w :: "'h eph_world"
  assumes inv: "eph_inv marked w bl rl" and b: "b < length bl"
  shows "\<exists>u. sweep_pending_bucket b w = Inr u \<and> eph_inv marked u (bl[b := []]) rl
    \<and> pe_buckets (ew_pending u) ! b = 0
    \<and> (\<forall>c. c \<noteq> b \<longrightarrow> pe_buckets (ew_pending u) ! c = pe_buckets (ew_pending w) ! c)
    \<and> kills {e. eph_state (ew_mem w e) = Ephemeron_Pending \<and> bucket_index w (eph_key (ew_mem w e)) = b} w u"
proof -
  note facts = eph_inv_facts[OF inv]
  let ?pend = "\<lambda>e. ephemeron_is_pending (ew_mem w e)"
  let ?ds = "filter ?pend (bl ! b)"
  define I where "I = (\<lambda>d (u :: 'h eph_world). ew_epoch u = ew_epoch w \<and> ew_heap u = ew_heap w
    \<and> pe_resolved (ew_pending u) = pe_resolved (ew_pending w)
    \<and> (\<forall>x. eph_epoch (ew_mem u x) = eph_epoch (ew_mem w x) \<and> eph_chain (ew_mem u x) = eph_chain (ew_mem w x)
        \<and> eph_value (ew_mem u x) = eph_value (ew_mem w x) \<and> eph_resolved (ew_mem u x) = eph_resolved (ew_mem w x))
    \<and> (\<forall>x. eph_key (ew_mem u x) = (if x \<in> set d then 0 else eph_key (ew_mem w x)))
    \<and> (\<forall>x. eph_state (ew_mem u x) = (if x \<in> set d then Ephemeron_Traced else eph_state (ew_mem w x))))"
  have "\<exists>u'. for_each_pending sweep_pending_one b w = Inr u' \<and> I ?ds u'
    \<and> chain (\<lambda>x. eph_pending (ew_mem u' x)) (pe_buckets (ew_pending u') ! b) ?ds
    \<and> (\<forall>x. x \<notin> set (bl ! b) \<longrightarrow> eph_pending (ew_mem u' x) = eph_pending (ew_mem w x))
    \<and> length (pe_buckets (ew_pending u')) = length (pe_buckets (ew_pending w))
    \<and> (\<forall>c. c \<noteq> b \<longrightarrow> pe_buckets (ew_pending u') ! c = pe_buckets (ew_pending w) ! c)"
  proof (rule for_each_pending_rule[OF _ _ facts(2)[OF b]])
    show "I d u'" if "I d u" "same_but_links u u'" for d u u'
      using that(1) unfolding I_def same_but_links_fields[OF that(2)] .
    show "I (d @ [e]) (sweep_pending_one e u) \<and> keeps_links e u (sweep_pending_one e u)"
      if "I d u" for d e u
      using that by (simp add: I_def keeps_links_def sweep_pending_one_def set_eph_state_def gc_ephemeron_mark_dead_def)
  qed (use facts(1) b in \<open>auto simp: I_def\<close>)
  then obtain u where u: "for_each_pending sweep_pending_one b w = Inr u" "I ?ds u"
    "\<forall>x. x \<notin> set (bl ! b) \<longrightarrow> eph_pending (ew_mem u x) = eph_pending (ew_mem w x)"
    "length (pe_buckets (ew_pending u)) = length (pe_buckets (ew_pending w))"
    "\<forall>c. c \<noteq> b \<longrightarrow> pe_buckets (ew_pending u) ! c = pe_buckets (ew_pending w) ! c" by blast
  define v where "v = u\<lparr>ew_pending := (ew_pending u)\<lparr>pe_buckets := (pe_buckets (ew_pending u))[b := 0]\<rparr>\<rparr>"
  have Is: "ew_epoch v = ew_epoch w" "ew_heap v = ew_heap w" "pe_resolved (ew_pending v) = pe_resolved (ew_pending w)"
    "\<And>x. eph_epoch (ew_mem v x) = eph_epoch (ew_mem w x)" "\<And>x. eph_chain (ew_mem v x) = eph_chain (ew_mem w x)"
    "\<And>x. eph_value (ew_mem v x) = eph_value (ew_mem w x)" "\<And>x. eph_resolved (ew_mem v x) = eph_resolved (ew_mem w x)"
    "\<And>x. eph_key (ew_mem v x) = (if x \<in> set ?ds then 0 else eph_key (ew_mem w x))"
    "\<And>x. eph_state (ew_mem v x) = (if x \<in> set ?ds then Ephemeron_Traced else eph_state (ew_mem w x))"
    using u(2) by (simp_all add: I_def v_def)
  have lenv: "length (pe_buckets (ew_pending v)) = length (pe_buckets (ew_pending w))" using u(4) by (simp add: v_def)
  have b0: "pe_buckets (ew_pending v) ! b = 0" using u(4) b facts(1) by (simp add: v_def)
  have oth: "pe_buckets (ew_pending v) ! c = pe_buckets (ew_pending w) ! c" if "c \<noteq> b" for c
    using u(5) that by (simp add: v_def)
  have "eph_inv marked v (bl[b := []]) rl"
  proof (rule eph_inv_bucket[OF inv b])
    show "length (pe_buckets (ew_pending v)) = length (pe_buckets (ew_pending w))" by (rule lenv)
    show "chain (\<lambda>e. eph_resolved (ew_mem v e)) (pe_resolved (ew_pending v)) rl" using facts(5) by (simp only: Is)
    show "eph_state (ew_mem v x) = Ephemeron_Resolved \<longleftrightarrow> x \<in> set rl" for x
      using facts(7)[of x] by (auto simp: Is(9) ephemeron_is_pending_def)
    show "eph_pending (ew_mem v x) = eph_pending (ew_mem w x)" if "x \<notin> set (bl ! b)" for x
      using u(3) that by (simp add: v_def)
  qed (use b0 oth Is(1-7) in \<open>auto simp: Is(8,9) ephemeron_is_pending_def split: if_splits\<close>)
  moreover note in_b = pending_in_bucket[OF inv b]
  have "kills {e. eph_state (ew_mem w e) = Ephemeron_Pending \<and> bucket_index w (eph_key (ew_mem w e)) = b} w v"
    unfolding kills_def same_assoc_def in_b[symmetric] using lenv by (simp only: Is mem_Collect_eq) simp
  moreover have "sweep_pending_bucket b w = Inr v" using u(1) by (simp add: sweep_pending_bucket_def v_def Let_def)
  ultimately show ?thesis using b0 oth by blast
qed

lemma sweep_buckets:
  fixes w :: "'h eph_world"
  shows "eph_inv marked w bl rl \<Longrightarrow> set bs \<subseteq> {..<length (pe_buckets (ew_pending w))} \<Longrightarrow>
    \<exists>u bl'. result_fold sweep_pending_bucket bs w = Inr u \<and> eph_inv marked u bl' rl
    \<and> (\<forall>c. pe_buckets (ew_pending u) ! c = (if c \<in> set bs then 0 else pe_buckets (ew_pending w) ! c))
    \<and> kills {e. eph_state (ew_mem w e) = Ephemeron_Pending \<and> bucket_index w (eph_key (ew_mem w e)) \<in> set bs} w u"
proof (induction bs arbitrary: w bl)
  case Nil
  have "kills {} w w" by (simp add: kills_def same_assoc_def)
  then show ?case using Nil by auto
next
  case (Cons b bs)
  let ?S = "\<lambda>w B. {e. eph_state (ew_mem w e) = Ephemeron_Pending \<and> bucket_index w (eph_key (ew_mem w e)) \<in> B}"
  have b: "b < length bl" using Cons.prems eph_inv_facts(1)[OF Cons.prems(1)] by simp
  obtain u where u: "sweep_pending_bucket b w = Inr u" "eph_inv marked u (bl[b := []]) rl" "pe_buckets (ew_pending u) ! b = 0"
    "\<forall>c. c \<noteq> b \<longrightarrow> pe_buckets (ew_pending u) ! c = pe_buckets (ew_pending w) ! c" "kills (?S w {b}) w u"
    using sweep_bucket[OF Cons.prems(1) b] by auto
  have "set bs \<subseteq> {..<length (pe_buckets (ew_pending u))}"
    using Cons.prems(2) u(5) by (simp add: kills_def same_assoc_def)
  from Cons.IH[OF u(2) this] obtain v bl' where v: "result_fold sweep_pending_bucket bs u = Inr v" "eph_inv marked v bl' rl"
    "\<forall>c. pe_buckets (ew_pending v) ! c = (if c \<in> set bs then 0 else pe_buckets (ew_pending u) ! c)"
    "kills (?S u (set bs)) u v" by blast
  have "?S w {b} \<union> ?S u (set bs) = ?S w (set (b # bs))"
    using u(5) kills_bucket[OF u(5)] by (auto simp: kills_def split: if_splits)
  then have "kills (?S w (set (b # bs))) w v" using kills_trans[OF u(5) v(4)] by (simp only:)
  then show ?case using u(1,3,4) v(1,2,3) by auto
qed

definition sweep_shards :: "nat \<Rightarrow> nat list \<Rightarrow> 'h eph_world \<Rightarrow> 'h eph_world result" where
  "sweep_shards k = result_fold (\<lambda>s. gc_sweep_pending_ephemerons s k)"


lemma sweep_shards_inv:
  fixes w :: "'h eph_world"
  shows "eph_inv marked w bl rl \<Longrightarrow> set ss \<subseteq> {..<k} \<Longrightarrow> n = length (pe_buckets (ew_pending w)) \<Longrightarrow>
    \<exists>u bl'. sweep_shards k ss w = Inr u \<and> eph_inv marked u bl' rl
    \<and> (\<forall>c. pe_buckets (ew_pending u) ! c =
        (if \<exists>s \<in> set ss. c \<in> {shard_bound n s k..<shard_bound n (s + 1) k} then 0 else pe_buckets (ew_pending w) ! c))
    \<and> kills {e. eph_state (ew_mem w e) = Ephemeron_Pending
        \<and> (\<exists>s \<in> set ss. bucket_index w (eph_key (ew_mem w e)) \<in> {shard_bound n s k..<shard_bound n (s + 1) k})} w u"
proof (induction ss arbitrary: w bl)
  case Nil
  have "kills {} w w" by (simp add: kills_def same_assoc_def)
  then show ?case using Nil by (auto simp: sweep_shards_def)
next
  case (Cons s ss)
  let ?B = "\<lambda>s. {shard_bound n s k..<shard_bound n (s + 1) k}"
  let ?S = "\<lambda>w A. {e. eph_state (ew_mem w e) = Ephemeron_Pending \<and> (\<exists>s \<in> A. bucket_index w (eph_key (ew_mem w e)) \<in> ?B s)}"
  have s: "s < k" using Cons.prems(2) by simp
  then have "set [shard_bound n s k..<shard_bound n (s + 1) k] \<subseteq> {..<length (pe_buckets (ew_pending w))}"
    using shard_cover[of k _ n] Cons.prems(3) by auto
  from sweep_buckets[OF Cons.prems(1) this] obtain u bl1 where
    u: "gc_sweep_pending_ephemerons s k w = Inr u" "eph_inv marked u bl1 rl"
      "\<forall>c. pe_buckets (ew_pending u) ! c = (if c \<in> ?B s then 0 else pe_buckets (ew_pending w) ! c)"
      "kills (?S w {s}) w u"
    using s Cons.prems(3) by (auto simp: gc_sweep_pending_ephemerons_def)
  have "set ss \<subseteq> {..<k}" "n = length (pe_buckets (ew_pending u))"
    using Cons.prems(2,3) u(4) by (simp_all add: kills_def same_assoc_def)
  from Cons.IH[OF u(2) this] obtain v bl2 where v: "sweep_shards k ss u = Inr v" "eph_inv marked v bl2 rl"
    "\<forall>c. pe_buckets (ew_pending v) ! c = (if \<exists>s \<in> set ss. c \<in> ?B s then 0 else pe_buckets (ew_pending u) ! c)"
    "kills (?S u (set ss)) u v" by blast
  have "?S w {s} \<union> ?S u (set ss) = ?S w (set (s # ss))"
    using u(4) kills_bucket[OF u(4)] by (auto simp: kills_def split: if_splits)
  then have "kills (?S w (set (s # ss))) w v" using kills_trans[OF u(4) v(4)] by (simp only:)
  moreover have "sweep_shards k (s # ss) w = Inr v" using u(1) v(1) by (simp add: sweep_shards_def)
  moreover have "\<forall>c. pe_buckets (ew_pending v) ! c = (if \<exists>s \<in> set (s # ss). c \<in> ?B s then 0 else pe_buckets (ew_pending w) ! c)"
    using u(3) v(3) by auto
  ultimately show ?case using v(2) by blast
qed

lemma sweep_all:
  fixes w :: "'h eph_world"
  assumes "eph_inv marked w bl rl" "0 < k" "set ss = {..<k}"
  shows "\<exists>u bl'. sweep_shards k ss w = Inr u \<and> eph_inv marked u bl' rl
    \<and> (\<forall>b < length (pe_buckets (ew_pending u)). pe_buckets (ew_pending u) ! b = 0)
    \<and> kills {e. eph_state (ew_mem w e) = Ephemeron_Pending} w u"
proof -
  let ?n = "length (pe_buckets (ew_pending w))"
  have cover: "(\<exists>s \<in> set ss. b \<in> {shard_bound ?n s k..<shard_bound ?n (s + 1) k}) \<longleftrightarrow> b < ?n" for b
    using shard_cover[OF assms(2), of b ?n] assms(3) by auto
  obtain u bl' where u: "sweep_shards k ss w = Inr u" "eph_inv marked u bl' rl"
    "\<forall>c. pe_buckets (ew_pending u) ! c = (if c < ?n then 0 else pe_buckets (ew_pending w) ! c)"
    "kills {e. eph_state (ew_mem w e) = Ephemeron_Pending \<and> bucket_index w (eph_key (ew_mem w e)) < ?n} w u"
    using sweep_shards_inv[OF assms(1) _ refl, of ss k] assms(3) unfolding cover by blast
  have "{e. eph_state (ew_mem w e) = Ephemeron_Pending \<and> bucket_index w (eph_key (ew_mem w e)) < ?n}
    = {e. eph_state (ew_mem w e) = Ephemeron_Pending}"
    using eph_inv_facts(1,6)[OF assms(1)] by auto
  then show ?thesis using u by (auto simp: kills_def same_assoc_def)
qed

subsection \<open>Tracing ephemerons\<close>

lemma eph_inv_heap:
  assumes "eph_inv marked w bl rl" "\<And>x. marked (ew_heap w) x \<Longrightarrow> marked h x"
  shows "eph_inv marked (w\<lparr>ew_heap := h\<rparr>) bl rl"
proof -
  have bi: "bucket_index (w\<lparr>ew_heap := h\<rparr>) = bucket_index w" by (simp add: bucket_index_def fun_eq_iff)
  note facts = eph_inv_facts[OF assms(1)]
  have "set (bl ! b) \<inter> set (bl ! c) = {}" if "b < length bl" "c < length bl" "b \<noteq> c" for b c
    using facts(4)[OF that] by blast
  then show ?thesis unfolding eph_inv_def bi using facts(1,2,3,5,6,7,8,9,10) assms(2) by simp
qed

lemma eph_inv_fresh:
  assumes inv: "eph_inv marked w bl rl" and e: "eph_epoch (ew_mem w e) \<noteq> ew_epoch w"
  shows "b < length bl \<Longrightarrow> e \<notin> set (bl ! b)" "e \<notin> set rl"
  using eph_inv_facts(3,8)[OF inv] e by blast+

lemma eph_inv_traced:
  assumes inv: "eph_inv marked w bl rl" and fresh: "eph_epoch (ew_mem w e) \<noteq> ew_epoch w"
    and x: "eph_state x = Ephemeron_Traced" "eph_epoch x = ew_epoch w"
      "eph_key x \<noteq> 0 \<Longrightarrow> marked (ew_heap w) (eph_key x) \<and> marked (ew_heap w) (eph_value x)"
  shows "eph_inv marked (w\<lparr>ew_mem := (ew_mem w)(e := x)\<rparr>) bl rl"
proof -
  note facts = eph_inv_facts[OF inv] and out = eph_inv_fresh[OF inv fresh]
  let ?u = "w\<lparr>ew_mem := (ew_mem w)(e := x)\<rparr>"
  have bi: "bucket_index ?u = bucket_index w" by (simp add: bucket_index_def fun_eq_iff)
  have mem: "ew_mem ?u = (ew_mem w)(e := x)" by simp
  have "chain (\<lambda>x. eph_pending (ew_mem ?u x)) (pe_buckets (ew_pending w) ! b) (bl ! b)" if "b < length bl" for b
    unfolding mem by (rule iffD2[OF chain_mem_update[OF out(1)[OF that]]], rule facts(2)[OF that])
  moreover have "chain (\<lambda>x. eph_resolved (ew_mem ?u x)) (pe_resolved (ew_pending w)) rl"
    unfolding mem by (rule iffD2[OF chain_mem_update[OF out(2)]], rule facts(5))
  moreover have "set (bl ! b) \<inter> set (bl ! c) = {}" if "b < length bl" "c < length bl" "b \<noteq> c" for b c
    using facts(4)[OF that] by blast
  ultimately show ?thesis
    unfolding eph_inv_def bi using facts(1,3,6,7,8,9,10) x out by auto
qed

lemma eph_inv_pending:
  assumes inv: "eph_inv marked w bl rl" and fresh: "eph_epoch (ew_mem w e) \<noteq> ew_epoch w" "e \<noteq> 0"
    and b: "b = bucket_index w (eph_key x)" "b < length bl"
    and x: "eph_state x = Ephemeron_Pending" "eph_epoch x = ew_epoch w" "eph_key x \<noteq> 0"
      "eph_pending x = pe_buckets (ew_pending w) ! b"
  shows "eph_inv marked (w\<lparr>ew_mem := (ew_mem w)(e := x),
    ew_pending := (ew_pending w)\<lparr>pe_buckets := (pe_buckets (ew_pending w))[b := e]\<rparr>\<rparr>) (bl[b := e # bl ! b]) rl"
proof -
  note facts = eph_inv_facts[OF inv] and out = eph_inv_fresh[OF inv fresh(1)]
  let ?u = "w\<lparr>ew_mem := (ew_mem w)(e := x), ew_pending := (ew_pending w)\<lparr>pe_buckets := (pe_buckets (ew_pending w))[b := e]\<rparr>\<rparr>"
  let ?bl = "bl[b := e # bl ! b]"
  have bi: "bucket_index ?u = bucket_index w" by (simp add: bucket_index_def fun_eq_iff)
  have mem: "ew_mem ?u = (ew_mem w)(e := x)" by simp
  have ch: "chain (\<lambda>x. eph_pending (ew_mem ?u x)) (pe_buckets (ew_pending w) ! c) (bl ! c)" if "c < length bl" for c
    unfolding mem by (rule iffD2[OF chain_mem_update[OF out(1)[OF that]]], rule facts(2)[OF that])
  have "chain (\<lambda>x. eph_pending (ew_mem ?u x)) (pe_buckets (ew_pending ?u) ! c) (?bl ! c)" if "c < length bl" for c
    using ch[OF that] ch[OF b(2)] fresh(2) x(4) b(2) that facts(1) by (cases "c = b") auto
  moreover have "chain (\<lambda>x. eph_resolved (ew_mem ?u x)) (pe_resolved (ew_pending ?u)) rl"
    unfolding mem using chain_mem_update[OF out(2), of eph_resolved "ew_mem w" x] facts(5) by simp
  moreover have disj: "set (?bl ! c) \<inter> set (?bl ! d) = {}" if "c < length bl" "d < length bl" "c \<noteq> d" for c d
    using facts(4)[OF that] out(1)[OF that(1)] out(1)[OF that(2)] that b(2) by (auto simp: nth_list_update)
  moreover have "\<forall>g \<in> set (?bl ! c). eph_epoch (ew_mem ?u g) = ew_epoch w" if "c < length bl" for c
    using facts(3)[OF that] x(2) that b(2) by (auto simp: nth_list_update)
  moreover have "eph_key (ew_mem ?u g) \<noteq> 0 \<and> bucket_index w (eph_key (ew_mem ?u g)) < length bl
      \<and> g \<in> set (?bl ! bucket_index w (eph_key (ew_mem ?u g)))"
    if "eph_state (ew_mem ?u g) = Ephemeron_Pending" for g
  proof (cases "g = e")
    case False
    then have "eph_state (ew_mem w g) = Ephemeron_Pending" using that by simp
    then show ?thesis using facts(6) False b(2) by (auto simp: nth_list_update)
  qed (use x b in auto)
  ultimately show ?thesis
    unfolding eph_inv_def bi using facts(1,7,8,9,10) x out by simp
qed


text \<open>What \<open>gc_trace_ephemeron\<close> does to an ephemeron that it sees first in this epoch.\<close>

lemma gc_trace_ephemeron_new:
  assumes m: "marking marked vk visit" and new: "eph_state (ew_mem w e) = Ephemeron_Traced" "eph_epoch (ew_mem w e) \<noteq> ew_epoch w"
    and eq: "gc_trace_ephemeron vk visit e w = Inr u"
  obtains p h x where "x = (ew_mem w e)\<lparr>eph_epoch := ew_epoch w, eph_pending := 0, eph_resolved := 0, eph_chain := p\<rparr>"
    "\<And>y. marked h y \<longleftrightarrow> marked (ew_heap w) y \<or> y = p" "eph_key x = 0" "u = w\<lparr>ew_heap := h, ew_mem := (ew_mem w)(e := x)\<rparr>"
  | p h h' x where "x = (ew_mem w e)\<lparr>eph_epoch := ew_epoch w, eph_pending := 0, eph_resolved := 0, eph_chain := p\<rparr>"
    "\<And>y. marked h y \<longleftrightarrow> marked (ew_heap w) y \<or> y = p" "marked h (eph_key x)"
    "\<And>y. marked h' y \<longleftrightarrow> marked h y \<or> y = eph_value x" "u = w\<lparr>ew_heap := h', ew_mem := (ew_mem w)(e := x)\<rparr>"
  | p h x b where "x = (ew_mem w e)\<lparr>eph_epoch := ew_epoch w, eph_pending := 0, eph_resolved := 0, eph_chain := p\<rparr>"
    "\<And>y. marked h y \<longleftrightarrow> marked (ew_heap w) y \<or> y = p" "eph_key x \<noteq> 0"
    "b = bucket_index w (eph_key x)" "b < length (pe_buckets (ew_pending w))"
    "u = w\<lparr>ew_heap := h, ew_mem := (ew_mem w)(e := x\<lparr>eph_state := Ephemeron_Pending, eph_pending := pe_buckets (ew_pending w) ! b\<rparr>),
             ew_pending := (ew_pending w)\<lparr>pe_buckets := (pe_buckets (ew_pending w))[b := e]\<rparr>\<rparr>"
proof -
  let ?m = "(ew_mem w)(e := (ew_mem w e)\<lparr>eph_state := Ephemeron_Claimed, eph_epoch := ew_epoch w, eph_pending := 0, eph_resolved := 0\<rparr>)"
  obtain p where p: "follow_chain ?m (eph_chain (ew_mem w e)) = Inr p"
    using eq new by (auto simp: gc_trace_ephemeron_def set_eph_state_def Let_def gc_ephemeron_chain_next_def result_bind_eq_Inr)
  obtain h where h: "visit p (ew_heap w) = (p, h)" "\<forall>y. marked h y \<longleftrightarrow> marked (ew_heap w) y \<or> y = p"
    using marking_visit[OF m] by blast
  define x where "x = (ew_mem w e)\<lparr>eph_epoch := ew_epoch w, eph_pending := 0, eph_resolved := 0, eph_chain := p\<rparr>"
  define c where "c = (ew_mem w e)\<lparr>eph_state := Ephemeron_Claimed, eph_epoch := ew_epoch w, eph_pending := 0, eph_resolved := 0, eph_chain := p\<rparr>"
  define v where "v = w\<lparr>ew_mem := (ew_mem w)(e := c), ew_heap := h\<rparr>"
  have cx: "c\<lparr>eph_state := Ephemeron_Traced\<rparr> = x" "c\<lparr>eph_state := s\<rparr> = x\<lparr>eph_state := s\<rparr>" for s
    using new by (cases "ew_mem w e", simp add: c_def x_def)+
  have ck: "eph_key c = eph_key x" "eph_value c = eph_value x" by (simp_all add: c_def x_def)
  have body: "gc_trace_ephemeron vk visit e w =
    (if eph_key c = 0 then Inr (set_eph_state e Ephemeron_Traced v)
     else if marked h (eph_key c) then Inr (set_eph_state e Ephemeron_Traced (visit_eph_value visit e v))
     else result_bind (add_pending_ephemeron e v) (\<lambda>w. Inr (if marked (ew_heap w) (eph_key (ew_mem w e)) then maybe_resolve_ephemeron e w else w)))"
    using new p h(1) unfolding gc_trace_ephemeron_def v_def
    by (simp add: set_eph_state_def Let_def gc_ephemeron_chain_next_def put_chain_def visit_eph_chain_def
        ephemeron_is_dead_def marking_key[OF m] c_def)
  consider "eph_key x = 0" | "eph_key x \<noteq> 0" "marked h (eph_key x)" | "eph_key x \<noteq> 0" "\<not> marked h (eph_key x)" by blast
  then show thesis
  proof cases
    case 1
    then have "u = w\<lparr>ew_heap := h, ew_mem := (ew_mem w)(e := x)\<rparr>"
      using eq by (simp add: body ck v_def set_eph_state_def cx(1))
    then show thesis using that(1)[OF x_def, of h] h(2) 1 by blast
  next
    case 2
    obtain h' where h': "visit (eph_value x) h = (eph_value x, h')" "\<forall>y. marked h' y \<longleftrightarrow> marked h y \<or> y = eph_value x"
      using marking_visit[OF m] by blast
    have cv: "c\<lparr>eph_value := eph_value x\<rparr> = c" unfolding ck(2)[symmetric] by simp
    have "u = w\<lparr>ew_heap := h', ew_mem := (ew_mem w)(e := x)\<rparr>"
      using eq 2 h'(1) by (simp add: body ck v_def set_eph_state_def visit_eph_value_def cx(1) cv)
    then show thesis using that(2)[OF x_def, of h h'] h(2) h'(2) 2 by blast
  next
    case 3
    let ?b = "bucket_index w (eph_key x)"
    have bi: "bucket_index v = bucket_index w" by (simp add: bucket_index_def v_def fun_eq_iff)
    let ?y = "x\<lparr>eph_state := Ephemeron_Pending, eph_pending := pe_buckets (ew_pending w) ! ?b\<rparr>"
    let ?v = "w\<lparr>ew_heap := h, ew_mem := (ew_mem w)(e := ?y),
      ew_pending := (ew_pending w)\<lparr>pe_buckets := (pe_buckets (ew_pending w))[?b := e]\<rparr>\<rparr>"
    have ve: "eph_key (ew_mem v e) = eph_key x" "ew_pending v = ew_pending w" by (simp_all add: v_def ck)
    have b: "?b < length (pe_buckets (ew_pending w))"
      using eq 3 by (auto simp: body ck add_pending_ephemeron_def pending_ephemeron_bucket_eq ve bi split: if_splits)
    have push: "push_pending (set_eph_state e Ephemeron_Pending v) ?b e = ?v"
      by (simp add: push_pending_def set_eph_state_def ephemeron_list_push_def ephemeron_list_try_push_def put_pending_def
          Let_def v_def cx(2))
    have "add_pending_ephemeron e v = Inr ?v"
      using b by (simp add: add_pending_ephemeron_def pending_ephemeron_bucket_eq ve bi push)
    then have "u = ?v" using eq 3 by (simp add: body ck)
    then show thesis using that(3)[OF x_def, of h ?b] h(2) 3(1) b by blast
  qed
qed

lemma gc_trace_ephemeron_old:
  assumes "eph_state (ew_mem w e) \<noteq> Ephemeron_Traced \<or> eph_epoch (ew_mem w e) = ew_epoch w"
  shows "gc_trace_ephemeron vk visit e w = Inr w"
proof (cases "eph_state (ew_mem w e) = Ephemeron_Traced")
  case True
  then have "(ew_mem w)(e := (ew_mem w e)\<lparr>eph_state := Ephemeron_Traced\<rparr>) = ew_mem w"
    by (intro ext) (cases "ew_mem w e", simp)
  then have "w\<lparr>ew_mem := (ew_mem w)(e := (ew_mem w e)\<lparr>eph_state := Ephemeron_Traced\<rparr>)\<rparr> = w" by simp
  then show ?thesis using assms True
    by (simp add: gc_trace_ephemeron_def set_eph_state_def Let_def del: fun_upd_apply) (simp add: fun_upd_def)
qed (simp add: gc_trace_ephemeron_def)

lemma trace_inv:
  assumes m: "marking marked vk visit" and inv: "eph_inv marked w bl rl" and e: "e \<noteq> 0"
    and eq: "gc_trace_ephemeron vk visit e w = Inr u"
  shows "\<exists>bl'. eph_inv marked u bl' rl"
proof (cases "eph_state (ew_mem w e) = Ephemeron_Traced \<and> eph_epoch (ew_mem w e) \<noteq> ew_epoch w")
  case True
  then have new: "eph_state (ew_mem w e) = Ephemeron_Traced" "eph_epoch (ew_mem w e) \<noteq> ew_epoch w" by auto
  show ?thesis
  proof (rule gc_trace_ephemeron_new[OF m new eq])
    fix p h x assume x: "x = (ew_mem w e)\<lparr>eph_epoch := ew_epoch w, eph_pending := 0, eph_resolved := 0, eph_chain := p\<rparr>"
      "\<And>y. marked h y \<longleftrightarrow> marked (ew_heap w) y \<or> y = p" "eph_key x = 0" "u = w\<lparr>ew_heap := h, ew_mem := (ew_mem w)(e := x)\<rparr>"
    have "eph_inv marked (w\<lparr>ew_heap := h\<rparr>) bl rl" by (rule eph_inv_heap[OF inv]) (simp add: x(2))
    from eph_inv_traced[OF this, of e x] show ?thesis using new x by auto
  next
    fix p h h' x assume x: "x = (ew_mem w e)\<lparr>eph_epoch := ew_epoch w, eph_pending := 0, eph_resolved := 0, eph_chain := p\<rparr>"
      "\<And>y. marked h y \<longleftrightarrow> marked (ew_heap w) y \<or> y = p" "marked h (eph_key x)"
      "\<And>y. marked h' y \<longleftrightarrow> marked h y \<or> y = eph_value x" "u = w\<lparr>ew_heap := h', ew_mem := (ew_mem w)(e := x)\<rparr>"
    have "eph_inv marked (w\<lparr>ew_heap := h'\<rparr>) bl rl" by (rule eph_inv_heap[OF inv]) (simp add: x(2,4))
    from eph_inv_traced[OF this, of e x] show ?thesis using new x by auto
  next
    fix p h x b assume x: "x = (ew_mem w e)\<lparr>eph_epoch := ew_epoch w, eph_pending := 0, eph_resolved := 0, eph_chain := p\<rparr>"
      "\<And>y. marked h y \<longleftrightarrow> marked (ew_heap w) y \<or> y = p" "eph_key x \<noteq> 0"
      "b = bucket_index w (eph_key x)" "b < length (pe_buckets (ew_pending w))"
      "u = w\<lparr>ew_heap := h, ew_mem := (ew_mem w)(e := x\<lparr>eph_state := Ephemeron_Pending, eph_pending := pe_buckets (ew_pending w) ! b\<rparr>),
             ew_pending := (ew_pending w)\<lparr>pe_buckets := (pe_buckets (ew_pending w))[b := e]\<rparr>\<rparr>"
    let ?y = "x\<lparr>eph_state := Ephemeron_Pending, eph_pending := pe_buckets (ew_pending w) ! b\<rparr>"
    have inv': "eph_inv marked (w\<lparr>ew_heap := h\<rparr>) bl rl" by (rule eph_inv_heap[OF inv]) (simp add: x(2))
    have bi: "bucket_index (w\<lparr>ew_heap := h\<rparr>) = bucket_index w" by (simp add: bucket_index_def fun_eq_iff)
    have "b < length bl" using x(5) eph_inv_facts(1)[OF inv] by simp
    from eph_inv_pending[OF inv' _ e _ this, of ?y] show ?thesis using new x bi by auto
  qed
next
  case False
  then show ?thesis using gc_trace_ephemeron_old[of w e vk visit] eq inv by auto
qed

text \<open>Popping the resolved ephemerons and tracing their values.\<close>

definition drain_resolved :: "'h eph_visit \<Rightarrow> 'h eph_world \<Rightarrow> 'h eph_world result" where
  "drain_resolved visit w = (let (e, w) = gc_pop_resolved_ephemerons w in gc_trace_resolved_ephemerons visit e w)"

lemma eph_inv_resolved_step:
  assumes inv: "eph_inv marked w bl (e # rl)" and v: "\<And>y. marked h y \<longleftrightarrow> marked (ew_heap w) y \<or> y = eph_value (ew_mem w e)"
  shows "eph_inv marked (w\<lparr>ew_heap := h, ew_mem := (ew_mem w)(e := (ew_mem w e)\<lparr>eph_state := Ephemeron_Traced\<rparr>),
    ew_pending := (ew_pending w)\<lparr>pe_resolved := eph_resolved (ew_mem w e)\<rparr>\<rparr>) bl rl"
proof -
  note facts = eph_inv_facts[OF inv]
  let ?u = "w\<lparr>ew_heap := h, ew_mem := (ew_mem w)(e := (ew_mem w e)\<lparr>eph_state := Ephemeron_Traced\<rparr>),
    ew_pending := (ew_pending w)\<lparr>pe_resolved := eph_resolved (ew_mem w e)\<rparr>\<rparr>"
  have bi: "bucket_index ?u = bucket_index w" by (simp add: bucket_index_def fun_eq_iff)
  have dist: "e \<notin> set rl" using chain_distinct[OF facts(5)] by simp
  have mem: "eph_pending (ew_mem ?u x) = eph_pending (ew_mem w x)" "eph_resolved (ew_mem ?u x) = eph_resolved (ew_mem w x)" for x
    by simp_all
  have "set (bl ! b) \<inter> set (bl ! c) = {}" if "b < length bl" "c < length bl" "b \<noteq> c" for b c
    using facts(4)[OF that] by blast
  moreover have "chain (\<lambda>x. eph_resolved (ew_mem ?u x)) (pe_resolved (ew_pending ?u)) rl"
    unfolding mem using facts(5) by simp
  moreover have "eph_key (ew_mem w e) \<noteq> 0 \<and> marked (ew_heap w) (eph_key (ew_mem w e))"
    using facts(8)[of e] by simp
  ultimately show ?thesis
    unfolding eph_inv_def bi mem using facts(1,2,3,6,7,8,9,10) dist v by auto
qed

lemma trace_resolved_list:
  assumes m: "marking marked vk visit"
  shows "pe_resolved (ew_pending w) = 0 \<Longrightarrow>
    eph_inv marked (w\<lparr>ew_pending := (ew_pending w)\<lparr>pe_resolved := p\<rparr>\<rparr>) bl rl \<Longrightarrow>
    \<exists>u. gc_trace_resolved_ephemerons visit p w = Inr u \<and> eph_inv marked u bl []"
proof (induction rl arbitrary: p w)
  case Nil
  have p: "p = 0" using eph_inv_facts(5)[OF Nil(2)] by simp
  have "w\<lparr>ew_pending := (ew_pending w)\<lparr>pe_resolved := p\<rparr>\<rparr> = w" using Nil(1) p by simp
  then show ?case using Nil(2) p by (simp add: gc_trace_resolved_ephemerons_def while_loop_unfold[of _ _ "(0, w)"])
next
  case (Cons e rl)
  have p: "p = e" "e \<noteq> 0" using eph_inv_facts(5)[OF Cons.prems(2)] by simp_all
  obtain h where h: "visit (eph_value (ew_mem w e)) (ew_heap w) = (eph_value (ew_mem w e), h)"
    "\<forall>y. marked h y \<longleftrightarrow> marked (ew_heap w) y \<or> y = eph_value (ew_mem w e)"
    using marking_visit[OF m] by blast
  define u where "u = w\<lparr>ew_heap := h, ew_mem := (ew_mem w)(e := (ew_mem w e)\<lparr>eph_state := Ephemeron_Traced\<rparr>)\<rparr>"
  have step: "set_eph_state e Ephemeron_Traced (visit_eph_value visit e w) = u"
    using h(1) by (simp add: set_eph_state_def visit_eph_value_def u_def)
  have "eph_inv marked (u\<lparr>ew_pending := (ew_pending u)\<lparr>pe_resolved := eph_resolved (ew_mem u e)\<rparr>\<rparr>) bl rl"
    using eph_inv_resolved_step[OF Cons.prems(2), of h] h(2) by (simp add: u_def)
  from Cons.IH[OF _ this] obtain v where v: "gc_trace_resolved_ephemerons visit (eph_resolved (ew_mem u e)) u = Inr v" "eph_inv marked v bl []"
    using Cons.prems(1) by (auto simp: u_def)
  have "gc_trace_resolved_ephemerons visit p w = Inr v"
    using v(1) p unfolding gc_trace_resolved_ephemerons_def
    by (subst while_loop_unfold) (simp add: step Let_def)
  then show ?case using v(2) by blast
qed

lemma drain_inv:
  assumes "marking marked vk visit" "eph_inv marked w bl rl"
  shows "\<exists>u. drain_resolved visit w = Inr u \<and> eph_inv marked u bl []"
proof -
  let ?w = "w\<lparr>ew_pending := (ew_pending w)\<lparr>pe_resolved := 0\<rparr>\<rparr>"
  have "eph_inv marked (?w\<lparr>ew_pending := (ew_pending ?w)\<lparr>pe_resolved := pe_resolved (ew_pending w)\<rparr>\<rparr>) bl rl"
    using assms(2) by simp
  from trace_resolved_list[OF assms(1) _ this] show ?thesis
    by (simp add: drain_resolved_def gc_pop_resolved_ephemerons_def)
qed

subsection \<open>A whole cycle\<close>

definition cycle_start :: "'h eph_world \<Rightarrow> bool" where
  "cycle_start w \<longleftrightarrow> pe_resolved (ew_pending w) = 0
    \<and> (\<forall>b < length (pe_buckets (ew_pending w)). pe_buckets (ew_pending w) ! b = 0)
    \<and> (\<forall>e. eph_state (ew_mem w e) = Ephemeron_Traced \<and> eph_epoch (ew_mem w e) \<noteq> ew_epoch w)"

text \<open>
  The steps of a collection, in any order and number: it traces ephemerons, marks objects, resolves
  the ephemerons of an object it has marked, scans a shard of the pending table, and traces what
  was resolved.
\<close>

inductive eph_cycle :: "('h \<Rightarrow> gc_ref \<Rightarrow> bool) \<Rightarrow> 'h eph_visit_key \<Rightarrow> 'h eph_visit \<Rightarrow> 'h eph_world \<Rightarrow> bool"
  for marked vk visit where
  start: "cycle_start w \<Longrightarrow> eph_cycle marked vk visit w"
| trace: "eph_cycle marked vk visit w \<Longrightarrow> e \<noteq> 0 \<Longrightarrow> gc_trace_ephemeron vk visit e w = Inr u \<Longrightarrow> eph_cycle marked vk visit u"
| mark: "eph_cycle marked vk visit w \<Longrightarrow> visit r (ew_heap w) = (r', h) \<Longrightarrow> eph_cycle marked vk visit (w\<lparr>ew_heap := h\<rparr>)"
| resolve: "eph_cycle marked vk visit w \<Longrightarrow> marked (ew_heap w) obj \<Longrightarrow> gc_resolve_pending_ephemerons vk obj w = Inr u
    \<Longrightarrow> eph_cycle marked vk visit u"
| scan: "eph_cycle marked vk visit w \<Longrightarrow> gc_scan_pending_ephemerons vk s k w = Inr u \<Longrightarrow> eph_cycle marked vk visit u"
| drain: "eph_cycle marked vk visit w \<Longrightarrow> drain_resolved visit w = Inr u \<Longrightarrow> eph_cycle marked vk visit u"

lemma cycle_start_inv:
  assumes "cycle_start w"
  shows "eph_inv marked w (replicate (length (pe_buckets (ew_pending w))) []) []"
  using assms by (simp add: cycle_start_def eph_inv_def)

lemma eph_cycle_inv:
  assumes m: "marking marked vk visit"
  shows "eph_cycle marked vk visit w \<Longrightarrow> \<exists>bl rl. eph_inv marked w bl rl"
proof (induction rule: eph_cycle.induct)
  case (start w)
  then show ?case using cycle_start_inv by blast
next
  case (trace w e u)
  then show ?case using trace_inv[OF m] by blast
next
  case (mark w r r' h)
  then obtain bl rl where inv: "eph_inv marked w bl rl" by blast
  have "marked h x" if "marked (ew_heap w) x" for x
    using marking_visit[OF m, of r "ew_heap w"] mark(2) that by auto
  from eph_inv_heap[OF inv this] show ?case by blast
next
  case (resolve w obj u)
  then obtain bl rl where inv: "eph_inv marked w bl rl" by blast
  have "bucket_index w obj < length (pe_buckets (ew_pending w))"
    using resolve(3) by (auto simp: gc_resolve_pending_ephemerons_def pending_ephemeron_bucket_eq split: if_splits)
  from resolve_pending_inv[OF m inv resolve(2) this] show ?case using resolve(3) by auto
next
  case (scan w s k u)
  then obtain bl rl where inv: "eph_inv marked w bl rl" by blast
  have "s < k" using scan(2) by (auto simp: gc_scan_pending_ephemerons_def gc_assert_def split: if_splits)
  moreover have "scan_shards vk k [s] w = Inr u" using scan(2) by (simp add: scan_shards_def)
  ultimately show ?case using scan_shards_inv[OF m inv, of "[s]" k] by auto
next
  case (drain w u)
  then obtain bl rl where inv: "eph_inv marked w bl rl" by blast
  from drain_inv[OF m inv] show ?case using drain(2) by auto
qed

lemma no_resolved:
  assumes "eph_inv marked w bl rl"
  shows "pe_resolved (ew_pending w) = 0 \<longleftrightarrow> rl = []" "rl = [] \<longleftrightarrow> (\<forall>e. eph_state (ew_mem w e) \<noteq> Ephemeron_Resolved)"
proof -
  show "pe_resolved (ew_pending w) = 0 \<longleftrightarrow> rl = []" using eph_inv_facts(5)[OF assms] by (cases rl) auto
  show "rl = [] \<longleftrightarrow> (\<forall>e. eph_state (ew_mem w e) \<noteq> Ephemeron_Resolved)"
    using eph_inv_facts(7)[OF assms] by (cases rl) auto
qed

text \<open>Pushing an ephemeron on a user's chain puts it in front; traversing the chain from its head
  then visits exactly the ephemerons that are not dead, in order, and takes the dead ones out of the
  chain without changing anything else of any ephemeron.\<close>

theorem ephemeron_chain_correct:
  assumes "chain (\<lambda>e. eph_chain (mem e)) loc xs" "e \<notin> set xs" "e \<noteq> 0"
  shows "\<exists>mem1 mem2 head. gc_ephemeron_chain_push mem loc e = (mem1, e)
    \<and> gc_ephemeron_chain_head mem1 e = Inr head
    \<and> chain_traversal mem1 e = Inr (0, mem2, filter (\<lambda>x. eph_key (mem x) \<noteq> 0) (e # xs))
    \<and> chain (\<lambda>e. eph_chain (mem2 e)) head (filter (\<lambda>x. eph_key (mem x) \<noteq> 0) (e # xs))
    \<and> (\<forall>x. put_chain 0 (mem2 x) = put_chain 0 (mem x))"
proof -
  define mem1 where "mem1 = mem(e := put_chain loc (mem e))"
  have push: "gc_ephemeron_chain_push mem loc e = (mem1, e)"
    by (simp add: gc_ephemeron_chain_push_def ephemeron_list_push_def ephemeron_list_try_push_def Let_def mem1_def)
  have dead: "ephemeron_is_dead (mem1 x) \<longleftrightarrow> eph_key (mem x) = 0" for x
    by (simp add: mem1_def put_chain_def ephemeron_is_dead_def)
  have "chain (\<lambda>x. eph_chain (mem1 x)) loc xs"
    unfolding mem1_def by (rule iffD2[OF chain_mem_update[OF assms(2)]], rule assms(1))
  then have ch: "chain (\<lambda>x. eph_chain (mem1 x)) e (e # xs)" using assms(3) by (simp add: mem1_def put_chain_def)
  define zs where "zs = dropWhile (\<lambda>x. \<not> eph_key (mem x) \<noteq> 0) (e # xs)"
  obtain q where q: "gc_ephemeron_chain_head mem1 e = Inr q" "chain (\<lambda>x. eph_chain (mem1 x)) q zs"
    using ephemeron_list_follow_chain[OF ch, of ephemeron_is_not_dead]
    by (auto simp: gc_ephemeron_chain_head_def follow_chain_def zs_def ephemeron_is_not_dead_def dead simp del: dropWhile.simps)
  have zs: "zs = [] \<or> \<not> ephemeron_is_dead (mem1 (hd zs))"
    "filter (\<lambda>x. \<not> ephemeron_is_dead (mem1 x)) zs = filter (\<lambda>x. eph_key (mem x) \<noteq> 0) (e # xs)"
    using dropWhile_facts(1,2)[of zs "\<lambda>x. eph_key (mem x) \<noteq> 0" "e # xs"] by (simp_all only: zs_def dead)
  obtain mem2 where "chain_traversal mem1 e = Inr (0, mem2, filter (\<lambda>x. eph_key (mem x) \<noteq> 0) (e # xs))"
    "chain (\<lambda>x. eph_chain (mem2 x)) q (filter (\<lambda>x. eph_key (mem x) \<noteq> 0) (e # xs))"
    "\<forall>x. put_chain 0 (mem2 x) = put_chain 0 (mem1 x)"
    using chain_walk[OF q(2) zs(1), of "[]"] zs(2) q(1) by (auto simp: chain_traversal_def simp del: filter.simps)
  then show ?thesis using push q(1) by (auto simp: mem1_def put_chain_def simp del: filter.simps)
qed

definition chained_ephemeron :: "u64 \<Rightarrow> gc_ref \<Rightarrow> gc_ephemeron" where
  "chained_ephemeron nxt key = \<lparr> eph_state = Ephemeron_Traced, eph_epoch = 0, eph_chain = nxt,
    eph_pending = 0, eph_resolved = 0, eph_key = key, eph_value = 9 \<rparr>"

definition three_ephemerons :: eph_mem where
  "three_ephemerons = (\<lambda>_. chained_ephemeron 0 0)(16 := chained_ephemeron 32 0, 32 := chained_ephemeron 0 7, 48 := chained_ephemeron 0 5)"

theorem ephemeron_chain_correct_witness:
  "\<exists>mem1 mem2. gc_ephemeron_chain_push three_ephemerons 16 48 = (mem1, 48)
    \<and> chain_traversal mem1 48 = Inr (0, mem2, [48, 32])"
  using ephemeron_chain_correct[of three_ephemerons 16 "[16, 32]" 48]
  by (auto simp: three_ephemerons_def chained_ephemeron_def)

text \<open>C39: The bucket of a reference is in the table exactly when the reference's hash is below
  2^64 - 2^10: a larger hash rounds up to 2^64 when C converts it to a double, and selects the slot
  after the last one. Every table has references that fail so.\<close>

theorem pending_ephemeron_bucket_bounds:
  assumes "pe_buckets st \<noteq> []" "length (pe_buckets st) < 2 ^ 53"
  shows "((\<exists>b < length (pe_buckets st). pending_ephemeron_bucket st ref = Inr b)
      \<longleftrightarrow> unat (hash_address ref) < 2 ^ 64 - 2 ^ 10)
    \<and> pending_ephemeron_bucket st (unhash_address (- 1)) = Inl Crash"
proof -
  let ?n = "length (pe_buckets st)"
  have n: "0 < ?n" using assms(1) by simp
  let ?idx = "\<lambda>h :: u64. double_of_nat (double_of_nat (unat h) * ?n) div 2 ^ 64"
  have bucket: "pending_ephemeron_bucket st r = (if ?idx (hash_address r) < ?n then Inr (?idx (hash_address r)) else Inl Crash)" for r
    using double_of_nat_small[OF assms(2)] by (simp add: pending_ephemeron_bucket_def gc_assert_def Let_def)
  have iff: "?idx h < ?n \<longleftrightarrow> unat h < 2 ^ 64 - 2 ^ 10" for h :: u64
    by (rule double_scale(1)) (use unsigned_less[of h] n assms(2) in simp_all)
  have "unat (- 1 :: u64) = 2 ^ 64 - 1" by (simp add: unsigned_minus_1_eq_mask mask_eq_exp_minus_1)
  then have top: "\<not> ?idx (- 1) < ?n" unfolding iff by simp
  have "(\<exists>b < ?n. (if x < ?n then Inr x else Inl Crash) = (Inr b :: nat result)) \<longleftrightarrow> x < ?n" for x
    by auto
  then have "(\<exists>b < ?n. pending_ephemeron_bucket st ref = Inr b) \<longleftrightarrow> ?idx (hash_address ref) < ?n"
    unfolding bucket .
  moreover have "pending_ephemeron_bucket st (unhash_address (- 1)) = Inl Crash"
    unfolding bucket hash_unhash_address by (rule if_not_P[OF top])
  ultimately show ?thesis by (simp only: iff)
qed

theorem pending_ephemeron_bucket_bounds_witness:
  "pending_ephemeron_bucket (gc_make_pending_ephemerons 0) (unhash_address (- 1)) = Inl Crash"
  using pending_ephemeron_bucket_bounds[of "gc_make_pending_ephemerons 0"]
  by (simp add: gc_make_pending_ephemerons_def MIN_PENDING_EPHEMERONS_SIZE_def)

text \<open>C10: For a collector that marks objects in place, so that visiting neither an object nor a key changes its
  address, and in whatever order it traces and marks, once a scan of all shards of the pending table leaves
  nothing to resolve, sweeping all shards ends the cycle: of the ephemerons that were traced, those with a
  live key keep their value, which has been visited, all others read as dead, and those that were not traced
  keep their key. Afterwards no ephemeron is pending, resolved or claimed, and the table and the list of
  resolved ephemerons are empty; if no ephemeron has the next epoch already, the next cycle can begin.\<close>

theorem ephemeron_cycle_correct:
  assumes "marking marked vk visit" and "eph_cycle marked vk visit w"
    and "0 < k" "set ss = {..<k}" "scan_shards vk k ss w = Inr v" "pe_resolved (ew_pending v) = 0"
    and "0 < j" "set ts = {..<j}"
  shows "\<exists>u. sweep_shards j ts v = Inr u
    \<and> (\<forall>e. eph_epoch (ew_mem w e) = ew_epoch w \<longrightarrow>
        (if eph_key (ew_mem w e) \<noteq> 0 \<and> marked (ew_heap w) (eph_key (ew_mem w e))
         then gc_ephemeron_value (ew_mem u) e = eph_value (ew_mem w e) \<and> marked (ew_heap u) (eph_value (ew_mem w e))
         else gc_ephemeron_value (ew_mem u) e = 0))
    \<and> (\<forall>e. eph_epoch (ew_mem w e) \<noteq> ew_epoch w \<longrightarrow> gc_ephemeron_key (ew_mem u) e = gc_ephemeron_key (ew_mem w) e)
    \<and> (\<forall>e. eph_state (ew_mem u e) = Ephemeron_Traced)
    \<and> (\<forall>b < length (pe_buckets (ew_pending u)). pe_buckets (ew_pending u) ! b = 0) \<and> pe_resolved (ew_pending u) = 0
    \<and> ((\<forall>e. eph_epoch (ew_mem u e) \<noteq> ew_epoch u + 1) \<longrightarrow> cycle_start (u\<lparr>ew_epoch := ew_epoch u + 1\<rparr>))"
proof -
  obtain bl rl where inv: "eph_inv marked w bl rl" using eph_cycle_inv[OF assms(1,2)] by blast
  let ?S = "{e. eph_state (ew_mem w e) = Ephemeron_Pending \<and> marked (ew_heap w) (eph_key (ew_mem w e))}"
  obtain bl1 rl1 where v: "eph_inv marked v bl1 rl1" "resolves ?S w v"
    using scan_all[OF assms(1) inv assms(3,4)] assms(5) by auto
  have rl1: "rl1 = []" using no_resolved(1)[OF v(1)] assms(6) by simp
  then have none: "eph_state (ew_mem v e) \<noteq> Ephemeron_Resolved" for e using no_resolved(2)[OF v(1)] by blast
  moreover have "eph_state (ew_mem v e) = Ephemeron_Resolved" if "e \<in> ?S" for e
    using v(2) that by (simp add: resolves_def)
  ultimately have S: "?S = {}" by blast
  then have same: "eph_state (ew_mem v e) = eph_state (ew_mem w e)" "eph_key (ew_mem v e) = eph_key (ew_mem w e)"
    "eph_value (ew_mem v e) = eph_value (ew_mem w e)" "eph_epoch (ew_mem v e) = eph_epoch (ew_mem w e)"
    "ew_heap v = ew_heap w" "ew_epoch v = ew_epoch w" for e
    using v(2) unfolding S by (simp_all add: resolves_def same_assoc_def)
  obtain u bl2 where u: "sweep_shards j ts v = Inr u" "eph_inv marked u bl2 []"
    "\<forall>b < length (pe_buckets (ew_pending u)). pe_buckets (ew_pending u) ! b = 0"
    "kills {e. eph_state (ew_mem v e) = Ephemeron_Pending} v u"
    using sweep_all[OF v(1) assms(7,8)] unfolding rl1 by blast
  have us: "eph_state (ew_mem u e) = (if eph_state (ew_mem w e) = Ephemeron_Pending then Ephemeron_Traced else eph_state (ew_mem w e))"
    "eph_key (ew_mem u e) = (if eph_state (ew_mem w e) = Ephemeron_Pending then 0 else eph_key (ew_mem w e))"
    "eph_value (ew_mem u e) = eph_value (ew_mem w e)" "ew_heap u = ew_heap w" "pe_resolved (ew_pending u) = 0" for e
    using u(4) assms(6) by (simp_all add: kills_def same_assoc_def same)
  have st: "eph_state (ew_mem w e) = Ephemeron_Traced \<or> eph_state (ew_mem w e) = Ephemeron_Pending" for e
    using none[of e] eph_inv_facts(9)[OF inv, of e] same(1)[of e] by (cases "eph_state (ew_mem w e)") auto
  have "if eph_key (ew_mem w e) \<noteq> 0 \<and> marked (ew_heap w) (eph_key (ew_mem w e))
         then gc_ephemeron_value (ew_mem u) e = eph_value (ew_mem w e) \<and> marked (ew_heap u) (eph_value (ew_mem w e))
         else gc_ephemeron_value (ew_mem u) e = 0" if "eph_epoch (ew_mem w e) = ew_epoch w" for e
  proof (cases "eph_state (ew_mem w e) = Ephemeron_Pending")
    case True
    then have "\<not> marked (ew_heap w) (eph_key (ew_mem w e))" using S by blast
    then show ?thesis using True by (simp add: gc_ephemeron_value_def ephemeron_is_dead_def us gc_ref_null_def)
  next
    case False
    then have "eph_state (ew_mem w e) = Ephemeron_Traced" using st by blast
    then show ?thesis using eph_inv_facts(10)[OF inv that] False
      by (auto simp: gc_ephemeron_value_def ephemeron_is_dead_def us gc_ref_null_def)
  qed
  moreover have "gc_ephemeron_key (ew_mem u) e = gc_ephemeron_key (ew_mem w) e" if "eph_epoch (ew_mem w e) \<noteq> ew_epoch w" for e
    using eph_inv_facts(3,6)[OF inv] that by (auto simp: gc_ephemeron_key_def us)
  moreover have traced: "eph_state (ew_mem u e) = Ephemeron_Traced" for e using us(1)[of e] st[of e] by auto
  moreover have "cycle_start (u\<lparr>ew_epoch := ew_epoch u + 1\<rparr>)" if "\<forall>e. eph_epoch (ew_mem u e) \<noteq> ew_epoch u + 1"
    using traced that u(3) us(5) by (simp add: cycle_start_def)
  ultimately show ?thesis using u(1,3) us(5) by blast
qed

text \<open>A heap that is the list of its visited objects, and an ephemeron at address 16 whose key, 5, is one.\<close>

definition list_key :: "u64 list eph_visit_key" where
  "list_key r h = (r \<in> set h, r, h)"

definition list_visit :: "u64 list eph_visit" where
  "list_visit r h = (r, r # h)"

definition one_ephemeron :: "u64 list eph_world" where
  "one_ephemeron = \<lparr> ew_mem = (\<lambda>_. chained_ephemeron 0 0)(16 := chained_ephemeron 0 5),
    ew_pending = gc_make_pending_ephemerons 0, ew_epoch = 1, ew_heap = [5] \<rparr>"

definition traced_ephemeron :: "u64 list eph_world" where
  "traced_ephemeron = (case gc_trace_ephemeron list_key list_visit 16 one_ephemeron of Inr w \<Rightarrow> w | Inl _ \<Rightarrow> one_ephemeron)"

lemma traced_ephemeron_eq: "gc_trace_ephemeron list_key list_visit 16 one_ephemeron = Inr traced_ephemeron"
  "ew_mem traced_ephemeron 16 = \<lparr> eph_state = Ephemeron_Traced, eph_epoch = 1, eph_chain = 0,
    eph_pending = 0, eph_resolved = 0, eph_key = 5, eph_value = 9 \<rparr>"
  "e \<noteq> 16 \<Longrightarrow> ew_mem traced_ephemeron e = chained_ephemeron 0 0"
  "ew_epoch traced_ephemeron = 1" "ew_heap traced_ephemeron = [9, 0, 5]" "ew_pending traced_ephemeron = ew_pending one_ephemeron"
  by (simp_all add: traced_ephemeron_def one_ephemeron_def gc_trace_ephemeron_def set_eph_state_def Let_def
      gc_ephemeron_chain_next_def follow_chain_def ephemeron_list_follow_def put_chain_def visit_eph_chain_def list_visit_def
      ephemeron_is_dead_def visit_eph_key_def list_key_def visit_eph_value_def chained_ephemeron_def)

theorem ephemeron_cycle_correct_witness:
  "\<exists>v u. scan_shards list_key 1 [0] traced_ephemeron = Inr v \<and> sweep_shards 1 [0] v = Inr u
    \<and> gc_ephemeron_value (ew_mem u) 16 = 9 \<and> 9 \<in> set (ew_heap u)"
proof -
  have m: "marking (\<lambda>h r. r \<in> set h) list_key list_visit" by (auto simp: marking_def list_key_def list_visit_def)
  have one: "set [0] = {..<1::nat}" by auto
  have "cycle_start one_ephemeron"
    by (auto simp: cycle_start_def one_ephemeron_def gc_make_pending_ephemerons_def chained_ephemeron_def Let_def)
  then have cyc: "eph_cycle (\<lambda>h r. r \<in> set h) list_key list_visit traced_ephemeron"
    by (rule eph_cycle.trace[OF eph_cycle.start _ traced_ephemeron_eq(1)]) simp
  then obtain bl rl where inv: "eph_inv (\<lambda>h r. r \<in> set h) traced_ephemeron bl rl" using eph_cycle_inv[OF m] by blast
  obtain v bl1 rl1 where v: "scan_shards list_key 1 [0] traced_ephemeron = Inr v" "eph_inv (\<lambda>h r. r \<in> set h) v bl1 rl1"
    "resolves {e. eph_state (ew_mem traced_ephemeron e) = Ephemeron_Pending
      \<and> eph_key (ew_mem traced_ephemeron e) \<in> set (ew_heap traced_ephemeron)} traced_ephemeron v"
    using scan_all[OF m inv zero_less_one one] by (elim exE conjE)
  have "eph_state (ew_mem traced_ephemeron e) = Ephemeron_Traced" for e
    using traced_ephemeron_eq(2) traced_ephemeron_eq(3)[of e] by (cases "e = 16") (simp_all add: chained_ephemeron_def)
  then have "pe_resolved (ew_pending v) = 0"
    using v(3) no_resolved[OF v(2)] by (simp add: resolves_def)
  from ephemeron_cycle_correct[OF m cyc _ one v(1) this _ one] obtain u where u: "sweep_shards 1 [0] v = Inr u"
    "\<forall>e. eph_epoch (ew_mem traced_ephemeron e) = ew_epoch traced_ephemeron \<longrightarrow>
        (if eph_key (ew_mem traced_ephemeron e) \<noteq> 0 \<and> eph_key (ew_mem traced_ephemeron e) \<in> set (ew_heap traced_ephemeron)
         then gc_ephemeron_value (ew_mem u) e = eph_value (ew_mem traced_ephemeron e) \<and> eph_value (ew_mem traced_ephemeron e) \<in> set (ew_heap u)
         else gc_ephemeron_value (ew_mem u) e = 0)"
    by auto
  then show ?thesis using v(1) u(2)[rule_format, of 16] by (simp add: traced_ephemeron_eq)
qed

end
