(* ===== verification/CopySpace.thy ===== *)
theory CopySpace
  imports Chains Forwarding Extents Histogram BackgroundThread
begin

section \<open>The copy space\<close>

text \<open>
  \<open>src/src/copy-space.h\<close>: a block-structured space that traces by evacuation. A block is the address
  of its header; the headers are the store \<open>cs_blocks\<close>. The contents of memory, which another space
  may share, is an argument and a result of the operations that touch it. The lock makes an
  operation one step, and an atomic list operation is the step of its successful swap. The memory
  of slabs and the embedder's forwarding words are arguments.
\<close>

definition COPY_SPACE_SLAB_SIZE :: u64 where "COPY_SPACE_SLAB_SIZE = 64 * 1024 * 1024"
definition COPY_SPACE_REGION_SIZE :: u64 where "COPY_SPACE_REGION_SIZE = 64 * 1024"
definition COPY_SPACE_BLOCK_SIZE :: u64 where "COPY_SPACE_BLOCK_SIZE = 2 * COPY_SPACE_REGION_SIZE"
definition COPY_SPACE_BLOCKS_PER_SLAB :: u64 where
  "COPY_SPACE_BLOCKS_PER_SLAB = COPY_SPACE_SLAB_SIZE div COPY_SPACE_BLOCK_SIZE"
definition COPY_SPACE_HEADER_BYTES_PER_BLOCK :: u64 where
  "COPY_SPACE_HEADER_BYTES_PER_BLOCK = COPY_SPACE_BLOCK_SIZE div COPY_SPACE_BLOCKS_PER_SLAB"
definition COPY_SPACE_HEADER_BLOCKS_PER_SLAB :: u64 where "COPY_SPACE_HEADER_BLOCKS_PER_SLAB = 1"
definition COPY_SPACE_NONHEADER_BLOCKS_PER_SLAB :: u64 where
  "COPY_SPACE_NONHEADER_BLOCKS_PER_SLAB = COPY_SPACE_BLOCKS_PER_SLAB - COPY_SPACE_HEADER_BLOCKS_PER_SLAB"
definition COPY_SPACE_HEADER_BYTES_PER_SLAB :: u64 where
  "COPY_SPACE_HEADER_BYTES_PER_SLAB = COPY_SPACE_HEADER_BYTES_PER_BLOCK * COPY_SPACE_HEADER_BLOCKS_PER_SLAB"
definition COPY_SPACE_PAGE_OUT_QUEUE_SIZE :: nat where "COPY_SPACE_PAGE_OUT_QUEUE_SIZE = 4"

definition COPY_SPACE_ATOMIC_FORWARDING :: u32 where "COPY_SPACE_ATOMIC_FORWARDING = 1"
definition COPY_SPACE_ALIGNED :: u32 where "COPY_SPACE_ALIGNED = 2"
definition COPY_SPACE_HAS_FIELD_LOGGING_BITS :: u32 where "COPY_SPACE_HAS_FIELD_LOGGING_BITS = 4"

lemmas copy_space_sizes = COPY_SPACE_SLAB_SIZE_def COPY_SPACE_REGION_SIZE_def COPY_SPACE_BLOCK_SIZE_def
  COPY_SPACE_BLOCKS_PER_SLAB_def COPY_SPACE_HEADER_BYTES_PER_BLOCK_def COPY_SPACE_HEADER_BLOCKS_PER_SLAB_def
  COPY_SPACE_NONHEADER_BLOCKS_PER_SLAB_def COPY_SPACE_HEADER_BYTES_PER_SLAB_def

subsection \<open>Layout\<close>

text \<open>A slab holds its header, the block headers, and the blocks.\<close>

definition slab_headers :: "u64 \<Rightarrow> u64" where
  "slab_headers slab = slab + COPY_SPACE_HEADER_BYTES_PER_SLAB"

definition slab_blocks :: "u64 \<Rightarrow> u64" where
  "slab_blocks slab = slab_headers slab + COPY_SPACE_HEADER_BYTES_PER_BLOCK * COPY_SPACE_NONHEADER_BLOCKS_PER_SLAB"

definition slab_header :: "u64 \<Rightarrow> u64 \<Rightarrow> u64" where
  "slab_header slab idx = slab_headers slab + COPY_SPACE_HEADER_BYTES_PER_BLOCK * idx"

definition copy_space_block_for_addr :: "u64 \<Rightarrow> u64" where
  "copy_space_block_for_addr addr =
    (let slab = align_down addr COPY_SPACE_SLAB_SIZE;
         block_idx = addr div COPY_SPACE_BLOCK_SIZE mod COPY_SPACE_BLOCKS_PER_SLAB
     in slab_header slab (block_idx - COPY_SPACE_HEADER_BLOCKS_PER_SLAB))"

definition copy_space_block_header :: "u64 \<Rightarrow> u64" where
  "copy_space_block_header payload = copy_space_block_for_addr payload"

definition copy_space_block_payload :: "u64 \<Rightarrow> u64" where
  "copy_space_block_payload block =
    (let slab = align_down block COPY_SPACE_SLAB_SIZE;
         block_idx = block div COPY_SPACE_HEADER_BYTES_PER_BLOCK mod COPY_SPACE_BLOCKS_PER_SLAB
     in slab_blocks slab + COPY_SPACE_BLOCK_SIZE * (block_idx - COPY_SPACE_HEADER_BLOCKS_PER_SLAB))"

definition copy_space_object_region :: "gc_ref \<Rightarrow> u8" where
  "copy_space_object_region obj = ucast ((obj div COPY_SPACE_REGION_SIZE) AND 1)"

definition payload_region :: "u64 \<Rightarrow> u8 \<Rightarrow> u64" where
  "payload_region payload r = payload + COPY_SPACE_REGION_SIZE * ucast r"

subsection \<open>State\<close>

record copy_space_block =
  blk_next :: u64
  blk_in_core :: bool
  blk_all_zeroes :: "u8 \<Rightarrow> bool"
  blk_is_survivor :: "u8 \<Rightarrow> bool"
  blk_allocated :: u64

type_synonym blocks = "u64 \<Rightarrow> copy_space_block"

text \<open>A \<open>ssize_t\<close> count of bytes is an integer: it stays far below the limits of its type.\<close>

record copy_space =
  cs_blocks :: blocks
  cs_empty :: u64
  cs_partly_full :: u64
  cs_full :: u64
  cs_allocated_bytes :: u64
  cs_fragmentation :: u64
  cs_paged_out :: "u64 list"
  cs_bytes_to_page_out :: int
  cs_active_region :: u8
  cs_atomic_forward :: bool
  cs_in_gc :: bool
  cs_flags :: u32
  cs_allocated_bytes_at_last_gc :: u64
  cs_fragmentation_at_last_gc :: u64
  cs_extents :: extents
  cs_slabs :: "u64 list"

datatype copy_space_forward_result = Forward_Updated | Forward_Evacuated | Forward_Failed

record copy_space_allocator =
  ca_hp :: u64
  ca_limit :: u64
  ca_block :: u64

subsection \<open>Block lists\<close>

text \<open>Lists and stacks differ in how they synchronise, not in what they do to the head they are given.\<close>

definition copy_space_block_list_push :: "blocks \<Rightarrow> u64 \<Rightarrow> u64 \<Rightarrow> blocks \<times> u64" where
  "copy_space_block_list_push bs head block = (bs(block := (bs block)\<lparr>blk_next := head\<rparr>), block)"

definition copy_space_block_list_pop :: "blocks \<Rightarrow> u64 \<Rightarrow> u64 \<times> blocks \<times> u64" where
  "copy_space_block_list_pop bs head =
    (if head = 0 then (0, bs, head)
     else (head, bs(head := (bs head)\<lparr>blk_next := 0\<rparr>), blk_next (bs head)))"

definition copy_space_block_stack_push :: "blocks \<Rightarrow> u64 \<Rightarrow> u64 \<Rightarrow> blocks \<times> u64" where
  "copy_space_block_stack_push bs head block =
    (let nxt = head in (bs(block := (bs block)\<lparr>blk_next := nxt\<rparr>), block))"

definition copy_space_block_stack_pop :: "blocks \<Rightarrow> u64 \<Rightarrow> u64 \<times> blocks \<times> u64" where
  "copy_space_block_stack_pop bs head =
    (if head \<noteq> 0 then (head, bs(head := (bs head)\<lparr>blk_next := 0\<rparr>), blk_next (bs head)) else (head, bs, head))"

definition copy_space_pop_empty_block :: "copy_space \<Rightarrow> u64 \<times> copy_space" where
  "copy_space_pop_empty_block cs =
    (let (ret, bs, head) = copy_space_block_stack_pop (cs_blocks cs) (cs_empty cs);
         bs = (if ret \<noteq> 0 then
                 bs(ret := (bs ret)\<lparr>blk_allocated := 0,
                   blk_is_survivor := (blk_is_survivor (bs ret))(cs_active_region cs := False)\<rparr>)
               else bs)
     in (ret, cs\<lparr>cs_blocks := bs, cs_empty := head\<rparr>))"

definition copy_space_push_empty_block :: "copy_space \<Rightarrow> u64 \<Rightarrow> copy_space" where
  "copy_space_push_empty_block cs block =
    (let (bs, head) = copy_space_block_stack_push (cs_blocks cs) (cs_empty cs) block
     in cs\<lparr>cs_blocks := bs, cs_empty := head\<rparr>)"

definition copy_space_pop_full_block :: "copy_space \<Rightarrow> u64 \<times> copy_space" where
  "copy_space_pop_full_block cs =
    (let (ret, bs, head) = copy_space_block_list_pop (cs_blocks cs) (cs_full cs)
     in (ret, cs\<lparr>cs_blocks := bs, cs_full := head\<rparr>))"

definition copy_space_push_full_block :: "copy_space \<Rightarrow> u64 \<Rightarrow> copy_space" where
  "copy_space_push_full_block cs block =
    (let bs = cs_blocks cs;
         bs = (if cs_in_gc cs then
                 bs(block := (bs block)\<lparr>blk_is_survivor := (blk_is_survivor (bs block))(cs_active_region cs := True)\<rparr>)
               else bs);
         (bs, head) = copy_space_block_list_push bs (cs_full cs) block
     in cs\<lparr>cs_blocks := bs, cs_full := head\<rparr>)"

definition copy_space_pop_partly_full_block :: "copy_space \<Rightarrow> u64 \<times> copy_space" where
  "copy_space_pop_partly_full_block cs =
    (let (ret, bs, head) = copy_space_block_stack_pop (cs_blocks cs) (cs_partly_full cs)
     in (ret, cs\<lparr>cs_blocks := bs, cs_partly_full := head\<rparr>))"

definition copy_space_push_partly_full_block :: "copy_space \<Rightarrow> u64 \<Rightarrow> copy_space" where
  "copy_space_push_partly_full_block cs block =
    (let (bs, head) = copy_space_block_stack_push (cs_blocks cs) (cs_partly_full cs) block
     in cs\<lparr>cs_blocks := bs, cs_partly_full := head\<rparr>)"

subsection \<open>Paging out and in\<close>

text \<open>Pushing on and popping from one of the queues of paged-out blocks, by age.\<close>

definition push_paged_out :: "copy_space \<Rightarrow> nat \<Rightarrow> u64 \<Rightarrow> copy_space" where
  "push_paged_out cs age block =
    (let (bs, head) = copy_space_block_stack_push (cs_blocks cs) (cs_paged_out cs ! age) block
     in cs\<lparr>cs_blocks := bs, cs_paged_out := (cs_paged_out cs)[age := head]\<rparr>)"

definition pop_paged_out :: "copy_space \<Rightarrow> nat \<Rightarrow> u64 \<times> copy_space" where
  "pop_paged_out cs age =
    (let (ret, bs, head) = copy_space_block_stack_pop (cs_blocks cs) (cs_paged_out cs ! age)
     in (ret, cs\<lparr>cs_blocks := bs, cs_paged_out := (cs_paged_out cs)[age := head]\<rparr>))"

definition copy_space_page_out_block :: "copy_space \<Rightarrow> u64 \<Rightarrow> copy_space" where
  "copy_space_page_out_block cs block =
    push_paged_out cs (if blk_in_core (cs_blocks cs block) then 0 else COPY_SPACE_PAGE_OUT_QUEUE_SIZE - 1) block"

primrec page_in_from :: "nat list \<Rightarrow> copy_space \<Rightarrow> u64 \<times> copy_space" where
  "page_in_from [] cs = (0, cs)"
| "page_in_from (age # ages) cs =
    (let (block, cs) = pop_paged_out cs age in if block \<noteq> 0 then (block, cs) else page_in_from ages cs)"

definition copy_space_page_in_block :: "copy_space \<Rightarrow> u64 \<times> copy_space" where
  "copy_space_page_in_block cs = page_in_from [0..<COPY_SPACE_PAGE_OUT_QUEUE_SIZE] cs"

definition copy_space_request_release_memory :: "copy_space \<Rightarrow> u64 \<Rightarrow> int \<times> copy_space" where
  "copy_space_request_release_memory cs bytes =
    (let n = cs_bytes_to_page_out cs + uint bytes in (n, cs\<lparr>cs_bytes_to_page_out := n\<rparr>))"

text \<open>The loops that page blocks out and in; the flag is the loop's \<open>break\<close>.\<close>

definition copy_space_page_out_blocks_until_memory_released :: "copy_space \<Rightarrow> (int \<times> copy_space) result" where
  "copy_space_page_out_blocks_until_memory_released cs =
    result_bind
      (while_loop (\<lambda>(pending, go, cs). go \<and> 0 < pending)
        (\<lambda>(pending, go, cs).
          let (block, cs) = copy_space_pop_empty_block cs in
          if block = 0 then (pending, False, cs)
          else
            let cs = copy_space_page_out_block cs block;
                n = cs_bytes_to_page_out cs - uint COPY_SPACE_BLOCK_SIZE
            in (n, True, cs\<lparr>cs_bytes_to_page_out := n\<rparr>))
        (cs_bytes_to_page_out cs, True, cs))
      (\<lambda>(pending, go, cs). Inr (pending, cs))"

definition copy_space_maybe_reacquire_memory :: "copy_space \<Rightarrow> u64 \<Rightarrow> (int \<times> copy_space) result" where
  "copy_space_maybe_reacquire_memory cs bytes =
    (let pending = cs_bytes_to_page_out cs - uint bytes;
         cs = cs\<lparr>cs_bytes_to_page_out := pending\<rparr>
     in result_bind
      (while_loop (\<lambda>(pending, go, cs). go \<and> pending + uint COPY_SPACE_BLOCK_SIZE \<le> 0)
        (\<lambda>(pending, go, cs).
          let (block, cs) = copy_space_page_in_block cs in
          if block = 0 then (pending, False, cs)
          else
            let cs = copy_space_push_empty_block cs block;
                n = cs_bytes_to_page_out cs + uint COPY_SPACE_BLOCK_SIZE
            in (n, True, cs\<lparr>cs_bytes_to_page_out := n\<rparr>))
        (pending, True, cs))
      (\<lambda>(pending, go, cs). Inr (pending, cs)))"

definition copy_space_reacquire_memory :: "copy_space \<Rightarrow> u64 \<Rightarrow> copy_space result" where
  "copy_space_reacquire_memory cs bytes =
    result_bind (copy_space_maybe_reacquire_memory cs bytes) (\<lambda>(pending, cs).
    result_bind (gc_assert (pending + uint COPY_SPACE_BLOCK_SIZE > 0)) (\<lambda>_. Inr cs))"

text \<open>The two background tasks; \<open>discard\<close> is \<open>gc_platform_discard_memory\<close>.\<close>

definition advance_age :: "nat \<Rightarrow> copy_space \<Rightarrow> copy_space result" where
  "advance_age age cs =
    result_bind
      (while_loop fst
        (\<lambda>(_, cs). let (block, cs) = pop_paged_out cs age in
          if block = 0 then (False, cs) else (True, push_paged_out cs (age + 1) block)) (True, cs))
      (\<lambda>(_, cs). Inr cs)"

definition copy_space_advance_page_out_queue :: "copy_space \<Rightarrow> copy_space result" where
  "copy_space_advance_page_out_queue cs =
    result_fold advance_age (rev [0..<COPY_SPACE_PAGE_OUT_QUEUE_SIZE - 2]) cs"

subsection \<open>Addresses and logged fields\<close>

definition copy_space_contains_address :: "copy_space \<Rightarrow> u64 \<Rightarrow> bool result" where
  "copy_space_contains_address cs addr =
    result_bind (extents_contain_addr (cs_extents cs) addr) (\<lambda>r. Inr (r \<noteq> 0))"

definition copy_space_contains :: "copy_space \<Rightarrow> gc_ref \<Rightarrow> bool result" where
  "copy_space_contains cs ref = copy_space_contains_address cs ref"

definition copy_space_contains_edge :: "copy_space \<Rightarrow> u64 \<Rightarrow> bool result" where
  "copy_space_contains_edge cs edge = copy_space_contains_address cs edge"

definition assert_result :: "bool result \<Rightarrow> unit result" where
  "assert_result r = result_bind r gc_assert"

definition copy_space_has_field_logging_bits :: "copy_space \<Rightarrow> bool" where
  "copy_space_has_field_logging_bits cs = (cs_flags cs AND COPY_SPACE_HAS_FIELD_LOGGING_BITS \<noteq> 0)"

definition copy_space_field_logging_blocks :: "copy_space \<Rightarrow> u64" where
  "copy_space_field_logging_blocks cs =
    (if \<not> copy_space_has_field_logging_bits cs then 0
     else
       (let bytes = COPY_SPACE_SLAB_SIZE div 8 div 8
        in align_up bytes COPY_SPACE_BLOCK_SIZE div COPY_SPACE_BLOCK_SIZE))"

definition copy_space_field_logged_byte :: "u64 \<Rightarrow> u64" where
  "copy_space_field_logged_byte edge =
    (let base = slab_blocks (align_down edge COPY_SPACE_SLAB_SIZE);
         field = (edge AND (COPY_SPACE_SLAB_SIZE - 1)) div 8;
         byte = field div 8
     in base + byte)"

definition copy_space_field_logged_bit :: "u64 \<Rightarrow> u8" where
  "copy_space_field_logged_bit edge = (let field = edge div 8 in push_bit (unat (field mod 8)) 1)"

definition copy_space_clear_field_logged_bits_for_region :: "copy_space \<Rightarrow> u64 \<Rightarrow> byte_mem \<Rightarrow> byte_mem result" where
  "copy_space_clear_field_logged_bits_for_region cs addr mem =
    result_bind (gc_assert (addr = align_down addr COPY_SPACE_REGION_SIZE)) (\<lambda>_.
    result_bind (assert_result (copy_space_contains_address cs addr)) (\<lambda>_.
      Inr (if copy_space_has_field_logging_bits cs
           then mem_set mem (copy_space_field_logged_byte addr) 0 (COPY_SPACE_REGION_SIZE div 8 div 8)
           else mem)))"

definition copy_space_clear_field_logged_bits_for_block :: "copy_space \<Rightarrow> u64 \<Rightarrow> byte_mem \<Rightarrow> byte_mem result" where
  "copy_space_clear_field_logged_bits_for_block cs block mem =
    (let payload = copy_space_block_payload block
     in result_bind (copy_space_clear_field_logged_bits_for_region cs (payload_region payload 0) mem)
          (copy_space_clear_field_logged_bits_for_region cs (payload_region payload 1)))"

definition copy_space_remember_edge :: "copy_space \<Rightarrow> u64 \<Rightarrow> byte_mem \<Rightarrow> (bool \<times> byte_mem) result" where
  "copy_space_remember_edge cs edge mem =
    result_bind (assert_result (copy_space_contains_edge cs edge)) (\<lambda>_.
      let loc = copy_space_field_logged_byte edge; bt = copy_space_field_logged_bit edge; byte = mem loc
      in Inr (if byte AND bt \<noteq> 0 then (False, mem) else (True, mem(loc := byte OR bt))))"

definition copy_space_forget_edge :: "copy_space \<Rightarrow> u64 \<Rightarrow> byte_mem \<Rightarrow> (bool \<times> byte_mem) result" where
  "copy_space_forget_edge cs edge mem =
    result_bind (assert_result (copy_space_contains_edge cs edge)) (\<lambda>_.
      let loc = copy_space_field_logged_byte edge; bt = copy_space_field_logged_bit edge; byte = mem loc
      in Inr (if byte AND bt = 0 then (False, mem) else (True, mem(loc := byte AND NOT bt))))"

text \<open>\<open>discard\<close> is \<open>gc_platform_discard_memory\<close>: an address, a size, and the memory.\<close>

definition page_out_one :: "(u64 \<Rightarrow> u64 \<Rightarrow> byte_mem \<Rightarrow> byte_mem) \<Rightarrow> u64 \<Rightarrow> copy_space \<times> byte_mem \<Rightarrow> (copy_space \<times> byte_mem) result" where
  "page_out_one discard block = (\<lambda>(cs, mem).
    let age = COPY_SPACE_PAGE_OUT_QUEUE_SIZE - 2;
        bs = cs_blocks cs;
        cs = cs\<lparr>cs_blocks := bs(block := (bs block)\<lparr>blk_in_core := False,
          blk_all_zeroes := (blk_all_zeroes (bs block))(0 := True, 1 := True)\<rparr>)\<rparr>;
        mem = discard (copy_space_block_payload block) COPY_SPACE_BLOCK_SIZE mem
    in result_bind (copy_space_clear_field_logged_bits_for_block cs block mem)
         (\<lambda>mem. Inr (push_paged_out cs (age + 1) block, mem)))"

definition copy_space_page_out_blocks :: "(u64 \<Rightarrow> u64 \<Rightarrow> byte_mem \<Rightarrow> byte_mem) \<Rightarrow> copy_space \<times> byte_mem \<Rightarrow> (copy_space \<times> byte_mem) result" where
  "copy_space_page_out_blocks discard s =
    result_bind
      (while_result fst
        (\<lambda>(_, cs, mem). let (block, cs) = pop_paged_out cs (COPY_SPACE_PAGE_OUT_QUEUE_SIZE - 2) in
          if block = 0 then Inr (False, cs, mem)
          else result_bind (page_out_one discard block (cs, mem)) (\<lambda>s. Inr (True, s)))
        (True, s))
      (\<lambda>(_, s). Inr s)"

subsection \<open>Allocation\<close>

definition copy_space_allocator_set_block :: "copy_space_allocator \<Rightarrow> u64 \<Rightarrow> u8 \<Rightarrow> copy_space_allocator" where
  "copy_space_allocator_set_block a block active =
    (let region = payload_region (copy_space_block_payload block) active
     in a\<lparr>ca_block := block, ca_hp := region, ca_limit := region + COPY_SPACE_REGION_SIZE\<rparr>)"

definition copy_space_allocator_acquire_block :: "copy_space_allocator \<Rightarrow> u64 \<Rightarrow> u8 \<Rightarrow> bool \<times> copy_space_allocator" where
  "copy_space_allocator_acquire_block a block active =
    (if block \<noteq> 0 then (True, copy_space_allocator_set_block a block active) else (False, a))"

definition copy_space_obtain_empty_block_during_gc :: "copy_space \<Rightarrow> (u64 \<times> copy_space) result" where
  "copy_space_obtain_empty_block_during_gc cs =
    (let (empty, cs) = copy_space_pop_empty_block cs
     in result_bind (gc_assert (empty = 0)) (\<lambda>_.
       let (block, cs) = copy_space_page_in_block cs
       in Inr (block, if block \<noteq> 0 then cs\<lparr>cs_bytes_to_page_out := cs_bytes_to_page_out cs + uint COPY_SPACE_BLOCK_SIZE\<rparr>
                      else cs)))"

type_synonym alloc_state = "copy_space_allocator \<times> copy_space \<times> byte_mem"

definition copy_space_allocator_acquire_empty_block :: "alloc_state \<Rightarrow> (bool \<times> alloc_state) result" where
  "copy_space_allocator_acquire_empty_block = (\<lambda>(a, cs, mem).
    let (block, cs) = copy_space_pop_empty_block cs
    in result_bind (if block = 0 \<and> cs_in_gc cs then copy_space_obtain_empty_block_during_gc cs else Inr (block, cs))
      (\<lambda>(block, cs).
        let (ok, a) = copy_space_allocator_acquire_block a block (cs_active_region cs)
        in if ok then
             (let bs = cs_blocks cs; r = cs_active_region cs;
                  bs = bs(block := (bs block)\<lparr>blk_in_core := True\<rparr>)
              in if blk_all_zeroes (bs block) r then
                   Inr (True, a, cs\<lparr>cs_blocks := bs(block := (bs block)\<lparr>
                     blk_all_zeroes := (blk_all_zeroes (bs block))(r := False)\<rparr>)\<rparr>, mem)
                 else
                   (let cs = cs\<lparr>cs_blocks := bs\<rparr>; mem = mem_set mem (ca_hp a) 0 COPY_SPACE_REGION_SIZE
                    in result_bind (copy_space_clear_field_logged_bits_for_region cs (ca_hp a) mem)
                         (\<lambda>mem. Inr (True, a, cs, mem))))
           else Inr (False, a, cs, mem)))"

definition copy_space_allocator_acquire_partly_full_block ::
    "copy_space_allocator \<Rightarrow> copy_space \<Rightarrow> bool \<times> copy_space_allocator \<times> copy_space" where
  "copy_space_allocator_acquire_partly_full_block a cs =
    (let (block, cs) = copy_space_pop_partly_full_block cs;
         (ok, a) = copy_space_allocator_acquire_block a block (cs_active_region cs)
     in if ok then (True, a\<lparr>ca_hp := ca_hp a + blk_allocated (cs_blocks cs block)\<rparr>, cs) else (False, a, cs))"

definition no_allocation :: copy_space_allocator where
  "no_allocation = \<lparr> ca_hp = 0, ca_limit = 0, ca_block = 0 \<rparr>"

definition copy_space_allocator_release_full_block :: "copy_space_allocator \<Rightarrow> copy_space \<Rightarrow> copy_space_allocator \<times> copy_space" where
  "copy_space_allocator_release_full_block a cs =
    (let fragmentation = ca_limit a - ca_hp a;
         allocated = COPY_SPACE_REGION_SIZE - blk_allocated (cs_blocks cs (ca_block a));
         cs = cs\<lparr>cs_allocated_bytes := cs_allocated_bytes cs + allocated\<rparr>;
         cs = (if fragmentation \<noteq> 0 then cs\<lparr>cs_fragmentation := cs_fragmentation cs + fragmentation\<rparr> else cs)
     in (no_allocation, copy_space_push_full_block cs (ca_block a)))"

definition copy_space_allocator_release_partly_full_block :: "copy_space_allocator \<Rightarrow> copy_space \<Rightarrow> copy_space_allocator \<times> copy_space" where
  "copy_space_allocator_release_partly_full_block a cs =
    (let allocated = ca_hp a AND (COPY_SPACE_REGION_SIZE - 1); bs = cs_blocks cs; b = ca_block a
     in if allocated \<noteq> 0 then
          (let cs = cs\<lparr>cs_allocated_bytes := cs_allocated_bytes cs + (allocated - blk_allocated (bs b)),
                 cs_blocks := bs(b := (bs b)\<lparr>blk_allocated := allocated\<rparr>)\<rparr>
           in (no_allocation, copy_space_push_partly_full_block cs b))
        else
          (let cs = cs\<lparr>cs_allocated_bytes := cs_allocated_bytes cs + (COPY_SPACE_REGION_SIZE - blk_allocated (bs b))\<rparr>
           in (no_allocation, copy_space_push_full_block cs b)))"

text \<open>The large-object threshold and the granule are those of \<open>gc_allocator_large_threshold\<close> and
  \<open>gc_allocator_small_granule_size\<close>, arguments of the build.\<close>

definition copy_space_allocate :: "u64 \<Rightarrow> u64 \<Rightarrow> u64 \<Rightarrow> alloc_state \<Rightarrow> (gc_ref \<times> alloc_state) result" where
  "copy_space_allocate threshold granule sz = (\<lambda>(a, cs, mem).
    result_bind (gc_assert (0 < sz)) (\<lambda>_.
    result_bind (gc_assert (sz \<le> threshold)) (\<lambda>_.
    let sz = align_up sz granule;
        fits = (\<lambda>a. ca_hp a + sz \<le> ca_limit a);
        finish = (\<lambda>(a, cs, mem). Inr (ca_hp a, a\<lparr>ca_hp := ca_hp a + sz\<rparr>, cs, mem))
    in if fits a then finish (a, cs, mem)
       else
         (let (a, cs) = (if ca_block a \<noteq> 0 then copy_space_allocator_release_full_block a cs else (a, cs))
          in result_bind
               (while_loop (\<lambda>(ok, a, cs). ok \<and> \<not> fits a)
                 (\<lambda>(_, a, cs). let (a, cs) = copy_space_allocator_release_full_block a cs
                               in copy_space_allocator_acquire_partly_full_block a cs)
                 (copy_space_allocator_acquire_partly_full_block a cs))
               (\<lambda>(ok, a, cs).
                 if ok then finish (a, cs, mem)
                 else
                   result_bind (copy_space_allocator_acquire_empty_block (a, cs, mem))
                     (\<lambda>(ok, s). if \<not> ok then Inr (gc_ref_null, s) else finish s))))))"

subsection \<open>Collections\<close>

definition copy_space_append_block_lists :: "blocks \<Rightarrow> u64 \<Rightarrow> u64 \<Rightarrow> (u64 \<times> blocks) result" where
  "copy_space_append_block_lists bs head tail =
    (if head = 0 then Inr (tail, bs)
     else if tail \<noteq> 0 then
       result_bind (while_loop (\<lambda>walk. blk_next (bs walk) \<noteq> 0) (\<lambda>walk. blk_next (bs walk)) head)
         (\<lambda>walk. Inr (head, bs(walk := (bs walk)\<lparr>blk_next := tail\<rparr>)))
     else Inr (head, bs))"

definition copy_space_flip :: "copy_space \<Rightarrow> copy_space result" where
  "copy_space_flip cs =
    result_bind (copy_space_append_block_lists (cs_blocks cs) (cs_partly_full cs) (cs_full cs)) (\<lambda>(flip, bs).
    result_bind (copy_space_append_block_lists bs (cs_empty cs) flip) (\<lambda>(flip, bs).
      Inr (cs\<lparr>cs_blocks := bs, cs_empty := flip, cs_partly_full := 0, cs_full := 0, cs_allocated_bytes := 0,
             cs_fragmentation := 0, cs_active_region := cs_active_region cs XOR 1, cs_in_gc := True\<rparr>)))"

definition copy_space_allocator_init :: copy_space_allocator where
  "copy_space_allocator_init = no_allocation"

definition copy_space_allocator_finish :: "copy_space_allocator \<Rightarrow> copy_space \<Rightarrow> copy_space_allocator \<times> copy_space" where
  "copy_space_allocator_finish a cs =
    (if ca_block a \<noteq> 0 then copy_space_allocator_release_partly_full_block a cs else (a, cs))"

definition copy_space_finish_gc :: "copy_space \<Rightarrow> bool \<Rightarrow> copy_space result" where
  "copy_space_finish_gc cs is_minor_gc =
    result_bind
      (if is_minor_gc then
         result_bind
           (while_loop fst
             (\<lambda>(_, a, cs). let (a, cs) = copy_space_allocator_release_full_block a cs
                           in copy_space_allocator_acquire_partly_full_block a cs)
             (copy_space_allocator_acquire_partly_full_block copy_space_allocator_init cs))
           (\<lambda>(_, a, cs). Inr (snd (copy_space_allocator_finish a cs)))
       else Inr cs)
      (\<lambda>cs. Inr (cs\<lparr>cs_allocated_bytes_at_last_gc := cs_allocated_bytes cs,
        cs_fragmentation_at_last_gc := cs_fragmentation cs, cs_in_gc := False\<rparr>))"

definition copy_space_can_allocate :: "copy_space \<Rightarrow> u64 \<Rightarrow> u64 result" where
  "copy_space_can_allocate cs bytes =
    result_bind
      (while_loop (\<lambda>(empties, n). empties \<noteq> 0 \<and> n < bytes)
        (\<lambda>(empties, n). (blk_next (cs_blocks cs empties), n + COPY_SPACE_REGION_SIZE)) (cs_empty cs, 0))
      (\<lambda>(_, n). Inr n)"

definition copy_space_add_to_allocation_counter :: "copy_space \<Rightarrow> u64 \<Rightarrow> u64" where
  "copy_space_add_to_allocation_counter cs counter =
    counter + (cs_allocated_bytes cs - cs_allocated_bytes_at_last_gc cs)"

definition copy_space_gc_during_evacuation :: "'a result" where
  "copy_space_gc_during_evacuation = Inl Crash"

definition copy_space_should_promote :: "copy_space \<Rightarrow> gc_ref \<Rightarrow> bool result" where
  "copy_space_should_promote cs ref =
    result_bind (assert_result (copy_space_contains cs ref)) (\<lambda>_.
    result_bind (gc_assert (copy_space_object_region ref = cs_active_region cs XOR 1)) (\<lambda>_.
      Inr (blk_is_survivor (cs_blocks cs (copy_space_block_for_addr ref)) (cs_active_region cs XOR 1))))"

subsection \<open>Forwarding\<close>

text \<open>
  The embedder's side of forwarding (\<open>api/gc-embedder-api.h\<close>). Memory is an argument, since forwarding
  words are in the objects; the reply to the \<open>n\<close>th poll of a busy object is also the embedder's, as
  another thread decides it.
\<close>

record forwarding_ops =
  gc_object_forwarded_nonatomic :: "gc_ref \<Rightarrow> byte_mem \<Rightarrow> u64"
  gc_object_forward_nonatomic :: "gc_ref \<Rightarrow> gc_ref \<Rightarrow> byte_mem \<Rightarrow> byte_mem"
  gc_trace_object_size :: "gc_ref \<Rightarrow> byte_mem \<Rightarrow> u64"
  gc_atomic_forward_begin :: "gc_ref \<Rightarrow> byte_mem \<Rightarrow> gc_atomic_forward"
  gc_atomic_forward_acquire :: "gc_atomic_forward \<Rightarrow> byte_mem \<Rightarrow> gc_atomic_forward \<times> byte_mem"
  gc_atomic_forward_retry_busy :: "nat \<Rightarrow> gc_atomic_forward \<Rightarrow> byte_mem \<Rightarrow> bool \<times> gc_atomic_forward \<times> byte_mem"
  gc_atomic_forward_abort :: "gc_atomic_forward \<Rightarrow> byte_mem \<Rightarrow> byte_mem"
  gc_atomic_forward_object_size :: "gc_atomic_forward \<Rightarrow> byte_mem \<Rightarrow> u64"
  gc_atomic_forward_commit :: "gc_atomic_forward \<Rightarrow> gc_ref \<Rightarrow> byte_mem \<Rightarrow> byte_mem"
  gc_atomic_forward_address :: "gc_atomic_forward \<Rightarrow> byte_mem \<Rightarrow> u64"

definition copy_space_forward_nonatomic ::
    "forwarding_ops \<Rightarrow> u64 \<Rightarrow> u64 \<Rightarrow> u64 \<Rightarrow> gc_ref \<Rightarrow> alloc_state \<Rightarrow> (copy_space_forward_result \<times> alloc_state) result" where
  "copy_space_forward_nonatomic emb threshold granule edge old_ref = (\<lambda>(a, cs, mem).
    let forwarded = gc_object_forwarded_nonatomic emb old_ref mem
    in if forwarded \<noteq> 0 then Inr (Forward_Updated, a, cs, store_word mem edge forwarded)
       else
         (let sz = gc_trace_object_size emb old_ref mem
          in result_bind (copy_space_allocate threshold granule sz (a, cs, mem)) (\<lambda>(new_ref, a, cs, mem).
               if gc_ref_is_null new_ref then Inr (Forward_Failed, a, cs, mem)
               else
                 (let mem = mem_copy mem new_ref old_ref sz;
                      mem = gc_object_forward_nonatomic emb old_ref new_ref mem
                  in Inr (Forward_Evacuated, a, cs, store_word mem edge new_ref)))))"

definition copy_space_forward_if_traced_nonatomic :: "forwarding_ops \<Rightarrow> u64 \<Rightarrow> gc_ref \<Rightarrow> byte_mem \<Rightarrow> bool \<times> byte_mem" where
  "copy_space_forward_if_traced_nonatomic emb edge old_ref mem =
    (let forwarded = gc_object_forwarded_nonatomic emb old_ref mem
     in if forwarded \<noteq> 0 then (True, store_word mem edge forwarded) else (False, mem))"

text \<open>Spinning on a busy object until the poll says to look again.\<close>

definition spin_busy :: "forwarding_ops \<Rightarrow> gc_atomic_forward \<Rightarrow> byte_mem \<Rightarrow> (gc_atomic_forward \<times> byte_mem) result" where
  "spin_busy emb fwd mem =
    result_bind
      (while_loop (\<lambda>(retry, spin_count, fwd, mem). \<not> retry)
        (\<lambda>(_, spin_count, fwd, mem).
          let (retry, fwd, mem) = gc_atomic_forward_retry_busy emb spin_count fwd mem
          in (retry, spin_count + 1, fwd, mem))
        (False, 0, fwd, mem))
      (\<lambda>(_, _, s). Inr s)"

definition copy_space_forward_atomic ::
    "forwarding_ops \<Rightarrow> u64 \<Rightarrow> u64 \<Rightarrow> u64 \<Rightarrow> gc_ref \<Rightarrow> alloc_state \<Rightarrow> (copy_space_forward_result \<times> alloc_state) result" where
  "copy_space_forward_atomic emb threshold granule edge old_ref = (\<lambda>(a, cs, mem).
    result_bind
      (while_result (\<lambda>(ret, _). ret = None)
        (\<lambda>(_, fwd, a, cs, mem).
          let (fwd, mem) = (if fwd_state fwd = Fwd_Not_Forwarded then gc_atomic_forward_acquire emb fwd mem else (fwd, mem))
          in case fwd_state fwd of
            Fwd_Not_Forwarded \<Rightarrow> Inl Crash
          | Fwd_Acquired \<Rightarrow>
              (let bytes = gc_atomic_forward_object_size emb fwd mem
               in result_bind (copy_space_allocate threshold granule bytes (a, cs, mem)) (\<lambda>(new_ref, a, cs, mem).
                    if gc_ref_is_null new_ref then
                      Inr (Some Forward_Failed, fwd, a, cs, gc_atomic_forward_abort emb fwd mem)
                    else
                      (let mem = mem_copy mem new_ref old_ref bytes;
                           mem = gc_atomic_forward_commit emb fwd new_ref mem
                       in Inr (Some Forward_Evacuated, fwd, a, cs, store_word mem edge new_ref))))
          | Fwd_Busy \<Rightarrow> result_bind (spin_busy emb fwd mem) (\<lambda>(fwd, mem). Inr (None, fwd, a, cs, mem))
          | Fwd_Forwarded \<Rightarrow>
              Inr (Some Forward_Updated, fwd, a, cs, store_word mem edge (gc_atomic_forward_address emb fwd mem)))
        (None, gc_atomic_forward_begin emb old_ref mem, a, cs, mem))
      (\<lambda>(ret, _, s). case ret of Some r \<Rightarrow> Inr (r, s) | None \<Rightarrow> Inl Crash))"

definition copy_space_forward_if_traced_atomic :: "forwarding_ops \<Rightarrow> u64 \<Rightarrow> gc_ref \<Rightarrow> byte_mem \<Rightarrow> (bool \<times> byte_mem) result" where
  "copy_space_forward_if_traced_atomic emb edge old_ref mem =
    result_bind
      (while_result (\<lambda>(ret, _). ret = None)
        (\<lambda>(_, fwd, mem).
          case fwd_state fwd of
            Fwd_Not_Forwarded \<Rightarrow> Inr (Some False, fwd, mem)
          | Fwd_Busy \<Rightarrow> result_bind (spin_busy emb fwd mem) (\<lambda>(fwd, mem). Inr (None, fwd, mem))
          | Fwd_Forwarded \<Rightarrow> Inr (Some True, fwd, store_word mem edge (gc_atomic_forward_address emb fwd mem))
          | Fwd_Acquired \<Rightarrow> Inl Crash)
        (None, gc_atomic_forward_begin emb old_ref mem, mem))
      (\<lambda>(ret, _, mem). case ret of Some r \<Rightarrow> Inr (r, mem) | None \<Rightarrow> Inl Crash)"

text \<open>\<open>same\<close> says that the source space is the destination, whose state the allocation changes.\<close>

definition copy_space_forward ::
    "bool \<Rightarrow> forwarding_ops \<Rightarrow> u64 \<Rightarrow> u64 \<Rightarrow> copy_space \<Rightarrow> bool \<Rightarrow> u64 \<Rightarrow> gc_ref \<Rightarrow> alloc_state
      \<Rightarrow> (copy_space_forward_result \<times> alloc_state) result" where
  "copy_space_forward parallel emb threshold granule src same edge old_ref s =
    result_bind (assert_result (copy_space_contains src old_ref)) (\<lambda>_.
    result_bind (gc_assert (\<not> same \<or> copy_space_object_region old_ref \<noteq> cs_active_region src)) (\<lambda>_.
      if parallel \<and> cs_atomic_forward src then copy_space_forward_atomic emb threshold granule edge old_ref s
      else copy_space_forward_nonatomic emb threshold granule edge old_ref s))"

definition copy_space_forward_if_traced ::
    "bool \<Rightarrow> forwarding_ops \<Rightarrow> copy_space \<Rightarrow> u64 \<Rightarrow> gc_ref \<Rightarrow> byte_mem \<Rightarrow> (bool \<times> byte_mem) result" where
  "copy_space_forward_if_traced parallel emb cs edge old_ref mem =
    result_bind (assert_result (copy_space_contains cs old_ref)) (\<lambda>_.
    result_bind (gc_assert (copy_space_object_region old_ref \<noteq> cs_active_region cs)) (\<lambda>_.
      if parallel \<and> cs_atomic_forward cs then copy_space_forward_if_traced_atomic emb edge old_ref mem
      else Inr (copy_space_forward_if_traced_nonatomic emb edge old_ref mem)))"

subsection \<open>Slabs\<close>

definition copy_space_is_aligned :: "copy_space \<Rightarrow> bool" where
  "copy_space_is_aligned cs = (cs_flags cs AND COPY_SPACE_ALIGNED \<noteq> 0)"

definition copy_space_fixed_size :: "copy_space \<Rightarrow> bool" where
  "copy_space_fixed_size cs = copy_space_is_aligned cs"

definition copy_space_low_aligned_address :: "copy_space \<Rightarrow> u64 result" where
  "copy_space_low_aligned_address cs =
    result_bind (gc_assert (copy_space_is_aligned cs)) (\<lambda>_.
    result_bind (gc_assert (ext_size (cs_extents cs) = 1)) (\<lambda>_. Inr (lo_addr (ext_ranges (cs_extents cs) ! 0))))"

definition copy_space_high_aligned_address :: "copy_space \<Rightarrow> u64 result" where
  "copy_space_high_aligned_address cs =
    result_bind (gc_assert (copy_space_is_aligned cs)) (\<lambda>_.
    result_bind (gc_assert (ext_size (cs_extents cs) = 1)) (\<lambda>_. Inr (hi_addr (ext_ranges (cs_extents cs) ! 0))))"

definition copy_space_contains_address_aligned :: "copy_space \<Rightarrow> u64 \<Rightarrow> bool result" where
  "copy_space_contains_address_aligned cs addr =
    result_bind (copy_space_low_aligned_address cs) (\<lambda>low_addr.
    result_bind (copy_space_high_aligned_address cs) (\<lambda>high_addr.
      let sz = high_addr - low_addr in Inr (addr - low_addr < sz)))"

definition copy_space_contains_edge_aligned :: "copy_space \<Rightarrow> u64 \<Rightarrow> bool result" where
  "copy_space_contains_edge_aligned cs edge = copy_space_contains_address_aligned cs edge"

definition copy_space_is_power_of_two :: "u64 \<Rightarrow> bool result" where
  "copy_space_is_power_of_two n = result_bind (gc_assert (n \<noteq> 0)) (\<lambda>_. Inr (n AND (n - 1) = 0))"

definition copy_space_round_up_power_of_two :: "u64 \<Rightarrow> u64 result" where
  "copy_space_round_up_power_of_two n =
    result_bind (copy_space_is_power_of_two n) (\<lambda>p.
      if p then Inr n else Inr (push_bit (64 - clzll n) 1))"

text \<open>\<open>acquire\<close> is \<open>gc_platform_acquire_memory\<close>: from a size and an alignment to an address, or 0.\<close>

definition copy_space_allocate_slabs :: "(u64 \<Rightarrow> u64 \<Rightarrow> u64) \<Rightarrow> u64 \<Rightarrow> u32 \<Rightarrow> u64 result" where
  "copy_space_allocate_slabs acquire nslabs flags =
    (let sz = nslabs * COPY_SPACE_SLAB_SIZE
     in if flags AND COPY_SPACE_ALIGNED \<noteq> 0
        then result_bind (copy_space_is_power_of_two sz) (\<lambda>p. result_bind (gc_assert p) (\<lambda>_. Inr (acquire sz sz)))
        else Inr (acquire sz COPY_SPACE_SLAB_SIZE))"

definition copy_space_add_slabs :: "copy_space \<Rightarrow> u64 \<Rightarrow> nat \<Rightarrow> copy_space result" where
  "copy_space_add_slabs cs slabs nslabs =
    result_bind (extents_adjoin (cs_extents cs) slabs (of_nat nslabs * COPY_SPACE_SLAB_SIZE)) (\<lambda>e.
      Inr (cs\<lparr>cs_extents := e, cs_slabs := cs_slabs cs @ map (\<lambda>i. slabs + of_nat i * COPY_SPACE_SLAB_SIZE) [0..<nslabs]\<rparr>))"

definition copy_space_shrink :: "copy_space \<Rightarrow> u64 \<Rightarrow> copy_space result" where
  "copy_space_shrink cs bytes =
    (let (pending, cs) = copy_space_request_release_memory cs bytes
     in result_bind (copy_space_page_out_blocks_until_memory_released cs) (\<lambda>(_, cs). Inr cs))"

definition copy_space_first_payload_block :: "copy_space \<Rightarrow> u64" where
  "copy_space_first_payload_block cs = copy_space_field_logging_blocks cs"

text \<open>The headers of the payload blocks of new slabs, in the order of the two nested loops.\<close>

definition payload_blocks :: "copy_space \<Rightarrow> u64 \<Rightarrow> nat \<Rightarrow> u64 list" where
  "payload_blocks cs slabs nslabs =
    [slab_header (slabs + of_nat slab * COPY_SPACE_SLAB_SIZE) (of_nat idx).
      slab \<leftarrow> [0..<nslabs], idx \<leftarrow> [unat (copy_space_first_payload_block cs)..<unat COPY_SPACE_NONHEADER_BLOCKS_PER_SLAB]]"

definition expand_block :: "u64 \<Rightarrow> copy_space \<Rightarrow> copy_space" where
  "expand_block block cs =
    (let bs = cs_blocks cs;
         bs = bs(block := (bs block)\<lparr>blk_all_zeroes := (blk_all_zeroes (bs block))(0 := True, 1 := True),
           blk_in_core := False\<rparr>)
     in copy_space_page_out_block (cs\<lparr>cs_blocks := bs\<rparr>) block)"

definition copy_space_expand :: "(u64 \<Rightarrow> u64 \<Rightarrow> u64) \<Rightarrow> copy_space \<Rightarrow> u64 \<Rightarrow> copy_space result" where
  "copy_space_expand acquire cs bytes =
    result_bind (gc_assert (\<not> copy_space_fixed_size cs)) (\<lambda>_.
    result_bind (copy_space_maybe_reacquire_memory cs bytes) (\<lambda>(pending, cs).
      let to_acquire = - pending
      in if to_acquire \<le> 0 then Inr cs
         else
           (let reserved = align_up (word_of_int to_acquire) COPY_SPACE_SLAB_SIZE;
                nslabs = reserved div COPY_SPACE_SLAB_SIZE
            in result_bind (copy_space_allocate_slabs acquire nslabs (cs_flags cs)) (\<lambda>slabs.
               result_bind (copy_space_add_slabs cs slabs (unat nslabs)) (\<lambda>cs.
                 copy_space_reacquire_memory (fold expand_block (payload_blocks cs slabs (unat nslabs)) cs) 0)))))"

definition init_block :: "u64 \<Rightarrow> u64 \<Rightarrow> u64 \<times> copy_space \<Rightarrow> u64 \<times> copy_space" where
  "init_block sz block = (\<lambda>(reserved, cs).
    let bs = cs_blocks cs;
        cs = cs\<lparr>cs_blocks := bs(block := (bs block)\<lparr>
          blk_all_zeroes := (blk_all_zeroes (bs block))(0 := True, 1 := True), blk_in_core := False,
          blk_is_survivor := (blk_is_survivor (bs block))(0 := False, 1 := False)\<rparr>)\<rparr>
    in if reserved > sz then (reserved - COPY_SPACE_BLOCK_SIZE, copy_space_page_out_block cs block)
       else (reserved, copy_space_push_empty_block cs block))"

definition copy_space_reserved :: "u64 \<Rightarrow> u32 \<Rightarrow> u64 result" where
  "copy_space_reserved sz flags =
    (let reserved = sz + COPY_SPACE_BLOCK_SIZE * 16;
         reserved = align_up reserved COPY_SPACE_SLAB_SIZE
     in if flags AND COPY_SPACE_ALIGNED \<noteq> 0 then copy_space_round_up_power_of_two reserved else Inr reserved)"

datatype copy_space_task = Advance_Page_Out_Queue | Page_Out_Blocks

text \<open>\<open>space\<close> is the address of the space itself, the argument of its two tasks; \<open>junk\<close> is that of the
  thread's table.\<close>

definition copy_space_init ::
    "(u64 \<Rightarrow> u64 \<Rightarrow> u64) \<Rightarrow> blocks \<Rightarrow> u64 \<Rightarrow> u32 \<Rightarrow> u64 \<Rightarrow> (copy_space_task, u64) gc_background_task
      \<Rightarrow> (copy_space_task, u64) gc_background_thread
      \<Rightarrow> (copy_space \<times> (copy_space_task, u64) gc_background_thread) option result" where
  "copy_space_init acquire bs sz flags space junk thread =
    (let sz = align_up sz COPY_SPACE_BLOCK_SIZE
     in result_bind (copy_space_reserved sz flags) (\<lambda>reserved.
        let nslabs = reserved div COPY_SPACE_SLAB_SIZE
        in result_bind (copy_space_allocate_slabs acquire nslabs flags) (\<lambda>slabs.
           if slabs = 0 then Inr None
           else
             (let cs = \<lparr> cs_blocks = bs, cs_empty = 0, cs_partly_full = 0, cs_full = 0, cs_allocated_bytes = 0,
                    cs_fragmentation = 0, cs_paged_out = replicate COPY_SPACE_PAGE_OUT_QUEUE_SIZE 0,
                    cs_bytes_to_page_out = 0, cs_active_region = 0,
                    cs_atomic_forward = (flags AND COPY_SPACE_ATOMIC_FORWARDING \<noteq> 0), cs_in_gc = False,
                    cs_flags = flags, cs_allocated_bytes_at_last_gc = 0, cs_fragmentation_at_last_gc = 0,
                    cs_extents = extents_allocate (if flags AND COPY_SPACE_ALIGNED \<noteq> 0 then 1 else 10), cs_slabs = [] \<rparr>
              in result_bind (copy_space_add_slabs cs slabs (unat nslabs)) (\<lambda>cs.
                   let (_, cs) = fold (init_block sz) (payload_blocks cs slabs (unat nslabs)) (reserved, cs);
                       (_, thread) = gc_background_thread_add_task junk thread GC_BACKGROUND_TASK_START Advance_Page_Out_Queue space;
                       (_, thread) = gc_background_thread_add_task junk thread GC_BACKGROUND_TASK_END Page_Out_Blocks space
                   in Inr (Some (cs, thread)))))))"

end
