(* ===== verification/CopySpaceInvariant.thy ===== *)
theory CopySpaceInvariant
  imports CopySpace
begin

section \<open>The layout of slabs\<close>

text \<open>
  The header of a block lies in the first 128 KB of its slab, at a multiple of 256 that gives the
  number of the block; the invariant of the space and of its lists, and the operations that keep it.
\<close>

lemma copy_space_constants:
  "COPY_SPACE_SLAB_SIZE = 67108864" "COPY_SPACE_REGION_SIZE = 65536" "COPY_SPACE_BLOCK_SIZE = 131072"
  "COPY_SPACE_BLOCKS_PER_SLAB = 512" "COPY_SPACE_HEADER_BYTES_PER_BLOCK = 256"
  "COPY_SPACE_HEADER_BLOCKS_PER_SLAB = 1" "COPY_SPACE_NONHEADER_BLOCKS_PER_SLAB = 511"
  "COPY_SPACE_HEADER_BYTES_PER_SLAB = 256"
  by (code_simp)+

text \<open>
  The header number \<open>k\<close> of the slab at \<open>s\<close> times 64 MB. A slab does not reach the end of the address
  space, and the blocks up to number \<open>lo\<close> hold the logged bits of the slab's fields.
\<close>

definition block_at :: "nat \<Rightarrow> nat \<Rightarrow> u64" where
  "block_at s k = of_nat (2 ^ 26 * s + 2 ^ 8 * k)"

definition block_addr :: "nat \<Rightarrow> u64 \<Rightarrow> bool" where
  "block_addr lo b \<longleftrightarrow> (\<exists>s k. s < 2 ^ 38 - 1 \<and> lo < k \<and> k < 512 \<and> b = block_at s k)"

lemma block_addrE:
  assumes "block_addr lo b"
  obtains s k where "s < 2 ^ 38 - 1" "s < 2 ^ 38" "lo < k" "1 \<le> k" "k < 512" "b = block_at s k"
  using assms unfolding block_addr_def by (elim exE conjE) simp

lemma unat_slab_offset:
  assumes "s < 2 ^ 38" "m < 2 ^ 26"
  shows "unat (of_nat (2 ^ 26 * s + m) :: u64) = 2 ^ 26 * s + m"
proof -
  have "2 ^ 26 * s + m < 2 ^ LENGTH(64)" using assms by simp
  then show ?thesis unfolding unat_of_nat by (rule mod_less)
qed

lemma align_slab:
  assumes "s < 2 ^ 38" "m < 2 ^ 26"
  shows "align_down (of_nat (2 ^ 26 * s + m)) COPY_SPACE_SLAB_SIZE = of_nat (2 ^ 26 * s)"
proof -
  have "(COPY_SPACE_SLAB_SIZE :: u64) = 2 ^ 26" by (simp add: COPY_SPACE_SLAB_SIZE_def)
  then have "unat (align_down (of_nat (2 ^ 26 * s + m)) COPY_SPACE_SLAB_SIZE) = (2 ^ 26 * s + m) - (2 ^ 26 * s + m) mod 2 ^ 26"
    using unat_align_down[of 26] unat_slab_offset[OF assms] by simp
  also have "\<dots> = 2 ^ 26 * s" using assms(2) by simp
  also have "\<dots> = unat (of_nat (2 ^ 26 * s) :: u64)" using unat_slab_offset[OF assms(1), of 0] by simp
  finally show ?thesis by (rule unsigned_word_eqI)
qed

lemma div_mod_slab:
  assumes "s < 2 ^ 38" "m < 2 ^ 26" "q < 26" "d = 2 ^ q" "n = 2 ^ j" "j \<le> 26 - q"
  shows "(of_nat (2 ^ 26 * s + m) :: u64) div d mod n = of_nat (m div 2 ^ q mod 2 ^ j)"
proof -
  have "unat ((of_nat (2 ^ 26 * s + m) :: u64) div d mod n) = (2 ^ 26 * s + m) div 2 ^ q mod 2 ^ j"
    using assms(3,4,5,6) unat_slab_offset[OF assms(1,2)] by (simp add: unat_div_distrib unat_mod_distrib unat_exp)
  also have "(2 ^ 26 * s + m) div 2 ^ q = 2 ^ (26 - q) * s + m div 2 ^ q"
  proof -
    have "(2::nat) ^ 26 * s = 2 ^ q * (2 ^ (26 - q) * s)" using assms(3) by (simp add: power_add[symmetric] mult.assoc[symmetric])
    then show ?thesis unfolding add.commute[of _ m] by (simp only: div_mult_self2 power_not_zero) simp
  qed
  also have "\<dots> mod 2 ^ j = m div 2 ^ q mod 2 ^ j"
  proof -
    have "(2::nat) ^ j dvd 2 ^ (26 - q) * s" using assms(6) by (simp add: dvd_mult2 le_imp_power_dvd)
    then show ?thesis by (metis mod_add_left_eq add.left_neutral dvd_imp_mod_0)
  qed
  finally have "unat ((of_nat (2 ^ 26 * s + m) :: u64) div d mod n) = m div 2 ^ q mod 2 ^ j" .
  then show ?thesis by (metis of_nat_unat ucast_id)
qed


lemma block_layout:
  assumes "s < 2 ^ 38" "1 \<le> k" "k < 512"
  shows "copy_space_block_payload (block_at s k) = of_nat (2 ^ 26 * s + 2 ^ 17 * k)"
    and "d < 2 ^ 17 \<Longrightarrow> copy_space_block_for_addr (of_nat (2 ^ 26 * s + (2 ^ 17 * k + d))) = block_at s k"
proof -
  have "slab_blocks x = x + 2 ^ 17" for x
    by (simp add: slab_blocks_def slab_headers_def copy_space_constants)
  moreover have "block_at s k div 256 mod 512 = of_nat k"
    using div_mod_slab[of s "2 ^ 8 * k" 8 256 512 9] assms by (simp add: block_at_def)
  moreover have "align_down (block_at s k) COPY_SPACE_SLAB_SIZE = of_nat (2 ^ 26 * s)"
    unfolding block_at_def by (rule align_slab) (use assms in auto)
  ultimately show "copy_space_block_payload (block_at s k) = of_nat (2 ^ 26 * s + 2 ^ 17 * k)"
    using assms(2) unfolding copy_space_block_payload_def Let_def
    by (simp add: copy_space_constants of_nat_diff algebra_simps)
  assume d: "d < 2 ^ 17"
  have m: "2 ^ 17 * k + d < 2 ^ 26" using assms(3) d by simp
  have "(2 ^ 17 * k + d) div 2 ^ 17 mod 2 ^ 9 = k" using d assms(3) by simp
  then have "(of_nat (2 ^ 26 * s + (2 ^ 17 * k + d)) :: u64) div 2 ^ 17 mod 2 ^ 9 = of_nat k"
    using div_mod_slab[OF assms(1) m, of 17 "2 ^ 17" "2 ^ 9" 9] by simp
  moreover have "COPY_SPACE_BLOCK_SIZE = 2 ^ 17" "COPY_SPACE_BLOCKS_PER_SLAB = 2 ^ 9" by (simp_all add: copy_space_constants)
  moreover have "align_down (of_nat (2 ^ 26 * s + (2 ^ 17 * k + d))) COPY_SPACE_SLAB_SIZE = of_nat (2 ^ 26 * s)"
    by (rule align_slab[OF assms(1) m])
  ultimately have "copy_space_block_for_addr (of_nat (2 ^ 26 * s + (2 ^ 17 * k + d)))
    = slab_header (of_nat (2 ^ 26 * s)) (of_nat k - 1)"
    unfolding copy_space_block_for_addr_def Let_def COPY_SPACE_HEADER_BLOCKS_PER_SLAB_def by (simp only:)
  also have "\<dots> = block_at s k"
    by (simp add: slab_header_def slab_headers_def block_at_def copy_space_constants algebra_simps)
  finally show "copy_space_block_for_addr (of_nat (2 ^ 26 * s + (2 ^ 17 * k + d))) = block_at s k" .
qed

definition in_range :: "u64 \<Rightarrow> u64 \<Rightarrow> u64 \<Rightarrow> bool" where
  "in_range a n x \<longleftrightarrow> x - a < n"

text \<open>The bytes of a block's region belong to no other block and to no other region.\<close>

lemma payload_region_facts:
  assumes "block_addr lo b" "r \<le> 1" "x - payload_region (copy_space_block_payload b) r < COPY_SPACE_REGION_SIZE"
  shows "copy_space_block_for_addr x = b" "copy_space_object_region x = r" "x \<noteq> 0"
proof -
  obtain s k where b: "s < 2 ^ 38" "1 \<le> k" "k < 512" "b = block_at s k" by (rule block_addrE[OF assms(1)])
  define d where "d = unat (x - payload_region (copy_space_block_payload b) r)"
  have d: "d < 2 ^ 16" using assms(3) by (simp add: d_def word_less_nat_alt COPY_SPACE_REGION_SIZE_def)
  define q where "q = unat r"
  have q: "q \<le> 1" using assms(2) by (simp add: q_def word_le_nat_alt)
  have r: "(ucast r :: u64) = of_nat q" by (simp add: q_def)
  have "x = payload_region (copy_space_block_payload b) r + of_nat d" by (simp add: d_def)
  then have x: "x = of_nat (2 ^ 26 * s + (2 ^ 17 * k + (2 ^ 16 * q + d)))"
    using b block_layout(1)[OF b(1-3)] by (simp add: payload_region_def r COPY_SPACE_REGION_SIZE_def algebra_simps)
  have qd: "2 ^ 16 * q + d < 2 ^ 17" using q d by simp
  then show "copy_space_block_for_addr x = b" using block_layout(2)[OF b(1-3) qd] x b(4) by simp
  have m: "2 ^ 17 * k + (2 ^ 16 * q + d) < 2 ^ 26" using b(3) qd by simp
  have "(2 ^ 17 * k + (2 ^ 16 * q + d)) div 2 ^ 16 mod 2 ^ 1 = (2 * k + q) mod 2"
  proof -
    have "2 ^ 17 * k + (2 ^ 16 * q + d) = d + 2 ^ 16 * (2 * k + q)" by simp
    then show ?thesis using d by (simp only: div_mult_self2) simp
  qed
  then have "x div 2 ^ 16 mod 2 ^ 1 = of_nat q"
    using div_mod_slab[OF b(1) m, of 16 "2 ^ 16" "2 ^ 1" 1] x q by (cases q) auto
  then have "(x div COPY_SPACE_REGION_SIZE) AND 1 = of_nat q"
    by (simp add: COPY_SPACE_REGION_SIZE_def and_one_eq)
  moreover have "ucast (ucast r :: u64) = r" by (rule bit_word_eqI) (auto simp: bit_simps)
  ultimately show "copy_space_object_region x = r"
    by (simp add: copy_space_object_region_def q_def)
  show "x \<noteq> 0"
  proof
    assume "x = 0"
    then have "unat (of_nat (2 ^ 26 * s + (2 ^ 17 * k + (2 ^ 16 * q + d))) :: u64) = 0" using x by simp
    then show False using unat_slab_offset[OF b(1) m] b(2) by simp
  qed
qed


lemma block_at_inject:
  assumes "s < 2 ^ 38" "k < 512" "s' < 2 ^ 38" "k' < 512" "block_at s k = block_at s' k'"
  shows "s = s' \<and> k = k'"
proof -
  have "unat (block_at s k) = 2 ^ 26 * s + 2 ^ 8 * k" "unat (block_at s' k') = 2 ^ 26 * s' + 2 ^ 8 * k'"
    unfolding block_at_def by (rule unat_slab_offset; use assms in simp)+
  then have e: "2 ^ 26 * s + 2 ^ 8 * k = 2 ^ 26 * s' + 2 ^ 8 * k'" using assms(5) by simp
  from this have "(2 ^ 8 * k + 2 ^ 26 * s) div 2 ^ 26 = (2 ^ 8 * k' + 2 ^ 26 * s') div 2 ^ 26" by (simp only: add.commute)
  moreover have "(2 ^ 8 * k + 2 ^ 26 * s) div 2 ^ 26 = s" if "k < 512" for k s :: nat
    using that by simp
  ultimately have "s = s'" using assms(2,4) by metis
  then show ?thesis using e by simp
qed

text \<open>The bytes that hold the logged bits of a slab.\<close>

definition log_byte :: "u64 \<Rightarrow> bool" where
  "log_byte x \<longleftrightarrow> (\<exists>s j. s < 2 ^ 38 - 1 \<and> j < 2 ^ 20 \<and> x = of_nat (2 ^ 26 * s + (2 ^ 17 + j)))"

lemma log_byte_block:
  assumes "log_byte x"
  obtains s k where "s < 2 ^ 38" "k \<le> 8" "copy_space_block_for_addr x = block_at s k"
proof -
  obtain s j where x: "s < 2 ^ 38 - 1" "j < 2 ^ 20" "x = of_nat (2 ^ 26 * s + (2 ^ 17 + j))"
    using assms by (auto simp: log_byte_def)
  define k d where "k = 1 + j div 2 ^ 17" and "d = j mod 2 ^ 17"
  have "2 ^ 17 + j = 2 ^ 17 * k + d" by (simp add: k_def d_def)
  then have "x = of_nat (2 ^ 26 * s + (2 ^ 17 * k + d))" unfolding x(3) by (simp only:)
  then have "copy_space_block_for_addr x = block_at s k"
    using block_layout(2)[of s k d] x(1,2) by (simp add: k_def d_def)
  moreover have "k \<le> 8" using x(2) by (simp add: k_def)
  ultimately show thesis using that[of s k] x(1) by simp
qed

lemma region_not_log_byte:
  assumes "block_addr lo b" "8 \<le> lo" "r \<le> 1" "x - payload_region (copy_space_block_payload b) r < COPY_SPACE_REGION_SIZE"
  shows "\<not> log_byte x"
proof
  assume "log_byte x"
  then obtain s k where "s < 2 ^ 38" "k \<le> 8" "copy_space_block_for_addr x = block_at s k" by (rule log_byte_block)
  moreover obtain s' k' where "s' < 2 ^ 38" "lo < k'" "k' < 512" "b = block_at s' k'"
    by (rule block_addrE[OF assms(1)])
  ultimately show False
    using payload_region_facts(1)[OF assms(1,3,4)] block_at_inject[of s k s' k'] assms(2) by simp
qed

lemma logged_bytes_of_region:
  assumes "block_addr lo b" "r \<le> 1"
    and "x - copy_space_field_logged_byte (payload_region (copy_space_block_payload b) r) < COPY_SPACE_REGION_SIZE div 8 div 8"
  shows "log_byte x"
proof -
  obtain s k where b: "s < 2 ^ 38 - 1" "1 \<le> k" "k < 512" "b = block_at s k" by (rule block_addrE[OF assms(1)])
  define q where "q = unat r"
  have q: "q \<le> 1" using assms(2) by (simp add: q_def word_le_nat_alt)
  have "(ucast r :: u64) = of_nat q" by (simp add: q_def)
  define a where "a = payload_region (copy_space_block_payload b) r"
  define m where "m = 2 ^ 17 * k + 2 ^ 16 * q"
  have a: "a = of_nat (2 ^ 26 * s + m)"
    using b block_layout(1)[of s k] \<open>ucast r = of_nat q\<close>
    by (simp add: a_def payload_region_def copy_space_constants m_def algebra_simps)
  have m: "m < 2 ^ 26" using b(3) q by (simp add: m_def)
  have s: "s < 2 ^ 38" using b(1) by simp
  have off: "(a AND (COPY_SPACE_SLAB_SIZE - 1)) div 8 div 8 = of_nat (m div 2 ^ 6)"
  proof -
    have "unat (a AND (COPY_SPACE_SLAB_SIZE - 1)) = unat a mod 2 ^ 26"
      using and_exp_minus_1[of a 26] by (simp add: copy_space_constants)
    also have "\<dots> = m" using unat_slab_offset[OF s m] m by (simp add: a)
    finally have "unat ((a AND (COPY_SPACE_SLAB_SIZE - 1)) div 8 div 8) = m div 2 ^ 6"
      by (simp add: unat_div_distrib div_mult2_eq[symmetric])
    then show ?thesis by (metis of_nat_unat ucast_id)
  qed
  have "slab_blocks y = y + 2 ^ 17" for y by (simp add: slab_blocks_def slab_headers_def copy_space_constants)
  then have byte: "copy_space_field_logged_byte a = of_nat (2 ^ 26 * s + (2 ^ 17 + m div 2 ^ 6))"
    unfolding copy_space_field_logged_byte_def Let_def off using align_slab[OF s m] by (simp add: a)
  define d where "d = unat (x - copy_space_field_logged_byte a)"
  have "(COPY_SPACE_REGION_SIZE div 8 div 8 :: u64) = 1024" by code_simp
  then have d: "d < 1024" using assms(3) by (simp add: d_def a_def word_less_nat_alt)
  have "x = copy_space_field_logged_byte a + of_nat d" by (simp add: d_def)
  then have "x = of_nat (2 ^ 26 * s + (2 ^ 17 + (m div 2 ^ 6 + d)))" unfolding byte by (simp add: algebra_simps)
  moreover have "m div 2 ^ 6 + d < 2 ^ 20"
  proof -
    have "m \<le> 2 ^ 26 - 2 ^ 16" using b(3) q by (simp add: m_def)
    then have "m div 2 ^ 6 \<le> 2 ^ 20 - 2 ^ 10" using div_le_mono[of m "2 ^ 26 - 2 ^ 16" "2 ^ 6"] by simp
    then show ?thesis using d by simp
  qed
  ultimately show ?thesis using b(1) unfolding log_byte_def by blast
qed

section \<open>The lists of blocks\<close>

definition block_lists :: "blocks \<Rightarrow> u64 list \<Rightarrow> u64 list list \<Rightarrow> bool" where
  "block_lists bs hs L \<longleftrightarrow> length hs = length L
    \<and> (\<forall>i < length L. chain (\<lambda>b. blk_next (bs b)) (hs ! i) (L ! i)) \<and> distinct (concat L)"

lemma nth_in_concat: "i < length L \<Longrightarrow> b \<in> set (L ! i) \<Longrightarrow> b \<in> set (concat L)"
  by auto

lemma block_lists_cong:
  assumes "\<And>b. b \<in> set (concat L) \<Longrightarrow> blk_next (bs' b) = blk_next (bs b)"
  shows "block_lists bs' hs L = block_lists bs hs L"
proof -
  have "chain (\<lambda>b. blk_next (bs' b)) p (L ! i) = chain (\<lambda>b. blk_next (bs b)) p (L ! i)" if "i < length L" for i p
    by (rule chain_cong, rule assms, rule nth_in_concat[OF that])
  then show ?thesis by (simp add: block_lists_def)
qed

lemma block_lists_nonzero: "block_lists bs hs L \<Longrightarrow> i < length L \<Longrightarrow> 0 \<notin> set (L ! i)"
  unfolding block_lists_def using chain_nonzero by blast

lemma block_lists_head:
  assumes "block_lists bs hs L" "i < length L"
  shows "hs ! i = (if L ! i = [] then 0 else hd (L ! i))" "L ! i = [] \<longleftrightarrow> hs ! i = 0"
proof -
  have "chain (\<lambda>b. blk_next (bs b)) (hs ! i) (L ! i)" using assms by (simp add: block_lists_def)
  then show "hs ! i = (if L ! i = [] then 0 else hd (L ! i))" "L ! i = [] \<longleftrightarrow> hs ! i = 0"
    by (cases "L ! i"; simp)+
qed

lemma concat_pop:
  assumes "i < length L" "L ! i = b # rest"
  shows "mset (concat L) = add_mset b (mset (concat (L[i := rest])))"
proof -
  have "(L[i := rest])[i := b # (L[i := rest]) ! i] = L" using assms by (metis list_update_id list_update_overwrite nth_list_update_eq)
  then show ?thesis using concat_update_mset[of i "L[i := rest]" b] assms(1) by simp
qed

lemma block_lists_pop:
  assumes bl: "block_lists bs hs L" and i: "i < length L" and L: "L ! i = b # rest"
    and bs': "\<And>c. c \<noteq> b \<Longrightarrow> bs' c = bs c"
  shows "block_lists bs' (hs[i := blk_next (bs b)]) (L[i := rest])" "b \<notin> set (concat (L[i := rest]))" "b \<noteq> 0"
    "hs ! i = b"
proof -
  note m = mset_add_facts[OF concat_pop[OF i L]]
  have ch: "chain (\<lambda>b. blk_next (bs b)) (hs ! j) (L ! j)" if "j < length L" for j
    using bl that by (simp add: block_lists_def)
  show b: "b \<notin> set (concat (L[i := rest]))" using m(3) bl by (simp add: block_lists_def del: set_concat)
  show "b \<noteq> 0" "hs ! i = b" using ch[OF i] L by simp_all
  have "chain (\<lambda>b. blk_next (bs b)) (hs[i := blk_next (bs b)] ! j) (L[i := rest] ! j)" if "j < length L" for j
    using ch[OF that] ch[OF i] L i bl that by (cases "j = i") (auto simp: block_lists_def)
  then have "block_lists bs (hs[i := blk_next (bs b)]) (L[i := rest])"
    using bl m(3) by (simp add: block_lists_def del: set_concat)
  then show "block_lists bs' (hs[i := blk_next (bs b)]) (L[i := rest])"
    by (rule iffD2[OF block_lists_cong, rotated]) (use b bs' in metis)
qed

lemma block_lists_push:
  assumes bl: "block_lists bs hs L" and i: "i < length L" and b: "b \<notin> set (concat L)" "b \<noteq> 0"
    and bs': "\<And>c. c \<noteq> b \<Longrightarrow> bs' c = bs c" "blk_next (bs' b) = hs ! i"
  shows "block_lists bs' (hs[i := b]) (L[i := b # L ! i])"
    "mset (concat (L[i := b # L ! i])) = add_mset b (mset (concat L))"
proof -
  show m: "mset (concat (L[i := b # L ! i])) = add_mset b (mset (concat L))" by (rule concat_update_mset[OF i])
  have "block_lists bs' hs L"
    by (rule iffD2[OF block_lists_cong bl]) (use b bs' in metis)
  then have "chain (\<lambda>b. blk_next (bs' b)) (hs ! j) (L ! j)" if "j < length L" for j
    using that by (simp add: block_lists_def)
  then have "chain (\<lambda>b. blk_next (bs' b)) (hs[i := b] ! j) (L[i := b # L ! i] ! j)" if "j < length L" for j
    using that i b bs'(2) bl by (cases "j = i") (auto simp: block_lists_def)
  then show "block_lists bs' (hs[i := b]) (L[i := b # L ! i])"
    using bl mset_add_facts(3)[OF m] b by (simp add: block_lists_def del: set_concat)
qed

section \<open>The invariant\<close>

definition cs_heads :: "copy_space \<Rightarrow> u64 list" where
  "cs_heads cs = cs_empty cs # cs_partly_full cs # cs_full cs # cs_paged_out cs"

definition zeroes :: "byte_mem \<Rightarrow> u64 \<Rightarrow> u64 \<Rightarrow> bool" where
  "zeroes mem a n \<longleftrightarrow> (\<forall>x. x - a < n \<longrightarrow> mem x = 0)"

definition cs_region :: "copy_space \<Rightarrow> u64 \<Rightarrow> u64" where
  "cs_region cs b = payload_region (copy_space_block_payload b) (cs_active_region cs)"

definition log_blocks :: "copy_space \<Rightarrow> nat" where
  "log_blocks cs = (if copy_space_has_field_logging_bits cs then 8 else 0)"

definition block_ok :: "copy_space \<Rightarrow> byte_mem \<Rightarrow> u64 \<Rightarrow> bool" where
  "block_ok cs mem b \<longleftrightarrow> block_addr (log_blocks cs) b
    \<and> (\<forall>r \<le> 1. blk_all_zeroes (cs_blocks cs b) r \<longrightarrow> zeroes mem (payload_region (copy_space_block_payload b) r) COPY_SPACE_REGION_SIZE)
    \<and> (\<forall>r \<le> 1. copy_space_contains_address cs (payload_region (copy_space_block_payload b) r) = Inr True)"

definition partly_ok :: "copy_space \<Rightarrow> byte_mem \<Rightarrow> u64 \<Rightarrow> bool" where
  "partly_ok cs mem b \<longleftrightarrow> (let n = blk_allocated (cs_blocks cs b) in
    0 < n \<and> n < COPY_SPACE_REGION_SIZE \<and> zeroes mem (cs_region cs b + n) (COPY_SPACE_REGION_SIZE - n))"

text \<open>The lists are the empty, the partly full, the full and the four ages of paged-out blocks. A block
  that holds objects is not marked as all zeroes in the active region.\<close>

definition cs_ok :: "copy_space \<Rightarrow> byte_mem \<Rightarrow> u64 list list \<Rightarrow> bool" where
  "cs_ok cs mem L \<longleftrightarrow>
    block_lists (cs_blocks cs) (cs_heads cs) L \<and> length L = 7 \<and> cs_active_region cs \<le> 1
    \<and> (\<forall>b \<in> set (concat L). block_ok cs mem b) \<and> (\<forall>b \<in> set (L ! 1). partly_ok cs mem b)
    \<and> (\<forall>b \<in> set (concat (drop 3 L)). blk_allocated (cs_blocks cs b) = 0)
    \<and> (\<forall>b \<in> set (L ! 1) \<union> set (L ! 2). \<not> blk_all_zeroes (cs_blocks cs b) (cs_active_region cs))"

text \<open>The block of an allocator is on no list; its free bytes, from \<open>hp\<close> to \<open>limit\<close>, are zero.\<close>

definition alloc_ok :: "copy_space \<Rightarrow> byte_mem \<Rightarrow> copy_space_allocator \<Rightarrow> u64 list list \<Rightarrow> bool" where
  "alloc_ok cs mem a L \<longleftrightarrow>
    (if ca_block a = 0 then a = no_allocation
     else
       (let n = ca_hp a - cs_region cs (ca_block a)
        in ca_block a \<notin> set (concat L) \<and> block_ok cs mem (ca_block a)
          \<and> \<not> blk_all_zeroes (cs_blocks cs (ca_block a)) (cs_active_region cs)
          \<and> blk_allocated (cs_blocks cs (ca_block a)) \<le> n \<and> n \<le> COPY_SPACE_REGION_SIZE
          \<and> ca_limit a = cs_region cs (ca_block a) + COPY_SPACE_REGION_SIZE
          \<and> zeroes mem (ca_hp a) (ca_limit a - ca_hp a)))"

text \<open>The bytes of the active regions that are allocated: those of full blocks, the beginnings of
  partly full ones, and the beginning of the allocator's block.\<close>

definition occupied :: "copy_space \<Rightarrow> copy_space_allocator \<Rightarrow> u64 list list \<Rightarrow> u64 set" where
  "occupied cs a L =
    {x. \<exists>b \<in> set (L ! 2). x - cs_region cs b < COPY_SPACE_REGION_SIZE}
    \<union> {x. \<exists>b \<in> set (L ! 1). x - cs_region cs b < blk_allocated (cs_blocks cs b)}
    \<union> (if ca_block a = 0 then {} else {x. x - cs_region cs (ca_block a) < ca_hp a - cs_region cs (ca_block a)})"

definition held :: "copy_space_allocator \<Rightarrow> u64 list" where
  "held a = (if ca_block a = 0 then [] else [ca_block a])"

definition same_space :: "copy_space \<Rightarrow> copy_space \<Rightarrow> bool" where
  "same_space cs cs' \<longleftrightarrow> cs_active_region cs' = cs_active_region cs \<and> cs_flags cs' = cs_flags cs
    \<and> cs_extents cs' = cs_extents cs \<and> cs_in_gc cs' = cs_in_gc cs"

lemma same_space_facts:
  assumes "same_space cs cs'"
  shows "cs_region cs' b = cs_region cs b" "log_blocks cs' = log_blocks cs"
    "copy_space_contains_address cs' x = copy_space_contains_address cs x"
    "copy_space_has_field_logging_bits cs' = copy_space_has_field_logging_bits cs"
    "cs_active_region cs' = cs_active_region cs" "cs_in_gc cs' = cs_in_gc cs"
  using assms by (simp_all add: same_space_def cs_region_def log_blocks_def copy_space_has_field_logging_bits_def
      copy_space_contains_address_def)

lemma same_space_trans: "same_space a b \<Longrightarrow> same_space b c \<Longrightarrow> same_space a c"
  by (simp add: same_space_def)

lemma same_space_refl [simp]: "same_space a a"
  by (simp add: same_space_def)

text \<open>Steps that move blocks between the lists and leave what is known of each block.\<close>

definition same_blocks :: "copy_space \<Rightarrow> copy_space \<Rightarrow> bool" where
  "same_blocks cs cs' \<longleftrightarrow> (\<forall>b. blk_all_zeroes (cs_blocks cs' b) = blk_all_zeroes (cs_blocks cs b)
    \<and> blk_allocated (cs_blocks cs' b) = blk_allocated (cs_blocks cs b))"

lemma same_blocks_ok:
  assumes "same_space cs cs'" "same_blocks cs cs'"
  shows "block_ok cs' mem b = block_ok cs mem b" "partly_ok cs' mem b = partly_ok cs mem b"
  using assms by (simp_all add: block_ok_def partly_ok_def same_space_facts[OF assms(1)] same_blocks_def)

lemma cs_ok_move:
  assumes ok: "cs_ok cs mem L" and same: "same_space cs cs'" "same_blocks cs cs'"
    and lists: "block_lists (cs_blocks cs') (cs_heads cs') L'" "length L' = 7"
    and sub: "\<And>b. b \<in> set (concat L') \<Longrightarrow> b \<in> set (concat L) \<or> block_ok cs mem b"
    and partly: "\<And>b. b \<in> set (L' ! 1) \<Longrightarrow> b \<in> set (L ! 1) \<or> partly_ok cs mem b"
    and paged: "drop 3 L' = drop 3 L"
    and used: "\<And>b. b \<in> set (L' ! 1) \<union> set (L' ! 2) \<Longrightarrow> b \<in> set (L ! 1) \<union> set (L ! 2)
      \<or> \<not> blk_all_zeroes (cs_blocks cs b) (cs_active_region cs)"
  shows "cs_ok cs' mem L'"
proof -
  have "\<forall>b \<in> set (concat (drop 3 L')). blk_allocated (cs_blocks cs' b) = 0"
    using ok same(2) unfolding paged cs_ok_def same_blocks_def by simp
  moreover have "\<forall>b \<in> set (L' ! 1) \<union> set (L' ! 2). \<not> blk_all_zeroes (cs_blocks cs' b) (cs_active_region cs')"
    using ok same(2) used unfolding same_space_facts(5)[OF same(1)] cs_ok_def same_blocks_def by metis
  ultimately show ?thesis
    using ok lists sub partly unfolding cs_ok_def same_blocks_ok[OF same] same_space_facts(5)[OF same(1)] by blast
qed

lemma release_full_ok:
  assumes ok: "cs_ok cs mem L" and a: "alloc_ok cs mem a L" "ca_block a \<noteq> 0"
    and eq: "copy_space_allocator_release_full_block a cs = (a', cs')"
  shows "a' = no_allocation" "cs_ok cs' mem (L[2 := ca_block a # L ! 2])" "same_space cs cs'"
    "occupied cs a L \<subseteq> occupied cs' a' (L[2 := ca_block a # L ! 2])"
    "mset (concat (L[2 := ca_block a # L ! 2])) = add_mset (ca_block a) (mset (concat L))" "same_blocks cs cs'"
proof -
  let ?b = "ca_block a"
  have b: "?b \<notin> set (concat L)" "block_ok cs mem ?b" "\<not> blk_all_zeroes (cs_blocks cs ?b) (cs_active_region cs)"
    using a by (auto simp: alloc_ok_def Let_def)
  have len: "length L = 7" using ok by (simp add: cs_ok_def)
  show a': "a' = no_allocation" using eq by (simp add: copy_space_allocator_release_full_block_def Let_def)
  have cs': "cs' = copy_space_push_full_block
    (let cs1 = cs\<lparr>cs_allocated_bytes := cs_allocated_bytes cs + (COPY_SPACE_REGION_SIZE - blk_allocated (cs_blocks cs ?b))\<rparr>
     in if ca_limit a - ca_hp a \<noteq> 0 then cs1\<lparr>cs_fragmentation := cs_fragmentation cs1 + (ca_limit a - ca_hp a)\<rparr> else cs1) ?b"
    using eq by (simp add: copy_space_allocator_release_full_block_def Let_def)
  show same: "same_space cs cs'" "same_blocks cs cs'"
    unfolding cs' by (simp_all add: copy_space_push_full_block_def copy_space_block_list_push_def Let_def
        same_space_def same_blocks_def)
  have heads: "cs_heads cs' = (cs_heads cs)[2 := ?b]"
    and other: "\<And>c. c \<noteq> ?b \<Longrightarrow> cs_blocks cs' c = cs_blocks cs c"
    and nxt: "blk_next (cs_blocks cs' ?b) = cs_heads cs ! 2"
    unfolding cs' by (simp_all add: copy_space_push_full_block_def copy_space_block_list_push_def Let_def cs_heads_def
        numeral_2_eq_2)
  have "block_lists (cs_blocks cs) (cs_heads cs) L" using ok by (simp add: cs_ok_def)
  note push = block_lists_push[OF this _ b(1) a(2), of 2 "cs_blocks cs'", OF _ other nxt, folded heads]
  show m: "mset (concat (L[2 := ?b # L ! 2])) = add_mset ?b (mset (concat L))"
    using push(2) len by simp
  show "cs_ok cs' mem (L[2 := ?b # L ! 2])"
    by (rule cs_ok_move[OF ok same])
      (use push(1) len b mset_add_facts(1)[OF m] in \<open>auto simp del: set_concat\<close>)
  have "x - cs_region cs ?b < COPY_SPACE_REGION_SIZE" if "x - cs_region cs ?b < ca_hp a - cs_region cs ?b" for x
    using that a by (auto simp: alloc_ok_def Let_def)
  then show "occupied cs a L \<subseteq> occupied cs' a' (L[2 := ?b # L ! 2])"
    using len a(2) same(2) by (auto simp: occupied_def same_space_facts[OF same(1)] a' no_allocation_def same_blocks_def)
qed

lemma acquire_partly_ok:
  assumes ok: "cs_ok cs mem L"
    and eq: "copy_space_allocator_acquire_partly_full_block no_allocation cs = (got, a', cs')"
  shows "same_space cs cs'" "same_blocks cs cs'"
    "got \<longleftrightarrow> L ! 1 \<noteq> []" "\<not> got \<Longrightarrow> a' = no_allocation \<and> cs' = cs"
    "got \<Longrightarrow> cs_ok cs' mem (L[1 := tl (L ! 1)]) \<and> alloc_ok cs' mem a' (L[1 := tl (L ! 1)])
      \<and> ca_block a' = hd (L ! 1) \<and> occupied cs' a' (L[1 := tl (L ! 1)]) = occupied cs no_allocation L
      \<and> mset (concat L) = add_mset (ca_block a') (mset (concat (L[1 := tl (L ! 1)])))"
proof -
  have len: "length L = 7" and bl: "block_lists (cs_blocks cs) (cs_heads cs) L" using ok by (simp_all add: cs_ok_def)
  have head: "cs_partly_full cs = cs_heads cs ! 1" by (simp add: cs_heads_def)
  show same: "same_space cs cs'" "same_blocks cs cs'"
    using eq by (auto simp: copy_space_allocator_acquire_partly_full_block_def copy_space_pop_partly_full_block_def
        copy_space_block_stack_pop_def copy_space_allocator_acquire_block_def Let_def same_space_def same_blocks_def
        split: if_splits)
  show got: "got \<longleftrightarrow> L ! 1 \<noteq> []"
    using block_lists_head(2)[OF bl, of 1] len eq
    by (auto simp: copy_space_allocator_acquire_partly_full_block_def copy_space_pop_partly_full_block_def head
        copy_space_block_stack_pop_def copy_space_allocator_acquire_block_def Let_def split: if_splits)
  show "a' = no_allocation \<and> cs' = cs" if "\<not> got"
    using that eq by (auto simp: copy_space_allocator_acquire_partly_full_block_def copy_space_pop_partly_full_block_def
        copy_space_block_stack_pop_def copy_space_allocator_acquire_block_def Let_def split: if_splits)
  assume got
  then obtain b rest where L1: "L ! 1 = b # rest" using got by (cases "L ! 1") auto
  have b0: "cs_partly_full cs = b" "b \<noteq> 0"
    using block_lists_pop(3,4)[OF bl _ L1, of "cs_blocks cs"] len by (auto simp: head)
  define r where "r = cs_region cs b"
  define n where "n = blk_allocated (cs_blocks cs b)"
  have cs': "cs_blocks cs' = (cs_blocks cs)(b := (cs_blocks cs b)\<lparr>blk_next := 0\<rparr>)"
    "cs_heads cs' = (cs_heads cs)[1 := blk_next (cs_blocks cs b)]"
    and a': "a' = \<lparr> ca_hp = r + n, ca_limit = r + COPY_SPACE_REGION_SIZE, ca_block = b \<rparr>"
    using eq b0 by (auto simp: copy_space_allocator_acquire_partly_full_block_def copy_space_pop_partly_full_block_def
        copy_space_block_stack_pop_def copy_space_allocator_acquire_block_def copy_space_allocator_set_block_def Let_def
        cs_heads_def r_def n_def cs_region_def no_allocation_def)
  note pop = block_lists_pop[OF bl _ L1, of "cs_blocks cs'", folded cs'(2)]
  have m: "mset (concat L) = add_mset b (mset (concat (L[1 := rest])))" using concat_pop[OF _ L1] len by simp
  have sub: "set (concat (L[1 := rest])) \<subseteq> set (concat L)" "b \<in> set (concat L)"
    using mset_add_facts(1)[OF m] by auto
  have okb: "block_ok cs mem b" "partly_ok cs mem b" using ok sub(2) L1 by (auto simp: cs_ok_def)
  have "cs_ok cs' mem (L[1 := rest])"
    by (rule cs_ok_move[OF ok same]) (use pop(1) len cs'(1) sub L1 in \<open>auto simp del: set_concat\<close>)
  moreover have n: "0 < n" "n < COPY_SPACE_REGION_SIZE" "zeroes mem (r + n) (COPY_SPACE_REGION_SIZE - n)"
    using okb(2) by (simp_all add: partly_ok_def n_def r_def Let_def)
  moreover have "b \<notin> set (concat (L[1 := rest]))" using pop(2) len cs'(1) by (simp del: set_concat)
  moreover have "blk_allocated (cs_blocks cs' b) = n" using cs'(1) by (simp add: n_def)
  moreover have "\<not> blk_all_zeroes (cs_blocks cs b) (cs_active_region cs)" using ok L1 by (simp add: cs_ok_def)
  then have "\<not> blk_all_zeroes (cs_blocks cs' b) (cs_active_region cs)" using same(2) by (simp add: same_blocks_def)
  ultimately have "alloc_ok cs' mem a' (L[1 := rest])"
    using b0(2) okb(1) same_blocks_ok(1)[OF same, of mem b]
    by (simp add: alloc_ok_def a' same_space_facts[OF same(1)] r_def[symmetric] Let_def del: set_concat)
  moreover have "occupied cs' a' (L[1 := rest]) = occupied cs no_allocation L"
    using same(2) L1 len b0(2)
    by (auto simp: occupied_def same_space_facts[OF same(1)] same_blocks_def a' no_allocation_def r_def n_def)
  ultimately show "cs_ok cs' mem (L[1 := tl (L ! 1)]) \<and> alloc_ok cs' mem a' (L[1 := tl (L ! 1)])
      \<and> ca_block a' = hd (L ! 1) \<and> occupied cs' a' (L[1 := tl (L ! 1)]) = occupied cs no_allocation L
      \<and> mset (concat L) = add_mset (ca_block a') (mset (concat (L[1 := tl (L ! 1)])))"
    using \<open>cs_ok cs' mem (L[1 := rest])\<close> m L1 a' by simp
qed

end
