(* ===== verification/CopySpaceAllocate.thy ===== *)
theory CopySpaceAllocate
  imports CopySpaceInvariant
begin

text \<open>
  Allocation from a copy space: taking a block off one of the lists, clearing it, and bumping the
  pointer keep the invariant, and a new object is zero, in one region, and overlaps nothing.
\<close>

section \<open>Memory around a block\<close>

lemma range_suffix:
  fixes x :: u64
  assumes "n \<le> m" "x - (a + n) < m - n" "n \<le> x - a"
  shows "x - a < m"
proof -
  have "unat (x - (a + n)) = unat (x - a) - unat n"
    using unat_sub[OF assms(3)] by (simp add: algebra_simps)
  moreover have "unat (m - n) = unat m - unat n" using assms(1) by (rule unat_sub)
  ultimately show ?thesis using assms(2,3) unfolding word_less_nat_alt word_le_nat_alt by linarith
qed

text \<open>A range that ends where a larger one does is part of it.\<close>

lemma range_tail:
  fixes x :: u64
  assumes "n \<le> m" "x - (a + n) < m - n"
  shows "x - a < m"
proof (cases "n \<le> x - a")
  case True
  then show ?thesis by (rule range_suffix[OF assms])
next
  case False
  then have "x - a < n" by (simp add: not_le)
  then show ?thesis using assms(1) by (rule less_le_trans)
qed

text \<open>The bytes that clearing the active region of a block may change.\<close>

definition touches :: "copy_space \<Rightarrow> u64 \<Rightarrow> byte_mem \<Rightarrow> byte_mem \<Rightarrow> bool" where
  "touches cs b mem mem' \<longleftrightarrow> (\<forall>x. mem' x \<noteq> mem x \<longrightarrow>
    x - cs_region cs b < COPY_SPACE_REGION_SIZE \<or> (copy_space_has_field_logging_bits cs \<and> log_byte x))"

lemma touches_refl [simp]: "touches cs b mem mem"
  by (simp add: touches_def)

lemma touches_other:
  assumes "touches cs b mem mem'" "block_addr (log_blocks cs) b" "block_addr (log_blocks cs) c"
    and "cs_active_region cs \<le> 1" "r \<le> 1" "c \<noteq> b \<or> r \<noteq> cs_active_region cs"
    and "x - payload_region (copy_space_block_payload c) r < COPY_SPACE_REGION_SIZE"
  shows "mem' x = mem x"
proof (rule ccontr)
  assume "mem' x \<noteq> mem x"
  then consider "x - cs_region cs b < COPY_SPACE_REGION_SIZE" | "copy_space_has_field_logging_bits cs" "log_byte x"
    using assms(1) unfolding touches_def by blast
  then show False
  proof cases
    case 1
    note b = payload_region_facts[OF assms(2,4), of x, OF 1[unfolded cs_region_def]]
    note c = payload_region_facts[OF assms(3,5,7)]
    show False using b c assms(6) by simp
  next
    case 2
    then show False using region_not_log_byte[OF assms(3) _ assms(5,7)] by (simp add: log_blocks_def)
  qed
qed

lemma zeroes_cong: "(\<And>x. x - a < n \<Longrightarrow> mem' x = mem x) \<Longrightarrow> zeroes mem a n \<Longrightarrow> zeroes mem' a n"
  by (simp add: zeroes_def)

section \<open>Taking a block off a list\<close>

definition taken :: "copy_space \<Rightarrow> copy_space \<Rightarrow> nat \<Rightarrow> u64 \<Rightarrow> bool" where
  "taken cs cs' i b \<longleftrightarrow> same_space cs cs' \<and> (\<forall>c. c \<noteq> b \<longrightarrow> cs_blocks cs' c = cs_blocks cs c)
    \<and> cs_heads cs' = (cs_heads cs)[i := blk_next (cs_blocks cs b)]"

lemma taken_ok:
  assumes ok: "cs_ok cs mem L" and i: "i < 7" "i \<noteq> 1" "i \<noteq> 2" and L: "L ! i = b # rest" and taken: "taken cs cs' i b"
    and zero: "\<And>r. r \<le> 1 \<Longrightarrow> blk_all_zeroes (cs_blocks cs' b) r \<Longrightarrow> r \<noteq> cs_active_region cs \<and> blk_all_zeroes (cs_blocks cs b) r"
    and mem: "touches cs b mem mem'"
  shows "cs_ok cs' mem' (L[i := rest])" "block_ok cs' mem' b" "b \<notin> set (concat (L[i := rest]))" "b \<noteq> 0"
    "mset (concat L) = add_mset b (mset (concat (L[i := rest])))"
proof -
  have len: "length L = 7" and bl: "block_lists (cs_blocks cs) (cs_heads cs) L" and act: "cs_active_region cs \<le> 1"
    and blocks: "\<And>c. c \<in> set (concat L) \<Longrightarrow> block_ok cs mem c" and partly: "\<And>c. c \<in> set (L ! 1) \<Longrightarrow> partly_ok cs mem c"
    and paged: "\<And>c. c \<in> set (concat (drop 3 L)) \<Longrightarrow> blk_allocated (cs_blocks cs c) = 0"
    and used: "\<And>c. c \<in> set (L ! 1) \<union> set (L ! 2) \<Longrightarrow> \<not> blk_all_zeroes (cs_blocks cs c) (cs_active_region cs)"
    using ok unfolding cs_ok_def by blast+
  have same: "same_space cs cs'" and other: "\<And>c. c \<noteq> b \<Longrightarrow> cs_blocks cs' c = cs_blocks cs c"
    and heads: "cs_heads cs' = (cs_heads cs)[i := blk_next (cs_blocks cs b)]"
    using taken by (simp_all add: taken_def)
  note pop = block_lists_pop[OF bl _ L, of "cs_blocks cs'", folded heads]
  show b: "b \<notin> set (concat (L[i := rest]))" "b \<noteq> 0" using pop(2,3) i len other by (simp_all del: set_concat)
  show m: "mset (concat L) = add_mset b (mset (concat (L[i := rest])))" using concat_pop[OF _ L] i len by simp
  have bin: "b \<in> set (concat L)" and sub: "set (concat (L[i := rest])) \<subseteq> set (concat L)"
    using mset_add_facts(1)[OF m] by auto
  have addr: "block_addr (log_blocks cs) c" if "c \<in> set (concat L)" for c using blocks[OF that] by (simp add: block_ok_def)
  have keep: "mem' x = mem x" if "c \<in> set (concat L)" "r \<le> 1" "c \<noteq> b \<or> r \<noteq> cs_active_region cs"
    "x - payload_region (copy_space_block_payload c) r < COPY_SPACE_REGION_SIZE" for c r x
    by (rule touches_other[OF mem addr[OF bin] addr[OF that(1)] act that(2-4)])
  have block: "block_ok cs' mem' c" if c: "c \<in> set (concat L)" for c
    unfolding block_ok_def same_space_facts[OF same]
  proof (intro conjI allI impI)
    show "block_addr (log_blocks cs) c" by (rule addr[OF c])
    fix r :: u8 assume r: "r \<le> 1"
    show "copy_space_contains_address cs (payload_region (copy_space_block_payload c) r) = Inr True"
      using blocks[OF c] r by (simp add: block_ok_def)
    assume z: "blk_all_zeroes (cs_blocks cs' c) r"
    have "blk_all_zeroes (cs_blocks cs c) r" "c \<noteq> b \<or> r \<noteq> cs_active_region cs"
      using z zero[OF r] other[of c] by (cases "c = b"; simp)+
    then show "zeroes mem' (payload_region (copy_space_block_payload c) r) COPY_SPACE_REGION_SIZE"
      using blocks[OF c] r zeroes_cong[of _ _ mem' mem, OF keep[OF c r]] by (simp add: block_ok_def)
  qed
  show "block_ok cs' mem' b" by (rule block[OF bin])
  have ne: "c \<noteq> b" if "c \<in> set (concat (L[i := rest]))" for c using that b by blast
  have "partly_ok cs' mem' c" if c: "c \<in> set (L[i := rest] ! 1)" for c
  proof -
    have cin: "c \<in> set (concat (L[i := rest]))" using c len by (intro nth_in_concat[of 1]) simp_all
    have "c \<in> set (L ! 1)" using c i by simp
    then have p: "partly_ok cs mem c" by (rule partly)
    define n where "n = blk_allocated (cs_blocks cs c)"
    have n: "n < COPY_SPACE_REGION_SIZE" using p by (simp add: partly_ok_def n_def Let_def)
    have "mem' x = mem x" if "x - (cs_region cs c + n) < COPY_SPACE_REGION_SIZE - n" for x
    proof (rule keep[of c "cs_active_region cs"])
      show "c \<in> set (concat L)" using cin sub by blast
      show "cs_active_region cs \<le> 1" by (rule act)
      show "c \<noteq> b \<or> cs_active_region cs \<noteq> cs_active_region cs" using ne[OF cin] by simp
      show "x - payload_region (copy_space_block_payload c) (cs_active_region cs) < COPY_SPACE_REGION_SIZE"
        using range_tail[OF order.strict_implies_order[OF n] that] by (simp add: cs_region_def)
    qed
    then show ?thesis
      using p other[OF ne[OF cin]] zeroes_cong[of _ _ mem' mem]
      by (simp add: partly_ok_def same_space_facts[OF same] Let_def n_def)
  qed
  moreover have "blk_allocated (cs_blocks cs' c) = 0" if c: "c \<in> set (concat (drop 3 (L[i := rest])))" for c
  proof -
    have "set (concat (drop 3 (L[i := rest]))) \<subseteq> set (concat (L[i := rest]))"
      unfolding set_concat using set_drop_subset[of 3 "L[i := rest]"] by blast
    then have "c \<noteq> b" using ne[of c] c by blast
    moreover have "c \<in> set (concat (drop 3 L))"
    proof (cases "i < 3")
      case True then show ?thesis using c by (simp add: drop_update_cancel)
    next
      case False
      have "set rest \<subseteq> set (L ! i)" using L by auto
      moreover have "L ! i \<in> set (drop 3 L)" using False i len nth_mem[of "i - 3" "drop 3 L"] by simp
      ultimately have "set (concat ((drop 3 L)[i - 3 := rest])) \<subseteq> set (concat (drop 3 L))"
        using set_update_subset_insert[of "drop 3 L" "i - 3" rest] unfolding set_concat by blast
      then show ?thesis using c False by (auto simp: drop_update_swap)
    qed
    ultimately show ?thesis using paged[of c] other[of c] by simp
  qed
  moreover have "block_ok cs' mem' c" if "c \<in> set (concat (L[i := rest]))" for c
    using block sub that by blast
  moreover have "block_lists (cs_blocks cs') (cs_heads cs') (L[i := rest])" using pop(1) i len other by simp
  moreover have "\<not> blk_all_zeroes (cs_blocks cs' c) (cs_active_region cs)"
    if "c \<in> set (L[i := rest] ! 1) \<union> set (L[i := rest] ! 2)" for c
    using zero[OF act, of] b(1) that used[of c] other[of c] nth_in_concat[of 1 "L[i := rest]" c] nth_in_concat[of 2 "L[i := rest]" c] i len
    by (cases "c = b"; cases "i = 2") (auto simp del: set_concat)
  ultimately show "cs_ok cs' mem' (L[i := rest])"
    using len act unfolding cs_ok_def same_space_facts[OF same] by simp
qed


lemma page_in_from_ok:
  assumes "block_lists (cs_blocks cs) (cs_heads cs) L" "length L = 7" "set ages \<subseteq> {0..<4}"
    and "page_in_from ages cs = (b, cs')"
  shows "(b = 0 \<longrightarrow> cs' = cs \<and> (\<forall>i \<in> set ages. L ! (3 + i) = []))
    \<and> (b \<noteq> 0 \<longrightarrow> (\<exists>i rest. 3 \<le> i \<and> i < 7 \<and> L ! i = b # rest \<and> taken cs cs' i b
          \<and> cs_blocks cs' b = (cs_blocks cs b)\<lparr>blk_next := 0\<rparr>))"
  using assms(3,4)
proof (induction ages)
  case (Cons age ages)
  have age: "age < 4" using Cons.prems(1) by simp
  have heads: "length (cs_heads cs) = 7" using assms(1,2) by (simp add: block_lists_def)
  have head: "cs_heads cs ! (3 + age) = cs_paged_out cs ! age" by (simp add: cs_heads_def numeral_3_eq_3)
  note h = block_lists_head[OF assms(1), of "3 + age", unfolded head]
  show ?case
  proof (cases "cs_paged_out cs ! age = 0")
    case True
    have "(cs_paged_out cs)[age := 0] = cs_paged_out cs" using True by (metis list_update_id)
    then have "pop_paged_out cs age = (0, cs)" using True
      by (simp add: pop_paged_out_def copy_space_block_stack_pop_def)
    then have "page_in_from ages cs = (b, cs')" using Cons.prems(2) by simp
    then show ?thesis using Cons True h(2) age assms(2) by simp
  next
    case False
    define q where "q = cs_paged_out cs ! age"
    have p: "pop_paged_out cs age = (q, cs\<lparr>cs_blocks := (cs_blocks cs)(q := (cs_blocks cs q)\<lparr>blk_next := 0\<rparr>),
      cs_paged_out := (cs_paged_out cs)[age := blk_next (cs_blocks cs q)]\<rparr>)"
      using False by (simp add: pop_paged_out_def copy_space_block_stack_pop_def q_def)
    have b: "b = q" and cs': "cs' = cs\<lparr>cs_blocks := (cs_blocks cs)(q := (cs_blocks cs q)\<lparr>blk_next := 0\<rparr>),
      cs_paged_out := (cs_paged_out cs)[age := blk_next (cs_blocks cs q)]\<rparr>"
      using Cons.prems(2) False unfolding page_in_from.simps p by (auto simp: q_def)
    have "L ! (3 + age) = b # tl (L ! (3 + age))" using h age assms(2) False unfolding b q_def by (cases "L ! (3 + age)") auto
    moreover have "taken cs cs' (3 + age) b"
      unfolding cs' taken_def b by (simp add: same_space_def cs_heads_def numeral_3_eq_3)
    moreover have "cs_blocks cs' b = (cs_blocks cs b)\<lparr>blk_next := 0\<rparr>" unfolding cs' b by simp
    moreover have "b \<noteq> 0" using False b q_def by simp
    ultimately show ?thesis using age by (intro conjI impI exI[of _ "3 + age"] exI[of _ "tl (L ! (3 + age))"]) simp_all
  qed
qed simp

lemma pop_empty_ok:
  assumes "block_lists (cs_blocks cs) (cs_heads cs) L" "length L = 7"
    and "copy_space_pop_empty_block cs = (b, cs')"
  shows "(b = 0 \<longrightarrow> cs' = cs \<and> L ! 0 = [])
    \<and> (b \<noteq> 0 \<longrightarrow> (\<exists>rest. L ! 0 = b # rest \<and> taken cs cs' 0 b
          \<and> blk_all_zeroes (cs_blocks cs' b) = blk_all_zeroes (cs_blocks cs b) \<and> blk_allocated (cs_blocks cs' b) = 0))"
proof -
  have head: "cs_heads cs ! 0 = cs_empty cs" by (simp add: cs_heads_def)
  note h = block_lists_head[OF assms(1), of 0, unfolded head]
  show ?thesis
  proof (cases "cs_empty cs = 0")
    case True
    then show ?thesis using assms(2,3) h by (auto simp: copy_space_pop_empty_block_def copy_space_block_stack_pop_def)
  next
    case False
    define q where "q = cs_empty cs"
    have q: "q \<noteq> 0" "L ! 0 = q # tl (L ! 0)" using False h assms(2) by (cases "L ! 0"; simp add: q_def)+
    have b: "b = q"
      and cs': "cs' = cs\<lparr>cs_blocks := (cs_blocks cs)(q := (cs_blocks cs q)\<lparr>blk_next := 0, blk_allocated := 0,
        blk_is_survivor := (blk_is_survivor (cs_blocks cs q))(cs_active_region cs := False)\<rparr>),
        cs_empty := blk_next (cs_blocks cs q)\<rparr>"
      using assms(3) q(1) by (auto simp: copy_space_pop_empty_block_def copy_space_block_stack_pop_def q_def)
    have "taken cs cs' 0 b" unfolding cs' b taken_def by (simp add: same_space_def cs_heads_def)
    moreover have "blk_all_zeroes (cs_blocks cs' b) = blk_all_zeroes (cs_blocks cs b)" "blk_allocated (cs_blocks cs' b) = 0"
      unfolding cs' b by simp_all
    moreover have "L ! 0 = b # tl (L ! 0)" using q(2) b by simp
    ultimately show ?thesis using q(1) unfolding b by blast
  qed
qed


text \<open>Where a region lies: at a multiple of its size, well below the end of the address space.\<close>

lemma region_position:
  assumes "block_addr lo b" "r \<le> 1"
  obtains p where "unat (payload_region (copy_space_block_payload b) r) = 2 ^ 16 * p" "2 ^ 16 * p + 2 ^ 16 + 2 ^ 26 \<le> 2 ^ 64"
proof -
  obtain s k where b: "s < 2 ^ 38 - 1" "s < 2 ^ 38" "1 \<le> k" "k < 512" "b = block_at s k" by (rule block_addrE[OF assms(1)])
  define q where "q = unat r"
  have q: "q \<le> 1" using assms(2) by (simp add: q_def word_le_nat_alt)
  have r: "(ucast r :: u64) = of_nat q" by (simp add: q_def)
  define m where "m = 2 ^ 17 * k + 2 ^ 16 * q"
  have m: "m < 2 ^ 26" "m + 2 ^ 16 \<le> 2 ^ 26" using b(4) q by (simp_all add: m_def)
  have "payload_region (copy_space_block_payload b) r = of_nat (2 ^ 26 * s + m)"
    unfolding b(5) payload_region_def block_layout(1)[OF b(2-4)] r
    by (simp add: m_def COPY_SPACE_REGION_SIZE_def algebra_simps)
  then have "unat (payload_region (copy_space_block_payload b) r) = 2 ^ 26 * s + m"
    using unat_slab_offset[OF b(2) m(1)] by simp
  moreover have "2 ^ 26 * s + m = 2 ^ 16 * (2 ^ 10 * s + 2 * k + q)" by (simp add: m_def)
  moreover have "2 ^ 26 * s + m + 2 ^ 16 + 2 ^ 26 \<le> 2 ^ 64" using b(1) m(2) by simp
  ultimately show thesis using that by metis
qed

lemma region_aligned:
  assumes "block_addr lo b" "r \<le> 1"
  shows "align_down (payload_region (copy_space_block_payload b) r) COPY_SPACE_REGION_SIZE
    = payload_region (copy_space_block_payload b) r"
proof -
  obtain p where p: "unat (payload_region (copy_space_block_payload b) r) = 2 ^ 16 * p" by (rule region_position[OF assms])
  have "(COPY_SPACE_REGION_SIZE :: u64) = 2 ^ 16" by (simp add: copy_space_constants)
  then have "unat (align_down (payload_region (copy_space_block_payload b) r) COPY_SPACE_REGION_SIZE)
    = unat (payload_region (copy_space_block_payload b) r)"
    using unat_align_down[of 16 "payload_region (copy_space_block_payload b) r"] unfolding p by simp
  then show ?thesis by (rule unsigned_word_eqI)
qed

definition obtain_empty :: "copy_space \<Rightarrow> (u64 \<times> copy_space) result" where
  "obtain_empty cs =
    (let (block, cs) = copy_space_pop_empty_block cs
     in if block = 0 \<and> cs_in_gc cs then copy_space_obtain_empty_block_during_gc cs else Inr (block, cs))"

lemma obtain_empty_ok:
  assumes ok: "cs_ok cs mem L"
  obtains b cs1 where "obtain_empty cs = Inr (b, cs1)"
    "b = 0 \<longrightarrow> cs1 = cs \<and> L ! 0 = [] \<and> (cs_in_gc cs \<longrightarrow> (\<forall>i < 4. L ! (3 + i) = []))"
    "b \<noteq> 0 \<longrightarrow> (\<exists>i rest. i < 7 \<and> i \<noteq> 1 \<and> i \<noteq> 2 \<and> L ! i = b # rest \<and> taken cs cs1 i b
      \<and> blk_all_zeroes (cs_blocks cs1 b) = blk_all_zeroes (cs_blocks cs b) \<and> blk_allocated (cs_blocks cs1 b) = 0)"
proof -
  have len: "length L = 7" and bl: "block_lists (cs_blocks cs) (cs_heads cs) L"
    and paged: "\<And>c. c \<in> set (concat (drop 3 L)) \<Longrightarrow> blk_allocated (cs_blocks cs c) = 0"
    using ok unfolding cs_ok_def by blast+
  obtain q cs1 where pop: "copy_space_pop_empty_block cs = (q, cs1)" by (rule prod.exhaust)
  note P = pop_empty_ok[OF bl len pop]
  consider "q \<noteq> 0" | "q = 0" "\<not> cs_in_gc cs" | "q = 0" "cs_in_gc cs" by blast
  then show thesis
  proof cases
    case 1
    then obtain rest where "L ! 0 = q # rest" using P by blast
    then have "\<exists>i rest. i < 7 \<and> i \<noteq> 1 \<and> i \<noteq> 2 \<and> L ! i = q # rest \<and> taken cs cs1 i q
      \<and> blk_all_zeroes (cs_blocks cs1 q) = blk_all_zeroes (cs_blocks cs q) \<and> blk_allocated (cs_blocks cs1 q) = 0"
      using P 1 by (intro exI[of _ 0] exI[of _ rest]) simp
    then show thesis using 1 by (intro that[of q cs1]) (simp_all add: obtain_empty_def pop)
  next
    case 2
    then show thesis by (intro that[of q cs1]) (use P in \<open>auto simp: obtain_empty_def pop\<close>)
  next
    case 3
    have cs1: "cs1 = cs" "L ! 0 = []" using P 3 by auto
    obtain b cs2 where pg: "copy_space_page_in_block cs = (b, cs2)" by (rule prod.exhaust)
    define cs3 where "cs3 = (if b \<noteq> 0 then cs2\<lparr>cs_bytes_to_page_out := cs_bytes_to_page_out cs2 + uint COPY_SPACE_BLOCK_SIZE\<rparr> else cs2)"
    have e: "obtain_empty cs = Inr (b, cs3)"
      using 3 pop pg unfolding cs1(1)
      by (simp add: obtain_empty_def copy_space_obtain_empty_block_during_gc_def cs3_def)
    have "set [0..<COPY_SPACE_PAGE_OUT_QUEUE_SIZE] = {0..<4}" by (simp add: COPY_SPACE_PAGE_OUT_QUEUE_SIZE_def)
    note Q = page_in_from_ok[OF bl len _ pg[unfolded copy_space_page_in_block_def], unfolded this]
    show thesis
    proof (rule that[OF e])
      show "b = 0 \<longrightarrow> cs3 = cs \<and> L ! 0 = [] \<and> (cs_in_gc cs \<longrightarrow> (\<forall>i < 4. L ! (3 + i) = []))"
        using Q cs1 by (simp add: cs3_def)
      show "b \<noteq> 0 \<longrightarrow> (\<exists>i rest. i < 7 \<and> i \<noteq> 1 \<and> i \<noteq> 2 \<and> L ! i = b # rest \<and> taken cs cs3 i b
        \<and> blk_all_zeroes (cs_blocks cs3 b) = blk_all_zeroes (cs_blocks cs b) \<and> blk_allocated (cs_blocks cs3 b) = 0)"
      proof
      assume b: "b \<noteq> 0"
      then obtain i rest where i: "3 \<le> i" "i < 7" "L ! i = b # rest" "taken cs cs2 i b"
        "cs_blocks cs2 b = (cs_blocks cs b)\<lparr>blk_next := 0\<rparr>" using Q by auto
      have "taken cs cs3 i b" using i(4) b unfolding cs3_def by (simp add: taken_def same_space_def cs_heads_def)
      moreover have "cs_blocks cs3 b = (cs_blocks cs b)\<lparr>blk_next := 0\<rparr>" using i(5) b by (simp add: cs3_def)
      moreover have "L ! i \<in> set (drop 3 L)" using i len nth_mem[of "i - 3" "drop 3 L"] by simp
      then have "b \<in> set (concat (drop 3 L))" using i(3) unfolding set_concat by (metis UN_I list.set_intros(1))
      ultimately show "\<exists>i rest. i < 7 \<and> i \<noteq> 1 \<and> i \<noteq> 2 \<and> L ! i = b # rest \<and> taken cs cs3 i b
        \<and> blk_all_zeroes (cs_blocks cs3 b) = blk_all_zeroes (cs_blocks cs b) \<and> blk_allocated (cs_blocks cs3 b) = 0"
        using i(1-3) paged by (intro exI[of _ i] exI[of _ rest]) simp
      qed
    qed
  qed
qed


text \<open>What the caller of \<open>copy_space_allocator_acquire_empty_block\<close> finds.\<close>

lemma acquire_empty_eq:
  "copy_space_allocator_acquire_empty_block (no_allocation, cs, mem) =
    result_bind (obtain_empty cs) (\<lambda>(block, cs).
      if block = 0 then Inr (False, no_allocation, cs, mem)
      else
        (let r = cs_active_region cs; hp = payload_region (copy_space_block_payload block) r;
             a = \<lparr> ca_hp = hp, ca_limit = hp + COPY_SPACE_REGION_SIZE, ca_block = block \<rparr>;
             bs = (cs_blocks cs)(block := (cs_blocks cs block)\<lparr>blk_in_core := True\<rparr>)
         in if blk_all_zeroes (cs_blocks cs block) r then
              Inr (True, a, cs\<lparr>cs_blocks := bs(block := (bs block)\<lparr>
                blk_all_zeroes := (blk_all_zeroes (bs block))(r := False)\<rparr>)\<rparr>, mem)
            else
              result_bind (copy_space_clear_field_logged_bits_for_region (cs\<lparr>cs_blocks := bs\<rparr>) hp
                  (mem_set mem hp 0 COPY_SPACE_REGION_SIZE))
                (\<lambda>mem. Inr (True, a, cs\<lparr>cs_blocks := bs\<rparr>, mem))))"
proof -
  obtain q cs1 where pop: "copy_space_pop_empty_block cs = (q, cs1)" by (rule prod.exhaust)
  show ?thesis
    unfolding copy_space_allocator_acquire_empty_block_def obtain_empty_def pop Let_def prod.case
    by (rule arg_cong[of _ _ "result_bind _"])
      (auto simp: fun_eq_iff copy_space_allocator_acquire_block_def copy_space_allocator_set_block_def no_allocation_def
        Let_def intro!: ext)
qed

text \<open>Clearing the active region of a block and its logged bits.\<close>

lemma clear_region_ok:
  assumes b: "block_ok cs mem b" and act: "cs_active_region cs \<le> 1" and same: "same_space cs cs'"
  obtains mem' where "copy_space_clear_field_logged_bits_for_region cs' (cs_region cs b)
      (mem_set mem (cs_region cs b) 0 COPY_SPACE_REGION_SIZE) = Inr mem'"
    "touches cs b mem mem'" "zeroes mem' (cs_region cs b) COPY_SPACE_REGION_SIZE"
proof -
  let ?r = "cs_region cs b" and ?n = "COPY_SPACE_REGION_SIZE div 8 div 8"
  have addr: "block_addr (log_blocks cs) b" using b by (simp add: block_ok_def)
  have al: "align_down ?r COPY_SPACE_REGION_SIZE = ?r" unfolding cs_region_def by (rule region_aligned[OF addr act])
  have con: "copy_space_contains_address cs' ?r = Inr True"
    unfolding same_space_facts(3)[OF same] using b act by (simp add: block_ok_def cs_region_def)
  define m1 where "m1 = mem_set mem ?r 0 COPY_SPACE_REGION_SIZE"
  define mem' where "mem' = (if copy_space_has_field_logging_bits cs then mem_set m1 (copy_space_field_logged_byte ?r) 0 ?n else m1)"
  have "copy_space_clear_field_logged_bits_for_region cs' ?r m1 = Inr mem'"
    by (simp add: copy_space_clear_field_logged_bits_for_region_def al con assert_result_def mem'_def
        same_space_facts(4)[OF same])
  moreover have "touches cs b mem mem'"
    unfolding touches_def
  proof (intro allI impI)
    fix x assume d: "mem' x \<noteq> mem x"
    show "x - cs_region cs b < COPY_SPACE_REGION_SIZE \<or> (copy_space_has_field_logging_bits cs \<and> log_byte x)"
    proof (cases "m1 x = mem x")
      case True
      then have "copy_space_has_field_logging_bits cs" "x - copy_space_field_logged_byte ?r < ?n"
        using d by (auto simp: mem'_def mem_set_def[of m1] split: if_splits)
      then show ?thesis using logged_bytes_of_region[OF addr act, folded cs_region_def] by blast
    next
      case False
      then show ?thesis by (auto simp: m1_def mem_set_def split: if_splits)
    qed
  qed
  moreover have "zeroes mem' ?r COPY_SPACE_REGION_SIZE"
    by (simp add: zeroes_def mem'_def m1_def mem_set_def)
  ultimately show thesis using that by (simp add: m1_def)
qed


lemma held_simps [simp]: "held no_allocation = []" "ca_block a \<noteq> 0 \<Longrightarrow> held a = [ca_block a]"
  by (simp_all add: held_def no_allocation_def)

text \<open>Nothing that is allocated changes.\<close>

lemma occupied_kept:
  assumes ok: "cs_ok cs mem L" and t: "touches cs b mem mem'" and addr: "block_addr (log_blocks cs) b"
    and b: "b \<notin> set (L ! 1)" "b \<notin> set (L ! 2)" and x: "x \<in> occupied cs no_allocation L"
  shows "mem' x = mem x"
proof -
  have len: "length L = 7" and act: "cs_active_region cs \<le> 1"
    and blocks: "\<And>c. c \<in> set (concat L) \<Longrightarrow> block_ok cs mem c" and partly: "\<And>c. c \<in> set (L ! 1) \<Longrightarrow> partly_ok cs mem c"
    using ok unfolding cs_ok_def by blast+
  obtain c where c: "c \<in> set (L ! 1) \<or> c \<in> set (L ! 2)" "x - cs_region cs c < COPY_SPACE_REGION_SIZE"
  proof -
    consider c where "c \<in> set (L ! 2)" "x - cs_region cs c < COPY_SPACE_REGION_SIZE"
      | c where "c \<in> set (L ! 1)" "x - cs_region cs c < blk_allocated (cs_blocks cs c)"
      using x by (auto simp: occupied_def no_allocation_def)
    then show thesis
    proof cases
      case 2
      then show thesis using that[of c] partly[OF 2(1)] by (auto simp: partly_ok_def Let_def)
    qed (use that in blast)
  qed
  have cin: "c \<in> set (concat L)" using c(1) nth_in_concat[of 1 L] nth_in_concat[of 2 L] len by auto
  have "block_addr (log_blocks cs) c" using blocks[OF cin] by (simp add: block_ok_def)
  then show ?thesis
    by (rule touches_other[OF t addr _ act act]) (use c b in \<open>auto simp: cs_region_def\<close>)
qed

lemma acquire_empty_ok:
  assumes ok: "cs_ok cs mem L"
  obtains got a' cs' mem' L' where
    "copy_space_allocator_acquire_empty_block (no_allocation, cs, mem) = Inr (got, a', cs', mem')"
    "same_space cs cs'" "cs_ok cs' mem' L'" "alloc_ok cs' mem' a' L'"
    "mset (concat L) = mset (held a' @ concat L')"
    "occupied cs' a' L' = occupied cs no_allocation L" "\<forall>x \<in> occupied cs no_allocation L. mem' x = mem x"
    "mem' = mem \<or> (\<exists>b \<in> set (concat L). touches cs b mem mem')"
    "got \<longrightarrow> ca_block a' \<noteq> 0 \<and> ca_hp a' = cs_region cs (ca_block a')"
    "\<not> got \<longrightarrow> a' = no_allocation \<and> L' = L \<and> L ! 0 = [] \<and> (cs_in_gc cs \<longrightarrow> (\<forall>i < 4. L ! (3 + i) = []))"
proof -
  obtain b cs1 where ob: "obtain_empty cs = Inr (b, cs1)"
    "b = 0 \<longrightarrow> cs1 = cs \<and> L ! 0 = [] \<and> (cs_in_gc cs \<longrightarrow> (\<forall>i < 4. L ! (3 + i) = []))"
    "b \<noteq> 0 \<longrightarrow> (\<exists>i rest. i < 7 \<and> i \<noteq> 1 \<and> i \<noteq> 2 \<and> L ! i = b # rest \<and> taken cs cs1 i b
      \<and> blk_all_zeroes (cs_blocks cs1 b) = blk_all_zeroes (cs_blocks cs b) \<and> blk_allocated (cs_blocks cs1 b) = 0)"
    by (rule obtain_empty_ok[OF ok])
  show thesis
  proof (cases "b = 0")
    case True
    then have "copy_space_allocator_acquire_empty_block (no_allocation, cs, mem) = Inr (False, no_allocation, cs, mem)"
      using ob by (simp add: acquire_empty_eq)
    then show thesis
      by (rule that) (use ok True ob(2) in \<open>simp_all add: alloc_ok_def, simp_all add: no_allocation_def\<close>)
  next
    case False
    then obtain i rest where i: "i < 7" "i \<noteq> 1" "i \<noteq> 2" "L ! i = b # rest" and t1: "taken cs cs1 i b"
      and z1: "blk_all_zeroes (cs_blocks cs1 b) = blk_all_zeroes (cs_blocks cs b)" "blk_allocated (cs_blocks cs1 b) = 0"
      using ob(3) by blast
    have len: "length L = 7" and act: "cs_active_region cs \<le> 1" and dist: "distinct (concat L)"
      and blocks: "\<And>c. c \<in> set (concat L) \<Longrightarrow> block_ok cs mem c"
      using ok unfolding cs_ok_def block_lists_def by blast+
    have bin: "b \<in> set (concat L)" using i len by (intro nth_in_concat[of i]) simp_all
    note okb = blocks[OF bin]
    have addr: "block_addr (log_blocks cs) b" using okb by (simp add: block_ok_def)
    have same1: "same_space cs cs1" using t1 by (simp add: taken_def)
    note s1 = same_space_facts[OF same1]
    define r a' where "r = cs_active_region cs" and
      "a' = \<lparr> ca_hp = cs_region cs b, ca_limit = cs_region cs b + COPY_SPACE_REGION_SIZE, ca_block = b \<rparr>"
    define bs where "bs = (cs_blocks cs1)(b := (cs_blocks cs1 b)\<lparr>blk_in_core := True\<rparr>)"
    obtain cs' mem' where res: "copy_space_allocator_acquire_empty_block (no_allocation, cs, mem) = Inr (True, a', cs', mem')"
      and t': "taken cs cs' i b" "blk_allocated (cs_blocks cs' b) = 0"
      "\<And>r. blk_all_zeroes (cs_blocks cs' b) r \<Longrightarrow> r \<noteq> cs_active_region cs \<and> blk_all_zeroes (cs_blocks cs b) r"
      and mem': "touches cs b mem mem'" "zeroes mem' (cs_region cs b) COPY_SPACE_REGION_SIZE"
    proof (cases "blk_all_zeroes (cs_blocks cs b) r")
      case True
      define cs' where "cs' = cs1\<lparr>cs_blocks := bs(b := (bs b)\<lparr>blk_all_zeroes := (blk_all_zeroes (bs b))(r := False)\<rparr>)\<rparr>"
      have "zeroes mem (cs_region cs b) COPY_SPACE_REGION_SIZE"
        using okb True act by (simp add: block_ok_def cs_region_def r_def)
      moreover have "copy_space_allocator_acquire_empty_block (no_allocation, cs, mem) = Inr (True, a', cs', mem)"
        using False True z1(1) by (simp add: acquire_empty_eq ob(1) Let_def s1(5) a'_def cs'_def bs_def r_def cs_region_def)
      moreover have "taken cs cs' i b" "blk_allocated (cs_blocks cs' b) = 0"
        using t1 z1(2) by (simp_all add: cs'_def bs_def taken_def same_space_def cs_heads_def)
      moreover have "q \<noteq> cs_active_region cs \<and> blk_all_zeroes (cs_blocks cs b) q" if "blk_all_zeroes (cs_blocks cs' b) q" for q
        using that z1(1) by (auto simp: cs'_def bs_def r_def split: if_splits)
      ultimately show thesis using that[of cs' mem] by simp
    next
      case F: False
      define cs' where "cs' = cs1\<lparr>cs_blocks := bs\<rparr>"
      have "same_space cs cs'" using same1 by (simp add: cs'_def same_space_def)
      then obtain mem' where m: "copy_space_clear_field_logged_bits_for_region cs' (cs_region cs b)
          (mem_set mem (cs_region cs b) 0 COPY_SPACE_REGION_SIZE) = Inr mem'"
        "touches cs b mem mem'" "zeroes mem' (cs_region cs b) COPY_SPACE_REGION_SIZE"
        by (rule clear_region_ok[OF okb act])
      have "copy_space_allocator_acquire_empty_block (no_allocation, cs, mem) = Inr (True, a', cs', mem')"
        using False F z1(1) m(1) by (simp add: acquire_empty_eq ob(1) Let_def s1(5) a'_def cs'_def bs_def r_def cs_region_def)
      moreover have "taken cs cs' i b" "blk_allocated (cs_blocks cs' b) = 0"
        using t1 z1(2) by (simp_all add: cs'_def bs_def taken_def same_space_def cs_heads_def)
      moreover have "q \<noteq> cs_active_region cs \<and> blk_all_zeroes (cs_blocks cs b) q" if "blk_all_zeroes (cs_blocks cs' b) q" for q
        using that z1(1) F by (auto simp: cs'_def bs_def r_def)
      ultimately show thesis using that[of cs' mem'] m(2,3) by blast
    qed
    have T: "cs_ok cs' mem' (L[i := rest])" "block_ok cs' mem' b" "b \<notin> set (concat (L[i := rest]))" "b \<noteq> 0"
      "mset (concat L) = add_mset b (mset (concat (L[i := rest])))"
      by (rule taken_ok[OF ok i t'(1) _ mem'(1)], use t'(3) in blast)+
    have same': "same_space cs cs'" and other: "\<And>c. c \<noteq> b \<Longrightarrow> cs_blocks cs' c = cs_blocks cs c"
      using t'(1) by (simp_all add: taken_def)
    note s' = same_space_facts[OF same']
    have nb: "b \<notin> set (L ! 1)" "b \<notin> set (L ! 2)"
      using T(3) nth_in_concat[of 1 "L[i := rest]" b] nth_in_concat[of 2 "L[i := rest]" b] i len by auto
    show thesis
    proof (rule that[OF res same' T(1)])
      show "alloc_ok cs' mem' a' (L[i := rest])"
        using T mem'(2) t'(2) t'(3)[of "cs_active_region cs"] by (auto simp add: alloc_ok_def s'(5) a'_def s'(1) COPY_SPACE_REGION_SIZE_def del: set_concat)
      show "mset (concat L) = mset (held a' @ concat (L[i := rest]))" using T(4,5) by (simp add: a'_def)
      have "blk_allocated (cs_blocks cs' c) = blk_allocated (cs_blocks cs c)" if "c \<in> set (L ! 1)" for c
        using other[of c] that nb by (cases "c = b") auto
      then show "occupied cs' a' (L[i := rest]) = occupied cs no_allocation L"
        using i(2,3) T(4) by (auto simp: occupied_def s'(1) a'_def no_allocation_def)
      show "\<forall>x \<in> occupied cs no_allocation L. mem' x = mem x"
        using occupied_kept[OF ok mem'(1) addr nb] by blast
      show "mem' = mem \<or> (\<exists>b \<in> set (concat L). touches cs b mem mem')" using bin mem'(1) by blast
    qed (simp_all add: a'_def T(4))
  qed
qed


section \<open>Bumping the pointer\<close>

lemma range_split:
  fixes y n m :: u64
  assumes "unat n + unat m < 2 ^ 63"
  shows "y < n + m \<longleftrightarrow> y < n \<or> y - n < m" "y < n \<Longrightarrow> \<not> y - n < m"
proof -
  have s: "unat (n + m) = unat n + unat m" using assms by (simp add: unat_plus_if')
  have d: "unat (y - n) = (if n \<le> y then unat y - unat n else unat y + 2 ^ 64 - unat n)"
    by (simp add: unat_sub_if' word_le_nat_alt)
  have "unat y < 2 ^ 64" using unsigned_less[of y] by simp
  then show "y < n + m \<longleftrightarrow> y < n \<or> y - n < m" "y < n \<Longrightarrow> \<not> y - n < m"
    using assms unfolding word_less_nat_alt s d word_le_nat_alt by auto
qed

lemma align_up_bounds:
  assumes "unat sz \<le> 8192" "g \<le> 12"
  shows "unat sz \<le> unat (align_up sz (2 ^ g))" "unat (align_up sz (2 ^ g)) < unat sz + 2 ^ g"
proof -
  have "(2::nat) ^ g \<le> 2 ^ 12" using assms(2) by (intro power_increasing) auto
  then have g: "(2::nat) ^ g \<le> 4096" "(0::nat) < 2 ^ g" by simp_all
  have u: "unat (2 ^ g :: u64) = 2 ^ g" using assms(2) by (simp add: unat_exp)
  have "unat (sz + 2 ^ g - 1) = unat sz + 2 ^ g - 1"
  proof -
    have a: "unat (sz + 2 ^ g) = unat sz + 2 ^ g" using assms(1) g by (simp add: unat_plus_if' u)
    have "(1 :: u64) \<le> sz + 2 ^ g" unfolding word_le_nat_alt a using g(2) by (simp add: Suc_le_eq)
    then show ?thesis by (simp add: unat_sub a)
  qed
  then have "unat (align_up sz (2 ^ g)) = (unat sz + 2 ^ g - 1) - (unat sz + 2 ^ g - 1) mod 2 ^ g"
    using unat_align_down[of g "sz + 2 ^ g - 1"] assms(2) by (simp add: align_up_def)
  moreover have "(unat sz + 2 ^ g - 1) mod 2 ^ g < 2 ^ g" by simp
  ultimately show "unat sz \<le> unat (align_up sz (2 ^ g))" "unat (align_up sz (2 ^ g)) < unat sz + 2 ^ g"
    using g(2) by linarith+
qed

lemma bump_ok:
  assumes a: "alloc_ok cs mem a L" "ca_block a \<noteq> 0" and act: "cs_active_region cs \<le> 1"
    and blocks: "\<forall>c \<in> set (concat L). block_ok cs mem c" "length L = 7" "\<forall>c \<in> set (L ! 1). partly_ok cs mem c"
    and sz: "0 < sz" "unat sz \<le> 2 ^ 20" and fits: "ca_hp a + sz \<le> ca_limit a"
  defines "a' \<equiv> a\<lparr>ca_hp := ca_hp a + sz\<rparr>"
  shows "alloc_ok cs mem a' L" "zeroes mem (ca_hp a) sz" "ca_hp a \<noteq> 0"
    "occupied cs a' L = occupied cs a L \<union> {x. x - ca_hp a < sz}"
    "occupied cs a L \<inter> {x. x - ca_hp a < sz} = {}"
    "{x. x - ca_hp a < sz} \<subseteq> {x. x - cs_region cs (ca_block a) < COPY_SPACE_REGION_SIZE}"
proof -
  define b r n where "b = ca_block a" and "r = cs_region cs b" and "n = ca_hp a - r"
  have A: "b \<notin> set (concat L)" "block_ok cs mem b" "blk_allocated (cs_blocks cs b) \<le> n" "n \<le> COPY_SPACE_REGION_SIZE"
    "ca_limit a = r + COPY_SPACE_REGION_SIZE" "zeroes mem (ca_hp a) (ca_limit a - ca_hp a)"
    "\<not> blk_all_zeroes (cs_blocks cs b) (cs_active_region cs)"
    using a(1) unfolding alloc_ok_def b_def r_def n_def Let_def if_not_P[OF a(2)] by blast+
  have hp: "ca_hp a = r + n" by (simp add: n_def)
  have addr: "block_addr (log_blocks cs) b" using A(2) by (simp add: block_ok_def)
  obtain p where p: "unat r = 2 ^ 16 * p" "2 ^ 16 * p + 2 ^ 16 + 2 ^ 26 \<le> 2 ^ 64"
    using region_position[OF addr act] unfolding r_def cs_region_def by metis
  have n: "unat n \<le> 65536" using A(4) by (simp add: word_le_nat_alt COPY_SPACE_REGION_SIZE_def)
  have hps: "unat (r + n + sz) = unat r + unat n + unat sz" and lim: "unat (r + COPY_SPACE_REGION_SIZE) = unat r + 65536"
    using p n sz(2) by (simp_all add: unat_plus_if' COPY_SPACE_REGION_SIZE_def)
  have ns: "unat n + unat sz \<le> 65536" using fits unfolding A(5) hp word_le_nat_alt hps lim by simp
  have nsz: "unat (n + sz) = unat n + unat sz" using ns by (simp add: unat_plus_if')
  note sp = range_split[of n sz, OF order.strict_trans1[OF ns]]
  have in_b: "x - r < COPY_SPACE_REGION_SIZE" if "x - ca_hp a < sz" for x
  proof -
    have "x - r < n + sz" using sp(1)[of "x - r"] that by (simp add: hp algebra_simps)
    moreover have "n + sz \<le> COPY_SPACE_REGION_SIZE"
      unfolding word_le_nat_alt nsz using ns by (simp add: COPY_SPACE_REGION_SIZE_def)
    ultimately show ?thesis by (rule less_le_trans)
  qed
  show "{x. x - ca_hp a < sz} \<subseteq> {x. x - cs_region cs (ca_block a) < COPY_SPACE_REGION_SIZE}"
    using in_b by (auto simp: r_def b_def)
  have rest: "ca_limit a - ca_hp a = COPY_SPACE_REGION_SIZE - n" by (simp add: A(5) hp)
  have "unat (COPY_SPACE_REGION_SIZE - n) = 65536 - unat n" using unat_sub[OF A(4)] by (simp add: COPY_SPACE_REGION_SIZE_def)
  then have "sz \<le> ca_limit a - ca_hp a" unfolding rest word_le_nat_alt using ns by simp
  then show "zeroes mem (ca_hp a) sz" using A(6) unfolding zeroes_def by (meson less_le_trans)
  show "ca_hp a \<noteq> 0"
  proof
    assume "ca_hp a = 0"
    moreover have "unat (r + n) = unat r + unat n" using p n by (simp add: unat_plus_if')
    ultimately have "unat r = 0" using hp by simp
    moreover have "r \<noteq> 0" using payload_region_facts(3)[OF addr act, of r] by (simp add: r_def cs_region_def COPY_SPACE_REGION_SIZE_def)
    ultimately show False by (simp add: unat_eq_0)
  qed
  show "alloc_ok cs mem a' L"
  proof -
    have "zeroes mem (r + (n + sz)) (COPY_SPACE_REGION_SIZE - (n + sz))"
      unfolding zeroes_def
    proof (intro allI impI)
      fix x assume x: "x - (r + (n + sz)) < COPY_SPACE_REGION_SIZE - (n + sz)"
      have le: "sz \<le> COPY_SPACE_REGION_SIZE - n" using \<open>sz \<le> ca_limit a - ca_hp a\<close> rest by simp
      have "x - (r + n) < COPY_SPACE_REGION_SIZE - n"
        by (rule range_tail[OF le]) (use x in \<open>simp add: algebra_simps\<close>)
      then show "mem x = 0" using A(6)[unfolded zeroes_def] unfolding rest by (simp add: hp)
    qed
    moreover have "n \<le> n + sz" "n + sz \<le> COPY_SPACE_REGION_SIZE"
      unfolding word_le_nat_alt nsz using ns by (simp_all add: COPY_SPACE_REGION_SIZE_def)
    ultimately show ?thesis
      using a(2) A(1,2,3,7) unfolding alloc_ok_def a'_def b_def[symmetric] Let_def
      by (simp add: hp A(5) r_def[symmetric] b_def[symmetric] algebra_simps del: set_concat)
  qed
  show "occupied cs a' L = occupied cs a L \<union> {x. x - ca_hp a < sz}"
  proof -
    have "x - r < n + sz \<longleftrightarrow> x - r < n \<or> x - (r + n) < sz" for x using sp(1)[of "x - r"] by (simp add: algebra_simps)
    then have "{x. x - r < ca_hp a' - r} = {x. x - r < n} \<union> {x. x - ca_hp a < sz}"
      by (auto simp: a'_def hp)
    then show ?thesis
      using a(2) by (auto simp: occupied_def a'_def b_def[symmetric] r_def[symmetric] n_def[symmetric])
  qed
  show "occupied cs a L \<inter> {x. x - ca_hp a < sz} = {}"
  proof (rule equals0I)
    fix x assume x: "x \<in> occupied cs a L \<inter> {x. x - ca_hp a < sz}"
    then have xr: "x - r < COPY_SPACE_REGION_SIZE" using in_b by simp
    have other: False if c: "c \<in> set (L ! 1) \<union> set (L ! 2)" "x - cs_region cs c < COPY_SPACE_REGION_SIZE" for c
    proof -
      have cin: "c \<in> set (concat L)" using c(1) nth_in_concat[of 1 L] nth_in_concat[of 2 L] blocks(2) by auto
      have ca: "block_addr (log_blocks cs) c" using blocks(1) cin unfolding block_ok_def by blast
      have "c = b"
        using payload_region_facts(1)[OF ca act, of x] payload_region_facts(1)[OF addr act, of x] c(2) xr
        by (simp add: cs_region_def r_def)
      then show False using cin A(1) by simp
    qed
    have "\<not> x - r < n" using sp(2)[of "x - r"] x by (auto simp: hp algebra_simps)
    then consider c where "c \<in> set (L ! 2)" "x - cs_region cs c < COPY_SPACE_REGION_SIZE"
      | c where "c \<in> set (L ! 1)" "x - cs_region cs c < blk_allocated (cs_blocks cs c)"
      using x a(2) by (auto simp: occupied_def b_def[symmetric] r_def[symmetric] n_def[symmetric])
    then show False
    proof cases
      case 2
      then have "blk_allocated (cs_blocks cs c) < COPY_SPACE_REGION_SIZE" using blocks(3) by (auto simp: partly_ok_def Let_def)
      then show False using other[of c] 2 by (meson UnI1 less_trans)
    qed (use other in blast)
  qed
qed


section \<open>Allocation\<close>

text \<open>What the search of the partly full blocks finds: a block that fits, or that there is none left.\<close>

definition search_result ::
    "(copy_space_allocator \<Rightarrow> bool) \<Rightarrow> byte_mem \<Rightarrow> copy_space \<Rightarrow> u64 list list \<Rightarrow>
      bool \<Rightarrow> copy_space_allocator \<Rightarrow> copy_space \<Rightarrow> u64 list list \<Rightarrow> bool" where
  "search_result fits mem cs L ok a cs' L' \<longleftrightarrow>
    same_space cs cs' \<and> cs_ok cs' mem L' \<and> alloc_ok cs' mem a L'
    \<and> mset (concat L) = mset (held a @ concat L') \<and> occupied cs no_allocation L \<subseteq> occupied cs' a L'
    \<and> L' ! 0 = L ! 0 \<and> drop 3 L' = drop 3 L
    \<and> (if ok then ca_block a \<noteq> 0 \<and> fits a else a = no_allocation \<and> L' ! 1 = [])"

lemma no_allocation_ok [simp]: "alloc_ok cs mem no_allocation L"
  by (simp add: alloc_ok_def no_allocation_def)

lemma search_ok:
  assumes "cs_ok cs mem L"
  shows "\<exists>ok a cs' L'. while_loop (\<lambda>(ok, a, cs). ok \<and> \<not> fits a)
      (\<lambda>(_, a, cs). let (a, cs) = copy_space_allocator_release_full_block a cs
                    in copy_space_allocator_acquire_partly_full_block a cs)
      (copy_space_allocator_acquire_partly_full_block no_allocation cs) = Inr (ok, a, cs')
    \<and> search_result fits mem cs L ok a cs' L'"
  using assms
proof (induction "length (L ! 1)" arbitrary: cs L)
  case 0
  obtain got a cs' where acq: "copy_space_allocator_acquire_partly_full_block no_allocation cs = (got, a, cs')"
    by (rule prod_cases3)
  note A = acquire_partly_ok[OF 0(2) acq]
  have "\<not> got" "a = no_allocation" "cs' = cs" using A(3,4) 0(1) by auto
  then have "search_result fits mem cs L got a cs' L"
    using 0 by (simp add: search_result_def)
  moreover have "while_loop (\<lambda>(ok, a, cs). ok \<and> \<not> fits a) f (got, a, cs') = Inr (got, a, cs')" for f
    using \<open>\<not> got\<close> by (subst while_loop_unfold) simp
  ultimately show ?case unfolding acq by blast
next
  case (Suc n)
  obtain got a cs' where acq: "copy_space_allocator_acquire_partly_full_block no_allocation cs = (got, a, cs')"
    by (rule prod_cases3)
  note A = acquire_partly_ok[OF Suc(3) acq]
  define L1 where "L1 = L[1 := tl (L ! 1)]"
  have len: "length L = 7" using Suc(3) by (simp add: cs_ok_def)
  have got: got using A(3) Suc(2) by auto
  note B = A(5)[OF got, folded L1_def]
  have b0: "ca_block a \<noteq> 0"
  proof -
    have "block_lists (cs_blocks cs) (cs_heads cs) L" using Suc(3) by (simp add: cs_ok_def)
    then have "0 \<notin> set (L ! 1)" by (rule block_lists_nonzero) (simp add: len)
    then show ?thesis using B Suc(2) by (cases "L ! 1") auto
  qed
  show ?case
  proof (cases "fits a")
    case True
    then have "search_result fits mem cs L got a cs' L1"
      using got A(1) B b0 by (simp add: search_result_def L1_def)
    moreover have "while_loop (\<lambda>(ok, a, cs). ok \<and> \<not> fits a) f (got, a, cs') = Inr (got, a, cs')" for f
      using True by (subst while_loop_unfold) simp
    ultimately show ?thesis unfolding acq by blast
  next
    case False
    obtain a2 cs2 where rel: "copy_space_allocator_release_full_block a cs' = (a2, cs2)" by (rule prod.exhaust)
    have okB: "cs_ok cs' mem L1" "alloc_ok cs' mem a L1" using B by simp_all
    note C = release_full_ok[OF okB b0 rel]
    define L2 where "L2 = L1[2 := ca_block a # L1 ! 2]"
    have "n = length (L2 ! 1)" using Suc(2) len by (simp add: L2_def L1_def)
    from Suc(1)[OF this C(2)[folded L2_def]] obtain ok a3 cs3 L3 where
      R: "while_loop (\<lambda>(ok, a, cs). ok \<and> \<not> fits a)
        (\<lambda>(_, a, cs). let (a, cs) = copy_space_allocator_release_full_block a cs
                      in copy_space_allocator_acquire_partly_full_block a cs)
        (copy_space_allocator_acquire_partly_full_block no_allocation cs2) = Inr (ok, a3, cs3)"
      "search_result fits mem cs2 L2 ok a3 cs3 L3" by blast
    have "same_space cs cs3"
      using A(1) C(3) R(2) by (auto simp: search_result_def intro: same_space_trans)
    moreover have "mset (concat L) = mset (concat L2)" using B C(5) by (simp add: L2_def del: set_concat)
    moreover have "occupied cs no_allocation L \<subseteq> occupied cs2 no_allocation L2"
      using B C(4) unfolding C(1) L2_def by simp
    moreover have "L2 ! 0 = L ! 0" "drop 3 L2 = drop 3 L" by (simp_all add: L2_def L1_def)
    ultimately have "search_result fits mem cs L ok a3 cs3 L3"
      using R(2) unfolding search_result_def by auto
    moreover have "while_loop (\<lambda>(ok, a, cs). ok \<and> \<not> fits a)
        (\<lambda>(_, a, cs). let (a, cs) = copy_space_allocator_release_full_block a cs
                      in copy_space_allocator_acquire_partly_full_block a cs)
        (got, a, cs') = Inr (ok, a3, cs3)"
      using got False R(1) C(1) rel by (subst while_loop_unfold) simp
    ultimately show ?thesis unfolding acq by blast
  qed
qed


text \<open>
  What an allocation of \<open>sz\<close> bytes leaves: the invariant, the same blocks, the same contents of what
  was allocated, and either a null reference, when no list has a block, or an object of zeroes within
  the active region of one block, where nothing was allocated.
\<close>

definition allocated ::
    "u64 \<Rightarrow> copy_space_allocator \<Rightarrow> copy_space \<Rightarrow> byte_mem \<Rightarrow> u64 list list \<Rightarrow>
      gc_ref \<Rightarrow> copy_space_allocator \<Rightarrow> copy_space \<Rightarrow> byte_mem \<Rightarrow> u64 list list \<Rightarrow> bool" where
  "allocated sz a cs mem L ref a' cs' mem' L' \<longleftrightarrow>
    same_space cs cs' \<and> cs_ok cs' mem' L' \<and> alloc_ok cs' mem' a' L'
    \<and> mset (held a @ concat L) = mset (held a' @ concat L')
    \<and> (\<forall>x \<in> occupied cs a L. mem' x = mem x) \<and> occupied cs a L \<subseteq> occupied cs' a' L'
    \<and> (mem' = mem \<or> (\<exists>b \<in> set (held a @ concat L). touches cs b mem mem'))
    \<and> (if ref = 0 then L' ! 1 = [] \<and> L ! 0 = [] \<and> (cs_in_gc cs \<longrightarrow> (\<forall>i < 4. L ! (3 + i) = []))
       else zeroes mem' ref sz \<and> {x. x - ref < sz} \<subseteq> occupied cs' a' L' - occupied cs a L
         \<and> (\<exists>b \<in> set (held a @ concat L). {x. x - ref < sz} \<subseteq> {x. x - cs_region cs b < COPY_SPACE_REGION_SIZE}))"

lemma fresh_part: "S \<subseteq> T \<Longrightarrow> A \<inter> T = {} \<Longrightarrow> B \<subseteq> A \<Longrightarrow> S \<subseteq> A \<union> T - B"
  by blast

lemma bump_allocated:
  assumes ok: "cs_ok cs' mem' L'" and a: "alloc_ok cs' mem' a' L'" "ca_block a' \<noteq> 0"
    and fits: "ca_hp a' + n \<le> ca_limit a'" "0 < n" "unat n \<le> 2 ^ 20" "sz \<le> n"
    and pre: "same_space cs cs'" "mset (held a @ concat L) = mset (held a' @ concat L')"
      "\<And>x. x \<in> occupied cs a L \<Longrightarrow> mem' x = mem x" "occupied cs a L \<subseteq> occupied cs' a' L'"
      "mem' = mem \<or> (\<exists>b \<in> set (held a @ concat L). touches cs b mem mem')"
  shows "allocated sz a cs mem L (ca_hp a') (a'\<lparr>ca_hp := ca_hp a' + n\<rparr>) cs' mem' L'"
proof -
  have len: "length L' = 7" and act: "cs_active_region cs' \<le> 1"
    and blocks: "\<forall>c \<in> set (concat L'). block_ok cs' mem' c" and partly: "\<forall>c \<in> set (L' ! 1). partly_ok cs' mem' c"
    using ok unfolding cs_ok_def by blast+
  note b = bump_ok[OF a act blocks len partly fits(2,3,1)]
  have sub: "{x. x - ca_hp a' < sz} \<subseteq> {x. x - ca_hp a' < n}" using fits(4) by auto
  have "ca_block a' \<in> set (held a @ concat L)" using a(2) mset_eq_setD[OF pre(2)] by (simp del: set_concat)
  then have region: "\<exists>b \<in> set (held a @ concat L). {x. x - ca_hp a' < sz} \<subseteq> {x. x - cs_region cs b < COPY_SPACE_REGION_SIZE}"
    using b(6) sub same_space_facts(1)[OF pre(1)] by (intro bexI[of _ "ca_block a'"]) auto
  have zero: "zeroes mem' (ca_hp a') sz" using b(2) fits(4) unfolding zeroes_def by (meson less_le_trans)
  have m: "mset (held a @ concat L) = mset (held (a'\<lparr>ca_hp := ca_hp a' + n\<rparr>) @ concat L')"
    using pre(2) by (simp add: held_def)
  have fresh: "{x. x - ca_hp a' < sz} \<subseteq> occupied cs' (a'\<lparr>ca_hp := ca_hp a' + n\<rparr>) L' - occupied cs a L"
    and more: "occupied cs a L \<subseteq> occupied cs' (a'\<lparr>ca_hp := ca_hp a' + n\<rparr>) L'"
    unfolding b(4) by - (rule fresh_part[OF sub b(5) pre(4)], rule le_supI1[OF pre(4)])
  show ?thesis
    unfolding allocated_def if_not_P[OF b(3)]
    by (intro conjI ballI) (rule pre(1,5) ok b(1) m more zero fresh region, (rule pre(3), assumption)?)+
qed

text \<open>An empty region has room for any small object.\<close>

lemma empty_fits:
  assumes ok: "cs_ok cs mem L" and a: "alloc_ok cs mem a L" "ca_block a \<noteq> 0" "ca_hp a = cs_region cs (ca_block a)"
    and n: "unat n \<le> 12288"
  shows "ca_hp a + n \<le> ca_limit a"
proof -
  have A: "block_ok cs mem (ca_block a)" "ca_limit a = cs_region cs (ca_block a) + COPY_SPACE_REGION_SIZE"
    using a(1) unfolding alloc_ok_def Let_def if_not_P[OF a(2)] by blast+
  have "block_addr (log_blocks cs) (ca_block a)" "cs_active_region cs \<le> 1" using A(1) ok by (simp_all add: block_ok_def cs_ok_def)
  then obtain p where "unat (cs_region cs (ca_block a)) = 2 ^ 16 * p" "2 ^ 16 * p + 2 ^ 16 + 2 ^ 26 \<le> 2 ^ 64"
    using region_position unfolding cs_region_def by metis
  then show ?thesis
    using n unfolding a(3) A(2) word_le_nat_alt by (simp add: unat_plus_if' COPY_SPACE_REGION_SIZE_def)
qed

lemma allocate_step:
  assumes ok: "cs_ok cs mem L" and a: "alloc_ok cs mem a L"
    and sz: "0 < sz" "sz \<le> threshold" "threshold \<le> 8192" "g \<le> 12"
  obtains ref a' cs' mem' L' where
    "copy_space_allocate threshold (2 ^ g) sz (a, cs, mem) = Inr (ref, a', cs', mem')"
    "allocated sz a cs mem L ref a' cs' mem' L'"
proof -
  define n where "n = align_up sz (2 ^ g)"
  have "unat sz \<le> 8192" using sz(2,3) by (simp add: word_le_nat_alt)
  note al = align_up_bounds[OF this sz(4), folded n_def]
  have "(2::nat) ^ g \<le> 2 ^ 12" using sz(4) by (intro power_increasing) auto
  then have n: "sz \<le> n" "0 < n" "unat n \<le> 12288"
    using al sz(1) \<open>unat sz \<le> 8192\<close> by (simp_all add: word_le_nat_alt word_less_nat_alt)
  then have n20: "unat n \<le> 2 ^ 20" by simp
  define fits where "fits = (\<lambda>a :: copy_space_allocator. ca_hp a + n \<le> ca_limit a)"
  have asserts: "gc_assert (0 < sz) = Inr ()" "gc_assert (sz \<le> threshold) = Inr ()" using sz(1,2) by simp_all
  show thesis
  proof (cases "fits a")
    case True
    have "ca_block a \<noteq> 0" using a True n(2) by (auto simp: alloc_ok_def no_allocation_def fits_def)
    moreover have "copy_space_allocate threshold (2 ^ g) sz (a, cs, mem) = Inr (ca_hp a, a\<lparr>ca_hp := ca_hp a + n\<rparr>, cs, mem)"
      using True by (simp add: copy_space_allocate_def asserts n_def[symmetric] fits_def Let_def)
    ultimately show thesis
      using bump_allocated[OF ok a _ _ n(2) n20 n(1), of cs a L mem] True that by (simp add: fits_def)
  next
    case False
    define r where "r = (if ca_block a \<noteq> 0 then copy_space_allocator_release_full_block a cs else (a, cs))"
    obtain a1 cs1 where r: "r = (a1, cs1)" by (rule prod.exhaust)
    obtain L1 where one: "a1 = no_allocation" "cs_ok cs1 mem L1" "same_space cs cs1"
      "mset (held a @ concat L) = mset (concat L1)" "occupied cs a L \<subseteq> occupied cs1 no_allocation L1"
      "L1 ! 0 = L ! 0" "drop 3 L1 = drop 3 L"
    proof (cases "ca_block a = 0")
      case True
      then have "a = no_allocation" using a by (simp add: alloc_ok_def)
      then show thesis using True r ok that[of L] by (simp add: r_def)
    next
      case False
      then have rel: "copy_space_allocator_release_full_block a cs = (a1, cs1)" using r by (simp add: r_def)
      note R = release_full_ok[OF ok a False rel]
      show thesis
        by (rule that[OF R(1-3)]) (use R(1,4,5) False in \<open>simp_all del: set_concat\<close>)
    qed
    obtain got a2 cs2 L2 where two: "while_loop (\<lambda>(ok, a, cs). ok \<and> \<not> fits a)
        (\<lambda>(_, a, cs). let (a, cs) = copy_space_allocator_release_full_block a cs
                      in copy_space_allocator_acquire_partly_full_block a cs)
        (copy_space_allocator_acquire_partly_full_block no_allocation cs1) = Inr (got, a2, cs2)"
      "search_result fits mem cs1 L1 got a2 cs2 L2" using search_ok[OF one(2)] by blast
    have S: "same_space cs1 cs2" "cs_ok cs2 mem L2" "alloc_ok cs2 mem a2 L2" "mset (concat L1) = mset (held a2 @ concat L2)"
      "occupied cs1 no_allocation L1 \<subseteq> occupied cs2 a2 L2" "L2 ! 0 = L1 ! 0" "drop 3 L2 = drop 3 L1"
      using two(2) unfolding search_result_def by blast+
    have same: "same_space cs cs2" using one(3) S(1) by (rule same_space_trans)
    have eq: "copy_space_allocate threshold (2 ^ g) sz (a, cs, mem) =
      (if got then Inr (ca_hp a2, a2\<lparr>ca_hp := ca_hp a2 + n\<rparr>, cs2, mem)
       else result_bind (copy_space_allocator_acquire_empty_block (a2, cs2, mem))
         (\<lambda>(ok, s). if \<not> ok then Inr (gc_ref_null, s)
                     else (\<lambda>(a, cs, mem). Inr (ca_hp a, a\<lparr>ca_hp := ca_hp a + n\<rparr>, cs, mem)) s))"
      using False two(1) unfolding copy_space_allocate_def Let_def prod.case asserts result_bind.simps n_def[symmetric]
        fits_def[symmetric] r_def[symmetric] r one(1) by (simp add: fits_def)
    show thesis
    proof (cases got)
      case True
      then have "ca_block a2 \<noteq> 0" "fits a2" using two(2) by (simp_all add: search_result_def)
      then have "allocated sz a cs mem L (ca_hp a2) (a2\<lparr>ca_hp := ca_hp a2 + n\<rparr>) cs2 mem L2"
        using one(4,5) S(4,5) same by (intro bump_allocated[OF S(2,3) _ _ n(2) n20 n(1)]) (auto simp: fits_def)
      then show thesis using that eq True by simp
    next
      case ng: False
      then have a2: "a2 = no_allocation" "L2 ! 1 = []" using two(2) by (simp_all add: search_result_def)
      obtain ok3 a3 cs3 mem3 L3 where E:
        "copy_space_allocator_acquire_empty_block (no_allocation, cs2, mem) = Inr (ok3, a3, cs3, mem3)"
        "same_space cs2 cs3" "cs_ok cs3 mem3 L3" "alloc_ok cs3 mem3 a3 L3"
        "mset (concat L2) = mset (held a3 @ concat L3)"
        "occupied cs3 a3 L3 = occupied cs2 no_allocation L2" "\<forall>x \<in> occupied cs2 no_allocation L2. mem3 x = mem x"
        "mem3 = mem \<or> (\<exists>b \<in> set (concat L2). touches cs2 b mem mem3)"
        "ok3 \<longrightarrow> ca_block a3 \<noteq> 0 \<and> ca_hp a3 = cs_region cs2 (ca_block a3)"
        "\<not> ok3 \<longrightarrow> a3 = no_allocation \<and> L3 = L2 \<and> L2 ! 0 = [] \<and> (cs_in_gc cs2 \<longrightarrow> (\<forall>i < 4. L2 ! (3 + i) = []))"
        by (rule acquire_empty_ok[OF S(2)])
      have M: "mset (held a @ concat L) = mset (held a3 @ concat L3)"
        using one(4) S(4) E(5) a2(1) by simp
      have same3: "same_space cs cs3" using same E(2) by (rule same_space_trans)
      have kept: "occupied cs a L \<subseteq> occupied cs2 no_allocation L2" using one(5) S(5) a2(1) by blast
      have inv3: "same_space cs cs3" "mset (held a @ concat L) = mset (held a3 @ concat L3)"
        "\<And>x. x \<in> occupied cs a L \<Longrightarrow> mem3 x = mem x" "occupied cs a L \<subseteq> occupied cs3 a3 L3"
        using same3 M kept E(6,7) by blast+
      have t3: "mem3 = mem \<or> (\<exists>b \<in> set (held a @ concat L). touches cs b mem mem3)"
      proof -
        have "touches cs2 b mem mem3 = touches cs b mem mem3" for b
          by (simp add: touches_def same_space_facts[OF same])
        moreover have "mset (concat L2) \<subseteq># mset (held a @ concat L)" using M E(5) one(4) S(4) by simp
        then have "set (concat L2) \<subseteq> set (held a @ concat L)" by (metis set_mset_mono set_mset_mset)
        ultimately show ?thesis using E(8) by blast
      qed
      show thesis
      proof (cases ok3)
        case True
        have b3: "ca_block a3 \<noteq> 0" "ca_hp a3 = cs_region cs2 (ca_block a3)" using E(9) True by simp_all
        have "cs_region cs2 (ca_block a3) = cs_region cs3 (ca_block a3)" using same_space_facts(1)[OF E(2)] by simp
        then have "fits a3" using empty_fits[OF E(3,4) b3(1) _ n(3)] b3(2) by (simp add: fits_def)
        then have "allocated sz a cs mem L (ca_hp a3) (a3\<lparr>ca_hp := ca_hp a3 + n\<rparr>) cs3 mem3 L3"
          using inv3 t3 by (intro bump_allocated[OF E(3,4) b3(1) _ n(2) n20 n(1)]) (simp_all add: fits_def)
        moreover have "copy_space_allocate threshold (2 ^ g) sz (a, cs, mem)
          = Inr (ca_hp a3, a3\<lparr>ca_hp := ca_hp a3 + n\<rparr>, cs3, mem3)"
          using eq ng E(1) True a2(1) by simp
        ultimately show thesis using that by blast
      next
        case N: False
        have l0: "L ! 0 = L2 ! 0" using S(6) one(6) by simp
        have li: "L ! (3 + i) = L2 ! (3 + i)" if "i < 4" for i
        proof -
          have "drop 3 L ! i = drop 3 L2 ! i" using S(7) one(7) by simp
          moreover have "length L = 7" "length L2 = 7" using ok S(2) by (simp_all add: cs_ok_def)
          ultimately show ?thesis by simp
        qed
        have e9: "L3 = L2" "L2 ! 0 = []" "cs_in_gc cs2 \<longrightarrow> (\<forall>i < 4. L2 ! (3 + i) = [])" using E(10) N by blast+
        have null: "L3 ! 1 = []" "L ! 0 = []" using e9(1,2) a2(2) l0 by simp_all
        have gc: "cs_in_gc cs \<longrightarrow> (\<forall>i < 4. L ! (3 + i) = [])"
        proof (intro impI allI)
          fix i :: nat assume "cs_in_gc cs" "i < 4"
          then show "L ! (3 + i) = []" using li[of i] e9(3) same_space_facts(6)[OF same] by metis
        qed
        have "allocated sz a cs mem L 0 a3 cs3 mem3 L3"
          unfolding allocated_def if_P[OF refl[of "0 :: u64"]]
          by (intro conjI ballI) (rule inv3(1) t3 E(3,4) inv3(2,4) null gc, (rule inv3(3), assumption)?)+
        moreover have "copy_space_allocate threshold (2 ^ g) sz (a, cs, mem) = Inr (0, a3, cs3, mem3)"
          using eq ng E(1) N a2(1) by (simp add: gc_ref_null_def)
        ultimately show thesis by (rule that[rotated])
      qed
    qed
  qed
qed

end
