(* ===== verification/CopySpaceCorrect.thy ===== *)
theory CopySpaceCorrect
  imports CopySpaceAllocate
begin

text \<open>
  What the operations of a copy space promise: allocation, forwarding, and the flip that starts a
  collection.
\<close>

section \<open>Flipping\<close>

lemma walk_to_last:
  assumes "chain nxt p xs" "xs \<noteq> []"
  shows "while_loop (\<lambda>w. nxt w \<noteq> 0) nxt p = Inr (last xs)"
  using assms
proof (induction xs arbitrary: p)
  case (Cons x xs)
  then show ?case by (subst while_loop_unfold) (cases xs; auto)
qed simp

lemma chain_append:
  assumes "chain nxt p xs" "xs \<noteq> []" "chain nxt q ys" "distinct (xs @ ys)"
  shows "chain (nxt(last xs := q)) p (xs @ ys)"
  using assms
proof (induction xs arbitrary: p)
  case (Cons x xs)
  show ?case
  proof (cases xs)
    case Nil
    then show ?thesis using Cons.prems chain_update[of x ys nxt q q] by (simp del: fun_upd_apply add: fun_upd_same)
  next
    case (Cons y zs)
    then have l: "last (x # xs) = last xs" "last xs \<in> set xs" by simp_all
    then have "(nxt(last xs := q)) x = nxt x" using Cons.prems by auto
    moreover have "chain (nxt(last xs := q)) (nxt x) (xs @ ys)"
      by (rule Cons.IH) (use Cons.prems local.Cons in auto)
    ultimately show ?thesis using Cons.prems(1) unfolding l(1) by (simp del: fun_upd_apply)
  qed
qed simp

definition next_of :: "blocks \<Rightarrow> u64 \<Rightarrow> u64" where
  "next_of bs = (\<lambda>b. blk_next (bs b))"

definition relinked :: "blocks \<Rightarrow> blocks \<Rightarrow> u64 set \<Rightarrow> bool" where
  "relinked bs bs' S \<longleftrightarrow> (\<forall>b. \<exists>n. bs' b = (bs b)\<lparr>blk_next := n\<rparr>) \<and> (\<forall>b. b \<notin> S \<longrightarrow> bs' b = bs b)"

lemma relinked_refl [simp]: "relinked bs bs S"
proof -
  have "bs b = (bs b)\<lparr>blk_next := blk_next (bs b)\<rparr>" for b by simp
  then show ?thesis unfolding relinked_def by blast
qed

lemma append_block_lists_ok:
  assumes "chain (next_of bs) p xs" "chain (next_of bs) q ys" "distinct (xs @ ys)"
  obtains h bs' where "copy_space_append_block_lists bs p q = Inr (h, bs')"
    "chain (next_of bs') h (xs @ ys)" "relinked bs bs' (set xs)"
proof -
  consider "p = 0" | "p \<noteq> 0" "q = 0" | "p \<noteq> 0" "q \<noteq> 0" by blast
  then show thesis
  proof cases
    case 1
    then show thesis
      using assms by (intro that[of q bs]) (auto simp: copy_space_append_block_lists_def)
  next
    case 2
    then have "ys = []" using assms(2) by simp
    then show thesis
      using assms 2 by (intro that[of p bs]) (auto simp: copy_space_append_block_lists_def)
  next
    case 3
    then have xs: "xs \<noteq> []" using assms(1) by auto
    define bs' where "bs' = bs(last xs := (bs (last xs))\<lparr>blk_next := q\<rparr>)"
    have "next_of bs' = (next_of bs)(last xs := q)" by (auto simp: next_of_def bs'_def)
    then have "chain (next_of bs') p (xs @ ys)" using chain_append[OF assms(1) xs assms(2,3)] by simp
    moreover have "copy_space_append_block_lists bs p q = Inr (p, bs')"
      using walk_to_last[OF assms(1) xs] 3 by (simp add: copy_space_append_block_lists_def next_of_def bs'_def)
    moreover have "relinked bs bs' (set xs)"
    proof -
      have "bs' b = (bs b)\<lparr>blk_next := next_of bs' b\<rparr>" for b by (simp add: bs'_def next_of_def)
      moreover have "bs' b = bs b" if "b \<notin> set xs" for b using that xs by (auto simp: bs'_def)
      ultimately show ?thesis unfolding relinked_def by blast
    qed
    ultimately show thesis using that by blast
  qed
qed

lemma relinked_trans:
  assumes "relinked a b S" "relinked b c T"
  shows "relinked a c (S \<union> T)"
proof -
  have "\<exists>n. c x = (a x)\<lparr>blk_next := n\<rparr>" for x
  proof -
    obtain n m where "b x = (a x)\<lparr>blk_next := n\<rparr>" "c x = (b x)\<lparr>blk_next := m\<rparr>" using assms unfolding relinked_def by meson
    then show ?thesis by (intro exI[of _ m]) simp
  qed
  then show ?thesis using assms by (simp add: relinked_def)
qed

lemma relinked_chain:
  assumes "relinked bs bs' S" "S \<inter> set xs = {}" "chain (next_of bs) p xs"
  shows "chain (next_of bs') p xs"
proof -
  have "chain (next_of bs) p xs = chain (next_of bs') p xs"
    by (rule chain_cong) (use assms(1,2) in \<open>auto simp: relinked_def next_of_def\<close>)
  then show ?thesis using assms(3) by simp
qed

lemma relinked_fields:
  assumes "relinked bs bs' S"
  shows "blk_all_zeroes (bs' b) = blk_all_zeroes (bs b)" "blk_allocated (bs' b) = blk_allocated (bs b)"
    "blk_is_survivor (bs' b) = blk_is_survivor (bs b)" "blk_in_core (bs' b) = blk_in_core (bs b)"
proof -
  obtain n where "bs' b = (bs b)\<lparr>blk_next := n\<rparr>" using assms unfolding relinked_def by blast
  then show "blk_all_zeroes (bs' b) = blk_all_zeroes (bs b)" "blk_allocated (bs' b) = blk_allocated (bs b)"
    "blk_is_survivor (bs' b) = blk_is_survivor (bs b)" "blk_in_core (bs' b) = blk_in_core (bs b)" by simp_all
qed

lemma flip_ok:
  assumes ok: "cs_ok cs mem L"
  obtains cs' where "copy_space_flip cs = Inr cs'"
    "cs_ok cs' mem ([L ! 0 @ L ! 1 @ L ! 2, [], []] @ drop 3 L)" "cs_active_region cs' = cs_active_region cs XOR 1"
    "cs_in_gc cs'" "cs_allocated_bytes cs' = 0" "cs_fragmentation cs' = 0"
    "relinked (cs_blocks cs) (cs_blocks cs') (set (L ! 0 @ L ! 1))"
proof -
  have len: "length L = 7" and act: "cs_active_region cs \<le> 1" and bl: "block_lists (cs_blocks cs) (cs_heads cs) L"
    and blocks: "\<forall>c \<in> set (concat L). block_ok cs mem c" and paged: "\<forall>c \<in> set (concat (drop 3 L)). blk_allocated (cs_blocks cs c) = 0"
    using ok unfolding cs_ok_def by blast+
  have ch: "\<And>i. i < 7 \<Longrightarrow> chain (next_of (cs_blocks cs)) (cs_heads cs ! i) (L ! i)"
    and dist: "distinct (concat L)" and hl: "length (cs_heads cs) = 7"
    using bl len by (simp_all add: block_lists_def next_of_def)
  obtain E P F Q where L: "L = E # P # F # Q" "length Q = 4" using len by (auto simp: length_Suc_conv eval_nat_numeral)
  have Li: "L ! 0 = E" "L ! 1 = P" "L ! 2 = F" "drop 3 L = Q" by (simp_all add: L)
  have d: "distinct (P @ F)" "distinct (E @ P @ F)" "set (P @ F @ E) \<inter> set (concat Q) = {}" "distinct (concat Q)"
    using dist by (auto simp: L)
  have heads: "cs_heads cs ! 0 = cs_empty cs" "cs_heads cs ! 1 = cs_partly_full cs" "cs_heads cs ! 2 = cs_full cs"
    by (simp_all add: cs_heads_def)
  have c0: "chain (next_of (cs_blocks cs)) (cs_empty cs) E" "chain (next_of (cs_blocks cs)) (cs_partly_full cs) P"
    "chain (next_of (cs_blocks cs)) (cs_full cs) F"
    using ch[of 0] ch[of 1] ch[of 2] unfolding heads Li by simp_all
  obtain h1 b1 where 1: "copy_space_append_block_lists (cs_blocks cs) (cs_partly_full cs) (cs_full cs) = Inr (h1, b1)"
    "chain (next_of b1) h1 (P @ F)" "relinked (cs_blocks cs) b1 (set P)"
    by (rule append_block_lists_ok[OF c0(2,3) d(1)])
  have "chain (next_of b1) (cs_empty cs) E"
    by (rule relinked_chain[OF 1(3) _ c0(1)]) (use d(2) in auto)
  from append_block_lists_ok[OF this 1(2) d(2)] obtain h2 b2 where
    2: "copy_space_append_block_lists b1 (cs_empty cs) h1 = Inr (h2, b2)"
    "chain (next_of b2) h2 (E @ P @ F)" "relinked b1 b2 (set E)" .
  have re: "relinked (cs_blocks cs) b2 (set P \<union> set E)" by (rule relinked_trans[OF 1(3) 2(3)])
  define cs' where "cs' = cs\<lparr>cs_blocks := b2, cs_empty := h2, cs_partly_full := 0, cs_full := 0, cs_allocated_bytes := 0,
             cs_fragmentation := 0, cs_active_region := cs_active_region cs XOR 1, cs_in_gc := True\<rparr>"
  let ?L = "[E @ P @ F, [], []] @ Q"
  have "copy_space_flip cs = Inr cs'" using 1(1) 2(1) by (simp add: copy_space_flip_def cs'_def)
  moreover have "cs_ok cs' mem ?L"
    unfolding cs_ok_def
  proof (intro conjI)
    have "chain (next_of b2) (cs_heads cs' ! i) (?L ! i)" if i: "i < 7" for i
    proof -
      consider "i = 0" | "i = 1" | "i = 2" | "3 \<le> i" by linarith
      then show ?thesis
      proof cases
        case 4
        have "chain (next_of (cs_blocks cs)) (cs_heads cs ! i) (L ! i)" by (rule ch[OF i])
        moreover have "cs_heads cs' ! i = cs_heads cs ! i" "?L ! i = L ! i"
          using 4 by (simp_all add: cs_heads_def cs'_def L nth_Cons')
        moreover have "L ! i \<in> set Q" using 4 i L by (simp add: nth_Cons')
        then have "set (L ! i) \<subseteq> set (concat Q)" by auto
        then have "(set P \<union> set E) \<inter> set (L ! i) = {}" using d(3) by auto
        ultimately show ?thesis using relinked_chain[OF re] by simp
      qed (use 2(2) in \<open>simp_all add: cs_heads_def cs'_def\<close>)
    qed
    moreover have "length (cs_heads cs') = 7" using hl by (simp add: cs_heads_def cs'_def)
    moreover have "distinct (concat ?L)" using d(2,3,4) by auto
    ultimately show "block_lists (cs_blocks cs') (cs_heads cs') ?L"
      using L(2) by (simp add: block_lists_def next_of_def cs'_def del: concat.simps)
    show "length ?L = 7" using L(2) by simp
    show "cs_active_region cs' \<le> 1"
    proof -
      have "cs_active_region cs = 0 \<or> cs_active_region cs = 1" using act by unat_arith
      then show ?thesis by (auto simp: cs'_def)
    qed
    have same: "block_ok cs' mem c = block_ok cs mem c" for c
      by (simp add: block_ok_def cs'_def log_blocks_def copy_space_has_field_logging_bits_def relinked_fields[OF re]
          copy_space_contains_address_def)
    have "set (concat ?L) = set (concat L)" by (auto simp: L)
    then show "\<forall>b \<in> set (concat ?L). block_ok cs' mem b" unfolding same using blocks by metis
    show "\<forall>b \<in> set (?L ! 1). partly_ok cs' mem b" by simp
    have "drop 3 ?L = Q" by (simp add: numeral_3_eq_3)
    then show "\<forall>b \<in> set (concat (drop 3 ?L)). blk_allocated (cs_blocks cs' b) = 0"
      using paged unfolding Li by (simp add: cs'_def relinked_fields[OF re])
    show "\<forall>b \<in> set (?L ! 1) \<union> set (?L ! 2). \<not> blk_all_zeroes (cs_blocks cs' b) (cs_active_region cs')" by simp
  qed
  ultimately show thesis
    using re that[of cs', unfolded Li] by (simp add: cs'_def Un_commute)
qed


section \<open>Forwarding\<close>

text \<open>An object of from-space: within the inactive region of a block.\<close>

definition in_from_space :: "copy_space \<Rightarrow> gc_ref \<Rightarrow> u64 \<Rightarrow> bool" where
  "in_from_space cs obj sz \<longleftrightarrow> (\<exists>b. block_addr (log_blocks cs) b
    \<and> (\<forall>x. x - obj < sz \<longrightarrow> x - payload_region (copy_space_block_payload b) (cs_active_region cs XOR 1) < COPY_SPACE_REGION_SIZE))"

lemma region_xor: "(r :: u8) \<le> 1 \<Longrightarrow> r XOR 1 \<le> 1 \<and> r XOR 1 \<noteq> r"
proof -
  assume "r \<le> 1"
  then have "r = 0 \<or> r = 1" by unat_arith
  then show ?thesis by auto
qed

lemma from_space_bytes:
  assumes obj: "in_from_space cs obj sz" and act: "cs_active_region cs \<le> 1" and x: "x - obj < sz"
  shows "copy_space_object_region x = cs_active_region cs XOR 1"
    "block_addr (log_blocks cs) c \<Longrightarrow> \<not> x - cs_region cs c < COPY_SPACE_REGION_SIZE"
    "block_addr (log_blocks cs) c \<Longrightarrow> touches cs c mem mem' \<Longrightarrow> mem' x = mem x"
proof -
  note r = region_xor[OF act]
  obtain b where b: "block_addr (log_blocks cs) b"
    "x - payload_region (copy_space_block_payload b) (cs_active_region cs XOR 1) < COPY_SPACE_REGION_SIZE"
    using obj x unfolding in_from_space_def by blast
  note F = payload_region_facts[OF b(1) conjunct1[OF r] b(2)]
  show "copy_space_object_region x = cs_active_region cs XOR 1" by (rule F(2))
  show "\<not> x - cs_region cs c < COPY_SPACE_REGION_SIZE" if "block_addr (log_blocks cs) c"
    using payload_region_facts(2)[OF that act, of x] F(2) r unfolding cs_region_def by auto
  show "mem' x = mem x" if "block_addr (log_blocks cs) c" "touches cs c mem mem'"
    by (rule touches_other[OF that(2,1) b(1) act conjunct1[OF r] _ b(2)]) (use r in simp)
qed

definition forwarded_ok ::
    "gc_ref \<Rightarrow> u64 \<Rightarrow> u64 \<Rightarrow> copy_space_allocator \<Rightarrow> copy_space \<Rightarrow> byte_mem \<Rightarrow> u64 list list \<Rightarrow>
      copy_space_forward_result \<Rightarrow> gc_ref \<Rightarrow> byte_mem \<Rightarrow> bool" where
  "forwarded_ok old sz edge a cs mem L res new mem' \<longleftrightarrow>
    (if new = 0 then res = Forward_Failed
     else res = Forward_Evacuated \<and> load_word mem' edge = new
       \<and> (\<forall>i < sz. mem' (new + i) = mem (old + i))
       \<and> (\<forall>x \<in> occupied cs a L. \<not> x - edge < 8 \<longrightarrow> mem' x = mem x))"

lemma occupied_in_region:
  assumes ok: "cs_ok cs mem L" "alloc_ok cs mem a L" and x: "x \<in> occupied cs a L"
  obtains b where "b \<in> set (held a @ concat L)" "x - cs_region cs b < COPY_SPACE_REGION_SIZE"
proof -
  have len: "length L = 7" and partly: "\<forall>c \<in> set (L ! 1). partly_ok cs mem c" using ok(1) unfolding cs_ok_def by blast+
  consider c where "c \<in> set (L ! 2)" "x - cs_region cs c < COPY_SPACE_REGION_SIZE"
    | c where "c \<in> set (L ! 1)" "x - cs_region cs c < blk_allocated (cs_blocks cs c)"
    | "ca_block a \<noteq> 0" "x - cs_region cs (ca_block a) < ca_hp a - cs_region cs (ca_block a)"
    using x by (auto simp: occupied_def split: if_splits)
  then show thesis
  proof cases
    case 1
    then show thesis using that[of c] nth_in_concat[of 2 L c] len by simp
  next
    case 2
    then have "blk_allocated (cs_blocks cs c) < COPY_SPACE_REGION_SIZE" using partly by (auto simp: partly_ok_def Let_def)
    then have "x - cs_region cs c < COPY_SPACE_REGION_SIZE" using 2(2) by (rule less_trans[rotated])
    then show thesis using that[of c] nth_in_concat[of 1 L c] len 2(1) by simp
  next
    case 3
    have "ca_hp a - cs_region cs (ca_block a) \<le> COPY_SPACE_REGION_SIZE"
      using ok(2) unfolding alloc_ok_def Let_def if_not_P[OF 3(1)] by blast
    then have "x - cs_region cs (ca_block a) < COPY_SPACE_REGION_SIZE" using 3(2) by (rule less_le_trans[rotated])
    then show thesis using that[of "ca_block a"] 3(1) by simp
  qed
qed

lemma forward_nonatomic_step:
  assumes ok: "cs_ok cs mem L" "alloc_ok cs mem a L"
    and sz: "0 < sz" "sz \<le> threshold" "threshold \<le> 8192" "g \<le> 12"
    and emb: "gc_object_forwarded_nonatomic emb old mem = 0" "gc_trace_object_size emb old mem = sz"
      "\<And>new m x. \<not> x - old < sz \<Longrightarrow> gc_object_forward_nonatomic emb old new m x = m x"
    and old: "in_from_space cs old sz"
    and edge: "\<And>x. x - edge < 8 \<Longrightarrow> x \<in> occupied cs a L \<or> (\<forall>b. block_addr (log_blocks cs) b \<longrightarrow> \<not> x - cs_region cs b < COPY_SPACE_REGION_SIZE)"
  obtains res new a' cs' mem1 mem' L' where
    "copy_space_forward_nonatomic emb threshold (2 ^ g) edge old (a, cs, mem) = Inr (res, a', cs', mem')"
    "allocated sz a cs mem L new a' cs' mem1 L'" "forwarded_ok old sz edge a cs mem L res new mem'"
proof -
  obtain new a' cs' mem1 L' where al:
    "copy_space_allocate threshold (2 ^ g) sz (a, cs, mem) = Inr (new, a', cs', mem1)"
    "allocated sz a cs mem L new a' cs' mem1 L'" by (rule allocate_step[OF ok sz])
  have act: "cs_active_region cs \<le> 1" and len: "length L = 7"
    and blocks: "\<forall>c \<in> set (concat L). block_ok cs mem c" using ok unfolding cs_ok_def by blast+
  have addr: "block_addr (log_blocks cs) b" if b: "b \<in> set (held a @ concat L)" for b
  proof -
    have "b \<in> set (concat L) \<or> (ca_block a \<noteq> 0 \<and> b = ca_block a)" using b by (auto simp: held_def split: if_splits)
    moreover have "block_ok cs mem (ca_block a)" if "ca_block a \<noteq> 0"
      using ok(2) unfolding alloc_ok_def Let_def if_not_P[OF that] by blast
    ultimately show ?thesis using blocks unfolding block_ok_def by blast
  qed
  show thesis
  proof (cases "new = 0")
    case True
    have "copy_space_forward_nonatomic emb threshold (2 ^ g) edge old (a, cs, mem) = Inr (Forward_Failed, a', cs', mem1)"
      using emb al(1) True by (simp add: copy_space_forward_nonatomic_def Let_def gc_ref_is_null_def)
    then show thesis by (rule that[OF _ al(2)]) (simp add: forwarded_ok_def True)
  next
    case False
    define mem2 where "mem2 = mem_copy mem1 new old sz"
    define mem3 where "mem3 = gc_object_forward_nonatomic emb old new mem2"
    define mem4 where "mem4 = store_word mem3 edge new"
    have res: "copy_space_forward_nonatomic emb threshold (2 ^ g) edge old (a, cs, mem) = Inr (Forward_Evacuated, a', cs', mem4)"
      using emb al(1) False
      by (simp add: copy_space_forward_nonatomic_def Let_def gc_ref_is_null_def mem2_def mem3_def mem4_def)
    have A: "\<forall>x \<in> occupied cs a L. mem1 x = mem x" "mem1 = mem \<or> (\<exists>b \<in> set (held a @ concat L). touches cs b mem mem1)"
      "{x. x - new < sz} \<subseteq> occupied cs' a' L' - occupied cs a L"
      "\<exists>b \<in> set (held a @ concat L). {x. x - new < sz} \<subseteq> {x. x - cs_region cs b < COPY_SPACE_REGION_SIZE}"
      using al(2) unfolding allocated_def if_not_P[OF False] by blast+
    obtain nb where nb: "nb \<in> set (held a @ concat L)" "\<And>x. x - new < sz \<Longrightarrow> x - cs_region cs nb < COPY_SPACE_REGION_SIZE"
      using A(4) by blast
    have from1: "mem1 x = mem x" if "x - old < sz" for x
      using A(2) from_space_bytes(3)[OF old act that addr] by blast
    have new_old: "\<not> x - old < sz" if "x - new < sz" for x
      using from_space_bytes(2)[OF old act _ addr[OF nb(1)]] nb(2)[OF that] by blast
    have new_edge: "\<not> x - edge < 8" if "x - new < sz" for x
    proof
      assume "x - edge < 8"
      from edge[OF this] show False
      proof
        assume "x \<in> occupied cs a L"
        then show False using A(3) that by blast
      next
        assume "\<forall>b. block_addr (log_blocks cs) b \<longrightarrow> \<not> x - cs_region cs b < COPY_SPACE_REGION_SIZE"
        then show False using addr[OF nb(1)] nb(2)[OF that] by blast
      qed
    qed
    have "mem4 (new + i) = mem (old + i)" if i: "i < sz" for i
    proof -
      have n: "new + i - new < sz" "old + i - old < sz" using i by simp_all
      have "mem4 (new + i) = mem3 (new + i)" unfolding mem4_def by (rule store_word_other[OF new_edge[OF n(1)]])
      also have "\<dots> = mem2 (new + i)" unfolding mem3_def by (rule emb(3)[OF new_old[OF n(1)]])
      also have "\<dots> = mem1 (old + i)" using i by (simp add: mem2_def mem_copy_def)
      finally show ?thesis using from1[OF n(2)] by simp
    qed
    moreover have "mem4 x = mem x" if x: "x \<in> occupied cs a L" "\<not> x - edge < 8" for x
    proof -
      have "\<not> x - new < sz" using A(3) x(1) by blast
      moreover have "\<not> x - old < sz"
      proof -
        obtain b where b: "b \<in> set (held a @ concat L)" "x - cs_region cs b < COPY_SPACE_REGION_SIZE"
          using occupied_in_region[OF ok x(1)] by blast
        then show ?thesis using from_space_bytes(2)[OF old act _ addr[OF b(1)]] by blast
      qed
      ultimately show ?thesis
        using emb(3) A(1) x unfolding mem4_def store_word_other[OF x(2)] mem3_def mem2_def by (simp add: mem_copy_def)
    qed
    ultimately show thesis
      by (intro that[OF res al(2)]) (simp add: forwarded_ok_def False mem4_def load_store_word)
  qed
qed

section \<open>Properties\<close>

text \<open>C8: Allocation in a copy space always returns. It keeps the invariant of the space and its blocks,
  changes no allocated byte, and gives either null, when no list it may use has a block left, or an
  object whose bytes are zero, lie in the active region of one of the blocks and were not allocated.\<close>

theorem copy_space_allocate_correct:
  assumes "cs_ok cs mem L" "alloc_ok cs mem a L"
    and "0 < sz" "sz \<le> threshold" "threshold \<le> 8192" "g \<le> 12"
  shows "\<exists>ref a' cs' mem' L'. copy_space_allocate threshold (2 ^ g) sz (a, cs, mem) = Inr (ref, a', cs', mem')
    \<and> allocated sz a cs mem L ref a' cs' mem' L'"
  using allocate_step[OF assms] by metis

text \<open>C23: Flipping a copy space always returns. The empty, the partly full and the full blocks, in that
  order, become the empty ones, the other region becomes the active one, the counters start again,
  only the links of the blocks change, and the invariant holds.\<close>

theorem copy_space_flip_correct:
  assumes "cs_ok cs mem L"
  shows "\<exists>cs'. copy_space_flip cs = Inr cs'
    \<and> cs_ok cs' mem ([L ! 0 @ L ! 1 @ L ! 2, [], []] @ drop 3 L)
    \<and> cs_active_region cs' = cs_active_region cs XOR 1 \<and> cs_in_gc cs'
    \<and> cs_allocated_bytes cs' = 0 \<and> cs_fragmentation cs' = 0
    \<and> (\<forall>b. \<exists>n. cs_blocks cs' b = (cs_blocks cs b)\<lparr>blk_next := n\<rparr>)"
proof -
  obtain cs' where "copy_space_flip cs = Inr cs'"
    "cs_ok cs' mem ([L ! 0 @ L ! 1 @ L ! 2, [], []] @ drop 3 L)" "cs_active_region cs' = cs_active_region cs XOR 1"
    "cs_in_gc cs'" "cs_allocated_bytes cs' = 0" "cs_fragmentation cs' = 0"
    "relinked (cs_blocks cs) (cs_blocks cs') (set (L ! 0 @ L ! 1))" by (rule flip_ok[OF assms])
  then show ?thesis unfolding relinked_def by blast
qed


text \<open>C9: Forwarding an object of from-space that was not forwarded, when no other thread can, always
  returns. Either allocation fails and so does the forwarding, or the object is copied, byte by byte,
  to newly allocated memory, the edge holds its new address, and nothing else that was allocated
  changes. The embedder's \<open>gc_object_forward_nonatomic\<close> is to write within the old object only, and
  the edge to be a field of an allocated object or to lie outside the active regions.\<close>

theorem copy_space_forward_correct:
  assumes "cs_ok cs mem L" "alloc_ok cs mem a L"
    and "0 < sz" "sz \<le> threshold" "threshold \<le> 8192" "g \<le> 12"
    and "gc_object_forwarded_nonatomic emb old mem = 0" "gc_trace_object_size emb old mem = sz"
    and "\<forall>new m x. \<not> x - old < sz \<longrightarrow> gc_object_forward_nonatomic emb old new m x = m x"
    and "copy_space_contains cs old = Inr True" "in_from_space cs old sz" "\<not> (parallel \<and> cs_atomic_forward cs)"
    and "\<forall>x. x - edge < 8 \<longrightarrow> x \<in> occupied cs a L
      \<or> (\<forall>b. block_addr (log_blocks cs) b \<longrightarrow> \<not> x - cs_region cs b < COPY_SPACE_REGION_SIZE)"
  shows "\<exists>res new a' cs' mem1 mem' L'.
    copy_space_forward parallel emb threshold (2 ^ g) cs True edge old (a, cs, mem) = Inr (res, a', cs', mem')
    \<and> allocated sz a cs mem L new a' cs' mem1 L' \<and> forwarded_ok old sz edge a cs mem L res new mem'"
proof -
  have act: "cs_active_region cs \<le> 1" using assms(1) by (simp add: cs_ok_def)
  have "old - old < sz" using assms(3) by simp
  then have "copy_space_object_region old \<noteq> cs_active_region cs"
    using from_space_bytes(1)[OF assms(11) act] region_xor[OF act] by simp
  then have "copy_space_forward parallel emb threshold (2 ^ g) cs True edge old (a, cs, mem)
    = copy_space_forward_nonatomic emb threshold (2 ^ g) edge old (a, cs, mem)"
    using assms(10,12) by (auto simp: copy_space_forward_def assert_result_def)
  moreover obtain res new a' cs' mem1 mem' L' where
    "copy_space_forward_nonatomic emb threshold (2 ^ g) edge old (a, cs, mem) = Inr (res, a', cs', mem')"
    "allocated sz a cs mem L new a' cs' mem1 L'" "forwarded_ok old sz edge a cs mem L res new mem'"
    by (rule forward_nonatomic_step[OF assms(1-8)]) (use assms(9,11,13) in blast)+
  ultimately show ?thesis by metis
qed

section \<open>Witnesses\<close>

text \<open>A space of one slab at 64 MB, with one empty block of dirty memory.\<close>

definition example_block :: u64 where
  "example_block = 67109120"

definition example_space :: copy_space where
  "example_space = \<lparr> cs_blocks = (\<lambda>_. \<lparr> blk_next = 0, blk_in_core = True, blk_all_zeroes = (\<lambda>_. False),
      blk_is_survivor = (\<lambda>_. False), blk_allocated = 0 \<rparr>),
    cs_empty = example_block, cs_partly_full = 0, cs_full = 0, cs_allocated_bytes = 0, cs_fragmentation = 0,
    cs_paged_out = [0, 0, 0, 0], cs_bytes_to_page_out = 0, cs_active_region = 0, cs_atomic_forward = False,
    cs_in_gc = False, cs_flags = 0, cs_allocated_bytes_at_last_gc = 0, cs_fragmentation_at_last_gc = 0,
    cs_extents = \<lparr> ext_size = 1, ext_capacity = 1, ext_ranges = [\<lparr> lo_addr = 67108864, hi_addr = 134217728 \<rparr>] \<rparr>,
    cs_slabs = [67108864] \<rparr>"

definition example_lists :: "u64 list list" where
  "example_lists = [[example_block], [], [], [], [], [], []]"

lemma example_contains:
  assumes "67108864 \<le> x" "x < 134217728"
  shows "copy_space_contains_address example_space x = Inr True"
proof -
  have "extents_contain_addr (cs_extents example_space) x = Inr 67108864"
    using assms unfolding extents_contain_addr_def example_space_def
    by (subst while_loop_unfold) (simp add: Let_def leD, subst while_loop_unfold, simp)
  then show ?thesis by (simp add: copy_space_contains_address_def)
qed

lemma example_payload:
  "copy_space_block_payload example_block = 67239936"
  unfolding example_block_def by code_simp

lemma example_addr: "block_addr 0 example_block"
  unfolding block_addr_def by (intro exI[of _ 1]) (simp add: block_at_def example_block_def)

lemma example_ok: "cs_ok example_space mem example_lists"
proof -
  have "block_lists (cs_blocks example_space) (cs_heads example_space) example_lists"
    by (simp add: block_lists_def example_lists_def example_space_def cs_heads_def nth_Cons' example_block_def)
  moreover have "block_ok example_space mem example_block"
  proof -
    have "copy_space_contains_address example_space (payload_region 67239936 r) = Inr True" if "r \<le> 1" for r
    proof (rule example_contains)
      have "r = 0 \<or> r = 1" using that by unat_arith
      then show "67108864 \<le> payload_region 67239936 r" "payload_region 67239936 r < 134217728"
        by (auto simp: payload_region_def COPY_SPACE_REGION_SIZE_def)
    qed
    moreover have "log_blocks example_space = 0" "\<not> blk_all_zeroes (cs_blocks example_space b) r" for b r
      by (simp_all add: example_space_def log_blocks_def copy_space_has_field_logging_bits_def)
    ultimately show ?thesis using example_addr by (simp add: block_ok_def example_payload)
  qed
  ultimately show ?thesis
    by (simp add: cs_ok_def example_lists_def numeral_3_eq_3) (simp add: example_space_def)
qed

theorem copy_space_allocate_correct_witness:
  "\<exists>ref a' cs' mem' L'.
    copy_space_allocate 8192 (2 ^ 4) 24 (no_allocation, example_space, \<lambda>_. 7) = Inr (ref, a', cs', mem')
    \<and> allocated 24 no_allocation example_space (\<lambda>_. 7) example_lists ref a' cs' mem' L'"
  by (rule copy_space_allocate_correct[OF example_ok no_allocation_ok]) simp_all

theorem copy_space_flip_correct_witness:
  "\<exists>cs'. copy_space_flip example_space = Inr cs'
    \<and> cs_ok cs' (\<lambda>_. 7) ([example_lists ! 0 @ example_lists ! 1 @ example_lists ! 2, [], []] @ drop 3 example_lists)
    \<and> cs_active_region cs' = cs_active_region example_space XOR 1 \<and> cs_in_gc cs'
    \<and> cs_allocated_bytes cs' = 0 \<and> cs_fragmentation cs' = 0
    \<and> (\<forall>b. \<exists>n. cs_blocks cs' b = (cs_blocks example_space b)\<lparr>blk_next := n\<rparr>)"
  by (rule copy_space_flip_correct[OF example_ok])

text \<open>An embedder whose objects have 16 bytes, and an address with its low bit set in the first word
  of a forwarded one.\<close>

definition example_embedder :: forwarding_ops where
  "example_embedder = \<lparr>
    gc_object_forwarded_nonatomic = (\<lambda>r m. if bit (m r) 0 then load_word m r - 1 else 0),
    gc_object_forward_nonatomic = (\<lambda>r new m. store_word m r (new + 1)),
    gc_trace_object_size = (\<lambda>r m. 16),
    gc_atomic_forward_begin = (\<lambda>r m. \<lparr> fwd_ref = r, fwd_data = 0, fwd_state = Fwd_Busy \<rparr>),
    gc_atomic_forward_acquire = (\<lambda>f m. (f, m)),
    gc_atomic_forward_retry_busy = (\<lambda>n f m. (True, f, m)),
    gc_atomic_forward_abort = (\<lambda>f m. m),
    gc_atomic_forward_object_size = (\<lambda>f m. 16),
    gc_atomic_forward_commit = (\<lambda>f new m. m),
    gc_atomic_forward_address = (\<lambda>f m. 0) \<rparr>"

lemma low_not_in_region:
  fixes x r :: u64
  assumes "unat x < 8192" "131072 \<le> unat r" "unat r + 65536 < 2 ^ 64"
  shows "\<not> x - r < 65536"
proof -
  have "unat (x - r) = unat x + 2 ^ 64 - unat r" using assms by (simp add: unat_sub_if')
  then show ?thesis using assms by (simp add: word_less_nat_alt)
qed

theorem copy_space_forward_correct_witness:
  "\<exists>res new a' cs' mem1 mem' L'.
    copy_space_forward False example_embedder 8192 (2 ^ 4) example_space True 4096 67305472 (no_allocation, example_space, \<lambda>_. 6)
      = Inr (res, a', cs', mem')
    \<and> allocated 16 no_allocation example_space (\<lambda>_. 6) example_lists new a' cs' mem1 L'
    \<and> forwarded_ok 67305472 16 4096 no_allocation example_space (\<lambda>_. 6) example_lists res new mem'"
proof (rule copy_space_forward_correct[OF example_ok no_allocation_ok])
  show "gc_object_forwarded_nonatomic example_embedder 67305472 (\<lambda>_. 6) = 0" by (simp add: example_embedder_def)
  show "gc_trace_object_size example_embedder 67305472 (\<lambda>_. 6) = 16" by (simp add: example_embedder_def)
  have "\<not> x < (8 :: u64)" if "\<not> x < 16" for x :: u64 using that by unat_arith
  then show "\<forall>new m x. \<not> x - 67305472 < 16 \<longrightarrow> gc_object_forward_nonatomic example_embedder 67305472 new m x = m x"
    by (simp add: example_embedder_def store_word_def)
  show "copy_space_contains example_space 67305472 = Inr True"
    unfolding copy_space_contains_def by (rule example_contains) simp_all
  have "x - 67305472 < COPY_SPACE_REGION_SIZE" if "x - 67305472 < 16" for x :: u64
    using that unfolding COPY_SPACE_REGION_SIZE_def by unat_arith
  moreover have "payload_region 67239936 (cs_active_region example_space XOR 1) = 67305472"
    by (simp add: payload_region_def COPY_SPACE_REGION_SIZE_def example_space_def)
  moreover have lo: "log_blocks example_space = 0" "cs_active_region example_space \<le> 1"
    by (simp_all add: example_space_def log_blocks_def copy_space_has_field_logging_bits_def)
  ultimately show "in_from_space example_space 67305472 16"
    unfolding in_from_space_def using example_addr example_payload by (intro exI[of _ example_block]) simp
  have low: "\<not> x - cs_region example_space b < COPY_SPACE_REGION_SIZE" if h: "x - 4096 < 8" "block_addr 0 b" for x b
  proof
    assume x: "x - cs_region example_space b < COPY_SPACE_REGION_SIZE"
    obtain s k where b: "s < 2 ^ 38" "1 \<le> k" "k < 512" "b = block_at s k" by (rule block_addrE[OF h(2)])
    have "cs_region example_space b = of_nat (2 ^ 26 * s + 2 ^ 17 * k)"
      using block_layout(1)[OF b(1-3)] b(4) by (simp add: cs_region_def example_space_def payload_region_def)
    moreover have "2 ^ 17 * k < 2 ^ 26" using b(3) by simp
    ultimately have r: "unat (cs_region example_space b) = 2 ^ 26 * s + 2 ^ 17 * k"
      by (simp only: unat_slab_offset[OF b(1)])
    obtain p where "unat (cs_region example_space b) = 2 ^ 16 * p" "2 ^ 16 * p + 2 ^ 16 + 2 ^ 26 \<le> 2 ^ 64"
      using region_position[OF h(2) lo(2)] unfolding cs_region_def by metis
    then have region_top: "unat (cs_region example_space b) + 65536 < 2 ^ 64" by simp
    have "unat x < 8192" using h(1) by unat_arith
    moreover have "x - cs_region example_space b < 65536" using x by (simp add: COPY_SPACE_REGION_SIZE_def)
    ultimately show False
      using r b(2) low_not_in_region[of x "cs_region example_space b"] region_top by simp
  qed
  show "\<forall>x. x - 4096 < 8 \<longrightarrow> x \<in> occupied example_space no_allocation example_lists
      \<or> (\<forall>b. block_addr (log_blocks example_space) b \<longrightarrow> \<not> x - cs_region example_space b < COPY_SPACE_REGION_SIZE)"
    unfolding lo using low by blast
qed (simp_all add: example_space_def)

end
