(* ===== verification/SharedWorklist.thy ===== *)
theory SharedWorklist
  imports Prelude "HOL-Library.Multiset"
begin

text \<open>
  \<open>src/src/shared-worklist.h\<close>: the Chase-Lev work-stealing deque of a parallel tracer. One thread,
  the owner, pushes and pops at the bottom; any number of threads steal at the top. First the
  operations as they run when no other thread is at the deque; then the same code as steps, one for
  each access to memory that another thread can notice, whose interleavings are sequentially
  consistent (the code's fences are there to make them so on weaker memory). \<open>acquire\<close> says for
  which sizes \<open>gc_platform_acquire_memory\<close> finds memory, which is zero. Shown: the operations are
  runs of the steps, and every interleaving is a run of an abstract deque.
\<close>

section \<open>The operations\<close>

record shared_worklist_buf =
  swb_log_size :: nat
  swb_size :: u64
  swb_data :: "gc_ref list"

definition shared_worklist_buf_min_log_size :: nat where "shared_worklist_buf_min_log_size = 10"
definition shared_worklist_buf_max_log_size :: nat where "shared_worklist_buf_max_log_size = 28"
definition shared_worklist_release_byte_threshold :: u64 where
  "shared_worklist_release_byte_threshold = 256 * 1024"

text \<open>\<open>None\<close> is a return of 0.\<close>

definition shared_worklist_buf_init :: "(u64 \<Rightarrow> bool) \<Rightarrow> nat \<Rightarrow> shared_worklist_buf option result" where
  "shared_worklist_buf_init acquire log_size =
    result_bind (gc_assert (shared_worklist_buf_min_log_size \<le> log_size)) (\<lambda>_.
    result_bind (gc_assert (log_size \<le> shared_worklist_buf_max_log_size)) (\<lambda>_.
    let sz = push_bit log_size 1 * 8
    in Inr (if acquire sz
            then Some \<lparr> swb_log_size = log_size, swb_size = push_bit log_size 1, swb_data = replicate (unat sz div 8) 0 \<rparr>
            else None)))"

definition shared_worklist_buf_byte_size :: "shared_worklist_buf \<Rightarrow> u64" where
  "shared_worklist_buf_byte_size buf = swb_size buf * 8"

text \<open>Discarded memory reads as zero.\<close>

definition shared_worklist_buf_release :: "shared_worklist_buf \<Rightarrow> shared_worklist_buf" where
  "shared_worklist_buf_release buf =
    (let byte_size = shared_worklist_buf_byte_size buf
     in if swb_data buf \<noteq> [] \<and> shared_worklist_release_byte_threshold \<le> byte_size
        then buf\<lparr>swb_data := replicate (length (swb_data buf)) 0\<rparr> else buf)"

definition shared_worklist_buf_destroy :: "shared_worklist_buf \<Rightarrow> shared_worklist_buf" where
  "shared_worklist_buf_destroy buf =
    (if swb_data buf \<noteq> [] then \<lparr> swb_log_size = 0, swb_size = 0, swb_data = [] \<rparr> else buf)"

definition shared_worklist_buf_get :: "shared_worklist_buf \<Rightarrow> u64 \<Rightarrow> gc_ref" where
  "shared_worklist_buf_get buf i = swb_data buf ! unat (i AND (swb_size buf - 1))"

definition shared_worklist_buf_put :: "shared_worklist_buf \<Rightarrow> u64 \<Rightarrow> gc_ref \<Rightarrow> shared_worklist_buf" where
  "shared_worklist_buf_put buf i ref = buf\<lparr>swb_data := (swb_data buf)[unat (i AND (swb_size buf - 1)) := ref]\<rparr>"

definition shared_worklist_buf_grow ::
    "(u64 \<Rightarrow> bool) \<Rightarrow> shared_worklist_buf \<Rightarrow> u64 \<Rightarrow> u64 \<Rightarrow> shared_worklist_buf option result" where
  "shared_worklist_buf_grow acquire buf b t =
    (if swb_log_size buf = shared_worklist_buf_max_log_size then Inr None
     else result_bind (shared_worklist_buf_init acquire (swb_log_size buf + 1)) (\<lambda>r.
       case r of None \<Rightarrow> Inr None
       | Some to \<Rightarrow> Inr (Some
           (fold (\<lambda>i to. shared_worklist_buf_put to (of_nat i) (shared_worklist_buf_get buf (of_nat i)))
             [unat t..<unat b] to))))"

record shared_worklist =
  sw_bottom :: u64
  sw_top :: u64
  sw_active :: nat
  sw_bufs :: "shared_worklist_buf list"

definition shared_worklist_zero :: shared_worklist where
  "shared_worklist_zero = \<lparr> sw_bottom = 0, sw_top = 0, sw_active = 0, sw_bufs =
    replicate (shared_worklist_buf_max_log_size - shared_worklist_buf_min_log_size + 1)
      \<lparr> swb_log_size = 0, swb_size = 0, swb_data = [] \<rparr> \<rparr>"

definition shared_worklist_init :: "(u64 \<Rightarrow> bool) \<Rightarrow> shared_worklist option result" where
  "shared_worklist_init acquire =
    result_bind (shared_worklist_buf_init acquire shared_worklist_buf_min_log_size) (\<lambda>r.
      Inr (map_option (\<lambda>buf. shared_worklist_zero\<lparr>sw_bufs := (sw_bufs shared_worklist_zero)[0 := buf]\<rparr>) r))"

definition shared_worklist_release :: "shared_worklist \<Rightarrow> shared_worklist" where
  "shared_worklist_release q =
    fold (\<lambda>i q. q\<lparr>sw_bufs := (sw_bufs q)[i := shared_worklist_buf_release (sw_bufs q ! i)]\<rparr>) (rev [0..<Suc (sw_active q)]) q"

definition shared_worklist_destroy :: "shared_worklist \<Rightarrow> shared_worklist" where
  "shared_worklist_destroy q =
    fold (\<lambda>i q. q\<lparr>sw_bufs := (sw_bufs q)[i := shared_worklist_buf_destroy (sw_bufs q ! i)]\<rparr>) (rev [0..<Suc (sw_active q)]) q"

definition shared_worklist_grow ::
    "(u64 \<Rightarrow> bool) \<Rightarrow> shared_worklist \<Rightarrow> nat \<Rightarrow> u64 \<Rightarrow> u64 \<Rightarrow> (shared_worklist \<times> nat) result" where
  "shared_worklist_grow acquire q cur b t =
    result_bind (shared_worklist_buf_grow acquire (sw_bufs q ! cur) b t) (\<lambda>r.
      case r of None \<Rightarrow> Inl Crash
      | Some buf \<Rightarrow> Inr (q\<lparr>sw_bufs := (sw_bufs q)[cur + 1 := buf], sw_active := cur + 1\<rparr>, cur + 1))"

definition sw_put :: "shared_worklist \<Rightarrow> nat \<Rightarrow> u64 \<Rightarrow> gc_ref \<Rightarrow> shared_worklist" where
  "sw_put q active i ref = q\<lparr>sw_bufs := (sw_bufs q)[active := shared_worklist_buf_put (sw_bufs q ! active) i ref]\<rparr>"

text \<open>The comparison of the size with the room is unsigned, as one side is a \<open>size_t\<close>.\<close>

definition sw_full :: "shared_worklist \<Rightarrow> nat \<Rightarrow> u64 \<Rightarrow> u64 \<Rightarrow> u64 \<Rightarrow> bool" where
  "sw_full q active b t cnt \<longleftrightarrow> swb_size (sw_bufs q ! active) - cnt < b - t"

definition shared_worklist_push :: "(u64 \<Rightarrow> bool) \<Rightarrow> shared_worklist \<Rightarrow> gc_ref \<Rightarrow> shared_worklist result" where
  "shared_worklist_push acquire q x =
    (let b = sw_bottom q; t = sw_top q; active = sw_active q
     in result_bind
       (if sw_full q active b t 1 then shared_worklist_grow acquire q active b t else Inr (q, active))
       (\<lambda>(q, active). Inr ((sw_put q active b x)\<lparr>sw_bottom := b + 1\<rparr>)))"

definition sw_make_room ::
    "(u64 \<Rightarrow> bool) \<Rightarrow> u64 \<Rightarrow> u64 \<Rightarrow> u64 \<Rightarrow> shared_worklist \<times> nat \<Rightarrow> (shared_worklist \<times> nat) result" where
  "sw_make_room acquire b t cnt =
    while_result (\<lambda>(q, active). sw_full q active b t cnt) (\<lambda>(q, active). shared_worklist_grow acquire q active b t)"

definition shared_worklist_push_many ::
    "(u64 \<Rightarrow> bool) \<Rightarrow> shared_worklist \<Rightarrow> gc_ref list \<Rightarrow> shared_worklist result" where
  "shared_worklist_push_many acquire q objv =
    (let b = sw_bottom q; t = sw_top q; active = sw_active q; cnt = of_nat (length objv)
     in result_bind
       (sw_make_room acquire b t cnt (q, active))
       (\<lambda>(q, active).
         Inr ((fold (\<lambda>i q. sw_put q active (b + of_nat i) (objv ! i)) [0..<length objv] q)\<lparr>sw_bottom := b + cnt\<rparr>)))"

text \<open>Alone at the deque, the compare-and-swap of \<open>top\<close> succeeds.\<close>

definition shared_worklist_try_pop :: "shared_worklist \<Rightarrow> gc_ref \<times> shared_worklist" where
  "shared_worklist_try_pop q =
    (let b = sw_bottom q; active = sw_active q;
         q = q\<lparr>sw_bottom := b - 1\<rparr>;
         t = sw_top q; sz = sint (b - t)
     in if sz > 0 then
          (let x = shared_worklist_buf_get (sw_bufs q ! active) (b - 1)
           in if sz = 1 then (x, q\<lparr>sw_top := t + 1, sw_bottom := b\<rparr>) else (x, q))
        else (gc_ref_null, q\<lparr>sw_bottom := b\<rparr>))"

definition shared_worklist_steal :: "shared_worklist \<Rightarrow> gc_ref \<times> shared_worklist" where
  "shared_worklist_steal q =
    (let t = sw_top q; b = sw_bottom q; sz = sint (b - t)
     in if sz \<le> 0 then (gc_ref_null, q)
        else (shared_worklist_buf_get (sw_bufs q ! sw_active q) t, q\<lparr>sw_top := t + 1\<rparr>))"

definition shared_worklist_size :: "shared_worklist \<Rightarrow> int" where
  "shared_worklist_size q = sint (sw_bottom q - sw_top q)"

definition shared_worklist_can_steal :: "shared_worklist \<Rightarrow> bool" where
  "shared_worklist_can_steal q \<longleftrightarrow> shared_worklist_size q > 0"

section \<open>The steps of the threads\<close>

text \<open>
  Where the owner is: between operations; in a push, with what it loaded; storing the \<open>i\<close>th of the
  pushed references; in \<open>try_pop\<close> after the store of \<open>bottom\<close>; before its compare-and-swap; before
  it restores \<open>bottom\<close> and returns. Only the owner writes \<open>bottom\<close>, \<open>active\<close> and the buffers, so its
  own loads of them take no step; the new buffer of a grown deque is not seen before \<open>active\<close> is stored.
\<close>

datatype owner_pc = Owner_Idle
  | Owner_Push u64 u64 nat gc_ref
  | Owner_Push_Many u64 u64 nat "gc_ref list"
  | Owner_Put u64 "gc_ref list" nat nat
  | Owner_Pop u64 nat
  | Owner_Pop_Cas u64 u64 gc_ref
  | Owner_Pop_Restore u64 gc_ref

text \<open>Where a thief is: at the head of its loop; after it loaded \<open>top\<close>, \<open>bottom\<close>, \<open>active\<close>, the reference.\<close>

datatype thief_pc = Thief_Idle | Thief_Top u64 | Thief_Bottom u64 | Thief_Active u64 nat | Thief_Got u64 gc_ref

text \<open>What a step does to the deque. A pop or a steal that finds nothing has no reference.\<close>

datatype deque_event = Internal | Pushed "gc_ref list" | Popped "gc_ref option" | Stolen "gc_ref option"

inductive owner_step ::
    "(u64 \<Rightarrow> bool) \<Rightarrow> shared_worklist \<Rightarrow> owner_pc \<Rightarrow> deque_event \<Rightarrow> shared_worklist \<Rightarrow> owner_pc \<Rightarrow> bool"
  for acquire where
  push_load: "owner_step acquire q Owner_Idle Internal q (Owner_Push (sw_bottom q) (sw_top q) (sw_active q) x)"
| push_grow: "sw_full q active b t 1 \<Longrightarrow> shared_worklist_grow acquire q active b t = Inr (q', active') \<Longrightarrow>
    owner_step acquire q (Owner_Push b t active x) Internal q' (Owner_Put b [x] 0 active')"
| push_room: "\<not> sw_full q active b t 1 \<Longrightarrow>
    owner_step acquire q (Owner_Push b t active x) Internal q (Owner_Put b [x] 0 active)"
| push_many_load: "owner_step acquire q Owner_Idle Internal q (Owner_Push_Many (sw_bottom q) (sw_top q) (sw_active q) xs)"
| push_many_grow: "sw_full q active b t (of_nat (length xs)) \<Longrightarrow>
    shared_worklist_grow acquire q active b t = Inr (q', active') \<Longrightarrow>
    owner_step acquire q (Owner_Push_Many b t active xs) Internal q' (Owner_Push_Many b t active' xs)"
| push_many_room: "\<not> sw_full q active b t (of_nat (length xs)) \<Longrightarrow>
    owner_step acquire q (Owner_Push_Many b t active xs) Internal q (Owner_Put b xs 0 active)"
| push_put: "i < length xs \<Longrightarrow>
    owner_step acquire q (Owner_Put b xs i active) Internal (sw_put q active (b + of_nat i) (xs ! i)) (Owner_Put b xs (Suc i) active)"
| push_store: "i = length xs \<Longrightarrow>
    owner_step acquire q (Owner_Put b xs i active) (Pushed xs) (q\<lparr>sw_bottom := b + of_nat (length xs)\<rparr>) Owner_Idle"
| pop_store: "owner_step acquire q Owner_Idle Internal (q\<lparr>sw_bottom := sw_bottom q - 1\<rparr>) (Owner_Pop (sw_bottom q) (sw_active q))"
| pop_many: "sint (b - sw_top q) > 1 \<Longrightarrow>
    owner_step acquire q (Owner_Pop b active) (Popped (Some (shared_worklist_buf_get (sw_bufs q ! active) (b - 1)))) q Owner_Idle"
| pop_last: "sint (b - sw_top q) = 1 \<Longrightarrow>
    owner_step acquire q (Owner_Pop b active) Internal q
      (Owner_Pop_Cas b (sw_top q) (shared_worklist_buf_get (sw_bufs q ! active) (b - 1)))"
| pop_none: "sint (b - sw_top q) \<le> 0 \<Longrightarrow>
    owner_step acquire q (Owner_Pop b active) (Popped None) q (Owner_Pop_Restore b gc_ref_null)"
| pop_won: "sw_top q = t \<Longrightarrow>
    owner_step acquire q (Owner_Pop_Cas b t x) (Popped (Some x)) (q\<lparr>sw_top := t + 1\<rparr>) (Owner_Pop_Restore b x)"
| pop_lost: "sw_top q \<noteq> t \<Longrightarrow>
    owner_step acquire q (Owner_Pop_Cas b t x) (Popped None) q (Owner_Pop_Restore b gc_ref_null)"
| pop_restore: "owner_step acquire q (Owner_Pop_Restore b x) Internal (q\<lparr>sw_bottom := b\<rparr>) Owner_Idle"

inductive thief_step :: "shared_worklist \<Rightarrow> thief_pc \<Rightarrow> deque_event \<Rightarrow> shared_worklist \<Rightarrow> thief_pc \<Rightarrow> bool" where
  steal_top: "thief_step q Thief_Idle Internal q (Thief_Top (sw_top q))"
| steal_none: "sint (sw_bottom q - t) \<le> 0 \<Longrightarrow> thief_step q (Thief_Top t) (Stolen None) q Thief_Idle"
| steal_bottom: "sint (sw_bottom q - t) > 0 \<Longrightarrow> thief_step q (Thief_Top t) Internal q (Thief_Bottom t)"
| steal_active: "thief_step q (Thief_Bottom t) Internal q (Thief_Active t (sw_active q))"
| steal_get: "thief_step q (Thief_Active t active) Internal q
    (Thief_Got t (shared_worklist_buf_get (sw_bufs q ! active) t))"
| steal_won: "sw_top q = t \<Longrightarrow> thief_step q (Thief_Got t x) (Stolen (Some x)) (q\<lparr>sw_top := t + 1\<rparr>) Thief_Idle"
| steal_lost: "sw_top q \<noteq> t \<Longrightarrow> thief_step q (Thief_Got t x) Internal q Thief_Idle"

record deque_state =
  ds_q :: shared_worklist
  ds_owner :: owner_pc
  ds_thief :: "nat \<Rightarrow> thief_pc"

inductive deque_step :: "(u64 \<Rightarrow> bool) \<Rightarrow> deque_state \<Rightarrow> deque_event \<Rightarrow> deque_state \<Rightarrow> bool" for acquire where
  owner: "owner_step acquire (ds_q s) (ds_owner s) ev q pc \<Longrightarrow> deque_step acquire s ev (s\<lparr>ds_q := q, ds_owner := pc\<rparr>)"
| thief: "thief_step (ds_q s) (ds_thief s i) ev q pc \<Longrightarrow>
    deque_step acquire s ev (s\<lparr>ds_q := q, ds_thief := (ds_thief s)(i := pc)\<rparr>)"

section \<open>The invariant of the interleavings\<close>

text \<open>The end of the deque: the owner's store of \<open>bottom\<close> in \<open>try_pop\<close> does not yet take the last element.\<close>

definition deque_limit :: "shared_worklist \<Rightarrow> owner_pc \<Rightarrow> u64" where
  "deque_limit q pc = (case pc of Owner_Pop b _ \<Rightarrow> b | Owner_Pop_Cas b _ _ \<Rightarrow> b | Owner_Pop_Restore b _ \<Rightarrow> b | _ \<Rightarrow> sw_bottom q)"

definition sw_get :: "shared_worklist \<Rightarrow> nat \<Rightarrow> gc_ref" where
  "sw_get q i = shared_worklist_buf_get (sw_bufs q ! sw_active q) (of_nat i)"

definition deque_abs :: "shared_worklist \<Rightarrow> owner_pc \<Rightarrow> gc_ref list" where
  "deque_abs q pc = map (sw_get q) [unat (sw_top q)..<unat (deque_limit q pc)]"

definition buf_ok :: "nat \<Rightarrow> shared_worklist_buf \<Rightarrow> bool" where
  "buf_ok j buf \<longleftrightarrow> swb_log_size buf = 10 + j \<and> swb_size buf = 2 ^ (10 + j) \<and> length (swb_data buf) = 2 ^ (10 + j)"

definition sw_ok :: "shared_worklist \<Rightarrow> u64 \<Rightarrow> bool" where
  "sw_ok q limit \<longleftrightarrow> sw_active q < 19 \<and> length (sw_bufs q) = 19 \<and> (\<forall>j \<le> sw_active q. buf_ok j (sw_bufs q ! j))
    \<and> unat (sw_top q) \<le> unat limit \<and> unat limit \<le> unat (sw_top q) + 2 ^ (10 + sw_active q) \<and> unat limit < 2 ^ 63"

fun owner_ok :: "shared_worklist \<Rightarrow> owner_pc \<Rightarrow> bool" where
  "owner_ok q Owner_Idle = True"
| "owner_ok q (Owner_Push b t a x) = (b = sw_bottom q \<and> a = sw_active q \<and> unat t \<le> unat (sw_top q)
    \<and> unat b \<le> unat t + 2 ^ (10 + a))"
| "owner_ok q (Owner_Push_Many b t a xs) = (b = sw_bottom q \<and> a = sw_active q \<and> unat t \<le> unat (sw_top q)
    \<and> unat b \<le> unat t + 2 ^ (10 + a) \<and> length xs \<le> 2 ^ (10 + a))"
| "owner_ok q (Owner_Put b xs i a) = (b = sw_bottom q \<and> a = sw_active q \<and> i \<le> length xs
    \<and> unat b + length xs \<le> unat (sw_top q) + 2 ^ (10 + a) \<and> (\<forall>k < i. sw_get q (unat b + k) = xs ! k))"
| "owner_ok q (Owner_Pop b a) = (sw_bottom q = b - 1 \<and> a = sw_active q)"
| "owner_ok q (Owner_Pop_Cas b t x) = (sw_bottom q = b - 1 \<and> unat t \<le> unat (sw_top q) \<and> unat b = unat t + 1
    \<and> x = sw_get q (unat t))"
| "owner_ok q (Owner_Pop_Restore b x) = (sw_bottom q = b - 1 \<and> sw_top q = b)"

text \<open>What a thief holds is right if no other thread has taken it since the load of \<open>top\<close>.\<close>

fun thief_ok :: "shared_worklist \<Rightarrow> u64 \<Rightarrow> thief_pc \<Rightarrow> bool" where
  "thief_ok q limit Thief_Idle = True"
| "thief_ok q limit (Thief_Top t) = (unat t \<le> unat (sw_top q))"
| "thief_ok q limit (Thief_Bottom t) = (unat t \<le> unat (sw_top q) \<and> (t = sw_top q \<longrightarrow> unat t < unat limit))"
| "thief_ok q limit (Thief_Active t a) = (unat t \<le> unat (sw_top q) \<and> (t = sw_top q \<longrightarrow> unat t < unat limit
    \<and> a \<le> sw_active q \<and> shared_worklist_buf_get (sw_bufs q ! a) t = sw_get q (unat t)))"
| "thief_ok q limit (Thief_Got t x) = (unat t \<le> unat (sw_top q) \<and> (t = sw_top q \<longrightarrow> unat t < unat limit
    \<and> x = sw_get q (unat t)))"

definition deque_ok :: "deque_state \<Rightarrow> bool" where
  "deque_ok s \<longleftrightarrow> sw_ok (ds_q s) (deque_limit (ds_q s) (ds_owner s)) \<and> owner_ok (ds_q s) (ds_owner s)
    \<and> (\<forall>i. thief_ok (ds_q s) (deque_limit (ds_q s) (ds_owner s)) (ds_thief s i))"

text \<open>What the deque promises.\<close>

inductive deque_spec :: "gc_ref list \<Rightarrow> deque_event \<Rightarrow> gc_ref list \<Rightarrow> bool" where
  "deque_spec l Internal l"
| "deque_spec l (Pushed xs) (l @ xs)"
| "deque_spec (l @ [x]) (Popped (Some x)) l"
| "deque_spec [] (Popped None) []"
| "deque_spec (x # l) (Stolen (Some x)) l"
| "length l \<le> 1 \<Longrightarrow> deque_spec l (Stolen None) l"

section \<open>Buffers\<close>

lemma buf_index:
  assumes "buf_ok j buf" "j < 19"
  shows "unat (i AND (swb_size buf - 1)) = unat i mod 2 ^ (10 + j)"
proof -
  have "swb_size buf = 2 ^ (10 + j)" using assms by (simp add: buf_ok_def)
  then show ?thesis by (simp only: and_exp_minus_1)
qed

lemma buf_get: "buf_ok j buf \<Longrightarrow> j < 19 \<Longrightarrow> shared_worklist_buf_get buf i = swb_data buf ! (unat i mod 2 ^ (10 + j))"
  by (simp only: shared_worklist_buf_get_def buf_index)

lemma buf_put:
  assumes "buf_ok j buf" "j < 19"
  shows "buf_ok j (shared_worklist_buf_put buf i x)"
    and "shared_worklist_buf_get (shared_worklist_buf_put buf i x) k
      = (if unat k mod 2 ^ (10 + j) = unat i mod 2 ^ (10 + j) then x else shared_worklist_buf_get buf k)"
proof -
  let ?b = "shared_worklist_buf_put buf i x"
  have d: "swb_data ?b = (swb_data buf)[unat i mod 2 ^ (10 + j) := x]" "swb_size ?b = swb_size buf" "swb_log_size ?b = swb_log_size buf"
    unfolding shared_worklist_buf_put_def buf_index[OF assms] by simp_all
  show ok: "buf_ok j ?b" using assms d by (simp add: buf_ok_def)
  have "length (swb_data buf) = 2 ^ (10 + j)" using assms by (simp add: buf_ok_def)
  then show "shared_worklist_buf_get ?b k
      = (if unat k mod 2 ^ (10 + j) = unat i mod 2 ^ (10 + j) then x else shared_worklist_buf_get buf k)"
    unfolding buf_get[OF ok assms(2)] buf_get[OF assms] d by (simp add: nth_list_update)
qed

lemma buf_init_ok:
  assumes "shared_worklist_buf_init acquire (10 + j) = Inr (Some buf)"
  shows "buf_ok j buf" "j < 19" "\<And>i. i < 2 ^ (10 + j) \<Longrightarrow> swb_data buf ! i = 0"
proof -
  have j: "j < 19" using assms
    by (auto simp: shared_worklist_buf_init_def gc_assert_def shared_worklist_buf_max_log_size_def split: if_splits)
  have "10 + j < 64" "13 + j < 64" using j by simp_all
  then have u: "unat (push_bit (10 + j) 1 * 8 :: u64) = 2 ^ (10 + j) * 8"
    using unat_exp[of "13 + j", where 'a = 64] by (simp add: push_bit_eq_mult power_add mult.commute mult.left_commute)
  have b: "buf = \<lparr> swb_log_size = 10 + j, swb_size = push_bit (10 + j) 1, swb_data = replicate (2 ^ (10 + j)) 0 \<rparr>"
    using assms j u by (auto simp: shared_worklist_buf_init_def gc_assert_def Let_def
        shared_worklist_buf_min_log_size_def shared_worklist_buf_max_log_size_def split: if_splits)
  show "buf_ok j buf" unfolding b buf_ok_def by (simp add: push_bit_eq_mult)
  show "swb_data buf ! i = 0" if "i < 2 ^ (10 + j)" for i using that unfolding b by simp
  show "j < 19" by (rule j)
qed

text \<open>A grown buffer has what the old one had between \<open>t\<close> and \<open>b\<close>.\<close>

lemma buf_copy:
  fixes f :: "nat \<Rightarrow> gc_ref"
  assumes "buf_ok j to" "j < 19" "t + m \<le> t + 2 ^ (10 + j)" "t + m < 2 ^ 64"
    and to': "to' = fold (\<lambda>i to. shared_worklist_buf_put to (of_nat i) (f i)) [t..<t + m] to"
  shows "buf_ok j to' \<and> (\<forall>i. t \<le> i \<longrightarrow> i < t + m \<longrightarrow> shared_worklist_buf_get to' (of_nat i) = f i)"
  using assms(3,4) unfolding to'
proof (induction m)
  case 0
  then show ?case using assms(1) by simp
next
  case (Suc m)
  let ?g = "\<lambda>m. fold (\<lambda>i to. shared_worklist_buf_put to (of_nat i) (f i)) [t..<t + m] to"
  have IH: "buf_ok j (?g m)" "\<forall>i. t \<le> i \<longrightarrow> i < t + m \<longrightarrow> shared_worklist_buf_get (?g m) (of_nat i) = f i"
    using Suc.IH Suc.prems by simp_all
  have e: "?g (Suc m) = shared_worklist_buf_put (?g m) (of_nat (t + m)) (f (t + m))" by simp
  have "shared_worklist_buf_get (?g (Suc m)) (of_nat i) = f i" if i: "t \<le> i" "i < t + Suc m" for i
  proof (cases "i = t + m")
    case True
    then show ?thesis unfolding e buf_put(2)[OF IH(1) assms(2)] by simp
  next
    case False
    then have "i mod 2 ^ (10 + j) \<noteq> (t + m) mod 2 ^ (10 + j)"
      using mod_ring_eq[of i "2 ^ (10 + j)" "t + m"] i Suc.prems by auto
    moreover have "unat (of_nat (t + m) :: u64) = t + m" "unat (of_nat i :: u64) = i"
      using i Suc.prems by (simp_all only: unat_of_nat_u64)
    ultimately show ?thesis using IH(2) False i unfolding e buf_put(2)[OF IH(1) assms(2)]
      by (simp del: of_nat_add)
  qed
  then show ?case using buf_put(1)[OF IH(1) assms(2)] e by simp
qed

lemma grow_ok:
  assumes "shared_worklist_grow acquire q (sw_active q) b t = Inr (q', a')" "sw_ok q limit"
    and "unat b \<le> unat t + 2 ^ (10 + sw_active q)"
  shows "a' = sw_active q + 1" "sw_active q' = a'" "sw_top q' = sw_top q" "sw_bottom q' = sw_bottom q"
    "length (sw_bufs q') = 19" "a' < 19" "\<forall>j \<le> a'. buf_ok j (sw_bufs q' ! j)"
    "\<forall>j < a'. sw_bufs q' ! j = sw_bufs q ! j" "\<forall>i. unat t \<le> i \<longrightarrow> i < unat b \<longrightarrow> sw_get q' i = sw_get q i"
proof -
  let ?a = "sw_active q"
  let ?buf = "sw_bufs q ! ?a"
  have q: "?a < 19" "length (sw_bufs q) = 19" "\<forall>j \<le> ?a. buf_ok j (sw_bufs q ! j)" using assms(2) by (auto simp: sw_ok_def)
  have log: "swb_log_size ?buf = 10 + ?a" using q by (simp add: buf_ok_def)
  obtain to where to: "shared_worklist_buf_grow acquire ?buf b t = Inr (Some to)"
    "q' = q\<lparr>sw_bufs := (sw_bufs q)[?a + 1 := to], sw_active := ?a + 1\<rparr>" "a' = ?a + 1"
    using assms(1) by (auto simp: shared_worklist_grow_def result_bind_eq_Inr split: option.splits)
  obtain to0 where to0: "shared_worklist_buf_init acquire (10 + (?a + 1)) = Inr (Some to0)"
    "to = fold (\<lambda>i to. shared_worklist_buf_put to (of_nat i) (shared_worklist_buf_get ?buf (of_nat i))) [unat t..<unat b] to0"
    using to(1) log by (auto simp: shared_worklist_buf_grow_def result_bind_eq_Inr split: if_splits option.splits)
  note I = buf_init_ok[OF to0(1)]
  have "buf_ok (?a + 1) to \<and> (\<forall>i. unat t \<le> i \<longrightarrow> i < unat b \<longrightarrow>
      shared_worklist_buf_get to (of_nat i) = shared_worklist_buf_get ?buf (of_nat i))"
  proof (cases "unat t \<le> unat b")
    case True
    have "(2 :: nat) ^ (10 + ?a) \<le> 2 ^ (10 + (?a + 1))" by (intro power_increasing) auto
    then have "unat t + (unat b - unat t) \<le> unat t + 2 ^ (10 + (?a + 1))" using assms(3) True by linarith
    moreover have "unat t + (unat b - unat t) < 2 ^ 64" using u64_bound[of b] True by simp
    ultimately show ?thesis
      using buf_copy[OF I(1,2) _ _ refl, of "unat t" "unat b - unat t" "\<lambda>i. shared_worklist_buf_get ?buf (of_nat i)"] True
      unfolding to0(2) by simp
  next
    case False
    then show ?thesis using I(1) unfolding to0(2) by simp
  qed
  then show "\<forall>j \<le> a'. buf_ok j (sw_bufs q' ! j)" "\<forall>i. unat t \<le> i \<longrightarrow> i < unat b \<longrightarrow> sw_get q' i = sw_get q i"
    using q I(2) unfolding to(2,3) by (auto simp: sw_get_def le_Suc_eq)
  show "a' < 19" using I(2) to(3) by simp
  show "a' = ?a + 1" by (rule to(3))
  show "sw_active q' = a'" "sw_top q' = sw_top q" "sw_bottom q' = sw_bottom q" "length (sw_bufs q') = 19"
    "\<forall>j < a'. sw_bufs q' ! j = sw_bufs q ! j"
    using q unfolding to(2,3) by auto
qed

lemma put_ok:
  assumes "sw_ok q limit" and q'_def: "q' = sw_put q (sw_active q) i x"
  shows "sw_ok q' limit" "sw_active q' = sw_active q" "sw_top q' = sw_top q" "sw_bottom q' = sw_bottom q"
    "\<forall>j. j \<noteq> sw_active q \<longrightarrow> sw_bufs q' ! j = sw_bufs q ! j"
    "shared_worklist_buf_get (sw_bufs q' ! sw_active q) k
      = (if unat k mod 2 ^ (10 + sw_active q) = unat i mod 2 ^ (10 + sw_active q) then x
         else shared_worklist_buf_get (sw_bufs q ! sw_active q) k)"
proof -
  let ?a = "sw_active q"
  have q: "?a < 19" "length (sw_bufs q) = 19" "buf_ok ?a (sw_bufs q ! ?a)" "\<forall>j \<le> ?a. buf_ok j (sw_bufs q ! j)"
    using assms(1) by (auto simp: sw_ok_def)
  note P = buf_put[OF q(3,1), where i = i and x = x]
  show "sw_active q' = sw_active q" "sw_top q' = sw_top q" "sw_bottom q' = sw_bottom q"
    "\<forall>j. j \<noteq> ?a \<longrightarrow> sw_bufs q' ! j = sw_bufs q ! j"
    by (simp_all add: q'_def sw_put_def)
  have e: "sw_bufs q' ! ?a = shared_worklist_buf_put (sw_bufs q ! ?a) i x" using q by (simp add: q'_def sw_put_def)
  show "shared_worklist_buf_get (sw_bufs q' ! ?a) k
      = (if unat k mod 2 ^ (10 + ?a) = unat i mod 2 ^ (10 + ?a) then x
         else shared_worklist_buf_get (sw_bufs q ! ?a) k)"
    unfolding e by (rule P(2))
  have "\<forall>j \<le> ?a. buf_ok j (sw_bufs q' ! j)" using q P(1) by (auto simp: q'_def sw_put_def nth_list_update)
  then show "sw_ok q' limit" using assms(1) unfolding sw_ok_def by (simp add: q'_def sw_put_def)
qed

text \<open>A store past the limit, in the room there is, leaves what is in the deque.\<close>

lemma put_get:
  assumes "sw_ok q limit" "unat (sw_top q) \<le> i" "i < k" "k < unat (sw_top q) + 2 ^ (10 + sw_active q)"
    and "unat idx = k"
  shows "sw_get (sw_put q (sw_active q) idx x) i = sw_get q i"
    "sw_get (sw_put q (sw_active q) idx x) k = x"
proof -
  note P = put_ok[OF assms(1) refl, where i = idx and x = x]
  have k: "k < 2 ^ 64" using u64_bound[of idx] assms(5) by simp
  have "i mod 2 ^ (10 + sw_active q) \<noteq> k mod 2 ^ (10 + sw_active q)"
    using mod_ring_eq[of i "2 ^ (10 + sw_active q)" k] assms(2-4) by auto
  then show "sw_get (sw_put q (sw_active q) idx x) i = sw_get q i"
    "sw_get (sw_put q (sw_active q) idx x) k = x"
    unfolding sw_get_def P(2) P(6) using assms(3,5) k by (simp_all add: unat_of_nat_u64)
qed

lemma full_room:
  assumes "sw_ok q limit" "unat t \<le> unat b" "unat b \<le> unat t + 2 ^ (10 + sw_active q)" "n \<le> 2 ^ (10 + sw_active q)"
  shows "sw_full q (sw_active q) b t (of_nat n) \<longleftrightarrow> unat t + 2 ^ (10 + sw_active q) < unat b + n"
proof -
  have s: "swb_size (sw_bufs q ! sw_active q) = 2 ^ (10 + sw_active q)" "sw_active q < 19"
    using assms(1) by (auto simp: sw_ok_def buf_ok_def)
  then have u: "unat (swb_size (sw_bufs q ! sw_active q)) = 2 ^ (10 + sw_active q)" using unat_exp[of "10 + sw_active q", where 'a = 64] by simp
  have "(2 :: nat) ^ (10 + sw_active q) \<le> 2 ^ 29" using s(2) by (intro power_increasing) auto
  then have "unat (of_nat n :: u64) = n" using assms(4) by (intro unat_of_nat_u64) (simp del: power_add)
  then show ?thesis using assms(2-4) u unfolding sw_full_def word_less_nat_alt by (auto simp: unat_sub_if')
qed

lemma sint_diff:
  assumes "unat b < 2 ^ 63" "unat t < 2 ^ 63"
  shows "sint (b - t :: u64) = int (unat b) - int (unat t)" "sint (b - 1 - t) = int (unat b) - 1 - int (unat t)"
proof -
  have e: "sint (word_of_int k :: u64) = k" if "- (2 ^ 63) \<le> k" "k < 2 ^ 63" for k
    using that signed_take_bit_int_eq_self[of 63 k] by (simp only: sint_sbintrunc') simp
  have w: "w = word_of_int (int (unat w))" for w :: u64 by simp
  have n: "int (unat b) < 2 ^ 63" "int (unat t) < 2 ^ 63" "0 \<le> int (unat b)" "0 \<le> int (unat t)"
    using assms[folded of_nat_less_iff[where 'a = int]] by (simp_all only: of_nat_power of_nat_numeral of_nat_0_le_iff)
  have "b - t = word_of_int (int (unat b) - int (unat t))" using w[of b] w[of t] by (metis wi_hom_sub)
  moreover have "sint (word_of_int (int (unat b) - int (unat t)) :: u64) = int (unat b) - int (unat t)"
    by (rule e) (use n in linarith)+
  ultimately show "sint (b - t) = int (unat b) - int (unat t)" by (simp only:)
  have "b - 1 - t = word_of_int (int (unat b) - 1 - int (unat t))" by (simp add: wi_hom_sub[symmetric])
  moreover have "sint (word_of_int (int (unat b) - 1 - int (unat t)) :: u64) = int (unat b) - 1 - int (unat t)"
    by (rule e) (use n in linarith)+
  ultimately show "sint (b - 1 - t) = int (unat b) - 1 - int (unat t)" by (simp only:)
qed

section \<open>Every step keeps the invariant and is one of the abstract deque's\<close>

lemma thief_pass:
  assumes "thief_ok q limit pc" "unat (sw_top q) < unat (sw_top q')"
  shows "thief_ok q' limit' pc"
  using assms by (cases pc) auto

lemma thief_keep:
  assumes "thief_ok q limit pc" "sw_top q' = sw_top q" "sw_active q \<le> sw_active q'"
    and "unat (sw_top q) < unat limit \<longrightarrow> unat (sw_top q) < unat limit' \<and> sw_get q' (unat (sw_top q)) = sw_get q (unat (sw_top q))
      \<and> (\<forall>a \<le> sw_active q. shared_worklist_buf_get (sw_bufs q ! a) (sw_top q) = sw_get q (unat (sw_top q)) \<longrightarrow>
          shared_worklist_buf_get (sw_bufs q' ! a) (sw_top q) = sw_get q (unat (sw_top q)))"
  shows "thief_ok q' limit' pc"
  using assms by (cases pc) auto

text \<open>What a step of the owner has to show; \<open>q\<close> and \<open>pc\<close> are before it, \<open>q'\<close> and \<open>pc'\<close> after.\<close>

definition owner_moves :: "shared_worklist \<Rightarrow> owner_pc \<Rightarrow> deque_event \<Rightarrow> shared_worklist \<Rightarrow> owner_pc \<Rightarrow> bool" where
  "owner_moves q pc ev q' pc' \<longleftrightarrow> sw_ok q' (deque_limit q' pc') \<and> owner_ok q' pc'
    \<and> (\<forall>tpc. thief_ok q (deque_limit q pc) tpc \<longrightarrow> thief_ok q' (deque_limit q' pc') tpc)
    \<and> deque_spec (deque_abs q pc) ev (deque_abs q' pc')"

lemma sw_get_simps [simp]:
  "sw_get (q\<lparr>sw_bottom := b\<rparr>) = sw_get q" "sw_get (q\<lparr>sw_top := t\<rparr>) = sw_get q"
  by (simp_all add: sw_get_def fun_eq_iff)

lemma sw_ok_simps [simp]: "sw_ok (q\<lparr>sw_bottom := b\<rparr>) limit = sw_ok q limit"
  by (simp add: sw_ok_def)

text \<open>A step that leaves the buffers, the top and the limit.\<close>

lemma owner_moves_quiet:
  assumes "sw_ok q (deque_limit q pc)" "sw_top q' = sw_top q" "sw_active q' = sw_active q" "sw_bufs q' = sw_bufs q"
    and "deque_limit q' pc' = deque_limit q pc" "owner_ok q' pc'" "deque_spec (deque_abs q pc) ev (deque_abs q pc)"
  shows "owner_moves q pc ev q' pc'"
proof -
  have "sw_get q' = sw_get q" using assms(3,4) by (simp add: sw_get_def fun_eq_iff)
  moreover have "thief_ok q' limit tpc" if "thief_ok q limit tpc" for tpc limit
    by (rule thief_keep[OF that]) (use assms(2-4) calculation in auto)
  moreover have "sw_ok q' (deque_limit q' pc')" using assms(1-5) by (simp add: sw_ok_def)
  ultimately show ?thesis using assms by (simp add: owner_moves_def deque_abs_def)
qed

lemma owner_moves_grow:
  assumes ok: "sw_ok q (sw_bottom q)" and g: "shared_worklist_grow acquire q (sw_active q) (sw_bottom q) t = Inr (q', a')"
    and t: "unat t \<le> unat (sw_top q)" "unat (sw_bottom q) \<le> unat t + 2 ^ (10 + sw_active q)"
    and pc: "deque_limit q pc = sw_bottom q" "\<And>q. deque_limit q pc' = sw_bottom q" "owner_ok q' pc'"
  shows "owner_moves q pc Internal q' pc'"
proof -
  note G = grow_ok[OF g ok t(2)]
  have q: "unat (sw_top q) \<le> unat (sw_bottom q)" "unat (sw_bottom q) < 2 ^ 63" "unat (sw_bottom q) \<le> unat (sw_top q) + 2 ^ (10 + sw_active q)"
    using ok by (simp_all add: sw_ok_def)
  have "(2 :: nat) ^ (10 + sw_active q) \<le> 2 ^ (10 + a')" using G(1) by (intro power_increasing) auto
  then have room: "unat (sw_bottom q) \<le> unat (sw_top q) + 2 ^ (10 + a')" using q(3) by linarith
  have "sw_ok q' (sw_bottom q')" unfolding sw_ok_def using G q room by simp
  moreover have get: "sw_get q' i = sw_get q i" if "unat (sw_top q) \<le> i" "i < unat (sw_bottom q)" for i
    using G(9) t(1) that by simp
  then have "deque_abs q' pc' = deque_abs q pc" by (simp add: deque_abs_def pc G)
  moreover have "thief_ok q' (sw_bottom q') tpc" if "thief_ok q (sw_bottom q) tpc" for tpc
    by (rule thief_keep[OF that]) (use G get in auto)
  ultimately show ?thesis using pc by (simp add: owner_moves_def deque_spec.intros)
qed

lemma owner_moves_put:
  assumes ok: "sw_ok q (sw_bottom q)" and i: "i < length xs" and o: "owner_ok q (Owner_Put b xs i a)"
  shows "owner_moves q (Owner_Put b xs i a) Internal (sw_put q a (b + of_nat i) (xs ! i)) (Owner_Put b xs (Suc i) a)"
proof -
  let ?q = "sw_put q a (b + of_nat i) (xs ! i)"
  have o: "b = sw_bottom q" "a = sw_active q" "unat b + length xs \<le> unat (sw_top q) + 2 ^ (10 + sw_active q)"
    "\<forall>k < i. sw_get q (unat b + k) = xs ! k"
    using o by auto
  note P = put_ok[OF ok refl, where i = "b + of_nat i" and x = "xs ! i", folded o(2)]
  have q: "unat (sw_top q) \<le> unat b" "unat b < 2 ^ 63" "sw_active q < 19" using ok o(1) by (simp_all add: sw_ok_def)
  have "(2 :: nat) ^ (10 + sw_active q) \<le> 2 ^ 29" using q(3) by (intro power_increasing) auto
  then have "i \<le> 2 ^ 29" using i q(1) o(3) by linarith
  then have "unat (b + of_nat i) = unat b + i"
    using q(2) unat_of_nat_u64[of i] by (simp add: unat_word_ariths)
  note get = put_get[OF ok _ _ _ this, where x = "xs ! i", folded o(2)]
  have lt: "unat b + i < unat (sw_top q) + 2 ^ (10 + a)" using i o(2,3) by simp
  have keep: "sw_get ?q k = sw_get q k" if "unat (sw_top q) \<le> k" "k < unat b + i" for k
    using get(1)[OF that lt] .
  have "sw_get ?q (unat b + i) = xs ! i"
  proof (cases "unat (sw_top q) < unat b + i")
    case True
    then show ?thesis using get(2)[of "unat b + i - 1"] lt by simp
  next
    case False
    then have "i = 0" "unat (sw_top q) = unat b" using q(1) by simp_all
    then show ?thesis using P(2) P(6)[of b] by (simp add: sw_get_def o(2))
  qed
  then have "\<forall>k < Suc i. sw_get ?q (unat b + k) = xs ! k" using keep o(4) q(1) by (auto simp: less_Suc_eq)
  then have o': "owner_ok ?q (Owner_Put b xs (Suc i) a)" using P o i by simp
  have "thief_ok ?q (sw_bottom q) tpc" if "thief_ok q (sw_bottom q) tpc" for tpc
  proof (rule thief_keep[OF that])
    show "unat (sw_top q) < unat (sw_bottom q) \<longrightarrow> unat (sw_top q) < unat (sw_bottom q)
      \<and> sw_get ?q (unat (sw_top q)) = sw_get q (unat (sw_top q))
      \<and> (\<forall>c \<le> sw_active q. shared_worklist_buf_get (sw_bufs q ! c) (sw_top q) = sw_get q (unat (sw_top q)) \<longrightarrow>
          shared_worklist_buf_get (sw_bufs ?q ! c) (sw_top q) = sw_get q (unat (sw_top q)))"
    proof (intro impI conjI allI)
      assume l: "unat (sw_top q) < unat (sw_bottom q)"
      show e: "sw_get ?q (unat (sw_top q)) = sw_get q (unat (sw_top q))" using l o(1) by (intro keep) simp_all
      show "shared_worklist_buf_get (sw_bufs ?q ! c) (sw_top q) = sw_get q (unat (sw_top q))"
        if "shared_worklist_buf_get (sw_bufs q ! c) (sw_top q) = sw_get q (unat (sw_top q))" for c
      proof (cases "c = a")
        case True
        then show ?thesis using e P(2) by (simp add: sw_get_def o(2))
      next
        case False
        then show ?thesis using that P(5) o(2) by simp
      qed
    qed
  qed (use P o(2) in auto)
  moreover have "deque_abs ?q (Owner_Put b xs (Suc i) a) = deque_abs q (Owner_Put b xs i a)"
    using keep o(1) P by (simp add: deque_abs_def deque_limit_def)
  ultimately show ?thesis using o' P(1,4) by (simp add: owner_moves_def deque_limit_def deque_spec.intros o(2))
qed

lemma limit_simps [simp]:
  "deque_limit q Owner_Idle = sw_bottom q" "deque_limit q (Owner_Push b t a x) = sw_bottom q"
  "deque_limit q (Owner_Push_Many b t a xs) = sw_bottom q" "deque_limit q (Owner_Put b xs i a) = sw_bottom q"
  "deque_limit q (Owner_Pop b a) = b" "deque_limit q (Owner_Pop_Cas b t x) = b" "deque_limit q (Owner_Pop_Restore b x) = b"
  by (simp_all add: deque_limit_def)

lemma owner_moves_store:
  assumes ok: "sw_ok q b" and o: "owner_ok q (Owner_Put b xs (length xs) a)" and lim: "unat (b + of_nat (length xs)) < 2 ^ 63"
  shows "owner_moves q (Owner_Put b xs (length xs) a) (Pushed xs) (q\<lparr>sw_bottom := b + of_nat (length xs)\<rparr>) Owner_Idle"
proof -
  have o: "b = sw_bottom q" "a = sw_active q" "unat b + length xs \<le> unat (sw_top q) + 2 ^ (10 + sw_active q)"
    "\<forall>k < length xs. sw_get q (unat b + k) = xs ! k"
    using o by auto
  have q: "unat (sw_top q) \<le> unat b" "unat b < 2 ^ 63" "sw_active q < 19" using ok by (simp_all add: sw_ok_def)
  have "(2 :: nat) ^ (10 + sw_active q) \<le> 2 ^ 29" using q(3) by (intro power_increasing) auto
  then have n: "length xs \<le> 2 ^ 29" using q(1) o(3) by linarith
  then have u: "unat (b + of_nat (length xs)) = unat b + length xs"
    using q(2) unat_of_nat_u64[of "length xs"] by (simp add: unat_word_ariths)
  have "sw_ok q (b + of_nat (length xs))" using ok o(3) lim q(1) u unfolding sw_ok_def by simp
  moreover have "deque_abs (q\<lparr>sw_bottom := b + of_nat (length xs)\<rparr>) Owner_Idle = deque_abs q (Owner_Put b xs (length xs) a) @ xs"
  proof -
    have "[unat (sw_top q)..<unat b + length xs] = [unat (sw_top q)..<unat b] @ [unat b..<unat b + length xs]"
      using q(1) by (rule upt_add_eq_append)
    moreover have "map (sw_get q) [unat b..<unat b + length xs] = xs" using o(4) by (intro nth_equalityI) auto
    ultimately show ?thesis using u by (simp add: deque_abs_def o(1)[symmetric])
  qed
  moreover have "thief_ok (q\<lparr>sw_bottom := b + of_nat (length xs)\<rparr>) (b + of_nat (length xs)) tpc" if "thief_ok q b tpc" for tpc
    by (rule thief_keep[OF that]) (use u in auto)
  ultimately show ?thesis using o(1) by (simp add: owner_moves_def deque_spec.intros)
qed

lemma unat_pred: "0 < unat (b :: u64) \<Longrightarrow> unat (b - 1) = unat b - 1"
  by (simp add: unat_sub_if')

lemma owner_moves_pop:
  assumes ok: "sw_ok q b" and o: "owner_ok q (Owner_Pop b a)" and many: "sint (b - sw_top q) > 1"
  shows "owner_moves q (Owner_Pop b a) (Popped (Some (shared_worklist_buf_get (sw_bufs q ! a) (b - 1)))) q Owner_Idle"
proof -
  have q: "unat (sw_top q) \<le> unat b" "unat b < 2 ^ 63" using ok by (simp_all add: sw_ok_def)
  then have lt: "unat (sw_top q) + 1 < unat b" using sint_diff(1)[of b "sw_top q"] many by linarith
  then have u: "unat (b - 1) = unat b - 1" by (intro unat_pred) simp
  have "sw_ok q (b - 1)" using ok lt u unfolding sw_ok_def by auto
  moreover have "deque_abs q (Owner_Pop b a) = deque_abs q Owner_Idle @ [shared_worklist_buf_get (sw_bufs q ! a) (b - 1)]"
  proof -
    have "[unat (sw_top q)..<unat b] = [unat (sw_top q)..<unat b - 1] @ [unat b - 1]"
      using lt upt_Suc_append[of "unat (sw_top q)" "unat b - 1"] by simp
    moreover have "(of_nat (unat b - 1) :: u64) = b - 1" unfolding u[symmetric] by simp
    ultimately show ?thesis using o u by (simp add: deque_abs_def sw_get_def)
  qed
  moreover have "thief_ok q (b - 1) tpc" if "thief_ok q b tpc" for tpc
    by (rule thief_keep[OF that]) (use u lt in auto)
  ultimately show ?thesis using o by (auto simp: owner_moves_def intro: deque_spec.intros)
qed

lemma owner_moves_won:
  assumes ok: "sw_ok q b" and o: "owner_ok q (Owner_Pop_Cas b t x)" and t: "sw_top q = t"
  shows "owner_moves q (Owner_Pop_Cas b t x) (Popped (Some x)) (q\<lparr>sw_top := t + 1\<rparr>) (Owner_Pop_Restore b x)"
proof -
  have q: "unat b = unat t + 1" "sw_bottom q = b - 1" "x = sw_get q (unat t)" using o by auto
  have u: "unat (t + 1) = unat t + 1" using ok t q(1) u64_bound[of b] by (simp add: unat_word_ariths sw_ok_def)
  then have b: "b = t + 1" using q(1) by (simp add: word_unat_eq_iff)
  have "sw_ok (q\<lparr>sw_top := t + 1\<rparr>) b" using ok u b t unfolding sw_ok_def by auto
  moreover have "deque_abs q (Owner_Pop_Cas b t x) = [x]" "deque_abs (q\<lparr>sw_top := t + 1\<rparr>) (Owner_Pop_Restore b x) = []"
    using q t u b by (simp_all add: deque_abs_def)
  moreover have "thief_ok (q\<lparr>sw_top := t + 1\<rparr>) b tpc" if "thief_ok q b tpc" for tpc
    by (rule thief_pass[OF that]) (use u t in simp)
  ultimately show ?thesis using q b deque_spec.intros(3)[of "[]" x] by (simp add: owner_moves_def)
qed

lemma owner_step_ok:
  assumes "owner_step acquire q pc ev q' pc'" "sw_ok q (deque_limit q pc)" "owner_ok q pc"
    and "unat (deque_limit q' pc') < 2 ^ 63" "\<And>b t a xs. pc' = Owner_Push_Many b t a xs \<Longrightarrow> length xs \<le> 2 ^ (10 + a)"
  shows "owner_moves q pc ev q' pc'"
  using assms
proof (cases rule: owner_step.cases)
  case (push_load x)
  then show ?thesis using assms by (intro owner_moves_quiet) (auto simp: sw_ok_def deque_spec.intros)
next
  case (push_grow active b t active' x)
  have o: "b = sw_bottom q" "active = sw_active q" "unat t \<le> unat (sw_top q)" "unat b \<le> unat t + 2 ^ (10 + active)" "sw_ok q b"
    using assms(2,3) push_grow by auto
  note G = grow_ok[OF _ o(5) o(4)[unfolded o(2)], folded o(2), OF push_grow(5)]
  have "unat b + 1 \<le> unat (sw_top q) + 2 * 2 ^ (10 + active)" using o(3,4) one_le_power[of "2 :: nat" "10 + active"] by linarith
  also have "(2 :: nat) * 2 ^ (10 + active) = 2 ^ Suc (10 + active)" by (rule power_Suc[symmetric])
  also have "Suc (10 + active) = 10 + active'" using G(1) by simp
  finally have "unat b + 1 \<le> unat (sw_top q) + 2 ^ (10 + active')" .
  then have okpc: "owner_ok q' pc'" using G o push_grow(3) by simp
  show ?thesis
    unfolding push_grow(2)
  proof (rule owner_moves_grow[of q acquire t q' active'])
    show "owner_ok q' pc'" by (rule okpc)
  qed (use push_grow(1,3,5) o in simp_all)
next
  case (push_room active b t x)
  then have o: "b = sw_bottom q" "active = sw_active q" "unat t \<le> unat (sw_top q)" "unat b \<le> unat t + 2 ^ (10 + active)" "sw_ok q b"
    using assms(2,3) by auto
  have "unat (sw_top q) \<le> unat b" using o(5) by (simp add: sw_ok_def)
  then have "unat b + 1 \<le> unat t + 2 ^ (10 + active)"
    using full_room[OF o(5), of t b 1] push_room(5) o(2-4) by simp
  then have "owner_ok q' pc'" using o push_room by simp
  then show ?thesis using push_room assms(2) o by (intro owner_moves_quiet) (auto simp: deque_spec.intros)
next
  case (push_many_load xs)
  then show ?thesis using assms by (intro owner_moves_quiet) (auto simp: sw_ok_def deque_spec.intros)
next
  case (push_many_grow active b t xs active')
  have o: "b = sw_bottom q" "active = sw_active q" "unat t \<le> unat (sw_top q)" "unat b \<le> unat t + 2 ^ (10 + active)" "sw_ok q b"
    using assms(2,3) push_many_grow by auto
  note G = grow_ok[OF _ o(5) o(4)[unfolded o(2)], folded o(2), OF push_many_grow(5)]
  have "(2 :: nat) ^ (10 + active) \<le> 2 ^ (10 + active')" using G(1) by (intro power_increasing) auto
  then have "unat b \<le> unat t + 2 ^ (10 + active')" using o(4) by linarith
  then have okpc: "owner_ok q' pc'" using G o push_many_grow(3) assms(5) by simp
  show ?thesis
    unfolding push_many_grow(2)
  proof (rule owner_moves_grow[of q acquire t q' active'])
    show "owner_ok q' pc'" by (rule okpc)
  qed (use push_many_grow(1,3,5) o in simp_all)
next
  case (push_many_room active b t xs)
  then have o: "b = sw_bottom q" "active = sw_active q" "unat t \<le> unat (sw_top q)" "unat b \<le> unat t + 2 ^ (10 + active)" "sw_ok q b"
    "length xs \<le> 2 ^ (10 + active)"
    using assms(2,3) by auto
  have "unat (sw_top q) \<le> unat b" using o(5) by (simp add: sw_ok_def)
  then have "unat b + length xs \<le> unat t + 2 ^ (10 + active)"
    using full_room[OF o(5), of t b "length xs"] push_many_room(5) o(2-4,6) by simp
  then have "owner_ok q' pc'" using o push_many_room by simp
  then show ?thesis using push_many_room assms(2) o by (intro owner_moves_quiet) (auto simp: deque_spec.intros)
next
  case (push_put i xs b active)
  note A = assms(2,3)[unfolded push_put(1-4) limit_simps]
  show ?thesis unfolding push_put(1-4) by (rule owner_moves_put[OF A(1) push_put(5) A(2)])
next
  case (push_store i xs b active)
  note A = assms(2,3)[unfolded push_store(1-5) limit_simps]
  have "unat (b + of_nat (length xs)) < 2 ^ 63" using assms(4) push_store(3-5) by simp
  moreover have "sw_ok q b" using A by simp
  ultimately show ?thesis unfolding push_store(1-5) by (intro owner_moves_store[OF _ A(2)])
next
  case pop_store
  then show ?thesis using assms(2) by (intro owner_moves_quiet) (auto simp: deque_spec.intros)
next
  case (pop_many b active)
  note A = assms(2,3)[unfolded pop_many(1-4) limit_simps]
  show ?thesis unfolding pop_many(1-4) by (rule owner_moves_pop[OF A pop_many(5)])
next
  case (pop_last b active)
  then have o: "sw_ok q b" "sw_bottom q = b - 1" "active = sw_active q" using assms(2,3) by auto
  then have "unat (sw_top q) \<le> unat b" "unat b < 2 ^ 63" by (simp_all add: sw_ok_def)
  then have lt: "unat b = unat (sw_top q) + 1" using sint_diff(1)[of b "sw_top q"] pop_last(5) by linarith
  then have "b - 1 = sw_top q" using unat_pred[of b] by (simp add: word_unat_eq_iff)
  then have "owner_ok q' pc'" using o lt pop_last by (simp add: sw_get_def)
  then show ?thesis using pop_last o by (intro owner_moves_quiet) (auto simp: deque_spec.intros)
next
  case (pop_none b active)
  then have o: "sw_ok q b" "sw_bottom q = b - 1" using assms(2,3) by auto
  then have "unat (sw_top q) \<le> unat b" "unat b < 2 ^ 63" by (simp_all add: sw_ok_def)
  then have "unat (sw_top q) = unat b" using sint_diff(1)[of b "sw_top q"] pop_none(5) by linarith
  then have "sw_top q = b" by (simp add: word_unat_eq_iff)
  then show ?thesis using pop_none o by (intro owner_moves_quiet) (auto simp: deque_spec.intros deque_abs_def)
next
  case (pop_won t b x)
  note A = assms(2,3)[unfolded pop_won(1-4) limit_simps]
  show ?thesis unfolding pop_won(1-4) by (rule owner_moves_won[OF A pop_won(5)])
next
  case (pop_lost t b x)
  then have o: "sw_ok q b" "sw_bottom q = b - 1" "unat t \<le> unat (sw_top q)" "unat b = unat t + 1" using assms(2,3) by auto
  moreover have "unat t \<noteq> unat (sw_top q)" using pop_lost(5) by (simp add: word_unat_eq_iff)
  ultimately have "unat (sw_top q) = unat b" by (auto simp: sw_ok_def)
  then have "sw_top q = b" by (simp add: word_unat_eq_iff)
  then show ?thesis using pop_lost o by (intro owner_moves_quiet) (auto simp: deque_spec.intros deque_abs_def)
next
  case (pop_restore b x)
  then show ?thesis using assms(2,3) by (intro owner_moves_quiet) (auto simp: deque_spec.intros)
qed

definition thief_moves :: "shared_worklist \<Rightarrow> owner_pc \<Rightarrow> deque_event \<Rightarrow> shared_worklist \<Rightarrow> thief_pc \<Rightarrow> bool" where
  "thief_moves q pc ev q' tpc' \<longleftrightarrow> sw_ok q' (deque_limit q' pc) \<and> owner_ok q' pc
    \<and> thief_ok q' (deque_limit q' pc) tpc'
    \<and> (\<forall>tpc. thief_ok q (deque_limit q pc) tpc \<longrightarrow> thief_ok q' (deque_limit q' pc) tpc)
    \<and> deque_spec (deque_abs q pc) ev (deque_abs q' pc)"

lemma bottom_cases: "owner_ok q pc \<Longrightarrow> sw_bottom q = deque_limit q pc \<or> sw_bottom q = deque_limit q pc - 1"
  by (cases pc) (auto simp: deque_limit_def)

lemma steal_compare:
  assumes "sw_ok q (deque_limit q pc)" "owner_ok q pc" "unat t \<le> unat (sw_top q)"
  shows "sint (sw_bottom q - t) \<le> 0 \<Longrightarrow> unat (deque_limit q pc) \<le> unat (sw_top q) + 1"
    and "sint (sw_bottom q - t) > 0 \<Longrightarrow> unat t < unat (deque_limit q pc)"
proof -
  have l: "unat (deque_limit q pc) < 2 ^ 63" "unat t < 2 ^ 63"
    using assms(1,3) unfolding sw_ok_def by linarith+
  have S: "sint (sw_bottom q - t) = int (unat (deque_limit q pc)) - int (unat t)
      \<or> sint (sw_bottom q - t) = int (unat (deque_limit q pc)) - 1 - int (unat t)"
    using bottom_cases[OF assms(2)] sint_diff[OF l] by auto
  show "unat (deque_limit q pc) \<le> unat (sw_top q) + 1" if "sint (sw_bottom q - t) \<le> 0"
    using S that assms(3) by linarith
  show "unat t < unat (deque_limit q pc)" if "sint (sw_bottom q - t) > 0"
    using S that by linarith
qed

lemma steal_won_ok:
  assumes ok: "sw_ok q (deque_limit q pc)" "owner_ok q pc" "thief_ok q (deque_limit q pc) (Thief_Got t x)" and t: "sw_top q = t"
  shows "thief_moves q pc (Stolen (Some x)) (q\<lparr>sw_top := t + 1\<rparr>) Thief_Idle"
proof -
  let ?q = "q\<lparr>sw_top := t + 1\<rparr>" and ?l = "deque_limit q pc"
  have lt: "unat t < unat ?l" and x: "x = sw_get q (unat t)" using ok(3) t by auto
  then have u: "unat (t + 1) = unat t + 1" using u64_bound[of ?l] by (simp add: unat_word_ariths)
  have l: "deque_limit ?q pc = ?l" by (cases pc) auto
  have "sw_ok ?q ?l" using ok(1) lt u t unfolding sw_ok_def by auto
  moreover have "owner_ok ?q pc" using ok(2) u t lt by (cases pc) auto
  moreover have "thief_ok ?q ?l tpc" if "thief_ok q ?l tpc" for tpc
    by (rule thief_pass[OF that]) (use u t in simp)
  moreover have "deque_abs q pc = x # deque_abs ?q pc"
    using lt u x t l by (simp add: deque_abs_def upt_conv_Cons)
  ultimately show ?thesis by (simp add: thief_moves_def l deque_spec.intros)
qed

lemma thief_step_ok:
  assumes "thief_step q tpc ev q' tpc'" "sw_ok q (deque_limit q pc)" "owner_ok q pc" "thief_ok q (deque_limit q pc) tpc"
  shows "thief_moves q pc ev q' tpc'"
  using assms(1)
proof (cases rule: thief_step.cases)
  case (steal_none t)
  then have "unat (deque_limit q pc) \<le> unat (sw_top q) + 1" using steal_compare(1)[OF assms(2,3)] assms(4) by simp
  then have "length (deque_abs q pc) \<le> 1" by (simp add: deque_abs_def)
  then show ?thesis using steal_none assms(2-4) by (simp add: thief_moves_def deque_spec.intros)
next
  case (steal_bottom t)
  then show ?thesis using steal_compare(2)[OF assms(2,3), of t] assms(2-4) by (auto simp: thief_moves_def deque_spec.intros)
next
  case (steal_active t)
  then show ?thesis using assms(2-4) by (auto simp: thief_moves_def deque_spec.intros sw_get_def)
next
  case (steal_won t x)
  then show ?thesis using steal_won_ok[of q pc t x] assms(2-4) by simp
qed (use assms(2-4) in \<open>auto simp: thief_moves_def deque_spec.intros\<close>)

text \<open>Counters do not wrap within any time there is: the runs considered stay below \<open>2 ^ 63\<close>. A batch
  of \<open>push_many\<close> has no more references than the buffer that is active has slots: a larger one defeats
  the unsigned test for room, and overwrites what is in the deque.\<close>

definition deque_bounded :: "deque_state \<Rightarrow> bool" where
  "deque_bounded s \<longleftrightarrow> unat (deque_limit (ds_q s) (ds_owner s)) < 2 ^ 63
    \<and> (case ds_owner s of Owner_Push_Many _ _ a xs \<Rightarrow> length xs \<le> 2 ^ (shared_worklist_buf_min_log_size + a) | _ \<Rightarrow> True)"

lemma deque_step_ok:
  assumes "deque_step acquire s ev s'" "deque_ok s" "deque_bounded s'"
  shows "deque_ok s'" "deque_spec (deque_abs (ds_q s) (ds_owner s)) ev (deque_abs (ds_q s') (ds_owner s'))"
proof -
  have ok: "sw_ok (ds_q s) (deque_limit (ds_q s) (ds_owner s))" "owner_ok (ds_q s) (ds_owner s)"
    "\<And>i. thief_ok (ds_q s) (deque_limit (ds_q s) (ds_owner s)) (ds_thief s i)"
    using assms(2) by (auto simp: deque_ok_def)
  have "deque_ok s' \<and> deque_spec (deque_abs (ds_q s) (ds_owner s)) ev (deque_abs (ds_q s') (ds_owner s'))"
    using assms(1)
  proof (cases rule: deque_step.cases)
    case (owner q pc)
    have "owner_moves (ds_q s) (ds_owner s) ev q pc"
      using assms(3) owner(1) by (intro owner_step_ok[OF owner(2) ok(1,2)])
        (auto simp: deque_bounded_def shared_worklist_buf_min_log_size_def)
    then show ?thesis using ok(3) owner(1) by (auto simp: owner_moves_def deque_ok_def)
  next
    case (thief i q pc)
    have "thief_moves (ds_q s) (ds_owner s) ev q pc" by (rule thief_step_ok[OF thief(2) ok(1,2) ok(3)])
    then show ?thesis using ok(3) thief(1) by (auto simp: thief_moves_def deque_ok_def)
  qed
  then show "deque_ok s'" "deque_spec (deque_abs (ds_q s) (ds_owner s)) ev (deque_abs (ds_q s') (ds_owner s'))" by auto
qed

section \<open>Runs\<close>

text \<open>A run, every state of which is \<open>within\<close> some bounds.\<close>

inductive deque_run ::
    "(u64 \<Rightarrow> bool) \<Rightarrow> (deque_state \<Rightarrow> bool) \<Rightarrow> deque_state \<Rightarrow> deque_event list \<Rightarrow> deque_state \<Rightarrow> bool"
  for acquire within where
  deque_run_nil: "deque_run acquire within s [] s"
| deque_run_snoc: "deque_run acquire within s evs s' \<Longrightarrow> deque_step acquire s' ev s'' \<Longrightarrow> within s'' \<Longrightarrow>
    deque_run acquire within s (evs @ [ev]) s''"

inductive deque_spec_run :: "gc_ref list \<Rightarrow> deque_event list \<Rightarrow> gc_ref list \<Rightarrow> bool" where
  "deque_spec_run l [] l"
| "deque_spec_run l evs l' \<Longrightarrow> deque_spec l' ev l'' \<Longrightarrow> deque_spec_run l (evs @ [ev]) l''"

definition deque_start :: "shared_worklist \<Rightarrow> deque_state" where
  "deque_start q = \<lparr> ds_q = q, ds_owner = Owner_Idle, ds_thief = (\<lambda>_. Thief_Idle) \<rparr>"

lemma deque_init_ok:
  assumes "shared_worklist_init acquire = Inr (Some q)"
  shows "deque_ok (deque_start q)" "deque_abs q Owner_Idle = []"
proof -
  obtain buf where b: "shared_worklist_buf_init acquire (10 + 0) = Inr (Some buf)"
    "q = shared_worklist_zero\<lparr>sw_bufs := (sw_bufs shared_worklist_zero)[0 := buf]\<rparr>"
    using assms by (auto simp: shared_worklist_init_def result_bind_eq_Inr shared_worklist_buf_min_log_size_def)
  note B = buf_init_ok[OF b(1)]
  have "sw_ok q 0" using B(1) unfolding b(2) sw_ok_def
    by (simp add: shared_worklist_zero_def shared_worklist_buf_min_log_size_def shared_worklist_buf_max_log_size_def)
  moreover have "sw_bottom q = 0" "sw_top q = 0" unfolding b(2) by (simp_all add: shared_worklist_zero_def)
  ultimately show "deque_ok (deque_start q)" "deque_abs q Owner_Idle = []"
    by (simp_all add: deque_ok_def deque_start_def deque_abs_def)
qed

lemma run_refines:
  assumes "deque_run acquire deque_bounded s evs s'" "deque_ok s"
  shows "deque_ok s' \<and> deque_spec_run (deque_abs (ds_q s) (ds_owner s)) evs (deque_abs (ds_q s') (ds_owner s'))"
  using assms
proof (induction rule: deque_run.induct)
  case (deque_run_snoc s evs s' ev s'')
  then show ?case using deque_step_ok[of acquire s' ev s''] by (auto intro: deque_spec_run.intros)
qed (auto intro: deque_spec_run.intros)

fun pushed :: "deque_event \<Rightarrow> gc_ref list" where
  "pushed (Pushed xs) = xs"
| "pushed _ = []"

fun taken :: "deque_event \<Rightarrow> gc_ref list" where
  "taken (Popped (Some x)) = [x]"
| "taken (Stolen (Some x)) = [x]"
| "taken _ = []"

lemma deque_spec_mset: "deque_spec l ev l' \<Longrightarrow> mset l + mset (pushed ev) = mset (taken ev) + mset l'"
  by (induction rule: deque_spec.induct) auto

lemma deque_spec_run_mset:
  "deque_spec_run l evs l' \<Longrightarrow> mset l + mset (concat (map pushed evs)) = mset (concat (map taken evs)) + mset l'"
proof (induction rule: deque_spec_run.induct)
  case (2 l evs l' ev l'')
  have "mset l + mset (concat (map pushed (evs @ [ev]))) = mset (concat (map taken evs)) + (mset l' + mset (pushed ev))"
    using 2(3) by (simp add: add.assoc[symmetric])
  then show ?case using deque_spec_mset[OF 2(2)] by (simp add: ac_simps)
qed simp

section \<open>The operations are runs\<close>

text \<open>A deque at which no thread is at work.\<close>

definition deque_quiet :: "shared_worklist \<Rightarrow> bool" where
  "deque_quiet q \<longleftrightarrow> sw_ok q (sw_bottom q) \<and> unat (sw_bottom q) < 2 ^ 63 - 2 ^ 10"

lemma quiet_start: "deque_quiet q \<Longrightarrow> deque_ok (deque_start q) \<and> deque_bounded (deque_start q)"
  by (simp add: deque_quiet_def deque_ok_def deque_start_def deque_bounded_def)

lemma owner_run_step:
  assumes "deque_run acquire deque_bounded s evs (\<lparr> ds_q = q, ds_owner = pc, ds_thief = th \<rparr>)" "owner_step acquire q pc ev q' pc'"
    and "deque_bounded \<lparr> ds_q = q', ds_owner = pc', ds_thief = th \<rparr>"
  shows "deque_run acquire deque_bounded s (evs @ [ev]) (\<lparr> ds_q = q', ds_owner = pc', ds_thief = th \<rparr>)"
  using deque_run_snoc[OF assms(1) deque_step.owner[of acquire _ ev q' pc']] assms(2,3) by simp

lemma thief_run_step:
  assumes "deque_run acquire deque_bounded s evs (\<lparr> ds_q = q, ds_owner = pc, ds_thief = th(i := tpc) \<rparr>)" "thief_step q tpc ev q' tpc'"
    and "deque_bounded \<lparr> ds_q = q', ds_owner = pc, ds_thief = th(i := tpc') \<rparr>"
  shows "deque_run acquire deque_bounded s (evs @ [ev]) (\<lparr> ds_q = q', ds_owner = pc, ds_thief = th(i := tpc') \<rparr>)"
  using deque_run_snoc[OF assms(1) deque_step.thief[of "\<lparr> ds_q = q, ds_owner = pc, ds_thief = th(i := tpc) \<rparr>" i ev q' tpc']]
    assms(2,3) by simp

lemma push_run:
  assumes "deque_quiet q" "shared_worklist_push acquire q x = Inr q'"
  shows "deque_run acquire deque_bounded (deque_start q) [Internal, Internal, Internal, Pushed [x]] (deque_start q')"
proof -
  define b where "b = sw_bottom q"
  have q: "sw_ok q b" "unat b < 2 ^ 63 - 2 ^ 10" using assms(1) by (simp_all add: deque_quiet_def b_def)
  have room: "unat b \<le> unat (sw_top q) + 2 ^ (10 + sw_active q)" using q(1) by (simp add: sw_ok_def)
  obtain q1 a where g: "(if sw_full q (sw_active q) b (sw_top q) 1 then shared_worklist_grow acquire q (sw_active q) b (sw_top q)
      else Inr (q, sw_active q)) = Inr (q1, a)" "q' = (sw_put q1 a b x)\<lparr>sw_bottom := b + 1\<rparr>"
    using assms(2) unfolding shared_worklist_push_def Let_def b_def[symmetric] by (auto simp only: result_bind_eq_Inr prod.case sum.inject split: prod.splits)
  have b1: "sw_bottom q1 = b"
    using g(1) grow_ok(4)[OF _ q(1) room, of acquire q1 a] by (auto simp: b_def split: if_splits)
  have bnd: "unat (b + 1) < 2 ^ 63" using q(2) by (simp add: unat_word_ariths)
  let ?th = "\<lambda>_. Thief_Idle"
  have "deque_run acquire deque_bounded (deque_start q) [] \<lparr> ds_q = q, ds_owner = Owner_Idle, ds_thief = ?th \<rparr>"
    unfolding deque_start_def by (rule deque_run_nil)
  from owner_run_step[OF this push_load]
  have "deque_run acquire deque_bounded (deque_start q) [Internal] \<lparr> ds_q = q, ds_owner = Owner_Push b (sw_top q) (sw_active q) x, ds_thief = ?th \<rparr>"
    using q(2) by (simp add: b_def deque_bounded_def)
  moreover have "owner_step acquire q (Owner_Push b (sw_top q) (sw_active q) x) Internal q1 (Owner_Put b [x] 0 a)"
    using g(1) by (auto intro: owner_step.intros split: if_splits)
  ultimately have "deque_run acquire deque_bounded (deque_start q) ([Internal] @ [Internal]) \<lparr> ds_q = q1, ds_owner = Owner_Put b [x] 0 a, ds_thief = ?th \<rparr>"
    by (rule owner_run_step) (use q(2) b1 in \<open>simp add: deque_bounded_def\<close>)
  from owner_run_step[OF this push_put[of 0 "[x]" acquire q1 b a]]
  have "deque_run acquire deque_bounded (deque_start q) [Internal, Internal, Internal]
      \<lparr> ds_q = sw_put q1 a b x, ds_owner = Owner_Put b [x] 1 a, ds_thief = ?th \<rparr>"
    using q(2) b1 by (simp add: deque_bounded_def sw_put_def)
  from owner_run_step[OF this push_store[of 1 "[x]" acquire "sw_put q1 a b x" b a]]
  show ?thesis using bnd g(2) by (simp add: deque_bounded_def deque_start_def)
qed

lemma pop_run:
  assumes "deque_quiet q" "shared_worklist_try_pop q = (x, q')"
  obtains ev evs where "deque_run acquire deque_bounded (deque_start q) (Internal # ev # evs) (deque_start q')" "set evs \<subseteq> {Internal, Popped (Some x)}"
    and "(ev, evs) = (if sw_top q = sw_bottom q then (Popped None, [Internal])
      else if sint (sw_bottom q - sw_top q) = 1 then (Internal, [Popped (Some x), Internal]) else (Popped (Some x), []))"
    and "sw_top q = sw_bottom q \<Longrightarrow> x = gc_ref_null"
proof -
  define b where "b = sw_bottom q"
  let ?q = "q\<lparr>sw_bottom := b - 1\<rparr>"
  let ?x = "shared_worklist_buf_get (sw_bufs q ! sw_active q) (b - 1)"
  have q: "sw_ok q b" "unat b < 2 ^ 63 - 2 ^ 10" "unat (sw_top q) \<le> unat b"
    using assms(1) by (simp_all add: deque_quiet_def b_def sw_ok_def)
  then have d: "sint (b - sw_top q) = int (unat b) - int (unat (sw_top q))" by (intro sint_diff(1)) linarith+
  let ?th = "\<lambda>_. Thief_Idle"
  have "deque_run acquire deque_bounded (deque_start q) [] \<lparr> ds_q = q, ds_owner = Owner_Idle, ds_thief = ?th \<rparr>"
    unfolding deque_start_def by (rule deque_run_nil)
  from owner_run_step[OF this pop_store]
  have R: "deque_run acquire deque_bounded (deque_start q) [Internal] \<lparr> ds_q = ?q, ds_owner = Owner_Pop b (sw_active q), ds_thief = ?th \<rparr>"
    using q(2) by (simp add: b_def deque_bounded_def)
  consider "unat (sw_top q) = unat b" | "unat b = unat (sw_top q) + 1" | "unat b > unat (sw_top q) + 1" using q(3) by linarith
  then show thesis
  proof cases
    case 1
    then have d: "sint (b - sw_top q) = 0" using d by linarith
    have e: "x = gc_ref_null" "q' = q" "sw_top q = b"
      using assms(2) d 1 by (auto simp: shared_worklist_try_pop_def Let_def b_def word_unat_eq_iff)
    from owner_run_step[OF R pop_none] have "deque_run acquire deque_bounded (deque_start q) [Internal, Popped None]
        \<lparr> ds_q = ?q, ds_owner = Owner_Pop_Restore b gc_ref_null, ds_thief = ?th \<rparr>"
      using 1 d q(2) by (simp add: deque_bounded_def)
    from owner_run_step[OF this pop_restore] have "deque_run acquire deque_bounded (deque_start q) [Internal, Popped None, Internal] (deque_start q')"
      using q(2) e by (simp add: deque_bounded_def deque_start_def b_def)
    then show thesis using that[of "Popped None" "[Internal]"] e by (simp add: b_def)
  next
    case 2
    then have d: "sint (b - sw_top q) = 1" using d by linarith
    have e: "x = ?x" "q' = q\<lparr>sw_top := sw_top q + 1\<rparr>" "sw_top q \<noteq> b"
      using assms(2) d 2 by (auto simp: shared_worklist_try_pop_def Let_def b_def)
    from owner_run_step[OF R pop_last] have "deque_run acquire deque_bounded (deque_start q) [Internal, Internal]
        \<lparr> ds_q = ?q, ds_owner = Owner_Pop_Cas b (sw_top q) x, ds_thief = ?th \<rparr>"
      using 2 d q(2) e by (simp add: deque_bounded_def)
    from owner_run_step[OF this pop_won] have "deque_run acquire deque_bounded (deque_start q) [Internal, Internal, Popped (Some x)]
        \<lparr> ds_q = ?q\<lparr>sw_top := sw_top q + 1\<rparr>, ds_owner = Owner_Pop_Restore b x, ds_thief = ?th \<rparr>"
      using q(2) by (simp add: deque_bounded_def)
    from owner_run_step[OF this pop_restore] have "deque_run acquire deque_bounded (deque_start q)
        [Internal, Internal, Popped (Some x), Internal] (deque_start q')"
      using q(2) e by (simp add: deque_bounded_def deque_start_def b_def)
    then show thesis using that[of Internal "[Popped (Some x), Internal]"] e 2 d by (simp add: b_def)
  next
    case 3
    then have d: "sint (b - sw_top q) > 1" using d by linarith
    have e: "x = ?x" "q' = ?q" "sw_top q \<noteq> b"
      using assms(2) d 3 by (auto simp: shared_worklist_try_pop_def Let_def b_def)
    have "unat (b - 1) = unat b - 1" using 3 by (intro unat_pred) simp
    with owner_run_step[OF R pop_many] have "deque_run acquire deque_bounded (deque_start q) [Internal, Popped (Some x)] (deque_start q')"
      using 3 d q(2) e by (simp add: deque_bounded_def deque_start_def)
    then show thesis using that[of "Popped (Some x)" "[]"] e 3 d by (simp add: b_def)
  qed
qed

lemma steal_run:
  assumes "deque_quiet q" "shared_worklist_steal q = (x, q')"
  shows "if sw_top q = sw_bottom q
    then x = gc_ref_null \<and> q' = q \<and> deque_run acquire deque_bounded (deque_start q) [Internal, Stolen None] (deque_start q')
    else deque_run acquire deque_bounded (deque_start q) [Internal, Internal, Internal, Internal, Stolen (Some x)] (deque_start q')"
proof -
  define t where "t = sw_top q"
  have q: "sw_ok q (sw_bottom q)" "unat (sw_bottom q) < 2 ^ 63 - 2 ^ 10" "unat t \<le> unat (sw_bottom q)"
    using assms(1) by (simp_all add: deque_quiet_def sw_ok_def t_def)
  then have d: "sint (sw_bottom q - t) = int (unat (sw_bottom q)) - int (unat t)" by (intro sint_diff(1)) linarith+
  let ?th = "\<lambda>_ :: nat. Thief_Idle"
  have th: "?th = ?th(0 := Thief_Idle)" by (simp add: fun_eq_iff)
  have bd: "deque_bounded \<lparr> ds_q = q\<lparr>sw_top := t'\<rparr>, ds_owner = Owner_Idle, ds_thief = f \<rparr>" "deque_bounded \<lparr> ds_q = q, ds_owner = Owner_Idle, ds_thief = f \<rparr>"
    for t' f using q(2) by (simp_all add: deque_bounded_def)
  have "deque_run acquire deque_bounded (deque_start q) [] \<lparr> ds_q = q, ds_owner = Owner_Idle, ds_thief = ?th(0 := Thief_Idle) \<rparr>"
    unfolding deque_start_def using th deque_run_nil by metis
  from thief_run_step[OF this steal_top bd(2)]
  have R: "deque_run acquire deque_bounded (deque_start q) [Internal] \<lparr> ds_q = q, ds_owner = Owner_Idle, ds_thief = ?th(0 := Thief_Top t) \<rparr>"
    by (simp add: t_def)
  show ?thesis
  proof (cases "sw_top q = sw_bottom q")
    case True
    then have e: "x = gc_ref_null" "q' = q" using assms(2) by (auto simp: shared_worklist_steal_def Let_def)
    have "deque_run acquire deque_bounded (deque_start q) ([Internal] @ [Stolen None]) \<lparr> ds_q = q, ds_owner = Owner_Idle, ds_thief = ?th(0 := Thief_Idle) \<rparr>"
      by (rule thief_run_step[OF R steal_none bd(2)]) (use True in \<open>simp add: t_def\<close>)
    then show ?thesis using True e by (simp add: deque_start_def flip: th)
  next
    case False
    then have "unat t < unat (sw_bottom q)" using q(3) by (simp add: t_def word_unat_eq_iff)
    then have d: "sint (sw_bottom q - t) > 0" using d by linarith
    then have e: "x = shared_worklist_buf_get (sw_bufs q ! sw_active q) t" "q' = q\<lparr>sw_top := t + 1\<rparr>"
      using assms(2) d by (auto simp: shared_worklist_steal_def Let_def t_def)
    have "deque_run acquire deque_bounded (deque_start q) ([Internal] @ [Internal]) \<lparr> ds_q = q, ds_owner = Owner_Idle, ds_thief = ?th(0 := Thief_Bottom t) \<rparr>"
      by (rule thief_run_step[OF R steal_bottom bd(2)]) (rule d)
    from thief_run_step[OF thief_run_step[OF thief_run_step[OF this steal_active bd(2)] steal_get bd(2)] steal_won bd(1)]
    have "deque_run acquire deque_bounded (deque_start q) [Internal, Internal, Internal, Internal, Stolen (Some x)]
        \<lparr> ds_q = q', ds_owner = Owner_Idle, ds_thief = ?th(0 := Thief_Idle) \<rparr>"
      using e by (simp add: t_def)
    then show ?thesis using False by (simp add: deque_start_def flip: th)
  qed
qed

lemma min_le_buf: "n \<le> 2 ^ 10 \<Longrightarrow> n \<le> 2 ^ (10 + a)" for n :: nat
  using power_increasing[of 10 "10 + a" "2 :: nat"] by simp

lemma push_many_grow_run:
  assumes "deque_run acquire deque_bounded s (replicate k Internal) \<lparr> ds_q = q, ds_owner = Owner_Push_Many b t a xs, ds_thief = th \<rparr>"
    and "deque_ok s" "unat b < 2 ^ 63" "length xs \<le> 2 ^ 10"
    and "sw_make_room acquire b t (of_nat (length xs)) (q, a) = Inr (q1, a1)"
  shows "\<exists>k. deque_run acquire deque_bounded s (replicate k Internal) \<lparr> ds_q = q1, ds_owner = Owner_Push_Many b t a1 xs, ds_thief = th \<rparr>
    \<and> \<not> sw_full q1 a1 b t (of_nat (length xs))"
  using assms(1,5)
proof (induction "19 - a" arbitrary: k q a rule: less_induct)
  case less
  let ?s = "\<lparr> ds_q = q, ds_owner = Owner_Push_Many b t a xs, ds_thief = th \<rparr>"
  have ok: "deque_ok ?s" using run_refines[OF less.prems(1) assms(2)] by simp
  then have o: "sw_ok q b" "b = sw_bottom q" "a = sw_active q" "unat b \<le> unat t + 2 ^ (10 + sw_active q)"
    by (auto simp: deque_ok_def)
  show ?case
  proof (cases "sw_full q a b t (of_nat (length xs))")
    case True
    then obtain q' a' where g: "shared_worklist_grow acquire q a b t = Inr (q', a')"
      "sw_make_room acquire b t (of_nat (length xs)) (q', a') = Inr (q1, a1)"
      using less.prems(2) unfolding sw_make_room_def by (subst (asm) while_result_unfold) (auto simp: result_bind_eq_Inr)
    note G = grow_ok[OF g(1)[unfolded o(3)] o(1,4)]
    have "deque_run acquire deque_bounded s (replicate k Internal @ [Internal])
        \<lparr> ds_q = q', ds_owner = Owner_Push_Many b t a' xs, ds_thief = th \<rparr>"
      using push_many_grow[OF True g(1)] assms(3,4) G(4) o(2)
      by (intro owner_run_step[OF less.prems(1)]) (simp_all add: deque_bounded_def shared_worklist_buf_min_log_size_def min_le_buf[OF assms(4), simplified])
    then have "deque_run acquire deque_bounded s (replicate (Suc k) Internal)
        \<lparr> ds_q = q', ds_owner = Owner_Push_Many b t a' xs, ds_thief = th \<rparr>"
      by (simp add: replicate_append_same)
    moreover have "19 - a' < 19 - a" using G(1,6) o(3) by simp
    ultimately show ?thesis using less.hyps g(2) by blast
  next
    case False
    then have "q1 = q" "a1 = a" using less.prems(2) unfolding sw_make_room_def by (subst (asm) while_result_unfold, simp)+
    then show ?thesis using less.prems(1) False by blast
  qed
qed

lemma put_run:
  assumes "deque_run acquire deque_bounded s evs \<lparr> ds_q = q, ds_owner = Owner_Put b xs 0 a, ds_thief = th \<rparr>"
    and "sw_bottom q = b" "unat b < 2 ^ 63" "n \<le> length xs"
  shows "deque_run acquire deque_bounded s (evs @ replicate n Internal)
    \<lparr> ds_q = fold (\<lambda>i q. sw_put q a (b + of_nat i) (xs ! i)) [0..<n] q, ds_owner = Owner_Put b xs n a, ds_thief = th \<rparr>
    \<and> sw_bottom (fold (\<lambda>i q. sw_put q a (b + of_nat i) (xs ! i)) [0..<n] q) = b"
  using assms(4)
proof (induction n)
  case 0
  then show ?case using assms(1,2) by simp
next
  case (Suc n)
  let ?q = "fold (\<lambda>i q. sw_put q a (b + of_nat i) (xs ! i)) [0..<n] q"
  have IH: "deque_run acquire deque_bounded s (evs @ replicate n Internal) \<lparr> ds_q = ?q, ds_owner = Owner_Put b xs n a, ds_thief = th \<rparr>"
    "sw_bottom ?q = b"
    using Suc by auto
  have b: "sw_bottom (sw_put ?q a (b + of_nat n) (xs ! n)) = b" using IH(2) by (simp add: sw_put_def)
  have "deque_run acquire deque_bounded s ((evs @ replicate n Internal) @ [Internal])
      \<lparr> ds_q = sw_put ?q a (b + of_nat n) (xs ! n), ds_owner = Owner_Put b xs (Suc n) a, ds_thief = th \<rparr>"
    by (rule owner_run_step[OF IH(1) push_put]) (use Suc.prems assms(3) b in \<open>simp_all add: deque_bounded_def\<close>)
  then show ?case using b by (simp add: replicate_append_same)
qed

lemma push_many_run:
  assumes "deque_quiet q" "length xs \<le> 2 ^ 10" "shared_worklist_push_many acquire q xs = Inr q'"
  obtains k where "deque_run acquire deque_bounded (deque_start q) (replicate k Internal @ [Pushed xs]) (deque_start q')"
proof -
  define b where "b = sw_bottom q"
  have q: "sw_ok q b" "unat b < 2 ^ 63 - 2 ^ 10" using assms(1) by (simp_all add: deque_quiet_def b_def)
  then have b63: "unat b < 2 ^ 63" by simp
  have lim: "unat (b + of_nat (length xs)) < 2 ^ 63"
    using q(2) assms(2) unat_of_nat_u64[of "length xs"] by (simp add: unat_word_ariths)
  obtain q1 a1 where w: "sw_make_room acquire b (sw_top q) (of_nat (length xs)) (q, sw_active q) = Inr (q1, a1)"
    "q' = (fold (\<lambda>i q. sw_put q a1 (b + of_nat i) (xs ! i)) [0..<length xs] q1)\<lparr>sw_bottom := b + of_nat (length xs)\<rparr>"
    using assms(3) by (auto simp: shared_worklist_push_many_def Let_def b_def result_bind_eq_Inr)
  let ?th = "\<lambda>_. Thief_Idle"
  have "deque_run acquire deque_bounded (deque_start q) [] \<lparr> ds_q = q, ds_owner = Owner_Idle, ds_thief = ?th \<rparr>"
    unfolding deque_start_def by (rule deque_run_nil)
  from owner_run_step[OF this push_many_load]
  have "deque_run acquire deque_bounded (deque_start q) (replicate 1 Internal)
      \<lparr> ds_q = q, ds_owner = Owner_Push_Many b (sw_top q) (sw_active q) xs, ds_thief = ?th \<rparr>"
    using q(2) min_le_buf[OF assms(2), of "sw_active q"] by (simp add: b_def deque_bounded_def shared_worklist_buf_min_log_size_def)
  from push_many_grow_run[OF this _ b63 assms(2) w(1)] obtain k where
    R: "deque_run acquire deque_bounded (deque_start q) (replicate k Internal)
      \<lparr> ds_q = q1, ds_owner = Owner_Push_Many b (sw_top q) a1 xs, ds_thief = ?th \<rparr>"
    and room: "\<not> sw_full q1 a1 b (sw_top q) (of_nat (length xs))"
    using quiet_start[OF assms(1)] by blast
  have b1: "sw_bottom q1 = b" using run_refines[OF R] quiet_start[OF assms(1)] by (simp add: deque_ok_def)
  have "deque_run acquire deque_bounded (deque_start q) (replicate k Internal @ [Internal])
      \<lparr> ds_q = q1, ds_owner = Owner_Put b xs 0 a1, ds_thief = ?th \<rparr>"
    by (rule owner_run_step[OF R push_many_room[OF room]]) (use b1 b63 in \<open>simp add: deque_bounded_def\<close>)
  note P = put_run[OF this b1 b63 le_refl]
  have "deque_run acquire deque_bounded (deque_start q) (((replicate k Internal @ [Internal]) @ replicate (length xs) Internal) @ [Pushed xs])
      (deque_start q')"
    unfolding w(2) deque_start_def
    by (rule owner_run_step[OF P[THEN conjunct1, unfolded deque_start_def] push_store]) (use lim in \<open>simp_all add: deque_bounded_def\<close>)
  moreover have "(replicate k Internal @ [Internal]) @ replicate (length xs) Internal = replicate (k + 1 + length xs) Internal"
    by (simp add: replicate_add replicate_append_same)
  ultimately show thesis using that by metis
qed
section \<open>Properties\<close>

text \<open>C11: Whatever the owner and any number of thieves do at a fresh work-stealing deque, in whatever
  order their accesses to memory interleave, the pushes, pops and steals happen as if the deque were a
  list that each of them changes at once: a push appends, a pop takes the last element or finds the
  list empty, a steal takes the first one, and a steal that gives up finds at most one element. The
  bounds of the run, \<open>deque_bounded\<close>, are that no batch of \<open>push_many\<close>, which the repository defines but
  does not call, has more references than the active buffer has slots, and that the indices stay
  below 2^63.\<close>

theorem shared_worklist_refines_deque:
  assumes "shared_worklist_init acquire = Inr (Some q)" "deque_run acquire deque_bounded (deque_start q) evs s"
  shows "deque_spec_run [] evs (deque_abs (ds_q s) (ds_owner s))"
  using run_refines[OF assms(2)] deque_init_ok[OF assms(1)] by (simp add: deque_start_def)

definition example_deque :: shared_worklist where
  "example_deque = \<lparr> sw_bottom = 0, sw_top = 0, sw_active = 0, sw_bufs =
    \<lparr> swb_log_size = 10, swb_size = 1024, swb_data = replicate 1024 0 \<rparr>
      # replicate 18 \<lparr> swb_log_size = 0, swb_size = 0, swb_data = [] \<rparr> \<rparr>"

lemma example_deque_init: "shared_worklist_init (\<lambda>_. True) = Inr (Some example_deque)"
proof -
  have "(push_bit 10 1 :: u64) = 1024" by (simp add: push_bit_eq_mult)
  moreover have "replicate 19 x = x # replicate 18 x" for x :: shared_worklist_buf
    using replicate_Suc[of 18 x] by simp
  ultimately show ?thesis
    by (simp add: shared_worklist_init_def shared_worklist_buf_init_def shared_worklist_zero_def example_deque_def
        shared_worklist_buf_min_log_size_def shared_worklist_buf_max_log_size_def)
qed

lemma example_deque_quiet: "deque_quiet example_deque"
  using deque_init_ok(1)[OF example_deque_init] by (simp add: deque_quiet_def deque_ok_def deque_start_def example_deque_def)

lemma example_deque_push:
  obtains q' where "shared_worklist_push (\<lambda>_. True) example_deque 7 = Inr q'"
    "deque_run (\<lambda>_. True) deque_bounded (deque_start example_deque) [Internal, Internal, Internal, Pushed [7]] (deque_start q')"
proof -
  have "\<exists>q'. shared_worklist_push (\<lambda>_. True) example_deque 7 = Inr q'"
    by (simp add: shared_worklist_push_def sw_full_def example_deque_def)
  then show thesis using push_run[OF example_deque_quiet] that by blast
qed

theorem shared_worklist_refines_deque_witness:
  "\<exists>s :: deque_state. deque_spec_run [] [Internal, Internal, Internal, Pushed [7]] (deque_abs (ds_q s) (ds_owner s))"
proof -
  obtain q' where "deque_run (\<lambda>_. True) deque_bounded (deque_start example_deque) [Internal, Internal, Internal, Pushed [7]] (deque_start q')"
    by (rule example_deque_push)
  from shared_worklist_refines_deque[OF example_deque_init this] show ?thesis by blast
qed

text \<open>C12: In every interleaving that stays within the bounds \<open>deque_bounded\<close>, where batches of \<open>push_many\<close>
  have no more references than the active buffer has slots and indices are below 2^63, what was pushed
  to the deque was popped by the owner or stolen by a thief exactly once, or is still in the deque:
  nothing is lost and nothing is handed out twice.\<close>

theorem shared_worklist_exactly_once:
  assumes "shared_worklist_init acquire = Inr (Some q)" "deque_run acquire deque_bounded (deque_start q) evs s"
  shows "mset (concat (map pushed evs)) = mset (concat (map taken evs)) + mset (deque_abs (ds_q s) (ds_owner s))"
  using run_refines[OF assms(2)] deque_init_ok[OF assms(1)] deque_spec_run_mset[of "[]" evs]
  by (simp add: deque_start_def)

theorem shared_worklist_exactly_once_witness:
  "\<exists>s :: deque_state. mset [7] = mset [] + mset (deque_abs (ds_q s) (ds_owner s))"
proof -
  obtain q' where "deque_run (\<lambda>_. True) deque_bounded (deque_start example_deque) [Internal, Internal, Internal, Pushed [7]] (deque_start q')"
    by (rule example_deque_push)
  from shared_worklist_exactly_once[OF example_deque_init this] show ?thesis by auto
qed

subsection \<open>One thread alone\<close>

inductive_cases deque_spec_runE: "deque_spec_run l (evs @ [ev]) l'"
inductive_cases deque_spec_eventE: "deque_spec l Internal l'" "deque_spec l (Pushed xs) l'" "deque_spec l (Popped r) l'"
  "deque_spec l (Stolen r) l'"

lemma spec_run_internal: "deque_spec_run l evs l' \<Longrightarrow> set evs \<subseteq> {Internal} \<Longrightarrow> l' = l"
  by (induction rule: deque_spec_run.induct) (auto elim: deque_spec_eventE)

lemma spec_run_append:
  "deque_spec_run l (evs @ evs') l'' \<Longrightarrow> \<exists>l'. deque_spec_run l evs l' \<and> deque_spec_run l' evs' l''"
proof (induction evs' arbitrary: l'' rule: rev_induct)
  case (snoc ev evs')
  then obtain l1 where "deque_spec_run l (evs @ evs') l1" "deque_spec l1 ev l''"
    by (metis append_assoc deque_spec_runE)
  then show ?case using snoc.IH deque_spec_run.intros(2) by blast
qed (auto intro: deque_spec_run.intros)

text \<open>A run whose only event besides internal ones is \<open>ev\<close>.\<close>

lemma spec_run_single:
  assumes "deque_spec_run l (is @ ev # is') l'" "set is \<subseteq> {Internal}" "set is' \<subseteq> {Internal}"
  shows "deque_spec l ev l'"
proof -
  obtain l1 where l1: "deque_spec_run l is l1" "deque_spec_run l1 ([ev] @ is') l'"
    using spec_run_append[OF assms(1)] by auto
  obtain l2 where l2: "deque_spec_run l1 ([] @ [ev]) l2" "deque_spec_run l2 is' l'"
    using spec_run_append[OF l1(2)] by auto
  obtain l3 where l3: "deque_spec_run l1 [] l3" "deque_spec l3 ev l2" by (rule deque_spec_runE[OF l2(1)])
  have "l1 = l" "l3 = l1" "l' = l2"
    using spec_run_internal[OF l1(1) assms(2)] spec_run_internal[OF l3(1)] spec_run_internal[OF l2(2) assms(3)] by simp_all
  then show ?thesis using l3(2) by simp
qed

lemma run_single:
  assumes "deque_quiet q" "deque_run acquire deque_bounded (deque_start q) (is @ ev # is') (deque_start q')"
    and "set is \<subseteq> {Internal}" "set is' \<subseteq> {Internal}"
  shows "sw_ok q' (sw_bottom q')" "deque_spec (deque_abs q Owner_Idle) ev (deque_abs q' Owner_Idle)"
proof -
  have R: "deque_ok (deque_start q')" "deque_spec_run (deque_abs q Owner_Idle) (is @ ev # is') (deque_abs q' Owner_Idle)"
    using run_refines[OF assms(2)] quiet_start[OF assms(1)] by (simp_all add: deque_start_def)
  show "sw_ok q' (sw_bottom q')" using R(1) by (simp add: deque_ok_def deque_start_def)
  show "deque_spec (deque_abs q Owner_Idle) ev (deque_abs q' Owner_Idle)" by (rule spec_run_single[OF R(2) assms(3,4)])
qed

lemma push_alone:
  assumes "deque_quiet q" "shared_worklist_push acquire q x = Inr q'"
  shows "sw_ok q' (sw_bottom q')" "deque_abs q' Owner_Idle = deque_abs q Owner_Idle @ [x]"
  using run_single[OF assms(1), of acquire "[Internal, Internal, Internal]" "Pushed [x]" "[]" q'] push_run[OF assms]
  by (auto elim: deque_spec_eventE)

lemma push_many_alone:
  assumes "deque_quiet q" "length xs \<le> 2 ^ 10" "shared_worklist_push_many acquire q xs = Inr q'"
  shows "sw_ok q' (sw_bottom q')" "deque_abs q' Owner_Idle = deque_abs q Owner_Idle @ xs"
proof -
  obtain k where "deque_run acquire deque_bounded (deque_start q) (replicate k Internal @ Pushed xs # []) (deque_start q')"
    using push_many_run[OF assms] by auto
  note R = run_single[OF assms(1) this]
  have k: "set (replicate k Internal) \<subseteq> {Internal}" by auto
  show "sw_ok q' (sw_bottom q')" by (rule R(1)[OF k]) simp
  show "deque_abs q' Owner_Idle = deque_abs q Owner_Idle @ xs" using R(2)[OF k] by (auto elim: deque_spec_eventE)
qed

lemma abs_empty_iff: "sw_ok q (sw_bottom q) \<Longrightarrow> deque_abs q Owner_Idle = [] \<longleftrightarrow> sw_top q = sw_bottom q"
  by (auto simp: deque_abs_def sw_ok_def word_unat_eq_iff)

lemma pop_alone:
  assumes "deque_quiet q" "shared_worklist_try_pop q = (x, q')"
  shows "sw_ok q' (sw_bottom q') \<and> (if deque_abs q Owner_Idle = [] then x = gc_ref_null \<and> deque_abs q' Owner_Idle = []
    else deque_abs q Owner_Idle = deque_abs q' Owner_Idle @ [x])"
proof -
  have e: "deque_abs q Owner_Idle = [] \<longleftrightarrow> sw_top q = sw_bottom q"
    using assms(1) by (intro abs_empty_iff) (simp add: deque_quiet_def)
  obtain ev evs where R: "deque_run acquire deque_bounded (deque_start q) (Internal # ev # evs) (deque_start q')"
    "(ev, evs) = (if sw_top q = sw_bottom q then (Popped None, [Internal])
      else if sint (sw_bottom q - sw_top q) = 1 then (Internal, [Popped (Some x), Internal]) else (Popped (Some x), []))"
    "sw_top q = sw_bottom q \<Longrightarrow> x = gc_ref_null"
    using pop_run[OF assms] by metis
  have S: "\<exists>is is'. Internal # ev # evs = is @ Popped (if sw_top q = sw_bottom q then None else Some x) # is'
      \<and> set is \<subseteq> {Internal} \<and> set is' \<subseteq> {Internal}"
    using R(2) by (auto split: if_splits intro: exI[of _ "[Internal]"] exI[of _ "[Internal, Internal]"] exI[of _ "[]"])
  then obtain "is" is' where I: "Internal # ev # evs = is @ Popped (if sw_top q = sw_bottom q then None else Some x) # is'"
    "set is \<subseteq> {Internal}" "set is' \<subseteq> {Internal}" by blast
  note * = run_single[OF assms(1) R(1)[unfolded I(1)] I(2,3)]
  show ?thesis using * R(3) e by (auto elim: deque_spec_eventE split: if_splits)
qed

lemma steal_alone:
  assumes "deque_quiet q" "shared_worklist_steal q = (x, q')"
  shows "sw_ok q' (sw_bottom q') \<and> (if deque_abs q Owner_Idle = [] then x = gc_ref_null \<and> q' = q
    else deque_abs q Owner_Idle = x # deque_abs q' Owner_Idle)"
proof -
  have e: "deque_abs q Owner_Idle = [] \<longleftrightarrow> sw_top q = sw_bottom q"
    using assms(1) by (intro abs_empty_iff) (simp add: deque_quiet_def)
  show ?thesis
  proof (cases "sw_top q = sw_bottom q")
    case True
    then show ?thesis using steal_run[OF assms] e assms(1) by (auto simp: deque_quiet_def)
  next
    case False
    then have "deque_run acquire deque_bounded (deque_start q) ([Internal, Internal, Internal, Internal] @ Stolen (Some x) # []) (deque_start q')" for acquire
      using steal_run[OF assms] by simp
    from run_single[OF assms(1) this] False e show ?thesis by (auto elim: deque_spec_eventE)
  qed
qed

text \<open>At a deque that no other thread is using, \<open>push\<close> and \<open>push_many\<close> of at most 1024 references append
  to the list it stands for; \<open>try_pop\<close> takes the last reference and \<open>steal\<close> the first, and both give
  null when there is none; \<open>size\<close> is its length and \<open>can_steal\<close> says that it is not empty.\<close>

theorem shared_worklist_sequential:
  assumes "deque_quiet q"
  shows "(\<forall>x q'. shared_worklist_push acquire q x = Inr q' \<longrightarrow>
      sw_ok q' (sw_bottom q') \<and> deque_abs q' Owner_Idle = deque_abs q Owner_Idle @ [x])
    \<and> (\<forall>xs q'. length xs \<le> 2 ^ 10 \<longrightarrow> shared_worklist_push_many acquire q xs = Inr q' \<longrightarrow>
      sw_ok q' (sw_bottom q') \<and> deque_abs q' Owner_Idle = deque_abs q Owner_Idle @ xs)
    \<and> (\<forall>x q'. shared_worklist_try_pop q = (x, q') \<longrightarrow> sw_ok q' (sw_bottom q')
      \<and> (if deque_abs q Owner_Idle = [] then x = gc_ref_null \<and> deque_abs q' Owner_Idle = []
         else deque_abs q Owner_Idle = deque_abs q' Owner_Idle @ [x]))
    \<and> (\<forall>x q'. shared_worklist_steal q = (x, q') \<longrightarrow> sw_ok q' (sw_bottom q')
      \<and> (if deque_abs q Owner_Idle = [] then x = gc_ref_null \<and> q' = q
         else deque_abs q Owner_Idle = x # deque_abs q' Owner_Idle))
    \<and> shared_worklist_size q = int (length (deque_abs q Owner_Idle))
    \<and> (shared_worklist_can_steal q \<longleftrightarrow> deque_abs q Owner_Idle \<noteq> [])"
proof -
  have q: "sw_ok q (sw_bottom q)" "unat (sw_bottom q) < 2 ^ 63" using assms by (simp_all add: deque_quiet_def)
  then have le: "unat (sw_top q) \<le> unat (sw_bottom q)" by (simp add: sw_ok_def)
  then have "sint (sw_bottom q - sw_top q) = int (unat (sw_bottom q)) - int (unat (sw_top q))"
    using q(2) by (intro sint_diff(1)) linarith+
  then have sz: "shared_worklist_size q = int (length (deque_abs q Owner_Idle))"
    using le by (simp add: shared_worklist_size_def deque_abs_def)
  then have "shared_worklist_can_steal q \<longleftrightarrow> deque_abs q Owner_Idle \<noteq> []" by (simp add: shared_worklist_can_steal_def)
  then show ?thesis
    using sz push_alone[OF assms] push_many_alone[OF assms] pop_alone[OF assms] steal_alone[OF assms] by blast
qed

theorem shared_worklist_sequential_witness:
  "shared_worklist_size example_deque = int (length (deque_abs example_deque Owner_Idle))"
  using shared_worklist_sequential[OF example_deque_quiet] by blast

text \<open>C40: \<open>shared_worklist_push\<close> crashes exactly when the deque fills its buffer and the buffer cannot be
  doubled, because it is the largest one already or because no memory is left.\<close>

theorem shared_worklist_push_crash:
  assumes "deque_quiet q"
  shows "shared_worklist_push acquire q x = Inl e \<longleftrightarrow> e = Crash
    \<and> length (deque_abs q Owner_Idle) = 2 ^ (10 + sw_active q)
    \<and> (sw_active q = 18 \<or> \<not> acquire (8 * 2 ^ (11 + sw_active q)))"
proof -
  let ?a = "sw_active q" and ?b = "sw_bottom q" and ?t = "sw_top q"
  have q: "sw_ok q ?b" "unat ?t \<le> unat ?b" "unat ?b \<le> unat ?t + 2 ^ (10 + ?a)" "?a < 19"
    "swb_log_size (sw_bufs q ! ?a) = 10 + ?a"
    using assms by (auto simp: deque_quiet_def sw_ok_def buf_ok_def)
  have full: "sw_full q ?a ?b ?t 1 \<longleftrightarrow> length (deque_abs q Owner_Idle) = 2 ^ (10 + ?a)"
    using full_room[OF q(1-3), of 1] q(2,3) by (auto simp: deque_abs_def)
  have grow: "shared_worklist_grow acquire q ?a ?b ?t = Inl e \<longleftrightarrow> e = Crash \<and> (?a = 18 \<or> \<not> acquire (8 * 2 ^ (11 + ?a)))"
    using q(4,5) by (auto simp: shared_worklist_grow_def shared_worklist_buf_grow_def shared_worklist_buf_init_def Let_def
        shared_worklist_buf_max_log_size_def shared_worklist_buf_min_log_size_def gc_assert_def push_bit_eq_mult mult.commute)
  have "shared_worklist_push acquire q x = Inl e \<longleftrightarrow> sw_full q ?a ?b ?t 1 \<and> shared_worklist_grow acquire q ?a ?b ?t = Inl e"
    by (cases "shared_worklist_grow acquire q ?a ?b ?t") (auto simp: shared_worklist_push_def Let_def)
  then show ?thesis using full grow by blast
qed

theorem shared_worklist_push_crash_witness:
  "\<not> (shared_worklist_push (\<lambda>_. False) example_deque 7 = Inl Crash)"
proof -
  have "deque_abs example_deque Owner_Idle = []" by (simp add: deque_abs_def example_deque_def)
  then show ?thesis using shared_worklist_push_crash[OF example_deque_quiet, of "\<lambda>_. False" 7 Crash] by simp
qed

end
