(* ===== verification/SemiSpace.thy ===== *)
theory SemiSpace
  imports LargeObjectCorrect Embedder Allocation
begin

text \<open>
  The semispace collector, \<open>src/src/semi.c\<close>: bump-pointer allocation in one region, Cheney's copying
  collection into the other, large objects in their own space whose pages are taken from both regions
  (\<open>stolen\<close>), and the resizing of the heap. The heap holds the large object space of
  \<open>LargeObjectSpace\<close>, the embedder's external space and the memory.

  Arguments stand for what is elsewhere: the embedder; \<open>resolve\<close> for
  \<open>gc_resolve_pending_ephemerons\<close>; \<open>finish\<close> for the phases of \<open>collect\<close> that trace ephemerons and
  finalizers, whose code is modelled in \<open>Ephemeron\<close> and \<open>Finalizer\<close>; \<open>sizer\<close> for what the heap sizer
  asks for; \<open>acquire\<close> for \<open>gc_platform_acquire_memory\<close>. Events and clocks have no model.

  \<open>gc_trace_object\<close> and the callback of a large or external object call each other, as deep as there
  are such objects: \<open>fuel\<close> bounds the depth, and one more than the number of unmarked objects is enough.
\<close>

section \<open>State\<close>

record region =
  rg_base :: u64
  rg_active_size :: u64
  rg_mapped_size :: u64

record semi_space =
  ss_hp :: u64
  ss_limit :: u64
  ss_from_space :: region
  ss_to_space :: region
  ss_page_size :: u64
  ss_stolen_pages :: u64
  ss_live_bytes_at_last_gc :: u64

record 'x semi_heap =
  sh_semi :: semi_space
  sh_large :: large_object_space
  sh_extern :: 'x
  sh_mem :: byte_mem
  sh_size :: u64
  sh_total_allocated_bytes_at_last_gc :: u64
  sh_count :: nat
  sh_check_pending_ephemerons :: bool

text \<open>The collector is precise: \<open>semi.c\<close> does not compile with conservative roots.\<close>

definition semi_config :: gc_config where
  "semi_config = \<lparr> gc_parallel = False, gc_generational = False, gc_precise_roots = True,
    gc_conservative_roots = False, gc_conservative_trace = False \<rparr>"

definition GC_ALIGNMENT :: u64 where "GC_ALIGNMENT = 8"
definition GC_LARGE_OBJECT_THRESHOLD :: u64 where "GC_LARGE_OBJECT_THRESHOLD = 8192"

section \<open>Regions\<close>

text \<open>Discarded memory reads as zero.\<close>

definition region_trim_by :: "region \<Rightarrow> u64 \<Rightarrow> byte_mem \<Rightarrow> (region \<times> byte_mem) result" where
  "region_trim_by region newly_unavailable mem =
    result_bind (gc_assert (newly_unavailable \<le> rg_active_size region)) (\<lambda>_.
    let region = region\<lparr>rg_active_size := rg_active_size region - newly_unavailable\<rparr>
    in Inr (region, mem_set mem (rg_base region + rg_active_size region) 0 newly_unavailable))"

definition region_set_active_size :: "u64 \<Rightarrow> region \<Rightarrow> u64 \<Rightarrow> byte_mem \<Rightarrow> (region \<times> byte_mem) result" where
  "region_set_active_size page_size region sz mem =
    result_bind (gc_assert (sz \<le> rg_mapped_size region)) (\<lambda>_.
    result_bind (gc_assert (sz = align_up sz page_size)) (\<lambda>_.
      if sz < rg_active_size region then region_trim_by region (rg_active_size region - sz) mem
      else Inr (region\<lparr>rg_active_size := sz\<rparr>, mem)))"

definition region_contains :: "region \<Rightarrow> u64 \<Rightarrow> bool" where
  "region_contains region addr \<longleftrightarrow> addr - rg_base region < rg_active_size region"

definition grow_region_if_needed :: "(u64 \<Rightarrow> u64 option) \<Rightarrow> region \<Rightarrow> u64 \<Rightarrow> bool \<times> region" where
  "grow_region_if_needed acquire region new_size =
    (if new_size \<le> rg_mapped_size region then (True, region)
     else case acquire new_size of
       None \<Rightarrow> (False, region)
     | Some base \<Rightarrow> (True, \<lparr> rg_base = base, rg_active_size = 0, rg_mapped_size = new_size \<rparr>))"

definition truncate_region :: "region \<Rightarrow> u64 \<Rightarrow> region result" where
  "truncate_region region new_size =
    result_bind (gc_assert (new_size \<le> rg_mapped_size region)) (\<lambda>_.
      if rg_mapped_size region - new_size \<noteq> 0
      then Inr (region\<lparr>rg_mapped_size := new_size, rg_active_size := min (rg_active_size region) new_size\<rparr>)
      else Inr region)"

definition region_init :: "(u64 \<Rightarrow> u64 option) \<Rightarrow> u64 \<Rightarrow> region option" where
  "region_init acquire sz =
    (let (ok, region) = grow_region_if_needed acquire \<lparr> rg_base = 0, rg_active_size = 0, rg_mapped_size = 0 \<rparr> sz
     in if ok then Some (region\<lparr>rg_active_size := sz\<rparr>) else None)"

section \<open>The space\<close>

definition semi_space_steal_pages :: "semi_space \<Rightarrow> u64 \<Rightarrow> byte_mem \<Rightarrow> (bool \<times> semi_space \<times> byte_mem) result" where
  "semi_space_steal_pages space npages mem =
    (let old_stolen_pages = ss_stolen_pages space;
         old_region_stolen_pages = align_up old_stolen_pages 2 div 2;
         new_stolen_pages = old_stolen_pages + npages;
         new_region_stolen_pages = align_up new_stolen_pages 2 div 2;
         region_newly_stolen_pages = new_region_stolen_pages - old_region_stolen_pages;
         region_newly_unavailable_bytes = region_newly_stolen_pages * ss_page_size space
     in if ss_limit space - ss_hp space < region_newly_unavailable_bytes then Inr (False, space, mem)
        else
          (let space = space\<lparr>ss_stolen_pages := ss_stolen_pages space + npages\<rparr>
           in if region_newly_unavailable_bytes = 0 then Inr (True, space, mem)
              else
                (let space = space\<lparr>ss_limit := ss_limit space - region_newly_unavailable_bytes\<rparr>
                 in result_bind (region_trim_by (ss_to_space space) region_newly_unavailable_bytes mem) (\<lambda>(to, mem).
                    result_bind (region_trim_by (ss_from_space space) region_newly_unavailable_bytes mem) (\<lambda>(from, mem).
                      Inr (True, space\<lparr>ss_to_space := to, ss_from_space := from\<rparr>, mem))))))"

text \<open>The limit is set to 0 until \<open>reset_heap_limits\<close> gives it its value.\<close>

definition semi_space_finish_gc :: "semi_space \<Rightarrow> u64 \<Rightarrow> semi_space" where
  "semi_space_finish_gc space large_object_pages =
    space\<lparr>ss_live_bytes_at_last_gc := ss_hp space - rg_base (ss_to_space space),
          ss_stolen_pages := large_object_pages, ss_limit := 0\<rparr>"

definition semi_space_add_to_allocation_counter :: "semi_space \<Rightarrow> u64 \<Rightarrow> u64" where
  "semi_space_add_to_allocation_counter space counter =
    (let base = rg_base (ss_to_space space) + ss_live_bytes_at_last_gc space
     in counter + (ss_hp space - base))"

definition semi_flip :: "semi_space \<Rightarrow> semi_space result" where
  "semi_flip space =
    result_bind (gc_assert (ss_hp space \<le> ss_limit space)) (\<lambda>_.
    result_bind (gc_assert (ss_limit space - rg_base (ss_to_space space) \<le> rg_active_size (ss_to_space space))) (\<lambda>_.
    result_bind (gc_assert (rg_active_size (ss_to_space space) \<le> rg_mapped_size (ss_from_space space))) (\<lambda>_.
      let space = space\<lparr>ss_from_space := ss_to_space space, ss_to_space := ss_from_space space\<rparr>;
          space = space\<lparr>ss_hp := rg_base (ss_to_space space)\<rparr>
      in Inr (space\<lparr>ss_limit := ss_hp space + rg_active_size (ss_to_space space)\<rparr>))))"

definition semi_space_contains :: "semi_space \<Rightarrow> gc_ref \<Rightarrow> bool result" where
  "semi_space_contains space ref =
    result_bind (gc_assert (\<not> region_contains (ss_to_space space) ref)) (\<lambda>_.
      Inr (region_contains (ss_from_space space) ref))"

definition semi_space_init :: "(u64 \<Rightarrow> u64 option) \<Rightarrow> u64 \<Rightarrow> u64 \<Rightarrow> semi_space option" where
  "semi_space_init acquire page_size heap_size =
    (let sz = align_up heap_size (page_size * 2)
     in case region_init acquire (sz div 2) of None \<Rightarrow> None
        | Some from \<Rightarrow> (case region_init acquire (sz div 2) of None \<Rightarrow> None
          | Some to \<Rightarrow> Some \<lparr> ss_hp = rg_base to, ss_limit = rg_base to + rg_active_size to, ss_from_space = from,
              ss_to_space = to, ss_page_size = page_size, ss_stolen_pages = 0, ss_live_bytes_at_last_gc = 0 \<rparr>))"

section \<open>Tracing\<close>

type_synonym 'x semi_resolve = "gc_ref \<Rightarrow> 'x semi_heap \<Rightarrow> 'x semi_heap"

definition semi_maybe_resolve :: "'x semi_resolve \<Rightarrow> gc_ref \<Rightarrow> 'x semi_heap \<Rightarrow> 'x semi_heap" where
  "semi_maybe_resolve resolve ref h = (if sh_check_pending_ephemerons h then resolve ref h else h)"

definition semi_copy :: "'x embedder \<Rightarrow> 'x semi_resolve \<Rightarrow> 'x semi_heap \<Rightarrow> gc_ref \<Rightarrow> (gc_ref \<times> 'x semi_heap) result" where
  "semi_copy em resolve h ref =
    result_bind (em_size em (sh_mem h) ref) (\<lambda>sz.
    let space = sh_semi h;
        new_ref = ss_hp space;
        mem = mem_copy (sh_mem h) new_ref ref sz;
        mem = em_forward em ref new_ref mem;
        space = space\<lparr>ss_hp := ss_hp space + align_up sz GC_ALIGNMENT\<rparr>
    in Inr (new_ref, semi_maybe_resolve resolve ref (h\<lparr>sh_mem := mem, sh_semi := space\<rparr>)))"

definition semi_forward :: "'x embedder \<Rightarrow> 'x semi_resolve \<Rightarrow> 'x semi_heap \<Rightarrow> gc_ref \<Rightarrow> (gc_ref \<times> 'x semi_heap) result" where
  "semi_forward em resolve h obj =
    (let forwarded = em_forwarded em (sh_mem h) obj
     in if forwarded \<noteq> 0 then Inr (forwarded, h) else semi_copy em resolve h obj)"

definition visit_semi_space ::
    "'x embedder \<Rightarrow> 'x semi_resolve \<Rightarrow> 'x semi_heap \<Rightarrow> u64 \<Rightarrow> gc_ref \<Rightarrow> 'x semi_heap result" where
  "visit_semi_space em resolve h edge ref =
    result_bind (semi_forward em resolve h ref) (\<lambda>(new_ref, h).
      Inr (h\<lparr>sh_mem := store_word (sh_mem h) edge new_ref\<rparr>))"

text \<open>\<open>gc_trace_object\<close> with a callback.\<close>

definition semi_trace_object ::
    "'x embedder \<Rightarrow> (u64 \<Rightarrow> 'x semi_heap \<Rightarrow> 'x semi_heap result) \<Rightarrow> gc_ref \<Rightarrow> 'x semi_heap \<Rightarrow> (u64 \<times> 'x semi_heap) result" where
  "semi_trace_object em trace_edge ref h =
    result_bind (em_edges em (sh_mem h) ref) (\<lambda>edges.
    result_bind (result_fold trace_edge edges h) (\<lambda>h.
    result_bind (em_size em (sh_mem h) ref) (\<lambda>sz. Inr (sz, h))))"

definition visit_large_object_space ::
    "'x embedder \<Rightarrow> 'x semi_resolve \<Rightarrow> (u64 \<Rightarrow> 'x semi_heap \<Rightarrow> 'x semi_heap result) \<Rightarrow> 'x semi_heap \<Rightarrow> gc_ref
      \<Rightarrow> 'x semi_heap result" where
  "visit_large_object_space em resolve trace_edge h ref =
    result_bind (large_object_space_mark (sh_large h) ref) (\<lambda>(is_new, large).
    let h = h\<lparr>sh_large := large\<rparr>
    in if is_new
       then result_bind (semi_trace_object em trace_edge ref (semi_maybe_resolve resolve ref h)) (\<lambda>(_, h). Inr h)
       else Inr h)"

definition visit_external_object ::
    "'x embedder \<Rightarrow> 'x semi_resolve \<Rightarrow> (u64 \<Rightarrow> 'x semi_heap \<Rightarrow> 'x semi_heap result) \<Rightarrow> 'x semi_heap \<Rightarrow> gc_ref
      \<Rightarrow> 'x semi_heap result" where
  "visit_external_object em resolve trace_edge h ref =
    result_bind (em_extern_visit em ref (sh_extern h)) (\<lambda>(is_new, extern).
    let h = h\<lparr>sh_extern := extern\<rparr>
    in if is_new
       then result_bind (semi_trace_object em trace_edge ref (semi_maybe_resolve resolve ref h)) (\<lambda>(_, h). Inr h)
       else Inr h)"

fun semi_visit :: "'x embedder \<Rightarrow> 'x semi_resolve \<Rightarrow> nat \<Rightarrow> u64 \<Rightarrow> 'x semi_heap \<Rightarrow> 'x semi_heap result" where
  "semi_visit em resolve 0 edge h = Inl Diverge"
| "semi_visit em resolve (Suc fuel) edge h =
    (let ref = load_word (sh_mem h) edge
     in if gc_ref_is_null ref then Inr h
        else result_bind (gc_ref_is_immediate em ref) (\<lambda>immediate.
          if immediate then Inr h
          else result_bind (semi_space_contains (sh_semi h) ref) (\<lambda>in_semi.
            if in_semi then visit_semi_space em resolve h edge ref
            else result_bind (large_object_space_contains (sh_large h) ref) (\<lambda>in_large.
              if in_large then visit_large_object_space em resolve (semi_visit em resolve fuel) h ref
              else visit_external_object em resolve (semi_visit em resolve fuel) h ref))))"

definition semi_scan :: "'x embedder \<Rightarrow> 'x semi_resolve \<Rightarrow> nat \<Rightarrow> 'x semi_heap \<Rightarrow> gc_ref \<Rightarrow> (u64 \<times> 'x semi_heap) result" where
  "semi_scan em resolve fuel h grey =
    result_bind (semi_trace_object em (semi_visit em resolve fuel) grey h) (\<lambda>(sz, h).
      Inr (grey + align_up sz GC_ALIGNMENT, h))"

definition trace_closure ::
    "'x embedder \<Rightarrow> 'x semi_resolve \<Rightarrow> nat \<Rightarrow> 'x semi_heap \<Rightarrow> u64 \<Rightarrow> (u64 \<times> 'x semi_heap) result" where
  "trace_closure em resolve fuel h grey =
    while_result (\<lambda>(grey, h). grey < ss_hp (sh_semi h)) (\<lambda>(grey, h). semi_scan em resolve fuel h grey) (grey, h)"

definition semi_visit_ephemeron_key :: "'x embedder \<Rightarrow> u64 \<Rightarrow> 'x semi_heap \<Rightarrow> (bool \<times> 'x semi_heap) result" where
  "semi_visit_ephemeron_key em edge h =
    (let ref = load_word (sh_mem h) edge
     in result_bind (gc_assert (\<not> gc_ref_is_null ref)) (\<lambda>_.
        result_bind (gc_ref_is_immediate em ref) (\<lambda>immediate.
        if immediate then Inr (True, h)
        else result_bind (semi_space_contains (sh_semi h) ref) (\<lambda>in_semi.
          if in_semi then
            (let forwarded = em_forwarded em (sh_mem h) ref
             in if forwarded = 0 then Inr (False, h)
                else Inr (True, h\<lparr>sh_mem := store_word (sh_mem h) edge forwarded\<rparr>))
          else result_bind (large_object_space_contains (sh_large h) ref) (\<lambda>in_large.
            if in_large then result_bind (large_object_space_is_marked (sh_large h) ref) (\<lambda>b. Inr (b, h))
            else Inr (True, h))))))"

section \<open>Resizing\<close>

definition resize_heap :: "(u64 \<Rightarrow> u64 option) \<Rightarrow> u64 \<Rightarrow> 'x semi_heap \<Rightarrow> 'x semi_heap" where
  "resize_heap acquire new_heap_size h =
    (let semi = sh_semi h;
         new_heap_size = align_up new_heap_size (ss_page_size semi * 2);
         new_region_size = new_heap_size div 2;
         (_, from) = grow_region_if_needed acquire (ss_from_space semi)
           (max new_region_size (rg_mapped_size (ss_to_space semi)));
         new_region_size = min new_region_size (min (rg_mapped_size (ss_to_space semi)) (rg_mapped_size from))
     in h\<lparr>sh_semi := semi\<lparr>ss_from_space := from\<rparr>, sh_size := new_region_size * 2\<rparr>)"

definition reset_heap_limits :: "'x semi_heap \<Rightarrow> 'x semi_heap result" where
  "reset_heap_limits h =
    (let semi = sh_semi h;
         new_region_size = align_up (sh_size h) (ss_page_size semi * 2) div 2;
         stolen = align_up (ss_stolen_pages semi) 2 * ss_page_size semi
     in result_bind (gc_assert (stolen div 2 < new_region_size)) (\<lambda>_.
        let new_active_region_size = new_region_size - stolen div 2
        in result_bind (region_set_active_size (ss_page_size semi) (ss_from_space semi) new_active_region_size (sh_mem h))
             (\<lambda>(from, mem).
           result_bind (region_set_active_size (ss_page_size semi) (ss_to_space semi) new_active_region_size mem)
             (\<lambda>(to, mem).
           let new_limit = rg_base to + new_active_region_size
           in result_bind (gc_assert (ss_hp semi \<le> new_limit)) (\<lambda>_.
                Inr (h\<lparr>sh_mem := mem,
                  sh_semi := semi\<lparr>ss_from_space := from, ss_to_space := to, ss_limit := new_limit\<rparr>\<rparr>))))))"

section \<open>A collection\<close>

definition semi_prepare_gc :: "'x embedder \<Rightarrow> 'x semi_heap \<Rightarrow> 'x semi_heap result" where
  "semi_prepare_gc em h =
    (let counter = semi_space_add_to_allocation_counter (sh_semi h) (sh_total_allocated_bytes_at_last_gc h);
         counter = large_object_space_add_to_allocation_counter (sh_large h) counter
     in result_bind (large_object_space_start_gc semi_config (sh_large h) False) (\<lambda>large.
        result_bind (semi_flip (sh_semi h)) (\<lambda>semi.
          Inr (h\<lparr>sh_total_allocated_bytes_at_last_gc := counter, sh_large := large,
                sh_extern := em_extern_start_gc em False (sh_extern h), sh_semi := semi,
                sh_count := sh_count h + 1, sh_check_pending_ephemerons := False\<rparr>))))"

definition semi_trace_roots :: "'x embedder \<Rightarrow> 'x semi_resolve \<Rightarrow> nat \<Rightarrow> 'x semi_heap \<Rightarrow> (u64 \<times> 'x semi_heap) result" where
  "semi_trace_roots em resolve fuel h =
    (let grey = ss_hp (sh_semi h)
     in result_bind (result_fold (semi_visit em resolve fuel) (em_heap_roots em) h) (\<lambda>h.
        result_bind (result_fold (semi_visit em resolve fuel) (em_mutator_roots em) h) (\<lambda>h.
        result_bind (result_fold (semi_visit em resolve fuel) (em_finalizer_roots em) h) (\<lambda>h.
          Inr (grey, h)))))"

definition semi_finish_gc ::
    "'x embedder \<Rightarrow> (u64 \<Rightarrow> u64 option) \<Rightarrow> (u64 \<Rightarrow> u64 \<Rightarrow> u64 option) \<Rightarrow> 'x semi_heap \<Rightarrow> 'x semi_heap result" where
  "semi_finish_gc em acquire sizer h =
    result_bind (large_object_space_finish_gc semi_config (sh_large h) False) (\<lambda>(large, _).
    let h = h\<lparr>sh_large := large, sh_extern := em_extern_finish_gc em False (sh_extern h)\<rparr>;
        semi = semi_space_finish_gc (sh_semi h) (los_live_pages_at_last_collection large);
        h = h\<lparr>sh_semi := semi\<rparr>;
        live_size = ss_live_bytes_at_last_gc semi + large_object_space_size_at_last_collection large;
        h = (case sizer (sh_size h) live_size of None \<Rightarrow> h | Some sz \<Rightarrow> resize_heap acquire sz h)
    in result_bind (reset_heap_limits h) (\<lambda>h.
         Inr (h\<lparr>sh_mem := mem_set (sh_mem h) (ss_hp (sh_semi h)) 0
           (ss_limit (sh_semi h) - ss_hp (sh_semi h))\<rparr>)))"

definition semi_collect ::
    "'x embedder \<Rightarrow> 'x semi_resolve \<Rightarrow> (u64 \<Rightarrow> 'x semi_heap \<Rightarrow> 'x semi_heap result) \<Rightarrow> (u64 \<Rightarrow> u64 option)
      \<Rightarrow> (u64 \<Rightarrow> u64 \<Rightarrow> u64 option) \<Rightarrow> nat \<Rightarrow> 'x semi_heap \<Rightarrow> 'x semi_heap result" where
  "semi_collect em resolve finish acquire sizer fuel h =
    result_bind (semi_prepare_gc em h) (\<lambda>h.
    result_bind (semi_trace_roots em resolve fuel h) (\<lambda>(grey, h).
    result_bind (trace_closure em resolve fuel h grey) (\<lambda>(grey, h).
    result_bind (finish grey h) (\<lambda>h.
      semi_finish_gc em acquire sizer h))))"

section \<open>Allocation\<close>

text \<open>\<open>collect\<close> is the collection of the heap at hand; \<open>fixed\<close> says that the size of the heap is.\<close>

definition collect_for_alloc ::
    "('x semi_heap \<Rightarrow> 'x semi_heap result) \<Rightarrow> bool \<Rightarrow> u64 \<Rightarrow> 'x semi_heap \<Rightarrow> (bool \<times> 'x semi_heap) result" where
  "collect_for_alloc collect fixed bytes h =
    result_bind (collect h) (\<lambda>h.
    if bytes \<le> ss_limit (sh_semi h) - ss_hp (sh_semi h) then Inr (True, h)
    else if \<not> fixed then result_bind (collect h) (\<lambda>h.
      Inr (bytes \<le> ss_limit (sh_semi h) - ss_hp (sh_semi h), h))
    else Inr (False, h))"

definition collect_for_large_alloc ::
    "('x semi_heap \<Rightarrow> 'x semi_heap result) \<Rightarrow> bool \<Rightarrow> u64 \<Rightarrow> 'x semi_heap \<Rightarrow> (bool \<times> 'x semi_heap) result" where
  "collect_for_large_alloc collect fixed npages h =
    collect_for_alloc collect fixed (npages * ss_page_size (sh_semi h) div 2) h"

text \<open>\<open>failure\<close> is the handler for want of memory, and what it returns.\<close>

definition semi_allocate_large ::
    "('x semi_heap \<Rightarrow> 'x semi_heap result) \<Rightarrow> bool \<Rightarrow> (u64 \<Rightarrow> u64 option) \<Rightarrow> u64 \<Rightarrow> (u64 \<Rightarrow> u64 result)
      \<Rightarrow> 'x semi_heap \<Rightarrow> u64 \<Rightarrow> (u64 \<times> 'x semi_heap) result" where
  "semi_allocate_large collect fixed acquire node failure h sz =
    (let npages = large_object_space_npages (sh_large h) sz
     in result_bind (semi_space_steal_pages (sh_semi h) npages (sh_mem h)) (\<lambda>(stolen, semi, mem).
        let h = h\<lparr>sh_semi := semi, sh_mem := mem\<rparr>
        in result_bind (if stolen then Inr (True, h) else collect_for_large_alloc collect fixed npages h) (\<lambda>(ok, h).
           if \<not> ok then result_bind (failure sz) (\<lambda>r. Inr (r, h))
           else result_bind (large_object_space_alloc semi_config acquire node (sh_large h) npages Trace_precisely)
             (\<lambda>(ret, large). if ret = 0 then Inl Crash else Inr (ret, h\<lparr>sh_large := large\<rparr>)))))"

text \<open>The loop of \<open>gc_allocate_slow\<close> collects as long as a collection makes room; its second turn succeeds.\<close>

definition semi_bump :: "u64 \<Rightarrow> 'x semi_heap \<Rightarrow> (u64 \<times> 'x semi_heap) option" where
  "semi_bump sz h =
    (let space = sh_semi h; addr = ss_hp space; new_hp = align_up (addr + sz) GC_ALIGNMENT
     in if ss_limit space < new_hp then None else Some (addr, h\<lparr>sh_semi := space\<lparr>ss_hp := new_hp\<rparr>\<rparr>))"

definition semi_allocate_slow ::
    "('x semi_heap \<Rightarrow> 'x semi_heap result) \<Rightarrow> bool \<Rightarrow> (u64 \<Rightarrow> u64 option) \<Rightarrow> u64 \<Rightarrow> (u64 \<Rightarrow> u64 result)
      \<Rightarrow> 'x semi_heap \<Rightarrow> u64 \<Rightarrow> gc_allocation_kind \<Rightarrow> (u64 \<times> 'x semi_heap) result" where
  "semi_allocate_slow collect fixed acquire node failure h sz kind =
    (if kind \<noteq> Allocation_tagged \<and> kind \<noteq> Allocation_tagged_pointerless then Inl Crash
     else if GC_LARGE_OBJECT_THRESHOLD < sz then semi_allocate_large collect fixed acquire node failure h sz
     else result_bind
       (while_result (\<lambda>(ok, h). ok \<and> semi_bump sz h = None) (\<lambda>(ok, h). collect_for_alloc collect fixed sz h) (True, h))
       (\<lambda>(ok, h). case semi_bump sz h of
          Some r \<Rightarrow> Inr r
        | None \<Rightarrow> result_bind (failure sz) (\<lambda>r. Inr (r, h))))"

definition semi_heap_contains :: "'x embedder \<Rightarrow> 'x semi_heap \<Rightarrow> gc_ref \<Rightarrow> bool result" where
  "semi_heap_contains em h ref =
    result_bind (gc_ref_is_immediate em ref) (\<lambda>immediate.
    result_bind (gc_assert (\<not> immediate)) (\<lambda>_.
    result_bind (semi_space_contains (sh_semi h) ref) (\<lambda>in_semi.
      if in_semi then Inr True else large_object_space_contains (sh_large h) ref)))"

end
