(* ===== verification/SemiSpaceInvariant.thy ===== *)
theory SemiSpaceInvariant
  imports SemiSpace
begin

text \<open>
  The invariant of Cheney's collection in \<open>semi.c\<close>. At the start the heap is \<open>h0\<close>; the objects to be
  kept are those reachable in it. On the way, \<open>C\<close> lists the objects copied with their new places, in
  the order of to-space, \<open>M\<close> is the set of the marked large objects, and \<open>S\<close> the set of the edges that
  were found and are still to be visited. \<open>items\<close> are the pieces of memory that the result consists of:
  roots, copies, and marked large objects, each with the place in \<open>h0\<close> that its contents come from.
\<close>

section \<open>The heap before the collection\<close>

definition bytes_at :: "u64 \<Rightarrow> nat \<Rightarrow> u64 set" where
  "bytes_at a n = {x. unat a \<le> unat x \<and> unat x < unat a + n}"

definition is_obj_ref :: "'x embedder \<Rightarrow> gc_ref \<Rightarrow> bool" where
  "is_obj_ref em w \<longleftrightarrow> w \<noteq> 0 \<and> \<not> (em_has_immediates em \<and> w AND 7 \<noteq> 0)"

inductive_set live_refs :: "'x embedder \<Rightarrow> (byte_mem \<Rightarrow> gc_ref \<Rightarrow> nat list) \<Rightarrow> byte_mem \<Rightarrow> u64 set \<Rightarrow> gc_ref set"
  for em offs m0 roots where
  live_root: "e \<in> roots \<Longrightarrow> is_obj_ref em (load_word m0 e) \<Longrightarrow> load_word m0 e \<in> live_refs em offs m0 roots"
| live_edge: "a \<in> live_refs em offs m0 roots \<Longrightarrow> k \<in> set (offs m0 a) \<Longrightarrow> is_obj_ref em (load_word m0 (a + of_nat k)) \<Longrightarrow>
    load_word m0 (a + of_nat k) \<in> live_refs em offs m0 roots"

definition semi_roots :: "'x embedder \<Rightarrow> u64 list" where
  "semi_roots em = em_heap_roots em @ em_mutator_roots em @ em_finalizer_roots em"

definition semi_live :: "'x embedder \<Rightarrow> (byte_mem \<Rightarrow> gc_ref \<Rightarrow> nat list) \<Rightarrow> 'x semi_heap \<Rightarrow> gc_ref set" where
  "semi_live em offs h0 = live_refs em offs (sh_mem h0) (set (semi_roots em))"

definition region_bytes :: "region \<Rightarrow> u64 set" where
  "region_bytes r = bytes_at (rg_base r) (unat (rg_active_size r))"

definition semi_large :: "'x semi_heap \<Rightarrow> gc_ref set" where
  "semi_large h0 = obj_addr ` los_objects (sh_large h0)"

text \<open>The bytes an object takes, with its padding.\<close>

definition padded :: "nat \<Rightarrow> nat" where "padded n = (n + 7) div 8 * 8"

abbreviation from_bytes :: "'x semi_heap \<Rightarrow> u64 set" where
  "from_bytes h \<equiv> region_bytes (ss_from_space (sh_semi h))"
abbreviation to_bytes :: "'x semi_heap \<Rightarrow> u64 set" where
  "to_bytes h \<equiv> region_bytes (ss_to_space (sh_semi h))"
abbreviation to_base :: "'x semi_heap \<Rightarrow> u64" where
  "to_base h \<equiv> rg_base (ss_to_space (sh_semi h))"

definition region_fits :: "region \<Rightarrow> bool" where
  "region_fits r \<longleftrightarrow> rg_base r \<noteq> 0 \<and> unat (rg_base r) mod 8 = 0 \<and> unat (rg_base r) + unat (rg_active_size r) < 2 ^ 63"

text \<open>
  The heap as the collection finds it after the flip: every reachable object is an object of the
  embedder, in from-space or a live large object, and no two of them, nor the roots, share memory.
\<close>

definition spaces_ready :: "'x semi_heap \<Rightarrow> bool" where
  "spaces_ready h0 \<longleftrightarrow> region_fits (ss_from_space (sh_semi h0)) \<and> region_fits (ss_to_space (sh_semi h0))
    \<and> from_bytes h0 \<inter> to_bytes h0 = {} \<and> ss_hp (sh_semi h0) = to_base h0
    \<and> unat (rg_active_size (ss_from_space (sh_semi h0))) \<le> unat (rg_active_size (ss_to_space (sh_semi h0)))
    \<and> \<not> sh_check_pending_ephemerons h0 \<and> los_wf (sh_large h0) \<and> los_marked_nodes (sh_large h0) = {}"

definition object_placed :: "'x semi_heap \<Rightarrow> gc_ref \<Rightarrow> nat \<Rightarrow> bool" where
  "object_placed h0 a n \<longleftrightarrow> unat a mod 8 = 0 \<and> unat a + n < 2 ^ 63
    \<and> (if a \<in> from_bytes h0 then bytes_at a n \<subseteq> from_bytes h0
       else a \<in> semi_large h0 \<and> bytes_at a n \<inter> (from_bytes h0 \<union> to_bytes h0) = {})"

definition semi_ready ::
    "'x embedder \<Rightarrow> (byte_mem \<Rightarrow> gc_ref \<Rightarrow> bool) \<Rightarrow> (byte_mem \<Rightarrow> gc_ref \<Rightarrow> nat) \<Rightarrow> (byte_mem \<Rightarrow> gc_ref \<Rightarrow> nat list)
      \<Rightarrow> 'x semi_heap \<Rightarrow> bool" where
  "semi_ready em valid osize offs h0 \<longleftrightarrow> spaces_ready h0 \<and> distinct (semi_roots em)
    \<and> (\<forall>a \<in> semi_live em offs h0. valid (sh_mem h0) a \<and> object_placed h0 a (padded (osize (sh_mem h0) a)))
    \<and> (\<forall>a \<in> semi_live em offs h0. \<forall>b \<in> semi_live em offs h0. a \<noteq> b \<longrightarrow>
        bytes_at a (padded (osize (sh_mem h0) a)) \<inter> bytes_at b (padded (osize (sh_mem h0) b)) = {})
    \<and> (\<forall>e \<in> set (semi_roots em). unat e + 8 < 2 ^ 63 \<and> bytes_at e 8 \<inter> (from_bytes h0 \<union> to_bytes h0) = {}
        \<and> (\<forall>a \<in> semi_live em offs h0. bytes_at e 8 \<inter> bytes_at a (padded (osize (sh_mem h0) a)) = {})
        \<and> (\<forall>e' \<in> set (semi_roots em). e \<noteq> e' \<longrightarrow> bytes_at e 8 \<inter> bytes_at e' 8 = {}))"

section \<open>The invariant\<close>

text \<open>Where a reference of \<open>h0\<close> goes.\<close>

definition translate :: "'x embedder \<Rightarrow> (gc_ref \<times> gc_ref) list \<Rightarrow> gc_ref \<Rightarrow> gc_ref" where
  "translate em C w = (if is_obj_ref em w then (case map_of C w of Some n \<Rightarrow> n | None \<Rightarrow> w) else w)"

definition settled :: "'x embedder \<Rightarrow> (gc_ref \<times> gc_ref) list \<Rightarrow> gc_ref set \<Rightarrow> gc_ref \<Rightarrow> bool" where
  "settled em C M w \<longleftrightarrow> (is_obj_ref em w \<longrightarrow> w \<in> fst ` set C \<or> w \<in> M)"

text \<open>The copies lie side by side from \<open>p\<close> to \<open>q\<close>.\<close>

fun tiles :: "(gc_ref \<Rightarrow> nat) \<Rightarrow> nat \<Rightarrow> (gc_ref \<times> gc_ref) list \<Rightarrow> nat \<Rightarrow> bool" where
  "tiles sz p [] q \<longleftrightarrow> p = q"
| "tiles sz p ((a, n) # C) q \<longleftrightarrow> unat n = p \<and> tiles sz (p + padded (sz a)) C q"

record item =
  it_at :: u64
  it_orig :: u64
  it_size :: nat
  it_offs :: "nat list"

definition items ::
    "'x embedder \<Rightarrow> (byte_mem \<Rightarrow> gc_ref \<Rightarrow> nat) \<Rightarrow> (byte_mem \<Rightarrow> gc_ref \<Rightarrow> nat list) \<Rightarrow> byte_mem
      \<Rightarrow> (gc_ref \<times> gc_ref) list \<Rightarrow> gc_ref set \<Rightarrow> item set" where
  "items em osize offs m0 C M =
    (\<lambda>e. \<lparr> it_at = e, it_orig = e, it_size = 8, it_offs = [0] \<rparr>) ` set (semi_roots em)
    \<union> (\<lambda>(a, n). \<lparr> it_at = n, it_orig = a, it_size = osize m0 a, it_offs = offs m0 a \<rparr>) ` set C
    \<union> (\<lambda>l. \<lparr> it_at = l, it_orig = l, it_size = osize m0 l, it_offs = offs m0 l \<rparr>) ` M"

definition item_edges :: "item \<Rightarrow> u64 set" where
  "item_edges i = (\<lambda>k. it_at i + of_nat k) ` set (it_offs i)"

definition item_bytes :: "item \<Rightarrow> u64 set" where
  "item_bytes i = bytes_at (it_at i) (it_size i)"

definition item_ok ::
    "'x embedder \<Rightarrow> byte_mem \<Rightarrow> byte_mem \<Rightarrow> (gc_ref \<times> gc_ref) list \<Rightarrow> gc_ref set \<Rightarrow> u64 set \<Rightarrow> item \<Rightarrow> bool" where
  "item_ok em m0 mem C M S i \<longleftrightarrow>
    (\<forall>k < it_size i. \<not> in_edge (it_offs i) k \<longrightarrow> mem (it_at i + of_nat k) = m0 (it_orig i + of_nat k))
    \<and> (\<forall>k \<in> set (it_offs i). let w = load_word m0 (it_orig i + of_nat k); e = it_at i + of_nat k in
        if e \<in> S then load_word mem e = w
        else load_word mem e = translate em C w \<and> settled em C M w)"

definition forwarded_to ::
    "'x embedder \<Rightarrow> (byte_mem \<Rightarrow> gc_ref \<Rightarrow> bool) \<Rightarrow> (byte_mem \<Rightarrow> gc_ref \<Rightarrow> nat) \<Rightarrow> byte_mem \<Rightarrow> byte_mem \<Rightarrow> gc_ref \<Rightarrow> gc_ref \<Rightarrow> bool" where
  "forwarded_to em valid osize m0 mem a n \<longleftrightarrow> (\<exists>m. valid m a \<and> osize m a = osize m0 a
    \<and> (\<forall>k < osize m0 a. mem (a + of_nat k) = em_forward em a n m (a + of_nat k)))"

definition semi_inv ::
    "'x embedder \<Rightarrow> (byte_mem \<Rightarrow> gc_ref \<Rightarrow> bool) \<Rightarrow> (byte_mem \<Rightarrow> gc_ref \<Rightarrow> nat) \<Rightarrow> (byte_mem \<Rightarrow> gc_ref \<Rightarrow> nat list)
      \<Rightarrow> 'x semi_heap \<Rightarrow> 'x semi_heap \<Rightarrow> (gc_ref \<times> gc_ref) list \<Rightarrow> gc_ref set \<Rightarrow> u64 set \<Rightarrow> bool" where
  "semi_inv em valid osize offs h0 h C M S \<longleftrightarrow>
    sh_semi h = (sh_semi h0)\<lparr>ss_hp := ss_hp (sh_semi h)\<rparr>
    \<and> \<not> sh_check_pending_ephemerons h
    \<and> los_wf (sh_large h) \<and> los_objects (sh_large h) = los_objects (sh_large h0)
    \<and> (\<lambda>n. obj_addr (los_key (sh_large h) n)) ` los_marked_nodes (sh_large h) = M
    \<and> distinct (map fst C) \<and> fst ` set C \<subseteq> semi_live em offs h0 \<inter> from_bytes h0
    \<and> M \<subseteq> semi_live em offs h0 - from_bytes h0
    \<and> tiles (osize (sh_mem h0)) (unat (to_base h0)) C (unat (ss_hp (sh_semi h)))
    \<and> (\<forall>(a, n) \<in> set C. forwarded_to em valid osize (sh_mem h0) (sh_mem h) a n)
    \<and> (\<forall>a \<in> semi_live em offs h0 - fst ` set C - M. \<forall>k < osize (sh_mem h0) a.
        sh_mem h (a + of_nat k) = sh_mem h0 (a + of_nat k))
    \<and> (\<forall>i \<in> items em osize offs (sh_mem h0) C M. item_ok em (sh_mem h0) (sh_mem h) C M S i)
    \<and> S \<subseteq> (\<Union>i \<in> items em osize offs (sh_mem h0) C M. item_edges i)"

section \<open>Intervals of bytes\<close>

lemma in_bytes_at: "k < n \<Longrightarrow> unat a + n \<le> 2 ^ 64 \<Longrightarrow> a + of_nat k \<in> bytes_at a n"
  using unat_of_nat_u64[of k] by (simp add: bytes_at_def unat_word_ariths)

lemma unat_offset: "k \<le> n \<Longrightarrow> unat a + n < 2 ^ 64 \<Longrightarrow> unat (a + of_nat k :: u64) = unat a + k"
  using unat_of_nat_u64[of k] by (simp add: unat_word_ariths)

lemma bytes_at_offset: "x \<in> bytes_at a n \<Longrightarrow> \<exists>k < n. x = a + of_nat k"
  by (rule exI[of _ "unat x - unat a"]) (auto simp: bytes_at_def word_unat_eq_iff unat_word_ariths unat_of_nat)

lemma bytes_at_apart: "unat a + n \<le> unat b \<Longrightarrow> bytes_at a n \<inter> bytes_at b m = {}"
  by (auto simp: bytes_at_def)

lemma bytes_at_mono: "n \<le> m \<Longrightarrow> bytes_at a n \<subseteq> bytes_at a m"
  by (auto simp: bytes_at_def)

lemma card_bytes_at:
  assumes "unat a + n \<le> 2 ^ 64"
  shows "card (bytes_at a n) = n"
proof -
  have "unat ` bytes_at a n = {unat a..<unat a + n}"
  proof
    show "{unat a..<unat a + n} \<subseteq> unat ` bytes_at a n"
    proof
      fix m assume m: "m \<in> {unat a..<unat a + n}"
      then have "unat (of_nat m :: u64) = m" using assms by (intro unat_of_nat_u64) simp
      then show "m \<in> unat ` bytes_at a n" using m by (intro image_eqI[of _ _ "of_nat m"]) (simp_all add: bytes_at_def)
    qed
  qed (auto simp: bytes_at_def)
  then have "card (unat ` bytes_at a n) = n" by simp
  moreover have "inj_on unat (bytes_at a n)" by (rule inj_onI) (simp add: word_unat_eq_iff)
  ultimately show ?thesis by (simp add: card_image)
qed

lemma padded_bounds: "n \<le> padded n" "padded n < n + 8" "padded n mod 8 = 0"
proof -
  have "n + 7 = (n + 7) div 8 * 8 + (n + 7) mod 8" "(n + 7) mod 8 < 8" by simp_all
  then show "n \<le> padded n" "padded n < n + 8" unfolding padded_def by linarith+
qed (simp add: padded_def)

lemma unat_align_8:
  assumes "n < 2 ^ 63"
  shows "unat (align_up (of_nat n) 8) = padded n"
proof -
  have "unat (of_nat n + 8 - 1 :: u64) = n + 7"
    using assms unat_of_nat_u64[of "n + 7"] by (simp add: add.commute)
  then have "unat (align_up (of_nat n) (2 ^ 3)) = (n + 7) - (n + 7) mod 2 ^ 3"
    using unat_align_down[of 3 "of_nat n + 8 - 1"] by (simp add: align_up_def)
  also have "\<dots> = padded n" by (simp add: padded_def minus_mod_eq_div_mult)
  finally show ?thesis by simp
qed

lemma region_contains_iff:
  assumes "region_fits r"
  shows "region_contains r a \<longleftrightarrow> a \<in> region_bytes r"
proof -
  have b: "unat (rg_base r) + unat (rg_active_size r) < 2 ^ 63" using assms by (simp add: region_fits_def)
  show ?thesis
  proof (cases "unat (rg_base r) \<le> unat a")
    case True
    then have "unat (a - rg_base r) = unat a - unat (rg_base r)" by (simp add: unat_sub_if')
    then show ?thesis using True
      by (auto simp: region_contains_def region_bytes_def bytes_at_def word_less_nat_alt)
  next
    case False
    then have "unat (a - rg_base r) = unat a + 2 ^ 64 - unat (rg_base r)" by (simp add: unat_sub_if')
    then show ?thesis using False b
      by (auto simp: region_contains_def region_bytes_def bytes_at_def word_less_nat_alt)
  qed
qed

section \<open>Tiles\<close>

lemma tiles_le: "tiles sz p C q \<Longrightarrow> p \<le> q"
proof (induction C arbitrary: p)
  case (Cons c C)
  then show ?case by (cases c) (fastforce dest: add_leD1)
qed simp

lemma tiles_mem: "tiles sz p C q \<Longrightarrow> (a, n) \<in> set C \<Longrightarrow> p \<le> unat n \<and> unat n + padded (sz a) \<le> q"
proof (induction C arbitrary: p)
  case (Cons c C)
  then show ?case using tiles_le by (cases c) fastforce
qed simp

lemma tiles_append: "tiles sz p (C @ D) q \<longleftrightarrow> (\<exists>r. tiles sz p C r \<and> tiles sz r D q)"
  by (induction C arbitrary: p) auto

lemma tiles_sum: "tiles sz p C q \<Longrightarrow> q = p + (\<Sum>a \<leftarrow> map fst C. padded (sz a))"
  by (induction C arbitrary: p) fastforce+

lemma tiles_mod: "tiles sz p C q \<Longrightarrow> p mod 8 = 0 \<Longrightarrow> q mod 8 = 0 \<and> (\<forall>(a, n) \<in> set C. unat n mod 8 = 0)"
proof (induction C arbitrary: p)
  case (Cons c C)
  obtain a n where c: "c = (a, n)" by (cases c)
  have "(p + padded (sz a)) mod 8 = 0" using Cons.prems(2) padded_bounds(3)[of "sz a"] by presburger
  moreover have "unat n = p" "tiles sz (p + padded (sz a)) C q" using Cons.prems(1) c by auto
  ultimately show ?case using Cons.IH[of "p + padded (sz a)"] Cons.prems(2) c by simp
qed simp

lemma tiles_apart:
  assumes "tiles sz p C q" "(a, n) \<in> set C" "(b, m) \<in> set C" "a \<noteq> b"
  shows "bytes_at n (sz a) \<inter> bytes_at m (sz b) = {}"
  using assms
proof (induction C arbitrary: p)
  case (Cons c C)
  obtain d r where c: "c = (d, r)" by (cases c)
  then have t: "unat r = p" "tiles sz (p + padded (sz d)) C q" using Cons.prems(1) by auto
  have *: "bytes_at r (sz d) \<inter> bytes_at k (sz e) = {}" if "(e, k) \<in> set C" for e k
    using tiles_mem[OF t(2) that] t(1) padded_bounds(1)[of "sz d"] by (intro bytes_at_apart) linarith
  show ?case using Cons.IH[OF t(2)] Cons.prems(2-4) * c by (auto simp: Int_commute)
qed simp

section \<open>Where the items are\<close>

lemma semi_readyD:
  assumes "semi_ready em valid osize offs h0"
  shows "spaces_ready h0" "distinct (semi_roots em)"
    "a \<in> semi_live em offs h0 \<Longrightarrow> valid (sh_mem h0) a"
    "a \<in> semi_live em offs h0 \<Longrightarrow> object_placed h0 a (padded (osize (sh_mem h0) a))"
    "a \<in> semi_live em offs h0 \<Longrightarrow> b \<in> semi_live em offs h0 \<Longrightarrow> a \<noteq> b \<Longrightarrow>
      bytes_at a (padded (osize (sh_mem h0) a)) \<inter> bytes_at b (padded (osize (sh_mem h0) b)) = {}"
    "e \<in> set (semi_roots em) \<Longrightarrow> unat e + 8 < 2 ^ 63 \<and> bytes_at e 8 \<inter> (from_bytes h0 \<union> to_bytes h0) = {}"
    "e \<in> set (semi_roots em) \<Longrightarrow> a \<in> semi_live em offs h0 \<Longrightarrow> bytes_at e 8 \<inter> bytes_at a (padded (osize (sh_mem h0) a)) = {}"
    "e \<in> set (semi_roots em) \<Longrightarrow> e' \<in> set (semi_roots em) \<Longrightarrow> e \<noteq> e' \<Longrightarrow> bytes_at e 8 \<inter> bytes_at e' 8 = {}"
proof -
  note R = assms[unfolded semi_ready_def]
  have roots: "\<forall>e \<in> set (semi_roots em). unat e + 8 < 2 ^ 63 \<and> bytes_at e 8 \<inter> (from_bytes h0 \<union> to_bytes h0) = {}
      \<and> (\<forall>a \<in> semi_live em offs h0. bytes_at e 8 \<inter> bytes_at a (padded (osize (sh_mem h0) a)) = {})
      \<and> (\<forall>e' \<in> set (semi_roots em). e \<noteq> e' \<longrightarrow> bytes_at e 8 \<inter> bytes_at e' 8 = {})"
    using R by (elim conjE) assumption
  show "spaces_ready h0" "distinct (semi_roots em)" using R by blast+
  show "a \<in> semi_live em offs h0 \<Longrightarrow> valid (sh_mem h0) a"
    "a \<in> semi_live em offs h0 \<Longrightarrow> object_placed h0 a (padded (osize (sh_mem h0) a))"
    "a \<in> semi_live em offs h0 \<Longrightarrow> b \<in> semi_live em offs h0 \<Longrightarrow> a \<noteq> b \<Longrightarrow>
      bytes_at a (padded (osize (sh_mem h0) a)) \<inter> bytes_at b (padded (osize (sh_mem h0) b)) = {}"
    using R by blast+
  assume e: "e \<in> set (semi_roots em)"
  note E = bspec[OF roots e]
  show "unat e + 8 < 2 ^ 63 \<and> bytes_at e 8 \<inter> (from_bytes h0 \<union> to_bytes h0) = {}" using E by (elim conjE) (rule conjI)
  show "a \<in> semi_live em offs h0 \<Longrightarrow> bytes_at e 8 \<inter> bytes_at a (padded (osize (sh_mem h0) a)) = {}"
    by (rule bspec[OF E[THEN conjunct2, THEN conjunct2, THEN conjunct1]])
  show "e' \<in> set (semi_roots em) \<Longrightarrow> e \<noteq> e' \<Longrightarrow> bytes_at e 8 \<inter> bytes_at e' 8 = {}"
    by (rule mp[OF bspec[OF E[THEN conjunct2, THEN conjunct2, THEN conjunct2]]])
qed

lemma spaces_readyD:
  assumes "spaces_ready h0"
  shows "region_fits (ss_from_space (sh_semi h0))" "region_fits (ss_to_space (sh_semi h0))"
    "from_bytes h0 \<inter> to_bytes h0 = {}" "ss_hp (sh_semi h0) = to_base h0"
    "unat (rg_active_size (ss_from_space (sh_semi h0))) \<le> unat (rg_active_size (ss_to_space (sh_semi h0)))"
    "\<not> sh_check_pending_ephemerons h0" "los_wf (sh_large h0)" "los_marked_nodes (sh_large h0) = {}"
  using assms unfolding spaces_ready_def by blast+

lemma semi_invD:
  assumes "semi_inv em valid osize offs h0 h C M S"
  shows "sh_semi h = (sh_semi h0)\<lparr>ss_hp := ss_hp (sh_semi h)\<rparr>" "\<not> sh_check_pending_ephemerons h"
    "los_wf (sh_large h)" "los_objects (sh_large h) = los_objects (sh_large h0)"
    "(\<lambda>n. obj_addr (los_key (sh_large h) n)) ` los_marked_nodes (sh_large h) = M"
    "distinct (map fst C)" "fst ` set C \<subseteq> semi_live em offs h0 \<inter> from_bytes h0"
    "M \<subseteq> semi_live em offs h0 - from_bytes h0"
    "tiles (osize (sh_mem h0)) (unat (to_base h0)) C (unat (ss_hp (sh_semi h)))"
    "(a, n) \<in> set C \<Longrightarrow> forwarded_to em valid osize (sh_mem h0) (sh_mem h) a n"
    "a \<in> semi_live em offs h0 - fst ` set C - M \<Longrightarrow> k < osize (sh_mem h0) a \<Longrightarrow>
      sh_mem h (a + of_nat k) = sh_mem h0 (a + of_nat k)"
    "i \<in> items em osize offs (sh_mem h0) C M \<Longrightarrow> item_ok em (sh_mem h0) (sh_mem h) C M S i"
    "S \<subseteq> (\<Union>i \<in> items em osize offs (sh_mem h0) C M. item_edges i)"
  using assms unfolding semi_inv_def by blast+

context gc_embedder
begin

abbreviation live where "live \<equiv> semi_live em offs"
abbreviation its where "its h0 \<equiv> items em osize offs (sh_mem h0)"
abbreviation sz where "sz h0 \<equiv> osize (sh_mem h0)"
abbreviation ready where "ready \<equiv> semi_ready em valid osize offs"
abbreviation inv where "inv \<equiv> semi_inv em valid osize offs"

lemma live_facts:
  assumes "ready h0" "a \<in> live h0"
  shows "valid (sh_mem h0) a" "unat a mod 8 = 0" "unat a + padded (sz h0 a) < 2 ^ 63" "8 \<le> sz h0 a"
    "a \<in> from_bytes h0 \<Longrightarrow> bytes_at a (padded (sz h0 a)) \<subseteq> from_bytes h0"
    "a \<notin> from_bytes h0 \<Longrightarrow> a \<in> semi_large h0 \<and> bytes_at a (padded (sz h0 a)) \<inter> (from_bytes h0 \<union> to_bytes h0) = {}"
    "a \<in> bytes_at a (padded (sz h0 a))" "unat a + sz h0 a < 2 ^ 63"
proof -
  show v: "valid (sh_mem h0) a" by (rule semi_readyD(3)[OF assms])
  have p: "object_placed h0 a (padded (sz h0 a))" by (rule semi_readyD(4)[OF assms])
  show "unat a mod 8 = 0" "unat a + padded (sz h0 a) < 2 ^ 63"
    "a \<in> from_bytes h0 \<Longrightarrow> bytes_at a (padded (sz h0 a)) \<subseteq> from_bytes h0"
    "a \<notin> from_bytes h0 \<Longrightarrow> a \<in> semi_large h0 \<and> bytes_at a (padded (sz h0 a)) \<inter> (from_bytes h0 \<union> to_bytes h0) = {}"
    using p unfolding object_placed_def by (auto split: if_splits)
  show s: "8 \<le> sz h0 a" using size_law[OF v] by simp
  show "a \<in> bytes_at a (padded (sz h0 a))" using s padded_bounds(1)[of "sz h0 a"] by (simp add: bytes_at_def)
  show "unat a + sz h0 a < 2 ^ 63" using \<open>unat a + padded (sz h0 a) < 2 ^ 63\<close> padded_bounds(1)[of "sz h0 a"] by linarith
qed

lemma live_bytes_apart:
  assumes "ready h0" "a \<in> live h0" "b \<in> live h0" "a \<noteq> b"
  shows "bytes_at a (sz h0 a) \<inter> bytes_at b (sz h0 b) = {}"
  using semi_readyD(5)[OF assms] bytes_at_mono[OF padded_bounds(1)] by blast

lemma items_cases:
  assumes "i \<in> its h0 C M"
  obtains e where "e \<in> set (semi_roots em)" "i = \<lparr> it_at = e, it_orig = e, it_size = 8, it_offs = [0] \<rparr>"
  | a n where "(a, n) \<in> set C" "i = \<lparr> it_at = n, it_orig = a, it_size = sz h0 a, it_offs = offs (sh_mem h0) a \<rparr>"
  | l where "l \<in> M" "i = \<lparr> it_at = l, it_orig = l, it_size = sz h0 l, it_offs = offs (sh_mem h0) l \<rparr>"
  using assms unfolding items_def by auto

lemma copies_at:
  assumes "ready h0" "inv h0 h C M S" "(a, n) \<in> set C"
  shows "a \<in> live h0" "a \<in> from_bytes h0" "unat (to_base h0) \<le> unat n" "unat n + padded (sz h0 a) \<le> unat (ss_hp (sh_semi h))"
    "unat n mod 8 = 0" "n \<noteq> 0"
proof -
  have "a \<in> fst ` set C" using assms(3) by (rule image_eqI[rotated]) simp
  then show "a \<in> live h0" "a \<in> from_bytes h0" using semi_invD(7)[OF assms(2)] by blast+
  show lo: "unat (to_base h0) \<le> unat n" and "unat n + padded (sz h0 a) \<le> unat (ss_hp (sh_semi h))"
    using tiles_mem[OF semi_invD(9)[OF assms(2)] assms(3)] by simp_all
  have f: "region_fits (ss_to_space (sh_semi h0))" by (rule spaces_readyD(2)[OF semi_readyD(1)[OF assms(1)]])
  then have "unat (to_base h0) mod 8 = 0" unfolding region_fits_def by blast
  from bspec[OF conjunct2[OF tiles_mod[OF semi_invD(9)[OF assms(2)] this]] assms(3)]
  show "unat n mod 8 = 0" by (simp only: prod.case)
  have "to_base h0 \<noteq> 0" using f unfolding region_fits_def by blast
  then have "0 < unat (to_base h0)" by (simp add: unat_gt_0)
  then show "n \<noteq> 0" using lo by auto
qed

text \<open>There is room in to-space for what is still to be copied.\<close>

lemma room:
  assumes "ready h0" "inv h0 h C M S" "A \<subseteq> live h0 \<inter> from_bytes h0 - fst ` set C"
  shows "unat (ss_hp (sh_semi h)) + (\<Sum>a \<in> A. padded (sz h0 a))
    \<le> unat (to_base h0) + unat (rg_active_size (ss_to_space (sh_semi h0)))"
proof -
  let ?B = "fst ` set C \<union> A"
  have sub: "?B \<subseteq> live h0 \<inter> from_bytes h0" using semi_invD(7)[OF assms(2)] assms(3) by blast
  have "(\<Sum>a \<in> ?B. padded (sz h0 a)) = (\<Sum>a \<in> ?B. card (bytes_at a (padded (sz h0 a))))"
  proof (rule sum.cong[OF refl])
    fix a assume "a \<in> ?B"
    then have "unat a + padded (sz h0 a) < 2 ^ 63" using live_facts(3)[OF assms(1)] sub by blast
    then show "padded (sz h0 a) = card (bytes_at a (padded (sz h0 a)))" by (intro card_bytes_at[symmetric]) simp
  qed
  also have "\<dots> = card (\<Union>a \<in> ?B. bytes_at a (padded (sz h0 a)))"
  proof (rule card_UN_disjoint[symmetric])
    show "\<forall>a \<in> ?B. \<forall>b \<in> ?B. a \<noteq> b \<longrightarrow> bytes_at a (padded (sz h0 a)) \<inter> bytes_at b (padded (sz h0 b)) = {}"
    proof (intro ballI impI)
      fix a b assume "a \<in> ?B" "b \<in> ?B" "a \<noteq> b"
      then show "bytes_at a (padded (sz h0 a)) \<inter> bytes_at b (padded (sz h0 b)) = {}"
        using semi_readyD(5)[OF assms(1), of a b] sub by blast
    qed
  qed simp_all
  also have "\<dots> \<le> card (from_bytes h0)"
  proof (rule card_mono, simp, rule UN_least)
    fix a assume "a \<in> ?B"
    then have "a \<in> live h0" "a \<in> from_bytes h0" using sub by blast+
    then show "bytes_at a (padded (sz h0 a)) \<subseteq> from_bytes h0" by (rule live_facts(5)[OF assms(1)])
  qed
  also have "card (from_bytes h0) = unat (rg_active_size (ss_from_space (sh_semi h0)))"
    unfolding region_bytes_def using spaces_readyD(1)[OF semi_readyD(1)[OF assms(1)]]
    by (intro card_bytes_at) (simp add: region_fits_def)
  also have "\<dots> \<le> unat (rg_active_size (ss_to_space (sh_semi h0)))"
    by (rule spaces_readyD(5)[OF semi_readyD(1)[OF assms(1)]])
  finally have le: "(\<Sum>a \<in> ?B. padded (sz h0 a)) \<le> unat (rg_active_size (ss_to_space (sh_semi h0)))" .
  have "(\<Sum>a \<in> ?B. padded (sz h0 a)) = (\<Sum>a \<in> fst ` set C. padded (sz h0 a)) + (\<Sum>a \<in> A. padded (sz h0 a))"
    by (rule sum.union_disjoint) (use assms(3) in auto)
  also have "(\<Sum>a \<in> fst ` set C. padded (sz h0 a)) = (\<Sum>a \<leftarrow> map fst C. padded (sz h0 a))"
    using sum.distinct_set_conv_list[OF semi_invD(6)[OF assms(2)], of "\<lambda>a. padded (sz h0 a)"] by simp
  finally show ?thesis using le tiles_sum[OF semi_invD(9)[OF assms(2)]] by linarith
qed

lemma hp_bounds:
  assumes "ready h0" "inv h0 h C M S"
  shows "unat (ss_hp (sh_semi h)) \<le> unat (to_base h0) + unat (rg_active_size (ss_to_space (sh_semi h0)))"
    "unat (ss_hp (sh_semi h)) < 2 ^ 63" "unat (ss_hp (sh_semi h)) mod 8 = 0" "ss_hp (sh_semi h) \<noteq> 0"
    "unat (to_base h0) \<le> unat (ss_hp (sh_semi h))"
proof -
  note f = spaces_readyD(2)[OF semi_readyD(1)[OF assms(1)]]
  show le: "unat (ss_hp (sh_semi h)) \<le> unat (to_base h0) + unat (rg_active_size (ss_to_space (sh_semi h0)))"
    using room[OF assms, of "{}"] by simp
  then show "unat (ss_hp (sh_semi h)) < 2 ^ 63" using f unfolding region_fits_def by linarith
  show lo: "unat (to_base h0) \<le> unat (ss_hp (sh_semi h))" by (rule tiles_le[OF semi_invD(9)[OF assms(2)]])
  show "unat (ss_hp (sh_semi h)) mod 8 = 0"
    using tiles_mod[OF semi_invD(9)[OF assms(2)]] f by (simp add: region_fits_def)
  have "0 < unat (to_base h0)" using f by (simp add: region_fits_def unat_gt_0)
  then show "ss_hp (sh_semi h) \<noteq> 0" using lo by auto
qed

lemma item_shape:
  assumes "ready h0" "inv h0 h C M S" "i \<in> its h0 C M"
  shows "distinct (it_offs i)" "\<forall>k \<in> set (it_offs i). 8 dvd k \<and> k + 8 \<le> it_size i" "unat (it_at i) + it_size i < 2 ^ 63"
proof -
  have O: "distinct (offs (sh_mem h0) a) \<and> (\<forall>k \<in> set (offs (sh_mem h0) a). 8 dvd k \<and> k + 8 \<le> sz h0 a)" if "a \<in> live h0" for a
    using edges_law[OF live_facts(1)[OF assms(1) that]] by simp
  have "distinct (it_offs i) \<and> (\<forall>k \<in> set (it_offs i). 8 dvd k \<and> k + 8 \<le> it_size i) \<and> unat (it_at i) + it_size i < 2 ^ 63"
    using assms(3)
  proof (cases rule: items_cases)
    case (1 e)
    then show ?thesis using semi_readyD(6)[OF assms(1)] by simp
  next
    case (2 a n)
    note c = copies_at[OF assms(1,2) 2(1)]
    have "unat n + sz h0 a < 2 ^ 63" using c(4) hp_bounds(2)[OF assms(1,2)] padded_bounds(1)[of "sz h0 a"] by linarith
    then show ?thesis using 2 O[OF c(1)] by simp
  next
    case (3 l)
    then have "l \<in> live h0" using semi_invD(8)[OF assms(2)] by blast
    then show ?thesis using 3 O live_facts(8)[OF assms(1)] by simp
  qed
  then show "distinct (it_offs i)" "\<forall>k \<in> set (it_offs i). 8 dvd k \<and> k + 8 \<le> it_size i" "unat (it_at i) + it_size i < 2 ^ 63"
    by blast+
qed

text \<open>An item is below the allocation pointer of to-space, or outside both halves.\<close>

lemma item_zone:
  assumes "ready h0" "inv h0 h C M S" "i \<in> its h0 C M"
  shows "item_bytes i \<inter> from_bytes h0 = {}"
    "\<forall>x \<in> item_bytes i. x \<in> to_bytes h0 \<longrightarrow> unat x < unat (ss_hp (sh_semi h))"
proof -
  have "item_bytes i \<inter> from_bytes h0 = {} \<and> (\<forall>x \<in> item_bytes i. x \<in> to_bytes h0 \<longrightarrow> unat x < unat (ss_hp (sh_semi h)))"
    using assms(3)
  proof (cases rule: items_cases)
    case (1 e)
    then show ?thesis using semi_readyD(6)[OF assms(1)] by (auto simp: item_bytes_def)
  next
    case (2 a n)
    note c = copies_at[OF assms(1,2) 2(1)]
    have "x \<in> to_bytes h0 \<and> unat x < unat (ss_hp (sh_semi h))" if "x \<in> item_bytes i" for x
      using that 2(2) c(3,4) padded_bounds(1)[of "sz h0 a"] hp_bounds(1)[OF assms(1,2)]
      by (simp add: item_bytes_def bytes_at_def region_bytes_def)
    then show ?thesis using spaces_readyD(3)[OF semi_readyD(1)[OF assms(1)]] by blast
  next
    case (3 l)
    then have "l \<in> live h0" "l \<notin> from_bytes h0" using semi_invD(8)[OF assms(2)] by auto
    then have "bytes_at l (sz h0 l) \<inter> (from_bytes h0 \<union> to_bytes h0) = {}"
      using live_facts(6)[OF assms(1)] bytes_at_mono[OF padded_bounds(1)] by blast
    then show ?thesis using 3(2) by (auto simp: item_bytes_def)
  qed
  then show "item_bytes i \<inter> from_bytes h0 = {}"
    "\<forall>x \<in> item_bytes i. x \<in> to_bytes h0 \<longrightarrow> unat x < unat (ss_hp (sh_semi h))" by blast+
qed

lemma item_object_apart:
  assumes "ready h0" "inv h0 h C M S" "i \<in> its h0 C M" "a \<in> live h0 - M"
  shows "item_bytes i \<inter> bytes_at a (sz h0 a) = {}"
proof (cases "a \<in> from_bytes h0")
  case True
  then have "bytes_at a (sz h0 a) \<subseteq> from_bytes h0"
    using live_facts(5)[OF assms(1)] assms(4) bytes_at_mono[OF padded_bounds(1)] by blast
  then show ?thesis using item_zone(1)[OF assms(1-3)] by blast
next
  case False
  then have o: "bytes_at a (sz h0 a) \<inter> to_bytes h0 = {}"
    using live_facts(6)[OF assms(1)] assms(4) bytes_at_mono[OF padded_bounds(1)] by blast
  show ?thesis using assms(3)
  proof (cases rule: items_cases)
    case (1 e)
    then show ?thesis using semi_readyD(7)[OF assms(1)] assms(4) bytes_at_mono[OF padded_bounds(1)[of "sz h0 a"]]
      by (fastforce simp: item_bytes_def)
  next
    case (2 b n)
    note c = copies_at[OF assms(1,2) 2(1)]
    have "item_bytes i \<subseteq> to_bytes h0"
      using 2(2) c(3,4) padded_bounds(1)[of "sz h0 b"] hp_bounds(1)[OF assms(1,2)]
      by (auto simp: item_bytes_def bytes_at_def region_bytes_def)
    then show ?thesis using o by blast
  next
    case (3 l)
    then have "l \<in> live h0" "l \<noteq> a" using semi_invD(8)[OF assms(2)] assms(4) by auto
    then show ?thesis using live_bytes_apart[OF assms(1)] assms(4) 3(2) by (simp add: item_bytes_def)
  qed
qed

end

section \<open>What a step leaves alone\<close>

lemma item_edge_bytes:
  assumes "\<forall>k \<in> set (it_offs j). 8 dvd k \<and> k + 8 \<le> it_size j" "unat (it_at j) + it_size j < 2 ^ 63" "k \<in> set (it_offs j)"
  shows "unat (it_at j + of_nat k) = unat (it_at j) + k" "bytes_at (it_at j + of_nat k) 8 \<subseteq> item_bytes j"
    "it_at j + of_nat k \<in> item_bytes j"
proof -
  have k: "k + 8 \<le> it_size j" using assms(1,3) by blast
  show u: "unat (it_at j + of_nat k) = unat (it_at j) + k" using k assms(2) by (intro unat_offset[of _ "it_size j"]) simp_all
  show "bytes_at (it_at j + of_nat k) 8 \<subseteq> item_bytes j" "it_at j + of_nat k \<in> item_bytes j"
    using k by (auto simp: bytes_at_def item_bytes_def u)
qed

lemma load_word_same:
  assumes "\<forall>x \<in> bytes_at e 8. mem' x = mem x" "unat e + 8 < 2 ^ 64"
  shows "load_word mem' e = load_word mem e"
proof (rule load_word_shift)
  show "mem' (e + of_nat i) = mem (e + of_nat i)" if "i < 8" for i
    using assms in_bytes_at[OF that, of e] by simp
qed

definition keeps_settled ::
    "'x embedder \<Rightarrow> (gc_ref \<times> gc_ref) list \<Rightarrow> gc_ref set \<Rightarrow> (gc_ref \<times> gc_ref) list \<Rightarrow> gc_ref set \<Rightarrow> bool" where
  "keeps_settled em C M C' M' \<longleftrightarrow> (\<forall>w. settled em C M w \<longrightarrow> settled em C' M' w \<and> translate em C' w = translate em C w)"

lemma keeps_settled_refl [simp]: "keeps_settled em C M C M"
  by (simp add: keeps_settled_def)

lemma item_ok_frame:
  assumes ok: "item_ok em m0 mem C M S j"
    and shape: "\<forall>k \<in> set (it_offs j). 8 dvd k \<and> k + 8 \<le> it_size j" "unat (it_at j) + it_size j < 2 ^ 63"
    and mem: "\<forall>x \<in> item_bytes j. mem' x = mem x" and S: "\<forall>e \<in> item_edges j. e \<in> S' \<longleftrightarrow> e \<in> S"
    and keep: "keeps_settled em C M C' M'"
  shows "item_ok em m0 mem' C' M' S' j"
  unfolding item_ok_def Let_def
proof (intro conjI allI ballI impI)
  fix k assume k: "k < it_size j" "\<not> in_edge (it_offs j) k"
  have "it_at j + of_nat k \<in> item_bytes j" unfolding item_bytes_def using k(1) shape(2) by (intro in_bytes_at) simp_all
  then show "mem' (it_at j + of_nat k) = m0 (it_orig j + of_nat k)"
    using mem ok k unfolding item_ok_def by metis
next
  fix k assume k: "k \<in> set (it_offs j)"
  note B = item_edge_bytes[OF shape k]
  let ?e = "it_at j + of_nat k" and ?w = "load_word m0 (it_orig j + of_nat k)"
  have "k + 8 \<le> it_size j" using shape(1) k by blast
  then have l: "load_word mem' ?e = load_word mem ?e"
    using mem B(1,2) shape(2) by (intro load_word_same) auto
  have "?e \<in> S' \<longleftrightarrow> ?e \<in> S" using S k by (auto simp: item_edges_def)
  then show "if ?e \<in> S' then load_word mem' ?e = ?w else load_word mem' ?e = translate em C' ?w \<and> settled em C' M' ?w"
    using bspec[OF ok[unfolded item_ok_def Let_def, THEN conjunct2] k] l keep by (auto simp: keeps_settled_def split: if_splits)
qed

lemma forwarded_to_frame:
  assumes "forwarded_to em valid osize m0 mem a n" "\<forall>k < osize m0 a. mem' (a + of_nat k) = mem (a + of_nat k)"
  shows "forwarded_to em valid osize m0 mem' a n"
  using assms unfolding forwarded_to_def by metis

context gc_embedder
begin

lemma copy_in_to:
  assumes "ready h0" "inv h0 h C M S" "(a, n) \<in> set C"
  shows "bytes_at n (sz h0 a) \<subseteq> to_bytes h0"
  using copies_at(3,4)[OF assms] padded_bounds(1)[of "sz h0 a"] hp_bounds(1)[OF assms(1,2)]
  by (auto simp: bytes_at_def region_bytes_def)

lemma root_apart:
  assumes "ready h0" "e \<in> set (semi_roots em)"
  shows "bytes_at e 8 \<inter> to_bytes h0 = {}" "a \<in> live h0 \<Longrightarrow> bytes_at e 8 \<inter> bytes_at a (sz h0 a) = {}"
  using semi_readyD(6,7)[OF assms] bytes_at_mono[OF padded_bounds(1)[of "sz h0 a"], of a] by blast+

lemma large_apart:
  assumes "ready h0" "inv h0 h C M S" "l \<in> M"
  shows "bytes_at l (sz h0 l) \<inter> to_bytes h0 = {}" "l \<in> live h0" "l \<notin> from_bytes h0"
proof -
  show l: "l \<in> live h0" "l \<notin> from_bytes h0" using semi_invD(8)[OF assms(2)] assms(3) by blast+
  show "bytes_at l (sz h0 l) \<inter> to_bytes h0 = {}"
    using live_facts(6)[OF assms(1) l] bytes_at_mono[OF padded_bounds(1)[of "sz h0 l"], of l] by blast
qed

lemma items_apart:
  assumes "ready h0" "inv h0 h C M S" "i \<in> its h0 C M" "j \<in> its h0 C M" "i \<noteq> j"
  shows "item_bytes i \<inter> item_bytes j = {}"
  using assms(3)
proof (cases rule: items_cases)
  case i: (1 e)
  show ?thesis using assms(4)
  proof (cases rule: items_cases)
    case (1 e')
    then show ?thesis using i semi_readyD(8)[OF assms(1) i(1), of e'] assms(5) by (auto simp: item_bytes_def)
  next
    case (2 a n)
    then show ?thesis using i root_apart(1)[OF assms(1) i(1)] copy_in_to[OF assms(1,2) 2(1)] by (auto simp: item_bytes_def)
  next
    case (3 l)
    then show ?thesis using i root_apart(2)[OF assms(1) i(1) large_apart(2)[OF assms(1,2) 3(1)]] by (simp add: item_bytes_def)
  qed
next
  case i: (2 a n)
  show ?thesis using assms(4)
  proof (cases rule: items_cases)
    case (1 e)
    then show ?thesis using i root_apart(1)[OF assms(1) 1(1)] copy_in_to[OF assms(1,2) i(1)] by (auto simp: item_bytes_def)
  next
    case (2 b m)
    have "a \<noteq> b"
    proof
      assume "a = b"
      then have "n = m" using i(1) 2(1) semi_invD(6)[OF assms(2)] eq_key_imp_eq_value by metis
      then show False using assms(5) i(2) 2(2) \<open>a = b\<close> by simp
    qed
    then show ?thesis using tiles_apart[OF semi_invD(9)[OF assms(2)] i(1) 2(1)] i(2) 2(2) by (simp add: item_bytes_def)
  next
    case (3 l)
    then show ?thesis using i large_apart(1)[OF assms(1,2) 3(1)] copy_in_to[OF assms(1,2) i(1)] by (auto simp: item_bytes_def)
  qed
next
  case i: (3 l)
  show ?thesis using assms(4)
  proof (cases rule: items_cases)
    case (1 e)
    then show ?thesis using i root_apart(2)[OF assms(1) 1(1) large_apart(2)[OF assms(1,2) i(1)]] by (auto simp: item_bytes_def)
  next
    case (2 a n)
    then show ?thesis using i large_apart(1)[OF assms(1,2) i(1)] copy_in_to[OF assms(1,2) 2(1)] by (auto simp: item_bytes_def)
  next
    case (3 l')
    then show ?thesis
      using i large_apart(2)[OF assms(1,2)] live_bytes_apart[OF assms(1), of l l'] assms(5) by (auto simp: item_bytes_def)
  qed
qed

lemma object_byte:
  assumes "ready h0" "a \<in> live h0" "k < sz h0 a"
  shows "a + of_nat k \<in> bytes_at a (sz h0 a)"
  using live_facts(8)[OF assms(1,2)] assms(3) by (intro in_bytes_at) simp_all

text \<open>One edge of an item gets its new value.\<close>

lemma inv_update:
  assumes rd: "ready h0" and iv: "inv h0 h C M S" and i: "i \<in> its h0 C M" "k \<in> set (it_offs i)"
    and w: "settled em C M (load_word (sh_mem h0) (it_orig i + of_nat k))"
    and mem: "load_word mem' (it_at i + of_nat k) = translate em C (load_word (sh_mem h0) (it_orig i + of_nat k))"
      "\<forall>x. x \<notin> bytes_at (it_at i + of_nat k) 8 \<longrightarrow> mem' x = sh_mem h x"
  shows "inv h0 (h\<lparr>sh_mem := mem'\<rparr>) C M (S - {it_at i + of_nat k})"
proof -
  define e where "e = it_at i + of_nat k"
  note sh = item_shape[OF rd iv]
  note B = item_edge_bytes[OF sh(2,3)[OF i(1)] i(2), folded e_def]
  have obj: "\<forall>k < sz h0 a. mem' (a + of_nat k) = sh_mem h (a + of_nat k)" if "a \<in> live h0 - M" for a
    using item_object_apart[OF rd iv i(1) that] object_byte[OF rd, of a] that B(2) mem(2)[folded e_def] by blast
  have fw: "\<forall>(a, n) \<in> set C. forwarded_to em valid osize (sh_mem h0) mem' a n"
  proof (intro ballI, clarify)
    fix a n assume c: "(a, n) \<in> set C"
    have "a \<in> live h0 - M" using copies_at(1,2)[OF rd iv c] large_apart(3)[OF rd iv] by blast
    from forwarded_to_frame[OF semi_invD(10)[OF iv c] obj[OF this]]
    show "forwarded_to em valid osize (sh_mem h0) mem' a n" .
  qed
  have un: "\<forall>a \<in> live h0 - fst ` set C - M. \<forall>k < sz h0 a. mem' (a + of_nat k) = sh_mem h0 (a + of_nat k)"
    using obj semi_invD(11)[OF iv] by auto
  have "item_ok em (sh_mem h0) mem' C M (S - {e}) j" if j: "j \<in> its h0 C M" for j
  proof (cases "j = i")
    case False
    then have d: "item_bytes i \<inter> item_bytes j = {}" using items_apart[OF rd iv i(1) j] by simp
    show ?thesis
    proof (rule item_ok_frame[OF semi_invD(12)[OF iv j] sh(2,3)[OF j]])
      show "\<forall>x \<in> item_bytes j. mem' x = sh_mem h x" using mem(2)[folded e_def] B(2) d by blast
      have "item_edges j \<subseteq> item_bytes j" using item_edge_bytes(3)[OF sh(2,3)[OF j]] by (auto simp: item_edges_def)
      then show "\<forall>e' \<in> item_edges j. e' \<in> S - {e} \<longleftrightarrow> e' \<in> S" using B(3) d by blast
    qed simp
  next
    case True
    note ok = semi_invD(12)[OF iv i(1), unfolded item_ok_def Let_def]
    have k8: "k + 8 \<le> it_size i" "8 dvd k" using sh(2)[OF i(1)] i(2) by blast+
    show ?thesis
      unfolding True item_ok_def Let_def
    proof (intro conjI allI ballI impI)
      fix k' assume k': "k' < it_size i" "\<not> in_edge (it_offs i) k'"
      have "unat (it_at i + of_nat k') = unat (it_at i) + k'" using sh(3)[OF i(1)] k'(1) by (intro unat_offset[of _ "it_size i"]) simp_all
      moreover have "\<not> (k \<le> k' \<and> k' < k + 8)" using k'(2) i(2) by (auto simp: in_edge_def)
      ultimately have "it_at i + of_nat k' \<notin> bytes_at e 8" using B(1) by (auto simp: bytes_at_def)
      then have "mem' (it_at i + of_nat k') = sh_mem h (it_at i + of_nat k')" using mem(2)[folded e_def] by blast
      then show "mem' (it_at i + of_nat k') = sh_mem h0 (it_orig i + of_nat k')" using ok k' by simp
    next
      fix k' assume k': "k' \<in> set (it_offs i)"
      let ?e = "it_at i + of_nat k'" and ?w = "load_word (sh_mem h0) (it_orig i + of_nat k')"
      note B' = item_edge_bytes[OF sh(2,3)[OF i(1)] k']
      show "if ?e \<in> S - {e} then load_word mem' ?e = ?w else load_word mem' ?e = translate em C ?w \<and> settled em C M ?w"
      proof (cases "k' = k")
        case True
        then show ?thesis using w mem(1) by (simp add: e_def)
      next
        case ne: False
        have k8': "k' + 8 \<le> it_size i" "8 dvd k'" using sh(2)[OF i(1)] k' by blast+
        then have "k + 8 \<le> k' \<or> k' + 8 \<le> k" using ne k8(2) by presburger
        then have "?e \<noteq> e" "bytes_at ?e 8 \<inter> bytes_at e 8 = {}" using B(1) B'(1) by (auto simp: bytes_at_def)
        moreover from this(2) have "load_word mem' ?e = load_word (sh_mem h) ?e"
          using mem(2)[folded e_def] B'(1) k8'(1) sh(3)[OF i(1)] by (intro load_word_same) auto
        ultimately show ?thesis using bspec[OF ok[THEN conjunct2] k'] by simp
      qed
    qed
  qed
  moreover have "S - {e} \<subseteq> (\<Union>i \<in> its h0 C M. item_edges i)" using semi_invD(13)[OF iv] by blast
  ultimately show ?thesis using iv fw un unfolding semi_inv_def e_def[symmetric] by simp
qed

end

section \<open>Copying and marking\<close>

lemma mem_copy_at:
  assumes "k < n" "n < 2 ^ 63" "unat d + n < 2 ^ 63"
  shows "mem_copy m d a (of_nat n) (d + of_nat k) = m (a + of_nat k)"
  using assms unat_of_nat_u64[of k] unat_of_nat_u64[of n] by (simp add: mem_copy_def word_less_nat_alt)

lemma mem_copy_other:
  assumes "n < 2 ^ 63" "unat d + n < 2 ^ 63" "x \<notin> bytes_at d n"
  shows "mem_copy m d a (of_nat n) x = m x"
proof -
  have "\<not> x - d < of_nat n"
  proof
    assume "x - d < of_nat n"
    then have "unat (x - d) < n" using assms(1) unat_of_nat_u64[of n] by (simp add: word_less_nat_alt)
    then have "x \<in> bytes_at d n" using in_bytes_at[of "unat (x - d)" n d] assms(2) by simp
    then show False using assms(3) by blast
  qed
  then show ?thesis by (simp add: mem_copy_def)
qed

definition copy_edges :: "(byte_mem \<Rightarrow> gc_ref \<Rightarrow> nat list) \<Rightarrow> byte_mem \<Rightarrow> (gc_ref \<times> gc_ref) list \<Rightarrow> u64 set" where
  "copy_edges offs m0 D = (\<Union>(a, n) \<in> set D. (\<lambda>k. n + of_nat k) ` set (offs m0 a))"

lemma copy_edges_simps [simp]:
  "copy_edges offs m0 [] = {}" "copy_edges offs m0 (D @ D') = copy_edges offs m0 D \<union> copy_edges offs m0 D'"
  "copy_edges offs m0 ((a, n) # D) = (\<lambda>k. n + of_nat k) ` set (offs m0 a) \<union> copy_edges offs m0 D"
  by (auto simp: copy_edges_def)

context gc_embedder
begin

lemma unreached_object:
  assumes "ready h0" "inv h0 h C M S" "a \<in> live h0 - fst ` set C - M"
  shows "valid (sh_mem h) a" "osize (sh_mem h) a = sz h0 a" "offs (sh_mem h) a = offs (sh_mem h0) a"
  using local_law[OF live_facts(1)[OF assms(1)], of a "sh_mem h" a] semi_invD(11)[OF assms(2,3)] assms(3) by auto

lemma inv_copy:
  assumes rd: "ready h0" and iv: "inv h0 h C M S" and a: "a \<in> live h0" "a \<in> from_bytes h0" "a \<notin> fst ` set C"
  defines "hp \<equiv> ss_hp (sh_semi h)"
  defines "mem1 \<equiv> mem_copy (sh_mem h) hp a (of_nat (sz h0 a))"
  shows "inv h0 (h\<lparr>sh_mem := em_forward em a hp mem1, sh_semi := (sh_semi h)\<lparr>ss_hp := hp + align_up (of_nat (sz h0 a)) 8\<rparr>\<rparr>)
    (C @ [(a, hp)]) M (S \<union> copy_edges offs (sh_mem h0) [(a, hp)])"
proof -
  let ?n = "sz h0 a" and ?m0 = "sh_mem h0"
  define mem' where "mem' = em_forward em a hp mem1"
  define i where "i = \<lparr> it_at = hp, it_orig = a, it_size = ?n, it_offs = offs ?m0 a \<rparr>"
  have aM: "a \<notin> M" using semi_invD(8)[OF iv] a(2) by blast
  have un: "a \<in> live h0 - fst ` set C - M" using a aM by blast
  have rm: "unat hp + padded ?n \<le> unat (to_base h0) + unat (rg_active_size (ss_to_space (sh_semi h0)))"
    using room[OF rd iv, of "{a}"] a by (simp add: hp_def)
  have to: "unat (to_base h0) + unat (rg_active_size (ss_to_space (sh_semi h0))) < 2 ^ 63"
    using spaces_readyD(2)[OF semi_readyD(1)[OF rd]] by (simp add: region_fits_def)
  have n: "?n < 2 ^ 63" "unat hp + ?n < 2 ^ 63" "unat hp + padded ?n < 2 ^ 63" using rm to padded_bounds(1)[of ?n] by linarith+
  have hp': "unat (hp + align_up (of_nat ?n) 8) = unat hp + padded ?n"
    using n unat_align_8[OF n(1)] by (simp add: unat_word_ariths)
  note hp = hp_bounds(3-5)[OF rd iv, folded hp_def]
  have inT: "bytes_at hp ?n \<subseteq> to_bytes h0" using rm hp(3) padded_bounds(1)[of ?n] by (auto simp: bytes_at_def region_bytes_def)
  have bF: "bytes_at a ?n \<subseteq> from_bytes h0"
    using live_facts(5)[OF rd a(1,2)] bytes_at_mono[OF padded_bounds(1)[of ?n], of a] by blast
  have disjFT: "from_bytes h0 \<inter> to_bytes h0 = {}" by (rule spaces_readyD(3)[OF semi_readyD(1)[OF rd]])
  have mem1: "mem1 x = sh_mem h x" if "x \<notin> bytes_at hp ?n" for x
    unfolding mem1_def by (rule mem_copy_other[OF n(1,2) that])
  have src: "sh_mem h (a + of_nat k) = ?m0 (a + of_nat k)" if "k < ?n" for k using semi_invD(11)[OF iv un that] .
  have own: "mem1 (a + of_nat k) = ?m0 (a + of_nat k)" if "k < ?n" for k
  proof -
    have "a + of_nat k \<notin> bytes_at hp ?n" using object_byte[OF rd a(1) that] bF inT disjFT by blast
    then show ?thesis using mem1 src[OF that] by simp
  qed
  have v1: "valid mem1 a \<and> osize mem1 a = ?n \<and> offs mem1 a = offs ?m0 a"
    using local_law[OF live_facts(1)[OF rd a(1)], of mem1 a] own by simp
  have fr: "mem' x = mem1 x" if "x \<notin> bytes_at a ?n" for x
  proof -
    have "\<forall>k < osize mem1 a. x \<noteq> a + of_nat k" using that object_byte[OF rd a(1)] v1 by auto
    then show ?thesis unfolding mem'_def by (rule forward_frame[OF conjunct1[OF v1]])
  qed
  have same: "mem' x = sh_mem h x" if "x \<notin> bytes_at hp ?n" "x \<notin> bytes_at a ?n" for x using fr mem1 that by simp
  have copied: "mem' (hp + of_nat k) = ?m0 (a + of_nat k)" if "k < ?n" for k
  proof -
    have "hp + of_nat k \<in> bytes_at hp ?n" using that n(2) by (intro in_bytes_at) simp_all
    then have "hp + of_nat k \<notin> bytes_at a ?n" using inT bF disjFT by blast
    then have "mem' (hp + of_nat k) = mem1 (hp + of_nat k)" by (rule fr)
    also have "\<dots> = sh_mem h (a + of_nat k)" unfolding mem1_def by (rule mem_copy_at[OF that n(1,2)])
    finally show ?thesis using src[OF that] by simp
  qed
  have obj: "\<forall>k < sz h0 b. mem' (b + of_nat k) = sh_mem h (b + of_nat k)" if b: "b \<in> live h0" "b \<noteq> a" for b
  proof (intro allI impI)
    fix k assume k: "k < sz h0 b"
    have "bytes_at b (sz h0 b) \<inter> to_bytes h0 = {}"
      using live_facts(5,6)[OF rd b(1)] bytes_at_mono[OF padded_bounds(1)[of "sz h0 b"], of b] disjFT by blast
    then have "b + of_nat k \<notin> bytes_at hp ?n" using object_byte[OF rd b(1) k] inT by blast
    moreover have "b + of_nat k \<notin> bytes_at a ?n" using object_byte[OF rd b(1) k] live_bytes_apart[OF rd b(1) a(1) b(2)] by blast
    ultimately show "mem' (b + of_nat k) = sh_mem h (b + of_nat k)" by (rule same)
  qed
  have keep: "keeps_settled em C M (C @ [(a, hp)]) M"
    unfolding keeps_settled_def
  proof (intro allI impI conjI)
    fix w assume s: "settled em C M w"
    then show "settled em (C @ [(a, hp)]) M w" by (auto simp: settled_def)
    have "map_of (C @ [(a, hp)]) w = map_of C w" if "is_obj_ref em w"
    proof -
      have "w \<noteq> a" using s that a(3) aM by (auto simp: settled_def)
      then show ?thesis by (simp add: map_of_append map_add_def split: option.split)
    qed
    then show "translate em (C @ [(a, hp)]) w = translate em C w" by (simp add: translate_def)
  qed
  have its': "its h0 (C @ [(a, hp)]) M = insert i (its h0 C M)" by (auto simp: items_def i_def)
  have ce: "copy_edges offs ?m0 [(a, hp)] = item_edges i" by (auto simp: item_edges_def i_def)
  have esz: "8 dvd k \<and> k + 8 \<le> ?n" if "k \<in> set (offs ?m0 a)" for k using edges_law[OF live_facts(1)[OF rd a(1)]] that by blast
  have ei: "item_edges i \<subseteq> bytes_at hp ?n"
  proof
    fix e assume "e \<in> item_edges i"
    then obtain k where "k \<in> set (offs ?m0 a)" "e = hp + of_nat k" by (auto simp: item_edges_def i_def)
    then show "e \<in> bytes_at hp ?n" using esz[of k] n(2) in_bytes_at[of k ?n hp] by simp
  qed
  have old: "item_ok em ?m0 mem' (C @ [(a, hp)]) M (S \<union> item_edges i) j" if j: "j \<in> its h0 C M" for j
  proof (rule item_ok_frame[OF semi_invD(12)[OF iv j] item_shape(2,3)[OF rd iv j] _ _ keep])
    have z: "item_bytes j \<inter> bytes_at hp ?n = {}"
      using item_zone(2)[OF rd iv j, folded hp_def] inT by (fastforce simp: bytes_at_def)
    then show "\<forall>x \<in> item_bytes j. mem' x = sh_mem h x"
      using same item_object_apart[OF rd iv j, of a] a(1) aM by blast
    have "item_edges j \<subseteq> item_bytes j" using item_edge_bytes(3)[OF item_shape(2,3)[OF rd iv j]] by (auto simp: item_edges_def)
    then show "\<forall>e \<in> item_edges j. e \<in> S \<union> item_edges i \<longleftrightarrow> e \<in> S" using z ei by blast
  qed
  have new: "item_ok em ?m0 mem' (C @ [(a, hp)]) M (S \<union> item_edges i) i"
    unfolding item_ok_def Let_def
  proof (intro conjI allI ballI impI)
    show "mem' (it_at i + of_nat k) = ?m0 (it_orig i + of_nat k)" if "k < it_size i" for k using copied that by (simp add: i_def)
    fix k assume k: "k \<in> set (it_offs i)"
    have "load_word mem' (hp + of_nat k) = load_word ?m0 (a + of_nat k)"
    proof (rule load_word_shift)
      fix t :: nat assume "t < 8"
      then have "k + t < ?n" using esz[of k] k by (simp add: i_def)
      from copied[OF this] show "mem' (hp + of_nat k + of_nat t) = ?m0 (a + of_nat k + of_nat t)" by (simp add: add.assoc)
    qed
    then show "if it_at i + of_nat k \<in> S \<union> item_edges i then load_word mem' (it_at i + of_nat k) = load_word ?m0 (it_orig i + of_nat k)
      else load_word mem' (it_at i + of_nat k) = translate em (C @ [(a, hp)]) (load_word ?m0 (it_orig i + of_nat k))
        \<and> settled em (C @ [(a, hp)]) M (load_word ?m0 (it_orig i + of_nat k))"
      using k by (auto simp: item_edges_def i_def)
  qed
  have fw: "\<forall>(b, n) \<in> set (C @ [(a, hp)]). forwarded_to em valid osize ?m0 mem' b n"
  proof (intro ballI, clarify)
    fix b n assume c: "(b, n) \<in> set (C @ [(a, hp)])"
    show "forwarded_to em valid osize ?m0 mem' b n"
    proof (cases "b = a")
      case True
      then have "n = hp" using c a(3) by (auto simp: image_iff)
      then show ?thesis using v1 True unfolding forwarded_to_def by (intro exI[of _ mem1]) (simp add: mem'_def)
    next
      case False
      then have c': "(b, n) \<in> set C" using c by auto
      show ?thesis by (rule forwarded_to_frame[OF semi_invD(10)[OF iv c'] obj[OF copies_at(1)[OF rd iv c'] False]])
    qed
  qed
  have unr: "\<forall>b \<in> live h0 - fst ` set (C @ [(a, hp)]) - M. \<forall>k < sz h0 b. mem' (b + of_nat k) = ?m0 (b + of_nat k)"
    using obj semi_invD(11)[OF iv] by auto
  have tl: "tiles (osize ?m0) (unat (to_base h0)) (C @ [(a, hp)]) (unat hp + padded ?n)"
    using semi_invD(9)[OF iv] by (auto simp: tiles_append hp_def)
  have sm: "sh_semi h = (sh_semi h0)\<lparr>ss_hp := hp\<rparr>" using semi_invD(1)[OF iv] by (simp add: hp_def)
  show ?thesis
    unfolding semi_inv_def ce its' mem'_def[symmetric]
    using semi_invD(2-8)[OF iv] semi_invD(13)[OF iv] a tl fw unr old new hp' by (auto simp: sm)
qed

lemma inv_mark:
  assumes rd: "ready h0" and iv: "inv h0 h C M S" and l: "l \<in> live h0" "l \<notin> from_bytes h0" "l \<notin> M"
    and large: "los_wf large" "los_objects large = los_objects (sh_large h)"
      "(\<lambda>n. obj_addr (los_key large n)) ` los_marked_nodes large = insert l M"
  shows "inv h0 (h\<lparr>sh_large := large\<rparr>) C (insert l M) (S \<union> (\<lambda>k. l + of_nat k) ` set (offs (sh_mem h0) l))"
    "S \<inter> (\<lambda>k. l + of_nat k) ` set (offs (sh_mem h0) l) = {}"
proof -
  let ?n = "sz h0 l" and ?m0 = "sh_mem h0"
  define i where "i = \<lparr> it_at = l, it_orig = l, it_size = ?n, it_offs = offs ?m0 l \<rparr>"
  have E: "(\<lambda>k. l + of_nat k) ` set (offs ?m0 l) = item_edges i" by (simp add: item_edges_def i_def)
  have un: "l \<in> live h0 - fst ` set C - M" using l semi_invD(7)[OF iv] by blast
  have its': "its h0 C (insert l M) = insert i (its h0 C M)" by (auto simp: items_def i_def)
  have keep: "keeps_settled em C M C (insert l M)" by (auto simp: keeps_settled_def settled_def)
  have esz: "8 dvd k \<and> k + 8 \<le> ?n" if "k \<in> set (offs ?m0 l)" for k using edges_law[OF live_facts(1)[OF rd l(1)]] that by blast
  have ei: "item_edges i \<subseteq> bytes_at l ?n"
  proof
    fix e assume "e \<in> item_edges i"
    then obtain k where k: "k \<in> set (offs ?m0 l)" "e = l + of_nat k" by (auto simp: item_edges_def i_def)
    show "e \<in> bytes_at l ?n" unfolding k(2) using esz[OF k(1)] by (intro object_byte[OF rd l(1)]) simp
  qed
  have apart: "item_edges j \<inter> item_edges i = {}" if j: "j \<in> its h0 C M" for j
  proof -
    have "item_edges j \<subseteq> item_bytes j" using item_edge_bytes(3)[OF item_shape(2,3)[OF rd iv j]] by (auto simp: item_edges_def)
    then show ?thesis using item_object_apart[OF rd iv j, of l] l ei by blast
  qed
  show "S \<inter> (\<lambda>k. l + of_nat k) ` set (offs ?m0 l) = {}" unfolding E using semi_invD(13)[OF iv] apart by blast
  have old: "item_ok em ?m0 (sh_mem h) C (insert l M) (S \<union> item_edges i) j" if j: "j \<in> its h0 C M" for j
    by (rule item_ok_frame[OF semi_invD(12)[OF iv j] item_shape(2,3)[OF rd iv j] _ _ keep]) (use apart[OF j] in auto)
  have src: "sh_mem h (l + of_nat k) = ?m0 (l + of_nat k)" if "k < ?n" for k using semi_invD(11)[OF iv un that] .
  have new: "item_ok em ?m0 (sh_mem h) C (insert l M) (S \<union> item_edges i) i"
    unfolding item_ok_def Let_def
  proof (intro conjI allI ballI impI)
    show "sh_mem h (it_at i + of_nat k) = ?m0 (it_orig i + of_nat k)" if "k < it_size i" for k using src that by (simp add: i_def)
    fix k assume k: "k \<in> set (it_offs i)"
    have "load_word (sh_mem h) (l + of_nat k) = load_word ?m0 (l + of_nat k)"
    proof (rule load_word_shift)
      fix t :: nat assume "t < 8"
      then have "k + t < ?n" using esz[of k] k by (simp add: i_def)
      from src[OF this] show "sh_mem h (l + of_nat k + of_nat t) = ?m0 (l + of_nat k + of_nat t)" by (simp add: add.assoc)
    qed
    then show "if it_at i + of_nat k \<in> S \<union> item_edges i then load_word (sh_mem h) (it_at i + of_nat k) = load_word ?m0 (it_orig i + of_nat k)
      else load_word (sh_mem h) (it_at i + of_nat k) = translate em C (load_word ?m0 (it_orig i + of_nat k))
        \<and> settled em C (insert l M) (load_word ?m0 (it_orig i + of_nat k))"
      using k by (auto simp: item_edges_def i_def)
  qed
  show "inv h0 (h\<lparr>sh_large := large\<rparr>) C (insert l M) (S \<union> (\<lambda>k. l + of_nat k) ` set (offs ?m0 l))"
    unfolding semi_inv_def E its'
    using semi_invD(1,2,4,6-9)[OF iv] semi_invD(10,11,13)[OF iv] large l old new by auto
qed

end

end
