(* ===== verification/SemiSpaceCorrect.thy ===== *)
theory SemiSpaceCorrect
  imports SemiSpaceInvariant
begin

text \<open>
  Cheney's collection of \<open>semi.c\<close> is correct: from every heap that is ready for it, tracing the roots
  and the closure returns, to-space has room for every copy, and what it leaves is the graph of the
  reachable objects, moved.
\<close>

section \<open>Large objects\<close>

definition marked_addrs :: "large_object_space \<Rightarrow> gc_ref set" where
  "marked_addrs s = (\<lambda>n. obj_addr (los_key s n)) ` los_marked_nodes s"

lemma mark_large:
  assumes wf: "los_wf s" and r: "r \<in> obj_addr ` los_objects s"
  shows "\<exists>t. large_object_space_mark s r = Inr (r \<notin> marked_addrs s, t) \<and> los_wf t \<and> los_objects t = los_objects s
    \<and> marked_addrs t = insert r (marked_addrs s)"
proof -
  obtain n where n: "los_live_node s n" "obj_addr (los_key s n) = r" "large_object_space_lookup s r = Inr n" "n \<noteq> 0"
    by (rule live_node_of[OF wf r])
  obtain b t where t: "large_object_space_mark s r = Inr (b, t)" "los_wf t" "los_same s t" "los_objects t = los_objects s"
    "los_marked_nodes t = los_marked_nodes s \<union> {n. los_live_node s n \<and> obj_addr (los_key s n) = r}"
    by (rule mark_wf[OF wf r]) blast
  have m: "r \<in> marked_addrs s \<longleftrightarrow> los_mark_of s n = los_marked s"
  proof
    assume "r \<in> marked_addrs s"
    then obtain m where "m \<in> los_marked_nodes s" "obj_addr (los_key s m) = r" by (auto simp: marked_addrs_def)
    then have "m = n" "los_mark_of s m = los_marked s"
      using node_addr_inj[OF wf, of m n] n by (auto simp: los_marked_nodes_def los_live_node_def)
    then show "los_mark_of s n = los_marked s" by simp
  next
    assume "los_mark_of s n = los_marked s"
    then show "r \<in> marked_addrs s" using n by (auto simp: marked_addrs_def los_marked_nodes_def)
  qed
  have get: "large_object_node_get_mark (los_node s n) = Inr (los_mark_of s n)"
    using n(1) by (simp add: large_object_node_get_mark_def los_mark_of_def los_live_node_def)
  have "b \<longleftrightarrow> los_mark_of s n \<noteq> los_marked s"
    using t(1) n(3,4) get by (auto simp: large_object_space_mark_def Let_def split: if_splits)
  moreover have "marked_addrs t = insert r (marked_addrs s)"
    using t(3,5) n(1,2) by (auto simp: marked_addrs_def los_same_def)
  ultimately show ?thesis using t(1,2,4) m by (intro exI[of _ t]) simp
qed

lemma contains_large:
  assumes "los_wf s" "r \<in> obj_addr ` los_objects s"
  shows "large_object_space_contains s r = Inr True"
proof -
  obtain n where n: "los_live_node s n" "obj_addr (los_key s n) = r" by (rule live_node_of[OF assms])
  then have "address_map_abs (los_object_map s) r = Some n"
    using los_wf_apartD(7)[OF assms(1), of r n] by (simp add: los_live_node_def)
  then show ?thesis
    unfolding large_object_space_contains_def using am.contains_law[OF los_wf_apartD(1)[OF assms(1)], of r] by simp
qed

lemma store_word_frame:
  assumes "x \<notin> bytes_at e 8" "unat e + 8 < 2 ^ 63"
  shows "store_word m e v x = m x"
proof -
  have "\<not> x - e < 8"
  proof
    assume "x - e < 8"
    then have "unat (x - e) < 8" by (simp add: word_less_nat_alt)
    then have "x \<in> bytes_at e 8" using in_bytes_at[of "unat (x - e)" 8 e] assms(2) by simp
    then show False using assms(1) by blast
  qed
  then show ?thesis by (rule store_word_other)
qed

lemma distinct_length: "distinct (map fst xs) \<Longrightarrow> fst ` set xs \<subseteq> A \<Longrightarrow> finite A \<Longrightarrow> length xs \<le> card A"
  by (metis card_mono distinct_card length_map set_map)

lemma tiles_split:
  assumes "tiles sz p (C @ D) q" "tiles sz p C r"
  shows "tiles sz r D q"
proof -
  obtain r' where "tiles sz p C r'" "tiles sz r' D q" using assms(1) by (auto simp: tiles_append)
  then show ?thesis using tiles_sum[OF assms(2)] tiles_sum[of sz p C r'] by simp
qed

section \<open>What a visit meets\<close>

context gc_embedder
begin

lemma inv_large:
  assumes "inv h0 h C M S" "los_wf t" "los_objects t = los_objects (sh_large h)" "marked_addrs t = M"
  shows "inv h0 (h\<lparr>sh_large := t\<rparr>) C M S"
  using assms unfolding semi_inv_def marked_addrs_def by simp

lemma inv_mem:
  assumes "inv h0 h C M S" "e \<in> S"
  obtains i k where "i \<in> its h0 C M" "k \<in> set (it_offs i)" "e = it_at i + of_nat k"
    "load_word (sh_mem h) e = load_word (sh_mem h0) (it_orig i + of_nat k)"
proof -
  obtain i where i: "i \<in> its h0 C M" "e \<in> item_edges i" using semi_invD(13)[OF assms(1)] assms(2) by blast
  then obtain k where k: "k \<in> set (it_offs i)" "e = it_at i + of_nat k" by (auto simp: item_edges_def)
  have "load_word (sh_mem h) e = load_word (sh_mem h0) (it_orig i + of_nat k)"
    using bspec[OF semi_invD(12)[OF assms(1) i(1), unfolded item_ok_def Let_def, THEN conjunct2] k(1)] k(2) assms(2) by simp
  then show thesis by (rule that[OF i(1) k])
qed

lemma edge_target:
  assumes rd: "ready h0" and iv: "inv h0 h C M S" and i: "i \<in> its h0 C M" "k \<in> set (it_offs i)"
    and w: "is_obj_ref em (load_word (sh_mem h0) (it_orig i + of_nat k))"
  shows "load_word (sh_mem h0) (it_orig i + of_nat k) \<in> live h0"
  using i(1)
proof (cases rule: items_cases)
  case (1 e)
  then show ?thesis using i(2) w live_root[of e "set (semi_roots em)" em "sh_mem h0" offs] by (simp add: semi_live_def)
next
  case (2 a n)
  then have "a \<in> live h0" using copies_at(1)[OF rd iv] by blast
  then show ?thesis using 2 i(2) w live_edge[of a em offs "sh_mem h0" "set (semi_roots em)" k] by (simp add: semi_live_def)
next
  case (3 l)
  then have "l \<in> live h0" using large_apart(2)[OF rd iv] by blast
  then show ?thesis using 3 i(2) w live_edge[of l em offs "sh_mem h0" "set (semi_roots em)" k] by (simp add: semi_live_def)
qed

lemma items_mono: "M \<subseteq> M' \<Longrightarrow> its h0 C M \<subseteq> its h0 (C @ D) M'"
  by (auto simp: items_def)

lemma copied_edges_new:
  assumes rd: "ready h0" and iv: "inv h0 h (C @ D) M' S" and j: "j \<in> its h0 C M" and M: "M \<subseteq> M'"
  shows "item_edges j \<inter> copy_edges offs (sh_mem h0) D = {}"
proof -
  have "item_edges j \<inter> (\<lambda>k. n + of_nat k) ` set (offs (sh_mem h0) a) = {}" if d: "(a, n) \<in> set D" for a n
  proof -
    define i where "i = \<lparr> it_at = n, it_orig = a, it_size = sz h0 a, it_offs = offs (sh_mem h0) a \<rparr>"
    have iD: "(a, n) \<in> set (C @ D)" using d by simp
    have i: "i \<in> its h0 (C @ D) M'" unfolding i_def items_def using iD by force
    have j': "j \<in> its h0 (C @ D) M'" using j items_mono[OF M] by blast
    note cD = copies_at[OF rd iv iD]
    have n_to: "n \<in> to_bytes h0" using copy_in_to[OF rd iv iD] live_facts(4)[OF rd cD(1)] by (auto simp: bytes_at_def)
    then have an: "a \<noteq> n" using cD(2) spaces_readyD(3)[OF semi_readyD(1)[OF rd]] by blast
    have "i \<noteq> j"
      using j
    proof (cases rule: items_cases)
      case (2 b m)
      have "a \<in> fst ` set D" using d by (rule image_eqI[rotated]) simp
      then have "a \<notin> fst ` set C" using semi_invD(6)[OF iv] by auto
      moreover have "b \<in> fst ` set C" using 2(1) by (rule image_eqI[rotated]) simp
      ultimately show ?thesis using 2(2) by (auto simp: i_def)
    qed (use an in \<open>auto simp: i_def\<close>)
    then have "item_bytes j \<inter> item_bytes i = {}" using items_apart[OF rd iv i j'] by blast
    moreover have "item_edges i \<subseteq> item_bytes i" "item_edges j \<subseteq> item_bytes j"
      using item_edge_bytes(3)[OF item_shape(2,3)[OF rd iv i]] item_edge_bytes(3)[OF item_shape(2,3)[OF rd iv j']]
      by (auto simp: item_edges_def)
    ultimately show ?thesis unfolding item_edges_def i_def by auto
  qed
  then show ?thesis by (fastforce simp: copy_edges_def)
qed

text \<open>The embedder sees a copy or a large object as the object that it was.\<close>

lemma item_valid:
  assumes rd: "ready h0" and iv: "inv h0 h C M S" and i: "i \<in> its h0 C M" "it_orig i \<in> live h0"
    and shape: "it_size i = sz h0 (it_orig i)" "it_offs i = offs (sh_mem h0) (it_orig i)"
  shows "valid (sh_mem h) (it_at i)" "osize (sh_mem h) (it_at i) = it_size i" "offs (sh_mem h) (it_at i) = it_offs i"
proof -
  have "\<forall>k < sz h0 (it_orig i). \<not> in_edge (offs (sh_mem h0) (it_orig i)) k \<longrightarrow>
      sh_mem h (it_at i + of_nat k) = sh_mem h0 (it_orig i + of_nat k)"
    using semi_invD(12)[OF iv i(1), unfolded item_ok_def Let_def, THEN conjunct1] shape by simp
  from local_law[OF live_facts(1)[OF rd i(2)] this]
  show "valid (sh_mem h) (it_at i)" "osize (sh_mem h) (it_at i) = it_size i" "offs (sh_mem h) (it_at i) = it_offs i"
    using shape by simp_all
qed

end

section \<open>One edge\<close>

context gc_embedder
begin

lemma inv_store:
  assumes rd: "ready h0" and iv: "inv h0 h C M S" and i: "i \<in> its h0 C M" "k \<in> set (it_offs i)"
    and w: "settled em C M (load_word (sh_mem h0) (it_orig i + of_nat k))"
      "v = translate em C (load_word (sh_mem h0) (it_orig i + of_nat k))"
  shows "inv h0 (h\<lparr>sh_mem := store_word (sh_mem h) (it_at i + of_nat k) v\<rparr>) C M (S - {it_at i + of_nat k})"
proof (rule inv_update[OF rd iv i w(1)])
  have "k + 8 \<le> it_size i" "unat (it_at i + of_nat k) = unat (it_at i) + k"
    using item_shape(2)[OF rd iv i(1)] item_edge_bytes(1)[OF item_shape(2,3)[OF rd iv i(1)] i(2)] i(2) by blast+
  then have "unat (it_at i + of_nat k) + 8 < 2 ^ 63" using item_shape(3)[OF rd iv i(1)] by linarith
  then show "\<forall>x. x \<notin> bytes_at (it_at i + of_nat k) 8 \<longrightarrow> store_word (sh_mem h) (it_at i + of_nat k) v x = sh_mem h x"
    by (simp add: store_word_frame)
qed (simp add: load_store_word w(2))

lemma forwarded_copy:
  assumes "ready h0" "inv h0 h C M S" "(w, n) \<in> set C"
  shows "em_forwarded em (sh_mem h) w = n"
proof -
  obtain m where m: "valid m w" "osize m w = sz h0 w" "\<forall>k < sz h0 w. sh_mem h (w + of_nat k) = em_forward em w n m (w + of_nat k)"
    using semi_invD(10)[OF assms(2,3)] by (auto simp: forwarded_to_def)
  show ?thesis using forward_law[OF m(1) copies_at(6,5)[OF assms]] m(2,3) by simp
qed

lemma visit_semi:
  assumes rd: "ready h0" and iv: "inv h0 h C M (insert e T)" and e: "e \<notin> T" and w: "w = load_word (sh_mem h) e"
    and ref: "is_obj_ref em w" "w \<in> from_bytes h0"
  shows "\<exists>h' D. visit_semi_space em resolve h e w = Inr h' \<and> inv h0 h' (C @ D) M (T \<union> copy_edges offs (sh_mem h0) D)"
proof -
  obtain i k where i: "i \<in> its h0 C M" "k \<in> set (it_offs i)" "e = it_at i + of_nat k"
    "load_word (sh_mem h) e = load_word (sh_mem h0) (it_orig i + of_nat k)"
    using inv_mem[OF iv insertI1] by metis
  have w0: "load_word (sh_mem h0) (it_orig i + of_nat k) = w" using i(4) w by simp
  have live: "w \<in> live h0" using edge_target[OF rd iv i(1,2)] ref(1) w0 by simp
  show ?thesis
  proof (cases "w \<in> fst ` set C")
    case True
    then obtain n where n: "(w, n) \<in> set C" by auto
    have t: "translate em C w = n" using map_of_is_SomeI[OF semi_invD(6)[OF iv] n] ref(1) by (simp add: translate_def)
    have "visit_semi_space em resolve h e w = Inr (h\<lparr>sh_mem := store_word (sh_mem h) e n\<rparr>)"
      using forwarded_copy[OF rd iv n] copies_at(6)[OF rd iv n]
      by (simp add: visit_semi_space_def semi_forward_def Let_def)
    moreover have "inv h0 (h\<lparr>sh_mem := store_word (sh_mem h) e n\<rparr>) C M (insert e T - {e})"
      using inv_store[OF rd iv i(1,2), of n] t True w0 i(3) by (simp add: settled_def)
    ultimately show ?thesis using e by (intro exI[of _ "h\<lparr>sh_mem := store_word (sh_mem h) e n\<rparr>"] exI[of _ "[]"]) simp
  next
    case False
    have un: "w \<in> live h0 - fst ` set C - M" using False live ref(2) semi_invD(8)[OF iv] by blast
    note uo = unreached_object[OF rd iv un]
    define n where "n = ss_hp (sh_semi h)"
    define h1 where "h1 = h\<lparr>sh_mem := em_forward em w n (mem_copy (sh_mem h) n w (of_nat (sz h0 w))),
      sh_semi := (sh_semi h)\<lparr>ss_hp := n + align_up (of_nat (sz h0 w)) 8\<rparr>\<rparr>"
    let ?D = "[(w, n)]" and ?CE = "copy_edges offs (sh_mem h0) [(w, n)]"
    have iv1: "inv h0 h1 (C @ ?D) M (insert e T \<union> ?CE)"
      using inv_copy[OF rd iv live ref(2) False] by (simp only: h1_def n_def)
    have "\<not> sh_check_pending_ephemerons h1" by (rule semi_invD(2)[OF iv1])
    then have "visit_semi_space em resolve h e w = Inr (h1\<lparr>sh_mem := store_word (sh_mem h1) e n\<rparr>)"
      using fresh_law[OF uo(1)] size_law[OF uo(1)] uo(2)
      by (simp add: visit_semi_space_def semi_forward_def semi_copy_def semi_maybe_resolve_def Let_def GC_ALIGNMENT_def
          h1_def n_def)
    moreover have "map_of C w = None" using False by (simp add: map_of_eq_None_iff)
    then have "map_of (C @ ?D) w = Some n" by (simp add: map_add_def)
    then have t: "translate em (C @ ?D) w = n" using ref(1) by (simp add: translate_def)
    have i1: "i \<in> its h0 (C @ ?D) M" using i(1) items_mono[of M M] by blast
    have "inv h0 (h1\<lparr>sh_mem := store_word (sh_mem h1) e n\<rparr>) (C @ ?D) M (insert e T \<union> ?CE - {e})"
      using inv_store[OF rd iv1 i1 i(2), of n] t w0 i(3) by (simp add: settled_def)
    moreover have "e \<notin> ?CE" using copied_edges_new[OF rd iv1 i(1)] i(2,3) by (auto simp: item_edges_def)
    then have "insert e T \<union> ?CE - {e} = T \<union> ?CE" using e by blast
    ultimately show ?thesis by (intro exI[of _ "h1\<lparr>sh_mem := store_word (sh_mem h1) e n\<rparr>"] exI[of _ ?D]) simp
  qed
qed

text \<open>What visiting the edges \<open>es\<close> does, with calls for large objects as deep as \<open>fuel\<close>.\<close>

definition visits :: "'x semi_heap \<Rightarrow> nat \<Rightarrow> (u64 \<Rightarrow> 'x semi_heap \<Rightarrow> 'x semi_heap result) \<Rightarrow> bool" where
  "visits h0 fuel f \<longleftrightarrow> (\<forall>h C M T e. inv h0 h C M (insert e T) \<and> e \<notin> T \<and> card (live h0 - from_bytes h0 - M) < fuel \<longrightarrow>
    (\<exists>h' D M'. f e h = Inr h' \<and> inv h0 h' (C @ D) M' (T \<union> copy_edges offs (sh_mem h0) D) \<and> M \<subseteq> M'))"

lemma visit_edges:
  assumes rd: "ready h0" and f: "visits h0 fuel f" and iv: "inv h0 h C M (T \<union> set es)" "distinct es" "T \<inter> set es = {}"
    and fuel: "card (live h0 - from_bytes h0 - M) < fuel"
  shows "\<exists>h' D M'. result_fold f es h = Inr h' \<and> inv h0 h' (C @ D) M' (T \<union> copy_edges offs (sh_mem h0) D) \<and> M \<subseteq> M'"
  using iv fuel
proof (induction es arbitrary: h C M T)
  case Nil
  then show ?case by (intro exI[of _ h] exI[of _ "[]"] exI[of _ M]) simp
next
  case (Cons e es)
  let ?ce = "copy_edges offs (sh_mem h0)"
  have "inv h0 h C M (insert e (T \<union> set es))" "e \<notin> T \<union> set es" using Cons.prems(1-3) by simp_all
  then obtain h1 D1 M1 where 1: "f e h = Inr h1" "inv h0 h1 (C @ D1) M1 (T \<union> set es \<union> ?ce D1)" "M \<subseteq> M1"
    using f Cons.prems(4) unfolding visits_def by blast
  have "set es \<inter> ?ce D1 = {}"
  proof -
    have "set es \<subseteq> (\<Union>j \<in> its h0 C M. item_edges j)" using semi_invD(13)[OF Cons.prems(1)] by auto
    then show ?thesis using copied_edges_new[OF rd 1(2) _ 1(3)] by blast
  qed
  moreover have "inv h0 h1 (C @ D1) M1 (T \<union> ?ce D1 \<union> set es)" using 1(2) by (simp add: Un_ac)
  moreover have "card (live h0 - from_bytes h0 - M1) \<le> card (live h0 - from_bytes h0 - M)"
    using 1(3) by (intro card_mono) auto
  moreover have "(T \<union> ?ce D1) \<inter> set es = {}" if "set es \<inter> ?ce D1 = {}" using that Cons.prems(3) by auto
  moreover have "distinct es" "card (live h0 - from_bytes h0 - M1) < fuel" if "card (live h0 - from_bytes h0 - M1) \<le> card (live h0 - from_bytes h0 - M)"
    using that Cons.prems(2,4) by simp_all
  ultimately have "\<exists>h' D M'. result_fold f es h1 = Inr h' \<and> inv h0 h' ((C @ D1) @ D) M' (T \<union> ?ce D1 \<union> ?ce D) \<and> M1 \<subseteq> M'"
    by (intro Cons.IH) blast+
  then obtain h2 D2 M2 where 2: "result_fold f es h1 = Inr h2"
    "inv h0 h2 ((C @ D1) @ D2) M2 (T \<union> ?ce D1 \<union> ?ce D2)" "M1 \<subseteq> M2" by blast
  then show ?case using 1 by (intro exI[of _ h2] exI[of _ "D1 @ D2"] exI[of _ M2]) (auto simp: Un_ac)
qed

lemma trace_object:
  assumes rd: "ready h0" and f: "visits h0 fuel f" and iv: "inv h0 h C M (T \<union> item_edges i)" "T \<inter> item_edges i = {}"
    and i: "i \<in> its h0 C M" "it_orig i \<in> live h0"
      "it_size i = sz h0 (it_orig i)" "it_offs i = offs (sh_mem h0) (it_orig i)"
    and fuel: "card (live h0 - from_bytes h0 - M) < fuel"
  shows "\<exists>h' D M'. semi_trace_object em f (it_at i) h = Inr (of_nat (it_size i), h')
    \<and> inv h0 h' (C @ D) M' (T \<union> copy_edges offs (sh_mem h0) D) \<and> M \<subseteq> M'"
proof -
  let ?es = "map (\<lambda>k. it_at i + of_nat k) (it_offs i)"
  note v = item_valid[OF rd iv(1) i]
  have edges: "em_edges em (sh_mem h) (it_at i) = Inr ?es" using edges_law[OF v(1)] v(3) by simp
  have es: "set ?es = item_edges i" by (simp add: item_edges_def)
  have inj: "inj_on (\<lambda>k. it_at i + of_nat k) (set (it_offs i))"
    by (rule inj_onI) (metis item_edge_bytes(1)[OF item_shape(2,3)[OF rd iv(1) i(1)]] add_left_cancel)
  have "distinct ?es" using item_shape(1)[OF rd iv(1) i(1)] inj by (simp add: distinct_map)
  then obtain h' D M' where h': "result_fold f ?es h = Inr h'" "inv h0 h' (C @ D) M' (T \<union> copy_edges offs (sh_mem h0) D)" "M \<subseteq> M'"
    using visit_edges[OF rd f _ _ _ fuel, of h C T ?es] iv es by (metis (no_types))
  have "i \<in> its h0 (C @ D) M'" using i(1) items_mono[OF h'(3)] by blast
  note v' = item_valid[OF rd h'(2) this i(2-4)]
  have "semi_trace_object em f (it_at i) h = Inr (of_nat (it_size i), h')"
    using edges h'(1) size_law[OF v'(1)] v'(2) by (simp add: semi_trace_object_def)
  then show ?thesis using h'(2,3) by blast
qed

end

section \<open>The visitor\<close>

context gc_embedder
begin

lemma inv_skip:
  assumes rd: "ready h0" and iv: "inv h0 h C M (insert e T)" and e: "e \<notin> T"
    and w: "settled em C M (load_word (sh_mem h) e)" "translate em C (load_word (sh_mem h) e) = load_word (sh_mem h) e"
  shows "inv h0 h C M T"
proof -
  obtain i k where i: "i \<in> its h0 C M" "k \<in> set (it_offs i)" "e = it_at i + of_nat k"
    "load_word (sh_mem h) e = load_word (sh_mem h0) (it_orig i + of_nat k)"
    using inv_mem[OF iv insertI1] by metis
  have "inv h0 (h\<lparr>sh_mem := sh_mem h\<rparr>) C M (insert e T - {e})"
    using inv_update[OF rd iv i(1,2), of "sh_mem h"] w i(3,4) by simp
  then show ?thesis using e by simp
qed

lemma spaces_of:
  assumes "ready h0" "inv h0 h C M S" "w \<in> live h0"
  shows "semi_space_contains (sh_semi h) w = Inr (w \<in> from_bytes h0)"
    "w \<notin> from_bytes h0 \<Longrightarrow> large_object_space_contains (sh_large h) w = Inr True"
proof -
  note sm = semi_invD(1)[OF assms(2)] and ok = semi_readyD(1)[OF assms(1)]
  have "w \<notin> to_bytes h0"
    using live_facts(5,6,7)[OF assms(1,3)] spaces_readyD(3)[OF ok] by blast
  then have "\<not> region_contains (ss_to_space (sh_semi h0)) w"
    using region_contains_iff[OF spaces_readyD(2)[OF ok]] by simp
  moreover have "region_contains (ss_from_space (sh_semi h0)) w \<longleftrightarrow> w \<in> from_bytes h0"
    by (rule region_contains_iff[OF spaces_readyD(1)[OF ok]])
  moreover have "ss_to_space (sh_semi h) = ss_to_space (sh_semi h0)" "ss_from_space (sh_semi h) = ss_from_space (sh_semi h0)"
    by (subst sm, simp)+
  ultimately show "semi_space_contains (sh_semi h) w = Inr (w \<in> from_bytes h0)"
    by (simp add: semi_space_contains_def gc_assert_def)
  assume "w \<notin> from_bytes h0"
  then have "w \<in> obj_addr ` los_objects (sh_large h)"
    using live_facts(6)[OF assms(1,3)] semi_invD(4)[OF assms(2)] by (simp add: semi_large_def)
  then show "large_object_space_contains (sh_large h) w = Inr True" by (rule contains_large[OF semi_invD(3)[OF assms(2)]])
qed

lemma visit_large:
  assumes rd: "ready h0" and f: "visits h0 fuel f" and iv: "inv h0 h C M (insert e T)" and e: "e \<notin> T"
    and w: "w = load_word (sh_mem h) e" "w \<in> live h0" "w \<notin> from_bytes h0"
    and fuel: "card (live h0 - from_bytes h0 - M) < Suc fuel"
  shows "\<exists>h' D M'. visit_large_object_space em resolve f h w = Inr h'
    \<and> inv h0 h' (C @ D) M' (T \<union> copy_edges offs (sh_mem h0) D) \<and> M \<subseteq> M'"
proof -
  have wl: "w \<in> obj_addr ` los_objects (sh_large h)"
    using live_facts(6)[OF rd w(2,3)] semi_invD(4)[OF iv] by (simp add: semi_large_def)
  have M: "marked_addrs (sh_large h) = M" using semi_invD(5)[OF iv] by (simp add: marked_addrs_def)
  obtain t where t: "large_object_space_mark (sh_large h) w = Inr (w \<notin> M, t)" "los_wf t"
    "los_objects t = los_objects (sh_large h)" "marked_addrs t = insert w M"
    using mark_large[OF semi_invD(3)[OF iv] wl] M by metis
  let ?h = "h\<lparr>sh_large := t\<rparr>"
  have "map_of C w = None" using w(3) semi_invD(7)[OF iv] by (auto simp: map_of_eq_None_iff)
  then have tr: "translate em C w = w" by (simp add: translate_def)
  show ?thesis
  proof (cases "w \<in> M")
    case True
    then have "inv h0 ?h C M (insert e T)" using inv_large[OF iv t(2,3)] t(4) by (simp add: insert_absorb)
    then have "inv h0 ?h C M T" by (rule inv_skip[OF rd _ e]) (use True w(1) tr in \<open>simp_all add: settled_def\<close>)
    moreover have "visit_large_object_space em resolve f h w = Inr ?h"
      using t(1) True by (simp add: visit_large_object_space_def Let_def)
    ultimately show ?thesis by (intro exI[of _ ?h] exI[of _ "[]"] exI[of _ M]) simp
  next
    case False
    let ?M = "insert w M" and ?E = "(\<lambda>k. w + of_nat k) ` set (offs (sh_mem h0) w)"
    define i where "i = \<lparr> it_at = w, it_orig = w, it_size = sz h0 w, it_offs = offs (sh_mem h0) w \<rparr>"
    have E: "?E = item_edges i" by (simp add: item_edges_def i_def)
    note m = inv_mark[OF rd iv w(2,3) False t(2,3) t(4)[unfolded marked_addrs_def]]
    have "inv h0 ?h C ?M (insert e (T \<union> ?E))" "e \<notin> T \<union> ?E" using m e by auto
    then have iv1: "inv h0 ?h C ?M (T \<union> ?E)"
      by (rule inv_skip[OF rd]) (use w(1) tr in \<open>simp_all add: settled_def\<close>)
    have "live h0 - from_bytes h0 - ?M \<subset> live h0 - from_bytes h0 - M" using w(2,3) False by blast
    then have fu: "card (live h0 - from_bytes h0 - ?M) < fuel" using fuel psubset_card_mono[of "live h0 - from_bytes h0 - M"] by fastforce
    have "i \<in> its h0 C ?M" by (auto simp: items_def i_def)
    then obtain h' D M' where h': "semi_trace_object em f (it_at i) ?h = Inr (of_nat (it_size i), h')"
      "inv h0 h' (C @ D) M' (T \<union> copy_edges offs (sh_mem h0) D)" "?M \<subseteq> M'"
      using trace_object[OF rd f iv1[unfolded E] _ _ _ _ _ fu] m(2) w(2) unfolding E by (auto simp: i_def)
    have "\<not> sh_check_pending_ephemerons ?h" by (rule semi_invD(2)[OF iv1])
    then have "visit_large_object_space em resolve f h w = Inr h'"
      using t(1) False h'(1) by (simp add: visit_large_object_space_def Let_def semi_maybe_resolve_def i_def)
    then show ?thesis using h'(2,3) by blast
  qed
qed

lemma semi_visit_visits:
  assumes rd: "ready h0"
  shows "visits h0 fuel (semi_visit em resolve fuel)"
proof (induction fuel)
  case 0
  then show ?case by (simp add: visits_def)
next
  case (Suc fuel)
  show ?case
    unfolding visits_def
  proof (intro allI impI, elim conjE)
    fix h C M T e
    assume iv: "inv h0 h C M (insert e T)" and e: "e \<notin> T" and fuel: "card (live h0 - from_bytes h0 - M) < Suc fuel"
    define w where "w = load_word (sh_mem h) e"
    show "\<exists>h' D M'. semi_visit em resolve (Suc fuel) e h = Inr h'
      \<and> inv h0 h' (C @ D) M' (T \<union> copy_edges offs (sh_mem h0) D) \<and> M \<subseteq> M'"
    proof (cases "is_obj_ref em w")
      case False
      then have "inv h0 h C M T" using inv_skip[OF rd iv e] by (simp add: settled_def translate_def w_def)
      moreover have "semi_visit em resolve (Suc fuel) e h = Inr h"
        using False by (auto simp: w_def is_obj_ref_def gc_ref_is_null_def gc_ref_is_immediate_def gc_assert_def Let_def)
      ultimately show ?thesis by (intro exI[of _ h] exI[of _ "[]"] exI[of _ M]) simp
    next
      case True
      then have "w \<noteq> 0" "gc_ref_is_immediate em w = Inr False"
        by (auto simp: is_obj_ref_def gc_ref_is_null_def gc_ref_is_immediate_def gc_assert_def)
      moreover obtain i k where i: "i \<in> its h0 C M" "k \<in> set (it_offs i)" "w = load_word (sh_mem h0) (it_orig i + of_nat k)"
        using inv_mem[OF iv insertI1] w_def by metis
      then have live: "w \<in> live h0" using edge_target[OF rd iv i(1,2)] True by simp
      ultimately have "semi_visit em resolve (Suc fuel) e h =
        (if w \<in> from_bytes h0 then visit_semi_space em resolve h e w
         else visit_large_object_space em resolve (semi_visit em resolve fuel) h w)"
        using spaces_of[OF rd iv live] by (simp add: w_def[symmetric] gc_ref_is_null_def Let_def)
      moreover have "\<exists>h' D. visit_semi_space em resolve h e w = Inr h' \<and> inv h0 h' (C @ D) M (T \<union> copy_edges offs (sh_mem h0) D)"
        if "w \<in> from_bytes h0" by (rule visit_semi[OF rd iv e w_def True that])
      moreover note visit_large[OF rd Suc.IH iv e w_def live _ fuel, of resolve]
      ultimately show ?thesis by (cases "w \<in> from_bytes h0") (metis subset_refl, metis)
    qed
  qed
qed

end

section \<open>The roots and the closure\<close>

context gc_embedder
begin

lemma inv_start:
  assumes "ready h0"
  shows "inv h0 h0 [] {} (set (semi_roots em))"
proof -
  note sp = spaces_readyD[OF semi_readyD(1)[OF assms]]
  have "item_ok em (sh_mem h0) (sh_mem h0) [] {} (set (semi_roots em)) i" if "i \<in> its h0 [] {}" for i
    using that by (auto simp: items_def item_ok_def in_edge_def)
  then show ?thesis
    unfolding semi_inv_def using sp by (auto simp: items_def item_edges_def)
qed

lemma trace_roots:
  assumes rd: "ready h0" and fuel: "card (live h0 - from_bytes h0) < fuel"
  shows "\<exists>h C M. semi_trace_roots em resolve fuel h0 = Inr (to_base h0, h) \<and> inv h0 h C M (copy_edges offs (sh_mem h0) C)"
proof -
  have "inv h0 h0 [] {} ({} \<union> set (semi_roots em))" using inv_start[OF rd] by simp
  then obtain h C M where h: "result_fold (semi_visit em resolve fuel) (semi_roots em) h0 = Inr h"
    "inv h0 h C M (copy_edges offs (sh_mem h0) C)"
    using visit_edges[OF rd semi_visit_visits[OF rd] _ semi_readyD(2)[OF rd], of h0 "[]" "{}" "{}" fuel resolve] fuel by auto
  have "ss_hp (sh_semi h0) = to_base h0" by (rule spaces_readyD(4)[OF semi_readyD(1)[OF rd]])
  moreover have "semi_trace_roots em resolve fuel h0
    = result_bind (result_fold (semi_visit em resolve fuel) (semi_roots em) h0) (\<lambda>h. Inr (ss_hp (sh_semi h0), h))"
    by (simp add: semi_trace_roots_def semi_roots_def result_fold_append result_bind_assoc Let_def)
  ultimately show ?thesis using h by auto
qed

text \<open>The copies before the grey pointer have been scanned.\<close>

definition scanned :: "'x semi_heap \<Rightarrow> u64 \<times> 'x semi_heap \<Rightarrow> (gc_ref \<times> gc_ref) list \<Rightarrow> (gc_ref \<times> gc_ref) list \<Rightarrow> gc_ref set \<Rightarrow> bool" where
  "scanned h0 st C1 C2 M \<longleftrightarrow> inv h0 (snd st) (C1 @ C2) M (copy_edges offs (sh_mem h0) C2)
    \<and> tiles (sz h0) (unat (to_base h0)) C1 (unat (fst st))"

lemma scan_copy:
  assumes rd: "ready h0" and sc: "scanned h0 (grey, h) C1 C2 M" and less: "grey < ss_hp (sh_semi h)"
    and fuel: "card (live h0 - from_bytes h0) < fuel"
  shows "\<exists>st c C2' M'. semi_scan em resolve fuel h grey = Inr st \<and> scanned h0 st (C1 @ [c]) C2' M'"
proof -
  let ?ce = "copy_edges offs (sh_mem h0)"
  have iv: "inv h0 h (C1 @ C2) M (?ce C2)" and t1: "tiles (sz h0) (unat (to_base h0)) C1 (unat grey)"
    using sc by (simp_all add: scanned_def)
  have "tiles (sz h0) (unat grey) C2 (unat (ss_hp (sh_semi h)))"
    by (rule tiles_split[OF semi_invD(9)[OF iv] t1])
  moreover from this have "C2 \<noteq> []" using less by (auto simp: word_less_nat_alt)
  ultimately obtain a n D where c: "C2 = (a, n) # D" "n = grey" by (cases C2) (auto simp: word_unat_eq_iff)
  define i where "i = \<lparr> it_at = n, it_orig = a, it_size = sz h0 a, it_offs = offs (sh_mem h0) a \<rparr>"
  have an: "(a, n) \<in> set (C1 @ C2)" using c(1) by simp
  note ca = copies_at[OF rd iv an]
  have i: "i \<in> its h0 (C1 @ [(a, n)]) M" "i \<in> its h0 (C1 @ C2) M" using c(1) by (auto simp: items_def i_def)
  have E: "?ce C2 = ?ce D \<union> item_edges i" using c(1) by (auto simp: item_edges_def i_def)
  have "inv h0 h ((C1 @ [(a, n)]) @ D) M (?ce C2)" using iv c(1) by simp
  then have dis: "?ce D \<inter> item_edges i = {}" using copied_edges_new[OF rd _ i(1), of h D M] by blast
  have "card (live h0 - from_bytes h0 - M) < fuel"
    using fuel card_mono[of "live h0 - from_bytes h0" "live h0 - from_bytes h0 - M"] by (simp add: Diff_subset)
  note tr = trace_object[OF rd semi_visit_visits[OF rd] iv[unfolded E] dis i(2) _ _ _ this, of resolve]
  obtain h' F M' where h': "semi_trace_object em (semi_visit em resolve fuel) (it_at i) h = Inr (of_nat (it_size i), h')"
    "inv h0 h' ((C1 @ C2) @ F) M' (?ce D \<union> ?ce F)"
    using tr ca(1) unfolding i_def by (elim exE conjE meta_impE) simp_all
  have nb: "sz h0 a < 2 ^ 63" "unat n + padded (sz h0 a) < 2 ^ 63"
    using ca(4) hp_bounds(2)[OF rd iv] padded_bounds(1)[of "sz h0 a"] by linarith+
  have g: "unat (grey + align_up (of_nat (sz h0 a)) GC_ALIGNMENT) = unat n + padded (sz h0 a)"
    using nb c(2) unat_align_8[OF nb(1)] by (simp add: GC_ALIGNMENT_def unat_word_ariths)
  have "semi_scan em resolve fuel h grey = Inr (grey + align_up (of_nat (sz h0 a)) GC_ALIGNMENT, h')"
    using h'(1) c(2) by (simp add: semi_scan_def i_def)
  moreover have "scanned h0 (grey + align_up (of_nat (sz h0 a)) GC_ALIGNMENT, h') (C1 @ [(a, n)]) (D @ F) M'"
    using h'(2) t1 g c by (simp add: scanned_def tiles_append)
  ultimately show ?thesis by blast
qed

lemma closure:
  assumes rd: "ready h0" and sc: "scanned h0 (grey, h) C1 C2 M" and fuel: "card (live h0 - from_bytes h0) < fuel"
  shows "\<exists>h' C M'. trace_closure em resolve fuel h grey = Inr (ss_hp (sh_semi h'), h') \<and> inv h0 h' C M' {}"
  using sc
proof (induction "card (live h0) - length C1" arbitrary: grey h C1 C2 M rule: less_induct)
  case less
  let ?P = "\<lambda>(grey, h). grey < ss_hp (sh_semi h)" and ?f = "\<lambda>(grey, h). semi_scan em resolve fuel h grey"
  have iv: "inv h0 h (C1 @ C2) M (copy_edges offs (sh_mem h0) C2)" and t1: "tiles (sz h0) (unat (to_base h0)) C1 (unat grey)"
    using less.prems by (simp_all add: scanned_def)
  show ?case
  proof (cases "grey < ss_hp (sh_semi h)")
    case True
    obtain st c C2' M' where st: "semi_scan em resolve fuel h grey = Inr st" "scanned h0 st (C1 @ [c]) C2' M'"
      using scan_copy[OF rd less.prems True fuel] by blast
    obtain grey' h' where st': "st = (grey', h')" by (cases st)
    have "inv h0 h' ((C1 @ [c]) @ C2') M' (copy_edges offs (sh_mem h0) C2')" using st(2) by (simp add: scanned_def st')
    from semi_invD(6,7)[OF this] have "distinct (map fst ((C1 @ [c]) @ C2'))" "fst ` set ((C1 @ [c]) @ C2') \<subseteq> live h0" by auto
    then have "length ((C1 @ [c]) @ C2') \<le> card (live h0)" by (rule distinct_length) simp
    then have "card (live h0) - length (C1 @ [c]) < card (live h0) - length C1" by simp
    from less.hyps[OF this st(2)[unfolded st']] show ?thesis
      using True st(1) by (simp add: trace_closure_def while_result_unfold[of ?P ?f "(grey, h)"] st')
  next
    case False
    have t2: "tiles (sz h0) (unat grey) C2 (unat (ss_hp (sh_semi h)))"
      by (rule tiles_split[OF semi_invD(9)[OF iv] t1])
    then have "unat grey \<le> unat (ss_hp (sh_semi h))" by (rule tiles_le)
    then have g: "grey = ss_hp (sh_semi h)" using False by (simp add: word_less_nat_alt word_unat_eq_iff)
    have "C2 = []"
    proof (cases C2)
      case (Cons c D)
      obtain a n where c: "c = (a, n)" by (cases c)
      then have "(a, n) \<in> set (C1 @ C2)" using Cons by simp
      from live_facts(4)[OF rd copies_at(1)[OF rd iv this]] have "8 \<le> padded (sz h0 a)" using padded_bounds(1)[of "sz h0 a"] by linarith
      moreover have "unat grey + padded (sz h0 a) \<le> unat (ss_hp (sh_semi h))" using t2 Cons c tiles_le by fastforce
      ultimately show ?thesis using g by simp
    qed
    then have "inv h0 h C1 M {}" using iv by simp
    moreover have "trace_closure em resolve fuel h grey = Inr (grey, h)"
      using False by (simp add: trace_closure_def while_result_unfold[of ?P ?f "(grey, h)"])
    ultimately show ?thesis using g by blast
  qed
qed

text \<open>Once no edge is left, everything reachable is kept.\<close>

lemma all_kept:
  assumes rd: "ready h0" and iv: "inv h0 h C M {}"
  shows "live h0 = fst ` set C \<union> M"
proof
  show "fst ` set C \<union> M \<subseteq> live h0" using semi_invD(7,8)[OF iv] by blast
  have ok: "settled em C M (load_word (sh_mem h0) (it_orig i + of_nat k))" if "i \<in> its h0 C M" "k \<in> set (it_offs i)" for i k
    using bspec[OF semi_invD(12)[OF iv that(1), unfolded item_ok_def Let_def, THEN conjunct2] that(2)] by simp
  show "live h0 \<subseteq> fst ` set C \<union> M"
  proof
    fix a assume "a \<in> live h0"
    then show "a \<in> fst ` set C \<union> M"
      unfolding semi_live_def
    proof induction
      case (live_root e)
      then show ?case using ok[of "\<lparr> it_at = e, it_orig = e, it_size = 8, it_offs = [0] \<rparr>" 0] by (simp add: items_def settled_def)
    next
      case (live_edge a k)
      have "\<exists>i \<in> its h0 C M. it_orig i = a \<and> it_offs i = offs (sh_mem h0) a"
        using live_edge.IH unfolding items_def by force
      then obtain i where "i \<in> its h0 C M" "it_orig i = a" "it_offs i = offs (sh_mem h0) a" by blast
      then show ?case using ok[of i k] live_edge.hyps by (simp add: settled_def)
    qed
  qed
qed

end

section \<open>What a collection leaves\<close>

definition semi_trace :: "'x embedder \<Rightarrow> 'x semi_resolve \<Rightarrow> nat \<Rightarrow> 'x semi_heap \<Rightarrow> (u64 \<times> 'x semi_heap) result" where
  "semi_trace em resolve fuel h =
    result_bind (semi_trace_roots em resolve fuel h) (\<lambda>(grey, h). trace_closure em resolve fuel h grey)"

definition moved_ref :: "'x embedder \<Rightarrow> (gc_ref \<Rightarrow> gc_ref) \<Rightarrow> gc_ref \<Rightarrow> gc_ref" where
  "moved_ref em to w = (if is_obj_ref em w then to w else w)"

text \<open>The object at \<open>a\<close> is at \<open>to a\<close>: it has its shape and its bytes, and its edges lead where the
  objects they led to are.\<close>

definition object_moved ::
    "'x embedder \<Rightarrow> (byte_mem \<Rightarrow> gc_ref \<Rightarrow> bool) \<Rightarrow> (byte_mem \<Rightarrow> gc_ref \<Rightarrow> nat) \<Rightarrow> (byte_mem \<Rightarrow> gc_ref \<Rightarrow> nat list)
      \<Rightarrow> byte_mem \<Rightarrow> byte_mem \<Rightarrow> (gc_ref \<Rightarrow> gc_ref) \<Rightarrow> gc_ref \<Rightarrow> bool" where
  "object_moved em valid osize offs m0 mem to a \<longleftrightarrow>
    valid mem (to a) \<and> osize mem (to a) = osize m0 a \<and> offs mem (to a) = offs m0 a
    \<and> (\<forall>k < osize m0 a. \<not> in_edge (offs m0 a) k \<longrightarrow> mem (to a + of_nat k) = m0 (a + of_nat k))
    \<and> (\<forall>k \<in> set (offs m0 a). load_word mem (to a + of_nat k) = moved_ref em to (load_word m0 (a + of_nat k)))"

definition new_place :: "(gc_ref \<times> gc_ref) list \<Rightarrow> gc_ref \<Rightarrow> gc_ref" where
  "new_place C a = (case map_of C a of Some n \<Rightarrow> n | None \<Rightarrow> a)"

lemma translate_new_place: "translate em C w = moved_ref em (new_place C) w"
  by (simp add: translate_def moved_ref_def new_place_def)

context gc_embedder
begin

lemma traced:
  assumes rd: "ready h0" and fuel: "card (live h0 - from_bytes h0) < fuel"
  obtains h C M where "semi_trace em resolve fuel h0 = Inr (ss_hp (sh_semi h), h)" "inv h0 h C M {}"
proof -
  obtain h1 C1 M1 where h1: "semi_trace_roots em resolve fuel h0 = Inr (to_base h0, h1)"
    "inv h0 h1 C1 M1 (copy_edges offs (sh_mem h0) C1)"
    using trace_roots[OF rd fuel, of resolve] by blast
  have "scanned h0 (to_base h0, h1) [] C1 M1" using h1(2) by (simp add: scanned_def)
  from closure[OF rd this fuel, of resolve] show thesis
    using that h1(1) by (auto simp: semi_trace_def)
qed

lemma live_item:
  assumes rd: "ready h0" and iv: "inv h0 h C M {}" and a: "a \<in> live h0"
  shows "\<lparr> it_at = new_place C a, it_orig = a, it_size = sz h0 a, it_offs = offs (sh_mem h0) a \<rparr> \<in> its h0 C M"
proof (cases "a \<in> fst ` set C")
  case True
  then obtain n where "(a, n) \<in> set C" by auto
  moreover from this have "new_place C a = n" using semi_invD(6)[OF iv] by (simp add: new_place_def)
  ultimately show ?thesis by (force simp: items_def)
next
  case False
  then have "a \<in> M" "new_place C a = a" using all_kept[OF rd iv] a by (auto simp: new_place_def map_of_eq_None_iff[THEN iffD2])
  then show ?thesis by (auto simp: items_def)
qed

lemma live_moved:
  assumes rd: "ready h0" and iv: "inv h0 h C M {}" and a: "a \<in> live h0"
  shows "object_moved em valid osize offs (sh_mem h0) (sh_mem h) (new_place C) a"
proof -
  note i = live_item[OF assms]
  note v = item_valid[OF rd iv i]
  have "\<forall>k \<in> set (offs (sh_mem h0) a). load_word (sh_mem h) (new_place C a + of_nat k) = translate em C (load_word (sh_mem h0) (a + of_nat k))"
    using semi_invD(12)[OF iv i] by (simp add: item_ok_def Let_def)
  then show ?thesis
    using v a semi_invD(12)[OF iv i] by (simp add: object_moved_def item_ok_def translate_new_place)
qed

lemma root_moved:
  assumes "inv h0 h C M {}" "e \<in> set (semi_roots em)"
  shows "load_word (sh_mem h) e = moved_ref em (new_place C) (load_word (sh_mem h0) e)"
proof -
  have "\<lparr> it_at = e, it_orig = e, it_size = 8, it_offs = [0] \<rparr> \<in> its h0 C M" using assms(2) by (auto simp: items_def)
  from semi_invD(12)[OF assms(1) this] show ?thesis by (simp add: item_ok_def Let_def translate_new_place)
qed

lemma places_apart:
  assumes rd: "ready h0" and iv: "inv h0 h C M {}" and ab: "a \<in> live h0" "b \<in> live h0" "a \<noteq> b"
  shows "bytes_at (new_place C a) (sz h0 a) \<inter> bytes_at (new_place C b) (sz h0 b) = {}"
  using items_apart[OF rd iv live_item[OF rd iv ab(1)] live_item[OF rd iv ab(2)]] ab(3) by (simp add: item_bytes_def)

lemma place_zone:
  assumes rd: "ready h0" and iv: "inv h0 h C M {}" and a: "a \<in> live h0"
  shows "a \<in> from_bytes h0 \<Longrightarrow> bytes_at (new_place C a) (sz h0 a) \<subseteq> to_bytes h0"
    "a \<notin> from_bytes h0 \<Longrightarrow> new_place C a = a \<and> a \<in> M"
proof -
  assume "a \<in> from_bytes h0"
  then have "a \<in> fst ` set C" using all_kept[OF rd iv] a semi_invD(8)[OF iv] by blast
  then obtain n where n: "(a, n) \<in> set C" by auto
  then have "new_place C a = n" using semi_invD(6)[OF iv] by (simp add: new_place_def)
  then show "bytes_at (new_place C a) (sz h0 a) \<subseteq> to_bytes h0" using copy_in_to[OF rd iv n] by simp
next
  assume "a \<notin> from_bytes h0"
  then have "a \<notin> fst ` set C" "a \<in> M" using all_kept[OF rd iv] a semi_invD(7)[OF iv] by blast+
  then show "new_place C a = a \<and> a \<in> M" by (simp add: new_place_def map_of_eq_None_iff[THEN iffD2])
qed

lemma kept_small_large:
  assumes rd: "ready h0" and iv: "inv h0 h C M {}"
  shows "fst ` set C = live h0 \<inter> from_bytes h0" "M = live h0 - from_bytes h0"
    "unat (ss_hp (sh_semi h)) = unat (to_base h0) + (\<Sum>a \<in> live h0 \<inter> from_bytes h0. padded (sz h0 a))"
proof -
  show C: "fst ` set C = live h0 \<inter> from_bytes h0" and "M = live h0 - from_bytes h0"
    using all_kept[OF rd iv] semi_invD(7,8)[OF iv] by blast+
  have "(\<Sum>a \<leftarrow> map fst C. padded (sz h0 a)) = (\<Sum>a \<in> set (map fst C). padded (sz h0 a))"
    by (rule sum.distinct_set_conv_list[OF semi_invD(6)[OF iv], symmetric])
  then show "unat (ss_hp (sh_semi h)) = unat (to_base h0) + (\<Sum>a \<in> live h0 \<inter> from_bytes h0. padded (sz h0 a))"
    using tiles_sum[OF semi_invD(9)[OF iv]] C by simp
qed

end

section \<open>A heap with one object\<close>

text \<open>A root leads to a node whose left field leads back to the node.\<close>

definition node_mem :: byte_mem where
  "node_mem = (\<lambda>x. if x = 17 \<or> x = 4105 then 16 else if x = 4096 then 1 else 0)"

definition node_embedder :: "unit embedder" where "node_embedder = gcbench_embedder True [] [16] []"

definition node_heap :: "unit semi_heap" where
  "node_heap = \<lparr> sh_semi = \<lparr> ss_hp = 8192, ss_limit = 12288,
      ss_from_space = \<lparr> rg_base = 4096, rg_active_size = 4096, rg_mapped_size = 4096 \<rparr>,
      ss_to_space = \<lparr> rg_base = 8192, rg_active_size = 4096, rg_mapped_size = 4096 \<rparr>,
      ss_page_size = 4096, ss_stolen_pages = 0, ss_live_bytes_at_last_gc = 0 \<rparr>,
    sh_large = large_object_space_init semi_config 4096 12 False, sh_extern = (), sh_mem = node_mem, sh_size = 8192,
    sh_total_allocated_bytes_at_last_gc = 0, sh_count = 1, sh_check_pending_ephemerons = False \<rparr>"

lemma upt_8: "[0..<8] = [0, 1, 2, 3, 4, 5, 6, 7 :: nat]"
  by (simp add: upt_rec)

lemma node_words:
  "load_word node_mem 16 = 4096" "load_word node_mem 4096 = 1" "load_word node_mem 4104 = 4096" "load_word node_mem 4112 = 0"
  by (simp_all add: load_word_def upt_8 node_mem_def push_bit_eq_mult)

lemma node_shape:
  "gcbench_valid True node_mem 4096" "gcbench_osize node_mem 4096 = 32" "gcbench_offs node_mem 4096 = [8, 16]"
  by (simp_all add: gcbench_valid_def gcbench_osize_def gcbench_offs_def tag_word_def node_words tag_live_alloc_kind_def
      gcobj_not_forwarded_bit_def gcobj_alloc_kind_shift_def gcobj_alloc_kind_mask_def ALLOC_KIND_NODE_def Let_def)

lemma node_obj_ref: "is_obj_ref node_embedder w \<longleftrightarrow> w \<noteq> 0 \<and> w AND 7 = 0"
  by (simp add: is_obj_ref_def node_embedder_def gcbench_embedder_def)

lemma node_live: "semi_live node_embedder gcbench_offs node_heap = {4096}"
proof
  show "semi_live node_embedder gcbench_offs node_heap \<subseteq> {4096}"
  proof
    fix a assume "a \<in> semi_live node_embedder gcbench_offs node_heap"
    then show "a \<in> {4096}"
      unfolding semi_live_def
    proof induction
      case (live_root e)
      then show ?case by (simp add: semi_roots_def node_embedder_def gcbench_embedder_def node_heap_def node_words)
    next
      case (live_edge a k)
      then have "a = 4096" "k = 8 \<or> k = 16" by (auto simp: node_heap_def node_shape)
      then show ?case using live_edge.hyps by (auto simp: node_heap_def node_words node_obj_ref)
    qed
  qed
  have "load_word (sh_mem node_heap) 16 \<in> semi_live node_embedder gcbench_offs node_heap"
    unfolding semi_live_def
    by (rule live_root) (simp_all add: semi_roots_def node_embedder_def gcbench_embedder_def node_heap_def node_words is_obj_ref_def)
  then show "{4096} \<subseteq> semi_live node_embedder gcbench_offs node_heap" by (simp add: node_heap_def node_words)
qed

lemma node_ready: "semi_ready node_embedder (gcbench_valid True) gcbench_osize gcbench_offs node_heap"
proof -
  have roots: "semi_roots node_embedder = [16]" by (simp add: semi_roots_def node_embedder_def gcbench_embedder_def)
  have los: "los_marked_nodes (large_object_space_init semi_config 4096 12 False) = {}"
    by (simp add: los_marked_nodes_def los_live_node_def large_object_space_init_def)
  have "spaces_ready node_heap"
    using los_init_wf(1) los by (auto simp: spaces_ready_def node_heap_def region_fits_def region_bytes_def bytes_at_def)
  moreover have "object_placed node_heap 4096 (padded 32)"
    by (auto simp: object_placed_def node_heap_def region_bytes_def bytes_at_def padded_def)
  ultimately show ?thesis
    unfolding semi_ready_def node_live roots
    by (auto simp: node_shape padded_def node_heap_def region_bytes_def bytes_at_def)
qed

lemma node_gc: "gc_embedder node_embedder (gcbench_valid True) gcbench_osize gcbench_offs"
  unfolding node_embedder_def by (rule gcbench.gc_embedder_axioms)

lemma node_facts:
  "4096 \<in> from_bytes node_heap" "sh_mem node_heap = node_mem" "to_base node_heap = 8192" "semi_roots node_embedder = [16]"
  by (simp_all add: node_heap_def region_bytes_def bytes_at_def semi_roots_def node_embedder_def gcbench_embedder_def)

lemma node_fuel: "card (semi_live node_embedder gcbench_offs node_heap - from_bytes node_heap) < 1"
  unfolding node_live using node_facts(1) by simp

section \<open>The properties\<close>

text \<open>C1: Tracing the roots and the closure of a semispace heap that is ready for a collection returns,
  and leaves the graph of the reachable objects, moved: every reachable object is at its new place with
  its bytes and with edges to the new places, roots lead to the new places, no two objects share memory,
  small objects are in to-space, and large ones have not moved.\<close>

theorem semi_trace_moves_graph:
  assumes "gc_embedder em valid osize offs" "semi_ready em valid osize offs h0"
    and "card (semi_live em offs h0 - from_bytes h0) < fuel"
  shows "\<exists>h to. semi_trace em resolve fuel h0 = Inr (ss_hp (sh_semi h), h)
    \<and> (\<forall>a \<in> semi_live em offs h0. object_moved em valid osize offs (sh_mem h0) (sh_mem h) to a)
    \<and> (\<forall>e \<in> set (semi_roots em). load_word (sh_mem h) e = moved_ref em to (load_word (sh_mem h0) e))
    \<and> (\<forall>a \<in> semi_live em offs h0. \<forall>b \<in> semi_live em offs h0. a \<noteq> b \<longrightarrow>
        bytes_at (to a) (osize (sh_mem h0) a) \<inter> bytes_at (to b) (osize (sh_mem h0) b) = {})
    \<and> (\<forall>a \<in> semi_live em offs h0. if a \<in> from_bytes h0 then bytes_at (to a) (osize (sh_mem h0) a) \<subseteq> to_bytes h0 else to a = a)"
proof -
  note E = assms(1)
  obtain h C M where h: "semi_trace em resolve fuel h0 = Inr (ss_hp (sh_semi h), h)" "semi_inv em valid osize offs h0 h C M {}"
    by (rule gc_embedder.traced[OF E assms(2,3)])
  show ?thesis
    using h(1) gc_embedder.live_moved[OF E assms(2) h(2)] gc_embedder.root_moved[OF E h(2)] gc_embedder.places_apart[OF E assms(2) h(2)] gc_embedder.place_zone[OF E assms(2) h(2)]
    by (intro exI[of _ h] exI[of _ "new_place C"]) simp
qed

theorem semi_trace_moves_graph_witness:
  "\<exists>h to. semi_trace node_embedder (\<lambda>_ h. h) 1 node_heap = Inr (ss_hp (sh_semi h), h)
    \<and> load_word (sh_mem h) 16 = to 4096 \<and> bytes_at (to 4096) 32 \<subseteq> to_bytes node_heap"
proof -
  obtain h to where h: "semi_trace node_embedder (\<lambda>_ h. h) 1 node_heap = Inr (ss_hp (sh_semi h), h)"
    "\<forall>e \<in> {16}. load_word (sh_mem h) e = moved_ref node_embedder to (load_word node_mem e)"
    "\<forall>a \<in> {4096}. if a \<in> from_bytes node_heap then bytes_at (to a) (gcbench_osize node_mem a) \<subseteq> to_bytes node_heap else to a = a"
    using semi_trace_moves_graph[OF node_gc node_ready node_fuel, of "\<lambda>_ h. h"]
    unfolding node_live node_facts(2,4) list.set by blast
  then show ?thesis using node_facts(1) by (auto simp: node_words node_shape moved_ref_def node_obj_ref)
qed

text \<open>C2: Every reachable object of a semispace heap is kept: with fuel for the unmarked large objects the
  collection ends, each reachable small object has been forwarded into to-space, the marked large objects
  are the reachable ones, and to-space holds exactly the copies, for which its size is enough.\<close>

theorem semi_trace_keeps_reachable:
  assumes "gc_embedder em valid osize offs" "semi_ready em valid osize offs h0"
    and "card (semi_live em offs h0 - from_bytes h0) < fuel"
  shows "\<exists>h. semi_trace em resolve fuel h0 = Inr (ss_hp (sh_semi h), h)
    \<and> (\<forall>a \<in> semi_live em offs h0 \<inter> from_bytes h0. em_forwarded em (sh_mem h) a \<in> to_bytes h0)
    \<and> marked_addrs (sh_large h) = semi_live em offs h0 - from_bytes h0
    \<and> unat (ss_hp (sh_semi h)) = unat (to_base h0) + (\<Sum>a \<in> semi_live em offs h0 \<inter> from_bytes h0. padded (osize (sh_mem h0) a))
    \<and> unat (ss_hp (sh_semi h)) \<le> unat (to_base h0) + unat (rg_active_size (ss_to_space (sh_semi h0)))"
proof -
  note E = assms(1)
  obtain h C M where h: "semi_trace em resolve fuel h0 = Inr (ss_hp (sh_semi h), h)" "semi_inv em valid osize offs h0 h C M {}"
    by (rule gc_embedder.traced[OF E assms(2,3)])
  note k = gc_embedder.kept_small_large[OF E assms(2) h(2)]
  have "em_forwarded em (sh_mem h) a \<in> to_bytes h0" if a: "a \<in> semi_live em offs h0 \<inter> from_bytes h0" for a
  proof -
    have "a \<in> fst ` set C" using a k(1) by simp
    then obtain n where n: "(a, n) \<in> set C" by auto
    have "8 \<le> osize (sh_mem h0) a" using gc_embedder.live_facts(4)[OF E assms(2)] a by blast
    then have "n \<in> bytes_at n (osize (sh_mem h0) a)" by (simp add: bytes_at_def)
    then show ?thesis
      using gc_embedder.copy_in_to[OF E assms(2) h(2) n] gc_embedder.forwarded_copy[OF E assms(2) h(2) n] by auto
  qed
  moreover have "marked_addrs (sh_large h) = M" using semi_invD(5)[OF h(2)] by (simp add: marked_addrs_def)
  ultimately show ?thesis
    using h(1) k(2,3) gc_embedder.hp_bounds(1)[OF E assms(2) h(2)] by (intro exI[of _ h]) simp
qed

theorem semi_trace_keeps_reachable_witness:
  "\<exists>h. semi_trace node_embedder (\<lambda>_ h. h) 1 node_heap = Inr (ss_hp (sh_semi h), h) \<and> unat (ss_hp (sh_semi h)) = 8224
    \<and> em_forwarded node_embedder (sh_mem h) 4096 \<in> to_bytes node_heap"
proof -
  have a: "{4096} \<inter> from_bytes node_heap = {4096}" using node_facts(1) by simp
  show ?thesis
    using semi_trace_keeps_reachable[OF node_gc node_ready node_fuel, of "\<lambda>_ h. h"]
    unfolding node_live node_facts(2,3) a by (auto simp: node_shape padded_def)
qed

end
