(* ===== verification/SerialTracer.thy ===== *)
theory SerialTracer
  imports SimpleWorklist Roots
begin

text \<open>
  The serial tracer, \<open>src/src/serial-tracer.h\<close> behind the interface of \<open>src/src/tracer.h\<close>: a worklist
  of roots that is emptied first, and a worklist of grey objects that is traced until it is empty.
  What a collector supplies, \<open>trace_one\<close> and \<open>trace_root\<close>, are arguments: functions on the tracer,
  which they may only enqueue on, and on the heap, of a type left open. \<open>mem\<close> says which sizes the
  platform can map.
\<close>

section \<open>The tracer\<close>

record 'b gc_tracer =
  gt_trace_roots_only :: bool
  gt_roots :: "'b root_worklist"
  gt_worklist :: simple_worklist

type_synonym ('b, 'h, 'r) tracing = "'r \<Rightarrow> 'b gc_tracer \<times> 'h \<Rightarrow> ('b gc_tracer \<times> 'h) result"

definition gc_tracer_init :: "(u64 \<Rightarrow> bool) \<Rightarrow> u64 \<Rightarrow> 'b gc_tracer option" where
  "gc_tracer_init mem page_size =
    map_option (\<lambda>q. \<lparr> gt_trace_roots_only = False, gt_roots = root_worklist_init, gt_worklist = q \<rparr>)
      (simple_worklist_init mem page_size)"

definition gc_tracer_prepare :: "'b gc_tracer \<Rightarrow> 'b gc_tracer" where
  "gc_tracer_prepare tracer = tracer"

definition gc_tracer_release :: "'b gc_tracer \<Rightarrow> 'b gc_tracer" where
  "gc_tracer_release tracer = tracer\<lparr>gt_worklist := simple_worklist_release (gt_worklist tracer)\<rparr>"

definition gc_tracer_add_root :: "'b gc_tracer \<Rightarrow> 'b gc_root \<Rightarrow> 'b gc_tracer" where
  "gc_tracer_add_root tracer root = tracer\<lparr>gt_roots := root_worklist_push (gt_roots tracer) root\<rparr>"

definition gc_trace_worker_enqueue :: "(u64 \<Rightarrow> bool) \<Rightarrow> gc_ref \<Rightarrow> 'b gc_tracer \<Rightarrow> 'b gc_tracer result" where
  "gc_trace_worker_enqueue mem ref tracer =
    result_bind (simple_worklist_push mem (gt_worklist tracer) ref) (\<lambda>q. Inr (tracer\<lparr>gt_worklist := q\<rparr>))"

text \<open>Each loop takes one thing from its worklist and stops at none.\<close>

definition tracer_pop_root :: "'b gc_tracer \<times> 'h \<Rightarrow> 'b gc_root \<times> 'b gc_tracer \<times> 'h" where
  "tracer_pop_root st =
    (let (tracer, h) = st; (root, q) = root_worklist_pop (gt_roots tracer) in (root, tracer\<lparr>gt_roots := q\<rparr>, h))"

definition tracer_pop_object :: "'b gc_tracer \<times> 'h \<Rightarrow> gc_ref \<times> 'b gc_tracer \<times> 'h" where
  "tracer_pop_object st =
    (let (tracer, h) = st; (obj, q) = simple_worklist_pop (gt_worklist tracer) in (obj, tracer\<lparr>gt_worklist := q\<rparr>, h))"

definition tracer_trace_roots :: "('b, 'h, 'b gc_root) tracing \<Rightarrow> 'b gc_tracer \<times> 'h \<Rightarrow> ('b gc_tracer \<times> 'h) result" where
  "tracer_trace_roots trace_root st =
    result_bind
      (while_result (\<lambda>(root, _). root \<noteq> Root_none)
        (\<lambda>(root, st). result_bind (trace_root root st) (\<lambda>st. Inr (tracer_pop_root st))) (tracer_pop_root st))
      (\<lambda>(_, st). Inr st)"

definition tracer_trace_objects :: "('b, 'h, gc_ref) tracing \<Rightarrow> 'b gc_tracer \<times> 'h \<Rightarrow> ('b gc_tracer \<times> 'h) result" where
  "tracer_trace_objects trace_one st =
    result_bind
      (while_result (\<lambda>(obj, _). \<not> gc_ref_is_null obj)
        (\<lambda>(obj, st). result_bind (trace_one obj st) (\<lambda>st. Inr (tracer_pop_object st))) (tracer_pop_object st))
      (\<lambda>(_, st). Inr st)"

definition tracer_trace_with_data ::
    "('b, 'h, gc_ref) tracing \<Rightarrow> ('b, 'h, 'b gc_root) tracing \<Rightarrow> 'b gc_tracer \<times> 'h \<Rightarrow> ('b gc_tracer \<times> 'h) result" where
  "tracer_trace_with_data trace_one trace_root st =
    result_bind (tracer_trace_roots trace_root st) (\<lambda>(tracer, h).
    let tracer = tracer\<lparr>gt_roots := root_worklist_reset (gt_roots tracer)\<rparr>
    in if \<not> gt_trace_roots_only tracer then tracer_trace_objects trace_one (tracer, h) else Inr (tracer, h))"

definition gc_tracer_trace ::
    "('b, 'h, gc_ref) tracing \<Rightarrow> ('b, 'h, 'b gc_root) tracing \<Rightarrow> 'b gc_tracer \<times> 'h \<Rightarrow> ('b gc_tracer \<times> 'h) result" where
  "gc_tracer_trace trace_one trace_root st = tracer_trace_with_data trace_one trace_root st"

definition gc_tracer_trace_roots ::
    "('b, 'h, gc_ref) tracing \<Rightarrow> ('b, 'h, 'b gc_root) tracing \<Rightarrow> 'b gc_tracer \<times> 'h \<Rightarrow> ('b gc_tracer \<times> 'h) result" where
  "gc_tracer_trace_roots trace_one trace_root st =
    (let (tracer, h) = st
     in result_bind (gc_tracer_trace trace_one trace_root (tracer\<lparr>gt_trace_roots_only := True\<rparr>, h)) (\<lambda>(tracer, h).
          Inr (tracer\<lparr>gt_trace_roots_only := False\<rparr>, h)))"

section \<open>Visiting a graph\<close>

text \<open>
  A collector visits an object by marking the objects its edges lead to and enqueueing those that it
  has just marked. \<open>edges\<close> is the graph, \<open>marked\<close> reads the marks of a heap.
\<close>

definition marks_and_enqueues ::
    "('r \<Rightarrow> gc_ref set) \<Rightarrow> ('h \<Rightarrow> gc_ref set) \<Rightarrow> ('b, 'h, 'r) tracing \<Rightarrow> bool" where
  "marks_and_enqueues edges marked trace \<longleftrightarrow> (\<forall>r t h. \<exists>rs h'. distinct rs \<and> set rs = edges r - marked h
    \<and> marked h' = marked h \<union> edges r
    \<and> trace r (t, h) = result_bind (result_fold (gc_trace_worker_enqueue (\<lambda>_. True)) rs t) (\<lambda>t. Inr (t, h')))"

inductive_set reached :: "(gc_ref \<Rightarrow> gc_ref set) \<Rightarrow> gc_ref set \<Rightarrow> gc_ref set"
  for edges start where
  reached_start: "a \<in> start \<Longrightarrow> a \<in> reached edges start"
| reached_edge: "a \<in> reached edges start \<Longrightarrow> b \<in> edges a \<Longrightarrow> b \<in> reached edges start"

lemma reached_least:
  assumes "start \<subseteq> A" "\<And>a. a \<in> A \<Longrightarrow> edges a \<subseteq> A"
  shows "reached edges start \<subseteq> A"
proof
  fix a assume "a \<in> reached edges start"
  then show "a \<in> A" by induction (use assms in blast)+
qed

lemma enqueue_wl_wf:
  assumes wf: "wl_wf q" and room: "unat (wl_write q) + 1 < 2 ^ 60"
  shows "\<exists>q'. simple_worklist_push (\<lambda>_. True) q x = Inr q' \<and> wl_wf q' \<and> wl_abs q' = wl_abs q @ [x]
    \<and> unat (wl_write q') = unat (wl_write q) + 1"
proof -
  have "simple_worklist_push (\<lambda>_. True) q x \<noteq> Inl Crash"
  proof
    assume crash: "simple_worklist_push (\<lambda>_. True) q x = Inl Crash"
    then have full: "wl_write q - wl_read q = wl_size q" "simple_worklist_grow (\<lambda>_. True) q = None"
      by (auto simp: simple_worklist_push_def split: if_splits option.splits)
    then have "unat (wl_size q) \<le> unat (wl_write q)" using full_iff[OF wf] by simp
    moreover have "unat simple_worklist_max_size = 2 ^ 60" by (simp add: simple_worklist_max_size_def)
    ultimately have "\<not> simple_worklist_max_size \<le> wl_size q" using room by (simp add: word_le_nat_alt)
    then show False using full(2) by (simp add: simple_worklist_grow_def simple_worklist_alloc_def Let_def)
  qed
  then obtain q' where q': "simple_worklist_push (\<lambda>_. True) q x = Inr q'" "wl_wf q'" "wl_abs q' = wl_abs q @ [x]"
    using push_wf[OF wf, of 0 "\<lambda>_. True" x] room by (auto simp: wl_room_def)
  have "wl_write q' = wl_write q + 1"
    using q'(1) grow_wf[OF wf] by (auto simp: simple_worklist_push_def simple_worklist_put_def split: if_splits option.splits)
  then have "unat (wl_write q') = unat (wl_write q) + 1" using room by (simp add: unat_word_ariths)
  then show ?thesis using q' by blast
qed

lemma enqueue_all:
  assumes "wl_wf (gt_worklist t)" "unat (wl_write (gt_worklist t)) + length rs < 2 ^ 60"
  shows "\<exists>q'. result_fold (gc_trace_worker_enqueue (\<lambda>_. True)) rs t = Inr (t\<lparr>gt_worklist := q'\<rparr>) \<and> wl_wf q'
    \<and> wl_abs q' = wl_abs (gt_worklist t) @ rs \<and> unat (wl_write q') = unat (wl_write (gt_worklist t)) + length rs"
  using assms
proof (induction rs arbitrary: t)
  case Nil
  then show ?case by (intro exI[of _ "gt_worklist t"]) simp
next
  case (Cons r rs)
  obtain q where q: "simple_worklist_push (\<lambda>_. True) (gt_worklist t) r = Inr q" "wl_wf q"
    "wl_abs q = wl_abs (gt_worklist t) @ [r]" "unat (wl_write q) = unat (wl_write (gt_worklist t)) + 1"
    using enqueue_wl_wf[OF Cons.prems(1), of r] Cons.prems(2) by auto
  then show ?case
    using Cons.IH[of "t\<lparr>gt_worklist := q\<rparr>"] Cons.prems(2) by (auto simp: gc_trace_worker_enqueue_def)
qed

section \<open>The trace reaches what is reachable\<close>

text \<open>\<open>V\<close> are the objects that were taken from the worklist; \<open>R\<close> bounds what may be marked.\<close>

definition grey_inv :: "('h \<Rightarrow> gc_ref set) \<Rightarrow> gc_ref set \<Rightarrow> gc_ref set \<Rightarrow> 'b gc_tracer \<Rightarrow> 'h \<Rightarrow> bool" where
  "grey_inv marked R V t h \<longleftrightarrow> wl_wf (gt_worklist t) \<and> distinct (wl_abs (gt_worklist t))
    \<and> marked h = V \<union> set (wl_abs (gt_worklist t)) \<and> V \<inter> set (wl_abs (gt_worklist t)) = {} \<and> marked h \<subseteq> R
    \<and> unat (wl_write (gt_worklist t)) + card (R - marked h) < 2 ^ 60"

lemma grey_inv_bound:
  "grey_inv marked R V t h \<Longrightarrow> marked h \<subseteq> R"
  "grey_inv marked R V t h \<Longrightarrow> unat (wl_write (gt_worklist t)) + card (R - marked h) < 2 ^ 60"
  unfolding grey_inv_def by (elim conjE, assumption)+

lemma grey_inv_cong:
  "gt_worklist t' = gt_worklist t \<Longrightarrow> grey_inv marked R V t' h \<longleftrightarrow> grey_inv marked R V t h"
  by (simp only: grey_inv_def)

lemma grey_inv_roots: "grey_inv marked R V (t\<lparr>gt_roots := q\<rparr>) h \<longleftrightarrow> grey_inv marked R V t h"
  by (rule grey_inv_cong) simp

lemma visit_step:
  assumes tr: "marks_and_enqueues edges marked trace" and inv: "grey_inv marked R V t h" and e: "edges r \<subseteq> R"
  shows "\<exists>q h'. trace r (t, h) = Inr (t\<lparr>gt_worklist := q\<rparr>, h') \<and> grey_inv marked R V (t\<lparr>gt_worklist := q\<rparr>) h'
    \<and> marked h' = marked h \<union> edges r"
proof -
  obtain rs h' where rs: "distinct rs" "set rs = edges r - marked h" "marked h' = marked h \<union> edges r"
    "trace r (t, h) = result_bind (result_fold (gc_trace_worker_enqueue (\<lambda>_. True)) rs t) (\<lambda>t. Inr (t, h'))"
    using tr unfolding marks_and_enqueues_def by blast
  have "R - marked h' \<subseteq> R - marked h" "(R - marked h) - (R - marked h') = set rs" using rs(2,3) e by auto
  then have "length rs + card (R - marked h') = card (R - marked h)"
    using rs(1) distinct_card[of rs] card_Diff_subset[of "R - marked h'" "R - marked h"]
      card_mono[of "R - marked h" "R - marked h'"] by simp
  then have n: "unat (wl_write (gt_worklist t)) + length rs + card (R - marked h') < 2 ^ 60"
    using inv unfolding grey_inv_def by linarith
  then obtain q where q: "result_fold (gc_trace_worker_enqueue (\<lambda>_. True)) rs t = Inr (t\<lparr>gt_worklist := q\<rparr>)" "wl_wf q"
    "wl_abs q = wl_abs (gt_worklist t) @ rs" "unat (wl_write q) = unat (wl_write (gt_worklist t)) + length rs"
    using enqueue_all[of t rs] inv unfolding grey_inv_def by auto
  have "grey_inv marked R V (t\<lparr>gt_worklist := q\<rparr>) h'"
    using inv e n rs(1-3) q(2-4) unfolding grey_inv_def by auto
  then show ?thesis using rs(3,4) q(1) by (intro exI[of _ q] exI[of _ h']) simp
qed

lemma pop_object:
  assumes inv: "grey_inv marked R V t h" and R: "0 \<notin> R"
  shows "\<exists>x q. tracer_pop_object (t, h) = (x, t\<lparr>gt_worklist := q\<rparr>, h) \<and>
    (if x = 0 then grey_inv marked R V (t\<lparr>gt_worklist := q\<rparr>) h \<and> wl_abs q = [] \<and> marked h = V
     else grey_inv marked R (insert x V) (t\<lparr>gt_worklist := q\<rparr>) h \<and> x \<notin> V \<and> x \<in> R)"
proof -
  let ?q = "gt_worklist t"
  obtain x q where p: "simple_worklist_pop ?q = (x, q)" by (cases "simple_worklist_pop ?q")
  have wf: "wl_wf ?q" using inv by (simp add: grey_inv_def)
  note a = wl.pop_abs[OF wf p]
  have w: "wl_write q = wl_write ?q" using p by (auto simp: simple_worklist_pop_def split: if_splits)
  have "tracer_pop_object (t, h) = (x, t\<lparr>gt_worklist := q\<rparr>, h)" using p by (simp add: tracer_pop_object_def Let_def)
  moreover have "if x = 0 then grey_inv marked R V (t\<lparr>gt_worklist := q\<rparr>) h \<and> wl_abs q = [] \<and> marked h = V
     else grey_inv marked R (insert x V) (t\<lparr>gt_worklist := q\<rparr>) h \<and> x \<notin> V \<and> x \<in> R"
  proof (cases "wl_abs ?q")
    case Nil
    then have "x = 0" "wl_abs q = []" "wl_wf q" "marked h = V" using inv a by (simp_all add: grey_inv_def gc_ref_null_def)
    moreover have "unat (wl_write q) + card (R - marked h) < 2 ^ 60" "marked h \<subseteq> R"
      using grey_inv_bound[OF inv] w by simp_all
    ultimately show ?thesis unfolding grey_inv_def by simp
  next
    case (Cons y ys)
    then have "x = y" "wl_abs q = ys" using a by simp_all
    moreover have "y \<in> R" using inv Cons by (auto simp: grey_inv_def)
    moreover have "y \<noteq> 0" using \<open>y \<in> R\<close> R by blast
    moreover have "wl_wf q" "distinct ys" "y \<notin> set ys" "marked h = insert y V \<union> set ys" "y \<notin> V" "V \<inter> set ys = {}"
      using inv Cons a(1) by (auto simp: grey_inv_def)
    moreover have "unat (wl_write q) + card (R - marked h) < 2 ^ 60" "marked h \<subseteq> R"
      using grey_inv_bound[OF inv] w by simp_all
    ultimately show ?thesis unfolding grey_inv_def by (simp only: gc_tracer.simps if_False) (intro conjI; (assumption | simp))
  qed
  ultimately show ?thesis by blast
qed

lemma trace_objects:
  assumes tr: "marks_and_enqueues edges marked trace_one" and R: "0 \<notin> R" "\<And>r. r \<in> R \<Longrightarrow> edges r \<subseteq> R"
    and inv: "grey_inv marked R {} t h"
  shows "\<exists>q h'. tracer_trace_objects trace_one (t, h) = Inr (t\<lparr>gt_worklist := q\<rparr>, h') \<and> wl_wf q \<and> wl_abs q = []
    \<and> marked h \<subseteq> marked h' \<and> marked h' \<subseteq> R \<and> (\<forall>v \<in> marked h'. edges v \<subseteq> marked h')"
proof -
  define P where "P = (\<lambda>(obj, _ :: 'b gc_tracer \<times> 'a). \<not> gc_ref_is_null obj)"
  define f where "f = (\<lambda>(obj, st). result_bind (trace_one obj st) (\<lambda>st. Inr (tracer_pop_object st)))"
  have loop: "\<exists>q h'. while_result P f (tracer_pop_object (t, h)) = Inr (0, t\<lparr>gt_worklist := q\<rparr>, h') \<and> wl_wf q \<and> wl_abs q = []
      \<and> marked h \<subseteq> marked h' \<and> marked h' \<subseteq> R \<and> (\<forall>v \<in> marked h'. edges v \<subseteq> marked h')"
    if "grey_inv marked R V t h" "\<forall>v \<in> V. edges v \<subseteq> marked h" "V \<subseteq> R" for V t h
    using that
  proof (induction "card (R - V)" arbitrary: V t h rule: less_induct)
    case less
    obtain x q where x: "tracer_pop_object (t, h) = (x, t\<lparr>gt_worklist := q\<rparr>, h)"
      "if x = 0 then grey_inv marked R V (t\<lparr>gt_worklist := q\<rparr>) h \<and> wl_abs q = [] \<and> marked h = V
       else grey_inv marked R (insert x V) (t\<lparr>gt_worklist := q\<rparr>) h \<and> x \<notin> V \<and> x \<in> R"
      using pop_object[OF less.prems(1) R(1)] by blast
    show ?case
    proof (cases "x = 0")
      case True
      then show ?thesis using x less.prems(2,3)
        by (intro exI[of _ q] exI[of _ h])
          (simp add: while_result_unfold[of P f "(0, _)"], simp add: P_def gc_ref_is_null_def grey_inv_def)
    next
      case False
      then have x': "grey_inv marked R (insert x V) (t\<lparr>gt_worklist := q\<rparr>) h" "x \<notin> V" "x \<in> R" using x(2) by simp_all
      obtain q1 h1 where s: "trace_one x (t\<lparr>gt_worklist := q\<rparr>, h) = Inr (t\<lparr>gt_worklist := q1\<rparr>, h1)"
        "grey_inv marked R (insert x V) (t\<lparr>gt_worklist := q1\<rparr>) h1" "marked h1 = marked h \<union> edges x"
        using visit_step[OF tr x'(1) R(2)[OF x'(3)]] by auto
      have "R - insert x V \<subset> R - V" using x'(2,3) by blast
      then have "card (R - insert x V) < card (R - V)" by (intro psubset_card_mono) simp_all
      moreover have "\<forall>v \<in> insert x V. edges v \<subseteq> marked h1" "insert x V \<subseteq> R" using s(3) less.prems(2,3) x'(3) by auto
      ultimately obtain q2 h2 where
        "while_result P f (tracer_pop_object (t\<lparr>gt_worklist := q1\<rparr>, h1)) = Inr (0, t\<lparr>gt_worklist := q2\<rparr>, h2)"
        "wl_wf q2" "wl_abs q2 = []" "marked h1 \<subseteq> marked h2" "marked h2 \<subseteq> R" "\<forall>v \<in> marked h2. edges v \<subseteq> marked h2"
        using less.hyps[of "insert x V" "t\<lparr>gt_worklist := q1\<rparr>" h1] s(2) by auto
      moreover have "while_result P f (tracer_pop_object (t, h)) = while_result P f (tracer_pop_object (t\<lparr>gt_worklist := q1\<rparr>, h1))"
      proof -
        have "P (x, t\<lparr>gt_worklist := q\<rparr>, h)" using False by (simp add: P_def gc_ref_is_null_def)
        then have "while_result P f (x, t\<lparr>gt_worklist := q\<rparr>, h)
            = result_bind (f (x, t\<lparr>gt_worklist := q\<rparr>, h)) (while_result P f)" by (simp add: while_result_unfold[of P f "(x, _)"])
        then show ?thesis using s(1) by (simp add: x(1) f_def)
      qed
      ultimately show ?thesis using s(3) by auto
    qed
  qed
  from loop[OF inv] show ?thesis
    unfolding tracer_trace_objects_def P_def[symmetric] f_def[symmetric] by auto
qed

lemma tracer_trace_all_roots:
  assumes tr: "marks_and_enqueues targets marked trace_root" and none: "Root_none \<notin> set (rw_roots (gt_roots t))"
    and R: "\<And>r. r \<in> set (rw_roots (gt_roots t)) \<Longrightarrow> targets r \<subseteq> R"
    and rw: "rw_wf (gt_roots t)" "rw_read (gt_roots t) \<le> length (rw_roots (gt_roots t))" and inv: "grey_inv marked R {} t h"
  shows "\<exists>rq q h'. tracer_trace_roots trace_root (t, h) = Inr (t\<lparr>gt_roots := rq, gt_worklist := q\<rparr>, h') \<and> rw_wf rq
    \<and> grey_inv marked R {} (t\<lparr>gt_roots := rq, gt_worklist := q\<rparr>) h'
    \<and> marked h' = marked h \<union> (\<Union>r \<in> set (drop (rw_read (gt_roots t)) (rw_roots (gt_roots t))). targets r)"
proof -
  define P where "P = (\<lambda>(root :: 'a gc_root, _ :: 'a gc_tracer \<times> 'b). root \<noteq> Root_none)"
  define f where "f = (\<lambda>(root, st). result_bind (trace_root root st) (\<lambda>st. Inr (tracer_pop_root st)))"
  have loop: "\<exists>rq q h'. while_result P f (tracer_pop_root (t, h)) = Inr (Root_none, t\<lparr>gt_roots := rq, gt_worklist := q\<rparr>, h') \<and> rw_wf rq
      \<and> grey_inv marked R {} (t\<lparr>gt_roots := rq, gt_worklist := q\<rparr>) h' \<and> marked h' = marked h \<union> (\<Union>r \<in> set rs. targets r)"
    if "rs = drop (rw_read (gt_roots t)) (rw_roots (gt_roots t))" "Root_none \<notin> set rs" "\<forall>r \<in> set rs. targets r \<subseteq> R"
      "rw_wf (gt_roots t)" "rw_read (gt_roots t) \<le> length (rw_roots (gt_roots t))" "grey_inv marked R {} t h" for rs t h
    using that
  proof (induction rs arbitrary: t h)
    case Nil
    let ?q = "(gt_roots t)\<lparr>rw_read := rw_read (gt_roots t) + 1\<rparr>"
    have "length (rw_roots (gt_roots t)) = rw_write (gt_roots t)" using Nil.prems(4) by (simp add: rw_roots_def rw_wf_def)
    then have "\<not> rw_read (gt_roots t) < rw_write (gt_roots t)" using Nil.prems(1) by simp
    then have "tracer_pop_root (t, h) = (Root_none, t\<lparr>gt_roots := ?q\<rparr>, h)"
      by (simp add: tracer_pop_root_def root_worklist_pop_def Let_def)
    moreover have "grey_inv marked R {} (t\<lparr>gt_roots := ?q\<rparr>) h" using Nil.prems(6) by (simp add: grey_inv_roots)
    moreover have "rw_wf ?q" using Nil.prems(4) by (simp add: rw_wf_def)
    moreover have "while_result P f (Root_none, t\<lparr>gt_roots := ?q\<rparr>, h) = Inr (Root_none, t\<lparr>gt_roots := ?q\<rparr>, h)"
      by (subst while_result_unfold) (simp add: P_def)
    ultimately show ?case by (intro exI[of _ ?q] exI[of _ "gt_worklist t"] exI[of _ h]) simp
  next
    case (Cons r rs)
    let ?q = "(gt_roots t)\<lparr>rw_read := rw_read (gt_roots t) + 1\<rparr>"
    have len: "length (rw_roots (gt_roots t)) = rw_write (gt_roots t)" using Cons.prems(4) by (simp add: rw_roots_def rw_wf_def)
    have less: "rw_read (gt_roots t) < rw_write (gt_roots t)" using Cons.prems(1) len
      by (metis drop_all le_less_linear list.distinct(1))
    have nth: "rw_buf (gt_roots t) ! rw_read (gt_roots t) = r"
      using Cons.prems(1) less len by (metis Cons_nth_drop_Suc list.sel(1) nth_take rw_roots_def)
    have pop: "tracer_pop_root (t, h) = (r, t\<lparr>gt_roots := ?q\<rparr>, h)"
      using less nth by (simp add: tracer_pop_root_def root_worklist_pop_def Let_def)
    have rn: "r \<noteq> Root_none" "targets r \<subseteq> R" using Cons.prems(2,3) by auto
    have g: "grey_inv marked R {} (t\<lparr>gt_roots := ?q\<rparr>) h" using Cons.prems(6) by (simp add: grey_inv_roots)
    obtain q1 h1 where s: "trace_root r (t\<lparr>gt_roots := ?q\<rparr>, h) = Inr (t\<lparr>gt_roots := ?q, gt_worklist := q1\<rparr>, h1)"
      "grey_inv marked R {} (t\<lparr>gt_roots := ?q, gt_worklist := q1\<rparr>) h1" "marked h1 = marked h \<union> targets r"
      using visit_step[OF tr g rn(2)] by auto
    let ?t = "t\<lparr>gt_roots := ?q, gt_worklist := q1\<rparr>"
    have "rs = drop (rw_read (gt_roots ?t)) (rw_roots (gt_roots ?t))"
      using Cons.prems(1) less len by (simp add: rw_roots_def drop_Suc) (metis drop_Suc drop_tl list.sel(3) tl_drop)
    moreover have "rw_wf (gt_roots ?t)" "rw_read (gt_roots ?t) \<le> length (rw_roots (gt_roots ?t))"
      using Cons.prems(4) less len by (simp_all add: rw_wf_def rw_roots_def)
    ultimately obtain rq q2 h2 where
      "while_result P f (tracer_pop_root (?t, h1)) = Inr (Root_none, ?t\<lparr>gt_roots := rq, gt_worklist := q2\<rparr>, h2)" "rw_wf rq"
      "grey_inv marked R {} (?t\<lparr>gt_roots := rq, gt_worklist := q2\<rparr>) h2" "marked h2 = marked h1 \<union> (\<Union>r \<in> set rs. targets r)"
      using Cons.IH[of ?t h1] Cons.prems(2,3) s(2) by auto
    moreover have "while_result P f (tracer_pop_root (t, h)) = while_result P f (tracer_pop_root (?t, h1))"
    proof -
      have "P (r, t\<lparr>gt_roots := ?q\<rparr>, h)" using rn(1) by (simp add: P_def)
      then have "while_result P f (r, t\<lparr>gt_roots := ?q\<rparr>, h)
          = result_bind (f (r, t\<lparr>gt_roots := ?q\<rparr>, h)) (while_result P f)" by (simp add: while_result_unfold[of P f "(r, _)"])
      then show ?thesis using s(1) by (simp add: pop f_def)
    qed
    ultimately show ?case using s(3) by (intro exI[of _ rq] exI[of _ q2] exI[of _ h2]) auto
  qed
  have "set (drop (rw_read (gt_roots t)) (rw_roots (gt_roots t))) \<subseteq> set (rw_roots (gt_roots t))" by (rule set_drop_subset)
  then show ?thesis
    using loop[OF refl _ _ rw inv] none R unfolding tracer_trace_roots_def P_def[symmetric] f_def[symmetric] by fastforce
qed

text \<open>C13: A serial trace returns with everything marked that is reachable from its roots and nothing
  else, with no object left on the worklist and no root left to trace, given a collector that marks and
  enqueues what an object or a root leads to.\<close>

theorem serial_trace_marks_reachable:
  assumes "marks_and_enqueues edges marked trace_one" "marks_and_enqueues targets marked trace_root"
    and "\<forall>r. 0 \<notin> edges r" "\<forall>r. 0 \<notin> targets r" "marked h = {}" "\<not> gt_trace_roots_only t"
    and "rw_wf (gt_roots t)" "rw_read (gt_roots t) = 0" "Root_none \<notin> set (rw_roots (gt_roots t))"
    and "wl_wf (gt_worklist t)" "wl_abs (gt_worklist t) = []"
    and "unat (wl_write (gt_worklist t)) + card (reached edges (\<Union>r \<in> set (rw_roots (gt_roots t)). targets r)) < 2 ^ 60"
  shows "\<exists>t' h'. gc_tracer_trace trace_one trace_root (t, h) = Inr (t', h')
    \<and> marked h' = reached edges (\<Union>r \<in> set (rw_roots (gt_roots t)). targets r)
    \<and> wl_abs (gt_worklist t') = [] \<and> rw_roots (gt_roots t') = []"
proof -
  define start where "start = (\<Union>r \<in> set (rw_roots (gt_roots t)). targets r)"
  define R where "R = reached edges start"
  have R: "start \<subseteq> R" "\<And>r. r \<in> R \<Longrightarrow> edges r \<subseteq> R" unfolding R_def by (auto intro: reached_start reached_edge)
  have "R \<subseteq> - {0}" unfolding R_def by (rule reached_least) (use assms(3,4) in \<open>auto simp: start_def\<close>)
  then have R0: "0 \<notin> R" by blast
  have "grey_inv marked R {} t h" using assms(5,10-12) by (simp add: grey_inv_def R_def start_def)
  then obtain rq q h1 where 1: "tracer_trace_roots trace_root (t, h) = Inr (t\<lparr>gt_roots := rq, gt_worklist := q\<rparr>, h1)" "rw_wf rq"
    "grey_inv marked R {} (t\<lparr>gt_roots := rq, gt_worklist := q\<rparr>) h1" "marked h1 = start"
    using tracer_trace_all_roots[OF assms(2,9) _ assms(7), where R = R and h = h] R(1) assms(5,8) unfolding start_def by (fastforce simp: UN_subset_iff)
  let ?rq = "root_worklist_reset rq"
  let ?t = "t\<lparr>gt_worklist := q, gt_roots := ?rq\<rparr>"
  have "grey_inv marked R {} ?t h1" 
    by (rule grey_inv_cong[THEN iffD1, OF _ 1(3)]) simp
  then obtain q2 h2 where 2: "tracer_trace_objects trace_one (?t, h1) = Inr (?t\<lparr>gt_worklist := q2\<rparr>, h2)" "wl_abs q2 = []"
    "marked h1 \<subseteq> marked h2" "marked h2 \<subseteq> R" "\<forall>v \<in> marked h2. edges v \<subseteq> marked h2"
    using trace_objects[OF assms(1) R0 R(2)] by blast
  have "R \<subseteq> marked h2" unfolding R_def by (rule reached_least) (use 1(4) 2(3,5) in auto)
  then have "marked h2 = R" using 2(4) by blast
  moreover have "gc_tracer_trace trace_one trace_root (t, h) = Inr (?t\<lparr>gt_worklist := q2\<rparr>, h2)"
    using 1(1) 2(1) assms(6) by (simp add: gc_tracer_trace_def tracer_trace_with_data_def Let_def)
  moreover have "rw_roots ?rq = []" by (rule root_worklist_reset_wf(2)[OF 1(2)])
  ultimately show ?thesis using 2(2) unfolding R_def start_def by (intro exI[of _ "?t\<lparr>gt_worklist := q2\<rparr>"] exI[of _ h2]) simp
qed

text \<open>A heap of three objects, of which the roots reach two.\<close>

definition example_succs :: "gc_ref \<Rightarrow> gc_ref list" where
  "example_succs r = (if r = 8 then [16, 8] else if r = 24 then [8] else [])"

definition example_targets :: "unit gc_root \<Rightarrow> gc_ref list" where
  "example_targets root = (case root of Root_edge e \<Rightarrow> if e = 0 then [] else [e] | _ \<Rightarrow> [])"

definition example_trace :: "('r \<Rightarrow> gc_ref list) \<Rightarrow> (unit, gc_ref set, 'r) tracing" where
  "example_trace succs r st =
    (let (t, h) = st in result_bind (result_fold (gc_trace_worker_enqueue (\<lambda>_. True)) [s \<leftarrow> succs r. s \<notin> h] t)
      (\<lambda>t. Inr (t, h \<union> set (succs r))))"

lemma example_trace_marks:
  assumes "\<And>r. distinct (succs r)"
  shows "marks_and_enqueues (\<lambda>r. set (succs r)) id (example_trace succs)"
  unfolding marks_and_enqueues_def
proof (intro allI exI conjI)
  fix r :: 'a and h :: "gc_ref set"
  show "distinct [s \<leftarrow> succs r. s \<notin> h]" using assms by simp
  show "set [s \<leftarrow> succs r. s \<notin> h] = set (succs r) - id h" by auto
  show "id (h \<union> set (succs r)) = id h \<union> set (succs r)" by simp
qed (simp add: example_trace_def)

theorem serial_trace_marks_reachable_witness:
  "\<exists>t t' h'. gc_tracer_init (\<lambda>_. True) 4096 = Some t
    \<and> gc_tracer_trace (example_trace example_succs) (example_trace example_targets) (gc_tracer_add_root t (Root_edge 8), {}) = Inr (t', h')
    \<and> h' = reached (\<lambda>r. set (example_succs r)) {8} \<and> wl_abs (gt_worklist t') = []"
proof -
  obtain q where q: "simple_worklist_init (\<lambda>_. True) 4096 = Some q" "wl_wf q" "wl_abs q = []" "wl_write q = 0"
    using wl_page by blast
  define t :: "unit gc_tracer" where "t = \<lparr> gt_trace_roots_only = False, gt_roots = root_worklist_init, gt_worklist = q \<rparr>"
  let ?t = "gc_tracer_add_root t (Root_edge 8)"
  note rw = root_worklist_push_wf[OF root_worklist_init_wf(1), of "Root_edge 8 :: unit gc_root"]
  have f: "gt_roots ?t = root_worklist_push root_worklist_init (Root_edge 8)" "gt_worklist ?t = q" "\<not> gt_trace_roots_only ?t"
    by (simp_all add: gc_tracer_add_root_def t_def)
  have roots: "rw_roots (gt_roots ?t) = [Root_edge 8]" using rw(2) f(1) root_worklist_init_wf(2) by simp
  have start: "(\<Union>r \<in> set (rw_roots (gt_roots ?t)). set (example_targets r)) = {8}" unfolding roots by (simp add: example_targets_def)
  have "reached (\<lambda>r. set (example_succs r)) {8} \<subseteq> {8, 16}" by (rule reached_least) (auto simp: example_succs_def)
  then have "card (reached (\<lambda>r. set (example_succs r)) {8}) \<le> card {8, 16 :: gc_ref}" by (rule card_mono[rotated]) simp
  then have c: "unat (wl_write (gt_worklist ?t)) + card (reached (\<lambda>r. set (example_succs r))
      (\<Union>r \<in> set (rw_roots (gt_roots ?t)). set (example_targets r))) < 2 ^ 60"
    unfolding start f(2) using q(4) by simp
  have "\<exists>t' h'. gc_tracer_trace (example_trace example_succs) (example_trace example_targets) (?t, {}) = Inr (t', h')
    \<and> id h' = reached (\<lambda>r. set (example_succs r)) (\<Union>r \<in> set (rw_roots (gt_roots ?t)). set (example_targets r))
    \<and> wl_abs (gt_worklist t') = [] \<and> rw_roots (gt_roots t') = []"
  proof (rule serial_trace_marks_reachable[OF example_trace_marks example_trace_marks _ _ _ f(3) _ _ _ _ _ c])
    show "distinct (example_succs r)" for r by (simp add: example_succs_def)
    show "distinct (example_targets r)" for r by (simp add: example_targets_def split: gc_root.split)
    show "\<forall>r. 0 \<notin> set (example_succs r)" by (simp add: example_succs_def)
    show "\<forall>r. 0 \<notin> set (example_targets r)" by (simp add: example_targets_def split: gc_root.split)
  qed (use rw roots root_worklist_init_wf(3) q f in simp_all)
  moreover have "gc_tracer_init (\<lambda>_. True) 4096 = Some t" using q(1) by (simp add: gc_tracer_init_def t_def)
  ultimately show ?thesis unfolding start by auto
qed

end
