(* ===== verification/ParallelTracer.thy ===== *)
theory ParallelTracer
  imports SharedWorklist SerialTracer
begin

text \<open>
  The parallel tracer, \<open>src/src/parallel-tracer.h\<close>: worker 0 is the thread that collects, the others are
  helpers that sleep on a condition variable between traces. Each worker has a deque of grey objects
  that the others steal from; here a deque is the list it refines to (\<open>deque_spec\<close> of
  \<open>SharedWorklist\<close>), each of its operations being one step, as is each access to shared data. A worker
  is where its program counter says. The graph and the marks stand for the collector: visiting an edge
  marks what it leads to, in one atomic step, and enqueues that if it was not marked before.

  A helper holds its own mutex but for the time it waits on the condition variable, so that worker 0
  knows that a helper is asleep when it holds the helper's mutex; waking up can be spurious.
\<close>

section \<open>State\<close>

definition TRACE_WORKERS_MAX_COUNT :: nat where "TRACE_WORKERS_MAX_COUNT = 8"

text \<open>\<open>Worker_Edges es of_root\<close>: the edges \<open>es\<close> of a root, or of an object, are still to be visited.\<close>

datatype worker_pc = Worker_Start nat | Worker_Waiting | Worker_Check | Worker_Enter | Worker_Root
  | Worker_Edges "gc_ref list" bool | Worker_Push gc_ref "gc_ref list" bool | Worker_Traced | Worker_Maybe_Unpark
  | Worker_Pop | Worker_Trace gc_ref | Worker_Steal nat | Worker_Continue | Worker_Try_Lock nat | Worker_Can_Steal nat
  | Worker_Unlock nat | Worker_Lock_All nat | Worker_Exit | Worker_Park | Worker_Done

record trace_worker =
  tw_steal_id :: nat
  tw_epoch :: nat
  tw_count :: nat
  tw_deque :: "gc_ref list"
  tw_pc :: worker_pc

text \<open>\<open>pt_marked\<close> are the marks of the heap, and \<open>pt_traced\<close> the objects taken from a deque, last first.\<close>

record 'b parallel_tracer =
  pt_active_tracers :: nat
  pt_worker_count :: nat
  pt_epoch :: nat
  pt_trace_roots_only :: bool
  pt_roots :: "'b gc_root list"
  pt_workers :: "nat \<Rightarrow> trace_worker"
  pt_locks :: "nat \<Rightarrow> nat option"
  pt_marked :: "gc_ref set"
  pt_traced :: "gc_ref list"

section \<open>Setting up\<close>

text \<open>\<open>ok i\<close> says whether worker \<open>i\<close> could be made; a helper sleeps, its mutex in the hands of worker 0.\<close>

definition trace_worker_init :: "trace_worker" where
  "trace_worker_init = \<lparr> tw_steal_id = 0, tw_epoch = 0, tw_count = 0, tw_deque = [], tw_pc = Worker_Waiting \<rparr>"

definition parallel_tracer_init :: "(nat \<Rightarrow> bool) \<Rightarrow> nat \<Rightarrow> 'b parallel_tracer option result" where
  "parallel_tracer_init ok parallelism =
    result_bind (gc_assert (parallelism \<noteq> 0)) (\<lambda>_.
    let desired_worker_count = min parallelism TRACE_WORKERS_MAX_COUNT;
        worker_count = length (takeWhile ok [0..<desired_worker_count])
    in if worker_count = 0 then Inr None
       else Inr (Some \<lparr> pt_active_tracers = 0, pt_worker_count = worker_count, pt_epoch = 0, pt_trace_roots_only = False,
         pt_roots = [], pt_workers = (\<lambda>_. trace_worker_init)(0 := trace_worker_init\<lparr>tw_pc := Worker_Done\<rparr>),
         pt_locks = (\<lambda>i. if 0 < i \<and> i < worker_count then Some 0 else None), pt_marked = {}, pt_traced = [] \<rparr>))"

definition parallel_tracer_prepare :: "'b parallel_tracer \<Rightarrow> 'b parallel_tracer" where
  "parallel_tracer_prepare s =
    s\<lparr>pt_workers := (\<lambda>i. if i < pt_worker_count s
      then (pt_workers s i)\<lparr>tw_steal_id := (i + 1) mod pt_worker_count s\<rparr> else pt_workers s i)\<rparr>"

definition parallel_tracer_add_root :: "'b parallel_tracer \<Rightarrow> 'b gc_root \<Rightarrow> 'b parallel_tracer" where
  "parallel_tracer_add_root s root = s\<lparr>pt_roots := pt_roots s @ [root]\<rparr>"

text \<open>\<open>gc_tracer_trace\<close>, and with \<open>roots_only\<close> \<open>gc_tracer_trace_roots\<close>, begin by unlocking the helpers.\<close>

definition parallel_tracer_begin :: "bool \<Rightarrow> 'b parallel_tracer \<Rightarrow> 'b parallel_tracer" where
  "parallel_tracer_begin roots_only s =
    s\<lparr>pt_trace_roots_only := roots_only, pt_workers := (pt_workers s)(0 := (pt_workers s 0)\<lparr>tw_pc := Worker_Start 1\<rparr>)\<rparr>"

section \<open>Steps\<close>

abbreviation pc_at :: "'b parallel_tracer \<Rightarrow> nat \<Rightarrow> worker_pc \<Rightarrow> bool" where
  "pc_at s i pc \<equiv> i < pt_worker_count s \<and> tw_pc (pt_workers s i) = pc"

abbreviation put_worker :: "nat \<Rightarrow> (trace_worker \<Rightarrow> trace_worker) \<Rightarrow> 'b parallel_tracer \<Rightarrow> 'b parallel_tracer" where
  "put_worker i f s \<equiv> s\<lparr>pt_workers := (pt_workers s)(i := f (pt_workers s i))\<rparr>"

abbreviation go :: "nat \<Rightarrow> worker_pc \<Rightarrow> 'b parallel_tracer \<Rightarrow> 'b parallel_tracer" where
  "go i pc s \<equiv> put_worker i (tw_pc_update (\<lambda>_. pc)) s"

abbreviation lock_as :: "nat \<Rightarrow> nat option \<Rightarrow> 'b parallel_tracer \<Rightarrow> 'b parallel_tracer" where
  "lock_as i who s \<equiv> s\<lparr>pt_locks := (pt_locks s)(i := who)\<rparr>"

abbreviation next_victim :: "'b parallel_tracer \<Rightarrow> trace_worker \<Rightarrow> trace_worker" where
  "next_victim s w \<equiv> w\<lparr>tw_steal_id := (tw_steal_id w + 1) mod pt_worker_count s\<rparr>"

inductive parallel_step ::
    "(gc_ref \<Rightarrow> gc_ref list) \<Rightarrow> ('b gc_root \<Rightarrow> gc_ref list) \<Rightarrow> 'b parallel_tracer \<Rightarrow> 'b parallel_tracer \<Rightarrow> bool"
  for edges targets where
  start: "pc_at s 0 (Worker_Start k) \<Longrightarrow> k < pt_worker_count s \<Longrightarrow>
    parallel_step edges targets s (go 0 (Worker_Start (k + 1)) (lock_as k None s))"
| unpark_all: "pc_at s 0 (Worker_Start k) \<Longrightarrow> k = pt_worker_count s \<Longrightarrow>
    parallel_step edges targets s (go 0 Worker_Enter (s\<lparr>pt_epoch := pt_epoch s + 1\<rparr>))"
| wake: "pc_at s i Worker_Waiting \<Longrightarrow> pt_locks s i = None \<Longrightarrow>
    parallel_step edges targets s (go i Worker_Check (lock_as i (Some i) s))"
| check_new: "pc_at s i Worker_Check \<Longrightarrow> tw_epoch (pt_workers s i) \<noteq> pt_epoch s \<Longrightarrow>
    parallel_step edges targets s (put_worker i (\<lambda>w. w\<lparr>tw_epoch := pt_epoch s, tw_pc := Worker_Enter\<rparr>) s)"
| check_old: "pc_at s i Worker_Check \<Longrightarrow> tw_epoch (pt_workers s i) = pt_epoch s \<Longrightarrow>
    parallel_step edges targets s (go i Worker_Park s)"
| enter: "pc_at s i Worker_Enter \<Longrightarrow>
    parallel_step edges targets s
      (put_worker i (\<lambda>w. w\<lparr>tw_count := 0, tw_pc := Worker_Root\<rparr>) (s\<lparr>pt_active_tracers := pt_active_tracers s + 1\<rparr>))"
| root: "pc_at s i Worker_Root \<Longrightarrow> pt_roots s = r # rs \<Longrightarrow>
    parallel_step edges targets s (go i (Worker_Edges (targets r) True) (s\<lparr>pt_roots := rs\<rparr>))"
| roots_done: "pc_at s i Worker_Root \<Longrightarrow> pt_roots s = [] \<Longrightarrow> \<not> pt_trace_roots_only s \<Longrightarrow>
    parallel_step edges targets s (go i Worker_Pop s)"
| roots_only_main: "pc_at s i Worker_Root \<Longrightarrow> pt_roots s = [] \<Longrightarrow> pt_trace_roots_only s \<Longrightarrow> i = 0 \<Longrightarrow>
    parallel_step edges targets s (go i (Worker_Lock_All 1) s)"
| roots_only_helper: "pc_at s i Worker_Root \<Longrightarrow> pt_roots s = [] \<Longrightarrow> pt_trace_roots_only s \<Longrightarrow> i \<noteq> 0 \<Longrightarrow>
    parallel_step edges targets s (go i Worker_Exit s)"
| edge_old: "pc_at s i (Worker_Edges (e # es) of_root) \<Longrightarrow> e \<in> pt_marked s \<Longrightarrow>
    parallel_step edges targets s (go i (Worker_Edges es of_root) s)"
| edge_new: "pc_at s i (Worker_Edges (e # es) of_root) \<Longrightarrow> e \<notin> pt_marked s \<Longrightarrow>
    parallel_step edges targets s (go i (Worker_Push e es of_root) (s\<lparr>pt_marked := insert e (pt_marked s)\<rparr>))"
| push: "pc_at s i (Worker_Push e es of_root) \<Longrightarrow> deque_spec (tw_deque (pt_workers s i)) (Pushed [e]) q \<Longrightarrow>
    parallel_step edges targets s (put_worker i (\<lambda>w. w\<lparr>tw_deque := q, tw_pc := Worker_Edges es of_root\<rparr>) s)"
| edges_done_root: "pc_at s i (Worker_Edges [] True) \<Longrightarrow>
    parallel_step edges targets s (go i Worker_Root s)"
| edges_done_object: "pc_at s i (Worker_Edges [] False) \<Longrightarrow>
    parallel_step edges targets s (put_worker i (\<lambda>w. w\<lparr>tw_count := tw_count w + 1, tw_pc := Worker_Traced\<rparr>) s)"
| traced: "pc_at s i Worker_Traced \<Longrightarrow> i \<noteq> 0 \<or> tw_count (pt_workers s i) mod 128 \<noteq> 0 \<or> tw_deque (pt_workers s i) = [] \<Longrightarrow>
    parallel_step edges targets s (go i Worker_Pop s)"
| traced_many: "pc_at s i Worker_Traced \<Longrightarrow> i = 0 \<Longrightarrow> tw_count (pt_workers s i) mod 128 = 0 \<Longrightarrow>
    tw_deque (pt_workers s i) \<noteq> [] \<Longrightarrow> parallel_step edges targets s (go i Worker_Maybe_Unpark s)"
| maybe_unpark: "pc_at s i Worker_Maybe_Unpark \<Longrightarrow>
    parallel_step edges targets s (go i Worker_Pop
      (s\<lparr>pt_epoch := (if pt_active_tracers s < pt_worker_count s then pt_epoch s + 1 else pt_epoch s)\<rparr>))"
| pop: "pc_at s i Worker_Pop \<Longrightarrow> deque_spec (tw_deque (pt_workers s i)) (Popped (Some r)) q \<Longrightarrow>
    parallel_step edges targets s (put_worker i (\<lambda>w. w\<lparr>tw_deque := q, tw_pc := Worker_Trace r\<rparr>) s)"
| pop_none: "pc_at s i Worker_Pop \<Longrightarrow> deque_spec (tw_deque (pt_workers s i)) (Popped None) q \<Longrightarrow>
    parallel_step edges targets s (put_worker i (\<lambda>w. w\<lparr>tw_deque := q, tw_pc := Worker_Steal 0\<rparr>) s)"
| trace: "pc_at s i (Worker_Trace r) \<Longrightarrow>
    parallel_step edges targets s (go i (Worker_Edges (edges r) False) (s\<lparr>pt_traced := r # pt_traced s\<rparr>))"
| steal: "pc_at s i (Worker_Steal k) \<Longrightarrow> k < pt_worker_count s \<Longrightarrow> v = tw_steal_id (pt_workers s i) \<Longrightarrow>
    deque_spec (tw_deque (pt_workers s v)) (Stolen (Some r)) q \<Longrightarrow>
    parallel_step edges targets s (go i (Worker_Trace r) (put_worker v (\<lambda>w. w\<lparr>tw_deque := q\<rparr>) s))"
| steal_none: "pc_at s i (Worker_Steal k) \<Longrightarrow> k < pt_worker_count s \<Longrightarrow> v = tw_steal_id (pt_workers s i) \<Longrightarrow>
    deque_spec (tw_deque (pt_workers s v)) (Stolen None) q \<Longrightarrow>
    parallel_step edges targets s (go i (Worker_Steal (k + 1)) (put_worker i (next_victim s) s))"
| steal_failed: "pc_at s i (Worker_Steal k) \<Longrightarrow> k = pt_worker_count s \<Longrightarrow>
    parallel_step edges targets s (go i Worker_Continue s)"
| continue_helper: "pc_at s i Worker_Continue \<Longrightarrow> i \<noteq> 0 \<Longrightarrow>
    parallel_step edges targets s (go i Worker_Exit s)"
| continue_spin: "pc_at s i Worker_Continue \<Longrightarrow> i = 0 \<Longrightarrow> pt_active_tracers s \<noteq> 1 \<Longrightarrow>
    parallel_step edges targets s (go i Worker_Pop s)"
| continue_check: "pc_at s i Worker_Continue \<Longrightarrow> i = 0 \<Longrightarrow> pt_active_tracers s = 1 \<Longrightarrow>
    parallel_step edges targets s (go i (Worker_Try_Lock 1) s)"
| try_lock: "pc_at s i (Worker_Try_Lock k) \<Longrightarrow> k < pt_worker_count s \<Longrightarrow> pt_locks s k = None \<Longrightarrow>
    parallel_step edges targets s (go i (Worker_Try_Lock (k + 1)) (lock_as k (Some 0) s))"
| try_lock_failed: "pc_at s i (Worker_Try_Lock k) \<Longrightarrow> k < pt_worker_count s \<Longrightarrow> pt_locks s k \<noteq> None \<Longrightarrow>
    parallel_step edges targets s (go i (Worker_Unlock k) s)"
| try_lock_done: "pc_at s i (Worker_Try_Lock k) \<Longrightarrow> k = pt_worker_count s \<Longrightarrow>
    parallel_step edges targets s (go i (Worker_Can_Steal 0) s)"
| can_steal: "pc_at s i (Worker_Can_Steal k) \<Longrightarrow> k < pt_worker_count s \<Longrightarrow>
    tw_deque (pt_workers s (tw_steal_id (pt_workers s i))) \<noteq> [] \<Longrightarrow>
    parallel_step edges targets s (go i (Worker_Unlock (pt_worker_count s)) s)"
| cannot_steal: "pc_at s i (Worker_Can_Steal k) \<Longrightarrow> k < pt_worker_count s \<Longrightarrow>
    tw_deque (pt_workers s (tw_steal_id (pt_workers s i))) = [] \<Longrightarrow>
    parallel_step edges targets s (go i (Worker_Can_Steal (k + 1)) (put_worker i (next_victim s) s))"
| no_work: "pc_at s i (Worker_Can_Steal k) \<Longrightarrow> k = pt_worker_count s \<Longrightarrow>
    parallel_step edges targets s (go i Worker_Exit s)"
| unlock: "pc_at s i (Worker_Unlock k) \<Longrightarrow> 1 < k \<Longrightarrow>
    parallel_step edges targets s (go i (Worker_Unlock (k - 1)) (lock_as (k - 1) None s))"
| unlocked: "pc_at s i (Worker_Unlock k) \<Longrightarrow> k \<le> 1 \<Longrightarrow>
    parallel_step edges targets s (go i Worker_Pop s)"
| lock_all: "pc_at s i (Worker_Lock_All k) \<Longrightarrow> k < pt_worker_count s \<Longrightarrow> pt_locks s k = None \<Longrightarrow>
    parallel_step edges targets s (go i (Worker_Lock_All (k + 1)) (lock_as k (Some 0) s))"
| locked_all: "pc_at s i (Worker_Lock_All k) \<Longrightarrow> k = pt_worker_count s \<Longrightarrow>
    parallel_step edges targets s (go i Worker_Exit s)"
| exit: "pc_at s i Worker_Exit \<Longrightarrow>
    parallel_step edges targets s
      (go i (if i = 0 then Worker_Done else Worker_Park) (s\<lparr>pt_active_tracers := pt_active_tracers s - 1\<rparr>))"
| park: "pc_at s i Worker_Park \<Longrightarrow>
    parallel_step edges targets s (go i Worker_Waiting (lock_as i None s))"

section \<open>The mutexes\<close>

fun main_holds :: "worker_pc \<Rightarrow> nat \<Rightarrow> bool" where
  "main_holds (Worker_Start k) j \<longleftrightarrow> k \<le> j"
| "main_holds (Worker_Try_Lock k) j \<longleftrightarrow> j < k"
| "main_holds (Worker_Unlock k) j \<longleftrightarrow> j < k"
| "main_holds (Worker_Lock_All k) j \<longleftrightarrow> j < k"
| "main_holds (Worker_Can_Steal k) j \<longleftrightarrow> True"
| "main_holds Worker_Exit j \<longleftrightarrow> True"
| "main_holds Worker_Done j \<longleftrightarrow> True"
| "main_holds _ j \<longleftrightarrow> False"

fun main_pc :: "nat \<Rightarrow> worker_pc \<Rightarrow> bool" where
  "main_pc n (Worker_Start k) \<longleftrightarrow> 1 \<le> k \<and> k \<le> n"
| "main_pc n (Worker_Try_Lock k) \<longleftrightarrow> 1 \<le> k \<and> k \<le> n"
| "main_pc n (Worker_Unlock k) \<longleftrightarrow> 1 \<le> k \<and> k \<le> n"
| "main_pc n (Worker_Lock_All k) \<longleftrightarrow> 1 \<le> k \<and> k \<le> n"
| "main_pc n Worker_Waiting \<longleftrightarrow> False"
| "main_pc n Worker_Check \<longleftrightarrow> False"
| "main_pc n Worker_Park \<longleftrightarrow> False"
| "main_pc n _ \<longleftrightarrow> True"

fun helper_pc :: "worker_pc \<Rightarrow> bool" where
  "helper_pc (Worker_Start k) \<longleftrightarrow> False"
| "helper_pc (Worker_Try_Lock k) \<longleftrightarrow> False"
| "helper_pc (Worker_Unlock k) \<longleftrightarrow> False"
| "helper_pc (Worker_Lock_All k) \<longleftrightarrow> False"
| "helper_pc (Worker_Can_Steal k) \<longleftrightarrow> False"
| "helper_pc Worker_Done \<longleftrightarrow> False"
| "helper_pc _ \<longleftrightarrow> True"

definition helper_ok :: "'b parallel_tracer \<Rightarrow> nat \<Rightarrow> bool" where
  "helper_ok s j \<longleftrightarrow> (pt_locks s j = Some 0 \<longleftrightarrow> main_holds (tw_pc (pt_workers s 0)) j)
    \<and> (pt_locks s j = Some j \<longleftrightarrow> tw_pc (pt_workers s j) \<noteq> Worker_Waiting)
    \<and> pt_locks s j \<in> {None, Some 0, Some j} \<and> helper_pc (tw_pc (pt_workers s j))"

definition locks_ok :: "'b parallel_tracer \<Rightarrow> bool" where
  "locks_ok s \<longleftrightarrow> 0 < pt_worker_count s \<and> main_pc (pt_worker_count s) (tw_pc (pt_workers s 0))
    \<and> (\<forall>j. 0 < j \<and> j < pt_worker_count s \<longrightarrow> helper_ok s j)"

lemma parallel_step_count:
  "parallel_step edges targets s s' \<Longrightarrow> pt_worker_count s' = pt_worker_count s \<and> pt_trace_roots_only s' = pt_trace_roots_only s"
  by (erule parallel_step.cases) simp_all

lemma main_awake:
  assumes "main_pc n (tw_pc (pt_workers s 0))"
  shows "tw_pc (pt_workers s i) = Worker_Waiting \<Longrightarrow> i \<noteq> 0" "tw_pc (pt_workers s i) = Worker_Check \<Longrightarrow> i \<noteq> 0"
    "tw_pc (pt_workers s i) = Worker_Park \<Longrightarrow> i \<noteq> 0"
  using assms by (cases "i = 0"; simp)+

lemma locks_step_main:
  assumes "parallel_step edges targets s s'" "locks_ok s"
  shows "main_pc (pt_worker_count s) (tw_pc (pt_workers s' 0))"
proof -
  have ok: "0 < pt_worker_count s" "main_pc (pt_worker_count s) (tw_pc (pt_workers s 0))" using assms(2) by (auto simp: locks_ok_def)
  show ?thesis using assms(1) by cases (use ok in \<open>auto dest!: main_awake[OF ok(2)] split: if_splits\<close>)
qed

text \<open>What a steal does, apart from the victim.\<close>

definition stolen :: "nat \<Rightarrow> nat \<Rightarrow> gc_ref \<Rightarrow> gc_ref list \<Rightarrow> 'b parallel_tracer \<Rightarrow> 'b parallel_tracer" where
  "stolen i v r q s = go i (Worker_Trace r) (put_worker v (\<lambda>w. w\<lparr>tw_deque := q\<rparr>) s)"

lemma stolen_fields [simp]:
  "pt_active_tracers (stolen i v r q s) = pt_active_tracers s" "pt_worker_count (stolen i v r q s) = pt_worker_count s"
  "pt_epoch (stolen i v r q s) = pt_epoch s" "pt_trace_roots_only (stolen i v r q s) = pt_trace_roots_only s"
  "pt_roots (stolen i v r q s) = pt_roots s" "pt_locks (stolen i v r q s) = pt_locks s"
  "pt_marked (stolen i v r q s) = pt_marked s" "pt_traced (stolen i v r q s) = pt_traced s"
  "tw_pc (pt_workers (stolen i v r q s) j) = (if j = i then Worker_Trace r else tw_pc (pt_workers s j))"
  "tw_deque (pt_workers (stolen i v r q s) j) = (if j = v then q else tw_deque (pt_workers s j))"
  "tw_steal_id (pt_workers (stolen i v r q s) j) = tw_steal_id (pt_workers s j)"
  by (simp_all add: stolen_def)

lemma locks_step_helper:
  assumes "parallel_step edges targets s s'" "locks_ok s" "0 < j" "j < pt_worker_count s"
  shows "helper_ok s' j"
proof -
  have m: "main_pc (pt_worker_count s) (tw_pc (pt_workers s 0))" and h: "helper_ok s j"
    using assms(2-4) by (simp_all add: locks_ok_def)
  have main: "i = 0" if "\<not> helper_pc (tw_pc (pt_workers s i))" "i < pt_worker_count s" for i
  proof (rule ccontr)
    assume "i \<noteq> 0"
    then have "helper_ok s i" using assms(2) that(2) by (simp add: locks_ok_def)
    then show False using that(1) by (simp add: helper_ok_def)
  qed
  show ?thesis
    using assms(1)
  proof cases
    case (wake i)
    then show ?thesis using h assms(3,4) main_awake(1)[OF m, of i] by (auto simp: helper_ok_def)
  next
    case (park i)
    then show ?thesis using h assms(3,4) main_awake(3)[OF m, of i] by (auto simp: helper_ok_def)
  next
    case (exit i)
    then show ?thesis using h assms(3,4) by (cases "i = 0") (auto simp: helper_ok_def)
  next
    case (steal i k v r q)
    have "helper_ok (stolen i v r q s) j" using h steal(2) assms(3) by (auto simp: helper_ok_def)
    then show ?thesis using steal(1) by (simp add: stolen_def)
  next
    case (try_lock i k)
    then have "i = 0" using main[of i] by simp
    then show ?thesis using try_lock h assms(3,4) by (auto simp: helper_ok_def)
  next
    case (try_lock_failed i k)
    then have "i = 0" using main[of i] by simp
    then show ?thesis using try_lock_failed h assms(3,4) by (auto simp: helper_ok_def)
  next
    case (try_lock_done i k)
    then have "i = 0" using main[of i] by simp
    then show ?thesis using try_lock_done h assms(3,4) by (auto simp: helper_ok_def)
  next
    case (can_steal i k)
    then have "i = 0" using main[of i] by simp
    then show ?thesis using can_steal h assms(3,4) by (auto simp: helper_ok_def)
  next
    case (cannot_steal i k)
    then have "i = 0" using main[of i] by simp
    then show ?thesis using cannot_steal h assms(3,4) by (auto simp: helper_ok_def)
  next
    case (no_work i k)
    then have "i = 0" using main[of i] by simp
    then show ?thesis using no_work h assms(3,4) by (auto simp: helper_ok_def)
  next
    case (unlock i k)
    then have "i = 0" using main[of i] by simp
    then show ?thesis using unlock h m assms(3,4) by (auto simp: helper_ok_def)
  next
    case (unlocked i k)
    then have "i = 0" using main[of i] by simp
    then show ?thesis using unlocked h assms(3,4) by (auto simp: helper_ok_def)
  next
    case (lock_all i k)
    then have "i = 0" using main[of i] by simp
    then show ?thesis using lock_all h assms(3,4) by (auto simp: helper_ok_def)
  next
    case (locked_all i k)
    then have "i = 0" using main[of i] by simp
    then show ?thesis using locked_all h assms(3,4) by (auto simp: helper_ok_def)
  qed (use h assms(3,4) in \<open>auto simp: helper_ok_def split: if_splits\<close>)
qed

lemma locks_step: "parallel_step edges targets s s' \<Longrightarrow> locks_ok s \<Longrightarrow> locks_ok s'"
  using locks_step_main[of edges targets s s'] locks_step_helper[of edges targets s s'] parallel_step_count[of edges targets s s']
  by (simp add: locks_ok_def)

section \<open>No object is lost or traced twice\<close>

fun pc_hand :: "worker_pc \<Rightarrow> gc_ref multiset" where
  "pc_hand (Worker_Push e es of_root) = {#e#}"
| "pc_hand (Worker_Trace r) = {#r#}"
| "pc_hand _ = {#}"

fun pc_edges :: "worker_pc \<Rightarrow> gc_ref set" where
  "pc_edges (Worker_Edges es of_root) = set es"
| "pc_edges (Worker_Push e es of_root) = set es"
| "pc_edges _ = {}"

definition hands :: "'b parallel_tracer \<Rightarrow> gc_ref multiset" where
  "hands s = (\<Sum>j < pt_worker_count s. pc_hand (tw_pc (pt_workers s j)))"

definition queued :: "'b parallel_tracer \<Rightarrow> gc_ref multiset" where
  "queued s = (\<Sum>j < pt_worker_count s. mset (tw_deque (pt_workers s j)))"

text \<open>A marked object has been traced, or is in a deque, or in the hand of a worker.\<close>

definition work_ok :: "'b parallel_tracer \<Rightarrow> bool" where
  "work_ok s \<longleftrightarrow> mset_set (pt_marked s) = mset (pt_traced s) + queued s + hands s
    \<and> (\<forall>j < pt_worker_count s. tw_steal_id (pt_workers s j) < pt_worker_count s)"

lemma sum_change:
  fixes f :: "nat \<Rightarrow> 'm::comm_monoid_add"
  assumes "i < n" "\<And>j. j < n \<Longrightarrow> j \<noteq> i \<Longrightarrow> f j = g j"
  shows "(\<Sum>j < n. f j) + g i = (\<Sum>j < n. g j) + f i"
proof -
  have "(\<Sum>j < n. f j) = f i + (\<Sum>j \<in> {..<n} - {i}. f j)" "(\<Sum>j < n. g j) = g i + (\<Sum>j \<in> {..<n} - {i}. g j)"
    using assms(1) by (intro sum.remove; simp)+
  moreover have "(\<Sum>j \<in> {..<n} - {i}. f j) = (\<Sum>j \<in> {..<n} - {i}. g j)" by (rule sum.cong) (use assms(2) in auto)
  ultimately show ?thesis by (simp add: ac_simps)
qed

lemma hands_change:
  assumes "pt_worker_count s' = pt_worker_count s" "i < pt_worker_count s"
    and "\<And>j. j \<noteq> i \<Longrightarrow> pc_hand (tw_pc (pt_workers s' j)) = pc_hand (tw_pc (pt_workers s j))"
  shows "hands s' + pc_hand (tw_pc (pt_workers s i)) = hands s + pc_hand (tw_pc (pt_workers s' i))"
  unfolding hands_def assms(1) by (rule sum_change[OF assms(2)]) (rule assms(3))

lemma queued_change:
  assumes "pt_worker_count s' = pt_worker_count s" "i < pt_worker_count s"
    and "\<And>j. j \<noteq> i \<Longrightarrow> tw_deque (pt_workers s' j) = tw_deque (pt_workers s j)"
  shows "queued s' + mset (tw_deque (pt_workers s i)) = queued s + mset (tw_deque (pt_workers s' i))"
  unfolding queued_def assms(1) by (rule sum_change[OF assms(2)]) (simp add: assms(3))

lemma same_work:
  assumes "pt_worker_count s' = pt_worker_count s" "pt_marked s' = pt_marked s" "pt_traced s' = pt_traced s"
    and "\<And>j. pc_hand (tw_pc (pt_workers s' j)) = pc_hand (tw_pc (pt_workers s j))"
      "\<And>j. tw_deque (pt_workers s' j) = tw_deque (pt_workers s j)"
      "\<And>j. tw_steal_id (pt_workers s' j) = tw_steal_id (pt_workers s j) \<or> tw_steal_id (pt_workers s' j) < pt_worker_count s"
    and "work_ok s"
  shows "work_ok s'"
proof -
  have "hands s' = hands s" "queued s' = queued s" using assms(1,4,5) by (simp_all add: hands_def queued_def)
  then show ?thesis using assms(1-3,6,7) unfolding work_ok_def by metis
qed

inductive_cases deque_pushed: "deque_spec l (Pushed xs) q"
inductive_cases deque_popped: "deque_spec l (Popped (Some r)) q"
inductive_cases deque_popped_none: "deque_spec l (Popped None) q"
inductive_cases deque_stolen: "deque_spec l (Stolen (Some r)) q"
inductive_cases deque_stolen_none: "deque_spec l (Stolen None) q"

lemma work_step:
  assumes "parallel_step edges targets s s'" "work_ok s" "0 < pt_worker_count s"
  shows "work_ok s'"
  using assms(1)
proof cases
  case (edge_new i e es of_root)
  let ?s = "go i (Worker_Push e es of_root) (s\<lparr>pt_marked := insert e (pt_marked s)\<rparr>)"
  have "hands ?s + {#} = hands s + {#e#}" using edge_new(2) hands_change[of ?s s i] by simp
  moreover have "queued ?s + {#} = queued s + {#}" using edge_new(2) queued_change[of ?s s i] by simp
  moreover have "mset_set (insert e (pt_marked s)) = add_mset e (mset_set (pt_marked s))" using edge_new(3) by simp
  ultimately show ?thesis using assms(2) edge_new(1) by (simp add: work_ok_def)
next
  case (push i e es of_root q)
  let ?s = "put_worker i (\<lambda>w. w\<lparr>tw_deque := q, tw_pc := Worker_Edges es of_root\<rparr>) s"
  have q: "q = tw_deque (pt_workers s i) @ [e]" using push(3) by (auto elim: deque_pushed)
  have "hands ?s + {#e#} = hands s + {#}" using push(2) hands_change[of ?s s i] by simp
  moreover have "queued ?s + mset (tw_deque (pt_workers s i)) = queued s + mset q" using push(2) queued_change[of ?s s i] by simp
  ultimately show ?thesis using assms(2) push(1) q by (simp add: work_ok_def ac_simps)
next
  case (pop i r q)
  let ?s = "put_worker i (\<lambda>w. w\<lparr>tw_deque := q, tw_pc := Worker_Trace r\<rparr>) s"
  have q: "tw_deque (pt_workers s i) = q @ [r]" using pop(3) by (auto elim: deque_popped)
  have "hands ?s + {#} = hands s + {#r#}" using pop(2) hands_change[of ?s s i] by simp
  moreover have "queued ?s + mset (tw_deque (pt_workers s i)) = queued s + mset q" using pop(2) queued_change[of ?s s i] by simp
  ultimately show ?thesis using assms(2) pop(1) q by (simp add: work_ok_def ac_simps)
next
  case (pop_none i q)
  have "q = [] \<and> tw_deque (pt_workers s i) = []" using pop_none(3) by (auto elim: deque_popped_none)
  then show ?thesis by (intro same_work[OF _ _ _ _ _ _ assms(2)]) (use pop_none in auto)
next
  case (trace i r)
  let ?s = "go i (Worker_Edges (edges r) False) (s\<lparr>pt_traced := r # pt_traced s\<rparr>)"
  have "hands ?s + {#r#} = hands s + {#}" using trace(2) hands_change[of ?s s i] by simp
  moreover have "queued ?s + {#} = queued s + {#}" using trace(2) queued_change[of ?s s i] by simp
  ultimately show ?thesis using assms(2) trace(1) by (simp add: work_ok_def ac_simps)
next
  case (steal i k v r q)
  let ?s = "stolen i v r q s"
  have v: "v < pt_worker_count s" using steal(2,4) assms(2) by (simp add: work_ok_def)
  have q: "tw_deque (pt_workers s v) = r # q" using steal(5) by (auto elim: deque_stolen)
  have "hands ?s + {#} = hands s + {#r#}" using steal(2) hands_change[of ?s s i] by simp
  moreover have "queued ?s + mset (tw_deque (pt_workers s v)) = queued s + mset q" using v queued_change[of ?s s v] by simp
  ultimately have "work_ok ?s" using assms(2) q by (simp add: work_ok_def ac_simps)
  then show ?thesis using steal(1) by (simp add: stolen_def)
next
  case (steal_none i k v q)
  show ?thesis by (rule same_work[OF _ _ _ _ _ _ assms(2)]) (use steal_none(1,2) assms(3) in auto)
next
  case (cannot_steal i k)
  show ?thesis by (rule same_work[OF _ _ _ _ _ _ assms(2)]) (use cannot_steal(1,2) assms(3) in auto)
qed (rule same_work[OF _ _ _ _ _ _ assms(2)]; auto)+

section \<open>No edge is lost\<close>

text \<open>What is marked, or leads from an edge that a worker or a root has still to visit.\<close>

definition cover :: "('b gc_root \<Rightarrow> gc_ref list) \<Rightarrow> 'b parallel_tracer \<Rightarrow> gc_ref set" where
  "cover targets s = pt_marked s \<union> (\<Union>j < pt_worker_count s. pc_edges (tw_pc (pt_workers s j)))
    \<union> (\<Union>r \<in> set (pt_roots s). set (targets r))"

definition cover_ok ::
    "(gc_ref \<Rightarrow> gc_ref list) \<Rightarrow> ('b gc_root \<Rightarrow> gc_ref list) \<Rightarrow> gc_ref set \<Rightarrow> gc_ref set \<Rightarrow> 'b parallel_tracer \<Rightarrow> bool" where
  "cover_ok edges targets I R s \<longleftrightarrow> (\<forall>r \<in> set (pt_traced s). set (edges r) \<subseteq> cover targets s)
    \<and> I \<subseteq> cover targets s \<and> cover targets s \<subseteq> R"

lemma cover_intros:
  "x \<in> pt_marked s \<Longrightarrow> x \<in> cover targets s"
  "j < pt_worker_count s \<Longrightarrow> x \<in> pc_edges (tw_pc (pt_workers s j)) \<Longrightarrow> x \<in> cover targets s"
  "r \<in> set (pt_roots s) \<Longrightarrow> x \<in> set (targets r) \<Longrightarrow> x \<in> cover targets s"
  by (auto simp: cover_def)

lemma cover_sub:
  assumes "pt_marked s \<subseteq> A" "\<And>j. j < pt_worker_count s \<Longrightarrow> pc_edges (tw_pc (pt_workers s j)) \<subseteq> A"
    "\<And>r. r \<in> set (pt_roots s) \<Longrightarrow> set (targets r) \<subseteq> A"
  shows "cover targets s \<subseteq> A"
  using assms unfolding cover_def by blast

text \<open>A step that moves worker \<open>i\<close> and nothing else of this.\<close>

lemma cover_adds:
  assumes "pt_worker_count s' = pt_worker_count s" "i < pt_worker_count s"
    and "\<And>j. j \<noteq> i \<Longrightarrow> pc_edges (tw_pc (pt_workers s' j)) = pc_edges (tw_pc (pt_workers s j))"
    and "pt_marked s' \<union> pc_edges (tw_pc (pt_workers s' i)) \<union> (\<Union>r \<in> set (pt_roots s'). set (targets r)) =
      pt_marked s \<union> pc_edges (tw_pc (pt_workers s i)) \<union> (\<Union>r \<in> set (pt_roots s). set (targets r)) \<union> X"
  shows "cover targets s' = cover targets s \<union> X"
proof -
  define Q where "Q = (\<Union>j \<in> {..<pt_worker_count s} - {i}. pc_edges (tw_pc (pt_workers s j)))"
  have U: "(\<Union>j \<in> {..<pt_worker_count s}. f j) = f i \<union> (\<Union>j \<in> {..<pt_worker_count s} - {i}. f j)" for f :: "nat \<Rightarrow> gc_ref set"
    using assms(2) by blast
  have Q': "(\<Union>j \<in> {..<pt_worker_count s} - {i}. pc_edges (tw_pc (pt_workers s' j))) = Q"
    unfolding Q_def by (rule SUP_cong) (simp_all add: assms(3))
  have c: "A \<union> (P \<union> Q) \<union> Z = (A \<union> P \<union> Z) \<union> Q" "(B \<union> X) \<union> Q = (B \<union> Q) \<union> X" for A P Z B :: "gc_ref set" by (simp_all add: Un_ac)
  show ?thesis unfolding cover_def assms(1) U Q' Q_def[symmetric] c(1) assms(4) c(2) ..
qed

lemmas cover_change = cover_adds[where X = "{}", simplified]

lemma same_cover:
  assumes "pt_worker_count s' = pt_worker_count s" "pt_marked s' = pt_marked s" "pt_traced s' = pt_traced s" "pt_roots s' = pt_roots s"
    and "\<And>j. pc_edges (tw_pc (pt_workers s' j)) = pc_edges (tw_pc (pt_workers s j))" and "cover_ok edges targets I R s"
  shows "cover_ok edges targets I R s'"
  using assms by (simp add: cover_ok_def cover_def)

lemma cover_step:
  assumes "parallel_step edges targets s s'" "cover_ok edges targets I R s" "work_ok s" "\<And>r. r \<in> R \<Longrightarrow> set (edges r) \<subseteq> R"
  shows "cover_ok edges targets I R s'"
  using assms(1)
proof cases
  case (root i r rs)
  have "cover targets s' = cover targets s"
    by (rule cover_change[of _ _ i]) (use root in \<open>auto simp: root(1)\<close>)
  then show ?thesis using assms(2) root(1) by (simp add: cover_ok_def)
next
  case (edge_old i e es of_root)
  have "cover targets s' = cover targets s"
    by (rule cover_change[of _ _ i]) (use edge_old in \<open>auto simp: edge_old(1)\<close>)
  then show ?thesis using assms(2) edge_old(1) by (simp add: cover_ok_def)
next
  case (edge_new i e es of_root)
  have "cover targets s' = cover targets s"
    by (rule cover_change[of _ _ i]) (use edge_new in \<open>auto simp: edge_new(1)\<close>)
  then show ?thesis using assms(2) edge_new(1) by (simp add: cover_ok_def)
next
  case (push i e es of_root q)
  show ?thesis by (rule same_cover[OF _ _ _ _ _ assms(2)]) (use push(1,2) in auto)
next
  case (trace i r)
  have "r \<in># hands s"
    unfolding hands_def using trace(2) by (simp add: sum.remove[of _ i])
  then have "r \<in># mset_set (pt_marked s)" using assms(3) by (simp add: work_ok_def)
  then have "r \<in> pt_marked s" by simp
  then have "r \<in> R" using assms(2) by (auto simp: cover_ok_def cover_def)
  moreover have "cover targets s' = cover targets s \<union> set (edges r)"
    by (rule cover_adds[of _ _ i]) (use trace in \<open>auto simp: trace(1)\<close>)
  ultimately show ?thesis using assms(2) assms(4)[of r] trace(1) by (auto simp: cover_ok_def)
next
  case (steal i k v r q)
  have "cover_ok edges targets I R (stolen i v r q s)"
    by (rule same_cover[OF _ _ _ _ _ assms(2)]) (use steal(2) in auto)
  then show ?thesis using steal(1) by (simp add: stolen_def)
next
  case (exit i)
  show ?thesis by (rule same_cover[OF _ _ _ _ _ assms(2)]) (use exit(1,2) in auto)
qed (rule same_cover[OF _ _ _ _ _ assms(2)]; auto)+

section \<open>When worker 0 is done\<close>

fun roots_left :: "worker_pc \<Rightarrow> bool" where
  "roots_left (Worker_Start k) \<longleftrightarrow> True"
| "roots_left Worker_Enter \<longleftrightarrow> True"
| "roots_left Worker_Root \<longleftrightarrow> True"
| "roots_left (Worker_Edges es of_root) \<longleftrightarrow> of_root"
| "roots_left (Worker_Push e es of_root) \<longleftrightarrow> of_root"
| "roots_left _ \<longleftrightarrow> False"

definition roots_ok :: "'b parallel_tracer \<Rightarrow> bool" where
  "roots_ok s \<longleftrightarrow> (\<not> roots_left (tw_pc (pt_workers s 0)) \<longrightarrow> pt_roots s = [])"

lemma roots_step:
  assumes "parallel_step edges targets s s'" "roots_ok s" "locks_ok s"
  shows "roots_ok s'"
proof -
  have m: "main_pc (pt_worker_count s) (tw_pc (pt_workers s 0))" using assms(3) by (simp add: locks_ok_def)
  show ?thesis
    using assms(1)
  proof cases
    case (steal i k v r q)
    have "roots_ok (stolen i v r q s)" using assms(2) steal(2) by (auto simp: roots_ok_def)
    then show ?thesis using steal(1) by (simp add: stolen_def)
  qed (use assms(2) main_awake[OF m] in \<open>auto simp: roots_ok_def\<close>)
qed

text \<open>Worker 0 looks for work once it has every mutex: then no deque changes any more.\<close>

fun scan_left :: "nat \<Rightarrow> worker_pc \<Rightarrow> nat option" where
  "scan_left n (Worker_Can_Steal k) = Some (n - k)"
| "scan_left n Worker_Exit = Some 0"
| "scan_left n Worker_Done = Some 0"
| "scan_left n _ = None"

definition scan_ok :: "'b parallel_tracer \<Rightarrow> bool" where
  "scan_ok s \<longleftrightarrow> (case scan_left (pt_worker_count s) (tw_pc (pt_workers s 0)) of None \<Rightarrow> True
    | Some n \<Rightarrow> pt_trace_roots_only s \<or> (\<forall>j < pt_worker_count s. tw_deque (pt_workers s j) \<noteq> [] \<longrightarrow>
        (\<exists>d < n. j = (tw_steal_id (pt_workers s 0) + d) mod pt_worker_count s)))"

lemma victims_all:
  assumes "(s::nat) < n" "j < n"
  shows "\<exists>d < n. j = (s + d) mod n"
proof (intro exI conjI)
  show "(j + n - s) mod n < n" using assms by simp
  have "(s + (j + n - s) mod n) mod n = (s + (j + n - s)) mod n" by (simp add: mod_add_right_eq)
  also have "\<dots> = (j + n) mod n" using assms(1) by simp
  finally show "j = (s + (j + n - s) mod n) mod n" using assms(2) by simp
qed

lemma victims_next:
  assumes "d < n - k" "d \<noteq> 0" "k < n"
  shows "\<exists>d' < n - Suc k. ((s::nat) + d) mod n = ((s + 1) mod n + d') mod n"
proof -
  obtain d' where d: "d = Suc d'" using assms(2) by (cases d) auto
  have "(s + d) mod n = ((s + 1) mod n + d') mod n" by (simp add: d mod_add_left_eq)
  then show ?thesis using assms(1,3) d by (intro exI[of _ d']) simp
qed

lemma asleep_all:
  assumes "locks_ok s" "scan_left (pt_worker_count s) (tw_pc (pt_workers s 0)) \<noteq> None" "0 < i" "i < pt_worker_count s"
  shows "tw_pc (pt_workers s i) = Worker_Waiting" "pt_locks s i = Some 0"
proof -
  have h: "helper_ok s i" using assms(1,3,4) by (simp add: locks_ok_def)
  have "main_holds (tw_pc (pt_workers s 0)) i" using assms(2) by (cases "tw_pc (pt_workers s 0)") simp_all
  then show "pt_locks s i = Some 0" using h by (simp add: helper_ok_def)
  then show "tw_pc (pt_workers s i) = Worker_Waiting" using h assms(3) by (simp add: helper_ok_def)
qed

definition lock_all_ok :: "'b parallel_tracer \<Rightarrow> bool" where
  "lock_all_ok s \<longleftrightarrow> (\<forall>k. tw_pc (pt_workers s 0) = Worker_Lock_All k \<longrightarrow> pt_trace_roots_only s)"

lemma lock_all_step:
  assumes "parallel_step edges targets s s'" "lock_all_ok s"
  shows "lock_all_ok s'"
  using assms(1)
proof cases
  case (steal i k v r q)
  have "lock_all_ok (stolen i v r q s)" using assms(2) by (simp add: lock_all_ok_def)
  then show ?thesis using steal(1) by (simp add: stolen_def)
qed (use assms(2) in \<open>auto simp: lock_all_ok_def\<close>)

lemma scan_none: "scan_left (pt_worker_count s') (tw_pc (pt_workers s' 0)) = None \<Longrightarrow> scan_ok s'"
  by (simp add: scan_ok_def)

lemma scan_step:
  assumes st: "parallel_step edges targets s s'" and ok: "scan_ok s" "lock_all_ok s" "locks_ok s" "work_ok s"
  shows "scan_ok s'"
proof -
  let ?n = "pt_worker_count s" and ?pc = "tw_pc (pt_workers s 0)"
  have n: "0 < ?n" using ok(3) by (simp add: locks_ok_def)
  have alone: "i = 0" if "scan_left ?n ?pc \<noteq> None" "i < ?n" "tw_pc (pt_workers s i) \<noteq> Worker_Waiting" for i
    using asleep_all(1)[OF ok(3) that(1), of i] that(2,3) by blast
  have main: "i = 0" if "\<not> helper_pc (tw_pc (pt_workers s i))" "i < ?n" for i
  proof (rule ccontr)
    assume "i \<noteq> 0"
    then have "helper_ok s i" using ok(3) that(2) by (simp add: locks_ok_def)
    then show False using that(1) by (simp add: helper_ok_def)
  qed
  have still: "scan_ok s'" if "i < ?n" "tw_pc (pt_workers s i) \<noteq> Worker_Waiting" "i \<noteq> 0 \<Longrightarrow> tw_pc (pt_workers s' 0) = ?pc"
      "i = 0 \<Longrightarrow> scan_left ?n (tw_pc (pt_workers s' 0)) = None" for i
  proof (rule scan_none)
    show "scan_left (pt_worker_count s') (tw_pc (pt_workers s' 0)) = None"
      using alone[OF _ that(1,2)] that(3,4) parallel_step_count[OF st]
      by (cases "i = 0"; cases "scan_left ?n ?pc") auto
  qed
  show ?thesis
    using st
  proof cases
    case (start k)
    then show ?thesis by (intro scan_none) simp
  next
    case (unpark_all k)
    then show ?thesis by (intro scan_none) simp
  next
    case (wake i)
    have "i \<noteq> 0" using wake(2) ok(3) by (intro notI) (simp add: locks_ok_def)
    then have "scan_left ?n ?pc = None" using asleep_all(2)[OF ok(3), of i] wake(2,3) by fastforce
    then show ?thesis using \<open>i \<noteq> 0\<close> wake(1) by (intro scan_none) simp
  next
    case (steal i k v r q)
    have "scan_left ?n (tw_pc (pt_workers (stolen i v r q s) 0)) = None" using alone[of i] steal(2) by (cases "scan_left ?n ?pc") auto
    then have "scan_ok (stolen i v r q s)" by (simp add: scan_ok_def)
    then show ?thesis using steal(1) by (simp add: stolen_def)
  next
    case (try_lock_done i k)
    have "i = 0" using main[of i] try_lock_done(2) by simp
    moreover have "tw_steal_id (pt_workers s 0) < ?n" using ok(4) n by (simp add: work_ok_def)
    ultimately show ?thesis using victims_all[of "tw_steal_id (pt_workers s 0)" ?n] try_lock_done(1) by (auto simp: scan_ok_def)
  next
    case (cannot_steal i k)
    have i: "i = 0" using main[of i] cannot_steal(2) by simp
    show ?thesis
    proof (cases "pt_trace_roots_only s")
      case False
      have "\<exists>d < ?n - Suc k. j = ((tw_steal_id (pt_workers s 0) + 1) mod ?n + d) mod ?n"
        if j: "j < ?n" "tw_deque (pt_workers s j) \<noteq> []" for j
      proof -
        obtain d where d: "d < ?n - k" "j = (tw_steal_id (pt_workers s 0) + d) mod ?n"
          using ok(1) j False cannot_steal(2) i by (auto simp: scan_ok_def)
        have "d \<noteq> 0"
        proof
          assume "d = 0"
          then have "j = tw_steal_id (pt_workers s 0)" using d(2) ok(4) n by (simp add: work_ok_def)
          then show False using j(2) cannot_steal(4) i by simp
        qed
        then show ?thesis using victims_next[OF d(1) _ cannot_steal(3)] d(2) by auto
      qed
      moreover have "tw_deque (pt_workers s' j) = tw_deque (pt_workers s j)" for j using cannot_steal(1) i by simp
      moreover have "tw_steal_id (pt_workers s' 0) = (tw_steal_id (pt_workers s 0) + 1) mod ?n" "pt_worker_count s' = ?n"
        "scan_left ?n (tw_pc (pt_workers s' 0)) = Some (?n - Suc k)" using cannot_steal(1) i by simp_all
      ultimately show ?thesis unfolding scan_ok_def by (simp only: option.case) blast
    qed (use cannot_steal(1) i in \<open>simp add: scan_ok_def\<close>)
  next
    case (no_work i k)
    have "i = 0" using main[of i] no_work(2) by simp
    then show ?thesis using ok(1) no_work by (auto simp: scan_ok_def)
  next
    case (locked_all i k)
    have "i = 0" using main[of i] locked_all(2) by simp
    then show ?thesis using ok(2) locked_all by (auto simp: scan_ok_def lock_all_ok_def)
  next
    case (exit i)
    show ?thesis
    proof (cases "i = 0")
      case True
      then show ?thesis using ok(1) exit by (auto simp: scan_ok_def)
    next
      case False
      then show ?thesis using exit by (intro still[of i]) simp_all
    qed
  next
    case (park i)
    show ?thesis
    proof (cases "i = 0")
      case True
      then show ?thesis using park(1) by (intro scan_none) simp
    qed (use park in \<open>intro still[of i]; simp\<close>)
  next
    case (roots_only_helper i)
    then show ?thesis by (intro still[of i]) simp_all
  next
    case (continue_helper i)
    then show ?thesis by (intro still[of i]) simp_all
  next
    case (steal_none i k v q)
    show ?thesis by (rule still[of i]) (use steal_none(1,2) in auto)
  next
    case (try_lock i k)
    show ?thesis by (rule still[of i]) (use try_lock(1,2) in auto)
  next
    case (try_lock_failed i k)
    show ?thesis by (rule still[of i]) (use try_lock_failed(1,2) in auto)
  next
    case (can_steal i k)
    show ?thesis by (rule still[of i]) (use can_steal(1,2) in auto)
  next
    case (lock_all i k)
    show ?thesis by (rule still[of i]) (use lock_all(1,2) in auto)
  qed (elim conjE, rule still, assumption, (simp; fail), (simp; fail), (simp; fail))+
qed

section \<open>The count of active tracers\<close>

fun pc_active :: "worker_pc \<Rightarrow> bool" where
  "pc_active (Worker_Start k) \<longleftrightarrow> False"
| "pc_active Worker_Waiting \<longleftrightarrow> False"
| "pc_active Worker_Check \<longleftrightarrow> False"
| "pc_active Worker_Enter \<longleftrightarrow> False"
| "pc_active Worker_Park \<longleftrightarrow> False"
| "pc_active Worker_Done \<longleftrightarrow> False"
| "pc_active _ \<longleftrightarrow> True"

definition active_ok :: "'b parallel_tracer \<Rightarrow> bool" where
  "active_ok s \<longleftrightarrow> pt_active_tracers s = (\<Sum>j < pt_worker_count s. if pc_active (tw_pc (pt_workers s j)) then 1 else 0)"

lemma active_change:
  assumes "pt_worker_count s' = pt_worker_count s" "i < pt_worker_count s" "active_ok s"
    and "\<And>j. j \<noteq> i \<Longrightarrow> tw_pc (pt_workers s' j) = tw_pc (pt_workers s j)"
    and "pt_active_tracers s' + (if pc_active (tw_pc (pt_workers s i)) then 1 else 0)
      = pt_active_tracers s + (if pc_active (tw_pc (pt_workers s' i)) then 1 else 0)"
  shows "active_ok s'"
proof -
  have "(\<Sum>j < pt_worker_count s. if pc_active (tw_pc (pt_workers s' j)) then 1 else 0) + (if pc_active (tw_pc (pt_workers s i)) then 1 else 0)
    = (\<Sum>j < pt_worker_count s. if pc_active (tw_pc (pt_workers s j)) then 1 else 0) + (if pc_active (tw_pc (pt_workers s' i)) then 1 else (0 :: nat))"
    by (rule sum_change[OF assms(2)]) (simp add: assms(4))
  then show ?thesis unfolding active_ok_def assms(1) using assms(3)[unfolded active_ok_def] assms(5) by linarith
qed

lemma active_step:
  assumes "parallel_step edges targets s s'" "active_ok s" "locks_ok s"
  shows "active_ok s'"
proof -
  have n: "0 < pt_worker_count s" using assms(3) by (simp add: locks_ok_def)
  show ?thesis
    using assms(1)
  proof cases
    case (steal i k v r q)
    have "active_ok (stolen i v r q s)" by (rule active_change[of _ s i]) (use steal(2) assms(2) in auto)
    then show ?thesis using steal(1) by (simp add: stolen_def)
  next
    case (steal_none i k v q)
    show ?thesis by (rule active_change[of _ s i]) (use steal_none(1,2) assms(2) in auto)
  next
    case (exit i)
    have p: "0 < pt_active_tracers s"
      using assms(2) exit(2) unfolding active_ok_def by (simp add: sum.remove[of _ i])
    show ?thesis by (rule active_change[of _ s i]; cases "i = 0") (use exit(1,2) p in \<open>simp_all add: assms(2)\<close>)
  qed (elim conjE, rule active_change[of _ s], simp, assumption, rule assms(2), (simp; fail), (simp; fail))+
qed

end
