(* ===== verification/ParallelTracerCorrect.thy ===== *)
theory ParallelTracerCorrect
  imports ParallelTracer
begin

text \<open>
  What a trace of several workers does, \<open>gc_tracer_trace\<close> and \<open>gc_tracer_trace_roots\<close> of
  \<open>src/src/parallel-tracer.h\<close>: the invariants of \<open>ParallelTracer\<close> hold from the start, and when worker 0 is
  done they give what was traced. A scheduler makes the steps executable.
\<close>

section \<open>A trace of several workers\<close>

text \<open>The tracer between traces: prepared, with roots and objects enqueued that are marked, and nothing running.\<close>

definition parallel_ready :: "'b parallel_tracer \<Rightarrow> bool" where
  "parallel_ready s \<longleftrightarrow> 0 < pt_worker_count s \<and> tw_pc (pt_workers s 0) = Worker_Done \<and> pt_active_tracers s = 0
    \<and> (\<forall>j. 0 < j \<and> j < pt_worker_count s \<longrightarrow> tw_pc (pt_workers s j) = Worker_Waiting \<and> pt_locks s j = Some 0)
    \<and> (\<forall>j < pt_worker_count s. tw_steal_id (pt_workers s j) < pt_worker_count s)
    \<and> pt_traced s = [] \<and> mset_set (pt_marked s) = queued s"

definition trace_ok ::
    "(gc_ref \<Rightarrow> gc_ref list) \<Rightarrow> ('b gc_root \<Rightarrow> gc_ref list) \<Rightarrow> gc_ref set \<Rightarrow> gc_ref set \<Rightarrow> 'b parallel_tracer \<Rightarrow> bool" where
  "trace_ok edges targets I R s \<longleftrightarrow> locks_ok s \<and> work_ok s \<and> cover_ok edges targets I R s \<and> roots_ok s
    \<and> lock_all_ok s \<and> scan_ok s \<and> active_ok s"

lemma trace_step:
  assumes "parallel_step edges targets s s'" "trace_ok edges targets I R s" "\<And>r. r \<in> R \<Longrightarrow> set (edges r) \<subseteq> R"
  shows "trace_ok edges targets I R s'"
proof -
  have ok: "locks_ok s" "work_ok s" "cover_ok edges targets I R s" "roots_ok s" "lock_all_ok s" "scan_ok s" "active_ok s" "0 < pt_worker_count s"
    using assms(2) by (simp_all add: trace_ok_def locks_ok_def)
  show ?thesis unfolding trace_ok_def
    using locks_step[OF assms(1) ok(1)] work_step[OF assms(1) ok(2,8)] cover_step[OF assms(1) ok(3,2) assms(3)]
      roots_step[OF assms(1) ok(4,1)] lock_all_step[OF assms(1) ok(5)] scan_step[OF assms(1) ok(6,5,1,2)] active_step[OF assms(1) ok(7,1)]
    by simp
qed

lemma trace_steps:
  assumes "(parallel_step edges targets)\<^sup>*\<^sup>* s t" "trace_ok edges targets I R s" "\<And>r. r \<in> R \<Longrightarrow> set (edges r) \<subseteq> R"
  shows "trace_ok edges targets I R t" "pt_worker_count t = pt_worker_count s" "pt_trace_roots_only t = pt_trace_roots_only s"
  using assms(1)
proof (induction rule: rtranclp_induct)
  case (step t u)
  { case 1 show ?case using trace_step[OF step(2) step(3) assms(3)] . }
  { case 2 show ?case using parallel_step_count[OF step(2)] step(4) by simp }
  { case 3 show ?case using parallel_step_count[OF step(2)] step(5) by simp }
qed (simp_all add: assms(2))

lemma begin_fields [simp]:
  "pt_active_tracers (parallel_tracer_begin b s) = pt_active_tracers s" "pt_worker_count (parallel_tracer_begin b s) = pt_worker_count s"
  "pt_trace_roots_only (parallel_tracer_begin b s) = b" "pt_roots (parallel_tracer_begin b s) = pt_roots s"
  "pt_locks (parallel_tracer_begin b s) = pt_locks s" "pt_marked (parallel_tracer_begin b s) = pt_marked s"
  "pt_traced (parallel_tracer_begin b s) = pt_traced s"
  "tw_pc (pt_workers (parallel_tracer_begin b s) j) = (if j = 0 then Worker_Start 1 else tw_pc (pt_workers s j))"
  "tw_deque (pt_workers (parallel_tracer_begin b s) j) = tw_deque (pt_workers s j)"
  "tw_steal_id (pt_workers (parallel_tracer_begin b s) j) = tw_steal_id (pt_workers s j)"
  by (simp_all add: parallel_tracer_begin_def)

lemma begin_ok:
  fixes targets :: "'b gc_root \<Rightarrow> gc_ref list"
  assumes "parallel_ready s"
  defines "start \<equiv> pt_marked s \<union> (\<Union>r \<in> set (pt_roots s). set (targets r))"
  shows "trace_ok edges targets start (reached (\<lambda>r. set (edges r)) start) (parallel_tracer_begin b s)"
proof -
  let ?s = "parallel_tracer_begin b s"
  have r: "0 < pt_worker_count s" "tw_pc (pt_workers s 0) = Worker_Done" "pt_active_tracers s = 0"
    "\<And>j. 0 < j \<Longrightarrow> j < pt_worker_count s \<Longrightarrow> tw_pc (pt_workers s j) = Worker_Waiting \<and> pt_locks s j = Some 0"
    "\<And>j. j < pt_worker_count s \<Longrightarrow> tw_steal_id (pt_workers s j) < pt_worker_count s"
    "pt_traced s = []" "mset_set (pt_marked s) = queued s"
    using assms(1) by (simp_all add: parallel_ready_def)
  have pc: "tw_pc (pt_workers ?s j) = (if j = 0 then Worker_Start 1 else Worker_Waiting)" if "j < pt_worker_count s" for j
    using r(4)[of j] that by simp
  have "locks_ok ?s" using r(1,4) by (auto simp: locks_ok_def helper_ok_def)
  moreover have "work_ok ?s"
  proof -
    have "hands ?s = {#}" unfolding hands_def using pc by (intro sum.neutral) simp
    moreover have "queued ?s = queued s" by (simp add: queued_def)
    ultimately show ?thesis using r(5,6,7) by (simp add: work_ok_def)
  qed
  moreover have "cover targets ?s = start"
  proof -
    have "(\<Union>j < pt_worker_count s. pc_edges (tw_pc (pt_workers ?s j))) = {}" using pc by auto
    then show ?thesis by (simp add: cover_def start_def)
  qed
  then have "cover_ok edges targets start (reached (\<lambda>r. set (edges r)) start) ?s"
    using r(6) by (auto simp: cover_ok_def intro: reached_start)
  moreover have "roots_ok ?s" "lock_all_ok ?s" "scan_ok ?s" by (simp_all add: roots_ok_def lock_all_ok_def scan_ok_def)
  moreover have "active_ok ?s"
  proof -
    have "(\<Sum>j < pt_worker_count s. if pc_active (tw_pc (pt_workers ?s j)) then 1 else 0) = (0 :: nat)" by (intro sum.neutral) (use pc in auto)
    then show ?thesis using r(3) by (simp only: active_ok_def begin_fields)
  qed
  ultimately show ?thesis by (simp add: trace_ok_def)
qed

text \<open>What holds when worker 0 is done, after a trace of the roots only too: \<open>gc_tracer_trace_roots\<close> asserts
  that no tracer is active.\<close>

lemma parallel_trace_quiet:
  assumes "parallel_ready s" "(parallel_step edges targets)\<^sup>*\<^sup>* (parallel_tracer_begin roots_only s) t"
    "tw_pc (pt_workers t 0) = Worker_Done"
  shows "pt_roots t = []" "pt_active_tracers t = 0"
    "0 < j \<Longrightarrow> j < pt_worker_count t \<Longrightarrow> tw_pc (pt_workers t j) = Worker_Waiting \<and> pt_locks t j = Some 0"
proof -
  define start where "start = pt_marked s \<union> (\<Union>r \<in> set (pt_roots s). set (targets r))"
  define R where "R = reached (\<lambda>r. set (edges r)) start"
  have "trace_ok edges targets start R t"
    using trace_steps(1)[OF assms(2) begin_ok[OF assms(1)]] by (auto simp: start_def R_def intro: reached_edge)
  then have ok: "locks_ok t" "roots_ok t" "active_ok t" by (simp_all add: trace_ok_def)
  have asleep: "tw_pc (pt_workers t j) = Worker_Waiting \<and> pt_locks t j = Some 0" if "0 < j" "j < pt_worker_count t" for j
    using asleep_all[OF ok(1) _ that] assms(3) by simp
  have pc: "tw_pc (pt_workers t j) \<in> {Worker_Waiting, Worker_Done}" if "j < pt_worker_count t" for j
    using asleep[of j] that assms(3) by (cases "j = 0") simp_all
  show "pt_roots t = []" using ok(2) assms(3) by (simp add: roots_ok_def)
  show "pt_active_tracers t = 0" using ok(3) pc unfolding active_ok_def by (intro trans[OF _ sum.neutral]) fastforce+
  show "0 < j \<Longrightarrow> j < pt_worker_count t \<Longrightarrow> tw_pc (pt_workers t j) = Worker_Waiting \<and> pt_locks t j = Some 0" by (rule asleep)
qed

section \<open>A scheduler\<close>

text \<open>The step of worker \<open>i\<close>, when it has one: which worker is next is the only choice left.\<close>

definition parallel_next ::
    "(gc_ref \<Rightarrow> gc_ref list) \<Rightarrow> ('b gc_root \<Rightarrow> gc_ref list) \<Rightarrow> nat \<Rightarrow> 'b parallel_tracer \<Rightarrow> 'b parallel_tracer option" where
  "parallel_next edges targets i s =
    (let n = pt_worker_count s; w = pt_workers s i; v = tw_steal_id w in
     if \<not> i < n then None
     else case tw_pc w of
       Worker_Start k \<Rightarrow> if i \<noteq> 0 then None else if k < n then Some (go 0 (Worker_Start (k + 1)) (lock_as k None s))
         else if k = n then Some (go 0 Worker_Enter (s\<lparr>pt_epoch := pt_epoch s + 1\<rparr>)) else None
     | Worker_Waiting \<Rightarrow> if pt_locks s i = None then Some (go i Worker_Check (lock_as i (Some i) s)) else None
     | Worker_Check \<Rightarrow> Some (if tw_epoch w = pt_epoch s then go i Worker_Park s
         else put_worker i (\<lambda>w. w\<lparr>tw_epoch := pt_epoch s, tw_pc := Worker_Enter\<rparr>) s)
     | Worker_Enter \<Rightarrow> Some (put_worker i (\<lambda>w. w\<lparr>tw_count := 0, tw_pc := Worker_Root\<rparr>)
         (s\<lparr>pt_active_tracers := pt_active_tracers s + 1\<rparr>))
     | Worker_Root \<Rightarrow> (case pt_roots s of
         r # rs \<Rightarrow> Some (go i (Worker_Edges (targets r) True) (s\<lparr>pt_roots := rs\<rparr>))
       | [] \<Rightarrow> Some (go i (if \<not> pt_trace_roots_only s then Worker_Pop else if i = 0 then Worker_Lock_All 1 else Worker_Exit) s))
     | Worker_Edges es of_root \<Rightarrow> (case es of
         e # es' \<Rightarrow> Some (if e \<in> pt_marked s then go i (Worker_Edges es' of_root) s
           else go i (Worker_Push e es' of_root) (s\<lparr>pt_marked := insert e (pt_marked s)\<rparr>))
       | [] \<Rightarrow> Some (if of_root then go i Worker_Root s
           else put_worker i (\<lambda>w. w\<lparr>tw_count := tw_count w + 1, tw_pc := Worker_Traced\<rparr>) s))
     | Worker_Push e es of_root \<Rightarrow>
         Some (put_worker i (\<lambda>w. w\<lparr>tw_deque := tw_deque (pt_workers s i) @ [e], tw_pc := Worker_Edges es of_root\<rparr>) s)
     | Worker_Traced \<Rightarrow> Some (go i (if i = 0 \<and> tw_count w mod 128 = 0 \<and> tw_deque w \<noteq> [] then Worker_Maybe_Unpark else Worker_Pop) s)
     | Worker_Maybe_Unpark \<Rightarrow> Some (go i Worker_Pop
         (s\<lparr>pt_epoch := (if pt_active_tracers s < pt_worker_count s then pt_epoch s + 1 else pt_epoch s)\<rparr>))
     | Worker_Pop \<Rightarrow> Some (if tw_deque w = [] then put_worker i (\<lambda>w. w\<lparr>tw_deque := [], tw_pc := Worker_Steal 0\<rparr>) s
         else put_worker i (\<lambda>w. w\<lparr>tw_deque := butlast (tw_deque (pt_workers s i)), tw_pc := Worker_Trace (last (tw_deque (pt_workers s i)))\<rparr>) s)
     | Worker_Trace r \<Rightarrow> Some (go i (Worker_Edges (edges r) False) (s\<lparr>pt_traced := r # pt_traced s\<rparr>))
     | Worker_Steal k \<Rightarrow> if k < n then (case tw_deque (pt_workers s v) of
           r # q \<Rightarrow> Some (go i (Worker_Trace r) (put_worker v (\<lambda>w. w\<lparr>tw_deque := q\<rparr>) s))
         | [] \<Rightarrow> Some (go i (Worker_Steal (k + 1)) (put_worker i (next_victim s) s)))
         else if k = n then Some (go i Worker_Continue s) else None
     | Worker_Continue \<Rightarrow> Some (go i (if i \<noteq> 0 then Worker_Exit else if pt_active_tracers s = 1 then Worker_Try_Lock 1 else Worker_Pop) s)
     | Worker_Try_Lock k \<Rightarrow> if k < n then Some (if pt_locks s k = None then go i (Worker_Try_Lock (k + 1)) (lock_as k (Some 0) s)
           else go i (Worker_Unlock k) s)
         else if k = n then Some (go i (Worker_Can_Steal 0) s) else None
     | Worker_Can_Steal k \<Rightarrow> if k < n then Some (if tw_deque (pt_workers s v) \<noteq> [] then go i (Worker_Unlock n) s
           else go i (Worker_Can_Steal (k + 1)) (put_worker i (next_victim s) s))
         else if k = n then Some (go i Worker_Exit s) else None
     | Worker_Unlock k \<Rightarrow> Some (if 1 < k then go i (Worker_Unlock (k - 1)) (lock_as (k - 1) None s) else go i Worker_Pop s)
     | Worker_Lock_All k \<Rightarrow> if k < n then if pt_locks s k = None then Some (go i (Worker_Lock_All (k + 1)) (lock_as k (Some 0) s)) else None
         else if k = n then Some (go i Worker_Exit s) else None
     | Worker_Exit \<Rightarrow> Some (go i (if i = 0 then Worker_Done else Worker_Park) (s\<lparr>pt_active_tracers := pt_active_tracers s - 1\<rparr>))
     | Worker_Park \<Rightarrow> Some (go i Worker_Waiting (lock_as i None s))
     | Worker_Done \<Rightarrow> None)"

lemma parallel_next_step:
  assumes "parallel_next edges targets i s = Some s'"
  shows "parallel_step edges targets s s'"
proof -
  let ?w = "pt_workers s i"
  have i: "i < pt_worker_count s" using assms by (auto simp: parallel_next_def Let_def split: if_splits)
  have pop: "deque_spec q (Popped (Some (last q))) (butlast q)" if "q \<noteq> []" for q
    using deque_spec.intros(3)[of "butlast q" "last q"] that by simp
  note n = assms[unfolded parallel_next_def Let_def] i
  show ?thesis
  proof (cases "tw_pc ?w")
    case (Worker_Start k)
    then show ?thesis using n by (auto split: if_splits intro: parallel_step.start[simplified] parallel_step.unpark_all[simplified])
  next
    case Worker_Root
    then show ?thesis using n
      by (auto split: if_splits list.splits intro: parallel_step.root[simplified] parallel_step.roots_done[simplified] parallel_step.roots_only_main[simplified] parallel_step.roots_only_helper[simplified])
  next
    case (Worker_Edges es of_root)
    then show ?thesis using n
      by (auto split: if_splits list.splits intro: parallel_step.edge_old[simplified] parallel_step.edge_new[simplified] parallel_step.edges_done_root[simplified] parallel_step.edges_done_object[simplified])
  next
    case (Worker_Push e es of_root)
    then show ?thesis using n by (auto intro!: parallel_step.push[simplified] deque_spec.intros(2)[of _ "[e]"])
  next
    case Worker_Traced
    then show ?thesis using n by (auto split: if_splits intro: parallel_step.traced[simplified] parallel_step.traced_many[simplified])
  next
    case Worker_Pop
    show ?thesis
    proof (cases "tw_deque ?w = []")
      case True
      then have "deque_spec (tw_deque ?w) (Popped None) []" by (simp add: deque_spec.intros(4))
      then show ?thesis using n Worker_Pop True parallel_step.pop_none[where edges = edges and targets = targets and s = s and i = i and q = "[]"] by simp
    next
      case False
      then show ?thesis using n Worker_Pop parallel_step.pop[OF _ pop[OF False], where edges = edges and targets = targets] by simp
    qed
  next
    case (Worker_Steal k)
    let ?v = "tw_steal_id ?w"
    consider "k < pt_worker_count s" "tw_deque (pt_workers s ?v) = []" | r q where "k < pt_worker_count s" "tw_deque (pt_workers s ?v) = r # q"
      | "\<not> k < pt_worker_count s" by (cases "tw_deque (pt_workers s ?v)") auto
    then show ?thesis
    proof cases
      case 1
      have "deque_spec (tw_deque (pt_workers s ?v)) (Stolen None) []" using 1(2) deque_spec.intros(6)[of "[]"] by simp
      then show ?thesis using n Worker_Steal 1 parallel_step.steal_none[OF _ 1(1) refl, where edges = edges and targets = targets and i = i and q = "[]"] by simp
    next
      case 2
      have "deque_spec (tw_deque (pt_workers s ?v)) (Stolen (Some r)) q" using 2(2) deque_spec.intros(5)[of r q] by simp
      then show ?thesis using n Worker_Steal 2 parallel_step.steal[OF _ 2(1) refl, where edges = edges and targets = targets and i = i and r = r and q = q] by simp
    next
      case 3
      then show ?thesis using n Worker_Steal by (auto split: if_splits intro: parallel_step.steal_failed[simplified])
    qed
  next
    case Worker_Continue
    then show ?thesis using n
      by (auto split: if_splits intro: parallel_step.continue_helper[simplified] parallel_step.continue_spin[simplified] parallel_step.continue_check[simplified])
  next
    case (Worker_Try_Lock k)
    then show ?thesis using n by (auto split: if_splits intro: parallel_step.try_lock[simplified] parallel_step.try_lock_failed[simplified] parallel_step.try_lock_done[simplified])
  next
    case (Worker_Can_Steal k)
    then show ?thesis using n
      by (cases "tw_deque (pt_workers s (tw_steal_id ?w)) = []")
        (auto split: if_splits intro: parallel_step.cannot_steal[simplified] parallel_step.can_steal[simplified] parallel_step.no_work[simplified])
  next
    case (Worker_Unlock k)
    then show ?thesis using n by (auto split: if_splits intro: parallel_step.unlock[simplified] parallel_step.unlocked[simplified])
  next
    case (Worker_Lock_All k)
    then show ?thesis using n by (auto split: if_splits intro: parallel_step.lock_all[simplified] parallel_step.locked_all[simplified])
  next
    case Worker_Check
    then show ?thesis using n by (auto split: if_splits intro: parallel_step.check_new[simplified] parallel_step.check_old[simplified])
  next
    case Worker_Waiting
    then show ?thesis using n by (auto split: if_splits intro: parallel_step.wake[simplified])
  next
    case Worker_Exit
    then show ?thesis using n parallel_step.exit[where edges = edges and targets = targets and s = s and i = i] by simp
  qed (use n in \<open>auto intro: parallel_step.enter[simplified] parallel_step.maybe_unpark[simplified] parallel_step.trace[simplified] parallel_step.park[simplified]\<close>)
qed

primrec parallel_run ::
    "(gc_ref \<Rightarrow> gc_ref list) \<Rightarrow> ('b gc_root \<Rightarrow> gc_ref list) \<Rightarrow> nat list \<Rightarrow> 'b parallel_tracer \<Rightarrow> 'b parallel_tracer option" where
  "parallel_run edges targets [] s = Some s"
| "parallel_run edges targets (i # is) s = Option.bind (parallel_next edges targets i s) (parallel_run edges targets is)"

lemma parallel_run_steps: "parallel_run edges targets is s = Some t \<Longrightarrow> (parallel_step edges targets)\<^sup>*\<^sup>* s t"
proof (induction "is" arbitrary: s)
  case (Cons i "is")
  then obtain s' where "parallel_next edges targets i s = Some s'" "parallel_run edges targets is s' = Some t"
    by (auto simp: bind_eq_Some_conv)
  then show ?case using Cons.IH[of s'] parallel_next_step by (metis converse_rtranclp_into_rtranclp)
qed simp

text \<open>C3: However the steps of the workers interleave, when worker 0 returns from a parallel trace no root,
  no enqueued object and no active tracer is left, every helper sleeps with its mutex held by worker 0, and
  the marked objects are those reachable from the roots and the objects enqueued before, each of which has
  been traced exactly once.\<close>

theorem parallel_trace_complete:
  assumes "parallel_ready s" "(parallel_step edges targets)\<^sup>*\<^sup>* (parallel_tracer_begin False s) t"
    "tw_pc (pt_workers t 0) = Worker_Done"
  shows "pt_roots t = [] \<and> pt_active_tracers t = 0
    \<and> (\<forall>j < pt_worker_count t. tw_deque (pt_workers t j) = [])
    \<and> (\<forall>j. 0 < j \<and> j < pt_worker_count t \<longrightarrow> tw_pc (pt_workers t j) = Worker_Waiting \<and> pt_locks t j = Some 0)
    \<and> pt_marked t = reached (\<lambda>r. set (edges r)) (pt_marked s \<union> (\<Union>r \<in> set (pt_roots s). set (targets r)))
    \<and> mset (pt_traced t) = mset_set (pt_marked t)"
proof -
  define start where "start = pt_marked s \<union> (\<Union>r \<in> set (pt_roots s). set (targets r))"
  define R where "R = reached (\<lambda>r. set (edges r)) start"
  have "trace_ok edges targets start R t" "\<not> pt_trace_roots_only t"
    using trace_steps[OF assms(2) begin_ok[OF assms(1)]] by (auto simp: start_def R_def intro: reached_edge)
  then have ok: "locks_ok t" "work_ok t" "cover_ok edges targets start R t" "scan_ok t"
    "\<not> pt_trace_roots_only t" by (simp_all add: trace_ok_def)
  note quiet = parallel_trace_quiet[OF assms]
  have pc: "tw_pc (pt_workers t j) \<in> {Worker_Waiting, Worker_Done}" if "j < pt_worker_count t" for j
    using quiet(3)[of j] that assms(3) by (cases "j = 0") simp_all
  have empty: "tw_deque (pt_workers t j) = []" if "j < pt_worker_count t" for j
    using ok(4,5) assms(3) that by (auto simp: scan_ok_def)
  have "hands t = {#}" unfolding hands_def using pc by (intro sum.neutral) fastforce
  moreover have "queued t = {#}" unfolding queued_def using empty by (intro sum.neutral) simp
  ultimately have traced: "mset (pt_traced t) = mset_set (pt_marked t)" using ok(2) by (simp add: work_ok_def)
  have "(\<Union>j < pt_worker_count t. pc_edges (tw_pc (pt_workers t j))) = {}" using pc by fastforce
  then have "cover targets t = pt_marked t" by (simp add: cover_def quiet(1))
  then have "start \<subseteq> pt_marked t" "pt_marked t \<subseteq> R" "\<forall>r \<in> set (pt_traced t). set (edges r) \<subseteq> pt_marked t"
    using ok(3) by (simp_all add: cover_ok_def)
  moreover have "set (pt_traced t) = pt_marked t" using arg_cong[OF traced, of set_mset] by simp
  ultimately have "pt_marked t = R"
    unfolding R_def by (intro antisym reached_least) auto
  then show ?thesis using quiet empty traced unfolding R_def start_def by simp
qed

text \<open>Two workers, which trace one object of \<open>example_succs\<close> each.\<close>

definition example_parallel :: "unit parallel_tracer" where
  "example_parallel = parallel_tracer_add_root (parallel_tracer_prepare
    \<lparr> pt_active_tracers = 0, pt_worker_count = 2, pt_epoch = 0, pt_trace_roots_only = False,
      pt_roots = [], pt_workers = (\<lambda>_. trace_worker_init)(0 := trace_worker_init\<lparr>tw_pc := Worker_Done\<rparr>),
      pt_locks = (\<lambda>i. if 0 < i \<and> i < 2 then Some 0 else None), pt_marked = {}, pt_traced = [] \<rparr>) (Root_edge 8)"

definition example_schedule :: "nat list" where
  "example_schedule = concat (replicate 37 [0, 1]) @ replicate 6 0"

lemma example_parallel_run:
  "case parallel_run example_succs example_targets example_schedule (parallel_tracer_begin False example_parallel) of
     None \<Rightarrow> False
   | Some t \<Rightarrow> tw_pc (pt_workers t 0) = Worker_Done \<and> pt_traced t = [16, 8] \<and> tw_count (pt_workers t 1) = 1"
  by code_simp

theorem parallel_trace_complete_witness:
  "\<exists>s t. parallel_tracer_init (\<lambda>_. True) 2 = Inr (Some s)
    \<and> (parallel_step example_succs example_targets)\<^sup>*\<^sup>*
        (parallel_tracer_begin False (parallel_tracer_add_root (parallel_tracer_prepare s) (Root_edge 8 :: unit gc_root))) t
    \<and> pt_marked t = reached (\<lambda>r. set (example_succs r)) {8} \<and> pt_traced t = [16, 8] \<and> tw_count (pt_workers t 1) = 1"
proof -
  define s :: "unit parallel_tracer" where "s = \<lparr> pt_active_tracers = 0, pt_worker_count = 2, pt_epoch = 0, pt_trace_roots_only = False,
      pt_roots = [], pt_workers = (\<lambda>_. trace_worker_init)(0 := trace_worker_init\<lparr>tw_pc := Worker_Done\<rparr>),
      pt_locks = (\<lambda>i. if 0 < i \<and> i < 2 then Some 0 else None), pt_marked = {}, pt_traced = [] \<rparr>"
  have s: "parallel_tracer_init (\<lambda>_. True) 2 = Inr (Some s)"
    by (simp add: parallel_tracer_init_def s_def TRACE_WORKERS_MAX_COUNT_def gc_assert_def upt_rec numeral_2_eq_2)
  have e: "example_parallel = parallel_tracer_add_root (parallel_tracer_prepare s) (Root_edge 8)"
    by (simp add: example_parallel_def s_def)
  have r: "parallel_ready example_parallel"
    by (auto simp: parallel_ready_def example_parallel_def parallel_tracer_add_root_def parallel_tracer_prepare_def trace_worker_init_def
      queued_def lessThan_nat_numeral)
  obtain t where t: "parallel_run example_succs example_targets example_schedule (parallel_tracer_begin False example_parallel) = Some t"
    and fin: "tw_pc (pt_workers t 0) = Worker_Done" "pt_traced t = [16, 8] \<and> tw_count (pt_workers t 1) = 1"
    using example_parallel_run by (auto split: option.splits)
  note run = parallel_run_steps[OF t]
  have "pt_marked example_parallel \<union> (\<Union>r \<in> set (pt_roots example_parallel). set (example_targets r)) = {8}"
    by (simp add: example_parallel_def parallel_tracer_add_root_def parallel_tracer_prepare_def example_targets_def)
  then have "pt_marked t = reached (\<lambda>r. set (example_succs r)) {8}"
    using parallel_trace_complete[OF r run fin(1)] by simp
  then show ?thesis using s run fin(2) unfolding e by blast
qed
end
