(* ===== verification/NoflPageOut.thy ===== *)
theory NoflPageOut
  imports NoflGC
begin

text \<open>
  What becomes of the blocks that the nofl space gives up. They are pushed on the page-out queue at age 0,
  or at the last age when they are paged out already, and the background thread is to age them once a second
  until they are paged out. The queue does not
  move: \<open>nofl_space_advance_page_out_queue\<close> goes from age 1 down and stops at the first age without a
  block, which is the first one it looks at, since nothing else puts a block at age 1.
\<close>

section \<open>What holds of a result\<close>

definition keeps :: "('a \<Rightarrow> bool) \<Rightarrow> 'a result \<Rightarrow> bool" where
  "keeps P r \<longleftrightarrow> (case r of Inl _ \<Rightarrow> True | Inr x \<Rightarrow> P x)"

lemma keeps_simps [simp]: "keeps P (Inr x) \<longleftrightarrow> P x" "keeps P (Inl e)"
  by (simp_all add: keeps_def)

lemma keeps_bind: "keeps P r \<Longrightarrow> (\<And>x. P x \<Longrightarrow> keeps R (f x)) \<Longrightarrow> keeps R (result_bind r f)"
  by (cases r) simp_all

lemma keeps_assert: "(c \<Longrightarrow> keeps R (f ())) \<Longrightarrow> keeps R (result_bind (gc_assert c) f)"
  by (cases c) (simp_all add: gc_assert_def)

lemma keeps_if: "(c \<Longrightarrow> keeps P a) \<Longrightarrow> (\<not> c \<Longrightarrow> keeps P b) \<Longrightarrow> keeps P (if c then a else b)"
  by simp

lemma keeps_while:
  assumes "I s" "\<And>s. I s \<Longrightarrow> P s \<Longrightarrow> keeps I (f s)"
  shows "keeps I (while_result P f s)"
proof -
  have keeps_step: "I t" if "I s'" "P s'" "f s' = Inr t" for s' t using assms(2)[OF that(1,2)] that(3) by simp
  have "case r of Inl _ \<Rightarrow> True | Inr x \<Rightarrow> I x"
    if "while_option (\<lambda>r. case r of Inl _ \<Rightarrow> False | Inr s \<Rightarrow> P s) (\<lambda>r. result_bind r f) (Inr s) = Some r" for r
    by (rule while_option_rule[OF _ that]) (use assms keeps_step in \<open>auto split: sum.splits\<close>)
  then show ?thesis by (auto simp: while_result_def keeps_def split: option.splits)
qed

lemma keeps_fold:
  assumes "I s" "\<And>x s. I s \<Longrightarrow> keeps I (f x s)"
  shows "keeps I (result_fold f xs s)"
  using assms(1)
proof (induction xs arbitrary: s)
  case (Cons x xs)
  show ?case unfolding result_fold.simps by (rule keeps_bind[OF assms(2)[OF Cons.prems] Cons.IH])
qed simp

lemma keeps_Inr: "keeps P r \<Longrightarrow> r = Inr x \<Longrightarrow> P x"
  by simp

section \<open>The middle of the queue stays empty\<close>

definition queue_empty :: "nofl_space \<Rightarrow> bool" where
  "queue_empty space \<longleftrightarrow> list_blocks (ns_lists space (List_paged_out 1)) = 0 \<and> list_blocks (ns_lists space (List_paged_out 2)) = 0"

lemma queue_empty_lists: "ns_lists t = ns_lists s \<Longrightarrow> queue_empty t \<longleftrightarrow> queue_empty s"
  by (simp add: queue_empty_def)

lemma queue_empty_fields [simp]:
  "queue_empty (update_summary b f s) \<longleftrightarrow> queue_empty s"
  "queue_empty (s\<lparr>ns_mem := m\<rparr>) \<longleftrightarrow> queue_empty s"
  "queue_empty (s\<lparr>ns_pending_unavailable_bytes := n\<rparr>) \<longleftrightarrow> queue_empty s"
  "queue_empty (s\<lparr>ns_extents := e\<rparr>) \<longleftrightarrow> queue_empty s"
  "queue_empty (s\<lparr>ns_slabs := l\<rparr>) \<longleftrightarrow> queue_empty s"
  "queue_empty (s\<lparr>ns_holes := h\<rparr>) \<longleftrightarrow> queue_empty s"
  "queue_empty (s\<lparr>ns_evacuating := b'\<rparr>) \<longleftrightarrow> queue_empty s"
  "queue_empty (s\<lparr>ns_evacuation_reserve := r\<rparr>) \<longleftrightarrow> queue_empty s"
  "queue_empty (s\<lparr>ns_evacuation_minimum_reserve := r\<rparr>) \<longleftrightarrow> queue_empty s"
  "queue_empty (s\<lparr>ns_last_collection_was_minor := b'\<rparr>) \<longleftrightarrow> queue_empty s"
  "queue_empty (s\<lparr>ns_old_generation_granules := g\<rparr>) \<longleftrightarrow> queue_empty s"
  "queue_empty (s\<lparr>ns_survivor_granules := g\<rparr>) \<longleftrightarrow> queue_empty s"
  "queue_empty (s\<lparr>ns_allocated_granules := g\<rparr>) \<longleftrightarrow> queue_empty s"
  "queue_empty (s\<lparr>ns_fragmentation_granules := g\<rparr>) \<longleftrightarrow> queue_empty s"
  "queue_empty (s\<lparr>ns_second_chance_granules := g\<rparr>) \<longleftrightarrow> queue_empty s"
  "queue_empty (s\<lparr>ns_survivor_mark := mk\<rparr>) \<longleftrightarrow> queue_empty s"
  "queue_empty (s\<lparr>ns_current_mark := mk\<rparr>) \<longleftrightarrow> queue_empty s"
  "queue_empty (s\<lparr>ns_promotion_threshold := q\<rparr>) \<longleftrightarrow> queue_empty s"
  "queue_empty (s\<lparr>ns_heap_has_ambiguous_edges := b'\<rparr>) \<longleftrightarrow> queue_empty s"
  by (simp_all add: queue_empty_def update_summary_def)

lemma set_flag_queue: "queue_empty s \<Longrightarrow> keeps queue_empty (nofl_block_set_flag b f s)"
  unfolding nofl_block_set_flag_def by (rule keeps_assert) simp

lemma clear_flag_queue: "queue_empty s \<Longrightarrow> keeps queue_empty (nofl_block_clear_flag b f s)"
  unfolding nofl_block_clear_flag_def by (rule keeps_assert) simp

lemma set_next_queue: "queue_empty s \<Longrightarrow> keeps queue_empty (nofl_block_set_next b n s)"
  unfolding nofl_block_set_next_def by (rule keeps_assert, rule keeps_bind[where P = "\<lambda>_. True"]) (simp_all add: keeps_def split: sum.splits)

definition other_list :: "nofl_list \<Rightarrow> bool" where
  "other_list n \<longleftrightarrow> n \<noteq> List_paged_out 1 \<and> n \<noteq> List_paged_out 2"

lemma other_lists [simp]: "other_list List_empty" "other_list List_to_sweep" "other_list List_partly_full" "other_list List_full"
  "other_list List_promoted" "other_list List_old" "other_list List_evacuation_targets" "other_list List_local"
  "other_list (List_paged_out 0)" "other_list (List_paged_out 3)"
  by (simp_all add: other_list_def)

lemma queue_empty_put [simp]: "other_list n \<Longrightarrow> queue_empty (put_list n l space) \<longleftrightarrow> queue_empty space"
  by (auto simp: queue_empty_def other_list_def)

lemma keeps_any: "keeps (\<lambda>_. True) r"
  by (simp add: keeps_def split: sum.splits)

lemma push_queue:
  assumes "queue_empty s" "other_list n"
  shows "keeps queue_empty (nofl_block_list_push n b s)"
  unfolding nofl_block_list_push_def Let_def
  by (rule keeps_bind[OF keeps_any], rule keeps_assert, rule keeps_bind[OF set_next_queue]) (use assms in simp_all)

lemma stack_push_queue:
  assumes "queue_empty s" "other_list n"
  shows "keeps queue_empty (nofl_block_stack_push n b s)"
  unfolding nofl_block_stack_push_def Let_def
  by (rule keeps_bind[OF keeps_any], rule keeps_assert, rule keeps_bind[OF set_next_queue]) (use assms in simp_all)

lemma head_null: "nofl_block_is_null nofl_block_null"
  by (simp add: nofl_block_is_null_def nofl_block_null_def)

lemma queue_pop_none:
  assumes "queue_empty s" "\<not> other_list n"
  shows "nofl_block_stack_pop n s = Inr (nofl_block_null, s)"
  using assms by (auto simp: nofl_block_stack_pop_def nofl_block_head_def head_null queue_empty_def other_list_def numeral_2_eq_2)

lemma stack_pop_queue:
  assumes "queue_empty s"
  shows "keeps (\<lambda>(_, s). queue_empty s) (nofl_block_stack_pop n s)"
proof (cases "other_list n")
  case True
  show ?thesis unfolding nofl_block_stack_pop_def Let_def
  proof (split if_split, intro conjI impI)
    show "keeps (\<lambda>(_, s). queue_empty s) (Inr (nofl_block_head s n, s))" using assms by simp
  qed (rule keeps_bind[OF keeps_any], rule keeps_bind[OF set_next_queue], use assms True in simp_all)
qed (simp add: queue_pop_none[OF assms] assms)

lemma pop_queue:
  assumes "queue_empty s" "other_list n"
  shows "keeps (\<lambda>(_, s). queue_empty s) (nofl_block_list_pop n s)"
  unfolding nofl_block_list_pop_def Let_def
proof (split if_split, intro conjI impI)
  show "keeps (\<lambda>(_, s). queue_empty s) (Inr (nofl_block_null, s))" using assms by simp
qed (rule keeps_bind[OF keeps_any], rule keeps_bind[OF set_next_queue], use assms in simp_all)

lemma push_empty_queue: "queue_empty s \<Longrightarrow> keeps queue_empty (nofl_push_empty_block b s)"
  unfolding nofl_push_empty_block_def by (rule stack_push_queue) simp_all

lemma pop_empty_queue: "queue_empty s \<Longrightarrow> keeps (\<lambda>(_, s). queue_empty s) (nofl_pop_empty_block_with_lock s)"
  unfolding nofl_pop_empty_block_with_lock_def by (rule stack_pop_queue)

lemma push_target_queue: "queue_empty s \<Longrightarrow> keeps (\<lambda>(_, s). queue_empty s) (nofl_maybe_push_evacuation_target b r s)"
  unfolding nofl_maybe_push_evacuation_target_def Let_def
  by (rule keeps_bind[OF keeps_any]) (auto intro!: keeps_bind[OF push_queue])

lemma push_unavailable_queue: "queue_empty s \<Longrightarrow> keeps queue_empty (nofl_push_unavailable_block b s)"
  unfolding nofl_push_unavailable_block_def
  by (rule keeps_bind[OF set_flag_queue], assumption, rule keeps_bind[OF keeps_any], rule stack_push_queue)
    (simp_all add: NOFL_PAGE_OUT_QUEUE_SIZE_def)

lemma pop_unavailable_queue: "queue_empty s \<Longrightarrow> keeps (\<lambda>(_, s). queue_empty s) (pop_unavailable ages s)"
proof (induction ages arbitrary: s)
  case (Cons age ages)
  show ?case unfolding pop_unavailable.simps
    by (rule keeps_bind[OF stack_pop_queue[OF Cons.prems]]) (auto intro!: keeps_bind[OF clear_flag_queue] Cons.IH)
qed simp

section \<open>Resizing, collecting, and the tasks of the background thread\<close>

lemma reacquire_queue:
  assumes "queue_empty s"
  shows "keeps (\<lambda>(_, s). queue_empty s) (nofl_space_maybe_reacquire_memory b s)"
  unfolding nofl_space_maybe_reacquire_memory_def Let_def
  by (rule keeps_bind[OF keeps_while[where I = "\<lambda>(_, _, s). queue_empty s"]])
    (use assms in \<open>auto simp: nofl_pop_unavailable_block_def nofl_push_evacuation_target_if_needed_def
      intro!: keeps_bind[OF pop_unavailable_queue] keeps_bind[OF push_target_queue] keeps_bind[where P = queue_empty] push_empty_queue\<close>)

lemma release_one_queue:
  assumes "keeps (\<lambda>(_, s). queue_empty s) (pop s)"
  shows "keeps (\<lambda>(_, _, s). queue_empty s) (release_one pop s)"
  unfolding release_one_def Let_def by (rule keeps_bind[OF assms]) (auto intro!: keeps_bind[OF push_unavailable_queue])

lemma shrink_queue:
  assumes "queue_empty s"
  shows "keeps (\<lambda>(_, s). queue_empty s) (nofl_space_shrink b s)"
proof -
  have 1: "keeps (\<lambda>(_, _, s). queue_empty s)
      (result_bind (release_one nofl_pop_empty_block_with_lock s) (\<lambda>(more, p, space). Inr (more, if more then p else pending, space)))"
    if "queue_empty s" for s pending
    by (rule keeps_bind[OF release_one_queue[where pop = nofl_pop_empty_block_with_lock, OF pop_empty_queue[OF that]]]) auto
  have 2: "keeps (\<lambda>(_, _, s). queue_empty s)
      (result_bind (release_one (nofl_block_list_pop List_evacuation_targets) s) (\<lambda>(found, pending, space).
        result_bind (gc_assert found) (\<lambda>_. Inr (avail - 1, pending, space))))"
    if "queue_empty s" for s and avail :: nat
    by (rule keeps_bind[OF release_one_queue[where pop = "nofl_block_list_pop List_evacuation_targets", OF pop_queue[OF that other_lists(7)]]]) (auto intro!: keeps_assert)
  have 3: "keeps (\<lambda>(_, s). queue_empty s) (result_bind (nofl_active_block_count s) (\<lambda>active.
      result_bind (while_result (\<lambda>(avail, pending, _). avail > reserve_blocks active (ns_evacuation_minimum_reserve s) \<and> pending > 0)
        (\<lambda>(avail, pending, space).
          result_bind (release_one (nofl_block_list_pop List_evacuation_targets) space) (\<lambda>(found, pending, space).
          result_bind (gc_assert found) (\<lambda>_. Inr (avail - 1, pending, space)))) (nofl_evacuation_block_count s, pending, s))
        (\<lambda>(_, st). Inr st)))" if "queue_empty s" for s and pending :: int
    by (rule keeps_bind[OF keeps_any], rule keeps_bind[OF keeps_while[where I = "\<lambda>(_, _, s). queue_empty s"]])
      (use that 2 in auto)
  show ?thesis unfolding nofl_space_shrink_def nofl_space_request_release_memory_def Let_def prod.case
    by (rule keeps_bind[OF keeps_while[where I = "\<lambda>(_, _, s). queue_empty s"]])
      (use assms in \<open>auto intro!: 1 keeps_bind[where P = "\<lambda>(_, s). queue_empty s"] 3[simplified]\<close>)
qed

lemma expand_queue:
  assumes "queue_empty s"
  shows "keeps queue_empty (nofl_space_expand acquire b s)"
proof -
  have 1: "keeps queue_empty (nofl_space_add_slabs slabs n s)" if "queue_empty s" for slabs n s
    unfolding nofl_space_add_slabs_def by (rule keeps_bind[OF keeps_any]) (use that in simp)
  have 2: "keeps queue_empty (result_fold (\<lambda>block space.
      result_bind (nofl_block_set_flag block (NOFL_BLOCK_ZERO OR NOFL_BLOCK_PAGED_OUT) space) (nofl_push_unavailable_block block)) blocks s)"
    if "queue_empty s" for blocks s
    by (rule keeps_fold[where I = queue_empty, OF that]) (rule keeps_bind[OF set_flag_queue push_unavailable_queue])
  have 3: "keeps queue_empty (result_bind (nofl_space_maybe_reacquire_memory b s) (\<lambda>(_, space). Inr space))" if "queue_empty s" for b s
    by (rule keeps_bind[OF reacquire_queue[OF that]]) auto
  have 4: "keeps queue_empty (result_bind (nofl_space_add_slabs slabs n s) (\<lambda>space. result_bind (result_fold (\<lambda>block space.
      result_bind (nofl_block_set_flag block (NOFL_BLOCK_ZERO OR NOFL_BLOCK_PAGED_OUT) space) (nofl_push_unavailable_block block)) blocks space)
      (\<lambda>space. result_bind (nofl_space_maybe_reacquire_memory 0 space) (\<lambda>(_, space). Inr space))))"
    if "queue_empty s" for slabs n blocks s
    by (rule keeps_bind[OF 1[OF that]], rule keeps_bind[OF 2], assumption, rule 3)
  show ?thesis unfolding nofl_space_expand_def Let_def
    by (rule keeps_bind[OF reacquire_queue[OF assms]]) (simp only: split_beta split: if_split, use 4 in auto)
qed

lemma move_blocks_queue:
  assumes "\<And>s. queue_empty s \<Longrightarrow> keeps (\<lambda>(_, s). queue_empty s) (pop s)" "\<And>b s. queue_empty s \<Longrightarrow> keeps queue_empty (push b s)"
    and "queue_empty s"
  shows "keeps queue_empty (move_blocks pop push s)"
  unfolding move_blocks_def
  by (rule keeps_bind[OF keeps_while[where I = "\<lambda>(_, s). queue_empty s"]])
    (use assms in \<open>auto intro!: keeps_bind[OF assms(1)] keeps_bind[OF assms(2)]\<close>)

lemma move_list_queue:
  "queue_empty s \<Longrightarrow> other_list n \<Longrightarrow> other_list m \<Longrightarrow> keeps queue_empty (move_blocks (nofl_block_list_pop n) (nofl_block_list_push m) s)"
  by (rule move_blocks_queue) (simp_all add: pop_queue push_queue)

lemma mark_candidates_queue:
  assumes "queue_empty s"
  shows "keeps queue_empty (mark_candidates h s)"
proof -
  have "keeps (\<lambda>(_, s). queue_empty s)
     (if h ! n \<noteq> 0 then result_bind (nofl_block_set_flag b NOFL_BLOCK_EVACUATE s) (\<lambda>space. Inr (h[n := h ! n - 1], space))
      else result_bind (nofl_block_clear_flag b NOFL_BLOCK_EVACUATE s) (\<lambda>space. Inr (h, space)))" if "queue_empty s" for h s b and n :: nat
    by (rule keeps_if; rule keeps_bind[OF set_flag_queue[OF that]] keeps_bind[OF clear_flag_queue[OF that]]) simp_all
  then have step: "keeps (\<lambda>(_, _, s). queue_empty s) (result_bind
     (if h ! n \<noteq> 0 then result_bind (nofl_block_set_flag b NOFL_BLOCK_EVACUATE s) (\<lambda>space. Inr (h[n := h ! n - 1], space))
      else result_bind (nofl_block_clear_flag b NOFL_BLOCK_EVACUATE s) (\<lambda>space. Inr (h, space)))
     (\<lambda>(hist, space). result_bind (nofl_block_next space b) (\<lambda>nxt. Inr (nxt, hist, space))))" if "queue_empty s" for h s b and n :: nat
    by (rule keeps_bind) (use that in \<open>auto intro!: keeps_bind[OF keeps_any]\<close>)
  show ?thesis unfolding mark_candidates_def Let_def
    by (rule keeps_bind[OF keeps_while[where I = "\<lambda>(_, _, s). queue_empty s"]], simp add: assms, clarify, erule step, auto)
qed

lemma prepare_evacuation_queue:
  assumes "queue_empty s"
  shows "keeps queue_empty (nofl_space_prepare_evacuation s)"
  unfolding nofl_space_prepare_evacuation_def Let_def
  by (rule keeps_assert, rule keeps_bind[OF move_blocks_queue], erule pop_queue, simp, erule push_empty_queue, rule assms, rule keeps_assert,
      split if_split, intro conjI impI) (auto intro!: keeps_bind[OF keeps_any] mark_candidates_queue)

lemma start_gc_queue:
  assumes "queue_empty s"
  shows "keeps queue_empty (nofl_space_start_gc kind s)"
  unfolding nofl_space_start_gc_def
  by (rule keeps_assert, rule keeps_bind[OF move_list_queue[OF assms]], simp, simp, rule keeps_bind[OF move_list_queue], assumption, simp, simp,
      rule keeps_bind[where P = queue_empty])
    (auto intro!: prepare_evacuation_queue keeps_bind[OF move_list_queue])

lemma finish_evacuation_queue:
  assumes "queue_empty s"
  shows "keeps queue_empty (nofl_space_finish_evacuation s)"
  unfolding nofl_space_finish_evacuation_def Let_def
  by (rule keeps_assert, rule keeps_bind[OF keeps_any], rule keeps_assert, rule keeps_bind[OF keeps_while[where I = "\<lambda>(_, s). queue_empty s"]])
    (use assms in \<open>auto intro!: keeps_bind[OF pop_empty_queue] keeps_bind[OF push_queue]\<close>)

lemma return_reserve_queue:
  assumes "queue_empty s"
  shows "keeps queue_empty (return_reserve r t s)"
  unfolding return_reserve_def
  by (rule keeps_bind[OF keeps_while[where I = "\<lambda>(_, s). queue_empty s"]])
    (use assms in \<open>auto intro!: keeps_bind[OF pop_queue] keeps_bind[OF push_empty_queue]\<close>)

section \<open>Sweeping and allocating\<close>

abbreviation queue_empty_alloc :: "nofl_allocator \<times> nofl_space \<Rightarrow> bool" where
  "queue_empty_alloc st \<equiv> queue_empty (snd st)"

lemma finish_hole_queue:
  assumes "queue_empty_alloc st"
  shows "keeps queue_empty_alloc (nofl_allocator_finish_hole c st)"
  unfolding nofl_allocator_finish_hole_def Let_def split_beta
  by (split if_split, intro conjI impI, rule keeps_bind[where P = queue_empty_alloc])
    (use assms in \<open>auto intro!: keeps_bind[OF keeps_any]\<close>)

lemma next_hole_in_block_queue:
  assumes "queue_empty_alloc st"
  shows "keeps (\<lambda>(_, st). queue_empty_alloc st) (nofl_allocator_next_hole_in_block mk st)"
  using assms unfolding nofl_allocator_next_hole_in_block_def Let_def split_beta
  by (auto intro!: keeps_assert keeps_bind[OF keeps_any])

lemma finish_sweeping_queue:
  assumes "queue_empty_alloc st"
  shows "keeps queue_empty_alloc (nofl_allocator_finish_sweeping_in_block mk c st)"
  unfolding nofl_allocator_finish_sweeping_in_block_def
  by (rule keeps_bind[OF keeps_while[where I = "\<lambda>(_, st). queue_empty_alloc st"]])
    (use assms in \<open>auto intro!: keeps_bind[OF finish_hole_queue] keeps_bind[OF next_hole_in_block_queue]\<close>)

lemma promote_queue: "queue_empty s \<Longrightarrow> keeps queue_empty (nofl_space_promote_blocks s)"
  unfolding nofl_space_promote_blocks_def
  by (rule move_blocks_queue)
    (auto simp: pop_queue promote_block_def Let_def split_beta intro!: keeps_bind[OF finish_sweeping_queue] push_queue)

lemma keep_or_empty_queue: "queue_empty s \<Longrightarrow> keeps queue_empty (keep_or_empty_block b s)"
  unfolding keep_or_empty_block_def Let_def nofl_push_evacuation_target_if_possible_def
  by (split if_split, intro conjI impI push_queue keeps_bind[OF push_target_queue]) (auto intro: push_empty_queue)

lemma sort_queue: "queue_empty s \<Longrightarrow> keeps queue_empty (move_blocks (nofl_block_list_pop List_to_sweep) keep_or_empty_block s)"
  by (rule move_blocks_queue) (simp_all add: pop_queue keep_or_empty_queue)

lemma finish_gc_queue:
  assumes "queue_empty s"
  shows "keeps queue_empty (nofl_space_finish_gc kind s)"
  unfolding nofl_space_finish_gc_def Let_def
  by (rule keeps_bind[where P = queue_empty], rule keeps_if, rule finish_evacuation_queue, simp add: assms, rule keeps_bind[OF keeps_any],
      rule return_reserve_queue, simp add: assms, rule keeps_bind[OF sort_queue], simp, rule keeps_bind[OF promote_queue], simp add: queue_empty_def,
      simp add: nofl_space_reset_statistics_def)

lemma release_full_queue:
  assumes "queue_empty_alloc st"
  shows "keeps queue_empty_alloc (nofl_allocator_release_full_block cfg st)"
  unfolding nofl_allocator_release_full_block_def Let_def split_beta
  by (rule keeps_assert, rule keeps_assert, rule keeps_bind[where P = queue_empty]) (use assms in \<open>auto intro: push_queue\<close>)

lemma release_evacuation_target_queue:
  assumes "queue_empty_alloc st"
  shows "keeps queue_empty_alloc (nofl_allocator_release_full_evacuation_target st)"
  unfolding nofl_allocator_release_full_evacuation_target_def Let_def split_beta
  by (intro keeps_assert, rule keeps_bind[where P = queue_empty])
    (use assms in \<open>auto intro!: keeps_assert keeps_bind[OF push_queue]\<close>)

lemma release_partly_full_queue:
  assumes "queue_empty_alloc st"
  shows "keeps queue_empty_alloc (nofl_allocator_release_partly_full_block st)"
  unfolding nofl_allocator_release_partly_full_block_def Let_def split_beta
  by (intro keeps_assert keeps_bind[OF stack_push_queue]) (use assms in auto)

lemma acquire_partly_full_queue:
  assumes "queue_empty_alloc st"
  shows "keeps (\<lambda>(_, st). queue_empty_alloc st) (nofl_allocator_acquire_partly_full_block st)"
  unfolding nofl_allocator_acquire_partly_full_block_def Let_def split_beta
  by (rule keeps_bind[OF stack_pop_queue[OF assms]]) (auto intro!: keeps_assert)

lemma acquire_empty_queue:
  assumes "queue_empty_alloc st"
  shows "keeps (\<lambda>(_, st). queue_empty_alloc st) (nofl_allocator_acquire_empty_block st)"
  unfolding nofl_allocator_acquire_empty_block_def Let_def split_beta nofl_pop_empty_block_def
proof (rule keeps_bind[OF pop_empty_queue[OF assms]], rule keeps_if, simp add: split_beta, rule keeps_bind[OF keeps_any], rule keeps_bind[where P = queue_empty], rule keeps_if)
qed (auto intro: clear_flag_queue simp: nofl_clear_memory_def)

lemma acquire_target_queue:
  assumes "queue_empty_alloc st"
  shows "keeps (\<lambda>(_, st). queue_empty_alloc st) (nofl_allocator_acquire_evacuation_target st)"
  unfolding nofl_allocator_acquire_evacuation_target_def
  by (rule keeps_bind[OF acquire_partly_full_queue[OF assms]], simp only: split_paired_all prod.case, rule keeps_if, simp, rule acquire_empty_queue, simp)

lemma acquire_to_sweep_queue:
  assumes "queue_empty_alloc st"
  shows "keeps (\<lambda>(_, st). queue_empty_alloc st) (nofl_allocator_acquire_block_to_sweep st)"
  unfolding nofl_allocator_acquire_block_to_sweep_def Let_def split_beta
  by (rule keeps_bind[OF pop_queue[OF assms]]) auto

lemma release_block_queue:
  assumes "queue_empty_alloc st"
  shows "keeps queue_empty_alloc (nofl_allocator_release_block cfg st)"
  unfolding nofl_allocator_release_block_def Let_def split_beta
  by (intro keeps_assert keeps_if release_partly_full_queue release_evacuation_target_queue keeps_bind[OF finish_sweeping_queue] release_full_queue)
    (use assms in auto)

lemma allocator_finish_queue:
  assumes "queue_empty_alloc st"
  shows "keeps queue_empty_alloc (nofl_allocator_finish cfg st)"
  unfolding nofl_allocator_finish_def
  by (rule keeps_bind[where P = queue_empty_alloc], rule keeps_if, rule release_block_queue[OF assms], simp add: assms, simp only: split_paired_all prod.case, rule keeps_bind[OF keeps_any], clarsimp)

lemma next_hole_of_size_queue:
  assumes "queue_empty_alloc st"
  shows "keeps (\<lambda>(_, st). queue_empty_alloc st) (nofl_allocator_next_hole_in_block_of_size cfg g st)"
proof -
  have step: "keeps (\<lambda>(_, st). queue_empty_alloc st) (result_bind (nofl_allocator_finish_hole c (alloc, space)) (\<lambda>(alloc, space).
     result_bind (nofl_allocator_next_hole_in_block (ns_survivor_mark space) (alloc, space)) (\<lambda>(granules, st).
       if granules = 0 then result_bind (nofl_allocator_release_full_block cfg st) (\<lambda>st. Inr (Some 0, st))
       else if g \<le> granules then Inr (Some granules, st) else Inr (None, st))))" if "queue_empty space" for c alloc space
    by (rule keeps_bind[OF finish_hole_queue], simp add: that, simp only: split_paired_all prod.case, rule keeps_bind[OF next_hole_in_block_queue], simp, clarify)
      (intro keeps_if keeps_bind[OF release_full_queue], auto)
  show ?thesis unfolding nofl_allocator_next_hole_in_block_of_size_def
    by (rule keeps_if, simp add: assms, rule keeps_bind[OF keeps_while[where I = "\<lambda>(_, st). queue_empty_alloc st"]], simp add: assms, simp only: split_paired_all prod.case,
        rule step, simp, auto)
qed

lemma sweep_for_hole_queue:
  assumes "queue_empty_alloc st"
  shows "keeps (\<lambda>(_, _, st). queue_empty_alloc st) (sweep_for_hole cfg n g st)"
proof -
  have step: "keeps (\<lambda>(_, _, _, st). queue_empty_alloc st)
      (if \<not> blocks_swept < n then Inr (False, None, blocks_swept, st)
       else result_bind (nofl_allocator_acquire_block_to_sweep st) (\<lambda>(acquired, alloc, space).
         if \<not> acquired then Inr (False, None, blocks_swept, alloc, space)
         else result_bind (nofl_allocator_next_hole_in_block_of_size cfg g (alloc, update_summary (na_block alloc) z space)) (\<lambda>(granules, st).
           if granules \<noteq> 0 then Inr (False, Some granules, blocks_swept, st) else Inr (True, None, blocks_swept + 1, st))))"
    if "queue_empty_alloc st" for blocks_swept st z
    by (rule keeps_if, simp add: that, rule keeps_bind[OF acquire_to_sweep_queue[OF that]], simp only: split_paired_all prod.case, rule keeps_if, simp,
        rule keeps_bind[OF next_hole_of_size_queue], simp) auto
  show ?thesis unfolding sweep_for_hole_def Let_def
    by (rule keeps_bind[OF keeps_while[where I = "\<lambda>(_, _, _, st). queue_empty_alloc st"]], simp add: assms, simp only: split_paired_all prod.case, rule step, simp, auto)
qed

lemma partly_full_for_hole_queue:
  assumes "queue_empty_alloc st"
  shows "keeps (\<lambda>(_, st). queue_empty_alloc st) (partly_full_for_hole cfg g st)"
proof -
  have step: "keeps (\<lambda>(_, _, st). queue_empty_alloc st)
      (result_bind (nofl_allocator_acquire_partly_full_block st) (\<lambda>(granules, alloc, space).
        if granules = 0 then Inr (False, None, alloc, space)
        else if g \<le> granules then Inr (False, Some granules, alloc, space)
        else result_bind (nofl_allocator_finish_hole (\<not> ns_evacuating space) (alloc, space)) (\<lambda>st.
          result_bind (nofl_allocator_release_full_block cfg st) (\<lambda>st. Inr (True, None, st)))))" if "queue_empty_alloc st" for st
    by (rule keeps_bind[OF acquire_partly_full_queue[OF that]], simp only: split_paired_all prod.case, rule keeps_if, simp, rule keeps_if, simp,
        rule keeps_bind[OF finish_hole_queue], simp, rule keeps_bind[OF release_full_queue], simp, simp)
  show ?thesis unfolding partly_full_for_hole_def
    by (rule keeps_bind[OF keeps_while[where I = "\<lambda>(_, _, st). queue_empty_alloc st"]], simp add: assms, simp only: split_paired_all prod.case, rule step, simp, auto)
qed

lemma next_hole_queue:
  assumes "queue_empty_alloc st"
  shows "keeps (\<lambda>(_, st). queue_empty_alloc st) (nofl_allocator_next_hole cfg g st)"
proof -
  have step: "keeps (\<lambda>(_, st). queue_empty_alloc st)
      (result_bind (sweep_for_hole cfg n g st) (\<lambda>(ret, blocks_swept, st).
        if ret \<noteq> None then Inr (ret, st)
        else result_bind (partly_full_for_hole cfg g st) (\<lambda>(ret, st).
          if ret \<noteq> None then Inr (ret, st)
          else result_bind (nofl_allocator_acquire_empty_block st) (\<lambda>(granules, st).
            if granules \<noteq> 0 then Inr (Some NOFL_GRANULES_PER_BLOCK, st)
            else if blocks_swept = 0 then Inr (Some 0, st) else Inr (None, st)))))" if "queue_empty_alloc st" for st n
    by (rule keeps_bind[OF sweep_for_hole_queue[OF that]], simp only: split_paired_all prod.case, rule keeps_if, simp, rule keeps_bind[OF partly_full_for_hole_queue], simp, simp only: split_paired_all prod.case,
        rule keeps_if, simp, rule keeps_bind[OF acquire_empty_queue], simp, simp only: split_paired_all prod.case, intro keeps_if, auto)
  show ?thesis unfolding nofl_allocator_next_hole_def
    by (rule keeps_bind[OF next_hole_of_size_queue[OF assms]], simp only: split_paired_all prod.case, rule keeps_if, simp, rule keeps_bind[OF keeps_any],
        rule keeps_bind[OF keeps_while[where I = "\<lambda>(_, st). queue_empty_alloc st"]], simp, simp only: split_paired_all prod.case, rule step, simp, auto)
qed

lemma bump_queue: "queue_empty_alloc st \<Longrightarrow> keeps (\<lambda>(_, st). queue_empty_alloc st) (nofl_allocate_bump_pointer sz kind st)"
  unfolding nofl_allocate_bump_pointer_def Let_def split_beta by (rule keeps_assert) simp

lemma second_chance_queue:
  assumes "queue_empty_alloc st"
  shows "keeps (\<lambda>(_, st). queue_empty_alloc st) (nofl_allocate_second_chance sloppy g st)"
  unfolding nofl_allocate_second_chance_def Let_def split_beta
  by (rule keeps_bind[OF keeps_any], rule keeps_if, simp add: assms, rule keeps_bind[OF keeps_any], rule keeps_if,
      rule keeps_bind[OF keeps_any], simp_all add: assms)

lemma allocate_slow_queue:
  assumes "queue_empty_alloc st"
  shows "keeps (\<lambda>(_, st). queue_empty_alloc st) (nofl_allocate_slow cfg sloppy sz kind st)"
  unfolding nofl_allocate_slow_def Let_def
  by (rule keeps_bind[OF next_hole_of_size_queue[OF assms]], simp only: split_paired_all prod.case, rule keeps_if, rule bump_queue, simp,
      rule keeps_bind[OF second_chance_queue], simp, simp only: split_paired_all prod.case, rule keeps_if, simp,
      rule keeps_bind[OF next_hole_queue], simp, simp only: split_paired_all prod.case, rule keeps_if, rule bump_queue, simp, simp)

lemma allocate_queue:
  assumes "queue_empty_alloc st"
  shows "keeps (\<lambda>(_, st). queue_empty_alloc st) (nofl_allocate cfg sloppy sz kind st)"
  unfolding nofl_allocate_def Let_def
  by (intro keeps_assert keeps_if bump_queue allocate_slow_queue assms)

lemma finish_all_sweeping_queue:
  assumes "queue_empty_alloc st"
  shows "keeps queue_empty_alloc (nofl_finish_sweeping cfg st)"
  unfolding nofl_finish_sweeping_def
  by (rule keeps_bind[OF keeps_while[where I = "\<lambda>(_, st). queue_empty_alloc st"]], simp add: assms, simp only: split_paired_all prod.case,
      rule keeps_bind[OF next_hole_queue], simp, auto)

lemma evacuation_allocate_queue:
  assumes "queue_empty_alloc st"
  shows "keeps (\<lambda>(_, st). queue_empty_alloc st) (nofl_evacuation_allocate g st)"
proof -
  have step: "keeps (\<lambda>(_, _, st). queue_empty_alloc st)
      (result_bind (if nofl_allocator_has_block alloc then nofl_allocator_release_full_evacuation_target (alloc, space) else Inr (alloc, space))
        (\<lambda>st. result_bind (nofl_allocator_acquire_evacuation_target st) (\<lambda>(avail, st). Inr (avail = 0, avail, st))))"
    if "queue_empty space" for alloc space
    by (rule keeps_bind[where P = queue_empty_alloc], rule keeps_if, rule release_evacuation_target_queue, simp add: that, simp add: that,
        rule keeps_bind[OF acquire_target_queue], simp, auto)
  show ?thesis unfolding nofl_evacuation_allocate_def
    by (rule keeps_bind[OF keeps_while[where I = "\<lambda>(_, _, st). queue_empty_alloc st"]], simp add: assms, simp only: split_paired_all prod.case,
        rule step, simp, auto)
qed

lemma set_mark_queue [simp]: "queue_empty (nofl_block_set_mark a s) \<longleftrightarrow> queue_empty s"
  by (simp add: nofl_block_set_mark_def Let_def)

lemma nonempty_mark_queue: "queue_empty s \<Longrightarrow> keeps (\<lambda>(_, s). queue_empty s) (nofl_space_set_nonempty_mark m b r s)"
  unfolding nofl_space_set_nonempty_mark_def nofl_space_set_mark_def Let_def prod.case
  by (rule keeps_if, rule keeps_assert) simp_all

lemma evacuate_queue:
  assumes "queue_empty_alloc st"
  shows "keeps (\<lambda>(_, st). queue_empty_alloc st) (nofl_space_evacuate cfg m b e r st)"
  unfolding nofl_space_evacuate_def Let_def split_beta
  by (rule keeps_if, rule keeps_bind[OF keeps_any], rule keeps_bind[OF evacuation_allocate_queue], simp add: assms, rule keeps_if,
      simp add: split_beta, simp add: split_beta, rule keeps_bind[OF keeps_any], rule keeps_if, simp_all add: assms)

lemma evacuate_or_mark_queue:
  assumes "queue_empty_alloc st"
  shows "keeps (\<lambda>(_, st). queue_empty_alloc st) (nofl_space_evacuate_or_mark_object cfg e r st)"
  unfolding nofl_space_evacuate_or_mark_object_def Let_def split_beta
  by (rule keeps_bind[OF keeps_any], rule keeps_if, simp add: assms, rule keeps_bind[OF keeps_any], rule keeps_if,
      rule evacuate_queue[OF assms, unfolded split_beta], rule keeps_bind[OF nonempty_mark_queue[OF assms]]) (simp add: split_beta)

lemma remember_queue: "queue_empty s \<Longrightarrow> keeps (\<lambda>(_, s). queue_empty s) (nofl_space_remember_edge cfg obj edge s)"
  unfolding nofl_space_remember_edge_def Let_def
  by (rule keeps_bind[OF keeps_any], rule keeps_assert, rule keeps_if, simp, rule keeps_bind[OF keeps_any]) simp

lemma forget_queue: "queue_empty s \<Longrightarrow> keeps queue_empty (nofl_space_forget_edge debug cfg edge s)"
  unfolding nofl_space_forget_edge_def Let_def
  by (rule keeps_bind[OF keeps_any], rule keeps_assert, rule keeps_assert, rule keeps_if, rule keeps_assert) simp_all

lemma pin_queue: "queue_empty s \<Longrightarrow> keeps queue_empty (nofl_space_pin_object ref s)"
  unfolding nofl_space_pin_object_def Let_def by (rule keeps_if, simp, rule keeps_bind[OF keeps_any]) simp

lemma walk_queue:
  assumes "queue_empty s" "\<And>b s. queue_empty s \<Longrightarrow> keeps queue_empty (f b s)"
  shows "keeps queue_empty (walk_blocks f b s)"
proof -
  have "keeps (\<lambda>(_, s). queue_empty s) (result_bind (f w s) (\<lambda>s. result_bind (nofl_block_next s w) (\<lambda>nxt. Inr (nxt, s))))"
    if "queue_empty s" for w s
    by (rule keeps_bind[OF assms(2)[OF that]], rule keeps_bind[OF keeps_any]) simp
  then show ?thesis unfolding walk_blocks_def
    by (intro keeps_bind[OF keeps_while[where I = "\<lambda>(_, s). queue_empty s"]]) (use assms(1) in auto)
qed

lemma ambiguous_queue:
  assumes "queue_empty s"
  shows "keeps queue_empty (nofl_space_set_heap_has_ambiguous_edges s)"
proof -
  have block: "keeps queue_empty (nofl_clear_pinned_bits_in_block b s)" if "queue_empty s" for b s
    unfolding nofl_clear_pinned_bits_in_block_def Let_def by (rule keeps_bind[OF keeps_any]) (use that in simp)
  have "keeps queue_empty (nofl_space_clear_all_pinned_bits s)" if "queue_empty s" for s
    unfolding nofl_space_clear_all_pinned_bits_def by (rule keeps_fold[where I = queue_empty, OF that]) (rule walk_queue[OF _ block])
  note clear = this
  show ?thesis unfolding nofl_space_set_heap_has_ambiguous_edges_def Let_def
    by (rule keeps_if, rule keeps_bind[OF clear]) (use assms in simp_all)
qed

lemma mark_queue: "queue_empty s \<Longrightarrow> keeps (\<lambda>(_, s). queue_empty s) (nofl_space_mark_object ref s)"
  unfolding nofl_space_mark_object_def Let_def
  by (rule keeps_bind[OF keeps_any], rule keeps_if, simp, rule keeps_bind[OF keeps_any], rule keeps_assert, rule nonempty_mark_queue)

lemma mark_conservative_queue:
  "queue_empty s \<Longrightarrow> keeps (\<lambda>(_, s). queue_empty s) (nofl_space_mark_conservative_ref valid ref possibly_interior s)"
  unfolding nofl_space_mark_conservative_ref_def
  by (rule keeps_bind[OF keeps_any], rule keeps_if, simp, rule keeps_if, simp, rule keeps_assert, rule keeps_bind[OF nonempty_mark_queue])
    auto

lemma visit_key_queue: "queue_empty s \<Longrightarrow> keeps (\<lambda>(_, s). queue_empty s) (nofl_space_forward_or_mark_if_traced edge ref s)"
  unfolding nofl_space_forward_or_mark_if_traced_def Let_def
  by (rule keeps_bind[OF keeps_any], rule keeps_bind[OF keeps_any]) simp

section \<open>The queue does not move\<close>

lemma advance_stuck:
  assumes "queue_empty s"
  shows "nofl_space_advance_page_out_queue s = Inr s"
  unfolding nofl_space_advance_page_out_queue_def NOFL_PAGE_OUT_QUEUE_SIZE_def
  by (simp add: while_result_unfold queue_pop_none[OF assms] other_list_def head_null)

lemma page_out_stuck:
  assumes "queue_empty s"
  shows "nofl_space_page_out_blocks discard s = Inr s"
  unfolding nofl_space_page_out_blocks_def NOFL_PAGE_OUT_QUEUE_SIZE_def move_blocks_def
  by (simp add: while_result_unfold queue_pop_none[OF assms] other_list_def head_null)

text \<open>
  What is done with a space: what mutators and tracers do with their allocators, the steps of a collection,
  resizing, and the tick of the background thread.
\<close>

datatype nofl_operation = Nofl_Allocate nat u64 u64 gc_allocation_kind | Nofl_Finish_Sweeping nat | Nofl_Finish nat
  | Nofl_Remember gc_ref u64 | Nofl_Forget bool u64 | Nofl_Pin gc_ref | Nofl_Ambiguous_Edges
  | Nofl_Trace nat u64 gc_ref | Nofl_Mark gc_ref | Nofl_Mark_Conservative "u64 \<Rightarrow> bool" u64 bool | Nofl_Visit_Key u64 gc_ref
  | Nofl_Prepare_GC gc_collection_kind | Nofl_Start_GC gc_collection_kind
  | Nofl_Finish_GC gc_collection_kind | Nofl_Shrink u64 | Nofl_Expand u64 | Nofl_Tick

fun nofl_operate ::
    "gc_config \<Rightarrow> (u64 \<Rightarrow> u64 \<Rightarrow> u64) \<Rightarrow> (u64 \<Rightarrow> u64 \<Rightarrow> byte_mem \<Rightarrow> byte_mem) \<Rightarrow> nofl_operation
      \<Rightarrow> (nat \<Rightarrow> nofl_allocator) \<times> nofl_space \<Rightarrow> ((nat \<Rightarrow> nofl_allocator) \<times> nofl_space) result" where
  "nofl_operate cfg acquire discard (Nofl_Allocate i sloppy sz kind) (allocs, space) =
    result_bind (nofl_allocate cfg sloppy sz kind (allocs i, space)) (\<lambda>(_, alloc, space). Inr (allocs(i := alloc), space))"
| "nofl_operate cfg acquire discard (Nofl_Finish_Sweeping i) (allocs, space) =
    result_bind (nofl_finish_sweeping cfg (allocs i, space)) (\<lambda>(alloc, space). Inr (allocs(i := alloc), space))"
| "nofl_operate cfg acquire discard (Nofl_Finish i) (allocs, space) =
    result_bind (nofl_allocator_finish cfg (allocs i, space)) (\<lambda>(alloc, space). Inr (allocs(i := alloc), space))"
| "nofl_operate cfg acquire discard (Nofl_Trace i edge ref) (allocs, space) =
    result_bind (nofl_space_evacuate_or_mark_object cfg edge ref (allocs i, space)) (\<lambda>(_, alloc, space). Inr (allocs(i := alloc), space))"
| "nofl_operate cfg acquire discard (Nofl_Remember obj edge) (allocs, space) =
    result_bind (nofl_space_remember_edge cfg obj edge space) (\<lambda>(_, space). Inr (allocs, space))"
| "nofl_operate cfg acquire discard (Nofl_Forget debug edge) (allocs, space) =
    result_bind (nofl_space_forget_edge debug cfg edge space) (\<lambda>space. Inr (allocs, space))"
| "nofl_operate cfg acquire discard (Nofl_Pin ref) (allocs, space) =
    result_bind (nofl_space_pin_object ref space) (\<lambda>space. Inr (allocs, space))"
| "nofl_operate cfg acquire discard Nofl_Ambiguous_Edges (allocs, space) =
    result_bind (nofl_space_set_heap_has_ambiguous_edges space) (\<lambda>space. Inr (allocs, space))"
| "nofl_operate cfg acquire discard (Nofl_Mark ref) (allocs, space) =
    result_bind (nofl_space_mark_object ref space) (\<lambda>(_, space). Inr (allocs, space))"
| "nofl_operate cfg acquire discard (Nofl_Mark_Conservative valid ref possibly_interior) (allocs, space) =
    result_bind (nofl_space_mark_conservative_ref valid ref possibly_interior space) (\<lambda>(_, space). Inr (allocs, space))"
| "nofl_operate cfg acquire discard (Nofl_Visit_Key edge ref) (allocs, space) =
    result_bind (nofl_space_forward_or_mark_if_traced edge ref space) (\<lambda>(_, space). Inr (allocs, space))"
| "nofl_operate cfg acquire discard (Nofl_Prepare_GC kind) (allocs, space) =
    result_bind (nofl_space_prepare_gc kind space) (\<lambda>space. Inr (allocs, space))"
| "nofl_operate cfg acquire discard (Nofl_Start_GC kind) (allocs, space) =
    result_bind (nofl_space_start_gc kind space) (\<lambda>space. Inr (allocs, space))"
| "nofl_operate cfg acquire discard (Nofl_Finish_GC kind) (allocs, space) =
    result_bind (nofl_space_finish_gc kind space) (\<lambda>space. Inr (allocs, space))"
| "nofl_operate cfg acquire discard (Nofl_Shrink bytes) (allocs, space) =
    result_bind (nofl_space_shrink bytes space) (\<lambda>(_, space). Inr (allocs, space))"
| "nofl_operate cfg acquire discard (Nofl_Expand bytes) (allocs, space) =
    result_bind (nofl_space_expand acquire bytes space) (\<lambda>space. Inr (allocs, space))"
| "nofl_operate cfg acquire discard Nofl_Tick (allocs, space) =
    result_bind (nofl_space_advance_page_out_queue space) (\<lambda>space.
    result_bind (nofl_space_page_out_blocks discard space) (\<lambda>space. Inr (allocs, space)))"

lemma prepare_gc_queue: "queue_empty s \<Longrightarrow> keeps queue_empty (nofl_space_prepare_gc kind s)"
  unfolding nofl_space_prepare_gc_def nofl_space_clear_block_marks_def
  by (rule keeps_if, rule keeps_bind[OF keeps_any]) simp_all

lemma operate_queue: "queue_empty (snd st) \<Longrightarrow> keeps (\<lambda>st. queue_empty (snd st)) (nofl_operate cfg acquire discard op st)"
proof (cases op; cases st)
  fix allocs space
  assume q: "queue_empty (snd st)" and st: "st = (allocs, space)"
  then have s: "queue_empty space" by simp
  show ?thesis if "op = Nofl_Allocate i sloppy sz kind" for i sloppy sz kind
    unfolding that st nofl_operate.simps by (rule keeps_bind[OF allocate_queue]) (auto simp: s)
  show ?thesis if "op = Nofl_Finish_Sweeping i" for i
    unfolding that st nofl_operate.simps by (rule keeps_bind[OF finish_all_sweeping_queue]) (auto simp: s)
  show ?thesis if "op = Nofl_Finish i" for i
    unfolding that st nofl_operate.simps by (rule keeps_bind[OF allocator_finish_queue]) (auto simp: s)
  show ?thesis if "op = Nofl_Trace i edge ref" for i edge ref
    unfolding that st nofl_operate.simps by (rule keeps_bind[OF evacuate_or_mark_queue]) (auto simp: s)
  show ?thesis if "op = Nofl_Remember obj edge" for obj edge
    unfolding that st nofl_operate.simps by (rule keeps_bind[OF remember_queue[OF s]]) auto
  show ?thesis if "op = Nofl_Forget debug edge" for debug edge
    unfolding that st nofl_operate.simps by (rule keeps_bind[OF forget_queue[OF s]]) simp
  show ?thesis if "op = Nofl_Pin ref" for ref
    unfolding that st nofl_operate.simps by (rule keeps_bind[OF pin_queue[OF s]]) simp
  show ?thesis if "op = Nofl_Ambiguous_Edges"
    unfolding that st nofl_operate.simps by (rule keeps_bind[OF ambiguous_queue[OF s]]) simp
  show ?thesis if "op = Nofl_Mark ref" for ref
    unfolding that st nofl_operate.simps by (rule keeps_bind[OF mark_queue[OF s]]) auto
  show ?thesis if "op = Nofl_Mark_Conservative valid ref possibly_interior" for valid ref possibly_interior
    unfolding that st nofl_operate.simps by (rule keeps_bind[OF mark_conservative_queue[OF s]]) auto
  show ?thesis if "op = Nofl_Visit_Key edge ref" for edge ref
    unfolding that st nofl_operate.simps by (rule keeps_bind[OF visit_key_queue[OF s]]) auto
  show ?thesis if "op = Nofl_Prepare_GC kind" for kind
    unfolding that st nofl_operate.simps by (rule keeps_bind[OF prepare_gc_queue[OF s]]) simp
  show ?thesis if "op = Nofl_Start_GC kind" for kind
    unfolding that st nofl_operate.simps by (rule keeps_bind[OF start_gc_queue[OF s]]) simp
  show ?thesis if "op = Nofl_Finish_GC kind" for kind
    unfolding that st nofl_operate.simps by (rule keeps_bind[OF finish_gc_queue[OF s]]) simp
  show ?thesis if "op = Nofl_Shrink bytes" for bytes
    unfolding that st nofl_operate.simps by (rule keeps_bind[OF shrink_queue[OF s]]) auto
  show ?thesis if "op = Nofl_Expand bytes" for bytes
    unfolding that st nofl_operate.simps by (rule keeps_bind[OF expand_queue[OF s]]) simp
  show ?thesis if "op = Nofl_Tick"
    unfolding that st nofl_operate.simps by (simp add: advance_stuck[OF s] page_out_stuck[OF s] s)
qed

lemma init_queue:
  assumes "queue_empty s"
  shows "keeps (\<lambda>r. \<forall>t thread. r = Some (t, thread) \<longrightarrow> queue_empty t) (nofl_space_init cfg acquire sz pt self junk thread s)"
proof -
  have block: "keeps (\<lambda>(_, s). queue_empty s) (init_nofl_block sz b st)" if "queue_empty (snd st)" for sz b st
    unfolding init_nofl_block_def Let_def split_beta nofl_push_evacuation_target_if_needed_def
    by (rule keeps_bind[OF set_flag_queue[OF that]], rule keeps_if, rule keeps_bind[OF push_unavailable_queue], assumption, simp,
        rule keeps_bind[OF push_target_queue], assumption, rule keeps_bind[where P = queue_empty], rule keeps_if, rule push_empty_queue)
      auto
  have slabs: "keeps queue_empty (nofl_space_add_slabs slabs n s)" if "queue_empty s" for slabs n s
    unfolding nofl_space_add_slabs_def by (rule keeps_bind[OF keeps_any]) (use that in simp)
  show ?thesis unfolding nofl_space_init_def Let_def
    by (rule keeps_if, simp, rule keeps_bind[OF slabs], simp add: assms,
        rule keeps_bind[OF keeps_fold[where I = "\<lambda>(_, s). queue_empty s"]], simp, rule block, simp add: split_beta, simp add: split_beta)
qed

lemma shrink_example:
  obtains t where "nofl_space_shrink 65536 (example_space List_empty) = Inr (0, t)" "list_blocks (ns_lists t (List_paged_out 0)) = 0x440000"
proof -
  have s: "nofl_block_summary_for_addr 0x440000 = 0x400040" "nofl_block_summary_for_addr 0x450000 = 0x400050"
    "align_down (0x450000 :: u64) NOFL_BLOCK_SIZE = 0x450000" "align_down (0x440000 :: u64) NOFL_BLOCK_SIZE = 0x440000"
    "nofl_block_for_addr 0 = nofl_block_null"
    "NOFL_BLOCK_SIZE = 0x10000" "nofl_block_is_null nofl_block_null" by code_simp+
  have n: "nofl_block_summary_next \<lparr> sum_hole_count = 0, sum_hole_granules = 0, sum_holes_with_fragmentation = 0,
      sum_fragmentation_granules = 0, sum_next_and_flags = 0x450000 \<rparr> = 0x450000" by code_simp
  have f: "\<not> nofl_block_summary_has_flag \<lparr> sum_hole_count = 0, sum_hole_granules = 0, sum_holes_with_fragmentation = 0,
      sum_fragmentation_granules = 0, sum_next_and_flags = 4 \<rparr> NOFL_BLOCK_PAGED_OUT"
    "nofl_block_summary_set_flag NOFL_BLOCK_UNAVAILABLE \<lparr> sum_hole_count = 0, sum_hole_granules = 0, sum_holes_with_fragmentation = 0,
      sum_fragmentation_granules = 0, sum_next_and_flags = 0 \<rparr> = \<lparr> sum_hole_count = 0, sum_hole_granules = 0, sum_holes_with_fragmentation = 0,
      sum_fragmentation_granules = 0, sum_next_and_flags = 4 \<rparr>"
    "nofl_block_summary_next \<lparr> sum_hole_count = 0, sum_hole_granules = 0, sum_holes_with_fragmentation = 0,
      sum_fragmentation_granules = 0, sum_next_and_flags = 4 \<rparr> = 0" "nofl_block_summary_for_addr 0 = 0" by code_simp+
  show thesis
    by (rule that, unfold nofl_space_shrink_def nofl_space_request_release_memory_def Let_def prod.case, simp add: while_result_unfold release_one_def nofl_pop_empty_block_with_lock_def nofl_block_stack_pop_def nofl_block_head_def
      example_space_def nofl_block_next_def s n f nofl_block_is_null_def gc_assert_def block_summary_def nofl_block_set_next_def nofl_block_summary_set_next_def
      nofl_block_null_def update_summary_def nofl_push_unavailable_block_def nofl_block_set_flag_def nofl_block_has_flag_def nofl_block_stack_push_def,
      simp)
qed

lemma stack_push_lists:
  assumes "nofl_block_stack_push name block s = Inr t"
  shows "ns_lists t = (ns_lists s)(name := \<lparr> list_count = list_count (ns_lists s name) + 1, list_blocks = ref_addr block \<rparr>)"
proof -
  have "ns_lists v = ns_lists u" if "nofl_block_set_next b n u = Inr v" for b n u v
    using that by (auto simp: nofl_block_set_next_def result_bind_eq_Inr update_summary_def)
  then show ?thesis using assms unfolding nofl_block_stack_push_def Let_def
    by (cases "ns_lists s name") (auto simp: result_bind_eq_Inr)
qed

text \<open>A block that is given up is put at age 0, or at the last age if its memory has been discarded already.\<close>

lemma push_unavailable_lists:
  assumes "nofl_push_unavailable_block block s = Inr t"
  defines "name \<equiv> List_paged_out (if nofl_block_summary_has_flag (block_summary s block) NOFL_BLOCK_PAGED_OUT then 3 else 0)"
  shows "ns_lists t = (ns_lists s)(name := \<lparr> list_count = list_count (ns_lists s name) + 1, list_blocks = ref_addr block \<rparr>)"
proof -
  have "(x OR NOFL_BLOCK_UNAVAILABLE) AND NOFL_BLOCK_PAGED_OUT = x AND NOFL_BLOCK_PAGED_OUT" for x :: u64
  proof -
    have "NOFL_BLOCK_UNAVAILABLE AND NOFL_BLOCK_PAGED_OUT = 0" by code_simp
    then show ?thesis by (simp add: bit.conj_disj_distrib2)
  qed
  then have "nofl_block_summary_has_flag (nofl_block_summary_set_flag NOFL_BLOCK_UNAVAILABLE m) NOFL_BLOCK_PAGED_OUT
      = nofl_block_summary_has_flag m NOFL_BLOCK_PAGED_OUT" for m
    by (simp add: nofl_block_summary_has_flag_def nofl_block_summary_set_flag_def)
  moreover have "\<not> nofl_block_is_null block"
    using assms(1) by (cases "nofl_block_is_null block") (simp_all add: nofl_push_unavailable_block_def nofl_block_set_flag_def gc_assert_def)
  ultimately have "nofl_block_stack_push name block (update_summary block (nofl_block_summary_set_flag NOFL_BLOCK_UNAVAILABLE) s) = Inr t"
    using assms(1)
    by (cases "nofl_block_summary_has_flag (ns_summaries s (ref_summary block)) NOFL_BLOCK_PAGED_OUT")
      (simp_all add: nofl_push_unavailable_block_def nofl_block_set_flag_def nofl_block_has_flag_def gc_assert_def
        NOFL_PAGE_OUT_QUEUE_SIZE_def name_def update_summary_def block_summary_def)
  from stack_push_lists[OF this] show ?thesis by (simp add: update_summary_def)
qed

text \<open>C20: The page-out queue does not move: in a space whose page-out queue has no block at the ages 1 and 2, as
  \<open>nofl_space_init\<close> leaves it, every tick of the background thread leaves the space as it is, and this stays so
  whatever is allocated, swept, remembered, pinned, traced, collected, shrunk or grown. A block that is given up
  enters the queue at age 0, or at age 3 when its memory has been discarded already, and the tick after that leaves
  the space as it is, too. So no tick ever discards the memory of a block, although the code means to age all blocks
  of the queue with each tick and to discard the memory of those that reach its end.\<close>

theorem nofl_page_out_queue_stuck:
  assumes "list_blocks (ns_lists space (List_paged_out 1)) = 0" "list_blocks (ns_lists space (List_paged_out 2)) = 0"
    and "result_fold (nofl_operate cfg acquire discard) ops (allocs, space) = Inr (allocs', t)"
  shows "nofl_operate cfg acquire discard Nofl_Tick (allocs', t) = Inr (allocs', t)
    \<and> (\<forall>block u name. nofl_push_unavailable_block block t = Inr u \<longrightarrow>
        name = List_paged_out (if nofl_block_summary_has_flag (block_summary t block) NOFL_BLOCK_PAGED_OUT then 3 else 0) \<longrightarrow>
        ns_lists u = (ns_lists t)(name := \<lparr> list_count = list_count (ns_lists t name) + 1, list_blocks = ref_addr block \<rparr>)
        \<and> nofl_operate cfg acquire discard Nofl_Tick (allocs', u) = Inr (allocs', u))"
proof -
  have "keeps (\<lambda>st. queue_empty (snd st)) (result_fold (nofl_operate cfg acquire discard) ops (allocs, space))"
    by (rule keeps_fold[OF _ operate_queue]) (use assms(1,2) in \<open>simp_all add: queue_empty_def\<close>)
  then have t: "queue_empty t" using assms(3) by simp
  moreover have "queue_empty u" if "nofl_push_unavailable_block block t = Inr u" for block u
    using push_unavailable_queue[OF t, of block] that by simp
  ultimately show ?thesis using push_unavailable_lists[of _ t] by (simp add: advance_stuck page_out_stuck)
qed

text \<open>A block is given up, and two ticks later its memory has not been discarded.\<close>

theorem nofl_page_out_queue_stuck_witness:
  "\<forall>cfg acquire allocs. \<exists>t. result_fold (nofl_operate cfg acquire (\<lambda>a n mem. mem)) [Nofl_Shrink 65536, Nofl_Tick] (allocs, example_space List_empty)
      = Inr (allocs, t)
    \<and> nofl_operate cfg acquire (\<lambda>a n mem. mem) Nofl_Tick (allocs, t) = Inr (allocs, t)
    \<and> list_blocks (ns_lists t (List_paged_out 0)) = 0x440000"
proof (intro allI)
  fix cfg acquire allocs
  obtain t where t: "nofl_space_shrink 65536 (example_space List_empty) = Inr (0, t)" "list_blocks (ns_lists t (List_paged_out 0)) = 0x440000"
    by (rule shrink_example)
  have e: "list_blocks (ns_lists (example_space List_empty) (List_paged_out 1)) = 0" "list_blocks (ns_lists (example_space List_empty) (List_paged_out 2)) = 0"
    by (simp_all add: example_space_def)
  have "result_fold (nofl_operate cfg acquire (\<lambda>a n mem. mem)) [Nofl_Shrink 65536] (allocs, example_space List_empty) = Inr (allocs, t)"
    using t(1) by simp
  note tick = nofl_page_out_queue_stuck[OF e this, THEN conjunct1]
  have "result_fold (nofl_operate cfg acquire (\<lambda>a n mem. mem)) [Nofl_Shrink 65536, Nofl_Tick] (allocs, example_space List_empty) = Inr (allocs, t)"
    using t(1) tick by simp
  with tick t(2) show "\<exists>t. result_fold (nofl_operate cfg acquire (\<lambda>a n mem. mem)) [Nofl_Shrink 65536, Nofl_Tick] (allocs, example_space List_empty)
      = Inr (allocs, t) \<and> nofl_operate cfg acquire (\<lambda>a n mem. mem) Nofl_Tick (allocs, t) = Inr (allocs, t)
    \<and> list_blocks (ns_lists t (List_paged_out 0)) = 0x440000" by blast
qed

end
