(* ===== verification/Spec2Isabelle.thy ===== *)
theory Spec2Isabelle
  imports StopTheWorldCorrect LargeObjectCorrect SimpleWorklist BackgroundThread FieldSet Options Finalizer EphemeronCycle CopySpaceCorrect NoflHoleset SharedWorklist SemiSpaceCorrect SerialTracer ParallelTracerCorrect NoflPageOut
begin

text \<open>
  A verification development for the Whippet garbage collector library: collectors in C behind one interface
  (\<open>src/api\<close>), built from spaces, worklists, tables and tracers (\<open>src/src\<close>), which a program embeds by
  supplying the sizes, the edges and the forwarding words of its objects.

  \<^bold>\<open>How the program fits together.\<close> A heap is a set of spaces. Small objects live in one of them: the two
  halves of the semispace collector (\<open>semi.c\<close>), a copy space (\<open>copy-space.h\<close>), or the nofl space of the
  mostly-marking collector (\<open>nofl-space.h\<close>, \<open>mmc.c\<close>); large ones have a space of their own
  (\<open>large-object-space.h\<close>), and the embedder can add an external one. A mutator that runs out of memory
  stops the others (\<open>mmc.c\<close>), chooses the kind of the collection and traces the graph from the roots: a
  tracer (\<open>serial-tracer.h\<close>, \<open>parallel-tracer.h\<close>) holds grey objects in worklists (\<open>simple-worklist.h\<close>,
  \<open>shared-worklist.h\<close>) and visits their edges; the space of an object marks or moves it. Ephemerons and
  finalizers (\<open>gc-ephemeron.c\<close>, \<open>gc-finalizer.c\<close>) are resolved when the rest is traced. A generational
  collection also has the remembered set (\<open>field-set.h\<close>) as roots, which the write barrier
  (\<open>gc-barrier.h\<close>, \<open>mmc.c\<close>) fills. A background thread (\<open>background-thread.h\<close>) returns memory.

  \<^bold>\<open>Theories and sources.\<close> A definition has the name of the C function it models, where that name is free; the
  others say in a text what they model. A struct is a record, its fields with a short prefix.

  \<^item> Shared: \<open>Prelude\<close> (words, the loop rule), \<open>Interfaces\<close> (containers as locales), \<open>Chains\<close> (linked lists),
    \<open>Memory\<close> (bytes and words), \<open>Doubles\<close> (rounding), \<open>Trace\<close> and \<open>Roots\<close> (\<open>gc-trace.h\<close>, \<open>root.h\<close>,
    \<open>root-worklist.h\<close>), \<open>Forwarding\<close> and \<open>Embedder\<close> (\<open>gc-forwarding.h\<close>, \<open>gc-embedder-api.h\<close>, and the
    benchmarks' embedder, an interpretation of the locale \<open>gc_embedder\<close>).
  \<^item> Tables and queues: \<open>AddressHash\<close>, \<open>RobinHood\<close>, \<open>AddressMap\<close>, \<open>AddressSet\<close> (\<open>address-hash.h\<close>,
    \<open>address-map.h\<close>, \<open>address-set.h\<close>), \<open>SplayTree\<close>, \<open>Extents\<close>, \<open>SimpleWorklist\<close>, \<open>SharedWorklist\<close>,
    \<open>Histogram\<close> (\<open>gc-histogram.h\<close>, \<open>freelist.h\<close>), \<open>Swar\<close>, \<open>FieldSet\<close>, \<open>Options\<close>, \<open>BackgroundThread\<close>.
  \<^item> Spaces: \<open>LargeObjectSpace\<close> with its invariant and its theorems in \<open>LargeObjectInvariant\<close> and
    \<open>LargeObjectCorrect\<close>; \<open>CopySpace\<close> with \<open>CopySpaceInvariant\<close>, \<open>CopySpaceAllocate\<close> and \<open>CopySpaceCorrect\<close>;
    the nofl space in \<open>NoflHoleset\<close>, \<open>NoflBlocks\<close>, \<open>NoflSweep\<close>, \<open>NoflTrace\<close> and \<open>NoflCollect\<close>, with \<open>NoflLists\<close>,
    \<open>NoflGC\<close> and \<open>NoflPageOut\<close>; \<open>Allocation\<close> is the inline allocation path.
  \<^item> Collections: \<open>SemiSpace\<close> with \<open>SemiSpaceInvariant\<close> and \<open>SemiSpaceCorrect\<close>; \<open>SerialTracer\<close>;
    \<open>ParallelTracer\<close> and \<open>ParallelTracerCorrect\<close>; \<open>Ephemeron\<close> and \<open>EphemeronCycle\<close>; \<open>Finalizer\<close>; the heap of
    \<open>mmc.c\<close> in \<open>MmcHeap\<close> and \<open>MmcCorrect\<close>; stopping its mutators in \<open>StopTheWorld\<close> and \<open>StopTheWorldCorrect\<close>.

  \<^bold>\<open>What is shown.\<close> Collections: Cheney's collection returns, moves exactly the reachable graph and leaves
  it isomorphic; a parallel trace, whatever its interleaving, ends only when all that is reachable has been
  traced, each object once; a serial trace marks what is reachable; the mutators that are stopped stay stopped,
  no wakeup is lost, and all go on. Spaces: what is allocated overlaps nothing that lives; the lists of blocks
  lose no block and share none; holes are what sweeping found; large objects survive when they are marked.
  Barriers, ephemerons and finalizers: a field that needs it is remembered, once; of the ephemerons exactly
  those with a live key keep their value; finalizers fire once and in order. Containers refine maps, sets,
  sequences and deques under every operation and, for the deque, every interleaving of its owner and of thieves.
  Some theorems say where the code does not do what it means to: the union of two address sets may not return, a removed
  background task keeps the last one twice, the bucket of an ephemeron may be one past its table, the page-out
  queue of the nofl space never moves, and a major collection can be missed.

  \<^bold>\<open>Errors, loops and concurrency.\<close> An operation that may fail gives \<open>Inr\<close> of its result, or \<open>Inl\<close> of an
  error: \<open>Crash\<close> for an assertion or an abort, \<open>Diverge\<close> for a loop that never ends. A loop is recursion where
  it is structural, else \<open>while_option\<close> (or \<open>while_result\<close>, with errors), whose \<open>None\<close> means that it runs for ever;
  that it does not is shown, here or in the lemmas. Only \<open>semi_visit\<close> takes fuel: it calls itself on the edges of
  an external or large object, and one unit for each unmarked reachable large object and one more is enough; the
  theorems that need this say so and show that the trace returns. What runs in parallel is a
  step relation with one step for each access that others can notice, sequentially consistent: the weaker
  orderings of C11, for which the code has fences, are outside. Everything that a lock guards from start to
  end is one step.

  \<^bold>\<open>What is a parameter.\<close> The embedder; memory from the operating system (\<open>gc_platform_acquire_memory\<close>); the
  test and the visitor of a collector, in ephemerons and finalizers; the heap sizer; \<open>strtod\<close>.

  \<^bold>\<open>What is not modelled.\<close> The composition of the phases in \<open>collect\<close> of \<open>mmc.c\<close> (in \<open>semi.c\<close> it is modelled) and
  all of \<open>pcc.c\<close>, whose parts are; \<open>bdw.c\<close>, which binds another collector; the heap sizers; the platform and
  the scanning of native stacks; tracepoints and event listeners; the checks of debug builds; the programs
  under \<open>benchmarks\<close> and \<open>test\<close>.
\<close>

end
